(* ===== verification/Prelude.thy ===== *)
theory Prelude
  imports Main "HOL-Library.Word" "HOL-Library.Product_Lexorder"
begin

text \<open>
  Shared vocabulary of the development: the machine-integer types of the Rust sources, Rust's
  saturating and checked integer operations, slices of byte arrays with their bounds checks, the
  little- and big-endian integer codecs, and the iterator searches (\<open>position\<close>,
  \<open>min_by_key\<close>) that the fixed-capacity tables of the engine use. \<open>usize\<close> values
  (lengths, slot indices, const-generic capacities) are natural numbers.
\<close>

unbundle bit_operations_syntax

section \<open>Types\<close>

type_synonym u8 = "8 word"
type_synonym u16 = "16 word"
type_synonym u32 = "32 word"
type_synonym u64 = "64 word"
type_synonym u128 = "128 word"
type_synonym usize = nat
type_synonym bytes = "u8 list"

text \<open>Handles into the peer table and the session slot pool.\<close>

type_synonym peer_idx = u32
type_synonym slot_idx = u32

text \<open>The error type of the crate (\<open>microtun-core/src/error.rs\<close>) and its results.\<close>

datatype error =
    BufferTooSmall
  | InvalidCapacity
  | InvalidCoreConfig
  | TimeOverflow
  | InternalInvariant
  | MalformedIpPacket
  | PacketTooLarge
  | PeerTableFull
  | PeerAdmissionLimited
  | InvalidPrivateKey
  | InvalidPinnedConfiguration
  | SessionPoolFull
  | SessionIndexGenerationFailed
  | RouteCacheFull
  | ResolverBusy
  | Crypto
  | NoWallClock
  | NoEndpoint
  | RelayUnavailable
  | InvalidResolverAnswer

type_synonym 'a result = "error + 'a"

text \<open>Rust's \<open>?\<close> on results, and \<open>ok_or\<close>.\<close>

definition rbind :: "'a result \<Rightarrow> ('a \<Rightarrow> 'b result) \<Rightarrow> 'b result" where
  "rbind x f = (case x of Inl e \<Rightarrow> Inl e | Inr a \<Rightarrow> f a)"

definition ok_or :: "'a option \<Rightarrow> error \<Rightarrow> 'a result" where
  "ok_or x e = (case x of None \<Rightarrow> Inl e | Some a \<Rightarrow> Inr a)"

lemma rbind_simps [simp]: "rbind (Inl e) f = Inl e" "rbind (Inr a) f = f a"
  by (simp_all add: rbind_def)

lemma rbind_eq_Inr: "rbind x f = Inr y \<longleftrightarrow> (\<exists>a. x = Inr a \<and> f a = Inr y)"
  by (cases x) auto

lemma ok_or_simps [simp]: "ok_or None e = Inl e" "ok_or (Some a) e = Inr a"
  by (simp_all add: ok_or_def)

lemma ok_or_eq_Inr: "ok_or x e = Inr y \<longleftrightarrow> x = Some y"
  by (cases x) auto

named_theorems sat_simps \<open>natural-number readings of the saturating word operations\<close>
named_theorems slice_simps \<open>lengths and contents of byte slices\<close>

section \<open>Saturating integer arithmetic\<close>

definition sat_add :: "'a::len word \<Rightarrow> 'a word \<Rightarrow> 'a word" where
  "sat_add a b = (if unat a + unat b < 2 ^ LENGTH('a) then a + b else - 1)"

definition sat_sub :: "'a::len word \<Rightarrow> 'a word \<Rightarrow> 'a word" where
  "sat_sub a b = (if b \<le> a then a - b else 0)"

definition sat_mul :: "'a::len word \<Rightarrow> 'a word \<Rightarrow> 'a word" where
  "sat_mul a b = (if unat a * unat b < 2 ^ LENGTH('a) then a * b else - 1)"

definition checked_add :: "'a::len word \<Rightarrow> 'a word \<Rightarrow> 'a word option" where
  "checked_add a b = (if unat a + unat b < 2 ^ LENGTH('a) then Some (a + b) else None)"

lemma unat_minus_one_word: "unat (- 1 :: 'a::len word) = 2 ^ LENGTH('a) - 1"
  by (simp add: unsigned_minus_1_eq_mask mask_eq_exp_minus_1)

lemma unat_sat_add [sat_simps]:
  "unat (sat_add a b) = min (unat a + unat b) (2 ^ LENGTH('a) - 1)"
  for a b :: "'a::len word"
  by (auto simp: sat_add_def unat_word_ariths unat_minus_one_word)

lemma unat_sat_sub [sat_simps]: "unat (sat_sub a b) = unat a - unat b"
  by (auto simp: sat_sub_def unat_sub word_le_nat_alt)

lemma unat_sat_mul [sat_simps]:
  "unat (sat_mul a b) = min (unat a * unat b) (2 ^ LENGTH('a) - 1)"
  for a b :: "'a::len word"
  by (auto simp: sat_mul_def unat_word_ariths unat_minus_one_word)

lemma sat_sub_le: "sat_sub a b \<le> a"
  by (simp add: word_le_nat_alt sat_simps)

lemma sat_add_zero [simp]: "sat_add a 0 = a"
  by (simp add: sat_add_def)

lemma unat_le_max: "unat a \<le> 2 ^ LENGTH('a) - 1"
  for a :: "'a::len word"
  using unsigned_less [of a, where 'a = nat] by linarith

lemma sat_add_mono: "a \<le> sat_add a b"
  using unat_le_max [of a] by (simp add: word_le_nat_alt sat_simps)

lemma checked_add_Some: "checked_add a b = Some c \<Longrightarrow> unat c = unat a + unat b"
  by (auto simp: checked_add_def unat_word_ariths split: if_splits)

text \<open>Integer casts: \<open>as\<close> truncates, widening keeps the value.\<close>

lemma unat_ucast_mod: "unat (ucast x :: 'b::len word) = unat x mod 2 ^ LENGTH('b)"
  by (simp add: unsigned_ucast_eq take_bit_eq_mod)

lemma unat_ucast_small: "unat x < 2 ^ LENGTH('b) \<Longrightarrow> unat (ucast x :: 'b::len word) = unat x"
  by (simp add: unat_ucast_mod)

lemma unat_ucast_widen:
  fixes x :: "'a::len word"
  assumes "LENGTH('a) \<le> LENGTH('b)"
  shows "unat (ucast x :: 'b::len word) = unat x"
proof (rule unat_ucast_small)
  have "unat x < 2 ^ LENGTH('a)" by (rule unsigned_less)
  also have "(2::nat) ^ LENGTH('a) \<le> 2 ^ LENGTH('b)" using assms by simp
  finally show "unat x < 2 ^ LENGTH('b)" .
qed

lemma unat_min [sat_simps]: "unat (min x y) = min (unat x) (unat y)"
  by (simp add: min_def word_le_nat_alt)

section \<open>Slices\<close>

text \<open>
  \<open>xs.get(i)\<close>, \<open>xs.get(a..b)\<close> and \<open>xs[a..].copy_from_slice(ys)\<close>. The last one
  is used by the sources only where the destination range has the length of the source.
\<close>

definition get_at :: "'a list \<Rightarrow> nat \<Rightarrow> 'a option" where
  "get_at xs i = (if i < length xs then Some (xs ! i) else None)"

definition get_range :: "'a list \<Rightarrow> nat \<Rightarrow> nat \<Rightarrow> 'a list option" where
  "get_range xs a b = (if a \<le> b \<and> b \<le> length xs then Some (take (b - a) (drop a xs)) else None)"

definition slice :: "'a list \<Rightarrow> nat \<Rightarrow> nat \<Rightarrow> 'a list" where
  "slice xs a b = take (b - a) (drop a xs)"

definition put_slice :: "'a list \<Rightarrow> nat \<Rightarrow> 'a list \<Rightarrow> 'a list" where
  "put_slice xs a ys = take a xs @ ys @ drop (a + length ys) xs"

lemma get_range_eq_slice: "a \<le> b \<Longrightarrow> b \<le> length xs \<Longrightarrow> get_range xs a b = Some (slice xs a b)"
  by (simp add: get_range_def slice_def)

lemma get_range_SomeD:
  "get_range xs a b = Some ys \<Longrightarrow> a \<le> b \<and> b \<le> length xs \<and> ys = slice xs a b \<and> length ys = b - a"
  by (auto simp: get_range_def slice_def split: if_splits)

lemma get_at_SomeD: "get_at xs i = Some x \<Longrightarrow> i < length xs \<and> x = xs ! i"
  by (auto simp: get_at_def split: if_splits)

lemma length_slice [slice_simps]: "b \<le> length xs \<Longrightarrow> length (slice xs a b) = b - a"
  by (simp add: slice_def)

lemma length_put_slice [slice_simps]:
  "a + length ys \<le> length xs \<Longrightarrow> length (put_slice xs a ys) = length xs"
  by (simp add: put_slice_def)

lemma slice_put_same [slice_simps]:
  "a + length ys \<le> length xs \<Longrightarrow> b = a + length ys \<Longrightarrow> slice (put_slice xs a ys) a b = ys"
  by (simp add: slice_def put_slice_def)

lemma slice_put_before [slice_simps]:
  assumes "b \<le> k" "k + length ys \<le> length xs"
  shows "slice (put_slice xs k ys) a b = slice xs a b"
  using assms by (cases "a \<le> b") (simp_all add: slice_def put_slice_def drop_take min_def)

lemma slice_put_after [slice_simps]:
  assumes "k + length ys \<le> a" "k + length ys \<le> length xs"
  shows "slice (put_slice xs k ys) a b = slice xs a b"
proof -
  have "drop a (put_slice xs k ys) = drop a xs"
    using assms by (simp add: put_slice_def)
  then show ?thesis by (simp add: slice_def)
qed

section \<open>Byte order\<close>

primrec le_value :: "bytes \<Rightarrow> nat" where
  "le_value [] = 0"
| "le_value (b # bs) = unat b + 256 * le_value bs"

primrec le_digits :: "nat \<Rightarrow> nat \<Rightarrow> bytes" where
  "le_digits 0 v = []"
| "le_digits (Suc n) v = word_of_nat (v mod 256) # le_digits n (v div 256)"

definition to_le_bytes :: "'a::len word \<Rightarrow> bytes" where
  "to_le_bytes w = le_digits (LENGTH('a) div 8) (unat w)"

definition to_be_bytes :: "'a::len word \<Rightarrow> bytes" where
  "to_be_bytes w = rev (to_le_bytes w)"

definition from_le_bytes :: "bytes \<Rightarrow> 'a::len word" where
  "from_le_bytes bs = word_of_nat (le_value bs)"

definition from_be_bytes :: "bytes \<Rightarrow> 'a::len word" where
  "from_be_bytes bs = from_le_bytes (rev bs)"

lemma length_le_digits [simp]: "length (le_digits n v) = n"
  by (induction n arbitrary: v) auto

lemma length_to_le_bytes [simp]: "length (to_le_bytes w) = LENGTH('a) div 8"
  for w :: "'a::len word"
  by (simp add: to_le_bytes_def)

lemma length_to_be_bytes [simp]: "length (to_be_bytes w) = LENGTH('a) div 8"
  for w :: "'a::len word"
  by (simp add: to_be_bytes_def)

lemma le_value_digits: "le_value (le_digits n v) = v mod 256 ^ n"
proof (induction n arbitrary: v)
  case (Suc n)
  have "unat (word_of_nat (v mod 256) :: u8) = v mod 256"
    by (simp add: unat_of_nat)
  with Suc show ?case by (simp add: mod_mult2_eq)
qed simp

lemma le_value_bound: "le_value bs < 256 ^ length bs"
proof (induction bs)
  case (Cons b bs)
  then show ?case using unsigned_less [of b, where 'a = nat] by simp
qed simp

lemma le_digits_value: "le_digits (length bs) (le_value bs) = bs"
proof (induction bs)
  case (Cons b bs)
  have "unat b < 256" using unsigned_less [of b, where 'a = nat] by simp
  then have "(unat b + 256 * le_value bs) mod 256 = unat b"
    and "(unat b + 256 * le_value bs) div 256 = le_value bs" by simp_all
  with Cons show ?case by simp
qed simp

lemma from_to_le_bytes:
  fixes w :: "'a::len word"
  assumes "8 dvd LENGTH('a)"
  shows "from_le_bytes (to_le_bytes w) = w"
proof -
  have "(256::nat) ^ (LENGTH('a) div 8) = 2 ^ LENGTH('a)"
    using assms power_mult [of "2::nat" 8 "LENGTH('a) div 8"] by simp
  then show ?thesis
    by (simp add: from_le_bytes_def to_le_bytes_def le_value_digits unsigned_less)
qed

lemma to_from_le_bytes:
  assumes "length bs = LENGTH('a) div 8" "8 dvd LENGTH('a)"
  shows "to_le_bytes (from_le_bytes bs :: 'a::len word) = bs"
proof -
  have "(256::nat) ^ length bs = 2 ^ LENGTH('a)"
    using assms power_mult [of "2::nat" 8 "LENGTH('a) div 8"] by simp
  with le_value_bound [of bs] have "unat (from_le_bytes bs :: 'a word) = le_value bs"
    by (simp add: from_le_bytes_def unat_of_nat)
  then show ?thesis
    using le_digits_value [of bs] assms(1) by (simp add: to_le_bytes_def)
qed

lemma from_to_be_bytes: "8 dvd LENGTH('a) \<Longrightarrow> from_be_bytes (to_be_bytes w) = w"
  for w :: "'a::len word"
  by (simp add: from_be_bytes_def to_be_bytes_def from_to_le_bytes)

lemma to_from_be_bytes:
  "length bs = LENGTH('a) div 8 \<Longrightarrow> 8 dvd LENGTH('a) \<Longrightarrow>
    to_be_bytes (from_be_bytes bs :: 'a::len word) = bs"
  by (simp add: from_be_bytes_def to_be_bytes_def to_from_le_bytes)

section \<open>Iterator searches\<close>

fun position :: "('a \<Rightarrow> bool) \<Rightarrow> 'a list \<Rightarrow> nat option" where
  "position P [] = None"
| "position P (x # xs) = (if P x then Some 0 else map_option Suc (position P xs))"

text \<open>Rust's \<open>min_by_key\<close> returns the first of several equally small elements.\<close>

fun min_by :: "('a \<Rightarrow> 'k::linorder) \<Rightarrow> 'a list \<Rightarrow> 'a option" where
  "min_by key [] = None"
| "min_by key (x # xs) =
     (case min_by key xs of
        None \<Rightarrow> Some x
      | Some y \<Rightarrow> if key x \<le> key y then Some x else Some y)"

lemma in_map_filter: "y \<in> set (List.map_filter f xs) \<longleftrightarrow> (\<exists>x\<in>set xs. f x = Some y)"
  by (force simp: List.map_filter_def)

lemma position_None_iff: "position P xs = None \<longleftrightarrow> (\<forall>x\<in>set xs. \<not> P x)"
  by (induction xs) auto

lemma position_SomeD:
  "position P xs = Some i \<Longrightarrow> i < length xs \<and> P (xs ! i) \<and> (\<forall>j<i. \<not> P (xs ! j))"
proof (induction xs arbitrary: i)
  case (Cons x xs)
  show ?case
  proof (cases "P x")
    case False
    with Cons.prems obtain k where "position P xs = Some k" "i = Suc k" by auto
    with Cons.IH [of k] False show ?thesis by (auto simp: less_Suc_eq_0_disj)
  qed (use Cons.prems in simp)
qed simp

lemma position_exists: "x \<in> set xs \<Longrightarrow> P x \<Longrightarrow> \<exists>i. position P xs = Some i"
  by (metis option.exhaust position_None_iff)

lemma min_by_None_iff [simp]: "min_by key xs = None \<longleftrightarrow> xs = []"
  by (cases xs) (auto split: option.splits)

lemma min_by_SomeD: "min_by key xs = Some x \<Longrightarrow> x \<in> set xs \<and> (\<forall>y\<in>set xs. key x \<le> key y)"
proof (induction xs arbitrary: x)
  case (Cons a xs)
  show ?case
  proof (cases "min_by key xs")
    case None
    with Cons.prems show ?thesis by (auto split: option.splits if_splits)
  next
    case (Some y)
    with Cons.IH [of y] Cons.prems show ?thesis by (auto split: if_splits)
  qed
qed simp

lemma min_by_map: "min_by key (map f xs) = map_option f (min_by (\<lambda>x. key (f x)) xs)"
  by (induction xs) (auto split: option.splits)

lemma min_by_first:
  assumes "\<And>y. y \<in> set ys \<Longrightarrow> key x < key y" "\<And>z. z \<in> set zs \<Longrightarrow> key x \<le> key z"
  shows "min_by key (ys @ x # zs) = Some x"
  using assms
proof (induction ys)
  case Nil
  show ?case
  proof (cases "min_by key zs")
    case (Some z)
    with min_by_SomeD [OF this] Nil show ?thesis by auto
  qed simp
next
  case (Cons y ys)
  then have "min_by key (ys @ x # zs) = Some x" "key x < key y" by auto
  then show ?case by (auto simp: not_le [symmetric])
qed

lemma min_by_exists: "xs \<noteq> [] \<Longrightarrow> \<exists>x. min_by key xs = Some x"
  by (metis option.exhaust min_by_None_iff)

section \<open>Runs\<close>

text \<open>The answers of a stateful predicate on a sequence of requests.\<close>

fun verdicts :: "('s \<Rightarrow> 'c \<Rightarrow> bool \<times> 's) \<Rightarrow> 's \<Rightarrow> 'c list \<Rightarrow> bool list" where
  "verdicts f s [] = []"
| "verdicts f s (c # cs) = (let r = f s c in fst r # verdicts f (snd r) cs)"

lemma length_verdicts [simp]: "length (verdicts f s cs) = length cs"
  by (induction cs arbitrary: s) (auto simp: Let_def)

end
