(* ===== verification/Clock.thy ===== *)
theory Clock
  imports Prelude
begin

text \<open>
  Monotonic time (\<open>microtun-core/src/time.rs\<close>): instants and durations in milliseconds as
  64-bit words with saturating arithmetic, and the cached lower bound on the next timer deadline.
  The main result is the cache's single invariant: under any interleaving of arming, clearing and
  exact recomputation, the cached bound is never later than a live deadline.
\<close>

section \<open>Instants and durations\<close>

type_synonym instant = u64
type_synonym duration = u64

definition saturating_since :: "instant \<Rightarrow> instant \<Rightarrow> duration" where
  "saturating_since now earlier = sat_sub now earlier"

definition instant_add :: "instant \<Rightarrow> duration \<Rightarrow> instant" where
  "instant_add t d = sat_add t d"

definition duration_from_secs :: "u64 \<Rightarrow> duration" where
  "duration_from_secs s = sat_mul s 1000"

definition duration_add :: "duration \<Rightarrow> duration \<Rightarrow> duration" where
  "duration_add a b = sat_add a b"

definition duration_sub :: "duration \<Rightarrow> duration \<Rightarrow> duration" where
  "duration_sub a b = sat_sub a b"

fun min_deadline :: "instant option \<Rightarrow> instant option \<Rightarrow> instant option" where
  "min_deadline None b = b"
| "min_deadline a None = a"
| "min_deadline (Some a) (Some b) = Some (min a b)"

section \<open>The timer cache\<close>

record timer_cache =
  tc_at :: "instant option"

definition timer_new :: timer_cache where
  "timer_new = \<lparr>tc_at = None\<rparr>"

definition timer_get :: "timer_cache \<Rightarrow> instant option" where
  "timer_get c = tc_at c"

definition timer_arm :: "timer_cache \<Rightarrow> instant \<Rightarrow> timer_cache" where
  "timer_arm c t =
     (if (case tc_at c of None \<Rightarrow> True | Some current \<Rightarrow> t < current)
      then c\<lparr>tc_at := Some t\<rparr> else c)"

definition timer_set_exact :: "timer_cache \<Rightarrow> instant option \<Rightarrow> timer_cache" where
  "timer_set_exact c t = c\<lparr>tc_at := t\<rparr>"

section \<open>Elapsed time\<close>

lemmas clock_defs = saturating_since_def instant_add_def duration_from_secs_def
  duration_add_def duration_sub_def

lemma unat_saturating_since [sat_simps]: "unat (saturating_since a b) = unat a - unat b"
  by (simp add: saturating_since_def sat_simps)

lemma unat_instant_add [sat_simps]: "unat (instant_add t d) = min (unat t + unat d) (2 ^ 64 - 1)"
  by (simp add: instant_add_def sat_simps)

lemma since_self [simp]: "saturating_since t t = 0"
  by (simp add: saturating_since_def sat_sub_def)

lemma since_add_le: "saturating_since (instant_add t d) t \<le> d"
  by (simp add: word_le_nat_alt sat_simps)

lemma instant_add_ge: "t \<le> instant_add t d"
  by (simp add: instant_add_def sat_add_mono)

text \<open>
  A deadline \<open>t + d\<close> has passed exactly when \<open>d\<close> has elapsed since \<open>t\<close>, as long
  as the deadline itself is representable; the two forms are used interchangeably by the engine.
\<close>

lemma elapsed_iff_deadline_passed:
  assumes "unat t + unat d < 2 ^ 64" "t \<le> now"
  shows "d \<le> saturating_since now t \<longleftrightarrow> instant_add t d \<le> now"
  using assms by (auto simp: word_le_nat_alt sat_simps)

section \<open>The cache never misses a deadline\<close>

text \<open>
  The engine's timers as a set of live deadlines beside the cache. Arming installs a deadline and
  lowers the bound; clearing removes a deadline and touches nothing else; an exact recomputation
  stores the minimum of the live deadlines.
\<close>

inductive timer_step :: "timer_cache \<times> instant set \<Rightarrow> timer_cache \<times> instant set \<Rightarrow> bool" where
  arm: "timer_step (c, live) (timer_arm c t, insert t live)"
| clear: "timer_step (c, live) (c, live - {t})"
| exact: "finite live \<Longrightarrow>
    timer_step (c, live) (timer_set_exact c (if live = {} then None else Some (Min live)), live)"

inductive timer_reachable :: "timer_cache \<times> instant set \<Rightarrow> bool" where
  init: "timer_reachable (timer_new, {})"
| step: "timer_reachable s \<Longrightarrow> timer_step s s' \<Longrightarrow> timer_reachable s'"

definition never_late :: "timer_cache \<Rightarrow> instant set \<Rightarrow> bool" where
  "never_late c live \<longleftrightarrow> (\<forall>d\<in>live. \<exists>b. timer_get c = Some b \<and> b \<le> d)"

lemma timer_arm_get:
  "timer_get (timer_arm c t) = min_deadline (timer_get c) (Some t)"
  by (cases "tc_at c") (auto simp: timer_arm_def timer_get_def min_def)

lemma timer_step_never_late:
  "timer_step s s' \<Longrightarrow> never_late (fst s) (snd s) \<Longrightarrow> never_late (fst s') (snd s')"
proof (induction rule: timer_step.induct)
  case (arm c live t)
  then show ?case
    by (cases "timer_get c") (fastforce simp: never_late_def timer_arm_get min_def)+
qed (auto simp: never_late_def timer_get_def timer_set_exact_def)

lemma timer_reachable_never_late: "timer_reachable s \<Longrightarrow> never_late (fst s) (snd s)"
  by (induction rule: timer_reachable.induct)
    (auto simp: never_late_def dest: timer_step_never_late)

section \<open>Property\<close>

text \<open>
  Whatever sequence of arming, clearing and exact recomputation led to it, the cached bound is
  never later than a live deadline, so a sleep until the cached instant misses no timer.
\<close>

theorem timer_cache_never_late:
  assumes "timer_reachable (c, live)" and "d \<in> live"
  shows "\<exists>b. timer_get c = Some b \<and> b \<le> d"
  using timer_reachable_never_late [OF assms(1)] assms(2) by (simp add: never_late_def)

end
