(* ===== verification/Constants.thy ===== *)
theory Constants
  imports Clock
begin

text \<open>
  Protocol constants and tunables (\<open>microtun-core/src/constants.rs\<close>). Where a constant depends
  on the \<open>alloc\<close> feature, the value of the default, allocation-free build is the one modelled.
\<close>

section \<open>Protocol timers and limits\<close>

definition REKEY_AFTER_MESSAGES :: u64 where "REKEY_AFTER_MESSAGES = push_bit 60 1"
definition REJECT_AFTER_MESSAGES :: u64 where "REJECT_AFTER_MESSAGES = - 1 - push_bit 13 1"
definition REKEY_AFTER_TIME :: duration where "REKEY_AFTER_TIME = duration_from_secs 120"
definition REJECT_AFTER_TIME :: duration where "REJECT_AFTER_TIME = duration_from_secs 180"
definition REKEY_ATTEMPT_TIME :: duration where "REKEY_ATTEMPT_TIME = duration_from_secs 90"
definition REKEY_TIMEOUT :: duration where "REKEY_TIMEOUT = duration_from_secs 5"
definition REKEY_AFTER_TIME_JITTER_MAX :: duration where "REKEY_AFTER_TIME_JITTER_MAX = duration_from_secs 10"
definition KEEPALIVE_TIMEOUT :: duration where "KEEPALIVE_TIMEOUT = duration_from_secs 10"
definition HANDSHAKE_INITIATION_MIN_INTERVAL :: duration where "HANDSHAKE_INITIATION_MIN_INTERVAL = 20"
definition REKEY_TIMEOUT_JITTER_MAX :: duration where "REKEY_TIMEOUT_JITTER_MAX = 333"

section \<open>Tunables\<close>

definition COOKIE_REFRESH_TIME :: duration where "COOKIE_REFRESH_TIME = duration_from_secs 120"
definition DEFAULT_RESOLVE_TIMEOUT :: duration where "DEFAULT_RESOLVE_TIMEOUT = duration_from_secs 10"
definition DEFAULT_RESOLVE_OUTBOUND_TIMEOUT :: duration where "DEFAULT_RESOLVE_OUTBOUND_TIMEOUT = duration_from_secs 10"
definition DEFAULT_NEGATIVE_TTL :: duration where "DEFAULT_NEGATIVE_TTL = duration_from_secs 60"
definition DEFAULT_DYNAMIC_PEER_MIN_IDLE :: duration where "DEFAULT_DYNAMIC_PEER_MIN_IDLE = duration_from_secs 30"
definition DEFAULT_PEER_EVICTION_INTERVAL :: duration where "DEFAULT_PEER_EVICTION_INTERVAL = duration_from_secs 10"
definition DEFAULT_PEER_EVICTION_GHOST_TTL :: duration where "DEFAULT_PEER_EVICTION_GHOST_TTL = duration_from_secs 60"
definition DEFAULT_RELAY_RESOLVE_MIN_INTERVAL :: duration where "DEFAULT_RELAY_RESOLVE_MIN_INTERVAL = duration_from_secs 5"
definition DEFAULT_FIREWALL_UDP_TIMEOUT :: duration where "DEFAULT_FIREWALL_UDP_TIMEOUT = duration_from_secs 60"
definition DEFAULT_FIREWALL_ICMP_TIMEOUT :: duration where "DEFAULT_FIREWALL_ICMP_TIMEOUT = duration_from_secs 30"
definition DEFAULT_FIREWALL_TCP_TIMEOUT :: duration where "DEFAULT_FIREWALL_TCP_TIMEOUT = duration_from_secs (30 * 60)"
definition DEFAULT_FIREWALL_TCP_CLOSING_TIMEOUT :: duration where "DEFAULT_FIREWALL_TCP_CLOSING_TIMEOUT = duration_from_secs 30"
definition DEFAULT_PEER_EVICTION_BURST :: u32 where "DEFAULT_PEER_EVICTION_BURST = 1"
definition DEFAULT_UNDER_LOAD_HANDSHAKES_PER_SEC :: u32 where "DEFAULT_UNDER_LOAD_HANDSHAKES_PER_SEC = 8"
definition DEFAULT_RATE_LIMIT_PER_SEC :: u32 where "DEFAULT_RATE_LIMIT_PER_SEC = 20"
definition DEFAULT_RATE_LIMIT_BURST :: u32 where "DEFAULT_RATE_LIMIT_BURST = 5"
definition DEFAULT_REMOTE_RESOLVE_PER_SEC :: u32 where "DEFAULT_REMOTE_RESOLVE_PER_SEC = 1"
definition DEFAULT_REMOTE_RESOLVE_BURST :: u32 where "DEFAULT_REMOTE_RESOLVE_BURST = 4"
definition DEFAULT_UNKNOWN_AUTH_PER_SEC :: u32 where "DEFAULT_UNKNOWN_AUTH_PER_SEC = 2"
definition DEFAULT_UNKNOWN_AUTH_BURST :: u32 where "DEFAULT_UNKNOWN_AUTH_BURST = 4"
definition MAX_RATE_LIMIT_ENTRIES :: usize where "MAX_RATE_LIMIT_ENTRIES = 64"
definition DEFAULT_RATE_LIMIT_ENTRIES :: usize where "DEFAULT_RATE_LIMIT_ENTRIES = MAX_RATE_LIMIT_ENTRIES"
definition MAX_PEER_EVICTION_GHOSTS :: usize where "MAX_PEER_EVICTION_GHOSTS = 16"
definition DEFAULT_PEER_EVICTION_GHOSTS :: usize where "DEFAULT_PEER_EVICTION_GHOSTS = 8"
definition DEFAULT_LAZY_PEER_RESERVE :: usize where "DEFAULT_LAZY_PEER_RESERVE = 1"
definition DEFAULT_UNDER_LOAD_FREE_SLOTS :: usize where "DEFAULT_UNDER_LOAD_FREE_SLOTS = 1"
definition MAX_INFLIGHT_RESOLVES :: usize where "MAX_INFLIGHT_RESOLVES = 12"
definition DEFAULT_INFLIGHT_RESOLVES :: usize where "DEFAULT_INFLIGHT_RESOLVES = 12"
definition MAX_PENDING_INITIATIONS :: usize where "MAX_PENDING_INITIATIONS = 4"
definition MAX_PENDING_PACKETS :: usize where "MAX_PENDING_PACKETS = 2"

section \<open>Their values in milliseconds\<close>

lemma unat_from_secs:
  "unat s * 1000 < 2 ^ 64 \<Longrightarrow> unat (duration_from_secs s) = unat s * 1000"
  by (simp add: duration_from_secs_def unat_sat_mul)

lemma protocol_time_values [simp]:
  "unat REKEY_AFTER_TIME = 120000" "unat REJECT_AFTER_TIME = 180000"
  "unat REKEY_ATTEMPT_TIME = 90000" "unat REKEY_TIMEOUT = 5000"
  "unat REKEY_AFTER_TIME_JITTER_MAX = 10000" "unat KEEPALIVE_TIMEOUT = 10000"
  "unat COOKIE_REFRESH_TIME = 120000"
  "unat HANDSHAKE_INITIATION_MIN_INTERVAL = 20" "unat REKEY_TIMEOUT_JITTER_MAX = 333"
  by (simp_all add: REKEY_AFTER_TIME_def REJECT_AFTER_TIME_def REKEY_ATTEMPT_TIME_def
      REKEY_TIMEOUT_def REKEY_AFTER_TIME_JITTER_MAX_def KEEPALIVE_TIMEOUT_def COOKIE_REFRESH_TIME_def
      HANDSHAKE_INITIATION_MIN_INTERVAL_def REKEY_TIMEOUT_JITTER_MAX_def unat_from_secs)

lemma protocol_message_limits:
  "unat REKEY_AFTER_MESSAGES = 2 ^ 60" "unat REJECT_AFTER_MESSAGES = 2 ^ 64 - 2 ^ 13 - 1"
  by (simp_all add: REKEY_AFTER_MESSAGES_def REJECT_AFTER_MESSAGES_def)

end
