(* ===== verification/Replay.thy ===== *)
theory Replay
  imports Prelude
begin

text \<open>
  The anti-replay sliding window (\<open>microtun-core/src/replay.rs\<close>): a ring of 64-bit words as in
  RFC 6479. The window is shown to implement an ideal filter that remembers every accepted counter:
  on every sequence of counters both give the same verdicts, so no counter is ever accepted twice
  and no fresh counter inside the window is refused.
\<close>

section \<open>The ring bitmap\<close>

definition WORD_BITS :: u64 where
  "WORD_BITS = 64"

record replay_window =
  rw_bitmap :: "u64 list"
  rw_top :: "u64 option"

text \<open>The associated constant \<open>WINDOW\<close>, as a function of \<open>REPLAY_WORDS\<close>.\<close>

definition WINDOW :: "usize \<Rightarrow> u64" where
  "WINDOW words = WORD_BITS * word_of_nat (words - 1)"

text \<open>\<open>None\<close> is the failed assertion that at least one word is needed.\<close>

definition replay_new :: "usize \<Rightarrow> replay_window option" where
  "replay_new words =
     (if words > 0 then Some \<lparr>rw_bitmap = replicate words 0, rw_top = None\<rparr> else None)"

definition block_index :: "usize \<Rightarrow> u64 \<Rightarrow> usize" where
  "block_index words index = unat (index mod word_of_nat words)"

definition get_bit :: "replay_window \<Rightarrow> u64 \<Rightarrow> bool" where
  "get_bit w counter =
     (let blk = block_index (length (rw_bitmap w)) (counter div WORD_BITS);
          bt = counter mod WORD_BITS
      in case get_at (rw_bitmap w) blk of
           None \<Rightarrow> False
         | Some word \<Rightarrow> drop_bit (unat bt) word AND 1 = 1)"

definition set_bit :: "replay_window \<Rightarrow> u64 \<Rightarrow> bool \<times> replay_window" where
  "set_bit w counter =
     (let blk = block_index (length (rw_bitmap w)) (counter div WORD_BITS);
          bt = counter mod WORD_BITS
      in case get_at (rw_bitmap w) blk of
           None \<Rightarrow> (False, w)
         | Some word \<Rightarrow>
             (True, w\<lparr>rw_bitmap := (rw_bitmap w)[blk := word OR push_bit (unat bt) 1]\<rparr>))"

text \<open>The loop \<open>for i in 1..=diff\<close>, over the remaining values of \<open>i\<close>.\<close>

fun clear_blocks :: "u64 \<Rightarrow> u64 list \<Rightarrow> u64 list \<Rightarrow> bool \<times> u64 list" where
  "clear_blocks top_index [] bitmap = (True, bitmap)"
| "clear_blocks top_index (i # is) bitmap =
     (let blk = block_index (length bitmap) (top_index + i)
      in if blk < length bitmap then clear_blocks top_index is (bitmap[blk := 0])
         else (False, bitmap))"

definition check_and_update :: "replay_window \<Rightarrow> u64 \<Rightarrow> bool \<times> replay_window" where
  "check_and_update w counter =
     (let words = length (rw_bitmap w); index = counter div WORD_BITS
      in case rw_top w of
           None \<Rightarrow>
             (case set_bit (w\<lparr>rw_bitmap := replicate words 0\<rparr>) counter of
                (False, w') \<Rightarrow> (False, w')
              | (True, w') \<Rightarrow> (True, w'\<lparr>rw_top := Some counter\<rparr>))
         | Some top_counter \<Rightarrow>
             if counter > top_counter then
               (let top_index = top_counter div WORD_BITS;
                    diff = min (index - top_index) (word_of_nat words)
                in case clear_blocks top_index (map word_of_nat [1..<Suc (unat diff)]) (rw_bitmap w) of
                     (False, bitmap) \<Rightarrow> (False, w\<lparr>rw_bitmap := bitmap\<rparr>)
                   | (True, bitmap) \<Rightarrow>
                       (case set_bit (w\<lparr>rw_bitmap := bitmap\<rparr>) counter of
                          (False, w') \<Rightarrow> (False, w')
                        | (True, w') \<Rightarrow> (True, w'\<lparr>rw_top := Some counter\<rparr>)))
             else if top_counter - counter > WINDOW words then (False, w)
             else if get_bit w counter then (False, w)
             else set_bit w counter)"

section \<open>The ideal filter\<close>

text \<open>
  The specification remembers all accepted counters. It accepts a counter above the highest one, or
  one that is at most \<open>if_window\<close> behind it and new.
\<close>

record ideal_filter =
  if_window :: nat
  if_top :: "nat option"
  if_seen :: "nat set"

definition ideal_accepts :: "ideal_filter \<Rightarrow> nat \<Rightarrow> bool" where
  "ideal_accepts a c \<longleftrightarrow>
     (case if_top a of
        None \<Rightarrow> True
      | Some t \<Rightarrow> c > t \<or> (t - c \<le> if_window a \<and> c \<notin> if_seen a))"

definition ideal_step :: "ideal_filter \<Rightarrow> nat \<Rightarrow> bool \<times> ideal_filter" where
  "ideal_step a c =
     (if ideal_accepts a c then
        (True, a\<lparr>if_top := Some (case if_top a of None \<Rightarrow> c | Some t \<Rightarrow> max t c),
                 if_seen := insert c (if_seen a)\<rparr>)
      else (False, a))"

definition ideal_new :: "nat \<Rightarrow> ideal_filter" where
  "ideal_new window = \<lparr>if_window = window, if_top = None, if_seen = {}\<rparr>"

lemma ideal_seen_step: "c \<in> if_seen (snd (ideal_step a c')) \<longleftrightarrow>
    c \<in> if_seen a \<or> c = c' \<and> ideal_accepts a c'"
  by (auto simp: ideal_step_def)

text \<open>A seen counter is never above the highest one, and is refused ever after.\<close>

definition ideal_wf :: "ideal_filter \<Rightarrow> bool" where
  "ideal_wf a \<longleftrightarrow> (case if_top a of None \<Rightarrow> if_seen a = {} | Some t \<Rightarrow> \<forall>s\<in>if_seen a. s \<le> t)"

lemma ideal_wf_new [simp]: "ideal_wf (ideal_new W)"
  by (simp add: ideal_wf_def ideal_new_def)

lemma ideal_wf_step: "ideal_wf a \<Longrightarrow> ideal_wf (snd (ideal_step a c))"
  by (auto simp: ideal_wf_def ideal_step_def split: option.splits)

lemma ideal_rejects_seen: "ideal_wf a \<Longrightarrow> c \<in> if_seen a \<Longrightarrow> \<not> ideal_accepts a c"
  by (auto simp: ideal_wf_def ideal_accepts_def split: option.splits)

lemma ideal_window_step [simp]: "if_window (snd (ideal_step a c)) = if_window a"
  by (simp add: ideal_step_def)

lemma ideal_never_again:
  "ideal_wf a \<Longrightarrow> c \<in> if_seen a \<Longrightarrow> j < length cs \<Longrightarrow> cs ! j = c \<Longrightarrow>
     \<not> verdicts ideal_step a cs ! j"
proof (induction cs arbitrary: a j)
  case (Cons d cs)
  show ?case
  proof (cases j)
    case 0
    with Cons.prems show ?thesis by (simp add: Let_def ideal_step_def ideal_rejects_seen)
  next
    case (Suc k)
    with Cons.prems Cons.IH [of "snd (ideal_step a d)" k] show ?thesis
      by (simp add: Let_def ideal_wf_step ideal_seen_step)
  qed
qed simp

lemma ideal_accepts_once:
  "ideal_wf a \<Longrightarrow> i < j \<Longrightarrow> j < length cs \<Longrightarrow> cs ! i = cs ! j \<Longrightarrow>
     verdicts ideal_step a cs ! i \<Longrightarrow> \<not> verdicts ideal_step a cs ! j"
proof (induction cs arbitrary: a i j)
  case (Cons d cs)
  obtain k where k: "j = Suc k" using Cons.prems by (cases j) auto
  show ?case
  proof (cases i)
    case 0
    have eq: "cs ! k = d" and acc: "ideal_accepts a d"
      using Cons.prems(4,5) k 0 by (simp_all add: Let_def ideal_step_def split: if_splits)
    have "d \<in> if_seen (snd (ideal_step a d))" using acc by (simp add: ideal_seen_step)
    from ideal_never_again [OF ideal_wf_step [OF Cons.prems(1)] this _ eq]
    show ?thesis using Cons.prems(3) k by (simp add: Let_def)
  next
    case (Suc m)
    with Cons.prems k Cons.IH [of "snd (ideal_step a d)" m k] show ?thesis
      by (simp add: Let_def ideal_wf_step)
  qed
qed simp

section \<open>The contract of a replay filter\<close>

locale replay_filter =
  fixes check :: "'s \<Rightarrow> u64 \<Rightarrow> bool \<times> 's"
    and rel :: "'s \<Rightarrow> ideal_filter \<Rightarrow> bool"
  assumes rel_wf: "rel s a \<Longrightarrow> ideal_wf a"
    and rel_verdict: "rel s a \<Longrightarrow> fst (check s c) = fst (ideal_step a (unat c))"
    and rel_step: "rel s a \<Longrightarrow> rel (snd (check s c)) (snd (ideal_step a (unat c)))"
begin

lemma run_agrees: "rel s a \<Longrightarrow> verdicts check s cs = verdicts ideal_step a (map unat cs)"
proof (induction cs arbitrary: s a)
  case (Cons c cs)
  from rel_verdict [OF Cons.prems] Cons.IH [OF rel_step [OF Cons.prems]] show ?case
    by (simp add: Let_def)
qed simp

lemma accepts_once:
  assumes "rel s a" "i < j" "j < length cs" "cs ! i = cs ! j" "verdicts check s cs ! i"
  shows "\<not> verdicts check s cs ! j"
  using assms ideal_accepts_once [OF rel_wf [OF assms(1)], of i j "map unat cs"]
  by (simp add: run_agrees)

lemma fresh_in_window_accepted:
  assumes "rel s a" "if_top a = Some t" "t - unat c \<le> if_window a" "unat c \<notin> if_seen a"
  shows "fst (check s c)"
  using assms by (simp add: rel_verdict ideal_step_def ideal_accepts_def)

end

section \<open>The ring as a set of counters\<close>

text \<open>The bit of a counter in the ring, read over natural numbers.\<close>

definition ring_bit :: "u64 list \<Rightarrow> nat \<Rightarrow> bool" where
  "ring_bit bm c = bit (bm ! (c div 64 mod length bm)) (c mod 64)"

definition ring_set :: "u64 list \<Rightarrow> nat \<Rightarrow> u64 list" where
  "ring_set bm c = (let b = c div 64 mod length bm in bm[b := bm ! b OR push_bit (c mod 64) 1])"

definition ring_ok :: "u64 list \<Rightarrow> bool" where
  "ring_ok bm \<longleftrightarrow> 0 < length bm \<and> 64 * (length bm - 1) < 2 ^ 64"

lemma ring_ok_length: "ring_ok bm \<Longrightarrow> 0 < length bm \<and> length bm < 2 ^ 64"
  by (auto simp: ring_ok_def)

lemma unat_block_index:
  "n < 2 ^ 64 \<Longrightarrow> block_index n index = unat index mod n"
  by (simp add: block_index_def unat_mod unat_of_nat)

lemma unat_div_word_bits [simp]: "unat (c div WORD_BITS) = unat c div 64"
  and unat_mod_word_bits [simp]: "unat (c mod WORD_BITS) = unat c mod 64"
  by (simp_all add: WORD_BITS_def unat_div unat_mod)

lemma get_bit_ring: "ring_ok (rw_bitmap w) \<Longrightarrow> get_bit w c = ring_bit (rw_bitmap w) (unat c)"
  by (auto simp: get_bit_def Let_def unat_block_index get_at_def ring_bit_def
      dest!: ring_ok_length split: option.splits)
    (simp_all add: bit_iff_odd_drop_bit and_one_eq odd_iff_mod_2_eq_one)

lemma set_bit_ring:
  "ring_ok (rw_bitmap w) \<Longrightarrow>
     set_bit w c = (True, w\<lparr>rw_bitmap := ring_set (rw_bitmap w) (unat c)\<rparr>)"
  by (auto simp: set_bit_def Let_def unat_block_index get_at_def ring_set_def
      dest!: ring_ok_length)

lemma length_ring_set [simp]: "length (ring_set bm c) = length bm"
  by (simp add: ring_set_def Let_def)

lemma ring_ok_set [simp]: "ring_ok (ring_set bm c) = ring_ok bm"
  by (simp add: ring_ok_def flip: length_greater_0_conv)

lemma ring_bit_set:
  assumes "0 < length bm"
  shows "ring_bit (ring_set bm c) d \<longleftrightarrow> ring_bit bm d \<or>
    (d div 64 mod length bm = c div 64 mod length bm \<and> d mod 64 = c mod 64)"
  using assms by (auto simp: ring_bit_def ring_set_def Let_def nth_list_update bit_or_iff
      bit_exp_iff)

text \<open>Counters fewer than a ring apart do not collide.\<close>

lemma mod_eq_near:
  fixes a b n :: nat
  assumes "a mod n = b mod n" "a < b + n" "b < a + n"
  shows "a = b"
proof (rule ccontr)
  assume "a \<noteq> b"
  then have "n dvd (max a b - min a b)" "0 < max a b - min a b" "max a b - min a b < n"
    using assms mod_eq_dvd_iff_nat [of "min a b" "max a b" n] by (auto simp: max_def min_def)
  then show False by (auto dest: nat_dvd_not_less)
qed

lemma ring_bit_set_near:
  assumes "0 < length bm" "d div 64 < c div 64 + length bm" "c div 64 < d div 64 + length bm"
  shows "ring_bit (ring_set bm c) d \<longleftrightarrow> ring_bit bm d \<or> d = c"
proof -
  have "d div 64 mod length bm = c div 64 mod length bm \<and> d mod 64 = c mod 64 \<longleftrightarrow> d = c"
    using mod_eq_near [OF _ assms(2,3)] by (metis div_mult_mod_eq)
  then show ?thesis using ring_bit_set [OF assms(1)] by simp
qed

text \<open>Clearing a run of blocks clears exactly the ring positions of that run.\<close>

lemma clear_blocks_run:
  assumes "0 < length bm" "length bm < 2 ^ 64" "\<forall>i\<in>set is. unat ti + unat i < 2 ^ 64"
  shows "\<exists>bm'. clear_blocks ti is bm = (True, bm') \<and> length bm' = length bm \<and>
    (\<forall>b<length bm. bm' ! b = (if \<exists>i\<in>set is. (unat ti + unat i) mod length bm = b then 0 else bm ! b))"
  using assms
proof (induction "is" arbitrary: bm)
  case (Cons i "is")
  define b where "b = (unat ti + unat i) mod length bm"
  have b: "block_index (length bm) (ti + i) = b" "b < length bm"
    using Cons.prems by (auto simp: unat_block_index unat_word_ariths b_def)
  from Cons.IH [of "bm[b := 0]"] Cons.prems obtain bm' where
    "clear_blocks ti is (bm[b := 0]) = (True, bm')" "length bm' = length bm"
    "\<forall>k<length bm. bm' ! k = (if \<exists>i\<in>set is. (unat ti + unat i) mod length bm = k then 0
        else bm[b := 0] ! k)"
    by auto
  with b show ?case by (auto simp: Let_def nth_list_update b_def)
qed simp

section \<open>The window implements the ideal filter\<close>

definition replay_rel :: "replay_window \<Rightarrow> ideal_filter \<Rightarrow> bool" where
  "replay_rel w a \<longleftrightarrow>
     ring_ok (rw_bitmap w) \<and> ideal_wf a \<and>
     if_window a = 64 * (length (rw_bitmap w) - 1) \<and>
     if_top a = map_option unat (rw_top w) \<and>
     (\<forall>t c. if_top a = Some t \<and> c div 64 \<le> t div 64 \<and> t div 64 < c div 64 + length (rw_bitmap w)
        \<longrightarrow> ring_bit (rw_bitmap w) c = (c \<in> if_seen a))"

lemma replay_rel_new:
  assumes "replay_new words = Some w" "64 * (words - 1) < 2 ^ 64"
  shows "replay_rel w (ideal_new (64 * (words - 1)))"
  using assms by (auto simp: replay_new_def replay_rel_def ring_ok_def ideal_new_def
      ideal_wf_def split: if_splits)

lemma unat_WINDOW: "64 * (words - 1) < 2 ^ 64 \<Longrightarrow> unat (WINDOW words) = 64 * (words - 1)"
  by (simp add: WINDOW_def WORD_BITS_def unat_word_ariths unat_of_nat)

text \<open>The three branches: the first packet, an advance of the window, a packet behind the top.\<close>

lemma check_first:
  assumes "replay_rel w a" "rw_top w = None"
  shows "\<exists>w'. check_and_update w c = (True, w') \<and> replay_rel w' (snd (ideal_step a (unat c)))"
proof -
  let ?z = "replicate (length (rw_bitmap w)) (0 :: u64)"
  have ok: "ring_ok ?z" using assms by (simp add: replay_rel_def ring_ok_def)
  have zero: "\<not> ring_bit ?z d" for d
    using ok by (simp add: ring_bit_def ring_ok_def)
  have seen: "if_seen a = {}" using assms by (auto simp: replay_rel_def ideal_wf_def)
  have "check_and_update w c = (True, w\<lparr>rw_bitmap := ring_set ?z (unat c), rw_top := Some c\<rparr>)"
    using assms ok by (simp add: check_and_update_def Let_def set_bit_ring)
  moreover have "ring_bit (ring_set ?z (unat c)) d = (d = unat c)"
    if "d div 64 \<le> unat c div 64" "unat c div 64 < d div 64 + length (rw_bitmap w)" for d
    using that ok zero ring_bit_set_near [of ?z d "unat c"] by (auto simp: ring_ok_def)
  ultimately show ?thesis
    using assms seen ok by (auto simp: replay_rel_def ideal_step_def ideal_accepts_def ideal_wf_def)
qed

lemma behind_near:
  fixes c t n :: nat
  assumes "c \<le> t" "t - c \<le> 64 * (n - 1)" "0 < n"
  shows "c div 64 \<le> t div 64 \<and> t div 64 < c div 64 + n"
proof -
  have "t div 64 \<le> (c + 64 * (n - 1)) div 64"
    using assms by (intro div_le_mono) linarith
  also have "\<dots> = c div 64 + (n - 1)" by simp
  finally show ?thesis using assms div_le_mono [of c t 64] by linarith
qed

lemma check_behind:
  assumes "replay_rel w a" "rw_top w = Some t" "\<not> c > t"
  shows "fst (check_and_update w c) = fst (ideal_step a (unat c)) \<and>
    replay_rel (snd (check_and_update w c)) (snd (ideal_step a (unat c)))"
proof -
  let ?n = "length (rw_bitmap w)"
  have ok: "ring_ok (rw_bitmap w)" and win: "if_window a = 64 * (?n - 1)"
    and top: "if_top a = Some (unat t)" and wf: "ideal_wf a"
    and bits: "\<And>d. d div 64 \<le> unat t div 64 \<Longrightarrow> unat t div 64 < d div 64 + ?n \<Longrightarrow>
        ring_bit (rw_bitmap w) d = (d \<in> if_seen a)"
    using assms by (auto simp: replay_rel_def)
  have ct: "unat c \<le> unat t" using assms(3) by (simp add: word_le_nat_alt not_less)
  have too_old: "t - c > WINDOW ?n \<longleftrightarrow> unat t - unat c > if_window a"
    using ct ok by (simp add: word_less_nat_alt unat_sub word_le_nat_alt win unat_WINDOW ring_ok_def)
  have near: "unat c div 64 \<le> unat t div 64 \<and> unat t div 64 < unat c div 64 + ?n"
    if "unat t - unat c \<le> if_window a"
    using behind_near [of "unat c" "unat t" ?n] that ct win ok by (simp add: ring_ok_def)
  have get: "get_bit w c \<longleftrightarrow> unat c \<in> if_seen a" if "unat t - unat c \<le> if_window a"
    using near [OF that] bits [of "unat c"] get_bit_ring [OF ok] by simp
  show ?thesis
  proof (cases "unat t - unat c \<le> if_window a \<and> unat c \<notin> if_seen a")
    case False
    then show ?thesis
      using assms ct too_old get top
      by (auto simp: check_and_update_def Let_def ideal_step_def ideal_accepts_def not_less)
  next
    case True
    then have "check_and_update w c = (True, w\<lparr>rw_bitmap := ring_set (rw_bitmap w) (unat c)\<rparr>)"
      using assms too_old get ok by (simp add: check_and_update_def Let_def set_bit_ring not_less)
    moreover have "ring_bit (ring_set (rw_bitmap w) (unat c)) d = (d \<in> insert (unat c) (if_seen a))"
      if d: "d div 64 \<le> unat t div 64" "unat t div 64 < d div 64 + ?n" for d
      using ring_bit_set_near [of "rw_bitmap w" d "unat c"] bits [OF d] near d ok True
      by (auto simp: ring_ok_def)
    ultimately show ?thesis
      using assms True ok wf top win ct
      by (auto simp: replay_rel_def ideal_step_def ideal_accepts_def ideal_wf_def ring_ok_def max_def)
  qed
qed

lemma residue_cover:
  fixes ti k n :: nat
  assumes "ti < k" "0 < n"
  shows "\<exists>i\<in>{1..n}. (ti + i) mod n = k mod n"
proof
  let ?i = "Suc ((k - Suc ti) mod n)"
  have "(ti + ?i) mod n = (Suc ti + (k - Suc ti)) mod n"
    by (simp add: mod_simps flip: add_Suc)
  with assms show "(ti + ?i) mod n = k mod n" by simp
  show "?i \<in> {1..n}" using assms by (simp add: Suc_leI)
qed

lemma advance_ring:
  fixes ti ci k n :: nat
  assumes "ti \<le> ci" "k \<le> ci" "ci < k + n" "0 < n"
  shows "(\<exists>i\<in>{1..min (ci - ti) n}. (ti + i) mod n = k mod n) \<longleftrightarrow> ti < k"
proof (cases "ti < k")
  case True
  show ?thesis
  proof (cases "ci - ti \<le> n")
    case True
    with assms \<open>ti < k\<close> show ?thesis by (intro iffI bexI [of _ "k - ti"]) auto
  next
    case False
    with residue_cover [OF True assms(4)] True show ?thesis by (simp add: min_def)
  qed
next
  case False
  have "(ti + i) mod n \<noteq> k mod n" if "i \<in> {1..min (ci - ti) n}" for i
  proof
    assume eq: "(ti + i) mod n = k mod n"
    have "ti + i < k + n" "k < ti + i + n" "ti + i \<noteq> k" using that False assms by auto
    with mod_eq_near [OF eq] show False by blast
  qed
  with False show ?thesis by blast
qed

lemma check_advance:
  assumes "replay_rel w a" "rw_top w = Some t" "c > t"
  shows "\<exists>w'. check_and_update w c = (True, w') \<and> replay_rel w' (snd (ideal_step a (unat c)))"
proof -
  let ?bm = "rw_bitmap w" and ?ti = "unat t div 64" and ?ci = "unat c div 64"
  let ?n = "length ?bm" and ?diff = "min (c div WORD_BITS - t div WORD_BITS) (word_of_nat (length ?bm))"
  let ?is = "map word_of_nat [1..<Suc (unat ?diff)] :: u64 list"
  have ok: "ring_ok ?bm" and top: "if_top a = Some (unat t)" and wf: "ideal_wf a"
    and win: "if_window a = 64 * (?n - 1)"
    and bits: "\<And>d. d div 64 \<le> ?ti \<Longrightarrow> ?ti < d div 64 + ?n \<Longrightarrow> ring_bit ?bm d = (d \<in> if_seen a)"
    using assms by (auto simp: replay_rel_def)
  have n: "0 < ?n" "?n < 2 ^ 64" using ring_ok_length [OF ok] by auto
  have ct: "unat t < unat c" using assms(3) by (simp add: word_less_nat_alt)
  then have tici: "?ti \<le> ?ci" by (simp add: div_le_mono)
  have c64: "?ci < 2 ^ 64" using unsigned_less [of c, where 'a = nat] by simp
  have diff: "unat ?diff = min (?ci - ?ti) ?n"
    using tici n by (simp add: min_def word_le_nat_alt unat_sub unat_of_nat)
  have set_is: "unat ` set ?is = {1..min (?ci - ?ti) ?n}"
    unfolding diff set_map image_image set_upt atLeastLessThanSuc_atLeastAtMost
    using n by (subst image_cong [where g = "\<lambda>x. x", OF refl]) (simp_all add: unat_of_nat)
  have "unat i \<le> ?ci - ?ti" if "i \<in> set ?is" for i
    using imageI [OF that, of unat] unfolding set_is by simp
  then have "\<forall>i\<in>set ?is. unat (t div WORD_BITS) + unat i < 2 ^ 64"
    using tici c64 by fastforce
  from clear_blocks_run [OF n this] obtain bm' where
    bm': "clear_blocks (t div WORD_BITS) ?is ?bm = (True, bm')" "length bm' = ?n"
    and cleared: "\<And>b. b < ?n \<Longrightarrow> bm' ! b =
       (if \<exists>i\<in>set ?is. (?ti + unat i) mod ?n = b then 0 else ?bm ! b)"
    by auto
  have ok': "ring_ok bm'" using ok bm' by (simp add: ring_ok_def)
  have old: "ring_bit bm' d = (d \<in> if_seen a)" if d: "d div 64 \<le> ?ci" "?ci < d div 64 + ?n" for d
  proof -
    have "(\<exists>i\<in>set ?is. (?ti + unat i) mod ?n = d div 64 mod ?n) \<longleftrightarrow>
        (\<exists>i\<in>unat ` set ?is. (?ti + i) mod ?n = d div 64 mod ?n)" by blast
    also have "\<dots> \<longleftrightarrow> ?ti < d div 64"
      using set_is advance_ring [OF tici d n(1)] by simp
    finally have "ring_bit bm' d = (\<not> ?ti < d div 64 \<and> ring_bit ?bm d)"
      using cleared [of "d div 64 mod ?n"] n bm'(2) by (auto simp: ring_bit_def)
    moreover have "d \<notin> if_seen a" if "?ti < d div 64"
      using that wf top by (auto simp: ideal_wf_def dest: div_le_mono [of _ _ 64])
    ultimately show ?thesis using bits [of d] d tici by (cases "?ti < d div 64") auto
  qed
  have "check_and_update w c = (True, w\<lparr>rw_bitmap := ring_set bm' (unat c), rw_top := Some c\<rparr>)"
    using assms bm' ok' by (simp add: check_and_update_def Let_def set_bit_ring)
  moreover have "ring_bit (ring_set bm' (unat c)) d = (d \<in> insert (unat c) (if_seen a))"
    if d: "d div 64 \<le> ?ci" "?ci < d div 64 + ?n" for d
    using ring_bit_set_near [of bm' d "unat c"] old [OF d] d n bm'(2) by auto
  ultimately show ?thesis
    using ok' wf top win ct bm'(2) by (auto simp: replay_rel_def ideal_step_def ideal_accepts_def
        ideal_wf_def max_def)
qed

lemma check_and_update_refines:
  assumes "replay_rel w a"
  shows "fst (check_and_update w c) = fst (ideal_step a (unat c)) \<and>
    replay_rel (snd (check_and_update w c)) (snd (ideal_step a (unat c)))"
proof (cases "rw_top w")
  case None
  with check_first [OF assms, of c] assms show ?thesis
    by (auto simp: ideal_step_def ideal_accepts_def replay_rel_def)
next
  case (Some t)
  show ?thesis
  proof (cases "c > t")
    case True
    with check_advance [OF assms Some True] assms Some show ?thesis
      by (auto simp: ideal_step_def ideal_accepts_def replay_rel_def word_less_nat_alt)
  next
    case False
    with check_behind [OF assms Some] show ?thesis by blast
  qed
qed

interpretation rwin: replay_filter check_and_update replay_rel
  by unfold_locales (simp_all add: check_and_update_refines, simp add: replay_rel_def)

section \<open>Properties\<close>

text \<open>
  C8: from a new window of \<open>words\<close> ring words, whatever sequence of counters arrives, the
  verdicts are those of the ideal filter that remembers every accepted counter and has a trailing
  window of \<open>64 * (words - 1)\<close>: the recycled ring never forgets a counter inside the window
  and never confuses two of them.
\<close>

theorem replay_matches_ideal_filter:
  assumes "replay_new words = Some w" "64 * (words - 1) < 2 ^ 64"
  shows "verdicts check_and_update w cs =
    verdicts ideal_step (ideal_new (64 * (words - 1))) (map unat cs)"
  using replay_rel_new [OF assms] by (rule rwin.run_agrees)

theorem replay_matches_ideal_filter_witness:
  "verdicts check_and_update \<lparr>rw_bitmap = [0, 0], rw_top = None\<rparr> [70, 6, 5, 6, 200, 136, 135]
     = [True, True, False, False, True, True, False]"
proof -
  have new: "replay_new 2 = Some \<lparr>rw_bitmap = [0, 0], rw_top = None\<rparr>"
    by (simp add: replay_new_def numeral_2_eq_2)
  show ?thesis
    using replay_matches_ideal_filter [OF new, of "[70, 6, 5, 6, 200, 136, 135]"]
    by (simp add: ideal_step_def ideal_accepts_def ideal_new_def)
qed

text \<open>
  C24: no counter is accepted twice, however the sequence of counters is chosen: once position
  \<open>i\<close> was accepted, a later position carrying the same counter is refused.
\<close>

theorem replay_accepts_once:
  assumes "replay_new words = Some w" "64 * (words - 1) < 2 ^ 64"
    and "i < j" "j < length cs" "cs ! i = cs ! j"
    and "verdicts check_and_update w cs ! i"
  shows "\<not> verdicts check_and_update w cs ! j"
  using rwin.accepts_once [OF replay_rel_new [OF assms(1,2)] assms(3-)] .

theorem replay_accepts_once_witness:
  "\<not> verdicts check_and_update \<lparr>rw_bitmap = [0, 0], rw_top = None\<rparr> [7, 300, 7, 300] ! 3"
proof -
  have new: "replay_new 2 = Some \<lparr>rw_bitmap = [0, 0], rw_top = None\<rparr>"
    by (simp add: replay_new_def numeral_2_eq_2)
  have "verdicts check_and_update \<lparr>rw_bitmap = [0, 0], rw_top = None\<rparr> [7, 300, 7, 300] ! 1"
    by code_simp
  then show ?thesis
    by (intro replay_accepts_once [OF new, of 1 3 "[7, 300, 7, 300]"]) simp_all
qed

end
