(* ===== verification/Ip_Packet.thy ===== *)
theory Ip_Packet
  imports Prelude
begin

text \<open>
  Inner IP headers and address canonicalisation (\<open>microtun-core/src/ip.rs\<close>), with the
  addresses and socket addresses of the standard library. The parser is shown to return lengths
  that are safe to slice with and to read the addresses from where the header has them; the
  IPv4-mapped form of an address is shown to be folded away exactly once.
\<close>

section \<open>Addresses\<close>

datatype ip_addr = IpV4 u32 | IpV6 u128

fun is_ipv4 :: "ip_addr \<Rightarrow> bool" where
  "is_ipv4 (IpV4 _) = True"
| "is_ipv4 (IpV6 _) = False"

fun ip_octets :: "ip_addr \<Rightarrow> bytes" where
  "ip_octets (IpV4 a) = to_be_bytes a"
| "ip_octets (IpV6 a) = to_be_bytes a"

datatype socket_addr =
    SockV4 u32 u16
  | SockV6 (v6_ip: u128) (v6_port: u16) (v6_flowinfo: u32) (v6_scope_id: u32)

text \<open>\<open>Ipv6Addr::to_ipv4_mapped\<close>: the \<open>::ffff:0:0/96\<close> block.\<close>

definition to_ipv4_mapped :: "u128 \<Rightarrow> u32 option" where
  "to_ipv4_mapped a = (if drop_bit 32 a = 0xffff then Some (ucast a) else None)"

fun unmap_ip :: "ip_addr \<Rightarrow> ip_addr" where
  "unmap_ip (IpV6 v6) = (case to_ipv4_mapped v6 of None \<Rightarrow> IpV6 v6 | Some v4 \<Rightarrow> IpV4 v4)"
| "unmap_ip (IpV4 v4) = IpV4 v4"

fun unmap_socket_addr :: "socket_addr \<Rightarrow> socket_addr" where
  "unmap_socket_addr (SockV6 a p fl sc) =
     (case to_ipv4_mapped a of Some v4 \<Rightarrow> SockV4 v4 p | None \<Rightarrow> SockV6 a p fl sc)"
| "unmap_socket_addr (SockV4 a p) = SockV4 a p"

section \<open>Headers\<close>

record ip_header =
  ih_src :: ip_addr
  ih_dst :: ip_addr
  ih_protocol :: u8
  ih_header_len :: usize
  ih_total_len :: usize

definition parse_v4_header :: "bytes \<Rightarrow> ip_header option" where
  "parse_v4_header packet =
     (case get_at packet 0 of
        None \<Rightarrow> None
      | Some first \<Rightarrow>
          if length packet < 20 \<or> drop_bit 4 first \<noteq> 4 then None
          else let header_len = unat (first AND 0x0f) * 4 in
          if header_len < 20 \<or> length packet < header_len then None
          else (case (get_at packet 2, get_at packet 3) of
             (Some hi, Some lo) \<Rightarrow>
               let total_len = unat (from_be_bytes [hi, lo] :: u16) in
               if total_len < header_len \<or> total_len > length packet then None
               else (case (get_range packet 12 16, get_range packet 16 20, get_at packet 9) of
                  (Some src, Some dst, Some protocol) \<Rightarrow>
                    Some \<lparr>ih_src = IpV4 (from_be_bytes src), ih_dst = IpV4 (from_be_bytes dst),
                          ih_protocol = protocol, ih_header_len = header_len,
                          ih_total_len = total_len\<rparr>
                | _ \<Rightarrow> None)
           | _ \<Rightarrow> None))"

definition parse_v6_header :: "bytes \<Rightarrow> ip_header option" where
  "parse_v6_header packet =
     (case get_at packet 0 of
        None \<Rightarrow> None
      | Some first \<Rightarrow>
          if length packet < 40 \<or> drop_bit 4 first \<noteq> 6 then None
          else (case (get_at packet 4, get_at packet 5) of
             (Some hi, Some lo) \<Rightarrow>
               let total_len = 40 + unat (from_be_bytes [hi, lo] :: u16) in
               if total_len > length packet then None
               else (case (get_range packet 8 24, get_range packet 24 40, get_at packet 6) of
                  (Some src, Some dst, Some protocol) \<Rightarrow>
                    Some \<lparr>ih_src = IpV6 (from_be_bytes src), ih_dst = IpV6 (from_be_bytes dst),
                          ih_protocol = protocol, ih_header_len = 40, ih_total_len = total_len\<rparr>
                | _ \<Rightarrow> None)
           | _ \<Rightarrow> None))"

definition parse_header :: "bytes \<Rightarrow> ip_header option" where
  "parse_header packet =
     (case get_at packet 0 of
        None \<Rightarrow> None
      | Some first \<Rightarrow>
          if drop_bit 4 first = 4 then parse_v4_header packet
          else if drop_bit 4 first = 6 then parse_v6_header packet
          else None)"

definition is_v4_fragment :: "bytes \<Rightarrow> bool" where
  "is_v4_fragment packet =
     (case (get_at packet 0, get_at packet 6, get_at packet 7) of
        (Some first, Some flags_hi, Some flags_lo) \<Rightarrow>
          length packet \<ge> 20 \<and> drop_bit 4 first = 4 \<and>
          (from_be_bytes [flags_hi, flags_lo] :: u16) AND 0x3fff \<noteq> 0
      | _ \<Rightarrow> False)"

section \<open>Canonicalisation\<close>

lemma unmap_ip_idem [simp]: "unmap_ip (unmap_ip a) = unmap_ip a"
  by (cases a) (auto split: option.splits)

lemma unmap_socket_addr_idem [simp]: "unmap_socket_addr (unmap_socket_addr a) = unmap_socket_addr a"
  by (cases a) (auto split: option.splits)

section \<open>What a parsed header guarantees\<close>

lemma parse_v4_header_SomeD:
  assumes "parse_v4_header p = Some h"
  shows "20 \<le> ih_header_len h \<and> ih_header_len h \<le> ih_total_len h \<and> ih_total_len h \<le> length p
    \<and> ih_src h = IpV4 (from_be_bytes (slice p 12 16)) \<and> ih_dst h = IpV4 (from_be_bytes (slice p 16 20))
    \<and> ih_protocol h = p ! 9"
  using assms
  by (auto simp: parse_v4_header_def Let_def get_at_def get_range_eq_slice split: option.splits if_splits)

lemma parse_v6_header_SomeD:
  assumes "parse_v6_header p = Some h"
  shows "ih_header_len h = 40 \<and> 40 \<le> ih_total_len h \<and> ih_total_len h \<le> length p
    \<and> ih_src h = IpV6 (from_be_bytes (slice p 8 24)) \<and> ih_dst h = IpV6 (from_be_bytes (slice p 24 40))
    \<and> ih_protocol h = p ! 6"
  using assms
  by (auto simp: parse_v6_header_def Let_def get_at_def get_range_eq_slice split: option.splits if_splits)

lemma parse_header_cases:
  assumes "parse_header p = Some h"
  obtains (v4) "drop_bit 4 (p ! 0) = 4" "parse_v4_header p = Some h"
  | (v6) "drop_bit 4 (p ! 0) = 6" "parse_v6_header p = Some h"
  using assms by (auto simp: parse_header_def get_at_def split: if_splits)

text \<open>The bytes beyond \<open>total_len\<close> (the padding of a transport message) are not read.\<close>

lemma get_at_take: "n \<le> length p \<Longrightarrow> i < n \<Longrightarrow> get_at (take n p) i = get_at p i"
  by (simp add: get_at_def)

lemma get_range_take: "n \<le> length p \<Longrightarrow> b \<le> n \<Longrightarrow> get_range (take n p) a b = get_range p a b"
  by (auto simp: get_range_def drop_take min_def)

lemma parse_v4_header_trim:
  assumes "parse_v4_header p = Some h"
  shows "parse_v4_header (take (ih_total_len h) p) = Some h"
proof -
  let ?n = "ih_total_len h"
  have n: "20 \<le> ?n" "?n \<le> length p" using parse_v4_header_SomeD [OF assms] by linarith+
  then have reads: "\<And>i. i < 20 \<Longrightarrow> get_at (take ?n p) i = get_at p i"
    "\<And>a b. b \<le> 20 \<Longrightarrow> get_range (take ?n p) a b = get_range p a b"
    by (simp_all add: get_at_take get_range_take)
  show ?thesis
    using assms n unfolding parse_v4_header_def
    by (simp add: reads Let_def split: option.splits if_splits prod.splits) auto
qed

lemma parse_v6_header_trim:
  assumes "parse_v6_header p = Some h"
  shows "parse_v6_header (take (ih_total_len h) p) = Some h"
proof -
  let ?n = "ih_total_len h"
  have n: "40 \<le> ?n" "?n \<le> length p" using parse_v6_header_SomeD [OF assms] by linarith+
  then have reads: "\<And>i. i < 40 \<Longrightarrow> get_at (take ?n p) i = get_at p i"
    "\<And>a b. b \<le> 40 \<Longrightarrow> get_range (take ?n p) a b = get_range p a b"
    by (simp_all add: get_at_take get_range_take)
  show ?thesis
    using assms n unfolding parse_v6_header_def
    by (simp add: reads Let_def split: option.splits if_splits prod.splits) auto
qed

section \<open>Properties\<close>

text \<open>
  C36: a header the parser accepts has lengths that are safe to slice the packet with,
  \<open>header_len \<le> total_len \<le> packet.len()\<close> with at least the fixed header of its family,
  source and destination are of the same family, and cutting the packet at \<open>total_len\<close>
  (which removes the transport padding) leaves the parsed header unchanged, so the packet that is
  delivered is judged by the filter exactly as the padded one was.
\<close>

theorem parse_header_safe_and_trim_stable:
  assumes "parse_header p = Some h"
  shows "ih_header_len h \<le> ih_total_len h \<and> ih_total_len h \<le> length p
    \<and> (if is_ipv4 (ih_src h) then 20 else 40) \<le> ih_header_len h
    \<and> is_ipv4 (ih_src h) = is_ipv4 (ih_dst h)
    \<and> parse_header (take (ih_total_len h) p) = Some h"
  using assms
proof (cases rule: parse_header_cases)
  case v4
  with parse_v4_header_SomeD [OF v4(2)] parse_v4_header_trim [OF v4(2)] show ?thesis
    by (auto simp: parse_header_def get_at_def)
next
  case v6
  with parse_v6_header_SomeD [OF v6(2)] parse_v6_header_trim [OF v6(2)] show ?thesis
    by (auto simp: parse_header_def get_at_def)
qed

theorem parse_header_safe_and_trim_stable_witness:
  "parse_header (take 21 ([0x45, 0, 0, 21, 0, 0, 0, 0, 64, 17, 0, 0, 10, 0, 0, 1, 10, 0, 0, 2] @ [7, 0, 0]))
     = Some \<lparr>ih_src = IpV4 0x0a000001, ih_dst = IpV4 0x0a000002, ih_protocol = 17,
             ih_header_len = 20, ih_total_len = 21\<rparr>"
proof -
  let ?h = "\<lparr>ih_src = IpV4 0x0a000001, ih_dst = IpV4 0x0a000002, ih_protocol = 17,
             ih_header_len = 20, ih_total_len = 21\<rparr>"
  have "parse_header ([0x45, 0, 0, 21, 0, 0, 0, 0, 64, 17, 0, 0, 10, 0, 0, 1, 10, 0, 0, 2] @ [7, 0, 0])
     = Some ?h"
    by (simp add: parse_header_def parse_v4_header_def get_at_def get_range_def from_be_bytes_def
        from_le_bytes_def)
  from parse_header_safe_and_trim_stable [OF this] show ?thesis by simp
qed

end
