(* ===== verification/Messages.thy ===== *)
theory Messages
  imports Prelude
begin

text \<open>
  Wire message layouts (\<open>microtun-core/src/messages.rs\<close>). The \<open>repr(C)\<close> structs
  consist of fields of alignment one, so a field's offset is the sum of the sizes before it: a
  struct is its list of named field sizes, and every byte range of the sources is computed from it.
\<close>

section \<open>Message types\<close>

definition TAG_LEN :: usize where [simp]: "TAG_LEN = 16"
definition TIMESTAMP_LEN :: usize where [simp]: "TIMESTAMP_LEN = 12"
definition XNONCE_LEN :: usize where [simp]: "XNONCE_LEN = 24"

definition MSG_INITIATION :: u8 where [simp]: "MSG_INITIATION = 1"
definition MSG_RESPONSE :: u8 where [simp]: "MSG_RESPONSE = 2"
definition MSG_COOKIE_REPLY :: u8 where [simp]: "MSG_COOKIE_REPLY = 3"
definition MSG_DATA :: u8 where [simp]: "MSG_DATA = 4"
definition MSG_RELAY :: u8 where [simp]: "MSG_RELAY = 0xF0"

definition RELAY_AEAD_AD :: bytes where
  "RELAY_AEAD_AD = [MSG_RELAY, 0, 0, 0]"

section \<open>Struct layouts\<close>

type_synonym layout = "(string \<times> usize) list"

fun offset_of :: "layout \<Rightarrow> string \<Rightarrow> usize" where
  "offset_of [] f = 0"
| "offset_of ((g, n) # fs) f = (if g = f then 0 else n + offset_of fs f)"

definition size_of :: "layout \<Rightarrow> usize" where
  "size_of l = sum_list (map snd l)"

definition MessagePrefix :: layout where
  "MessagePrefix = [(''message_type'', 1), (''reserved'', 3)]"

definition HandshakeInitiation :: layout where
  "HandshakeInitiation =
     [(''prefix'', size_of MessagePrefix), (''sender'', 4), (''ephemeral'', 32),
      (''encrypted_static'', 32 + TAG_LEN), (''encrypted_timestamp'', TIMESTAMP_LEN + TAG_LEN),
      (''mac1'', 16), (''mac2'', 16)]"

definition HandshakeResponse :: layout where
  "HandshakeResponse =
     [(''prefix'', size_of MessagePrefix), (''sender'', 4), (''receiver'', 4), (''ephemeral'', 32),
      (''encrypted_empty'', TAG_LEN), (''mac1'', 16), (''mac2'', 16)]"

definition CookieReply :: layout where
  "CookieReply =
     [(''prefix'', size_of MessagePrefix), (''receiver'', 4), (''nonce'', XNONCE_LEN),
      (''encrypted_cookie'', 16 + TAG_LEN)]"

definition DataHeader :: layout where
  "DataHeader = [(''prefix'', size_of MessagePrefix), (''receiver'', 4), (''counter'', 8)]"

definition INITIATION_LEN :: usize where "INITIATION_LEN = size_of HandshakeInitiation"
definition RESPONSE_LEN :: usize where "RESPONSE_LEN = size_of HandshakeResponse"
definition COOKIE_REPLY_LEN :: usize where "COOKIE_REPLY_LEN = size_of CookieReply"
definition DATA_HEADER_LEN :: usize where "DATA_HEADER_LEN = size_of DataHeader"
definition DATA_OVERHEAD :: usize where "DATA_OVERHEAD = DATA_HEADER_LEN + TAG_LEN"
definition DATA_MIN_LEN :: usize where "DATA_MIN_LEN = DATA_OVERHEAD"

section \<open>Byte ranges\<close>

type_synonym range = "usize \<times> usize"

definition field_range :: "usize \<Rightarrow> usize \<Rightarrow> range" where
  "field_range start n = (start, start + n)"

definition init_SENDER :: range where
  "init_SENDER = field_range (offset_of HandshakeInitiation ''sender'') 4"
definition init_EPHEMERAL :: range where
  "init_EPHEMERAL = field_range (offset_of HandshakeInitiation ''ephemeral'') 32"
definition init_STATIC :: range where
  "init_STATIC = field_range (offset_of HandshakeInitiation ''encrypted_static'') (32 + TAG_LEN)"
definition init_TIMESTAMP :: range where
  "init_TIMESTAMP =
     field_range (offset_of HandshakeInitiation ''encrypted_timestamp'') (TIMESTAMP_LEN + TAG_LEN)"
definition init_MAC1 :: range where
  "init_MAC1 = field_range (offset_of HandshakeInitiation ''mac1'') 16"
definition init_MAC2 :: range where
  "init_MAC2 = field_range (offset_of HandshakeInitiation ''mac2'') 16"
definition init_ALPHA :: range where "init_ALPHA = (0, offset_of HandshakeInitiation ''mac1'')"
definition init_BETA :: range where "init_BETA = (0, offset_of HandshakeInitiation ''mac2'')"

definition resp_SENDER :: range where
  "resp_SENDER = field_range (offset_of HandshakeResponse ''sender'') 4"
definition resp_RECEIVER :: range where
  "resp_RECEIVER = field_range (offset_of HandshakeResponse ''receiver'') 4"
definition resp_EPHEMERAL :: range where
  "resp_EPHEMERAL = field_range (offset_of HandshakeResponse ''ephemeral'') 32"
definition resp_EMPTY :: range where
  "resp_EMPTY = field_range (offset_of HandshakeResponse ''encrypted_empty'') TAG_LEN"
definition resp_MAC1 :: range where
  "resp_MAC1 = field_range (offset_of HandshakeResponse ''mac1'') 16"
definition resp_MAC2 :: range where
  "resp_MAC2 = field_range (offset_of HandshakeResponse ''mac2'') 16"
definition resp_ALPHA :: range where "resp_ALPHA = (0, offset_of HandshakeResponse ''mac1'')"
definition resp_BETA :: range where "resp_BETA = (0, offset_of HandshakeResponse ''mac2'')"

definition cookie_RECEIVER :: range where
  "cookie_RECEIVER = field_range (offset_of CookieReply ''receiver'') 4"
definition cookie_NONCE :: range where
  "cookie_NONCE = field_range (offset_of CookieReply ''nonce'') XNONCE_LEN"
definition cookie_COOKIE :: range where
  "cookie_COOKIE = field_range (offset_of CookieReply ''encrypted_cookie'') (16 + TAG_LEN)"

definition data_RECEIVER :: range where
  "data_RECEIVER = field_range (offset_of DataHeader ''receiver'') 4"
definition data_COUNTER :: range where
  "data_COUNTER = field_range (offset_of DataHeader ''counter'') 8"
definition PACKET_START :: usize where "PACKET_START = DATA_HEADER_LEN"

text \<open>\<open>&msg[range]\<close> and \<open>msg[range].copy_from_slice(bytes)\<close>.\<close>

definition fld :: "bytes \<Rightarrow> range \<Rightarrow> bytes" where
  "fld msg r = slice msg (fst r) (snd r)"

definition set_fld :: "bytes \<Rightarrow> range \<Rightarrow> bytes \<Rightarrow> bytes" where
  "set_fld msg r bs = put_slice msg (fst r) bs"

section \<open>Reading and writing\<close>

definition write_type :: "bytes \<Rightarrow> u8 \<Rightarrow> bytes result" where
  "write_type buf message_type =
     (if size_of MessagePrefix \<le> length buf then Inr (put_slice buf 0 [message_type, 0, 0, 0])
      else Inl BufferTooSmall)"

definition read_u32_le :: "bytes \<Rightarrow> u32 option" where
  "read_u32_le bs = (if 4 \<le> length bs then Some (from_le_bytes (take 4 bs)) else None)"

definition read_u64_le :: "bytes \<Rightarrow> u64 option" where
  "read_u64_le bs = (if 8 \<le> length bs then Some (from_le_bytes (take 8 bs)) else None)"

datatype message = Initiation | Response | CookieReplyMsg | Data | RelayData

definition classify :: "bytes \<Rightarrow> message option" where
  "classify buf =
     (if length buf < size_of MessagePrefix then None
      else if slice buf 1 4 \<noteq> [0, 0, 0] then None
      else let message_type = buf ! 0 in
        if message_type = MSG_INITIATION \<and> length buf = INITIATION_LEN then Some Initiation
        else if message_type = MSG_RESPONSE \<and> length buf = RESPONSE_LEN then Some Response
        else if message_type = MSG_COOKIE_REPLY \<and> length buf = COOKIE_REPLY_LEN then Some CookieReplyMsg
        else if message_type = MSG_DATA \<and> length buf \<ge> DATA_MIN_LEN then Some Data
        else if message_type = MSG_RELAY \<and> length buf \<ge> DATA_MIN_LEN then Some RelayData
        else None)"

section \<open>The ranges as numbers\<close>

named_theorems layout_simps \<open>struct sizes and byte ranges as numerals\<close>

lemma size_of_MessagePrefix [layout_simps, simp]: "size_of MessagePrefix = 4"
  by (simp add: size_of_def MessagePrefix_def)

lemma message_lengths [layout_simps, simp]:
  "INITIATION_LEN = 148" "RESPONSE_LEN = 92" "COOKIE_REPLY_LEN = 64"
  "DATA_HEADER_LEN = 16" "DATA_OVERHEAD = 32" "DATA_MIN_LEN = 32" "PACKET_START = 16"
  by (simp_all add: INITIATION_LEN_def RESPONSE_LEN_def COOKIE_REPLY_LEN_def DATA_HEADER_LEN_def
      DATA_OVERHEAD_def DATA_MIN_LEN_def PACKET_START_def size_of_def HandshakeInitiation_def
      HandshakeResponse_def CookieReply_def DataHeader_def MessagePrefix_def)

lemma initiation_ranges [layout_simps]:
  "init_SENDER = (4, 8)" "init_EPHEMERAL = (8, 40)" "init_STATIC = (40, 88)"
  "init_TIMESTAMP = (88, 116)" "init_MAC1 = (116, 132)" "init_MAC2 = (132, 148)"
  "init_ALPHA = (0, 116)" "init_BETA = (0, 132)"
  by (simp_all add: init_SENDER_def init_EPHEMERAL_def init_STATIC_def init_TIMESTAMP_def
      init_MAC1_def init_MAC2_def init_ALPHA_def init_BETA_def field_range_def HandshakeInitiation_def)

lemma response_ranges [layout_simps]:
  "resp_SENDER = (4, 8)" "resp_RECEIVER = (8, 12)" "resp_EPHEMERAL = (12, 44)"
  "resp_EMPTY = (44, 60)" "resp_MAC1 = (60, 76)" "resp_MAC2 = (76, 92)"
  "resp_ALPHA = (0, 60)" "resp_BETA = (0, 76)"
  by (simp_all add: resp_SENDER_def resp_RECEIVER_def resp_EPHEMERAL_def resp_EMPTY_def
      resp_MAC1_def resp_MAC2_def resp_ALPHA_def resp_BETA_def field_range_def HandshakeResponse_def)

lemma cookie_ranges [layout_simps]:
  "cookie_RECEIVER = (4, 8)" "cookie_NONCE = (8, 32)" "cookie_COOKIE = (32, 64)"
  by (simp_all add: cookie_RECEIVER_def cookie_NONCE_def cookie_COOKIE_def field_range_def
      CookieReply_def)

lemma data_ranges [layout_simps]: "data_RECEIVER = (4, 8)" "data_COUNTER = (8, 16)"
  by (simp_all add: data_RECEIVER_def data_COUNTER_def field_range_def DataHeader_def)

lemma length_fld [slice_simps]: "snd r \<le> length msg \<Longrightarrow> length (fld msg r) = snd r - fst r"
  by (simp add: fld_def slice_simps)

lemma length_set_fld [slice_simps]:
  "fst r + length bs \<le> length msg \<Longrightarrow> length (set_fld msg r bs) = length msg"
  by (simp add: set_fld_def slice_simps)

lemma fld_set_same [slice_simps]:
  "fst r + length bs \<le> length msg \<Longrightarrow> snd r = fst r + length bs \<Longrightarrow> fld (set_fld msg r bs) r = bs"
  by (simp add: fld_def set_fld_def slice_simps)

lemma fld_set_before [slice_simps]:
  "snd r \<le> fst q \<Longrightarrow> fst q + length bs \<le> length msg \<Longrightarrow> fld (set_fld msg q bs) r = fld msg r"
  by (simp add: fld_def set_fld_def slice_simps)

lemma fld_set_after [slice_simps]:
  "fst q + length bs \<le> fst r \<Longrightarrow> fst q + length bs \<le> length msg \<Longrightarrow>
     fld (set_fld msg q bs) r = fld msg r"
  by (simp add: fld_def set_fld_def slice_simps)

lemma classify_length: "classify buf = Some m \<Longrightarrow> 32 \<le> length buf"
  by (auto simp: classify_def Let_def split: if_splits)

end
