(* ===== verification/Relay_Envelope.thy ===== *)
theory Relay_Envelope
  imports Messages
begin

text \<open>
  The relay envelope (\<open>microtun-core/src/relay.rs\<close>): destination key, explicit inner length,
  inner datagram, zero padding to a multiple of sixteen. The parser is shown to accept exactly the
  canonical encodings of plausible inner datagrams, so every envelope has one encoding and a relay
  never forwards another relay envelope.
\<close>

section \<open>Layout and limits\<close>

definition EnvelopeHeader :: layout where
  "EnvelopeHeader = [(''destination'', 32), (''inner_len'', 4)]"

definition ENVELOPE_HEADER_LEN :: usize where
  "ENVELOPE_HEADER_LEN = size_of EnvelopeHeader"

text \<open>\<open>n & !15\<close> and \<open>(n + 15) & !15\<close> on \<open>usize\<close>.\<close>

definition align_down16 :: "usize \<Rightarrow> usize" where
  "align_down16 n = n div 16 * 16"

definition pad16 :: "usize \<Rightarrow> usize" where
  "pad16 n = align_down16 (n + 15)"

definition MAX_UDP_SIZE :: usize where "MAX_UDP_SIZE = 1500"

definition OUTER_IPV6_UDP_OVERHEAD :: usize where "OUTER_IPV6_UDP_OVERHEAD = 48"

definition MAX_INNER_SIZE :: usize where
  "MAX_INNER_SIZE = align_down16 (MAX_UDP_SIZE - DATA_OVERHEAD)"

definition RECOMMENDED_MAX_MTU :: usize where
  "RECOMMENDED_MAX_MTU = align_down16 (MAX_UDP_SIZE - OUTER_IPV6_UDP_OVERHEAD - DATA_OVERHEAD)"

definition RECOMMENDED_MAX_RELAYED_MTU :: usize where
  "RECOMMENDED_MAX_RELAYED_MTU =
     (let outer_payload = MAX_UDP_SIZE - OUTER_IPV6_UDP_OVERHEAD;
          relay_plaintext = align_down16 (outer_payload - DATA_OVERHEAD);
          inner_datagram = relay_plaintext - ENVELOPE_HEADER_LEN
      in align_down16 (inner_datagram - DATA_OVERHEAD))"

definition MAX_RELAY_INNER_SIZE :: usize where
  "MAX_RELAY_INNER_SIZE =
     align_down16 (align_down16 (MAX_UDP_SIZE - DATA_OVERHEAD) - ENVELOPE_HEADER_LEN)"

definition MAX_RELAY_INNER_IP_SIZE :: usize where
  "MAX_RELAY_INNER_IP_SIZE = align_down16 (MAX_RELAY_INNER_SIZE - DATA_OVERHEAD)"

section \<open>Writing and parsing\<close>

definition write_header :: "bytes \<Rightarrow> bytes \<Rightarrow> usize \<Rightarrow> bytes option" where
  "write_header buf destination inner_len =
     (if inner_len < 2 ^ 32 \<and> ENVELOPE_HEADER_LEN \<le> length buf
      then Some (put_slice buf 0 (destination @ to_le_bytes (word_of_nat inner_len :: u32)))
      else None)"

record envelope =
  env_destination :: bytes
  env_inner :: bytes

definition inner_plausible :: "bytes \<Rightarrow> bool" where
  "inner_plausible inner =
     (case classify inner of
        Some Initiation \<Rightarrow> True
      | Some Response \<Rightarrow> True
      | Some CookieReplyMsg \<Rightarrow> True
      | Some Data \<Rightarrow> length inner mod 16 = 0
      | Some RelayData \<Rightarrow> False
      | None \<Rightarrow> False)"

definition parse_envelope :: "bytes \<Rightarrow> envelope option" where
  "parse_envelope plaintext =
     (if length plaintext < ENVELOPE_HEADER_LEN then None
      else let destination = slice plaintext 0 32;
               inner_len = unat (from_le_bytes (slice plaintext 32 36) :: u32);
               rest = drop ENVELOPE_HEADER_LEN plaintext;
               unpadded_len = ENVELOPE_HEADER_LEN + inner_len;
               expected_plaintext_len = pad16 unpadded_len
           in if length plaintext \<noteq> expected_plaintext_len then None
              else (case (get_range rest 0 inner_len, get_range rest inner_len (length rest)) of
                 (Some inner, Some padding) \<Rightarrow>
                   if (\<exists>byte\<in>set padding. byte \<noteq> 0) \<or> \<not> inner_plausible inner then None
                   else Some \<lparr>env_destination = destination, env_inner = inner\<rparr>
               | _ \<Rightarrow> None))"

text \<open>
  The plaintext of an envelope, byte by byte. \<open>write_envelope\<close> below shows that \<open>write_header\<close> builds
  it, and \<open>wrapped_datagram_unwraps\<close> of \<open>Transport_Limits\<close> that the engine seals it.
\<close>

definition relay_plaintext :: "bytes \<Rightarrow> bytes \<Rightarrow> bytes" where
  "relay_plaintext destination inner =
     (let n = ENVELOPE_HEADER_LEN + length inner
      in destination @ to_le_bytes (word_of_nat (length inner) :: u32) @ inner
         @ replicate (pad16 n - n) 0)"

section \<open>Padding arithmetic\<close>

lemma ENVELOPE_HEADER_LEN_eq [layout_simps, simp]: "ENVELOPE_HEADER_LEN = 36"
  by (simp add: ENVELOPE_HEADER_LEN_def EnvelopeHeader_def size_of_def)

lemma pad16_bounds: "n \<le> pad16 n" "pad16 n < n + 16" "16 dvd pad16 n"
proof -
  have "(n + 15) div 16 * 16 + (n + 15) mod 16 = n + 15" "(n + 15) mod 16 < 16" by simp_all
  then show "n \<le> pad16 n" "pad16 n < n + 16"
    unfolding pad16_def align_down16_def by linarith+
qed (simp add: pad16_def align_down16_def)

lemma length_relay_plaintext:
  "length destination = 32 \<Longrightarrow> length (relay_plaintext destination inner) = pad16 (36 + length inner)"
  using pad16_bounds(1) [of "36 + length inner"] by (simp add: relay_plaintext_def Let_def)

lemma relay_limits:
  "MAX_INNER_SIZE = 1456" "RECOMMENDED_MAX_MTU = 1408" "RECOMMENDED_MAX_RELAYED_MTU = 1328"
  "MAX_RELAY_INNER_SIZE = 1408" "MAX_RELAY_INNER_IP_SIZE = 1376"
  by (simp_all add: MAX_INNER_SIZE_def RECOMMENDED_MAX_MTU_def RECOMMENDED_MAX_RELAYED_MTU_def
      MAX_RELAY_INNER_SIZE_def MAX_RELAY_INNER_IP_SIZE_def MAX_UDP_SIZE_def
      OUTER_IPV6_UDP_OVERHEAD_def align_down16_def Let_def)

text \<open>Padding up and aligning down are adjoint, which makes the size budgets exact.\<close>

lemma pad16_le_iff: "pad16 m \<le> k \<longleftrightarrow> m \<le> align_down16 k"
proof -
  have "pad16 m \<le> k \<longleftrightarrow> (m + 15) div 16 \<le> k div 16"
    by (simp add: pad16_def align_down16_def less_eq_div_iff_mult_less_eq)
  also have "\<dots> \<longleftrightarrow> (m + 15) div 16 < k div 16 + 1" by linarith
  also have "\<dots> \<longleftrightarrow> m + 15 < (k div 16 + 1) * 16" by (simp only: div_less_iff_less_mult zero_less_numeral)
  also have "\<dots> \<longleftrightarrow> m \<le> align_down16 k" by (simp add: align_down16_def) linarith
  finally show ?thesis .
qed

section \<open>Encoding and decoding\<close>

lemma slice_append_left: "b \<le> length xs \<Longrightarrow> slice (xs @ ys) a b = slice xs a b"
  by (simp add: slice_def)

lemma slice_append_right: "length xs \<le> a \<Longrightarrow> slice (xs @ ys) a b = slice ys (a - length xs) (b - length xs)"
  by (simp add: slice_def)

lemma slice_whole [simp]: "slice xs 0 (length xs) = xs"
  by (simp add: slice_def)

lemma parse_relay_plaintext:
  assumes "length dst = 32" "inner_plausible inner" "length inner < 2 ^ 32"
  shows "parse_envelope (relay_plaintext dst inner) = Some \<lparr>env_destination = dst, env_inner = inner\<rparr>"
proof -
  let ?p = "relay_plaintext dst inner"
  let ?hdr = "to_le_bytes (word_of_nat (length inner) :: u32)"
  let ?pad = "replicate (pad16 (36 + length inner) - (36 + length inner)) (0 :: u8)"
  have p: "?p = dst @ ?hdr @ inner @ ?pad" by (simp add: relay_plaintext_def Let_def)
  have hdr: "length ?hdr = 4" by simp
  have dest: "slice ?p 0 32 = dst" using assms(1) by (simp add: p slice_def)
  have "slice ?p 32 36 = ?hdr"
    using assms(1) hdr by (simp add: p slice_def)
  then have len: "unat (from_le_bytes (slice ?p 32 36) :: u32) = length inner"
    using assms(3) by (simp add: from_to_le_bytes unat_of_nat)
  have rest: "drop 36 ?p = inner @ ?pad" using assms(1) hdr by (simp add: p)
  have "parse_envelope ?p = (if \<exists>byte\<in>set ?pad. byte \<noteq> 0 \<or> \<not> inner_plausible inner then None
      else Some \<lparr>env_destination = dst, env_inner = inner\<rparr>)"
    using assms length_relay_plaintext [OF assms(1), of inner] pad16_bounds(1) [of "36 + length inner"]
    by (simp add: parse_envelope_def Let_def len rest dest get_range_def)
  then show ?thesis using assms(2) by simp
qed

lemma parse_envelope_canonical:
  assumes "parse_envelope p = Some e"
  shows "p = relay_plaintext (env_destination e) (env_inner e) \<and> length (env_destination e) = 32
    \<and> inner_plausible (env_inner e) \<and> length (env_inner e) < 2 ^ 32"
proof -
  let ?n = "unat (from_le_bytes (slice p 32 36) :: u32)"
  let ?inner = "take ?n (drop 36 p)" and ?pad = "drop ?n (drop 36 p)"
  from assms have p36: "36 \<le> length p" and plen: "length p = pad16 (36 + ?n)"
    and nle: "?n \<le> length p - 36" and e: "e = \<lparr>env_destination = slice p 0 32, env_inner = ?inner\<rparr>"
    and zero: "\<forall>b\<in>set ?pad. b = 0" and pl: "inner_plausible ?inner"
    by (auto simp: parse_envelope_def Let_def get_range_def split: if_splits)
  have "length (slice p 32 36) = 4" using p36 by (simp add: slice_simps)
  then have hdr: "to_le_bytes (word_of_nat ?n :: u32) = slice p 32 36"
    by (simp add: to_from_le_bytes)
  have inner_len: "length ?inner = ?n" using nle by simp
  have padlen: "length ?pad = pad16 (36 + ?n) - (36 + ?n)" using plen nle by simp
  have "?pad = replicate (length ?pad) 0"
    using zero by (intro replicate_eqI) auto
  then have pad: "?pad = replicate (pad16 (36 + ?n) - (36 + ?n)) 0" unfolding padlen .
  have "slice p 0 32 @ slice p 32 36 = take 36 p"
    using take_add [of 32 4 p] by (simp add: slice_def)
  then have "p = slice p 0 32 @ slice p 32 36 @ ?inner @ ?pad"
    by (simp only: append_take_drop_id append_assoc [symmetric])
  also have "\<dots> = relay_plaintext (slice p 0 32) ?inner"
    by (simp only: relay_plaintext_def Let_def inner_len hdr pad ENVELOPE_HEADER_LEN_eq)
  finally show ?thesis
    using e pl p36 inner_len unsigned_less [of "from_le_bytes (slice p 32 36) :: u32", where 'a = nat]
    by (simp add: slice_simps)
qed

text \<open>The writer of the code, on a zeroed buffer of the padded length that holds the inner datagram.\<close>

lemma write_envelope:
  assumes "length dst = 32"
  shows "write_header (put_slice (replicate (pad16 (ENVELOPE_HEADER_LEN + length inner)) 0) ENVELOPE_HEADER_LEN inner) dst (length inner) =
    (if length inner < 2 ^ 32 then Some (relay_plaintext dst inner) else None)"
proof -
  let ?n = "36 + length inner"
  obtain k where k: "pad16 ?n = 36 + (length inner + k)" using pad16_bounds(1) [of ?n] by (metis le_iff_add add.assoc)
  have "put_slice (replicate (pad16 ?n) 0) 36 inner = replicate 36 0 @ inner @ replicate k 0"
    unfolding k by (simp add: put_slice_def)
  then show ?thesis using assms by (simp add: write_header_def relay_plaintext_def Let_def k put_slice_def)
qed

section \<open>Property\<close>

text \<open>
  C34: the relay parser accepts exactly what the writer produces. It returns an envelope for \<open>p\<close> if and only if
  \<open>write_header\<close>, on a zeroed buffer of the length padded to sixteen into which the inner datagram was copied, yields
  \<open>p\<close> for that destination and that length, the destination has 32 bytes, and the inner datagram is a plausible
  standard tunnel message. So every envelope has one encoding, and a length that does not fit the 32-bit field has none.
\<close>

theorem relay_envelope_canonical:
  "parse_envelope p = Some \<lparr>env_destination = dst, env_inner = inner\<rparr> \<longleftrightarrow>
     length dst = 32 \<and> inner_plausible inner \<and>
     write_header (put_slice (replicate (pad16 (ENVELOPE_HEADER_LEN + length inner)) 0) ENVELOPE_HEADER_LEN inner) dst (length inner) = Some p"
proof
  assume "parse_envelope p = Some \<lparr>env_destination = dst, env_inner = inner\<rparr>"
  then have c: "p = relay_plaintext dst inner" "length dst = 32" "inner_plausible inner" "length inner < 2 ^ 32"
    using parse_envelope_canonical by fastforce+
  show "length dst = 32 \<and> inner_plausible inner \<and>
      write_header (put_slice (replicate (pad16 (ENVELOPE_HEADER_LEN + length inner)) 0) ENVELOPE_HEADER_LEN inner) dst (length inner) = Some p"
    unfolding write_envelope [OF c(2)] using c by simp
next
  assume written: "length dst = 32 \<and> inner_plausible inner \<and>
      write_header (put_slice (replicate (pad16 (ENVELOPE_HEADER_LEN + length inner)) 0) ENVELOPE_HEADER_LEN inner) dst (length inner) = Some p"
  with write_envelope [of dst inner] have "length inner < 2 ^ 32" "p = relay_plaintext dst inner" by (metis option.distinct(1), metis option.inject option.distinct(1))
  with written parse_relay_plaintext show "parse_envelope p = Some \<lparr>env_destination = dst, env_inner = inner\<rparr>" by blast
qed

end
