(* ===== verification/Rate_Limit.thy ===== *)
theory Rate_Limit
  imports Constants Ip_Packet
begin

text \<open>
  Rate limiting (\<open>microtun-core/src/rate.rs\<close>): the token bucket, the sub-Hz interval budget
  and the per-source handshake limiter of the allocation-free backend. All three are accounts that
  a charge lowers and only the passing of time refills; the locale \<open>budget\<close> states that
  contract once and bounds what any sequence of requests can spend.
\<close>

section \<open>Token bucket\<close>

definition COST_MT :: u32 where "COST_MT = 1000"

record token_bucket =
  tb_millitokens :: u32
  tb_capacity_mt :: u32
  tb_per_sec :: u32
  tb_last :: instant

definition bucket_new :: "u32 \<Rightarrow> u32 \<Rightarrow> instant \<Rightarrow> token_bucket" where
  "bucket_new per_sec burst now =
     (let capacity_mt = sat_mul burst 1000
      in \<lparr>tb_millitokens = capacity_mt, tb_capacity_mt = capacity_mt, tb_per_sec = per_sec,
          tb_last = now\<rparr>)"

definition tokens_at :: "token_bucket \<Rightarrow> instant \<Rightarrow> u32" where
  "tokens_at b now =
     (let elapsed_ms = saturating_since now (tb_last b);
          gained = sat_mul elapsed_ms (ucast (tb_per_sec b))
      in ucast (min (sat_add (ucast (tb_millitokens b)) gained) (ucast (tb_capacity_mt b) :: u64)))"

definition is_full :: "token_bucket \<Rightarrow> instant \<Rightarrow> bool" where
  "is_full b now \<longleftrightarrow> tokens_at b now \<ge> tb_capacity_mt b"

definition bucket_try_take :: "token_bucket \<Rightarrow> instant \<Rightarrow> bool \<times> token_bucket" where
  "bucket_try_take b now =
     (let b' = b\<lparr>tb_millitokens := tokens_at b now, tb_last := now\<rparr>
      in if tb_millitokens b' \<ge> COST_MT
         then (True, b'\<lparr>tb_millitokens := tb_millitokens b' - COST_MT\<rparr>)
         else (False, b'))"

section \<open>Interval budget\<close>

record interval_budget =
  ib_available :: u32
  ib_burst :: u32
  ib_interval_ms :: u64
  ib_last_refill :: instant

definition interval_new :: "duration \<Rightarrow> u32 \<Rightarrow> instant \<Rightarrow> interval_budget" where
  "interval_new interval burst now =
     \<lparr>ib_available = burst, ib_burst = burst, ib_interval_ms = interval, ib_last_refill = now\<rparr>"

definition try_take_many :: "interval_budget \<Rightarrow> u32 \<Rightarrow> instant \<Rightarrow> bool \<times> interval_budget" where
  "try_take_many b count now =
     (if count = 0 then (True, b)
      else if ib_interval_ms b = 0 \<or> ib_burst b = 0 \<or> count > ib_burst b then (False, b)
      else let elapsed = saturating_since now (ib_last_refill b);
               refills = elapsed div ib_interval_ms b;
               b' = (if refills \<noteq> 0 then
                       let gained = (if unat refills < 2 ^ 32 then ucast refills else - 1)
                       in b\<lparr>ib_available := min (sat_add (ib_available b) gained) (ib_burst b),
                            ib_last_refill :=
                              sat_add (ib_last_refill b) (sat_mul refills (ib_interval_ms b))\<rparr>
                     else b)
           in if ib_available b' < count then (False, b')
              else (True, b'\<lparr>ib_available := ib_available b' - count\<rparr>))"

definition interval_try_take :: "interval_budget \<Rightarrow> instant \<Rightarrow> bool \<times> interval_budget" where
  "interval_try_take b now = try_take_many b 1 now"

section \<open>Per-source limiter\<close>

datatype source_key = KeyV4 bytes | KeyV6Prefix bytes

definition key_from_ip :: "ip_addr \<Rightarrow> source_key" where
  "key_from_ip ip =
     (case unmap_ip ip of
        IpV4 v4 \<Rightarrow> KeyV4 (ip_octets (IpV4 v4))
      | IpV6 v6 \<Rightarrow> KeyV6Prefix (take 8 (ip_octets (IpV6 v6))))"

record bucket_entry =
  be_key :: source_key
  be_tokens :: token_bucket

record rate_limiter =
  rl_per_sec :: u32
  rl_burst :: u32
  rl_max_entries :: usize
  rl_buckets :: "bucket_entry list"

definition limiter_new :: "u32 \<Rightarrow> u32 \<Rightarrow> usize \<Rightarrow> rate_limiter" where
  "limiter_new per_sec burst max_entries =
     \<lparr>rl_per_sec = per_sec, rl_burst = burst, rl_max_entries = max_entries, rl_buckets = []\<rparr>"

definition limiter_collect :: "rate_limiter \<Rightarrow> instant \<Rightarrow> rate_limiter" where
  "limiter_collect rl now =
     rl\<lparr>rl_buckets := filter (\<lambda>b. \<not> is_full (be_tokens b) now) (rl_buckets rl)\<rparr>"

definition limiter_admit :: "rate_limiter \<Rightarrow> source_key \<Rightarrow> token_bucket \<Rightarrow> bool \<times> rate_limiter" where
  "limiter_admit rl key tokens =
     (if length (rl_buckets rl) < MAX_RATE_LIMIT_ENTRIES
      then (True, rl\<lparr>rl_buckets := rl_buckets rl @ [\<lparr>be_key = key, be_tokens = tokens\<rparr>]\<rparr>)
      else (False, rl))"

definition limiter_insert_new :: "rate_limiter \<Rightarrow> source_key \<Rightarrow> instant \<Rightarrow> bool \<times> rate_limiter" where
  "limiter_insert_new rl key now =
     (let (allowed, tokens) = bucket_try_take (bucket_new (rl_per_sec rl) (rl_burst rl) now) now;
          (admitted, rl') = limiter_admit rl key tokens
      in if \<not> admitted then (False, rl') else (allowed, rl'))"

definition limiter_allow :: "rate_limiter \<Rightarrow> ip_addr \<Rightarrow> instant \<Rightarrow> bool \<times> rate_limiter" where
  "limiter_allow rl ip now =
     (let key = key_from_ip ip
      in case position (\<lambda>b. be_key b = key) (rl_buckets rl) of
           Some i \<Rightarrow>
             (let b = rl_buckets rl ! i; (allowed, tokens) = bucket_try_take (be_tokens b) now
              in (allowed, rl\<lparr>rl_buckets := (rl_buckets rl)[i := b\<lparr>be_tokens := tokens\<rparr>]\<rparr>))
         | None \<Rightarrow>
             if length (rl_buckets rl) \<ge> rl_max_entries rl then
               (let rl' = limiter_collect rl now
                in if length (rl_buckets rl') \<ge> rl_max_entries rl' then (False, rl')
                   else limiter_insert_new rl' key now)
             else limiter_insert_new rl key now)"

section \<open>The contract of an account\<close>

text \<open>
  \<open>potential s t\<close> is what the account can still spend at time \<open>t\<close>. A request may only
  lower it by what it charges, and time raises it at most at \<open>speed\<close>. Then a whole run of
  requests in time order spends at most the initial potential plus what time refilled.
\<close>

fun spent :: "('s \<Rightarrow> 'e \<Rightarrow> 's) \<Rightarrow> ('s \<Rightarrow> 'e \<Rightarrow> nat) \<Rightarrow> 's \<Rightarrow> 'e list \<Rightarrow> nat" where
  "spent request charge s [] = 0"
| "spent request charge s (e # es) = charge s e + spent request charge (request s e) es"

locale budget =
  fixes request :: "'s \<Rightarrow> 'e \<Rightarrow> 's"
    and charge :: "'s \<Rightarrow> 'e \<Rightarrow> nat"
    and at :: "'e \<Rightarrow> instant"
    and potential :: "'s \<Rightarrow> nat \<Rightarrow> nat"
    and speed :: "'s \<Rightarrow> nat"
    and invar :: "'s \<Rightarrow> nat \<Rightarrow> bool"
  assumes invar_request: "invar s (unat (at e)) \<Longrightarrow> invar (request s e) (unat (at e))"
    and invar_later: "invar s t \<Longrightarrow> t \<le> t' \<Longrightarrow> invar s t'"
    and speed_request: "invar s (unat (at e)) \<Longrightarrow> speed (request s e) = speed s"
    and charge_request: "invar s (unat (at e)) \<Longrightarrow>
      potential (request s e) (unat (at e)) + charge s e \<le> potential s (unat (at e))"
    and potential_later: "invar s t \<Longrightarrow> t \<le> t' \<Longrightarrow> potential s t' \<le> potential s t + speed s * (t' - t)"
begin

lemma spent_bound:
  assumes "invar s t" "sorted (t # map (\<lambda>e. unat (at e)) es)"
  shows "spent request charge s es \<le> potential s t + speed s * (last (t # map (\<lambda>e. unat (at e)) es) - t)"
  using assms
proof (induction es arbitrary: s t)
  case (Cons e es)
  let ?u = "unat (at e)" and ?s = "request s e" and ?l = "last (unat (at e) # map (\<lambda>e. unat (at e)) es)"
  have tu: "t \<le> ?u" and sorted: "sorted (?u # map (\<lambda>e. unat (at e)) es)" using Cons.prems by auto
  have "?l \<in> set (?u # map (\<lambda>e. unat (at e)) es)" by (rule last_in_set) simp
  with sorted have ul: "?u \<le> ?l" by auto
  have inv: "invar s ?u" using invar_later [OF Cons.prems(1) tu] .
  have "spent request charge s (e # es) \<le> charge s e + (potential ?s ?u + speed ?s * (?l - ?u))"
    using Cons.IH [OF invar_request [OF inv] sorted] by simp
  also have "\<dots> \<le> potential s ?u + speed s * (?l - ?u)"
    using charge_request [OF inv] speed_request [OF inv] by simp
  also have "\<dots> \<le> potential s t + speed s * (?u - t) + speed s * (?l - ?u)"
    using potential_later [OF Cons.prems(1) tu] by simp
  also have "\<dots> = potential s t + speed s * (?l - t)"
  proof -
    have "?l - t = (?u - t) + (?l - ?u)" using tu ul by linarith
    then show ?thesis by (simp only: distrib_left add.assoc)
  qed
  finally show ?case by simp
qed simp

end

section \<open>The three accounts satisfy the contract\<close>

subsection \<open>Token bucket\<close>

lemma unat_tokens_at:
  "unat (tokens_at b now) =
     min (unat (tb_millitokens b) + (unat now - unat (tb_last b)) * unat (tb_per_sec b))
         (unat (tb_capacity_mt b))"
proof -
  have cap: "unat (tb_capacity_mt b) < 2 ^ 32" "unat (tb_millitokens b) < 2 ^ 32"
    using unsigned_less [of "tb_capacity_mt b", where 'a = nat]
      unsigned_less [of "tb_millitokens b", where 'a = nat] by simp_all
  have up: "unat (ucast x :: u64) = unat x" for x :: u32
    by (simp add: unat_ucast_widen)
  have "unat (ucast (min x (ucast (tb_capacity_mt b) :: u64)) :: u32) = min (unat x) (unat (tb_capacity_mt b))"
    for x :: u64
    using cap(1) by (subst unat_ucast_small) (simp_all add: sat_simps up)
  then show ?thesis
    using cap by (simp add: tokens_at_def Let_def sat_simps up)
qed

definition bucket_potential :: "token_bucket \<Rightarrow> nat \<Rightarrow> nat" where
  "bucket_potential b t =
     min (unat (tb_millitokens b) + (t - unat (tb_last b)) * unat (tb_per_sec b))
         (unat (tb_capacity_mt b))"

definition bucket_charge :: "token_bucket \<Rightarrow> instant \<Rightarrow> nat" where
  "bucket_charge b now = (if fst (bucket_try_take b now) then 1000 else 0)"

definition bucket_invar :: "token_bucket \<Rightarrow> nat \<Rightarrow> bool" where
  "bucket_invar b t \<longleftrightarrow> unat (tb_last b) \<le> t"

lemma tokens_at_potential: "unat (tokens_at b now) = bucket_potential b (unat now)"
  by (simp add: unat_tokens_at bucket_potential_def)

lemma bucket_try_take_fields [simp]:
  "tb_per_sec (snd (bucket_try_take b now)) = tb_per_sec b"
  "tb_capacity_mt (snd (bucket_try_take b now)) = tb_capacity_mt b"
  "tb_last (snd (bucket_try_take b now)) = now"
  by (simp_all add: bucket_try_take_def Let_def)

lemma bucket_charged:
  "bucket_potential (snd (bucket_try_take b now)) (unat now) + bucket_charge b now
     = bucket_potential b (unat now)"
proof -
  have cap: "bucket_potential b (unat now) \<le> unat (tb_capacity_mt b)"
    by (simp add: bucket_potential_def)
  have cost: "COST_MT \<le> tokens_at b now \<longleftrightarrow> 1000 \<le> bucket_potential b (unat now)"
    by (simp add: word_le_nat_alt COST_MT_def tokens_at_potential)
  have "unat (tokens_at b now - COST_MT) = bucket_potential b (unat now) - 1000"
    if "COST_MT \<le> tokens_at b now"
    using that by (simp add: unat_sub COST_MT_def tokens_at_potential)
  moreover have "bucket_potential (b\<lparr>tb_last := now, tb_millitokens := x\<rparr>) (unat now)
      = min (unat x) (unat (tb_capacity_mt b))"
    "bucket_potential (b\<lparr>tb_millitokens := x, tb_last := now\<rparr>) (unat now)
      = min (unat x) (unat (tb_capacity_mt b))" for x
    by (simp_all add: bucket_potential_def)
  ultimately show ?thesis
    using cap cost by (auto simp: bucket_charge_def bucket_try_take_def Let_def tokens_at_potential)
qed

lemma bucket_potential_later:
  assumes "bucket_invar b t" "t \<le> t'"
  shows "bucket_potential b t' \<le> bucket_potential b t + unat (tb_per_sec b) * (t' - t)"
proof -
  have "t' - unat (tb_last b) = (t - unat (tb_last b)) + (t' - t)"
    using assms by (simp add: bucket_invar_def)
  then show ?thesis by (simp add: bucket_potential_def algebra_simps min_def)
qed

interpretation tokens: budget "\<lambda>b now. snd (bucket_try_take b now)" bucket_charge "\<lambda>now. now"
    bucket_potential "\<lambda>b. unat (tb_per_sec b)" bucket_invar
  by unfold_locales
    (simp_all add: bucket_charged bucket_potential_later, simp_all add: bucket_invar_def)

subsection \<open>Interval budget\<close>

definition interval_potential :: "interval_budget \<Rightarrow> nat \<Rightarrow> nat" where
  "interval_potential b t =
     unat (ib_available b) * unat (ib_interval_ms b) + (t - unat (ib_last_refill b))"

definition interval_charge :: "interval_budget \<Rightarrow> u32 \<times> instant \<Rightarrow> nat" where
  "interval_charge b e =
     (if fst (try_take_many b (fst e) (snd e)) then unat (fst e) * unat (ib_interval_ms b) else 0)"

definition interval_invar :: "interval_budget \<Rightarrow> nat \<Rightarrow> bool" where
  "interval_invar b t \<longleftrightarrow> unat (ib_last_refill b) \<le> t"

text \<open>The refill step alone: whole intervals move from the clock into the account.\<close>

lemma interval_refill:
  fixes b :: interval_budget and now :: instant
  defines "r \<equiv> saturating_since now (ib_last_refill b) div ib_interval_ms b"
  defines "g \<equiv> (if unat r < 2 ^ 32 then ucast r else - 1) :: u32"
  assumes inv: "interval_invar b (unat now)"
  shows "unat (sat_add (ib_last_refill b) (sat_mul r (ib_interval_ms b)))
           = unat (ib_last_refill b) + unat r * unat (ib_interval_ms b)"
    and "unat (ib_last_refill b) + unat r * unat (ib_interval_ms b) \<le> unat now"
    and "unat (min (sat_add (ib_available b) g) (ib_burst b)) \<le> unat (ib_available b) + unat r"
proof -
  let ?i = "unat (ib_interval_ms b)"
  have r: "unat r = (unat now - unat (ib_last_refill b)) div ?i"
    by (simp add: r_def unat_div sat_simps)
  then have "unat r * ?i \<le> unat now - unat (ib_last_refill b)"
    by (simp add: div_times_less_eq_dividend)
  then show le: "unat (ib_last_refill b) + unat r * ?i \<le> unat now"
    using inv by (simp add: interval_invar_def)
  have "unat now \<le> 2 ^ 64 - 1" using unat_le_max [of now] by simp
  with le show "unat (sat_add (ib_last_refill b) (sat_mul r (ib_interval_ms b)))
      = unat (ib_last_refill b) + unat r * ?i"
    by (simp add: sat_simps)
  have "unat g \<le> unat r"
    by (auto simp: g_def unat_ucast_small unat_minus_one_word)
  then show "unat (min (sat_add (ib_available b) g) (ib_burst b)) \<le> unat (ib_available b) + unat r"
    by (simp add: sat_simps)
qed

lemma interval_step:
  assumes inv: "interval_invar b (unat (snd e))"
  defines "b' \<equiv> snd (try_take_many b (fst e) (snd e))"
  shows "interval_invar b' (unat (snd e))"
    and "interval_potential b' (unat (snd e)) + interval_charge b e \<le> interval_potential b (unat (snd e))"
    and "ib_interval_ms b' = ib_interval_ms b" "ib_burst b' = ib_burst b"
proof -
  obtain count now where e: "e = (count, now)" by (cases e)
  let ?i = "unat (ib_interval_ms b)"
  let ?r = "saturating_since now (ib_last_refill b) div ib_interval_ms b"
  let ?g = "(if unat ?r < 2 ^ 32 then ucast ?r else - 1) :: u32"
  define c where "c = (if ?r \<noteq> 0
    then b\<lparr>ib_available := min (sat_add (ib_available b) ?g) (ib_burst b),
           ib_last_refill := sat_add (ib_last_refill b) (sat_mul ?r (ib_interval_ms b))\<rparr> else b)"
  have fields: "ib_interval_ms c = ib_interval_ms b" "ib_burst c = ib_burst b"
    by (simp_all add: c_def)
  note refill = interval_refill [OF inv [unfolded e snd_conv]]
  have cinv: "interval_invar c (unat now)"
    using refill(1,2) inv by (auto simp: c_def interval_invar_def e)
  have "unat (ib_available c) * ?i + (unat now - unat (ib_last_refill c))
      \<le> unat (ib_available b) * ?i + (unat now - unat (ib_last_refill b))"
  proof (cases "?r = 0")
    case False
    have "unat (ib_available c) * ?i \<le> (unat (ib_available b) + unat ?r) * ?i"
      using refill(3) False by (intro mult_le_mono1) (simp add: c_def)
    moreover have "unat (ib_last_refill c) = unat (ib_last_refill b) + unat ?r * ?i"
      using refill(1) False by (simp add: c_def)
    ultimately show ?thesis using refill(2) by (simp add: distrib_right)
  qed (simp add: c_def)
  then have pot: "interval_potential c (unat now) \<le> interval_potential b (unat now)"
    by (simp add: interval_potential_def fields)
  have take: "unat (ib_available c - count) * ?i + unat count * ?i = unat (ib_available c) * ?i"
    if "count \<le> ib_available c"
    using that by (simp add: unat_sub word_le_nat_alt flip: distrib_right)
  have "try_take_many b count now =
      (if count = 0 then (True, b)
       else if ib_interval_ms b = 0 \<or> ib_burst b = 0 \<or> count > ib_burst b then (False, b)
       else if ib_available c < count then (False, c)
       else (True, c\<lparr>ib_available := ib_available c - count\<rparr>))"
    by (simp add: try_take_many_def Let_def c_def)
  note run = this
  show "interval_invar b' (unat (snd e))" "ib_interval_ms b' = ib_interval_ms b" "ib_burst b' = ib_burst b"
    using inv cinv fields by (auto simp: b'_def e run interval_invar_def)
  show "interval_potential b' (unat (snd e)) + interval_charge b e \<le> interval_potential b (unat (snd e))"
    using pot take by (auto simp: b'_def e run interval_charge_def interval_potential_def fields not_less)
qed

interpretation intervals: budget "\<lambda>b e. snd (try_take_many b (fst e) (snd e))" interval_charge snd
    interval_potential "\<lambda>b. 1" interval_invar
  by unfold_locales (simp_all add: interval_step, simp_all add: interval_invar_def interval_potential_def)

subsection \<open>Per-source limiter\<close>

definition source_tokens :: "rate_limiter \<Rightarrow> source_key \<Rightarrow> token_bucket option" where
  "source_tokens rl = map_of (map (\<lambda>b. (be_key b, be_tokens b)) (rl_buckets rl))"

definition full_capacity :: "rate_limiter \<Rightarrow> u32" where
  "full_capacity rl = sat_mul (rl_burst rl) 1000"

definition source_potential :: "source_key \<Rightarrow> rate_limiter \<Rightarrow> nat \<Rightarrow> nat" where
  "source_potential k rl t =
     (case source_tokens rl k of None \<Rightarrow> unat (full_capacity rl) | Some b \<Rightarrow> bucket_potential b t)"

definition source_charge :: "source_key \<Rightarrow> rate_limiter \<Rightarrow> ip_addr \<times> instant \<Rightarrow> nat" where
  "source_charge k rl e =
     (if fst (limiter_allow rl (fst e) (snd e)) \<and> key_from_ip (fst e) = k then 1000 else 0)"

definition bucket_entry_ok :: "rate_limiter \<Rightarrow> nat \<Rightarrow> bucket_entry \<Rightarrow> bool" where
  "bucket_entry_ok rl t b \<longleftrightarrow> bucket_invar (be_tokens b) t \<and>
     tb_per_sec (be_tokens b) = rl_per_sec rl \<and> tb_capacity_mt (be_tokens b) = full_capacity rl"

definition limiter_invar :: "rate_limiter \<Rightarrow> nat \<Rightarrow> bool" where
  "limiter_invar rl t \<longleftrightarrow> distinct (map be_key (rl_buckets rl)) \<and>
     (\<forall>b\<in>set (rl_buckets rl). bucket_entry_ok rl t b)"

lemma limiter_allow_config [simp]:
  "rl_per_sec (snd (limiter_allow rl ip now)) = rl_per_sec rl"
  "rl_burst (snd (limiter_allow rl ip now)) = rl_burst rl"
  "rl_max_entries (snd (limiter_allow rl ip now)) = rl_max_entries rl"
  by (auto simp: limiter_allow_def limiter_insert_new_def limiter_admit_def limiter_collect_def Let_def
      split: option.splits prod.splits)

lemma source_tokens_SomeD:
  "source_tokens rl k = Some b \<Longrightarrow> \<exists>e\<in>set (rl_buckets rl). be_key e = k \<and> be_tokens e = b"
  by (auto simp: source_tokens_def dest!: map_of_SomeD)

lemma map_of_replace:
  "i < length es \<Longrightarrow> be_key (es ! i) = k' \<Longrightarrow> distinct (map be_key es) \<Longrightarrow>
   map_of (map (\<lambda>b. (be_key b, be_tokens b)) (es[i := (es ! i)\<lparr>be_tokens := x\<rparr>]))
     = (map_of (map (\<lambda>b. (be_key b, be_tokens b)) es))(k' \<mapsto> x)"
proof (induction es arbitrary: i)
  case (Cons e es)
  show ?case
  proof (cases i)
    case (Suc j)
    with Cons.prems have "be_key (es ! j) \<in> be_key ` set es" "be_key (es ! j) = k'" by auto
    with Cons.prems have "be_key e \<noteq> k'" by auto
    with Suc Cons.IH [of j] Cons.prems show ?thesis by (auto simp: fun_upd_twist)
  qed (use Cons.prems in auto)
qed simp

lemma map_of_keep:
  "distinct (map be_key es) \<Longrightarrow>
   map_of (map (\<lambda>b. (be_key b, be_tokens b)) (filter (\<lambda>b. P (be_tokens b)) es)) k =
     (case map_of (map (\<lambda>b. (be_key b, be_tokens b)) es) k of None \<Rightarrow> None
      | Some x \<Rightarrow> if P x then Some x else None)"
proof (induction es)
  case (Cons e es)
  show ?case
  proof (cases "be_key e = k")
    case True
    with Cons.prems have "map_of (map (\<lambda>b. (be_key b, be_tokens b)) es) k = None"
      by (force simp: map_of_eq_None_iff)
    with True Cons show ?thesis by simp
  qed (use Cons in simp)
qed simp

lemma source_tokens_collect:
  assumes "limiter_invar rl t"
  shows "source_tokens (limiter_collect rl now) k =
    (case source_tokens rl k of None \<Rightarrow> None | Some b \<Rightarrow> if is_full b now then None else Some b)"
  using assms map_of_keep [of "rl_buckets rl" "\<lambda>b. \<not> is_full b now" k]
  by (auto simp: source_tokens_def limiter_collect_def limiter_invar_def split: option.splits)

text \<open>Reclaiming refilled buckets changes nobody's potential.\<close>

lemma collect_source_potential:
  assumes "limiter_invar rl (unat now)"
  shows "source_potential k (limiter_collect rl now) (unat now) = source_potential k rl (unat now)"
proof (cases "source_tokens rl k")
  case None
  then show ?thesis
    using source_tokens_collect [OF assms, of now k]
    by (simp add: source_potential_def full_capacity_def limiter_collect_def)
next
  case (Some b)
  from source_tokens_SomeD [OF Some] assms have cap: "tb_capacity_mt b = full_capacity rl"
    by (auto simp: limiter_invar_def bucket_entry_ok_def)
  have "bucket_potential b (unat now) = unat (full_capacity rl)" if "is_full b now"
    using that cap by (simp add: is_full_def word_le_nat_alt tokens_at_potential)
      (simp add: bucket_potential_def)
  with Some show ?thesis
    using source_tokens_collect [OF assms, of now k]
    by (simp add: source_potential_def full_capacity_def limiter_collect_def)
qed

lemma collect_limiter_invar: "limiter_invar rl t \<Longrightarrow> limiter_invar (limiter_collect rl now) t"
  by (auto simp: limiter_invar_def limiter_collect_def bucket_entry_ok_def full_capacity_def
      distinct_map_filter)

text \<open>The last step of \<open>allow\<close>: a source without a bucket gets a full one and pays from it.\<close>

lemma insert_new_invar:
  assumes "limiter_invar rl (unat now)" "\<forall>b\<in>set (rl_buckets rl). be_key b \<noteq> key"
  shows "limiter_invar (snd (limiter_insert_new rl key now)) (unat now)"
  using assms
  by (auto simp: limiter_invar_def limiter_insert_new_def limiter_admit_def Let_def bucket_entry_ok_def
      bucket_invar_def full_capacity_def bucket_try_take_def bucket_new_def split: prod.splits)

lemma insert_new_charge:
  assumes "limiter_invar rl (unat now)" "\<forall>b\<in>set (rl_buckets rl). be_key b \<noteq> key"
  shows "source_potential k (snd (limiter_insert_new rl key now)) (unat now)
      + (if fst (limiter_insert_new rl key now) \<and> key = k then 1000 else 0)
    \<le> source_potential k rl (unat now)"
proof -
  let ?b = "bucket_new (rl_per_sec rl) (rl_burst rl) now"
  have new: "bucket_potential ?b (unat now) = unat (full_capacity rl)"
    by (simp add: bucket_potential_def bucket_new_def full_capacity_def Let_def)
  have none: "source_tokens rl key = None"
    using assms(2) by (auto simp: source_tokens_def map_of_eq_None_iff)
  have paid: "bucket_potential (snd (bucket_try_take ?b now)) (unat now)
      + (if fst (bucket_try_take ?b now) then 1000 else 0) = unat (full_capacity rl)"
    using bucket_charged [of ?b now] by (simp add: new bucket_charge_def)
  show ?thesis
    using none paid
    by (auto simp: limiter_insert_new_def limiter_admit_def Let_def source_potential_def
        source_tokens_def full_capacity_def map_add_def split: prod.splits option.splits if_splits)
qed

text \<open>A known source pays from its own bucket; an unknown one after reclaiming, if at all.\<close>

lemma limiter_hit:
  assumes inv: "limiter_invar rl (unat now)"
    and hit: "position (\<lambda>b. be_key b = key_from_ip ip) (rl_buckets rl) = Some i"
  shows "limiter_invar (snd (limiter_allow rl ip now)) (unat now) \<and>
    source_potential k (snd (limiter_allow rl ip now)) (unat now) + source_charge k rl (ip, now)
      \<le> source_potential k rl (unat now)"
proof -
  let ?key = "key_from_ip ip" and ?e = "rl_buckets rl ! i"
  have i: "i < length (rl_buckets rl)" "be_key ?e = ?key" using position_SomeD [OF hit] by auto
  obtain ok b' where take: "bucket_try_take (be_tokens ?e) now = (ok, b')" by fastforce
  define rl' where "rl' = rl\<lparr>rl_buckets := (rl_buckets rl)[i := ?e\<lparr>be_tokens := b'\<rparr>]\<rparr>"
  have run: "limiter_allow rl ip now = (ok, rl')"
    using hit take by (simp add: limiter_allow_def Let_def rl'_def)
  have cap: "full_capacity rl' = full_capacity rl" by (simp add: rl'_def full_capacity_def)
  have eok: "bucket_entry_ok rl (unat now) ?e" and dist: "distinct (map be_key (rl_buckets rl))"
    using inv i by (simp_all add: limiter_invar_def)
  have b': "tb_per_sec b' = rl_per_sec rl" "tb_capacity_mt b' = full_capacity rl" "tb_last b' = now"
    using eok bucket_try_take_fields [of "be_tokens ?e" now] take by (simp_all add: bucket_entry_ok_def)
  have keys: "map be_key (rl_buckets rl') = map be_key (rl_buckets rl)"
    using i by (simp add: rl'_def map_update list_update_same_conv)
  have old: "source_tokens rl ?key = Some (be_tokens ?e)"
    using i dist by (force simp: source_tokens_def intro!: map_of_is_SomeI simp: comp_def)
  have new: "source_tokens rl' = (source_tokens rl)(?key \<mapsto> b')"
    using map_of_replace [OF i dist, of b'] by (simp add: rl'_def source_tokens_def)
  have "\<forall>b\<in>set (rl_buckets rl'). bucket_entry_ok rl' (unat now) b"
    using inv b' cap unfolding limiter_invar_def rl'_def
    by (auto simp: bucket_entry_ok_def bucket_invar_def dest!: set_update_subset_insert [THEN subsetD])
  with keys dist have "limiter_invar rl' (unat now)" by (simp add: limiter_invar_def)
  moreover have "source_potential k rl' (unat now) + source_charge k rl (ip, now)
      \<le> source_potential k rl (unat now)"
    using bucket_charged [of "be_tokens ?e" now] old take
    by (auto simp: source_potential_def new cap source_charge_def bucket_charge_def run
        split: option.splits)
  ultimately show ?thesis by (simp add: run)
qed

lemma limiter_miss:
  assumes inv: "limiter_invar rl (unat now)"
    and miss: "position (\<lambda>b. be_key b = key_from_ip ip) (rl_buckets rl) = None"
  shows "limiter_invar (snd (limiter_allow rl ip now)) (unat now) \<and>
    source_potential k (snd (limiter_allow rl ip now)) (unat now) + source_charge k rl (ip, now)
      \<le> source_potential k rl (unat now)"
proof -
  let ?key = "key_from_ip ip"
  have absent: "\<forall>b\<in>set (rl_buckets rl). be_key b \<noteq> ?key"
    using miss by (simp add: position_None_iff)
  then have absent': "\<forall>b\<in>set (rl_buckets (limiter_collect rl now)). be_key b \<noteq> ?key"
    by (simp add: limiter_collect_def)
  note direct = insert_new_invar [OF inv absent] insert_new_charge [OF inv absent, of k]
  note inv' = collect_limiter_invar [OF inv, of now]
  note collected = insert_new_invar [OF inv' absent'] insert_new_charge [OF inv' absent', of k]
  show ?thesis
    using miss direct collected inv' collect_source_potential [OF inv, of k]
    by (auto simp: limiter_allow_def Let_def source_charge_def)
qed

lemma limiter_step:
  assumes "limiter_invar rl (unat now)"
  shows "limiter_invar (snd (limiter_allow rl ip now)) (unat now)"
    and "source_potential k (snd (limiter_allow rl ip now)) (unat now) + source_charge k rl (ip, now)
      \<le> source_potential k rl (unat now)"
  using limiter_hit [OF assms] limiter_miss [OF assms]
  by (metis option.exhaust)+

lemma limiter_invar_later: "limiter_invar rl t \<Longrightarrow> t \<le> t' \<Longrightarrow> limiter_invar rl t'"
  by (auto simp: limiter_invar_def bucket_entry_ok_def bucket_invar_def)

lemma source_potential_later:
  assumes "limiter_invar rl t" "t \<le> t'"
  shows "source_potential k rl t' \<le> source_potential k rl t + unat (rl_per_sec rl) * (t' - t)"
proof (cases "source_tokens rl k")
  case (Some b)
  from source_tokens_SomeD [OF Some] assms(1) have "bucket_invar b t" "tb_per_sec b = rl_per_sec rl"
    by (auto simp: limiter_invar_def bucket_entry_ok_def)
  with bucket_potential_later [OF _ assms(2), of b] Some show ?thesis
    by (simp add: source_potential_def)
qed (simp add: source_potential_def)

interpretation sources: budget "\<lambda>rl e. snd (limiter_allow rl (fst e) (snd e))" "source_charge k" snd
    "source_potential k" "\<lambda>rl. unat (rl_per_sec rl)" limiter_invar for k
proof (unfold_locales, goal_cases)
  case (1 rl e) then show ?case by (rule limiter_step(1))
next
  case (2 rl t t') then show ?case by (rule limiter_invar_later)
next
  case (4 rl e) then show ?case using limiter_step(2) [of rl "snd e" "k" "fst e"] by simp
next
  case (5 rl t t') then show ?case by (rule source_potential_later)
qed simp

section \<open>Counting grants\<close>

lemma bucket_spent_count:
  "spent (\<lambda>b now. snd (bucket_try_take b now)) bucket_charge b ts
     = 1000 * count_list (verdicts bucket_try_take b ts) True"
  by (induction ts arbitrary: b) (auto simp: Let_def bucket_charge_def)

definition granted_total :: "interval_budget \<Rightarrow> (u32 \<times> instant) list \<Rightarrow> nat" where
  "granted_total b es =
     sum_list (map (\<lambda>(e, ok). if ok then unat (fst e) else 0)
       (zip es (verdicts (\<lambda>b e. try_take_many b (fst e) (snd e)) b es)))"

lemma interval_spent_count:
  assumes "ib_interval_ms b = i" "interval_invar b t" "sorted (t # map (\<lambda>e. unat (snd e)) es)"
  shows "spent (\<lambda>b e. snd (try_take_many b (fst e) (snd e))) interval_charge b es
     = granted_total b es * unat i"
  using assms
proof (induction es arbitrary: b t)
  case (Cons e es)
  let ?b = "snd (try_take_many b (fst e) (snd e))"
  have inv: "interval_invar b (unat (snd e))"
    using Cons.prems by (auto simp: interval_invar_def)
  have "spent (\<lambda>b e. snd (try_take_many b (fst e) (snd e))) interval_charge ?b es = granted_total ?b es * unat i"
    using interval_step [OF inv] Cons.prems by (intro Cons.IH [of _ "unat (snd e)"]) auto
  moreover have "interval_charge b e =
      (if fst (try_take_many b (fst e) (snd e)) then unat (fst e) * unat i else 0)"
    using Cons.prems by (simp add: interval_charge_def)
  ultimately show ?case by (simp add: granted_total_def Let_def distrib_right)
qed (simp add: granted_total_def)

definition source_grants :: "source_key \<Rightarrow> rate_limiter \<Rightarrow> (ip_addr \<times> instant) list \<Rightarrow> nat" where
  "source_grants k rl es =
     length (filter (\<lambda>(e, ok). ok \<and> key_from_ip (fst e) = k)
       (zip es (verdicts (\<lambda>rl e. limiter_allow rl (fst e) (snd e)) rl es)))"

lemma source_spent_count:
  "spent (\<lambda>rl e. snd (limiter_allow rl (fst e) (snd e))) (source_charge k) rl es
     = 1000 * source_grants k rl es"
  by (induction es arbitrary: rl) (auto simp: Let_def source_charge_def source_grants_def)

section \<open>Properties\<close>

text \<open>
  C35: a token bucket created at \<open>t0\<close> never grants more than its burst plus what its rate
  refills: over any sequence of requests in time order, a thousand times the number of grants is at
  most the capacity in millitokens plus \<open>per_sec\<close> times the elapsed milliseconds.
\<close>

theorem token_bucket_grants_bounded:
  assumes "sorted (unat t0 # map unat ts)"
  shows "1000 * count_list (verdicts bucket_try_take (bucket_new per_sec burst t0) ts) True
    \<le> unat (sat_mul burst 1000) + unat per_sec * (last (unat t0 # map unat ts) - unat t0)"
proof -
  let ?b = "bucket_new per_sec burst t0"
  have "bucket_invar ?b (unat t0)" by (simp add: bucket_invar_def bucket_new_def Let_def)
  from tokens.spent_bound [OF this assms] show ?thesis
    by (simp add: bucket_spent_count bucket_potential_def bucket_new_def Let_def)
qed

theorem token_bucket_grants_bounded_witness:
  "1000 * count_list (verdicts bucket_try_take (bucket_new 1 4 0) [0, 0, 0, 0, 0, 1000]) True \<le> 5000"
  using token_bucket_grants_bounded [of 0 "[0, 0, 0, 0, 0, 1000]" 1 4] by (simp add: sat_mul_def)

text \<open>
  The interval budget bounds destructive operations: over any sequence of all-or-nothing
  requests in time order, the operations granted are at most the burst plus the number of whole
  intervals that elapsed since creation.
\<close>

theorem interval_budget_bounded:
  assumes "0 < interval" "sorted (unat t0 # map (\<lambda>e. unat (snd e)) es)"
  shows "granted_total (interval_new interval burst t0) es
    \<le> unat burst + (last (unat t0 # map (\<lambda>e. unat (snd e)) es) - unat t0) div unat interval"
proof -
  let ?b = "interval_new interval burst t0" and ?i = "unat interval"
  let ?d = "last (unat t0 # map (\<lambda>e. unat (snd e)) es) - unat t0"
  have i: "0 < ?i" using assms(1) by (simp add: word_less_nat_alt)
  have inv: "interval_invar ?b (unat t0)" by (simp add: interval_invar_def interval_new_def)
  have "granted_total ?b es * ?i \<le> unat burst * ?i + ?d"
    using intervals.spent_bound [OF inv assms(2)] interval_spent_count [OF _ inv assms(2)]
    by (simp add: interval_potential_def interval_new_def)
  then have "granted_total ?b es * ?i div ?i \<le> (unat burst * ?i + ?d) div ?i" by (rule div_le_mono)
  with i show ?thesis by simp
qed

text \<open>
  C33: the per-source handshake limit cannot be evaded. Whatever the other sources do, and although
  buckets are reclaimed and recreated, a source (an IPv4 address or an IPv6 /64) gets at most its
  burst plus what its rate refilled, over any sequence of handshake messages in time order.
\<close>

theorem source_rate_limit_holds:
  assumes "sorted (unat t0 # map (\<lambda>e. unat (snd e)) es)"
  shows "1000 * source_grants k (limiter_new per_sec burst max_entries) es
    \<le> unat (sat_mul burst 1000) + unat per_sec * (last (unat t0 # map (\<lambda>e. unat (snd e)) es) - unat t0)"
proof -
  let ?rl = "limiter_new per_sec burst max_entries"
  have "limiter_invar ?rl (unat t0)" by (simp add: limiter_invar_def limiter_new_def)
  from sources.spent_bound [OF this assms, of k] show ?thesis
    by (simp add: source_spent_count source_potential_def source_tokens_def full_capacity_def
        limiter_new_def)
qed

theorem source_rate_limit_holds_witness:
  "1000 * source_grants (key_from_ip (IpV4 1)) (limiter_new 20 5 1)
     [(IpV4 1, 0), (IpV4 2, 0), (IpV4 1, 50), (IpV4 2, 60), (IpV4 1, 100)] \<le> 7000"
  using source_rate_limit_holds [of 0 "[(IpV4 1, 0), (IpV4 2, 0), (IpV4 1, 50), (IpV4 2, 60), (IpV4 1, 100)]"
      "key_from_ip (IpV4 1)" 20 5 1]
  by (simp add: sat_mul_def)

end
