(* ===== verification/Session_Index.thy ===== *)
theory Session_Index
  imports Prelude
begin

text \<open>
  The reverse map from receiver indices to session slots
  (\<open>microtun-core/src/session_index.rs\<close>). The fixed-capacity hash map is an association list
  with its capacity; the random number generator is a state with the function that draws the next
  32-bit value, an argument of \<open>random_unused\<close>. The interface the session pool relies on is
  the locale \<open>index_table\<close>.
\<close>

section \<open>The table and its operations\<close>

type_synonym 'r next_u32 = "'r \<Rightarrow> u32 \<times> 'r"

record session_index_map =
  max_sessions :: usize
  by_index :: "(u32 \<times> slot_idx) list"

definition MAX_RANDOM_ATTEMPTS :: usize where "MAX_RANDOM_ATTEMPTS = 32"

definition index_new :: "usize \<Rightarrow> session_index_map" where
  "index_new n = \<lparr>max_sessions = n, by_index = []\<rparr>"

definition slot_for :: "session_index_map \<Rightarrow> u32 \<Rightarrow> slot_idx option" where
  "slot_for m index = map_of (by_index m) index"

primrec random_unused_in :: "nat \<Rightarrow> 'r next_u32 \<Rightarrow> session_index_map \<Rightarrow> 'r \<Rightarrow> u32 result \<times> 'r" where
  "random_unused_in 0 next_u32 m rng = (Inl SessionIndexGenerationFailed, rng)"
| "random_unused_in (Suc attempts) next_u32 m rng =
     (let (index, rng') = next_u32 rng
      in if slot_for m index = None then (Inr index, rng')
         else random_unused_in attempts next_u32 m rng')"

definition random_unused :: "'r next_u32 \<Rightarrow> session_index_map \<Rightarrow> 'r \<Rightarrow> u32 result \<times> 'r" where
  "random_unused next_u32 m rng = random_unused_in MAX_RANDOM_ATTEMPTS next_u32 m rng"

definition index_insert :: "session_index_map \<Rightarrow> u32 \<Rightarrow> slot_idx \<Rightarrow> unit result \<times> session_index_map" where
  "index_insert m index slot =
     (if unat slot \<ge> max_sessions m then (Inl SessionIndexGenerationFailed, m)
      else case slot_for m index of
        Some _ \<Rightarrow> (Inl SessionIndexGenerationFailed, m)
      | None \<Rightarrow>
          if length (by_index m) < max_sessions m
          then (Inr (), m\<lparr>by_index := by_index m @ [(index, slot)]\<rparr>)
          else (Inl SessionIndexGenerationFailed, m))"

definition index_forget :: "session_index_map \<Rightarrow> u32 \<Rightarrow> slot_idx option \<times> session_index_map" where
  "index_forget m index =
     (slot_for m index, m\<lparr>by_index := filter (\<lambda>e. fst e \<noteq> index) (by_index m)\<rparr>)"

definition index_replace :: "session_index_map \<Rightarrow> u32 \<Rightarrow> u32 \<Rightarrow> slot_idx \<Rightarrow> unit result \<times> session_index_map" where
  "index_replace m old new slot =
     (if unat slot \<ge> max_sessions m then (Inl SessionIndexGenerationFailed, m)
      else if slot_for m old \<noteq> Some slot then (Inl InternalInvariant, m)
      else if old = new then (Inr (), m)
      else if slot_for m new \<noteq> None then (Inl SessionIndexGenerationFailed, m)
      else
        (let (removed, m1) = index_forget m old
         in if removed \<noteq> Some slot then (Inl InternalInvariant, m1)
            else case index_insert m1 new slot of
              (Inr _, m2) \<Rightarrow> (Inr (), m2)
            | (Inl _, m2) \<Rightarrow>
                (case index_insert m2 old slot of
                   (Inl _, m3) \<Rightarrow> (Inl InternalInvariant, m3)
                 | (Inr _, m3) \<Rightarrow> (Inl SessionIndexGenerationFailed, m3))))"

definition index_remove :: "session_index_map \<Rightarrow> u32 \<Rightarrow> slot_idx \<Rightarrow> unit result \<times> session_index_map" where
  "index_remove m index slot =
     (if slot_for m index \<noteq> Some slot then (Inl InternalInvariant, m)
      else case index_forget m index of
        (Some owner, m1) \<Rightarrow> if owner = slot then (Inr (), m1) else (Inl InternalInvariant, m1)
      | (None, m1) \<Rightarrow> (Inl InternalInvariant, m1))"

section \<open>Invariant and behaviour\<close>

definition index_wf :: "session_index_map \<Rightarrow> bool" where
  "index_wf m \<longleftrightarrow> distinct (map fst (by_index m)) \<and> length (by_index m) \<le> max_sessions m
     \<and> (\<forall>e\<in>set (by_index m). unat (snd e) < max_sessions m)"

lemma map_of_filter_key: "map_of (filter (\<lambda>e. fst e \<noteq> k) xs) = (map_of xs)(k := None)"
  by (induction xs) auto

lemma slot_for_new [simp]: "slot_for (index_new n) = Map.empty"
  by (auto simp: slot_for_def index_new_def)

lemma index_wf_new [simp]: "index_wf (index_new n)"
  by (simp add: index_wf_def index_new_def)

lemma slot_for_forget: "slot_for (snd (index_forget m i)) = (slot_for m)(i := None)"
  by (auto simp: slot_for_def index_forget_def map_of_filter_key)

lemma index_wf_forget: "index_wf m \<Longrightarrow> index_wf (snd (index_forget m i))"
  by (auto simp: index_wf_def index_forget_def distinct_map_filter intro: le_trans [OF length_filter_le])

lemma length_forget:
  assumes "slot_for m i = Some s"
  shows "length (by_index (snd (index_forget m i))) < length (by_index m)"
proof -
  have "(i, s) \<in> set (by_index m)" using assms by (simp add: slot_for_def map_of_SomeD)
  then show ?thesis by (auto simp: index_forget_def intro!: length_filter_less)
qed

lemma max_sessions_forget [simp]: "max_sessions (snd (index_forget m i)) = max_sessions m"
  by (simp add: index_forget_def)

lemma index_insert_ok_iff:
  "fst (index_insert m i s) = Inr () \<longleftrightarrow>
     unat s < max_sessions m \<and> slot_for m i = None \<and> length (by_index m) < max_sessions m"
  by (auto simp: index_insert_def split: option.splits)

lemma index_insert_okD:
  assumes "index_insert m i s = (Inr u, m')"
  shows "slot_for m' = (slot_for m)(i \<mapsto> s)" "slot_for m i = None" "max_sessions m' = max_sessions m"
    "length (by_index m') = Suc (length (by_index m))"
  using assms by (auto simp: index_insert_def slot_for_def map_add_def fun_eq_iff
      split: option.splits if_splits)

lemma index_insert_errD: "index_insert m i s = (Inl e, m') \<Longrightarrow> m' = m"
  by (auto simp: index_insert_def split: option.splits if_splits)

lemma index_insert_wf: "index_wf m \<Longrightarrow> index_insert m i s = (r, m') \<Longrightarrow> index_wf m'"
  by (fastforce simp: index_wf_def index_insert_def slot_for_def map_of_eq_None_iff
      split: option.splits if_splits)

lemma index_remove_eq:
  "slot_for m i = Some s \<Longrightarrow> index_remove m i s = (Inr (), snd (index_forget m i))"
  by (simp add: index_remove_def index_forget_def)

lemma index_remove_err: "slot_for m i \<noteq> Some s \<Longrightarrow> index_remove m i s = (Inl InternalInvariant, m)"
  by (simp add: index_remove_def)

section \<open>The interface of the session pool\<close>

text \<open>
  What the pool of session slots relies on: a successful insert or remove changes exactly one
  index, a failed one changes nothing, and the table stays well formed.
\<close>

locale index_table =
  fixes lookup :: "'m \<Rightarrow> 'i \<Rightarrow> 's option"
    and ins del :: "'m \<Rightarrow> 'i \<Rightarrow> 's \<Rightarrow> unit result \<times> 'm"
    and wf :: "'m \<Rightarrow> bool"
  assumes ins_ok: "ins m i s = (Inr u, m') \<Longrightarrow> lookup m i = None \<and> lookup m' = (lookup m)(i \<mapsto> s)"
    and ins_err: "ins m i s = (Inl e, m') \<Longrightarrow> m' = m"
    and ins_wf: "wf m \<Longrightarrow> ins m i s = (r, m') \<Longrightarrow> wf m'"
    and del_ok: "lookup m i = Some s \<Longrightarrow> \<exists>m'. del m i s = (Inr (), m') \<and> lookup m' = (lookup m)(i := None)"
    and del_err: "lookup m i \<noteq> Some s \<Longrightarrow> del m i s = (Inl InternalInvariant, m)"
    and del_wf: "wf m \<Longrightarrow> del m i s = (r, m') \<Longrightarrow> wf m'"
begin

lemma ins_keeps_others: "ins m i s = (Inr u, m') \<Longrightarrow> j \<noteq> i \<Longrightarrow> lookup m' j = lookup m j"
  by (simp add: ins_ok)

lemma del_stops_resolving:
  assumes "del m i s = (Inr u, m')"
  shows "lookup m' i = None" "j \<noteq> i \<Longrightarrow> lookup m' j = lookup m j"
proof -
  have "lookup m i = Some s" using del_err [of m i s] assms by fastforce
  with del_ok assms have "lookup m' = (lookup m)(i := None)" by fastforce
  then show "lookup m' i = None" "j \<noteq> i \<Longrightarrow> lookup m' j = lookup m j" by simp_all
qed

lemma ins_del:
  assumes "ins m i s = (Inr u, m')"
  shows "\<exists>m''. del m' i s = (Inr (), m'') \<and> lookup m'' = lookup m"
proof -
  have "lookup m' i = Some s" "lookup m i = None" "lookup m' = (lookup m)(i \<mapsto> s)"
    using ins_ok [OF assms] by auto
  with del_ok [of m' i s] show ?thesis by (metis fun_upd_idem fun_upd_upd)
qed

end

interpretation sidx: index_table slot_for index_insert index_remove index_wf
proof (unfold_locales, goal_cases)
  case (4 m i s)
  then show ?case by (auto simp: index_remove_eq slot_for_forget)
next
  case (6 m i s r m')
  then show ?case
    by (cases "slot_for m i = Some s") (auto simp: index_remove_eq index_remove_err index_wf_forget)
qed (auto simp: index_insert_okD index_remove_err dest: index_insert_errD index_insert_wf)

section \<open>Properties\<close>

lemma random_unused_in_ok:
  "random_unused_in n next_u32 m rng = (Inr i, rng') \<Longrightarrow> slot_for m i = None"
  by (induction n arbitrary: rng) (auto split: prod.splits if_splits)

lemma index_replace_eq:
  assumes "slot_for m old = Some slot" "unat slot < max_sessions m" "index_wf m"
    "old \<noteq> new" "slot_for m new = None"
  shows "\<exists>m'. index_replace m old new slot = (Inr (), m')
    \<and> slot_for m' = (slot_for m)(old := None, new \<mapsto> slot) \<and> index_wf m'"
proof -
  define m1 where "m1 = snd (index_forget m old)"
  have "length (by_index m1) < max_sessions m"
    using length_forget [OF assms(1)] assms(3) by (simp add: m1_def index_wf_def)
  then have "fst (index_insert m1 new slot) = Inr ()"
    using assms by (simp add: index_insert_ok_iff m1_def slot_for_forget)
  then obtain m2 where m2: "index_insert m1 new slot = (Inr (), m2)" by (metis prod.collapse)
  have "index_replace m old new slot = (Inr (), m2)"
    using assms m2 by (simp add: index_replace_def m1_def index_forget_def)
  moreover have "slot_for m2 = (slot_for m)(old := None, new \<mapsto> slot)"
    using index_insert_okD(1) [OF m2] by (simp add: m1_def slot_for_forget)
  moreover have "index_wf m2"
    using index_insert_wf [OF _ m2] index_wf_forget [OF assms(3)] by (simp add: m1_def)
  ultimately show ?thesis by blast
qed

lemma index_replace_run:
  assumes "index_wf m" and "index_replace m old new slot = (r, m')"
  shows "index_wf m' \<and>
    (if r = Inr () \<and> old \<noteq> new
     then slot_for m old = Some slot \<and> slot_for m new = None
       \<and> slot_for m' = (slot_for m)(old := None, new \<mapsto> slot)
     else m' = m) \<and>
    (slot_for m old = Some slot \<and> slot_for m new = None \<longrightarrow> r = Inr ())"
proof (cases "slot_for m old = Some slot \<and> unat slot < max_sessions m \<and> old \<noteq> new \<and> slot_for m new = None")
  case True
  with index_replace_eq [of m old slot new] assms show ?thesis by auto
next
  case False
  have "slot_for m old = Some slot \<Longrightarrow> unat slot < max_sessions m"
    using assms(1) by (auto simp: index_wf_def slot_for_def dest!: map_of_SomeD)
  with False assms show ?thesis by (auto simp: index_replace_def split: if_splits)
qed

text \<open>
  C39: rebinding a live receiver index is transactional. With a well-formed table, replacing an
  index that belongs to the slot by an unused one always succeeds and moves exactly that binding;
  every other call leaves the table as it was.
\<close>

theorem index_replace_transactional:
  assumes "index_wf m" and "index_replace m old new slot = (r, m')"
  shows "index_wf m' \<and>
    (if r = Inr () \<and> old \<noteq> new
     then slot_for m old = Some slot \<and> slot_for m new = None
       \<and> slot_for m' = (slot_for m)(old := None, new \<mapsto> slot)
     else m' = m) \<and>
    (slot_for m old = Some slot \<and> slot_for m new = None \<longrightarrow> r = Inr ())"
  using assms by (rule index_replace_run)

theorem index_replace_transactional_witness:
  "slot_for (snd (index_replace \<lparr>max_sessions = 2, by_index = [(7, 0), (9, 1)]\<rparr> 7 11 0)) 11 = Some 0"
proof -
  let ?m = "\<lparr>max_sessions = 2, by_index = [(7, 0), (9, 1)]\<rparr>"
  have "index_wf ?m" by (simp add: index_wf_def)
  from index_replace_transactional [OF this, of 7 11 0 "fst (index_replace ?m 7 11 0)" "snd (index_replace ?m 7 11 0)"]
  show ?thesis by (auto simp: slot_for_def split: if_splits)
qed

text \<open>
  Drawing a fresh receiver index never returns one in use, and an index it returned can be
  inserted for any slot of the pool as long as fewer than \<open>MAX_SESSIONS\<close> indices are live.
\<close>

theorem random_unused_fresh:
  assumes "random_unused next_u32 m rng = (Inr i, rng')"
    and "unat slot < max_sessions m" and "length (by_index m) < max_sessions m"
  shows "\<exists>m'. index_insert m i slot = (Inr (), m') \<and> slot_for m i = None
    \<and> slot_for m' = (slot_for m)(i \<mapsto> slot)"
proof -
  have "slot_for m i = None" using assms(1) unfolding random_unused_def by (rule random_unused_in_ok)
  with assms(2,3) index_insert_ok_iff [of m i slot] have "fst (index_insert m i slot) = Inr ()" by simp
  then obtain m' where "index_insert m i slot = (Inr (), m')" by (metis prod.collapse)
  with index_insert_okD [OF this] show ?thesis by blast
qed

end
