(* ===== verification/Session_State.thy ===== *)
theory Session_State
  imports Constants Replay
begin

text \<open>
  Established sessions (\<open>microtun-core/src/session.rs\<close>) and the randomised timers of
  \<open>microtun-core/src/lib.rs\<close> that set their rekey age. The random number generator is a state
  with the function that draws the next 32-bit value.
\<close>

section \<open>Sessions\<close>

datatype role = InitiatorRole | ResponderRole

record transport_keys =
  tk_send :: bytes
  tk_recv :: bytes

record session =
  s_peer :: u32
  t_send :: bytes
  t_recv :: bytes
  n_send :: u64
  s_replay :: replay_window
  s_local_index :: u32
  s_remote_index :: u32
  s_role :: role
  s_created :: instant
  s_rekey_after :: duration
  s_confirmed :: bool
  s_rekey_triggered :: bool

text \<open>\<open>None\<close> is the failed assertion of \<open>ReplayWindow::new\<close> on zero words.\<close>

definition session_new :: "usize \<Rightarrow> transport_keys \<Rightarrow> role \<Rightarrow> u32 \<Rightarrow> u32 \<Rightarrow> instant \<Rightarrow> session option" where
  "session_new replay_words keys r local_index remote_index now =
     map_option (\<lambda>window.
       \<lparr>s_peer = 0, t_send = tk_send keys, t_recv = tk_recv keys, n_send = 0, s_replay = window,
        s_local_index = local_index, s_remote_index = remote_index, s_role = r, s_created = now,
        s_rekey_after = REKEY_AFTER_TIME, s_confirmed = (r = InitiatorRole), s_rekey_triggered = False\<rparr>)
     (replay_new replay_words)"

definition rekey_deadline :: "session \<Rightarrow> instant" where
  "rekey_deadline s =
     (let after = if s_rekey_after s < REJECT_AFTER_TIME then s_rekey_after s else REKEY_AFTER_TIME
      in instant_add (s_created s) after)"

definition session_expired :: "session \<Rightarrow> instant \<Rightarrow> bool" where
  "session_expired s now \<longleftrightarrow>
     saturating_since now (s_created s) \<ge> REJECT_AFTER_TIME \<or> n_send s \<ge> REJECT_AFTER_MESSAGES"

definition can_send :: "session \<Rightarrow> instant \<Rightarrow> bool" where
  "can_send s now = (if session_expired s now then False else s_confirmed s)"

definition session_wipe :: "session \<Rightarrow> session" where
  "session_wipe s = s\<lparr>t_send := replicate (length (t_send s)) 0, t_recv := replicate (length (t_recv s)) 0\<rparr>"

section \<open>Randomised timers\<close>

definition rekey_timeout_jitter :: "('r \<Rightarrow> u32 \<times> 'r) \<Rightarrow> 'r \<Rightarrow> duration \<times> 'r" where
  "rekey_timeout_jitter next_u32 rng =
     (let jitter_range = sat_add REKEY_TIMEOUT_JITTER_MAX 1;
          (r, rng') = next_u32 rng
      in (ucast r mod jitter_range, rng'))"

definition handshake_retry_deadline :: "('r \<Rightarrow> u32 \<times> 'r) \<Rightarrow> 'r \<Rightarrow> instant \<Rightarrow> instant \<times> 'r" where
  "handshake_retry_deadline next_u32 rng now =
     (let (jitter, rng') = rekey_timeout_jitter next_u32 rng
      in (instant_add (instant_add now REKEY_TIMEOUT) jitter, rng'))"

definition rekey_after_time :: "('r \<Rightarrow> u32 \<times> 'r) \<Rightarrow> 'r \<Rightarrow> duration \<times> 'r" where
  "rekey_after_time next_u32 rng =
     (let spread_ms = sat_add (min REKEY_AFTER_TIME_JITTER_MAX REKEY_AFTER_TIME) 1;
          (r, rng') = next_u32 rng;
          offset_ms = ucast r mod spread_ms
      in (sat_sub REKEY_AFTER_TIME offset_ms, rng'))"

section \<open>Timer bounds\<close>

lemma unat_mod_less: "0 < unat m \<Longrightarrow> unat (x mod m) < unat m" for x m :: "'a::len word"
  by (simp add: unat_mod)

lemma rekey_timeout_jitter_bound: "unat (fst (rekey_timeout_jitter next_u32 rng)) \<le> 333"
proof -
  have m: "unat (sat_add REKEY_TIMEOUT_JITTER_MAX 1) = 334" by (simp add: unat_sat_add)
  obtain r rng' where "next_u32 rng = (r, rng')" by fastforce
  with unat_mod_less [of "sat_add REKEY_TIMEOUT_JITTER_MAX 1" "ucast r"] m show ?thesis
    by (simp add: rekey_timeout_jitter_def)
qed

lemma rekey_after_time_bounds:
  "110000 \<le> unat (fst (rekey_after_time next_u32 rng))" "unat (fst (rekey_after_time next_u32 rng)) \<le> 120000"
proof -
  let ?m = "sat_add (min REKEY_AFTER_TIME_JITTER_MAX REKEY_AFTER_TIME) 1"
  have m: "unat ?m = 10001" by (simp add: unat_sat_add unat_min)
  obtain r rng' where r: "next_u32 rng = (r, rng')" by fastforce
  have "unat (ucast r mod ?m) \<le> 10000" using unat_mod_less [of ?m "ucast r"] m by simp
  moreover have "unat (fst (rekey_after_time next_u32 rng)) = 120000 - unat (ucast r mod ?m)"
    by (simp add: rekey_after_time_def unat_sat_sub r)
  ultimately show "110000 \<le> unat (fst (rekey_after_time next_u32 rng))"
    "unat (fst (rekey_after_time next_u32 rng)) \<le> 120000" by linarith+
qed

lemma rekey_deadline_before_reject:
  assumes "unat (s_created s) + 180000 < 2 ^ 64"
  shows "unat (rekey_deadline s) < unat (s_created s) + 180000"
proof -
  let ?after = "if s_rekey_after s < REJECT_AFTER_TIME then s_rekey_after s else REKEY_AFTER_TIME"
  have "unat ?after < 180000" by (simp add: word_less_nat_alt)
  then show ?thesis using assms by (simp add: rekey_deadline_def instant_add_def unat_sat_add Let_def)
qed

lemma session_too_old_iff:
  "saturating_since now (s_created s) \<ge> REJECT_AFTER_TIME \<longleftrightarrow> unat (s_created s) + 180000 \<le> unat now"
  by (auto simp: word_le_nat_alt saturating_since_def unat_sat_sub)

end
