(* ===== verification/Pending_Pool.thy ===== *)
theory Pending_Pool
  imports Constants Relay_Envelope "HOL-Library.Multiset"
begin

text \<open>
  The pool of parked outbound packets (\<open>microtun-core/src/pending.rs\<close>), with the inline
  worst-case buffers of the allocation-free build. The abstract view of the pool is the multiset of
  the packets it holds; the lemmas say what each operation does to it.
\<close>

section \<open>The pool and its operations\<close>

type_synonym resolve_id = u64
datatype wait = WaitResolve resolve_id | WaitHandshake peer_idx

record pending_packet =
  pp_buf :: bytes
  pp_len :: u16
  pp_wait :: wait
  pp_deadline :: instant

type_synonym pending_pool = "pending_packet option list"

definition pp_packet :: "pending_packet \<Rightarrow> bytes" where
  "pp_packet p = slice (pp_buf p) 0 (unat (pp_len p))"

definition pp_wipe :: "pending_packet \<Rightarrow> pending_packet" where
  "pp_wipe p = p\<lparr>pp_buf := replicate (length (pp_buf p)) 0, pp_len := 0\<rparr>"

definition pool_new :: "usize \<Rightarrow> pending_pool" where
  "pool_new max_packets = replicate max_packets None"

definition park_entry :: "bytes \<Rightarrow> wait \<Rightarrow> instant \<Rightarrow> pending_packet" where
  "park_entry packet w deadline =
     \<lparr>pp_buf = put_slice (replicate MAX_INNER_SIZE 0) 0 packet, pp_len = word_of_nat (length packet),
      pp_wait = w, pp_deadline = deadline\<rparr>"

definition park_key :: "pending_packet option \<Rightarrow> instant" where
  "park_key s = (case s of Some p \<Rightarrow> pp_deadline p | None \<Rightarrow> 0)"

definition park :: "pending_pool \<Rightarrow> bytes \<Rightarrow> wait \<Rightarrow> instant \<Rightarrow> bool \<times> pending_pool" where
  "park pool packet w deadline =
     (if length packet > MAX_INNER_SIZE then (False, pool)
      else
        (let entry = park_entry packet w deadline
         in case position (\<lambda>s. s = None) pool of
              Some i \<Rightarrow> (True, pool[i := Some entry])
            | None \<Rightarrow>
                (case min_by (\<lambda>i. park_key (pool ! i)) [0..<length pool] of
                   Some i \<Rightarrow> (True, pool[i := Some entry])
                 | None \<Rightarrow> (False, pool))))"

definition slot_matches :: "(pending_packet \<Rightarrow> bool) \<Rightarrow> pending_packet option \<Rightarrow> bool" where
  "slot_matches pred s = (case s of Some p \<Rightarrow> pred p | None \<Rightarrow> False)"

fun take_if :: "(pending_packet \<Rightarrow> bool) \<Rightarrow> pending_pool \<Rightarrow> pending_packet option \<times> pending_pool" where
  "take_if pred [] = (None, [])"
| "take_if pred (s # pool) =
     (if slot_matches pred s then (s, None # pool)
      else let (r, pool') = take_if pred pool in (r, s # pool'))"

definition drop_if :: "(pending_packet \<Rightarrow> bool) \<Rightarrow> pending_pool \<Rightarrow> pending_pool" where
  "drop_if pred pool = map (\<lambda>s. if slot_matches pred s then None else s) pool"

definition parked :: "pending_pool \<Rightarrow> pending_packet list" where
  "parked pool = List.map_filter id pool"

definition next_deadline :: "pending_pool \<Rightarrow> instant option" where
  "next_deadline pool = map_option pp_deadline (min_by pp_deadline (parked pool))"

fun expire_one :: "instant \<Rightarrow> pending_pool \<Rightarrow> bool \<times> pending_pool" where
  "expire_one now [] = (False, [])"
| "expire_one now (s # pool) =
     (if slot_matches (\<lambda>p. pp_deadline p \<le> now) s then (True, None # pool)
      else let (r, pool') = expire_one now pool in (r, s # pool'))"

section \<open>The pool as a multiset\<close>

lemma parked_simps [simp]:
  "parked [] = []" "parked (None # pool) = parked pool" "parked (Some p # pool) = p # parked pool"
  by (simp_all add: parked_def map_filter_simps)

lemma set_parked: "set (parked pool) = {p. Some p \<in> set pool}"
proof (induction pool)
  case (Cons s pool)
  then show ?case by (cases s) auto
qed simp

lemma length_parked_full: "None \<notin> set pool \<Longrightarrow> length (parked pool) = length pool"
proof (induction pool)
  case (Cons s pool)
  then show ?case by (cases s) auto
qed simp

lemma length_parked_le: "length (parked pool) \<le> length pool"
proof (induction pool)
  case (Cons s pool)
  then show ?case by (cases s) auto
qed simp

lemma mset_parked_update:
  "i < length pool \<Longrightarrow> add_mset p (mset (parked pool)) =
     mset (parked (pool[i := Some p])) + (case pool ! i of None \<Rightarrow> {#} | Some q \<Rightarrow> {#q#})"
proof (induction pool arbitrary: i)
  case (Cons s pool)
  show ?case
  proof (cases i)
    case 0
    then show ?thesis by (cases s) auto
  next
    case (Suc k)
    with Cons have "add_mset p (mset (parked pool)) =
      mset (parked (pool[k := Some p])) + (case pool ! k of None \<Rightarrow> {#} | Some q \<Rightarrow> {#q#})" by simp
    with Suc show ?thesis by (cases s; cases "pool ! k") (auto simp: add_mset_commute)
  qed
qed simp

lemma packet_park_entry:
  assumes "length packet \<le> MAX_INNER_SIZE"
  shows "pp_packet (park_entry packet w d) = packet"
proof -
  have "MAX_INNER_SIZE < 2 ^ 16"
    by (simp add: MAX_INNER_SIZE_def MAX_UDP_SIZE_def align_down16_def layout_simps)
  with assms show ?thesis
    by (simp add: pp_packet_def park_entry_def slice_def put_slice_def unat_of_nat take_bit_nat_eq_self)
qed

lemma take_if_split:
  "take_if pred pool = (r, pool') \<Longrightarrow>
     (case r of
        None \<Rightarrow> pool' = pool \<and> (\<forall>p\<in>set (parked pool). \<not> pred p)
      | Some p \<Rightarrow> pred p \<and> mset (parked pool) = add_mset p (mset (parked pool')))
     \<and> length pool' = length pool"
proof (induction pool arbitrary: r pool')
  case (Cons s pool)
  obtain r1 pool1 where rec: "take_if pred pool = (r1, pool1)" by fastforce
  with Cons show ?case
    by (cases s; cases r1) (auto simp: slot_matches_def split: if_splits option.splits)
qed simp

lemma mset_drop_if: "mset (parked (drop_if pred pool)) = filter_mset (\<lambda>p. \<not> pred p) (mset (parked pool))"
proof (induction pool)
  case (Cons s pool)
  then show ?case by (cases s) (auto simp: drop_if_def slot_matches_def)
qed (simp add: drop_if_def)

lemma expire_one_take_if:
  "expire_one now pool = (let (r, pool') = take_if (\<lambda>p. pp_deadline p \<le> now) pool in (r \<noteq> None, pool'))"
  by (induction pool) (auto simp: slot_matches_def split: prod.splits option.splits)

lemma next_deadline_due:
  "(\<exists>d. next_deadline pool = Some d \<and> d \<le> now) \<longleftrightarrow> (\<exists>p\<in>set (parked pool). pp_deadline p \<le> now)"
proof (cases "min_by pp_deadline (parked pool)")
  case (Some p)
  with min_by_SomeD [OF this] show ?thesis by (auto simp: next_deadline_def intro: order_trans)
qed (simp add: next_deadline_def)

section \<open>Properties\<close>

text \<open>
  Parking a packet that fits into a pool with at least one slot always succeeds and stores
  exactly its bytes, what it waits for and its deadline. While a slot is free nothing is lost; on a
  full pool exactly one packet is given up, one with the earliest deadline.
\<close>

theorem park_keeps_newest:
  assumes "length packet \<le> MAX_INNER_SIZE" and "pool \<noteq> []"
  shows "\<exists>pool' p. park pool packet w d = (True, pool') \<and> length pool' = length pool \<and>
    pp_packet p = packet \<and> pp_wait p = w \<and> pp_deadline p = d \<and>
    (if None \<in> set pool then mset (parked pool') = add_mset p (mset (parked pool))
     else \<exists>v\<in>set (parked pool). (\<forall>q\<in>set (parked pool). pp_deadline v \<le> pp_deadline q) \<and>
       add_mset v (mset (parked pool')) = add_mset p (mset (parked pool)))"
proof (cases "position (\<lambda>s. s = None) pool")
  case (Some i)
  then have i: "i < length pool" "pool ! i = None" using position_SomeD by fastforce+
  with Some assms packet_park_entry [OF assms(1)] mset_parked_update [OF i(1), of "park_entry packet w d"]
  show ?thesis
    by (intro exI [of _ "pool[i := Some (park_entry packet w d)]"] exI [of _ "park_entry packet w d"])
      (auto simp: park_def park_entry_def Let_def dest: nth_mem)
next
  case None
  then have full: "None \<notin> set pool" by (auto simp: position_None_iff)
  obtain i where mi: "min_by (\<lambda>i. park_key (pool ! i)) [0..<length pool] = Some i"
    using min_by_exists [of "[0..<length pool]"] assms(2) by auto
  from min_by_SomeD [OF this] have i: "i < length pool"
    "\<And>j. j < length pool \<Longrightarrow> park_key (pool ! i) \<le> park_key (pool ! j)" by auto
  with full obtain v where v: "pool ! i = Some v" by (metis nth_mem option.exhaust)
  have "\<forall>q\<in>set (parked pool). pp_deadline v \<le> pp_deadline q"
  proof
    fix q assume "q \<in> set (parked pool)"
    then obtain j where "j < length pool" "pool ! j = Some q" by (auto simp: set_parked in_set_conv_nth)
    with i(2) [of j] v show "pp_deadline v \<le> pp_deadline q" by (simp add: park_key_def)
  qed
  moreover have "v \<in> set (parked pool)" using v i(1) by (auto simp: set_parked dest: nth_mem)
  ultimately show ?thesis
    using None full mi assms packet_park_entry [OF assms(1)] v
      mset_parked_update [OF i(1), of "park_entry packet w d"]
    by (intro exI [of _ "pool[i := Some (park_entry packet w d)]"] exI [of _ "park_entry packet w d"])
      (auto simp: park_def park_entry_def Let_def)
qed

text \<open>
  Timeout processing agrees with the advertised deadline: a packet is dropped exactly when the
  earliest deadline has passed, the dropped packet is overdue, every other packet stays, and when
  nothing is dropped nothing parked is overdue.
\<close>

theorem expire_one_matches_next_deadline:
  assumes "expire_one now pool = (dropped, pool')"
  shows "(dropped \<longleftrightarrow> (\<exists>d. next_deadline pool = Some d \<and> d \<le> now)) \<and>
    (if dropped then \<exists>p. pp_deadline p \<le> now \<and> mset (parked pool) = add_mset p (mset (parked pool'))
     else pool' = pool)"
proof -
  obtain r pool1 where "take_if (\<lambda>p. pp_deadline p \<le> now) pool = (r, pool1)" by fastforce
  with take_if_split [OF this] assms show ?thesis
    by (cases r) (auto simp: expire_one_take_if next_deadline_due union_iff
        simp flip: set_mset_mset)
qed

end
