(* ===== verification/Node_Pool.thy ===== *)
theory Node_Pool
  imports Ip_Packet
begin

text \<open>
  The storage of the prefix trie (\<open>microtun-core/src/prefix_trie.rs\<close>): the bit helpers on
  MSB-aligned 128-bit keys, the nodes, and the allocation-free node pool of two roots and
  \<open>MAX_PREFIXES\<close> two-node buckets. A panic (an index of a dead node, a failed assertion) is
  \<open>None\<close>. The interface the trie relies on is the locale \<open>node_store\<close>: reading, writing,
  allocating and releasing nodes acts on the pool as on a partial map from identifiers to nodes.
\<close>

section \<open>Bit helpers\<close>

type_synonym node_id = usize

definition msb_bit :: "u128 \<Rightarrow> nat \<Rightarrow> bool" where
  "msb_bit w i \<longleftrightarrow> i < 128 \<and> bit w (127 - i)"

definition leading_zeros :: "u128 \<Rightarrow> nat" where
  "leading_zeros w = length (takeWhile (\<lambda>i. \<not> msb_bit w i) [0..<128])"

text \<open>\<open>bit\<close> of the source: the index 0 or 1 into \<open>children\<close> is a truth value.\<close>

definition key_bit :: "u128 \<Rightarrow> nat \<Rightarrow> bool" where
  "key_bit bits i \<longleftrightarrow> drop_bit (127 - i) bits AND 1 = 1"

definition common_len :: "u128 \<Rightarrow> u128 \<Rightarrow> nat \<Rightarrow> nat" where
  "common_len a b m = min (leading_zeros (a XOR b)) m"

definition shl :: "u128 \<Rightarrow> nat \<Rightarrow> u128" where
  "shl bits n = (if n \<ge> 128 then 0 else push_bit n bits)"

definition shr :: "u128 \<Rightarrow> nat \<Rightarrow> u128" where
  "shr bits n = (if n \<ge> 128 then 0 else drop_bit n bits)"

definition mask_prefix :: "u128 \<Rightarrow> nat \<Rightarrow> u128" where
  "mask_prefix bits len =
     (if len = 0 then 0 else if len \<ge> 128 then bits
      else bits AND push_bit (128 - len) (NOT 0))"

lemma key_bit_msb: "i < 128 \<Longrightarrow> key_bit bits i = msb_bit bits i"
  by (simp add: key_bit_def msb_bit_def and_one_eq odd_iff_mod_2_eq_one [symmetric] bit_iff_odd_drop_bit)

lemma msb_bit_shl: "msb_bit (shl bits n) i = msb_bit bits (i + n)"
  by (auto simp: msb_bit_def shl_def bit_push_bit_iff)

lemma msb_bit_shr: "msb_bit (shr bits n) i \<longleftrightarrow> i < 128 \<and> n \<le> i \<and> msb_bit bits (i - n)"
proof (cases "i < 128 \<and> n \<le> i")
  case True
  then have "n + (127 - i) = 127 - (i - n)" "i - n < 128" by auto
  with True show ?thesis by (simp add: msb_bit_def shr_def bit_drop_bit_eq)
next
  case False
  then show ?thesis
    by (auto simp: msb_bit_def shr_def bit_drop_bit_eq dest!: bit_imp_le_length)
qed

lemma msb_bit_mask: "msb_bit (mask_prefix bits len) i \<longleftrightarrow> i < len \<and> msb_bit bits i"
  by (auto simp: msb_bit_def mask_prefix_def bit_and_iff bit_push_bit_iff bit_not_iff bit_mask_iff)

lemma msb_bit_or: "msb_bit (a OR b) i \<longleftrightarrow> msb_bit a i \<or> msb_bit b i"
  by (auto simp: msb_bit_def bit_or_iff)

lemma leading_zeros_le: "leading_zeros w \<le> 128"
  using length_takeWhile_le [of _ "[0..<128]"] by (simp add: leading_zeros_def)

lemma leading_zeros_less:
  assumes "i < leading_zeros w"
  shows "\<not> msb_bit w i"
  using assms nth_mem [of i "takeWhile (\<lambda>i. \<not> msb_bit w i) [0..<128]"]
    takeWhile_nth [of i "\<lambda>i. \<not> msb_bit w i" "[0..<128]"] leading_zeros_le [of w]
  by (auto simp: leading_zeros_def dest: set_takeWhileD)

lemma leading_zeros_stop: "leading_zeros w < 128 \<Longrightarrow> msb_bit w (leading_zeros w)"
  using nth_length_takeWhile [of "\<lambda>i. \<not> msb_bit w i" "[0..<128]"]
  by (simp add: leading_zeros_def)

lemma common_len_le: "common_len a b m \<le> m"
  by (simp add: common_len_def)

lemma msb_bit_xor: "i < 128 \<Longrightarrow> msb_bit (a XOR b) i \<longleftrightarrow> msb_bit a i \<noteq> msb_bit b i"
  by (auto simp: msb_bit_def bit_xor_iff)

lemma common_len_agree: "i < common_len a b m \<Longrightarrow> m \<le> 128 \<Longrightarrow> msb_bit a i = msb_bit b i"
  using leading_zeros_less [of i "a XOR b"] by (auto simp: common_len_def msb_bit_xor)

lemma common_len_differ:
  assumes "common_len a b m < m" "m \<le> 128"
  shows "msb_bit a (common_len a b m) \<noteq> msb_bit b (common_len a b m)"
proof -
  have "common_len a b m = leading_zeros (a XOR b)" "leading_zeros (a XOR b) < 128"
    using assms by (auto simp: common_len_def)
  with leading_zeros_stop show ?thesis by (metis msb_bit_xor)
qed

section \<open>Nodes and buckets\<close>

record 'v node =
  n_bits :: u128
  n_len :: usize
  n_children :: "node_id option \<times> node_id option"
  n_value :: "'v option"

definition node_new :: "u128 \<Rightarrow> usize \<Rightarrow> 'v node" where
  "node_new bits len =
     \<lparr>n_bits = mask_prefix bits len, n_len = len, n_children = (None, None), n_value = None\<rparr>"

definition child_at :: "'v node \<Rightarrow> bool \<Rightarrow> node_id option" where
  "child_at n b = (if b then snd (n_children n) else fst (n_children n))"

definition set_child :: "'v node \<Rightarrow> bool \<Rightarrow> node_id option \<Rightarrow> 'v node" where
  "set_child n b c =
     n\<lparr>n_children := if b then (fst (n_children n), c) else (c, snd (n_children n))\<rparr>"

record 'v node_pair =
  np_nodes :: "'v node list"
  np_occupied :: u8

definition pair_empty :: "'v node_pair" where
  "pair_empty = \<lparr>np_nodes = [node_new 0 0, node_new 0 0], np_occupied = 0\<rparr>"

definition pair_get :: "'v node_pair \<Rightarrow> usize \<Rightarrow> 'v node option" where
  "pair_get np slot =
     (if np_occupied np AND push_bit slot 1 = 0 then None else get_at (np_nodes np) slot)"

definition pair_set :: "'v node_pair \<Rightarrow> usize \<Rightarrow> 'v node \<Rightarrow> 'v node_pair option" where
  "pair_set np slot n =
     (if np_occupied np AND push_bit slot 1 = 0 then None
      else map_option (\<lambda>_. np\<lparr>np_nodes := (np_nodes np)[slot := n]\<rparr>) (get_at (np_nodes np) slot))"

definition pair_first_free :: "'v node_pair \<Rightarrow> usize option" where
  "pair_first_free np = List.find (\<lambda>slot. np_occupied np AND push_bit slot 1 = 0) [0, 1]"

definition pair_occupy :: "'v node_pair \<Rightarrow> usize \<Rightarrow> 'v node \<Rightarrow> 'v node_pair" where
  "pair_occupy np slot n =
     np\<lparr>np_nodes := (np_nodes np)[slot := n], np_occupied := np_occupied np OR push_bit slot 1\<rparr>"

definition pair_release :: "'v node_pair \<Rightarrow> usize \<Rightarrow> 'v node_pair option" where
  "pair_release np slot =
     (if np_occupied np AND push_bit slot 1 = 0 then None
      else Some (np\<lparr>np_nodes := (np_nodes np)[slot := node_new 0 0],
                    np_occupied := np_occupied np AND NOT (push_bit slot 1)\<rparr>))"

section \<open>The pool\<close>

record 'v node_pool =
  np_roots :: "'v node list"
  np_pairs :: "'v node_pair list"
  np_used :: usize

definition V4_ROOT :: node_id where "V4_ROOT = 0"
definition V6_ROOT :: node_id where "V6_ROOT = 1"

definition pool_empty :: "usize \<Rightarrow> 'v node_pool" where
  "pool_empty max_prefixes =
     \<lparr>np_roots = [node_new 0 0, node_new 0 0], np_pairs = replicate max_prefixes pair_empty, np_used = 0\<rparr>"

definition pool_get :: "'v node_pool \<Rightarrow> node_id \<Rightarrow> 'v node option" where
  "pool_get p nid =
     (if nid = V4_ROOT \<or> nid = V6_ROOT then get_at (np_roots p) nid
      else (case get_at (np_pairs p) ((nid - 2) div 2) of
              None \<Rightarrow> None
            | Some pr \<Rightarrow> pair_get pr ((nid - 2) mod 2)))"

definition pool_set :: "'v node_pool \<Rightarrow> node_id \<Rightarrow> 'v node \<Rightarrow> 'v node_pool option" where
  "pool_set p nid n =
     (if nid = V4_ROOT \<or> nid = V6_ROOT
      then map_option (\<lambda>_. p\<lparr>np_roots := (np_roots p)[nid := n]\<rparr>) (get_at (np_roots p) nid)
      else (case get_at (np_pairs p) ((nid - 2) div 2) of
              None \<Rightarrow> None
            | Some pr \<Rightarrow>
                map_option (\<lambda>pr'. p\<lparr>np_pairs := (np_pairs p)[(nid - 2) div 2 := pr']\<rparr>)
                  (pair_set pr ((nid - 2) mod 2) n)))"

definition pool_available :: "'v node_pool \<Rightarrow> usize" where
  "pool_available p = length (np_pairs p) * 2 - np_used p"

fun find_free :: "usize \<Rightarrow> 'v node_pair list \<Rightarrow> (usize \<times> usize) option" where
  "find_free k [] = None"
| "find_free k (pr # prs) =
     (case pair_first_free pr of Some slot \<Rightarrow> Some (k, slot) | None \<Rightarrow> find_free (Suc k) prs)"

definition pool_alloc :: "'v node_pool \<Rightarrow> 'v node \<Rightarrow> (node_id \<times> 'v node_pool) option" where
  "pool_alloc p n =
     (case find_free 0 (np_pairs p) of
        None \<Rightarrow> None
      | Some (k, slot) \<Rightarrow>
          Some (2 + k * 2 + slot,
                p\<lparr>np_pairs := (np_pairs p)[k := pair_occupy (np_pairs p ! k) slot n],
                  np_used := np_used p + 1\<rparr>))"

definition pool_release :: "'v node_pool \<Rightarrow> node_id \<Rightarrow> 'v node_pool option" where
  "pool_release p nid =
     (if nid < 2 then None
      else (case get_at (np_pairs p) ((nid - 2) div 2) of
              None \<Rightarrow> None
            | Some pr \<Rightarrow>
                map_option (\<lambda>pr'. p\<lparr>np_pairs := (np_pairs p)[(nid - 2) div 2 := pr'],
                                    np_used := np_used p - 1\<rparr>)
                  (pair_release pr ((nid - 2) mod 2))))"

section \<open>The pool as a partial map\<close>

definition pool_shape :: "'v node_pool \<Rightarrow> bool" where
  "pool_shape p \<longleftrightarrow> length (np_roots p) = 2 \<and> (\<forall>pr\<in>set (np_pairs p). length (np_nodes pr) = 2)"

definition pool_wf :: "'v node_pool \<Rightarrow> bool" where
  "pool_wf p \<longleftrightarrow> pool_shape p \<and> np_used p = card (dom (pool_get p) - {0, 1})"

lemma and_exp_eq_0: "n < LENGTH('a) \<Longrightarrow> w AND 2 ^ n = 0 \<longleftrightarrow> \<not> bit w n"
  for w :: "'a::len word"
  by (auto simp: bit_eq_iff [of "w AND 2 ^ n"] bit_and_iff bit_exp_iff)

lemma occupied_bit: "slot < 2 \<Longrightarrow> np_occupied np AND 2 ^ slot = 0 \<longleftrightarrow> \<not> bit (np_occupied np) slot"
  by (rule and_exp_eq_0) simp

lemma pair_get_alt:
  "slot < 2 \<Longrightarrow> length (np_nodes np) = 2 \<Longrightarrow>
     pair_get np slot = (if bit (np_occupied np) slot then Some (np_nodes np ! slot) else None)"
  by (simp add: pair_get_def occupied_bit get_at_def)

lemma pair_get_set:
  assumes "slot < 2" "slot' < 2" "length (np_nodes np) = 2" "pair_set np slot n = Some np'"
  shows "pair_get np' slot' = (if slot' = slot then Some n else pair_get np slot')"
    "length (np_nodes np') = 2" "pair_get np slot \<noteq> None"
  using assms by (auto simp: pair_set_def pair_get_alt occupied_bit get_at_def split: if_splits)

lemma pair_set_live:
  "slot < 2 \<Longrightarrow> length (np_nodes np) = 2 \<Longrightarrow> pair_get np slot \<noteq> None \<Longrightarrow> \<exists>np'. pair_set np slot n = Some np'"
  by (auto simp: pair_set_def pair_get_def get_at_def)

lemma pair_get_occupy:
  assumes "slot < 2" "slot' < 2" "length (np_nodes np) = 2"
  shows "pair_get (pair_occupy np slot n) slot' = (if slot' = slot then Some n else pair_get np slot')"
    "length (np_nodes (pair_occupy np slot n)) = 2"
  using assms by (auto simp: pair_occupy_def pair_get_alt bit_or_iff bit_exp_iff)

lemma pair_get_release:
  assumes "slot < 2" "slot' < 2" "length (np_nodes np) = 2" "pair_release np slot = Some np'"
  shows "pair_get np' slot' = (if slot' = slot then None else pair_get np slot')"
    "length (np_nodes np') = 2"
  using assms
  by (auto simp: pair_release_def pair_get_alt bit_and_iff bit_not_iff bit_exp_iff
      split: if_splits)

lemma pair_release_live:
  "slot < 2 \<Longrightarrow> pair_get np slot \<noteq> None \<Longrightarrow> \<exists>np'. pair_release np slot = Some np'"
  by (auto simp: pair_release_def pair_get_def)

lemma pair_first_free_SomeD:
  "pair_first_free np = Some slot \<Longrightarrow> slot < 2 \<and> pair_get np slot = None"
  by (auto simp: pair_first_free_def pair_get_def find_Some_iff nth_Cons' split: if_splits)

lemma pair_first_free_NoneD:
  "pair_first_free np = None \<Longrightarrow> slot < 2 \<Longrightarrow> length (np_nodes np) = 2 \<Longrightarrow> pair_get np slot \<noteq> None"
  by (auto simp: pair_first_free_def pair_get_def get_at_def less_2_cases_iff split: if_splits)

lemma find_free_SomeD:
  "find_free k0 prs = Some (k, slot) \<Longrightarrow>
     k0 \<le> k \<and> k - k0 < length prs \<and> pair_first_free (prs ! (k - k0)) = Some slot"
proof (induction k0 prs rule: find_free.induct)
  case (2 k0 pr prs)
  then show ?case by (cases "pair_first_free pr") (auto simp: nth_Cons' Suc_diff_le)
qed simp

lemma find_free_NoneD: "find_free k0 prs = None \<Longrightarrow> pr \<in> set prs \<Longrightarrow> pair_first_free pr = None"
  by (induction k0 prs rule: find_free.induct) (auto split: option.splits)

text \<open>Identifiers from 2 on are a bucket and a slot of it.\<close>

lemma pool_get_pair:
  "2 \<le> nid \<Longrightarrow> pool_get p nid =
     (if (nid - 2) div 2 < length (np_pairs p)
      then pair_get (np_pairs p ! ((nid - 2) div 2)) ((nid - 2) mod 2) else None)"
  by (simp add: pool_get_def V4_ROOT_def V6_ROOT_def get_at_def)

lemma pool_get_root: "nid < 2 \<Longrightarrow> length (np_roots p) = 2 \<Longrightarrow> pool_get p nid = Some (np_roots p ! nid)"
  by (auto simp: pool_get_def V4_ROOT_def V6_ROOT_def get_at_def)

lemma id_pair_slot: "2 \<le> nid \<Longrightarrow> (nid - 2) div 2 * 2 + (nid - 2) mod 2 + 2 = nid" for nid :: nat
  by (metis add.commute div_mult_mod_eq le_add_diff_inverse2)

lemma id_pair_slot_eq:
  "2 \<le> i \<Longrightarrow> 2 \<le> j \<Longrightarrow> (i - 2) div 2 = (j - 2) div 2 \<Longrightarrow> (i - 2) mod 2 = (j - 2) mod 2 \<Longrightarrow> i = j" for i j :: nat
  by (metis id_pair_slot)

lemma dom_pool_get: "dom (pool_get p) \<subseteq> {..<2 + 2 * length (np_pairs p)}"
proof
  fix i assume "i \<in> dom (pool_get p)"
  then show "i \<in> {..<2 + 2 * length (np_pairs p)}"
    by (cases "2 \<le> i") (auto simp: pool_get_pair split: if_splits)
qed

lemma finite_dom_pool [simp]: "finite (dom (pool_get p))"
  using dom_pool_get finite_subset by blast

lemma pool_set_get:
  assumes "pool_shape p" "pool_set p nid n = Some p'"
  shows "pool_get p' = (pool_get p)(nid \<mapsto> n)" "pool_shape p'" "length (np_pairs p') = length (np_pairs p)"
    "np_used p' = np_used p" "pool_get p nid \<noteq> None"
proof -
  have "pool_get p' = (pool_get p)(nid \<mapsto> n) \<and> pool_shape p' \<and> length (np_pairs p') = length (np_pairs p)
    \<and> np_used p' = np_used p \<and> pool_get p nid \<noteq> None"
  proof (cases "nid < 2")
    case True
    then have p': "p' = p\<lparr>np_roots := (np_roots p)[nid := n]\<rparr>"
      using assms by (auto simp: pool_set_def V4_ROOT_def V6_ROOT_def less_2_cases_iff)
    have "pool_get p' j = ((pool_get p)(nid \<mapsto> n)) j" for j
      using True assms(1) by (cases "j < 2") (auto simp: p' pool_get_root pool_get_pair pool_shape_def)
    with True assms(1) show ?thesis by (auto simp: p' pool_shape_def pool_get_root)
  next
    case False
    let ?k = "(nid - 2) div 2" and ?s = "(nid - 2) mod 2"
    from False obtain pr where k: "?k < length (np_pairs p)" and
      pr: "pair_set (np_pairs p ! ?k) ?s n = Some pr" and p': "p' = p\<lparr>np_pairs := (np_pairs p)[?k := pr]\<rparr>"
      using assms by (auto simp: pool_set_def V4_ROOT_def V6_ROOT_def get_at_def split: if_splits)
    have shape: "length (np_nodes (np_pairs p ! ?k)) = 2" using k assms(1) by (auto simp: pool_shape_def)
    note upd = pair_get_set [OF _ _ shape pr]
    have "pool_get p' j = ((pool_get p)(nid \<mapsto> n)) j" for j
    proof (cases "j < 2")
      case True
      with assms(1) False show ?thesis by (auto simp: p' pool_get_root pool_shape_def)
    next
      case j: False
      then show ?thesis
        using k False upd(1) id_pair_slot_eq [of j nid] by (auto simp: p' pool_get_pair nth_list_update)
    qed
    with k upd [of 0] False assms(1) show ?thesis
      by (auto simp: p' pool_shape_def pool_get_pair upd dest!: set_update_subset_insert [THEN subsetD])
  qed
  then show "pool_get p' = (pool_get p)(nid \<mapsto> n)" "pool_shape p'" "length (np_pairs p') = length (np_pairs p)"
    "np_used p' = np_used p" "pool_get p nid \<noteq> None" by auto
qed

lemma pool_set_live:
  assumes "pool_shape p" "pool_get p nid \<noteq> None"
  shows "\<exists>p'. pool_set p nid n = Some p'"
proof (cases "nid < 2")
  case True
  with assms show ?thesis
    by (auto simp: pool_set_def pool_shape_def get_at_def V4_ROOT_def V6_ROOT_def less_2_cases_iff)
next
  case False
  let ?k = "(nid - 2) div 2"
  from False assms(2) have k: "?k < length (np_pairs p)" "pair_get (np_pairs p ! ?k) ((nid - 2) mod 2) \<noteq> None"
    by (auto simp: pool_get_pair split: if_splits)
  with assms(1) obtain pr where "pair_set (np_pairs p ! ?k) ((nid - 2) mod 2) n = Some pr"
    using pair_set_live [of "(nid - 2) mod 2" "np_pairs p ! ?k" n] by (auto simp: pool_shape_def)
  with False k(1) show ?thesis by (simp add: pool_set_def get_at_def V4_ROOT_def V6_ROOT_def)
qed

lemma pool_update_pair:
  assumes "pool_shape p" "k < length (np_pairs p)" "slot < 2"
    and upd: "\<And>s. s < 2 \<Longrightarrow> pair_get pr s = (if s = slot then v else pair_get (np_pairs p ! k) s)"
    and pr: "length (np_nodes pr) = 2"
    and p': "p' = p\<lparr>np_pairs := (np_pairs p)[k := pr], np_used := u\<rparr>"
  shows "pool_get p' = (pool_get p)(2 + k * 2 + slot := v)" "pool_shape p'"
proof -
  show "pool_shape p'"
    using assms(1) pr by (auto simp: p' pool_shape_def dest!: set_update_subset_insert [THEN subsetD])
  have "pool_get p' j = ((pool_get p)(2 + k * 2 + slot := v)) j" for j
  proof (cases "j < 2")
    case True
    with assms(1) show ?thesis by (auto simp: p' pool_get_root pool_shape_def)
  next
    case False
    let ?nid = "2 + k * 2 + slot"
    have nid: "(?nid - 2) div 2 = k" "(?nid - 2) mod 2 = slot" using assms(3) by auto
    show ?thesis
    proof (cases "(j - 2) div 2 = k")
      case True
      have j: "2 \<le> j" "2 \<le> ?nid" using False by simp_all
      have "j = ?nid" if "(j - 2) mod 2 = slot"
        by (rule id_pair_slot_eq [OF j]) (simp_all only: nid True that)
      then have eq: "(j = ?nid) = ((j - 2) mod 2 = slot)" using nid(2) by blast
      have "pool_get p' j = pair_get pr ((j - 2) mod 2)"
        using True assms(2) j(1) by (simp only: p' pool_get_pair) simp
      moreover have "pool_get p j = pair_get (np_pairs p ! k) ((j - 2) mod 2)"
        using True assms(2) j(1) by (simp only: pool_get_pair) simp
      ultimately show ?thesis using upd [of "(j - 2) mod 2"] by (simp only: fun_upd_apply eq mod_less_divisor zero_less_numeral split: if_split)
    next
      case other: False
      then have "j \<noteq> ?nid" using nid by auto
      with other False show ?thesis by (simp add: p' pool_get_pair)
    qed
  qed
  then show "pool_get p' = (pool_get p)(2 + k * 2 + slot := v)" by blast
qed

lemma pool_alloc_get:
  assumes "pool_shape p" "pool_alloc p n = Some (nid, p')"
  shows "pool_get p' = (pool_get p)(nid \<mapsto> n)" "pool_shape p'" "length (np_pairs p') = length (np_pairs p)"
    "np_used p' = Suc (np_used p)" "pool_get p nid = None" "2 \<le> nid"
proof -
  obtain k slot where f: "find_free 0 (np_pairs p) = Some (k, slot)" and nid: "nid = 2 + k * 2 + slot"
    and p': "p' = p\<lparr>np_pairs := (np_pairs p)[k := pair_occupy (np_pairs p ! k) slot n], np_used := np_used p + 1\<rparr>"
    using assms(2) by (auto simp: pool_alloc_def split: option.splits)
  from find_free_SomeD [OF f] have k: "k < length (np_pairs p)" and "pair_first_free (np_pairs p ! k) = Some slot"
    by simp_all
  then have slot: "slot < 2" "pair_get (np_pairs p ! k) slot = None" using pair_first_free_SomeD by blast+
  have shape: "length (np_nodes (np_pairs p ! k)) = 2" using k assms(1) by (auto simp: pool_shape_def)
  show "pool_get p' = (pool_get p)(nid \<mapsto> n)" "pool_shape p'"
    using pool_update_pair [OF assms(1) k slot(1) _ _ p', of "Some n"] pair_get_occupy(1) [OF slot(1) _ shape]
      pair_get_occupy(2) [OF slot(1) slot(1) shape]
    by (simp_all add: nid)
  show "length (np_pairs p') = length (np_pairs p)" "np_used p' = Suc (np_used p)" "2 \<le> nid"
    by (simp_all add: p' nid)
  have "(nid - 2) div 2 = k" "(nid - 2) mod 2 = slot" using slot(1) by (auto simp: nid)
  with slot k show "pool_get p nid = None" by (simp add: pool_get_pair nid)
qed

lemma pool_release_get:
  assumes "pool_shape p" "pool_release p nid = Some p'"
  shows "pool_get p' = (pool_get p)(nid := None)" "pool_shape p'" "length (np_pairs p') = length (np_pairs p)"
    "np_used p' = np_used p - 1"
proof -
  let ?k = "(nid - 2) div 2" and ?s = "(nid - 2) mod 2"
  obtain pr where nid: "2 \<le> nid" and k: "?k < length (np_pairs p)"
    and pr: "pair_release (np_pairs p ! ?k) ?s = Some pr"
    and p': "p' = p\<lparr>np_pairs := (np_pairs p)[?k := pr], np_used := np_used p - 1\<rparr>"
    using assms(2) by (auto simp: pool_release_def get_at_def split: if_splits)
  have shape: "length (np_nodes (np_pairs p ! ?k)) = 2" using k assms(1) by (auto simp: pool_shape_def)
  show "pool_get p' = (pool_get p)(nid := None)" "pool_shape p'"
    using pool_update_pair [OF assms(1) k _ _ _ p', of ?s None] pair_get_release(1) [OF _ _ shape pr]
      pair_get_release(2) [OF _ _ shape pr, of 0] id_pair_slot [OF nid] by (simp_all add: add.commute)
  show "length (np_pairs p') = length (np_pairs p)" "np_used p' = np_used p - 1" by (simp_all add: p')
qed

lemma pool_release_live: "2 \<le> nid \<Longrightarrow> pool_get p nid \<noteq> None \<Longrightarrow> \<exists>p'. pool_release p nid = Some p'"
  using pair_release_live [of "(nid - 2) mod 2" "np_pairs p ! ((nid - 2) div 2)"]
  by (auto simp: pool_release_def pool_get_pair get_at_def split: if_splits)

lemma pool_alloc_space:
  assumes "pool_shape p" "card (dom (pool_get p) - {0, 1}) < length (np_pairs p) * 2"
  shows "pool_alloc p n \<noteq> None"
proof
  assume "pool_alloc p n = None"
  then have "find_free 0 (np_pairs p) = None" by (auto simp: pool_alloc_def split: option.splits)
  then have full: "pr \<in> set (np_pairs p) \<Longrightarrow> pair_first_free pr = None" for pr by (rule find_free_NoneD)
  have "{2..<2 + 2 * length (np_pairs p)} \<subseteq> dom (pool_get p) - {0, 1}"
  proof
    fix i assume "i \<in> {2..<2 + 2 * length (np_pairs p)}"
    then have i: "2 \<le> i" "(i - 2) div 2 < length (np_pairs p)" by auto
    with full pair_first_free_NoneD [of "np_pairs p ! ((i - 2) div 2)" "(i - 2) mod 2"] assms(1)
    have "pool_get p i \<noteq> None" by (simp add: pool_get_pair pool_shape_def)
    with i show "i \<in> dom (pool_get p) - {0, 1}" by auto
  qed
  from card_mono [OF _ this] assms(2) show False by simp
qed

lemma pool_empty_wf [simp]: "pool_wf (pool_empty m :: 'v node_pool)"
proof -
  let ?p = "pool_empty m :: 'v node_pool"
  have "pool_get ?p i = None" if "2 \<le> i" for i
    using that by (simp add: pool_get_pair pool_empty_def pair_empty_def pair_get_def)
  then have "\<not> 2 \<le> i" if "i \<in> dom (pool_get ?p)" for i using that by fastforce
  then have "dom (pool_get ?p) \<subseteq> {0, 1}" by (force simp: not_le less_2_cases_iff)
  then have "dom (pool_get ?p) - {0, 1} = {}" by blast
  moreover have "pool_shape ?p"
    by (simp add: pool_shape_def pool_empty_def pair_empty_def)
  ultimately show ?thesis by (simp add: pool_wf_def) (simp add: pool_empty_def)
qed

section \<open>The interface of the trie\<close>

text \<open>
  What the trie relies on: writing a live node, allocating while the pool reports free space and
  releasing a live node other than a root never panic and act on exactly one identifier, and the
  free count is what the capacity leaves beside the live nodes.
\<close>

locale node_store =
  fixes fetch :: "'p \<Rightarrow> node_id \<Rightarrow> 'n option"
    and put :: "'p \<Rightarrow> node_id \<Rightarrow> 'n \<Rightarrow> 'p option"
    and alloc :: "'p \<Rightarrow> 'n \<Rightarrow> (node_id \<times> 'p) option"
    and release :: "'p \<Rightarrow> node_id \<Rightarrow> 'p option"
    and free :: "'p \<Rightarrow> nat"
    and cap :: "'p \<Rightarrow> nat"
    and wf :: "'p \<Rightarrow> bool"
  assumes put_live: "wf p \<Longrightarrow> fetch p i \<noteq> None \<Longrightarrow>
      \<exists>p'. put p i n = Some p' \<and> wf p' \<and> fetch p' = (fetch p)(i \<mapsto> n) \<and> cap p' = cap p"
    and alloc_free: "wf p \<Longrightarrow> 0 < free p \<Longrightarrow>
      \<exists>i p'. alloc p n = Some (i, p') \<and> wf p' \<and> fetch p i = None \<and> 2 \<le> i \<and>
        fetch p' = (fetch p)(i \<mapsto> n) \<and> cap p' = cap p"
    and release_live: "wf p \<Longrightarrow> 2 \<le> i \<Longrightarrow> fetch p i \<noteq> None \<Longrightarrow>
      \<exists>p'. release p i = Some p' \<and> wf p' \<and> fetch p' = (fetch p)(i := None) \<and> cap p' = cap p"
    and free_eq: "wf p \<Longrightarrow> free p = 2 * cap p - card (dom (fetch p) - {0, 1})"
    and finite_live: "finite (dom (fetch p))"
begin

lemma free_after_alloc:
  assumes "wf p" "wf p'" "fetch p i = None" "2 \<le> i" "fetch p' = (fetch p)(i \<mapsto> n)" "cap p' = cap p"
  shows "free p' = free p - 1"
proof -
  have "dom (fetch p') - {0, 1} = insert i (dom (fetch p) - {0, 1})" using assms by auto
  then have "card (dom (fetch p') - {0, 1}) = Suc (card (dom (fetch p) - {0, 1}))"
    using assms(3) finite_live by (simp add: domIff)
  with assms show ?thesis by (simp add: free_eq)
qed

lemma free_same_dom: "wf p \<Longrightarrow> wf p' \<Longrightarrow> dom (fetch p') = dom (fetch p) \<Longrightarrow> cap p' = cap p \<Longrightarrow> free p' = free p"
  by (simp add: free_eq)

end

lemma pool_wf_free: "pool_wf p \<Longrightarrow> pool_available p = length (np_pairs p) * 2 - card (dom (pool_get p) - {0, 1})"
  by (simp add: pool_available_def pool_wf_def)

abbreviation pool_cap :: "'v node_pool \<Rightarrow> nat" where
  "pool_cap p \<equiv> length (np_pairs p)"

interpretation nodes: node_store pool_get pool_set pool_alloc pool_release pool_available pool_cap pool_wf
proof (unfold_locales, goal_cases)
  case (1 p i n)
  then obtain p' where p': "pool_set p i n = Some p'" by (meson pool_set_live pool_wf_def)
  with 1 pool_set_get [OF _ p'] have "dom (pool_get p') = dom (pool_get p)" by (auto simp: pool_wf_def)
  with 1 p' pool_set_get [OF _ p'] show ?case by (auto simp: pool_wf_def)
next
  case (2 p n)
  then have "card (dom (pool_get p) - {0, 1}) < length (np_pairs p) * 2" by (simp add: pool_wf_free)
  with 2 pool_alloc_space obtain i p' where a: "pool_alloc p n = Some (i, p')"
    by (metis option.exhaust prod.collapse pool_wf_def)
  have shape: "pool_shape p" using 2 by (simp add: pool_wf_def)
  note alloc = pool_alloc_get [OF shape a]
  have "dom (pool_get p') - {0, 1} = insert i (dom (pool_get p) - {0, 1})" using alloc by auto
  then have "card (dom (pool_get p') - {0, 1}) = Suc (card (dom (pool_get p) - {0, 1}))"
    using alloc(5) by (simp add: domIff)
  with 2 a alloc show ?case by (auto simp: pool_wf_def)
next
  case (3 p i)
  then obtain p' where r: "pool_release p i = Some p'" using pool_release_live by blast
  have shape: "pool_shape p" using 3 by (simp add: pool_wf_def)
  note rel = pool_release_get [OF shape r]
  have i: "i \<in> dom (pool_get p) - {0, 1}" using 3 by auto
  moreover have "dom (pool_get p') - {0, 1} = (dom (pool_get p) - {0, 1}) - {i}" using rel by auto
  ultimately have "Suc (card (dom (pool_get p') - {0, 1})) = card (dom (pool_get p) - {0, 1})"
    using card.remove [OF _ i] by simp
  with 3 r rel show ?case by (auto simp: pool_wf_def)
qed (simp_all add: pool_wf_free mult.commute)

end
