(* ===== verification/Prefix_Trie.thy ===== *)
theory Prefix_Trie
  imports Node_Pool "HOL-Library.Monad_Syntax" "HOL-Library.Sublist"
begin

text \<open>
  The path-compressed prefix trie (\<open>microtun-core/src/prefix_trie.rs\<close>): insertion with edge
  splitting, longest-prefix lookup, exact lookup, and removal with edge merging, on the node pool.
  \<open>None\<close> is a panic or a loop that does not end; the lemmas show that neither happens on a
  well-formed trie. A CIDR (a type of the \<open>cidr\<close> crate) is its first address and network
  length.

  The abstraction goes through trees annotated with the node identifiers they occupy; \<open>reps\<close>
  ties a tree to the pool, \<open>tinv\<close> is the path-compression invariant (every node other than a
  root holds a value or has two children), and \<open>cmap\<close> reads a tree as a finite map from bit
  strings to values.
\<close>

section \<open>Keys\<close>

record ip_cidr =
  first_address :: ip_addr
  network_length :: usize

fun addr_key :: "ip_addr \<Rightarrow> u128 \<times> usize \<times> node_id" where
  "addr_key (IpV4 a) = (push_bit 96 (ucast a), 32, V4_ROOT)"
| "addr_key (IpV6 a) = (a, 128, V6_ROOT)"

datatype capacity_error = CapacityError

type_synonym 'v prefix_trie = "'v node_pool"

definition trie_new :: "usize \<Rightarrow> 'v prefix_trie" where
  "trie_new max_prefixes = pool_empty max_prefixes"

section \<open>Field writes through the pool\<close>

definition set_value :: "'v prefix_trie \<Rightarrow> node_id \<Rightarrow> 'v option \<Rightarrow> 'v prefix_trie option" where
  "set_value p i v = do { n \<leftarrow> pool_get p i; pool_set p i (n\<lparr>n_value := v\<rparr>) }"

definition link_child :: "'v prefix_trie \<Rightarrow> node_id \<Rightarrow> bool \<Rightarrow> node_id option \<Rightarrow> 'v prefix_trie option" where
  "link_child p i b c = do { n \<leftarrow> pool_get p i; pool_set p i (set_child n b c) }"

definition set_edge :: "'v prefix_trie \<Rightarrow> node_id \<Rightarrow> u128 \<Rightarrow> usize \<Rightarrow> 'v prefix_trie option" where
  "set_edge p i bits len = do { n \<leftarrow> pool_get p i; pool_set p i (n\<lparr>n_bits := bits, n_len := len\<rparr>) }"

definition check_capacity :: "'v prefix_trie \<Rightarrow> usize \<Rightarrow> bool" where
  "check_capacity p needed \<longleftrightarrow> pool_available p \<ge> needed"

definition trie_alloc :: "'v prefix_trie \<Rightarrow> u128 \<Rightarrow> usize \<Rightarrow> (node_id \<times> 'v prefix_trie) option" where
  "trie_alloc p bits len = pool_alloc p (node_new bits len)"

section \<open>Insertion\<close>

type_synonym 'v insert_result = "((capacity_error + 'v option) \<times> 'v prefix_trie) option"

definition insert_leaf :: "'v prefix_trie \<Rightarrow> node_id \<Rightarrow> bool \<Rightarrow> u128 \<Rightarrow> usize \<Rightarrow> usize \<Rightarrow> 'v \<Rightarrow> 'v insert_result" where
  "insert_leaf p node branch key pos klen value =
     (if \<not> check_capacity p 1 then Some (Inl CapacityError, p)
      else do {
        (leaf, p) \<leftarrow> trie_alloc p (shl key pos) (klen - pos);
        p \<leftarrow> set_value p leaf (Some value);
        p \<leftarrow> link_child p node branch (Some leaf);
        Some (Inr None, p) })"

definition insert_split ::
  "'v prefix_trie \<Rightarrow> node_id \<Rightarrow> bool \<Rightarrow> node_id \<Rightarrow> u128 \<Rightarrow> usize \<Rightarrow> u128 \<Rightarrow> usize \<Rightarrow> usize \<Rightarrow> 'v \<Rightarrow> 'v insert_result" where
  "insert_split p node branch child cbits clen rest remaining shared value =
     (let ends_here = (shared = remaining)
      in if \<not> check_capacity p (if ends_here then 1 else 2) then Some (Inl CapacityError, p)
         else do {
           (mid, p) \<leftarrow> trie_alloc p cbits shared;
           p \<leftarrow> set_edge p child (shl cbits shared) (clen - shared);
           c \<leftarrow> pool_get p child;
           p \<leftarrow> link_child p mid (key_bit (n_bits c) 0) (Some child);
           p \<leftarrow> link_child p node branch (Some mid);
           if ends_here then do {
             p \<leftarrow> set_value p mid (Some value);
             Some (Inr None, p) }
           else do {
             (leaf, p) \<leftarrow> trie_alloc p (shl rest shared) (remaining - shared);
             p \<leftarrow> set_value p leaf (Some value);
             l \<leftarrow> pool_get p leaf;
             p \<leftarrow> link_child p mid (key_bit (n_bits l) 0) (Some leaf);
             Some (Inr None, p) } })"

partial_function (option) insert_loop ::
  "'v prefix_trie \<Rightarrow> u128 \<Rightarrow> usize \<Rightarrow> 'v \<Rightarrow> node_id \<Rightarrow> usize \<Rightarrow> 'v insert_result" where
  "insert_loop p key klen value node pos =
     (if pos = klen then do {
        n \<leftarrow> pool_get p node;
        p' \<leftarrow> pool_set p node (n\<lparr>n_value := Some value\<rparr>);
        Some (Inr (n_value n), p') }
      else do {
        n \<leftarrow> pool_get p node;
        let branch = key_bit key pos;
        case child_at n branch of
          None \<Rightarrow> insert_leaf p node branch key pos klen value
        | Some child \<Rightarrow> do {
            c \<leftarrow> pool_get p child;
            let remaining = klen - pos;
            let rest = shl key pos;
            let shared = common_len rest (n_bits c) (min (n_len c) remaining);
            if shared = n_len c then insert_loop p key klen value child (pos + n_len c)
            else insert_split p node branch child (n_bits c) (n_len c) rest remaining shared value } })"

definition trie_insert :: "'v prefix_trie \<Rightarrow> ip_cidr \<Rightarrow> 'v \<Rightarrow> 'v insert_result" where
  "trie_insert p net value =
     (let (key, _, root) = addr_key (first_address net)
      in insert_loop p key (network_length net) value root 0)"

section \<open>Lookup\<close>

definition edge_match :: "'v prefix_trie \<Rightarrow> node_id \<Rightarrow> u128 \<Rightarrow> usize \<Rightarrow> usize option" where
  "edge_match p child key rem =
     (case pool_get p child of
        None \<Rightarrow> None
      | Some c \<Rightarrow> if n_len c \<le> rem \<and> common_len key (n_bits c) (n_len c) = n_len c then Some (n_len c) else None)"

text \<open>The outer option is termination of the loop, the inner one the result of the function.\<close>

partial_function (option) lookup_loop ::
  "'v prefix_trie \<Rightarrow> u128 \<Rightarrow> usize \<Rightarrow> node_id \<Rightarrow> usize \<Rightarrow> 'v option \<Rightarrow> 'v option option" where
  "lookup_loop p key klen node pos best =
     (if pos < klen then
        (case pool_get p node of
           None \<Rightarrow> Some None
         | Some n \<Rightarrow>
             (case child_at n (key_bit key pos) of
                None \<Rightarrow> Some best
              | Some child \<Rightarrow>
                  (case edge_match p child (shl key pos) (klen - pos) of
                     None \<Rightarrow> Some best
                   | Some step \<Rightarrow>
                       if pos + step > klen then Some None
                       else (case pool_get p child of
                               None \<Rightarrow> Some None
                             | Some c \<Rightarrow>
                                 lookup_loop p key klen child (pos + step)
                                   (case n_value c of Some v \<Rightarrow> Some v | None \<Rightarrow> best)))))
      else Some best)"

definition trie_lookup :: "'v prefix_trie \<Rightarrow> ip_addr \<Rightarrow> 'v option option" where
  "trie_lookup p addr =
     (let (key, klen, root) = addr_key addr
      in case pool_get p root of
           None \<Rightarrow> Some None
         | Some n \<Rightarrow> lookup_loop p key klen root 0 (n_value n))"

partial_function (option) get_loop ::
  "'v prefix_trie \<Rightarrow> u128 \<Rightarrow> usize \<Rightarrow> node_id \<Rightarrow> usize \<Rightarrow> 'v option option" where
  "get_loop p key klen node pos =
     (if pos < klen then
        (case pool_get p node of
           None \<Rightarrow> Some None
         | Some n \<Rightarrow>
             (case child_at n (key_bit key pos) of
                None \<Rightarrow> Some None
              | Some child \<Rightarrow>
                  (case edge_match p child (shl key pos) (klen - pos) of
                     None \<Rightarrow> Some None
                   | Some step \<Rightarrow>
                       if pos + step > klen then Some None
                       else get_loop p key klen child (pos + step))))
      else (case pool_get p node of None \<Rightarrow> Some None | Some n \<Rightarrow> Some (n_value n)))"

definition trie_get :: "'v prefix_trie \<Rightarrow> ip_cidr \<Rightarrow> 'v option option" where
  "trie_get p net =
     (let (key, _, root) = addr_key (first_address net)
      in get_loop p key (network_length net) root 0)"

section \<open>Removal\<close>

definition merge_into_child :: "'v prefix_trie \<Rightarrow> node_id \<Rightarrow> bool \<Rightarrow> node_id \<Rightarrow> node_id \<Rightarrow> 'v prefix_trie option" where
  "merge_into_child p parent branch node child =
     do {
       n \<leftarrow> pool_get p node;
       c \<leftarrow> pool_get p child;
       p \<leftarrow> pool_set p child (c\<lparr>n_bits := n_bits n OR shr (n_bits c) (n_len n), n_len := n_len c + n_len n\<rparr>);
       p \<leftarrow> link_child p parent branch (Some child);
       pool_release p node }"

definition remove_leaf_fixup :: "'v prefix_trie \<Rightarrow> (node_id \<times> bool) list \<Rightarrow> node_id \<Rightarrow> 'v prefix_trie option" where
  "remove_leaf_fixup p path parent =
     (if length path \<ge> 2 then
        (let (grand, grand_branch) = path ! (length path - 2)
         in do {
           pn \<leftarrow> pool_get p parent;
           if n_value pn = None then
             (case n_children pn of
                (Some only, None) \<Rightarrow> merge_into_child p grand grand_branch parent only
              | (None, Some only) \<Rightarrow> merge_into_child p grand grand_branch parent only
              | _ \<Rightarrow> Some p)
           else Some p })
      else Some p)"

definition remove_finish ::
  "'v prefix_trie \<Rightarrow> (node_id \<times> bool) list \<Rightarrow> node_id \<Rightarrow> ('v option \<times> 'v prefix_trie) option" where
  "remove_finish p path node =
     do {
       n \<leftarrow> pool_get p node;
       (case n_value n of
          None \<Rightarrow> Some (None, p)
        | Some value \<Rightarrow> do {
            p \<leftarrow> pool_set p node (n\<lparr>n_value := None\<rparr>);
            if path = [] then Some (Some value, p)
            else
              (let (parent, branch) = last path
               in case n_children n of
                    (Some _, Some _) \<Rightarrow> Some (Some value, p)
                  | (Some only, None) \<Rightarrow> do { p \<leftarrow> merge_into_child p parent branch node only; Some (Some value, p) }
                  | (None, Some only) \<Rightarrow> do { p \<leftarrow> merge_into_child p parent branch node only; Some (Some value, p) }
                  | (None, None) \<Rightarrow> do {
                      p \<leftarrow> link_child p parent branch None;
                      p \<leftarrow> pool_release p node;
                      p \<leftarrow> remove_leaf_fixup p path parent;
                      Some (Some value, p) }) }) }"

text \<open>The path vector holds at most 128 entries; a push past that is a panic.\<close>

partial_function (option) remove_loop ::
  "'v prefix_trie \<Rightarrow> u128 \<Rightarrow> usize \<Rightarrow> (node_id \<times> bool) list \<Rightarrow> node_id \<Rightarrow> usize \<Rightarrow> ('v option \<times> 'v prefix_trie) option" where
  "remove_loop p key klen path node pos =
     (if pos < klen then do {
        n \<leftarrow> pool_get p node;
        let branch = key_bit key pos;
        case child_at n branch of
          None \<Rightarrow> Some (None, p)
        | Some child \<Rightarrow>
            (case edge_match p child (shl key pos) (klen - pos) of
               None \<Rightarrow> Some (None, p)
             | Some step \<Rightarrow>
                 if length path < 128
                 then remove_loop p key klen (path @ [(node, branch)]) child (pos + step)
                 else None) }
      else remove_finish p path node)"

definition trie_remove :: "'v prefix_trie \<Rightarrow> ip_cidr \<Rightarrow> ('v option \<times> 'v prefix_trie) option" where
  "trie_remove p net =
     (let (key, _, root) = addr_key (first_address net)
      in remove_loop p key (network_length net) [] root 0)"

end
