(* ===== verification/Trie_Refinement.thy ===== *)
theory Trie_Refinement
  imports Prefix_Trie
begin

text \<open>
  Correctness of the prefix trie. A tree annotated with node identifiers mediates between the pool
  and a finite map from bit strings to values; each operation is shown to refine the map operation
  it stands for, without a panic and with a terminating loop.
\<close>

section \<open>Annotated trees\<close>

datatype 'v ptree = PE | PT node_id "bool list" "'v option" "bool \<Rightarrow> 'v ptree"

primrec ids :: "'v ptree \<Rightarrow> node_id set" where
  "ids PE = {}"
| "ids (PT i e v ch) = insert i (\<Union>b. ids (ch b))"

primrec root_id :: "'v ptree \<Rightarrow> node_id option" where
  "root_id PE = None"
| "root_id (PT i e v ch) = Some i"

primrec disjoint_ids :: "'v ptree \<Rightarrow> bool" where
  "disjoint_ids PE = True"
| "disjoint_ids (PT i e v ch) \<longleftrightarrow>
     (\<forall>b. i \<notin> ids (ch b) \<and> disjoint_ids (ch b)) \<and> ids (ch False) \<inter> ids (ch True) = {}"

definition encodes :: "'v node \<Rightarrow> bool list \<Rightarrow> bool" where
  "encodes n e \<longleftrightarrow> n_len n = length e \<and> length e \<le> 128 \<and>
     (\<forall>i. msb_bit (n_bits n) i \<longleftrightarrow> i < length e \<and> e ! i)"

primrec reps :: "(node_id \<Rightarrow> 'v node option) \<Rightarrow> 'v ptree \<Rightarrow> bool" where
  "reps h PE = True"
| "reps h (PT i e v ch) \<longleftrightarrow>
     (\<exists>n. h i = Some n \<and> encodes n e \<and> n_value n = v \<and> (\<forall>b. child_at n b = root_id (ch b)))
     \<and> (\<forall>b. reps h (ch b))"

primrec tmap :: "'v ptree \<Rightarrow> bool list \<Rightarrow> 'v option" where
  "tmap PE k = None"
| "tmap (PT i e v ch) k =
     (if take (length e) k = e
      then (case drop (length e) k of [] \<Rightarrow> v | b # bs \<Rightarrow> (\<lambda>b. tmap (ch b)) b (b # bs)) else None)"

fun cmap :: "'v ptree \<Rightarrow> bool list \<Rightarrow> 'v option" where
  "cmap PE k = None"
| "cmap (PT i e v ch) [] = v"
| "cmap (PT i e v ch) (b # bs) = tmap (ch b) (b # bs)"

primrec starts_with :: "bool \<Rightarrow> 'v ptree \<Rightarrow> bool" where
  "starts_with b PE = True"
| "starts_with b (PT i e v ch) \<longleftrightarrow> e \<noteq> [] \<and> hd e = b"

primrec tinv :: "'v ptree \<Rightarrow> nat \<Rightarrow> bool" where
  "tinv PE w = True"
| "tinv (PT i e v ch) w \<longleftrightarrow> e \<noteq> [] \<and> length e \<le> w \<and> (v \<noteq> None \<or> (\<forall>b. ch b \<noteq> PE)) \<and>
     (\<forall>b. (\<lambda>b. tinv (ch b)) b (w - length e) \<and> starts_with b (ch b))"

primrec cinv :: "'v ptree \<Rightarrow> nat \<Rightarrow> bool" where
  "cinv PE w = False"
| "cinv (PT i e v ch) w \<longleftrightarrow> (\<forall>b. tinv (ch b) w \<and> starts_with b (ch b))"

lemma tinv_cinv: "tinv (PT i e v ch) w \<Longrightarrow> cinv (PT i e v ch) (w - length e)"
  by simp

lemma tmap_PT: "tmap (PT i e v ch) k = (if take (length e) k = e then cmap (PT i e v ch) (drop (length e) k) else None)"
  by (auto split: list.splits)

lemma tmap_Nil: "starts_with b t \<Longrightarrow> tmap t [] = None"
  by (cases t) auto

lemma tmap_other: "starts_with b t \<Longrightarrow> c \<noteq> b \<Longrightarrow> tmap t (c # k) = None"
  by (cases t) (auto simp: neq_Nil_conv)

lemma reps_frame: "reps h t \<Longrightarrow> (\<And>j. j \<in> ids t \<Longrightarrow> h' j = h j) \<Longrightarrow> reps h' t"
  by (induction t) auto

lemma reps_dom: "reps h t \<Longrightarrow> ids t \<subseteq> dom h"
  by (induction t) auto

lemma root_id_in_ids: "root_id t = Some i \<Longrightarrow> i \<in> ids t"
  by (cases t) auto

lemma root_id_None [simp]: "root_id t = None \<longleftrightarrow> t = PE"
  by (cases t) auto

lemma finite_ids [simp]: "finite (ids t)"
  by (induction t) auto

lemma ids_children: "ids (PT i e v ch) = insert i (ids (ch b) \<union> ids (ch (\<not> b)))"
  by (cases b) (auto simp: UN_bool_eq)

lemma ids_update: "ids (PT i e v (ch(b := t))) = insert i (ids t \<union> ids (ch (\<not> b)))"
  using ids_children [of i e v "ch(b := t)" b] by simp

lemma child_at_set_child: "child_at (set_child n b c) b' = (if b' = b then c else child_at n b')"
  by (auto simp: child_at_def set_child_def)

lemma set_child_fields [simp]:
  "n_value (set_child n b c) = n_value n" "n_bits (set_child n b c) = n_bits n" "n_len (set_child n b c) = n_len n"
  by (simp_all add: set_child_def)

lemma encodes_set_child [simp]: "encodes (set_child n b c) e = encodes n e"
  "encodes (n\<lparr>n_value := v\<rparr>) e = encodes n e"
  by (simp_all add: encodes_def)

lemma child_at_value [simp]: "child_at (n\<lparr>n_value := v\<rparr>) b = child_at n b"
  "child_at (n\<lparr>n_bits := x, n_len := y\<rparr>) b = child_at n b"
  by (simp_all add: child_at_def)

section \<open>Maps of trees under local changes\<close>

lemma tmap_update:
  assumes "take (length e) k = e" "cmap (PT i e v' ch') = (cmap (PT j e v ch))(drop (length e) k := x)"
  shows "tmap (PT i e v' ch') = (tmap (PT j e v ch))(k := x)"
proof
  fix k'
  have "k' = k \<longleftrightarrow> drop (length e) k' = drop (length e) k" if "take (length e) k' = e"
    using that assms(1) by (metis append_take_drop_id)
  then show "tmap (PT i e v' ch') k' = ((tmap (PT j e v ch))(k := x)) k'"
    using assms by (auto simp: tmap_PT simp del: tmap.simps)
qed

lemma cmap_update_child:
  assumes "k \<noteq> []" "hd k = b" "tmap t = (tmap (ch b))(k := x)"
  shows "cmap (PT i e v (ch(b := t))) = (cmap (PT i e v ch))(k := x)"
proof
  fix k'
  show "cmap (PT i e v (ch(b := t))) k' = ((cmap (PT i e v ch))(k := x)) k'"
    using assms by (cases k') auto
qed

lemma cmap_update_value: "cmap (PT i e x ch) = (cmap (PT j e' v ch))([] := x)"
proof
  fix k
  show "cmap (PT i e x ch) k = ((cmap (PT j e' v ch))([] := x)) k" by (cases k) auto
qed

text \<open>Splitting an edge keeps the map; so does merging one.\<close>

lemma tmap_append [simp]: "tmap (PT i e v ch) (e @ k) = cmap (PT i e v ch) k"
  by (simp add: tmap_PT del: tmap.simps)

lemma tmap_no_prefix: "\<not> prefix e k \<Longrightarrow> tmap (PT i e v ch) k = None"
  by (metis append_take_drop_id prefixI tmap_PT)

lemma cmap_edge: "cmap (PT i e v ch) = cmap (PT j e' v ch)"
proof
  fix k
  show "cmap (PT i e v ch) k = cmap (PT j e' v ch) k" by (cases k) auto
qed

lemma tmap_split_at:
  "tmap (PT i a None ((\<lambda>_. PE)(c := PT j (c # r) v ch))) = tmap (PT j (a @ c # r) v ch)"
proof
  fix k
  let ?m = "PT i a None ((\<lambda>_. PE)(c := PT j (c # r) v ch))" and ?t = "PT j (a @ c # r) v ch"
  have t: "tmap ?t (a @ k') = tmap (PT j (c # r) v ch) k'" for k'
  proof (cases "prefix (c # r) k'")
    case True
    then obtain k2 where "k' = c # r @ k2" by (auto simp: prefix_def)
    then show ?thesis using tmap_append [of j "a @ c # r" v ch k2] tmap_append [of j "c # r" v ch k2]
        cmap_edge [of j "a @ c # r" v ch j "c # r"]
      by (simp del: tmap.simps tmap_append)
  next
    case False
    then show ?thesis by (simp add: tmap_no_prefix del: tmap.simps)
  qed
  show "tmap ?m k = tmap ?t k"
  proof (cases "prefix a k")
    case True
    then obtain k' where k: "k = a @ k'" by (auto simp: prefix_def)
    have "cmap ?m k' = tmap (PT j (c # r) v ch) k'"
      by (cases k') (auto simp: tmap_no_prefix simp del: tmap.simps, simp)
    then show ?thesis by (simp add: k t del: tmap.simps)
  next
    case False
    then have "\<not> prefix (a @ c # r) k" by (meson append_prefixD)
    with False show ?thesis by (simp add: tmap_no_prefix del: tmap.simps)
  qed
qed

lemma tmap_split:
  "s < length e \<Longrightarrow>
     tmap (PT i (take s e) None ((\<lambda>_. PE)(e ! s := PT j (drop s e) v ch))) = tmap (PT j e v ch)"
  using tmap_split_at [of i "take s e" "e ! s" j "drop (Suc s) e" v ch]
  by (simp add: Cons_nth_drop_Suc flip: id_take_nth_drop del: tmap.simps)

lemma tinv_weaken: "tinv t w \<Longrightarrow> w \<le> w' \<Longrightarrow> tinv t w'"
proof (induction t arbitrary: w w')
  case (PT i e v ch)
  then show ?case by (auto intro: PT.IH [OF rangeI] diff_le_mono)
qed simp

section \<open>Keys as bit strings\<close>

text \<open>The bits of a key from a position on, as the loops see them.\<close>

definition key_bits :: "u128 \<Rightarrow> nat \<Rightarrow> nat \<Rightarrow> bool list" where
  "key_bits key pos klen = map (msb_bit key) [pos..<klen]"

lemma length_key_bits [simp]: "length (key_bits key pos klen) = klen - pos"
  by (simp add: key_bits_def)

lemma nth_key_bits [simp]: "i < klen - pos \<Longrightarrow> key_bits key pos klen ! i = msb_bit key (pos + i)"
  by (simp add: key_bits_def)

lemma key_bits_Cons: "pos < klen \<Longrightarrow> klen \<le> 128 \<Longrightarrow> key_bits key pos klen = key_bit key pos # key_bits key (Suc pos) klen"
  by (simp add: key_bits_def upt_conv_Cons key_bit_msb)

lemma key_bits_Nil [simp]: "key_bits key klen klen = []"
  by (simp add: key_bits_def)

lemma drop_key_bits: "drop n (key_bits key pos klen) = key_bits key (pos + n) klen"
  by (simp add: key_bits_def drop_map)

lemma encodes_bit: "encodes n e \<Longrightarrow> i < length e \<Longrightarrow> msb_bit (n_bits n) i = e ! i"
  by (simp add: encodes_def)

lemma encodes_length: "encodes n e \<Longrightarrow> n_len n = length e \<and> length e \<le> 128"
  by (simp add: encodes_def)

lemma common_len_full:
  assumes "encodes c e" "length e \<le> klen - pos" "klen \<le> 128"
  shows "common_len (shl key pos) (n_bits c) (length e) = length e \<longleftrightarrow> take (length e) (key_bits key pos klen) = e"
proof -
  let ?s = "common_len (shl key pos) (n_bits c) (length e)"
  have le: "?s \<le> length e" "length e \<le> 128" using assms by (auto simp: common_len_le encodes_def)
  have bit: "i < length e \<Longrightarrow> msb_bit (shl key pos) i = key_bits key pos klen ! i" for i
    using assms by (simp add: msb_bit_shl add.commute)
  show ?thesis
  proof
    assume "?s = length e"
    then have "msb_bit (shl key pos) i = e ! i" if "i < length e" for i
      using common_len_agree [of i "shl key pos" "n_bits c" "length e"] encodes_bit [OF assms(1) that] that le by simp
    then show "take (length e) (key_bits key pos klen) = e"
      using bit assms(2) by (intro nth_equalityI) auto
  next
    assume t: "take (length e) (key_bits key pos klen) = e"
    show "?s = length e"
    proof (rule ccontr)
      assume "?s \<noteq> length e"
      then have "?s < length e" using le by simp
      then have "key_bits key pos klen ! ?s \<noteq> e ! ?s"
        using common_len_differ [of "shl key pos" "n_bits c" "length e"] le bit encodes_bit [OF assms(1)] by simp
      then show False using t \<open>?s < length e\<close> by (metis nth_take)
    qed
  qed
qed

lemma edge_match_eq:
  assumes "pool_get p j = Some c" "encodes c e" "klen \<le> 128"
  shows "edge_match p j (shl key pos) (klen - pos) =
    (if prefix e (key_bits key pos klen) then Some (length e) else None)"
proof -
  have "prefix e (key_bits key pos klen) \<longleftrightarrow> length e \<le> klen - pos \<and> take (length e) (key_bits key pos klen) = e"
    by (metis length_key_bits prefix_length_le take_is_prefix prefix_order.eq_iff append_eq_conv_conj prefix_def)
  with assms encodes_length [OF assms(2)] common_len_full [OF assms(2)] show ?thesis
    by (auto simp: edge_match_def)
qed

section \<open>Longest-prefix match\<close>

fun lpm :: "(bool list \<Rightarrow> 'v option) \<Rightarrow> 'v option \<Rightarrow> bool list \<Rightarrow> 'v option" where
  "lpm m best [] = (case m [] of Some v \<Rightarrow> Some v | None \<Rightarrow> best)"
| "lpm m best (b # k) = lpm (\<lambda>k'. m (b # k')) (case m [] of Some v \<Rightarrow> Some v | None \<Rightarrow> best) k"

lemma lpm_none: "(\<And>n. m (take n k) = None) \<Longrightarrow> lpm m best k = best"
proof (induction k arbitrary: m best)
  case Nil
  then show ?case using Nil [of 0] by simp
next
  case (Cons b k)
  have "m [] = None" using Cons.prems [of 0] by simp
  moreover have "m (b # take n k) = None" for n using Cons.prems [of "Suc n"] by simp
  ultimately show ?case using Cons.IH [of "\<lambda>k'. m (b # k')" best] by simp
qed

lemma lpm_append:
  "(\<And>n. n < length e \<Longrightarrow> m (take n e) = None) \<Longrightarrow> lpm m best (e @ k) = lpm (\<lambda>k'. m (e @ k')) best k"
proof (induction e arbitrary: m)
  case (Cons b e)
  have "m [] = None" using Cons.prems [of 0] by simp
  moreover have "m (b # take n e) = None" if "n < length e" for n using Cons.prems [of "Suc n"] that by simp
  ultimately show ?case using Cons.IH [of "\<lambda>k'. m (b # k')"] by simp
qed simp

lemma lpm_longest:
  "n \<le> length k \<Longrightarrow> m (take n k) = Some v \<Longrightarrow> (\<And>n'. n < n' \<Longrightarrow> n' \<le> length k \<Longrightarrow> m (take n' k) = None)
    \<Longrightarrow> lpm m best k = Some v"
proof (induction k arbitrary: m best n)
  case (Cons b k)
  show ?case
  proof (cases n)
    case 0
    have "m (b # take n' k) = None" if "n' \<le> length k" for n' using Cons.prems(3) [of "Suc n'"] that 0 by simp
    then have "m (b # take n' k) = None" for n' by (metis nle_le take_all)
    with lpm_none [of "\<lambda>k'. m (b # k')" k "Some v"] Cons.prems(2) 0 show ?thesis by simp
  next
    case (Suc n0)
    have "m (b # take n' k) = None" if "n0 < n'" "n' \<le> length k" for n' using Cons.prems(3) [of "Suc n'"] that Suc by simp
    with Cons.IH [of n0 "\<lambda>k'. m (b # k')"] Cons.prems Suc show ?thesis by simp
  qed
qed simp

lemma lpm_cases:
  obtains (none) "\<And>n. m (take n k) = None"
  | (longest) n v where "n \<le> length k" "m (take n k) = Some v"
      "\<And>n'. n < n' \<Longrightarrow> n' \<le> length k \<Longrightarrow> m (take n' k) = None"
proof (cases "\<exists>n\<le>length k. m (take n k) \<noteq> None")
  case True
  define S where "S = {n. n \<le> length k \<and> m (take n k) \<noteq> None}"
  have fin: "finite S" "S \<noteq> {}" using True by (auto simp: S_def)
  then have "Max S \<in> S" by (rule Max_in)
  then obtain v where v: "Max S \<le> length k" "m (take (Max S) k) = Some v" by (auto simp: S_def)
  have "m (take n' k) = None" if "Max S < n'" "n' \<le> length k" for n'
  proof (rule ccontr)
    assume "m (take n' k) \<noteq> None"
    with that(2) have "n' \<in> S" by (simp add: S_def)
    with Max_ge [OF fin(1) this] that(1) show False by simp
  qed
  with v show ?thesis by (rule longest)
next
  case False
  have "m (take n k) = None" for n
  proof (cases "n \<le> length k")
    case False
    then have "take n k = take (length k) k" by simp
    with \<open>\<not> (\<exists>n\<le>length k. m (take n k) \<noteq> None)\<close> show ?thesis by (metis order_refl)
  qed (use False in blast)
  then show ?thesis by (rule none)
qed

lemma lpm_best: "lpm m (case m [] of Some v \<Rightarrow> Some v | None \<Rightarrow> best) k = lpm m best k"
  by (cases k) (auto split: option.splits)

lemma lookup_loop_correct:
  "reps (pool_get p) t \<Longrightarrow> root_id t = Some node \<Longrightarrow> cinv t w \<Longrightarrow> klen \<le> 128 \<Longrightarrow> pos \<le> klen \<Longrightarrow>
     (cmap t [] \<noteq> None \<Longrightarrow> best = cmap t []) \<Longrightarrow>
     lookup_loop p key klen node pos best = Some (lpm (cmap t) best (key_bits key pos klen))"
proof (induction t arbitrary: node w pos best)
  case (PT i e v ch)
  then have [simp]: "node = i" by simp
  from PT.prems obtain n where n: "pool_get p i = Some n" "\<And>b. child_at n b = root_id (ch b)" by auto
  have best: "(case v of Some u \<Rightarrow> Some u | None \<Rightarrow> best) = best" using PT.prems(6) by (cases v) auto
  show ?case
  proof (cases "pos = klen")
    case True
    with best PT.prems(2) show ?thesis by (subst lookup_loop.simps) auto
  next
    case False
    let ?b = "key_bit key pos" and ?K = "key_bits key pos klen" and ?k = "key_bits key (Suc pos) klen"
    have K: "?K = ?b # ?k" using False PT.prems by (intro key_bits_Cons) auto
    have lpm: "lpm (cmap (PT i e v ch)) best ?K = lpm (\<lambda>k'. tmap (ch ?b) (?b # k')) best ?k"
      using best by (simp add: K del: tmap.simps)
    show ?thesis
    proof (cases "ch ?b")
      case PE
      then have "lpm (\<lambda>k'. tmap (ch ?b) (?b # k')) best ?k = best" by (intro lpm_none) simp
      with PE n lpm False PT.prems show ?thesis by (subst lookup_loop.simps) auto
    next
      case c: (PT ci ce cv cch)
      from PT.prems c have "reps (pool_get p) (PT ci ce cv cch)" by (metis PT.prems(1) reps.simps(2))
      then obtain cn where cn: "pool_get p ci = Some cn" "encodes cn ce" "n_value cn = cv" by auto
      note match = edge_match_eq [OF cn(1,2) PT.prems(4), of key pos]
      have step: "lookup_loop p key klen i pos best =
        (if prefix ce ?K
         then lookup_loop p key klen ci (pos + length ce) (case cv of Some v \<Rightarrow> Some v | None \<Rightarrow> best)
         else Some best)"
        using False PT.prems n c cn match prefix_length_le [of ce ?K]
        by (subst lookup_loop.simps) auto
      show ?thesis
      proof (cases "prefix ce ?K")
        case nopre: False
        have "\<not> prefix ce (?b # take m ?k)" for m
          using nopre K by (metis prefix_order.trans take_Suc_Cons take_is_prefix)
        then have "lpm (\<lambda>k'. tmap (ch ?b) (?b # k')) best ?k = best"
          by (intro lpm_none) (simp add: c tmap_no_prefix del: tmap.simps)
        with nopre step lpm show ?thesis by simp
      next
        case pre: True
        then obtain K' where K': "?K = ce @ K'" by (auto simp: prefix_def)
        then have K'eq: "K' = key_bits key (pos + length ce) klen" by (metis append_eq_conv_conj drop_key_bits)
        have tc: "tinv (ch ?b) w" "starts_with ?b (ch ?b)" using PT.prems(3) by auto
        then obtain r where ce: "ce = ?b # r" using c by (cases ce) auto
        have k: "?k = r @ K'" using K K' ce by simp
        have len: "length ce \<le> klen - pos" using pre prefix_length_le by fastforce
        have "\<not> prefix ce (?b # take m r)" if "m < length r" for m
          using that ce by (auto dest!: prefix_length_le)
        then have "lpm (\<lambda>k'. tmap (ch ?b) (?b # k')) best (r @ K') = lpm (\<lambda>k'. tmap (ch ?b) (?b # r @ k')) best K'"
          by (intro lpm_append) (simp add: c tmap_no_prefix del: tmap.simps)
        also have "\<dots> = lpm (cmap (PT ci ce cv cch)) best K'"
          using tmap_append [of ci ce cv cch] by (simp add: c ce del: tmap.simps tmap_append)
        also have "\<dots> = lpm (cmap (PT ci ce cv cch)) (case cv of Some v \<Rightarrow> Some v | None \<Rightarrow> best) K'"
          using lpm_best [of "cmap (PT ci ce cv cch)" best K'] by simp
        finally have eq: "lpm (\<lambda>k'. tmap (ch ?b) (?b # k')) best ?k =
          lpm (cmap (PT ci ce cv cch)) (case cv of Some v \<Rightarrow> Some v | None \<Rightarrow> best) K'" by (simp add: k)
        have "lookup_loop p key klen ci (pos + length ce) (case cv of Some v \<Rightarrow> Some v | None \<Rightarrow> best) =
          Some (lpm (cmap (ch ?b)) (case cv of Some v \<Rightarrow> Some v | None \<Rightarrow> best) (key_bits key (pos + length ce) klen))"
        proof (rule PT.IH [OF rangeI])
          show "reps (pool_get p) (ch ?b)" using PT.prems(1) by simp
          show "root_id (ch ?b) = Some ci" by (simp add: c)
          show "cinv (ch ?b) (w - length ce)" using tc c tinv_cinv by metis
        qed (use PT.prems len False c in \<open>auto split: option.splits\<close>)
        with pre step lpm eq K'eq c show ?thesis by simp
      qed
    qed
  qed
qed simp

lemma get_loop_correct:
  "reps (pool_get p) t \<Longrightarrow> root_id t = Some node \<Longrightarrow> cinv t w \<Longrightarrow> klen \<le> 128 \<Longrightarrow> pos \<le> klen \<Longrightarrow>
     get_loop p key klen node pos = Some (cmap t (key_bits key pos klen))"
proof (induction t arbitrary: node w pos)
  case (PT i e v ch)
  then have [simp]: "node = i" by simp
  from PT.prems obtain n where n: "pool_get p i = Some n" "n_value n = v" "\<And>b. child_at n b = root_id (ch b)" by auto
  show ?case
  proof (cases "pos = klen")
    case True
    with n show ?thesis by (subst get_loop.simps) auto
  next
    case False
    let ?b = "key_bit key pos" and ?K = "key_bits key pos klen"
    have "?K = ?b # key_bits key (Suc pos) klen" using False PT.prems by (intro key_bits_Cons) auto
    then have K: "cmap (PT i e v ch) ?K = tmap (ch ?b) ?K" by (simp del: tmap.simps)
    show ?thesis
    proof (cases "ch ?b")
      case PE
      with n K False PT.prems show ?thesis by (subst get_loop.simps) auto
    next
      case c: (PT ci ce cv cch)
      from PT.prems c have "reps (pool_get p) (PT ci ce cv cch)" by (metis PT.prems(1) reps.simps(2))
      then obtain cn where cn: "pool_get p ci = Some cn" "encodes cn ce" by auto
      note match = edge_match_eq [OF cn PT.prems(4), of key pos]
      have step: "get_loop p key klen i pos =
        (if prefix ce ?K then get_loop p key klen ci (pos + length ce) else Some None)"
        using False PT.prems n c cn match prefix_length_le [of ce ?K] by (subst get_loop.simps) auto
      show ?thesis
      proof (cases "prefix ce ?K")
        case False
        with step K show ?thesis by (simp add: c tmap_no_prefix del: tmap.simps)
      next
        case pre: True
        then obtain K' where K': "?K = ce @ K'" by (auto simp: prefix_def)
        then have K'eq: "K' = key_bits key (pos + length ce) klen" by (metis append_eq_conv_conj drop_key_bits)
        have len: "length ce \<le> klen - pos" using pre prefix_length_le by fastforce
        have "get_loop p key klen ci (pos + length ce) = Some (cmap (ch ?b) (key_bits key (pos + length ce) klen))"
        proof (rule PT.IH [OF rangeI])
          show "reps (pool_get p) (ch ?b)" using PT.prems(1) by simp
          show "root_id (ch ?b) = Some ci" by (simp add: c)
          show "cinv (ch ?b) (w - length ce)" using PT.prems(3) c tinv_cinv by (metis cinv.simps(2))
        qed (use PT.prems len False in auto)
        with pre step K K'eq c K' show ?thesis by (simp del: tmap.simps)
      qed
    qed
  qed
qed simp

section \<open>Field writes as heap updates\<close>

definition updated :: "'v prefix_trie \<Rightarrow> 'v prefix_trie \<Rightarrow> (node_id \<Rightarrow> 'v node option) \<Rightarrow> bool" where
  "updated p p' h \<longleftrightarrow> pool_wf p' \<and> pool_get p' = h \<and> pool_cap p' = pool_cap p"

lemma updated_trans: "updated p p' h \<Longrightarrow> updated p' p'' h' \<Longrightarrow> updated p p'' h'"
  by (simp add: updated_def)

lemma pool_set_updated:
  "pool_wf p \<Longrightarrow> pool_get p i \<noteq> None \<Longrightarrow> \<exists>p'. pool_set p i n = Some p' \<and> updated p p' ((pool_get p)(i \<mapsto> n))"
  unfolding updated_def by (rule nodes.put_live)

lemma set_value_updated:
  "pool_wf p \<Longrightarrow> pool_get p i = Some n \<Longrightarrow>
     \<exists>p'. set_value p i v = Some p' \<and> updated p p' ((pool_get p)(i \<mapsto> n\<lparr>n_value := v\<rparr>))"
  using pool_set_updated [of p i] by (simp add: set_value_def)

lemma link_child_updated:
  "pool_wf p \<Longrightarrow> pool_get p i = Some n \<Longrightarrow>
     \<exists>p'. link_child p i b c = Some p' \<and> updated p p' ((pool_get p)(i \<mapsto> set_child n b c))"
  using pool_set_updated [of p i] by (simp add: link_child_def)

lemma set_edge_updated:
  "pool_wf p \<Longrightarrow> pool_get p i = Some n \<Longrightarrow>
     \<exists>p'. set_edge p i x l = Some p' \<and> updated p p' ((pool_get p)(i \<mapsto> n\<lparr>n_bits := x, n_len := l\<rparr>))"
  using pool_set_updated [of p i] by (simp add: set_edge_def)

lemma trie_alloc_updated:
  "pool_wf p \<Longrightarrow> 0 < pool_available p \<Longrightarrow>
     \<exists>l p'. trie_alloc p x len = Some (l, p') \<and> pool_get p l = None \<and> 2 \<le> l
       \<and> updated p p' ((pool_get p)(l \<mapsto> node_new x len)) \<and> pool_available p' = pool_available p - 1"
  unfolding trie_alloc_def updated_def
  using nodes.alloc_free [of p "node_new x len"] nodes.free_after_alloc [of p] by metis

lemma pool_release_updated:
  "pool_wf p \<Longrightarrow> 2 \<le> i \<Longrightarrow> pool_get p i \<noteq> None \<Longrightarrow>
     \<exists>p'. pool_release p i = Some p' \<and> updated p p' ((pool_get p)(i := None))"
  unfolding updated_def by (rule nodes.release_live)

lemma updatedD:
  assumes "updated p p' h"
  shows "pool_wf p'" "pool_get p' = h" "pool_cap p' = pool_cap p"
  using assms by (simp_all add: updated_def)

lemma available_same:
  "pool_wf p \<Longrightarrow> updated p p' h \<Longrightarrow> dom h = dom (pool_get p) \<Longrightarrow> pool_available p' = pool_available p"
  by (rule nodes.free_same_dom) (simp_all add: updated_def)

section \<open>Insertion\<close>

abbreviation leaf_node :: "u128 \<Rightarrow> nat \<Rightarrow> 'v \<Rightarrow> 'v node" where
  "leaf_node x len v \<equiv> (node_new x len)\<lparr>n_value := Some v\<rparr>"

lemma insert_leaf_updated:
  assumes "pool_wf p" "pool_get p i = Some n" "1 \<le> pool_available p"
  shows "\<exists>l p'. insert_leaf p i b key pos klen x = Some (Inr None, p') \<and> pool_get p l = None \<and> 2 \<le> l \<and>
    updated p p' ((pool_get p)(l \<mapsto> leaf_node (shl key pos) (klen - pos) x, i \<mapsto> set_child n b (Some l)))"
proof -
  obtain l p1 where 1: "trie_alloc p (shl key pos) (klen - pos) = Some (l, p1)" "pool_get p l = None" "2 \<le> l"
    "updated p p1 ((pool_get p)(l \<mapsto> node_new (shl key pos) (klen - pos)))"
    using trie_alloc_updated [of p "shl key pos" "klen - pos"] assms by auto
  note u1 = updatedD [OF 1(4)]
  obtain p2 where 2: "set_value p1 l (Some x) = Some p2"
    "updated p1 p2 ((pool_get p1)(l \<mapsto> leaf_node (shl key pos) (klen - pos) x))"
    using set_value_updated [of p1 l "node_new (shl key pos) (klen - pos)" "Some x"] u1 by auto
  note u2 = updatedD [OF 2(2)]
  have "i \<noteq> l" using assms(2) 1(2) by auto
  then obtain p3 where 3: "link_child p2 i b (Some l) = Some p3"
    "updated p2 p3 ((pool_get p2)(i \<mapsto> set_child n b (Some l)))"
    using link_child_updated [of p2 i n b "Some l"] u1 u2 assms(2) by auto
  have "insert_leaf p i b key pos klen x = Some (Inr None, p3)"
    using 1(1) 2(1) 3(1) assms(3) by (simp add: insert_leaf_def check_capacity_def)
  moreover have "updated p p3 ((pool_get p)(l \<mapsto> leaf_node (shl key pos) (klen - pos) x, i \<mapsto> set_child n b (Some l)))"
    using updated_trans [OF updated_trans [OF 1(4) 2(2)] 3(2)] u1 u2 by simp
  ultimately show ?thesis using 1(2,3) by blast
qed

lemma key_bit_node_new: "0 < len \<Longrightarrow> key_bit (n_bits (node_new x len)) 0 = key_bit x 0"
  by (simp add: node_new_def key_bit_msb msb_bit_mask)

text \<open>The first half of a split: a node above the child, which keeps the tail of its edge.\<close>

abbreviation upper_node :: "u128 \<Rightarrow> nat \<Rightarrow> node_id \<Rightarrow> 'v node" where
  "upper_node x s child \<equiv> set_child (node_new x s) (key_bit (shl x s) 0) (Some child)"

lemma split_upper_updated:
  assumes "pool_wf p" "pool_get p i = Some n" "pool_get p ci = Some c" "i \<noteq> ci" "1 \<le> pool_available p"
  shows "\<exists>mid p1 p2 p3 p4. trie_alloc p x s = Some (mid, p1) \<and> set_edge p1 ci (shl x s) len = Some p2 \<and>
    pool_get p2 ci = Some (c\<lparr>n_bits := shl x s, n_len := len\<rparr>) \<and>
    link_child p2 mid (key_bit (shl x s) 0) (Some ci) = Some p3 \<and> link_child p3 i b (Some mid) = Some p4 \<and>
    pool_get p mid = None \<and> 2 \<le> mid \<and> pool_available p4 = pool_available p - 1 \<and>
    updated p p4 ((pool_get p)(mid \<mapsto> upper_node x s ci, ci \<mapsto> c\<lparr>n_bits := shl x s, n_len := len\<rparr>,
      i \<mapsto> set_child n b (Some mid)))"
proof -
  let ?c = "c\<lparr>n_bits := shl x s, n_len := len\<rparr>"
  obtain mid p1 where 1: "trie_alloc p x s = Some (mid, p1)" "pool_get p mid = None" "2 \<le> mid"
    "updated p p1 ((pool_get p)(mid \<mapsto> node_new x s))" "pool_available p1 = pool_available p - 1"
    using trie_alloc_updated [of p x s] assms by auto
  note u1 = updatedD [OF 1(4)]
  have ne: "mid \<noteq> i" "mid \<noteq> ci" using assms 1(2) by auto
  obtain p2 where 2: "set_edge p1 ci (shl x s) len = Some p2" "updated p1 p2 ((pool_get p1)(ci \<mapsto> ?c))"
    using set_edge_updated [of p1 ci c "shl x s" len] u1 assms(3) ne by auto
  note u2 = updatedD [OF 2(2)]
  obtain p3 where 3: "link_child p2 mid (key_bit (shl x s) 0) (Some ci) = Some p3"
    "updated p2 p3 ((pool_get p2)(mid \<mapsto> upper_node x s ci))"
    using link_child_updated [of p2 mid "node_new x s"] u1 u2 ne by auto
  note u3 = updatedD [OF 3(2)]
  obtain p4 where 4: "link_child p3 i b (Some mid) = Some p4"
    "updated p3 p4 ((pool_get p3)(i \<mapsto> set_child n b (Some mid)))"
    using link_child_updated [of p3 i n] u1 u2 u3 ne assms(2,4) by auto
  have "dom ((pool_get p3)(i \<mapsto> set_child n b (Some mid))) = dom (pool_get p1)"
    using u1 u2 u3 ne assms by auto
  then have "pool_available p4 = pool_available p1"
    using available_same [of p1 p4] updated_trans [OF updated_trans [OF 2(2) 3(2)] 4(2)] u1 by blast
  moreover have "updated p p4 ((pool_get p)(mid \<mapsto> upper_node x s ci, ci \<mapsto> ?c, i \<mapsto> set_child n b (Some mid)))"
    using updated_trans [OF updated_trans [OF updated_trans [OF 1(4) 2(2)] 3(2)] 4(2)] u1 u2 u3 ne
    by (simp add: fun_upd_twist)
  ultimately show ?thesis using 1 2(1) 3(1) 4(1) u2 by auto
qed

lemma insert_split_updated:
  assumes "pool_wf p" "pool_get p i = Some n" "pool_get p ci = Some c" "i \<noteq> ci" "s \<le> remaining"
    and "(if s = remaining then 1 else 2) \<le> pool_available p"
  shows "\<exists>mid p'. insert_split p i b ci x clen rest remaining s v = Some (Inr None, p') \<and>
    pool_get p mid = None \<and> 2 \<le> mid \<and>
    (if s = remaining
     then updated p p' ((pool_get p)(mid \<mapsto> (upper_node x s ci)\<lparr>n_value := Some v\<rparr>,
       ci \<mapsto> c\<lparr>n_bits := shl x s, n_len := clen - s\<rparr>, i \<mapsto> set_child n b (Some mid)))
     else \<exists>leaf. leaf \<noteq> mid \<and> pool_get p leaf = None \<and> 2 \<le> leaf \<and>
       updated p p' ((pool_get p)(mid \<mapsto> set_child (upper_node x s ci) (key_bit (shl rest s) 0) (Some leaf),
         ci \<mapsto> c\<lparr>n_bits := shl x s, n_len := clen - s\<rparr>, i \<mapsto> set_child n b (Some mid),
         leaf \<mapsto> leaf_node (shl rest s) (remaining - s) v)))"
proof -
  let ?c = "c\<lparr>n_bits := shl x s, n_len := clen - s\<rparr>" and ?n = "\<lambda>mid. set_child n b (Some mid)"
  have "1 \<le> pool_available p" using assms(6) by (auto split: if_splits)
  from split_upper_updated [OF assms(1-4) this, of x s "clen - s" b]
  obtain mid p1 p2 p3 p4 where
    ops: "trie_alloc p x s = Some (mid, p1)" "set_edge p1 ci (shl x s) (clen - s) = Some p2"
      "pool_get p2 ci = Some ?c" "link_child p2 mid (key_bit (shl x s) 0) (Some ci) = Some p3"
      "link_child p3 i b (Some mid) = Some p4"
    and mid: "pool_get p mid = None" "2 \<le> mid"
    and av: "pool_available p4 = pool_available p - 1"
    and u: "updated p p4 ((pool_get p)(mid \<mapsto> upper_node x s ci, ci \<mapsto> ?c, i \<mapsto> ?n mid))" by auto
  note u4 = updatedD [OF u]
  have ne: "mid \<noteq> i" "mid \<noteq> ci" using assms mid(1) by auto
  have m4: "pool_get p4 mid = Some (upper_node x s ci)" using u4 ne by simp
  show ?thesis
  proof (cases "s = remaining")
    case True
    obtain p5 where 5: "set_value p4 mid (Some v) = Some p5"
      "updated p4 p5 ((pool_get p4)(mid \<mapsto> (upper_node x s ci)\<lparr>n_value := Some v\<rparr>))"
      using set_value_updated [OF u4(1) m4] by blast
    have "insert_split p i b ci x clen rest remaining s v = Some (Inr None, p5)"
      using ops 5(1) assms(6) True by (simp add: insert_split_def check_capacity_def Let_def)
    moreover have "updated p p5 ((pool_get p)(mid \<mapsto> (upper_node x s ci)\<lparr>n_value := Some v\<rparr>, ci \<mapsto> ?c, i \<mapsto> ?n mid))"
      using updated_trans [OF u 5(2)] u4 ne by (simp add: fun_upd_twist)
    ultimately show ?thesis using mid True by auto
  next
    case False
    then have "0 < pool_available p4" using assms(6) av by simp
    from trie_alloc_updated [OF u4(1) this, of "shl rest s" "remaining - s"]
    obtain leaf p5 where 5: "trie_alloc p4 (shl rest s) (remaining - s) = Some (leaf, p5)"
      "pool_get p4 leaf = None" "2 \<le> leaf"
      "updated p4 p5 ((pool_get p4)(leaf \<mapsto> node_new (shl rest s) (remaining - s)))" by blast
    note u5 = updatedD [OF 5(4)]
    have nl: "leaf \<noteq> mid" "leaf \<noteq> i" "leaf \<noteq> ci" "pool_get p leaf = None"
      using 5(2) u4 by (auto split: if_splits)
    let ?l = "leaf_node (shl rest s) (remaining - s) v"
    obtain p6 where 6: "set_value p5 leaf (Some v) = Some p6" "updated p5 p6 ((pool_get p5)(leaf \<mapsto> ?l))"
      using set_value_updated [of p5 leaf "node_new (shl rest s) (remaining - s)"] u5 by auto
    note u6 = updatedD [OF 6(2)]
    have l6: "pool_get p6 leaf = Some ?l" using u6 by simp
    have m6: "pool_get p6 mid = Some (upper_node x s ci)" using u6 u5 m4 nl by simp
    obtain p7 where 7: "link_child p6 mid (key_bit (shl rest s) 0) (Some leaf) = Some p7"
      "updated p6 p7 ((pool_get p6)(mid \<mapsto> set_child (upper_node x s ci) (key_bit (shl rest s) 0) (Some leaf)))"
      using link_child_updated [OF u6(1) m6] by blast
    have kb: "key_bit (n_bits ?l) 0 = key_bit (shl rest s) 0"
      using key_bit_node_new [of "remaining - s" "shl rest s"] False assms(5) by simp
    have "insert_split p i b ci x clen rest remaining s v = Some (Inr None, p7)"
      using ops 5(1) 6(1) 7(1) assms(6) False l6 kb by (simp add: insert_split_def check_capacity_def Let_def)
    moreover have "updated p p7 ((pool_get p)(mid \<mapsto> set_child (upper_node x s ci) (key_bit (shl rest s) 0) (Some leaf),
         ci \<mapsto> ?c, i \<mapsto> ?n mid, leaf \<mapsto> ?l))"
      using updated_trans [OF updated_trans [OF updated_trans [OF u 5(4)] 6(2)] 7(2)] u4 u5 u6 ne nl
      by (simp add: fun_upd_twist)
    ultimately show ?thesis using mid False nl 5(3) by auto
  qed
qed

text \<open>
  What an insertion below a node does to its tree: the head of the tree stays where it is, no value
  and no child disappears, new nodes come from the free part of the pool, everything outside the
  tree is untouched.
\<close>

fun grown :: "'v ptree \<Rightarrow> 'v ptree \<Rightarrow> bool" where
  "grown (PT i e v ch) (PT i' e' v' ch') \<longleftrightarrow>
     i' = i \<and> e' = e \<and> (v \<noteq> None \<longrightarrow> v' \<noteq> None) \<and> (\<forall>b. ch b \<noteq> PE \<longrightarrow> ch' b \<noteq> PE)"
| "grown t t' = False"

definition extends :: "(node_id \<Rightarrow> 'v node option) \<Rightarrow> (node_id \<Rightarrow> 'v node option) \<Rightarrow> 'v ptree \<Rightarrow> 'v ptree \<Rightarrow> bool" where
  "extends h h' t t' \<longleftrightarrow> reps h' t' \<and> disjoint_ids t' \<and> ids t \<subseteq> ids t' \<and>
     (\<forall>j. j \<notin> ids t' \<longrightarrow> h' j = h j) \<and> (\<forall>j\<in>ids t' - ids t. h j = None \<and> 2 \<le> j)"

definition insert_step ::
  "(node_id \<Rightarrow> 'v node option) \<Rightarrow> (node_id \<Rightarrow> 'v node option) \<Rightarrow> 'v ptree \<Rightarrow> 'v ptree \<Rightarrow> nat \<Rightarrow> bool list \<Rightarrow> 'v \<Rightarrow> bool" where
  "insert_step h h' t t' w k x \<longleftrightarrow>
     extends h h' t t' \<and> cinv t' w \<and> grown t t' \<and> cmap t' = (cmap t)(k \<mapsto> x)"

lemma insert_step_child:
  assumes t: "reps h (PT i e v ch)" "disjoint_ids (PT i e v ch)" "cinv (PT i e v ch) w"
    and n: "h i = Some n"
    and c: "reps h' c'" "disjoint_ids c'" "ids (ch b) \<subseteq> ids c'" "\<forall>j\<in>ids c' - ids (ch b). h j = None \<and> 2 \<le> j"
    and out: "\<And>j. j \<notin> ids c' \<Longrightarrow> j \<noteq> i \<Longrightarrow> h' j = h j"
    and i: "h' i = Some (set_child n b (root_id c'))"
    and inv: "tinv c' w" "starts_with b c'" "c' \<noteq> PE"
    and m: "k \<noteq> []" "hd k = b" "tmap c' = (tmap (ch b))(k \<mapsto> x)"
  shows "insert_step h h' (PT i e v ch) (PT i e v (ch(b := c'))) w k x"
proof -
  have live: "h j \<noteq> None" if "j \<in> ids (PT i e v ch)" for j using reps_dom [OF t(1)] that by auto
  have ic: "i \<notin> ids c'" using live [of i] t(2) c(4) by auto
  have sib: "ids c' \<inter> ids (ch (\<not> b)) = {}"
  proof (rule ccontr)
    assume "ids c' \<inter> ids (ch (\<not> b)) \<noteq> {}"
    then obtain j where j: "j \<in> ids c'" "j \<in> ids (ch (\<not> b))" by blast
    then have "h j \<noteq> None" by (intro live) auto
    with j c(4) have "j \<in> ids (ch b)" by (metis DiffI)
    with j(2) t(2) show False by (cases b) auto
  qed
  have sibling: "reps h' (ch (\<not> b))"
  proof (rule reps_frame [of h])
    fix j assume j: "j \<in> ids (ch (\<not> b))"
    then have "j \<noteq> i" using t(2) by auto
    with j sib show "h' j = h j" by (intro out) auto
  qed (use t(1) in simp)
  have rep: "reps h' (PT i e v (ch(b := c')))"
    using t(1) n i c(1) sibling by (auto simp: child_at_set_child)
  have dis: "disjoint_ids (PT i e v (ch(b := c')))"
    using t(2) c(2) ic sib by (cases b) (auto simp: Int_commute)
  have in_ids: "j \<in> ids (PT i e v (ch(b := c'))) \<longleftrightarrow> j = i \<or> j \<in> ids c' \<or> j \<in> ids (ch (\<not> b))" for j
    by (simp add: ids_update del: ids.simps)
  from c(3) in_ids ids_children [of i e v ch b] have sub: "ids (PT i e v ch) \<subseteq> ids (PT i e v (ch(b := c')))" by blast
  have "h' j = h j" if "j \<notin> ids (PT i e v (ch(b := c')))" for j
    using that unfolding in_ids by (intro out) auto
  moreover have "h j = None \<and> 2 \<le> j" if "j \<in> ids (PT i e v (ch(b := c'))) - ids (PT i e v ch)" for j
  proof -
    have "j \<in> ids c' - ids (ch b)" using that unfolding in_ids Diff_iff by auto
    with c(4) show ?thesis by blast
  qed
  ultimately have "extends h h' (PT i e v ch) (PT i e v (ch(b := c')))"
    using rep dis sub unfolding extends_def by blast
  moreover have "cinv (PT i e v (ch(b := c'))) w" using t(3) inv by auto
  moreover have "grown (PT i e v ch) (PT i e v (ch(b := c')))" using inv(3) by auto
  moreover have "cmap (PT i e v (ch(b := c'))) = (cmap (PT i e v ch))(k \<mapsto> x)"
    using m by (rule cmap_update_child)
  ultimately show ?thesis unfolding insert_step_def by blast
qed

lemma encodes_node_new: "len \<le> 128 \<Longrightarrow> (\<And>i. i < len \<Longrightarrow> msb_bit x i = e ! i) \<Longrightarrow> length e = len \<Longrightarrow>
    encodes (node_new x len) e"
  by (auto simp: encodes_def node_new_def msb_bit_mask)

lemma child_at_node_new [simp]: "child_at (node_new x len) b = None" "n_value (node_new x len) = None"
  by (simp_all add: child_at_def node_new_def)

lemma encodes_key: "klen \<le> 128 \<Longrightarrow> encodes (node_new (shl key pos) (klen - pos)) (key_bits key pos klen)"
  by (rule encodes_node_new) (auto simp: msb_bit_shl add.commute)

lemma encodes_tail:
  assumes "encodes c e" "s \<le> length e"
  shows "encodes (c\<lparr>n_bits := shl (n_bits c) s, n_len := n_len c - s\<rparr>) (drop s e)"
  unfolding encodes_def
proof (intro conjI allI)
  fix i
  have "msb_bit (n_bits c) (i + s) \<longleftrightarrow> i + s < length e \<and> e ! (i + s)" using assms(1) by (simp add: encodes_def)
  then show "msb_bit (n_bits (c\<lparr>n_bits := shl (n_bits c) s, n_len := n_len c - s\<rparr>)) i \<longleftrightarrow>
      i < length (drop s e) \<and> drop s e ! i"
    using assms(2) by (simp add: msb_bit_shl less_diff_conv add.commute)
qed (use assms in \<open>simp_all add: encodes_def le_diff_conv\<close>)

lemma encodes_head: "encodes c e \<Longrightarrow> s \<le> length e \<Longrightarrow> encodes (node_new (n_bits c) s) (take s e)"
  by (rule encodes_node_new) (auto simp: encodes_def)

lemma key_bit_shl: "s < 128 \<Longrightarrow> key_bit (shl x s) 0 = msb_bit x s"
  by (simp add: key_bit_msb msb_bit_shl)

lemma common_len_split:
  assumes "encodes c e" "klen \<le> 128" "pos < klen" "e \<noteq> []" "hd e = key_bit key pos"
    and s: "s = common_len (shl key pos) (n_bits c) (min (length e) (klen - pos))" "s \<noteq> length e"
  shows "0 < s" "s < length e" "s \<le> klen - pos" "take s (key_bits key pos klen) = take s e"
    "s < klen - pos \<Longrightarrow> key_bits key pos klen ! s \<noteq> e ! s"
proof -
  let ?m = "min (length e) (klen - pos)"
  have e: "length e \<le> 128" using assms(1) by (simp add: encodes_def)
  have le: "s \<le> ?m" unfolding s(1) by (rule common_len_le)
  then show "s < length e" "s \<le> klen - pos" using s(2) by auto
  have agree: "key_bits key pos klen ! i = e ! i" if "i < s" for i
    using common_len_agree [of i "shl key pos" "n_bits c" ?m] that s(1) le e encodes_bit [OF assms(1), of i]
    by (simp add: msb_bit_shl add.commute)
  then show "take s (key_bits key pos klen) = take s e"
    using le by (intro nth_equalityI) auto
  have differ: "key_bits key pos klen ! s \<noteq> e ! s" if "s < ?m"
    using common_len_differ [of "shl key pos" "n_bits c" ?m] that s(1) e encodes_bit [OF assms(1), of s]
    by (simp add: msb_bit_shl add.commute)
  then show "s < klen - pos \<Longrightarrow> key_bits key pos klen ! s \<noteq> e ! s" using \<open>s < length e\<close> by simp
  show "0 < s"
  proof (rule ccontr)
    assume "\<not> 0 < s"
    then have "key_bits key pos klen ! 0 \<noteq> e ! 0" using differ assms(3,4) by simp
    then show False using assms(2-5) by (simp add: hd_conv_nth key_bit_msb)
  qed
qed

text \<open>The maps of the subtrees a split puts in the place of the child.\<close>

lemma split_tree_value:
  assumes "s < length e" "take s k = take s e" "length k = s"
  shows "tmap (PT mid (take s e) (Some x) ((\<lambda>_. PE)(e ! s := PT ci (drop s e) cv cch))) = (tmap (PT ci e cv cch))(k \<mapsto> x)"
proof -
  let ?ch = "(\<lambda>_. PE)(e ! s := PT ci (drop s e) cv cch)"
  have "tmap (PT mid (take s e) (Some x) ?ch) = (tmap (PT mid (take s e) None ?ch))(k \<mapsto> x)"
  proof (rule tmap_update)
    show "take (length (take s e)) k = take s e" using assms by simp
    show "cmap (PT mid (take s e) (Some x) ?ch) = (cmap (PT mid (take s e) None ?ch))(drop (length (take s e)) k \<mapsto> x)"
      using assms cmap_update_value by simp
  qed
  then show ?thesis using tmap_split [OF assms(1), of mid ci cv cch] by (simp del: tmap.simps)
qed

lemma split_tree_leaf:
  assumes "s < length e" "take s k = take s e" "s < length k" "k ! s \<noteq> e ! s"
  shows "tmap (PT mid (take s e) None ((\<lambda>_. PT leaf (drop s k) (Some x) (\<lambda>_. PE))(e ! s := PT ci (drop s e) cv cch)))
    = (tmap (PT ci e cv cch))(k \<mapsto> x)"
proof -
  let ?l = "PT leaf (drop s k) (Some x) (\<lambda>_. PE)"
  let ?ch = "(\<lambda>_. PE)(e ! s := PT ci (drop s e) cv cch)"
  have ch: "(\<lambda>_. ?l)(e ! s := PT ci (drop s e) cv cch) = ?ch(k ! s := ?l)"
    using assms(4) by (auto simp: fun_eq_iff)
  have l: "tmap ?l = (tmap PE)(drop s k \<mapsto> x)"
    by (auto simp: fun_eq_iff tmap_PT neq_Nil_conv split: list.splits)
  have "tmap (PT mid (take s e) None (?ch(k ! s := ?l))) = (tmap (PT mid (take s e) None ?ch))(k \<mapsto> x)"
  proof (rule tmap_update)
    show "take (length (take s e)) k = take s e" using assms by simp
    have "cmap (PT mid (take s e) None (?ch(k ! s := ?l))) = (cmap (PT mid (take s e) None ?ch))(drop s k \<mapsto> x)"
      using assms(3,4) l by (intro cmap_update_child) (auto simp: hd_drop_conv_nth)
    then show "cmap (PT mid (take s e) None (?ch(k ! s := ?l))) =
      (cmap (PT mid (take s e) None ?ch))(drop (length (take s e)) k \<mapsto> x)" using assms(1) by simp
  qed
  then show ?thesis using tmap_split [OF assms(1), of mid ci cv cch] ch by (simp del: tmap.simps)
qed

definition insert_post ::
  "'v prefix_trie \<Rightarrow> 'v ptree \<Rightarrow> bool list \<Rightarrow> 'v \<Rightarrow> nat \<Rightarrow> (capacity_error + 'v option) \<times> 'v prefix_trie \<Rightarrow> bool" where
  "insert_post p t k x w res \<longleftrightarrow>
     res = (Inl CapacityError, p) \<and> pool_available p < 2 \<and> cmap t k = None \<or>
     (\<exists>p' t'. res = (Inr (cmap t k), p') \<and> pool_wf p' \<and> pool_cap p' = pool_cap p \<and>
        insert_step (pool_get p) (pool_get p') t t' w k x)"

lemma insert_leaf_correct:
  assumes p: "pool_wf p" "reps (pool_get p) (PT i e v ch)" "disjoint_ids (PT i e v ch)" "cinv (PT i e v ch) w"
    and k: "pos < klen" "klen \<le> 128" "klen - pos \<le> w" "ch (key_bit key pos) = PE"
  shows "\<exists>res. insert_leaf p i (key_bit key pos) key pos klen x = Some res \<and>
    insert_post p (PT i e v ch) (key_bits key pos klen) x w res"
proof -
  let ?b = "key_bit key pos" and ?K = "key_bits key pos klen"
  have K: "?K = ?b # key_bits key (Suc pos) klen" using k by (intro key_bits_Cons) auto
  have none: "cmap (PT i e v ch) ?K = None" using K k(4) by simp
  show ?thesis
  proof (cases "1 \<le> pool_available p")
    case False
    with none show ?thesis by (simp add: insert_leaf_def check_capacity_def insert_post_def)
  next
    case True
    obtain n where n: "pool_get p i = Some n" using p(2) by auto
    from insert_leaf_updated [OF p(1) n True, of ?b key pos klen x]
    obtain l p' where run: "insert_leaf p i ?b key pos klen x = Some (Inr None, p')"
      and l: "pool_get p l = None" "2 \<le> l"
      and u: "updated p p' ((pool_get p)(l \<mapsto> leaf_node (shl key pos) (klen - pos) x, i \<mapsto> set_child n ?b (Some l)))"
      by blast
    note u' = updatedD [OF u]
    let ?c = "PT l ?K (Some x) (\<lambda>_. PE)"
    have li: "l \<noteq> i" using l n by auto
    have "insert_step (pool_get p) (pool_get p') (PT i e v ch) (PT i e v (ch(?b := ?c))) w ?K x"
    proof (rule insert_step_child [OF p(2-4) n])
      show "reps (pool_get p') ?c" using li encodes_key [OF k(2), of key pos] by (simp add: u'(2))
      show "tmap ?c = (tmap (ch ?b))(?K \<mapsto> x)"
        by (auto simp: fun_eq_iff tmap_PT k(4) neq_Nil_conv split: list.splits)
    qed (use li l K k in \<open>auto simp: u'(2)\<close>)
    with run none u' show ?thesis unfolding insert_post_def by auto
  qed
qed

lemma split_ends_step:
  assumes t: "reps h (PT i e v ch)" "disjoint_ids (PT i e v ch)" "cinv (PT i e v ch) w" "h i = Some n"
    and c: "ch b = PT ci ce cv cch" "h ci = Some c" "encodes c ce"
    and s: "0 < s" "s < length ce" "take s k = take s ce" "length k = s"
    and mid: "h mid = None" "2 \<le> mid"
    and h': "h' = h(mid \<mapsto> (upper_node (n_bits c) s ci)\<lparr>n_value := Some x\<rparr>,
       ci \<mapsto> c\<lparr>n_bits := shl (n_bits c) s, n_len := n_len c - s\<rparr>, i \<mapsto> set_child n b (Some mid))"
  shows "\<exists>t'. insert_step h h' (PT i e v ch) t' w k x"
proof -
  let ?lower = "PT ci (drop s ce) cv cch"
  let ?c = "PT mid (take s ce) (Some x) ((\<lambda>_. PE)(ce ! s := ?lower))"
  have child: "reps h (PT ci ce cv cch)" "tinv (PT ci ce cv cch) w" "starts_with b (PT ci ce cv cch)"
    "disjoint_ids (PT ci ce cv cch)" "i \<notin> ids (PT ci ce cv cch)"
    using t c(1) by (metis reps.simps(2) cinv.simps(2) disjoint_ids.simps(2))+
  have ne: "mid \<noteq> i" "mid \<noteq> ci" "ci \<noteq> i" "mid \<notin> ids (PT ci ce cv cch)"
    using t(4) c(2) mid(1) child(5) reps_dom [OF child(1)] by auto
  have kb: "key_bit (shl (n_bits c) s) 0 = ce ! s"
    using encodes_bit [OF c(3) s(2)] key_bit_shl [of s "n_bits c"] c(3) s(2) by (simp add: encodes_def)
  have low: "reps h' ?lower"
  proof -
    have "reps h' (cch b')" for b'
    proof (rule reps_frame [of h])
      show "reps h (cch b')" using child(1) by simp
      fix j assume "j \<in> ids (cch b')"
      then show "h' j = h j" using child(4,5) ne(4) by (auto simp: h')
    qed
    then show ?thesis using child(1) c(2) encodes_tail [OF c(3), of s] s(2) ne by (auto simp: h')
  qed
  have idc: "ids ?c = insert mid (ids (ch b))" by (simp add: ids_update c(1) del: ids.simps(2)) simp
  have "insert_step h h' (PT i e v ch) (PT i e v (ch(b := ?c))) w k x"
  proof (rule insert_step_child [OF t])
    show "reps h' ?c"
      using low encodes_head [OF c(3), of s] s(2) ne kb by (auto simp: h' child_at_set_child)
    show "tmap ?c = (tmap (ch b))(k \<mapsto> x)" using split_tree_value [OF s(2-4)] c(1) by (simp del: tmap.simps)
    show "disjoint_ids ?c" using child(4) ne by auto
    show "tinv ?c w" using child(2) s
      by (auto simp: Cons_nth_drop_Suc [symmetric] hd_drop_conv_nth intro: tinv_weaken)
    show "starts_with b ?c" using child(3) s(1) by (cases ce) auto
    show "k \<noteq> []" "hd k = b" using child(3) s by (cases k; cases ce; auto simp: take_Cons')+
  qed (use ne mid c in \<open>auto simp: h' idc simp del: ids.simps\<close>, simp)
  then show ?thesis by blast
qed

lemma split_leaf_step:
  assumes t: "reps h (PT i e v ch)" "disjoint_ids (PT i e v ch)" "cinv (PT i e v ch) w" "h i = Some n"
    and c: "ch b = PT ci ce cv cch" "h ci = Some c" "encodes c ce"
    and s: "0 < s" "s < length ce" "take s k = take s ce" "s < length k" "k ! s \<noteq> ce ! s" "length k \<le> w"
    and mid: "h mid = None" "2 \<le> mid" "h leaf = None" "2 \<le> leaf" "leaf \<noteq> mid"
    and l: "encodes l (drop s k)" "n_value l = Some x" "\<And>b. child_at l b = None"
    and h': "h' = h(mid \<mapsto> set_child (upper_node (n_bits c) s ci) (k ! s) (Some leaf),
       ci \<mapsto> c\<lparr>n_bits := shl (n_bits c) s, n_len := n_len c - s\<rparr>, i \<mapsto> set_child n b (Some mid), leaf \<mapsto> l)"
  shows "\<exists>t'. insert_step h h' (PT i e v ch) t' w k x"
proof -
  let ?lower = "PT ci (drop s ce) cv cch" and ?leaf = "PT leaf (drop s k) (Some x) (\<lambda>_. PE)"
  let ?c = "PT mid (take s ce) None ((\<lambda>_. ?leaf)(ce ! s := ?lower))"
  have child: "reps h (PT ci ce cv cch)" "tinv (PT ci ce cv cch) w" "starts_with b (PT ci ce cv cch)"
    "disjoint_ids (PT ci ce cv cch)" "i \<notin> ids (PT ci ce cv cch)"
    using t c(1) by (metis reps.simps(2) cinv.simps(2) disjoint_ids.simps(2))+
  have ne: "mid \<noteq> i" "mid \<noteq> ci" "ci \<noteq> i" "mid \<notin> ids (PT ci ce cv cch)"
    "leaf \<noteq> i" "leaf \<noteq> ci" "leaf \<notin> ids (PT ci ce cv cch)"
    using t(4) c(2) mid child(5) reps_dom [OF child(1)] by auto
  have kb: "key_bit (shl (n_bits c) s) 0 = ce ! s"
    using encodes_bit [OF c(3) s(2)] key_bit_shl [of s "n_bits c"] c(3) s(2) by (simp add: encodes_def)
  have low: "reps h' ?lower"
  proof -
    have "reps h' (cch b')" for b'
    proof (rule reps_frame [of h])
      show "reps h (cch b')" using child(1) by simp
      fix j assume "j \<in> ids (cch b')"
      then show "h' j = h j" using child(4,5) ne(4,7) by (auto simp: h')
    qed
    then show ?thesis using child(1) c(2) encodes_tail [OF c(3), of s] s(2) ne by (auto simp: h')
  qed
  have idc: "ids ?c = insert mid (insert leaf (ids (ch b)))"
    by (simp add: ids_update c(1) del: ids.simps(2)) auto
  have "insert_step h h' (PT i e v ch) (PT i e v (ch(b := ?c))) w k x"
  proof (rule insert_step_child [OF t])
    show "reps h' ?c"
      using low encodes_head [OF c(3), of s] s(2,5) ne kb l mid(5) by (auto simp: h' child_at_set_child)
    show "tmap ?c = (tmap (ch b))(k \<mapsto> x)" using split_tree_leaf [OF s(2-5)] c(1) by (simp del: tmap.simps)
    show "disjoint_ids ?c" using child(4) ne mid(5) by (cases "ce ! s") auto
    show "tinv ?c w" using child(2) s
      by (auto simp: Cons_nth_drop_Suc [symmetric] hd_drop_conv_nth intro: tinv_weaken)
    show "starts_with b ?c" using child(3) s(1) by (cases ce) auto
    show "k \<noteq> []" "hd k = b" using child(3) s by (cases k; cases ce; auto simp: take_Cons')+
  qed (use ne mid c in \<open>auto simp: h' idc simp del: ids.simps\<close>, simp)
  then show ?thesis by blast
qed

lemma insert_split_correct:
  assumes p: "pool_wf p" "reps (pool_get p) (PT i e v ch)" "disjoint_ids (PT i e v ch)" "cinv (PT i e v ch) w"
    and k: "pos < klen" "klen \<le> 128" "klen - pos \<le> w"
    and c: "ch (key_bit key pos) = PT ci ce cv cch" "pool_get p ci = Some c" "encodes c ce"
    and s: "s = common_len (shl key pos) (n_bits c) (min (length ce) (klen - pos))" "s \<noteq> length ce"
  shows "\<exists>res. insert_split p i (key_bit key pos) ci (n_bits c) (length ce) (shl key pos) (klen - pos) s x = Some res \<and>
    insert_post p (PT i e v ch) (key_bits key pos klen) x w res"
proof -
  let ?b = "key_bit key pos" and ?K = "key_bits key pos klen"
  have K: "?K = ?b # key_bits key (Suc pos) klen" using k by (intro key_bits_Cons) auto
  have "starts_with ?b (ch ?b)" using p(4) by simp
  then have ce: "ce \<noteq> []" "hd ce = ?b" using c(1) by simp_all
  note sp = common_len_split [OF c(3) k(2,1) ce s]
  have "\<not> prefix ce ?K"
  proof
    assume pre: "prefix ce ?K"
    then have len: "length ce \<le> klen - pos" using prefix_length_le by fastforce
    then have "s < klen - pos" using sp(2) by simp
    with sp(2,5) pre show False by (metis prefix_def nth_append)
  qed
  then have none: "cmap (PT i e v ch) ?K = None" using K c(1) by (simp add: tmap_no_prefix del: tmap.simps)
  obtain n where n: "pool_get p i = Some n" using p(2) by auto
  have ici: "i \<noteq> ci" using p(3) c(1) by (auto dest!: spec [of _ ?b])
  have len: "n_len c = length ce" using c(3) by (simp add: encodes_def)
  show ?thesis
  proof (cases "(if s = klen - pos then 1 else 2) \<le> pool_available p")
    case False
    with none show ?thesis
      by (auto simp: insert_split_def check_capacity_def insert_post_def Let_def split: if_splits)
  next
    case True
    from insert_split_updated [OF p(1) n c(2) ici sp(3) True, of ?b "n_bits c" "length ce" "shl key pos" x]
    obtain mid p' where run: "insert_split p i ?b ci (n_bits c) (length ce) (shl key pos) (klen - pos) s x = Some (Inr None, p')"
      and mid: "pool_get p mid = None" "2 \<le> mid"
      and u: "if s = klen - pos
     then updated p p' ((pool_get p)(mid \<mapsto> (upper_node (n_bits c) s ci)\<lparr>n_value := Some x\<rparr>,
       ci \<mapsto> c\<lparr>n_bits := shl (n_bits c) s, n_len := length ce - s\<rparr>, i \<mapsto> set_child n ?b (Some mid)))
     else \<exists>leaf. leaf \<noteq> mid \<and> pool_get p leaf = None \<and> 2 \<le> leaf \<and>
       updated p p' ((pool_get p)(mid \<mapsto> set_child (upper_node (n_bits c) s ci) (key_bit (shl (shl key pos) s) 0) (Some leaf),
         ci \<mapsto> c\<lparr>n_bits := shl (n_bits c) s, n_len := length ce - s\<rparr>, i \<mapsto> set_child n ?b (Some mid),
         leaf \<mapsto> leaf_node (shl (shl key pos) s) (klen - pos - s) x))" by blast
    have "pool_wf p' \<and> pool_cap p' = pool_cap p \<and>
      (\<exists>t'. insert_step (pool_get p) (pool_get p') (PT i e v ch) t' w ?K x)"
    proof (cases "s = klen - pos")
      case True
      with u have "updated p p' ((pool_get p)(mid \<mapsto> (upper_node (n_bits c) s ci)\<lparr>n_value := Some x\<rparr>,
       ci \<mapsto> c\<lparr>n_bits := shl (n_bits c) s, n_len := n_len c - s\<rparr>, i \<mapsto> set_child n ?b (Some mid)))"
        by (simp add: len)
      note u' = updatedD [OF this]
      from split_ends_step [OF p(2-4) n c sp(1,2,4) _ mid u'(2)] True u' show ?thesis by simp
    next
      case False
      then obtain leaf where leaf: "pool_get p leaf = None" "2 \<le> leaf" "leaf \<noteq> mid"
        and "updated p p' ((pool_get p)(mid \<mapsto> set_child (upper_node (n_bits c) s ci) (key_bit (shl (shl key pos) s) 0) (Some leaf),
         ci \<mapsto> c\<lparr>n_bits := shl (n_bits c) s, n_len := length ce - s\<rparr>, i \<mapsto> set_child n ?b (Some mid),
         leaf \<mapsto> leaf_node (shl (shl key pos) s) (klen - pos - s) x))" using u by auto
      moreover have sl: "s < klen - pos" using False sp(3) by simp
      moreover have "key_bit (shl (shl key pos) s) 0 = ?K ! s"
        using sl k(2) by (simp add: key_bit_shl msb_bit_shl add.commute)
      ultimately have "updated p p' ((pool_get p)(mid \<mapsto> set_child (upper_node (n_bits c) s ci) (?K ! s) (Some leaf),
         ci \<mapsto> c\<lparr>n_bits := shl (n_bits c) s, n_len := n_len c - s\<rparr>, i \<mapsto> set_child n ?b (Some mid),
         leaf \<mapsto> leaf_node (shl (shl key pos) s) (klen - pos - s) x))" by (simp add: len)
      note u' = updatedD [OF this]
      have "encodes (node_new (shl (shl key pos) s) (klen - pos - s)) (drop s ?K)"
        using k(2) by (intro encodes_node_new) (auto simp: msb_bit_shl drop_key_bits ac_simps)
      then have "encodes (leaf_node (shl (shl key pos) s) (klen - pos - s) x) (drop s ?K)" by simp
      from split_leaf_step [OF p(2-4) n c sp(1,2,4) _ _ _ mid leaf this _ _ u'(2)] sl sp(5) k(3) u'
      show ?thesis by simp
    qed
    with run none show ?thesis unfolding insert_post_def by auto
  qed
qed

lemma tinv_grown:
  "tinv (PT i e v ch) w \<Longrightarrow> grown (PT i e v ch) t' \<Longrightarrow> cinv t' (w - length e) \<Longrightarrow> tinv t' w"
  by (cases t') auto

lemma set_child_same: "child_at n b = c \<Longrightarrow> set_child n b c = n"
  by (cases n) (auto simp: set_child_def child_at_def)

lemma insert_post_child:
  assumes t: "reps (pool_get p) (PT i e v ch)" "disjoint_ids (PT i e v ch)" "cinv (PT i e v ch) w"
    and c: "ch b = PT ci ce cv cch" and k: "k = ce @ k'" "hd k = b"
    and post: "insert_post p (ch b) k' x (w - length ce) res"
  shows "insert_post p (PT i e v ch) k x w res"
proof -
  have tc: "tinv (ch b) w" "starts_with b (ch b)" using t(3) by auto
  then have ce: "ce \<noteq> []" using c by simp
  then have "k \<noteq> []" using k(1) by simp
  then have km: "k = b # tl k" using k(2) by (cases k) simp_all
  have tk: "tmap (ch b) k = cmap (ch b) k'" by (simp add: c k(1) del: tmap.simps)
  then have eq: "cmap (PT i e v ch) k = cmap (ch b) k'" using km by (metis cmap.simps(3))
  show ?thesis
  proof (cases "res = (Inl CapacityError, p) \<and> pool_available p < 2 \<and> cmap (ch b) k' = None")
    case True
    with eq show ?thesis by (simp add: insert_post_def)
  next
    case False
    with post obtain p' c' where p': "res = (Inr (cmap (ch b) k'), p')" "pool_wf p'" "pool_cap p' = pool_cap p"
      and step: "insert_step (pool_get p) (pool_get p') (ch b) c' (w - length ce) k' x"
      unfolding insert_post_def by blast
    from step have ext: "extends (pool_get p) (pool_get p') (ch b) c'" and cc: "cinv c' (w - length ce)"
      and gr: "grown (ch b) c'" and cm: "cmap c' = (cmap (ch b))(k' \<mapsto> x)" by (auto simp: insert_step_def)
    obtain cv' cch' where c': "c' = PT ci ce cv' cch'" using gr c by (cases c') auto
    obtain n where n: "pool_get p i = Some n" "child_at n b = Some ci" using t(1) c by auto
    have "i \<notin> ids (ch b)" using t(2) by simp
    then have ic: "i \<notin> ids c'" using ext n(1) unfolding extends_def by fastforce
    have "insert_step (pool_get p) (pool_get p') (PT i e v ch) (PT i e v (ch(b := c'))) w k x"
    proof (rule insert_step_child [OF t n(1)])
      have "pool_get p' i = pool_get p i" using ext ic unfolding extends_def by blast
      then show "pool_get p' i = Some (set_child n b (root_id c'))"
        using n set_child_same [OF n(2)] by (simp add: c')
      show "tinv c' w" using tinv_grown [of ci ce cv cch w c'] tc gr cc c by simp
      show "tmap c' = (tmap (ch b))(k \<mapsto> x)"
        unfolding c' c by (rule tmap_update) (use cm c' c k in simp_all)
    qed (use ext tc c c' km k(2) in \<open>auto simp: extends_def simp del: ids.simps disjoint_ids.simps reps.simps\<close>)
    with p' eq show ?thesis unfolding insert_post_def by metis
  qed
qed

lemma insert_loop_correct:
  "pool_wf p \<Longrightarrow> reps (pool_get p) t \<Longrightarrow> root_id t = Some node \<Longrightarrow> disjoint_ids t \<Longrightarrow> cinv t w \<Longrightarrow>
     klen \<le> 128 \<Longrightarrow> pos \<le> klen \<Longrightarrow> klen - pos \<le> w \<Longrightarrow>
     \<exists>res. insert_loop p key klen x node pos = Some res \<and> insert_post p t (key_bits key pos klen) x w res"
proof (induction t arbitrary: node w pos)
  case (PT i e v ch)
  then have [simp]: "node = i" by simp
  from PT.prems obtain n where n: "pool_get p i = Some n" "n_value n = v" "encodes n e"
    "\<And>b. child_at n b = root_id (ch b)" by auto
  show ?case
  proof (cases "pos = klen")
    case True
    obtain p' where p': "pool_set p i (n\<lparr>n_value := Some x\<rparr>) = Some p'"
      "updated p p' ((pool_get p)(i \<mapsto> n\<lparr>n_value := Some x\<rparr>))"
      using pool_set_updated [OF PT.prems(1), of i] n(1) by auto
    note u = updatedD [OF p'(2)]
    have "reps (pool_get p') (ch b)" for b
    proof (rule reps_frame)
      show "reps (pool_get p) (ch b)" using PT.prems(2) by simp
      show "pool_get p' j = pool_get p j" if "j \<in> ids (ch b)" for j
        using that PT.prems(4) u(2) by (metis disjoint_ids.simps(2) fun_upd_other)
    qed
    then have "extends (pool_get p) (pool_get p') (PT i e v ch) (PT i e (Some x) ch)"
      using PT.prems(4) n by (auto simp: extends_def u(2))
    then have "insert_step (pool_get p) (pool_get p') (PT i e v ch) (PT i e (Some x) ch) w [] x"
      using PT.prems(5) cmap_update_value by (auto simp: insert_step_def)
    moreover have "insert_loop p key klen x node pos = Some (Inr v, p')"
      using True n p'(1) by (subst insert_loop.simps) simp
    moreover have "cmap (PT i e v ch) [] = v" by simp
    ultimately have "insert_post p (PT i e v ch) [] x w (Inr v, p')" using u(1,3) unfolding insert_post_def by metis
    with \<open>insert_loop p key klen x node pos = Some (Inr v, p')\<close> True show ?thesis by simp
  next
    case False
    then have pos: "pos < klen" using PT.prems(7) by simp
    let ?b = "key_bit key pos" and ?K = "key_bits key pos klen"
    have K: "?K = ?b # key_bits key (Suc pos) klen" using pos PT.prems by (intro key_bits_Cons) auto
    show ?thesis
    proof (cases "ch ?b")
      case PE
      with n False have "insert_loop p key klen x node pos = insert_leaf p i ?b key pos klen x"
        by (subst insert_loop.simps) simp
      with insert_leaf_correct [OF PT.prems(1,2,4,5) pos PT.prems(6,8) PE] show ?thesis by simp
    next
      case c: (PT ci ce cv cch)
      from PT.prems(2) c have "reps (pool_get p) (PT ci ce cv cch)" by (metis reps.simps(2))
      then obtain cn where cn: "pool_get p ci = Some cn" "encodes cn ce" by auto
      let ?s = "common_len (shl key pos) (n_bits cn) (min (length ce) (klen - pos))"
      have len: "n_len cn = length ce" using cn(2) by (simp add: encodes_def)
      have step: "insert_loop p key klen x node pos =
        (if ?s = length ce then insert_loop p key klen x ci (pos + length ce)
         else insert_split p i ?b ci (n_bits cn) (length ce) (shl key pos) (klen - pos) ?s x)"
        using False n c cn len by (subst insert_loop.simps) (simp add: Let_def)
      show ?thesis
      proof (cases "?s = length ce")
        case False
        with step insert_split_correct [OF PT.prems(1,2,4,5) pos PT.prems(6,8) c cn refl] show ?thesis by simp
      next
        case full: True
        then have le: "length ce \<le> klen - pos" 
          using common_len_le [of "shl key pos" "n_bits cn" "min (length ce) (klen - pos)"] by simp
        then have "take (length ce) ?K = ce"
          using common_len_full [OF cn(2) le PT.prems(6), of key] full by (simp add: min_absorb1)
        then have Keq: "?K = ce @ key_bits key (pos + length ce) klen" by (metis append_take_drop_id drop_key_bits)
        have "\<exists>res. insert_loop p key klen x ci (pos + length ce) = Some res \<and>
          insert_post p (ch ?b) (key_bits key (pos + length ce) klen) x (w - length ce) res"
        proof (rule PT.IH [OF rangeI PT.prems(1)])
          show "root_id (ch ?b) = Some ci" by (simp add: c)
          show "cinv (ch ?b) (w - length ce)" using PT.prems(5) c tinv_cinv by (metis cinv.simps(2))
        qed (use PT.prems le pos in auto)
        then obtain res where "insert_loop p key klen x ci (pos + length ce) = Some res"
          "insert_post p (ch ?b) (key_bits key (pos + length ce) klen) x (w - length ce) res" by blast
        with insert_post_child [OF PT.prems(2,4,5) c Keq] K step full show ?thesis by simp
      qed
    qed
  qed
qed simp

end
