(* ===== verification/Trie_Removal.thy ===== *)
theory Trie_Removal
  imports Trie_Refinement
begin

text \<open>
  Correctness of removal from the prefix trie: the value of exactly the given prefix disappears,
  nodes that lose their purpose are merged away and released, and the path-compression invariant is
  restored.
\<close>

section \<open>Merging a node into its only child\<close>

lemma encodes_merge:
  assumes "encodes n e" "encodes c ce" "length e + length ce \<le> 128"
  shows "encodes (c\<lparr>n_bits := n_bits n OR shr (n_bits c) (n_len n), n_len := n_len c + n_len n\<rparr>) (e @ ce)"
  unfolding encodes_def
proof (intro conjI allI)
  fix i
  have n: "msb_bit (n_bits n) i \<longleftrightarrow> i < length e \<and> e ! i" "n_len n = length e"
    and c: "msb_bit (n_bits c) (i - length e) \<longleftrightarrow> i - length e < length ce \<and> ce ! (i - length e)"
    using assms(1,2) by (auto simp: encodes_def)
  show "msb_bit (n_bits (c\<lparr>n_bits := n_bits n OR shr (n_bits c) (n_len n), n_len := n_len c + n_len n\<rparr>)) i \<longleftrightarrow>
      i < length (e @ ce) \<and> (e @ ce) ! i"
    using n c assms(3) by (auto simp: msb_bit_or msb_bit_shr nth_append)
qed (use assms in \<open>auto simp: encodes_def\<close>)

abbreviation merged_node :: "'v node \<Rightarrow> 'v node \<Rightarrow> 'v node" where
  "merged_node n c \<equiv> c\<lparr>n_bits := n_bits n OR shr (n_bits c) (n_len n), n_len := n_len c + n_len n\<rparr>"

lemma merge_into_child_updated:
  assumes "pool_wf p" "pool_get p g = Some gn" "pool_get p i = Some n" "pool_get p ci = Some c"
    and "g \<noteq> i" "g \<noteq> ci" "i \<noteq> ci" "2 \<le> i"
  shows "\<exists>p'. merge_into_child p g gb i ci = Some p' \<and>
    updated p p' ((pool_get p)(ci \<mapsto> merged_node n c, g \<mapsto> set_child gn gb (Some ci), i := None))"
proof -
  obtain p1 where 1: "pool_set p ci (merged_node n c) = Some p1" "updated p p1 ((pool_get p)(ci \<mapsto> merged_node n c))"
    using pool_set_updated [OF assms(1), of ci "merged_node n c"] assms(4) by auto
  note u1 = updatedD [OF 1(2)]
  obtain p2 where 2: "link_child p1 g gb (Some ci) = Some p2" "updated p1 p2 ((pool_get p1)(g \<mapsto> set_child gn gb (Some ci)))"
    using link_child_updated [OF u1(1), of g gn gb "Some ci"] assms(2,6) u1 by auto
  note u2 = updatedD [OF 2(2)]
  obtain p3 where 3: "pool_release p2 i = Some p3" "updated p2 p3 ((pool_get p2)(i := None))"
    using pool_release_updated [OF u2(1) assms(8)] assms(3,5,7) u1 u2 by auto
  have "merge_into_child p g gb i ci = Some p3"
    using assms(3,4) 1(1) 2(1) 3(1) by (simp add: merge_into_child_def)
  moreover have "updated p p3 ((pool_get p)(ci \<mapsto> merged_node n c, g \<mapsto> set_child gn gb (Some ci), i := None))"
    using updated_trans [OF updated_trans [OF 1(2) 2(2)] 3(2)] u1 u2 by simp
  ultimately show ?thesis by blast
qed

section \<open>What a removal does to a tree\<close>

primrec edge :: "'v ptree \<Rightarrow> bool list" where
  "edge PE = []"
| "edge (PT i e v ch) = e"

definition is_leaf :: "'v ptree \<Rightarrow> bool" where
  "is_leaf t \<longleftrightarrow> (\<exists>i e v. t = PT i e v (\<lambda>_. PE))"

text \<open>
  The parent of the tree, if it is not a root: its identifier, the branch and the parent node. The
  pool changes inside the tree and at that parent pointer only.
\<close>

type_synonym 'v parent = "(node_id \<times> bool \<times> 'v node) option"

definition shrinks :: "(node_id \<Rightarrow> 'v node option) \<Rightarrow> (node_id \<Rightarrow> 'v node option) \<Rightarrow> 'v parent \<Rightarrow> 'v ptree \<Rightarrow> 'v ptree \<Rightarrow> bool" where
  "shrinks h h' par t t' \<longleftrightarrow> reps h' t' \<and> disjoint_ids t' \<and> ids t' \<subseteq> ids t \<and>
     (\<forall>j\<in>ids t - ids t'. h' j = None) \<and>
     (\<forall>j. j \<notin> ids t \<longrightarrow> (\<forall>g gb gn. par = Some (g, gb, gn) \<longrightarrow> j \<noteq> g) \<longrightarrow> h' j = h j) \<and>
     (\<forall>g gb gn. par = Some (g, gb, gn) \<longrightarrow> h' g = Some (set_child gn gb (root_id t')))"

definition removed :: "'v parent \<Rightarrow> 'v ptree \<Rightarrow> 'v ptree \<Rightarrow> bool list \<Rightarrow> nat \<Rightarrow> bool" where
  "removed par t t' k w \<longleftrightarrow> t' \<noteq> PE \<and>
     (if par = None then root_id t' = root_id t \<and> edge t' = edge t \<and> cinv t' w \<and> cmap t' = (cmap t)(k := None)
      else tinv t' (w + length (edge t)) \<and> (\<forall>b. starts_with b t \<longrightarrow> starts_with b t') \<and>
        tmap t' = (tmap t)(edge t @ k := None))"

definition remove_post ::
  "'v prefix_trie \<Rightarrow> 'v parent \<Rightarrow> 'v ptree \<Rightarrow> bool list \<Rightarrow> nat \<Rightarrow> 'v option \<times> 'v prefix_trie \<Rightarrow> bool" where
  "remove_post p par t k w res \<longleftrightarrow>
     (if cmap t k = None then res = (None, p)
      else \<exists>p' t'. res = (cmap t k, p') \<and> pool_wf p' \<and> pool_cap p' = pool_cap p \<and>
        shrinks (pool_get p) (pool_get p') par t t' \<and> removed par t t' k w)"

text \<open>Merging keeps the map, restores the invariant and frees the upper node.\<close>

lemma merge_step:
  assumes t: "reps h (PT i e None ((\<lambda>_. PE)(b := PT ci ce cv cch)))"
      "disjoint_ids (PT i e None ((\<lambda>_. PE)(b := PT ci ce cv cch)))"
    and c: "tinv (PT ci ce cv cch) w" "starts_with b (PT ci ce cv cch)" and e: "e \<noteq> []" "w + length e \<le> 128"
    and n: "h i = Some n" "h ci = Some c" and g: "g \<notin> ids (PT i e None ((\<lambda>_. PE)(b := PT ci ce cv cch)))"
    and h': "h' = h(ci \<mapsto> merged_node n c, g \<mapsto> gn', i := None)"
  shows "reps h' (PT ci (e @ ce) cv cch)" "disjoint_ids (PT ci (e @ ce) cv cch)"
    "tinv (PT ci (e @ ce) cv cch) (w + length e)"
    "tmap (PT ci (e @ ce) cv cch) = tmap (PT i e None ((\<lambda>_. PE)(b := PT ci ce cv cch)))"
    "insert i (ids (PT ci (e @ ce) cv cch)) = ids (PT i e None ((\<lambda>_. PE)(b := PT ci ce cv cch)))"
    "i \<notin> ids (PT ci (e @ ce) cv cch)"
proof -
  show idt: "insert i (ids (PT ci (e @ ce) cv cch)) = ids (PT i e None ((\<lambda>_. PE)(b := PT ci ce cv cch)))"
    by (simp add: ids_update del: ids.simps(2)) simp
  have child: "reps h (PT ci ce cv cch)" "disjoint_ids (PT ci ce cv cch)" "i \<notin> ids (PT ci ce cv cch)"
    using t by (auto dest!: spec [of _ b])
  then show "i \<notin> ids (PT ci (e @ ce) cv cch)" "disjoint_ids (PT ci (e @ ce) cv cch)" by simp_all
  have gni: "g \<notin> ids (PT ci ce cv cch)" "g \<noteq> i" using g idt by auto
  have enc: "encodes n e" "encodes c ce" "n_value c = cv" "\<And>b. child_at c b = root_id (cch b)"
    using t(1) child(1) n by auto
  have len: "length e + length ce \<le> 128" using c(1) e(2) by simp
  have "reps h' (cch b')" for b'
  proof (rule reps_frame [of h])
    show "reps h (cch b')" using child(1) by simp
    fix j assume j: "j \<in> ids (cch b')"
    then have "j \<noteq> ci" "j \<noteq> i" "j \<noteq> g" using child(2,3) gni by auto
    then show "h' j = h j" by (simp add: h')
  qed
  then show "reps h' (PT ci (e @ ce) cv cch)"
    using encodes_merge [OF enc(1,2) len] enc(3,4) child(3) gni by (auto simp: h')
  show "tinv (PT ci (e @ ce) cv cch) (w + length e)" using c(1) by auto
  obtain r where "ce = b # r" using c(2) by (cases ce) auto
  then show "tmap (PT ci (e @ ce) cv cch) = tmap (PT i e None ((\<lambda>_. PE)(b := PT ci ce cv cch)))"
    using tmap_split_at [of i e b ci r cv cch] by (simp del: tmap.simps)
qed

section \<open>Removing the value of a node\<close>

definition hangs ::
  "(node_id \<Rightarrow> 'v node option) \<Rightarrow> (node_id \<times> bool) list \<Rightarrow> 'v parent \<Rightarrow> 'v ptree \<Rightarrow> nat \<Rightarrow> bool" where
  "hangs h path par t w \<longleftrightarrow>
     (case par of
        None \<Rightarrow> path = []
      | Some (g, gb, gn) \<Rightarrow> path \<noteq> [] \<and> last path = (g, gb) \<and> h g = Some gn \<and> child_at gn gb = root_id t \<and>
          g \<notin> ids t \<and> tinv t (w + length (edge t)) \<and> w + length (edge t) \<le> 128 \<and>
          (\<forall>i. root_id t = Some i \<longrightarrow> 2 \<le> i))"

lemma children_pair: "n_children n = (child_at n False, child_at n True)"
  by (simp add: child_at_def)

lemma only_child: "ch (\<not> b) = PE \<Longrightarrow> ch = (\<lambda>_. PE)(b := ch b)"
  by (auto simp: fun_eq_iff)

lemma reps_drop_value:
  assumes "reps h (PT i e v ch)" "disjoint_ids (PT i e v ch)" "h i = Some n" "h' = h(i \<mapsto> n\<lparr>n_value := v'\<rparr>)"
  shows "reps h' (PT i e v' ch)"
proof -
  have "reps h' (ch b)" for b
  proof (rule reps_frame [of h])
    show "reps h (ch b)" using assms(1) by simp
    fix j assume "j \<in> ids (ch b)"
    then have "j \<noteq> i" using assms(2) by auto
    then show "h' j = h j" by (simp add: assms(4))
  qed
  then show ?thesis using assms by auto
qed

lemma finish_keeps_node:
  assumes p: "pool_wf p" "reps (pool_get p) (PT i e v ch)" "disjoint_ids (PT i e v ch)" "cinv (PT i e v ch) w"
    and par: "hangs (pool_get p) path par (PT i e v ch) w" and keep: "path \<noteq> [] \<Longrightarrow> \<forall>b. ch b \<noteq> PE"
  shows "\<exists>res. remove_finish p path i = Some res \<and> remove_post p par (PT i e v ch) [] w res"
proof -
  obtain n where n: "pool_get p i = Some n" "n_value n = v" "\<And>b. child_at n b = root_id (ch b)" using p(2) by auto
  show ?thesis
  proof (cases v)
    case None
    then show ?thesis using n by (simp add: remove_finish_def remove_post_def)
  next
    case (Some x)
    obtain p' where p': "pool_set p i (n\<lparr>n_value := None\<rparr>) = Some p'"
      "updated p p' ((pool_get p)(i \<mapsto> n\<lparr>n_value := None\<rparr>))"
      using pool_set_updated [OF p(1), of i] n(1) by auto
    note u = updatedD [OF p'(2)]
    have run: "remove_finish p path i = Some (Some x, p')"
      using n Some p'(1) keep
      by (cases "path = []"; cases "ch False"; cases "ch True")
        (auto simp: remove_finish_def children_pair split: prod.splits)
    let ?t = "PT i e None ch"
    have g: "gn = set_child gn gb (Some i) \<and> g \<noteq> i \<and> pool_get p g = Some gn" if "par = Some (g, gb, gn)" for g gb gn
      using that par by (auto simp: hangs_def set_child_same)
    have "shrinks (pool_get p) (pool_get p') par (PT i e v ch) ?t"
      unfolding shrinks_def
      using reps_drop_value [OF p(2,3) n(1) u(2)] p(3) g u(2) by auto
    moreover have "removed par (PT i e v ch) ?t [] w"
    proof (cases par)
      case None
      then show ?thesis using p(4) cmap_update_value [of i e None ch i e v] by (simp add: removed_def)
    next
      case s: (Some q)
      then have "path \<noteq> []" "tinv (PT i e v ch) (w + length e)" using par by (auto simp: hangs_def split: prod.splits)
      moreover have "tmap ?t = (tmap (PT i e v ch))(e := None)"
        by (rule tmap_update) (use cmap_update_value [of i e None ch i e v] in simp_all)
      ultimately show ?thesis using keep s by (simp add: removed_def del: tmap.simps)
    qed
    ultimately show ?thesis using run Some u unfolding remove_post_def by auto
  qed
qed

lemma finish_merges_node:
  assumes p: "pool_wf p" "reps (pool_get p) (PT i e v ch)" "disjoint_ids (PT i e v ch)" "cinv (PT i e v ch) w"
    and par: "hangs (pool_get p) path (Some (g, gb, gn)) (PT i e v ch) w"
    and c: "ch b = PT ci ce cv cch" "ch (\<not> b) = PE"
  shows "\<exists>res. remove_finish p path i = Some res \<and> remove_post p (Some (g, gb, gn)) (PT i e v ch) [] w res"
proof -
  obtain n where n: "pool_get p i = Some n" "n_value n = v" "\<And>b. child_at n b = root_id (ch b)" using p(2) by auto
  show ?thesis
  proof (cases v)
    case None
    then show ?thesis using n by (simp add: remove_finish_def remove_post_def)
  next
    case (Some x)
    let ?n = "n\<lparr>n_value := None\<rparr>"
    obtain p1 where p1: "pool_set p i ?n = Some p1" "updated p p1 ((pool_get p)(i \<mapsto> ?n))"
      using pool_set_updated [OF p(1), of i] n(1) by auto
    note u1 = updatedD [OF p1(2)]
    have g: "path \<noteq> []" "last path = (g, gb)" "pool_get p g = Some gn" "g \<notin> ids (PT i e v ch)"
      "tinv (PT i e v ch) (w + length e)" "w + length e \<le> 128" "2 \<le> i"
      using par by (auto simp: hangs_def)
    have ch: "ch = (\<lambda>_. PE)(b := PT ci ce cv cch)" using only_child [of ch b, OF c(2)] c(1) by simp
    have t1: "reps (pool_get p1) (PT i e None ch)" "disjoint_ids (PT i e None ch)"
      using reps_drop_value [OF p(2,3) n(1) u1(2)] p(3) by simp_all
    have tc: "tinv (PT ci ce cv cch) w" "starts_with b (PT ci ce cv cch)" using p(4) c(1) by (metis cinv.simps(2))+
    have "reps (pool_get p1) (PT ci ce cv cch)" using t1(1) c(1) by (metis reps.simps(2))
    then obtain cn where cn: "pool_get p1 ci = Some cn" by auto
    have ne: "ci \<noteq> i" "ci \<noteq> g" "g \<noteq> i" using p(3) c(1) g(4) by (auto dest!: spec [of _ b])
    obtain p2 where p2: "merge_into_child p1 g gb i ci = Some p2"
      "updated p1 p2 ((pool_get p1)(ci \<mapsto> merged_node ?n cn, g \<mapsto> set_child gn gb (Some ci), i := None))"
      using merge_into_child_updated [OF u1(1), of g gn i ?n ci cn gb] u1 g cn ne by auto
    note u2 = updatedD [OF p2(2)]
    have run: "remove_finish p path i = Some (Some x, p2)"
      using n Some p1(1) p2(1) g(1,2) c by (cases b) (auto simp: remove_finish_def children_pair)
    let ?t = "PT ci (e @ ce) cv cch"
    have e: "e \<noteq> []" using g(5) by simp
    have gi: "g \<notin> ids (PT i e None ch)" using g(4) by simp
    have i1: "pool_get p1 i = Some ?n" by (simp add: u1)
    note m = merge_step [OF t1 [unfolded ch] tc e g(6) i1 cn gi [unfolded ch] u2(2)]
    have idt: "ids (PT i e v ch) = insert i (ids ?t)" using m(5) ch by (metis ids.simps(2))
    have "shrinks (pool_get p) (pool_get p2) (Some (g, gb, gn)) (PT i e v ch) ?t"
      unfolding shrinks_def idt using m(1,2,6) u1 u2 ne by auto
    moreover have "tmap ?t = (tmap (PT i e v ch))(e := None)"
      unfolding m(4) by (subst ch [symmetric], rule tmap_update) (use cmap_update_value [of i e None ch i e v] in simp_all)
    then have "removed (Some (g, gb, gn)) (PT i e v ch) ?t [] w"
      using m(3) e by (auto simp: removed_def simp del: tmap.simps tinv.simps)
    ultimately show ?thesis using run Some u1 u2 unfolding remove_post_def by auto
  qed
qed

section \<open>Removing a leaf\<close>

text \<open>The pool after unlinking and releasing a leaf below a node.\<close>

lemma unlink_leaf:
  assumes "pool_wf p" "reps (pool_get p) (PT i e v ch)" "disjoint_ids (PT i e v ch)" "pool_get p i = Some n"
    and c: "ch b = PT ci ce cv (\<lambda>_. PE)" "pool_get p ci = Some cn" "2 \<le> ci"
  shows "\<exists>p1 p2 p3. pool_set p ci (cn\<lparr>n_value := None\<rparr>) = Some p1 \<and> link_child p1 i b None = Some p2 \<and>
    pool_release p2 ci = Some p3 \<and> updated p p3 ((pool_get p)(i \<mapsto> set_child n b None, ci := None)) \<and>
    reps (pool_get p3) (PT i e v (ch(b := PE)))"
proof -
  have ne: "ci \<noteq> i" using assms(3) c(1) by (auto dest!: spec [of _ b])
  obtain p1 where 1: "pool_set p ci (cn\<lparr>n_value := None\<rparr>) = Some p1" "updated p p1 ((pool_get p)(ci \<mapsto> cn\<lparr>n_value := None\<rparr>))"
    using pool_set_updated [OF assms(1), of ci] c(2) by auto
  note u1 = updatedD [OF 1(2)]
  obtain p2 where 2: "link_child p1 i b None = Some p2" "updated p1 p2 ((pool_get p1)(i \<mapsto> set_child n b None))"
    using link_child_updated [OF u1(1), of i n b None] u1 ne assms(4) by auto
  note u2 = updatedD [OF 2(2)]
  obtain p3 where 3: "pool_release p2 ci = Some p3" "updated p2 p3 ((pool_get p2)(ci := None))"
    using pool_release_updated [OF u2(1) c(3)] u1 u2 ne by auto
  note u3 = updatedD [OF 3(2)]
  have h3: "pool_get p3 = (pool_get p)(i \<mapsto> set_child n b None, ci := None)"
    using u1 u2 u3 ne by (simp add: fun_upd_twist)
  have "reps (pool_get p3) (ch (\<not> b))"
  proof (rule reps_frame [of "pool_get p"])
    show "reps (pool_get p) (ch (\<not> b))" using assms(2) by simp
    fix j assume j: "j \<in> ids (ch (\<not> b))"
    have "j \<noteq> i" using j assms(3) by auto
    moreover have "j \<noteq> ci" using j assms(3) c(1) by (cases b) auto
    ultimately show "pool_get p3 j = pool_get p j" by (simp add: h3)
  qed
  then have "reps (pool_get p3) (PT i e v (ch(b := PE)))"
    using assms(2,4) ne by (auto simp: h3 child_at_set_child)
  moreover have "updated p p3 ((pool_get p)(i \<mapsto> set_child n b None, ci := None))"
    using updated_trans [OF updated_trans [OF 1(2) 2(2)] 3(2)] h3 u3(2) by simp
  ultimately show ?thesis using 1(1) 2(1) 3(1) by blast
qed

lemma tmap_leaf: "tmap (PT i e v (\<lambda>_. PE)) = (\<lambda>k. if k = e then v else None)"
  by (auto simp: fun_eq_iff tmap_PT neq_Nil_conv split: list.splits)

lemma cmap_drop_leaf:
  assumes "ch b = PT ci ce cv (\<lambda>_. PE)" "ce \<noteq> []" "hd ce = b"
  shows "cmap (PT i e v (ch(b := PE))) = (cmap (PT i e v ch))(ce := None)"
  using assms by (intro cmap_update_child) (auto simp: fun_eq_iff tmap_leaf simp del: tmap.simps(2))

lemma disjoint_drop: "disjoint_ids (PT i e v ch) \<Longrightarrow> disjoint_ids (PT i e v (ch(b := PE)))"
  by (cases b) auto

lemma ids_drop_leaf:
  assumes "ch b = PT ci ce cv (\<lambda>_. PE)" "disjoint_ids (PT i e v ch)"
  shows "ids (PT i e v ch) = insert ci (ids (PT i e v (ch(b := PE))))" "ci \<notin> ids (PT i e v (ch(b := PE)))"
proof -
  have "ids (ch b) = {ci}" using assms(1) by simp
  then show "ids (PT i e v ch) = insert ci (ids (PT i e v (ch(b := PE))))"
    using ids_children [of i e v ch b] ids_update [of i e v ch b PE]
    by (simp add: insert_commute del: ids.simps(2))
  have "ids (ch b) \<inter> ids (ch (\<not> b)) = {}" using assms(2) by (cases b) (simp_all add: Int_commute)
  moreover have "ci \<noteq> i" using assms(2) \<open>ids (ch b) = {ci}\<close> by (metis disjoint_ids.simps(2) singletonI)
  ultimately have "ci \<noteq> i" "ci \<notin> ids (ch (\<not> b))" using \<open>ids (ch b) = {ci}\<close> by blast+
  then show "ci \<notin> ids (PT i e v (ch(b := PE)))" using ids_update [of i e v ch b PE] by simp
qed

lemma finish_leaf_stays:
  assumes p: "pool_wf p" "reps (pool_get p) (PT i e v ch)" "disjoint_ids (PT i e v ch)" "cinv (PT i e v ch) w"
    and par: "hangs (pool_get p) path par (PT i e v ch) w"
    and c: "ch b = PT ci ce (Some x) (\<lambda>_. PE)" "2 \<le> ci" and stay: "path = [] \<or> v \<noteq> None"
  shows "\<exists>res. remove_finish p (path @ [(i, b)]) ci = Some res \<and> remove_post p par (PT i e v ch) ce w res"
proof -
  obtain n where n: "pool_get p i = Some n" "n_value n = v" "\<And>b. child_at n b = root_id (ch b)" using p(2) by auto
  have "reps (pool_get p) (PT ci ce (Some x) (\<lambda>_. PE))" using p(2) c(1) by (metis reps.simps(2))
  then obtain cn where cn: "pool_get p ci = Some cn" "n_value cn = Some x" "\<And>b. child_at cn b = None" by auto
  obtain p1 p2 p3 where run: "pool_set p ci (cn\<lparr>n_value := None\<rparr>) = Some p1" "link_child p1 i b None = Some p2"
      "pool_release p2 ci = Some p3" and u: "updated p p3 ((pool_get p)(i \<mapsto> set_child n b None, ci := None))"
    and rep: "reps (pool_get p3) (PT i e v (ch(b := PE)))"
    using unlink_leaf [OF p(1-3) n(1) c(1) cn(1) c(2)] by blast
  note u3 = updatedD [OF u]
  have ce: "ce \<noteq> []" "hd ce = b" using p(4) c(1) by (metis cinv.simps(2) starts_with.simps(2))+
  have cm: "cmap (PT i e v ch) ce = Some x"
    using ce c(1) by (cases ce) (auto simp: tmap_leaf simp del: tmap.simps)
  have "ci \<noteq> i" using p(3) c(1) by (auto dest!: spec [of _ b])
  then have "pool_get p3 i = Some (set_child n b None)" by (simp add: u3)
  then have "remove_leaf_fixup p3 (path @ [(i, b)]) i = Some p3"
    using stay n(2) by (auto simp: remove_leaf_fixup_def split: prod.splits)
  then have fin: "remove_finish p (path @ [(i, b)]) ci = Some (Some x, p3)"
    using cn run by (simp add: remove_finish_def children_pair)
  let ?t = "PT i e v (ch(b := PE))"
  note idt = ids_drop_leaf [of ch b, OF c(1) p(3)]
  have g: "gn = set_child gn gb (Some i) \<and> g \<noteq> i \<and> g \<noteq> ci \<and> pool_get p g = Some gn" if "par = Some (g, gb, gn)" for g gb gn
    using that par idt(1) by (auto simp: hangs_def set_child_same)
  have "shrinks (pool_get p) (pool_get p3) par (PT i e v ch) ?t"
    unfolding shrinks_def idt(1)
    using rep disjoint_drop [OF p(3)] g by (auto simp: u3(2) simp del: disjoint_ids.simps reps.simps)
  moreover have "removed par (PT i e v ch) ?t ce w"
  proof (cases par)
    case None
    then show ?thesis using p(4) cmap_drop_leaf [of ch b, OF c(1) ce, of i e v] by (auto simp: removed_def)
  next
    case (Some q)
    have t: "v \<noteq> None" "tinv (PT i e v ch) (w + length e)"
      using Some par stay by (auto simp: hangs_def split: prod.splits)
    have "tmap ?t = (tmap (PT i e v ch))(e @ ce := None)"
      by (rule tmap_update) (use cmap_drop_leaf [of ch b, OF c(1) ce, of i e v] in simp_all)
    with t Some show ?thesis by (simp add: removed_def del: tmap.simps)
  qed
  ultimately show ?thesis using fin cm u3 unfolding remove_post_def by auto
qed

lemma finish_leaf_merges:
  assumes p: "pool_wf p" "reps (pool_get p) (PT i e None ch)" "disjoint_ids (PT i e None ch)" "cinv (PT i e None ch) w"
    and par: "hangs (pool_get p) path (Some (g, gb, gn)) (PT i e None ch) w"
    and c: "ch b = PT ci ce (Some x) (\<lambda>_. PE)" "2 \<le> ci"
  shows "\<exists>res. remove_finish p (path @ [(i, b)]) ci = Some res \<and>
    remove_post p (Some (g, gb, gn)) (PT i e None ch) ce w res"
proof -
  obtain n where n: "pool_get p i = Some n" "n_value n = None" "\<And>b. child_at n b = root_id (ch b)" using p(2) by auto
  have "reps (pool_get p) (PT ci ce (Some x) (\<lambda>_. PE))" using p(2) c(1) by (metis reps.simps(2))
  then obtain cn where cn: "pool_get p ci = Some cn" "n_value cn = Some x" "\<And>b. child_at cn b = None" by auto
  obtain p1 p2 p3 where run: "pool_set p ci (cn\<lparr>n_value := None\<rparr>) = Some p1" "link_child p1 i b None = Some p2"
      "pool_release p2 ci = Some p3" and u: "updated p p3 ((pool_get p)(i \<mapsto> set_child n b None, ci := None))"
    and rep: "reps (pool_get p3) (PT i e None (ch(b := PE)))"
    using unlink_leaf [OF p(1-3) n(1) c(1) cn(1) c(2)] by blast
  note u3 = updatedD [OF u]
  have g: "path \<noteq> []" "last path = (g, gb)" "pool_get p g = Some gn" "g \<notin> ids (PT i e None ch)"
    "tinv (PT i e None ch) (w + length e)" "w + length e \<le> 128" "2 \<le> i"
    using par by (auto simp: hangs_def)
  have ce: "ce \<noteq> []" "hd ce = b" using p(4) c(1) by (metis cinv.simps(2) starts_with.simps(2))+
  have cm: "cmap (PT i e None ch) ce = Some x"
    using ce c(1) by (cases ce) (auto simp: tmap_leaf simp del: tmap.simps)
  note idt = ids_drop_leaf [of ch b, OF c(1) p(3)]
  obtain oi oe ov och where o: "ch (\<not> b) = PT oi oe ov och" using g(5) by (metis ptree.exhaust tinv.simps(2))
  have chb: "ch(b := PE) = (\<lambda>_. PE)((\<not> b) := PT oi oe ov och)" using o by (auto simp: fun_eq_iff)
  have dis: "disjoint_ids (PT i e None (ch(b := PE)))" by (rule disjoint_drop [OF p(3)])
  have to: "tinv (PT oi oe ov och) w" "starts_with (\<not> b) (PT oi oe ov och)" using p(4) o by (metis cinv.simps(2))+
  have "oi \<in> ids (PT i e None (ch(b := PE)))" unfolding chb by (simp add: ids_update del: ids.simps(2)) simp
  then have ne: "ci \<noteq> i" "g \<noteq> i" "g \<noteq> ci" "g \<noteq> oi" "oi \<noteq> i" "oi \<noteq> ci"
    using idt g(4) p(3) o by (auto dest!: spec [of _ "\<not> b"])
  let ?n = "set_child n b None"
  have i3: "pool_get p3 i = Some ?n" using ne by (simp add: u3)
  have "reps (pool_get p3) (PT oi oe ov och)" using rep unfolding chb by (auto dest!: spec [of _ "\<not> b"])
  then obtain on where on: "pool_get p3 oi = Some on" by auto
  have g3: "pool_get p3 g = Some gn" using g(3) ne by (simp add: u3)
  obtain p4 where p4: "merge_into_child p3 g gb i oi = Some p4"
    "updated p3 p4 ((pool_get p3)(oi \<mapsto> merged_node ?n on, g \<mapsto> set_child gn gb (Some oi), i := None))"
    using merge_into_child_updated [OF u3(1) g3 i3 on] ne g(7) by auto
  note u4 = updatedD [OF p4(2)]
  have "n_children ?n = (if b then (Some oi, None) else (None, Some oi))"
    using n(3) o by (cases b) (auto simp: children_pair child_at_set_child)
  moreover have "(path @ [(i, b)]) ! (length path - 1) = (g, gb)"
    using g(1,2) by (simp add: nth_append last_conv_nth)
  ultimately have "remove_leaf_fixup p3 (path @ [(i, b)]) i = Some p4"
    using g(1) i3 n(2) p4(1) by (cases b) (auto simp: remove_leaf_fixup_def Suc_le_eq)
  then have fin: "remove_finish p (path @ [(i, b)]) ci = Some (Some x, p4)"
    using cn run by (simp add: remove_finish_def children_pair)
  have e: "e \<noteq> []" using g(5) by simp
  have gi: "g \<notin> ids (PT i e None (ch(b := PE)))" using g(4) idt(1) by blast
  note m = merge_step [OF rep [unfolded chb] dis [unfolded chb] to e g(6) i3 on gi [unfolded chb] u4(2)]
  let ?t = "PT oi (e @ oe) ov och"
  have idt': "ids (PT i e None ch) = insert ci (insert i (ids ?t))" using idt(1) m(5) unfolding chb by simp
  have cit: "ci \<notin> ids ?t" using idt(2) m(5) unfolding chb by blast
  have "shrinks (pool_get p) (pool_get p4) (Some (g, gb, gn)) (PT i e None ch) ?t"
    unfolding shrinks_def idt' using m(1,2,6) u3(2) u4(2) ne cit
    by (auto simp del: reps.simps disjoint_ids.simps ids.simps) simp_all
  moreover have "tmap ?t = (tmap (PT i e None ch))(e @ ce := None)"
    unfolding m(4) chb [symmetric]
    by (rule tmap_update) (use cmap_drop_leaf [of ch b, OF c(1) ce, of i e None] in simp_all)
  then have "removed (Some (g, gb, gn)) (PT i e None ch) ?t ce w"
    using m(3) e by (auto simp: removed_def simp del: tmap.simps tinv.simps)
  ultimately show ?thesis using fin cm u3 u4 unfolding remove_post_def by auto
qed

section \<open>The removal loop\<close>

lemma remove_post_child:
  assumes t: "reps (pool_get p) (PT i e v ch)" "disjoint_ids (PT i e v ch)" "cinv (PT i e v ch) w"
    and par: "hangs (pool_get p) path par (PT i e v ch) w"
    and n: "pool_get p i = Some n" and c: "ch b = PT ci ce cv cch" and k: "k = ce @ k'"
    and post: "remove_post p (Some (i, b, n)) (ch b) k' (w - length ce) res"
  shows "remove_post p par (PT i e v ch) k w res"
proof -
  have tc: "tinv (ch b) w" "starts_with b (ch b)" using t(3) by auto
  then have ce: "ce \<noteq> []" "hd ce = b" "length ce \<le> w" using c by simp_all
  then have k1: "k \<noteq> []" "hd k = b" using k by simp_all
  then have km: "k = b # tl k" by (cases k) simp_all
  have "tmap (ch b) k = cmap (ch b) k'" by (simp add: c k del: tmap.simps)
  then have eq: "cmap (PT i e v ch) k = cmap (ch b) k'" using km by (metis cmap.simps(3))
  show ?thesis
  proof (cases "cmap (ch b) k' = None")
    case True
    with eq post show ?thesis by (simp add: remove_post_def)
  next
    case False
    with post obtain p' c' where p': "res = (cmap (ch b) k', p')" "pool_wf p'" "pool_cap p' = pool_cap p"
      and sh: "shrinks (pool_get p) (pool_get p') (Some (i, b, n)) (ch b) c'"
      and rm: "removed (Some (i, b, n)) (ch b) c' k' (w - length ce)" by (auto simp: remove_post_def)
    let ?t = "PT i e v (ch(b := c'))"
    from sh have c': "reps (pool_get p') c'" "disjoint_ids c'" "ids c' \<subseteq> ids (ch b)"
      and freed: "\<And>j. j \<in> ids (ch b) \<Longrightarrow> j \<notin> ids c' \<Longrightarrow> pool_get p' j = None"
      and out: "\<And>j. j \<notin> ids (ch b) \<Longrightarrow> j \<noteq> i \<Longrightarrow> pool_get p' j = pool_get p j"
      and i': "pool_get p' i = Some (set_child n b (root_id c'))" by (auto simp: shrinks_def)
    from rm have r: "c' \<noteq> PE" "tinv c' w" "starts_with b c'" "tmap c' = (tmap (ch b))(k := None)"
      using tc(2) ce(3) by (auto simp: removed_def c k)
    have sib: "ids (ch b) \<inter> ids (ch (\<not> b)) = {}" "i \<notin> ids (ch b)" "i \<notin> ids (ch (\<not> b))"
      using t(2) by (cases b; simp add: Int_commute)+
    have "reps (pool_get p') (ch (\<not> b))"
    proof (rule reps_frame)
      show "reps (pool_get p) (ch (\<not> b))" using t(1) by simp
      fix j assume "j \<in> ids (ch (\<not> b))"
      with sib show "pool_get p' j = pool_get p j" by (intro out) auto
    qed
    then have rep: "reps (pool_get p') ?t" using t(1) n i' c'(1) by (auto simp: child_at_set_child)
    have dis: "disjoint_ids ?t"
      using t(2) c'(2,3) sib by (cases b) (auto simp: Int_commute dest: subsetD)
    have idt: "ids ?t = insert i (ids c' \<union> ids (ch (\<not> b)))" "ids (PT i e v ch) = insert i (ids (ch b) \<union> ids (ch (\<not> b)))"
      by (rule ids_update, rule ids_children)
    have "gn = set_child gn gb (Some i) \<and> g \<noteq> i \<and> g \<notin> ids (ch b) \<and> pool_get p g = Some gn" if "par = Some (g, gb, gn)" for g gb gn
      using that par unfolding hangs_def idt(2) by (auto simp: set_child_same)
    then have g: "pool_get p' g = Some (set_child gn gb (Some i))" if "par = Some (g, gb, gn)" for g gb gn
      using that out by metis
    have "shrinks (pool_get p) (pool_get p') par (PT i e v ch) ?t"
      unfolding shrinks_def idt using rep dis c'(3) freed out g sib by auto
    moreover have cm: "cmap ?t = (cmap (PT i e v ch))(k := None)" using k1 r(4) by (rule cmap_update_child)
    have "removed par (PT i e v ch) ?t k w"
    proof (cases par)
      case None
      then show ?thesis using t(3) r cm by (auto simp: removed_def)
    next
      case (Some q)
      then have "tinv (PT i e v ch) (w + length e)" using par by (auto simp: hangs_def split: prod.splits)
      moreover have "tmap ?t = (tmap (PT i e v ch))(e @ k := None)" by (rule tmap_update) (use cm in simp_all)
      ultimately show ?thesis using Some r by (auto simp: removed_def simp del: tmap.simps)
    qed
    ultimately show ?thesis using p' eq False unfolding remove_post_def by auto
  qed
qed

lemma finish_correct:
  assumes p: "pool_wf p" "reps (pool_get p) (PT i e v ch)" "disjoint_ids (PT i e v ch)" "cinv (PT i e v ch) w"
    and par: "hangs (pool_get p) path par (PT i e v ch) w"
    and leaf: "path \<noteq> [] \<Longrightarrow> \<not> is_leaf (PT i e v ch)"
  shows "\<exists>res. remove_finish p path i = Some res \<and> remove_post p par (PT i e v ch) [] w res"
proof (cases "path = [] \<or> (\<forall>b. ch b \<noteq> PE)")
  case True
  then show ?thesis by (intro finish_keeps_node [OF p par]) auto
next
  case False
  then obtain b0 where "ch b0 = PE" and path: "path \<noteq> []" by auto
  then obtain b where b: "ch (\<not> b) = PE" "path \<noteq> []" by (cases b0) (auto intro: that [of "\<not> b0"])
  have "ch b \<noteq> PE"
  proof
    assume "ch b = PE"
    with b have "ch x = PE" for x by (cases "x = b") auto
    then have "ch = (\<lambda>_. PE)" by blast
    with leaf b(2) show False by (auto simp: is_leaf_def)
  qed
  then obtain ci ce cv cch where "ch b = PT ci ce cv cch" by (cases "ch b") auto
  moreover obtain g gb gn where "par = Some (g, gb, gn)" using par b(2) by (cases par) (auto simp: hangs_def)
  ultimately show ?thesis using finish_merges_node [OF p, of path g gb gn b] par b(1) by blast
qed

lemma finish_leaf_correct:
  assumes p: "pool_wf p" "reps (pool_get p) (PT i e v ch)" "disjoint_ids (PT i e v ch)" "cinv (PT i e v ch) w"
    and par: "hangs (pool_get p) path par (PT i e v ch) w"
    and c: "ch b = PT ci ce cv (\<lambda>_. PE)" "2 \<le> ci"
  shows "\<exists>res. remove_finish p (path @ [(i, b)]) ci = Some res \<and> remove_post p par (PT i e v ch) ce w res"
proof -
  have "tinv (ch b) w" using p(4) by simp
  then obtain x where x: "cv = Some x" using c(1) by auto
  show ?thesis
  proof (cases "path = [] \<or> v \<noteq> None")
    case True
    then show ?thesis using finish_leaf_stays [OF p par] c x by blast
  next
    case False
    then obtain g gb gn where "par = Some (g, gb, gn)" using par by (cases par) (auto simp: hangs_def)
    moreover have "v = None" using False by simp
    ultimately show ?thesis
      using finish_leaf_merges [of p i e ch w path g gb gn b ci ce x] p par c x by (simp only:)
  qed
qed

lemma remove_loop_correct:
  "pool_wf p \<Longrightarrow> reps (pool_get p) t \<Longrightarrow> root_id t = Some node \<Longrightarrow> disjoint_ids t \<Longrightarrow> cinv t w \<Longrightarrow>
     klen \<le> 128 \<Longrightarrow> pos \<le> klen \<Longrightarrow> w \<le> 128 \<Longrightarrow> hangs (pool_get p) path par t w \<Longrightarrow>
     length path + (klen - pos) \<le> 128 \<Longrightarrow> (\<forall>j\<in>ids t. j \<noteq> node \<longrightarrow> 2 \<le> j) \<Longrightarrow>
     (path \<noteq> [] \<and> pos = klen \<Longrightarrow> \<not> is_leaf t) \<Longrightarrow>
     \<exists>res. remove_loop p key klen path node pos = Some res \<and> remove_post p par t (key_bits key pos klen) w res"
proof (induction t arbitrary: node w pos path par)
  case (PT i e v ch)
  then have [simp]: "node = i" by simp
  from PT.prems obtain n where n: "pool_get p i = Some n" "\<And>b. child_at n b = root_id (ch b)" by auto
  show ?case
  proof (cases "pos = klen")
    case True
    then have "remove_loop p key klen path node pos = remove_finish p path i" by (subst remove_loop.simps) simp
    with finish_correct [OF PT.prems(1,2,4,5,9)] PT.prems(12) True show ?thesis by simp
  next
    case False
    then have pos: "pos < klen" using PT.prems(7) by simp
    let ?b = "key_bit key pos" and ?K = "key_bits key pos klen"
    have K: "?K = ?b # key_bits key (Suc pos) klen" using pos PT.prems by (intro key_bits_Cons) auto
    have cm: "cmap (PT i e v ch) ?K = tmap (ch ?b) ?K" by (simp add: K del: tmap.simps)
    show ?thesis
    proof (cases "ch ?b")
      case PE
      with n pos have "remove_loop p key klen path node pos = Some (None, p)" by (subst remove_loop.simps) simp
      with cm PE show ?thesis by (simp add: remove_post_def)
    next
      case c: (PT ci ce cv cch)
      have rc: "reps (pool_get p) (ch ?b)" "disjoint_ids (ch ?b)" "tinv (ch ?b) w" "starts_with ?b (ch ?b)" "i \<notin> ids (ch ?b)"
        using PT.prems(2,4,5) by simp_all
      then obtain cn where cn: "pool_get p ci = Some cn" "encodes cn ce" using c by auto
      have ce: "ce \<noteq> []" "length ce \<le> w" using rc(3) c by simp_all
      have "ids (ch ?b) \<subseteq> ids (PT i e v ch)" by auto
      then have high: "\<forall>j\<in>ids (ch ?b). 2 \<le> j" using PT.prems(11) rc(5) by (metis \<open>node = i\<close> subsetD)
      have ci: "ci \<in> ids (ch ?b)" by (simp add: c)
      have short: "length path < 128" using PT.prems(10) pos by linarith
      have step: "remove_loop p key klen path node pos =
        (if prefix ce ?K then remove_loop p key klen (path @ [(i, ?b)]) ci (pos + length ce) else Some (None, p))"
        using pos short n c cn edge_match_eq [OF cn PT.prems(6), of key pos]
        by (subst remove_loop.simps) simp
      show ?thesis
      proof (cases "prefix ce ?K")
        case False
        with step cm c show ?thesis by (simp add: remove_post_def tmap_no_prefix del: tmap.simps)
      next
        case pre: True
        then obtain K' where K': "?K = ce @ K'" by (auto simp: prefix_def)
        then have K'eq: "K' = key_bits key (pos + length ce) klen" by (metis append_eq_conv_conj drop_key_bits)
        have len: "length ce \<le> klen - pos" using pre prefix_length_le by fastforce
        show ?thesis
        proof (cases "pos + length ce = klen \<and> is_leaf (ch ?b)")
          case True
          then have leaf: "cch = (\<lambda>_. PE)" "K' = []" using c K'eq by (auto simp: is_leaf_def)
          have "remove_loop p key klen (path @ [(i, ?b)]) ci (pos + length ce) = remove_finish p (path @ [(i, ?b)]) ci"
            using True by (subst remove_loop.simps) simp
          with finish_leaf_correct [OF PT.prems(1,2,4,5,9), of ?b ci ce cv] c leaf high ci step pre K' show ?thesis by simp
        next
          case False
          have "\<exists>res. remove_loop p key klen (path @ [(i, ?b)]) ci (pos + length ce) = Some res \<and>
            remove_post p (Some (i, ?b, n)) (ch ?b) (key_bits key (pos + length ce) klen) (w - length ce) res"
          proof (rule PT.IH [OF rangeI PT.prems(1) rc(1) _ rc(2)])
            show "root_id (ch ?b) = Some ci" by (simp add: c)
            show "cinv (ch ?b) (w - length ce)" using rc(3) c tinv_cinv by metis
            show "hangs (pool_get p) (path @ [(i, ?b)]) (Some (i, ?b, n)) (ch ?b) (w - length ce)"
              using n rc high ci ce(2) PT.prems(8) by (simp add: hangs_def c)
            show "length (path @ [(i, ?b)]) + (klen - (pos + length ce)) \<le> 128"
              using PT.prems(10) len ce(1) by (cases ce) auto
          qed (use PT.prems(6,8) len pos high False in auto)
          then obtain res where "remove_loop p key klen (path @ [(i, ?b)]) ci (pos + length ce) = Some res"
            "remove_post p (Some (i, ?b, n)) (ch ?b) K' (w - length ce) res" by (auto simp: K'eq)
          with remove_post_child [OF PT.prems(2,4,5,9) n(1) c K'] step pre show ?thesis by simp
        qed
      qed
    qed
  qed
qed simp

end
