(* ===== verification/Lpm_Table.thy ===== *)
theory Lpm_Table
  imports Trie_Removal
begin

text \<open>
  The prefix trie as a longest-prefix-match table. \<open>trie_rel\<close> relates a trie to the finite map
  from prefixes to values it stands for; every operation refines the map operation, insertion cannot
  run out of nodes before \<open>MAX_PREFIXES\<close> prefixes are stored, and lookup is longest-prefix match.
  The locale \<open>lpm_table\<close> is the interface the route cache uses.
\<close>

section \<open>The trie as a longest-prefix table\<close>

text \<open>
  A prefix is an address family and a bit string. A trie represents a finite map from prefixes to
  values when two disjoint trees, one under each root, together occupy exactly the live nodes of the
  pool and read as that map.
\<close>

type_synonym prefix_key = "bool \<times> bool list"

definition cidr_key :: "ip_cidr \<Rightarrow> prefix_key" where
  "cidr_key net =
     (is_ipv4 (first_address net), key_bits (fst (addr_key (first_address net))) 0 (network_length net))"

definition addr_bits :: "ip_addr \<Rightarrow> bool list" where
  "addr_bits a = key_bits (fst (addr_key a)) 0 (fst (snd (addr_key a)))"

definition family_width :: "bool \<Rightarrow> nat" where
  "family_width v4 = (if v4 then 32 else 128)"

definition cidr_ok :: "ip_cidr \<Rightarrow> bool" where
  "cidr_ok net \<longleftrightarrow> network_length net \<le> family_width (is_ipv4 (first_address net))"

definition family_root :: "bool \<Rightarrow> node_id" where
  "family_root v4 = (if v4 then V4_ROOT else V6_ROOT)"

definition family_tree :: "(node_id \<Rightarrow> 'v node option) \<Rightarrow> bool \<Rightarrow> 'v ptree \<Rightarrow> bool" where
  "family_tree h v4 t \<longleftrightarrow> reps h t \<and> disjoint_ids t \<and> cinv t (family_width v4) \<and> root_id t = Some (family_root v4) \<and>
     edge t = [] \<and> (\<forall>j\<in>ids t. j \<noteq> family_root v4 \<longrightarrow> 2 \<le> j)"

definition forest :: "'v prefix_trie \<Rightarrow> (bool \<Rightarrow> 'v ptree) \<Rightarrow> bool" where
  "forest p ts \<longleftrightarrow> pool_wf p \<and> (\<forall>v4. family_tree (pool_get p) v4 (ts v4)) \<and>
     ids (ts True) \<inter> ids (ts False) = {} \<and> dom (pool_get p) = ids (ts True) \<union> ids (ts False)"

definition trie_rel :: "usize \<Rightarrow> 'v prefix_trie \<Rightarrow> (prefix_key \<Rightarrow> 'v option) \<Rightarrow> bool" where
  "trie_rel cap p m \<longleftrightarrow> pool_cap p = cap \<and> (\<exists>ts. forest p ts \<and> m = (\<lambda>(v4, k). cmap (ts v4) k))"

lemma addr_key_eq:
  "addr_key a = (fst (addr_key a), family_width (is_ipv4 a), family_root (is_ipv4 a))"
  by (cases a) (simp_all add: family_width_def family_root_def)

lemma family_width_le: "family_width v4 \<le> 128"
  by (simp add: family_width_def)

lemma family_root_neq: "family_root v4 \<noteq> family_root (\<not> v4)"
  by (simp add: family_root_def V4_ROOT_def V6_ROOT_def)

lemma family_tree_frame:
  "family_tree h v4 t \<Longrightarrow> (\<And>j. j \<in> ids t \<Longrightarrow> h' j = h j) \<Longrightarrow> family_tree h' v4 t"
  unfolding family_tree_def using reps_frame by blast

lemma forest_update:
  assumes f: "forest p ts" and wf: "pool_wf p'"
    and t: "family_tree (pool_get p') v4 t'"
    and other: "ids t' \<inter> ids (ts (\<not> v4)) = {}"
    and out: "\<And>j. j \<notin> ids t' \<union> ids (ts v4) \<Longrightarrow> pool_get p' j = pool_get p j"
    and dead: "\<And>j. j \<in> ids (ts v4) \<Longrightarrow> j \<notin> ids t' \<Longrightarrow> pool_get p' j = None"
  shows "forest p' (ts(v4 := t'))"
proof -
  have dis: "ids (ts v4) \<inter> ids (ts (\<not> v4)) = {}" using f by (cases v4) (auto simp: forest_def)
  have dom: "dom (pool_get p) = ids (ts v4) \<union> ids (ts (\<not> v4))" using f by (cases v4) (auto simp: forest_def)
  have keep: "pool_get p' j = pool_get p j" if "j \<in> ids (ts (\<not> v4))" for j
    using that other dis by (intro out) auto
  have fam: "family_tree (pool_get p') (\<not> v4) (ts (\<not> v4))"
  proof (rule family_tree_frame)
    show "family_tree (pool_get p) (\<not> v4) (ts (\<not> v4))" using f by (simp add: forest_def)
  qed (rule keep)
  have t'dom: "ids t' \<subseteq> dom (pool_get p')" using t reps_dom by (auto simp: family_tree_def)
  have "dom (pool_get p') = ids t' \<union> ids (ts (\<not> v4))"
  proof
    show "dom (pool_get p') \<subseteq> ids t' \<union> ids (ts (\<not> v4))"
    proof
      fix j assume j: "j \<in> dom (pool_get p')"
      show "j \<in> ids t' \<union> ids (ts (\<not> v4))"
      proof (rule ccontr)
        assume n: "j \<notin> ids t' \<union> ids (ts (\<not> v4))"
        then have "j \<notin> ids (ts v4)" using j dead by (metis UnI1 domIff)
        with n out [of j] dom j show False by (auto simp: domIff)
      qed
    qed
    have "ids (ts (\<not> v4)) \<subseteq> dom (pool_get p')" using reps_dom fam by (auto simp: family_tree_def)
    with t'dom show "ids t' \<union> ids (ts (\<not> v4)) \<subseteq> dom (pool_get p')" by blast
  qed
  with wf t fam other show ?thesis unfolding forest_def
    by (cases v4) (auto simp: Int_commute Un_commute)
qed

section \<open>Node count\<close>

primrec stored :: "'v ptree \<Rightarrow> nat" where
  "stored PE = 0"
| "stored (PT i e v ch) = (if v = None then 0 else 1) + (\<Sum>b\<in>UNIV. (\<lambda>b. stored (ch b)) b)"

lemma stored_PT: "stored (PT i e v ch) = (if v = None then 0 else 1) + stored (ch False) + stored (ch True)"
  by (simp add: UNIV_bool)

lemma dom_cmap:
  assumes "\<And>b. starts_with b (ch b)"
  shows "dom (cmap (PT i e v ch)) = (if v = None then {} else {[]}) \<union> dom (tmap (ch False)) \<union> dom (tmap (ch True))"
    "[] \<notin> dom (tmap (ch b))" "dom (tmap (ch False)) \<inter> dom (tmap (ch True)) = {}"
proof -
  have head: "k \<noteq> [] \<and> hd k = b" if "k \<in> dom (tmap (ch b))" for k b
  proof (cases k)
    case Nil
    with that tmap_Nil [OF assms, of b] show ?thesis by (simp add: domIff)
  next
    case (Cons c k')
    with that tmap_other [OF assms [of b], of c k'] show ?thesis by (cases "c = b") (simp_all add: domIff)
  qed
  have "k \<in> dom (cmap (PT i e v ch)) \<longleftrightarrow>
      k \<in> (if v = None then {} else {[]}) \<union> dom (tmap (ch False)) \<union> dom (tmap (ch True))" for k
  proof (cases k)
    case Nil
    have "[] \<notin> dom (tmap (ch b))" for b using head [of "[]" b] by blast
    with Nil show ?thesis by (cases v) (simp_all add: domIff)
  next
    case (Cons b bs)
    have "k \<notin> dom (tmap (ch (\<not> b)))" using head [of k "\<not> b"] Cons by auto
    with Cons show ?thesis by (cases b; cases v) (simp_all add: domIff del: tmap.simps)
  qed
  then show "dom (cmap (PT i e v ch)) = (if v = None then {} else {[]}) \<union> dom (tmap (ch False)) \<union> dom (tmap (ch True))"
    by blast
  show "[] \<notin> dom (tmap (ch b))" using head by blast
  show "dom (tmap (ch False)) \<inter> dom (tmap (ch True)) = {}"
    using head [of _ False] head [of _ True] by (metis disjoint_iff)
qed

lemma dom_tmap: "dom (tmap (PT i e v ch)) = (@) e ` dom (cmap (PT i e v ch))"
proof -
  have "k \<in> dom (tmap (PT i e v ch)) \<longleftrightarrow> k \<in> (@) e ` dom (cmap (PT i e v ch))" for k
  proof (cases "prefix e k")
    case True
    then obtain k' where "k = e @ k'" by (auto simp: prefix_def)
    then show ?thesis by (auto simp: domIff simp del: tmap.simps)
  next
    case False
    then show ?thesis by (auto simp: domIff tmap_no_prefix simp del: tmap.simps)
  qed
  then show ?thesis by blast
qed

lemma card_dom_cmap:
  assumes "\<And>b. starts_with b (ch b)" "\<And>b. finite (dom (tmap (ch b))) \<and> card (dom (tmap (ch b))) = stored (ch b)"
  shows "finite (dom (cmap (PT i e v ch))) \<and> card (dom (cmap (PT i e v ch))) = stored (PT i e v ch)"
proof -
  let ?D = "dom (tmap (ch False)) \<union> dom (tmap (ch True))"
  have "card ?D = stored (ch False) + stored (ch True)"
    using dom_cmap(3) [OF assms(1)] assms(2) by (simp add: card_Un_disjoint)
  moreover have "finite ?D" "[] \<notin> ?D" using assms(2) dom_cmap(2) [OF assms(1)] by auto
  ultimately show ?thesis
    using dom_cmap(1) [OF assms(1), of i e v] by (cases v) (simp_all add: stored_PT Un_assoc del: stored.simps)
qed

lemma card_dom_tmap: "tinv t w \<Longrightarrow> finite (dom (tmap t)) \<and> card (dom (tmap t)) = stored t"
proof (induction t arbitrary: w)
  case (PT i e v ch)
  have "starts_with b (ch b)" for b using PT.prems by simp
  moreover have "finite (dom (tmap (ch b))) \<and> card (dom (tmap (ch b))) = stored (ch b)" for b
    using PT.prems by (intro PT.IH [OF rangeI]) auto
  ultimately have "finite (dom (cmap (PT i e v ch))) \<and> card (dom (cmap (PT i e v ch))) = stored (PT i e v ch)"
    by (rule card_dom_cmap)
  then show ?case by (simp add: dom_tmap card_image inj_on_def del: stored.simps tmap.simps)
qed (simp add: dom_def)

lemma card_ids_le: "disjoint_ids t \<Longrightarrow> tinv t w \<Longrightarrow> t \<noteq> PE \<Longrightarrow> card (ids t) + 1 \<le> 2 * stored t"
proof (induction t arbitrary: w)
  case (PT i e v ch)
  have sub: "card (ids (ch b)) + (if ch b = PE then 0 else 1) \<le> 2 * stored (ch b)" for b
    using PT.IH [OF rangeI, of b] PT.prems by (cases "ch b = PE") auto
  have "card (ids (PT i e v ch)) = Suc (card (ids (ch False)) + card (ids (ch True)))"
    using PT.prems(1) ids_children [of i e v ch False] by (simp add: card_Un_disjoint)
  with sub [of False] sub [of True] PT.prems(2) show ?case
    by (auto simp: stored_PT simp del: stored.simps ids.simps split: if_splits)
qed simp

lemma root_card_ids:
  assumes "disjoint_ids t" "cinv t w"
  shows "card (ids t) \<le> 1 + 2 * card (dom (cmap t))" "finite (dom (cmap t))"
proof -
  obtain i e v ch where t: "t = PT i e v ch" using assms(2) by (cases t) auto
  have sub: "card (ids (ch b)) \<le> 2 * stored (ch b)" for b
    using card_ids_le [of "ch b" w] assms t by (cases "ch b = PE") auto
  have "finite (dom (cmap t)) \<and> card (dom (cmap t)) = stored t"
    unfolding t using assms card_dom_tmap t by (intro card_dom_cmap) auto
  moreover have "card (ids t) = Suc (card (ids (ch False)) + card (ids (ch True)))"
    using assms(1) ids_children [of i e v ch False] by (simp add: t card_Un_disjoint)
  ultimately show "card (ids t) \<le> 1 + 2 * card (dom (cmap t))" "finite (dom (cmap t))"
    using sub [of False] sub [of True] by (auto simp: t stored_PT simp del: stored.simps ids.simps)
qed

section \<open>The operations as map operations\<close>

lemma trie_rel_new: "trie_rel cap (trie_new cap :: 'v prefix_trie) (\<lambda>_. None)"
proof -
  let ?p = "trie_new cap :: 'v prefix_trie"
  let ?ts = "\<lambda>v4. PT (family_root v4) [] None (\<lambda>_. PE) :: 'v ptree"
  have wf: "pool_wf ?p" by (simp add: trie_new_def)
  have root: "pool_get ?p (family_root v4) = Some (node_new 0 0)" for v4
    by (simp add: trie_new_def pool_empty_def pool_get_def family_root_def get_at_def V4_ROOT_def V6_ROOT_def)
  have "pool_get ?p i = None" if "2 \<le> i" for i
    using that by (simp add: trie_new_def pool_get_pair pool_empty_def pair_empty_def pair_get_def)
  then have "\<not> 2 \<le> i" if "i \<in> dom (pool_get ?p)" for i using that by fastforce
  then have "dom (pool_get ?p) \<subseteq> {0, 1}" by (force simp: not_le less_2_cases_iff)
  moreover have "{0, 1} \<subseteq> dom (pool_get ?p)"
    using root [of True] root [of False] by (auto simp: family_root_def V4_ROOT_def V6_ROOT_def)
  ultimately have dom: "dom (pool_get ?p) = {0, 1}" by blast
  have "encodes (node_new 0 0) []" by (simp add: encodes_def node_new_def mask_prefix_def msb_bit_def)
  then have "forest ?p ?ts"
    unfolding forest_def using wf root dom
    by (auto simp: family_tree_def family_root_def V4_ROOT_def V6_ROOT_def)
  moreover have "(\<lambda>_. None) = (\<lambda>(v4, k). cmap (?ts v4) k)"
  proof
    fix x :: prefix_key
    show "None = (case x of (v4, k) \<Rightarrow> cmap (?ts v4) k)" by (cases x; cases "snd x") auto
  qed
  ultimately show ?thesis unfolding trie_rel_def by (auto simp: trie_new_def pool_empty_def)
qed

lemma forest_available:
  assumes "forest p ts" "card (dom (\<lambda>(v4, k). cmap (ts v4) k)) < pool_cap p"
  shows "2 \<le> pool_available p"
proof -
  have fam: "family_tree (pool_get p) v4 (ts v4)" for v4 using assms(1) by (simp add: forest_def)
  have fin: "finite (dom (cmap (ts v4)))" and le: "card (ids (ts v4)) \<le> 1 + 2 * card (dom (cmap (ts v4)))" for v4
    using root_card_ids [of "ts v4" "family_width v4"] fam by (auto simp: family_tree_def)
  have "dom (\<lambda>(v4, k). cmap (ts v4) k) = Pair True ` dom (cmap (ts True)) \<union> Pair False ` dom (cmap (ts False))"
    by (auto simp: image_iff split: bool.splits) (metis (full_types) domI option.distinct(1))+
  then have "card (dom (\<lambda>(v4, k). cmap (ts v4) k)) = card (dom (cmap (ts True))) + card (dom (cmap (ts False)))"
    using fin by (simp add: card_Un_disjoint card_image inj_on_def disjoint_iff image_iff)
  moreover have "root_id (ts v4) = Some (family_root v4)" for v4 using fam by (simp add: family_tree_def)
  then have "{0, 1} \<subseteq> ids (ts True) \<union> ids (ts False)"
    using root_id_in_ids [of "ts True"] root_id_in_ids [of "ts False"] by (auto simp: family_root_def V4_ROOT_def V6_ROOT_def)
  then have "card (dom (pool_get p) - {0, 1}) = card (ids (ts True) \<union> ids (ts False)) - 2"
    using assms(1) by (simp add: forest_def card_Diff_subset)
  moreover have "card (ids (ts True) \<union> ids (ts False)) \<le> card (ids (ts True)) + card (ids (ts False))"
    by (rule card_Un_le)
  ultimately show ?thesis
    using le [of True] le [of False] assms nodes.free_eq [of p] by (simp add: forest_def)
qed

lemma trie_lookup_correct:
  assumes "trie_rel cap p m"
  shows "trie_lookup p a = Some (lpm (\<lambda>k. m (is_ipv4 a, k)) None (addr_bits a))"
proof -
  obtain ts where ts: "forest p ts" "m = (\<lambda>(v4, k). cmap (ts v4) k)" using assms by (auto simp: trie_rel_def)
  let ?t = "ts (is_ipv4 a)" and ?key = "fst (addr_key a)"
  have fam: "family_tree (pool_get p) (is_ipv4 a) ?t" using ts by (simp add: forest_def)
  then obtain v ch where t: "?t = PT (family_root (is_ipv4 a)) [] v ch" by (cases ?t) (auto simp: family_tree_def)
  then obtain n where n: "pool_get p (family_root (is_ipv4 a)) = Some n" "n_value n = v"
    using fam by (auto simp: family_tree_def)
  have "trie_lookup p a = lookup_loop p ?key (family_width (is_ipv4 a)) (family_root (is_ipv4 a)) 0 v"
    unfolding trie_lookup_def by (subst addr_key_eq) (simp add: n)
  also have "\<dots> = Some (lpm (cmap ?t) v (addr_bits a))"
    using fam lookup_loop_correct [of p ?t "family_root (is_ipv4 a)" "family_width (is_ipv4 a)"
        "family_width (is_ipv4 a)" 0 v ?key] family_width_le [of "is_ipv4 a"] addr_key_eq [of a] t
    by (simp add: addr_bits_def family_tree_def) (metis fst_conv snd_conv)
  also have "lpm (cmap ?t) v (addr_bits a) = lpm (cmap ?t) None (addr_bits a)"
    using lpm_best [of "cmap ?t" None "addr_bits a"] t by (cases v) simp_all
  finally show ?thesis using ts(2) by simp
qed

lemma trie_get_correct:
  assumes "trie_rel cap p m" "cidr_ok net"
  shows "trie_get p net = Some (m (cidr_key net))"
proof -
  obtain ts where ts: "forest p ts" "m = (\<lambda>(v4, k). cmap (ts v4) k)" using assms by (auto simp: trie_rel_def)
  let ?v4 = "is_ipv4 (first_address net)"
  have "family_tree (pool_get p) ?v4 (ts ?v4)" using ts by (simp add: forest_def)
  moreover have "network_length net \<le> 128" using assms(2) family_width_le [of ?v4] by (simp add: cidr_ok_def)
  ultimately show ?thesis
    unfolding trie_get_def using get_loop_correct [of p "ts ?v4" "family_root ?v4" "family_width ?v4"]
    by (subst addr_key_eq) (simp add: family_tree_def cidr_key_def ts(2))
qed

lemma map_update_family:
  "(\<lambda>(v4, k). cmap ((ts(f := t)) v4) k) = (\<lambda>(v4, k). cmap (ts v4) k)((f, k0) := x)"
  if "cmap t = (cmap (ts f))(k0 := x)"
  using that by (auto simp: fun_eq_iff)

lemma trie_insert_eq:
  "trie_insert p net x = insert_loop p (fst (addr_key (first_address net))) (network_length net) x
     (family_root (is_ipv4 (first_address net))) 0"
  by (cases "first_address net") (simp_all add: trie_insert_def family_root_def)

lemma trie_remove_eq:
  "trie_remove p net = remove_loop p (fst (addr_key (first_address net))) (network_length net) []
     (family_root (is_ipv4 (first_address net))) 0"
  by (cases "first_address net") (simp_all add: trie_remove_def family_root_def)

lemma trie_insert_correct:
  assumes "trie_rel cap p m" "cidr_ok net"
  shows "\<exists>res. trie_insert p net x = Some res \<and>
    (res = (Inl CapacityError, p) \<and> m (cidr_key net) = None \<and> cap \<le> card (dom m) \<or>
     (\<exists>p'. res = (Inr (m (cidr_key net)), p') \<and> trie_rel cap p' (m(cidr_key net \<mapsto> x))))"
proof -
  obtain ts where ts: "forest p ts" "m = (\<lambda>(v4, k). cmap (ts v4) k)" and cap: "pool_cap p = cap"
    using assms by (auto simp: trie_rel_def)
  let ?f = "is_ipv4 (first_address net)" and ?k = "key_bits (fst (addr_key (first_address net))) 0 (network_length net)"
  have fam: "family_tree (pool_get p) ?f (ts ?f)" and wf: "pool_wf p" using ts by (auto simp: forest_def)
  have klen: "network_length net \<le> family_width ?f" using assms(2) by (simp add: cidr_ok_def)
  have ft: "reps (pool_get p) (ts ?f)" "root_id (ts ?f) = Some (family_root ?f)" "disjoint_ids (ts ?f)"
    "cinv (ts ?f) (family_width ?f)" "edge (ts ?f) = []" "\<forall>j\<in>ids (ts ?f). j \<noteq> family_root ?f \<longrightarrow> 2 \<le> j"
    using fam by (auto simp: family_tree_def)
  obtain res where run: "trie_insert p net x = Some res" and post: "insert_post p (ts ?f) ?k x (family_width ?f) res"
    using insert_loop_correct [OF wf ft(1-4), of "network_length net" 0 "fst (addr_key (first_address net))" x]
      klen family_width_le [of ?f]
    unfolding trie_insert_eq by auto
  have key: "m (cidr_key net) = cmap (ts ?f) ?k" by (simp add: ts(2) cidr_key_def)
  show ?thesis
  proof (cases "res = (Inl CapacityError, p) \<and> pool_available p < 2 \<and> cmap (ts ?f) ?k = None")
    case True
    then have "cap \<le> card (dom m)" using forest_available [OF ts(1)] cap ts(2) by fastforce
    with True run key show ?thesis by simp
  next
    case False
    with post obtain p' t' where p': "res = (Inr (cmap (ts ?f) ?k), p')" "pool_wf p'" "pool_cap p' = pool_cap p"
      and step: "insert_step (pool_get p) (pool_get p') (ts ?f) t' (family_width ?f) ?k x"
      unfolding insert_post_def by blast
    from step have ext: "reps (pool_get p') t'" "disjoint_ids t'" "ids (ts ?f) \<subseteq> ids t'"
        "\<And>j. j \<notin> ids t' \<Longrightarrow> pool_get p' j = pool_get p j"
        "\<And>j. j \<in> ids t' \<Longrightarrow> j \<notin> ids (ts ?f) \<Longrightarrow> pool_get p j = None \<and> 2 \<le> j"
      and cinv: "cinv t' (family_width ?f)" and gr: "grown (ts ?f) t'"
      and cm: "cmap t' = (cmap (ts ?f))(?k \<mapsto> x)" by (auto simp: insert_step_def extends_def)
    have root: "root_id t' = Some (family_root ?f)" "edge t' = []"
      using gr ft(2,5) by (cases "ts ?f"; cases t'; auto)+
    have "family_tree (pool_get p') ?f t'"
      unfolding family_tree_def using ext cinv root ft(6) by blast
    moreover have "ids t' \<inter> ids (ts (\<not> ?f)) = {}"
    proof -
      have "ids (ts (\<not> ?f)) \<subseteq> dom (pool_get p)" using ts(1) by (cases ?f) (auto simp: forest_def)
      moreover have "ids (ts ?f) \<inter> ids (ts (\<not> ?f)) = {}" using ts(1) by (cases ?f) (auto simp: forest_def)
      ultimately show ?thesis using ext(5) by fastforce
    qed
    ultimately have "forest p' (ts(?f := t'))"
      using p'(2) ext(3,4) by (intro forest_update [OF ts(1)]) auto
    moreover have "m(cidr_key net \<mapsto> x) = (\<lambda>(v4, k). cmap ((ts(?f := t')) v4) k)"
      unfolding ts(2) cidr_key_def by (rule sym, rule map_update_family [of t' ts, OF cm])
    ultimately have "trie_rel cap p' (m(cidr_key net \<mapsto> x))" using p'(3) cap unfolding trie_rel_def by auto
    with run p'(1) key show ?thesis by auto
  qed
qed

lemma trie_remove_correct:
  assumes "trie_rel cap p m" "cidr_ok net"
  shows "\<exists>p'. trie_remove p net = Some (m (cidr_key net), p') \<and> trie_rel cap p' (m(cidr_key net := None))"
proof -
  obtain ts where ts: "forest p ts" "m = (\<lambda>(v4, k). cmap (ts v4) k)" and cap: "pool_cap p = cap"
    using assms by (auto simp: trie_rel_def)
  let ?f = "is_ipv4 (first_address net)" and ?k = "key_bits (fst (addr_key (first_address net))) 0 (network_length net)"
  have fam: "family_tree (pool_get p) ?f (ts ?f)" and wf: "pool_wf p" using ts by (auto simp: forest_def)
  have klen: "network_length net \<le> family_width ?f" using assms(2) by (simp add: cidr_ok_def)
  have ft: "reps (pool_get p) (ts ?f)" "root_id (ts ?f) = Some (family_root ?f)" "disjoint_ids (ts ?f)"
    "cinv (ts ?f) (family_width ?f)" "edge (ts ?f) = []" "\<forall>j\<in>ids (ts ?f). j \<noteq> family_root ?f \<longrightarrow> 2 \<le> j"
    using fam by (auto simp: family_tree_def)
  have hang: "hangs (pool_get p) [] None (ts ?f) (family_width ?f)" by (simp add: hangs_def)
  obtain res where run: "trie_remove p net = Some res" and post: "remove_post p None (ts ?f) ?k (family_width ?f) res"
    using remove_loop_correct [OF wf ft(1-4), of "network_length net" 0 "[]" None "fst (addr_key (first_address net))"]
      klen family_width_le [of ?f] hang ft(6)
    unfolding trie_remove_eq by auto
  have key: "m (cidr_key net) = cmap (ts ?f) ?k" by (simp add: ts(2) cidr_key_def)
  show ?thesis
  proof (cases "cmap (ts ?f) ?k = None")
    case True
    then have "res = (m (cidr_key net), p)" using post key by (simp add: remove_post_def)
    moreover have "m(cidr_key net := None) = m" using True key by (metis fun_upd_triv)
    ultimately show ?thesis using run assms(1) by auto
  next
    case False
    with post obtain p' t' where p': "res = (cmap (ts ?f) ?k, p')" "pool_wf p'" "pool_cap p' = pool_cap p"
      and sh: "shrinks (pool_get p) (pool_get p') None (ts ?f) t'" and rm: "removed None (ts ?f) t' ?k (family_width ?f)"
      unfolding remove_post_def by auto
    from sh have s: "reps (pool_get p') t'" "disjoint_ids t'" "ids t' \<subseteq> ids (ts ?f)"
      "\<And>j. j \<in> ids (ts ?f) \<Longrightarrow> j \<notin> ids t' \<Longrightarrow> pool_get p' j = None"
      "\<And>j. j \<notin> ids (ts ?f) \<Longrightarrow> pool_get p' j = pool_get p j" by (auto simp: shrinks_def)
    from rm have r: "root_id t' = Some (family_root ?f)" "edge t' = []" "cinv t' (family_width ?f)"
      "cmap t' = (cmap (ts ?f))(?k := None)" using ft by (auto simp: removed_def)
    have "family_tree (pool_get p') ?f t'" unfolding family_tree_def using s r ft(6) by blast
    moreover have "ids t' \<inter> ids (ts (\<not> ?f)) = {}"
      using s(3) ts(1) by (cases ?f) (auto simp: forest_def)
    ultimately have "forest p' (ts(?f := t'))"
      using p'(2) s(4,5) by (intro forest_update [OF ts(1)]) auto
    moreover have "m(cidr_key net := None) = (\<lambda>(v4, k). cmap ((ts(?f := t')) v4) k)"
      unfolding ts(2) cidr_key_def by (rule sym, rule map_update_family [of t' ts, OF r(4)])
    ultimately have "trie_rel cap p' (m(cidr_key net := None))" using p'(3) cap unfolding trie_rel_def by auto
    with run p'(1) key show ?thesis by auto
  qed
qed

section \<open>The interface of the route cache\<close>

text \<open>
  What a client of a longest-prefix table relies on: insertion of a stored prefix, or of a new one
  while fewer than the capacity are stored, succeeds and returns the previous value; removal returns
  the value it removed; lookup is longest-prefix match on what is stored.
\<close>

locale lpm_table =
  fixes rel :: "'t \<Rightarrow> (prefix_key \<Rightarrow> 'v option) \<Rightarrow> bool"
    and cap :: nat
    and ins :: "'t \<Rightarrow> ip_cidr \<Rightarrow> 'v \<Rightarrow> ((capacity_error + 'v option) \<times> 't) option"
    and del :: "'t \<Rightarrow> ip_cidr \<Rightarrow> ('v option \<times> 't) option"
    and look :: "'t \<Rightarrow> ip_addr \<Rightarrow> 'v option option"
    and fetch :: "'t \<Rightarrow> ip_cidr \<Rightarrow> 'v option option"
  assumes ins_room: "rel t m \<Longrightarrow> cidr_ok net \<Longrightarrow> card (dom m) < cap \<or> m (cidr_key net) \<noteq> None \<Longrightarrow>
      \<exists>t'. ins t net x = Some (Inr (m (cidr_key net)), t') \<and> rel t' (m(cidr_key net \<mapsto> x))"
    and del_ok: "rel t m \<Longrightarrow> cidr_ok net \<Longrightarrow>
      \<exists>t'. del t net = Some (m (cidr_key net), t') \<and> rel t' (m(cidr_key net := None))"
    and look_ok: "rel t m \<Longrightarrow> look t a = Some (lpm (\<lambda>k. m (is_ipv4 a, k)) None (addr_bits a))"
    and fetch_ok: "rel t m \<Longrightarrow> cidr_ok net \<Longrightarrow> fetch t net = Some (m (cidr_key net))"
begin

lemma look_longest:
  assumes "rel t m" "n \<le> length (addr_bits a)" "m (is_ipv4 a, take n (addr_bits a)) = Some v"
    and "\<And>n'. n < n' \<Longrightarrow> n' \<le> length (addr_bits a) \<Longrightarrow> m (is_ipv4 a, take n' (addr_bits a)) = None"
  shows "look t a = Some (Some v)"
  using assms by (simp add: look_ok lpm_longest)

lemma look_none:
  assumes "rel t m" "\<And>n. m (is_ipv4 a, take n (addr_bits a)) = None"
  shows "look t a = Some None"
  using assms by (simp add: look_ok lpm_none)

lemma del_ins:
  assumes "rel t m" "cidr_ok net" "m (cidr_key net) = None" "card (dom m) < cap"
  shows "\<exists>t1 t2. ins t net x = Some (Inr None, t1) \<and> del t1 net = Some (Some x, t2) \<and> (\<forall>a. look t2 a = look t a)"
proof -
  obtain t1 where t1: "ins t net x = Some (Inr None, t1)" "rel t1 (m(cidr_key net \<mapsto> x))"
    using ins_room [OF assms(1,2)] assms(3,4) by auto
  obtain t2 where t2: "del t1 net = Some (Some x, t2)" "rel t2 m"
    using del_ok [OF t1(2) assms(2)] assms(3) by (auto simp: fun_upd_idem)
  with t1 show ?thesis by (auto simp: look_ok [OF assms(1)] look_ok [OF t2(2)])
qed

end

interpretation trie: lpm_table "trie_rel cap" cap trie_insert trie_remove trie_lookup trie_get for cap
proof (unfold_locales, goal_cases)
  case (1 p m net x)
  with trie_insert_correct [OF 1(1,2), of x] show ?case by auto
qed (simp_all add: trie_remove_correct trie_lookup_correct trie_get_correct)

section \<open>Properties\<close>

text \<open>A run of the trie on a sequence of insertions and removals, and the map it should stand for.\<close>

datatype 'v trie_op = Insert ip_cidr 'v | Remove ip_cidr

fun trie_run :: "'v trie_op list \<Rightarrow> 'v prefix_trie \<Rightarrow> 'v prefix_trie option" where
  "trie_run [] p = Some p"
| "trie_run (Insert net x # ops) p = do { (_, p') \<leftarrow> trie_insert p net x; trie_run ops p' }"
| "trie_run (Remove net # ops) p = do { (_, p') \<leftarrow> trie_remove p net; trie_run ops p' }"

fun map_run :: "'v trie_op list \<Rightarrow> (prefix_key \<Rightarrow> 'v option) \<Rightarrow> prefix_key \<Rightarrow> 'v option" where
  "map_run [] m = m"
| "map_run (Insert net x # ops) m = map_run ops (m(cidr_key net \<mapsto> x))"
| "map_run (Remove net # ops) m = map_run ops (m(cidr_key net := None))"

fun run_fits :: "nat \<Rightarrow> 'v trie_op list \<Rightarrow> (prefix_key \<Rightarrow> 'v option) \<Rightarrow> bool" where
  "run_fits cap [] m = True"
| "run_fits cap (Insert net x # ops) m \<longleftrightarrow>
     cidr_ok net \<and> card (dom (m(cidr_key net \<mapsto> x))) \<le> cap \<and> run_fits cap ops (m(cidr_key net \<mapsto> x))"
| "run_fits cap (Remove net # ops) m \<longleftrightarrow> cidr_ok net \<and> run_fits cap ops (m(cidr_key net := None))"

lemma trie_rel_finite: "trie_rel cap p m \<Longrightarrow> finite (dom m)"
proof -
  assume "trie_rel cap p m"
  then obtain ts where ts: "forest p ts" "m = (\<lambda>(v4, k). cmap (ts v4) k)" by (auto simp: trie_rel_def)
  have "finite (dom (cmap (ts v4)))" for v4
    using ts(1) root_card_ids(2) [of "ts v4" "family_width v4"] by (simp add: forest_def family_tree_def)
  then have "finite (Sigma UNIV (\<lambda>v4. dom (cmap (ts v4))))" by simp
  moreover have "dom m \<subseteq> Sigma UNIV (\<lambda>v4. dom (cmap (ts v4)))" by (auto simp: ts(2))
  ultimately show ?thesis by (rule finite_subset [rotated])
qed

lemma trie_run_rel: "trie_rel cap p m \<Longrightarrow> run_fits cap ops m \<Longrightarrow> \<exists>p'. trie_run ops p = Some p' \<and> trie_rel cap p' (map_run ops m)"
proof (induction ops arbitrary: p m)
  case (Cons op ops)
  show ?case
  proof (cases op)
    case (Insert net x)
    have "card (dom m) < cap \<or> m (cidr_key net) \<noteq> None"
      using Cons.prems Insert trie_rel_finite [OF Cons.prems(1)] by (auto simp: card_insert_if domIff split: if_splits)
    with trie.ins_room [OF Cons.prems(1), of net x] Cons.prems(2) Insert
    obtain p1 where p1: "trie_insert p net x = Some (Inr (m (cidr_key net)), p1)" "trie_rel cap p1 (m(cidr_key net \<mapsto> x))" by auto
    have "run_fits cap ops (m(cidr_key net \<mapsto> x))" using Cons.prems(2) Insert by simp
    from Cons.IH [OF p1(2) this] p1(1) Insert show ?thesis by (simp del: fun_upd_apply)
  next
    case (Remove net)
    with trie.del_ok [OF Cons.prems(1), of net] Cons.prems(2)
    obtain p1 where p1: "trie_remove p net = Some (m (cidr_key net), p1)" "trie_rel cap p1 (m(cidr_key net := None))" by auto
    have "run_fits cap ops (m(cidr_key net := None))" using Cons.prems(2) Remove by simp
    from Cons.IH [OF p1(2) this] p1(1) Remove show ?thesis by (simp del: fun_upd_apply)
  qed
qed simp

text \<open>
  C7: the prefix trie is a longest-prefix-match table. Over any sequence of insertions and removals
  that never stores more than \<open>MAX_PREFIXES\<close> prefixes, every operation ends without a panic or
  a capacity error, the exact lookup of a prefix returns the value last inserted for it and not
  removed since, and the lookup of an address returns the value of the longest stored prefix that
  contains it, or nothing if none does.
\<close>

theorem trie_refines_longest_prefix_map:
  assumes "run_fits cap ops (\<lambda>_. None)"
  shows "\<exists>p. trie_run ops (trie_new cap) = Some p \<and>
    (\<forall>net. cidr_ok net \<longrightarrow> trie_get p net = Some (map_run ops (\<lambda>_. None) (cidr_key net))) \<and>
    (\<forall>a n v. n \<le> length (addr_bits a) \<and> map_run ops (\<lambda>_. None) (is_ipv4 a, take n (addr_bits a)) = Some v \<and>
       (\<forall>n'>n. n' \<le> length (addr_bits a) \<longrightarrow> map_run ops (\<lambda>_. None) (is_ipv4 a, take n' (addr_bits a)) = None)
       \<longrightarrow> trie_lookup p a = Some (Some v)) \<and>
    (\<forall>a. (\<forall>n. map_run ops (\<lambda>_. None) (is_ipv4 a, take n (addr_bits a)) = None) \<longrightarrow> trie_lookup p a = Some None)"
proof -
  obtain p where p: "trie_run ops (trie_new cap) = Some p" "trie_rel cap p (map_run ops (\<lambda>_. None))"
    using trie_run_rel [OF trie_rel_new assms] by blast
  with trie.fetch_ok [OF p(2)] trie.look_longest [OF p(2)] trie.look_none [OF p(2)] show ?thesis by auto
qed

theorem trie_refines_longest_prefix_map_witness:
  "\<exists>p. trie_run [Insert \<lparr>first_address = IpV4 0x0A000000, network_length = 8\<rparr> (1 :: nat),
        Insert \<lparr>first_address = IpV6 0, network_length = 0\<rparr> 2] (trie_new 2) = Some p \<and>
     trie_get p \<lparr>first_address = IpV4 0x0A000000, network_length = 8\<rparr> = Some (Some 1) \<and>
     trie_lookup p (IpV6 1) = Some (Some 2)"
proof -
  let ?c8 = "\<lparr>first_address = IpV4 0x0A000000, network_length = 8\<rparr>" and ?c0 = "\<lparr>first_address = IpV6 0, network_length = 0\<rparr>"
  let ?ops = "[Insert ?c8 (1 :: nat), Insert ?c0 2]"
  have "run_fits 2 ?ops (\<lambda>_. None)" by (simp add: cidr_ok_def family_width_def card_insert_if)
  from trie_refines_longest_prefix_map [OF this] obtain p where
    p: "trie_run ?ops (trie_new 2) = Some p"
    and g: "\<And>net. cidr_ok net \<Longrightarrow> trie_get p net = Some (map_run ?ops (\<lambda>_. None) (cidr_key net))"
    and l: "\<And>a n v. n \<le> length (addr_bits a) \<Longrightarrow> map_run ?ops (\<lambda>_. None) (is_ipv4 a, take n (addr_bits a)) = Some v \<Longrightarrow>
       (\<And>n'. n < n' \<Longrightarrow> n' \<le> length (addr_bits a) \<Longrightarrow> map_run ?ops (\<lambda>_. None) (is_ipv4 a, take n' (addr_bits a)) = None)
       \<Longrightarrow> trie_lookup p a = Some (Some v)" by blast
  have "trie_get p ?c8 = Some (Some 1)"
    using g [of ?c8] by (simp add: cidr_ok_def family_width_def cidr_key_def)
  moreover have "trie_lookup p (IpV6 1) = Some (Some 2)"
    by (rule l [of 0]) (simp_all add: cidr_key_def addr_bits_def key_bits_def)
  ultimately show ?thesis using p by blast
qed

end
