(* ===== verification/Route_Cache.thy ===== *)
theory Route_Cache
  imports Lpm_Table Clock "HOL-Library.Multiset"
begin

text \<open>
  The cryptokey routing cache (\<open>microtun-core/src/routing.rs\<close>): stable route slots indexed by
  the prefix trie, which holds the slot of the earliest-inserted owner of each prefix. The abstract
  view is the list of routes in insertion order; the cache is shown to refine it. \<open>None\<close> is a
  panic. What the code relies on of the \<open>cidr\<close> crate, that a CIDR is canonical (no bit set past
  its length), is the predicate \<open>cidr_canonical\<close>.
\<close>

section \<open>The cache\<close>

record route_entry =
  re_cidr :: ip_cidr
  re_peer :: peer_idx
  re_pinned :: bool
  re_last_used :: instant
  re_order :: u64

record route_cache =
  rc_entries :: "route_entry option list"
  rc_len :: usize
  rc_trie :: "usize prefix_trie"
  rc_next :: u64

type_synonym route_result = "(unit result \<times> route_cache) option"

definition routes_new :: "usize \<Rightarrow> route_cache" where
  "routes_new max_routes =
     \<lparr>rc_entries = replicate max_routes None, rc_len = 0, rc_trie = trie_new max_routes, rc_next = 0\<rparr>"

definition best_match :: "route_cache \<Rightarrow> ip_addr \<Rightarrow> usize option option" where
  "best_match rc ip = trie_lookup (rc_trie rc) ip"

definition entry_at :: "route_cache \<Rightarrow> usize \<Rightarrow> route_entry option" where
  "entry_at rc i = (case get_at (rc_entries rc) i of Some e \<Rightarrow> e | None \<Rightarrow> None)"

definition route_lookup :: "route_cache \<Rightarrow> ip_addr \<Rightarrow> instant \<Rightarrow> (peer_idx option \<times> route_cache) option" where
  "route_lookup rc ip now =
     do {
       best \<leftarrow> best_match rc ip;
       Some (case best of
          None \<Rightarrow> (None, rc)
        | Some i \<Rightarrow>
            (case entry_at rc i of
               None \<Rightarrow> (None, rc)
             | Some e \<Rightarrow>
                 (Some (re_peer e), rc\<lparr>rc_entries := (rc_entries rc)[i := Some (e\<lparr>re_last_used := now\<rparr>)]\<rparr>))) }"

definition lookup_readonly :: "route_cache \<Rightarrow> ip_addr \<Rightarrow> peer_idx option option" where
  "lookup_readonly rc ip =
     do {
       best \<leftarrow> best_match rc ip;
       Some (case best of
          None \<Rightarrow> None
        | Some i \<Rightarrow> map_option re_peer (entry_at rc i)) }"

definition same_route :: "ip_cidr \<Rightarrow> peer_idx \<Rightarrow> route_entry option \<Rightarrow> bool" where
  "same_route cidr peer s = (case s of None \<Rightarrow> False | Some e \<Rightarrow> re_cidr e = cidr \<and> re_peer e = peer)"

definition install_entry :: "route_cache \<Rightarrow> usize \<Rightarrow> ip_cidr \<Rightarrow> peer_idx \<Rightarrow> bool \<Rightarrow> instant \<Rightarrow> route_cache" where
  "install_entry rc i cidr peer pinned now =
     rc\<lparr>rc_entries := (rc_entries rc)[i := Some \<lparr>re_cidr = cidr, re_peer = peer, re_pinned = pinned,
          re_last_used = now, re_order = rc_next rc\<rparr>],
        rc_len := rc_len rc + 1, rc_next := rc_next rc + 1\<rparr>"

definition route_insert :: "route_cache \<Rightarrow> ip_cidr \<Rightarrow> peer_idx \<Rightarrow> bool \<Rightarrow> instant \<Rightarrow> route_result" where
  "route_insert rc cidr peer pinned now =
     (case position (same_route cidr peer) (rc_entries rc) of
        Some i \<Rightarrow>
          Some (Inr (), rc\<lparr>rc_entries := (rc_entries rc)[i :=
            map_option (\<lambda>e. e\<lparr>re_pinned := pinned, re_last_used := now\<rparr>) (rc_entries rc ! i)]\<rparr>)
      | None \<Rightarrow>
          (case position (\<lambda>s. s = None) (rc_entries rc) of
             None \<Rightarrow> Some (Inl RouteCacheFull, rc)
           | Some i \<Rightarrow> do {
               present \<leftarrow> trie_get (rc_trie rc) cidr;
               if present = None then do {
                 (r, trie') \<leftarrow> trie_insert (rc_trie rc) cidr i;
                 (case r of
                    Inl _ \<Rightarrow> Some (Inl RouteCacheFull, rc\<lparr>rc_trie := trie'\<rparr>)
                  | Inr (Some _) \<Rightarrow> Some (Inl InternalInvariant, rc\<lparr>rc_trie := trie'\<rparr>)
                  | Inr None \<Rightarrow> Some (Inr (), install_entry (rc\<lparr>rc_trie := trie'\<rparr>) i cidr peer pinned now)) }
               else Some (Inr (), install_entry rc i cidr peer pinned now) }))"

definition available_slots :: "route_cache \<Rightarrow> usize" where
  "available_slots rc = length (rc_entries rc) - rc_len rc"

definition peer_route_count :: "route_cache \<Rightarrow> peer_idx \<Rightarrow> usize" where
  "peer_route_count rc peer = length (filter (\<lambda>e. re_peer e = peer) (List.map_filter id (rc_entries rc)))"

text \<open>The next-oldest owner of a prefix, when its incumbent at \<open>index\<close> goes.\<close>

definition next_owner :: "route_cache \<Rightarrow> usize \<Rightarrow> ip_cidr \<Rightarrow> usize option" where
  "next_owner rc index cidr =
     map_option snd (min_by fst (List.map_filter (\<lambda>j.
       if j = index then None
       else case rc_entries rc ! j of
              None \<Rightarrow> None
            | Some e \<Rightarrow> if re_cidr e = cidr then Some (re_order e, j) else None) [0..<length (rc_entries rc)]))"

text \<open>The trie's part of removing an incumbent: \<open>Inr\<close> the trie after promoting the replacement.\<close>

definition retire_incumbent :: "route_cache \<Rightarrow> usize \<Rightarrow> ip_cidr \<Rightarrow> (error \<times> usize prefix_trie + usize prefix_trie) option" where
  "retire_incumbent rc index cidr =
     (let replacement = next_owner rc index cidr
      in do {
        (removed, trie1) \<leftarrow> trie_remove (rc_trie rc) cidr;
        (case removed of
           None \<Rightarrow> Some (Inl (InternalInvariant, trie1))
         | Some removed_index \<Rightarrow>
             if removed_index \<noteq> index then do {
               (_, trie2) \<leftarrow> trie_insert trie1 cidr removed_index;
               Some (Inl (InternalInvariant, trie2)) }
             else
               (case replacement of
                  None \<Rightarrow> Some (Inr trie1)
                | Some j \<Rightarrow> do {
                    (r, trie2) \<leftarrow> trie_insert trie1 cidr j;
                    (case r of
                       Inr None \<Rightarrow> Some (Inr trie2)
                     | _ \<Rightarrow> do {
                         (_, trie3) \<leftarrow> trie_insert trie2 cidr index;
                         Some (Inl (InternalInvariant, trie3)) }) })) })"

definition clear_slot :: "route_cache \<Rightarrow> usize \<Rightarrow> route_cache" where
  "clear_slot rc index = rc\<lparr>rc_entries := (rc_entries rc)[index := None], rc_len := rc_len rc - 1\<rparr>"

text \<open>The slot is cleared after a check that it still holds the entry being removed.\<close>

definition vacate :: "route_cache \<Rightarrow> usize \<Rightarrow> route_entry \<Rightarrow> bool \<Rightarrow> (error \<times> route_cache + route_cache) option" where
  "vacate rc index e was_incumbent =
     (if (case entry_at rc index of
            None \<Rightarrow> True
          | Some current \<Rightarrow> re_peer current \<noteq> re_peer e \<or> re_cidr current \<noteq> re_cidr e)
      then
        (if was_incumbent then do {
           (_, trie1) \<leftarrow> trie_remove (rc_trie rc) (re_cidr e);
           (_, trie2) \<leftarrow> trie_insert trie1 (re_cidr e) index;
           Some (Inl (InternalInvariant, rc\<lparr>rc_trie := trie2\<rparr>)) }
         else Some (Inl (InternalInvariant, rc)))
      else Some (Inr (clear_slot rc index)))"

definition remove_route :: "route_cache \<Rightarrow> usize \<Rightarrow> route_entry \<Rightarrow> (error \<times> route_cache + route_cache) option" where
  "remove_route rc index e =
     do {
       present \<leftarrow> trie_get (rc_trie rc) (re_cidr e);
       if present = Some index then do {
         r \<leftarrow> retire_incumbent rc index (re_cidr e);
         (case r of
            Inl (err, trie') \<Rightarrow> Some (Inl (err, rc\<lparr>rc_trie := trie'\<rparr>))
          | Inr trie' \<Rightarrow> vacate (rc\<lparr>rc_trie := trie'\<rparr>) index e True) }
       else vacate rc index e False }"

fun remove_peer_from :: "usize list \<Rightarrow> route_cache \<Rightarrow> peer_idx \<Rightarrow> route_result" where
  "remove_peer_from [] rc peer = Some (Inr (), rc)"
| "remove_peer_from (index # rest) rc peer =
     (case entry_at rc index of
        None \<Rightarrow> remove_peer_from rest rc peer
      | Some e \<Rightarrow>
          if re_peer e \<noteq> peer then remove_peer_from rest rc peer
          else do {
            r \<leftarrow> remove_route rc index e;
            (case r of
               Inl (err, rc') \<Rightarrow> Some (Inl err, rc')
             | Inr rc' \<Rightarrow> remove_peer_from rest rc' peer) })"

definition remove_peer :: "route_cache \<Rightarrow> peer_idx \<Rightarrow> route_result" where
  "remove_peer rc peer = remove_peer_from [0..<length (rc_entries rc)] rc peer"

text \<open>Containment is a function of the \<open>cidr\<close> crate; the argument stands for it.\<close>

definition cidrs_overlap :: "(ip_cidr \<Rightarrow> ip_addr \<Rightarrow> bool) \<Rightarrow> ip_cidr \<Rightarrow> ip_cidr \<Rightarrow> bool" where
  "cidrs_overlap contains a b \<longleftrightarrow> contains a (first_address b) \<or> contains b (first_address a)"

section \<open>The abstract route list\<close>

record route =
  r_cidr :: ip_cidr
  r_peer :: peer_idx
  r_pinned :: bool

definition route_of :: "route_entry \<Rightarrow> route" where
  "route_of e = \<lparr>r_cidr = re_cidr e, r_peer = re_peer e, r_pinned = re_pinned e\<rparr>"

definition cidr_matches :: "ip_cidr \<Rightarrow> ip_addr \<Rightarrow> bool" where
  "cidr_matches c a \<longleftrightarrow> fst (cidr_key c) = is_ipv4 a \<and> prefix (snd (cidr_key c)) (addr_bits a)"

text \<open>The longest matching prefix wins; among equal lengths, the route inserted first.\<close>

definition spec_lookup :: "route list \<Rightarrow> ip_addr \<Rightarrow> peer_idx option" where
  "spec_lookup rs a =
     map_option r_peer (min_by (\<lambda>r. 128 - network_length (r_cidr r)) (filter (\<lambda>r. cidr_matches (r_cidr r) a) rs))"

definition spec_insert :: "usize \<Rightarrow> route list \<Rightarrow> ip_cidr \<Rightarrow> peer_idx \<Rightarrow> bool \<Rightarrow> unit result \<times> route list" where
  "spec_insert cap rs cidr peer pinned =
     (if \<exists>r\<in>set rs. r_cidr r = cidr \<and> r_peer r = peer
      then (Inr (), map (\<lambda>r. if r_cidr r = cidr \<and> r_peer r = peer then r\<lparr>r_pinned := pinned\<rparr> else r) rs)
      else if length rs < cap then (Inr (), rs @ [\<lparr>r_cidr = cidr, r_peer = peer, r_pinned = pinned\<rparr>])
      else (Inl RouteCacheFull, rs))"

definition spec_remove_peer :: "route list \<Rightarrow> peer_idx \<Rightarrow> route list" where
  "spec_remove_peer rs peer = filter (\<lambda>r. r_peer r \<noteq> peer) rs"

section \<open>Canonical prefixes\<close>

definition cidr_canonical :: "ip_cidr \<Rightarrow> bool" where
  "cidr_canonical c \<longleftrightarrow> cidr_ok c \<and> (\<forall>i\<ge>network_length c. \<not> msb_bit (fst (addr_key (first_address c))) i)"

lemma addr_key_inj:
  assumes "is_ipv4 a = is_ipv4 b" "fst (addr_key a) = fst (addr_key b)"
  shows "a = b"
proof (cases a; cases b)
  fix x y :: u32 assume ab: "a = IpV4 x" "b = IpV4 y"
  have "x = y"
  proof (rule bit_word_eqI)
    fix n assume "n < LENGTH(32)"
    moreover have "bit (push_bit 96 (ucast x :: u128)) (n + 96) = bit (push_bit 96 (ucast y :: u128)) (n + 96)"
      using assms(2) ab by simp
    ultimately show "bit x n = bit y n" by (simp add: bit_push_bit_iff bit_ucast_iff)
  qed
  with ab show "a = b" by simp
qed (use assms in auto)

lemma msb_bit_eqI: "(\<And>i. msb_bit v i = msb_bit w i) \<Longrightarrow> v = w"
proof (rule bit_word_eqI)
  fix n assume "\<And>i. msb_bit v i = msb_bit w i" "n < LENGTH(128)"
  then have "msb_bit v (127 - n) = msb_bit w (127 - n)" "n \<le> 127" by auto
  then show "bit v n = bit w n" by (auto simp: msb_bit_def)
qed

lemma cidr_key_inj:
  assumes "cidr_canonical c" "cidr_canonical d" "cidr_key c = cidr_key d"
  shows "c = d"
proof -
  let ?x = "fst (addr_key (first_address c))" and ?y = "fst (addr_key (first_address d))"
  have bits: "key_bits ?x 0 (network_length c) = key_bits ?y 0 (network_length d)"
    and fam: "is_ipv4 (first_address c) = is_ipv4 (first_address d)" using assms(3) by (auto simp: cidr_key_def)
  have len: "network_length c = network_length d" using arg_cong [OF bits, of length] by simp
  have "msb_bit ?x i = msb_bit ?y i" for i
  proof (cases "i < network_length c")
    case True
    with arg_cong [OF bits, of "\<lambda>l. l ! i"] len show ?thesis by simp
  next
    case False
    with assms(1,2) len show ?thesis by (auto simp: cidr_canonical_def)
  qed
  then have "first_address c = first_address d" using fam by (intro addr_key_inj) (auto intro: msb_bit_eqI)
  with len show ?thesis by simp
qed

section \<open>Live entries in insertion order\<close>

definition live :: "route_entry option list \<Rightarrow> route_entry list" where
  "live es = List.map_filter id es"

definition ordered :: "route_entry option list \<Rightarrow> route_entry list" where
  "ordered es = sort_key re_order (live es)"

definition routes_of :: "route_cache \<Rightarrow> route list" where
  "routes_of rc = map route_of (ordered (rc_entries rc))"

lemma live_simps [simp]: "live [] = []" "live (None # es) = live es" "live (Some e # es) = e # live es"
  by (simp_all add: live_def map_filter_simps)

lemma set_live: "e \<in> set (live es) \<longleftrightarrow> (\<exists>i<length es. es ! i = Some e)"
proof -
  have "e \<in> set (live es) \<longleftrightarrow> Some e \<in> set es"
  proof (induction es)
    case (Cons s es)
    then show ?case by (cases s) auto
  qed simp
  then show ?thesis by (metis in_set_conv_nth)
qed

lemma live_map: "live (map (map_option f) es) = map f (live es)"
proof (induction es)
  case (Cons s es)
  then show ?case by (cases s) auto
qed simp

lemma live_filter:
  "live (map (\<lambda>s. case s of Some e \<Rightarrow> if P e then Some e else None | None \<Rightarrow> None) es) = filter P (live es)"
proof (induction es)
  case (Cons s es)
  then show ?case by (cases s) auto
qed simp

lemma mset_live_insert: "i < length es \<Longrightarrow> es ! i = None \<Longrightarrow> mset (live (es[i := Some e])) = add_mset e (mset (live es))"
proof (induction es arbitrary: i)
  case (Cons s es)
  then show ?case by (cases i; cases s) (auto simp: add_mset_commute)
qed simp

lemma mset_live_clear: "i < length es \<Longrightarrow> es ! i = Some e \<Longrightarrow> mset (live es) = add_mset e (mset (live (es[i := None])))"
proof (induction es arbitrary: i)
  case (Cons s es)
  then show ?case by (cases i; cases s) (auto simp: add_mset_commute)
qed simp

lemma length_live_le: "length (live es) \<le> length es"
proof (induction es)
  case (Cons s es)
  then show ?case by (cases s) auto
qed simp

lemma length_live_less: "i < length es \<Longrightarrow> es ! i = None \<Longrightarrow> length (live es) < length es"
proof (induction es arbitrary: i)
  case (Cons s es)
  show ?case
  proof (cases i)
    case 0
    with Cons.prems length_live_le [of es] show ?thesis by auto
  next
    case (Suc k)
    with Cons.IH [of k] Cons.prems show ?thesis by (cases s) auto
  qed
qed simp

lemma length_live_full: "None \<notin> set es \<Longrightarrow> length (live es) = length es"
proof (induction es)
  case (Cons s es)
  then show ?case by (cases s) auto
qed simp

lemma sort_key_map:
  assumes "\<And>x. f (g x) = f x"
  shows "sort_key f (map g xs) = map g (sort_key f xs)"
proof (induction xs)
  case (Cons x xs)
  have "insort_key f (g x) (map g ys) = map g (insort_key f x ys)" for ys
    by (induction ys) (simp_all add: assms)
  with Cons show ?case by simp
qed simp

lemma ordered_insert:
  assumes "i < length es" "es ! i = None" "\<And>e'. e' \<in> set (live es) \<Longrightarrow> re_order e' < re_order e"
    and "inj_on re_order (set (live es))"
  shows "ordered (es[i := Some e]) = ordered es @ [e]"
  unfolding ordered_def
proof (rule sort_key_inj_key_eq)
  have ms: "mset (live (es[i := Some e])) = add_mset e (mset (live es))" by (rule mset_live_insert [OF assms(1,2)])
  then show "mset (live (es[i := Some e])) = mset (sort_key re_order (live es) @ [e])" by simp
  have "set (live (es[i := Some e])) = insert e (set (live es))" using arg_cong [OF ms, of set_mset] by simp
  with assms(3,4) show "inj_on re_order (set (live (es[i := Some e])))" by fastforce
  show "sorted (map re_order (sort_key re_order (live es) @ [e]))" using assms(3) by (auto simp: sorted_append less_imp_le)
qed

section \<open>The invariant\<close>

definition incumbent :: "route_entry option list \<Rightarrow> ip_cidr \<Rightarrow> usize \<Rightarrow> bool" where
  "incumbent es c i \<longleftrightarrow> i < length es \<and> (\<exists>e. es ! i = Some e \<and> re_cidr e = c \<and>
     (\<forall>e'\<in>set (live es). re_cidr e' = c \<longrightarrow> re_order e \<le> re_order e'))"

definition slots_ok :: "route_entry option list \<Rightarrow> u64 \<Rightarrow> bool" where
  "slots_ok es nxt \<longleftrightarrow>
     (\<forall>e\<in>set (live es). cidr_canonical (re_cidr e) \<and> re_order e < nxt) \<and>
     (\<forall>i<length es. \<forall>j<length es. \<forall>e e'. es ! i = Some e \<longrightarrow> es ! j = Some e' \<longrightarrow>
        re_order e = re_order e' \<or> re_cidr e = re_cidr e' \<and> re_peer e = re_peer e' \<longrightarrow> i = j)"

definition indexed :: "route_entry option list \<Rightarrow> (prefix_key \<Rightarrow> usize option) \<Rightarrow> bool" where
  "indexed es m \<longleftrightarrow>
     (\<forall>k i. m k = Some i \<longrightarrow> (\<exists>c. k = cidr_key c \<and> cidr_canonical c \<and> incumbent es c i)) \<and>
     (\<forall>e\<in>set (live es). m (cidr_key (re_cidr e)) \<noteq> None)"

definition routes_inv :: "usize \<Rightarrow> route_cache \<Rightarrow> bool" where
  "routes_inv cap rc \<longleftrightarrow> length (rc_entries rc) = cap \<and> rc_len rc = length (live (rc_entries rc)) \<and>
     slots_ok (rc_entries rc) (rc_next rc) \<and> (\<exists>m. trie_rel cap (rc_trie rc) m \<and> indexed (rc_entries rc) m)"

lemma slots_inj: "slots_ok es nxt \<Longrightarrow> inj_on re_order (set (live es))"
  unfolding slots_ok_def inj_on_def by (metis option.inject set_live)

lemma indexedD:
  assumes "indexed es m" "cidr_canonical c" "m (cidr_key c) = Some i"
  shows "incumbent es c i"
  using assms cidr_key_inj unfolding indexed_def by metis

lemma card_dom_indexed:
  assumes "indexed es m"
  shows "card (dom m) \<le> length (live es)"
proof -
  have "dom m \<subseteq> (\<lambda>e. cidr_key (re_cidr e)) ` set (live es)"
  proof
    fix k assume "k \<in> dom m"
    then obtain i where "m k = Some i" by blast
    with assms obtain c e where "k = cidr_key c" "i < length es" "es ! i = Some e" "re_cidr e = c"
      unfolding indexed_def incumbent_def by metis
    then have "e \<in> set (live es)" by (auto simp: set_live)
    with \<open>k = cidr_key c\<close> \<open>re_cidr e = c\<close> show "k \<in> (\<lambda>e. cidr_key (re_cidr e)) ` set (live es)" by blast
  qed
  then have "card (dom m) \<le> card (set (live es))" by (meson List.finite_set card_image_le card_mono finite_imageI le_trans)
  then show ?thesis using card_length le_trans by blast
qed

lemma routes_inv_new: "routes_inv cap (routes_new cap)"
proof -
  have "live (replicate cap None) = []" by (induction cap) auto
  then show ?thesis using trie_rel_new [of cap]
    by (auto simp: routes_inv_def routes_new_def slots_ok_def indexed_def)
qed

text \<open>An update of a slot that keeps prefix, peer and order keeps the invariant.\<close>

lemma update_keeps:
  assumes "i < length es" "es ! i = Some e" "re_cidr e' = re_cidr e" "re_peer e' = re_peer e" "re_order e' = re_order e"
  shows "slots_ok es nxt \<Longrightarrow> slots_ok (es[i := Some e']) nxt"
    "indexed es m \<Longrightarrow> indexed (es[i := Some e']) m"
    "slots_ok es nxt \<Longrightarrow> ordered (es[i := Some e']) = map (\<lambda>x. if re_order x = re_order e then e' else x) (ordered es)"
    "length (live (es[i := Some e'])) = length (live es)"
proof -
  have nth: "(es[i := Some e']) ! j = (if j = i then Some e' else es ! j)" if "j < length es" for j
    using that by simp
  have live': "x \<in> set (live (es[i := Some e'])) \<longleftrightarrow> x = e' \<or> (\<exists>j<length es. j \<noteq> i \<and> es ! j = Some x)" for x
    using assms(1) by (auto simp: set_live nth_list_update)
  have old: "\<exists>x0. es ! j = Some x0 \<and> re_cidr x0 = re_cidr x \<and> re_peer x0 = re_peer x \<and> re_order x0 = re_order x"
    if "j < length es" "es[i := Some e'] ! j = Some x" for j x
    using that assms by (cases "j = i") auto
  show "slots_ok (es[i := Some e']) nxt" if s: "slots_ok es nxt"
    unfolding slots_ok_def
  proof (intro conjI ballI allI impI)
    fix x assume "x \<in> set (live (es[i := Some e']))"
    then obtain j where "j < length es" "es[i := Some e'] ! j = Some x" by (auto simp: set_live)
    with old obtain x0 where "x0 \<in> set (live es)" "re_cidr x0 = re_cidr x" "re_order x0 = re_order x"
      by (metis set_live)
    with s show "cidr_canonical (re_cidr x)" "re_order x < nxt" unfolding slots_ok_def by metis+
  next
    fix j k x y
    assume *: "j < length (es[i := Some e'])" "k < length (es[i := Some e'])"
      "es[i := Some e'] ! j = Some x" "es[i := Some e'] ! k = Some y"
      "re_order x = re_order y \<or> re_cidr x = re_cidr y \<and> re_peer x = re_peer y"
    then obtain x0 y0 where "es ! j = Some x0" "re_cidr x0 = re_cidr x" "re_peer x0 = re_peer x" "re_order x0 = re_order x"
      "es ! k = Some y0" "re_cidr y0 = re_cidr y" "re_peer y0 = re_peer y" "re_order y0 = re_order y"
      using old [of j x] old [of k y] by auto
    with * s show "j = k" unfolding slots_ok_def by (metis length_list_update)
  qed
  have inc: "incumbent (es[i := Some e']) c j" if inc0: "incumbent es c j" for c j
  proof -
    obtain x where x: "j < length es" "es ! j = Some x" "re_cidr x = c"
      "\<And>y. y \<in> set (live es) \<Longrightarrow> re_cidr y = c \<Longrightarrow> re_order x \<le> re_order y" using inc0 unfolding incumbent_def by blast
    have "\<exists>y\<in>set (live es). re_cidr y = re_cidr z \<and> re_order y = re_order z" if "z \<in> set (live (es[i := Some e']))" for z
      using that assms unfolding live' by (metis set_live)
    with x assms show ?thesis
      unfolding incumbent_def by (cases "j = i") (auto, metis+)
  qed
  then show "indexed (es[i := Some e']) m" if "indexed es m"
    using that assms unfolding indexed_def by (metis live' set_live)
  show "ordered (es[i := Some e']) = map (\<lambda>x. if re_order x = re_order e then e' else x) (ordered es)" if s: "slots_ok es nxt"
  proof -
    let ?f = "\<lambda>x. if re_order x = re_order e then e' else x"
    have "es[i := Some e'] = map (map_option ?f) es"
    proof (rule nth_equalityI)
      fix j assume "j < length (es[i := Some e'])"
      then have j: "j < length es" by simp
      show "es[i := Some e'] ! j = map (map_option ?f) es ! j"
      proof (cases "j = i")
        case True
        with assms show ?thesis by simp
      next
        case False
        have "re_order x \<noteq> re_order e" if "es ! j = Some x" for x
          using s that False j assms(1,2) unfolding slots_ok_def by metis
        with False j show ?thesis by (cases "es ! j") auto
      qed
    qed simp
    moreover have "sort_key re_order (map ?f (live es)) = map ?f (sort_key re_order (live es))"
      using assms(5) by (intro sort_key_map) auto
    ultimately show ?thesis unfolding ordered_def by (simp only: live_map)
  qed
  have "mset (live es) = add_mset e (mset (live (es[i := None])))" using assms by (intro mset_live_clear) auto
  moreover have "mset (live (es[i := None, i := Some e'])) = add_mset e' (mset (live (es[i := None])))"
    using assms(1) by (intro mset_live_insert) auto
  ultimately show "length (live (es[i := Some e'])) = length (live es)"
    by (metis list_update_overwrite size_add_mset size_mset)
qed

section \<open>Insertion refines the route list\<close>

lemma length_routes_of: "length (routes_of rc) = length (live (rc_entries rc))"
  by (simp add: routes_of_def ordered_def)

lemma set_ordered [simp]: "set (ordered es) = set (live es)"
  by (simp add: ordered_def)

lemma routes_have:
  "(\<exists>r\<in>set (routes_of rc). r_cidr r = c \<and> r_peer r = q) \<longleftrightarrow>
   (\<exists>e\<in>set (live (rc_entries rc)). re_cidr e = c \<and> re_peer e = q)"
  by (auto simp: routes_of_def route_of_def)

lemma insert_refresh:
  assumes inv: "routes_inv cap rc" and pos: "position (same_route cidr peer) (rc_entries rc) = Some i"
  shows "\<exists>rc'. route_insert rc cidr peer pinned now = Some (Inr (), rc') \<and> routes_inv cap rc' \<and>
    (Inr (), routes_of rc') = spec_insert cap (routes_of rc) cidr peer pinned \<and> rc_next rc' = rc_next rc"
proof -
  let ?es = "rc_entries rc"
  obtain e where e: "i < length ?es" "?es ! i = Some e" "re_cidr e = cidr" "re_peer e = peer"
    using position_SomeD [OF pos] by (auto simp: same_route_def split: option.splits)
  let ?e = "e\<lparr>re_pinned := pinned, re_last_used := now\<rparr>"
  let ?rc = "rc\<lparr>rc_entries := ?es[i := Some ?e]\<rparr>"
  have s: "slots_ok ?es (rc_next rc)" using inv by (simp add: routes_inv_def)
  note up = update_keeps [OF e(1,2), of ?e]
  have run: "route_insert rc cidr peer pinned now = Some (Inr (), ?rc)" using pos e(2) by (simp add: route_insert_def)
  moreover have "routes_inv cap ?rc" using inv up(1,2,4) by (auto simp: routes_inv_def)
  moreover have "routes_of ?rc = map (\<lambda>r. if r_cidr r = cidr \<and> r_peer r = peer then r\<lparr>r_pinned := pinned\<rparr> else r) (routes_of rc)"
  proof -
    have "route_of (if re_order x = re_order e then ?e else x) =
        (if re_cidr x = cidr \<and> re_peer x = peer then (route_of x)\<lparr>r_pinned := pinned\<rparr> else route_of x)"
      if x: "x \<in> set (live ?es)" for x
    proof -
      obtain j where "j < length ?es" "?es ! j = Some x" using x by (auto simp: set_live)
      with s e have "re_order x = re_order e \<longleftrightarrow> re_cidr x = cidr \<and> re_peer x = peer"
        "re_cidr x = cidr \<and> re_peer x = peer \<Longrightarrow> x = e" unfolding slots_ok_def by (metis option.inject)+
      then show ?thesis using e by (auto simp: route_of_def)
    qed
    then show ?thesis using up(3) [OF _ _ _ s] by (simp add: routes_of_def route_of_def)
  qed
  moreover have "e \<in> set (live ?es)" using e by (auto simp: set_live)
  then have "\<exists>r\<in>set (routes_of rc). r_cidr r = cidr \<and> r_peer r = peer" using e(3,4) unfolding routes_have by blast
  ultimately show ?thesis by (simp add: spec_insert_def)
qed

lemma indexed_insert:
  assumes ix: "indexed es m" and i: "i < length es" "es ! i = None" and can: "cidr_canonical (re_cidr e)"
    and ord: "\<And>x. x \<in> set (live es) \<Longrightarrow> re_order x < re_order e"
  shows "indexed (es[i := Some e]) (if m (cidr_key (re_cidr e)) = None then m(cidr_key (re_cidr e) \<mapsto> i) else m)"
proof -
  let ?es = "es[i := Some e]" and ?k = "cidr_key (re_cidr e)"
  have live: "set (live ?es) = insert e (set (live es))"
    using arg_cong [OF mset_live_insert [OF i], of set_mset] by simp
  have inc: "incumbent ?es c j" if inc0: "incumbent es c j" for c j
  proof -
    obtain x where x: "j < length es" "es ! j = Some x" "re_cidr x = c"
      "\<And>y. y \<in> set (live es) \<Longrightarrow> re_cidr y = c \<Longrightarrow> re_order x \<le> re_order y" using inc0 unfolding incumbent_def by blast
    then have "j \<noteq> i" "x \<in> set (live es)" using i(2) by (auto simp: set_live)
    with x ord [of x] show ?thesis unfolding incumbent_def live by (auto intro: less_imp_le)
  qed
  have new: "incumbent ?es (re_cidr e) i" if "m ?k = None"
  proof -
    have "re_cidr x \<noteq> re_cidr e" if "x \<in> set (live es)" for x
      using ix that \<open>m ?k = None\<close> unfolding indexed_def by metis
    then show ?thesis using i unfolding incumbent_def live by auto
  qed
  show ?thesis
  proof (cases "m ?k")
    case None
    then show ?thesis using ix inc new can unfolding indexed_def live by (auto split: if_splits) metis+
  next
    case (Some j)
    then show ?thesis using ix inc unfolding indexed_def live by auto metis+
  qed
qed

lemma slots_insert:
  assumes s: "slots_ok es nxt" and i: "i < length es" "es ! i = None" and can: "cidr_canonical (re_cidr e)"
    and ord: "re_order e = nxt" "nxt < nxt'" and new: "\<And>x. x \<in> set (live es) \<Longrightarrow> \<not> (re_cidr x = re_cidr e \<and> re_peer x = re_peer e)"
  shows "slots_ok (es[i := Some e]) nxt'"
  unfolding slots_ok_def
proof (intro conjI ballI allI impI)
  have live: "set (live (es[i := Some e])) = insert e (set (live es))"
    using arg_cong [OF mset_live_insert [OF i], of set_mset] by simp
  fix x assume "x \<in> set (live (es[i := Some e]))"
  then show "cidr_canonical (re_cidr x)" "re_order x < nxt'"
    using s can ord unfolding live slots_ok_def by (auto dest: less_trans)
next
  fix j k x y
  assume *: "j < length (es[i := Some e])" "k < length (es[i := Some e])"
    "es[i := Some e] ! j = Some x" "es[i := Some e] ! k = Some y"
    "re_order x = re_order y \<or> re_cidr x = re_cidr y \<and> re_peer x = re_peer y"
  have other: "re_order z < nxt" "\<not> (re_cidr z = re_cidr e \<and> re_peer z = re_peer e)"
    if "l < length es" "es ! l = Some z" for l z
  proof -
    have "z \<in> set (live es)" using that by (auto simp: set_live)
    with s new show "re_order z < nxt" "\<not> (re_cidr z = re_cidr e \<and> re_peer z = re_peer e)"
      unfolding slots_ok_def by blast+
  qed
  show "j = k"
  proof (cases "j = i"; cases "k = i")
    assume "j = i" "k \<noteq> i"
    with * other [of k y] ord(1) show ?thesis by (auto simp: less_le)
  next
    assume "j \<noteq> i" "k = i"
    with * other [of j x] ord(1) show ?thesis by (auto simp: less_le)
  next
    assume "j \<noteq> i" "k \<noteq> i"
    with * have "j < length es" "k < length es" "es ! j = Some x" "es ! k = Some y" by simp_all
    with s *(5) show ?thesis unfolding slots_ok_def by blast
  qed simp
qed

lemma insert_fresh:
  assumes inv: "routes_inv cap rc" and none: "position (same_route cidr peer) (rc_entries rc) = None"
    and pos: "position (\<lambda>s. s = None) (rc_entries rc) = Some i"
    and can: "cidr_canonical cidr" and wrap: "unat (rc_next rc) + 1 < 2 ^ 64"
  shows "\<exists>rc'. route_insert rc cidr peer pinned now = Some (Inr (), rc') \<and> routes_inv cap rc' \<and>
    (Inr (), routes_of rc') = spec_insert cap (routes_of rc) cidr peer pinned \<and> rc_next rc' = rc_next rc + 1"
proof -
  let ?es = "rc_entries rc"
  let ?e = "\<lparr>re_cidr = cidr, re_peer = peer, re_pinned = pinned, re_last_used = now, re_order = rc_next rc\<rparr>"
  have i: "i < length ?es" "?es ! i = None" using position_SomeD [OF pos] by auto
  have s: "slots_ok ?es (rc_next rc)" and len: "length ?es = cap" using inv by (auto simp: routes_inv_def)
  obtain m where m: "trie_rel cap (rc_trie rc) m" "indexed ?es m" using inv by (auto simp: routes_inv_def)
  have room: "length (live ?es) < cap" using length_live_less [OF i] len by simp
  have ok: "cidr_ok cidr" using can by (simp add: cidr_canonical_def)
  have ord: "re_order x < re_order ?e" if "x \<in> set (live ?es)" for x using s that by (simp add: slots_ok_def)
  have new: "\<not> (re_cidr x = cidr \<and> re_peer x = peer)" if "x \<in> set (live ?es)" for x
    using none that by (auto simp: position_None_iff same_route_def set_live dest!: nth_mem split: option.splits)
  have nxt: "rc_next rc < rc_next rc + 1" using wrap by (simp add: word_less_nat_alt unat_word_ariths)
  let ?m = "if m (cidr_key cidr) = None then m(cidr_key cidr \<mapsto> i) else m"
  have "indexed (?es[i := Some ?e]) (if m (cidr_key (re_cidr ?e)) = None then m(cidr_key (re_cidr ?e) \<mapsto> i) else m)"
    by (rule indexed_insert [OF m(2) i _ ord]) (simp_all add: can)
  then have ix: "indexed (?es[i := Some ?e]) ?m" by (simp only: route_entry.simps)
  have "\<exists>trie'. route_insert rc cidr peer pinned now =
      Some (Inr (), install_entry (rc\<lparr>rc_trie := trie'\<rparr>) i cidr peer pinned now) \<and> trie_rel cap trie' ?m"
  proof (cases "m (cidr_key cidr)")
    case None
    have "card (dom m) < cap" using card_dom_indexed [OF m(2)] room by simp
    with trie.ins_room [OF m(1) ok, of i] None
    obtain t where "trie_insert (rc_trie rc) cidr i = Some (Inr None, t)" "trie_rel cap t (m(cidr_key cidr \<mapsto> i))" by auto
    with None trie.fetch_ok [OF m(1) ok] none pos show ?thesis by (auto simp: route_insert_def)
  next
    case (Some j)
    with trie.fetch_ok [OF m(1) ok] none pos m(1) show ?thesis
      by (intro exI [of _ "rc_trie rc"]) (simp add: route_insert_def)
  qed
  then obtain trie' where run: "route_insert rc cidr peer pinned now =
      Some (Inr (), install_entry (rc\<lparr>rc_trie := trie'\<rparr>) i cidr peer pinned now)" and t: "trie_rel cap trie' ?m" by blast
  let ?rc = "install_entry (rc\<lparr>rc_trie := trie'\<rparr>) i cidr peer pinned now"
  have rc: "rc_entries ?rc = ?es[i := Some ?e]" "rc_len ?rc = rc_len rc + 1" "rc_next ?rc = rc_next rc + 1" "rc_trie ?rc = trie'"
    by (simp_all add: install_entry_def)
  have "slots_ok (?es[i := Some ?e]) (rc_next rc + 1)"
    using slots_insert [OF s i, of ?e] can nxt new by simp
  moreover have "length (live (?es[i := Some ?e])) = Suc (length (live ?es))"
    using arg_cong [OF mset_live_insert [OF i, of ?e], of size] by simp
  ultimately have "routes_inv cap ?rc" using inv t ix len unfolding routes_inv_def rc by auto
  moreover have "routes_of ?rc = routes_of rc @ [route_of ?e]"
    unfolding routes_of_def rc using ordered_insert [OF i ord slots_inj [OF s]] by simp
  moreover have "\<not> (\<exists>r\<in>set (routes_of rc). r_cidr r = cidr \<and> r_peer r = peer)" unfolding routes_have using new by blast
  ultimately show ?thesis
    using run room rc(3) by (auto simp: spec_insert_def length_routes_of route_of_def)
qed

lemma route_insert_refines:
  assumes inv: "routes_inv cap rc" and can: "cidr_canonical cidr" and wrap: "unat (rc_next rc) + 1 < 2 ^ 64"
  shows "\<exists>r rc'. route_insert rc cidr peer pinned now = Some (r, rc') \<and> routes_inv cap rc' \<and>
    (r, routes_of rc') = spec_insert cap (routes_of rc) cidr peer pinned \<and> unat (rc_next rc') \<le> unat (rc_next rc) + 1"
proof (cases "position (same_route cidr peer) (rc_entries rc)")
  case (Some i)
  with insert_refresh [OF inv Some, of pinned now] show ?thesis by fastforce
next
  case none: None
  show ?thesis
  proof (cases "position (\<lambda>s. s = None) (rc_entries rc)")
    case (Some i)
    with insert_fresh [OF inv none Some can wrap, of pinned now] wrap show ?thesis
      by (fastforce simp: unat_word_ariths)
  next
    case None
    then have "None \<notin> set (rc_entries rc)" by (auto simp: position_None_iff)
    then have full: "length (live (rc_entries rc)) = length (rc_entries rc)" by (rule length_live_full)
    have "same_route cidr peer (Some e) = False" if "e \<in> set (live (rc_entries rc))" for e
      using none that by (auto simp: position_None_iff set_live dest!: nth_mem)
    then have "\<not> (\<exists>r\<in>set (routes_of rc). r_cidr r = cidr \<and> r_peer r = peer)"
      unfolding routes_have by (auto simp: same_route_def)
    moreover have "length (rc_entries rc) = cap" using inv by (simp add: routes_inv_def)
    moreover have "route_insert rc cidr peer pinned now = Some (Inl RouteCacheFull, rc)"
      using none None by (simp add: route_insert_def)
    ultimately show ?thesis using inv full by (auto simp: spec_insert_def length_routes_of)
  qed
qed

section \<open>Removal refines the route list\<close>

lemma next_owner_cands:
  "(o', j) \<in> set (List.map_filter (\<lambda>j. if j = i then None
       else case es ! j of None \<Rightarrow> None | Some e \<Rightarrow> if re_cidr e = c then Some (re_order e, j) else None) [0..<length es])
   \<longleftrightarrow> j < length es \<and> j \<noteq> i \<and> (\<exists>e. es ! j = Some e \<and> re_cidr e = c \<and> re_order e = o')"
  by (auto simp: map_filter_def image_iff split: option.splits if_splits)

lemma next_owner_Some:
  assumes "next_owner rc i c = Some j"
  shows "\<exists>e. j < length (rc_entries rc) \<and> j \<noteq> i \<and> rc_entries rc ! j = Some e \<and> re_cidr e = c \<and>
    (\<forall>k e'. k < length (rc_entries rc) \<and> k \<noteq> i \<and> rc_entries rc ! k = Some e' \<and> re_cidr e' = c \<longrightarrow> re_order e \<le> re_order e')"
proof -
  let ?C = "List.map_filter (\<lambda>j. if j = i then None
       else case rc_entries rc ! j of None \<Rightarrow> None | Some e \<Rightarrow> if re_cidr e = c then Some (re_order e, j) else None) [0..<length (rc_entries rc)]"
  obtain o' where "min_by fst ?C = Some (o', j)" using assms by (auto simp: next_owner_def)
  from min_by_SomeD [OF this] have m: "(o', j) \<in> set ?C" "\<And>o'' k. (o'', k) \<in> set ?C \<Longrightarrow> o' \<le> o''" by auto
  from m(1) obtain e where e: "j < length (rc_entries rc)" "j \<noteq> i" "rc_entries rc ! j = Some e" "re_cidr e = c" "re_order e = o'"
    unfolding next_owner_cands by blast
  have "re_order e \<le> re_order e'" if "k < length (rc_entries rc)" "k \<noteq> i" "rc_entries rc ! k = Some e'" "re_cidr e' = c" for k e'
    unfolding e(5) using m(2) [of "re_order e'" k, unfolded next_owner_cands] that by blast
  with e show ?thesis by blast
qed

lemma next_owner_None:
  assumes "next_owner rc i c = None" "k < length (rc_entries rc)" "k \<noteq> i" "rc_entries rc ! k = Some e"
  shows "re_cidr e \<noteq> c"
proof
  assume "re_cidr e = c"
  then have "(re_order e, k) \<in> set (List.map_filter (\<lambda>j. if j = i then None
       else case rc_entries rc ! j of None \<Rightarrow> None | Some e \<Rightarrow> if re_cidr e = c then Some (re_order e, j) else None) [0..<length (rc_entries rc)])"
    unfolding next_owner_cands using assms(2-4) by blast
  with assms(1) show False by (simp add: next_owner_def)
qed

lemma live_clear: "e' \<in> set (live (es[i := None])) \<longleftrightarrow> (\<exists>j<length es. j \<noteq> i \<and> es ! j = Some e')"
proof
  assume "e' \<in> set (live (es[i := None]))"
  then obtain j where "j < length es" "es[i := None] ! j = Some e'" by (auto simp: set_live)
  then show "\<exists>j<length es. j \<noteq> i \<and> es ! j = Some e'" by (cases "j = i") auto
next
  assume "\<exists>j<length es. j \<noteq> i \<and> es ! j = Some e'"
  then obtain j where "j < length es" "j \<noteq> i" "es ! j = Some e'" by blast
  then have "j < length (es[i := None])" "es[i := None] ! j = Some e'" by simp_all
  then show "e' \<in> set (live (es[i := None]))" unfolding set_live by blast
qed

lemma slots_clear: "slots_ok es nxt \<Longrightarrow> slots_ok (es[i := None]) nxt"
  unfolding slots_ok_def
proof (intro conjI ballI allI impI, goal_cases)
  case (1 x)
  then show ?case unfolding live_clear by (metis set_live)
next
  case (2 x)
  then show ?case unfolding live_clear by (metis set_live)
next
  case (3 j k x y)
  then have "es ! j = Some x" "es ! k = Some y" "j < length es" "k < length es"
    by (cases "j = i"; cases "k = i"; simp)+
  with 3 show ?case by blast
qed

lemma incumbent_clear:
  assumes "incumbent es c j" "j \<noteq> i"
  shows "incumbent (es[i := None]) c j"
proof -
  obtain x where x: "j < length es" "es ! j = Some x" "re_cidr x = c"
    "\<And>y. y \<in> set (live es) \<Longrightarrow> re_cidr y = c \<Longrightarrow> re_order x \<le> re_order y" using assms(1) unfolding incumbent_def by blast
  have "re_order x \<le> re_order y" if "y \<in> set (live (es[i := None]))" "re_cidr y = c" for y
    using that x(4) unfolding live_clear by (metis set_live)
  with x assms(2) show ?thesis unfolding incumbent_def by auto
qed

lemma indexed_clear:
  assumes ix: "indexed (rc_entries rc) m" and e: "i < length (rc_entries rc)" "rc_entries rc ! i = Some e" "cidr_canonical (re_cidr e)"
    and s: "slots_ok (rc_entries rc) nxt"
  shows "indexed ((rc_entries rc)[i := None])
    (if m (cidr_key (re_cidr e)) = Some i then m(cidr_key (re_cidr e) := next_owner rc i (re_cidr e)) else m)"
proof -
  let ?es = "rc_entries rc" and ?c = "re_cidr e"
  have other: "\<exists>c. k = cidr_key c \<and> cidr_canonical c \<and> incumbent (?es[i := None]) c j" if m: "m k = Some j" "j \<noteq> i" for k j
  proof -
    obtain c where "k = cidr_key c" "cidr_canonical c" "incumbent ?es c j" using ix m(1) unfolding indexed_def by blast
    with incumbent_clear [OF _ m(2)] show ?thesis by blast
  qed
  have at_i: "k = cidr_key ?c" if "m k = Some i" for k
  proof -
    obtain c where "k = cidr_key c" "incumbent ?es c i" using ix \<open>m k = Some i\<close> unfolding indexed_def by blast
    then show ?thesis using e by (auto simp: incumbent_def)
  qed
  have alive: "m (cidr_key (re_cidr x)) \<noteq> None" if "x \<in> set (live (?es[i := None]))" for x
    using that ix unfolding live_clear indexed_def by (metis set_live)
  show ?thesis
  proof (cases "m (cidr_key ?c) = Some i")
    case False
    then have "j \<noteq> i" if "m k = Some j" for k j using at_i that by blast
    with False other alive show ?thesis unfolding indexed_def by (auto split: if_splits)
  next
    case True
    have new: "incumbent (?es[i := None]) ?c j" if next': "next_owner rc i ?c = Some j" for j
    proof -
      obtain x where x: "j < length ?es" "j \<noteq> i" "?es ! j = Some x" "re_cidr x = ?c"
        "\<And>k e'. k < length ?es \<Longrightarrow> k \<noteq> i \<Longrightarrow> ?es ! k = Some e' \<Longrightarrow> re_cidr e' = ?c \<Longrightarrow> re_order x \<le> re_order e'"
        using next_owner_Some [OF next'] by blast
      have "re_order x \<le> re_order y" if "y \<in> set (live (?es[i := None]))" "re_cidr y = ?c" for y
        using that x(5) unfolding live_clear by blast
      with x show ?thesis unfolding incumbent_def by auto
    qed
    have rest: "j \<noteq> i" if "m k = Some j" "k \<noteq> cidr_key ?c" for k j using at_i that by blast
    have gone: "next_owner rc i ?c \<noteq> None"
      if x: "x \<in> set (live (?es[i := None]))" "cidr_key (re_cidr x) = cidr_key ?c" "cidr_canonical (re_cidr x)" for x
    proof
      assume none: "next_owner rc i ?c = None"
      obtain k where "k < length ?es" "k \<noteq> i" "?es ! k = Some x" using x(1) unfolding live_clear by blast
      with next_owner_None [OF none] have "re_cidr x \<noteq> ?c" by blast
      with cidr_key_inj [OF x(3) e(3) x(2)] show False by blast
    qed
    have can: "cidr_canonical (re_cidr x)" if x: "x \<in> set (live (?es[i := None]))" for x
      using x s slots_clear [OF s, of i] unfolding slots_ok_def by blast
    have "\<exists>c. k = cidr_key c \<and> cidr_canonical c \<and> incumbent (?es[i := None]) c j"
      if "(m(cidr_key ?c := next_owner rc i ?c)) k = Some j" for k j
      using that other rest new e(3) by (cases "k = cidr_key ?c") auto
    moreover have "(m(cidr_key ?c := next_owner rc i ?c)) (cidr_key (re_cidr x)) \<noteq> None"
      if x: "x \<in> set (live (?es[i := None]))" for x
      using alive [OF x] gone [OF x _ can [OF x]] by simp
    ultimately show ?thesis using True unfolding indexed_def by (simp del: fun_upd_apply)
  qed
qed

lemma finite_dom_indexed: "trie_rel cap t m \<Longrightarrow> m k \<noteq> None \<Longrightarrow> card (dom (m(k := None))) < card (dom m)"
  using trie_rel_finite [of cap t m] by (auto intro!: psubset_card_mono)

lemma retire_ok:
  assumes m: "trie_rel cap (rc_trie rc) m" "m (cidr_key c) = Some i" "cidr_ok c" "card (dom m) \<le> cap"
  shows "\<exists>t. retire_incumbent rc i c = Some (Inr t) \<and> trie_rel cap t (m(cidr_key c := next_owner rc i c))"
proof -
  obtain t1 where t1: "trie_remove (rc_trie rc) c = Some (Some i, t1)" "trie_rel cap t1 (m(cidr_key c := None))"
    using trie.del_ok [OF m(1,3)] m(2) by auto
  show ?thesis
  proof (cases "next_owner rc i c")
    case None
    with t1 show ?thesis by (simp add: retire_incumbent_def)
  next
    case (Some j)
    have "card (dom (m(cidr_key c := None))) < cap" using finite_dom_indexed [OF m(1), of "cidr_key c"] m(2,4) by simp
    then obtain t2 where "trie_insert t1 c j = Some (Inr None, t2)" "trie_rel cap t2 (m(cidr_key c := None, cidr_key c \<mapsto> j))"
      using trie.ins_room [OF t1(2) m(3), of j] by auto
    with t1(1) Some show ?thesis by (simp add: retire_incumbent_def)
  qed
qed

lemma remove_route_ok:
  assumes inv: "routes_inv cap rc" and e: "entry_at rc i = Some e"
  shows "\<exists>rc'. remove_route rc i e = Some (Inr rc') \<and> routes_inv cap rc' \<and>
    rc_entries rc' = (rc_entries rc)[i := None] \<and> rc_next rc' = rc_next rc"
proof -
  let ?es = "rc_entries rc" and ?c = "re_cidr e"
  have i: "i < length ?es" "?es ! i = Some e" using e by (auto simp: entry_at_def get_at_def split: option.splits if_splits)
  have s: "slots_ok ?es (rc_next rc)" and len: "length ?es = cap" "rc_len rc = length (live ?es)" using inv by (auto simp: routes_inv_def)
  obtain m where m: "trie_rel cap (rc_trie rc) m" "indexed ?es m" using inv by (auto simp: routes_inv_def)
  have can: "cidr_canonical ?c" using s i unfolding slots_ok_def by (metis set_live)
  then have ok: "cidr_ok ?c" by (simp add: cidr_canonical_def)
  let ?m = "if m (cidr_key ?c) = Some i then m(cidr_key ?c := next_owner rc i ?c) else m"
  note ix = indexed_clear [OF m(2) i can s]
  have cap: "card (dom m) \<le> cap" using card_dom_indexed [OF m(2)] length_live_le [of ?es] len(1) by simp
  have "\<exists>t. remove_route rc i e = Some (Inr (clear_slot (rc\<lparr>rc_trie := t\<rparr>) i)) \<and> trie_rel cap t ?m"
  proof (cases "m (cidr_key ?c) = Some i")
    case True
    obtain t where "retire_incumbent rc i ?c = Some (Inr t)" "trie_rel cap t (m(cidr_key ?c := next_owner rc i ?c))"
      using retire_ok [OF m(1) True ok cap] by blast
    with True trie.fetch_ok [OF m(1) ok] e show ?thesis
      by (auto simp: remove_route_def vacate_def entry_at_def)
  next
    case False
    with trie.fetch_ok [OF m(1) ok] e m(1) show ?thesis
      by (intro exI [of _ "rc_trie rc"]) (simp add: remove_route_def vacate_def)
  qed
  then obtain t where run: "remove_route rc i e = Some (Inr (clear_slot (rc\<lparr>rc_trie := t\<rparr>) i))" and t: "trie_rel cap t ?m" by blast
  have "length (live ?es) = Suc (length (live (?es[i := None])))"
    using arg_cong [OF mset_live_clear [OF i], of size] by simp
  then have "routes_inv cap (clear_slot (rc\<lparr>rc_trie := t\<rparr>) i)"
    using t ix len slots_clear [OF s] unfolding routes_inv_def clear_slot_def by auto
  with run show ?thesis by (simp add: clear_slot_def)
qed

lemma remove_peer_from_ok:
  "routes_inv cap rc \<Longrightarrow> \<exists>rc'. remove_peer_from ixs rc peer = Some (Inr (), rc') \<and> routes_inv cap rc' \<and>
     rc_next rc' = rc_next rc \<and> length (rc_entries rc') = length (rc_entries rc) \<and>
     (\<forall>i<length (rc_entries rc). rc_entries rc' ! i =
        (case rc_entries rc ! i of
           Some e \<Rightarrow> if i \<in> set ixs \<and> re_peer e = peer then None else Some e
         | None \<Rightarrow> None))"
proof (induction ixs arbitrary: rc)
  case Nil
  then show ?case by (auto split: option.splits)
next
  case (Cons i ixs)
  show ?case
  proof (cases "\<exists>e. entry_at rc i = Some e \<and> re_peer e = peer")
    case True
    then obtain e where e: "entry_at rc i = Some e" "re_peer e = peer" by blast
    obtain rc1 where rc1: "remove_route rc i e = Some (Inr rc1)" "routes_inv cap rc1"
      "rc_entries rc1 = (rc_entries rc)[i := None]" "rc_next rc1 = rc_next rc" using remove_route_ok [OF Cons.prems e(1)] by blast
    have i: "i < length (rc_entries rc)" "rc_entries rc ! i = Some e"
      using e(1) by (auto simp: entry_at_def get_at_def split: option.splits if_splits)
    from Cons.IH [OF rc1(2)] obtain rc' where rc': "remove_peer_from ixs rc1 peer = Some (Inr (), rc')" "routes_inv cap rc'"
      "rc_next rc' = rc_next rc1" "length (rc_entries rc') = length (rc_entries rc1)"
      "\<And>j. j < length (rc_entries rc1) \<Longrightarrow> rc_entries rc' ! j =
        (case rc_entries rc1 ! j of Some e \<Rightarrow> if j \<in> set ixs \<and> re_peer e = peer then None else Some e | None \<Rightarrow> None)" by blast
    have "remove_peer_from (i # ixs) rc peer = Some (Inr (), rc')" using e rc1(1) rc'(1) by simp
    moreover have "rc_entries rc' ! j = (case rc_entries rc ! j of
        Some e \<Rightarrow> if j \<in> set (i # ixs) \<and> re_peer e = peer then None else Some e | None \<Rightarrow> None)"
      if "j < length (rc_entries rc)" for j
      using rc'(5) [of j] that i e(2) unfolding rc1(3) by (cases "j = i") (auto split: option.splits)
    ultimately show ?thesis using rc' rc1 by auto
  next
    case False
    from Cons.IH [OF Cons.prems] obtain rc' where rc': "remove_peer_from ixs rc peer = Some (Inr (), rc')" "routes_inv cap rc'"
      "rc_next rc' = rc_next rc" "length (rc_entries rc') = length (rc_entries rc)"
      "\<And>j. j < length (rc_entries rc) \<Longrightarrow> rc_entries rc' ! j =
        (case rc_entries rc ! j of Some e \<Rightarrow> if j \<in> set ixs \<and> re_peer e = peer then None else Some e | None \<Rightarrow> None)" by blast
    have "remove_peer_from (i # ixs) rc peer = Some (Inr (), rc')" using False rc'(1) by (cases "entry_at rc i") auto
    moreover have "rc_entries rc' ! j = (case rc_entries rc ! j of
        Some e \<Rightarrow> if j \<in> set (i # ixs) \<and> re_peer e = peer then None else Some e | None \<Rightarrow> None)"
      if "j < length (rc_entries rc)" for j
      using rc'(5) [OF that] False that by (cases "j = i") (auto simp: entry_at_def get_at_def split: option.splits)
    ultimately show ?thesis using rc' by auto
  qed
qed

lemma remove_peer_refines:
  assumes "routes_inv cap rc"
  shows "\<exists>rc'. remove_peer rc peer = Some (Inr (), rc') \<and> routes_inv cap rc' \<and>
    routes_of rc' = spec_remove_peer (routes_of rc) peer \<and> rc_next rc' = rc_next rc"
proof -
  let ?es = "rc_entries rc" and ?P = "\<lambda>e. re_peer e \<noteq> peer"
  obtain rc' where rc': "remove_peer rc peer = Some (Inr (), rc')" "routes_inv cap rc'" "rc_next rc' = rc_next rc"
    and es: "length (rc_entries rc') = length ?es" "\<And>i. i < length ?es \<Longrightarrow> rc_entries rc' ! i =
        (case ?es ! i of Some e \<Rightarrow> if i \<in> set [0..<length ?es] \<and> re_peer e = peer then None else Some e | None \<Rightarrow> None)"
    using remove_peer_from_ok [OF assms, of "[0..<length ?es]" peer] unfolding remove_peer_def by blast
  have "rc_entries rc' = map (\<lambda>s. case s of Some e \<Rightarrow> if ?P e then Some e else None | None \<Rightarrow> None) ?es"
    using es by (intro nth_equalityI) (auto split: option.splits)
  then have "ordered (rc_entries rc') = filter ?P (ordered ?es)" by (simp add: ordered_def live_filter filter_sort)
  then show ?thesis using rc' by (simp add: routes_of_def spec_remove_peer_def filter_map route_of_def comp_def)
qed

section \<open>Lookup refines the route list\<close>

lemma matches_take:
  "cidr_matches c a \<longleftrightarrow> (\<exists>n\<le>length (addr_bits a). cidr_key c = (is_ipv4 a, take n (addr_bits a)))"
proof
  assume "cidr_matches c a"
  then have "snd (cidr_key c) = take (length (snd (cidr_key c))) (addr_bits a)" "fst (cidr_key c) = is_ipv4 a"
    "length (snd (cidr_key c)) \<le> length (addr_bits a)"
    by (auto simp: cidr_matches_def prefix_def)
  then show "\<exists>n\<le>length (addr_bits a). cidr_key c = (is_ipv4 a, take n (addr_bits a))"
    by (intro exI [of _ "length (snd (cidr_key c))"]) (simp add: prod_eq_iff)
qed (auto simp: cidr_matches_def take_is_prefix)

lemma cidr_key_length: "length (snd (cidr_key c)) = network_length c"
  by (simp add: cidr_key_def)

lemma addr_bits_length: "length (addr_bits a) \<le> 128"
  by (cases a) (simp_all add: addr_bits_def)

lemma spec_lookup_entries:
  "spec_lookup (routes_of rc) a = map_option re_peer
     (min_by (\<lambda>e. 128 - network_length (re_cidr e)) (filter (\<lambda>e. cidr_matches (re_cidr e) a) (ordered (rc_entries rc))))"
  by (simp add: spec_lookup_def routes_of_def filter_map comp_def min_by_map route_of_def option.map_comp)

lemma distinct_orders:
  assumes "slots_ok es nxt"
  shows "distinct (map re_order (ordered es))"
proof -
  have "distinct (live es)"
    using assms unfolding slots_ok_def
  proof (induction es)
    case (Cons t es)
    have step: "\<forall>i<length es. \<forall>j<length es. \<forall>e e'. es ! i = Some e \<longrightarrow> es ! j = Some e' \<longrightarrow>
      re_order e = re_order e' \<or> re_cidr e = re_cidr e' \<and> re_peer e = re_peer e' \<longrightarrow> i = j"
    proof (intro allI impI)
      fix i j e e'
      assume *: "i < length es" "j < length es" "es ! i = Some e" "es ! j = Some e'"
        "re_order e = re_order e' \<or> re_cidr e = re_cidr e' \<and> re_peer e = re_peer e'"
      then have "Suc i = Suc j"
        using conjunct2 [OF Cons.prems, rule_format, of "Suc i" "Suc j" e e'] by simp
      then show "i = j" by simp
    qed
    moreover have "\<forall>e\<in>set (live es). cidr_canonical (re_cidr e) \<and> re_order e < nxt"
      using Cons.prems by (cases t) auto
    ultimately have IH: "distinct (live es)" using Cons.IH by blast
    show ?case
    proof (cases t)
      case (Some e0)
      have "e0 \<notin> set (live es)"
      proof
        assume "e0 \<in> set (live es)"
        then obtain j where "j < length es" "es ! j = Some e0" unfolding set_live by blast
        then have "0 = Suc j" using conjunct2 [OF Cons.prems, rule_format, of 0 "Suc j" e0 e0] Some by simp
        then show False by simp
      qed
      with IH Some show ?thesis by simp
    qed (use IH in simp)
  qed simp
  then show ?thesis using slots_inj [OF assms] by (simp add: distinct_map ordered_def)
qed

lemma incumbent_wins:
  assumes s: "slots_ok es nxt" and ix: "indexed es m"
    and n: "n \<le> length (addr_bits a)" "m (is_ipv4 a, take n (addr_bits a)) = Some i"
    and longest: "\<And>n'. n < n' \<Longrightarrow> n' \<le> length (addr_bits a) \<Longrightarrow> m (is_ipv4 a, take n' (addr_bits a)) = None"
  shows "\<exists>e. i < length es \<and> es ! i = Some e \<and>
    min_by (\<lambda>e. 128 - network_length (re_cidr e)) (filter (\<lambda>e. cidr_matches (re_cidr e) a) (ordered es)) = Some e"
proof -
  obtain c where c: "cidr_key c = (is_ipv4 a, take n (addr_bits a))" "cidr_canonical c" "incumbent es c i"
    using ix n(2) unfolding indexed_def by metis
  obtain e where e: "i < length es" "es ! i = Some e" "re_cidr e = c"
    "\<And>y. y \<in> set (live es) \<Longrightarrow> re_cidr y = c \<Longrightarrow> re_order e \<le> re_order y" using c(3) unfolding incumbent_def by blast
  have len: "network_length c = n" using cidr_key_length [of c] c(1) n(1) by simp
  have in_live: "e \<in> set (live es)" using e by (auto simp: set_live)
  let ?M = "\<lambda>e. cidr_matches (re_cidr e) a" and ?K = "\<lambda>e. 128 - network_length (re_cidr e)"
  have short: "network_length (re_cidr y) \<le> n \<and> (network_length (re_cidr y) = n \<longrightarrow> re_cidr y = c)"
    if y: "y \<in> set (live es)" "?M y" for y
  proof -
    obtain n' where n': "n' \<le> length (addr_bits a)" "cidr_key (re_cidr y) = (is_ipv4 a, take n' (addr_bits a))"
      using y(2) unfolding matches_take by blast
    have "m (cidr_key (re_cidr y)) \<noteq> None" using ix y(1) unfolding indexed_def by blast
    then have "\<not> n < n'" using longest n' by auto
    moreover have "network_length (re_cidr y) = n'" using cidr_key_length [of "re_cidr y"] n' by simp
    moreover have "re_cidr y = c" if "n' = n"
      using that n'(2) c(1,2) s y(1) cidr_key_inj unfolding slots_ok_def by metis
    ultimately show ?thesis by simp
  qed
  have n128: "n \<le> 128" using n(1) addr_bits_length le_trans by blast
  obtain ys zs where split: "ordered es = ys @ e # zs" using in_live split_list [of e "ordered es"] by auto
  have sorted: "sorted (map re_order (ys @ e # zs))" unfolding split [symmetric] by (simp add: ordered_def)
  note dist = distinct_orders [OF s]
  have before: "re_order y < re_order e" if "y \<in> set ys" for y
  proof -
    have "re_order y \<le> re_order e" using that sorted by (simp add: sorted_append)
    moreover have "re_order y \<noteq> re_order e" using that dist unfolding split by (auto simp: image_iff)
    ultimately show ?thesis by simp
  qed
  have "min_by ?K (filter ?M ys @ e # filter ?M zs) = Some e"
  proof (rule min_by_first)
    fix y assume "y \<in> set (filter ?M ys)"
    then have y: "y \<in> set ys" "?M y" "y \<in> set (live es)" using split set_ordered [of es] by auto
    then have "re_cidr y \<noteq> c" using before [OF y(1)] e(4) [OF y(3)] by auto
    then have "network_length (re_cidr y) < n" using short [OF y(3,2)] by auto
    then show "?K e < ?K y" using e(3) len n128 by simp
  next
    fix z assume "z \<in> set (filter ?M zs)"
    then have "z \<in> set (live es)" "?M z" using split set_ordered [of es] by auto
    then show "?K e \<le> ?K z" using short e(3) len by (simp add: diff_le_mono2)
  qed
  moreover have "?M e" using c(1) n(1) e(3) unfolding matches_take by auto
  ultimately show ?thesis using e split by simp
qed

lemma lookup_refines:
  assumes "routes_inv cap rc"
  shows "\<exists>best. best_match rc a = Some best \<and>
    (case best of
       None \<Rightarrow> spec_lookup (routes_of rc) a = None
     | Some i \<Rightarrow> \<exists>e. entry_at rc i = Some e \<and> spec_lookup (routes_of rc) a = Some (re_peer e))"
proof -
  obtain m where m: "trie_rel cap (rc_trie rc) m" "indexed (rc_entries rc) m" and s: "slots_ok (rc_entries rc) (rc_next rc)"
    using assms by (auto simp: routes_inv_def)
  show ?thesis
  proof (cases rule: lpm_cases [of "\<lambda>k. m (is_ipv4 a, k)" "addr_bits a"])
    case none
    then have "best_match rc a = Some None" using trie.look_none [OF m(1)] by (simp add: best_match_def)
    moreover have "\<not> cidr_matches (re_cidr e) a" if "e \<in> set (live (rc_entries rc))" for e
      using that none m(2) unfolding matches_take indexed_def by metis
    then have "filter (\<lambda>e. cidr_matches (re_cidr e) a) (ordered (rc_entries rc)) = []" by (simp add: filter_empty_conv)
    ultimately show ?thesis by (simp add: spec_lookup_entries)
  next
    case (longest n i)
    then have "best_match rc a = Some (Some i)" using trie.look_longest [OF m(1)] by (simp add: best_match_def)
    moreover obtain e where "i < length (rc_entries rc)" "rc_entries rc ! i = Some e"
      "spec_lookup (routes_of rc) a = Some (re_peer e)"
      using incumbent_wins [OF s m(2) longest(1,2)] longest(3) by (auto simp: spec_lookup_entries)
    ultimately show ?thesis by (auto simp: entry_at_def get_at_def)
  qed
qed

lemma route_lookup_refines:
  assumes inv: "routes_inv cap rc"
  shows "\<exists>rc'. route_lookup rc a now = Some (spec_lookup (routes_of rc) a, rc') \<and> routes_inv cap rc' \<and>
    routes_of rc' = routes_of rc \<and> rc_next rc' = rc_next rc"
proof -
  obtain best where best: "best_match rc a = Some best" "case best of
       None \<Rightarrow> spec_lookup (routes_of rc) a = None
     | Some i \<Rightarrow> \<exists>e. entry_at rc i = Some e \<and> spec_lookup (routes_of rc) a = Some (re_peer e)"
    using lookup_refines [OF inv] by blast
  show ?thesis
  proof (cases best)
    case None
    with best inv show ?thesis by (simp add: route_lookup_def)
  next
    case (Some i)
    then obtain e where e: "entry_at rc i = Some e" "spec_lookup (routes_of rc) a = Some (re_peer e)" using best(2) by auto
    have i: "i < length (rc_entries rc)" "rc_entries rc ! i = Some e"
      using e(1) by (auto simp: entry_at_def get_at_def split: option.splits if_splits)
    let ?e = "e\<lparr>re_last_used := now\<rparr>" and ?rc = "rc\<lparr>rc_entries := (rc_entries rc)[i := Some (e\<lparr>re_last_used := now\<rparr>)]\<rparr>"
    have s: "slots_ok (rc_entries rc) (rc_next rc)" using inv by (simp add: routes_inv_def)
    note up = update_keeps [OF i, of ?e]
    have "routes_inv cap ?rc" using inv up(1,2,4) by (auto simp: routes_inv_def)
    moreover have "routes_of ?rc = routes_of rc"
    proof -
      have "route_of (if re_order x = re_order e then ?e else x) = route_of x" if x: "x \<in> set (live (rc_entries rc))" for x
      proof -
        have "re_order x = re_order e \<Longrightarrow> x = e"
          using slots_inj [OF s] x i unfolding inj_on_def by (metis set_live)
        then show ?thesis by (auto simp: route_of_def)
      qed
      then show ?thesis using up(3) [OF _ _ _ s] by (simp add: routes_of_def)
    qed
    ultimately show ?thesis using Some best(1) e by (simp add: route_lookup_def)
  qed
qed

section \<open>Properties\<close>

datatype route_op = AddRoute ip_cidr peer_idx bool instant | DropPeer peer_idx | Route ip_addr instant

datatype route_out = Done "unit result" | Found "peer_idx option"

fun cache_step :: "route_op \<Rightarrow> route_cache \<Rightarrow> (route_out \<times> route_cache) option" where
  "cache_step (AddRoute c q pinned now) rc = map_option (map_prod Done id) (route_insert rc c q pinned now)"
| "cache_step (DropPeer q) rc = map_option (map_prod Done id) (remove_peer rc q)"
| "cache_step (Route a now) rc = map_option (map_prod Found id) (route_lookup rc a now)"

fun spec_step :: "usize \<Rightarrow> route_op \<Rightarrow> route list \<Rightarrow> route_out \<times> route list" where
  "spec_step cap (AddRoute c q pinned now) rs = map_prod Done id (spec_insert cap rs c q pinned)"
| "spec_step cap (DropPeer q) rs = (Done (Inr ()), spec_remove_peer rs q)"
| "spec_step cap (Route a now) rs = (Found (spec_lookup rs a), rs)"

fun cache_run :: "route_op list \<Rightarrow> route_cache \<Rightarrow> route_out list option" where
  "cache_run [] rc = Some []"
| "cache_run (p # ops) rc = do { (r, rc') \<leftarrow> cache_step p rc; rs \<leftarrow> cache_run ops rc'; Some (r # rs) }"

fun spec_run :: "usize \<Rightarrow> route_op list \<Rightarrow> route list \<Rightarrow> route_out list" where
  "spec_run cap [] rs = []"
| "spec_run cap (p # ops) rs = (let (r, rs') = spec_step cap p rs in r # spec_run cap ops rs')"

fun op_canonical :: "route_op \<Rightarrow> bool" where
  "op_canonical (AddRoute c q pinned now) = cidr_canonical c"
| "op_canonical _ = True"

lemma cache_step_refines:
  assumes "routes_inv cap rc" "op_canonical p" "unat (rc_next rc) + 1 < 2 ^ 64"
  shows "\<exists>rc'. cache_step p rc = Some (fst (spec_step cap p (routes_of rc)), rc') \<and> routes_inv cap rc' \<and>
    routes_of rc' = snd (spec_step cap p (routes_of rc)) \<and> unat (rc_next rc') \<le> unat (rc_next rc) + 1"
proof (cases p)
  case (AddRoute c q pinned now)
  with route_insert_refines [OF assms(1) _ assms(3), of c q pinned now] assms(2)
  obtain r rc' where "route_insert rc c q pinned now = Some (r, rc')" "routes_inv cap rc'"
    "spec_insert cap (routes_of rc) c q pinned = (r, routes_of rc')" "unat (rc_next rc') \<le> unat (rc_next rc) + 1" by fastforce
  with AddRoute show ?thesis by simp
next
  case (DropPeer q)
  with remove_peer_refines [OF assms(1), of q] show ?thesis by auto
next
  case (Route a now)
  with route_lookup_refines [OF assms(1), of a now] show ?thesis by auto
qed

lemma cache_run_refines:
  "routes_inv cap rc \<Longrightarrow> list_all op_canonical ops \<Longrightarrow> unat (rc_next rc) + length ops < 2 ^ 64 \<Longrightarrow>
     cache_run ops rc = Some (spec_run cap ops (routes_of rc))"
proof (induction ops arbitrary: rc)
  case (Cons p ops)
  have "unat (rc_next rc) + 1 < 2 ^ 64" using Cons.prems(3) by simp
  with cache_step_refines [OF Cons.prems(1)] Cons.prems(2)
  obtain rc' where rc': "cache_step p rc = Some (fst (spec_step cap p (routes_of rc)), rc')" "routes_inv cap rc'"
    "routes_of rc' = snd (spec_step cap p (routes_of rc))" "unat (rc_next rc') \<le> unat (rc_next rc) + 1" by fastforce
  then have "cache_run ops rc' = Some (spec_run cap ops (routes_of rc'))"
    using Cons.prems by (intro Cons.IH) auto
  with rc'(1,3) show ?case by (simp add: case_prod_beta Let_def)
qed simp

text \<open>
  C6: the route cache implements the insertion-ordered route list. Over any sequence of fewer than
  \<open>2 ^ 64\<close> insertions, peer removals and lookups no operation panics and each returns what the
  list specification returns: insertion refreshes a route the peer already has, fails only when all
  \<open>MAX_ROUTES\<close> slots are taken, and otherwise adds it last; removal drops exactly the peer's
  routes; lookup returns the owner of the longest matching prefix, the earliest-inserted one when
  several peers claim it.
\<close>

theorem route_cache_refines_route_list:
  assumes "list_all op_canonical ops" and "length ops < 2 ^ 64"
  shows "cache_run ops (routes_new cap) = Some (spec_run cap ops [])"
proof -
  have "live (replicate cap None) = []" by (induction cap) auto
  then have "routes_of (routes_new cap) = []" by (simp add: routes_of_def routes_new_def ordered_def)
  with cache_run_refines [OF routes_inv_new [of cap] assms(1)] assms(2) show ?thesis by (simp add: routes_new_def)
qed

theorem route_cache_refines_route_list_witness:
  "\<exists>r1 r2 r3 r4. cache_run [AddRoute \<lparr>first_address = IpV6 0, network_length = 0\<rparr> 1 True 5,
      AddRoute \<lparr>first_address = IpV6 0, network_length = 0\<rparr> 2 False 6, DropPeer 1, Route (IpV6 1) 7] (routes_new 2)
     = Some [r1, r2, r3, r4] \<and> r4 = Found (Some 2)"
proof -
  let ?c = "\<lparr>first_address = IpV6 0, network_length = 0\<rparr>"
  let ?ops = "[AddRoute ?c 1 True 5, AddRoute ?c 2 False 6, DropPeer 1, Route (IpV6 1) 7]"
  have "list_all op_canonical ?ops"
    by (simp add: cidr_canonical_def cidr_ok_def family_width_def msb_bit_def)
  from route_cache_refines_route_list [OF this, of 2] show ?thesis
    by (simp add: spec_insert_def spec_remove_peer_def spec_lookup_def cidr_matches_def cidr_key_def)
qed

end
