(* ===== verification/Flow_Parser.thy ===== *)
theory Flow_Parser
  imports Ip_Packet "HOL-Library.Monad_Syntax"
begin

text \<open>
  The packet classifier of the ingress firewall (\<open>microtun-core/src/firewall.rs\<close>): an inner
  packet is reduced to the flow it belongs to and what it may do to that flow. The lemmas say which
  packets are never classified (fragments, implausible TCP flags), that both address families keep
  their own ICMP, and that an ICMP error is only attributed to a flow whose source it was sent to.
\<close>

section \<open>Protocol numbers\<close>

definition IPPROTO_ICMP :: u8 where "IPPROTO_ICMP = 1"
definition IPPROTO_TCP :: u8 where "IPPROTO_TCP = 6"
definition IPPROTO_UDP :: u8 where "IPPROTO_UDP = 17"
definition IPPROTO_ICMPV6 :: u8 where "IPPROTO_ICMPV6 = 58"

definition TCP_FIN :: u8 where "TCP_FIN = 0x01"
definition TCP_SYN :: u8 where "TCP_SYN = 0x02"
definition TCP_RST :: u8 where "TCP_RST = 0x04"
definition TCP_ACK :: u8 where "TCP_ACK = 0x10"

definition ICMP4_ECHO_REPLY :: u8 where "ICMP4_ECHO_REPLY = 0"
definition ICMP4_DEST_UNREACHABLE :: u8 where "ICMP4_DEST_UNREACHABLE = 3"
definition ICMP4_ECHO_REQUEST :: u8 where "ICMP4_ECHO_REQUEST = 8"
definition ICMP4_TIME_EXCEEDED :: u8 where "ICMP4_TIME_EXCEEDED = 11"
definition ICMP4_PARAMETER_PROBLEM :: u8 where "ICMP4_PARAMETER_PROBLEM = 12"

definition ICMP6_DEST_UNREACHABLE :: u8 where "ICMP6_DEST_UNREACHABLE = 1"
definition ICMP6_PACKET_TOO_BIG :: u8 where "ICMP6_PACKET_TOO_BIG = 2"
definition ICMP6_TIME_EXCEEDED :: u8 where "ICMP6_TIME_EXCEEDED = 3"
definition ICMP6_PARAMETER_PROBLEM :: u8 where "ICMP6_PARAMETER_PROBLEM = 4"
definition ICMP6_ECHO_REQUEST :: u8 where "ICMP6_ECHO_REQUEST = 128"
definition ICMP6_ECHO_REPLY :: u8 where "ICMP6_ECHO_REPLY = 129"

definition ICMP_HEADER_LEN :: usize where "ICMP_HEADER_LEN = 8"

lemmas protocol_numbers = IPPROTO_ICMP_def IPPROTO_TCP_def IPPROTO_UDP_def IPPROTO_ICMPV6_def
lemmas tcp_flag_defs = TCP_FIN_def TCP_SYN_def TCP_RST_def TCP_ACK_def
lemmas icmp_type_defs = ICMP4_ECHO_REPLY_def ICMP4_DEST_UNREACHABLE_def ICMP4_ECHO_REQUEST_def
  ICMP4_TIME_EXCEEDED_def ICMP4_PARAMETER_PROBLEM_def ICMP6_DEST_UNREACHABLE_def
  ICMP6_PACKET_TOO_BIG_def ICMP6_TIME_EXCEEDED_def ICMP6_PARAMETER_PROBLEM_def
  ICMP6_ECHO_REQUEST_def ICMP6_ECHO_REPLY_def

section \<open>Flows\<close>

record flow_key =
  fk_src :: ip_addr
  fk_dst :: ip_addr
  fk_protocol :: u8
  fk_src_port :: u16
  fk_dst_port :: u16

definition is_reverse_of :: "flow_key \<Rightarrow> flow_key \<Rightarrow> bool" where
  "is_reverse_of a b \<longleftrightarrow> fk_protocol a = fk_protocol b \<and> fk_src a = fk_dst b \<and> fk_dst a = fk_src b
     \<and> fk_src_port a = fk_dst_port b \<and> fk_dst_port a = fk_src_port b"

datatype flow_kind = KindTcp u8 | KindUdp | KindEchoRequest | KindEchoReply | KindError

record parsed =
  p_key :: flow_key
  p_kind :: flow_kind

definition opens_new_flow :: "parsed \<Rightarrow> bool" where
  "opens_new_flow p =
     (case p_kind p of
        KindUdp \<Rightarrow> True
      | KindEchoRequest \<Rightarrow> True
      | KindTcp flags \<Rightarrow> flags AND TCP_SYN \<noteq> 0 \<and> flags AND TCP_ACK = 0
      | KindEchoReply \<Rightarrow> False
      | KindError \<Rightarrow> False)"

definition is_closing :: "parsed \<Rightarrow> bool" where
  "is_closing p =
     (case p_kind p of KindTcp flags \<Rightarrow> flags AND (TCP_FIN OR TCP_RST) \<noteq> 0 | _ \<Rightarrow> False)"

section \<open>Parsing\<close>

definition plausible_tcp_flags :: "u8 \<Rightarrow> bool" where
  "plausible_tcp_flags f \<longleftrightarrow>
     f AND (TCP_SYN OR TCP_FIN) \<noteq> (TCP_SYN OR TCP_FIN)
     \<and> f AND (TCP_SYN OR TCP_RST) \<noteq> (TCP_SYN OR TCP_RST)
     \<and> f AND (TCP_FIN OR TCP_RST) \<noteq> (TCP_FIN OR TCP_RST)
     \<and> f AND (TCP_SYN OR TCP_FIN OR TCP_RST OR TCP_ACK) \<noteq> 0"

definition be_u16_at :: "bytes \<Rightarrow> usize \<Rightarrow> u16 option" where
  "be_u16_at bs i = do {
     hi \<leftarrow> get_at bs i;
     lo \<leftarrow> get_at bs (i + 1);
     Some (from_be_bytes [hi, lo]) }"

definition parse_transport :: "bytes \<Rightarrow> usize \<Rightarrow> usize \<Rightarrow> ip_addr \<Rightarrow> ip_addr \<Rightarrow> u8 \<Rightarrow> parsed option" where
  "parse_transport packet total_len off src dst protocol = do {
     minimum \<leftarrow> (if protocol = IPPROTO_TCP then Some 20 else if protocol = IPPROTO_UDP then Some 8 else None);
     if off + minimum > total_len then None
     else do {
       transport \<leftarrow> get_range packet off (off + minimum);
       src_port \<leftarrow> be_u16_at transport 0;
       dst_port \<leftarrow> be_u16_at transport 2;
       kind \<leftarrow> (if protocol = IPPROTO_TCP
         then do {
           flags \<leftarrow> get_at transport 13;
           if \<not> plausible_tcp_flags flags then None else Some (KindTcp flags) }
         else Some KindUdp);
       Some \<lparr>p_key = \<lparr>fk_src = src, fk_dst = dst, fk_protocol = protocol,
                       fk_src_port = src_port, fk_dst_port = dst_port\<rparr>,
             p_kind = kind\<rparr> } }"

definition quoted_v4 :: "bytes \<Rightarrow> (ip_addr \<times> ip_addr \<times> u8 \<times> usize) option" where
  "quoted_v4 quoted = do {
     header \<leftarrow> get_range quoted 0 20;
     first \<leftarrow> get_at header 0;
     let ihl = unat (first AND 0x0f) * 4;
     if ihl < 20 then None
     else do {
       frag \<leftarrow> be_u16_at header 6;
       if frag AND 0x1fff \<noteq> 0 then None
       else do {
         src \<leftarrow> get_range header 12 16;
         dst \<leftarrow> get_range header 16 20;
         protocol \<leftarrow> get_at header 9;
         Some (IpV4 (from_be_bytes src), IpV4 (from_be_bytes dst), protocol, ihl) } } }"

definition quoted_v6 :: "bytes \<Rightarrow> (ip_addr \<times> ip_addr \<times> u8 \<times> usize) option" where
  "quoted_v6 quoted = do {
     header \<leftarrow> get_range quoted 0 40;
     s \<leftarrow> get_range header 8 24;
     d \<leftarrow> get_range header 24 40;
     protocol \<leftarrow> get_at header 6;
     Some (IpV6 (from_be_bytes s), IpV6 (from_be_bytes d), protocol, 40) }"

definition quoted_ports :: "bytes \<Rightarrow> u8 \<Rightarrow> usize \<Rightarrow> (u16 \<times> u16) option" where
  "quoted_ports quoted protocol off =
     (if protocol = IPPROTO_TCP \<or> protocol = IPPROTO_UDP then do {
        a \<leftarrow> get_range quoted off (off + 4);
        s \<leftarrow> be_u16_at a 0;
        d \<leftarrow> be_u16_at a 2;
        Some (s, d) }
      else if protocol = IPPROTO_ICMP \<or> protocol = IPPROTO_ICMPV6 then do {
        a \<leftarrow> get_range quoted off (off + 6);
        message_type \<leftarrow> get_at a 0;
        let is_echo = (protocol = IPPROTO_ICMP \<and> message_type = ICMP4_ECHO_REQUEST)
          \<or> (protocol = IPPROTO_ICMPV6 \<and> message_type = ICMP6_ECHO_REQUEST);
        if \<not> is_echo then None
        else do { ident \<leftarrow> be_u16_at a 4; Some (ident, ident) } }
      else None)"

definition parse_quoted :: "bytes \<Rightarrow> u8 \<Rightarrow> flow_key option" where
  "parse_quoted quoted version = do {
     first \<leftarrow> get_at quoted 0;
     if drop_bit 4 first \<noteq> version then None
     else do {
       (src, dst, protocol, off) \<leftarrow> (if version = 4 then quoted_v4 quoted else quoted_v6 quoted);
       (src_port, dst_port) \<leftarrow> quoted_ports quoted protocol off;
       Some \<lparr>fk_src = src, fk_dst = dst, fk_protocol = protocol,
             fk_src_port = src_port, fk_dst_port = dst_port\<rparr> } }"

definition icmp_is_error :: "u8 \<Rightarrow> u8 \<Rightarrow> bool" where
  "icmp_is_error version icmp_type \<longleftrightarrow>
     (if version = 4
      then icmp_type \<in> {ICMP4_DEST_UNREACHABLE, ICMP4_TIME_EXCEEDED, ICMP4_PARAMETER_PROBLEM}
      else icmp_type \<in> {ICMP6_DEST_UNREACHABLE, ICMP6_PACKET_TOO_BIG, ICMP6_TIME_EXCEEDED,
                         ICMP6_PARAMETER_PROBLEM})"

definition parse_icmp :: "bytes \<Rightarrow> usize \<Rightarrow> usize \<Rightarrow> ip_addr \<Rightarrow> ip_addr \<Rightarrow> u8 \<Rightarrow> parsed option" where
  "parse_icmp packet total_len off src dst version =
     (if off + ICMP_HEADER_LEN > total_len then None
      else do {
        let protocol = (if version = 4 then IPPROTO_ICMP else IPPROTO_ICMPV6);
        icmp \<leftarrow> get_range packet off (off + ICMP_HEADER_LEN);
        icmp_type \<leftarrow> get_at icmp 0;
        let (echo_request, echo_reply) =
          (if version = 4 then (ICMP4_ECHO_REQUEST, ICMP4_ECHO_REPLY)
           else (ICMP6_ECHO_REQUEST, ICMP6_ECHO_REPLY));
        if icmp_type = echo_request \<or> icmp_type = echo_reply
        then do {
          ident \<leftarrow> be_u16_at icmp 4;
          Some \<lparr>p_key = \<lparr>fk_src = src, fk_dst = dst, fk_protocol = protocol,
                          fk_src_port = ident, fk_dst_port = ident\<rparr>,
                p_kind = (if icmp_type = echo_request then KindEchoRequest else KindEchoReply)\<rparr> }
        else if \<not> icmp_is_error version icmp_type then None
        else do {
          quoted \<leftarrow> get_range packet (off + ICMP_HEADER_LEN) total_len;
          key \<leftarrow> parse_quoted quoted version;
          if fk_src key \<noteq> dst then None
          else Some \<lparr>p_key = key, p_kind = KindError\<rparr> } })"

definition parse_flow :: "bytes \<Rightarrow> parsed option" where
  "parse_flow packet = do {
     header \<leftarrow> parse_header packet;
     if is_v4_fragment packet then None
     else do {
       let src = ih_src header;
       let dst = ih_dst header;
       let protocol = ih_protocol header;
       if protocol = IPPROTO_TCP \<or> protocol = IPPROTO_UDP
       then parse_transport packet (ih_total_len header) (ih_header_len header) src dst protocol
       else if protocol = IPPROTO_ICMP \<and> is_ipv4 src
       then parse_icmp packet (ih_total_len header) (ih_header_len header) src dst 4
       else if protocol = IPPROTO_ICMPV6 \<and> \<not> is_ipv4 src
       then parse_icmp packet (ih_total_len header) (ih_header_len header) src dst 6
       else None } }"

section \<open>What a classification guarantees\<close>

lemma parse_transport_SomeD:
  assumes "parse_transport packet n off src dst protocol = Some p"
  shows "fk_src (p_key p) = src \<and> fk_dst (p_key p) = dst \<and> fk_protocol (p_key p) = protocol \<and>
    (p_kind p = KindUdp \<and> protocol = IPPROTO_UDP \<or>
     (\<exists>flags. p_kind p = KindTcp flags \<and> protocol = IPPROTO_TCP \<and> plausible_tcp_flags flags))"
  using assms
  by (auto simp: parse_transport_def bind_eq_Some_conv protocol_numbers split: if_splits)

lemma parse_icmp_SomeD:
  assumes "parse_icmp packet n off src dst version = Some p"
  shows "(p_kind p = KindError \<and> fk_src (p_key p) = dst) \<or>
    (p_kind p \<in> {KindEchoRequest, KindEchoReply} \<and> fk_src (p_key p) = src \<and> fk_dst (p_key p) = dst \<and>
     fk_protocol (p_key p) = (if version = 4 then IPPROTO_ICMP else IPPROTO_ICMPV6) \<and>
     fk_src_port (p_key p) = fk_dst_port (p_key p))"
  using assms
  by (auto simp: parse_icmp_def Let_def bind_eq_Some_conv split: if_splits)

text \<open>Nothing beyond \<open>total_len\<close> is read, so transport padding cannot steer the classifier.\<close>

lemma parse_transport_trim:
  assumes "n \<le> length packet"
  shows "parse_transport (take n packet) n off src dst protocol
    = parse_transport packet n off src dst protocol"
  using assms by (simp add: parse_transport_def get_range_take cong: if_cong)

lemma parse_icmp_trim:
  assumes "n \<le> length packet"
  shows "parse_icmp (take n packet) n off src dst version = parse_icmp packet n off src dst version"
  using assms by (simp add: parse_icmp_def get_range_take cong: if_cong)

lemma is_v4_fragment_trim:
  assumes "parse_header packet = Some h"
  shows "is_v4_fragment (take (ih_total_len h) packet) = is_v4_fragment packet"
proof -
  have n: "20 \<le> ih_total_len h" "ih_total_len h \<le> length packet"
    using assms
    by (cases rule: parse_header_cases; use parse_v4_header_SomeD parse_v6_header_SomeD in fastforce)+
  then have "\<And>i. i < 20 \<Longrightarrow> get_at (take (ih_total_len h) packet) i = get_at packet i"
    by (simp add: get_at_take)
  moreover have "20 \<le> length (take (ih_total_len h) packet)" "20 \<le> length packet" using n by auto
  ultimately show ?thesis by (simp add: is_v4_fragment_def split: option.splits del: length_take)
qed

lemma parse_flow_cases:
  assumes "parse_flow packet = Some p" "parse_header packet = Some h"
  obtains (transport) "parse_transport packet (ih_total_len h) (ih_header_len h) (ih_src h) (ih_dst h) (ih_protocol h) = Some p"
  | (icmp4) "ih_protocol h = IPPROTO_ICMP" "is_ipv4 (ih_src h)"
      "parse_icmp packet (ih_total_len h) (ih_header_len h) (ih_src h) (ih_dst h) 4 = Some p"
  | (icmp6) "ih_protocol h = IPPROTO_ICMPV6" "\<not> is_ipv4 (ih_src h)"
      "parse_icmp packet (ih_total_len h) (ih_header_len h) (ih_src h) (ih_dst h) 6 = Some p"
  using assms by (auto simp: parse_flow_def Let_def split: if_splits)

section \<open>Property\<close>

text \<open>
  C30: a packet is attributed to a flow only under these conditions: it is not a fragment; ordinary
  traffic is attributed to the flow of its own addresses and protocol, with the TCP flag
  combinations of port scans refused and the ICMP of the other address family never matched; an
  ICMP error is attributed to the flow it quotes only if that flow's source is the address the error
  was sent to. The bytes beyond the IP length, which the sender of a transport message chooses
  freely, do not influence the attribution.
\<close>

theorem parse_flow_sound:
  assumes "parse_flow packet = Some p"
  shows "\<exists>h. parse_header packet = Some h \<and> \<not> is_v4_fragment packet
    \<and> parse_flow (take (ih_total_len h) packet) = Some p
    \<and> (if p_kind p = KindError then fk_src (p_key p) = ih_dst h
       else fk_src (p_key p) = ih_src h \<and> fk_dst (p_key p) = ih_dst h
         \<and> fk_protocol (p_key p) = ih_protocol h)
    \<and> (case p_kind p of
         KindTcp flags \<Rightarrow> ih_protocol h = IPPROTO_TCP \<and> plausible_tcp_flags flags
       | KindUdp \<Rightarrow> ih_protocol h = IPPROTO_UDP
       | _ \<Rightarrow> ih_protocol h = (if is_ipv4 (ih_src h) then IPPROTO_ICMP else IPPROTO_ICMPV6))"
proof -
  obtain h where h: "parse_header packet = Some h" and frag: "\<not> is_v4_fragment packet"
    using assms by (auto simp: parse_flow_def bind_eq_Some_conv split: if_splits)
  let ?n = "ih_total_len h"
  have n: "?n \<le> length packet" and trimmed: "parse_header (take ?n packet) = Some h"
    using h by (cases rule: parse_header_cases;
        use parse_v4_header_SomeD parse_v6_header_SomeD parse_v4_header_trim parse_v6_header_trim
        in \<open>fastforce simp: parse_header_def get_at_def\<close>)+
  have A: "parse_flow (take ?n packet) = Some p"
    unfolding assms [symmetric] using n by (simp add: parse_flow_def h trimmed Let_def is_v4_fragment_trim [OF h] parse_transport_trim
        parse_icmp_trim)
  have B: "(if p_kind p = KindError then fk_src (p_key p) = ih_dst h
       else fk_src (p_key p) = ih_src h \<and> fk_dst (p_key p) = ih_dst h
         \<and> fk_protocol (p_key p) = ih_protocol h)
    \<and> (case p_kind p of
         KindTcp flags \<Rightarrow> ih_protocol h = IPPROTO_TCP \<and> plausible_tcp_flags flags
       | KindUdp \<Rightarrow> ih_protocol h = IPPROTO_UDP
       | _ \<Rightarrow> ih_protocol h = (if is_ipv4 (ih_src h) then IPPROTO_ICMP else IPPROTO_ICMPV6))"
    using assms h
  proof (cases rule: parse_flow_cases)
    case transport
    from parse_transport_SomeD [OF this] show ?thesis by auto
  next
    case icmp4
    from parse_icmp_SomeD [OF icmp4(3)] icmp4(1,2) show ?thesis by auto
  next
    case icmp6
    from parse_icmp_SomeD [OF icmp6(3)] icmp6(1,2) show ?thesis by auto
  qed
  show ?thesis by (rule exI [of _ h], intro conjI h frag A B [THEN conjunct1] B [THEN conjunct2])
qed

text \<open>A DNS query of 10.0.0.1 and two bytes of padding.\<close>

theorem parse_flow_sound_witness:
  "parse_flow (take 28 ([0x45, 0, 0, 28, 0, 0, 0, 0, 64, 17, 0, 0, 10, 0, 0, 1, 10, 0, 0, 2,
                         0x10, 0, 0, 53, 0, 8, 0, 0] @ [0, 0]))
     = Some \<lparr>p_key = \<lparr>fk_src = IpV4 0x0a000001, fk_dst = IpV4 0x0a000002, fk_protocol = 17,
                       fk_src_port = 0x1000, fk_dst_port = 53\<rparr>, p_kind = KindUdp\<rparr>"
proof -
  let ?p = "[0x45, 0, 0, 28, 0, 0, 0, 0, 64, 17, 0, 0, 10, 0, 0, 1, 10, 0, 0, 2,
             0x10, 0, 0, 53, 0, 8, 0, 0] @ [0, 0] :: bytes"
  let ?h = "\<lparr>ih_src = IpV4 0x0a000001, ih_dst = IpV4 0x0a000002, ih_protocol = 17,
             ih_header_len = 20, ih_total_len = 28\<rparr>"
  let ?f = "\<lparr>p_key = \<lparr>fk_src = IpV4 0x0a000001, fk_dst = IpV4 0x0a000002, fk_protocol = 17,
                       fk_src_port = 0x1000, fk_dst_port = 53\<rparr>, p_kind = KindUdp\<rparr>"
  have h: "parse_header ?p = Some ?h"
    by (simp add: parse_header_def parse_v4_header_def get_at_def get_range_def from_be_bytes_def
        from_le_bytes_def)
  then have "parse_flow ?p = Some ?f"
    by (simp add: parse_flow_def is_v4_fragment_def parse_transport_def be_u16_at_def get_at_def
        get_range_def from_be_bytes_def from_le_bytes_def protocol_numbers)
  from parse_flow_sound [OF this] obtain h' where
    "parse_header ?p = Some h'" "parse_flow (take (ih_total_len h') ?p) = Some ?f" by blast
  moreover from this(1) h have "h' = ?h" by (simp only: option.inject)
  ultimately show ?thesis by simp
qed

end
