(* ===== verification/Firewall.thy ===== *)
theory Firewall
  imports Flow_Parser Constants "HOL-Library.Multiset"
begin

text \<open>
  The stateful ingress firewall (\<open>microtun-core/src/firewall.rs\<close>): a bounded table of locally
  opened flows with a per-peer quota. The capacity \<open>MAX_FLOWS\<close> is a field of the state, the
  peer capacity \<open>MAX_PEERS\<close> is the length of the counter array; heap and inline storage
  differ only in the capacity. The lemmas show that the counters are exact, what one packet can do
  to the entries of the peers, and, over any history of packets, that an inbound packet is admitted
  only on a flow its peer was sent an opening packet for.
\<close>

section \<open>State\<close>

definition MAX_FIREWALL_FLOWS :: usize where "MAX_FIREWALL_FLOWS = 64"
definition DEFAULT_FIREWALL_FLOWS :: usize where "DEFAULT_FIREWALL_FLOWS = MAX_FIREWALL_FLOWS"
definition DEFAULT_FIREWALL_FLOWS_PER_PEER :: usize where "DEFAULT_FIREWALL_FLOWS_PER_PEER = 8"

datatype inbound_policy = AllowAll | EstablishedOnly

record flow_entry =
  fe_peer :: peer_idx
  fe_flow :: flow_key
  fe_expires :: instant
  fe_last_seen :: instant
  fe_closing :: bool

record flow_timeouts =
  udp_timeout :: duration
  icmp_timeout :: duration
  tcp_timeout :: duration
  tcp_closing_timeout :: duration

record firewall =
  fw_timeouts :: flow_timeouts
  fw_max_flows :: usize
  fw_max_entries :: usize
  fw_max_entries_per_peer :: usize
  fw_entries :: "flow_entry list"
  fw_peer_counts :: "u16 list"

definition effective_timeout :: "flow_timeouts \<Rightarrow> flow_entry \<Rightarrow> duration" where
  "effective_timeout ts e =
     (if fk_protocol (fe_flow e) = IPPROTO_UDP then udp_timeout ts
      else if fk_protocol (fe_flow e) = IPPROTO_ICMP \<or> fk_protocol (fe_flow e) = IPPROTO_ICMPV6
      then icmp_timeout ts
      else if fe_closing e then tcp_closing_timeout ts
      else tcp_timeout ts)"

definition with_limits_and_timeouts :: "usize \<Rightarrow> usize \<Rightarrow> usize \<Rightarrow> usize \<Rightarrow> flow_timeouts \<Rightarrow> firewall" where
  "with_limits_and_timeouts max_flows max_peers max_entries max_entries_per_peer ts =
     \<lparr>fw_timeouts = ts, fw_max_flows = max_flows,
      fw_max_entries = min max_entries max_flows,
      fw_max_entries_per_peer = min (min max_entries_per_peer max_entries) max_flows,
      fw_entries = [], fw_peer_counts = replicate max_peers 0\<rparr>"

section \<open>Accounting\<close>

definition peer_position :: "firewall \<Rightarrow> peer_idx \<Rightarrow> usize option" where
  "peer_position fw peer =
     (if unat peer < length (fw_peer_counts fw) then Some (unat peer) else None)"

definition peer_count :: "firewall \<Rightarrow> peer_idx \<Rightarrow> usize" where
  "peer_count fw peer =
     (case peer_position fw peer of
        None \<Rightarrow> 0
      | Some pos \<Rightarrow> (case get_at (fw_peer_counts fw) pos of None \<Rightarrow> 0 | Some c \<Rightarrow> unat c))"

definition update_count :: "(u16 \<Rightarrow> u16) \<Rightarrow> firewall \<Rightarrow> peer_idx \<Rightarrow> firewall" where
  "update_count f fw peer =
     (case peer_position fw peer of
        None \<Rightarrow> fw
      | Some pos \<Rightarrow>
          (case get_at (fw_peer_counts fw) pos of
             None \<Rightarrow> fw
           | Some c \<Rightarrow> fw\<lparr>fw_peer_counts := (fw_peer_counts fw)[pos := f c]\<rparr>))"

definition increment_peer :: "firewall \<Rightarrow> peer_idx \<Rightarrow> firewall" where
  "increment_peer = update_count (\<lambda>c. sat_add c 1)"

definition decrement_peer :: "firewall \<Rightarrow> peer_idx \<Rightarrow> firewall" where
  "decrement_peer = update_count (\<lambda>c. sat_sub c 1)"

definition rebuild_peer_counts :: "firewall \<Rightarrow> firewall" where
  "rebuild_peer_counts fw =
     fold (\<lambda>entry fw. increment_peer fw (fe_peer entry)) (fw_entries fw)
       (fw\<lparr>fw_peer_counts := replicate (length (fw_peer_counts fw)) 0\<rparr>)"

definition collect_expired :: "firewall \<Rightarrow> instant \<Rightarrow> firewall" where
  "collect_expired fw now =
     (let previous_len = length (fw_entries fw);
          fw' = fw\<lparr>fw_entries := filter (\<lambda>entry. fe_expires entry > now) (fw_entries fw)\<rparr>
      in if length (fw_entries fw') \<noteq> previous_len then rebuild_peer_counts fw' else fw')"

section \<open>Victims\<close>

definition victim_key :: "flow_entry \<Rightarrow> u8 \<times> instant" where
  "victim_key e = (if fe_closing e then 0 else 1, fe_last_seen e)"

definition victim_owned_by :: "firewall \<Rightarrow> peer_idx \<Rightarrow> usize option" where
  "victim_owned_by fw peer =
     map_option fst
       (min_by (\<lambda>(i, e). victim_key e)
          (filter (\<lambda>(i, e). fe_peer e = peer) (enumerate 0 (fw_entries fw))))"

definition peer_try_from :: "usize \<Rightarrow> peer_idx option" where
  "peer_try_from pos = (if pos < 2 ^ 32 then Some (word_of_nat pos) else None)"

fun largest_owner :: "usize \<Rightarrow> u16 list \<Rightarrow> peer_idx option \<Rightarrow> usize \<Rightarrow> peer_idx option" where
  "largest_owner pos [] owner largest = owner"
| "largest_owner pos (c # cs) owner largest =
     (if unat c > largest then largest_owner (Suc pos) cs (peer_try_from pos) (unat c)
      else largest_owner (Suc pos) cs owner largest)"

definition fair_victim :: "firewall \<Rightarrow> peer_idx \<Rightarrow> usize option" where
  "fair_victim fw requester =
     (let requester_count = peer_count fw requester
      in if requester_count \<ge> fw_max_entries_per_peer fw then victim_owned_by fw requester
         else (case Option.bind (largest_owner 0 (fw_peer_counts fw) None requester_count)
                      (victim_owned_by fw) of
                 Some v \<Rightarrow> Some v
               | None \<Rightarrow> victim_owned_by fw requester))"

section \<open>Table operations\<close>

definition fw_replace :: "firewall \<Rightarrow> usize \<Rightarrow> flow_entry \<Rightarrow> firewall" where
  "fw_replace fw pos entry =
     (case get_at (fw_entries fw) pos of
        None \<Rightarrow> fw
      | Some previous \<Rightarrow>
          (let fw' = (if fe_peer previous \<noteq> fe_peer entry
                      then increment_peer (decrement_peer fw (fe_peer previous)) (fe_peer entry)
                      else fw)
           in fw'\<lparr>fw_entries := (fw_entries fw')[pos := entry]\<rparr>))"

definition fw_push :: "firewall \<Rightarrow> flow_entry \<Rightarrow> bool \<times> firewall" where
  "fw_push fw entry =
     (if length (fw_entries fw) \<ge> fw_max_entries fw then (False, fw)
      else if length (fw_entries fw) < fw_max_flows fw
      then (True, increment_peer (fw\<lparr>fw_entries := fw_entries fw @ [entry]\<rparr>) (fe_peer entry))
      else (False, fw))"

text \<open>The update of a live entry by a packet of its flow, in either direction.\<close>

definition refresh_entry :: "flow_timeouts \<Rightarrow> parsed \<Rightarrow> instant \<Rightarrow> flow_entry \<Rightarrow> flow_entry" where
  "refresh_entry ts p now e =
     (let e = e\<lparr>fe_last_seen := now, fe_closing := fe_closing e \<or> is_closing p\<rparr>
      in e\<lparr>fe_expires := instant_add now (effective_timeout ts e)\<rparr>)"

definition new_entry :: "flow_timeouts \<Rightarrow> peer_idx \<Rightarrow> flow_key \<Rightarrow> instant \<Rightarrow> flow_entry" where
  "new_entry ts peer key now =
     (let e = \<lparr>fe_peer = peer, fe_flow = key, fe_expires = now, fe_last_seen = now, fe_closing = False\<rparr>
      in e\<lparr>fe_expires := instant_add now (effective_timeout ts e)\<rparr>)"

definition open_flow :: "firewall \<Rightarrow> peer_idx \<Rightarrow> flow_entry \<Rightarrow> firewall" where
  "open_flow fw peer entry =
     (case (if peer_count fw peer < fw_max_entries_per_peer fw then fw_push fw entry else (False, fw)) of
        (True, fw') \<Rightarrow> fw'
      | (False, fw') \<Rightarrow>
          (case fair_victim fw' peer of Some victim \<Rightarrow> fw_replace fw' victim entry | None \<Rightarrow> fw'))"

definition observe_outbound :: "firewall \<Rightarrow> peer_idx \<Rightarrow> bytes \<Rightarrow> instant \<Rightarrow> firewall" where
  "observe_outbound fw peer packet now =
     (if peer_position fw peer = None then fw
      else case parse_flow packet of
        None \<Rightarrow> fw
      | Some p \<Rightarrow>
          if p_kind p = KindError then fw
          else (case position (\<lambda>e. fe_peer e = peer \<and> fe_expires e > now \<and> fe_flow e = p_key p) (fw_entries fw) of
             Some pos \<Rightarrow>
               fw\<lparr>fw_entries := (fw_entries fw)[pos := refresh_entry (fw_timeouts fw) p now (fw_entries fw ! pos)]\<rparr>
           | None \<Rightarrow>
               if \<not> opens_new_flow p then fw
               else open_flow (collect_expired fw now) peer (new_entry (fw_timeouts fw) peer (p_key p) now)))"

definition allows_inbound :: "firewall \<Rightarrow> peer_idx \<Rightarrow> bytes \<Rightarrow> instant \<Rightarrow> bool \<times> firewall" where
  "allows_inbound fw peer packet now =
     (case parse_flow packet of
        None \<Rightarrow> (False, fw)
      | Some p \<Rightarrow>
          let match_reverse =
            (case position (\<lambda>e. fe_peer e = peer \<and> fe_expires e > now \<and> is_reverse_of (p_key p) (fe_flow e))
                    (fw_entries fw) of
               None \<Rightarrow> (False, fw)
             | Some pos \<Rightarrow>
                 (True, fw\<lparr>fw_entries := (fw_entries fw)[pos :=
                    refresh_entry (fw_timeouts fw) p now (fw_entries fw ! pos)]\<rparr>))
          in (case p_kind p of
                KindError \<Rightarrow>
                  (\<exists>e\<in>set (fw_entries fw). fe_peer e = peer \<and> fe_expires e > now \<and> fe_flow e = p_key p, fw)
              | KindTcp flags \<Rightarrow>
                  if flags AND TCP_SYN \<noteq> 0 \<and> flags AND TCP_ACK = 0 then (False, fw) else match_reverse
              | KindEchoRequest \<Rightarrow> (False, fw)
              | _ \<Rightarrow> match_reverse))"

definition fw_remove_peer :: "firewall \<Rightarrow> peer_idx \<Rightarrow> firewall" where
  "fw_remove_peer fw peer =
     (let fw' = fw\<lparr>fw_entries := filter (\<lambda>e. fe_peer e \<noteq> peer) (fw_entries fw)\<rparr>
      in update_count (\<lambda>c. 0) fw' peer)"

section \<open>The counters are exact\<close>

definition owned :: "flow_entry list \<Rightarrow> peer_idx \<Rightarrow> nat" where
  "owned es peer = length (filter (\<lambda>e. fe_peer e = peer) es)"

definition counts_exact :: "firewall \<Rightarrow> bool" where
  "counts_exact fw \<longleftrightarrow>
     (\<forall>peer. unat peer < length (fw_peer_counts fw) \<longrightarrow>
        unat (fw_peer_counts fw ! unat peer) = owned (fw_entries fw) peer)
     \<and> (\<forall>e \<in> set (fw_entries fw). unat (fe_peer e) < length (fw_peer_counts fw))"

definition fw_inv :: "firewall \<Rightarrow> bool" where
  "fw_inv fw \<longleftrightarrow> counts_exact fw \<and> length (fw_peer_counts fw) \<le> 2 ^ 32
     \<and> fw_max_flows fw < 2 ^ 16 \<and> fw_max_entries fw \<le> fw_max_flows fw
     \<and> fw_max_entries_per_peer fw \<le> fw_max_entries fw
     \<and> length (fw_entries fw) \<le> fw_max_entries fw
     \<and> (\<forall>peer. owned (fw_entries fw) peer \<le> fw_max_entries_per_peer fw)"

subsection \<open>Owned entries\<close>

lemma owned_simps [simp]:
  "owned [] q = 0" "owned (e # es) q = (if fe_peer e = q then 1 else 0) + owned es q"
  "owned (es @ fs) q = owned es q + owned fs q"
  by (simp_all add: owned_def)

lemma owned_le_length: "owned es q \<le> length es"
  by (simp add: owned_def)

lemma owned_filter_le: "owned (filter P es) q \<le> owned es q"
  by (induction es) auto

lemma owned_pos_iff: "0 < owned es q \<longleftrightarrow> (\<exists>e\<in>set es. fe_peer e = q)"
  by (induction es) auto

lemma owned_filter_other:
  "owned (filter (\<lambda>e. fe_peer e \<noteq> p) es) q = (if q = p then 0 else owned es q)"
  by (induction es) auto

lemma owned_two_peers: "p \<noteq> q \<Longrightarrow> owned es p + owned es q \<le> length es"
  by (induction es) auto

lemma owned_update:
  "i < length es \<Longrightarrow> owned (es[i := e]) q + (if fe_peer (es ! i) = q then 1 else 0)
     = owned es q + (if fe_peer e = q then 1 else 0)"
proof (induction es arbitrary: i)
  case (Cons a es)
  then show ?case by (cases i) auto
qed simp

lemma owned_update_same:
  "i < length es \<Longrightarrow> fe_peer e = fe_peer (es ! i) \<Longrightarrow> owned (es[i := e]) q = owned es q"
  using owned_update [of i es e q] by (auto split: if_splits)

lemma refresh_entry_simps [simp]:
  "fe_peer (refresh_entry ts p now e) = fe_peer e" "fe_flow (refresh_entry ts p now e) = fe_flow e"
  "fe_last_seen (refresh_entry ts p now e) = now"
  "fe_closing (refresh_entry ts p now e) \<longleftrightarrow> fe_closing e \<or> is_closing p"
  by (simp_all add: refresh_entry_def Let_def)

lemma new_entry_simps [simp]:
  "fe_peer (new_entry ts peer key now) = peer" "fe_flow (new_entry ts peer key now) = key"
  "fe_last_seen (new_entry ts peer key now) = now" "\<not> fe_closing (new_entry ts peer key now)"
  by (simp_all add: new_entry_def Let_def)

subsection \<open>Counter updates\<close>

lemma update_count_eq:
  "unat peer < length (fw_peer_counts fw) \<Longrightarrow> update_count f fw peer =
     fw\<lparr>fw_peer_counts := (fw_peer_counts fw)[unat peer := f (fw_peer_counts fw ! unat peer)]\<rparr>"
  by (simp add: update_count_def peer_position_def get_at_def)

lemma update_count_fields [simp]:
  "fw_entries (update_count f fw peer) = fw_entries fw"
  "fw_timeouts (update_count f fw peer) = fw_timeouts fw"
  "fw_max_flows (update_count f fw peer) = fw_max_flows fw"
  "fw_max_entries (update_count f fw peer) = fw_max_entries fw"
  "fw_max_entries_per_peer (update_count f fw peer) = fw_max_entries_per_peer fw"
  "length (fw_peer_counts (update_count f fw peer)) = length (fw_peer_counts fw)"
  by (simp_all add: update_count_def split: option.splits)

lemma update_count_nth:
  assumes "unat peer < length (fw_peer_counts fw)"
  shows "fw_peer_counts (update_count f fw peer) ! unat q =
    (if q = peer then f (fw_peer_counts fw ! unat peer) else fw_peer_counts fw ! unat q)"
  using assms by (auto simp: update_count_eq nth_list_update dest: unsigned_word_eqI)

lemma peer_count_exact:
  assumes "counts_exact fw"
  shows "peer_count fw peer = owned (fw_entries fw) peer"
proof (cases "unat peer < length (fw_peer_counts fw)")
  case True
  with assms show ?thesis by (simp add: peer_count_def peer_position_def get_at_def counts_exact_def)
next
  case False
  with assms have "owned (fw_entries fw) peer = 0"
    by (auto simp: counts_exact_def owned_def filter_empty_conv)
  with False show ?thesis by (simp add: peer_count_def peer_position_def)
qed

lemma unat_count_inc: "unat (c :: u16) + 1 < 2 ^ 16 \<Longrightarrow> unat (sat_add c 1) = unat c + 1"
  by (simp add: unat_sat_add)

lemma fold_increment:
  assumes "\<forall>e\<in>set es. unat (fe_peer e) < length (fw_peer_counts fw)"
    and "\<forall>q. unat q < length (fw_peer_counts fw) \<longrightarrow> unat (fw_peer_counts fw ! unat q) + owned es q < 2 ^ 16"
  defines "fw' \<equiv> fold (\<lambda>e fw. increment_peer fw (fe_peer e)) es fw"
  shows "fw' = fw\<lparr>fw_peer_counts := fw_peer_counts fw'\<rparr>
    \<and> length (fw_peer_counts fw') = length (fw_peer_counts fw)
    \<and> (\<forall>q. unat q < length (fw_peer_counts fw) \<longrightarrow>
         unat (fw_peer_counts fw' ! unat q) = unat (fw_peer_counts fw ! unat q) + owned es q)"
  using assms(1,2) unfolding fw'_def
proof (induction es arbitrary: fw)
  case (Cons e es)
  let ?p = "fe_peer e"
  let ?fw = "increment_peer fw ?p"
  have p: "unat ?p < length (fw_peer_counts fw)" using Cons.prems(1) by simp
  have "unat (fw_peer_counts fw ! unat ?p) + 1 < 2 ^ 16"
    using Cons.prems(2) [rule_format, OF p] by simp
  then have nth: "unat (fw_peer_counts ?fw ! unat q) =
      unat (fw_peer_counts fw ! unat q) + (if ?p = q then 1 else 0)" for q
    using p by (auto simp: increment_peer_def update_count_nth unat_count_inc)
  have eq: "?fw = fw\<lparr>fw_peer_counts := fw_peer_counts ?fw\<rparr>"
    using p by (simp add: increment_peer_def update_count_eq)
  have len: "length (fw_peer_counts ?fw) = length (fw_peer_counts fw)"
    by (simp add: increment_peer_def)
  have IH: "fold (\<lambda>e fw. increment_peer fw (fe_peer e)) es ?fw =
      ?fw\<lparr>fw_peer_counts := fw_peer_counts (fold (\<lambda>e fw. increment_peer fw (fe_peer e)) es ?fw)\<rparr>
    \<and> length (fw_peer_counts (fold (\<lambda>e fw. increment_peer fw (fe_peer e)) es ?fw)) = length (fw_peer_counts ?fw)
    \<and> (\<forall>q. unat q < length (fw_peer_counts ?fw) \<longrightarrow>
         unat (fw_peer_counts (fold (\<lambda>e fw. increment_peer fw (fe_peer e)) es ?fw) ! unat q)
          = unat (fw_peer_counts ?fw ! unat q) + owned es q)"
  proof (rule Cons.IH)
    show "\<forall>e\<in>set es. unat (fe_peer e) < length (fw_peer_counts ?fw)" using Cons.prems(1) len by simp
    show "\<forall>q. unat q < length (fw_peer_counts ?fw) \<longrightarrow> unat (fw_peer_counts ?fw ! unat q) + owned es q < 2 ^ 16"
      using Cons.prems(2) unfolding len nth by (auto split: if_splits)
  qed
  have "?fw\<lparr>fw_peer_counts := X\<rparr> = fw\<lparr>fw_peer_counts := X\<rparr>" for X
    by (subst eq) simp
  with IH nth len show ?case by simp
qed simp

lemma rebuild_peer_counts_spec:
  assumes "\<forall>e\<in>set (fw_entries fw). unat (fe_peer e) < length (fw_peer_counts fw)"
    and "length (fw_entries fw) < 2 ^ 16"
  defines "fw' \<equiv> rebuild_peer_counts fw"
  shows "fw' = fw\<lparr>fw_peer_counts := fw_peer_counts fw'\<rparr>"
    and "length (fw_peer_counts fw') = length (fw_peer_counts fw)" and "counts_exact fw'"
proof -
  let ?z = "fw\<lparr>fw_peer_counts := replicate (length (fw_peer_counts fw)) 0\<rparr>"
  have "owned (fw_entries fw) q < 2 ^ 16" for q
    using owned_le_length [of "fw_entries fw" q] assms(2) by linarith
  then have *: "fw' = ?z\<lparr>fw_peer_counts := fw_peer_counts fw'\<rparr>
    \<and> length (fw_peer_counts fw') = length (fw_peer_counts ?z)
    \<and> (\<forall>q. unat q < length (fw_peer_counts ?z) \<longrightarrow>
         unat (fw_peer_counts fw' ! unat q) = unat (fw_peer_counts ?z ! unat q) + owned (fw_entries fw) q)"
    unfolding fw'_def rebuild_peer_counts_def by (intro fold_increment) (use assms(1) in auto)
  then show eq: "fw' = fw\<lparr>fw_peer_counts := fw_peer_counts fw'\<rparr>"
    and len: "length (fw_peer_counts fw') = length (fw_peer_counts fw)" by simp_all
  have "fw_entries fw' = fw_entries fw" by (subst eq) simp
  with * len assms(1) show "counts_exact fw'" by (simp add: counts_exact_def)
qed

lemma collect_expired_entries:
  assumes "fw_inv fw"
  shows "fw_entries (collect_expired fw now) = filter (\<lambda>e. fe_expires e > now) (fw_entries fw)"
    and "fw_timeouts (collect_expired fw now) = fw_timeouts fw"
    and "fw_max_entries (collect_expired fw now) = fw_max_entries fw"
    and "fw_max_entries_per_peer (collect_expired fw now) = fw_max_entries_per_peer fw"
    and "length (fw_peer_counts (collect_expired fw now)) = length (fw_peer_counts fw)"
    and "fw_inv (collect_expired fw now)"
proof -
  let ?live = "\<lambda>e. fe_expires e > now"
  let ?fw = "fw\<lparr>fw_entries := filter ?live (fw_entries fw)\<rparr>"
  let ?c = "collect_expired fw now"
  have range: "\<forall>e\<in>set (fw_entries ?fw). unat (fe_peer e) < length (fw_peer_counts ?fw)"
    using assms by (auto simp: fw_inv_def counts_exact_def)
  have "length (fw_entries fw) < 2 ^ 16" using assms by (auto simp: fw_inv_def)
  from le_less_trans [OF length_filter_le [of ?live] this] have small: "length (fw_entries ?fw) < 2 ^ 16"
    by simp
  have c: "?c = ?fw\<lparr>fw_peer_counts := fw_peer_counts ?c\<rparr> \<and>
    length (fw_peer_counts ?c) = length (fw_peer_counts fw) \<and> counts_exact ?c"
  proof (cases "length (filter ?live (fw_entries fw)) = length (fw_entries fw)")
    case True
    then have "filter ?live (fw_entries fw) = fw_entries fw"
      by (metis filter_id_conv length_filter_less less_irrefl)
    with assms show ?thesis by (simp add: collect_expired_def fw_inv_def)
  next
    case False
    with rebuild_peer_counts_spec [OF range small] show ?thesis
      by (simp add: collect_expired_def Let_def)
  qed
  show es: "fw_entries ?c = filter ?live (fw_entries fw)" by (subst conjunct1 [OF c]) simp
  show "fw_timeouts ?c = fw_timeouts fw" by (subst conjunct1 [OF c]) simp
  show me: "fw_max_entries ?c = fw_max_entries fw" by (subst conjunct1 [OF c]) simp
  show mp: "fw_max_entries_per_peer ?c = fw_max_entries_per_peer fw" by (subst conjunct1 [OF c]) simp
  have mf: "fw_max_flows ?c = fw_max_flows fw" by (subst conjunct1 [OF c]) simp
  show "length (fw_peer_counts ?c) = length (fw_peer_counts fw)" using c by simp
  show "fw_inv ?c"
    using assms c owned_filter_le [of ?live "fw_entries fw"] length_filter_le [of ?live "fw_entries fw"]
    unfolding fw_inv_def es me mp mf by (metis le_trans)
qed

subsection \<open>Victims\<close>

lemma victim_owned_by_SomeD:
  assumes "victim_owned_by fw peer = Some v"
  shows "v < length (fw_entries fw) \<and> fe_peer (fw_entries fw ! v) = peer"
  using assms min_by_SomeD
  by (fastforce simp: victim_owned_by_def in_set_enumerate_eq)

lemma victim_owned_by_None_iff:
  "victim_owned_by fw peer = None \<longleftrightarrow> owned (fw_entries fw) peer = 0"
proof -
  have "victim_owned_by fw peer = None \<longleftrightarrow> (\<forall>(i, e)\<in>set (enumerate 0 (fw_entries fw)). fe_peer e \<noteq> peer)"
    by (auto simp: victim_owned_by_def filter_empty_conv)
  also have "\<dots> \<longleftrightarrow> (\<forall>e\<in>set (fw_entries fw). fe_peer e \<noteq> peer)"
  proof -
    have "set (fw_entries fw) = snd ` set (enumerate 0 (fw_entries fw))" by (simp flip: set_map)
    then show ?thesis by auto
  qed
  also have "\<dots> \<longleftrightarrow> owned (fw_entries fw) peer = 0" by (auto simp: owned_def filter_empty_conv)
  finally show ?thesis .
qed

lemma largest_owner_SomeD:
  assumes "largest_owner pos cs owner l = Some q"
  shows "owner = Some q \<or> (\<exists>i < length cs. q = word_of_nat (pos + i) \<and> l < unat (cs ! i))"
  using assms
proof (induction cs arbitrary: pos owner l)
  case (Cons c cs)
  show ?case
  proof (cases "l < unat c")
    case True
    with Cons.prems have "largest_owner (Suc pos) cs (peer_try_from pos) (unat c) = Some q" by simp
    from Cons.IH [OF this] show ?thesis
    proof (elim disjE exE conjE)
      assume "peer_try_from pos = Some q"
      with True show ?thesis
        by (intro disjI2 exI [of _ 0]) (auto simp: peer_try_from_def split: if_splits)
    next
      fix i assume "i < length cs" "q = word_of_nat (Suc pos + i)" "unat c < unat (cs ! i)"
      with True show ?thesis by (intro disjI2 exI [of _ "Suc i"]) auto
    qed
  next
    case False
    with Cons.prems have "largest_owner (Suc pos) cs owner l = Some q" by simp
    from Cons.IH [OF this] show ?thesis
      by (elim disjE exE conjE) (auto intro!: exI [of _ "Suc _"])
  qed
qed simp

lemma largest_owner_NoneD:
  assumes "largest_owner pos cs owner l = None" "pos + length cs \<le> 2 ^ 32"
  shows "owner = None \<and> (\<forall>c\<in>set cs. unat c \<le> l)"
  using assms
proof (induction cs arbitrary: pos owner l)
  case (Cons c cs)
  have b: "Suc pos + length cs \<le> 2 ^ 32" using Cons.prems(2) by simp
  show ?case
  proof (cases "l < unat c")
    case True
    with Cons.prems have "largest_owner (Suc pos) cs (peer_try_from pos) (unat c) = None" by simp
    from Cons.IH [OF this b] Cons.prems(2) show ?thesis by (simp add: peer_try_from_def)
  next
    case False
    with Cons.prems have "largest_owner (Suc pos) cs owner l = None" by simp
    from Cons.IH [OF this b] False show ?thesis by simp
  qed
qed simp

lemma count_slot_peer:
  assumes "i < length (fw_peer_counts fw)" "length (fw_peer_counts fw) \<le> 2 ^ 32"
  shows "unat (word_of_nat i :: peer_idx) = i"
  using assms by (simp add: unat_of_nat)

lemma fair_victim_SomeD:
  assumes "fw_inv fw" "fair_victim fw peer = Some v"
  defines "q \<equiv> fe_peer (fw_entries fw ! v)"
  shows "v < length (fw_entries fw) \<and>
    (q = peer \<or> owned (fw_entries fw) peer < fw_max_entries_per_peer fw
       \<and> owned (fw_entries fw) peer < owned (fw_entries fw) q)"
proof -
  let ?n = "owned (fw_entries fw) peer"
  have ex: "counts_exact fw" and len: "length (fw_peer_counts fw) \<le> 2 ^ 32"
    using assms(1) by (auto simp: fw_inv_def)
  have n: "peer_count fw peer = ?n" using peer_count_exact [OF ex] .
  consider (own) "victim_owned_by fw peer = Some v"
    | (other) r where "?n < fw_max_entries_per_peer fw"
      "largest_owner 0 (fw_peer_counts fw) None ?n = Some r" "victim_owned_by fw r = Some v"
    using assms(2) by (auto simp: fair_victim_def Let_def n split: if_splits option.splits bind_splits)
  then show ?thesis
  proof cases
    case own
    from victim_owned_by_SomeD [OF own] show ?thesis by (simp add: q_def)
  next
    case other
    from largest_owner_SomeD [OF other(2)] obtain i where
      i: "i < length (fw_peer_counts fw)" "r = word_of_nat i" "?n < unat (fw_peer_counts fw ! i)" by auto
    have "unat r = i" using i count_slot_peer [OF i(1) len] by simp
    with ex i(1,3) have "?n < owned (fw_entries fw) r" by (metis counts_exact_def)
    with victim_owned_by_SomeD [OF other(3)] other(1) show ?thesis by (simp add: q_def)
  qed
qed

lemma fair_victim_exists:
  assumes "fw_inv fw" "fw_entries fw \<noteq> []" "0 < fw_max_entries_per_peer fw"
  shows "\<exists>v. fair_victim fw peer = Some v"
proof (rule ccontr)
  assume "\<nexists>v. fair_victim fw peer = Some v"
  then have none: "fair_victim fw peer = None" by simp
  have ex: "counts_exact fw" and len: "length (fw_peer_counts fw) \<le> 2 ^ 32"
    using assms(1) by (auto simp: fw_inv_def)
  let ?n = "owned (fw_entries fw) peer"
  have n: "peer_count fw peer = ?n" using peer_count_exact [OF ex] .
  have own: "victim_owned_by fw peer = None"
    using none by (auto simp: fair_victim_def Let_def split: if_splits option.splits)
  then have zero: "?n = 0" by (simp add: victim_owned_by_None_iff)
  obtain e where e: "e \<in> set (fw_entries fw)" using assms(2) by (cases "fw_entries fw") auto
  let ?q = "fe_peer e"
  have q: "unat ?q < length (fw_peer_counts fw)" using ex e by (auto simp: counts_exact_def)
  have "0 < owned (fw_entries fw) ?q" using e by (auto simp: owned_pos_iff)
  with ex q have big: "0 < unat (fw_peer_counts fw ! unat ?q)" by (simp add: counts_exact_def)
  have bind: "Option.bind (largest_owner 0 (fw_peer_counts fw) None 0) (victim_owned_by fw) = None"
    using none zero assms(3) by (auto simp: fair_victim_def Let_def n split: if_splits option.splits)
  show False
  proof (cases "largest_owner 0 (fw_peer_counts fw) None 0")
    case None
    from largest_owner_NoneD [OF this] len q big show False
      by (metis add_0 gr_zeroI le_zero_eq less_irrefl nth_mem)
  next
    case (Some r)
    from largest_owner_SomeD [OF this] obtain i where
      i: "i < length (fw_peer_counts fw)" "r = word_of_nat i" "0 < unat (fw_peer_counts fw ! i)" by auto
    have "unat r = i" using i count_slot_peer [OF i(1) len] by simp
    with ex i(1,3) have "0 < owned (fw_entries fw) r" by (metis counts_exact_def)
    with bind Some victim_owned_by_None_iff [of fw r] show False by simp
  qed
qed

subsection \<open>Insertions\<close>

lemma counts_exact_push:
  assumes "fw_inv fw" "unat (fe_peer e) < length (fw_peer_counts fw)" "length (fw_entries fw) < fw_max_flows fw"
  shows "counts_exact (increment_peer (fw\<lparr>fw_entries := fw_entries fw @ [e]\<rparr>) (fe_peer e))"
proof -
  have "owned (fw_entries fw) (fe_peer e) + 1 < 2 ^ 16"
    using assms owned_le_length [of "fw_entries fw" "fe_peer e"] by (auto simp: fw_inv_def)
  then show ?thesis
    using assms by (auto simp: counts_exact_def fw_inv_def increment_peer_def update_count_nth unat_count_inc)
qed

lemma counts_exact_replace:
  assumes "fw_inv fw" "unat (fe_peer e) < length (fw_peer_counts fw)" "v < length (fw_entries fw)"
  shows "counts_exact (fw_replace fw v e)" and "fw_entries (fw_replace fw v e) = (fw_entries fw)[v := e]"
    and "length (fw_peer_counts (fw_replace fw v e)) = length (fw_peer_counts fw)"
proof -
  let ?es = "fw_entries fw"
  let ?p = "fe_peer (?es ! v)"
  let ?r = "fw_replace fw v e"
  show es: "fw_entries ?r = ?es[v := e]" and len: "length (fw_peer_counts ?r) = length (fw_peer_counts fw)"
    using assms(3)
    by (simp_all add: fw_replace_def get_at_def Let_def increment_peer_def decrement_peer_def)
  have ex: "counts_exact fw" using assms(1) by (simp add: fw_inv_def)
  have p: "unat ?p < length (fw_peer_counts fw)"
    using ex assms(3) by (simp add: counts_exact_def)
  have range: "\<forall>x\<in>set (?es[v := e]). unat (fe_peer x) < length (fw_peer_counts fw)"
    using ex assms(2) set_update_subset_insert [of ?es v e] by (auto simp: counts_exact_def)
  have "unat (fw_peer_counts ?r ! unat q) = owned (?es[v := e]) q"
    if q: "unat q < length (fw_peer_counts fw)" for q
  proof (cases "?p = fe_peer e")
    case True
    then show ?thesis
      using ex q assms(3) by (simp add: fw_replace_def get_at_def counts_exact_def owned_update_same)
  next
    case False
    have cp: "0 < owned ?es ?p" using assms(3) by (auto simp: owned_pos_iff)
    have small: "owned ?es (fe_peer e) + 1 < 2 ^ 16"
    proof -
      have "owned ?es (fe_peer e) + owned ?es ?p \<le> length ?es"
        using False by (intro owned_two_peers) simp
      then show ?thesis using cp assms(1) by (auto simp: fw_inv_def)
    qed
    have c: "unat (fw_peer_counts fw ! unat x) = owned ?es x" if "unat x < length (fw_peer_counts fw)" for x
      using ex that by (simp add: counts_exact_def)
    show ?thesis
      using owned_update [OF assms(3), of e q] False assms(2,3) p q cp small c
      by (auto simp: fw_replace_def get_at_def Let_def increment_peer_def decrement_peer_def
          update_count_nth unat_count_inc unat_sat_sub split: if_splits)
  qed
  with range es len show "counts_exact ?r" by (simp add: counts_exact_def)
qed

lemma fw_replace_limits [simp]:
  "fw_timeouts (fw_replace fw v e) = fw_timeouts fw"
  "fw_max_flows (fw_replace fw v e) = fw_max_flows fw"
  "fw_max_entries (fw_replace fw v e) = fw_max_entries fw"
  "fw_max_entries_per_peer (fw_replace fw v e) = fw_max_entries_per_peer fw"
  by (simp_all add: fw_replace_def Let_def increment_peer_def decrement_peer_def split: option.splits)

text \<open>
  A new entry is appended, or takes the place of a victim that is the requester's own or, below the
  requester's quota, of a peer with strictly more entries; only an empty table or a zero quota
  refuses it.
\<close>

lemma open_flow_cases:
  assumes "fw_inv fw" "unat peer < length (fw_peer_counts fw)" "fe_peer e = peer"
  defines "es \<equiv> fw_entries fw"
  obtains (push) "fw_inv (open_flow fw peer e)" "fw_entries (open_flow fw peer e) = es @ [e]"
      "owned es peer < fw_max_entries_per_peer fw"
  | (replace) v where "fw_inv (open_flow fw peer e)" "fw_entries (open_flow fw peer e) = es[v := e]" "v < length es"
      "fe_peer (es ! v) = peer \<or> owned es peer < fw_max_entries_per_peer fw \<and> owned es peer < owned es (fe_peer (es ! v))"
  | (refuse) "open_flow fw peer e = fw" "fw_max_entries_per_peer fw = 0"
proof (cases "owned es peer < fw_max_entries_per_peer fw \<and> length es < fw_max_entries fw")
  case True
  have n: "peer_count fw peer = owned es peer"
    using assms(1) peer_count_exact by (simp add: es_def fw_inv_def)
  have cap: "length es < fw_max_flows fw" using True assms(1) by (auto simp: fw_inv_def)
  let ?fw = "increment_peer (fw\<lparr>fw_entries := es @ [e]\<rparr>) peer"
  have o: "open_flow fw peer e = ?fw"
    using True cap by (simp add: open_flow_def n fw_push_def es_def assms(3))
  have "counts_exact ?fw" using counts_exact_push [OF assms(1), of e] assms cap by simp
  then have "fw_inv ?fw" using assms(1,3) True
    by (auto simp: fw_inv_def es_def increment_peer_def)
  then show thesis using push True o by (simp add: increment_peer_def)
next
  case False
  have n: "peer_count fw peer = owned es peer"
    using assms(1) peer_count_exact by (simp add: es_def fw_inv_def)
  have o: "open_flow fw peer e =
      (case fair_victim fw peer of Some victim \<Rightarrow> fw_replace fw victim e | None \<Rightarrow> fw)"
    using False by (auto simp: open_flow_def n fw_push_def es_def)
  show thesis
  proof (cases "fair_victim fw peer")
    case (Some v)
    have v: "v < length es" "fe_peer (es ! v) = peer \<or>
        owned es peer < fw_max_entries_per_peer fw \<and> owned es peer < owned es (fe_peer (es ! v))"
      using fair_victim_SomeD [OF assms(1) Some] by (auto simp: es_def)
    let ?fw = "fw_replace fw v e"
    have r: "counts_exact ?fw" "fw_entries ?fw = es[v := e]" "length (fw_peer_counts ?fw) = length (fw_peer_counts fw)"
      using counts_exact_replace [OF assms(1), of e v] assms(2,3) v(1) by (simp_all add: es_def)
    have "owned (es[v := e]) q \<le> fw_max_entries_per_peer fw" for q
      using owned_update [OF v(1), of e q] v(2) assms(1,3)
      by (auto simp: fw_inv_def es_def split: if_splits dest: spec [of _ q])
    then have "fw_inv ?fw" using r assms(1) by (auto simp: fw_inv_def es_def)
    then show thesis using replace [of v] o Some r v by simp
  next
    case None
    have "fw_max_entries_per_peer fw = 0"
    proof (rule ccontr)
      assume pos: "fw_max_entries_per_peer fw \<noteq> 0"
      with None fair_victim_exists [OF assms(1), of peer] have "es = []" by (auto simp: es_def)
      with False pos assms(1) show False by (auto simp: fw_inv_def)
    qed
    with refuse o None show thesis by simp
  qed
qed

section \<open>Histories\<close>

datatype fw_event = Sent peer_idx bytes instant | Received peer_idx bytes instant | PeerRemoved peer_idx

fun fw_step :: "fw_event \<Rightarrow> firewall \<Rightarrow> firewall" where
  "fw_step (Sent peer packet now) fw = observe_outbound fw peer packet now"
| "fw_step (Received peer packet now) fw = snd (allows_inbound fw peer packet now)"
| "fw_step (PeerRemoved peer) fw = fw_remove_peer fw peer"

text \<open>
  What a history says about one flow, without a table. An event touches the flow if it is a packet of it sent to the
  peer, or a packet in the reverse direction received from the peer that is not itself an attempt to open
  a flow. The lifetime after a packet depends on the protocol and, for TCP, on whether a FIN or RST
  has been seen since the flow was opened. \<open>live_on\<close> follows one life of a flow, the closing flag and
  the expiry: a packet renews it only before the expiry, and the removal of the peer ends it.
\<close>

fun touches :: "fw_event \<Rightarrow> peer_idx \<Rightarrow> flow_key \<Rightarrow> (parsed \<times> instant) option" where
  "touches (Sent p packet t) peer key =
     (case parse_flow packet of
        Some q \<Rightarrow> if p = peer \<and> p_kind q \<noteq> KindError \<and> p_key q = key then Some (q, t) else None
      | None \<Rightarrow> None)"
| "touches (Received p packet t) peer key =
     (case parse_flow packet of
        Some q \<Rightarrow> if p = peer \<and> p_kind q \<noteq> KindError \<and> (\<not> opens_new_flow q \<or> p_kind q = KindUdp) \<and> is_reverse_of (p_key q) key
                  then Some (q, t) else None
      | None \<Rightarrow> None)"
| "touches (PeerRemoved p) peer key = None"

definition flow_lifetime :: "flow_timeouts \<Rightarrow> flow_key \<Rightarrow> bool \<Rightarrow> duration" where
  "flow_lifetime ts key closing =
     (if fk_protocol key = 17 then udp_timeout ts
      else if fk_protocol key \<in> {1, 58} then icmp_timeout ts
      else if closing then tcp_closing_timeout ts else tcp_timeout ts)"

fun live_on :: "flow_timeouts \<Rightarrow> peer_idx \<Rightarrow> flow_key \<Rightarrow> fw_event \<Rightarrow> (bool \<times> instant) option \<Rightarrow> (bool \<times> instant) option" where
  "live_on ts peer key ev None = None"
| "live_on ts peer key ev (Some (closing, expiry)) =
     (if ev = PeerRemoved peer then None
      else case touches ev peer key of
        None \<Rightarrow> Some (closing, expiry)
      | Some (q, t) \<Rightarrow>
          if t < expiry then Some (closing \<or> is_closing q, instant_add t (flow_lifetime ts key (closing \<or> is_closing q)))
          else Some (closing, expiry))"

text \<open>A flow-opening packet was sent to the peer, and the life it began has come to this closing flag and expiry.\<close>

definition held :: "flow_timeouts \<Rightarrow> fw_event list \<Rightarrow> peer_idx \<Rightarrow> flow_key \<Rightarrow> bool \<Rightarrow> instant \<Rightarrow> bool" where
  "held ts h peer key closing expiry \<longleftrightarrow>
     (\<exists>earlier packet p t later. h = earlier @ Sent peer packet t # later \<and> parse_flow packet = Some p \<and> opens_new_flow p \<and> p_key p = key \<and>
        fold (live_on ts peer key) later (Some (False, instant_add t (flow_lifetime ts key False))) = Some (closing, expiry))"

lemma effective_timeout_lifetime: "effective_timeout ts e = flow_lifetime ts (fe_flow e) (fe_closing e)"
  by (simp add: effective_timeout_def flow_lifetime_def protocol_numbers)

lemma held_snoc:
  assumes "held ts h peer key c x" "live_on ts peer key ev (Some (c, x)) = Some (c', x')"
  shows "held ts (h @ [ev]) peer key c' x'"
proof -
  from assms(1) obtain earlier packet p t later where h: "h = earlier @ Sent peer packet t # later" "parse_flow packet = Some p" "opens_new_flow p" "p_key p = key"
    "fold (live_on ts peer key) later (Some (False, instant_add t (flow_lifetime ts key False))) = Some (c, x)"
    unfolding held_def by blast
  from h(5) assms(2) have "fold (live_on ts peer key) (later @ [ev]) (Some (False, instant_add t (flow_lifetime ts key False))) = Some (c', x')"
    by (simp del: live_on.simps)
  with h(1-4) show ?thesis unfolding held_def
    by (intro exI [of _ earlier] exI [of _ packet] exI [of _ p] exI [of _ t] exI [of _ "later @ [ev]"]) simp
qed

lemma held_new:
  assumes "parse_flow packet = Some p" "opens_new_flow p"
  shows "held ts (h @ [Sent peer packet t]) peer (p_key p) False (instant_add t (flow_lifetime ts (p_key p) False))"
  unfolding held_def using assms
  by (intro exI [of _ h] exI [of _ packet] exI [of _ p] exI [of _ t] exI [of _ "[]"]) simp

lemma opens_new_flow_not_error: "opens_new_flow p \<Longrightarrow> p_kind p \<noteq> KindError"
  by (auto simp: opens_new_flow_def)

lemma reverse_unique: "is_reverse_of k a \<Longrightarrow> is_reverse_of k b \<Longrightarrow> a = b"
  by (cases a; cases b) (simp add: is_reverse_of_def)

lemma touches_one_flow:
  assumes "touches ev p k = Some a" "touches ev q l = Some b"
  shows "p = q \<and> k = l"
  using assms by (cases ev) (auto simp: is_reverse_of_def split: option.splits if_splits)

text \<open>No entry that is still alive is touched by the event.\<close>

definition untouched :: "fw_event \<Rightarrow> firewall \<Rightarrow> bool" where
  "untouched ev fw \<longleftrightarrow> (\<forall>e\<in>set (fw_entries fw). \<forall>q t. touches ev (fe_peer e) (fe_flow e) = Some (q, t) \<longrightarrow> fe_expires e \<le> t)"

text \<open>The table against the history: one entry for a flow, in the state its life has come to.\<close>

abbreviation flow_id :: "flow_entry \<Rightarrow> peer_idx \<times> flow_key" where
  "flow_id e \<equiv> (fe_peer e, fe_flow e)"

definition tracked :: "fw_event list \<Rightarrow> firewall \<Rightarrow> bool" where
  "tracked h fw \<longleftrightarrow> distinct (map flow_id (fw_entries fw)) \<and>
     (\<forall>e\<in>set (fw_entries fw). held (fw_timeouts fw) h (fe_peer e) (fe_flow e) (fe_closing e) (fe_expires e))"

lemma held_untouched:
  assumes "held ts h (fe_peer e) (fe_flow e) (fe_closing e) (fe_expires e)" "ev \<noteq> PeerRemoved (fe_peer e)"
    and "\<And>q t. touches ev (fe_peer e) (fe_flow e) = Some (q, t) \<Longrightarrow> fe_expires e \<le> t"
  shows "held ts (h @ [ev]) (fe_peer e) (fe_flow e) (fe_closing e) (fe_expires e)"
  using assms(2,3) by (intro held_snoc [OF assms(1)]) (fastforce split: option.splits)

lemma held_refresh:
  assumes "held ts h (fe_peer e) (fe_flow e) (fe_closing e) (fe_expires e)" "touches ev (fe_peer e) (fe_flow e) = Some (p, t)" "t < fe_expires e"
  shows "held ts (h @ [ev]) (fe_peer e) (fe_flow e) (fe_closing (refresh_entry ts p t e)) (fe_expires (refresh_entry ts p t e))"
proof -
  have "ev \<noteq> PeerRemoved (fe_peer e)" using assms(2) by auto
  with assms(2,3) show ?thesis
    by (intro held_snoc [OF assms(1)]) (simp add: refresh_entry_def Let_def effective_timeout_lifetime)
qed

lemma tracked_refresh:
  assumes "tracked h fw" "i < length (fw_entries fw)" "touches ev (fe_peer (fw_entries fw ! i)) (fe_flow (fw_entries fw ! i)) = Some (p, t)"
    and "t < fe_expires (fw_entries fw ! i)"
  shows "tracked (h @ [ev]) (fw\<lparr>fw_entries := (fw_entries fw)[i := refresh_entry (fw_timeouts fw) p t (fw_entries fw ! i)]\<rparr>)"
proof -
  let ?es = "fw_entries fw" let ?e = "refresh_entry (fw_timeouts fw) p t (?es ! i)"
  have ids: "map flow_id (?es[i := ?e]) = map flow_id ?es" using assms(2) by (intro nth_equalityI) (auto simp: nth_list_update)
  have "held (fw_timeouts fw) (h @ [ev]) (fe_peer e) (fe_flow e) (fe_closing e) (fe_expires e)" if "e \<in> set (?es[i := ?e])" for e
  proof -
    from that obtain j where j: "j < length ?es" "e = ?es[i := ?e] ! j" by (auto simp: in_set_conv_nth)
    show ?thesis
    proof (cases "j = i")
      case True
      with j assms show ?thesis using held_refresh [of "fw_timeouts fw" h "?es ! i" ev p t] by (simp add: tracked_def)
    next
      case False
      with assms(1,2) j have "flow_id e \<noteq> flow_id (?es ! i)" by (auto simp: tracked_def distinct_conv_nth)
      then have "touches ev (fe_peer e) (fe_flow e) = None" using touches_one_flow [OF assms(3)] by (cases "touches ev (fe_peer e) (fe_flow e)") auto
      moreover have "ev \<noteq> PeerRemoved (fe_peer e)" using assms(3) by (cases ev) auto
      ultimately show ?thesis using assms(1) j False by (intro held_untouched) (auto simp: tracked_def)
    qed
  qed
  with assms(1) ids show ?thesis by (simp add: tracked_def)
qed

lemma tracked_untouched:
  assumes "tracked h fw" "untouched ev fw" "\<And>p. ev \<noteq> PeerRemoved p"
  shows "tracked (h @ [ev]) fw"
proof -
  have "held (fw_timeouts fw) (h @ [ev]) (fe_peer e) (fe_flow e) (fe_closing e) (fe_expires e)" if "e \<in> set (fw_entries fw)" for e
    using assms that by (intro held_untouched) (simp_all add: tracked_def untouched_def)
  with assms(1) show ?thesis by (simp add: tracked_def)
qed

lemma tracked_unique:
  assumes "tracked h fw" "d \<in> set (fw_entries fw)" "e \<in> set (fw_entries fw)" "flow_id d = flow_id e"
  shows "d = e"
  using assms inj_onD [of flow_id "set (fw_entries fw)" d e] by (simp add: tracked_def distinct_map)

subsection \<open>One event\<close>

lemma observe_outbound_cases:
  assumes "fw_inv fw"
  obtains (unchanged) "observe_outbound fw peer packet now = fw" "untouched (Sent peer packet now) fw"
  | (refreshed) p i where "parse_flow packet = Some p" "p_kind p \<noteq> KindError" "i < length (fw_entries fw)"
      "fe_peer (fw_entries fw ! i) = peer" "fe_expires (fw_entries fw ! i) > now" "fe_flow (fw_entries fw ! i) = p_key p"
      "observe_outbound fw peer packet now =
         fw\<lparr>fw_entries := (fw_entries fw)[i := refresh_entry (fw_timeouts fw) p now (fw_entries fw ! i)]\<rparr>"
  | (fresh) p where "parse_flow packet = Some p" "opens_new_flow p" "unat peer < length (fw_peer_counts fw)" "untouched (Sent peer packet now) fw"
      "observe_outbound fw peer packet now =
         open_flow (collect_expired fw now) peer (new_entry (fw_timeouts fw) peer (p_key p) now)"
proof (cases "peer_position fw peer = None \<or> parse_flow packet = None")
  case True
  then have "observe_outbound fw peer packet now = fw" by (auto simp: observe_outbound_def)
  moreover have "untouched (Sent peer packet now) fw"
    using True assms by (auto simp: untouched_def peer_position_def fw_inv_def counts_exact_def split: option.splits if_splits)
  ultimately show thesis by (rule unchanged)
next
  case False
  then obtain p where p: "parse_flow packet = Some p" and pos: "unat peer < length (fw_peer_counts fw)"
    by (auto simp: peer_position_def split: if_splits)
  let ?P = "\<lambda>e. fe_peer e = peer \<and> fe_expires e > now \<and> fe_flow e = p_key p"
  consider (err) "p_kind p = KindError" | (hit) i where "p_kind p \<noteq> KindError" "position ?P (fw_entries fw) = Some i"
    | (miss) "p_kind p \<noteq> KindError" "position ?P (fw_entries fw) = None"
    by (cases "position ?P (fw_entries fw)") auto
  then show thesis
  proof cases
    case (hit i)
    with position_SomeD [OF hit(2)] refreshed [OF p, of i] pos show thesis
      by (simp add: observe_outbound_def peer_position_def p)
  next
    case miss
    then have "untouched (Sent peer packet now) fw" using p by (fastforce simp: untouched_def position_None_iff split: if_splits)
    with miss fresh [OF p] unchanged pos show thesis
      by (cases "opens_new_flow p") (simp_all add: observe_outbound_def peer_position_def p)
  qed (use unchanged pos p in \<open>simp add: observe_outbound_def untouched_def\<close>)
qed

lemma allows_inbound_cases:
  obtains (error) p where "parse_flow packet = Some p" "p_kind p = KindError"
      "allows_inbound fw peer packet now =
        (\<exists>e\<in>set (fw_entries fw). fe_peer e = peer \<and> fe_expires e > now \<and> fe_flow e = p_key p, fw)"
  | (admitted) p i where "parse_flow packet = Some p" "p_kind p \<noteq> KindError" "\<not> opens_new_flow p \<or> p_kind p = KindUdp"
      "i < length (fw_entries fw)" "fe_peer (fw_entries fw ! i) = peer" "fe_expires (fw_entries fw ! i) > now"
      "is_reverse_of (p_key p) (fe_flow (fw_entries fw ! i))"
      "allows_inbound fw peer packet now =
        (True, fw\<lparr>fw_entries := (fw_entries fw)[i := refresh_entry (fw_timeouts fw) p now (fw_entries fw ! i)]\<rparr>)"
  | (refused) "allows_inbound fw peer packet now = (False, fw)" "untouched (Received peer packet now) fw"
proof (cases "parse_flow packet")
  case None
  with refused show thesis by (simp add: allows_inbound_def untouched_def)
next
  case (Some p)
  show thesis
  proof (cases "position (\<lambda>e. fe_peer e = peer \<and> fe_expires e > now \<and> is_reverse_of (p_key p) (fe_flow e))
      (fw_entries fw)")
    case None
    then have "untouched (Received peer packet now) fw" using Some by (fastforce simp: untouched_def position_None_iff split: if_splits)
    with None Some refused error show thesis
      by (cases "p_kind p") (auto simp: allows_inbound_def Let_def split: if_splits)
  next
    case i: (Some i)
    note facts = position_SomeD [OF i] i Some refused error admitted [of p i]
    show thesis
    proof (cases "p_kind p")
      case (KindTcp flags)
      with facts show thesis
        by (cases "flags AND TCP_SYN \<noteq> 0 \<and> flags AND TCP_ACK = 0")
          (auto simp: allows_inbound_def opens_new_flow_def untouched_def)
    qed (use facts in \<open>auto simp: allows_inbound_def opens_new_flow_def untouched_def\<close>)
  qed
qed

lemma fw_inv_refresh:
  assumes "fw_inv fw" "i < length (fw_entries fw)" "fe_peer e = fe_peer (fw_entries fw ! i)"
  shows "fw_inv (fw\<lparr>fw_entries := (fw_entries fw)[i := e]\<rparr>)"
proof -
  have "\<forall>x\<in>set ((fw_entries fw)[i := e]). unat (fe_peer x) < length (fw_peer_counts fw)"
    using assms set_update_subset_insert [of "fw_entries fw" i e]
    by (auto simp: fw_inv_def counts_exact_def)
  with assms owned_update_same [OF assms(2,3)] show ?thesis by (simp add: fw_inv_def counts_exact_def)
qed

lemma fw_inv_remove_peer:
  assumes "fw_inv fw"
  shows "fw_inv (fw_remove_peer fw peer)"
proof -
  let ?es = "filter (\<lambda>e. fe_peer e \<noteq> peer) (fw_entries fw)"
  have owned: "owned ?es q = (if q = peer then 0 else owned (fw_entries fw) q)" for q
    by (rule owned_filter_other)
  have "counts_exact (fw_remove_peer fw peer)"
  proof (cases "unat peer < length (fw_peer_counts fw)")
    case True
    with assms show ?thesis
      by (auto simp: fw_inv_def counts_exact_def fw_remove_peer_def Let_def update_count_nth owned)
  next
    case False
    then have "q \<noteq> peer" if "unat q < length (fw_peer_counts fw)" for q using that by auto
    with False assms show ?thesis
      by (auto simp: fw_inv_def counts_exact_def fw_remove_peer_def Let_def update_count_def
          peer_position_def owned)
  qed
  moreover have "length ?es \<le> fw_max_entries fw"
    using assms le_trans [OF length_filter_le] by (auto simp: fw_inv_def)
  ultimately show ?thesis
    using assms by (auto simp: fw_inv_def fw_remove_peer_def Let_def owned)
qed

definition same_config :: "firewall \<Rightarrow> firewall \<Rightarrow> bool" where
  "same_config fw fw' \<longleftrightarrow> fw_timeouts fw' = fw_timeouts fw \<and> fw_max_entries fw' = fw_max_entries fw
     \<and> fw_max_entries_per_peer fw' = fw_max_entries_per_peer fw
     \<and> length (fw_peer_counts fw') = length (fw_peer_counts fw)"

lemma open_flow_config: "same_config fw (open_flow fw peer e)"
  by (auto simp: same_config_def open_flow_def fw_push_def fw_replace_def Let_def increment_peer_def
      decrement_peer_def split: prod.splits option.splits bool.splits if_splits)

lemma fw_step_inv:
  assumes "fw_inv fw"
  shows "fw_inv (fw_step ev fw)" and "same_config fw (fw_step ev fw)"
proof -
  have "fw_inv (fw_step ev fw) \<and> same_config fw (fw_step ev fw)"
  proof (cases ev)
    case (Sent peer packet now)
    from assms show ?thesis
    proof (cases rule: observe_outbound_cases [of fw peer packet now])
      case (refreshed p i)
      with assms Sent show ?thesis by (simp add: fw_inv_refresh same_config_def)
    next
      case (fresh p)
      let ?e = "new_entry (fw_timeouts fw) peer (p_key p) now"
      let ?c = "collect_expired fw now"
      have c: "fw_inv ?c" "unat peer < length (fw_peer_counts ?c)" "same_config fw ?c"
        using collect_expired_entries [OF assms, of now] fresh(3) by (simp_all add: same_config_def)
      have "fw_inv (open_flow ?c peer ?e)"
        by (rule open_flow_cases [OF c(1,2), of ?e]) (use c(1) in simp_all)
      with fresh(5) Sent c(3) open_flow_config [of ?c peer ?e] show ?thesis by (simp add: same_config_def)
    qed (use Sent assms in \<open>simp add: same_config_def\<close>)
  next
    case (Received peer packet now)
    show ?thesis
      by (cases rule: allows_inbound_cases [of packet fw peer now])
        (use Received assms in \<open>simp_all add: fw_inv_refresh same_config_def\<close>)
  next
    case (PeerRemoved peer)
    with assms fw_inv_remove_peer show ?thesis by (simp add: fw_remove_peer_def Let_def same_config_def)
  qed
  then show "fw_inv (fw_step ev fw)" "same_config fw (fw_step ev fw)" by simp_all
qed

lemma tracked_fresh:
  assumes "fw_inv fw" "tracked h fw" and p: "parse_flow packet = Some p" "opens_new_flow p"
    and peer: "unat peer < length (fw_peer_counts fw)" and none: "untouched (Sent peer packet now) fw"
  shows "tracked (h @ [Sent peer packet now]) (open_flow (collect_expired fw now) peer (new_entry (fw_timeouts fw) peer (p_key p) now))"
proof -
  let ?ev = "Sent peer packet now" and ?e = "new_entry (fw_timeouts fw) peer (p_key p) now" and ?c = "collect_expired fw now"
  note c = collect_expired_entries [OF assms(1), of now]
  have new: "held (fw_timeouts fw) (h @ [?ev]) (fe_peer ?e) (fe_flow ?e) (fe_closing ?e) (fe_expires ?e)"
    using held_new [OF p, of "fw_timeouts fw" h peer now] by (simp add: new_entry_def Let_def effective_timeout_lifetime)
  have keep: "held (fw_timeouts fw) (h @ [?ev]) (fe_peer e) (fe_flow e) (fe_closing e) (fe_expires e)" if "e \<in> set (fw_entries fw)" for e
    using tracked_untouched [OF assms(2) none] that by (simp add: tracked_def)
  have touch: "touches ?ev peer (p_key p) = Some (p, now)" using p opens_new_flow_not_error [OF p(2)] by simp
  have other: "flow_id ?e \<notin> flow_id ` set (fw_entries ?c)"
    using touch none unfolding untouched_def c(1) by (auto simp: not_le simp del: touches.simps)
  have dist: "distinct (map flow_id (fw_entries ?c))" using assms(2) unfolding tracked_def c(1) by (simp add: distinct_map_filter)
  have sub: "set (fw_entries ?c) \<subseteq> set (fw_entries fw)" using c(1) by auto
  have ts: "fw_timeouts (open_flow ?c peer ?e) = fw_timeouts fw" using open_flow_config [of ?c peer ?e] c(2) by (simp add: same_config_def)
  show ?thesis
  proof (rule open_flow_cases [OF c(6), of peer ?e])
    assume "fw_entries (open_flow ?c peer ?e) = fw_entries ?c @ [?e]"
    with other dist sub new keep ts show ?thesis by (auto simp: tracked_def)
  next
    fix v assume v: "fw_entries (open_flow ?c peer ?e) = (fw_entries ?c)[v := ?e]" "v < length (fw_entries ?c)"
    have "distinct (map flow_id ((fw_entries ?c)[v := ?e]))" using dist other by (simp add: map_update distinct_list_update)
    moreover have "set ((fw_entries ?c)[v := ?e]) \<subseteq> insert ?e (set (fw_entries fw))" using set_update_subset_insert [of "fw_entries ?c" v ?e] sub by blast
    ultimately show ?thesis using v(1) new keep ts by (auto simp: tracked_def)
  next
    assume "open_flow ?c peer ?e = ?c"
    with dist sub keep ts show ?thesis by (auto simp: tracked_def)
  qed (use c(5) peer in simp_all)
qed

lemma fw_step_tracked:
  assumes "fw_inv fw" "tracked h fw"
  shows "tracked (h @ [ev]) (fw_step ev fw)"
proof (cases ev)
  case (Sent peer packet now)
  from assms(1) show ?thesis
  proof (cases rule: observe_outbound_cases [of fw peer packet now])
    case (refreshed p i)
    with tracked_refresh [OF assms(2), of i ev p now] Sent show ?thesis by simp
  next
    case (fresh p)
    with tracked_fresh [OF assms fresh(1-4)] Sent show ?thesis by simp
  qed (use Sent tracked_untouched [OF assms(2)] in auto)
next
  case (Received peer packet now)
  show ?thesis
  proof (cases rule: allows_inbound_cases [of packet fw peer now])
    case (admitted p i)
    with tracked_refresh [OF assms(2), of i ev p now] Received show ?thesis by simp
  next
    case (error p)
    then have "untouched ev fw" using Received by (simp add: untouched_def)
    with tracked_untouched [OF assms(2)] error Received show ?thesis by simp
  qed (use Received tracked_untouched [OF assms(2)] in auto)
next
  case (PeerRemoved peer)
  have "held (fw_timeouts fw) (h @ [ev]) (fe_peer e) (fe_flow e) (fe_closing e) (fe_expires e)" if "e \<in> set (fw_entries fw)" "fe_peer e \<noteq> peer" for e
    using assms(2) that PeerRemoved by (intro held_untouched) (auto simp: tracked_def)
  with assms(2) PeerRemoved show ?thesis by (auto simp: fw_remove_peer_def Let_def tracked_def distinct_map_filter)
qed

lemma fw_inv_new:
  assumes "max_flows < 2 ^ 16" "max_peers \<le> 2 ^ 32"
  shows "fw_inv (with_limits_and_timeouts max_flows max_peers n m ts)"
  using assms by (auto simp: fw_inv_def counts_exact_def with_limits_and_timeouts_def)

lemma fw_history:
  assumes "max_flows < 2 ^ 16" "max_peers \<le> 2 ^ 32"
    and "fw = fold fw_step h (with_limits_and_timeouts max_flows max_peers n m ts)"
  shows "fw_inv fw" and "fw_timeouts fw = ts" and "tracked h fw"
    and "fw_max_entries fw = min n max_flows" and "fw_max_entries_per_peer fw = min (min m n) max_flows"
    and "length (fw_peer_counts fw) = max_peers"
proof -
  let ?new = "with_limits_and_timeouts max_flows max_peers n m ts"
  have "fw_inv fw \<and> same_config ?new fw \<and> tracked h fw"
    unfolding assms(3)
  proof (induction h rule: rev_induct)
    case Nil
    then show ?case using fw_inv_new [OF assms(1,2)] by (simp add: with_limits_and_timeouts_def same_config_def tracked_def)
  next
    case (snoc ev h)
    then have "fw_timeouts (fold fw_step h ?new) = ts"
      by (simp add: same_config_def with_limits_and_timeouts_def)
    with snoc fw_step_inv [of "fold fw_step h ?new" ev] fw_step_tracked [of "fold fw_step h ?new" h ev]
    show ?case by (simp add: same_config_def)
  qed
  then show "fw_inv fw" "fw_timeouts fw = ts" "tracked h fw"
    "fw_max_entries fw = min n max_flows" "fw_max_entries_per_peer fw = min (min m n) max_flows"
    "length (fw_peer_counts fw) = max_peers"
    by (simp_all add: same_config_def with_limits_and_timeouts_def)
qed

section \<open>Properties\<close>

text \<open>A DNS query, its answer, and the firewall of the witnesses.\<close>

abbreviation dns_query :: bytes where
  "dns_query \<equiv> [0x45, 0, 0, 28, 0, 0, 0, 0, 64, 17, 0, 0, 10, 0, 0, 1, 10, 0, 0, 2, 0x10, 0, 0, 53, 0, 8, 0, 0]"

abbreviation dns_answer :: bytes where
  "dns_answer \<equiv> [0x45, 0, 0, 28, 0, 0, 0, 0, 64, 17, 0, 0, 10, 0, 0, 2, 10, 0, 0, 1, 0, 53, 0x10, 0, 0, 8, 0, 0]"

abbreviation dns_flow :: flow_key where
  "dns_flow \<equiv> \<lparr>fk_src = IpV4 0x0a000001, fk_dst = IpV4 0x0a000002, fk_protocol = 17,
     fk_src_port = 0x1000, fk_dst_port = 53\<rparr>"

abbreviation sample_timeouts :: flow_timeouts where
  "sample_timeouts \<equiv> \<lparr>udp_timeout = 60000, icmp_timeout = 30000, tcp_timeout = 1800000, tcp_closing_timeout = 30000\<rparr>"

abbreviation sample_fw :: firewall where
  "sample_fw \<equiv> with_limits_and_timeouts 64 4 64 8 sample_timeouts"

lemma parse_dns_query: "parse_flow dns_query = Some \<lparr>p_key = dns_flow, p_kind = KindUdp\<rparr>"
  by (simp add: parse_flow_def parse_header_def parse_v4_header_def is_v4_fragment_def parse_transport_def
      be_u16_at_def get_at_def get_range_def from_be_bytes_def from_le_bytes_def protocol_numbers)

lemma parse_dns_answer:
  "parse_flow dns_answer = Some \<lparr>p_key = \<lparr>fk_src = IpV4 0x0a000002, fk_dst = IpV4 0x0a000001,
     fk_protocol = 17, fk_src_port = 53, fk_dst_port = 0x1000\<rparr>, p_kind = KindUdp\<rparr>"
  by (simp add: parse_flow_def parse_header_def parse_v4_header_def is_v4_fragment_def parse_transport_def
      be_u16_at_def get_at_def get_range_def from_be_bytes_def from_le_bytes_def protocol_numbers)

lemma sample_counts: "replicate 4 (0 :: u16) = [0, 0, 0, 0]"
  by (simp add: eval_nat_numeral)

lemmas sample_simps = observe_outbound_def parse_dns_query with_limits_and_timeouts_def peer_position_def
  opens_new_flow_def collect_expired_def open_flow_def fw_push_def peer_count_def get_at_def
  increment_peer_def update_count_def sat_add_def sample_counts

lemma sample_query_entry:
  "observe_outbound sample_fw 0 dns_query 1000 =
     sample_fw\<lparr>fw_entries := [new_entry sample_timeouts 0 dns_flow 1000], fw_peer_counts := [1, 0, 0, 0]\<rparr>"
  by (simp add: sample_simps)

lemma sample_expires: "fe_expires (new_entry sample_timeouts peer dns_flow 1000) = 61000"
  by (simp add: new_entry_def effective_timeout_def protocol_numbers instant_add_def sat_add_def)

lemma sample_two_entries:
  "fold fw_step [Sent 0 dns_query 1000, Sent 1 dns_query 1000] sample_fw =
     sample_fw\<lparr>fw_entries := [new_entry sample_timeouts 0 dns_flow 1000, new_entry sample_timeouts 1 dns_flow 1000],
       fw_peer_counts := [1, 1, 0, 0]\<rparr>"
  by (simp add: sample_query_entry sample_expires) (simp add: sample_simps sample_expires)

text \<open>
  C10: the firewall's policy, over any history of sent packets, received packets and removed peers. An inbound packet from a
  peer is admitted only when it answers a flow, not being an attempt to open one itself, or is an ICMP error
  about a packet of that flow; and a flow-opening packet of the flow was sent to that same peer, after which the peer was not
  removed and the flow never lapsed: \<open>live_on\<close> follows its expiry through the history, where only
  its own packets renew it, each before the expiry, for the lifetime its protocol has, or the closing one
  from the first FIN or RST on; and the packet arrives before the last expiry.
\<close>

theorem inbound_admitted_only_on_opened_flow:
  assumes "max_flows < 2 ^ 16" "max_peers \<le> 2 ^ 32"
    and "fst (allows_inbound (fold fw_step h (with_limits_and_timeouts max_flows max_peers n m ts)) peer packet now)"
  shows "\<exists>p key closing expiry. parse_flow packet = Some p
    \<and> (p_kind p = KindError \<and> key = p_key p
       \<or> p_kind p \<noteq> KindError \<and> (\<not> opens_new_flow p \<or> p_kind p = KindUdp) \<and> is_reverse_of (p_key p) key)
    \<and> held ts h peer key closing expiry \<and> now < expiry"
proof -
  let ?fw = "fold fw_step h (with_limits_and_timeouts max_flows max_peers n m ts)"
  have held: "held ts h (fe_peer e) (fe_flow e) (fe_closing e) (fe_expires e)" if "e \<in> set (fw_entries ?fw)" for e
    using fw_history(2,3) [OF assms(1,2) refl] that by (fastforce simp: tracked_def)
  show ?thesis
  proof (cases rule: allows_inbound_cases [of packet ?fw peer now])
    case (error p)
    with assms(3) obtain e where "e \<in> set (fw_entries ?fw)" "fe_peer e = peer" "fe_expires e > now"
      "fe_flow e = p_key p" by auto
    with held [of e] error(1,2) show ?thesis by blast
  next
    case (admitted p i)
    with held [of "fw_entries ?fw ! i"] show ?thesis by fastforce
  qed (use assms(3) in simp)
qed

text \<open>
  C28: the quota and capacity bounds hold after every history and the per-peer counters are exact:
  the table never exceeds its limit, no peer owns more entries than its quota, and the counter of
  every peer is the number of entries it owns.
\<close>

theorem firewall_quotas_hold:
  assumes "max_flows < 2 ^ 16" "max_peers \<le> 2 ^ 32"
    and "fw = fold fw_step h (with_limits_and_timeouts max_flows max_peers n m ts)"
  shows "length (fw_entries fw) \<le> min n max_flows \<and>
    owned (fw_entries fw) peer \<le> min (min m n) max_flows \<and>
    peer_count fw peer = owned (fw_entries fw) peer"
  using fw_history [OF assms] peer_count_exact [of fw peer] by (auto simp: fw_inv_def)

lemma filter_update_other:
  "i < length xs \<Longrightarrow> \<not> P (xs ! i) \<Longrightarrow> \<not> P x \<Longrightarrow> filter P (xs[i := x]) = filter P xs"
proof (induction xs arbitrary: i)
  case (Cons a xs)
  then show ?case by (cases i) auto
qed simp

text \<open>
  C27: peers are isolated. A packet sent to one peer leaves the live flows of every other peer as
  they are, unless the sender is below its quota and the other peer owns strictly more live flows;
  so a burst of new flows cannot flush the return paths of peers with less state.
\<close>

theorem outbound_isolates_peers:
  assumes "max_flows < 2 ^ 16" "max_peers \<le> 2 ^ 32"
    and "fw = fold fw_step h (with_limits_and_timeouts max_flows max_peers n m ts)"
    and "q \<noteq> peer"
    and "owned (filter (\<lambda>e. fe_expires e > now) (fw_entries fw)) q
           \<le> owned (filter (\<lambda>e. fe_expires e > now) (fw_entries fw)) peer
         \<or> min (min m n) max_flows \<le> owned (filter (\<lambda>e. fe_expires e > now) (fw_entries fw)) peer"
  shows "filter (\<lambda>e. fe_peer e = q \<and> fe_expires e > now) (fw_entries (observe_outbound fw peer packet now))
    = filter (\<lambda>e. fe_peer e = q \<and> fe_expires e > now) (fw_entries fw)"
proof -
  let ?P = "\<lambda>e. fe_peer e = q \<and> fe_expires e > now"
  note h = fw_history [OF assms(1-3)]
  from h(1) show ?thesis
  proof (cases rule: observe_outbound_cases [of fw peer packet now])
    case (refreshed p i)
    then show ?thesis using assms(4) by (simp add: filter_update_other)
  next
    case (fresh p)
    let ?e = "new_entry (fw_timeouts fw) peer (p_key p) now"
    let ?c = "collect_expired fw now"
    note c = collect_expired_entries [OF h(1), of now]
    have live: "filter ?P (fw_entries ?c) = filter ?P (fw_entries fw)"
      by (simp add: c(1)) (metis (lifting))
    have "filter ?P (fw_entries (open_flow ?c peer ?e)) = filter ?P (fw_entries ?c)"
    proof (rule open_flow_cases [OF c(6), of peer ?e])
      show "unat peer < length (fw_peer_counts ?c)" using c(5) fresh(3) by simp
      assume "fw_entries (open_flow ?c peer ?e) = fw_entries ?c @ [?e]"
      then show ?thesis using assms(4) by simp
    next
      fix v assume v: "fw_entries (open_flow ?c peer ?e) = (fw_entries ?c)[v := ?e]" "v < length (fw_entries ?c)"
        "fe_peer (fw_entries ?c ! v) = peer \<or> owned (fw_entries ?c) peer < fw_max_entries_per_peer ?c
           \<and> owned (fw_entries ?c) peer < owned (fw_entries ?c) (fe_peer (fw_entries ?c ! v))"
      have "fe_peer (fw_entries ?c ! v) \<noteq> q"
        using v(3) assms(4,5) h(5) by (auto simp: c(1,4))
      with v(1,2) assms(4) show ?thesis by (simp add: filter_update_other)
    qed simp_all
    with live fresh(5) show ?thesis by simp
  qed simp
qed

text \<open>The flow is in the table and alive, and a FIN or RST has been seen on it, possibly just now.\<close>

definition closing_at :: "firewall \<Rightarrow> peer_idx \<Rightarrow> parsed \<Rightarrow> instant \<Rightarrow> bool" where
  "closing_at fw peer p t \<longleftrightarrow>
     (\<exists>e\<in>set (fw_entries fw). fe_peer e = peer \<and> fe_flow e = p_key p \<and> t < fe_expires e \<and> (fe_closing e \<or> is_closing p))"

lemma observe_outbound_tracks:
  assumes "fw_inv fw" "tracked h fw" "0 < fw_max_entries_per_peer fw" "unat peer < length (fw_peer_counts fw)"
    and p: "parse_flow packet = Some p" "opens_new_flow p"
  shows "\<exists>e\<in>set (fw_entries (observe_outbound fw peer packet t)). fe_peer e = peer \<and> fe_flow e = p_key p
    \<and> fe_expires e = instant_add t (flow_lifetime (fw_timeouts fw) (p_key p) (closing_at fw peer p t))"
proof (cases "position (\<lambda>e. fe_peer e = peer \<and> fe_expires e > t \<and> fe_flow e = p_key p) (fw_entries fw)")
  case (Some i)
  let ?o = "fw_entries fw ! i" let ?e = "refresh_entry (fw_timeouts fw) p t ?o"
  note i = position_SomeD [OF Some]
  have "fw_entries (observe_outbound fw peer packet t) = (fw_entries fw)[i := ?e]"
    using assms opens_new_flow_not_error [OF p(2)] Some by (simp add: observe_outbound_def peer_position_def)
  then have "?e \<in> set (fw_entries (observe_outbound fw peer packet t))" using i by (simp add: set_update_memI)
  moreover have "e = ?o" if "e \<in> set (fw_entries fw)" "fe_peer e = peer" "fe_flow e = p_key p" for e
    using tracked_unique [OF assms(2), of e ?o] i that by simp
  then have "closing_at fw peer p t \<longleftrightarrow> fe_closing ?o \<or> is_closing p" using i by (auto simp: closing_at_def)
  then have "fe_expires ?e = instant_add t (flow_lifetime (fw_timeouts fw) (p_key p) (closing_at fw peer p t))"
    using i by (simp add: refresh_entry_def Let_def effective_timeout_lifetime)
  ultimately show ?thesis using i by (intro bexI [of _ ?e]) auto
next
  case None
  let ?e = "new_entry (fw_timeouts fw) peer (p_key p) t"
  let ?c = "collect_expired fw t"
  note c = collect_expired_entries [OF assms(1), of t]
  have "?e \<in> set (fw_entries (open_flow ?c peer ?e))"
    by (rule open_flow_cases [OF c(6), of peer ?e]) (use c assms(3,4) in \<open>auto simp: set_update_memI\<close>)
  moreover have "observe_outbound fw peer packet t = open_flow ?c peer ?e"
    using assms opens_new_flow_not_error [OF p(2)] None by (simp add: observe_outbound_def peer_position_def)
  moreover have "\<not> closing_at fw peer p t" using None by (auto simp: closing_at_def position_None_iff)
  then have "fe_expires ?e = instant_add t (flow_lifetime (fw_timeouts fw) (p_key p) (closing_at fw peer p t))"
    by (simp add: new_entry_def Let_def effective_timeout_lifetime)
  ultimately show ?thesis by (intro bexI [of _ ?e]) auto
qed

text \<open>
  C29: the return path works, for exactly the lifetime of the flow. After any history, a flow-opening packet sent to a peer
  makes room for itself even in a full table, and then an answer on that flow is admitted if and only if it arrives before the
  lifetime has passed: that of the protocol, or, when the flow was in the table and alive with a FIN or RST seen on it, the closing one.
\<close>

theorem outbound_opens_return_path:
  assumes "max_flows < 2 ^ 16" "max_peers \<le> 2 ^ 32" "unat peer < max_peers" "0 < min (min m n) max_flows"
    and "fw = fold fw_step h (with_limits_and_timeouts max_flows max_peers n m ts)"
    and "parse_flow packet = Some p" "opens_new_flow p"
    and "parse_flow answer = Some a" "is_reverse_of (p_key a) (p_key p)"
    and "p_kind a = KindUdp \<or> p_kind a = KindEchoReply \<or> (\<exists>flags. p_kind a = KindTcp flags \<and> \<not> opens_new_flow a)"
  shows "fst (allows_inbound (observe_outbound fw peer packet t) peer answer now) \<longleftrightarrow>
    now < instant_add t (flow_lifetime ts (p_key p) (closing_at fw peer p t))"
proof -
  note h = fw_history [OF assms(1,2,5)]
  let ?fw = "observe_outbound fw peer packet t"
  let ?P = "\<lambda>e. fe_peer e = peer \<and> fe_expires e > now \<and> is_reverse_of (p_key a) (fe_flow e)"
  have room: "0 < fw_max_entries_per_peer fw" "unat peer < length (fw_peer_counts fw)" using h(5,6) assms(3,4) by simp_all
  from observe_outbound_tracks [OF h(1,3) room assms(6,7), of t] obtain e where e: "e \<in> set (fw_entries ?fw)" "fe_peer e = peer" "fe_flow e = p_key p"
    and expiry: "fe_expires e = instant_add t (flow_lifetime ts (p_key p) (closing_at fw peer p t))" unfolding h(2) by blast
  have reverse: "is_reverse_of (p_key a) (fe_flow e)" using assms(9) e(3) by simp
  have tracked: "tracked (h @ [Sent peer packet t]) ?fw" using fw_step_tracked [OF h(1,3), of "Sent peer packet t"] by simp
  have one: "d = e" if "d \<in> set (fw_entries ?fw)" "fe_peer d = peer" "is_reverse_of (p_key a) (fe_flow d)" for d
    using reverse_unique [OF that(3) reverse] that(2) e(2) by (intro tracked_unique [OF tracked that(1) e(1)]) simp
  have "fst (allows_inbound ?fw peer answer now) \<longleftrightarrow> position ?P (fw_entries ?fw) \<noteq> None"
    using assms(8,10) by (cases "position ?P (fw_entries ?fw)") (auto simp: allows_inbound_def opens_new_flow_def)
  also have "\<dots> \<longleftrightarrow> (\<exists>d\<in>set (fw_entries ?fw). ?P d)" unfolding position_None_iff by blast
  also have "\<dots> \<longleftrightarrow> now < fe_expires e" using one e(1,2) reverse by metis
  finally show ?thesis unfolding expiry .
qed

text \<open>
  Inbound traffic never creates state. Deciding about an inbound packet keeps every entry with
  its peer and flow and keeps a closing flow closing; a refused packet and an ICMP error change
  nothing at all.
\<close>

theorem inbound_never_opens:
  "map (\<lambda>e. (fe_peer e, fe_flow e)) (fw_entries (snd (allows_inbound fw peer packet now)))
     = map (\<lambda>e. (fe_peer e, fe_flow e)) (fw_entries fw)
   \<and> list_all2 (\<lambda>e e'. fe_closing e \<le> fe_closing e') (fw_entries fw)
        (fw_entries (snd (allows_inbound fw peer packet now)))
   \<and> (snd (allows_inbound fw peer packet now) = fw \<or>
      fst (allows_inbound fw peer packet now) \<and> map_option p_kind (parse_flow packet) \<noteq> Some KindError)"
proof (cases rule: allows_inbound_cases [of packet fw peer now])
  case (admitted p i)
  let ?e = "refresh_entry (fw_timeouts fw) p now (fw_entries fw ! i)"
  have "map (\<lambda>e. (fe_peer e, fe_flow e)) ((fw_entries fw)[i := ?e]) = map (\<lambda>e. (fe_peer e, fe_flow e)) (fw_entries fw)"
    using admitted(4) by (intro nth_equalityI) (auto simp: nth_list_update)
  moreover have "list_all2 (\<lambda>e e'. fe_closing e \<le> fe_closing e') (fw_entries fw) ((fw_entries fw)[i := ?e])"
    using admitted(4) by (intro list_all2_all_nthI) (auto simp: nth_list_update)
  ultimately show ?thesis using admitted by simp
qed (auto simp: list_all2_same)

theorem inbound_admitted_only_on_opened_flow_witness:
  "\<exists>closing expiry. held sample_timeouts [Sent 0 dns_query 1000] 0 dns_flow closing expiry \<and> 2000 < expiry"
proof -
  have "fst (allows_inbound (fold fw_step [Sent 0 dns_query 1000] sample_fw) 0 dns_answer 2000)"
    by (simp add: sample_query_entry allows_inbound_def parse_dns_answer is_reverse_of_def new_entry_def
        effective_timeout_def protocol_numbers instant_add_def sat_add_def)
  from inbound_admitted_only_on_opened_flow [OF _ _ this] obtain key closing expiry where
    "is_reverse_of \<lparr>fk_src = IpV4 0x0a000002, fk_dst = IpV4 0x0a000001, fk_protocol = 17, fk_src_port = 53, fk_dst_port = 0x1000\<rparr> key"
    "held sample_timeouts [Sent 0 dns_query 1000] 0 key closing expiry" "2000 < expiry" by (auto simp: parse_dns_answer)
  moreover from this(1) have "key = dns_flow" by (cases key) (auto simp: is_reverse_of_def)
  ultimately show ?thesis by blast
qed

theorem firewall_quotas_hold_witness:
  "peer_count (fold fw_step [Sent 0 dns_query 1000] sample_fw) 0 = 1"
proof -
  have "peer_count (fold fw_step [Sent 0 dns_query 1000] sample_fw) 0
      = owned (fw_entries (fold fw_step [Sent 0 dns_query 1000] sample_fw)) 0"
    by (rule firewall_quotas_hold [of 64 4, OF _ _ refl, THEN conjunct2, THEN conjunct2]) simp_all
  then show ?thesis by (simp add: sample_query_entry)
qed

theorem outbound_isolates_peers_witness:
  "filter (\<lambda>e. fe_peer e = 0 \<and> fe_expires e > 2000)
     (fw_entries (observe_outbound (fold fw_step [Sent 0 dns_query 1000, Sent 1 dns_query 1000] sample_fw) 1 dns_answer 2000))
   = filter (\<lambda>e. fe_peer e = 0 \<and> fe_expires e > 2000)
     (fw_entries (fold fw_step [Sent 0 dns_query 1000, Sent 1 dns_query 1000] sample_fw))"
proof (rule outbound_isolates_peers [of 64 4 _ "[Sent 0 dns_query 1000, Sent 1 dns_query 1000]" 64 8 sample_timeouts])
  show "owned (filter (\<lambda>e. fe_expires e > 2000)
      (fw_entries (fold fw_step [Sent 0 dns_query 1000, Sent 1 dns_query 1000] sample_fw))) 0
    \<le> owned (filter (\<lambda>e. fe_expires e > 2000)
      (fw_entries (fold fw_step [Sent 0 dns_query 1000, Sent 1 dns_query 1000] sample_fw))) 1
    \<or> min (min 8 64) 64 \<le> owned (filter (\<lambda>e. fe_expires e > 2000)
      (fw_entries (fold fw_step [Sent 0 dns_query 1000, Sent 1 dns_query 1000] sample_fw))) 1"
    unfolding sample_two_entries by (simp add: sample_expires)
qed simp_all

theorem outbound_opens_return_path_witness:
  "fst (allows_inbound (observe_outbound sample_fw 0 dns_query 1000) 0 dns_answer 60999) \<and>
   \<not> fst (allows_inbound (observe_outbound sample_fw 0 dns_query 1000) 0 dns_answer 61000)"
proof -
  let ?q = "\<lparr>p_key = dns_flow, p_kind = KindUdp\<rparr>"
  let ?a = "\<lparr>p_key = \<lparr>fk_src = IpV4 0x0a000002, fk_dst = IpV4 0x0a000001, fk_protocol = 17, fk_src_port = 53, fk_dst_port = 0x1000\<rparr>, p_kind = KindUdp\<rparr>"
  have "fst (allows_inbound (observe_outbound sample_fw 0 dns_query 1000) 0 dns_answer now) \<longleftrightarrow>
      now < instant_add 1000 (flow_lifetime sample_timeouts (p_key ?q) (closing_at sample_fw 0 ?q 1000))" for now
    by (rule outbound_opens_return_path [of 64 4 0 8 64 sample_fw "[]" sample_timeouts dns_query ?q dns_answer ?a])
      (simp_all add: parse_dns_query parse_dns_answer opens_new_flow_def is_reverse_of_def)
  moreover have "instant_add 1000 (flow_lifetime sample_timeouts dns_flow c) = 61000" for c
    by (simp add: flow_lifetime_def instant_add_def sat_add_def)
  ultimately show ?thesis by simp
qed

end
