(* ===== verification/Crypto_Suite.thy ===== *)
theory Crypto_Suite
  imports Messages
begin

text \<open>
  The cryptographic interface of the engine (\<open>microtun-core/src/crypto.rs\<close>): the wrappers
  the protocol calls, over the primitives of the BLAKE2, ChaCha20-Poly1305 and X25519 crates, which
  are the parameter \<open>crypto\<close>. What the engine relies on is \<open>crypto_laws\<close>: output lengths,
  totality on the key lengths used, decryption of what was encrypted, and commutativity of the
  Diffie-Hellman function. Zeroisation of temporaries has no observable effect and is left out.
\<close>

section \<open>Primitives\<close>

record 'r crypto =
  blake2s256 :: "bytes \<Rightarrow> bytes"
  blake2s_mac16 :: "bytes \<Rightarrow> bytes \<Rightarrow> bytes option"
  hmac_blake2s :: "bytes \<Rightarrow> bytes \<Rightarrow> bytes option"
  chacha_encrypt :: "bytes \<Rightarrow> bytes \<Rightarrow> bytes \<Rightarrow> bytes \<Rightarrow> (bytes \<times> bytes) option"
  chacha_decrypt :: "bytes \<Rightarrow> bytes \<Rightarrow> bytes \<Rightarrow> bytes \<Rightarrow> bytes \<Rightarrow> bytes option"
  xchacha_encrypt :: "bytes \<Rightarrow> bytes \<Rightarrow> bytes \<Rightarrow> bytes \<Rightarrow> (bytes \<times> bytes) option"
  xchacha_decrypt :: "bytes \<Rightarrow> bytes \<Rightarrow> bytes \<Rightarrow> bytes \<Rightarrow> bytes \<Rightarrow> bytes option"
  x25519 :: "bytes \<Rightarrow> bytes \<Rightarrow> bytes"
  x25519_base :: "bytes \<Rightarrow> bytes"
  random_secret :: "'r \<Rightarrow> bytes \<times> 'r"
  fill_bytes :: "usize \<Rightarrow> 'r \<Rightarrow> bytes \<times> 'r"
  next_u32 :: "'r \<Rightarrow> u32 \<times> 'r"

text \<open>
  The laws: an AEAD keeps lengths, has a 16-byte tag, accepts every datagram-sized plaintext and
  decrypts what it encrypted under the same key, nonce and associated data.
\<close>

definition aead_laws ::
  "(bytes \<Rightarrow> bytes \<Rightarrow> bytes \<Rightarrow> bytes \<Rightarrow> (bytes \<times> bytes) option) \<Rightarrow>
   (bytes \<Rightarrow> bytes \<Rightarrow> bytes \<Rightarrow> bytes \<Rightarrow> bytes \<Rightarrow> bytes option) \<Rightarrow> bool" where
  "aead_laws enc dec \<longleftrightarrow>
     (\<forall>key nonce ad pt. length pt < 2 ^ 16 \<longrightarrow> (\<exists>ct tag. enc key nonce ad pt = Some (ct, tag))) \<and>
     (\<forall>key nonce ad pt ct tag. enc key nonce ad pt = Some (ct, tag) \<longrightarrow>
        length ct = length pt \<and> length tag = 16 \<and> dec key nonce ad ct tag = Some pt) \<and>
     (\<forall>key nonce ad ct tag pt. dec key nonce ad ct tag = Some pt \<longrightarrow> length pt = length ct)"

definition crypto_laws :: "'r crypto \<Rightarrow> bool" where
  "crypto_laws C \<longleftrightarrow>
     aead_laws (chacha_encrypt C) (chacha_decrypt C) \<and> aead_laws (xchacha_encrypt C) (xchacha_decrypt C) \<and>
     (\<forall>m. length (blake2s256 C m) = 32) \<and>
     (\<forall>k m. length k \<le> 32 \<longrightarrow> (\<exists>t. blake2s_mac16 C k m = Some t \<and> length t = 16)) \<and>
     (\<forall>k m. \<exists>t. hmac_blake2s C k m = Some t \<and> length t = 32) \<and>
     (\<forall>a b. length (x25519 C a b) = 32) \<and> (\<forall>a. length (x25519_base C a) = 32) \<and>
     (\<forall>a b. x25519 C a (x25519_base C b) = x25519 C b (x25519_base C a)) \<and>
     (\<forall>r. length (fst (random_secret C r)) = 32) \<and> (\<forall>n r. length (fst (fill_bytes C n r)) = n)"

section \<open>Wrappers\<close>

definition hash_parts :: "'r crypto \<Rightarrow> bytes list \<Rightarrow> bytes" where
  "hash_parts C parts = blake2s256 C (concat parts)"

definition mac16 :: "'r crypto \<Rightarrow> bytes \<Rightarrow> bytes list \<Rightarrow> bytes result" where
  "mac16 C key parts = ok_or (blake2s_mac16 C key (concat parts)) Crypto"

definition mac_eq :: "bytes \<Rightarrow> bytes \<Rightarrow> bool" where
  "mac_eq a b \<longleftrightarrow> length b = 16 \<and> a = b"

definition hmac :: "'r crypto \<Rightarrow> bytes \<Rightarrow> bytes list \<Rightarrow> bytes result" where
  "hmac C key parts = ok_or (hmac_blake2s C key (concat parts)) Crypto"

definition kdf1 :: "'r crypto \<Rightarrow> bytes \<Rightarrow> bytes \<Rightarrow> bytes result" where
  "kdf1 C key input = rbind (hmac C key [input]) (\<lambda>t0. hmac C t0 [[0x01]])"

definition kdf2 :: "'r crypto \<Rightarrow> bytes \<Rightarrow> bytes \<Rightarrow> (bytes \<times> bytes) result" where
  "kdf2 C key input =
     rbind (hmac C key [input]) (\<lambda>t0.
     rbind (hmac C t0 [[0x01]]) (\<lambda>t1.
     rbind (hmac C t0 [t1, [0x02]]) (\<lambda>t2.
     Inr (t1, t2))))"

definition kdf3 :: "'r crypto \<Rightarrow> bytes \<Rightarrow> bytes \<Rightarrow> (bytes \<times> bytes \<times> bytes) result" where
  "kdf3 C key input =
     rbind (hmac C key [input]) (\<lambda>t0.
     rbind (hmac C t0 [[0x01]]) (\<lambda>t1.
     rbind (hmac C t0 [t1, [0x02]]) (\<lambda>t2.
     rbind (hmac C t0 [t2, [0x03]]) (\<lambda>t3.
     Inr (t1, t2, t3)))))"

definition counter_nonce :: "u64 \<Rightarrow> bytes" where
  "counter_nonce counter = replicate 4 0 @ to_le_bytes counter"

text \<open>
  The in-place AEAD calls return the buffer after the call together with the length. A failed call
  leaves a buffer that every caller discards.
\<close>

definition aead_seal :: "'r crypto \<Rightarrow> bytes \<Rightarrow> u64 \<Rightarrow> bytes \<Rightarrow> usize \<Rightarrow> bytes \<Rightarrow> (usize \<times> bytes) result" where
  "aead_seal C key counter buf pt_len ad =
     (let total = pt_len + TAG_LEN
      in if length buf < total then Inl BufferTooSmall
         else case chacha_encrypt C key (counter_nonce counter) ad (take pt_len buf) of
           None \<Rightarrow> Inl Crypto
         | Some (ct, tag) \<Rightarrow> Inr (total, ct @ tag @ drop total buf))"

definition aead_open :: "'r crypto \<Rightarrow> bytes \<Rightarrow> u64 \<Rightarrow> bytes \<Rightarrow> bytes \<Rightarrow> (usize \<times> bytes) result" where
  "aead_open C key counter buf ad =
     (if length buf < TAG_LEN then Inl Crypto
      else let pt_len = length buf - TAG_LEN; tag = drop pt_len buf
      in case chacha_decrypt C key (counter_nonce counter) ad (take pt_len buf) tag of
           None \<Rightarrow> Inl Crypto
         | Some pt \<Rightarrow> Inr (pt_len, pt @ tag))"

definition xaead_seal :: "'r crypto \<Rightarrow> bytes \<Rightarrow> bytes \<Rightarrow> bytes \<Rightarrow> usize \<Rightarrow> bytes \<Rightarrow> (usize \<times> bytes) result" where
  "xaead_seal C key nonce buf pt_len ad =
     (let total = pt_len + TAG_LEN
      in if length buf < total then Inl BufferTooSmall
         else case xchacha_encrypt C key nonce ad (take pt_len buf) of
           None \<Rightarrow> Inl Crypto
         | Some (ct, tag) \<Rightarrow> Inr (total, ct @ tag @ drop total buf))"

definition xaead_open :: "'r crypto \<Rightarrow> bytes \<Rightarrow> bytes \<Rightarrow> bytes \<Rightarrow> bytes \<Rightarrow> (usize \<times> bytes) result" where
  "xaead_open C key nonce buf ad =
     (if length buf < TAG_LEN then Inl Crypto
      else let pt_len = length buf - TAG_LEN; tag = drop pt_len buf
      in case xchacha_decrypt C key nonce ad (take pt_len buf) tag of
           None \<Rightarrow> Inl Crypto
         | Some pt \<Rightarrow> Inr (pt_len, pt @ tag))"

definition dh :: "'r crypto \<Rightarrow> bytes \<Rightarrow> bytes \<Rightarrow> bytes result" where
  "dh C private public =
     (let shared = x25519 C private public
      in if list_all (\<lambda>b. b = 0) shared then Inl Crypto else Inr shared)"

definition public_key :: "'r crypto \<Rightarrow> bytes \<Rightarrow> bytes" where
  "public_key C private = x25519_base C private"

definition dh_generate :: "'r crypto \<Rightarrow> 'r \<Rightarrow> (bytes \<times> bytes) \<times> 'r" where
  "dh_generate C rng = (let (secret, rng') = random_secret C rng in ((secret, x25519_base C secret), rng'))"

section \<open>Consequences of the laws\<close>

lemma crypto_lengths:
  assumes "crypto_laws C"
  shows "length (hash_parts C ps) = 32" "length (public_key C a) = 32" "length (x25519 C a b) = 32"
    "length (fst (random_secret C r)) = 32" "length (fst (fill_bytes C n r)) = n"
  using assms by (simp_all add: crypto_laws_def hash_parts_def public_key_def)

lemma hmac_total: "crypto_laws C \<Longrightarrow> \<exists>t. hmac C k ps = Inr t \<and> length t = 32"
  unfolding crypto_laws_def hmac_def by (metis ok_or_simps(2))

lemma mac16_total: "crypto_laws C \<Longrightarrow> length k \<le> 32 \<Longrightarrow> \<exists>t. mac16 C k ps = Inr t \<and> length t = 16"
  unfolding crypto_laws_def mac16_def by (metis ok_or_simps(2))

lemma kdf1_total: "crypto_laws C \<Longrightarrow> \<exists>t. kdf1 C k x = Inr t \<and> length t = 32"
  unfolding kdf1_def by (metis hmac_total rbind_simps(2))

lemma kdf2_total:
  assumes "crypto_laws C"
  shows "\<exists>t1 t2. kdf2 C k x = Inr (t1, t2) \<and> length t1 = 32 \<and> length t2 = 32"
proof -
  obtain t0 where t0: "hmac C k [x] = Inr t0" using hmac_total [OF assms] by metis
  obtain t1 where t1: "hmac C t0 [[1]] = Inr t1" "length t1 = 32" using hmac_total [OF assms] by metis
  obtain t2 where t2: "hmac C t0 [t1, [2]] = Inr t2" "length t2 = 32" using hmac_total [OF assms] by metis
  from t0 t1 t2 show ?thesis by (simp add: kdf2_def)
qed

lemma kdf3_total:
  assumes "crypto_laws C"
  shows "\<exists>t1 t2 t3. kdf3 C k x = Inr (t1, t2, t3) \<and> length t1 = 32 \<and> length t2 = 32 \<and> length t3 = 32"
proof -
  obtain t0 where t0: "hmac C k [x] = Inr t0" using hmac_total [OF assms] by metis
  obtain t1 where t1: "hmac C t0 [[1]] = Inr t1" "length t1 = 32" using hmac_total [OF assms] by metis
  obtain t2 where t2: "hmac C t0 [t1, [2]] = Inr t2" "length t2 = 32" using hmac_total [OF assms] by metis
  obtain t3 where t3: "hmac C t0 [t2, [3]] = Inr t3" "length t3 = 32" using hmac_total [OF assms] by metis
  from t0 t1 t2 t3 show ?thesis by (simp add: kdf3_def)
qed

lemma aead_lawsE:
  assumes "aead_laws enc dec" "length pt < 2 ^ 16"
  obtains ct tag where "enc key nonce ad pt = Some (ct, tag)" "length ct = length pt" "length tag = 16"
    "dec key nonce ad ct tag = Some pt"
proof -
  from assms obtain ct tag where e: "enc key nonce ad pt = Some (ct, tag)"
    unfolding aead_laws_def by metis
  from assms(1) have "length ct = length pt \<and> length tag = 16 \<and> dec key nonce ad ct tag = Some pt"
    unfolding aead_laws_def using e by simp
  with e that show thesis by simp
qed

lemma aead_seal_open:
  assumes "crypto_laws C" "length pt = n" "n < 2 ^ 16" "length buf = n + TAG_LEN" "take n buf = pt"
  shows "\<exists>sealed tag. aead_seal C k ctr buf n ad = Inr (n + TAG_LEN, sealed) \<and> length sealed = n + TAG_LEN
    \<and> aead_open C k ctr sealed ad = Inr (n, pt @ tag) \<and> length tag = TAG_LEN"
proof -
  have "aead_laws (chacha_encrypt C) (chacha_decrypt C)" "length pt < 2 ^ 16"
    using assms(1-3) by (simp_all add: crypto_laws_def)
  then obtain ct tag where "chacha_encrypt C k (counter_nonce ctr) ad pt = Some (ct, tag)"
    "length ct = length pt" "length tag = 16" "chacha_decrypt C k (counter_nonce ctr) ad ct tag = Some pt"
    by (rule aead_lawsE)
  with assms show ?thesis
    by (intro exI [of _ "ct @ tag"] exI [of _ tag]) (simp add: aead_seal_def aead_open_def)
qed

lemma xaead_seal_open:
  assumes "crypto_laws C" "length pt = n" "n < 2 ^ 16" "length buf = n + TAG_LEN" "take n buf = pt"
  shows "\<exists>sealed tag. xaead_seal C k nonce buf n ad = Inr (n + TAG_LEN, sealed) \<and> length sealed = n + TAG_LEN
    \<and> xaead_open C k nonce sealed ad = Inr (n, pt @ tag) \<and> length tag = TAG_LEN"
proof -
  have "aead_laws (xchacha_encrypt C) (xchacha_decrypt C)" "length pt < 2 ^ 16"
    using assms(1-3) by (simp_all add: crypto_laws_def)
  then obtain ct tag where "xchacha_encrypt C k nonce ad pt = Some (ct, tag)"
    "length ct = length pt" "length tag = 16" "xchacha_decrypt C k nonce ad ct tag = Some pt"
    by (rule aead_lawsE)
  with assms show ?thesis
    by (intro exI [of _ "ct @ tag"] exI [of _ tag]) (simp add: xaead_seal_def xaead_open_def)
qed

lemma dh_commutes:
  "crypto_laws C \<Longrightarrow> dh C a (public_key C b) = dh C b (public_key C a)"
  by (simp add: crypto_laws_def dh_def public_key_def)

section \<open>The laws are satisfiable\<close>

text \<open>An insecure instance of the laws, for the witnesses: exclusive or as key exchange, the identity
  as cipher.\<close>

definition pad32 :: "bytes \<Rightarrow> bytes" where
  "pad32 a = take 32 (a @ replicate 32 0)"

definition xor_crypto :: "u8 crypto" where
  "xor_crypto =
     \<lparr>blake2s256 = \<lambda>m. replicate 32 0, blake2s_mac16 = \<lambda>k m. Some (replicate 16 0),
      hmac_blake2s = \<lambda>k m. Some (replicate 32 0),
      chacha_encrypt = \<lambda>k n ad pt. Some (pt, replicate 16 0),
      chacha_decrypt = \<lambda>k n ad ct tag. if tag = replicate 16 0 then Some ct else None,
      xchacha_encrypt = \<lambda>k n ad pt. Some (pt, replicate 16 0),
      xchacha_decrypt = \<lambda>k n ad ct tag. if tag = replicate 16 0 then Some ct else None,
      x25519 = \<lambda>a b. map2 (XOR) (pad32 a) (pad32 b), x25519_base = pad32,
      random_secret = \<lambda>r. (replicate 32 r, r + 1), fill_bytes = \<lambda>n r. (replicate n r, r + 1),
      next_u32 = \<lambda>r. (ucast r, r + 1)\<rparr>"

lemma length_pad32 [simp]: "length (pad32 a) = 32"
  by (simp add: pad32_def)

lemma pad32_id: "length a = 32 \<Longrightarrow> pad32 a = a"
  by (simp add: pad32_def)

lemma map2_xor_commute: "map2 (XOR) a b = map2 (XOR) b (a :: bytes)"
  by (induction a b rule: list_induct2') (auto simp: xor.commute)

lemma xor_crypto_laws: "crypto_laws xor_crypto"
  by (simp add: crypto_laws_def aead_laws_def xor_crypto_def pad32_id map2_xor_commute)

lemma xor_crypto_dh:
  assumes "a \<noteq> b"
  shows "dh xor_crypto (replicate 32 a) (public_key xor_crypto (replicate 32 b)) = Inr (replicate 32 (a XOR b))"
proof -
  have "map2 (XOR) (replicate n a) (replicate n b) = replicate n (a XOR b)" for n
    by (induction n) auto
  moreover have "a XOR b \<noteq> 0" using assms by (metis xor.assoc xor.right_neutral xor_self_eq xor.left_neutral)
  ultimately show ?thesis
    by (simp add: dh_def public_key_def xor_crypto_def pad32_id list_all_iff)
qed

end
