(* ===== verification/Noise_Handshake.thy ===== *)
theory Noise_Handshake
  imports Crypto_Suite Session_State
begin

text \<open>
  The Noise \<open>IKpsk2\<close> handshake (\<open>microtun-core/src/noise.rs\<close>): building and consuming the
  initiation and the response. The message buffers are passed in and the written buffer is part of
  the result; a failed call leaves a buffer that the callers drop. The main result is agreement: a
  responder that consumes an initiator's messages recovers its identity, index and timestamp, and
  both ends derive the same pair of transport keys with the directions exchanged.
\<close>

section \<open>Definitions\<close>

definition CONSTRUCTION :: bytes where
  "CONSTRUCTION = map of_char ''Noise_IKpsk2_25519_ChaChaPoly_BLAKE2s''"

definition IDENTIFIER :: bytes where
  "IDENTIFIER = map of_char ''WireGuard v1 zx2c4 Jason@zx2c4.com''"

definition PSK_Q :: bytes where "PSK_Q = replicate 32 0"

definition prologue :: "'r crypto \<Rightarrow> bytes \<times> bytes" where
  "prologue C = (let c = hash_parts C [CONSTRUCTION]; h = hash_parts C [c, IDENTIFIER] in (c, h))"

record initiator_state =
  is_chain :: bytes
  is_hash :: bytes
  is_e_priv :: bytes

record identified_initiation =
  ii_chain :: bytes
  ii_hash :: bytes
  ii_e_pub_i :: bytes
  ii_s_pub_i :: bytes
  ii_encrypted_timestamp :: bytes
  ii_sender :: u32

record consumed_initiation =
  ci_chain :: bytes
  ci_hash :: bytes
  ci_e_pub_i :: bytes
  ci_s_pub_i :: bytes
  ci_timestamp :: bytes
  ci_sender :: u32

text \<open>Write a plaintext at the start of a field and seal the field in place under counter zero.\<close>

definition seal_field :: "'r crypto \<Rightarrow> bytes \<Rightarrow> bytes \<Rightarrow> range \<Rightarrow> bytes \<Rightarrow> bytes \<Rightarrow> bytes result" where
  "seal_field C k msg r plain h =
     rbind (aead_seal C k 0 (put_slice (fld msg r) 0 plain) (length plain) h)
       (\<lambda>(_, sealed). Inr (set_fld msg r sealed))"

definition create_initiation ::
  "'r crypto \<Rightarrow> 'r \<Rightarrow> bytes \<Rightarrow> bytes \<Rightarrow> bytes \<Rightarrow> u32 \<Rightarrow> bytes \<Rightarrow> bytes \<Rightarrow> (initiator_state \<times> bytes) result \<times> 'r" where
  "create_initiation C rng s_priv_i s_pub_i s_pub_r sender timestamp msg =
     (if length msg \<noteq> INITIATION_LEN then (Inl BufferTooSmall, rng)
      else
        let (c, h) = prologue C;
            h = hash_parts C [h, s_pub_r];
            ((e_priv, e_pub), rng) = dh_generate C rng
        in (rbind (kdf1 C c e_pub) (\<lambda>c.
            rbind (write_type msg MSG_INITIATION) (\<lambda>msg.
            let msg = set_fld msg init_SENDER (to_le_bytes sender);
                msg = set_fld msg init_EPHEMERAL e_pub;
                h = hash_parts C [h, e_pub]
            in rbind (dh C e_priv s_pub_r) (\<lambda>es.
               rbind (kdf2 C c es) (\<lambda>(c, k).
               rbind (seal_field C k msg init_STATIC s_pub_i h) (\<lambda>msg.
               let h = hash_parts C [h, fld msg init_STATIC]
               in rbind (dh C s_priv_i s_pub_r) (\<lambda>ss.
                  rbind (kdf2 C c ss) (\<lambda>(c, k).
                  rbind (seal_field C k msg init_TIMESTAMP timestamp h) (\<lambda>msg.
                  let h = hash_parts C [h, fld msg init_TIMESTAMP];
                      msg = set_fld msg init_MAC1 (replicate 16 0);
                      msg = set_fld msg init_MAC2 (replicate 16 0)
                  in Inr (\<lparr>is_chain = c, is_hash = h, is_e_priv = e_priv\<rparr>, msg))))))))), rng))"

definition identify_initiation :: "'r crypto \<Rightarrow> bytes \<Rightarrow> bytes \<Rightarrow> bytes \<Rightarrow> identified_initiation result" where
  "identify_initiation C s_priv_r s_pub_r msg =
     (if length msg \<noteq> INITIATION_LEN then Inl Crypto
      else
        let (c, h) = prologue C;
            h = hash_parts C [h, s_pub_r];
            e_pub_i = fld msg init_EPHEMERAL
        in rbind (kdf1 C c e_pub_i) (\<lambda>c.
           let h = hash_parts C [h, e_pub_i]
           in rbind (dh C s_priv_r e_pub_i) (\<lambda>es.
              rbind (kdf2 C c es) (\<lambda>(c, k).
              rbind (aead_open C k 0 (fld msg init_STATIC) h) (\<lambda>(_, static_buf).
              let s_pub_i = take 32 static_buf;
                  h = hash_parts C [h, fld msg init_STATIC]
              in Inr \<lparr>ii_chain = c, ii_hash = h, ii_e_pub_i = e_pub_i, ii_s_pub_i = s_pub_i,
                      ii_encrypted_timestamp = fld msg init_TIMESTAMP,
                      ii_sender = from_le_bytes (fld msg init_SENDER)\<rparr>)))))"

definition authenticate_identified_with_shared_secret ::
  "'r crypto \<Rightarrow> identified_initiation \<Rightarrow> bytes \<Rightarrow> consumed_initiation result" where
  "authenticate_identified_with_shared_secret C ii shared =
     rbind (kdf2 C (ii_chain ii) shared) (\<lambda>(c, k).
     rbind (aead_open C k 0 (ii_encrypted_timestamp ii) (ii_hash ii)) (\<lambda>(_, ts_buf).
     Inr \<lparr>ci_chain = c, ci_hash = hash_parts C [ii_hash ii, ii_encrypted_timestamp ii],
          ci_e_pub_i = ii_e_pub_i ii, ci_s_pub_i = ii_s_pub_i ii,
          ci_timestamp = take TIMESTAMP_LEN ts_buf, ci_sender = ii_sender ii\<rparr>))"

definition authenticate_identified_initiation ::
  "'r crypto \<Rightarrow> bytes \<Rightarrow> identified_initiation \<Rightarrow> consumed_initiation result" where
  "authenticate_identified_initiation C s_priv_r ii =
     rbind (dh C s_priv_r (ii_s_pub_i ii)) (authenticate_identified_with_shared_secret C ii)"

definition create_response ::
  "'r crypto \<Rightarrow> 'r \<Rightarrow> consumed_initiation \<Rightarrow> u32 \<Rightarrow> bytes \<Rightarrow> (transport_keys \<times> bytes) result \<times> 'r" where
  "create_response C rng consumed sender msg =
     (if length msg \<noteq> RESPONSE_LEN then (Inl BufferTooSmall, rng)
      else
        let c = ci_chain consumed;
            h = ci_hash consumed;
            ((e_priv_r, e_pub_r), rng) = dh_generate C rng
        in (rbind (kdf1 C c e_pub_r) (\<lambda>c.
            rbind (write_type msg MSG_RESPONSE) (\<lambda>msg.
            let msg = set_fld msg resp_SENDER (to_le_bytes sender);
                msg = set_fld msg resp_RECEIVER (to_le_bytes (ci_sender consumed));
                msg = set_fld msg resp_EPHEMERAL e_pub_r;
                h = hash_parts C [h, e_pub_r]
            in rbind (dh C e_priv_r (ci_e_pub_i consumed)) (\<lambda>ee.
               rbind (kdf1 C c ee) (\<lambda>c.
               rbind (dh C e_priv_r (ci_s_pub_i consumed)) (\<lambda>se.
               rbind (kdf1 C c se) (\<lambda>c.
               rbind (kdf3 C c PSK_Q) (\<lambda>(c, tau, k).
               let h = hash_parts C [h, tau]
               in rbind (seal_field C k msg resp_EMPTY [] h) (\<lambda>msg.
                  let msg = set_fld msg resp_MAC1 (replicate 16 0);
                      msg = set_fld msg resp_MAC2 (replicate 16 0)
                  in rbind (kdf2 C c []) (\<lambda>(t1, t2).
                     Inr (\<lparr>tk_send = t2, tk_recv = t1\<rparr>, msg)))))))))), rng))"

definition consume_response ::
  "'r crypto \<Rightarrow> initiator_state \<Rightarrow> bytes \<Rightarrow> bytes \<Rightarrow> (transport_keys \<times> u32) result" where
  "consume_response C st s_priv_i msg =
     (if length msg \<noteq> RESPONSE_LEN then Inl Crypto
      else
        let c = is_chain st;
            h = is_hash st;
            e_pub_r = fld msg resp_EPHEMERAL
        in rbind (kdf1 C c e_pub_r) (\<lambda>c.
           let h = hash_parts C [h, e_pub_r]
           in rbind (dh C (is_e_priv st) e_pub_r) (\<lambda>ee.
              rbind (kdf1 C c ee) (\<lambda>c.
              rbind (dh C s_priv_i e_pub_r) (\<lambda>se.
              rbind (kdf1 C c se) (\<lambda>c.
              rbind (kdf3 C c PSK_Q) (\<lambda>(c, tau, k).
              let h = hash_parts C [h, tau]
              in rbind (aead_open C k 0 (fld msg resp_EMPTY) h) (\<lambda>_.
                 rbind (kdf2 C c []) (\<lambda>(t1, t2).
                 Inr (\<lparr>tk_send = t1, tk_recv = t2\<rparr>, from_le_bytes (fld msg resp_SENDER)))))))))))"

section \<open>Sealed fields\<close>

lemma seal_fieldE:
  assumes "crypto_laws C" "snd r \<le> length msg" "snd r = fst r + length plain + TAG_LEN" "length plain < 2 ^ 16"
  obtains sealed tag where "seal_field C k msg r plain h = Inr (set_fld msg r sealed)"
    "length sealed = length plain + TAG_LEN" "aead_open C k 0 sealed h = Inr (length plain, plain @ tag)"
    "length tag = TAG_LEN"
proof -
  let ?buf = "put_slice (fld msg r) 0 plain"
  have len: "length (fld msg r) = length plain + TAG_LEN"
    using assms by (simp add: slice_simps)
  then have "length ?buf = length plain + TAG_LEN" "take (length plain) ?buf = plain"
    by (simp_all add: put_slice_def)
  from aead_seal_open [OF assms(1) refl assms(4) this, of k 0 h] obtain sealed tag where
    "aead_seal C k 0 ?buf (length plain) h = Inr (length plain + TAG_LEN, sealed)"
    "length sealed = length plain + TAG_LEN" "aead_open C k 0 sealed h = Inr (length plain, plain @ tag)"
    "length tag = TAG_LEN" by blast
  with that show thesis by (simp add: seal_field_def)
qed

text \<open>The MACs are filled in later; the handshake fields are what the messages agree on.\<close>

lemma fld_cong_take: "take n m = take n m' \<Longrightarrow> snd r \<le> n \<Longrightarrow> fld m r = fld m' r"
  unfolding fld_def slice_def by (metis (no_types) diff_le_mono drop_take min.absorb1 take_take)

lemma write_type_ok: "4 \<le> length m \<Longrightarrow> write_type m t = Inr (put_slice m 0 [t, 0, 0, 0])"
  by (simp add: write_type_def)

lemma to_le_bytes_u32: "length (to_le_bytes (w :: u32)) = 4" "from_le_bytes (to_le_bytes w) = (w :: u32)"
  by (simp_all add: from_to_le_bytes)

section \<open>Agreement on the initiation\<close>

text \<open>\<open>agrees st ci\<close>: both ends hold the same transcript after the initiation.\<close>

definition agrees :: "'r crypto \<Rightarrow> initiator_state \<Rightarrow> consumed_initiation \<Rightarrow> bool" where
  "agrees C st ci \<longleftrightarrow> ci_chain ci = is_chain st \<and> ci_hash ci = is_hash st
     \<and> ci_e_pub_i ci = public_key C (is_e_priv st)"

lemma create_initiationE:
  assumes C: "crypto_laws C" and msg: "length msg = INITIATION_LEN"
    and pub: "length s_pub_i = 32" "length timestamp = TIMESTAMP_LEN"
    and es: "dh C (fst (random_secret C rng)) s_pub_r = Inr es" and ss: "dh C s_priv_i s_pub_r = Inr ss"
  obtains st msg' c1 c2 k2 sealed tag c3 k3 sealed' tag' h where
    "fst (create_initiation C rng s_priv_i s_pub_i s_pub_r sender timestamp msg) = Inr (st, msg')"
    "length msg' = INITIATION_LEN" "take 4 msg' = [MSG_INITIATION, 0, 0, 0]"
    "fld msg' init_SENDER = to_le_bytes sender" "is_e_priv st = fst (random_secret C rng)"
    "fld msg' init_EPHEMERAL = public_key C (is_e_priv st)"
    "kdf1 C (fst (prologue C)) (public_key C (is_e_priv st)) = Inr c1" "kdf2 C c1 es = Inr (c2, k2)"
    "h = hash_parts C [hash_parts C [snd (prologue C), s_pub_r], public_key C (is_e_priv st)]"
    "fld msg' init_STATIC = sealed" "aead_open C k2 0 sealed h = Inr (32, s_pub_i @ tag)"
    "kdf2 C c2 ss = Inr (c3, k3)"
    "fld msg' init_TIMESTAMP = sealed'"
    "aead_open C k3 0 sealed' (hash_parts C [h, sealed]) = Inr (TIMESTAMP_LEN, timestamp @ tag')"
    "is_chain st = c3" "is_hash st = hash_parts C [hash_parts C [h, sealed], sealed']"
proof -
  obtain e_priv rng' where g: "random_secret C rng = (e_priv, rng')" by fastforce
  let ?e = "public_key C e_priv"
  have e_len: "length ?e = 32" using crypto_lengths [OF C] by blast
  obtain c0 h0 where p: "prologue C = (c0, h0)" by fastforce
  obtain c1 where c1: "kdf1 C c0 ?e = Inr c1" using kdf1_total [OF C] by metis
  obtain c2 k2 where c2: "kdf2 C c1 es = Inr (c2, k2)" using kdf2_total [OF C] by metis
  obtain c3 k3 where c3: "kdf2 C c2 ss = Inr (c3, k3)" using kdf2_total [OF C] by metis
  let ?h = "hash_parts C [hash_parts C [h0, s_pub_r], ?e]"
  define m0 where "m0 = put_slice msg 0 [MSG_INITIATION, 0, 0, 0]"
  define m1 where "m1 = set_fld (set_fld m0 init_SENDER (to_le_bytes sender)) init_EPHEMERAL ?e"
  have w: "write_type msg 1 = Inr m0" using msg by (simp add: write_type_ok m0_def)
  have len0: "length m0 = 148" using msg by (simp add: m0_def put_slice_def)
  have len1: "length m1 = 148" using len0 e_len by (simp add: m1_def slice_simps layout_simps)
  obtain sealed tag where s1: "seal_field C k2 m1 init_STATIC s_pub_i ?h = Inr (set_fld m1 init_STATIC sealed)"
    "length sealed = length s_pub_i + TAG_LEN" "aead_open C k2 0 sealed ?h = Inr (length s_pub_i, s_pub_i @ tag)"
    by (rule seal_fieldE [OF C, of init_STATIC m1 s_pub_i k2 ?h]) (use len1 pub in \<open>simp_all add: layout_simps\<close>)
  define m2 where "m2 = set_fld m1 init_STATIC sealed"
  have len2: "length m2 = 148" using len1 s1(2) pub by (simp add: m2_def slice_simps layout_simps)
  have st2: "fld m2 init_STATIC = sealed" using len1 s1(2) pub by (simp add: m2_def slice_simps layout_simps)
  let ?h2 = "hash_parts C [?h, sealed]"
  obtain sealed' tag' where s2: "seal_field C k3 m2 init_TIMESTAMP timestamp ?h2 = Inr (set_fld m2 init_TIMESTAMP sealed')"
    "length sealed' = length timestamp + TAG_LEN" "aead_open C k3 0 sealed' ?h2 = Inr (length timestamp, timestamp @ tag')"
    by (rule seal_fieldE [OF C, of init_TIMESTAMP m2 timestamp k3 ?h2]) (use len2 pub in \<open>simp_all add: layout_simps\<close>)
  define m3 where "m3 = set_fld m2 init_TIMESTAMP sealed'"
  have len3: "length m3 = 148" using len2 s2(2) pub by (simp add: m3_def slice_simps layout_simps)
  have ts3: "fld m3 init_TIMESTAMP = sealed'" using len2 s2(2) pub by (simp add: m3_def slice_simps layout_simps)
  define m4 where "m4 = set_fld (set_fld m3 init_MAC1 (replicate 16 0)) init_MAC2 (replicate 16 0)"
  have len4: "length m4 = 148" using len3 by (simp add: m4_def slice_simps layout_simps)
  let ?st = "\<lparr>is_chain = c3, is_hash = hash_parts C [?h2, sealed'], is_e_priv = e_priv\<rparr>"
  have run: "fst (create_initiation C rng s_priv_i s_pub_i s_pub_r sender timestamp msg) = Inr (?st, m4)"
    using msg es ss by (simp add: create_initiation_def Let_def p g dh_generate_def c1 c2 c3 w
        public_key_def [symmetric] m1_def [symmetric] s1(1) m2_def [symmetric] st2 s2(1) m3_def [symmetric] ts3
        m4_def [symmetric])
  have fields: "fld m4 init_SENDER = to_le_bytes sender" "fld m4 init_EPHEMERAL = ?e"
      "fld m4 init_STATIC = sealed" "fld m4 init_TIMESTAMP = sealed'"
    using len0 len1 len2 len3 e_len s1(2) s2(2) pub
    by (simp_all add: m4_def m3_def m2_def m1_def slice_simps layout_simps)
  have "take 4 m4 = take 4 m0"
    using len0 len1 len2 len3 e_len s1(2) s2(2) pub
    by (simp add: m4_def m3_def m2_def m1_def set_fld_def put_slice_def layout_simps)
  also have "\<dots> = [MSG_INITIATION, 0, 0, 0]" using msg by (simp add: m0_def put_slice_def)
  finally have type: "take 4 m4 = [MSG_INITIATION, 0, 0, 0]" .
  show thesis
    using that [OF run, of c1 c2 k2 ?h sealed tag c3 k3 sealed' tag'] len4 type fields c1 c2 c3 s1(3) s2(3) pub g p
    by simp
qed

text \<open>
  A responder that receives the handshake fields of an initiation, whatever the MACs, recovers the
  initiator's static key from the first stage and its timestamp and index from the second.
\<close>

lemma initiation_accepted:
  assumes C: "crypto_laws C" and msg: "length msg = INITIATION_LEN" and ts: "length timestamp = TIMESTAMP_LEN"
    and pub: "s_pub_i = public_key C s_priv_i" "s_pub_r = public_key C s_priv_r"
    and es: "dh C (fst (random_secret C rng)) s_pub_r = Inr es" and ss: "dh C s_priv_i s_pub_r = Inr ss"
  obtains st msg' where
    "fst (create_initiation C rng s_priv_i s_pub_i s_pub_r sender timestamp msg) = Inr (st, msg')"
    "length msg' = INITIATION_LEN" "take 4 msg' = [MSG_INITIATION, 0, 0, 0]"
    "is_e_priv st = fst (random_secret C rng)"
    "\<And>wire. length wire = INITIATION_LEN \<Longrightarrow> take 116 wire = take 116 msg' \<Longrightarrow>
       \<exists>ii ci. identify_initiation C s_priv_r s_pub_r wire = Inr ii \<and> ii_s_pub_i ii = s_pub_i
         \<and> authenticate_identified_initiation C s_priv_r ii = Inr ci
         \<and> authenticate_identified_with_shared_secret C ii ss = Inr ci
         \<and> ci_s_pub_i ci = s_pub_i \<and> ci_timestamp ci = timestamp \<and> ci_sender ci = sender \<and> agrees C st ci"
proof -
  have len: "length s_pub_i = 32" using pub(1) crypto_lengths [OF C] by simp
  show thesis
  proof (rule create_initiationE [OF C msg len ts es ss, of sender], goal_cases)
    case (1 st msg' c1 c2 k2 sealed tag c3 k3 sealed' tag' h)
    let ?ii = "\<lparr>ii_chain = c2, ii_hash = hash_parts C [h, sealed], ii_e_pub_i = public_key C (is_e_priv st),
      ii_s_pub_i = s_pub_i, ii_encrypted_timestamp = sealed', ii_sender = sender\<rparr>"
    let ?ci = "\<lparr>ci_chain = c3, ci_hash = hash_parts C [hash_parts C [h, sealed], sealed'],
      ci_e_pub_i = public_key C (is_e_priv st), ci_s_pub_i = s_pub_i, ci_timestamp = timestamp, ci_sender = sender\<rparr>"
    have r: "dh C s_priv_r (public_key C (is_e_priv st)) = Inr es" "dh C s_priv_r s_pub_i = Inr ss"
      using es ss pub 1(5) dh_commutes [OF C] by simp_all
    have auth: "authenticate_identified_with_shared_secret C ?ii ss = Inr ?ci"
      using 1(12,14) ts by (simp add: authenticate_identified_with_shared_secret_def)
    have "identify_initiation C s_priv_r s_pub_r wire = Inr ?ii"
      if w: "length wire = INITIATION_LEN" "take 116 wire = take 116 msg'" for wire
    proof -
      have f: "fld wire r = fld msg' r" if "snd r \<le> 116" for r
        using fld_cong_take [OF w(2) that] .
      obtain c0 h0 where p: "prologue C = (c0, h0)" by fastforce
      have "fld wire init_SENDER = to_le_bytes sender" "fld wire init_EPHEMERAL = public_key C (is_e_priv st)"
        "fld wire init_STATIC = sealed" "fld wire init_TIMESTAMP = sealed'"
        using 1(4,6,10,13) f by (simp_all add: layout_simps)
      then show ?thesis
        using w(1) r 1(7,8,9,11) len p
        by (simp add: identify_initiation_def Let_def to_le_bytes_u32)
    qed
    then show thesis
      using that [OF 1(1-3,5)] auth r(2) 1(15,16)
      by (simp add: authenticate_identified_initiation_def agrees_def)
  qed
qed

section \<open>Agreement on the response\<close>

lemma response_accepted:
  assumes C: "crypto_laws C" and msg: "length msg = RESPONSE_LEN"
    and agree: "agrees C st ci" and pub: "ci_s_pub_i ci = public_key C s_priv_i"
    and ee: "dh C (fst (random_secret C rng)) (ci_e_pub_i ci) = Inr ee"
    and se: "dh C (fst (random_secret C rng)) (ci_s_pub_i ci) = Inr se"
  obtains keys msg' where
    "fst (create_response C rng ci sender msg) = Inr (keys, msg')" "length msg' = RESPONSE_LEN"
    "take 4 msg' = [MSG_RESPONSE, 0, 0, 0]" "fld msg' resp_RECEIVER = to_le_bytes (ci_sender ci)"
    "length (tk_send keys) = 32" "length (tk_recv keys) = 32"
    "\<And>wire. length wire = RESPONSE_LEN \<Longrightarrow> take 60 wire = take 60 msg' \<Longrightarrow>
       consume_response C st s_priv_i wire = Inr (\<lparr>tk_send = tk_recv keys, tk_recv = tk_send keys\<rparr>, sender)"
proof -
  obtain e_priv rng' where g: "random_secret C rng = (e_priv, rng')" by fastforce
  let ?e = "public_key C e_priv"
  have e_len: "length ?e = 32" using crypto_lengths [OF C] by blast
  let ?h1 = "hash_parts C [ci_hash ci, ?e]"
  obtain c1 where c1: "kdf1 C (ci_chain ci) ?e = Inr c1" using kdf1_total [OF C] by metis
  obtain c2 where c2: "kdf1 C c1 ee = Inr c2" using kdf1_total [OF C] by metis
  obtain c3 where c3: "kdf1 C c2 se = Inr c3" using kdf1_total [OF C] by metis
  obtain c4 tau k where c4: "kdf3 C c3 PSK_Q = Inr (c4, tau, k)" using kdf3_total [OF C] by metis
  obtain t1 t2 where t: "kdf2 C c4 [] = Inr (t1, t2)" "length t1 = 32" "length t2 = 32" using kdf2_total [OF C] by metis
  let ?h = "hash_parts C [?h1, tau]"
  define m0 where "m0 = put_slice msg 0 [MSG_RESPONSE, 0, 0, 0]"
  define m1 where "m1 = set_fld (set_fld (set_fld m0 resp_SENDER (to_le_bytes sender))
    resp_RECEIVER (to_le_bytes (ci_sender ci))) resp_EPHEMERAL ?e"
  have w: "write_type msg 2 = Inr m0" using msg by (simp add: write_type_ok m0_def)
  have len0: "length m0 = 92" using msg by (simp add: m0_def put_slice_def)
  have len1: "length m1 = 92" using len0 e_len by (simp add: m1_def slice_simps layout_simps)
  obtain sealed tag where s: "seal_field C k m1 resp_EMPTY [] ?h = Inr (set_fld m1 resp_EMPTY sealed)"
    "length sealed = length ([] :: bytes) + TAG_LEN" "aead_open C k 0 sealed ?h = Inr (length ([] :: bytes), [] @ tag)"
    by (rule seal_fieldE [OF C, of resp_EMPTY m1 "[]" k ?h]) (use len1 in \<open>simp_all add: layout_simps\<close>)
  define m2 where "m2 = set_fld m1 resp_EMPTY sealed"
  have len2: "length m2 = 92" using len1 s(2) by (simp add: m2_def slice_simps layout_simps)
  define m3 where "m3 = set_fld (set_fld m2 resp_MAC1 (replicate 16 0)) resp_MAC2 (replicate 16 0)"
  have len3: "length m3 = RESPONSE_LEN" using len2 by (simp add: m3_def slice_simps layout_simps)
  let ?keys = "\<lparr>tk_send = t2, tk_recv = t1\<rparr>"
  have run: "fst (create_response C rng ci sender msg) = Inr (?keys, m3)"
    using msg ee se by (simp add: create_response_def Let_def g dh_generate_def c1 c2 c3 c4 t w
        public_key_def [symmetric] m1_def [symmetric] s(1) m2_def [symmetric] m3_def [symmetric])
  have fields: "fld m3 resp_SENDER = to_le_bytes sender" "fld m3 resp_RECEIVER = to_le_bytes (ci_sender ci)"
      "fld m3 resp_EPHEMERAL = ?e" "fld m3 resp_EMPTY = sealed"
    using len0 len1 len2 e_len s(2) by (simp_all add: m3_def m2_def m1_def slice_simps layout_simps)
  have type: "take 4 m3 = [MSG_RESPONSE, 0, 0, 0]"
    using msg len0 len1 len2 e_len s(2)
    by (simp add: m3_def m2_def m1_def m0_def set_fld_def put_slice_def layout_simps)
  have r: "dh C (is_e_priv st) ?e = Inr ee" "dh C s_priv_i ?e = Inr se"
    using ee se agree pub g dh_commutes [OF C] by (simp_all add: agrees_def)
  have "consume_response C st s_priv_i wire = Inr (\<lparr>tk_send = t1, tk_recv = t2\<rparr>, sender)"
    if wire: "length wire = RESPONSE_LEN" "take 60 wire = take 60 m3" for wire
  proof -
    have "fld wire resp_SENDER = to_le_bytes sender" "fld wire resp_EPHEMERAL = ?e" "fld wire resp_EMPTY = sealed"
      using fields fld_cong_take [OF wire(2)] by (simp_all add: layout_simps)
    then show ?thesis
      using wire(1) agree r c1 c2 c3 c4 t s(3)
      by (simp add: consume_response_def Let_def agrees_def to_le_bytes_u32)
  qed
  with run len3 type fields t show thesis by (intro that [of ?keys m3]) simp_all
qed

lemma take4_nth: "take 4 m = [a, b, c, d] \<Longrightarrow> 4 \<le> length m \<Longrightarrow> m ! 0 = a \<and> slice m 1 4 = [b, c, d]"
  by (cases m; cases "tl m"; cases "tl (tl m)"; cases "tl (tl (tl m))") (auto simp: slice_def)

lemma classify_initiation:
  "take 4 m = [1, 0, 0, 0] \<Longrightarrow> length m = 148 \<Longrightarrow> classify m = Some Initiation"
  using take4_nth [of m 1 0 0 0] by (simp add: classify_def)

lemma classify_response:
  "take 4 m = [2, 0, 0, 0] \<Longrightarrow> length m = 92 \<Longrightarrow> classify m = Some Response"
  using take4_nth [of m 2 0 0 0] by (simp add: classify_def)

section \<open>Property\<close>

text \<open>
  C9: the handshake agrees. When none of the four Diffie-Hellman values is zero, the initiation
  can be built; whoever holds the responder's private key recovers from its handshake fields the
  initiator's static key, timestamp and index, along either authentication path; the response can be
  built; and from its handshake fields the initiator derives the responder's index and the
  responder's transport keys with the directions exchanged. The MAC fields, filled in afterwards,
  play no role.
\<close>

theorem handshake_agreement:
  assumes "crypto_laws C" "length buf1 = INITIATION_LEN" "length buf2 = RESPONSE_LEN" "length timestamp = TIMESTAMP_LEN"
    and "dh C (fst (random_secret C rng_i)) (public_key C s_priv_r) = Inr es" "dh C s_priv_i (public_key C s_priv_r) = Inr ss"
    and "dh C (fst (random_secret C rng_r)) (public_key C (fst (random_secret C rng_i))) = Inr ee"
    and "dh C (fst (random_secret C rng_r)) (public_key C s_priv_i) = Inr se"
  shows "\<exists>st m1. fst (create_initiation C rng_i s_priv_i (public_key C s_priv_i) (public_key C s_priv_r) index_i timestamp buf1)
        = Inr (st, m1) \<and> classify m1 = Some Initiation \<and>
    (\<forall>wire1. length wire1 = INITIATION_LEN \<and> take 116 wire1 = take 116 m1 \<longrightarrow>
      (\<exists>ii ci. identify_initiation C s_priv_r (public_key C s_priv_r) wire1 = Inr ii
        \<and> ii_s_pub_i ii = public_key C s_priv_i
        \<and> authenticate_identified_initiation C s_priv_r ii = Inr ci
        \<and> authenticate_identified_with_shared_secret C ii ss = Inr ci
        \<and> ci_s_pub_i ci = public_key C s_priv_i \<and> ci_timestamp ci = timestamp \<and> ci_sender ci = index_i \<and>
        (\<exists>keys m2. fst (create_response C rng_r ci index_r buf2) = Inr (keys, m2) \<and> classify m2 = Some Response
          \<and> fld m2 resp_RECEIVER = to_le_bytes index_i \<and>
          (\<forall>wire2. length wire2 = RESPONSE_LEN \<and> take 60 wire2 = take 60 m2 \<longrightarrow>
            consume_response C st s_priv_i wire2
              = Inr (\<lparr>tk_send = tk_recv keys, tk_recv = tk_send keys\<rparr>, index_r)))))"
proof -
  note C = assms(1)
  show ?thesis
  proof (rule initiation_accepted [OF C assms(2,4) refl refl assms(5,6), of index_i], goal_cases)
    case (1 st m1)
    have m1: "classify m1 = Some Initiation" using 1(2,3) by (intro classify_initiation) simp_all
    have "\<exists>ii ci. identify_initiation C s_priv_r (public_key C s_priv_r) wire1 = Inr ii
        \<and> ii_s_pub_i ii = public_key C s_priv_i
        \<and> authenticate_identified_initiation C s_priv_r ii = Inr ci
        \<and> authenticate_identified_with_shared_secret C ii ss = Inr ci
        \<and> ci_s_pub_i ci = public_key C s_priv_i \<and> ci_timestamp ci = timestamp \<and> ci_sender ci = index_i \<and>
        (\<exists>keys m2. fst (create_response C rng_r ci index_r buf2) = Inr (keys, m2) \<and> classify m2 = Some Response
          \<and> fld m2 resp_RECEIVER = to_le_bytes index_i \<and>
          (\<forall>wire2. length wire2 = RESPONSE_LEN \<and> take 60 wire2 = take 60 m2 \<longrightarrow>
            consume_response C st s_priv_i wire2
              = Inr (\<lparr>tk_send = tk_recv keys, tk_recv = tk_send keys\<rparr>, index_r)))"
      if w: "length wire1 = INITIATION_LEN" "take 116 wire1 = take 116 m1" for wire1
    proof -
      from 1(5) [OF w] obtain ii ci where ci: "identify_initiation C s_priv_r (public_key C s_priv_r) wire1 = Inr ii"
        "ii_s_pub_i ii = public_key C s_priv_i" "authenticate_identified_initiation C s_priv_r ii = Inr ci"
        "authenticate_identified_with_shared_secret C ii ss = Inr ci"
        "ci_s_pub_i ci = public_key C s_priv_i" "ci_timestamp ci = timestamp" "ci_sender ci = index_i" "agrees C st ci"
        by blast
      have dhs: "dh C (fst (random_secret C rng_r)) (ci_e_pub_i ci) = Inr ee"
        "dh C (fst (random_secret C rng_r)) (ci_s_pub_i ci) = Inr se"
        using assms(7,8) ci(5,8) 1(4) by (simp_all add: agrees_def)
      obtain keys m2 where m2: "fst (create_response C rng_r ci index_r buf2) = Inr (keys, m2)"
        "length m2 = RESPONSE_LEN" "take 4 m2 = [MSG_RESPONSE, 0, 0, 0]" "fld m2 resp_RECEIVER = to_le_bytes (ci_sender ci)"
        "\<And>wire2. length wire2 = RESPONSE_LEN \<Longrightarrow> take 60 wire2 = take 60 m2 \<Longrightarrow>
           consume_response C st s_priv_i wire2 = Inr (\<lparr>tk_send = tk_recv keys, tk_recv = tk_send keys\<rparr>, index_r)"
        by (rule response_accepted [OF C assms(3) ci(8,5) dhs, of index_r]) blast
      have "classify m2 = Some Response" using m2(2,3) by (intro classify_response) simp_all
      with ci m2 show ?thesis by blast
    qed
    with 1(1) m1 show ?thesis by blast
  qed
qed

theorem handshake_agreement_witness:
  "\<exists>st m1. fst (create_initiation xor_crypto 1 (replicate 32 2) (public_key xor_crypto (replicate 32 2))
       (public_key xor_crypto (replicate 32 4)) 7 (replicate 12 9) (replicate 148 0)) = Inr (st, m1)
     \<and> classify m1 = Some Initiation"
proof -
  have s: "random_secret xor_crypto 1 = (replicate 32 1, 2)" "random_secret xor_crypto 8 = (replicate 32 8, 9)"
    by (simp_all add: xor_crypto_def)
  have d: "dh xor_crypto (replicate 32 a) (public_key xor_crypto (replicate 32 b)) = Inr (replicate 32 (a XOR b))"
    if "a \<noteq> b" for a b
    using that by (rule xor_crypto_dh)
  show ?thesis
    using handshake_agreement [OF xor_crypto_laws, of "replicate 148 0" "replicate 92 0" "replicate 12 9"
        1 "replicate 32 4" _ "replicate 32 2" _ 8, unfolded s fst_conv, OF _ _ _ d d d d, of 7 3]
    by auto
qed

end
