(* ===== verification/Cookie_Macs.thy ===== *)
theory Cookie_Macs
  imports Crypto_Suite Constants Ip_Packet
begin

text \<open>
  The cookie and MAC layer (\<open>microtun-core/src/cookie.rs\<close>): the two MACs of every handshake
  message, the rotating cookie secret, and cookie replies. The lemmas show that the challenge can be
  answered: a message with a good \<open>mac1\<close> earns a cookie, and the resent message with that
  cookie's \<open>mac2\<close> is accepted from the same source address.
\<close>

section \<open>Keys and addresses\<close>

definition LABEL_MAC1 :: bytes where "LABEL_MAC1 = map of_char ''mac1----''"
definition LABEL_COOKIE :: bytes where "LABEL_COOKIE = map of_char ''cookie--''"

definition mac1_key :: "'r crypto \<Rightarrow> bytes \<Rightarrow> bytes" where
  "mac1_key C s_pub_receiver = hash_parts C [LABEL_MAC1, s_pub_receiver]"

definition cookie_key :: "'r crypto \<Rightarrow> bytes \<Rightarrow> bytes" where
  "cookie_key C s_pub = hash_parts C [LABEL_COOKIE, s_pub]"

definition addr_bytes :: "socket_addr \<Rightarrow> bytes" where
  "addr_bytes addr =
     (case unmap_socket_addr addr of
        SockV4 ip port \<Rightarrow> to_be_bytes ip @ to_be_bytes port
      | SockV6 ip port _ _ \<Rightarrow> to_be_bytes ip @ to_be_bytes port)"

section \<open>Message MACs\<close>

text \<open>The four ranges of a handshake message; \<open>None\<close> for any other message.\<close>

definition mac_ranges :: "bytes \<Rightarrow> (range \<times> range \<times> range \<times> range) option" where
  "mac_ranges msg =
     (case get_at msg 0 of
        None \<Rightarrow> None
      | Some t \<Rightarrow>
          if t = MSG_INITIATION \<and> length msg = INITIATION_LEN
          then Some (init_ALPHA, init_MAC1, init_BETA, init_MAC2)
          else if t = MSG_RESPONSE \<and> length msg = RESPONSE_LEN
          then Some (resp_ALPHA, resp_MAC1, resp_BETA, resp_MAC2)
          else None)"

definition apply_macs ::
  "'r crypto \<Rightarrow> bytes \<Rightarrow> bytes \<Rightarrow> (bytes \<times> instant) option \<Rightarrow> instant \<Rightarrow> (bytes \<times> bytes) result" where
  "apply_macs C msg peer_pub cookie now =
     rbind (ok_or (mac_ranges msg) Crypto) (\<lambda>(alpha, mac1_r, beta, mac2_r).
     rbind (mac16 C (mac1_key C peer_pub) [fld msg alpha]) (\<lambda>m1.
     let msg = set_fld msg mac1_r m1
     in case cookie of
          Some (c, received) \<Rightarrow>
            if saturating_since now received < COOKIE_REFRESH_TIME
            then rbind (mac16 C c [fld msg beta]) (\<lambda>m2. Inr (m1, set_fld msg mac2_r m2))
            else Inr (m1, set_fld msg mac2_r (replicate 16 0))
        | None \<Rightarrow> Inr (m1, set_fld msg mac2_r (replicate 16 0))))"

definition verify_mac1 :: "'r crypto \<Rightarrow> bytes \<Rightarrow> bytes \<Rightarrow> bytes option" where
  "verify_mac1 C msg our_mac1_key =
     (case mac_ranges msg of
        None \<Rightarrow> None
      | Some (alpha, mac1_r, _, _) \<Rightarrow>
          (case mac16 C our_mac1_key [fld msg alpha] of
             Inl _ \<Rightarrow> None
           | Inr expect \<Rightarrow>
               let received = fld msg mac1_r
               in if mac_eq expect received then Some received else None))"

section \<open>The cookie secret\<close>

record cookie_secret =
  cs_current :: bytes
  cs_rotated_at :: instant

definition cookie_secret_new :: "'r crypto \<Rightarrow> 'r \<Rightarrow> instant \<Rightarrow> cookie_secret \<times> 'r" where
  "cookie_secret_new C rng now =
     (let (current, rng') = fill_bytes C 32 rng in (\<lparr>cs_current = current, cs_rotated_at = now\<rparr>, rng'))"

definition cookie_refresh :: "'r crypto \<Rightarrow> cookie_secret \<Rightarrow> 'r \<Rightarrow> instant \<Rightarrow> cookie_secret \<times> 'r" where
  "cookie_refresh C s rng now =
     (if saturating_since now (cs_rotated_at s) \<ge> COOKIE_REFRESH_TIME
      then let (next, rng') = fill_bytes C 32 rng in (s\<lparr>cs_current := next, cs_rotated_at := now\<rparr>, rng')
      else (s, rng))"

definition cookie_for :: "'r crypto \<Rightarrow> cookie_secret \<Rightarrow> socket_addr \<Rightarrow> bytes result" where
  "cookie_for C s src = mac16 C (cs_current s) [addr_bytes src]"

definition verify_mac2 :: "'r crypto \<Rightarrow> cookie_secret \<Rightarrow> bytes \<Rightarrow> socket_addr \<Rightarrow> bool" where
  "verify_mac2 C s msg src =
     (case mac_ranges msg of
        None \<Rightarrow> False
      | Some (_, _, beta, mac2_r) \<Rightarrow>
          (case mac16 C (cs_current s) [addr_bytes src] of
             Inl _ \<Rightarrow> False
           | Inr cookie \<Rightarrow>
               (case mac16 C cookie [fld msg beta] of
                  Inl _ \<Rightarrow> False
                | Inr expect \<Rightarrow> mac_eq expect (fld msg mac2_r))))"

section \<open>Cookie replies\<close>

definition create_cookie_reply ::
  "'r crypto \<Rightarrow> 'r \<Rightarrow> cookie_secret \<Rightarrow> bytes \<Rightarrow> u32 \<Rightarrow> socket_addr \<Rightarrow> bytes \<Rightarrow> bytes \<Rightarrow> bytes result \<times> 'r" where
  "create_cookie_reply C rng secret our_cookie_key receiver src provoking_mac1 msg =
     (if length msg \<noteq> COOKIE_REPLY_LEN then (Inl BufferTooSmall, rng)
      else case write_type msg MSG_COOKIE_REPLY of
        Inl e \<Rightarrow> (Inl e, rng)
      | Inr msg \<Rightarrow>
          let msg = set_fld msg cookie_RECEIVER (to_le_bytes receiver);
              (nonce, rng') = fill_bytes C XNONCE_LEN rng;
              msg = set_fld msg cookie_NONCE nonce
          in (rbind (cookie_for C secret src) (\<lambda>tau.
              rbind (xaead_seal C our_cookie_key nonce (put_slice (fld msg cookie_COOKIE) 0 tau) 16 provoking_mac1)
                (\<lambda>(_, sealed). Inr (set_fld msg cookie_COOKIE sealed))), rng'))"

definition consume_cookie_reply :: "'r crypto \<Rightarrow> bytes \<Rightarrow> bytes \<Rightarrow> bytes \<Rightarrow> bytes result" where
  "consume_cookie_reply C peer_pub last_sent_mac1 msg =
     (if length msg \<noteq> COOKIE_REPLY_LEN then Inl Crypto
      else
        let nonce = fld msg cookie_NONCE; buf = fld msg cookie_COOKIE; key = cookie_key C peer_pub
        in rbind (xaead_open C key nonce buf last_sent_mac1) (\<lambda>(_, buf). Inr (take 16 buf)))"

section \<open>MACs of a message\<close>

text \<open>Where the ranges of a handshake message lie.\<close>

lemma mac_rangesE:
  assumes "mac_ranges msg = Some (alpha, mac1_r, beta, mac2_r)"
  obtains a n where "alpha = (0, a)" "mac1_r = (a, a + 16)" "beta = (0, a + 16)" "mac2_r = (a + 16, n)"
    "n = a + 32" "length msg = n" "4 \<le> a"
  using assms by (auto simp: mac_ranges_def layout_simps split: option.splits if_splits)

lemma mac_ranges_cong:
  "length m = length m' \<Longrightarrow> take 1 m = take 1 m' \<Longrightarrow> mac_ranges m = mac_ranges m'"
  by (cases m; cases m') (auto simp: mac_ranges_def get_at_def)

lemma apply_macsE:
  assumes C: "crypto_laws C" and r: "mac_ranges msg = Some (alpha, mac1_r, beta, mac2_r)"
    and c: "\<And>k t. cookie = Some (k, t) \<Longrightarrow> length k = 16"
  obtains m1 out where "apply_macs C msg peer_pub cookie now = Inr (m1, out)" "length m1 = 16"
    "length out = length msg" "mac_ranges out = mac_ranges msg" "fld out alpha = fld msg alpha"
    "fld out mac1_r = m1" "mac16 C (mac1_key C peer_pub) [fld msg alpha] = Inr m1"
    "\<And>k t. cookie = Some (k, t) \<Longrightarrow> saturating_since now t < COOKIE_REFRESH_TIME \<Longrightarrow>
       mac16 C k [fld out beta] = Inr (fld out mac2_r) \<and> length (fld out mac2_r) = 16"
proof -
  obtain a n where l: "alpha = (0, a)" "mac1_r = (a, a + 16)" "beta = (0, a + 16)" "mac2_r = (a + 16, n)"
    "n = a + 32" "length msg = n" "4 \<le> a" using mac_rangesE [OF r] .
  have "length (mac1_key C peer_pub) \<le> 32" using crypto_lengths(1) [OF C] by (simp add: mac1_key_def)
  then obtain m1 where m1: "mac16 C (mac1_key C peer_pub) [fld msg alpha] = Inr m1" "length m1 = 16"
    using mac16_total [OF C] by blast
  define w where "w = set_fld msg mac1_r m1"
  have w: "length w = n" "fld w mac1_r = m1" "fld w alpha = fld msg alpha" "take 1 w = take 1 msg"
    using l m1(2) by (simp_all add: w_def slice_simps) (simp add: set_fld_def put_slice_def)
  have put: "length (set_fld w mac2_r m2) = n" "fld (set_fld w mac2_r m2) mac1_r = m1"
      "fld (set_fld w mac2_r m2) alpha = fld msg alpha" "fld (set_fld w mac2_r m2) beta = fld w beta"
      "fld (set_fld w mac2_r m2) mac2_r = m2" "mac_ranges (set_fld w mac2_r m2) = mac_ranges msg"
    if "length m2 = 16" for m2
  proof -
    show "length (set_fld w mac2_r m2) = n" "fld (set_fld w mac2_r m2) mac1_r = m1"
      "fld (set_fld w mac2_r m2) alpha = fld msg alpha" "fld (set_fld w mac2_r m2) beta = fld w beta"
      "fld (set_fld w mac2_r m2) mac2_r = m2"
      using l w that by (simp_all add: slice_simps)
    have "take 1 (set_fld w mac2_r m2) = take 1 w" using l w(1) by (simp add: set_fld_def put_slice_def)
    with \<open>length (set_fld w mac2_r m2) = n\<close> w(4) l show "mac_ranges (set_fld w mac2_r m2) = mac_ranges msg"
      by (intro mac_ranges_cong) simp_all
  qed
  show thesis
  proof (cases "\<exists>k t. cookie = Some (k, t) \<and> saturating_since now t < COOKIE_REFRESH_TIME")
    case True
    then obtain k t where kt: "cookie = Some (k, t)" "saturating_since now t < COOKIE_REFRESH_TIME" by blast
    obtain m2 where m2: "mac16 C k [fld w beta] = Inr m2" "length m2 = 16"
      using mac16_total [OF C, of k] c [OF kt(1)] by auto
    have "apply_macs C msg peer_pub cookie now = Inr (m1, set_fld w mac2_r m2)"
      using kt r m1 m2 by (simp add: apply_macs_def w_def)
    then show thesis
      using that [of m1 "set_fld w mac2_r m2"] put [OF m2(2)] m1 m2 l kt by simp
  next
    case False
    then have "apply_macs C msg peer_pub cookie now = Inr (m1, set_fld w mac2_r (replicate 16 0))"
      using r m1 by (cases cookie) (auto simp: apply_macs_def Let_def w_def)
    then show thesis
      using that [of m1 "set_fld w mac2_r (replicate 16 0)"] put [of "replicate 16 0"] m1 l False by auto
  qed
qed

lemma verify_mac1_accepts:
  assumes "mac_ranges msg = Some (alpha, mac1_r, beta, mac2_r)" "mac16 C key [fld msg alpha] = Inr m1"
    "fld msg mac1_r = m1" "length m1 = 16"
  shows "verify_mac1 C msg key = Some m1"
  using assms by (simp add: verify_mac1_def mac_eq_def)

section \<open>Cookie replies\<close>

lemma cookie_reply_roundtrip:
  assumes C: "crypto_laws C" and buf: "length buf = COOKIE_REPLY_LEN" and secret: "length (cs_current secret) = 32"
  obtains tau reply where "cookie_for C secret src = Inr tau" "length tau = 16"
    "fst (create_cookie_reply C rng secret (cookie_key C s_pub) receiver src mac1 buf) = Inr reply"
    "length reply = COOKIE_REPLY_LEN" "take 4 reply = [MSG_COOKIE_REPLY, 0, 0, 0]"
    "fld reply cookie_RECEIVER = to_le_bytes receiver"
    "consume_cookie_reply C s_pub mac1 reply = Inr tau"
proof -
  obtain tau where tau: "cookie_for C secret src = Inr tau" "length tau = 16"
    using mac16_total [OF C, of "cs_current secret"] secret by (auto simp: cookie_for_def)
  obtain nonce rng' where n: "fill_bytes C XNONCE_LEN rng = (nonce, rng')" by fastforce
  have nl: "length nonce = 24" using crypto_lengths(5) [OF C, of XNONCE_LEN rng] n by simp
  define m0 where "m0 = put_slice buf 0 [MSG_COOKIE_REPLY, 0, 0, 0]"
  have w: "write_type buf 3 = Inr m0" using buf by (simp add: write_type_def m0_def)
  have len0: "length m0 = 64" using buf by (simp add: m0_def put_slice_def)
  define m1 where "m1 = set_fld (set_fld m0 cookie_RECEIVER (to_le_bytes receiver)) cookie_NONCE nonce"
  have len1: "length m1 = 64" using len0 nl by (simp add: m1_def slice_simps layout_simps)
  let ?b = "put_slice (fld m1 cookie_COOKIE) 0 tau"
  have b: "length ?b = 16 + TAG_LEN" "take 16 ?b = tau"
    using len1 tau(2) by (simp_all add: put_slice_def slice_simps layout_simps)
  from xaead_seal_open [OF C tau(2) _ b, of "cookie_key C s_pub" nonce mac1] obtain sealed tag where
    s: "xaead_seal C (cookie_key C s_pub) nonce ?b 16 mac1 = Inr (16 + TAG_LEN, sealed)"
      "length sealed = 32" "xaead_open C (cookie_key C s_pub) nonce sealed mac1 = Inr (16, tau @ tag)" by auto
  let ?reply = "set_fld m1 cookie_COOKIE sealed"
  have run: "fst (create_cookie_reply C rng secret (cookie_key C s_pub) receiver src mac1 buf) = Inr ?reply"
    using buf n tau s(1) by (simp add: create_cookie_reply_def Let_def w m1_def)
  have fields: "length ?reply = 64" "fld ?reply cookie_RECEIVER = to_le_bytes receiver"
      "fld ?reply cookie_NONCE = nonce" "fld ?reply cookie_COOKIE = sealed"
    using len0 len1 nl s(2) by (simp_all add: m1_def slice_simps layout_simps)
  have "take 4 ?reply = [MSG_COOKIE_REPLY, 0, 0, 0]"
    using buf len0 len1 nl by (simp add: m1_def m0_def set_fld_def put_slice_def layout_simps)
  moreover have "consume_cookie_reply C s_pub mac1 ?reply = Inr tau"
    using fields s(3) tau(2) by (simp add: consume_cookie_reply_def)
  ultimately show thesis using that [OF tau run] fields by simp
qed

section \<open>Properties\<close>

text \<open>
  C31: the cookie challenge completes. A handshake message with its MACs applied passes the
  receiver's \<open>mac1\<close> check; the cookie reply to it is accepted by the sender that remembers that
  \<open>mac1\<close>, and yields the cookie of the sender's address; and the message with MACs applied
  again while the cookie is fresh passes both checks when it arrives from the same address under the
  same secret.
\<close>

theorem cookie_challenge_completes:
  assumes "crypto_laws C" "mac_ranges msg \<noteq> None" "length buf = COOKIE_REPLY_LEN" "length (cs_current secret) = 32"
    and "saturating_since now received < COOKIE_REFRESH_TIME"
  shows "\<exists>m1 out reply tau m1' out'. apply_macs C msg s_pub None now = Inr (m1, out)
    \<and> verify_mac1 C out (mac1_key C s_pub) = Some m1
    \<and> fst (create_cookie_reply C rng secret (cookie_key C s_pub) receiver src m1 buf) = Inr reply
    \<and> fld reply cookie_RECEIVER = to_le_bytes receiver
    \<and> consume_cookie_reply C s_pub m1 reply = Inr tau \<and> cookie_for C secret src = Inr tau
    \<and> apply_macs C msg s_pub (Some (tau, received)) now = Inr (m1', out')
    \<and> verify_mac1 C out' (mac1_key C s_pub) = Some m1' \<and> verify_mac2 C secret out' src"
proof -
  obtain alpha mac1_r beta mac2_r where r: "mac_ranges msg = Some (alpha, mac1_r, beta, mac2_r)"
    using assms(2) by auto
  obtain m1 out where a1: "apply_macs C msg s_pub None now = Inr (m1, out)" "length m1 = 16"
    "mac_ranges out = mac_ranges msg" "fld out alpha = fld msg alpha" "fld out mac1_r = m1"
    "mac16 C (mac1_key C s_pub) [fld msg alpha] = Inr m1"
    by (rule apply_macsE [OF assms(1) r, of None s_pub now]) auto
  have v1: "verify_mac1 C out (mac1_key C s_pub) = Some m1"
    using a1 r by (intro verify_mac1_accepts [of out alpha mac1_r beta mac2_r]) simp_all
  obtain tau reply where c: "cookie_for C secret src = Inr tau" "length tau = 16"
    "fst (create_cookie_reply C rng secret (cookie_key C s_pub) receiver src m1 buf) = Inr reply"
    "fld reply cookie_RECEIVER = to_le_bytes receiver" "consume_cookie_reply C s_pub m1 reply = Inr tau"
    by (rule cookie_reply_roundtrip [OF assms(1,3,4), of src rng s_pub receiver m1])
  obtain m1' out' where a2: "apply_macs C msg s_pub (Some (tau, received)) now = Inr (m1', out')" "length m1' = 16"
    "mac_ranges out' = mac_ranges msg" "fld out' alpha = fld msg alpha" "fld out' mac1_r = m1'"
    "mac16 C (mac1_key C s_pub) [fld msg alpha] = Inr m1'"
    "mac16 C tau [fld out' beta] = Inr (fld out' mac2_r)" "length (fld out' mac2_r) = 16"
    by (rule apply_macsE [OF assms(1) r, of "Some (tau, received)" s_pub now]) (use c assms(5) in auto)
  have v2: "verify_mac1 C out' (mac1_key C s_pub) = Some m1'"
    using a2 r by (intro verify_mac1_accepts [of out' alpha mac1_r beta mac2_r]) simp_all
  have "verify_mac2 C secret out' src"
    using a2 r c(1) by (simp add: verify_mac2_def mac_eq_def cookie_for_def)
  with a1(1) v1 c a2(1) v2 show ?thesis by blast
qed

theorem cookie_challenge_completes_witness:
  "\<exists>m1 out. apply_macs xor_crypto (1 # replicate 147 0) (replicate 32 5) None 1000 = Inr (m1, out)
     \<and> verify_mac1 xor_crypto out (mac1_key xor_crypto (replicate 32 5)) = Some m1"
proof -
  have "mac_ranges (1 # replicate 147 0) \<noteq> None" by (simp add: mac_ranges_def get_at_def)
  moreover have "saturating_since 1000 0 < COOKIE_REFRESH_TIME"
    by (simp add: saturating_since_def word_less_nat_alt unat_sat_sub)
  ultimately show ?thesis
    using cookie_challenge_completes [OF xor_crypto_laws, of "1 # replicate 147 0" "replicate 64 0"
        "\<lparr>cs_current = replicate 32 0, cs_rotated_at = 0\<rparr>" 1000 0 "replicate 32 5" 0 0 "SockV4 0 0"]
    by auto
qed

text \<open>The canonical IP address and port a socket address stands for.\<close>

definition endpoint_of :: "socket_addr \<Rightarrow> ip_addr \<times> u16" where
  "endpoint_of addr =
     (case unmap_socket_addr addr of SockV4 ip port \<Rightarrow> (IpV4 ip, port) | SockV6 ip port _ _ \<Rightarrow> (IpV6 ip, port))"

lemma to_be_bytes_eq_iff: "8 dvd LENGTH('a) \<Longrightarrow> to_be_bytes v = to_be_bytes w \<longleftrightarrow> v = w"
  for v w :: "'a::len word"
  by (metis from_to_be_bytes)

lemma addr_bytes_eq_iff: "addr_bytes a = addr_bytes b \<longleftrightarrow> endpoint_of a = endpoint_of b"
proof -
  have len: "length (addr_bytes x) = (case unmap_socket_addr x of SockV4 _ _ \<Rightarrow> 6 | SockV6 _ _ _ _ \<Rightarrow> 18)" for x
    by (simp add: addr_bytes_def split: socket_addr.splits)
  show ?thesis
  proof (cases "unmap_socket_addr a"; cases "unmap_socket_addr b")
    fix i p j q fl sc
    assume *: "unmap_socket_addr a = SockV4 i p" "unmap_socket_addr b = SockV6 j q fl sc"
    then have "addr_bytes a \<noteq> addr_bytes b" using len [of a] len [of b] by auto
    with * show ?thesis by (simp add: endpoint_of_def)
  next
    fix i p j q fl sc
    assume *: "unmap_socket_addr b = SockV4 i p" "unmap_socket_addr a = SockV6 j q fl sc"
    then have "addr_bytes a \<noteq> addr_bytes b" using len [of a] len [of b] by auto
    with * show ?thesis by (simp add: endpoint_of_def)
  qed (simp_all add: addr_bytes_def endpoint_of_def to_be_bytes_eq_iff)
qed

text \<open>
  What is asked of the MAC for given secrets, addresses and message: that it does not happen to map different
  inputs among these few to the same value.
\<close>

definition no_mac_collision :: "'r crypto \<Rightarrow> bytes set \<Rightarrow> socket_addr set \<Rightarrow> bytes \<Rightarrow> bool" where
  "no_mac_collision C secrets addrs msg \<longleftrightarrow>
     (\<forall>k\<in>secrets. \<forall>l\<in>secrets. \<forall>x\<in>addrs. \<forall>y\<in>addrs. mac16 C k [addr_bytes x] = mac16 C l [addr_bytes y] \<longrightarrow> k = l \<and> addr_bytes x = addr_bytes y) \<and>
     (\<forall>k\<in>secrets. \<forall>l\<in>secrets. \<forall>x\<in>addrs. \<forall>y\<in>addrs. \<forall>c d. mac16 C k [addr_bytes x] = Inr c \<longrightarrow> mac16 C l [addr_bytes y] = Inr d \<longrightarrow>
        mac16 C c [msg] = mac16 C d [msg] \<longrightarrow> c = d)"

lemma verify_mac2_iff:
  assumes C: "crypto_laws C" and r: "mac_ranges msg = Some (alpha, mac1_r, beta, mac2_r)"
    and tau: "cookie_for C s a = Inr tau" "length (fld msg mac2_r) = 16" "mac16 C tau [fld msg beta] = Inr (fld msg mac2_r)"
    and secret: "length (cs_current s') \<le> 32" and no: "no_mac_collision C {cs_current s, cs_current s'} {a, b} (fld msg beta)"
  shows "verify_mac2 C s' msg b \<longleftrightarrow> cs_current s' = cs_current s \<and> addr_bytes b = addr_bytes a"
proof -
  from mac16_total [OF C secret] obtain d where d: "mac16 C (cs_current s') [addr_bytes b] = Inr d" "length d = 16" by blast
  from mac16_total [OF C, of d] d(2) obtain e where e: "mac16 C d [fld msg beta] = Inr e" by auto
  have "verify_mac2 C s' msg b \<longleftrightarrow> mac16 C d [fld msg beta] = mac16 C tau [fld msg beta]"
    using r d(1) e tau(2,3) by (simp add: verify_mac2_def mac_eq_def)
  also have "\<dots> \<longleftrightarrow> d = tau" using no d(1) tau(1) unfolding no_mac_collision_def cookie_for_def by blast
  also have "\<dots> \<longleftrightarrow> cs_current s' = cs_current s \<and> addr_bytes b = addr_bytes a"
  proof
    assume "d = tau"
    then have "mac16 C (cs_current s') [addr_bytes b] = mac16 C (cs_current s) [addr_bytes a]" using d(1) tau(1) by (simp add: cookie_for_def)
    then show "cs_current s' = cs_current s \<and> addr_bytes b = addr_bytes a" using no unfolding no_mac_collision_def by blast
  next
    assume "cs_current s' = cs_current s \<and> addr_bytes b = addr_bytes a"
    then show "d = tau" using d(1) tau(1) by (simp add: cookie_for_def)
  qed
  finally show ?thesis .
qed

text \<open>
  C32: a cookie is bound to its source and to the secret it was made with. Let a handshake message carry the MACs made
  with the fresh cookie of address \<open>a\<close>. When the responder, having refreshed its secret, checks
  it as coming from \<open>b\<close>, the message passes if and only if \<open>b\<close> is the same IP address (an IPv4-mapped IPv6 address being its
  IPv4 address) and port as \<open>a\<close>, and the secret was less than two minutes old, so that the refresh kept it; provided
  that a newly drawn secret is not the old one and the MAC does not collide on the secrets, addresses and message at hand.
\<close>

theorem cookie_binds_source:
  assumes "crypto_laws C" "mac_ranges msg \<noteq> None" "length (cs_current s) = 32" "cookie_for C s a = Inr tau"
    and "saturating_since sent received < COOKIE_REFRESH_TIME"
    and "apply_macs C msg s_pub (Some (tau, received)) sent = Inr (m1, out)"
    and "fst (fill_bytes C 32 rng) \<noteq> cs_current s"
    and "no_mac_collision C {cs_current s, cs_current (fst (cookie_refresh C s rng now))} {a, b} (fld out (fst (snd (snd (the (mac_ranges out))))))"
  shows "verify_mac2 C (fst (cookie_refresh C s rng now)) out b \<longleftrightarrow>
    endpoint_of b = endpoint_of a \<and> saturating_since now (cs_rotated_at s) < COOKIE_REFRESH_TIME"
proof -
  let ?s = "fst (cookie_refresh C s rng now)"
  obtain alpha mac1_r beta mac2_r where r: "mac_ranges msg = Some (alpha, mac1_r, beta, mac2_r)" using assms(2) by auto
  have tau: "length tau = 16" using mac16_total [OF assms(1), of "cs_current s" "[addr_bytes a]"] assms(3,4) by (auto simp: cookie_for_def)
  have out: "mac_ranges out = Some (alpha, mac1_r, beta, mac2_r)" "mac16 C tau [fld out beta] = Inr (fld out mac2_r)" "length (fld out mac2_r) = 16"
    by (rule apply_macsE [OF assms(1) r, of "Some (tau, received)" s_pub sent]; use tau assms(5,6) r in auto)+
  have drawn: "length (fst (fill_bytes C 32 rng)) = 32" using crypto_lengths(5) [OF assms(1)] by simp
  have fresh: "cs_current ?s = cs_current s \<longleftrightarrow> saturating_since now (cs_rotated_at s) < COOKIE_REFRESH_TIME" "length (cs_current ?s) = 32"
    using assms(3,7) drawn by (auto simp: cookie_refresh_def not_le split: prod.splits)
  from assms(8) out(1) have "no_mac_collision C {cs_current s, cs_current ?s} {a, b} (fld out beta)" by simp
  from verify_mac2_iff [OF assms(1) out(1) assms(4) out(3,2) _ this] fresh show ?thesis by (auto simp: addr_bytes_eq_iff)
qed

text \<open>A MAC that shows the key and the beginning of the message, for the witness.\<close>

definition plain_mac :: "bytes \<Rightarrow> bytes \<Rightarrow> bytes" where
  "plain_mac k m = take 4 (k @ replicate 16 0) @ take 4 (drop 8 (k @ replicate 16 0)) @ take 8 (m @ replicate 8 0)"

lemma length_plain_mac: "length (plain_mac k m) = 16"
  by (auto simp: plain_mac_def min_def)

definition plain_crypto :: "u8 crypto" where
  "plain_crypto = xor_crypto\<lparr>blake2s_mac16 := \<lambda>k m. Some (plain_mac k m)\<rparr>"

lemma plain_crypto_laws: "crypto_laws plain_crypto"
  using xor_crypto_laws by (simp add: crypto_laws_def plain_crypto_def length_plain_mac)

lemma plain_mac16: "mac16 plain_crypto k ps = Inr (plain_mac k (concat ps))"
  by (simp add: mac16_def plain_crypto_def)

definition demo_secret :: cookie_secret where
  "demo_secret = \<lparr>cs_current = replicate 32 3, cs_rotated_at = 0\<rparr>"

abbreviation demo_src :: "u32 \<Rightarrow> socket_addr" where
  "demo_src ip \<equiv> SockV4 ip 51820"

lemma demo_cookie: "plain_mac (replicate 32 r) (addr_bytes (demo_src ip)) = replicate 8 r @ to_be_bytes ip @ to_be_bytes (51820 :: u16) @ [0, 0]"
  by (simp add: plain_mac_def addr_bytes_def) (simp add: eval_nat_numeral)

lemma demo_no_collision: "no_mac_collision plain_crypto {replicate 32 r, replicate 32 q} {demo_src x, demo_src y} msg"
proof -
  have "r = q \<and> x = y" if "replicate 8 r @ to_be_bytes x = replicate 8 q @ to_be_bytes y" for r q :: u8 and x y :: u32
    using that by (auto simp: to_be_bytes_eq_iff)
  moreover have "plain_mac (replicate 8 r @ to_be_bytes ip @ rest) m = replicate 4 r @ to_be_bytes ip @ take 8 (m @ replicate 8 0)" for r and ip :: u32 and rest m
    by (simp add: plain_mac_def)
  ultimately show ?thesis by (auto simp: no_mac_collision_def plain_mac16 demo_cookie to_be_bytes_eq_iff)
qed

theorem cookie_binds_source_witness:
  "\<exists>tau m1 out. cookie_for plain_crypto demo_secret (demo_src 1) = Inr tau \<and>
     apply_macs plain_crypto (1 # replicate 147 0) (replicate 32 5) (Some (tau, 0)) 1000 = Inr (m1, out) \<and>
     verify_mac2 plain_crypto (fst (cookie_refresh plain_crypto demo_secret 7 2000)) out (demo_src 1) \<and>
     \<not> verify_mac2 plain_crypto (fst (cookie_refresh plain_crypto demo_secret 7 2000)) out (demo_src 2) \<and>
     \<not> verify_mac2 plain_crypto (fst (cookie_refresh plain_crypto demo_secret 7 120000)) out (demo_src 1)"
proof -
  let ?msg = "1 # replicate 147 (0 :: u8)"
  obtain tau where tau: "cookie_for plain_crypto demo_secret (demo_src 1) = Inr tau" "length tau = 16"
    by (simp add: cookie_for_def plain_mac16 length_plain_mac)
  have ranges: "mac_ranges ?msg \<noteq> None" by (simp add: mac_ranges_def get_at_def)
  have time: "saturating_since 1000 0 < COOKIE_REFRESH_TIME" "saturating_since 2000 (cs_rotated_at demo_secret) < COOKIE_REFRESH_TIME"
    "\<not> saturating_since 120000 (cs_rotated_at demo_secret) < COOKIE_REFRESH_TIME"
    by (simp_all add: saturating_since_def word_less_nat_alt unat_sat_sub demo_secret_def)
  obtain alpha mac1_r beta mac2_r where "mac_ranges ?msg = Some (alpha, mac1_r, beta, mac2_r)" using ranges by auto
  then obtain m1 out where out: "apply_macs plain_crypto ?msg (replicate 32 5) (Some (tau, 0)) 1000 = Inr (m1, out)"
    by (rule apply_macsE [OF plain_crypto_laws, of _ _ _ _ _ "Some (tau, 0)" "replicate 32 5" 1000]) (use tau in auto)
  have secret: "length (cs_current demo_secret) = 32" "fst (fill_bytes plain_crypto 32 7) \<noteq> cs_current demo_secret"
    by (simp_all add: demo_secret_def plain_crypto_def xor_crypto_def)
  have "\<exists>r. cs_current (fst (cookie_refresh plain_crypto demo_secret 7 now)) = replicate 32 r" for now
    by (auto simp: cookie_refresh_def demo_secret_def plain_crypto_def xor_crypto_def)
  then have no: "no_mac_collision plain_crypto {cs_current demo_secret, cs_current (fst (cookie_refresh plain_crypto demo_secret 7 now))} {demo_src 1, demo_src y} m" for now y m
    using demo_no_collision [of 3] by (metis cookie_secret.select_convs(1) demo_secret_def)
  note binds = cookie_binds_source [OF plain_crypto_laws ranges secret(1) tau(1) time(1) out secret(2) no]
  have "endpoint_of (demo_src 2) \<noteq> endpoint_of (demo_src 1)" by (simp add: endpoint_of_def)
  with binds [of 2000 1] binds [of 2000 2] binds [of 120000 1] tau(1) out time(2,3) show ?thesis by blast
qed

end
