(* ===== verification/Timestamps.thy ===== *)
theory Timestamps
  imports Constants "HOL-Library.List_Lexorder"
begin

text \<open>
  TAI64N handshake timestamps (\<open>tai64n\<close> of \<open>microtun-core/src/crypto.rs\<close>) and the wall
  clock that produces them (\<open>WallClock\<close>, \<open>set_unix_time\<close>, \<open>timestamp\<close> and
  \<open>next_whitened_timestamp\<close> of \<open>microtun-core/src/lib.rs\<close>). Timestamps are 12-byte
  big-endian arrays compared lexicographically, as in the sources. The result is that the timestamps
  of one engine increase strictly, whatever the wall clock does, so no peer that remembers the
  last handshake locks it out.
\<close>

section \<open>Definitions\<close>

definition tai64n :: "u64 \<Rightarrow> u32 \<Rightarrow> bytes result" where
  "tai64n unix_secs nanos =
     rbind (ok_or (checked_add 0x400000000000000a unix_secs) TimeOverflow) (\<lambda>seconds.
     Inr (to_be_bytes seconds @ to_be_bytes (nanos AND NOT 0x00ffffff)))"

record wall_clock =
  base_unix_nanos :: u64
  base_instant :: instant

definition set_wall :: "u64 \<Rightarrow> u32 \<Rightarrow> instant \<Rightarrow> wall_clock" where
  "set_wall unix_secs nanos now =
     \<lparr>base_unix_nanos = sat_add (sat_mul unix_secs 1000000000) (ucast nanos), base_instant = now\<rparr>"

definition QUANTUM :: u32 where "QUANTUM = push_bit 24 1"

definition next_whitened_timestamp :: "bytes \<Rightarrow> bytes result" where
  "next_whitened_timestamp prev =
     (let seconds = from_be_bytes (take 8 prev) :: u64;
          nanos = (from_be_bytes (drop 8 prev) :: u32) AND NOT 0x00ffffff;
          next_nanos = sat_add nanos QUANTUM
      in rbind (if next_nanos \<ge> 1000000000
                then rbind (ok_or (checked_add seconds 1) TimeOverflow) (\<lambda>seconds. Inr (seconds, 0))
                else Inr (seconds, next_nanos)) (\<lambda>(seconds, nanos).
         Inr (to_be_bytes seconds @ to_be_bytes nanos)))"

text \<open>\<open>timestamp_at wall last_ts now\<close>: the timestamp, which is also the new \<open>last_ts\<close>.\<close>

definition timestamp_at :: "wall_clock option \<Rightarrow> bytes \<Rightarrow> instant \<Rightarrow> bytes result" where
  "timestamp_at wall last_ts now =
     rbind (ok_or wall NoWallClock) (\<lambda>wall.
     let elapsed_ms = saturating_since now (base_instant wall);
         nanos_total = sat_add (base_unix_nanos wall) (sat_mul elapsed_ms 1000000)
     in rbind (tai64n (nanos_total div 1000000000) (ucast (nanos_total mod 1000000000))) (\<lambda>ts.
        if ts \<le> last_ts then next_whitened_timestamp last_ts else Inr ts))"

section \<open>Timestamps as numbers\<close>

text \<open>Big-endian arrays of equal length compare like the numbers they encode.\<close>

definition be_value :: "bytes \<Rightarrow> nat" where
  "be_value bs = le_value (rev bs)"

lemma le_value_append: "le_value (xs @ ys) = le_value xs + 256 ^ length xs * le_value ys"
  by (induction xs) (simp_all add: algebra_simps)

lemma be_value_Cons: "be_value (b # bs) = unat b * 256 ^ length bs + be_value bs"
  by (simp add: be_value_def le_value_append)

lemma be_value_append: "be_value (xs @ ys) = be_value xs * 256 ^ length ys + be_value ys"
  by (simp add: be_value_def le_value_append)

lemma be_value_bound: "be_value bs < 256 ^ length bs"
  using le_value_bound [of "rev bs"] by (simp add: be_value_def)

lemma bytes_less_iff:
  "length xs = length ys \<Longrightarrow> xs < ys \<longleftrightarrow> be_value xs < be_value ys"
proof (induction xs ys rule: list_induct2)
  case Nil
  then show ?case by (simp add: be_value_def)
next
  case (Cons x xs y ys)
  have bx: "be_value xs < 256 ^ length xs" and b: "be_value ys < 256 ^ length xs"
    using be_value_bound [of xs] be_value_bound [of ys] Cons.hyps by simp_all
  consider "x < y" | "x = y" | "y < x" by force
  then show ?case
  proof cases
    case 1
    then have "(unat x + 1) * 256 ^ length xs \<le> unat y * 256 ^ length xs"
      by (intro mult_right_mono) (simp_all add: word_less_nat_alt)
    with bx 1 show ?thesis using Cons.hyps by (simp add: be_value_Cons)
  next
    case 3
    then have "(unat y + 1) * 256 ^ length xs \<le> unat x * 256 ^ length xs"
      by (intro mult_right_mono) (simp_all add: word_less_nat_alt)
    with b 3 show ?thesis using Cons.hyps by (auto simp: be_value_Cons)
  qed (use Cons in \<open>simp add: be_value_Cons\<close>)
qed

lemma be_value_to_be_bytes: "8 dvd LENGTH('a) \<Longrightarrow> be_value (to_be_bytes w) = unat w"
  for w :: "'a::len word"
proof -
  assume a: "8 dvd LENGTH('a)"
  then have "(256::nat) ^ (LENGTH('a) div 8) = 2 ^ LENGTH('a)"
    using power_mult [of "2::nat" 8 "LENGTH('a) div 8"] by simp
  then show ?thesis
    by (simp add: be_value_def to_be_bytes_def to_le_bytes_def le_value_digits unsigned_less)
qed

lemma unat_from_be_bytes:
  assumes "length bs = LENGTH('a) div 8" "8 dvd LENGTH('a)"
  shows "unat (from_be_bytes bs :: 'a::len word) = be_value bs"
  using be_value_to_be_bytes [OF assms(2), of "from_be_bytes bs"] to_from_be_bytes [OF assms] by simp

section \<open>Strict increase\<close>

lemma unat_whiten: "unat (w AND NOT 0x00ffffff :: u32) = unat w div 2 ^ 24 * 2 ^ 24"
proof -
  have m: "(0x00ffffff :: u32) = mask 24" by (simp add: mask_eq_exp_minus_1)
  have "w AND NOT (mask 24) = push_bit 24 (drop_bit 24 w)"
    by (rule bit_word_eqI) (auto simp: bit_simps)
  moreover have "unat (push_bit 24 (drop_bit 24 w)) = unat w div 2 ^ 24 * 2 ^ 24"
  proof -
    have "unat (drop_bit 24 w) = unat w div 2 ^ 24" by (simp add: drop_bit_eq_div unat_div)
    moreover have "unat w div 2 ^ 24 < 2 ^ 8" using unsigned_less [of w, where 'a = nat] by (simp add: div_less_iff_less_mult)
    ultimately have "unat (drop_bit 24 w) * unat (2 ^ 24 :: u32) < 2 ^ 32" by simp
    then have "unat (drop_bit 24 w * 2 ^ 24) = unat (drop_bit 24 w) * unat (2 ^ 24 :: u32)"
      by (simp add: unat_word_ariths)
    then show ?thesis using \<open>unat (drop_bit 24 w) = unat w div 2 ^ 24\<close> by (simp add: push_bit_eq_mult)
  qed
  ultimately show ?thesis by (simp add: m)
qed

lemma next_whitened_increases:
  assumes "length prev = 12" "next_whitened_timestamp prev = Inr ts"
  shows "length ts = 12 \<and> prev < ts"
proof -
  define seconds where "seconds = (from_be_bytes (take 8 prev) :: u64)"
  define raw where "raw = (from_be_bytes (drop 8 prev) :: u32)"
  have vals: "be_value (take 8 prev) = unat seconds" "be_value (drop 8 prev) = unat raw"
    using assms(1) by (simp_all add: seconds_def raw_def unat_from_be_bytes)
  have last: "be_value prev = unat seconds * 256 ^ 4 + unat raw"
    using be_value_append [of "take 8 prev" "drop 8 prev"] vals assms(1) by simp
  let ?n = "raw AND NOT 0x00ffffff"
  let ?next = "sat_add ?n QUANTUM"
  have q: "unat QUANTUM = 2 ^ 24" by (simp add: QUANTUM_def)
  have rb: "unat raw < 2 ^ 32" using unsigned_less [of raw, where 'a = nat] by simp
  have "unat raw < unat ?n + 2 ^ 24" unfolding unat_whiten by (simp add: div_mult_mod_eq)
  moreover have "unat ?next = min (unat ?n + 2 ^ 24) (2 ^ 32 - 1)" by (simp add: unat_sat_add q)
  ultimately have up: "unat raw < unat ?next \<or> unat ?next \<ge> 1000000000"
    by (cases "unat ?n + 2 ^ 24 \<le> 2 ^ 32 - 1") (simp_all add: min_def)
  show ?thesis
  proof (cases "?next \<ge> 1000000000")
    case True
    then obtain s' where s: "checked_add seconds 1 = Some s'" "ts = to_be_bytes s' @ to_be_bytes (0 :: u32)"
      using assms(2) by (auto simp: next_whitened_timestamp_def Let_def seconds_def [symmetric] raw_def [symmetric]
          rbind_eq_Inr ok_or_eq_Inr)
    have "be_value ts = (unat seconds + 1) * 256 ^ 4"
      using checked_add_Some [OF s(1)] s(2) by (simp add: be_value_append be_value_to_be_bytes)
    with last rb s(2) assms(1) show ?thesis by (simp add: bytes_less_iff)
  next
    case False
    then have ts: "ts = to_be_bytes seconds @ to_be_bytes ?next"
      using assms(2) by (simp add: next_whitened_timestamp_def Let_def seconds_def [symmetric] raw_def [symmetric])
    have "unat raw < unat ?next" using up False by (simp add: word_le_nat_alt)
    then have "be_value prev < be_value ts"
      by (simp add: last ts be_value_append be_value_to_be_bytes)
    with ts assms(1) show ?thesis by (simp add: bytes_less_iff)
  qed
qed

lemma length_tai64n: "tai64n s n = Inr ts \<Longrightarrow> length ts = 12"
  by (auto simp: tai64n_def rbind_eq_Inr)

lemma timestamp_at_increases:
  assumes "length prev = 12" "timestamp_at wall prev now = Inr ts"
  shows "length ts = 12 \<and> prev < ts"
  using assms next_whitened_increases [OF assms(1)] length_tai64n
  by (auto simp: timestamp_at_def rbind_eq_Inr Let_def not_le split: if_splits)

section \<open>Property\<close>

text \<open>The calls that touch the clock state, and the timestamps a sequence of them issues.\<close>

datatype clock_call = SetUnixTime u64 u32 instant | Timestamp instant

fun issued :: "clock_call list \<Rightarrow> wall_clock option \<Rightarrow> bytes \<Rightarrow> bytes list" where
  "issued [] wall prev = []"
| "issued (SetUnixTime secs nanos now # calls) wall prev = issued calls (Some (set_wall secs nanos now)) prev"
| "issued (Timestamp now # calls) wall prev =
     (case timestamp_at wall prev now of
        Inl _ \<Rightarrow> issued calls wall prev
      | Inr ts \<Rightarrow> ts # issued calls wall ts)"

lemma issued_above:
  "length prev = 12 \<Longrightarrow> sorted_wrt (<) (issued calls wall prev) \<and> (\<forall>ts\<in>set (issued calls wall prev). prev < ts)"
proof (induction calls wall prev rule: issued.induct)
  case (3 now calls wall prev)
  show ?case
  proof (cases "timestamp_at wall prev now")
    case (Inr ts)
    have "length ts = 12 \<and> prev < ts" by (rule timestamp_at_increases [OF 3(3) Inr])
    with 3(2) [OF Inr] Inr show ?thesis by (auto intro: less_trans)
  qed (use 3 in auto)
qed auto

text \<open>
  C26: whatever the wall clock is set to and however often, the handshake timestamps one engine
  issues are strictly increasing, starting above the zero timestamp a fresh peer entry remembers;
  so a peer that saw all of them in order accepts every one.
\<close>

theorem timestamps_strictly_increase:
  "sorted_wrt (<) (replicate 12 0 # issued calls None (replicate 12 0))"
  using issued_above [of "replicate 12 0" calls None] by simp

end
