(* ===== verification/Peer_State.thy ===== *)
theory Peer_State
  imports Constants Ip_Packet Prefix_Trie Firewall
begin

text \<open>
  Peer-owned state (\<open>microtun-core/src/peer.rs\<close>): the four session generations of a peer with
  their timers, and the peer record. The lemmas give the session links as a state machine: every
  transition keeps the links distinct and the overall attempt deadline set exactly while a
  handshake runs, and a slot that loses its last link is handed back to the caller.
\<close>

section \<open>Session generations\<close>

datatype peer_kind = Pinned | Dynamic

record peer_sessions =
  ps_current :: "slot_idx option"
  ps_previous :: "slot_idx option"
  ps_next :: "slot_idx option"
  ps_handshake :: "slot_idx option"
  keepalive_due :: "instant option"
  persistent_keepalive_due :: "instant option"
  reply_due :: "instant option"
  attempt_deadline :: "instant option"

definition sessions_default :: peer_sessions where
  "sessions_default =
     \<lparr>ps_current = None, ps_previous = None, ps_next = None, ps_handshake = None, keepalive_due = None,
      persistent_keepalive_due = None, reply_due = None, attempt_deadline = None\<rparr>"

definition sessions_slots :: "peer_sessions \<Rightarrow> slot_idx option list" where
  "sessions_slots ps = [ps_current ps, ps_previous ps, ps_next ps, ps_handshake ps]"

definition validate_responder_install :: "peer_sessions \<Rightarrow> slot_idx \<Rightarrow> unit result" where
  "validate_responder_install ps sidx =
     (if ps_next ps \<noteq> None \<and> ps_next ps \<noteq> Some sidx then Inl InternalInvariant else Inr ())"

definition commit_responder_install :: "peer_sessions \<Rightarrow> slot_idx \<Rightarrow> peer_sessions" where
  "commit_responder_install ps sidx = ps\<lparr>ps_next := Some sidx\<rparr>"

definition rotate_current :: "peer_sessions \<Rightarrow> slot_idx \<Rightarrow> slot_idx option \<times> peer_sessions" where
  "rotate_current ps sidx = (ps_previous ps, ps\<lparr>ps_previous := ps_current ps, ps_current := Some sidx\<rparr>)"

definition install_initiator :: "peer_sessions \<Rightarrow> slot_idx \<Rightarrow> slot_idx option result \<times> peer_sessions" where
  "install_initiator ps sidx =
     (if ps_handshake ps \<noteq> Some sidx then (Inl InternalInvariant, ps)
      else let (old, ps) = rotate_current (ps\<lparr>ps_handshake := None, attempt_deadline := None\<rparr>) sidx
      in (Inr old, ps))"

definition confirm_responder :: "peer_sessions \<Rightarrow> slot_idx \<Rightarrow> slot_idx option result \<times> peer_sessions" where
  "confirm_responder ps sidx =
     (if ps_next ps \<noteq> Some sidx then (Inl InternalInvariant, ps)
      else let (old, ps) = rotate_current (ps\<lparr>ps_next := None\<rparr>) sidx in (Inr old, ps))"

definition begin_handshake :: "peer_sessions \<Rightarrow> slot_idx \<Rightarrow> instant \<Rightarrow> unit result \<times> peer_sessions" where
  "begin_handshake ps sidx deadline =
     (if ps_handshake ps \<noteq> None then (Inl InternalInvariant, ps)
      else let ps = ps\<lparr>ps_handshake := Some sidx\<rparr>
      in (Inr (), if attempt_deadline ps = None then ps\<lparr>attempt_deadline := Some deadline\<rparr> else ps))"

definition abort_handshake :: "peer_sessions \<Rightarrow> peer_sessions" where
  "abort_handshake ps = ps\<lparr>ps_handshake := None, attempt_deadline := None\<rparr>"

definition unlink :: "peer_sessions \<Rightarrow> slot_idx \<Rightarrow> peer_sessions" where
  "unlink ps sidx =
     (let ps = (if ps_current ps = Some sidx then ps\<lparr>ps_current := None\<rparr> else ps);
          ps = (if ps_previous ps = Some sidx then ps\<lparr>ps_previous := None\<rparr> else ps);
          ps = (if ps_next ps = Some sidx then ps\<lparr>ps_next := None\<rparr> else ps)
      in if ps_handshake ps = Some sidx then abort_handshake ps else ps)"

section \<open>The peer record\<close>

record peer_entry =
  pe_public_key :: bytes
  precomputed_static_static :: bytes
  pe_kind :: peer_kind
  pe_endpoint :: "socket_addr option"
  endpoint_confirmed :: "instant option"
  pe_relay :: "bytes option"
  pe_inbound_policy :: inbound_policy
  persistent_keepalive :: "duration option"
  pe_address :: ip_cidr
  greatest_ts :: bytes
  last_initiation_consumption :: "instant option"
  pe_cookie :: "(bytes \<times> instant) option"
  last_mac1 :: "bytes option"
  pe_sessions :: peer_sessions
  last_relay_resolve :: "instant option"
  latest_handshake :: "instant option"
  rx_bytes :: u64
  tx_bytes :: u64
  last_activity :: instant

definition peer_new ::
  "bytes \<Rightarrow> peer_kind \<Rightarrow> bytes \<Rightarrow> socket_addr option \<Rightarrow> bytes option \<Rightarrow> inbound_policy \<Rightarrow> duration option \<Rightarrow>
   ip_cidr \<Rightarrow> instant \<Rightarrow> peer_entry" where
  "peer_new public_key kind shared endpoint relay policy keepalive address now =
     (let keepalive = (case keepalive of Some d \<Rightarrow> if d = 0 then None else Some d | None \<Rightarrow> None)
      in \<lparr>pe_public_key = public_key, precomputed_static_static = shared, pe_kind = kind,
          pe_endpoint = map_option unmap_socket_addr endpoint, endpoint_confirmed = None, pe_relay = relay,
          pe_inbound_policy = policy, persistent_keepalive = keepalive, pe_address = address,
          greatest_ts = replicate 12 0, last_initiation_consumption = None, pe_cookie = None,
          last_mac1 = None,
          pe_sessions = sessions_default\<lparr>persistent_keepalive_due := map_option (instant_add now) keepalive\<rparr>,
          last_relay_resolve = None, latest_handshake = None, rx_bytes = 0, tx_bytes = 0,
          last_activity = now\<rparr>)"

definition observe_direct_endpoint :: "peer_entry \<Rightarrow> socket_addr \<Rightarrow> instant \<Rightarrow> bool \<times> peer_entry" where
  "observe_direct_endpoint p endpoint now =
     (if pe_relay p \<noteq> None then (False, p)
      else (endpoint_confirmed p = None \<or> pe_endpoint p \<noteq> Some endpoint,
            p\<lparr>pe_endpoint := Some endpoint, endpoint_confirmed := Some now\<rparr>))"

definition is_pinned :: "peer_entry \<Rightarrow> bool" where
  "is_pinned p \<longleftrightarrow> pe_kind p = Pinned"

section \<open>Links\<close>

definition linked :: "peer_sessions \<Rightarrow> slot_idx set" where
  "linked ps = {s. Some s \<in> set (sessions_slots ps)}"

text \<open>No slot is linked twice, and the attempt deadline runs exactly while a handshake does.\<close>

definition sessions_wf :: "peer_sessions \<Rightarrow> bool" where
  "sessions_wf ps \<longleftrightarrow> distinct (filter (\<lambda>l. l \<noteq> None) (sessions_slots ps))
     \<and> (attempt_deadline ps \<noteq> None \<longleftrightarrow> ps_handshake ps \<noteq> None)"

lemma linked_iff:
  "s \<in> linked ps \<longleftrightarrow> ps_current ps = Some s \<or> ps_previous ps = Some s \<or> ps_next ps = Some s \<or> ps_handshake ps = Some s"
  by (auto simp: linked_def sessions_slots_def)

lemma sessions_wf_iff:
  "sessions_wf ps \<longleftrightarrow>
     (\<forall>s. (ps_current ps = Some s \<longrightarrow> ps_previous ps \<noteq> Some s \<and> ps_next ps \<noteq> Some s \<and> ps_handshake ps \<noteq> Some s)
       \<and> (ps_previous ps = Some s \<longrightarrow> ps_next ps \<noteq> Some s \<and> ps_handshake ps \<noteq> Some s)
       \<and> (ps_next ps = Some s \<longrightarrow> ps_handshake ps \<noteq> Some s))
     \<and> (attempt_deadline ps \<noteq> None \<longleftrightarrow> ps_handshake ps \<noteq> None)"
  by (auto simp: sessions_wf_def sessions_slots_def)

lemma unlink_fields [simp]:
  "ps_current (unlink ps s) = (if ps_current ps = Some s then None else ps_current ps)"
  "ps_previous (unlink ps s) = (if ps_previous ps = Some s then None else ps_previous ps)"
  "ps_next (unlink ps s) = (if ps_next ps = Some s then None else ps_next ps)"
  "ps_handshake (unlink ps s) = (if ps_handshake ps = Some s then None else ps_handshake ps)"
  "attempt_deadline (unlink ps s) = (if ps_handshake ps = Some s then None else attempt_deadline ps)"
  "keepalive_due (unlink ps s) = keepalive_due ps" "reply_due (unlink ps s) = reply_due ps"
  "persistent_keepalive_due (unlink ps s) = persistent_keepalive_due ps"
  by (simp_all add: unlink_def abort_handshake_def Let_def)

lemma linked_unlink [simp]: "linked (unlink ps s) = linked ps - {s}"
  by (auto simp: linked_iff split: if_splits)

lemma sessions_wf_unlink: "sessions_wf ps \<Longrightarrow> sessions_wf (unlink ps s)"
  unfolding sessions_wf_iff by simp

lemma sessions_wf_default [simp]: "sessions_wf (sessions_default\<lparr>persistent_keepalive_due := d\<rparr>)"
  by (simp add: sessions_wf_iff sessions_default_def)

lemma linked_default [simp]: "linked (sessions_default\<lparr>persistent_keepalive_due := d\<rparr>) = {}"
  by (auto simp: linked_iff sessions_default_def)

section \<open>The generations as a state machine\<close>

text \<open>
  A step takes slots from the pool and hands slots back: a handshake takes one, a response takes one
  unless it replaces an unconfirmed session, the two installations hand back the superseded previous
  session, and unlinking hands back its slot.
\<close>

inductive session_step :: "peer_sessions \<Rightarrow> slot_idx set \<Rightarrow> slot_idx set \<Rightarrow> peer_sessions \<Rightarrow> bool" where
  Begin: "begin_handshake ps s d = (Inr (), ps') \<Longrightarrow> s \<notin> linked ps \<Longrightarrow> session_step ps {s} {} ps'"
| Initiator: "install_initiator ps s = (Inr old, ps') \<Longrightarrow> session_step ps {} (set_option old) ps'"
| Respond: "validate_responder_install ps s = Inr () \<Longrightarrow> s \<notin> linked ps \<or> ps_next ps = Some s \<Longrightarrow>
    session_step ps {s} {} (commit_responder_install ps s)"
| Confirm: "confirm_responder ps s = (Inr old, ps') \<Longrightarrow> session_step ps {} (set_option old) ps'"
| Unlink: "session_step ps {} {s} (unlink ps s)"

inductive session_reach :: "peer_sessions \<Rightarrow> bool" where
  Start: "session_reach (sessions_default\<lparr>persistent_keepalive_due := d\<rparr>)"
| Step: "session_reach ps \<Longrightarrow> session_step ps taken freed ps' \<Longrightarrow> session_reach ps'"

lemma begin_handshake_ok:
  "begin_handshake ps s d = (Inr (), ps') \<longleftrightarrow>
     ps_handshake ps = None \<and> ps' = ps\<lparr>ps_handshake := Some s,
       attempt_deadline := (if attempt_deadline ps = None then Some d else attempt_deadline ps)\<rparr>"
  by (auto simp: begin_handshake_def Let_def)

lemma install_initiator_ok:
  "install_initiator ps s = (Inr old, ps') \<longleftrightarrow>
     ps_handshake ps = Some s \<and> old = ps_previous ps \<and>
     ps' = ps\<lparr>ps_handshake := None, attempt_deadline := None, ps_previous := ps_current ps, ps_current := Some s\<rparr>"
  by (auto simp: install_initiator_def rotate_current_def)

lemma confirm_responder_ok:
  "confirm_responder ps s = (Inr old, ps') \<longleftrightarrow>
     ps_next ps = Some s \<and> old = ps_previous ps \<and>
     ps' = ps\<lparr>ps_next := None, ps_previous := ps_current ps, ps_current := Some s\<rparr>"
  by (auto simp: confirm_responder_def rotate_current_def)

lemmas session_transitions = begin_handshake_ok install_initiator_ok confirm_responder_ok

lemma session_step_wf:
  assumes "sessions_wf ps" "session_step ps taken freed ps'"
  shows "sessions_wf ps'"
  using assms(2,1)
proof cases
  case (Begin s d)
  with assms(1) show ?thesis by (auto simp: session_transitions sessions_wf_iff linked_iff)
next
  case (Initiator s old)
  with assms(1) show ?thesis by (auto simp: session_transitions sessions_wf_iff)
next
  case (Respond s)
  with assms(1) show ?thesis by (auto simp: commit_responder_install_def sessions_wf_iff linked_iff)
next
  case (Confirm s old)
  with assms(1) show ?thesis by (auto simp: session_transitions sessions_wf_iff)
next
  case (Unlink s)
  with assms(1) show ?thesis by (simp add: sessions_wf_unlink)
qed

lemma session_step_links:
  assumes "sessions_wf ps" "session_step ps taken freed ps'"
  shows "linked ps' = (linked ps \<union> taken) - freed"
  using assms(2,1)
proof cases
  case (Begin s d)
  with assms(1) show ?thesis by (auto simp: session_transitions linked_iff)
next
  case (Initiator s old)
  with assms(1) show ?thesis by (auto simp: session_transitions sessions_wf_iff linked_iff)
next
  case (Respond s)
  with assms(1) show ?thesis
    by (auto simp: commit_responder_install_def validate_responder_install_def linked_iff split: if_splits)
next
  case (Confirm s old)
  with assms(1) show ?thesis by (auto simp: session_transitions sessions_wf_iff linked_iff)
next
  case (Unlink s)
  then show ?thesis by simp
qed

lemma session_reach_wf: "session_reach ps \<Longrightarrow> sessions_wf ps"
  by (induction rule: session_reach.induct) (auto intro: session_step_wf)

section \<open>Property\<close>

text \<open>
  C25: in every reachable state of a peer's session generations no slot is linked twice and the
  attempt deadline is set exactly while a handshake is in flight; every transition conserves slots,
  so a slot that is no longer linked afterwards is exactly one the transition handed back.
\<close>

theorem session_links_conserved:
  assumes "session_reach ps" "session_step ps taken freed ps'"
  shows "sessions_wf ps' \<and> linked ps' = (linked ps \<union> taken) - freed"
  using session_reach_wf [OF assms(1)] session_step_wf [OF _ assms(2)] session_step_links [OF _ assms(2)] by blast

theorem session_links_conserved_witness:
  "linked (snd (install_initiator (snd (begin_handshake sessions_default 3 90)) 3)) = {3}"
proof -
  let ?b = "snd (begin_handshake sessions_default 3 90)"
  have start: "session_reach sessions_default"
    using session_reach.Start [of None] by (simp add: sessions_default_def)
  have "session_step sessions_default {3} {} ?b"
    by (rule session_step.Begin [of _ _ 90]) (simp_all add: begin_handshake_def sessions_default_def linked_iff)
  with start have b: "session_reach ?b" and l: "linked ?b = {3}"
    using session_links_conserved [of sessions_default "{3}" "{}" ?b] session_reach.Step [of sessions_default]
    by (auto simp: linked_iff sessions_default_def)
  have "session_step ?b {} (set_option None) (snd (install_initiator ?b 3))"
    by (rule session_step.Initiator [of _ 3 None])
      (simp add: begin_handshake_def sessions_default_def install_initiator_def rotate_current_def)
  from session_links_conserved [OF b this] l show ?thesis by simp
qed

end
