(* ===== verification/Core_Config.thy ===== *)
theory Core_Config
  imports Constants Firewall Prefix_Trie
begin

text \<open>
  Engine configuration (\<open>microtun-core/src/config.rs\<close>): pinned peers, the runtime tunables with
  their defaults, and the check of the tunables against the storage ceilings of the build.
\<close>

section \<open>Configuration records\<close>

record pinned_peer =
  pin_public_key :: bytes
  pin_endpoint :: "socket_addr option"
  pin_relay :: "bytes option"
  pin_address :: ip_cidr
  pin_inbound_policy :: inbound_policy
  pin_persistent_keepalive :: "duration option"

record core_config =
  resolve_timeout :: duration
  resolve_outbound_timeout :: duration
  negative_ttl :: duration
  dynamic_peer_min_idle :: duration
  peer_eviction_interval :: duration
  peer_eviction_burst :: u32
  peer_eviction_ghost_ttl :: duration
  peer_eviction_ghost_entries :: usize
  relay_resolve_min_interval :: duration
  lazy_peer_reserve :: usize
  firewall_udp_timeout :: duration
  firewall_icmp_timeout :: duration
  firewall_tcp_timeout :: duration
  firewall_tcp_closing_timeout :: duration
  firewall_flow_entries :: usize
  firewall_flows_per_peer :: usize
  under_load_handshakes_per_sec :: u32
  under_load_free_slots :: usize
  rate_limit_per_sec :: u32
  rate_limit_burst :: u32
  rate_limit_entries :: usize
  remote_resolve_per_sec :: u32
  remote_resolve_burst :: u32
  unknown_auth_per_sec :: u32
  unknown_auth_burst :: u32
  max_inflight_resolves :: usize

definition config_default :: core_config where
  "config_default =
     \<lparr>resolve_timeout = DEFAULT_RESOLVE_TIMEOUT,
      resolve_outbound_timeout = DEFAULT_RESOLVE_OUTBOUND_TIMEOUT,
      negative_ttl = DEFAULT_NEGATIVE_TTL,
      dynamic_peer_min_idle = DEFAULT_DYNAMIC_PEER_MIN_IDLE,
      peer_eviction_interval = DEFAULT_PEER_EVICTION_INTERVAL,
      peer_eviction_burst = DEFAULT_PEER_EVICTION_BURST,
      peer_eviction_ghost_ttl = DEFAULT_PEER_EVICTION_GHOST_TTL,
      peer_eviction_ghost_entries = DEFAULT_PEER_EVICTION_GHOSTS,
      relay_resolve_min_interval = DEFAULT_RELAY_RESOLVE_MIN_INTERVAL,
      lazy_peer_reserve = DEFAULT_LAZY_PEER_RESERVE,
      firewall_udp_timeout = DEFAULT_FIREWALL_UDP_TIMEOUT,
      firewall_icmp_timeout = DEFAULT_FIREWALL_ICMP_TIMEOUT,
      firewall_tcp_timeout = DEFAULT_FIREWALL_TCP_TIMEOUT,
      firewall_tcp_closing_timeout = DEFAULT_FIREWALL_TCP_CLOSING_TIMEOUT,
      firewall_flow_entries = DEFAULT_FIREWALL_FLOWS,
      firewall_flows_per_peer = DEFAULT_FIREWALL_FLOWS_PER_PEER,
      under_load_handshakes_per_sec = DEFAULT_UNDER_LOAD_HANDSHAKES_PER_SEC,
      under_load_free_slots = DEFAULT_UNDER_LOAD_FREE_SLOTS,
      rate_limit_per_sec = DEFAULT_RATE_LIMIT_PER_SEC,
      rate_limit_burst = DEFAULT_RATE_LIMIT_BURST,
      rate_limit_entries = DEFAULT_RATE_LIMIT_ENTRIES,
      remote_resolve_per_sec = DEFAULT_REMOTE_RESOLVE_PER_SEC,
      remote_resolve_burst = DEFAULT_REMOTE_RESOLVE_BURST,
      unknown_auth_per_sec = DEFAULT_UNKNOWN_AUTH_PER_SEC,
      unknown_auth_burst = DEFAULT_UNKNOWN_AUTH_BURST,
      max_inflight_resolves = DEFAULT_INFLIGHT_RESOLVES\<rparr>"

definition validate_against_limits :: "core_config \<Rightarrow> unit result" where
  "validate_against_limits cfg =
     (if rate_limit_entries cfg > MAX_RATE_LIMIT_ENTRIES
         \<or> firewall_flow_entries cfg > MAX_FIREWALL_FLOWS
         \<or> firewall_flow_entries cfg = 0
         \<or> firewall_flows_per_peer cfg = 0
         \<or> firewall_flows_per_peer cfg > firewall_flow_entries cfg
         \<or> max_inflight_resolves cfg > MAX_INFLIGHT_RESOLVES
         \<or> peer_eviction_ghost_entries cfg > MAX_PEER_EVICTION_GHOSTS
      then Inl InvalidCapacity
      else if resolve_timeout cfg = 0
         \<or> resolve_outbound_timeout cfg = 0
         \<or> peer_eviction_interval cfg = 0
         \<or> peer_eviction_burst cfg = 0
      then Inl InvalidCoreConfig
      else Inr ())"

record engine_config =
  ec_private_key :: bytes
  ec_pinned :: "pinned_peer list"
  ec_core_config :: core_config

definition config_new :: "bytes \<Rightarrow> pinned_peer list \<Rightarrow> engine_config" where
  "config_new private_key pinned =
     \<lparr>ec_private_key = private_key, ec_pinned = pinned, ec_core_config = config_default\<rparr>"

definition with_core_config :: "engine_config \<Rightarrow> core_config \<Rightarrow> engine_config" where
  "with_core_config cfg core = cfg\<lparr>ec_core_config := core\<rparr>"

section \<open>Limits of accepted configurations\<close>

text \<open>The shipped defaults are constructible.\<close>

lemma defaults_fit_their_ceilings: "validate_against_limits config_default = Inr ()"
  by (simp add: validate_against_limits_def config_default_def DEFAULT_RATE_LIMIT_ENTRIES_def
      DEFAULT_FIREWALL_FLOWS_def MAX_FIREWALL_FLOWS_def DEFAULT_FIREWALL_FLOWS_PER_PEER_def
      DEFAULT_INFLIGHT_RESOLVES_def MAX_INFLIGHT_RESOLVES_def DEFAULT_PEER_EVICTION_GHOSTS_def
      MAX_PEER_EVICTION_GHOSTS_def DEFAULT_RESOLVE_TIMEOUT_def DEFAULT_RESOLVE_OUTBOUND_TIMEOUT_def
      DEFAULT_PEER_EVICTION_INTERVAL_def DEFAULT_PEER_EVICTION_BURST_def duration_from_secs_def sat_mul_def)

lemma validatedD:
  assumes "validate_against_limits cfg = Inr ()"
  shows "max_inflight_resolves cfg \<le> 12" "0 < firewall_flows_per_peer cfg"
    "firewall_flows_per_peer cfg \<le> firewall_flow_entries cfg" "firewall_flow_entries cfg \<le> MAX_FIREWALL_FLOWS"
    "resolve_timeout cfg \<noteq> 0" "resolve_outbound_timeout cfg \<noteq> 0" "peer_eviction_interval cfg \<noteq> 0"
  using assms by (auto simp: validate_against_limits_def MAX_INFLIGHT_RESOLVES_def split: if_splits)

end
