(* ===== verification/Engine_Monad.thy ===== *)
theory Engine_Monad
  imports Prelude "HOL-Library.State_Monad"
begin

text \<open>
  The shape of the engine's methods: a method with \<open>&mut self\<close> is an action of the state monad
  of the library, one that returns \<open>Result\<close> an action with a result value; a mutation made before
  an error stays, as in the code. \<open>and_then\<close> is the question-mark operator. The rules of this
  theory prove two kinds of facts by following the structure of an action: that it keeps an
  invariant, and that it relates the states before and after by a preorder.
\<close>

section \<open>Actions\<close>

abbreviation ret :: "'a \<Rightarrow> ('s, 'a) state" where "ret \<equiv> State_Monad.return"
abbreviation peek :: "('s, 's) state" where "peek \<equiv> State_Monad.get"

definition modify :: "('s \<Rightarrow> 's) \<Rightarrow> ('s, unit) state" where
  "modify f = State (\<lambda>s. ((), f s))"

definition ok :: "'a \<Rightarrow> ('s, 'a result) state" where "ok x = ret (Inr x)"
definition err :: "error \<Rightarrow> ('s, 'a result) state" where "err e = ret (Inl e)"

definition and_then :: "('s, 'a result) state \<Rightarrow> ('a \<Rightarrow> ('s, 'b result) state) \<Rightarrow> ('s, 'b result) state" where
  "and_then m k = do { r \<leftarrow> m; case r of Inl e \<Rightarrow> err e | Inr x \<Rightarrow> k x }"

text \<open>A pure fallible step, and an action on a component of the state.\<close>

definition lift :: "'a result \<Rightarrow> ('s, 'a result) state" where "lift r = ret r"

definition zoom :: "('s \<Rightarrow> 'c) \<Rightarrow> ('c \<Rightarrow> 's \<Rightarrow> 's) \<Rightarrow> ('c \<Rightarrow> 'a \<times> 'c) \<Rightarrow> ('s, 'a) state" where
  "zoom sel upd f = State (\<lambda>s. let (x, c) = f (sel s) in (x, upd c s))"

named_theorems run_simps \<open>results of running an action\<close>

lemma run_modify [simp, run_simps]: "run_state (modify f) s = ((), f s)"
  by (simp add: modify_def)

lemma run_ok [simp, run_simps]: "run_state (ok x) s = (Inr x, s)"
  by (simp add: ok_def)

lemma run_err [simp, run_simps]: "run_state (err e) s = (Inl e, s)"
  by (simp add: err_def)

lemma run_lift [simp, run_simps]: "run_state (lift r) s = (r, s)"
  by (simp add: lift_def)

lemma run_zoom [run_simps]: "run_state (zoom sel upd f) s = (let (x, c) = f (sel s) in (x, upd c s))"
  by (simp add: zoom_def)

lemma run_and_then [run_simps]:
  "run_state (and_then m k) s =
     (case run_state m s of (Inl e, s') \<Rightarrow> (Inl e, s') | (Inr x, s') \<Rightarrow> run_state (k x) s')"
  by (auto simp: and_then_def split: prod.splits sum.splits)

lemma and_then_ok [simp]: "and_then (ok x) k = k x" "and_then (err e) k = err e" "and_then (lift (Inr x)) k = k x"
    "and_then (lift (Inl e)) k = err e"
  by (simp_all add: and_then_def ok_def err_def lift_def)

section \<open>Invariants\<close>

text \<open>\<open>keeps I m\<close>: the action takes every state with \<open>I\<close> to one with \<open>I\<close>.\<close>

definition keeps :: "('s \<Rightarrow> bool) \<Rightarrow> ('s, 'a) state \<Rightarrow> bool" where
  "keeps I m \<longleftrightarrow> (\<forall>s. I s \<longrightarrow> I (snd (run_state m s)))"

text \<open>\<open>ensures P m Q\<close>: from a state with \<open>P\<close> the result and the final state satisfy \<open>Q\<close>.\<close>

definition ensures :: "('s \<Rightarrow> bool) \<Rightarrow> ('s, 'a) state \<Rightarrow> ('a \<Rightarrow> 's \<Rightarrow> bool) \<Rightarrow> bool" where
  "ensures P m Q \<longleftrightarrow> (\<forall>s. P s \<longrightarrow> Q (fst (run_state m s)) (snd (run_state m s)))"

named_theorems keep_rules \<open>structural rules for invariants\<close>

lemma keepsI: "(\<And>s. I s \<Longrightarrow> I (snd (run_state m s))) \<Longrightarrow> keeps I m"
  by (simp add: keeps_def)

lemma keepsD: "keeps I m \<Longrightarrow> I s \<Longrightarrow> run_state m s = (x, s') \<Longrightarrow> I s'"
  by (metis keeps_def snd_conv)

lemma ensuresI: "(\<And>s x s'. P s \<Longrightarrow> run_state m s = (x, s') \<Longrightarrow> Q x s') \<Longrightarrow> ensures P m Q"
  by (metis ensures_def prod.collapse)

lemma ensuresD: "ensures P m Q \<Longrightarrow> P s \<Longrightarrow> run_state m s = (x, s') \<Longrightarrow> Q x s'"
  by (metis ensures_def fst_conv snd_conv)

lemma ensures_keeps: "ensures I m (\<lambda>_. I) \<longleftrightarrow> keeps I m"
  by (simp add: ensures_def keeps_def)

lemma ensures_weaken:
  "ensures P' m Q' \<Longrightarrow> (\<And>s. P s \<Longrightarrow> P' s) \<Longrightarrow> (\<And>x s. Q' x s \<Longrightarrow> Q x s) \<Longrightarrow> ensures P m Q"
  by (simp add: ensures_def)

lemma ensures_return: "(\<And>s. P s \<Longrightarrow> Q x s) \<Longrightarrow> ensures P (ret x) Q"
  by (simp add: ensures_def)

lemma ensures_bind:
  assumes "ensures P m R" "\<And>x. ensures (R x) (k x) Q"
  shows "ensures P (State_Monad.bind m k) Q"
  using assms by (fastforce simp: ensures_def split: prod.splits)

lemma ensures_and_then:
  assumes "ensures P m R" "\<And>x. ensures (R (Inr x)) (k x) Q" "\<And>e s. R (Inl e) s \<Longrightarrow> Q (Inl e) s"
  shows "ensures P (and_then m k) Q"
  using assms by (fastforce simp: ensures_def run_simps split: prod.splits sum.splits)

lemma ensures_keep_bind: "keeps J m \<Longrightarrow> (\<And>x. ensures J (k x) Q) \<Longrightarrow> ensures J (State_Monad.bind m k) Q"
  unfolding ensures_keeps [symmetric] by (rule ensures_bind)

lemma ensures_if: "(b \<Longrightarrow> ensures P m Q) \<Longrightarrow> (\<not> b \<Longrightarrow> ensures P n Q) \<Longrightarrow> ensures P (if b then m else n) Q"
  by simp

lemma ensures_option:
  "(x = None \<Longrightarrow> ensures P m Q) \<Longrightarrow> (\<And>y. x = Some y \<Longrightarrow> ensures P (n y) Q) \<Longrightarrow> ensures P (case x of None \<Rightarrow> m | Some y \<Rightarrow> n y) Q"
  by (cases x) simp_all

lemma ensures_sum:
  "(\<And>y. x = Inl y \<Longrightarrow> ensures P (m y) Q) \<Longrightarrow> (\<And>y. x = Inr y \<Longrightarrow> ensures P (n y) Q) \<Longrightarrow>
   ensures P (case x of Inl y \<Rightarrow> m y | Inr y \<Rightarrow> n y) Q"
  by (cases x) simp_all

lemma ensures_peek_bind: "(\<And>c. ensures (\<lambda>s. s = c \<and> P s) (k c) Q) \<Longrightarrow> ensures P (State_Monad.bind peek k) Q"
  by (simp add: ensures_def)

lemma ensures_prod: "(\<And>a b. x = (a, b) \<Longrightarrow> ensures P (m a b) Q) \<Longrightarrow> ensures P (case x of (a, b) \<Rightarrow> m a b) Q"
  by (cases x) simp

lemma keeps_return [keep_rules]: "keeps I (ret x)" "keeps I (ok y)" "keeps I (err e)" "keeps I (lift r)"
  by (simp_all add: keeps_def)

lemma keeps_peek [keep_rules]: "keeps I peek"
  by (simp add: keeps_def)

lemma keeps_bind [keep_rules]: "keeps I m \<Longrightarrow> (\<And>x. keeps I (k x)) \<Longrightarrow> keeps I (State_Monad.bind m k)"
  by (simp add: keeps_def split: prod.split) (metis snd_conv)

lemma keeps_and_then [keep_rules]: "keeps I m \<Longrightarrow> (\<And>x. keeps I (k x)) \<Longrightarrow> keeps I (and_then m k)"
  unfolding and_then_def by (auto intro!: keeps_bind keeps_return split: sum.split)

lemma keeps_if [keep_rules]: "(b \<Longrightarrow> keeps I m) \<Longrightarrow> (\<not> b \<Longrightarrow> keeps I n) \<Longrightarrow> keeps I (if b then m else n)"
  by simp

lemma keeps_option [keep_rules]:
  "(x = None \<Longrightarrow> keeps I m) \<Longrightarrow> (\<And>y. x = Some y \<Longrightarrow> keeps I (n y)) \<Longrightarrow> keeps I (case x of None \<Rightarrow> m | Some y \<Rightarrow> n y)"
  by (cases x) simp_all

lemma keeps_sum [keep_rules]:
  "(\<And>y. x = Inl y \<Longrightarrow> keeps I (m y)) \<Longrightarrow> (\<And>y. x = Inr y \<Longrightarrow> keeps I (n y)) \<Longrightarrow>
   keeps I (case x of Inl y \<Rightarrow> m y | Inr y \<Rightarrow> n y)"
  by (cases x) simp_all

lemma keeps_prod [keep_rules]:
  "(\<And>a b. x = (a, b) \<Longrightarrow> keeps I (m a b)) \<Longrightarrow> keeps I (case x of (a, b) \<Rightarrow> m a b)"
  by (cases x) simp

lemma keeps_let [keep_rules]: "(\<And>y. y = x \<Longrightarrow> keeps I (m y)) \<Longrightarrow> keeps I (let y = x in m y)"
  by simp

lemma keeps_modify: "(\<And>s. I s \<Longrightarrow> I (f s)) \<Longrightarrow> keeps I (modify f)"
  by (simp add: keeps_def)

lemma keeps_zoom: "(\<And>s. I s \<Longrightarrow> I (upd (snd (f (sel s))) s)) \<Longrightarrow> keeps I (zoom sel upd f)"
  by (simp add: keeps_def run_simps split_beta Let_def)

section \<open>Relations between the states before and after\<close>

text \<open>
  \<open>state_io_rel R m\<close> of the library says \<open>R\<close> relates every state to the one after \<open>m\<close>;
  for a preorder \<open>R\<close> it composes.
\<close>

locale step_relation =
  fixes R :: "'s \<Rightarrow> 's \<Rightarrow> bool"
  assumes refl: "R s s"
    and trans: "R s t \<Longrightarrow> R t u \<Longrightarrow> R s u"
begin

lemma io_return: "state_io_rel R (ret x)" "state_io_rel R (ok y)" "state_io_rel R (err e)" "state_io_rel R (lift r)"
  by (simp_all add: state_io_rel_def refl)

lemma io_peek: "state_io_rel R peek"
  by (simp add: state_io_rel_def refl)

lemma io_bind: "state_io_rel R m \<Longrightarrow> (\<And>x. state_io_rel R (k x)) \<Longrightarrow> state_io_rel R (State_Monad.bind m k)"
  by (auto simp: state_io_rel_def split: prod.split) (metis snd_conv trans)

lemma io_and_then: "state_io_rel R m \<Longrightarrow> (\<And>x. state_io_rel R (k x)) \<Longrightarrow> state_io_rel R (and_then m k)"
  unfolding and_then_def by (auto intro!: io_bind io_return split: sum.split)

lemma io_if: "(b \<Longrightarrow> state_io_rel R m) \<Longrightarrow> (\<not> b \<Longrightarrow> state_io_rel R n) \<Longrightarrow> state_io_rel R (if b then m else n)"
  by simp

lemma io_option:
  "(x = None \<Longrightarrow> state_io_rel R m) \<Longrightarrow> (\<And>y. x = Some y \<Longrightarrow> state_io_rel R (n y)) \<Longrightarrow>
   state_io_rel R (case x of None \<Rightarrow> m | Some y \<Rightarrow> n y)"
  by (cases x) simp_all

lemma io_sum:
  "(\<And>y. x = Inl y \<Longrightarrow> state_io_rel R (m y)) \<Longrightarrow> (\<And>y. x = Inr y \<Longrightarrow> state_io_rel R (n y)) \<Longrightarrow>
   state_io_rel R (case x of Inl y \<Rightarrow> m y | Inr y \<Rightarrow> n y)"
  by (cases x) simp_all

lemma io_prod: "(\<And>a b. x = (a, b) \<Longrightarrow> state_io_rel R (m a b)) \<Longrightarrow> state_io_rel R (case x of (a, b) \<Rightarrow> m a b)"
  by (cases x) simp

lemma io_let: "(\<And>y. y = x \<Longrightarrow> state_io_rel R (m y)) \<Longrightarrow> state_io_rel R (let y = x in m y)"
  by simp

lemma io_modify: "(\<And>s. R s (f s)) \<Longrightarrow> state_io_rel R (modify f)"
  by (simp add: state_io_rel_def)

lemma io_zoom: "(\<And>s. R s (upd (snd (f (sel s))) s)) \<Longrightarrow> state_io_rel R (zoom sel upd f)"
  by (simp add: state_io_rel_def run_simps split_beta Let_def)

lemmas io_rules = io_return io_peek io_bind io_and_then io_if io_option io_sum io_prod io_let

end

end
