(* ===== verification/Core_State.thy ===== *)
theory Core_State
  imports Core_Config Engine_Monad Noise_Handshake Cookie_Macs Timestamps Rate_Limit Session_Index
    Session_State Pending_Pool Route_Cache Peer_State
begin

text \<open>
  The engine state (\<open>Core\<close> of \<open>microtun-core/src/lib.rs\<close> with the resolver bookkeeping of
  \<open>resolver.rs\<close>), its construction, and the peer and slot tables. Const generics, the
  cryptographic crates, the relay policy, the acceptance of resolver requests by the sink, and
  containment of the \<open>cidr\<close> crate are the argument \<open>E\<close>. The calls made on the sink are
  recorded in order in \<open>c_sink\<close>; an operation that would panic sets \<open>c_panicked\<close>.
\<close>

section \<open>Resolver bookkeeping\<close>

datatype resolve_query = ByPublicKey bytes | ByDstAddress ip_addr

record resolved_peer =
  rp_public_key :: bytes
  rp_endpoint :: "socket_addr option"
  rp_relay :: "bytes option"
  rp_address :: ip_cidr
  rp_inbound_policy :: inbound_policy
  rp_persistent_keepalive :: "duration option"

datatype resolve_outcome = Found resolved_peer | NotFound | Failed

record resolve_request =
  rq_id :: resolve_id
  rq_query :: resolve_query

record resolve_response =
  rs_id :: resolve_id
  rs_outcome :: resolve_outcome

definition resolve_complete :: "resolve_request \<Rightarrow> resolve_outcome \<Rightarrow> resolve_response" where
  "resolve_complete request outcome = \<lparr>rs_id = rq_id request, rs_outcome = outcome\<rparr>"

record peer_update =
  pu_public_key :: bytes
  pu_outcome :: resolve_outcome

datatype resolver_event = Resolved resolve_response | PeerUpdated peer_update

datatype install_source = SourceInitiator | SourceRelay
datatype peer_admission = AuthenticatedInitiator | LazyOutbound | LazyRelay | HeldUpdate
datatype resolve_kind = KindOutbound | KindInstall install_source | KindNegative | KindReconcile

record pending_reconcile =
  pr_public_key :: bytes
  pr_due :: instant

record inflight_resolve =
  ir_id :: resolve_id
  ir_query :: resolve_query
  ir_kind :: resolve_kind
  ir_deadline :: instant
  ir_emitted :: bool

section \<open>The sink and the environment\<close>

datatype event = PeerEndpointUpdate bytes socket_addr | PeerEvicted bytes

datatype sink_call =
    OuterDatagram socket_addr bytes
  | InnerPacket bytes "socket_addr option" bytes
  | ResolveRequested resolve_request bool
  | EventEmitted event

record ('r, 'p) env =
  e_crypto :: "'r crypto"
  e_authorize :: "'p \<Rightarrow> bytes \<Rightarrow> bytes \<Rightarrow> bool \<times> 'p"
  e_accepts :: "sink_call list \<Rightarrow> resolve_request \<Rightarrow> bool"
  e_contains :: "ip_cidr \<Rightarrow> ip_addr \<Rightarrow> bool"
  MAX_PEERS :: usize
  MAX_SESSIONS :: usize
  REPLAY_WORDS :: usize
  MAX_ROUTES :: usize

datatype static_relay_policy = DenyAll | ForwardAll

definition forwarding :: "bool \<Rightarrow> static_relay_policy" where
  "forwarding enabled = (if enabled then ForwardAll else DenyAll)"

definition authorize_static :: "static_relay_policy \<Rightarrow> bytes \<Rightarrow> bytes \<Rightarrow> bool \<times> static_relay_policy" where
  "authorize_static policy source destination = (policy = ForwardAll, policy)"

section \<open>The engine\<close>

record initiating =
  in_peer :: peer_idx
  in_local_index :: u32
  in_noise :: initiator_state
  in_retry_at :: instant

datatype slot = Free | Initiating initiating | Established session

definition is_free :: "slot \<Rightarrow> bool" where
  "is_free s \<longleftrightarrow> s = Free"

fun local_index :: "slot \<Rightarrow> u32 option" where
  "local_index (Initiating h) = Some (in_local_index h)"
| "local_index (Established s) = Some (s_local_index s)"
| "local_index Free = None"

record evicted_peer_ghost =
  gh_public_key :: bytes
  gh_expires :: instant

record pending_initiation =
  pi_resolve_id :: resolve_id
  pi_src :: socket_addr
  pi_consumed :: consumed_initiation

record ('r, 'p) core =
  c_rng :: 'r
  c_relay_policy :: 'p
  c_config :: core_config
  c_s_priv :: bytes
  c_s_pub :: bytes
  c_mac1_key :: bytes
  c_cookie_key :: bytes
  c_peers :: "peer_entry option list"
  c_by_key :: "(bytes \<times> peer_idx) list"
  c_slots :: "slot list"
  c_indices :: session_index_map
  c_routes :: route_cache
  c_timers :: timer_cache
  c_pending :: pending_pool
  c_initiations :: "pending_initiation option list"
  c_resolves :: "inflight_resolve list"
  c_evictions :: "bytes list"
  c_reconciles :: "pending_reconcile list"
  c_next_resolve_id :: u64
  c_cookie_secret :: cookie_secret
  c_rate :: rate_limiter
  c_remote_resolves :: token_bucket
  c_unknown_auth :: token_bucket
  c_peer_evictions :: interval_budget
  c_ghosts :: "evicted_peer_ghost option list"
  c_firewall :: firewall
  c_wall :: "wall_clock option"
  c_last_ts :: bytes
  c_hs_window_start :: instant
  c_hs_window_count :: u32
  c_hs_prev_count :: u32
  c_scratch :: bytes
  c_relay_scratch :: bytes
  c_sink :: "sink_call list"
  c_panicked :: bool

type_synonym ('r, 'p, 'a) action = "(('r, 'p) core, 'a) state"
type_synonym ('r, 'p, 'a) fallible = "(('r, 'p) core, 'a result) state"

section \<open>Elementary actions\<close>

definition emit :: "sink_call \<Rightarrow> ('r, 'p, unit) action" where
  "emit out = modify (\<lambda>c. c\<lparr>c_sink := c_sink c @ [out]\<rparr>)"

definition arm_timer :: "instant \<Rightarrow> ('r, 'p, unit) action" where
  "arm_timer t = modify (\<lambda>c. c\<lparr>c_timers := timer_arm (c_timers c) t\<rparr>)"

text \<open>\<open>self.peers.get(pidx as usize).and_then(Option::as_ref)\<close>, and a write through \<open>as_mut\<close>.\<close>

definition peer_in :: "peer_entry option list \<Rightarrow> peer_idx \<Rightarrow> peer_entry option" where
  "peer_in ps pidx = (case get_at ps (unat pidx) of Some p \<Rightarrow> p | None \<Rightarrow> None)"

definition peer_at :: "('r, 'p) core \<Rightarrow> peer_idx \<Rightarrow> peer_entry option" where
  "peer_at c pidx = peer_in (c_peers c) pidx"

definition put_peer :: "peer_idx \<Rightarrow> peer_entry \<Rightarrow> ('r, 'p) core \<Rightarrow> ('r, 'p) core" where
  "put_peer pidx p c = c\<lparr>c_peers := (c_peers c)[unat pidx := Some p]\<rparr>"

definition upd_peer :: "peer_idx \<Rightarrow> (peer_entry \<Rightarrow> peer_entry) \<Rightarrow> ('r, 'p) core \<Rightarrow> ('r, 'p) core" where
  "upd_peer pidx f c = (case peer_at c pidx of None \<Rightarrow> c | Some p \<Rightarrow> put_peer pidx (f p) c)"

definition upd_sessions :: "(peer_sessions \<Rightarrow> peer_sessions) \<Rightarrow> peer_entry \<Rightarrow> peer_entry" where
  "upd_sessions f p = p\<lparr>pe_sessions := f (pe_sessions p)\<rparr>"

definition slot_in :: "slot list \<Rightarrow> slot_idx \<Rightarrow> slot option" where
  "slot_in ss sidx = get_at ss (unat sidx)"

definition slot_at :: "('r, 'p) core \<Rightarrow> slot_idx \<Rightarrow> slot option" where
  "slot_at c sidx = slot_in (c_slots c) sidx"

definition put_slot :: "slot_idx \<Rightarrow> slot \<Rightarrow> ('r, 'p) core \<Rightarrow> ('r, 'p) core" where
  "put_slot sidx s c = c\<lparr>c_slots := (c_slots c)[unat sidx := s]\<rparr>"

text \<open>A draw from the random number generator.\<close>

definition draw :: "('r \<Rightarrow> 'a \<times> 'r) \<Rightarrow> ('r, 'p, 'a) action" where
  "draw f = zoom c_rng (\<lambda>r. c_rng_update (\<lambda>_. r)) f"

definition on_indices :: "(session_index_map \<Rightarrow> 'a \<times> session_index_map) \<Rightarrow> ('r, 'p, 'a) action" where
  "on_indices f = zoom c_indices (\<lambda>m. c_indices_update (\<lambda>_. m)) f"

text \<open>The route cache's operations; \<open>None\<close> is a panic inside it.\<close>

definition on_routes :: "(route_cache \<Rightarrow> ('a \<times> route_cache) option) \<Rightarrow> 'a \<Rightarrow> ('r, 'p, 'a) action" where
  "on_routes f dummy = do {
     c \<leftarrow> peek;
     case f (c_routes c) of
       None \<Rightarrow> do { modify (c_panicked_update (\<lambda>_. True)); ret dummy }
     | Some (x, rc) \<Rightarrow> do { modify (c_routes_update (\<lambda>_. rc)); ret x } }"

section \<open>Peer table\<close>

definition find_peer :: "('r, 'p) core \<Rightarrow> bytes \<Rightarrow> peer_idx option" where
  "find_peer c key = map_of (c_by_key c) key"

text \<open>
  Insertion into the fixed-capacity key index: the previous value of a key that is present, an error
  when a new key does not fit.
\<close>

definition key_insert :: "usize \<Rightarrow> bytes \<Rightarrow> peer_idx \<Rightarrow> (bytes \<times> peer_idx) list \<Rightarrow> (peer_idx option result \<times> (bytes \<times> peer_idx) list)" where
  "key_insert capacity key pidx m =
     (case map_of m key of
        Some previous \<Rightarrow> (Inr (Some previous), map (\<lambda>e. if fst e = key then (key, pidx) else e) m)
      | None \<Rightarrow> if length m < capacity then (Inr None, m @ [(key, pidx)]) else (Inl InternalInvariant, m))"

definition key_remove :: "bytes \<Rightarrow> (bytes \<times> peer_idx) list \<Rightarrow> (bytes \<times> peer_idx) list" where
  "key_remove key m = filter (\<lambda>e. fst e \<noteq> key) m"

definition on_keys :: "((bytes \<times> peer_idx) list \<Rightarrow> 'a \<times> (bytes \<times> peer_idx) list) \<Rightarrow> ('r, 'p, 'a) action" where
  "on_keys f = zoom c_by_key (\<lambda>m. c_by_key_update (\<lambda>_. m)) f"

definition install_peer :: "('r, 'p) env \<Rightarrow> peer_idx \<Rightarrow> peer_entry \<Rightarrow> ('r, 'p, unit) fallible" where
  "install_peer E pidx peer = do {
     c \<leftarrow> peek;
     case get_at (c_peers c) (unat pidx) of
       None \<Rightarrow> err InternalInvariant
     | Some entry \<Rightarrow>
         if entry \<noteq> None \<or> find_peer c (pe_public_key peer) \<noteq> None then err InternalInvariant
         else and_then (on_keys (key_insert (MAX_PEERS E) (pe_public_key peer) pidx)) (\<lambda>previous.
           case previous of
             Some previous_pidx \<Rightarrow> do {
               on_keys (key_insert (MAX_PEERS E) (pe_public_key peer) previous_pidx);
               err InternalInvariant }
           | None \<Rightarrow> do {
               modify (put_peer pidx peer);
               (case persistent_keepalive_due (pe_sessions peer) of
                  Some deadline \<Rightarrow> arm_timer deadline
                | None \<Rightarrow> ret ());
               ok () }) }"

definition take_peer :: "peer_idx \<Rightarrow> ('r, 'p, peer_entry option) fallible" where
  "take_peer pidx = do {
     c \<leftarrow> peek;
     case get_at (c_peers c) (unat pidx) of
       None \<Rightarrow> err InternalInvariant
     | Some None \<Rightarrow> ok None
     | Some (Some peer) \<Rightarrow>
         if find_peer c (pe_public_key peer) \<noteq> Some pidx then err InternalInvariant
         else do {
           modify (c_by_key_update (key_remove (pe_public_key peer)));
           modify (c_peers_update (\<lambda>ps. ps[unat pidx := None]));
           ok (Some peer) } }"

section \<open>Slot pool\<close>

fun owner_of :: "slot \<Rightarrow> peer_idx option" where
  "owner_of (Established s) = Some (s_peer s)"
| "owner_of (Initiating h) = Some (in_peer h)"
| "owner_of Free = None"

definition slot_owner :: "('r, 'p) core \<Rightarrow> slot_idx \<Rightarrow> peer_idx option" where
  "slot_owner c sidx = (case slot_at c sidx of Some s \<Rightarrow> owner_of s | None \<Rightarrow> None)"

definition slot_for_session_index :: "('r, 'p) core \<Rightarrow> u32 \<Rightarrow> slot_idx option" where
  "slot_for_session_index c index = slot_for (c_indices c) index"

definition free_slot :: "slot_idx \<Rightarrow> ('r, 'p, unit) fallible" where
  "free_slot sidx = do {
     c \<leftarrow> peek;
     case slot_at c sidx of
       None \<Rightarrow> err InternalInvariant
     | Some slot \<Rightarrow>
         if (case owner_of slot of Some pidx \<Rightarrow> peer_at c pidx = None | None \<Rightarrow> False)
         then err InternalInvariant
         else and_then (case local_index slot of
                          Some index \<Rightarrow> on_indices (\<lambda>m. index_remove m index sidx)
                        | None \<Rightarrow> ok ()) (\<lambda>_. do {
           (case owner_of slot of
              Some pidx \<Rightarrow> modify (upd_peer pidx (upd_sessions (\<lambda>ps. unlink ps sidx)))
            | None \<Rightarrow> ret ());
           modify (put_slot sidx Free);
           ok () }) }"

definition session_dead :: "instant \<Rightarrow> slot \<Rightarrow> bool" where
  "session_dead now s = (case s of Established sess \<Rightarrow> saturating_since now (s_created sess) \<ge> REJECT_AFTER_TIME | _ \<Rightarrow> False)"

text \<open>The established sessions that step 4 of \<open>alloc_slot\<close> may evict, with their owners.\<close>

definition lru_candidates :: "('r, 'p) core \<Rightarrow> (usize \<times> peer_idx) list" where
  "lru_candidates c =
     filter (\<lambda>(i, pidx). case peer_at c pidx of
                None \<Rightarrow> True
              | Some peer \<Rightarrow> \<not> (is_pinned peer \<and> ps_current (pe_sessions peer) = Some (word_of_nat i)))
       (List.map_filter (\<lambda>i. case c_slots c ! i of Established s \<Rightarrow> Some (i, s_peer s) | _ \<Rightarrow> None)
          [0..<length (c_slots c)])"

definition owner_activity :: "('r, 'p) core \<Rightarrow> peer_idx \<Rightarrow> instant" where
  "owner_activity c pidx = (case peer_at c pidx of Some peer \<Rightarrow> last_activity peer | None \<Rightarrow> 0)"

definition alloc_slot :: "instant \<Rightarrow> ('r, 'p, slot_idx option) fallible" where
  "alloc_slot now = do {
     c \<leftarrow> peek;
     case position is_free (c_slots c) of
       Some i \<Rightarrow> ok (Some (word_of_nat i))
     | None \<Rightarrow>
         (case position (session_dead now) (c_slots c) of
            Some i \<Rightarrow> and_then (free_slot (word_of_nat i)) (\<lambda>_. ok (Some (word_of_nat i)))
          | None \<Rightarrow>
              (case List.map_filter (\<lambda>p. ps_previous (pe_sessions p)) (List.map_filter id (c_peers c)) of
                 prev # _ \<Rightarrow> and_then (free_slot prev) (\<lambda>_. ok (Some prev))
               | [] \<Rightarrow>
                   (case min_by (\<lambda>(_, pidx). owner_activity c pidx) (lru_candidates c) of
                      Some (v, _) \<Rightarrow> and_then (free_slot (word_of_nat v)) (\<lambda>_. ok (Some (word_of_nat v)))
                    | None \<Rightarrow> ok None))) }"

section \<open>Load tracking\<close>

definition note_handshake_msg :: "instant \<Rightarrow> ('r, 'p, unit) action" where
  "note_handshake_msg now = modify (\<lambda>c.
     let elapsed = saturating_since now (c_hs_window_start c);
         c = (if elapsed \<ge> duration_from_secs 1
              then c\<lparr>c_hs_prev_count := (if elapsed < duration_from_secs 2 then c_hs_window_count c else 0),
                     c_hs_window_count := 0, c_hs_window_start := now\<rparr>
              else c)
     in c\<lparr>c_hs_window_count := sat_add (c_hs_window_count c) 1\<rparr>)"

definition under_load :: "('r, 'p) core \<Rightarrow> instant \<Rightarrow> bool" where
  "under_load c now \<longleftrightarrow>
     length (filter (\<lambda>s. is_free s \<or> session_dead now s) (c_slots c)) \<le> under_load_free_slots (c_config c)
     \<or> c_hs_window_count c > under_load_handshakes_per_sec (c_config c)
     \<or> c_hs_prev_count c > under_load_handshakes_per_sec (c_config c)"

definition equalize_unknown_identity_cost :: "instant \<Rightarrow> ('r, 'p, unit) action" where
  "equalize_unknown_identity_cost now = do {
     _ \<leftarrow> zoom c_unknown_auth (\<lambda>b. c_unknown_auth_update (\<lambda>_. b)) (\<lambda>b. bucket_try_take b now);
     ret () }"

definition set_unix_time :: "u64 \<Rightarrow> u32 \<Rightarrow> instant \<Rightarrow> ('r, 'p, unit) action" where
  "set_unix_time unix_secs nanos now = modify (c_wall_update (\<lambda>_. Some (set_wall unix_secs nanos now)))"

definition timestamp :: "instant \<Rightarrow> ('r, 'p, bytes) fallible" where
  "timestamp now = do {
     c \<leftarrow> peek;
     and_then (lift (timestamp_at (c_wall c) (c_last_ts c) now)) (\<lambda>ts. do {
       modify (c_last_ts_update (\<lambda>_. ts));
       ok ts }) }"

end
