(* ===== verification/Core_Tables.thy ===== *)
theory Core_Tables
  imports Core_State
begin

text \<open>
  The consistency of the engine's four tables: the peers, their public-key index, the session slots
  and the receiver-index map. \<open>tables\<close> says that the key index is the inverse of the peer table,
  that the receiver indices are those of the occupied slots, that every link of a peer points to a
  slot of the right kind that names the peer as its owner, and that every occupied slot is linked
  from its owner, except the slots in \<open>X\<close>, which a method holds between two of its steps.
\<close>

section \<open>Reading and writing the tables\<close>

lemma peer_in_update [simp]:
  "unat i < length ps \<Longrightarrow> peer_in (ps[unat i := v]) j = (if j = i then v else peer_in ps j)"
  by (auto simp: peer_in_def get_at_def nth_list_update word_unat_eq_iff)

lemma slot_in_update [simp]:
  "unat i < length ss \<Longrightarrow> slot_in (ss[unat i := v]) j = (if j = i then Some v else slot_in ss j)"
  by (auto simp: slot_in_def get_at_def nth_list_update word_unat_eq_iff)

lemma peer_in_bound: "peer_in ps i = Some p \<Longrightarrow> unat i < length ps"
  by (auto simp: peer_in_def get_at_def split: if_splits)

lemma slot_in_bound: "slot_in ss i = Some s \<Longrightarrow> unat i < length ss"
  by (auto simp: slot_in_def get_at_def split: if_splits)

lemma slot_in_nth: "slot_in ss i = Some s \<longleftrightarrow> unat i < length ss \<and> ss ! unat i = s"
  by (auto simp: slot_in_def get_at_def)

lemma peer_in_nth: "peer_in ps i = Some p \<longleftrightarrow> unat i < length ps \<and> ps ! unat i = Some p"
  by (auto simp: peer_in_def get_at_def)

section \<open>The invariant\<close>

definition links_ok :: "slot list \<Rightarrow> peer_idx \<Rightarrow> peer_sessions \<Rightarrow> bool" where
  "links_ok slots pidx ps \<longleftrightarrow> sessions_wf ps \<and>
     (\<forall>s. ps_current ps = Some s \<or> ps_previous ps = Some s \<or> ps_next ps = Some s \<longrightarrow>
        (\<exists>x. slot_in slots s = Some (Established x) \<and> s_peer x = pidx)) \<and>
     (\<forall>s. ps_handshake ps = Some s \<longrightarrow> (\<exists>h. slot_in slots s = Some (Initiating h) \<and> in_peer h = pidx))"

definition keys_ok :: "peer_entry option list \<Rightarrow> (bytes \<times> peer_idx) list \<Rightarrow> bool" where
  "keys_ok peers keys \<longleftrightarrow> distinct (map fst keys) \<and>
     (\<forall>k i. map_of keys k = Some i \<longleftrightarrow> (\<exists>p. peer_in peers i = Some p \<and> pe_public_key p = k))"

definition indices_ok :: "slot list \<Rightarrow> session_index_map \<Rightarrow> bool" where
  "indices_ok slots idx \<longleftrightarrow> index_wf idx \<and> max_sessions idx = length slots \<and>
     (\<forall>i s. slot_for idx i = Some s \<longleftrightarrow> (\<exists>sl. slot_in slots s = Some sl \<and> local_index sl = Some i))"

definition owners_ok :: "slot_idx set \<Rightarrow> peer_entry option list \<Rightarrow> slot list \<Rightarrow> bool" where
  "owners_ok X peers slots \<longleftrightarrow>
     (\<forall>s sl i. slot_in slots s = Some sl \<longrightarrow> owner_of sl = Some i \<longrightarrow>
        (\<exists>p. peer_in peers i = Some p \<and> (s \<in> linked (pe_sessions p) \<or> s \<in> X)))"

definition tables :: "slot_idx set \<Rightarrow> peer_entry option list \<Rightarrow> slot list \<Rightarrow> (bytes \<times> peer_idx) list \<Rightarrow> session_index_map \<Rightarrow> bool" where
  "tables X peers slots keys idx \<longleftrightarrow>
     length peers < 2 ^ 32 \<and> length slots < 2 ^ 32 \<and> keys_ok peers keys \<and> indices_ok slots idx \<and>
     (\<forall>i p. peer_in peers i = Some p \<longrightarrow> links_ok slots i (pe_sessions p)) \<and> owners_ok X peers slots"

definition tables_ok :: "('r, 'p) env \<Rightarrow> slot_idx set \<Rightarrow> ('r, 'p) core \<Rightarrow> bool" where
  "tables_ok E X c \<longleftrightarrow> length (c_peers c) = MAX_PEERS E \<and> length (c_slots c) = MAX_SESSIONS E \<and>
     tables X (c_peers c) (c_slots c) (c_by_key c) (c_indices c)"

lemma tables_ok_cong:
  "c_peers c' = c_peers c \<Longrightarrow> c_slots c' = c_slots c \<Longrightarrow> c_by_key c' = c_by_key c \<Longrightarrow> c_indices c' = c_indices c \<Longrightarrow>
   tables_ok E X c' = tables_ok E X c"
  by (simp add: tables_ok_def)

lemma owners_ok_mono: "owners_ok X peers slots \<Longrightarrow> X \<subseteq> Y \<Longrightarrow> owners_ok Y peers slots"
  unfolding owners_ok_def by blast

lemma tables_mono: "tables X peers slots keys idx \<Longrightarrow> X \<subseteq> Y \<Longrightarrow> tables Y peers slots keys idx"
  using owners_ok_mono by (auto simp: tables_def)

text \<open>A link determines the slot and its owner; an owned slot has one owner.\<close>

lemma linked_owner:
  assumes "links_ok slots i ps" "s \<in> linked ps"
  shows "\<exists>sl. slot_in slots s = Some sl \<and> owner_of sl = Some i"
  using assms unfolding links_ok_def linked_iff by (metis owner_of.simps(1,2))

lemma linked_disjoint:
  assumes "tables X peers slots keys idx" "peer_in peers i = Some p" "peer_in peers j = Some q"
    "s \<in> linked (pe_sessions p)" "s \<in> linked (pe_sessions q)"
  shows "i = j"
  using assms linked_owner unfolding tables_def by (metis option.inject)

section \<open>Writes that keep the tables\<close>

text \<open>A peer record may change in everything but its key, kind of entry and session links.\<close>

definition peer_frame :: "peer_entry \<Rightarrow> peer_entry \<Rightarrow> bool" where
  "peer_frame p q \<longleftrightarrow> pe_public_key q = pe_public_key p \<and>
     ps_current (pe_sessions q) = ps_current (pe_sessions p) \<and> ps_previous (pe_sessions q) = ps_previous (pe_sessions p) \<and>
     ps_next (pe_sessions q) = ps_next (pe_sessions p) \<and> ps_handshake (pe_sessions q) = ps_handshake (pe_sessions p) \<and>
     attempt_deadline (pe_sessions q) = attempt_deadline (pe_sessions p)"

lemma links_ok_frame:
  "peer_frame p q \<Longrightarrow> links_ok slots i (pe_sessions q) = links_ok slots i (pe_sessions p)"
  by (simp add: peer_frame_def links_ok_def sessions_wf_iff)

lemma linked_frame: "peer_frame p q \<Longrightarrow> linked (pe_sessions q) = linked (pe_sessions p)"
  by (auto simp: peer_frame_def linked_iff)

lemma keys_ok_frame:
  assumes "keys_ok peers keys" "peer_in peers i = Some p" "pe_public_key q = pe_public_key p"
  shows "keys_ok (peers[unat i := Some q]) keys"
  using assms peer_in_bound [OF assms(2)] by (auto simp: keys_ok_def)

lemma tables_peer_frame:
  assumes "tables X peers slots keys idx" "peer_in peers i = Some p" "peer_frame p q"
  shows "tables X (peers[unat i := Some q]) slots keys idx"
proof -
  have "owners_ok X (peers[unat i := Some q]) slots"
    using assms(1,2) peer_in_bound [OF assms(2)] linked_frame [OF assms(3)] by (fastforce simp: tables_def owners_ok_def)
  then show ?thesis
    using assms(1,2) peer_in_bound [OF assms(2)] keys_ok_frame [OF _ assms(2), of keys q] links_ok_frame [OF assms(3)] assms(3)
    by (auto simp: tables_def peer_frame_def)
qed

text \<open>An occupied slot may change its contents but not its kind, owner or receiver index.\<close>

definition slot_frame :: "slot \<Rightarrow> slot \<Rightarrow> bool" where
  "slot_frame a b \<longleftrightarrow> owner_of b = owner_of a \<and> local_index b = local_index a \<and>
     (case a of Established _ \<Rightarrow> (\<exists>x. b = Established x) | Initiating _ \<Rightarrow> (\<exists>h. b = Initiating h) | Free \<Rightarrow> b = Free)"

lemma links_ok_slot_frame:
  assumes "links_ok slots i ps" "slot_in slots s = Some a" "slot_frame a b"
  shows "links_ok (slots[unat s := b]) i ps"
  using assms slot_in_bound [OF assms(2)] unfolding links_ok_def slot_frame_def
  by (fastforce split: slot.splits)

lemma indices_ok_slot_frame:
  assumes "indices_ok slots idx" "slot_in slots s = Some a" "local_index b = local_index a"
  shows "indices_ok (slots[unat s := b]) idx"
  using assms slot_in_bound [OF assms(2)] by (auto simp: indices_ok_def)

lemma owners_ok_slot_frame:
  assumes "owners_ok X peers slots" "slot_in slots s = Some a" "owner_of b = owner_of a"
  shows "owners_ok X peers (slots[unat s := b])"
  using assms slot_in_bound [OF assms(2)] by (auto simp: owners_ok_def)

lemma tables_slot_frame:
  assumes "tables X peers slots keys idx" "slot_in slots s = Some a" "slot_frame a b"
  shows "tables X peers (slots[unat s := b]) keys idx"
  using assms links_ok_slot_frame [OF _ assms(2,3)] indices_ok_slot_frame [OF _ assms(2)]
    owners_ok_slot_frame [OF _ assms(2)]
  by (simp add: tables_def slot_frame_def)

section \<open>Releasing a slot\<close>

text \<open>Unlinking a slot from its owner leaves it in the method's hands.\<close>

lemma links_ok_unlink: "links_ok slots i ps \<Longrightarrow> links_ok slots i (unlink ps s)"
  by (auto simp: links_ok_def sessions_wf_unlink)

lemma tables_unlink:
  assumes "tables X peers slots keys idx" "peer_in peers i = Some p"
  shows "tables (insert s X) (peers[unat i := Some (upd_sessions (\<lambda>ps. unlink ps s) p)]) slots keys idx"
proof -
  let ?q = "upd_sessions (\<lambda>ps. unlink ps s) p"
  have "owners_ok (insert s X) (peers[unat i := Some ?q]) slots"
    using assms peer_in_bound [OF assms(2)] unfolding tables_def owners_ok_def
    by (fastforce simp: upd_sessions_def)
  then show ?thesis
    using assms peer_in_bound [OF assms(2)] keys_ok_frame [OF _ assms(2), of keys ?q] links_ok_unlink
    by (auto simp: tables_def upd_sessions_def)
qed

text \<open>A slot that no peer links can be emptied together with its receiver index.\<close>

lemma tables_empty_slot:
  assumes t: "tables X peers slots keys idx" and s: "slot_in slots s = Some sl" "local_index sl = Some i"
    and free: "\<And>j p. peer_in peers j = Some p \<Longrightarrow> s \<notin> linked (pe_sessions p)"
  shows "\<exists>idx'. index_remove idx i s = (Inr (), idx') \<and> tables (X - {s}) peers (slots[unat s := Free]) keys idx'"
proof -
  have l: "slot_for idx i = Some s" "index_wf idx" using t s by (auto simp: tables_def indices_ok_def)
  then obtain idx' where idx': "index_remove idx i s = (Inr (), idx')" "slot_for idx' = (slot_for idx)(i := None)"
    using sidx.del_ok by blast
  have "max_sessions idx' = max_sessions idx"
    using idx'(1) l by (auto simp: index_remove_eq)
  moreover have "local_index sl' \<noteq> Some i" if "slot_in slots r = Some sl'" "r \<noteq> s" for r sl'
    using t that l(1) unfolding tables_def indices_ok_def by (metis option.inject)
  ultimately have "indices_ok (slots[unat s := Free]) idx'"
    using t s idx' sidx.del_wf [OF l(2) idx'(1)] slot_in_bound [OF s(1)]
    by (auto simp: tables_def indices_ok_def)
  moreover have "links_ok (slots[unat s := Free]) j (pe_sessions p)" if "peer_in peers j = Some p" for j p
    using t free [OF that] that slot_in_bound [OF s(1)] unfolding tables_def links_ok_def linked_iff by auto
  moreover have "owners_ok (X - {s}) peers (slots[unat s := Free])"
    using t slot_in_bound [OF s(1)] unfolding tables_def owners_ok_def by auto
  ultimately show ?thesis using t idx' by (auto simp: tables_def)
qed

lemma free_slot_tables:
  assumes t: "tables_ok E X c" and s: "slot_at c s = Some sl"
  shows "\<exists>c'. run_state (free_slot s) c = (Inr (), c') \<and> tables_ok E (X - {s}) c' \<and> slot_at c' s = Some Free \<and>
    (\<forall>r. r \<noteq> s \<longrightarrow> slot_at c' r = slot_at c r) \<and>
    c' = c\<lparr>c_peers := c_peers c', c_slots := c_slots c', c_indices := c_indices c'\<rparr> \<and>
    (\<forall>j. peer_at c' j = map_option (\<lambda>p. if owner_of sl = Some j then upd_sessions (\<lambda>ps. unlink ps s) p else p) (peer_at c j))"
proof (cases "owner_of sl")
  case None
  then have "sl = Free" by (cases sl) auto
  moreover have "tables (X - {s}) (c_peers c) (c_slots c) (c_by_key c) (c_indices c)"
    using t s \<open>sl = Free\<close> unfolding tables_ok_def tables_def owners_ok_def slot_at_def
    by (metis DiffI None option.inject option.distinct(1) singletonD)
  moreover have "(c_slots c)[unat s := Free] = c_slots c"
    using s \<open>sl = Free\<close> list_update_id [of "c_slots c" "unat s"] by (auto simp: slot_at_def slot_in_nth)
  ultimately show ?thesis using t s
    by (simp add: free_slot_def run_simps put_slot_def tables_ok_def slot_at_def map_option_case option.case_eq_if)
next
  case (Some i)
  then obtain k where k: "local_index sl = Some k" by (cases sl) auto
  have tb: "tables X (c_peers c) (c_slots c) (c_by_key c) (c_indices c)" using t by (simp add: tables_ok_def)
  have sl: "slot_in (c_slots c) s = Some sl" using s by (simp add: slot_at_def)
  obtain p where p: "peer_in (c_peers c) i = Some p"
    using tb sl Some unfolding tables_def owners_ok_def by blast
  let ?q = "upd_sessions (\<lambda>ps. unlink ps s) p" and ?peers = "(c_peers c)[unat i := Some (upd_sessions (\<lambda>ps. unlink ps s) p)]"
  note b = peer_in_bound [OF p] slot_in_bound [OF sl]
  have un: "tables (insert s X) ?peers (c_slots c) (c_by_key c) (c_indices c)" by (rule tables_unlink [OF tb p])
  have nl: "s \<notin> linked (pe_sessions q)" if "peer_in ?peers j = Some q" for j q
  proof (cases "j = i")
    case True
    then show ?thesis using that b by (auto simp: upd_sessions_def)
  next
    case False
    then have q: "peer_in (c_peers c) j = Some q" using that b by simp
    show ?thesis
    proof
      assume "s \<in> linked (pe_sessions q)"
      with linked_owner [of "c_slots c" j "pe_sessions q" s] tb q sl Some False show False
        by (auto simp: tables_def)
    qed
  qed
  have "\<exists>idx'. index_remove (c_indices c) k s = (Inr (), idx') \<and>
      tables (insert s X - {s}) ?peers ((c_slots c)[unat s := Free]) (c_by_key c) idx'"
    by (rule tables_empty_slot [OF un sl k]) (rule nl)
  then obtain idx' where
    "index_remove (c_indices c) k s = (Inr (), idx')"
    "tables (X - {s}) ?peers ((c_slots c)[unat s := Free]) (c_by_key c) idx'" by auto
  then show ?thesis using t s p k Some b
    by (auto simp: free_slot_def run_simps put_slot_def tables_ok_def slot_at_def peer_at_def on_indices_def
        upd_peer_def put_peer_def map_option_case split: option.splits)
qed

lemma put_slot_same: "slot_at c s = Some sl \<Longrightarrow> put_slot s sl c = c"
  using list_update_id [of "c_slots c" "unat s"] by (auto simp: put_slot_def slot_at_def slot_in_nth)

lemma free_slot_free: "slot_at c s = Some Free \<Longrightarrow> run_state (free_slot s) c = (Inr (), c)"
  by (simp add: free_slot_def run_simps put_slot_same)

section \<open>Allocating a slot\<close>

definition pinned_current :: "('r, 'p) core \<Rightarrow> slot_idx \<Rightarrow> bool" where
  "pinned_current c s \<longleftrightarrow> (\<exists>i p. peer_at c i = Some p \<and> is_pinned p \<and> ps_current (pe_sessions p) = Some s)"

text \<open>What \<open>alloc_slot\<close> may take: a free slot, an expired session, or a live one that is no pinned peer's current.\<close>

definition evictable :: "('r, 'p) core \<Rightarrow> instant \<Rightarrow> slot_idx \<Rightarrow> slot \<Rightarrow> bool" where
  "evictable c now s sl \<longleftrightarrow> sl = Free \<or> session_dead now sl \<or> ((\<exists>x. sl = Established x) \<and> \<not> pinned_current c s)"

lemma table_index:
  assumes "tables_ok E X c" "i < length (c_slots c)"
  shows "unat (word_of_nat i :: slot_idx) = i" "slot_at c (word_of_nat i) = Some (c_slots c ! i)"
proof -
  have "i < 2 ^ 32" using assms by (simp add: tables_ok_def tables_def)
  then show "unat (word_of_nat i :: slot_idx) = i" by (simp add: unat_of_nat)
  then show "slot_at c (word_of_nat i) = Some (c_slots c ! i)" using assms(2) by (simp add: slot_at_def slot_in_nth)
qed

lemma links_okD:
  assumes "tables_ok E X c" "peer_at c i = Some p"
  shows "links_ok (c_slots c) i (pe_sessions p)"
  using assms by (simp add: tables_ok_def tables_def peer_at_def)

lemma pinned_current_owner:
  assumes "tables_ok E X c" "pinned_current c s" "slot_at c s = Some (Established x)"
  shows "\<exists>p. peer_at c (s_peer x) = Some p \<and> is_pinned p \<and> ps_current (pe_sessions p) = Some s"
proof -
  from assms(2) obtain i p where p: "peer_at c i = Some p" "is_pinned p" "ps_current (pe_sessions p) = Some s"
    by (auto simp: pinned_current_def)
  with links_okD [OF assms(1) p(1)] assms(3) have "s_peer x = i" by (auto simp: links_ok_def slot_at_def)
  with p show ?thesis by blast
qed

lemma lru_candidates_iff:
  "(i, j) \<in> set (lru_candidates c) \<longleftrightarrow> i < length (c_slots c) \<and> (\<exists>x. c_slots c ! i = Established x \<and> s_peer x = j) \<and>
     (case peer_at c j of None \<Rightarrow> True | Some p \<Rightarrow> \<not> (is_pinned p \<and> ps_current (pe_sessions p) = Some (word_of_nat i)))"
proof -
  have sl: "(case sl of Established x \<Rightarrow> Some (k, s_peer x) | _ \<Rightarrow> None) = Some (i, j) \<longleftrightarrow>
      k = i \<and> (\<exists>x. sl = Established x \<and> s_peer x = j)" for k sl
    by (cases sl) auto
  have "(i, j) \<in> set (List.map_filter (\<lambda>i. case c_slots c ! i of Established s \<Rightarrow> Some (i, s_peer s) | _ \<Rightarrow> None)
      [0..<length (c_slots c)]) \<longleftrightarrow> i < length (c_slots c) \<and> (\<exists>x. c_slots c ! i = Established x \<and> s_peer x = j)"
    by (auto simp: in_map_filter sl)
  then show ?thesis by (auto simp: lru_candidates_def)
qed

lemma alloc_slot_cases:
  assumes t: "tables_ok E {} c"
  shows "(run_state (alloc_slot now) c = (Inr None, c) \<and>
      (\<forall>s sl. slot_at c s = Some sl \<longrightarrow> (\<exists>h. sl = Initiating h) \<or> pinned_current c s)) \<or>
    (\<exists>s sl. slot_at c s = Some sl \<and> evictable c now s sl \<and>
      run_state (alloc_slot now) c = (Inr (Some s), snd (run_state (free_slot s) c)))"
proof -
  note idx = table_index [OF t]
  have take: "?thesis" if "slot_at c s = Some sl" "evictable c now s sl"
    "run_state (alloc_slot now) c = run_state (and_then (free_slot s) (\<lambda>_. ok (Some s))) c" for s sl
    using free_slot_tables [OF t that(1)] that by (auto simp: run_simps)
  show ?thesis
  proof (cases "position is_free (c_slots c)")
    case (Some i)
    then have i: "i < length (c_slots c)" "c_slots c ! i = Free" by (auto dest: position_SomeD simp: is_free_def)
    with idx(2) free_slot_free [of c "word_of_nat i"] Some show ?thesis
      by (intro disjI2 exI [of _ "word_of_nat i"] exI [of _ Free]) (simp add: alloc_slot_def evictable_def run_simps)
  next
    case nofree: None
    show ?thesis
    proof (cases "position (session_dead now) (c_slots c)")
      case (Some i)
      then have i: "i < length (c_slots c)" "session_dead now (c_slots c ! i)" by (auto dest: position_SomeD)
      with idx(2) Some nofree show ?thesis by (intro take) (auto simp: alloc_slot_def evictable_def)
    next
      case nodead: None
      let ?prev = "List.map_filter (\<lambda>p. ps_previous (pe_sessions p)) (List.map_filter id (c_peers c))"
      show ?thesis
      proof (cases ?prev)
        case (Cons s rest)
        then have "s \<in> set ?prev" by simp
        then obtain p n where p: "n < length (c_peers c)" "c_peers c ! n = Some p" "ps_previous (pe_sessions p) = Some s"
          by (auto simp: List.map_filter_def in_set_conv_nth)
        have "n < 2 ^ 32" using p(1) t by (simp add: tables_ok_def tables_def)
        then have "peer_at c (word_of_nat n) = Some p" using p by (simp add: peer_at_def peer_in_nth unat_of_nat)
        from links_okD [OF t this] p(3) obtain x where x: "slot_at c s = Some (Established x)" "s_peer x = word_of_nat n"
          and "ps_current (pe_sessions p) \<noteq> Some s" unfolding links_ok_def slot_at_def sessions_wf_iff by metis
        with pinned_current_owner [OF t, of s x] \<open>peer_at c _ = Some p\<close> have "\<not> pinned_current c s" by auto
        with x nofree nodead Cons show ?thesis by (intro take) (auto simp: alloc_slot_def evictable_def)
      next
        case noprev: Nil
        show ?thesis
        proof (cases "min_by (\<lambda>(_, pidx). owner_activity c pidx) (lru_candidates c)")
          case (Some v)
          obtain i j where v: "v = (i, j)" by fastforce
          with min_by_SomeD [OF Some] have "(i, j) \<in> set (lru_candidates c)" by simp
          then obtain x where x: "i < length (c_slots c)" "c_slots c ! i = Established x" "s_peer x = j"
            "case peer_at c j of None \<Rightarrow> True | Some p \<Rightarrow> \<not> (is_pinned p \<and> ps_current (pe_sessions p) = Some (word_of_nat i))"
            by (auto simp: lru_candidates_iff)
          have sx: "slot_at c (word_of_nat i) = Some (Established x)" using idx(2) x by simp
          have "\<not> pinned_current c (word_of_nat i)"
            using pinned_current_owner [OF t _ sx] x(3,4) by auto
          with sx nofree nodead noprev Some v show ?thesis by (intro take) (auto simp: alloc_slot_def evictable_def)
        next
          case None
          then have none: "lru_candidates c = []" by simp
          have "(\<exists>h. sl = Initiating h) \<or> pinned_current c s" if s: "slot_at c s = Some sl" for s sl
          proof (cases sl)
            case Free
            then show ?thesis using nofree s by (auto simp: position_None_iff slot_at_def slot_in_nth is_free_def)
          next
            case (Established x)
            have "(unat s, s_peer x) \<notin> set (lru_candidates c)" using none by simp
            with s Established show ?thesis
              by (auto simp: lru_candidates_iff slot_at_def slot_in_nth pinned_current_def split: option.splits)
          qed simp
          with None nofree nodead noprev show ?thesis by (simp add: alloc_slot_def run_simps)
        qed
      qed
    qed
  qed
qed

section \<open>Occupying and linking a slot\<close>

text \<open>A free slot filled for a peer is in the method's hands until it is linked.\<close>

lemma tables_occupy:
  assumes t: "tables X peers slots keys idx" and s: "slot_in slots s = Some Free"
    and sl: "owner_of sl = Some i" "local_index sl = Some k" "peer_in peers i = Some p"
    and ins: "index_insert idx k s = (Inr u, idx')"
  shows "tables (insert s X) peers (slots[unat s := sl]) keys idx'"
proof -
  note b = slot_in_bound [OF s]
  have i: "slot_for idx k = None" "slot_for idx' = (slot_for idx)(k \<mapsto> s)" "max_sessions idx' = max_sessions idx"
    using index_insert_okD [OF ins] by auto
  have "index_wf idx'" using t ins index_insert_wf by (auto simp: tables_def indices_ok_def)
  moreover have "slot_for idx r \<noteq> Some s" for r
    using t s by (auto simp: tables_def indices_ok_def)
  moreover have "local_index sl' \<noteq> Some k" if "slot_in slots r = Some sl'" for r sl'
    using t that i(1) unfolding tables_def indices_ok_def by (metis option.distinct(1))
  ultimately have "indices_ok (slots[unat s := sl]) idx'"
    using t s sl i b by (auto simp: tables_def indices_ok_def)
  moreover have "links_ok (slots[unat s := sl]) j (pe_sessions q)" if "peer_in peers j = Some q" for j q
    using t that s b unfolding tables_def links_ok_def by fastforce
  moreover have "owners_ok (insert s X) peers (slots[unat s := sl])"
    using t sl b unfolding tables_def owners_ok_def by auto
  ultimately show ?thesis using t by (simp add: tables_def)
qed

text \<open>A peer may change its links: what it drops stays in the method's hands, what it takes leaves them.\<close>

lemma tables_relink:
  assumes t: "tables X peers slots keys idx" and p: "peer_in peers i = Some p"
    and q: "links_ok slots i (pe_sessions q)" "pe_public_key q = pe_public_key p"
    and Y: "linked (pe_sessions p) \<union> X \<subseteq> linked (pe_sessions q) \<union> Y"
  shows "tables Y (peers[unat i := Some q]) slots keys idx"
proof -
  note b = peer_in_bound [OF p]
  have "\<exists>r. peer_in (peers[unat i := Some q]) j = Some r \<and> (s \<in> linked (pe_sessions r) \<or> s \<in> Y)"
    if s: "slot_in slots s = Some sl" "owner_of sl = Some j" for s sl j
  proof -
    from t s obtain r where r: "peer_in peers j = Some r" "s \<in> linked (pe_sessions r) \<or> s \<in> X"
      unfolding tables_def owners_ok_def by blast
    show ?thesis
    proof (cases "j = i")
      case True
      then show ?thesis using r p Y b by auto
    next
      case False
      then have "s \<notin> linked (pe_sessions q)" using linked_owner [OF q(1), of s] s by auto
      then show ?thesis using r Y b False by auto
    qed
  qed
  then have "owners_ok Y (peers[unat i := Some q]) slots" by (auto simp: owners_ok_def)
  then show ?thesis
    using t p q b keys_ok_frame [OF _ p, of keys q] by (auto simp: tables_def)
qed

section \<open>Actions that keep the tables\<close>

named_theorems table_rules \<open>actions that keep the tables\<close>

lemma keeps_tables_modify:
  "(\<And>c. c_peers (f c) = c_peers c \<and> c_slots (f c) = c_slots c \<and> c_by_key (f c) = c_by_key c \<and> c_indices (f c) = c_indices c) \<Longrightarrow>
   keeps (tables_ok E X) (modify f)"
  by (simp add: keeps_def tables_ok_def)

lemma keeps_tables_emit [table_rules]: "keeps (tables_ok E X) (emit o')" "keeps (tables_ok E X) (arm_timer t)"
  unfolding emit_def arm_timer_def by (rule keeps_tables_modify; simp)+

lemma keeps_tables_draw [table_rules]: "keeps (tables_ok E X) (draw f)"
  unfolding draw_def by (rule keeps_zoom) (simp add: tables_ok_def)

lemma keeps_tables_peer:
  assumes "\<And>p. peer_frame p (f p)"
  shows "keeps (tables_ok E X) (modify (upd_peer i f))"
proof (rule keeps_modify)
  fix c assume "tables_ok E X c"
  then show "tables_ok E X (upd_peer i f c)"
    using tables_peer_frame [OF _ _ assms] by (auto simp: upd_peer_def put_peer_def tables_ok_def peer_at_def split: option.splits)
qed

lemma keeps_tables_free_slot [table_rules]: "keeps (tables_ok E {}) (free_slot s)"
proof (rule keepsI)
  fix c assume t: "tables_ok E {} c"
  show "tables_ok E {} (snd (run_state (free_slot s) c))"
  proof (cases "slot_at c s")
    case None
    then show ?thesis using t by (simp add: free_slot_def)
  next
    case (Some sl)
    then show ?thesis using free_slot_tables [OF t Some] by auto
  qed
qed

lemma alloc_slot_ok:
  assumes "tables_ok E {} c" "run_state (alloc_slot now) c = (r, c')"
  shows "tables_ok E {} c' \<and> (\<exists>x. r = Inr x \<and> (\<forall>s. x = Some s \<longrightarrow> slot_at c' s = Some Free))"
  using alloc_slot_cases [OF assms(1), of now]
proof (elim disjE exE conjE)
  fix s sl assume a: "slot_at c s = Some sl"
    "run_state (alloc_slot now) c = (Inr (Some s), snd (run_state (free_slot s) c))"
  from free_slot_tables [OF assms(1) a(1)] obtain c1 where
    "run_state (free_slot s) c = (Inr (), c1)" "tables_ok E {} c1" "slot_at c1 s = Some Free" by auto
  with a(2) assms(2) show ?thesis by auto
qed (use assms in auto)

lemma keeps_tables_alloc [table_rules]: "keeps (tables_ok E {}) (alloc_slot now)"
  using alloc_slot_ok by (metis keepsI prod.collapse)

lemma keeps_tables_timestamp [table_rules]: "keeps (tables_ok E X) (timestamp now)"
  unfolding timestamp_def by (intro keep_rules keeps_tables_modify) simp_all

end
