(* ===== verification/Core_Transport.thy ===== *)
theory Core_Transport
  imports Core_Tables
begin

text \<open>
  The sending half of the engine (\<open>microtun-core/src/lib.rs\<close>): starting and retransmitting
  handshakes, sealing transport and relay datagrams in the staging buffers, and delivering them
  directly or through a relay.
\<close>

section \<open>Staging an initiation\<close>

definition allocate_handshake_slot :: "peer_idx \<Rightarrow> instant \<Rightarrow> ('r, 'p, slot_idx option) fallible" where
  "allocate_handshake_slot pidx now = do {
     c \<leftarrow> peek;
     case peer_at c pidx of
       None \<Rightarrow> ok None
     | Some peer \<Rightarrow>
         if ps_handshake (pe_sessions peer) \<noteq> None then ok None
         else if pe_endpoint peer = None \<and> pe_relay peer = None then err NoEndpoint
         else and_then (alloc_slot now) (\<lambda>slot.
           case slot of None \<Rightarrow> err SessionPoolFull | Some sidx \<Rightarrow> ok (Some sidx)) }"

text \<open>The last part of \<open>build_initiation\<close>: every fallible cryptographic step is behind it.\<close>

definition install_initiation :: "slot_idx \<Rightarrow> bool \<Rightarrow> initiating \<Rightarrow> bytes \<Rightarrow> bytes \<Rightarrow> ('r, 'p, bytes) fallible" where
  "install_initiation sidx fresh handshake mac1 msg =
     and_then (if fresh then on_indices (\<lambda>m. index_insert m (in_local_index handshake) sidx) else ok ()) (\<lambda>_. do {
       modify (put_slot sidx (Initiating handshake));
       modify (upd_peer (in_peer handshake) (last_mac1_update (\<lambda>_. Some mac1)));
       arm_timer (in_retry_at handshake);
       ok msg })"

definition build_initiation :: "('r, 'p) env \<Rightarrow> peer_idx \<Rightarrow> slot_idx \<Rightarrow> instant \<Rightarrow> ('r, 'p, bytes) fallible" where
  "build_initiation E pidx sidx now = do {
     c \<leftarrow> peek;
     case peer_at c pidx of
       None \<Rightarrow> err InternalInvariant
     | Some peer \<Rightarrow>
         if pe_endpoint peer = None \<and> pe_relay peer = None then err NoEndpoint
         else and_then (timestamp now) (\<lambda>ts.
           case slot_at c sidx of
             None \<Rightarrow> err InternalInvariant
           | Some (Established _) \<Rightarrow> err Crypto
           | Some slot \<Rightarrow>
               and_then (case local_index slot of
                           Some index \<Rightarrow> ok index
                         | None \<Rightarrow> draw (random_unused (next_u32 (e_crypto E)) (c_indices c))) (\<lambda>index.
               and_then (draw (\<lambda>rng. create_initiation (e_crypto E) rng (c_s_priv c) (c_s_pub c)
                           (pe_public_key peer) index ts (replicate INITIATION_LEN 0))) (\<lambda>(state, msg).
               and_then (lift (apply_macs (e_crypto E) msg (pe_public_key peer) (pe_cookie peer) now)) (\<lambda>(mac1, msg). do {
                 retry_at \<leftarrow> draw (\<lambda>rng. handshake_retry_deadline (next_u32 (e_crypto E)) rng now);
                 install_initiation sidx (local_index slot = None)
                   \<lparr>in_peer = pidx, in_local_index = index, in_noise = state, in_retry_at = retry_at\<rparr> mac1 msg })))) }"

definition commit_handshake_start :: "peer_idx \<Rightarrow> slot_idx \<Rightarrow> instant \<Rightarrow> ('r, 'p, unit) fallible" where
  "commit_handshake_start pidx sidx now = do {
     c \<leftarrow> peek;
     let started = (case peer_at c pidx of
                      None \<Rightarrow> (Inl InternalInvariant, c)
                    | Some peer \<Rightarrow>
                        let (r, ps) = begin_handshake (pe_sessions peer) sidx (instant_add now REKEY_ATTEMPT_TIME)
                        in (r, put_peer pidx (peer\<lparr>pe_sessions := ps\<rparr>) c));
     modify (\<lambda>_. snd started);
     case fst started of
       Inl e \<Rightarrow> and_then (free_slot sidx) (\<lambda>_. err e)
     | Inr _ \<Rightarrow> do { arm_timer (instant_add now REKEY_ATTEMPT_TIME); ok () } }"

definition stage_initiation :: "('r, 'p) env \<Rightarrow> peer_idx \<Rightarrow> instant \<Rightarrow> ('r, 'p, bytes option) fallible" where
  "stage_initiation E pidx now =
     and_then (allocate_handshake_slot pidx now) (\<lambda>slot.
       case slot of
         None \<Rightarrow> ok None
       | Some sidx \<Rightarrow> do {
           built \<leftarrow> build_initiation E pidx sidx now;
           case built of
             Inl e \<Rightarrow> and_then (free_slot sidx) (\<lambda>_. err e)
           | Inr msg \<Rightarrow> and_then (commit_handshake_start pidx sidx now) (\<lambda>_. ok (Some msg)) })"

definition ensure_direct_handshake :: "('r, 'p) env \<Rightarrow> peer_idx \<Rightarrow> instant \<Rightarrow> ('r, 'p, unit) fallible" where
  "ensure_direct_handshake E pidx now = do {
     c \<leftarrow> peek;
     case peer_at c pidx of
       None \<Rightarrow> ok ()
     | Some peer \<Rightarrow>
         if pe_relay peer \<noteq> None then err RelayUnavailable
         else (case pe_endpoint peer of
             None \<Rightarrow> err NoEndpoint
           | Some endpoint \<Rightarrow>
               and_then (stage_initiation E pidx now) (\<lambda>staged.
                 case staged of
                   None \<Rightarrow> ok ()
                 | Some msg \<Rightarrow> do { emit (OuterDatagram endpoint msg); ok () })) }"

section \<open>Sealing transport datagrams\<close>

definition usable_session :: "('r, 'p) core \<Rightarrow> peer_idx \<Rightarrow> instant \<Rightarrow> slot_idx option" where
  "usable_session c pidx now =
     (case peer_at c pidx of
        None \<Rightarrow> None
      | Some peer \<Rightarrow>
          (case ps_current (pe_sessions peer) of
             None \<Rightarrow> None
           | Some sidx \<Rightarrow>
               (case slot_at c sidx of
                  Some (Established sess) \<Rightarrow> if can_send sess now then Some sidx else None
                | _ \<Rightarrow> None)))"

definition transport_ad :: "u8 \<Rightarrow> bytes result" where
  "transport_ad message_type =
     (if message_type = MSG_DATA then Inr []
      else if message_type = MSG_RELAY then Inr RELAY_AEAD_AD
      else Inl InternalInvariant)"

text \<open>The session after one more message: the counter, and whether a rekey is due.\<close>

definition advance_session :: "session \<Rightarrow> instant \<Rightarrow> bool \<times> session" where
  "advance_session sess now =
     (let sess = sess\<lparr>n_send := n_send sess + 1\<rparr>;
          hit_msg_rekey = (n_send sess \<ge> REKEY_AFTER_MESSAGES \<and> \<not> s_rekey_triggered sess);
          hit_time_rekey = (s_role sess = InitiatorRole \<and> now \<ge> rekey_deadline sess \<and> \<not> s_rekey_triggered sess)
      in (hit_msg_rekey \<or> hit_time_rekey,
          if hit_msg_rekey \<or> hit_time_rekey then sess\<lparr>s_rekey_triggered := True\<rparr> else sess))"

definition sent_peer :: "usize \<Rightarrow> instant \<Rightarrow> peer_entry \<Rightarrow> peer_entry" where
  "sent_peer total_len now p =
     p\<lparr>tx_bytes := sat_add (tx_bytes p) (word_of_nat total_len), last_activity := now,
       pe_sessions := (pe_sessions p)\<lparr>keepalive_due := None,
         persistent_keepalive_due := map_option (instant_add now) (persistent_keepalive p)\<rparr>\<rparr>"

text \<open>The staging buffer with the header written and the padding cleared.\<close>

definition stage_header :: "session \<Rightarrow> usize \<Rightarrow> usize \<Rightarrow> bytes \<Rightarrow> bytes" where
  "stage_header sess payload_len padded_len buf =
     (let buf = set_fld buf data_RECEIVER (to_le_bytes (s_remote_index sess));
          buf = set_fld buf data_COUNTER (to_le_bytes (n_send sess))
      in put_slice buf (PACKET_START + payload_len) (replicate (padded_len - payload_len) 0))"

text \<open>What a successful seal commits: the session's counter, the peer's accounting and its timers.\<close>

definition commit_seal ::
  "('r, 'p) env \<Rightarrow> peer_idx \<Rightarrow> slot_idx \<Rightarrow> peer_entry \<Rightarrow> session \<Rightarrow> usize \<Rightarrow> usize \<Rightarrow> instant \<Rightarrow> ('r, 'p, bool) action" where
  "commit_seal E pidx sidx peer sess payload_len total_len now = do {
     let (rekey, sess) = advance_session sess now;
     modify (put_slot sidx (Established sess));
     modify (upd_peer pidx (sent_peer total_len now));
     (if payload_len > 0 \<and> reply_due (pe_sessions peer) = None
      then do {
        jitter \<leftarrow> draw (rekey_timeout_jitter (next_u32 (e_crypto E)));
        let deadline = instant_add (instant_add (instant_add now KEEPALIVE_TIMEOUT) REKEY_TIMEOUT) jitter;
        modify (upd_peer pidx (upd_sessions (reply_due_update (\<lambda>_. Some deadline))));
        arm_timer deadline }
      else ret ());
     (case persistent_keepalive peer of
        Some interval \<Rightarrow> arm_timer (instant_add now interval)
      | None \<Rightarrow> ret ());
     ret rekey }"

text \<open>The buffer a datagram is sealed in: \<open>relay_scratch\<close> or \<open>scratch\<close>.\<close>

definition buffer_of :: "bool \<Rightarrow> ('r, 'p) core \<Rightarrow> bytes" where
  "buffer_of use_relay_scratch c = (if use_relay_scratch then c_relay_scratch c else c_scratch c)"

definition set_buffer :: "bool \<Rightarrow> bytes \<Rightarrow> ('r, 'p) core \<Rightarrow> ('r, 'p) core" where
  "set_buffer use_relay_scratch b =
     (if use_relay_scratch then c_relay_scratch_update (\<lambda>_. b) else c_scratch_update (\<lambda>_. b))"

definition seal_transport ::
  "('r, 'p) env \<Rightarrow> peer_idx \<Rightarrow> slot_idx \<Rightarrow> u8 \<Rightarrow> usize \<Rightarrow> bool \<Rightarrow> instant \<Rightarrow> ('r, 'p, usize \<times> bool) fallible" where
  "seal_transport E pidx sidx message_type payload_len use_relay_scratch now = do {
     c \<leftarrow> peek;
     let padded_len = align_down16 (payload_len + 15);
     let total_len = DATA_HEADER_LEN + padded_len + TAG_LEN;
     if total_len > MAX_UDP_SIZE then err PacketTooLarge
     else case peer_at c pidx of
       None \<Rightarrow> err InternalInvariant
     | Some peer \<Rightarrow>
         (case slot_at c sidx of
            Some (Established sess) \<Rightarrow>
              if \<not> can_send sess now then err Crypto
              else do {
                let storage = buffer_of use_relay_scratch c;
                and_then (lift (write_type (take total_len storage) message_type)) (\<lambda>buf. do {
                  let buf = stage_header sess payload_len padded_len buf;
                  modify (set_buffer use_relay_scratch (put_slice storage 0 buf));
                  and_then (lift (transport_ad message_type)) (\<lambda>ad.
                  and_then (lift (aead_seal (e_crypto E) (t_send sess) (n_send sess) (drop PACKET_START buf) padded_len ad))
                    (\<lambda>(_, ciphertext). do {
                      modify (set_buffer use_relay_scratch (put_slice storage 0 (take PACKET_START buf @ ciphertext)));
                      rekey \<leftarrow> commit_seal E pidx sidx peer sess payload_len total_len now;
                      ok (total_len, rekey) })) }) }
          | _ \<Rightarrow> err InternalInvariant) }"

definition note_outbound_flow :: "peer_idx \<Rightarrow> bytes \<Rightarrow> instant \<Rightarrow> ('r, 'p, unit) action" where
  "note_outbound_flow pidx packet now = modify (\<lambda>c.
     case peer_at c pidx of
       Some peer \<Rightarrow>
         if pe_inbound_policy peer = EstablishedOnly
         then c_firewall_update (\<lambda>fw. observe_outbound fw pidx packet now) c else c
     | None \<Rightarrow> c)"

section \<open>Relay path\<close>

definition relay_path :: "('r, 'p) env \<Rightarrow> bytes \<Rightarrow> instant \<Rightarrow> ('r, 'p, peer_idx \<times> slot_idx \<times> socket_addr) fallible" where
  "relay_path E relay_key now = do {
     c \<leftarrow> peek;
     case find_peer c relay_key of
       None \<Rightarrow> err RelayUnavailable
     | Some rpidx \<Rightarrow>
         (case peer_at c rpidx of
            None \<Rightarrow> err RelayUnavailable
          | Some rpeer \<Rightarrow>
              if pe_relay rpeer \<noteq> None then err RelayUnavailable
              else (case pe_endpoint rpeer of
                  None \<Rightarrow> err RelayUnavailable
                | Some endpoint \<Rightarrow>
                    (case usable_session c rpidx now of
                       Some rsidx \<Rightarrow> ok (rpidx, rsidx, endpoint)
                     | None \<Rightarrow> do {
                         _ \<leftarrow> ensure_direct_handshake E rpidx now;
                         err RelayUnavailable }))) }"

text \<open>Copy an inner message into the relay buffer behind its envelope header.\<close>

definition stage_envelope :: "bytes \<Rightarrow> bytes \<Rightarrow> ('r, 'p, unit) fallible" where
  "stage_envelope destination inner = do {
     c \<leftarrow> peek;
     let buf = put_slice (c_relay_scratch c) (PACKET_START + ENVELOPE_HEADER_LEN) inner;
     modify (c_relay_scratch_update (\<lambda>_. buf));
     case write_header (drop PACKET_START buf) destination (length inner) of
       None \<Rightarrow> err InternalInvariant
     | Some payload \<Rightarrow> do {
         modify (c_relay_scratch_update (\<lambda>_. take PACKET_START buf @ payload));
         ok () } }"

definition wrap_and_seal ::
  "('r, 'p) env \<Rightarrow> peer_idx \<Rightarrow> slot_idx \<Rightarrow> bytes \<Rightarrow> usize \<Rightarrow> instant \<Rightarrow> ('r, 'p, usize \<times> bool) fallible" where
  "wrap_and_seal E rpidx rsidx destination inner_total now = do {
     c \<leftarrow> peek;
     and_then (stage_envelope destination (take inner_total (c_scratch c))) (\<lambda>_.
       seal_transport E rpidx rsidx MSG_RELAY (ENVELOPE_HEADER_LEN + inner_total) True now) }"

definition transmit_wire ::
  "('r, 'p) env \<Rightarrow> peer_idx \<Rightarrow> socket_addr option \<Rightarrow> bytes \<Rightarrow> instant \<Rightarrow> ('r, 'p, unit) fallible" where
  "transmit_wire E pidx direct_dst msg now = do {
     c \<leftarrow> peek;
     case peer_at c pidx of
       None \<Rightarrow> err InternalInvariant
     | Some peer \<Rightarrow>
         (case pe_relay peer of
            None \<Rightarrow>
              (case (if direct_dst \<noteq> None then direct_dst else pe_endpoint peer) of
                 None \<Rightarrow> err NoEndpoint
               | Some dst \<Rightarrow> do { emit (OuterDatagram dst msg); ok () })
          | Some relay_key \<Rightarrow>
              and_then (relay_path E relay_key now) (\<lambda>(rpidx, rsidx, relay_endpoint).
                if length msg > MAX_RELAY_INNER_SIZE then err PacketTooLarge
                else and_then (stage_envelope (pe_public_key peer) msg) (\<lambda>_.
                  and_then (seal_transport E rpidx rsidx MSG_RELAY (ENVELOPE_HEADER_LEN + length msg) True now)
                    (\<lambda>(total_len, rekey_relay). do {
                      c \<leftarrow> peek;
                      emit (OuterDatagram relay_endpoint (take total_len (c_relay_scratch c)));
                      (if rekey_relay then do { _ \<leftarrow> ensure_direct_handshake E rpidx now; ret () } else ret ());
                      ok () })))) }"

definition ensure_handshake :: "('r, 'p) env \<Rightarrow> peer_idx \<Rightarrow> instant \<Rightarrow> ('r, 'p, unit) fallible" where
  "ensure_handshake E pidx now =
     and_then (stage_initiation E pidx now) (\<lambda>staged.
       case staged of
         None \<Rightarrow> ok ()
       | Some msg \<Rightarrow> do { _ \<leftarrow> transmit_wire E pidx None msg now; ok () })"

definition send_initiation :: "('r, 'p) env \<Rightarrow> peer_idx \<Rightarrow> slot_idx \<Rightarrow> instant \<Rightarrow> ('r, 'p, unit) fallible" where
  "send_initiation E pidx sidx now =
     and_then (build_initiation E pidx sidx now) (\<lambda>msg. do {
       _ \<leftarrow> transmit_wire E pidx None msg now; ok () })"

definition retransmit_initiation :: "('r, 'p) env \<Rightarrow> peer_idx \<Rightarrow> slot_idx \<Rightarrow> instant \<Rightarrow> ('r, 'p, unit) action" where
  "retransmit_initiation E pidx sidx now = do {
     sent \<leftarrow> send_initiation E pidx sidx now;
     case sent of
       Inl _ \<Rightarrow> do { _ \<leftarrow> free_slot sidx; ret () }
     | Inr _ \<Rightarrow> ret () }"

section \<open>Sending inner packets\<close>

definition encrypt_via_relay ::
  "('r, 'p) env \<Rightarrow> peer_idx \<Rightarrow> slot_idx \<Rightarrow> bytes \<Rightarrow> bytes \<Rightarrow> instant \<Rightarrow> ('r, 'p, unit) fallible" where
  "encrypt_via_relay E pidx sidx relay_key packet now =
     and_then (relay_path E relay_key now) (\<lambda>(rpidx, rsidx, relay_endpoint). do {
       let padded_len = align_down16 (length packet + 15);
       let inner_total = DATA_HEADER_LEN + padded_len + TAG_LEN;
       if inner_total > MAX_RELAY_INNER_SIZE then err PacketTooLarge
       else do {
         c \<leftarrow> peek;
         case peer_at c pidx of
           None \<Rightarrow> err InternalInvariant
         | Some peer \<Rightarrow> do {
             modify (c_scratch_update (\<lambda>b. put_slice b PACKET_START packet));
             and_then (seal_transport E pidx sidx MSG_DATA (length packet) False now) (\<lambda>(inner_total, rekey_dest).
             and_then (wrap_and_seal E rpidx rsidx (pe_public_key peer) inner_total now) (\<lambda>(total_len, rekey_relay). do {
               c \<leftarrow> peek;
               emit (OuterDatagram relay_endpoint (take total_len (c_relay_scratch c)));
               note_outbound_flow pidx packet now;
               (if rekey_dest then do { _ \<leftarrow> ensure_handshake E pidx now; ret () } else ret ());
               (if rekey_relay then do { _ \<leftarrow> ensure_direct_handshake E rpidx now; ret () } else ret ());
               ok () })) } } })"

definition encrypt_and_send ::
  "('r, 'p) env \<Rightarrow> peer_idx \<Rightarrow> slot_idx \<Rightarrow> bytes \<Rightarrow> instant \<Rightarrow> ('r, 'p, unit) fallible" where
  "encrypt_and_send E pidx sidx packet now =
     (if length packet > MAX_INNER_SIZE then err PacketTooLarge
      else do {
        c \<leftarrow> peek;
        case (case peer_at c pidx of Some peer \<Rightarrow> pe_relay peer | None \<Rightarrow> None) of
          Some relay_key \<Rightarrow> encrypt_via_relay E pidx sidx relay_key packet now
        | None \<Rightarrow>
            (case (case peer_at c pidx of Some peer \<Rightarrow> pe_endpoint peer | None \<Rightarrow> None) of
               None \<Rightarrow> err NoEndpoint
             | Some endpoint \<Rightarrow> do {
                 modify (c_scratch_update (\<lambda>b. put_slice b PACKET_START packet));
                 and_then (seal_transport E pidx sidx MSG_DATA (length packet) False now) (\<lambda>(total_len, rekey). do {
                   c \<leftarrow> peek;
                   emit (OuterDatagram endpoint (take total_len (c_scratch c)));
                   note_outbound_flow pidx packet now;
                   (if rekey then do { _ \<leftarrow> ensure_handshake E pidx now; ret () } else ret ());
                   ok () }) }) })"

definition send_to_peer :: "('r, 'p) env \<Rightarrow> peer_idx \<Rightarrow> bytes \<Rightarrow> instant \<Rightarrow> ('r, 'p, unit) fallible" where
  "send_to_peer E pidx packet now = do {
     c \<leftarrow> peek;
     case usable_session c pidx now of
       Some sidx \<Rightarrow> encrypt_and_send E pidx sidx packet now
     | None \<Rightarrow> do {
         _ \<leftarrow> zoom c_pending (\<lambda>p. c_pending_update (\<lambda>_. p))
               (\<lambda>pool. park pool packet (WaitHandshake pidx) (instant_add now REKEY_ATTEMPT_TIME));
         arm_timer (instant_add now REKEY_ATTEMPT_TIME);
         ensure_handshake E pidx now } }"

end
