(* ===== verification/Core_Transport_Tables.thy ===== *)
theory Core_Transport_Tables
  imports Core_Transport
begin

text \<open>
  The sending half of the engine keeps the tables consistent, whatever fails on the way: a slot taken
  for a handshake ends up linked from the peer it was taken for, or free again.
\<close>

section \<open>Staging an initiation\<close>

lemma keeps_slot [keep_rules]:
  "(sl = Free \<Longrightarrow> keeps I m) \<Longrightarrow> (\<And>h. sl = Initiating h \<Longrightarrow> keeps I (n h)) \<Longrightarrow> (\<And>s. sl = Established s \<Longrightarrow> keeps I (k s)) \<Longrightarrow>
   keeps I (case sl of Free \<Rightarrow> m | Initiating h \<Rightarrow> n h | Established s \<Rightarrow> k s)"
  by (cases sl) simp_all

lemma keeps_tables_allocate [table_rules]: "keeps (tables_ok E {}) (allocate_handshake_slot pidx now)"
  unfolding allocate_handshake_slot_def by (intro keep_rules table_rules)

lemma allocate_handshake_slot_free:
  assumes "tables_ok E {} c" "run_state (allocate_handshake_slot pidx now) c = (Inr (Some s), c')"
  shows "slot_at c' s = Some Free"
proof -
  obtain r c1 where a: "run_state (alloc_slot now) c = (r, c1)" by fastforce
  with alloc_slot_ok [OF assms(1) a] assms(2) show ?thesis
    by (auto simp: allocate_handshake_slot_def run_simps split: option.splits if_splits sum.splits)
qed

text \<open>The slot of an initiation: free, or already initiating for the same peer.\<close>

definition fit_for :: "peer_idx \<Rightarrow> slot \<Rightarrow> bool" where
  "fit_for pidx sl \<longleftrightarrow> sl = Free \<or> (\<exists>h. sl = Initiating h \<and> in_peer h = pidx)"

lemma initiation_slot_tables:
  assumes t: "tables_ok E X c" and sl: "slot_at c s = Some sl" "fit_for pidx sl" and p: "peer_at c pidx = Some p"
    and ix: "local_index sl = None \<or> local_index sl = Some index"
    and run: "run_state (if local_index sl = None then on_indices (\<lambda>m. index_insert m index s) else ok ()) c = (Inr u, c1)"
    and h: "in_peer h = pidx" "in_local_index h = index"
  shows "tables_ok E (if sl = Free then insert s X else X) (put_slot s (Initiating h) c1)"
proof (cases "sl = Free")
  case True
  with run obtain idx' where "index_insert (c_indices c) index s = (Inr u, idx')" "c1 = c\<lparr>c_indices := idx'\<rparr>"
    by (auto simp: on_indices_def run_simps split: prod.splits)
  then show ?thesis
    using tables_occupy [of X "c_peers c" "c_slots c" "c_by_key c" "c_indices c" s "Initiating h" pidx index p] t sl p h True
    by (simp add: tables_ok_def slot_at_def peer_at_def put_slot_def)
next
  case False
  with sl obtain h0 where h0: "sl = Initiating h0" "in_peer h0 = pidx" by (auto simp: fit_for_def)
  with run ix have "c1 = c" "in_local_index h0 = index" by auto
  moreover have "slot_frame sl (Initiating h)" using h h0 ix by (simp add: slot_frame_def)
  ultimately show ?thesis using t sl tables_slot_frame [of X "c_peers c" "c_slots c" "c_by_key c" "c_indices c" s sl] False
    by (simp add: tables_ok_def slot_at_def put_slot_def)
qed

definition built :: "('r, 'p) env \<Rightarrow> slot_idx set \<Rightarrow> peer_idx \<Rightarrow> slot_idx \<Rightarrow> slot \<Rightarrow> bytes result \<Rightarrow> ('r, 'p) core \<Rightarrow> bool" where
  "built E X pidx s sl r c \<longleftrightarrow>
     (case r of
        Inl _ \<Rightarrow> tables_ok E X c
      | Inr _ \<Rightarrow> tables_ok E (if sl = Free then insert s X else X) c \<and>
          (\<exists>h. slot_at c s = Some (Initiating h) \<and> in_peer h = pidx))"

text \<open>Steps that leave the four tables alone.\<close>

definition same_tables :: "('r, 'p) core \<Rightarrow> ('r, 'p) core \<Rightarrow> bool" where
  "same_tables c c' \<longleftrightarrow> c_peers c' = c_peers c \<and> c_slots c' = c_slots c \<and> c_by_key c' = c_by_key c \<and> c_indices c' = c_indices c"

interpretation same_tables: step_relation same_tables
  by unfold_locales (simp_all add: same_tables_def)

lemma same_tablesD:
  "same_tables c c' \<Longrightarrow> tables_ok E X c' = tables_ok E X c \<and> slot_at c' = slot_at c \<and> peer_at c' = peer_at c \<and> c_indices c' = c_indices c"
  by (auto simp: same_tables_def tables_ok_def slot_at_def peer_at_def fun_eq_iff)

lemma ensures_same_tables:
  "keeps (same_tables c) m \<Longrightarrow> (\<And>x. ensures (same_tables c) (k x) Q) \<Longrightarrow> ensures (same_tables c) (State_Monad.bind m k) Q"
  "keeps (same_tables c) n \<Longrightarrow> (\<And>x. ensures (same_tables c) (l x) R) \<Longrightarrow> (\<And>e s. same_tables c s \<Longrightarrow> R (Inl e) s) \<Longrightarrow>
   ensures (same_tables c) (and_then n l) R"
  unfolding ensures_keeps [symmetric] by (rule ensures_bind ensures_and_then; assumption)+

lemma keeps_same_tables [table_rules]:
  "keeps (same_tables c) (draw f)" "keeps (same_tables c) (timestamp now)" "keeps (same_tables c) (emit x)"
  "keeps (same_tables c) (arm_timer t)"
  by (auto simp: keeps_def draw_def timestamp_def emit_def arm_timer_def run_simps same_tables_def split: prod.splits sum.splits)

text \<open>The last step of building an initiation installs it in its slot.\<close>

lemma install_initiation_tables:
  assumes t: "tables_ok E X c" and sl: "slot_at c s = Some sl" "fit_for pidx sl" and p: "peer_at c pidx = Some p"
    and ix: "local_index sl = None \<or> local_index sl = Some index" and h: "in_peer h = pidx" "in_local_index h = index"
  shows "ensures (same_tables c) (install_initiation s (local_index sl = None) h mac1 msg) (built E X pidx s sl)"
proof (rule ensuresI)
  let ?insert = "if local_index sl = None then on_indices (\<lambda>m. index_insert m index s) else ok ()"
  fix c1 r c' assume c1: "same_tables c c1" and run: "run_state (install_initiation s (local_index sl = None) h mac1 msg) c1 = (r, c')"
  note d = same_tablesD [OF c1]
  obtain ri c2 where ins: "run_state ?insert c1 = (ri, c2)" by fastforce
  show "built E X pidx s sl r c'"
  proof (cases ri)
    case (Inl e)
    then have "c2 = c1" using ins by (auto simp: on_indices_def run_simps dest: index_insert_errD split: if_splits prod.splits)
    with Inl run ins t d h show ?thesis by (auto simp: install_initiation_def run_simps built_def)
  next
    case (Inr u)
    let ?c3 = "put_slot s (Initiating h) c2"
    have t3: "tables_ok E (if sl = Free then insert s X else X) ?c3"
      using initiation_slot_tables [of E X c1 s sl pidx p index u c2 h] t sl p ix h ins Inr d by auto
    have c': "c' = snd (run_state (arm_timer (in_retry_at h)) (upd_peer pidx (last_mac1_update (\<lambda>_. Some mac1)) ?c3))" "r = Inr msg"
      using run ins Inr h by (auto simp: install_initiation_def run_simps arm_timer_def)
    have "tables_ok E (if sl = Free then insert s X else X) (upd_peer pidx (last_mac1_update (\<lambda>_. Some mac1)) ?c3)"
      using keepsD [OF keeps_tables_peer t3, of "last_mac1_update (\<lambda>_. Some mac1)" pidx] by (simp add: peer_frame_def)
    moreover have "unat s < length (c_slots c2)"
      using ins sl c1 by (auto simp: on_indices_def run_simps slot_at_def same_tables_def dest: slot_in_bound split: if_splits prod.splits)
    ultimately show ?thesis using h
      by (auto simp: built_def c' arm_timer_def tables_ok_def slot_at_def put_slot_def upd_peer_def put_peer_def split: option.splits)
  qed
qed

lemma build_initiation_tables:
  assumes t: "tables_ok E X c" and sl: "slot_at c s = Some sl" "fit_for pidx sl"
  shows "ensures (\<lambda>s. s = c) (build_initiation E pidx s now) (built E X pidx s sl)"
proof -
  have fail: "same_tables c c' \<Longrightarrow> built E X pidx s sl (Inl e) c'" for e c'
    using t by (simp add: built_def same_tablesD)
  have start: "ensures (same_tables c) m Q \<Longrightarrow> ensures (\<lambda>s. s = c) m Q" for m and Q :: "'x \<Rightarrow> _"
    by (auto simp: ensures_def same_tables.refl)
  show ?thesis unfolding build_initiation_def
  proof (rule ensures_peek_bind, goal_cases)
    case (1 c0)
    show ?case
    proof (cases "c0 = c")
      case True
      show ?thesis
      proof (cases "peer_at c pidx")
        case None
        then show ?thesis using True fail by (auto simp: ensures_def same_tables.refl)
      next
        case (Some p)
        have install: "ensures (same_tables c) (install_initiation s (local_index sl = None)
            \<lparr>in_peer = pidx, in_local_index = index, in_noise = state, in_retry_at = retry_at\<rparr> mac1 msg) (built E X pidx s sl)"
          if "local_index sl = None \<or> local_index sl = Some index" for index state retry_at mac1 msg
          by (rule install_initiation_tables [OF t sl Some that]) simp_all
        show ?thesis
        proof (cases "pe_endpoint p = None \<and> pe_relay p = None")
          case unreachable: True
          then show ?thesis using True Some fail by (auto simp: ensures_def same_tables.refl)
        next
          case False
          show ?thesis
          proof (cases sl)
            case Free
            then show ?thesis using True Some False sl(1) install
              by (auto intro!: start ensures_same_tables fail [unfolded Free] ensures_prod table_rules keeps_return)
          next
            case (Initiating h)
            then show ?thesis using True Some False sl(1) install
              by (auto intro!: start ensures_same_tables fail [unfolded Initiating] ensures_prod table_rules keeps_return)
          qed (use sl in \<open>simp add: fit_for_def\<close>)
        qed
      qed
    qed (simp add: ensures_def)
  qed
qed

lemma free_slot_held:
  assumes "tables_ok E {s} c" "slot_at c s \<noteq> None"
  shows "\<exists>c'. run_state (free_slot s) c = (Inr (), c') \<and> tables_ok E {} c'"
  using free_slot_tables [OF assms(1), of s] assms(2) by auto

lemma commit_handshake_start_tables:
  assumes t: "tables_ok E {s} c" and s: "slot_at c s = Some (Initiating h)" "in_peer h = pidx"
    and run: "run_state (commit_handshake_start pidx s now) c = (r, c')"
  shows "tables_ok E {} c'"
proof -
  let ?d = "instant_add now REKEY_ATTEMPT_TIME"
  have tb: "tables {s} (c_peers c) (c_slots c) (c_by_key c) (c_indices c)" using t by (simp add: tables_ok_def)
  from tb s obtain p where p: "peer_in (c_peers c) pidx = Some p"
    unfolding tables_def owners_ok_def slot_at_def by (metis owner_of.simps(2))
  obtain rb ps where b: "begin_handshake (pe_sessions p) s ?d = (rb, ps)" by fastforce
  show ?thesis
  proof (cases rb)
    case (Inl e)
    then have "ps = pe_sessions p" using b by (auto simp: begin_handshake_def Let_def split: if_splits)
    then have "put_peer pidx (p\<lparr>pe_sessions := ps\<rparr>) c = c"
      using p list_update_id [of "c_peers c" "unat pidx"] by (auto simp: put_peer_def peer_in_nth)
    with Inl run p b free_slot_held [OF t] s(1) show ?thesis
      by (auto simp: commit_handshake_start_def peer_at_def run_simps)
  next
    case (Inr u)
    then have ps: "ps_handshake (pe_sessions p) = None"
      "ps = (pe_sessions p)\<lparr>ps_handshake := Some s, attempt_deadline := (if attempt_deadline (pe_sessions p) = None then Some ?d else attempt_deadline (pe_sessions p))\<rparr>"
      using b by (auto simp: begin_handshake_ok)
    have l: "links_ok (c_slots c) pidx (pe_sessions p)" using tb p by (simp add: tables_def)
    have "links_ok (c_slots c) pidx ps"
      using l s ps unfolding links_ok_def sessions_wf_iff slot_at_def by (auto; metis option.inject slot.distinct(5))
    moreover have "linked ps = insert s (linked (pe_sessions p))" using ps by (auto simp: linked_iff)
    ultimately have "tables {} ((c_peers c)[unat pidx := Some (p\<lparr>pe_sessions := ps\<rparr>)]) (c_slots c) (c_by_key c) (c_indices c)"
      by (intro tables_relink [OF tb p]) auto
    with Inr run p b t show ?thesis
      by (auto simp: commit_handshake_start_def peer_at_def run_simps put_peer_def arm_timer_def tables_ok_def)
  qed
qed

lemma keeps_tables_stage [table_rules]: "keeps (tables_ok E {}) (stage_initiation E pidx now)"
proof (rule keepsI)
  fix c :: "('a, 'b) core" assume t: "tables_ok E {} c"
  obtain ra c1 where a: "run_state (allocate_handshake_slot pidx now) c = (ra, c1)" by fastforce
  have t1: "tables_ok E {} c1" by (rule keepsD [OF keeps_tables_allocate t a])
  show "tables_ok E {} (snd (run_state (stage_initiation E pidx now) c))"
  proof (cases "\<exists>s. ra = Inr (Some s)")
    case True
    then obtain s where s: "ra = Inr (Some s)" by blast
    have free: "slot_at c1 s = Some Free" using allocate_handshake_slot_free [OF t] a s by blast
    obtain rb c2 where b: "run_state (build_initiation E pidx s now) c1 = (rb, c2)" by fastforce
    have built: "built E {} pidx s Free rb c2"
      using ensuresD [OF build_initiation_tables [OF t1 free] _ b] by (simp add: fit_for_def)
    show ?thesis
    proof (cases rb)
      case (Inl e)
      then have "tables_ok E {} c2" using built by (simp add: built_def)
      then show ?thesis using a s b Inl keeps_tables_free_slot [of E s]
        by (auto simp: stage_initiation_def run_simps keeps_def split: prod.splits sum.splits)
    next
      case (Inr msg)
      then obtain h where "tables_ok E {s} c2" "slot_at c2 s = Some (Initiating h)" "in_peer h = pidx"
        using built by (auto simp: built_def)
      from commit_handshake_start_tables [OF this] a s b Inr show ?thesis
        by (auto simp: stage_initiation_def run_simps split: prod.splits sum.splits)
    qed
  next
    case False
    with a t1 show ?thesis by (auto simp: stage_initiation_def run_simps split: sum.splits option.splits)
  qed
qed

lemma keeps_tables_direct [table_rules]: "keeps (tables_ok E {}) (ensure_direct_handshake E pidx now)"
  unfolding ensure_direct_handshake_def by (intro keep_rules table_rules)

section \<open>Transport\<close>

lemma keeps_tables_slot_update:
  assumes "slot_at c s = Some (Established sess)" "s_peer sess' = s_peer sess" "s_local_index sess' = s_local_index sess"
    "tables_ok E X c"
  shows "tables_ok E X (put_slot s (Established sess') c)"
  using tables_slot_frame [of X "c_peers c" "c_slots c" "c_by_key c" "c_indices c" s "Established sess" "Established sess'"] assms
  by (simp add: tables_ok_def put_slot_def slot_at_def slot_frame_def)

lemma advance_session_frame:
  "s_peer (snd (advance_session s now)) = s_peer s" "s_local_index (snd (advance_session s now)) = s_local_index s"
  by (simp_all add: advance_session_def Let_def)

lemma commit_seal_tables:
  assumes "slot_at c s = Some (Established sess)" "tables_ok E X c"
  shows "tables_ok E X (snd (run_state (commit_seal E pidx s peer sess n m now) c))"
proof -
  let ?c = "put_slot s (Established (snd (advance_session sess now))) c"
  have t: "tables_ok E X ?c"
    by (rule keeps_tables_slot_update [OF assms(1) _ _ assms(2)]) (simp_all add: advance_session_frame)
  have "keeps (tables_ok E X) (do {
      modify (upd_peer pidx (sent_peer m now));
      (if n > 0 \<and> reply_due (pe_sessions peer) = None
       then do {
         jitter \<leftarrow> draw (rekey_timeout_jitter (next_u32 (e_crypto E)));
         let deadline = instant_add (instant_add (instant_add now KEEPALIVE_TIMEOUT) REKEY_TIMEOUT) jitter;
         modify (upd_peer pidx (upd_sessions (reply_due_update (\<lambda>_. Some deadline))));
         arm_timer deadline }
       else ret ());
      (case persistent_keepalive peer of Some interval \<Rightarrow> arm_timer (instant_add now interval) | None \<Rightarrow> ret ());
      ret (fst (advance_session sess now)) })"
    by (intro keep_rules table_rules keeps_tables_peer) (simp_all add: peer_frame_def sent_peer_def upd_sessions_def)
  from this [unfolded keeps_def] t show ?thesis
    by (simp add: commit_seal_def split_beta Let_def)
qed

text \<open>A seal either fails and leaves at most a header in the buffer, or stores the sealed datagram and commits.\<close>

definition sealed_len :: "usize \<Rightarrow> usize" where
  "sealed_len n = DATA_HEADER_LEN + align_down16 (n + 15) + TAG_LEN"

lemma set_buffer_twice [simp]: "set_buffer relay b (set_buffer relay b' c) = set_buffer relay b c"
  by (simp add: set_buffer_def)

lemma set_buffer_tables [simp]:
  "tables_ok E X (set_buffer relay b c) = tables_ok E X c" "slot_at (set_buffer relay b c) = slot_at c"
  by (auto simp: set_buffer_def tables_ok_def slot_at_def fun_eq_iff)

lemma seal_transport_cases:
  assumes "run_state (seal_transport E pidx sidx ty n relay now) c = (r, c')"
  obtains (failed) e where "r = Inl e" "c' = c \<or> (\<exists>b. c' = set_buffer relay b c)"
  | (sealed) peer sess buf ad m ct rekey where "peer_at c pidx = Some peer" "slot_at c sidx = Some (Established sess)"
      "can_send sess now" "sealed_len n \<le> MAX_UDP_SIZE" "write_type (take (sealed_len n) (buffer_of relay c)) ty = Inr buf"
      "transport_ad ty = Inr ad"
      "aead_seal (e_crypto E) (t_send sess) (n_send sess)
         (drop PACKET_START (stage_header sess n (align_down16 (n + 15)) buf)) (align_down16 (n + 15)) ad = Inr (m, ct)"
      "run_state (commit_seal E pidx sidx peer sess n (sealed_len n) now)
         (set_buffer relay (put_slice (buffer_of relay c) 0
            (take PACKET_START (stage_header sess n (align_down16 (n + 15)) buf) @ ct)) c) = (rekey, c')"
      "r = Inr (sealed_len n, rekey)"
proof (cases "peer_at c pidx")
  case None
  with assms show ?thesis using failed by (auto simp: seal_transport_def Let_def split: if_splits)
next
  case (Some peer)
  show ?thesis
  proof (cases "\<exists>sess. slot_at c sidx = Some (Established sess) \<and> can_send sess now \<and> sealed_len n \<le> MAX_UDP_SIZE")
    case False
    with assms Some show ?thesis using failed
      by (auto simp: seal_transport_def Let_def sealed_len_def not_less split: if_splits option.splits slot.splits)
  next
    case True
    then obtain sess where s: "slot_at c sidx = Some (Established sess)" "can_send sess now" "sealed_len n \<le> MAX_UDP_SIZE" by blast
    show ?thesis
    proof (cases "write_type (take (sealed_len n) (buffer_of relay c)) ty")
      case (Inl e)
      with assms Some s show ?thesis using failed
        by (auto simp: seal_transport_def Let_def sealed_len_def split: if_splits)
    next
      case w: (Inr buf)
      show ?thesis
      proof (cases "transport_ad ty")
        case (Inl e)
        with assms Some s w show ?thesis using failed
          by (auto simp: seal_transport_def Let_def sealed_len_def split: if_splits)
      next
        case ad: (Inr ad)
        let ?buf = "stage_header sess n (align_down16 (n + 15)) buf"
        show ?thesis
        proof (cases "aead_seal (e_crypto E) (t_send sess) (n_send sess) (drop PACKET_START ?buf) (align_down16 (n + 15)) ad")
          case (Inl e)
          with assms Some s w ad show ?thesis using failed
            by (auto simp: seal_transport_def Let_def sealed_len_def split: if_splits)
        next
          case (Inr mc)
          obtain m ct where mc: "mc = (m, ct)" by fastforce
          obtain rekey c2 where cm: "run_state (commit_seal E pidx sidx peer sess n (sealed_len n) now)
             (set_buffer relay (put_slice (buffer_of relay c) 0 (take PACKET_START ?buf @ ct)) c) = (rekey, c2)" by fastforce
          with assms Some s w ad Inr mc have "c2 = c'" "r = Inr (sealed_len n, rekey)"
            by (auto simp: seal_transport_def Let_def sealed_len_def run_simps split: if_splits)
          then show ?thesis using sealed [OF Some s w ad Inr [unfolded mc]] cm by blast
        qed
      qed
    qed
  qed
qed

lemma keeps_tables_seal [table_rules]: "keeps (tables_ok E X) (seal_transport E pidx sidx ty n relay now)"
proof (rule keepsI)
  fix c :: "('a, 'b) core" assume t: "tables_ok E X c"
  obtain r c' where run: "run_state (seal_transport E pidx sidx ty n relay now) c = (r, c')" by fastforce
  from run show "tables_ok E X (snd (run_state (seal_transport E pidx sidx ty n relay now) c))"
  proof (cases rule: seal_transport_cases)
    case (sealed peer sess buf ad m ct rekey)
    have "slot_at (set_buffer relay b c) sidx = Some (Established sess)" "tables_ok E X (set_buffer relay b c)" for b
      using sealed(2) t by simp_all
    from commit_seal_tables [OF this] sealed(8) run show ?thesis by (metis snd_conv)
  qed (use t run in auto)
qed

lemma keeps_tables_flow [table_rules]: "keeps (tables_ok E X) (note_outbound_flow pidx packet now)"
  unfolding note_outbound_flow_def by (rule keeps_tables_modify) (simp split: option.splits)

lemma keeps_tables_stage_envelope [table_rules]: "keeps (tables_ok E X) (stage_envelope d inner)"
  unfolding stage_envelope_def by (intro keep_rules keeps_tables_modify) simp_all

lemma keeps_tables_relay [table_rules]:
  "keeps (tables_ok E {}) (relay_path E key now)" "keeps (tables_ok E {}) (wrap_and_seal E i s d n now)"
  unfolding relay_path_def wrap_and_seal_def by (intro keep_rules table_rules)+

lemma keeps_tables_transmit [table_rules]: "keeps (tables_ok E {}) (transmit_wire E pidx dst msg now)"
  unfolding transmit_wire_def by (intro keep_rules table_rules)

lemma keeps_tables_ensure [table_rules]: "keeps (tables_ok E {}) (ensure_handshake E pidx now)"
  unfolding ensure_handshake_def by (intro keep_rules table_rules)

lemma keeps_tables_encrypt [table_rules]:
  "keeps (tables_ok E {}) (encrypt_via_relay E pidx sidx key packet now)"
  "keeps (tables_ok E {}) (encrypt_and_send E pidx sidx packet now)"
  unfolding encrypt_via_relay_def encrypt_and_send_def
  by (intro keep_rules table_rules keeps_tables_modify; simp)+

lemma keeps_tables_send [table_rules]: "keeps (tables_ok E {}) (send_to_peer E pidx packet now)"
  unfolding send_to_peer_def by (intro keep_rules table_rules keeps_zoom) (simp add: tables_ok_def)

lemma retransmit_initiation_tables:
  assumes t: "tables_ok E {} c" and s: "slot_at c s = Some (Initiating h)" "in_peer h = pidx"
  shows "tables_ok E {} (snd (run_state (retransmit_initiation E pidx s now) c))"
proof -
  obtain rb c1 where b: "run_state (build_initiation E pidx s now) c = (rb, c1)" by fastforce
  have "built E {} pidx s (Initiating h) rb c1"
    using ensuresD [OF build_initiation_tables [OF t s(1)] _ b] s(2) by (simp add: fit_for_def)
  then have t1: "tables_ok E {} c1" by (cases rb) (simp_all add: built_def)
  show ?thesis
  proof (cases rb)
    case (Inl e)
    with b t1 keeps_tables_free_slot [of E s] show ?thesis
      by (auto simp: retransmit_initiation_def send_initiation_def run_simps keeps_def split: prod.splits)
  next
    case (Inr msg)
    with b t1 keeps_tables_transmit [of E pidx None msg now] show ?thesis
      by (auto simp: retransmit_initiation_def send_initiation_def run_simps keeps_def split: prod.splits)
  qed
qed

end
