(* ===== verification/Transport_Limits.thy ===== *)
theory Transport_Limits
  imports Core_Transport_Tables
begin

text \<open>
  The limits of the transport path: which packets the engine refuses as too large, directly and
  through a relay, how large the datagrams of the others are, what a relayed datagram looks like to
  the relay that opens it, and how the rekey age of a session relates to the end of its life. The
  operations are those of \<open>Core_Transport\<close>, \<open>Relay_Envelope\<close> and \<open>Session_State\<close>.
\<close>

section \<open>Actions that never fail in a given way\<close>

definition never :: "error \<Rightarrow> ('s, 'a result) state \<Rightarrow> bool" where
  "never e m \<longleftrightarrow> (\<forall>s. fst (run_state m s) \<noteq> Inl e)"

lemma neverD: "never e m \<Longrightarrow> run_state m s = (Inl e', s') \<Longrightarrow> e' \<noteq> e"
  by (metis never_def fst_conv)

named_theorems never_rules \<open>compositional rules for \<open>never\<close>\<close>

lemma never_ok [never_rules]: "never e (ok x)" and never_err [never_rules]: "e' \<noteq> e \<Longrightarrow> never e (err e')"
  and never_lift [never_rules]: "r \<noteq> Inl e \<Longrightarrow> never e (lift r)"
  by (simp_all add: never_def)

lemma never_and_then [never_rules]: "never e m \<Longrightarrow> (\<And>x. never e (k x)) \<Longrightarrow> never e (and_then m k)"
  by (auto simp: never_def run_simps split: prod.split sum.split)
    (metis fst_conv)+

lemma never_and_then_result:
  "never e m \<Longrightarrow> (\<And>x s s'. run_state m s = (Inr x, s') \<Longrightarrow> never e (k x)) \<Longrightarrow> never e (and_then m k)"
  by (auto simp: never_def run_simps split: prod.split sum.split)
    (metis fst_conv)+

lemma never_bind [never_rules]: "(\<And>x. never e (k x)) \<Longrightarrow> never e (State_Monad.bind m k)"
  by (simp add: never_def split_beta)

lemma never_if [never_rules]: "(b \<Longrightarrow> never e m) \<Longrightarrow> (\<not> b \<Longrightarrow> never e n) \<Longrightarrow> never e (if b then m else n)"
  by simp

lemma never_option [never_rules]:
  "never e m \<Longrightarrow> (\<And>x. never e (k x)) \<Longrightarrow> never e (case z of None \<Rightarrow> m | Some x \<Rightarrow> k x)"
  by (cases z) simp_all

lemma never_prod [never_rules]: "(\<And>x y. never e (k x y)) \<Longrightarrow> never e (case z of (x, y) \<Rightarrow> k x y)"
  by (cases z) simp

lemma never_slot [never_rules]:
  "never e m1 \<Longrightarrow> (\<And>x. never e (m2 x)) \<Longrightarrow> (\<And>x. never e (m3 x)) \<Longrightarrow>
     never e (case z of Free \<Rightarrow> m1 | Initiating x \<Rightarrow> m2 x | Established x \<Rightarrow> m3 x)"
  by (cases z) simp_all

lemma fst_and_then_Inl:
  "never e m \<Longrightarrow> fst (run_state (and_then m k) c) = Inl e \<longleftrightarrow>
     (\<exists>x c'. run_state m c = (Inr x, c') \<and> fst (run_state (k x) c') = Inl e)"
  by (auto simp: never_def run_simps split: prod.split sum.split)
    (metis fst_conv)

section \<open>Sizes\<close>

lemma pad16_sum_le: "a \<le> b \<Longrightarrow> pad16 n + a \<le> b \<longleftrightarrow> n \<le> align_down16 (b - a)"
  using pad16_le_iff [of n "b - a"] by (simp add: le_diff_conv2)

lemma pad16_relayed_le:
  assumes "a \<le> b" "68 \<le> align_down16 (b - a)"
  shows "pad16 (ENVELOPE_HEADER_LEN + (pad16 n + DATA_OVERHEAD)) + a \<le> b \<longleftrightarrow> n \<le> align_down16 (align_down16 (b - a) - 68)"
  using assms pad16_le_iff [of "36 + (pad16 n + 32)" "b - a"] pad16_le_iff [of n "align_down16 (b - a) - 68"]
  by (simp add: layout_simps le_diff_conv2 add.commute)

lemma budgets:
  "pad16 n + DATA_OVERHEAD \<le> MAX_UDP_SIZE \<longleftrightarrow> n \<le> MAX_INNER_SIZE"
  "pad16 n + DATA_OVERHEAD + OUTER_IPV6_UDP_OVERHEAD \<le> MAX_UDP_SIZE \<longleftrightarrow> n \<le> RECOMMENDED_MAX_MTU"
  "pad16 n + DATA_OVERHEAD \<le> MAX_RELAY_INNER_SIZE \<longleftrightarrow> n \<le> MAX_RELAY_INNER_IP_SIZE"
  "pad16 (ENVELOPE_HEADER_LEN + (pad16 n + DATA_OVERHEAD)) + DATA_OVERHEAD \<le> MAX_UDP_SIZE \<longleftrightarrow> n \<le> MAX_RELAY_INNER_IP_SIZE"
  "pad16 (ENVELOPE_HEADER_LEN + (pad16 n + DATA_OVERHEAD)) + DATA_OVERHEAD + OUTER_IPV6_UDP_OVERHEAD \<le> MAX_UDP_SIZE
     \<longleftrightarrow> n \<le> RECOMMENDED_MAX_RELAYED_MTU"
  using pad16_sum_le [of 32 1500 n] pad16_sum_le [of 80 1500 n] pad16_sum_le [of 32 1408 n]
    pad16_relayed_le [of 32 1500 n] pad16_relayed_le [of 80 1500 n]
  by (simp_all add: layout_simps relay_limits MAX_UDP_SIZE_def OUTER_IPV6_UDP_OVERHEAD_def align_down16_def)

lemma sealed_len_pad16: "sealed_len n = pad16 n + DATA_OVERHEAD"
  by (simp add: sealed_len_def pad16_def DATA_OVERHEAD_def)

lemma sealed_len_fits: "sealed_len n \<le> MAX_UDP_SIZE \<longleftrightarrow> n \<le> MAX_INNER_SIZE"
  unfolding sealed_len_pad16 by (rule budgets)

lemma envelope_budget: "ENVELOPE_HEADER_LEN + (pad16 n + DATA_OVERHEAD) \<le> MAX_INNER_SIZE \<longleftrightarrow> n \<le> MAX_RELAY_INNER_IP_SIZE"
  unfolding budgets(1) [symmetric] by (rule budgets)

lemma seal_fits:
  assumes "n \<le> MAX_INNER_SIZE"
  shows "never PacketTooLarge (seal_transport E pidx sidx ty n relay now)"
proof -
  have fits: "\<not> MAX_UDP_SIZE < DATA_HEADER_LEN + align_down16 (n + 15) + TAG_LEN"
    using assms unfolding sealed_len_fits [symmetric] sealed_len_def by simp
  show ?thesis
    unfolding seal_transport_def Let_def if_not_P [OF fits]
    by (intro never_rules)
      (auto simp: write_type_def transport_ad_def aead_seal_def Let_def split: if_splits option.splits)
qed

lemma seal_too_large:
  assumes "MAX_INNER_SIZE < n"
  shows "run_state (seal_transport E pidx sidx ty n relay now) c = (Inl PacketTooLarge, c)"
proof -
  have "MAX_UDP_SIZE < DATA_HEADER_LEN + align_down16 (n + 15) + TAG_LEN"
    using assms sealed_len_fits [of n] unfolding sealed_len_def by linarith
  then show ?thesis by (simp add: seal_transport_def Let_def)
qed

lemma seal_too_large_iff:
  "fst (run_state (seal_transport E pidx sidx ty n relay now) c) = Inl PacketTooLarge \<longleftrightarrow> MAX_INNER_SIZE < n"
proof (cases "n \<le> MAX_INNER_SIZE")
  case True
  with seal_fits [OF True, of E pidx sidx ty relay now] show ?thesis by (simp add: never_def not_less)
next
  case False
  with seal_too_large [of n E pidx sidx ty relay now c] show ?thesis by simp
qed

lemma seal_total:
  assumes "run_state (seal_transport E pidx sidx ty n relay now) c = (Inr (len, rekey), c')"
  shows "len = pad16 n + DATA_OVERHEAD" "n \<le> MAX_INNER_SIZE"
proof -
  from assms have "len = sealed_len n" "sealed_len n \<le> MAX_UDP_SIZE"
    by (cases rule: seal_transport_cases; simp)+
  then show "len = pad16 n + DATA_OVERHEAD" "n \<le> MAX_INNER_SIZE"
    unfolding sealed_len_fits by (simp_all only: sealed_len_pad16)
qed

lemma sealed_result_cases:
  fixes x :: "(usize \<times> bool) result \<times> 'c"
  obtains (sealed) len rekey c' where "x = (Inr (len, rekey), c')" | (failed) e c' where "x = (Inl e, c')"
  by (metis old.prod.exhaust sum.exhaust)

section \<open>Sending\<close>

lemma relay_path_never_too_large: "never PacketTooLarge (relay_path E key now)"
  unfolding relay_path_def by (intro never_rules) simp_all

lemma wrap_total:
  assumes "run_state (wrap_and_seal E rpidx rsidx dst m now) c = (Inr (len, rekey), c')"
  shows "len = pad16 (ENVELOPE_HEADER_LEN + m) + DATA_OVERHEAD" "ENVELOPE_HEADER_LEN + m \<le> MAX_INNER_SIZE"
proof -
  from assms obtain c1 where "run_state (seal_transport E rpidx rsidx MSG_RELAY (ENVELOPE_HEADER_LEN + m) True now) c1 = (Inr (len, rekey), c')"
    by (auto simp: wrap_and_seal_def run_simps split: prod.splits sum.splits)
  from seal_total [OF this] show "len = pad16 (ENVELOPE_HEADER_LEN + m) + DATA_OVERHEAD" "ENVELOPE_HEADER_LEN + m \<le> MAX_INNER_SIZE"
    by simp_all
qed

lemma wrap_fits:
  assumes "n \<le> MAX_RELAY_INNER_IP_SIZE"
  shows "never PacketTooLarge (wrap_and_seal E rpidx rsidx dst (pad16 n + DATA_OVERHEAD) now)"
  unfolding wrap_and_seal_def stage_envelope_def Let_def
  using assms by (intro never_rules seal_fits) (simp_all only: envelope_budget, simp_all)

lemma via_relay_too_large_iff:
  fixes E :: "('a, 'b) env"
  shows "fst (run_state (encrypt_via_relay E pidx sidx key packet now) c) = Inl PacketTooLarge \<longleftrightarrow>
     (\<exists>path. fst (run_state (relay_path E key now) c) = Inr path) \<and> MAX_RELAY_INNER_IP_SIZE < length packet"
proof (cases "length packet \<le> MAX_RELAY_INNER_IP_SIZE")
  case True
  have direct: "length packet \<le> MAX_INNER_SIZE" using True by (simp add: relay_limits)
  have fits: "\<not> MAX_RELAY_INNER_SIZE < DATA_HEADER_LEN + align_down16 (length packet + 15) + TAG_LEN"
    using True unfolding budgets(3) [symmetric] pad16_def DATA_OVERHEAD_def by simp
  have sealing: "never PacketTooLarge (and_then (seal_transport E pidx sidx MSG_DATA (length packet) False now)
      (\<lambda>(inner_total, rekey). and_then (wrap_and_seal E rpidx rsidx dst inner_total now) (k rekey)))"
    if "\<And>rekey x. never PacketTooLarge (k rekey x)" for rpidx rsidx dst and k :: "bool \<Rightarrow> usize \<times> bool \<Rightarrow> ('a, 'b, unit) fallible"
    by (rule never_and_then_result [OF seal_fits [OF direct]])
      (auto dest!: seal_total(1) intro!: never_and_then wrap_fits [OF True] that simp del: layout_simps)
  have "never PacketTooLarge (encrypt_via_relay E pidx sidx key packet now)"
    unfolding encrypt_via_relay_def Let_def if_not_P [OF fits]
    by (intro never_and_then [OF relay_path_never_too_large] never_prod never_bind never_option never_err sealing never_ok) simp
  with True show ?thesis by (simp add: never_def not_less)
next
  case False
  then have "MAX_RELAY_INNER_SIZE < DATA_HEADER_LEN + align_down16 (length packet + 15) + TAG_LEN"
    using budgets(3) [of "length packet"] unfolding pad16_def DATA_OVERHEAD_def by linarith
  with False relay_path_never_too_large [of E key now] show ?thesis
    by (auto simp: encrypt_via_relay_def Let_def run_simps never_def split: prod.splits sum.splits) (metis fst_conv)
qed

lemma send_too_large_iff:
  "fst (run_state (encrypt_and_send E pidx sidx packet now) c) = Inl PacketTooLarge \<longleftrightarrow>
     MAX_INNER_SIZE < length packet \<or>
     (\<exists>peer key path. peer_at c pidx = Some peer \<and> pe_relay peer = Some key \<and>
        fst (run_state (relay_path E key now) c) = Inr path \<and> MAX_RELAY_INNER_IP_SIZE < length packet)"
proof (cases "length packet \<le> MAX_INNER_SIZE")
  case True
  show ?thesis
  proof (cases "\<exists>peer key. peer_at c pidx = Some peer \<and> pe_relay peer = Some key")
    case relayed: True
    then obtain peer key where "peer_at c pidx = Some peer" "pe_relay peer = Some key" by blast
    with True via_relay_too_large_iff [of E pidx sidx key packet now c] show ?thesis
      by (auto simp: encrypt_and_send_def)
  next
    case False
    have "never PacketTooLarge (do {
        modify (c_scratch_update (\<lambda>b. put_slice b PACKET_START packet));
        and_then (seal_transport E pidx sidx MSG_DATA (length packet) False now) (\<lambda>(total_len, rekey). do {
          c \<leftarrow> peek;
          emit (OuterDatagram endpoint (take total_len (c_scratch c)));
          note_outbound_flow pidx packet now;
          (if rekey then do { _ \<leftarrow> ensure_handshake E pidx now; ret () } else ret ());
          ok () }) })" for endpoint
      by (intro never_rules seal_fits True)
    with True False show ?thesis
      by (auto simp: encrypt_and_send_def never_def split: option.split)
  qed
qed (auto simp: encrypt_and_send_def not_less)

section \<open>What the relay opens\<close>

lemma drop_put_slice: "a + length ys \<le> k \<Longrightarrow> k \<le> length xs \<Longrightarrow> drop k (put_slice xs a ys) = drop k xs"
  by (simp add: put_slice_def)

lemma staged_envelope:
  assumes "length dst = 32" "length rs = MAX_UDP_SIZE" "PACKET_START + ENVELOPE_HEADER_LEN + length inner \<le> MAX_UDP_SIZE"
    "run_state (stage_envelope dst inner) c = (Inr (), c1)" "c_relay_scratch c = rs"
  shows "drop PACKET_START (c_relay_scratch c1) = dst @ to_le_bytes (word_of_nat (length inner) :: u32) @ inner @ drop (52 + length inner) rs"
    "length (c_relay_scratch c1) = MAX_UDP_SIZE" "c1 = c\<lparr>c_relay_scratch := c_relay_scratch c1\<rparr>" "length inner < 2 ^ 32"
  using assms by (auto simp: stage_envelope_def Let_def write_header_def run_simps put_slice_def MAX_UDP_SIZE_def split: if_splits)

lemma staged_plaintext:
  assumes "drop PACKET_START storage = dst @ to_le_bytes (word_of_nat (length inner) :: u32) @ inner @ rest"
    "length storage = MAX_UDP_SIZE" "length dst = 32" "n = ENVELOPE_HEADER_LEN + length inner"
    "sealed_len n \<le> MAX_UDP_SIZE" "write_type (take (sealed_len n) storage) ty = Inr buf"
  shows "take (pad16 n) (drop PACKET_START (stage_header sess n (pad16 n) buf)) = relay_plaintext dst inner"
proof -
  let ?total = "pad16 n + 32" and ?text = "dst @ to_le_bytes (word_of_nat (length inner) :: u32) @ inner"
  obtain k where k: "pad16 n = n + k" using pad16_bounds(1) [of n] le_iff_add by blast
  have len: "length (take ?total storage) = ?total" and ltext: "length ?text = n"
    using assms(2-5) by (simp_all add: sealed_len_pad16)
  have buf: "buf = put_slice (take ?total storage) 0 [ty, 0, 0, 0]"
    using assms(6) by (auto simp: write_type_def sealed_len_pad16 split: if_splits)
  then have lb: "length buf = ?total" "drop 16 buf = drop 16 (take ?total storage)"
    using len by (simp_all add: slice_simps drop_put_slice)
  let ?hdr = "set_fld (set_fld buf data_RECEIVER (to_le_bytes (s_remote_index sess))) data_COUNTER (to_le_bytes (n_send sess))"
  have h: "length ?hdr = ?total" "drop 16 ?hdr = take (pad16 n + 16) (?text @ rest)"
    using lb assms(1) by (simp_all add: set_fld_def data_ranges slice_simps drop_put_slice drop_take add.commute)
  have "drop 16 (stage_header sess n (pad16 n) buf) = put_slice (drop 16 ?hdr) n (replicate k 0)"
    using h(1) k by (simp add: stage_header_def Let_def put_slice_def drop_take ac_simps)
  also have "\<dots> = ?text @ replicate k 0 @ drop (n + k) (drop 16 ?hdr)"
    unfolding h(2) using ltext k by (simp add: put_slice_def)
  finally show ?thesis using ltext k assms(3,4) by (simp add: relay_plaintext_def Let_def)
qed

text \<open>
  A datagram wrapped for a relay opens to the datagram that was wrapped: what the cipher is given,
  under the key of the session with the relay, parses to the destination and the inner datagram.
\<close>

lemma wrapped_datagram_unwraps:
  assumes "run_state (wrap_and_seal E rpidx rsidx dst m now) c = (Inr (len, rekey), c')"
    "length dst = 32" "length (c_relay_scratch c) = MAX_UDP_SIZE" "m \<le> length (c_scratch c)" "inner_plausible (take m (c_scratch c))"
  shows "\<exists>sess plain buf ct k. slot_at c rsidx = Some (Established sess) \<and> can_send sess now \<and>
    aead_seal (e_crypto E) (t_send sess) (n_send sess) buf (length plain) RELAY_AEAD_AD = Inr (k, ct) \<and> take (length plain) buf = plain \<and>
    parse_envelope plain = Some \<lparr>env_destination = dst, env_inner = take m (c_scratch c)\<rparr>"
proof -
  let ?inner = "take m (c_scratch c)" and ?n = "ENVELOPE_HEADER_LEN + m"
  have inner: "length ?inner = m" using assms(4) by simp
  from assms(1) obtain c1 where staged: "run_state (stage_envelope dst ?inner) c = (Inr (), c1)"
    and sealed: "run_state (seal_transport E rpidx rsidx MSG_RELAY ?n True now) c1 = (Inr (len, rekey), c')"
    by (auto simp: wrap_and_seal_def run_simps split: prod.splits sum.splits)
  have fits: "PACKET_START + ENVELOPE_HEADER_LEN + length ?inner \<le> MAX_UDP_SIZE"
    using seal_total(2) [OF sealed] inner by (simp add: relay_limits MAX_UDP_SIZE_def)
  note env = staged_envelope [OF assms(2,3) fits staged refl]
  have same: "slot_at c1 = slot_at c" by (subst env(3)) (simp add: slot_at_def fun_eq_iff)
  from sealed show ?thesis
  proof (cases rule: seal_transport_cases)
    case (sealed peer sess buf ad k ct rk)
    let ?plain = "relay_plaintext dst ?inner"
    have opened: "take (pad16 ?n) (drop PACKET_START (stage_header sess ?n (pad16 ?n) buf)) = ?plain"
      using sealed(5) by (intro staged_plaintext [OF env(1,2) assms(2) _ sealed(4)]) (simp_all add: buffer_of_def min_absorb2 assms(4))
    have lp: "length ?plain = pad16 ?n" using length_relay_plaintext [OF assms(2), of ?inner] inner by simp
    have ad: "ad = RELAY_AEAD_AD" using sealed(6) by (simp add: transport_ad_def MSG_RELAY_def MSG_DATA_def)
    from sealed(2,3,7) opened lp parse_relay_plaintext [OF assms(2,5) env(4)] show ?thesis
      unfolding ad same pad16_def [symmetric]
      by (intro exI [of _ sess] exI [of _ ?plain] exI [of _ "drop PACKET_START (stage_header sess ?n (pad16 ?n) buf)"] exI [of _ ct] exI [of _ k])
        simp
  qed simp
qed

section \<open>The life of a session that sends\<close>

text \<open>
  One attempt to send on a session: \<open>seal_transport\<close> advances the session when it may send and
  leaves it alone otherwise.
\<close>

definition send_at :: "instant \<Rightarrow> session \<Rightarrow> session" where
  "send_at t s = (if can_send s t then snd (advance_session s t) else s)"

definition rekey_flagged :: "session \<Rightarrow> bool" where
  "rekey_flagged s \<longleftrightarrow> (REKEY_AFTER_MESSAGES \<le> n_send s \<longrightarrow> s_rekey_triggered s)"

lemma rekey_deadline_n_send [simp]: "rekey_deadline (s\<lparr>n_send := n\<rparr>) = rekey_deadline s"
  by (simp add: rekey_deadline_def)

lemma send_at_same [simp]:
  "s_created (send_at t s) = s_created s" "s_rekey_after (send_at t s) = s_rekey_after s" "s_role (send_at t s) = s_role s"
  "rekey_deadline (send_at t s) = rekey_deadline s"
  by (simp_all add: send_at_def advance_session_def Let_def rekey_deadline_def)

lemma sends_same [simp]:
  "s_created (fold send_at ts s) = s_created s" "s_rekey_after (fold send_at ts s) = s_rekey_after s"
  "s_role (fold send_at ts s) = s_role s" "rekey_deadline (fold send_at ts s) = rekey_deadline s"
  by (induction ts arbitrary: s) simp_all

lemma send_at_flagged: "rekey_flagged s \<Longrightarrow> rekey_flagged (send_at t s)"
  by (auto simp: rekey_flagged_def send_at_def advance_session_def Let_def)

lemma sends_flagged: "rekey_flagged s \<Longrightarrow> rekey_flagged (fold send_at ts s)"
  by (induction ts arbitrary: s) (simp_all add: send_at_flagged)

lemma can_send_counts:
  assumes "can_send s t"
  shows "unat (n_send s + 1) = unat (n_send s) + 1"
proof -
  have "unat (n_send s) < unat REJECT_AFTER_MESSAGES"
    using assms by (auto simp: can_send_def session_expired_def word_le_nat_alt not_le split: if_splits)
  then show ?thesis by (simp add: protocol_message_limits unat_word_ariths)
qed

lemma send_at_triggers:
  "s_rekey_triggered (send_at t s) \<Longrightarrow> \<not> s_rekey_triggered s \<Longrightarrow>
     REKEY_AFTER_MESSAGES \<le> n_send (send_at t s) \<or> s_role s = InitiatorRole \<and> rekey_deadline s \<le> t"
  by (auto simp: send_at_def advance_session_def Let_def split: if_splits)

lemma sends_trigger_only_when_due:
  assumes "s_rekey_triggered (fold send_at ts s)" "\<not> s_rekey_triggered s"
  shows "REKEY_AFTER_MESSAGES \<le> n_send (fold send_at ts s) \<or> s_role s = InitiatorRole \<and> (\<exists>t\<in>set ts. rekey_deadline s \<le> t)"
  using assms(1)
proof (induction ts rule: rev_induct)
  case (snoc t ts)
  let ?s = "fold send_at ts s"
  show ?case
  proof (cases "s_rekey_triggered ?s")
    case True
    have "n_send ?s \<le> n_send (send_at t ?s)"
      using can_send_counts [of ?s t] by (simp add: send_at_def advance_session_def Let_def word_le_nat_alt)
    with snoc.IH [OF True] show ?thesis by (auto intro: order_trans)
  next
    case False
    from send_at_triggers [OF _ this, of t] snoc.prems show ?thesis by auto
  qed
qed (use assms(2) in simp)

lemma rekey_deadline_jittered:
  assumes "s_rekey_after s = fst (rekey_after_time draw_u32 rng)" "unat (s_created s) + 180000 < 2 ^ 64"
  shows "unat (s_created s) + 110000 \<le> unat (rekey_deadline s)" "unat (rekey_deadline s) \<le> unat (s_created s) + 120000"
proof -
  let ?after = "s_rekey_after s"
  have "110000 \<le> unat ?after" "unat ?after \<le> 120000" unfolding assms(1) by (rule rekey_after_time_bounds)+
  moreover from this have "rekey_deadline s = instant_add (s_created s) ?after"
    by (simp add: rekey_deadline_def word_less_nat_alt)
  ultimately show "unat (s_created s) + 110000 \<le> unat (rekey_deadline s)" "unat (rekey_deadline s) \<le> unat (s_created s) + 120000"
    using assms(2) by (simp_all add: instant_add_def unat_sat_add)
qed

lemma session_expired_iff:
  "session_expired s now \<longleftrightarrow> unat (s_created s) + 180000 \<le> unat now \<or> REJECT_AFTER_MESSAGES \<le> n_send s"
  unfolding session_expired_def session_too_old_iff by simp

lemma message_limits_ordered: "REKEY_AFTER_MESSAGES \<le> REJECT_AFTER_MESSAGES"
  by (simp add: word_le_nat_alt protocol_message_limits)

section \<open>Properties\<close>

text \<open>
  C37: the size limits of the sending path are exact. The engine refuses an inner packet as too large exactly when it is
  longer than \<open>MAX_INNER_SIZE\<close>, or its peer is reached through a usable relay and it is longer than
  \<open>MAX_RELAY_INNER_IP_SIZE\<close>; \<open>seal_transport\<close> refuses exactly what does not fit a datagram of
  \<open>MAX_UDP_SIZE\<close> once padded and sealed, and these are the payloads longer than \<open>MAX_INNER_SIZE\<close>. A sealed datagram
  leaves room for the outer headers exactly when its payload is within \<open>RECOMMENDED_MAX_MTU\<close>. A sealed packet of \<open>n\<close> bytes
  that is then wrapped for a relay is never refused within \<open>MAX_RELAY_INNER_IP_SIZE\<close>, always beyond it, and leaves that room
  exactly within \<open>RECOMMENDED_MAX_RELAYED_MTU\<close>; the check against \<open>MAX_RELAY_INNER_SIZE\<close> decides the same.
\<close>

theorem size_budgets_exact:
  "(fst (run_state (encrypt_and_send E pidx sidx packet now) c) = Inl PacketTooLarge \<longleftrightarrow>
      MAX_INNER_SIZE < length packet \<or>
      (\<exists>peer key path. peer_at c pidx = Some peer \<and> pe_relay peer = Some key \<and>
         fst (run_state (relay_path E key now) c) = Inr path \<and> MAX_RELAY_INNER_IP_SIZE < length packet)) \<and>
   (fst (run_state (seal_transport E pidx sidx ty n relay now) c) = Inl PacketTooLarge \<longleftrightarrow> MAX_UDP_SIZE < pad16 n + DATA_OVERHEAD) \<and>
   (MAX_UDP_SIZE < pad16 n + DATA_OVERHEAD \<longleftrightarrow> MAX_INNER_SIZE < n) \<and>
   (case fst (run_state (seal_transport E pidx sidx ty n relay now) c) of
      Inr (len, _) \<Rightarrow> n \<le> MAX_INNER_SIZE \<and> len \<le> MAX_UDP_SIZE \<and>
        (len + OUTER_IPV6_UDP_OVERHEAD \<le> MAX_UDP_SIZE \<longleftrightarrow> n \<le> RECOMMENDED_MAX_MTU)
    | Inl _ \<Rightarrow> True) \<and>
   (case fst (run_state (wrap_and_seal E pidx sidx dst (pad16 n + DATA_OVERHEAD) now) c) of
      Inr (len, _) \<Rightarrow> n \<le> MAX_RELAY_INNER_IP_SIZE \<and> len \<le> MAX_UDP_SIZE \<and>
        (len + OUTER_IPV6_UDP_OVERHEAD \<le> MAX_UDP_SIZE \<longleftrightarrow> n \<le> RECOMMENDED_MAX_RELAYED_MTU)
    | Inl e \<Rightarrow> \<not> (e = PacketTooLarge \<and> n \<le> MAX_RELAY_INNER_IP_SIZE)) \<and>
   (MAX_RELAY_INNER_SIZE < pad16 n + DATA_OVERHEAD \<longleftrightarrow> MAX_RELAY_INNER_IP_SIZE < n)"
proof (intro conjI)
  show "MAX_UDP_SIZE < pad16 n + DATA_OVERHEAD \<longleftrightarrow> MAX_INNER_SIZE < n"
    "MAX_RELAY_INNER_SIZE < pad16 n + DATA_OVERHEAD \<longleftrightarrow> MAX_RELAY_INNER_IP_SIZE < n"
    "fst (run_state (seal_transport E pidx sidx ty n relay now) c) = Inl PacketTooLarge \<longleftrightarrow> MAX_UDP_SIZE < pad16 n + DATA_OVERHEAD"
    unfolding seal_too_large_iff by (simp_all only: not_le [symmetric] budgets)
  show "case fst (run_state (seal_transport E pidx sidx ty n relay now) c) of
      Inr (len, _) \<Rightarrow> n \<le> MAX_INNER_SIZE \<and> len \<le> MAX_UDP_SIZE \<and>
        (len + OUTER_IPV6_UDP_OVERHEAD \<le> MAX_UDP_SIZE \<longleftrightarrow> n \<le> RECOMMENDED_MAX_MTU)
    | Inl _ \<Rightarrow> True"
  proof (cases "run_state (seal_transport E pidx sidx ty n relay now) c" rule: sealed_result_cases)
    case (sealed len rekey c')
    with seal_total [OF sealed] show ?thesis by (simp only: fst_conv sum.case prod.case budgets simp_thms)
  qed simp
  show "case fst (run_state (wrap_and_seal E pidx sidx dst (pad16 n + DATA_OVERHEAD) now) c) of
      Inr (len, _) \<Rightarrow> n \<le> MAX_RELAY_INNER_IP_SIZE \<and> len \<le> MAX_UDP_SIZE \<and>
        (len + OUTER_IPV6_UDP_OVERHEAD \<le> MAX_UDP_SIZE \<longleftrightarrow> n \<le> RECOMMENDED_MAX_RELAYED_MTU)
    | Inl e \<Rightarrow> \<not> (e = PacketTooLarge \<and> n \<le> MAX_RELAY_INNER_IP_SIZE)"
  proof (cases "run_state (wrap_and_seal E pidx sidx dst (pad16 n + DATA_OVERHEAD) now) c" rule: sealed_result_cases)
    case (sealed len rekey c')
    with wrap_total [OF sealed] show ?thesis
      by (simp only: fst_conv sum.case prod.case budgets(4,5) envelope_budget simp_thms)
  next
    case (failed e c')
    have "e \<noteq> PacketTooLarge" if "n \<le> MAX_RELAY_INNER_IP_SIZE"
      using neverD [OF wrap_fits [OF that] failed] .
    then show ?thesis unfolding failed by auto
  qed
qed (rule send_too_large_iff)

text \<open>
  C40: the rekey of a session against the end of its life. Take a session as the handshake leaves it, with its jittered rekey
  age and confirmed, and let it send at any times. Its rekey deadline lies 60 to 70 seconds before the age limit: with messages left, the
  session is alive for 60 seconds from the deadline, and gone at the deadline plus \<open>REKEY_ATTEMPT_TIME\<close>. Once it has expired,
  by age or by the message limit, either a rekey was asked for or its deadline has passed; the counter cannot reach
  \<open>REKEY_AFTER_MESSAGES\<close> without asking for one; an initiator that sends at or after the deadline asks for one; and sending
  makes it ask for no other reason.
\<close>

theorem session_rekeys_before_reject:
  assumes "session_new words keys r ours theirs created = Some s0" "unat created + 180000 < 2 ^ 64"
    "s = fold send_at ts (s0\<lparr>s_rekey_after := fst (rekey_after_time draw_u32 rng), s_confirmed := True\<rparr>)"
  shows "60000 \<le> unat created + 180000 - unat (rekey_deadline s) \<and> unat created + 180000 - unat (rekey_deadline s) \<le> 70000 \<and>
    (unat now < unat (rekey_deadline s) + 60000 \<and> n_send s < REJECT_AFTER_MESSAGES \<longrightarrow> \<not> session_expired s now) \<and>
    session_expired s (instant_add (rekey_deadline s) REKEY_ATTEMPT_TIME) \<and>
    (session_expired s now \<longrightarrow> s_rekey_triggered s \<or> rekey_deadline s < now) \<and>
    (REKEY_AFTER_MESSAGES \<le> n_send s \<longrightarrow> s_rekey_triggered s) \<and>
    (r = InitiatorRole \<and> rekey_deadline s \<le> now \<longrightarrow> s_rekey_triggered (snd (advance_session s now))) \<and>
    (s_rekey_triggered s \<longrightarrow> REKEY_AFTER_MESSAGES \<le> n_send s \<or> r = InitiatorRole \<and> (\<exists>t\<in>set ts. rekey_deadline s \<le> t))"
proof -
  let ?s = "s0\<lparr>s_rekey_after := fst (rekey_after_time draw_u32 rng), s_confirmed := True\<rparr>"
  have fresh: "s_created s = created" "s_role s = r" "s_rekey_after s = fst (rekey_after_time draw_u32 rng)"
    "s_role ?s = r" "\<not> s_rekey_triggered ?s" "rekey_deadline s = rekey_deadline ?s" "rekey_flagged ?s"
    using assms(1) unfolding assms(3) by (auto simp: session_new_def rekey_flagged_def word_le_nat_alt protocol_message_limits)
  have margin: "unat created + 110000 \<le> unat (rekey_deadline s)" "unat (rekey_deadline s) \<le> unat created + 120000"
    using rekey_deadline_jittered [OF fresh(3)] assms(2) fresh(1) by simp_all
  have flagged: "REKEY_AFTER_MESSAGES \<le> n_send s \<longrightarrow> s_rekey_triggered s"
    using sends_flagged [OF fresh(7), of ts] unfolding assms(3) rekey_flagged_def .
  have "unat created + 180000 \<le> unat (instant_add (rekey_deadline s) REKEY_ATTEMPT_TIME)"
    using margin assms(2) by (simp add: instant_add_def unat_sat_add)
  then have gone: "session_expired s (instant_add (rekey_deadline s) REKEY_ATTEMPT_TIME)"
    by (simp add: session_expired_iff fresh(1))
  have due: "s_rekey_triggered (snd (advance_session s now))" if "r = InitiatorRole" "rekey_deadline s \<le> now"
    using that fresh(2) by (simp add: advance_session_def Let_def)
  have asked: "s_rekey_triggered s \<or> rekey_deadline s < now" if "session_expired s now"
    using that flagged margin(2) message_limits_ordered unfolding session_expired_iff fresh(1)
    by (auto simp: word_less_nat_alt)
  have alive: "\<not> session_expired s now" if "unat now < unat (rekey_deadline s) + 60000" "n_send s < REJECT_AFTER_MESSAGES"
    using that margin(2) unfolding session_expired_iff fresh(1) by (simp add: not_le)
  have early: "REKEY_AFTER_MESSAGES \<le> n_send s \<or> r = InitiatorRole \<and> (\<exists>t\<in>set ts. rekey_deadline s \<le> t)" if "s_rekey_triggered s"
    using sends_trigger_only_when_due [OF that [unfolded assms(3)] fresh(5)] unfolding fresh(4) fresh(6) assms(3) [symmetric] .
  have "60000 \<le> unat created + 180000 - unat (rekey_deadline s)" "unat created + 180000 - unat (rekey_deadline s) \<le> 70000"
    using margin by linarith+
  with gone flagged due asked alive early show ?thesis by blast
qed

text \<open>A session between two demo keys, established at time zero with the smallest draw of the generator.\<close>

definition demo_established :: session where
  "demo_established =
     \<lparr>s_peer = 0, t_send = replicate 32 1, t_recv = replicate 32 2, n_send = 0,
      s_replay = \<lparr>rw_bitmap = [0, 0], rw_top = None\<rparr>, s_local_index = 7, s_remote_index = 9, s_role = InitiatorRole,
      s_created = 0, s_rekey_after = REKEY_AFTER_TIME, s_confirmed = True, s_rekey_triggered = False\<rparr>"

lemma demo_established_new:
  "session_new 2 \<lparr>tk_send = replicate 32 1, tk_recv = replicate 32 2\<rparr> InitiatorRole 7 9 0 = Some demo_established"
  by (simp add: session_new_def demo_established_def replay_new_def numeral_2_eq_2)

definition demo_aged :: session where
  "demo_aged = fold send_at [5000, 130000]
     (demo_established\<lparr>s_rekey_after := fst (rekey_after_time (\<lambda>r. (r, r + 1)) (0 :: u32)), s_confirmed := True\<rparr>)"

theorem session_rekeys_before_reject_witness:
  "session_new 2 \<lparr>tk_send = replicate 32 1, tk_recv = replicate 32 2\<rparr> InitiatorRole 7 9 0 = Some demo_established \<and>
   60000 \<le> 180000 - unat (rekey_deadline demo_aged) \<and> 180000 - unat (rekey_deadline demo_aged) \<le> 70000 \<and>
   session_expired demo_aged (instant_add (rekey_deadline demo_aged) REKEY_ATTEMPT_TIME)"
  using session_rekeys_before_reject [OF demo_established_new _ demo_aged_def] demo_established_new by simp

end
