(* ===== verification/Resolver_Queue.thy ===== *)
theory Resolver_Queue
  imports Core_Tables
begin

text \<open>
  The resolver's bookkeeping (\<open>microtun-core/src/resolver.rs\<close>): the table of in-flight lookups
  and negative markers, the obligations to reconcile held records, the ghosts of evicted peers, and
  the delivery of queued output to the sink. Authenticated initiations of unknown peers parked
  behind a lookup (\<open>lib.rs\<close>) are here too. The answers are in \<open>Resolver_Answers\<close>.
\<close>

section \<open>The resolve table\<close>

definition swap_remove :: "'a list \<Rightarrow> usize \<Rightarrow> 'a list" where
  "swap_remove xs i = butlast (xs[i := List.last xs])"

text \<open>
  The loop of \<open>alloc_resolve_id\<close> from a candidate. A table of \<open>n\<close> entries can reject at most
  \<open>n\<close> candidates in a row, so its length is fuel enough.
\<close>

primrec next_free_id :: "nat \<Rightarrow> inflight_resolve list \<Rightarrow> u64 \<Rightarrow> u64" where
  "next_free_id 0 rs candidate = candidate"
| "next_free_id (Suc fuel) rs candidate =
     (if list_ex (\<lambda>r. ir_id r = candidate) rs then next_free_id fuel rs (candidate + 1) else candidate)"

definition alloc_resolve_id :: "('r, 'p, resolve_id) action" where
  "alloc_resolve_id = do {
     c \<leftarrow> peek;
     let rid = next_free_id (length (c_resolves c)) (c_resolves c) (c_next_resolve_id c);
     modify (c_next_resolve_id_update (\<lambda>_. rid + 1));
     ret rid }"

definition resolve_suppressed :: "('r, 'p) core \<Rightarrow> resolve_query \<Rightarrow> instant \<Rightarrow> bool" where
  "resolve_suppressed c query now =
     list_ex (\<lambda>r. ir_query r = query \<and> (case ir_kind r of KindNegative \<Rightarrow> ir_deadline r > now | _ \<Rightarrow> True)) (c_resolves c)"

definition try_push_resolve :: "inflight_resolve \<Rightarrow> ('r, 'p, unit) fallible" where
  "try_push_resolve entry = do {
     c \<leftarrow> peek;
     if length (c_resolves c) \<ge> max_inflight_resolves (c_config c) then err ResolverBusy
     else if length (c_resolves c) \<ge> MAX_INFLIGHT_RESOLVES then err ResolverBusy
     else do {
       modify (c_resolves_update (\<lambda>rs. rs @ [entry]));
       arm_timer (ir_deadline entry);
       ok () } }"

definition negative_victim :: "inflight_resolve list \<Rightarrow> usize option" where
  "negative_victim rs =
     min_by (\<lambda>i. ir_deadline (rs ! i)) (filter (\<lambda>i. ir_kind (rs ! i) = KindNegative) [0..<length rs])"

definition push_resolve :: "inflight_resolve \<Rightarrow> ('r, 'p, unit) fallible" where
  "push_resolve entry = do {
     pushed \<leftarrow> try_push_resolve entry;
     case pushed of
       Inr _ \<Rightarrow> ok ()
     | Inl _ \<Rightarrow> do {
         c \<leftarrow> peek;
         case negative_victim (c_resolves c) of
           None \<Rightarrow> err ResolverBusy
         | Some index \<Rightarrow> do {
             modify (c_resolves_update (\<lambda>rs. swap_remove rs index));
             try_push_resolve entry } } }"

definition mark_negative :: "resolve_query \<Rightarrow> instant \<Rightarrow> ('r, 'p, unit) action" where
  "mark_negative query now = do {
     modify (c_resolves_update (filter (\<lambda>r. ir_query r \<noteq> query)));
     rid \<leftarrow> alloc_resolve_id;
     c \<leftarrow> peek;
     _ \<leftarrow> try_push_resolve \<lparr>ir_id = rid, ir_query = query, ir_kind = KindNegative,
            ir_deadline = instant_add now (negative_ttl (c_config c)), ir_emitted = True\<rparr>;
     ret () }"

definition clear_negative :: "resolve_query \<Rightarrow> ('r, 'p, unit) action" where
  "clear_negative query =
     modify (c_resolves_update (filter (\<lambda>r. \<not> (ir_kind r = KindNegative \<and> ir_query r = query))))"

section \<open>Ghosts of evicted peers\<close>

definition ghost_limit :: "('r, 'p) core \<Rightarrow> usize" where
  "ghost_limit c = min (peer_eviction_ghost_entries (c_config c)) (length (c_ghosts c))"

definition peer_is_ghosted :: "bytes \<Rightarrow> instant \<Rightarrow> ('r, 'p, bool) action" where
  "peer_is_ghosted key now = do {
     c \<leftarrow> peek;
     let limit = ghost_limit c;
     let expire = (\<lambda>g. case g of Some entry \<Rightarrow> if gh_expires entry \<le> now then None else g | None \<Rightarrow> None);
     let ghosts = map expire (take limit (c_ghosts c)) @ drop limit (c_ghosts c);
     modify (c_ghosts_update (\<lambda>_. ghosts));
     ret (list_ex (\<lambda>g. case g of Some entry \<Rightarrow> gh_public_key entry = key | None \<Rightarrow> False) (take limit ghosts)) }"

text \<open>The last loop of \<open>remember_evicted_peer\<close>: the entry that expires first, the earliest on a tie.\<close>

definition ghost_victim :: "evicted_peer_ghost option list \<Rightarrow> usize \<Rightarrow> instant \<Rightarrow> usize" where
  "ghost_victim ghosts limit now =
     (let expiry = (\<lambda>i. case ghosts ! i of Some entry \<Rightarrow> gh_expires entry | None \<Rightarrow> now)
      in fold (\<lambda>i victim. if expiry i < expiry victim then i else victim) [1..<limit] 0)"

definition remember_evicted_peer :: "bytes \<Rightarrow> instant \<Rightarrow> ('r, 'p, unit) action" where
  "remember_evicted_peer key now = modify (\<lambda>c.
     let limit = ghost_limit c; ttl = peer_eviction_ghost_ttl (c_config c);
         ghost = Some \<lparr>gh_public_key = key, gh_expires = instant_add now ttl\<rparr>;
         active = take limit (c_ghosts c)
     in if limit = 0 \<or> ttl = 0 then c
        else
          let index = (case position (\<lambda>g. case g of Some entry \<Rightarrow> gh_public_key entry = key | None \<Rightarrow> False) active of
                         Some i \<Rightarrow> i
                       | None \<Rightarrow>
                           (case position (\<lambda>g. case g of Some entry \<Rightarrow> gh_expires entry \<le> now | None \<Rightarrow> True) active of
                              Some i \<Rightarrow> i
                            | None \<Rightarrow> ghost_victim (c_ghosts c) limit now))
          in c\<lparr>c_ghosts := (c_ghosts c)[index := ghost]\<rparr>)"

section \<open>Parked initiations of unknown peers\<close>

definition initiation_of :: "resolve_id \<Rightarrow> pending_initiation option \<Rightarrow> bool" where
  "initiation_of rid slot = (case slot of Some pending \<Rightarrow> pi_resolve_id pending = rid | None \<Rightarrow> False)"

definition park_pending_initiation :: "resolve_id \<Rightarrow> socket_addr \<Rightarrow> consumed_initiation \<Rightarrow> ('r, 'p, bool) action" where
  "park_pending_initiation rid src consumed = do {
     c \<leftarrow> peek;
     let parked = Some \<lparr>pi_resolve_id = rid, pi_src = src, pi_consumed = consumed\<rparr>;
     case position (initiation_of rid) (c_initiations c) of
       Some i \<Rightarrow> do {
         (if (case c_initiations c ! i of
                Some pending \<Rightarrow> be_value (ci_timestamp consumed) > be_value (ci_timestamp (pi_consumed pending))
              | None \<Rightarrow> False)
          then modify (c_initiations_update (\<lambda>xs. xs[i := parked]))
          else ret ());
         ret True }
     | None \<Rightarrow>
         (case position (\<lambda>slot. slot = None) (c_initiations c) of
            None \<Rightarrow> ret False
          | Some i \<Rightarrow> do { modify (c_initiations_update (\<lambda>xs. xs[i := parked])); ret True }) }"

definition take_pending_initiation :: "resolve_id \<Rightarrow> ('r, 'p, pending_initiation option) action" where
  "take_pending_initiation rid = do {
     c \<leftarrow> peek;
     case position (initiation_of rid) (c_initiations c) of
       None \<Rightarrow> ret None
     | Some i \<Rightarrow> do {
         modify (c_initiations_update (\<lambda>xs. xs[i := None]));
         ret (c_initiations c ! i) } }"

definition drop_pending_initiation :: "resolve_id \<Rightarrow> ('r, 'p, unit) action" where
  "drop_pending_initiation rid = do { _ \<leftarrow> take_pending_initiation rid; ret () }"

section \<open>Lookups provoked by remote input\<close>

definition queue_peer_install :: "bytes \<Rightarrow> install_source \<Rightarrow> instant \<Rightarrow> ('r, 'p, resolve_id option) action" where
  "queue_peer_install key source now = do {
     c \<leftarrow> peek;
     if resolve_suppressed c (ByPublicKey key) now then ret None
     else do {
       granted \<leftarrow> zoom c_remote_resolves (\<lambda>b. c_remote_resolves_update (\<lambda>_. b)) (\<lambda>b. bucket_try_take b now);
       if \<not> granted then ret None
       else do {
         rid \<leftarrow> alloc_resolve_id;
         pushed \<leftarrow> push_resolve \<lparr>ir_id = rid, ir_query = ByPublicKey key, ir_kind = KindInstall source,
                     ir_deadline = instant_add now (resolve_timeout (c_config c)), ir_emitted = False\<rparr>;
         ret (case pushed of Inr _ \<Rightarrow> Some rid | Inl _ \<Rightarrow> None) } } }"

definition request_peer_install :: "bytes \<Rightarrow> instant \<Rightarrow> ('r, 'p, resolve_id option) action" where
  "request_peer_install key now = do {
     ghosted \<leftarrow> peer_is_ghosted key now;
     if ghosted then ret None else queue_peer_install key SourceInitiator now }"

definition authenticated_initiator_resolve_id :: "('r, 'p) core \<Rightarrow> bytes \<Rightarrow> instant \<Rightarrow> resolve_id option" where
  "authenticated_initiator_resolve_id c key now =
     map_option ir_id (List.find (\<lambda>r. ir_query r = ByPublicKey key \<and> ir_deadline r > now
        \<and> ir_kind r = KindInstall SourceInitiator) (c_resolves c))"

definition request_relay_peer_install :: "peer_idx \<Rightarrow> bytes \<Rightarrow> instant \<Rightarrow> ('r, 'p, unit) action" where
  "request_relay_peer_install submitter key now = do {
     c \<leftarrow> peek;
     if resolve_suppressed c (ByPublicKey key) now then ret ()
     else do {
       ghosted \<leftarrow> peer_is_ghosted key now;
       if ghosted then ret ()
       else if length (filter (\<lambda>p. p = None) (c_peers c)) \<le> lazy_peer_reserve (c_config c) then ret ()
       else do {
         let interval = relay_resolve_min_interval (c_config c);
         if interval = 0 then do { _ \<leftarrow> queue_peer_install key SourceRelay now; ret () }
         else (case peer_at c submitter of
             None \<Rightarrow> ret ()
           | Some peer \<Rightarrow>
               if (case last_relay_resolve peer of Some at \<Rightarrow> saturating_since now at < interval | None \<Rightarrow> False)
               then ret ()
               else do {
                 modify (upd_peer submitter (last_relay_resolve_update (\<lambda>_. Some now)));
                 _ \<leftarrow> queue_peer_install key SourceRelay now;
                 ret () }) } } }"

section \<open>Lookups for outbound packets\<close>

definition queue_outbound_resolution :: "ip_addr \<Rightarrow> bytes \<Rightarrow> instant \<Rightarrow> ('r, 'p, unit) fallible" where
  "queue_outbound_resolution dst packet now = do {
     c \<leftarrow> peek;
     let query = ByDstAddress dst;
     let deadline = instant_add now (resolve_outbound_timeout (c_config c));
     let fresh = (\<lambda>rid. \<lparr>ir_id = rid, ir_query = query, ir_kind = KindOutbound, ir_deadline = deadline, ir_emitted = False\<rparr>);
     let park_behind = (\<lambda>rid. do {
           _ \<leftarrow> zoom c_pending (\<lambda>p. c_pending_update (\<lambda>_. p)) (\<lambda>pool. park pool packet (WaitResolve rid) deadline);
           arm_timer deadline;
           ok () });
     case position (\<lambda>r. ir_query r = query) (c_resolves c) of
       Some pos \<Rightarrow>
         (let existing = c_resolves c ! pos
          in if ir_kind existing = KindNegative
             then if ir_deadline existing > now then ok ()
             else do {
               rid \<leftarrow> alloc_resolve_id;
               modify (c_resolves_update (\<lambda>rs. rs[pos := fresh rid]));
               park_behind rid }
             else park_behind (ir_id existing))
     | None \<Rightarrow> do {
         rid \<leftarrow> alloc_resolve_id;
         pushed \<leftarrow> push_resolve (fresh rid);
         case pushed of
           Inl _ \<Rightarrow> err ResolverBusy
         | Inr _ \<Rightarrow> park_behind rid } }"

section \<open>Obligations to reconcile\<close>

definition push_reconcile :: "('r, 'p) env \<Rightarrow> pending_reconcile \<Rightarrow> ('r, 'p, unit) fallible" where
  "push_reconcile E pending = do {
     c \<leftarrow> peek;
     if length (c_reconciles c) \<ge> MAX_PEERS E then err ResolverBusy
     else do { modify (c_reconciles_update (\<lambda>xs. xs @ [pending])); ok () } }"

definition queue_reconcile :: "('r, 'p) env \<Rightarrow> bytes \<Rightarrow> instant \<Rightarrow> ('r, 'p, unit) action" where
  "queue_reconcile E key now = do {
     c \<leftarrow> peek;
     let due = instant_add now (negative_ttl (c_config c));
     case position (\<lambda>p. pr_public_key p = key) (c_reconciles c) of
       Some i \<Rightarrow> do {
         let kept = min due (pr_due (c_reconciles c ! i));
         modify (c_reconciles_update (\<lambda>xs. xs[i := (xs ! i)\<lparr>pr_due := kept\<rparr>]));
         arm_timer kept }
     | None \<Rightarrow> do {
         pushed \<leftarrow> push_reconcile E \<lparr>pr_public_key = key, pr_due = due\<rparr>;
         case pushed of
           Inl _ \<Rightarrow> ret ()
         | Inr _ \<Rightarrow> arm_timer due } }"

definition forget_reconcile :: "bytes \<Rightarrow> ('r, 'p, unit) action" where
  "forget_reconcile key = modify (c_reconciles_update (filter (\<lambda>p. pr_public_key p \<noteq> key)))"

definition defer_reconcile :: "usize \<Rightarrow> instant \<Rightarrow> ('r, 'p, unit) action" where
  "defer_reconcile index now = do {
     c \<leftarrow> peek;
     let due = instant_add now (negative_ttl (c_config c));
     modify (c_reconciles_update (\<lambda>xs. if index < length xs then xs[index := (xs ! index)\<lparr>pr_due := due\<rparr>] else xs));
     arm_timer due }"

definition promote_due_reconcile :: "instant \<Rightarrow> ('r, 'p, bool) action" where
  "promote_due_reconcile now = do {
     c \<leftarrow> peek;
     case position (\<lambda>p. pr_due p \<le> now) (c_reconciles c) of
       None \<Rightarrow> ret False
     | Some index \<Rightarrow> do {
         let pending = c_reconciles c ! index;
         let query = ByPublicKey (pr_public_key pending);
         if find_peer c (pr_public_key pending) = None
         then do { modify (c_reconciles_update (\<lambda>xs. swap_remove xs index)); ret True }
         else if resolve_suppressed c query now
         then do { defer_reconcile index now; ret True }
         else do {
           rid \<leftarrow> alloc_resolve_id;
           pushed \<leftarrow> push_resolve \<lparr>ir_id = rid, ir_query = query, ir_kind = KindReconcile,
                       ir_deadline = instant_add now (resolve_timeout (c_config c)), ir_emitted = False\<rparr>;
           case pushed of
             Inl _ \<Rightarrow> do { defer_reconcile index now; ret True }
           | Inr _ \<Rightarrow> do { modify (c_reconciles_update (\<lambda>xs. swap_remove xs index)); ret True } } } }"

section \<open>Expiry and output\<close>

definition drop_parked :: "wait \<Rightarrow> ('r, 'p, unit) action" where
  "drop_parked w = modify (c_pending_update (drop_if (\<lambda>p. pp_wait p = w)))"

definition expire_one_resolve :: "('r, 'p) env \<Rightarrow> instant \<Rightarrow> ('r, 'p, bool) action" where
  "expire_one_resolve E now = do {
     c \<leftarrow> peek;
     case position (\<lambda>r. ir_deadline r \<le> now) (c_resolves c) of
       None \<Rightarrow> ret False
     | Some pos \<Rightarrow> do {
         let entry = c_resolves c ! pos;
         modify (c_resolves_update (\<lambda>rs. swap_remove rs pos));
         (case ir_kind entry of
            KindOutbound \<Rightarrow> drop_parked (WaitResolve (ir_id entry))
          | KindInstall source \<Rightarrow>
              if source = SourceInitiator then drop_pending_initiation (ir_id entry) else ret ()
          | KindReconcile \<Rightarrow>
              (case ir_query entry of
                 ByPublicKey key \<Rightarrow> if find_peer c key \<noteq> None then queue_reconcile E key now else ret ()
               | ByDstAddress _ \<Rightarrow> ret ())
          | KindNegative \<Rightarrow> ret ());
         ret True } }"

definition queue_peer_evicted :: "('r, 'p) env \<Rightarrow> bytes \<Rightarrow> ('r, 'p, unit) action" where
  "queue_peer_evicted E key = modify (\<lambda>c.
     if key \<in> set (c_evictions c) \<or> length (c_evictions c) \<ge> MAX_PEERS E then c
     else c\<lparr>c_evictions := c_evictions c @ [key]\<rparr>)"

definition discard_answer :: "('r, 'p) env \<Rightarrow> bytes \<Rightarrow> ('r, 'p, unit) action" where
  "discard_answer E key = queue_peer_evicted E key"

text \<open>
  The second loop of \<open>flush_sink_output\<close>: each round offers the first unemitted entry and marks it,
  so there are at most as many rounds as entries.
\<close>

primrec offer_resolves :: "nat \<Rightarrow> ('r, 'p) env \<Rightarrow> ('r, 'p, unit) action" where
  "offer_resolves 0 E = ret ()"
| "offer_resolves (Suc fuel) E = do {
     c \<leftarrow> peek;
     case position (\<lambda>r. \<not> ir_emitted r) (c_resolves c) of
       None \<Rightarrow> ret ()
     | Some pos \<Rightarrow> do {
         let pending = c_resolves c ! pos;
         let request = \<lparr>rq_id = ir_id pending, rq_query = ir_query pending\<rparr>;
         let accepted = e_accepts E (c_sink c) request;
         emit (ResolveRequested request accepted);
         if \<not> accepted then ret ()
         else do {
           modify (c_resolves_update (\<lambda>rs. rs[pos := pending\<lparr>ir_emitted := True\<rparr>]));
           offer_resolves fuel E } } }"

definition flush_sink_output :: "('r, 'p) env \<Rightarrow> ('r, 'p, unit) action" where
  "flush_sink_output E = do {
     modify (\<lambda>c. c\<lparr>c_sink := c_sink c @ map (\<lambda>key. EventEmitted (PeerEvicted key)) (rev (c_evictions c)),
                   c_evictions := []\<rparr>);
     c \<leftarrow> peek;
     offer_resolves (length (c_resolves c)) E }"

section \<open>Fresh identifiers\<close>

text \<open>The fuel of \<open>next_free_id\<close> is enough: a taken result would mean one more identifier in use than there are entries.\<close>

lemma next_free_id_taken:
  assumes "next_free_id fuel rs candidate \<in> ir_id ` set rs" "i \<le> fuel"
  shows "candidate + word_of_nat i \<in> ir_id ` set rs"
  using assms
proof (induction fuel arbitrary: candidate i)
  case (Suc fuel)
  then have taken: "candidate \<in> ir_id ` set rs" "next_free_id fuel rs (candidate + 1) \<in> ir_id ` set rs"
    by (auto simp: list_ex_iff split: if_splits)
  show ?case
  proof (cases i)
    case (Suc j)
    with Suc.IH [OF taken(2), of j] Suc.prems(2) show ?thesis by (simp add: ac_simps)
  qed (use taken(1) in simp)
qed simp

lemma next_free_id_fresh:
  assumes "length rs < 2 ^ 64"
  shows "next_free_id (length rs) rs candidate \<notin> ir_id ` set rs"
proof
  assume taken: "next_free_id (length rs) rs candidate \<in> ir_id ` set rs"
  let ?ids = "(\<lambda>i. candidate + word_of_nat i) ` {..length rs}"
  have "inj_on (\<lambda>i. candidate + word_of_nat i) {..length rs}"
    using assms by (intro inj_onI) (auto dest!: arg_cong [where f = unat] simp: unat_of_nat)
  then have "card ?ids = Suc (length rs)" by (simp add: card_image)
  moreover have "?ids \<subseteq> ir_id ` set rs" using next_free_id_taken [OF taken] by auto
  then have "card ?ids \<le> card (ir_id ` set rs)" by (intro card_mono) simp_all
  moreover have "card (ir_id ` set rs) \<le> length rs" using card_image_le [of "set rs" ir_id] card_length [of rs] by simp
  ultimately show False by simp
qed

end
