(* ===== verification/Core_Receive.thy ===== *)
theory Core_Receive
  imports Core_Transport Resolver_Queue
begin

text \<open>
  The receiving half of the engine (\<open>microtun-core/src/lib.rs\<close>): handshake initiations,
  responses and cookie replies, transport data with cryptokey routing and the inbound firewall, and
  relay forwarding.
\<close>

section \<open>Handshake initiations\<close>

text \<open>\<open>SocketAddr::ip\<close>.\<close>

fun sock_ip :: "socket_addr \<Rightarrow> ip_addr" where
  "sock_ip (SockV4 a _) = IpV4 a"
| "sock_ip (SockV6 a _ _ _) = IpV6 a"

text \<open>\<open>PendingPool::take_if\<close> for one awaited event.\<close>

definition take_parked :: "wait \<Rightarrow> ('r, 'p, pending_packet option) action" where
  "take_parked w = zoom c_pending (\<lambda>p. c_pending_update (\<lambda>_. p)) (take_if (\<lambda>p. pp_wait p = w))"

definition check_mac2_or_reply :: "('r, 'p) env \<Rightarrow> instant \<Rightarrow> socket_addr \<Rightarrow> bytes \<Rightarrow> bytes \<Rightarrow> ('r, 'p, bool) action" where
  "check_mac2_or_reply E now src data mac1 = do {
     c \<leftarrow> peek;
     secret \<leftarrow> draw (\<lambda>rng. cookie_refresh (e_crypto E) (c_cookie_secret c) rng now);
     modify (c_cookie_secret_update (\<lambda>_. secret));
     if verify_mac2 (e_crypto E) secret data src
     then zoom c_rate (\<lambda>rl. c_rate_update (\<lambda>_. rl)) (\<lambda>rl. limiter_allow rl (sock_ip src) now)
     else do {
       let sender = (case (if get_at data 0 = Some MSG_INITIATION
                           then get_range data (fst init_SENDER) (snd init_SENDER)
                           else get_range data (fst resp_SENDER) (snd resp_SENDER)) of
                       Some bs \<Rightarrow> read_u32_le bs
                     | None \<Rightarrow> None);
       case sender of
         None \<Rightarrow> ret False
       | Some sender \<Rightarrow> do {
           reply \<leftarrow> draw (\<lambda>rng. create_cookie_reply (e_crypto E) rng secret (c_cookie_key c) sender src mac1
                       (replicate COOKIE_REPLY_LEN 0));
           (case reply of
              Inr msg \<Rightarrow> emit (OuterDatagram src msg)
            | Inl _ \<Rightarrow> ret ());
           ret False } } }"

text \<open>
  The two tails of \<open>respond_to_initiation\<close>: giving the slot back after a failure when it is not an
  existing session's, and the commit once every fallible step has succeeded.
\<close>

definition abandon_response :: "slot_idx \<Rightarrow> bool \<Rightarrow> error \<Rightarrow> ('r, 'p, unit) fallible" where
  "abandon_response sidx fresh e =
     (if fresh then and_then (free_slot sidx) (\<lambda>_. err e) else err e)"

definition adopt_response :: "slot_idx \<Rightarrow> bytes \<Rightarrow> instant \<Rightarrow> peer_entry \<Rightarrow> peer_entry" where
  "adopt_response sidx mac1 now p =
     p\<lparr>last_mac1 := Some mac1, pe_sessions := commit_responder_install (pe_sessions p) sidx, latest_handshake := Some now\<rparr>"

definition observe_source :: "peer_idx \<Rightarrow> socket_addr \<Rightarrow> instant \<Rightarrow> ('r, 'p, unit) action" where
  "observe_source pidx src now = do {
     c \<leftarrow> peek;
     case peer_at c pidx of
       None \<Rightarrow> ret ()
     | Some peer \<Rightarrow> do {
         let (observed, peer) = observe_direct_endpoint peer src now;
         modify (put_peer pidx (peer\<lparr>last_activity := now\<rparr>));
         if observed then emit (EventEmitted (PeerEndpointUpdate (pe_public_key peer) src)) else ret () } }"

definition install_response ::
  "('r, 'p) env \<Rightarrow> peer_idx \<Rightarrow> slot_idx \<Rightarrow> session \<Rightarrow> bytes \<Rightarrow> bytes \<Rightarrow> socket_addr \<Rightarrow> instant \<Rightarrow> ('r, 'p, unit) fallible" where
  "install_response E pidx sidx sess mac1 msg src now = do {
     c \<leftarrow> peek;
     case peer_at c pidx of
       None \<Rightarrow> err InternalInvariant
     | Some peer \<Rightarrow>
         and_then (lift (validate_responder_install (pe_sessions peer) sidx)) (\<lambda>_.
         case slot_at c sidx of
           None \<Rightarrow> err InternalInvariant
         | Some slot \<Rightarrow>
             and_then (case local_index slot of
                         Some old_index \<Rightarrow> on_indices (\<lambda>m. index_replace m old_index (s_local_index sess) sidx)
                       | None \<Rightarrow> on_indices (\<lambda>m. index_insert m (s_local_index sess) sidx)) (\<lambda>_. do {
               modify (put_slot sidx (Established sess));
               arm_timer (instant_add now REJECT_AFTER_TIME);
               modify (upd_peer pidx (adopt_response sidx mac1 now));
               observe_source pidx src now;
               _ \<leftarrow> transmit_wire E pidx (Some src) msg now;
               ok () })) }"

text \<open>The middle of \<open>respond_to_initiation\<close>, from the choice of the receiver index to the commit.\<close>

definition prepare_response ::
  "('r, 'p) env \<Rightarrow> peer_idx \<Rightarrow> slot_idx \<Rightarrow> bool \<Rightarrow> consumed_initiation \<Rightarrow> socket_addr \<Rightarrow> instant \<Rightarrow> ('r, 'p, unit) fallible" where
  "prepare_response E pidx sidx fresh consumed src now = do {
     c \<leftarrow> peek;
     drawn \<leftarrow> draw (random_unused (next_u32 (e_crypto E)) (c_indices c));
     case drawn of
       Inl e \<Rightarrow> abandon_response sidx fresh e
     | Inr index \<Rightarrow> do {
         created \<leftarrow> draw (\<lambda>rng. create_response (e_crypto E) rng consumed index (replicate RESPONSE_LEN 0));
         case created of
           Inl e \<Rightarrow> abandon_response sidx fresh e
         | Inr (keys, msg) \<Rightarrow>
             (case peer_at c pidx of
                None \<Rightarrow> abandon_response sidx fresh InternalInvariant
              | Some peer \<Rightarrow>
                  (case apply_macs (e_crypto E) msg (ci_s_pub_i consumed) (pe_cookie peer) now of
                     Inl e \<Rightarrow> abandon_response sidx fresh e
                   | Inr (mac1, msg) \<Rightarrow>
                       (case session_new (REPLAY_WORDS E) keys ResponderRole index (ci_sender consumed) now of
                          None \<Rightarrow> do { modify (c_panicked_update (\<lambda>_. True)); ok () }
                        | Some sess \<Rightarrow> do {
                            rekey_after \<leftarrow> draw (rekey_after_time (next_u32 (e_crypto E)));
                            install_response E pidx sidx (sess\<lparr>s_peer := pidx, s_rekey_after := rekey_after\<rparr>)
                              mac1 msg src now }))) } }"

definition respond_to_initiation ::
  "('r, 'p) env \<Rightarrow> peer_idx \<Rightarrow> consumed_initiation \<Rightarrow> socket_addr \<Rightarrow> instant \<Rightarrow> ('r, 'p, unit) fallible" where
  "respond_to_initiation E pidx consumed src now = do {
     c \<leftarrow> peek;
     case peer_at c pidx of
       None \<Rightarrow> err InternalInvariant
     | Some peer \<Rightarrow>
         (case ps_next (pe_sessions peer) of
            Some sidx \<Rightarrow> prepare_response E pidx sidx False consumed src now
          | None \<Rightarrow> and_then (alloc_slot now) (\<lambda>slot.
              case slot of
                None \<Rightarrow> ok ()
              | Some sidx \<Rightarrow> prepare_response E pidx sidx True consumed src now)) }"

definition accept_authenticated_initiation ::
  "('r, 'p) env \<Rightarrow> peer_idx \<Rightarrow> consumed_initiation \<Rightarrow> socket_addr \<Rightarrow> instant \<Rightarrow> ('r, 'p, unit) fallible" where
  "accept_authenticated_initiation E pidx consumed src now = do {
     c \<leftarrow> peek;
     case peer_at c pidx of
       None \<Rightarrow> ok ()
     | Some peer \<Rightarrow>
         if be_value (ci_timestamp consumed) \<le> be_value (greatest_ts peer) then ok ()
         else if (case last_initiation_consumption peer of
                    Some at \<Rightarrow> saturating_since now at \<le> HANDSHAKE_INITIATION_MIN_INTERVAL
                  | None \<Rightarrow> False) then ok ()
         else do {
           modify (upd_peer pidx (\<lambda>p. p\<lparr>greatest_ts := ci_timestamp consumed, last_initiation_consumption := Some now\<rparr>));
           respond_to_initiation E pidx consumed src now } }"

text \<open>The load gate shared by initiations and responses.\<close>

definition load_gate :: "('r, 'p) env \<Rightarrow> instant \<Rightarrow> socket_addr \<Rightarrow> bytes \<Rightarrow> ('r, 'p, bool) action" where
  "load_gate E now src data = do {
     c \<leftarrow> peek;
     case verify_mac1 (e_crypto E) data (c_mac1_key c) of
       None \<Rightarrow> ret False
     | Some mac1 \<Rightarrow> do {
         note_handshake_msg now;
         c \<leftarrow> peek;
         if under_load c now then check_mac2_or_reply E now src data mac1 else ret True } }"

definition rx_initiation :: "('r, 'p) env \<Rightarrow> instant \<Rightarrow> socket_addr \<Rightarrow> bytes \<Rightarrow> ('r, 'p, unit) fallible" where
  "rx_initiation E now src data = do {
     proceed \<leftarrow> load_gate E now src data;
     if \<not> proceed then ok ()
     else do {
       c \<leftarrow> peek;
       case identify_initiation (e_crypto E) (c_s_priv c) (c_s_pub c) data of
         Inl _ \<Rightarrow> ok ()
       | Inr identified \<Rightarrow> do {
           let claimed_key = ii_s_pub_i identified;
           case find_peer c claimed_key of
             Some pidx \<Rightarrow>
               (case peer_at c pidx of
                  None \<Rightarrow> ok ()
                | Some peer \<Rightarrow>
                    (case authenticate_identified_with_shared_secret (e_crypto E) identified (precomputed_static_static peer) of
                       Inl _ \<Rightarrow> do { equalize_unknown_identity_cost now; ok () }
                     | Inr consumed \<Rightarrow> accept_authenticated_initiation E pidx consumed src now))
           | None \<Rightarrow> do {
               let pending_resolve = authenticated_initiator_resolve_id c claimed_key now;
               if pending_resolve = None \<and> resolve_suppressed c (ByPublicKey claimed_key) now
               then do { equalize_unknown_identity_cost now; ok () }
               else do {
                 granted \<leftarrow> zoom c_unknown_auth (\<lambda>b. c_unknown_auth_update (\<lambda>_. b)) (\<lambda>b. bucket_try_take b now);
                 if \<not> granted then ok ()
                 else case authenticate_identified_initiation (e_crypto E) (c_s_priv c) identified of
                   Inl _ \<Rightarrow> ok ()
                 | Inr consumed \<Rightarrow>
                     (case pending_resolve of
                        Some resolve_id \<Rightarrow> do { _ \<leftarrow> park_pending_initiation resolve_id src consumed; ok () }
                      | None \<Rightarrow> do {
                          requested \<leftarrow> request_peer_install (ci_s_pub_i consumed) now;
                          case requested of
                            Some resolve_id \<Rightarrow> do { _ \<leftarrow> park_pending_initiation resolve_id src consumed; ok () }
                          | None \<Rightarrow> ok () }) } } } } }"

section \<open>Handshake responses\<close>

primrec flush_handshake_queue :: "nat \<Rightarrow> ('r, 'p) env \<Rightarrow> peer_idx \<Rightarrow> slot_idx \<Rightarrow> instant \<Rightarrow> bool \<Rightarrow> ('r, 'p, bool) action" where
  "flush_handshake_queue 0 E pidx sidx now sent_any = ret sent_any"
| "flush_handshake_queue (Suc rounds) E pidx sidx now sent_any = do {
     next \<leftarrow> take_parked (WaitHandshake pidx);
     case next of
       None \<Rightarrow> ret sent_any
     | Some p \<Rightarrow> do {
         sent \<leftarrow> encrypt_and_send E pidx sidx (pp_packet p) now;
         flush_handshake_queue rounds E pidx sidx now (case sent of Inr _ \<Rightarrow> True | Inl _ \<Rightarrow> sent_any) } }"

definition complete_handshake ::
  "('r, 'p) env \<Rightarrow> peer_idx \<Rightarrow> slot_idx \<Rightarrow> session \<Rightarrow> socket_addr \<Rightarrow> instant \<Rightarrow> ('r, 'p, unit) action" where
  "complete_handshake E pidx sidx sess src now = do {
     c \<leftarrow> peek;
     case peer_at c pidx of
       None \<Rightarrow> do { _ \<leftarrow> free_slot sidx; ret () }
     | Some peer \<Rightarrow>
         (case install_initiator (pe_sessions peer) sidx of
            (Inl _, _) \<Rightarrow> ret ()
          | (Inr old_previous, ps) \<Rightarrow> do {
              modify (put_peer pidx (peer\<lparr>pe_sessions := ps, latest_handshake := Some now\<rparr>));
              observe_source pidx src now;
              modify (put_slot sidx (Established sess));
              arm_timer (instant_add now REJECT_AFTER_TIME);
              (case old_previous of
                 Some old \<Rightarrow> do { _ \<leftarrow> free_slot old; ret () }
               | None \<Rightarrow> ret ());
              c \<leftarrow> peek;
              sent_any \<leftarrow> flush_handshake_queue (length (c_pending c)) E pidx sidx now False;
              if sent_any then ret () else do { _ \<leftarrow> encrypt_and_send E pidx sidx [] now; ret () } }) }"

definition rx_response :: "('r, 'p) env \<Rightarrow> instant \<Rightarrow> socket_addr \<Rightarrow> bytes \<Rightarrow> ('r, 'p, unit) action" where
  "rx_response E now src data = do {
     proceed \<leftarrow> load_gate E now src data;
     if \<not> proceed then ret ()
     else do {
       c \<leftarrow> peek;
       case (case get_range data (fst resp_RECEIVER) (snd resp_RECEIVER) of Some bs \<Rightarrow> read_u32_le bs | None \<Rightarrow> None) of
         None \<Rightarrow> ret ()
       | Some receiver \<Rightarrow>
           (case slot_for_session_index c receiver of
              None \<Rightarrow> ret ()
            | Some sidx \<Rightarrow>
                (case slot_at c sidx of
                   Some (Initiating hs) \<Rightarrow>
                     (case consume_response (e_crypto E) (in_noise hs) (c_s_priv c) data of
                        Inl _ \<Rightarrow> ret ()
                      | Inr (keys, remote_index) \<Rightarrow>
                          (case session_new (REPLAY_WORDS E) keys InitiatorRole (in_local_index hs) remote_index now of
                             None \<Rightarrow> modify (c_panicked_update (\<lambda>_. True))
                           | Some sess \<Rightarrow> do {
                               rekey_after \<leftarrow> draw (rekey_after_time (next_u32 (e_crypto E)));
                               complete_handshake E (in_peer hs) sidx
                                 (sess\<lparr>s_peer := in_peer hs, s_rekey_after := rekey_after\<rparr>) src now }))
                 | _ \<Rightarrow> ret ())) } }"

section \<open>Cookie replies\<close>

definition rx_cookie_reply :: "('r, 'p) env \<Rightarrow> instant \<Rightarrow> bytes \<Rightarrow> ('r, 'p, unit) action" where
  "rx_cookie_reply E now data = do {
     c \<leftarrow> peek;
     case (case get_range data (fst cookie_RECEIVER) (snd cookie_RECEIVER) of Some bs \<Rightarrow> read_u32_le bs | None \<Rightarrow> None) of
       None \<Rightarrow> ret ()
     | Some receiver \<Rightarrow>
         (case slot_for_session_index c receiver of
            None \<Rightarrow> ret ()
          | Some sidx \<Rightarrow>
              (case slot_owner c sidx of
                 None \<Rightarrow> ret ()
               | Some pidx \<Rightarrow>
                   (case peer_at c pidx of
                      None \<Rightarrow> ret ()
                    | Some peer \<Rightarrow>
                        (case last_mac1 peer of
                           None \<Rightarrow> ret ()
                         | Some mac1 \<Rightarrow>
                             (case consume_cookie_reply (e_crypto E) (pe_public_key peer) mac1 data of
                                Inl _ \<Rightarrow> ret ()
                              | Inr cookie \<Rightarrow> modify (upd_peer pidx (pe_cookie_update (\<lambda>_. Some (cookie, now))))))))) }"

section \<open>Relay forwarding\<close>

definition rx_relay :: "('r, 'p) env \<Rightarrow> peer_idx \<Rightarrow> bytes \<Rightarrow> instant \<Rightarrow> ('r, 'p, unit) action" where
  "rx_relay E pidx plaintext now = do {
     c \<leftarrow> peek;
     case peer_at c pidx of
       None \<Rightarrow> ret ()
     | Some submitter \<Rightarrow>
         (case parse_envelope plaintext of
            None \<Rightarrow> ret ()
          | Some envelope \<Rightarrow> do {
              authorized \<leftarrow> zoom c_relay_policy (\<lambda>p. c_relay_policy_update (\<lambda>_. p))
                (\<lambda>p. e_authorize E p (pe_public_key submitter) (env_destination envelope));
              if \<not> authorized then ret ()
              else case find_peer c (env_destination envelope) of
                None \<Rightarrow> request_relay_peer_install pidx (env_destination envelope) now
              | Some dpidx \<Rightarrow>
                  (case peer_at c dpidx of
                     None \<Rightarrow> ret ()
                   | Some dest \<Rightarrow>
                       if pe_relay dest \<noteq> None then ret ()
                       else case pe_endpoint dest of
                         Some endpoint \<Rightarrow> emit (OuterDatagram endpoint (env_inner envelope))
                       | None \<Rightarrow> ret ()) }) }"

section \<open>Transport data\<close>

text \<open>
  What a decrypted packet does to its session and peer: a first packet on the unconfirmed session
  confirms it, and the peer's accounting, endpoint and timers move. The result is the slot to free,
  or \<open>None\<close> where the code returns early.
\<close>

definition confirm_session :: "peer_idx \<Rightarrow> slot_idx \<Rightarrow> ('r, 'p, slot_idx option option) action" where
  "confirm_session pidx sidx = do {
     c \<leftarrow> peek;
     case peer_at c pidx of
       None \<Rightarrow> ret None
     | Some peer \<Rightarrow>
         if ps_next (pe_sessions peer) = Some sidx
         then (case confirm_responder (pe_sessions peer) sidx of
             (Inl _, _) \<Rightarrow> ret None
           | (Inr freed, ps) \<Rightarrow> do {
               modify (put_peer pidx (peer\<lparr>pe_sessions := ps\<rparr>));
               case slot_at c sidx of
                 Some (Established sess) \<Rightarrow> do {
                   modify (put_slot sidx (Established (sess\<lparr>s_confirmed := True\<rparr>)));
                   ret (Some freed) }
               | _ \<Rightarrow> ret None })
         else ret (Some None) }"

definition received_peer :: "usize \<Rightarrow> instant \<Rightarrow> peer_entry \<Rightarrow> peer_entry" where
  "received_peer n now p = p\<lparr>rx_bytes := sat_add (rx_bytes p) (word_of_nat n)\<rparr>"

definition rearm_received :: "bool \<Rightarrow> instant \<Rightarrow> peer_entry \<Rightarrow> peer_entry" where
  "rearm_received is_keepalive now p = upd_sessions (\<lambda>ps.
     let ps = ps\<lparr>reply_due := None, persistent_keepalive_due := map_option (instant_add now) (persistent_keepalive p)\<rparr>
     in if is_keepalive then ps else ps\<lparr>keepalive_due := Some (instant_add now KEEPALIVE_TIMEOUT)\<rparr>) p"

text \<open>
  The accounting of an authenticated datagram. The peer writes of the code happen before the event;
  the event reads none of the fields written after it here.
\<close>

definition note_received :: "peer_idx \<Rightarrow> usize \<Rightarrow> bool \<Rightarrow> instant \<Rightarrow> ('r, 'p, unit) action" where
  "note_received pidx n is_keepalive now = do {
     c \<leftarrow> peek;
     modify (upd_peer pidx (received_peer n now));
     modify (upd_peer pidx (rearm_received is_keepalive now));
     (if is_keepalive then ret () else arm_timer (instant_add now KEEPALIVE_TIMEOUT));
     (case peer_at c pidx of
        Some peer \<Rightarrow>
          (case persistent_keepalive peer of
             Some interval \<Rightarrow> arm_timer (instant_add now interval)
           | None \<Rightarrow> ret ())
      | None \<Rightarrow> ret ()) }"

definition account_received ::
  "('r, 'p) env \<Rightarrow> peer_idx \<Rightarrow> socket_addr \<Rightarrow> usize \<Rightarrow> bool \<Rightarrow> slot_idx option \<Rightarrow> instant \<Rightarrow> ('r, 'p, unit) action" where
  "account_received E pidx src n is_keepalive freed now = do {
     note_received pidx n is_keepalive now;
     observe_source pidx src now;
     (case freed of
        Some old \<Rightarrow> do { _ \<leftarrow> free_slot old; ret () }
      | None \<Rightarrow> ret ()) }"

text \<open>The receive-path rekey of an initiator session close to its end.\<close>

definition receive_rekey :: "('r, 'p) env \<Rightarrow> peer_idx \<Rightarrow> slot_idx \<Rightarrow> session \<Rightarrow> instant \<Rightarrow> ('r, 'p, unit) action" where
  "receive_rekey E pidx sidx sess now =
     (if s_role sess = InitiatorRole \<and> \<not> s_rekey_triggered sess
         \<and> saturating_since now (s_created sess) \<ge> duration_sub (duration_sub REJECT_AFTER_TIME KEEPALIVE_TIMEOUT) REKEY_TIMEOUT
      then do {
        c \<leftarrow> peek;
        (case slot_at c sidx of
           Some (Established session) \<Rightarrow> modify (put_slot sidx (Established (session\<lparr>s_rekey_triggered := True\<rparr>)))
         | _ \<Rightarrow> ret ());
        _ \<leftarrow> ensure_handshake E pidx now;
        ret () }
      else ret ())"

text \<open>Cryptokey routing and the firewall, then delivery of the trimmed inner packet.\<close>

definition deliver_inner :: "('r, 'p) env \<Rightarrow> peer_idx \<Rightarrow> socket_addr \<Rightarrow> bytes \<Rightarrow> instant \<Rightarrow> ('r, 'p, unit) action" where
  "deliver_inner E pidx src inner now =
     (case parse_header inner of
        None \<Rightarrow> ret ()
      | Some header \<Rightarrow> do {
          routed \<leftarrow> on_routes (\<lambda>rc. map_option (\<lambda>p. (p, rc)) (lookup_readonly rc (ih_src header))) None;
          if routed \<noteq> Some pidx then ret ()
          else do {
            c \<leftarrow> peek;
            let policy = (case peer_at c pidx of Some peer \<Rightarrow> pe_inbound_policy peer | None \<Rightarrow> AllowAll);
            case get_range inner 0 (ih_total_len header) of
              None \<Rightarrow> ret ()
            | Some ip_packet \<Rightarrow> do {
                allowed \<leftarrow> (if policy = EstablishedOnly
                           then zoom c_firewall (\<lambda>fw. c_firewall_update (\<lambda>_. fw)) (\<lambda>fw. allows_inbound fw pidx ip_packet now)
                           else ret True);
                if \<not> allowed then ret ()
                else case peer_at c pidx of
                  None \<Rightarrow> ret ()
                | Some peer \<Rightarrow>
                    emit (InnerPacket (pe_public_key peer) (if pe_relay peer = None then Some src else None) ip_packet) } } })"

definition rx_data :: "('r, 'p) env \<Rightarrow> instant \<Rightarrow> socket_addr \<Rightarrow> bytes \<Rightarrow> bool \<Rightarrow> ('r, 'p, unit) action" where
  "rx_data E now src data is_relay = do {
     c \<leftarrow> peek;
     case (case get_range data (fst data_RECEIVER) (snd data_RECEIVER) of Some bs \<Rightarrow> read_u32_le bs | None \<Rightarrow> None) of
       None \<Rightarrow> ret ()
     | Some receiver \<Rightarrow>
     (case slot_for_session_index c receiver of
        None \<Rightarrow> ret ()
      | Some sidx \<Rightarrow>
      (case (case get_range data (fst data_COUNTER) (snd data_COUNTER) of Some bs \<Rightarrow> read_u64_le bs | None \<Rightarrow> None) of
         None \<Rightarrow> ret ()
       | Some counter \<Rightarrow>
         if counter \<ge> REJECT_AFTER_MESSAGES then ret ()
         else case slot_at c sidx of
           Some (Established sess) \<Rightarrow>
             if saturating_since now (s_created sess) \<ge> REJECT_AFTER_TIME then ret ()
             else case get_range data PACKET_START (length data) of
               None \<Rightarrow> ret ()
             | Some ciphertext \<Rightarrow>
                 (case aead_open (e_crypto E) (t_recv sess) counter ciphertext (if is_relay then RELAY_AEAD_AD else []) of
                    Inl _ \<Rightarrow> ret ()
                  | Inr (pt_len, plaintext) \<Rightarrow> do {
                      let (accepted, window) = check_and_update (s_replay sess) counter;
                      modify (put_slot sidx (Established (sess\<lparr>s_replay := window\<rparr>)));
                      if \<not> accepted then ret ()
                      else do {
                        let pidx = s_peer sess;
                        confirmed \<leftarrow> confirm_session pidx sidx;
                        case confirmed of
                          None \<Rightarrow> ret ()
                        | Some freed \<Rightarrow> do {
                            account_received E pidx src (length data) (pt_len = 0) freed now;
                            receive_rekey E pidx sidx sess now;
                            if pt_len = 0 then ret ()
                            else do {
                              let inner = take pt_len plaintext;
                              if is_relay then rx_relay E pidx inner now
                              else deliver_inner E pidx src inner now } } } })
         | _ \<Rightarrow> ret ())) }"

section \<open>Dispatch\<close>

definition datagram :: "('r, 'p) env \<Rightarrow> instant \<Rightarrow> socket_addr \<Rightarrow> bytes \<Rightarrow> ('r, 'p, unit) fallible" where
  "datagram E now src data =
     (case classify data of
        Some Initiation \<Rightarrow> rx_initiation E now src data
      | Some Response \<Rightarrow> do { rx_response E now src data; ok () }
      | Some CookieReplyMsg \<Rightarrow> do { rx_cookie_reply E now data; ok () }
      | Some Data \<Rightarrow> do { rx_data E now src data False; ok () }
      | Some RelayData \<Rightarrow> do { rx_data E now src data True; ok () }
      | None \<Rightarrow> ok ())"

definition receive_outer :: "('r, 'p) env \<Rightarrow> instant \<Rightarrow> socket_addr \<Rightarrow> bytes \<Rightarrow> ('r, 'p, unit) fallible" where
  "receive_outer E now source data = do {
     let source = unmap_socket_addr source;
     result \<leftarrow> (if length data > MAX_UDP_SIZE then err PacketTooLarge else datagram E now source data);
     flush_sink_output E;
     ret result }"

section \<open>The outbound path\<close>

definition outbound :: "('r, 'p) env \<Rightarrow> instant \<Rightarrow> bytes \<Rightarrow> ('r, 'p, unit) fallible" where
  "outbound E now packet =
     (if length packet > MAX_INNER_SIZE then err PacketTooLarge
      else case parse_header packet of
        None \<Rightarrow> err MalformedIpPacket
      | Some header \<Rightarrow> do {
          routed \<leftarrow> on_routes (\<lambda>rc. route_lookup rc (ih_dst header) now) None;
          case routed of
            Some pidx \<Rightarrow> send_to_peer E pidx packet now
          | None \<Rightarrow> queue_outbound_resolution (ih_dst header) packet now })"

definition send_inner :: "('r, 'p) env \<Rightarrow> instant \<Rightarrow> bytes \<Rightarrow> ('r, 'p, unit) fallible" where
  "send_inner E now packet = do {
     result \<leftarrow> outbound E now packet;
     flush_sink_output E;
     ret result }"

end
