(* ===== verification/Resolver_Answers.thy ===== *)
theory Resolver_Answers
  imports Core_Receive
begin

text \<open>
  Resolver answers and the lifecycle of dynamic peers (\<open>microtun-core/src/resolver.rs\<close>): the
  policy check, admission and eviction, route replacement, and the application of an answer to an
  outbound lookup, to an unknown initiator or relay destination, and to a record already held.
\<close>

section \<open>Eviction\<close>

definition capacity_victim_excluding ::
  "('r, 'p) core \<Rightarrow> instant \<Rightarrow> peer_idx option \<Rightarrow> peer_idx option list \<Rightarrow> usize \<Rightarrow> peer_idx option" where
  "capacity_victim_excluding c now exclude selected minimum_routes_to_free =
     map_option fst (min_by (\<lambda>(_, peer). last_activity peer)
       (filter (\<lambda>(pidx, peer). Some pidx \<noteq> exclude \<and> Some pidx \<notin> set selected \<and> \<not> is_pinned peer
            \<and> list_all (\<lambda>slot. slot = None) (sessions_slots (pe_sessions peer))
            \<and> saturating_since now (last_activity peer) \<ge> dynamic_peer_min_idle (c_config c)
            \<and> peer_route_count (c_routes c) pidx \<ge> minimum_routes_to_free)
         (List.map_filter (\<lambda>i. map_option (\<lambda>peer. (word_of_nat i, peer)) (c_peers c ! i)) [0..<length (c_peers c)])))"

text \<open>The check of the reverse indices before anything is changed, and the release of the slots.\<close>

definition reverse_indices_ok :: "('r, 'p) core \<Rightarrow> peer_idx \<Rightarrow> slot_idx list \<Rightarrow> bool" where
  "reverse_indices_ok c pidx sidxs =
     list_all (\<lambda>sidx. case slot_at c sidx of
         None \<Rightarrow> False
       | Some slot \<Rightarrow> slot_owner c sidx = Some pidx
           \<and> (case local_index slot of Some index \<Rightarrow> slot_for (c_indices c) index = Some sidx | None \<Rightarrow> True)) sidxs"

fun release_slots :: "slot_idx list \<Rightarrow> ('r, 'p, unit) fallible" where
  "release_slots [] = ok ()"
| "release_slots (sidx # rest) = do {
     c \<leftarrow> peek;
     case slot_at c sidx of
       None \<Rightarrow> err InternalInvariant
     | Some slot \<Rightarrow>
         and_then (case local_index slot of
                     Some index \<Rightarrow> on_indices (\<lambda>m. index_remove m index sidx)
                   | None \<Rightarrow> ok ()) (\<lambda>_. do {
           modify (put_slot sidx Free);
           release_slots rest }) }"

definition evict_peer :: "('r, 'p) env \<Rightarrow> peer_idx \<Rightarrow> ('r, 'p, unit) fallible" where
  "evict_peer E pidx = do {
     c \<leftarrow> peek;
     case peer_at c pidx of
       None \<Rightarrow> ok ()
     | Some peer \<Rightarrow>
         if \<not> reverse_indices_ok c pidx (List.map_filter id (sessions_slots (pe_sessions peer))) then err InternalInvariant
         else and_then (take_peer pidx) (\<lambda>taken.
           case taken of
             None \<Rightarrow> ok ()
           | Some peer \<Rightarrow>
               and_then (release_slots (List.map_filter id (sessions_slots (pe_sessions peer)))) (\<lambda>_.
               and_then (on_routes (\<lambda>rc. remove_peer rc pidx) (Inl InternalInvariant)) (\<lambda>_. do {
                 modify (c_firewall_update (\<lambda>fw. fw_remove_peer fw pidx));
                 drop_parked (WaitHandshake pidx);
                 (if \<not> is_pinned peer then queue_peer_evicted E (pe_public_key peer) else ret ());
                 ok () }))) }"

definition evict_peer_and_remember :: "('r, 'p) env \<Rightarrow> peer_idx \<Rightarrow> instant \<Rightarrow> ('r, 'p, unit) fallible" where
  "evict_peer_and_remember E pidx now = do {
     c \<leftarrow> peek;
     case peer_at c pidx of
       None \<Rightarrow> ok ()
     | Some peer \<Rightarrow> and_then (evict_peer E pidx) (\<lambda>_. do {
         remember_evicted_peer (pe_public_key peer) now;
         ok () }) }"

definition evict_peer_for_capacity :: "('r, 'p) env \<Rightarrow> peer_idx \<Rightarrow> instant \<Rightarrow> ('r, 'p, unit) fallible" where
  "evict_peer_for_capacity E pidx now = do {
     granted \<leftarrow> zoom c_peer_evictions (\<lambda>b. c_peer_evictions_update (\<lambda>_. b)) (\<lambda>b. interval_try_take b now);
     if \<not> granted then err PeerAdmissionLimited else evict_peer_and_remember E pidx now }"

section \<open>Policy\<close>

definition check_resolved_answer :: "('r, 'p) core \<Rightarrow> resolve_query \<Rightarrow> resolved_peer \<Rightarrow> unit result" where
  "check_resolved_answer c query info =
     (if (case query of ByPublicKey expected \<Rightarrow> rp_public_key info \<noteq> expected | ByDstAddress _ \<Rightarrow> False)
      then Inl InvalidResolverAnswer
      else if rp_public_key info = c_s_pub c then Inl InvalidResolverAnswer
      else if (case find_peer c (rp_public_key info) of
                 Some pidx \<Rightarrow> (case peer_at c pidx of Some peer \<Rightarrow> is_pinned peer | None \<Rightarrow> False)
               | None \<Rightarrow> False) then Inl InvalidResolverAnswer
      else if rp_relay info = Some (rp_public_key info) then Inl InvalidResolverAnswer
      else if network_length (rp_address info) = 0 then Inl InvalidResolverAnswer
      else Inr ())"

definition canonicalize_resolved_answer :: "('r, 'p) core \<Rightarrow> resolve_query \<Rightarrow> resolved_peer \<Rightarrow> resolved_peer result" where
  "canonicalize_resolved_answer c query info =
     (let info = info\<lparr>rp_endpoint := map_option unmap_socket_addr (rp_endpoint info)\<rparr>
      in rbind (check_resolved_answer c query info) (\<lambda>_. Inr info))"

section \<open>Installing and refreshing records\<close>

definition replace_dynamic_route :: "('r, 'p) env \<Rightarrow> peer_idx \<Rightarrow> ip_cidr \<Rightarrow> instant \<Rightarrow> bool \<Rightarrow> ('r, 'p, unit) fallible" where
  "replace_dynamic_route E pidx address now allow_peer_eviction = do {
     c \<leftarrow> peek;
     let available_after_replace = available_slots (c_routes c) + peer_route_count (c_routes c) pidx;
     and_then (if available_after_replace = 0
               then if \<not> allow_peer_eviction then err RouteCacheFull
               else case capacity_victim_excluding c now (Some pidx) [] 1 of
                   None \<Rightarrow> err RouteCacheFull
                 | Some victim \<Rightarrow> do {
                     granted \<leftarrow> zoom c_peer_evictions (\<lambda>b. c_peer_evictions_update (\<lambda>_. b)) (\<lambda>b. try_take_many b 1 now);
                     if \<not> granted then err PeerAdmissionLimited else evict_peer_and_remember E victim now }
               else ok ()) (\<lambda>_.
     and_then (on_routes (\<lambda>rc. remove_peer rc pidx) (Inl InternalInvariant)) (\<lambda>_.
     and_then (on_routes (\<lambda>rc. route_insert rc address pidx False now) (Inl InternalInvariant)) (\<lambda>_. do {
       c \<leftarrow> peek;
       case peer_at c pidx of
         None \<Rightarrow> err InternalInvariant
       | Some peer \<Rightarrow> do { modify (put_peer pidx (peer\<lparr>pe_address := address\<rparr>)); ok () } }))) }"

text \<open>The record of an installed peer after an answer; the address follows with the route.\<close>

definition refreshed_peer :: "resolved_peer \<Rightarrow> instant \<Rightarrow> peer_entry \<Rightarrow> peer_entry" where
  "refreshed_peer info now p =
     (let p = (if pe_endpoint p \<noteq> rp_endpoint info
               then p\<lparr>pe_endpoint := rp_endpoint info, endpoint_confirmed := None\<rparr> else p);
          p = p\<lparr>pe_relay := rp_relay info, pe_inbound_policy := rp_inbound_policy info\<rparr>;
          keepalive = (case rp_persistent_keepalive info of Some d \<Rightarrow> if d = 0 then None else Some d | None \<Rightarrow> None)
      in if persistent_keepalive p \<noteq> keepalive
         then (upd_sessions (persistent_keepalive_due_update (\<lambda>_. map_option (instant_add now) keepalive)) p)\<lparr>persistent_keepalive := keepalive\<rparr>
         else p)"

definition dynamic_peer :: "('r, 'p) env \<Rightarrow> ('r, 'p) core \<Rightarrow> resolved_peer \<Rightarrow> instant \<Rightarrow> peer_entry result" where
  "dynamic_peer E c info now =
     rbind (dh (e_crypto E) (c_s_priv c) (rp_public_key info)) (\<lambda>shared.
       Inr (peer_new (rp_public_key info) Dynamic shared (rp_endpoint info) (rp_relay info) (rp_inbound_policy info)
              (rp_persistent_keepalive info) (rp_address info) now))"

definition upsert_peer_unchecked ::
  "('r, 'p) env \<Rightarrow> resolved_peer \<Rightarrow> instant \<Rightarrow> peer_admission \<Rightarrow> ('r, 'p, peer_idx \<times> bool \<times> bool) fallible" where
  "upsert_peer_unchecked E info now admission = do {
     c \<leftarrow> peek;
     case find_peer c (rp_public_key info) of
       Some pidx \<Rightarrow>
         (case peer_at c pidx of
            None \<Rightarrow> err InvalidResolverAnswer
          | Some peer \<Rightarrow> do {
              let refreshed = refreshed_peer info now peer;
              modify (put_peer pidx refreshed);
              (if persistent_keepalive refreshed \<noteq> persistent_keepalive peer
               then (case persistent_keepalive_due (pe_sessions refreshed) of
                       Some deadline \<Rightarrow> arm_timer deadline
                     | None \<Rightarrow> ret ())
               else ret ());
              (if pe_inbound_policy peer \<noteq> rp_inbound_policy info
               then modify (c_firewall_update (\<lambda>fw. fw_remove_peer fw pidx)) else ret ());
              ok (pidx, pe_address peer \<noteq> rp_address info, False) })
     | None \<Rightarrow> do {
         ghosted \<leftarrow> peer_is_ghosted (rp_public_key info) now;
         if ghosted then err PeerAdmissionLimited
         else do {
           let free = length (filter (\<lambda>p. p = None) (c_peers c));
           let admit_free = (if admission = AuthenticatedInitiator \<or> free > lazy_peer_reserve (c_config c)
                             then position (\<lambda>p. p = None) (c_peers c) else None);
           case admit_free of
             Some i \<Rightarrow>
               and_then (lift (dynamic_peer E c info now)) (\<lambda>peer.
               and_then (install_peer E (word_of_nat i) peer) (\<lambda>_.
               ok (word_of_nat i, True, True)))
           | None \<Rightarrow>
               if admission = HeldUpdate then err InvalidResolverAnswer
               else if admission = LazyRelay then err PeerAdmissionLimited
               else (case capacity_victim_excluding c now None [] (1 - available_slots (c_routes c)) of
                   None \<Rightarrow> err (if admission = LazyOutbound \<or> admission = LazyRelay then PeerAdmissionLimited else PeerTableFull)
                 | Some i \<Rightarrow>
                     and_then (lift (dynamic_peer E c info now)) (\<lambda>peer.
                     and_then (evict_peer_for_capacity E i now) (\<lambda>_.
                     and_then (install_peer E i peer) (\<lambda>_.
                     ok (i, True, True))))) } } }"

definition commit_existing_resolved_peer ::
  "('r, 'p) env \<Rightarrow> peer_idx \<Rightarrow> resolved_peer \<Rightarrow> instant \<Rightarrow> peer_admission \<Rightarrow> bool \<Rightarrow> ('r, 'p, unit) fallible" where
  "commit_existing_resolved_peer E pidx info now admission allow_peer_eviction = do {
     c \<leftarrow> peek;
     case peer_at c pidx of
       None \<Rightarrow> err InternalInvariant
     | Some peer \<Rightarrow>
         and_then (if pe_address peer \<noteq> rp_address info
                   then replace_dynamic_route E pidx (rp_address info) now allow_peer_eviction else ok ()) (\<lambda>_.
         and_then (upsert_peer_unchecked E info now admission) (\<lambda>(updated, _, installed_new).
           if updated \<noteq> pidx \<or> installed_new then err InternalInvariant else ok ())) }"

definition commit_held_update :: "('r, 'p) env \<Rightarrow> peer_idx \<Rightarrow> resolved_peer \<Rightarrow> instant \<Rightarrow> ('r, 'p, unit) fallible" where
  "commit_held_update E pidx info now = commit_existing_resolved_peer E pidx info now HeldUpdate True"

section \<open>Answers about held records\<close>

definition apply_held_answer :: "('r, 'p) env \<Rightarrow> instant \<Rightarrow> bytes \<Rightarrow> resolve_outcome \<Rightarrow> ('r, 'p, unit) fallible" where
  "apply_held_answer E now key outcome = do {
     c \<leftarrow> peek;
     case find_peer c key of
       None \<Rightarrow> do { forget_reconcile key; ok () }
     | Some pidx \<Rightarrow>
         if \<not> (case peer_at c pidx of Some peer \<Rightarrow> \<not> is_pinned peer \<and> pe_public_key peer = key | None \<Rightarrow> False)
         then do { forget_reconcile key; ok () }
         else (case outcome of
             Found info \<Rightarrow>
               (case canonicalize_resolved_answer c (ByPublicKey key) info of
                  Inl _ \<Rightarrow> do { queue_reconcile E key now; ok () }
                | Inr info \<Rightarrow> do {
                    committed \<leftarrow> commit_held_update E pidx info now;
                    case committed of
                      Inl _ \<Rightarrow> do { queue_reconcile E key now; ok () }
                    | Inr _ \<Rightarrow> do { forget_reconcile key; clear_negative (ByPublicKey key); ok () } })
           | NotFound \<Rightarrow> do {
               forget_reconcile key;
               and_then (evict_peer E pidx) (\<lambda>_. do { mark_negative (ByPublicKey key) now; ok () }) }
           | Failed \<Rightarrow> do { queue_reconcile E key now; ok () }) }"

definition peer_updated :: "('r, 'p) env \<Rightarrow> instant \<Rightarrow> peer_update \<Rightarrow> ('r, 'p, unit) fallible" where
  "peer_updated E now update = apply_held_answer E now (pu_public_key update) (pu_outcome update)"

section \<open>Answers to lookups by key\<close>

text \<open>The peer an accepted answer ends up at; \<open>None\<close> where the answer is dropped without an error.\<close>

definition admit_answer ::
  "('r, 'p) env \<Rightarrow> instant \<Rightarrow> install_source \<Rightarrow> bytes \<Rightarrow> resolved_peer \<Rightarrow> ('r, 'p, peer_idx option) fallible" where
  "admit_answer E now source info_key info = do {
     c \<leftarrow> peek;
     let admission = (case source of SourceInitiator \<Rightarrow> AuthenticatedInitiator | SourceRelay \<Rightarrow> LazyRelay);
     case find_peer c (rp_public_key info) of
       Some pidx \<Rightarrow> do {
         committed \<leftarrow> commit_existing_resolved_peer E pidx info now admission (source \<noteq> SourceRelay);
         case committed of
           Inr _ \<Rightarrow> ok (Some pidx)
         | Inl e \<Rightarrow> if e = RouteCacheFull \<or> e = PeerAdmissionLimited then ok None else err e }
     | None \<Rightarrow> do {
         installed \<leftarrow> upsert_peer_unchecked E info now admission;
         case installed of
           Inl e \<Rightarrow>
             if e = PeerTableFull \<or> e = PeerAdmissionLimited then do { discard_answer E info_key; ok None } else err e
         | Inr (pidx, routes_changed, installed_new) \<Rightarrow> do {
             replaced \<leftarrow> (if routes_changed then replace_dynamic_route E pidx (rp_address info) now (source \<noteq> SourceRelay)
                          else ok ());
             case replaced of
               Inl _ \<Rightarrow> and_then (if installed_new then evict_peer E pidx else ok ()) (\<lambda>_. ok None)
             | Inr _ \<Rightarrow> ok (Some pidx) } } }"

definition resolved_install ::
  "('r, 'p) env \<Rightarrow> instant \<Rightarrow> inflight_resolve \<Rightarrow> install_source \<Rightarrow> resolve_outcome \<Rightarrow> ('r, 'p, unit) fallible" where
  "resolved_install E now entry source outcome =
     (case ir_query entry of
        ByDstAddress _ \<Rightarrow> ok ()
      | ByPublicKey expected_key \<Rightarrow> do {
          pending \<leftarrow> (if source = SourceInitiator then take_pending_initiation (ir_id entry) else ret None);
          case outcome of
            Found info \<Rightarrow> do {
              c \<leftarrow> peek;
              case canonicalize_resolved_answer c (ir_query entry) info of
                Inl _ \<Rightarrow> do { discard_answer E (rp_public_key info); ok () }
              | Inr canonical \<Rightarrow>
                  and_then (admit_answer E now source (rp_public_key info) canonical) (\<lambda>admitted.
                    case admitted of
                      None \<Rightarrow> ok ()
                    | Some pidx \<Rightarrow> do {
                        clear_negative (ir_query entry);
                        case pending of
                          None \<Rightarrow> ok ()
                        | Some p \<Rightarrow>
                            if ci_s_pub_i (pi_consumed p) \<noteq> expected_key \<or> rp_public_key canonical \<noteq> expected_key then ok ()
                            else accept_authenticated_initiation E pidx (pi_consumed p) (pi_src p) now }) }
          | NotFound \<Rightarrow> do { mark_negative (ir_query entry) now; ok () }
          | Failed \<Rightarrow> ok () })"

section \<open>Answers to lookups by address\<close>

primrec replay_parked :: "nat \<Rightarrow> ('r, 'p) env \<Rightarrow> resolve_id \<Rightarrow> instant \<Rightarrow> ('r, 'p, unit) action" where
  "replay_parked 0 E rid now = ret ()"
| "replay_parked (Suc rounds) E rid now = do {
     next \<leftarrow> take_parked (WaitResolve rid);
     case next of
       None \<Rightarrow> ret ()
     | Some p \<Rightarrow> do {
         _ \<leftarrow> outbound E now (pp_packet p);
         replay_parked rounds E rid now } }"

text \<open>
  Admission of a by-address answer: \<open>Some (peer, installed_new)\<close>, or \<open>None\<close> after the parked packets
  were dropped.
\<close>

definition admit_outbound_answer ::
  "('r, 'p) env \<Rightarrow> instant \<Rightarrow> inflight_resolve \<Rightarrow> bytes \<Rightarrow> resolved_peer \<Rightarrow> ('r, 'p, (peer_idx \<times> bool) option) fallible" where
  "admit_outbound_answer E now entry info_key info = do {
     c \<leftarrow> peek;
     case find_peer c (rp_public_key info) of
       Some pidx \<Rightarrow> do {
         committed \<leftarrow> commit_existing_resolved_peer E pidx info now LazyOutbound True;
         case committed of
           Inr _ \<Rightarrow> ok (Some (pidx, False))
         | Inl e \<Rightarrow>
             if e = RouteCacheFull \<or> e = PeerAdmissionLimited
             then do { mark_negative (ir_query entry) now; drop_parked (WaitResolve (ir_id entry)); ok None }
             else err e }
     | None \<Rightarrow> do {
         installed \<leftarrow> upsert_peer_unchecked E info now LazyOutbound;
         case installed of
           Inl e \<Rightarrow>
             if e = PeerTableFull \<or> e = PeerAdmissionLimited
             then do { discard_answer E info_key; drop_parked (WaitResolve (ir_id entry)); ok None }
             else err e
         | Inr (pidx, routes_changed, installed_new) \<Rightarrow> do {
             replaced \<leftarrow> (if routes_changed then replace_dynamic_route E pidx (rp_address info) now True else ok ());
             case replaced of
               Inr _ \<Rightarrow> ok (Some (pidx, installed_new))
             | Inl _ \<Rightarrow> and_then (if installed_new then evict_peer E pidx else ok ()) (\<lambda>_. do {
                 mark_negative (ir_query entry) now;
                 drop_parked (WaitResolve (ir_id entry));
                 ok None }) } } }"

definition resolved_outbound ::
  "('r, 'p) env \<Rightarrow> instant \<Rightarrow> inflight_resolve \<Rightarrow> resolve_outcome \<Rightarrow> ('r, 'p, unit) fallible" where
  "resolved_outbound E now entry outcome =
     (case ir_query entry of
        ByPublicKey _ \<Rightarrow> ok ()
      | ByDstAddress address \<Rightarrow>
          (case outcome of
             Found info \<Rightarrow>
               if \<not> e_contains E (rp_address info) address
               then do { discard_answer E (rp_public_key info); drop_parked (WaitResolve (ir_id entry)); ok () }
               else do {
                 c \<leftarrow> peek;
                 case canonicalize_resolved_answer c (ir_query entry) info of
                   Inl _ \<Rightarrow> do { discard_answer E (rp_public_key info); drop_parked (WaitResolve (ir_id entry)); ok () }
                 | Inr canonical \<Rightarrow>
                     and_then (admit_outbound_answer E now entry (rp_public_key info) canonical) (\<lambda>admitted.
                       case admitted of
                         None \<Rightarrow> ok ()
                       | Some (pidx, installed_new) \<Rightarrow> do {
                           routed \<leftarrow> on_routes (\<lambda>rc. map_option (\<lambda>p. (p, rc)) (lookup_readonly rc address)) None;
                           if routed = None
                           then and_then (if installed_new then evict_peer E pidx else ok ()) (\<lambda>_. do {
                             mark_negative (ir_query entry) now;
                             drop_parked (WaitResolve (ir_id entry));
                             ok () })
                           else do {
                             clear_negative (ir_query entry);
                             c \<leftarrow> peek;
                             replay_parked (length (c_pending c)) E (ir_id entry) now;
                             ok () } }) }
           | NotFound \<Rightarrow> do { mark_negative (ir_query entry) now; drop_parked (WaitResolve (ir_id entry)); ok () }
           | Failed \<Rightarrow> do { drop_parked (WaitResolve (ir_id entry)); ok () }))"

section \<open>Completions\<close>

definition resolved :: "('r, 'p) env \<Rightarrow> instant \<Rightarrow> resolve_response \<Rightarrow> ('r, 'p, unit) fallible" where
  "resolved E now response = do {
     c \<leftarrow> peek;
     case position (\<lambda>r. ir_id r = rs_id response) (c_resolves c) of
       None \<Rightarrow> ok ()
     | Some pos \<Rightarrow> do {
         let entry = c_resolves c ! pos;
         modify (c_resolves_update (\<lambda>rs. swap_remove rs pos));
         case ir_kind entry of
           KindOutbound \<Rightarrow> resolved_outbound E now entry (rs_outcome response)
         | KindInstall source \<Rightarrow> resolved_install E now entry source (rs_outcome response)
         | KindReconcile \<Rightarrow>
             (case ir_query entry of
                ByPublicKey key \<Rightarrow> apply_held_answer E now key (rs_outcome response)
              | ByDstAddress _ \<Rightarrow> ok ())
         | KindNegative \<Rightarrow> ok () } }"

definition resolver_event_completed :: "('r, 'p) env \<Rightarrow> instant \<Rightarrow> resolver_event \<Rightarrow> ('r, 'p, unit) fallible" where
  "resolver_event_completed E now event = do {
     result \<leftarrow> (case event of
                 Resolved response \<Rightarrow> resolved E now response
               | PeerUpdated update \<Rightarrow> peer_updated E now update);
     flush_sink_output E;
     ret result }"

end
