(* ===== verification/Core_Timers.thy ===== *)
theory Core_Timers
  imports Resolver_Answers
begin

text \<open>
  Timers, construction and inspection of the engine (\<open>microtun-core/src/lib.rs\<close>): the walk over
  all deadlines, the single timer action per call, \<open>Core::new\<close> with its checks of the pinned
  peers, and the peer snapshots.
\<close>

section \<open>Deadlines\<close>

definition peer_deadlines :: "peer_entry \<Rightarrow> instant option list" where
  "peer_deadlines p =
     [keepalive_due (pe_sessions p), persistent_keepalive_due (pe_sessions p), reply_due (pe_sessions p)]"

definition slot_deadlines :: "('r, 'p) core \<Rightarrow> slot \<Rightarrow> instant option list" where
  "slot_deadlines c slot =
     (case slot of
        Initiating hs \<Rightarrow>
          [Some (in_retry_at hs), case peer_at c (in_peer hs) of Some p \<Rightarrow> attempt_deadline (pe_sessions p) | None \<Rightarrow> None]
      | Established s \<Rightarrow> [Some (instant_add (s_created s) REJECT_AFTER_TIME)]
      | Free \<Rightarrow> [])"

definition scan_deadlines :: "('r, 'p) core \<Rightarrow> instant option" where
  "scan_deadlines c =
     (let deadlines = concat (map peer_deadlines (List.map_filter id (c_peers c)))
            @ concat (map (slot_deadlines c) (c_slots c))
            @ [next_deadline (c_pending c)]
            @ map (\<lambda>r. Some (ir_deadline r)) (c_resolves c)
            @ map (\<lambda>p. Some (pr_due p)) (c_reconciles c)
      in fold (\<lambda>d at. min_deadline at d) deadlines None)"

definition poll_at :: "('r, 'p) core \<Rightarrow> instant option" where
  "poll_at c = timer_get (c_timers c)"

section \<open>One timer action\<close>

definition is_due :: "instant option \<Rightarrow> instant \<Rightarrow> bool" where
  "is_due deadline now = (case deadline of Some d \<Rightarrow> d \<le> now | None \<Rightarrow> False)"

text \<open>
  The two loops of \<open>timeout\<close>. A result \<open>Some b\<close> is a \<open>return b\<close> from inside the loop,
  \<open>None\<close> the end of the loop.
\<close>

fun slot_timers :: "('r, 'p) env \<Rightarrow> slot_idx list \<Rightarrow> instant \<Rightarrow> ('r, 'p, bool option) action" where
  "slot_timers E [] now = ret None"
| "slot_timers E (sidx # rest) now = do {
     c \<leftarrow> peek;
     case slot_at c sidx of
       None \<Rightarrow> ret (Some False)
     | Some (Initiating hs) \<Rightarrow>
         if is_due (case peer_at c (in_peer hs) of Some p \<Rightarrow> attempt_deadline (pe_sessions p) | None \<Rightarrow> None) now
         then do {
           _ \<leftarrow> free_slot sidx;
           drop_parked (WaitHandshake (in_peer hs));
           ret (Some True) }
         else if in_retry_at hs \<le> now
         then do { retransmit_initiation E (in_peer hs) sidx now; ret (Some True) }
         else slot_timers E rest now
     | Some slot \<Rightarrow>
         if session_dead now slot
         then do { _ \<leftarrow> free_slot sidx; ret (Some True) }
         else slot_timers E rest now }"

definition fire_persistent_keepalive :: "('r, 'p) env \<Rightarrow> peer_idx \<Rightarrow> peer_entry \<Rightarrow> instant \<Rightarrow> ('r, 'p, unit) action" where
  "fire_persistent_keepalive E pidx peer now = do {
     modify (upd_peer pidx (upd_sessions (persistent_keepalive_due_update (\<lambda>_. None))));
     c \<leftarrow> peek;
     case usable_session c pidx now of
       Some sidx \<Rightarrow> do { _ \<leftarrow> encrypt_and_send E pidx sidx [] now; ret () }
     | None \<Rightarrow> do {
         _ \<leftarrow> ensure_handshake E pidx now;
         case persistent_keepalive peer of
           None \<Rightarrow> ret ()
         | Some interval \<Rightarrow> do {
             modify (upd_peer pidx (upd_sessions (persistent_keepalive_due_update (\<lambda>_. Some (instant_add now interval)))));
             arm_timer (instant_add now interval) } } }"

fun peer_timers :: "('r, 'p) env \<Rightarrow> peer_idx list \<Rightarrow> instant \<Rightarrow> ('r, 'p, bool option) action" where
  "peer_timers E [] now = ret None"
| "peer_timers E (pidx # rest) now = do {
     c \<leftarrow> peek;
     case peer_at c pidx of
       None \<Rightarrow> peer_timers E rest now
     | Some peer \<Rightarrow>
         if is_due (keepalive_due (pe_sessions peer)) now
         then do {
           modify (upd_peer pidx (upd_sessions (keepalive_due_update (\<lambda>_. None))));
           c \<leftarrow> peek;
           (case usable_session c pidx now of
              Some sidx \<Rightarrow> do { _ \<leftarrow> encrypt_and_send E pidx sidx [] now; ret () }
            | None \<Rightarrow> ret ());
           ret (Some True) }
         else if is_due (persistent_keepalive_due (pe_sessions peer)) now
         then do { fire_persistent_keepalive E pidx peer now; ret (Some True) }
         else if is_due (reply_due (pe_sessions peer)) now
         then do {
           modify (upd_peer pidx (upd_sessions (reply_due_update (\<lambda>_. None))));
           _ \<leftarrow> ensure_handshake E pidx now;
           ret (Some True) }
         else peer_timers E rest now }"

definition timeout :: "('r, 'p) env \<Rightarrow> instant \<Rightarrow> ('r, 'p, bool) action" where
  "timeout E now = do {
     expired \<leftarrow> zoom c_pending (\<lambda>p. c_pending_update (\<lambda>_. p)) (expire_one now);
     if expired then ret True
     else do {
       expired \<leftarrow> expire_one_resolve E now;
       if expired then ret True
       else do {
         promoted \<leftarrow> promote_due_reconcile now;
         if promoted then ret True
         else do {
           slot_fired \<leftarrow> slot_timers E (map word_of_nat [0..<MAX_SESSIONS E]) now;
           case slot_fired of
             Some b \<Rightarrow> ret b
           | None \<Rightarrow> do {
               peer_fired \<leftarrow> peer_timers E (map word_of_nat [0..<MAX_PEERS E]) now;
               ret (case peer_fired of Some b \<Rightarrow> b | None \<Rightarrow> False) } } } } }"

definition handle_timeout :: "('r, 'p) env \<Rightarrow> instant \<Rightarrow> ('r, 'p, bool) action" where
  "handle_timeout E now = do {
     fired \<leftarrow> timeout E now;
     (if fired then arm_timer now
      else modify (\<lambda>c. c\<lparr>c_timers := timer_set_exact (c_timers c) (scan_deadlines c)\<rparr>));
     flush_sink_output E;
     ret fired }"

section \<open>Construction\<close>

definition is_power_of_two :: "usize \<Rightarrow> bool" where
  "is_power_of_two n \<longleftrightarrow> n \<in> set (map (\<lambda>k. 2 ^ k) [0..<64])"

definition validate_pool_parameters :: "('r, 'p) env \<Rightarrow> unit result" where
  "validate_pool_parameters E =
     (if MAX_PEERS E = 0 \<or> MAX_SESSIONS E = 0 \<or> REPLAY_WORDS E = 0 \<or> MAX_PEERS E > 2 ^ 32 - 1 \<or> MAX_SESSIONS E > 2 ^ 32 - 1
      then Inl InvalidCapacity
      else if MAX_PEERS E \<le> 1 \<or> \<not> is_power_of_two (MAX_PEERS E) \<or> MAX_SESSIONS E \<le> 1 \<or> \<not> is_power_of_two (MAX_SESSIONS E)
      then Inl InvalidCapacity
      else Inr ())"

text \<open>The checks of one pinned peer against our key, the peers before it, and all pinned peers.\<close>

definition pinned_peer_ok :: "('r, 'p) env \<Rightarrow> bytes \<Rightarrow> pinned_peer list \<Rightarrow> usize \<Rightarrow> bool" where
  "pinned_peer_ok E s_pub pinned i =
     (let peer = pinned ! i; previous = take i pinned
      in pin_public_key peer \<noteq> s_pub
         \<and> list_all (\<lambda>other. pin_public_key other \<noteq> pin_public_key peer) previous
         \<and> (case pin_relay peer of
              None \<Rightarrow> True
            | Some relay_key \<Rightarrow> relay_key \<noteq> pin_public_key peer
                \<and> (case List.find (\<lambda>candidate. pin_public_key candidate = relay_key) pinned of
                     None \<Rightarrow> False
                   | Some relay \<Rightarrow> pin_endpoint relay \<noteq> None \<and> pin_relay relay = None))
         \<and> network_length (pin_address peer) \<noteq> 0
         \<and> list_all (\<lambda>other. \<not> cidrs_overlap (e_contains E) (pin_address other) (pin_address peer)) previous)"

definition core_empty :: "('r, 'p) env \<Rightarrow> core_config \<Rightarrow> bytes \<Rightarrow> 'r \<Rightarrow> 'p \<Rightarrow> cookie_secret \<Rightarrow> instant \<Rightarrow> ('r, 'p) core" where
  "core_empty E cfg s_priv rng policy secret now =
     (let s_pub = public_key (e_crypto E) s_priv
      in \<lparr>c_rng = rng, c_relay_policy = policy, c_config = cfg, c_s_priv = s_priv, c_s_pub = s_pub,
          c_mac1_key = mac1_key (e_crypto E) s_pub, c_cookie_key = cookie_key (e_crypto E) s_pub,
          c_peers = replicate (MAX_PEERS E) None, c_by_key = [], c_slots = replicate (MAX_SESSIONS E) Free,
          c_indices = index_new (MAX_SESSIONS E), c_routes = routes_new (MAX_ROUTES E), c_timers = timer_new,
          c_pending = pool_new MAX_PENDING_PACKETS, c_initiations = replicate MAX_PENDING_INITIATIONS None,
          c_resolves = [], c_evictions = [], c_reconciles = [], c_next_resolve_id = 1, c_cookie_secret = secret,
          c_rate = limiter_new (rate_limit_per_sec cfg) (rate_limit_burst cfg) (rate_limit_entries cfg),
          c_remote_resolves = bucket_new (remote_resolve_per_sec cfg) (remote_resolve_burst cfg) now,
          c_unknown_auth = bucket_new (unknown_auth_per_sec cfg) (unknown_auth_burst cfg) now,
          c_peer_evictions = interval_new (peer_eviction_interval cfg) (peer_eviction_burst cfg) now,
          c_ghosts = replicate MAX_PEER_EVICTION_GHOSTS None,
          c_firewall = with_limits_and_timeouts MAX_FIREWALL_FLOWS (MAX_PEERS E) (firewall_flow_entries cfg)
            (firewall_flows_per_peer cfg)
            \<lparr>udp_timeout = firewall_udp_timeout cfg, icmp_timeout = firewall_icmp_timeout cfg,
             tcp_timeout = firewall_tcp_timeout cfg, tcp_closing_timeout = firewall_tcp_closing_timeout cfg\<rparr>,
          c_wall = None, c_last_ts = replicate TIMESTAMP_LEN 0, c_hs_window_start = now, c_hs_window_count = 0,
          c_hs_prev_count = 0, c_scratch = replicate MAX_UDP_SIZE 0, c_relay_scratch = replicate MAX_UDP_SIZE 0,
          c_sink = [], c_panicked = False\<rparr>)"

fun install_pinned :: "('r, 'p) env \<Rightarrow> (usize \<times> pinned_peer) list \<Rightarrow> instant \<Rightarrow> ('r, 'p, unit) fallible" where
  "install_pinned E [] now = ok ()"
| "install_pinned E ((i, p) # rest) now = do {
     c \<leftarrow> peek;
     and_then (lift (dh (e_crypto E) (c_s_priv c) (pin_public_key p))) (\<lambda>shared.
     and_then (install_peer E (word_of_nat i) (peer_new (pin_public_key p) Pinned shared (pin_endpoint p) (pin_relay p)
                 (pin_inbound_policy p) (pin_persistent_keepalive p) (pin_address p) now)) (\<lambda>_.
     and_then (on_routes (\<lambda>rc. route_insert rc (pin_address p) (word_of_nat i) True now) (Inl InternalInvariant)) (\<lambda>_.
     install_pinned E rest now))) }"

definition core_new :: "('r, 'p) env \<Rightarrow> engine_config \<Rightarrow> 'r \<Rightarrow> 'p \<Rightarrow> instant \<Rightarrow> ('r, 'p) core result" where
  "core_new E config rng policy now =
     rbind (validate_pool_parameters E) (\<lambda>_.
     let s_priv = ec_private_key config; pinned = ec_pinned config; cfg = ec_core_config config
     in rbind (validate_against_limits cfg) (\<lambda>_.
        if lazy_peer_reserve cfg > MAX_PEERS E then Inl InvalidCapacity
        else if list_all (\<lambda>b. b = 0) s_priv then Inl InvalidPrivateKey
        else if length pinned > MAX_PEERS E then Inl PeerTableFull
        else if \<not> list_all (pinned_peer_ok E (public_key (e_crypto E) s_priv) pinned) [0..<length pinned]
        then Inl InvalidPinnedConfiguration
        else
          let (secret, rng) = cookie_secret_new (e_crypto E) rng now;
              (r, core) = run_state (install_pinned E (enumerate 0 pinned) now) (core_empty E cfg s_priv rng policy secret now)
          in rbind r (\<lambda>_. Inr core)))"

section \<open>Snapshots\<close>

datatype peer_connection_state = Idle | Handshaking | AwaitingConfirmation | EstablishedConn | Rekeying

record peer_snapshot =
  sn_public_key :: bytes
  sn_origin :: peer_kind
  sn_endpoint :: "socket_addr option"
  sn_endpoint_confirmed :: bool
  sn_relay :: "bytes option"
  sn_address :: ip_cidr
  sn_persistent_keepalive :: "duration option"
  sn_connection :: peer_connection_state
  sn_latest_handshake :: "instant option"
  sn_last_activity :: instant
  sn_rx_bytes :: u64
  sn_tx_bytes :: u64

definition links_established :: "('r, 'p) core \<Rightarrow> slot_idx option \<Rightarrow> bool" where
  "links_established c link =
     (case link of Some sidx \<Rightarrow> (case slot_at c sidx of Some (Established _) \<Rightarrow> True | _ \<Rightarrow> False) | None \<Rightarrow> False)"

definition links_initiating :: "('r, 'p) core \<Rightarrow> slot_idx option \<Rightarrow> bool" where
  "links_initiating c link =
     (case link of Some sidx \<Rightarrow> (case slot_at c sidx of Some (Initiating _) \<Rightarrow> True | _ \<Rightarrow> False) | None \<Rightarrow> False)"

definition connection_state :: "('r, 'p) core \<Rightarrow> peer_entry \<Rightarrow> peer_connection_state" where
  "connection_state c peer =
     (let ps = pe_sessions peer; has_current = links_established c (ps_current ps);
          has_next = links_established c (ps_next ps); has_handshake = links_initiating c (ps_handshake ps)
      in if has_current \<and> (has_handshake \<or> has_next) then Rekeying
         else if has_current then EstablishedConn
         else if has_next then AwaitingConfirmation
         else if has_handshake then Handshaking
         else Idle)"

definition peer_snapshots :: "('r, 'p) core \<Rightarrow> peer_snapshot list" where
  "peer_snapshots c = map (\<lambda>peer.
     \<lparr>sn_public_key = pe_public_key peer, sn_origin = pe_kind peer, sn_endpoint = pe_endpoint peer,
      sn_endpoint_confirmed = (endpoint_confirmed peer \<noteq> None), sn_relay = pe_relay peer, sn_address = pe_address peer,
      sn_persistent_keepalive = persistent_keepalive peer, sn_connection = connection_state c peer,
      sn_latest_handshake = latest_handshake peer, sn_last_activity = last_activity peer,
      sn_rx_bytes = rx_bytes peer, sn_tx_bytes = tx_bytes peer\<rparr>) (List.map_filter id (c_peers c))"

section \<open>A keepalive that cannot be sent\<close>

text \<open>
  When a persistent keepalive is due for a peer with a usable session that cannot be reached, because it has no endpoint or its
  relay is not in the peer table, its deadline is cleared, nothing is sent, and nothing arms it again.
\<close>

lemma unreachable_keepalive_forgotten:
  assumes "peer_at c pidx = Some peer" "usable_session c pidx now = Some sidx"
    and "case pe_relay peer of None \<Rightarrow> pe_endpoint peer = None | Some relay_key \<Rightarrow> find_peer c relay_key = None"
  shows "run_state (fire_persistent_keepalive E pidx peer now) c =
    ((), put_peer pidx (upd_sessions (persistent_keepalive_due_update (\<lambda>_. None)) peer) c)"
proof -
  let ?peer = "upd_sessions (persistent_keepalive_due_update (\<lambda>_. None)) peer"
  let ?c = "put_peer pidx ?peer c"
  have at: "peer_at ?c pidx = Some ?peer" using assms(1) by (auto simp: peer_at_def peer_in_def put_peer_def get_at_def split: if_splits option.splits)
  have "slot_at ?c s = slot_at c s" for s by (simp add: slot_at_def put_peer_def)
  then have "usable_session ?c pidx now = Some sidx" using assms(1,2) at
    by (auto simp: usable_session_def upd_sessions_def split: option.splits slot.splits if_splits)
  moreover have "find_peer ?c k = find_peer c k" for k by (simp add: find_peer_def put_peer_def)
  moreover have "pe_relay ?peer = pe_relay peer" "pe_endpoint ?peer = pe_endpoint peer" by (simp_all add: upd_sessions_def)
  ultimately show ?thesis using assms at
    by (auto simp: fire_persistent_keepalive_def upd_peer_def encrypt_and_send_def encrypt_via_relay_def relay_path_def run_simps split: option.splits)
qed

end
