(* ===== verification/Core_Receive_Tables.thy ===== *)
theory Core_Receive_Tables
  imports Core_Transport_Tables Core_Timers
begin

text \<open>
  The receiving half, the resolver and the timers keep the tables consistent; the invariant of the
  whole engine over all entry points is in \<open>Engine\<close>.
\<close>

section \<open>Slots that change their index, kind or owner's links\<close>

lemma index_replace_max: "index_replace m old new slot = (r, m') \<Longrightarrow> max_sessions m' = max_sessions m"
  by (auto simp: index_replace_def index_forget_def index_insert_def split: if_splits option.splits prod.splits sum.splits)

lemma tables_reindex:
  assumes t: "tables X peers slots keys idx" and s: "slot_in slots s = Some a" "local_index a = Some i"
    and b: "owner_of b = owner_of a" "local_index b = Some j" "slot_frame a b \<or> (\<exists>x y. a = Established x \<and> b = Established y)"
    and r: "index_replace idx i j s = (Inr (), idx')"
  shows "tables X peers (slots[unat s := b]) keys idx'"
proof -
  note bd = slot_in_bound [OF s(1)]
  have wf: "index_wf idx" "max_sessions idx = length slots" "slot_for idx i = Some s" using t s by (auto simp: tables_def indices_ok_def)
  note rep = index_replace_run [OF wf(1) r]
  have others: "local_index sl' \<noteq> Some i" if "slot_in slots q = Some sl'" "q \<noteq> s" for q sl'
    using t that wf(3) unfolding tables_def indices_ok_def by (metis option.inject)
  have fresh: "local_index sl' \<noteq> Some j" if "slot_in slots q = Some sl'" "i \<noteq> j" for q sl'
    using t that rep unfolding tables_def indices_ok_def by (metis option.distinct(1))
  have "indices_ok (slots[unat s := b]) idx'"
  proof (cases "i = j")
    case True
    then have "idx' = idx" using rep by simp
    with True indices_ok_slot_frame [of slots idx s a b] t s b show ?thesis by (simp add: tables_def)
  next
    case False
    then have "slot_for idx' = (slot_for idx)(i := None, j \<mapsto> s)" using rep by simp
    with t b s bd False others fresh rep index_replace_max [OF r] show ?thesis
      by (auto simp: tables_def indices_ok_def)
  qed
  moreover have "links_ok (slots[unat s := b]) k (pe_sessions q)" if "peer_in peers k = Some q" for k q
    using t that s b bd unfolding tables_def links_ok_def slot_frame_def by (fastforce split: slot.splits)
  moreover have "owners_ok X peers (slots[unat s := b])"
    using t owners_ok_slot_frame [OF _ s(1) b(1)] by (simp add: tables_def)
  ultimately show ?thesis using t by (simp add: tables_def)
qed

text \<open>A slot that no peer links may change its kind.\<close>

lemma tables_swap_held:
  assumes t: "tables X peers slots keys idx" and s: "slot_in slots s = Some a"
    and b: "owner_of b = owner_of a" "local_index b = local_index a"
    and free: "\<And>j p. peer_in peers j = Some p \<Longrightarrow> s \<notin> linked (pe_sessions p)"
  shows "tables X peers (slots[unat s := b]) keys idx"
proof -
  have "links_ok (slots[unat s := b]) j (pe_sessions p)" if "peer_in peers j = Some p" for j p
    using t free [OF that] that slot_in_bound [OF s] unfolding tables_def links_ok_def linked_iff by auto
  then show ?thesis
    using t indices_ok_slot_frame [OF _ s b(2)] owners_ok_slot_frame [OF _ s b(1)] by (simp add: tables_def)
qed

lemma links_ok_next:
  assumes "links_ok slots i ps" "slot_in slots s = Some (Established x)" "s_peer x = i" "s \<notin> linked ps \<or> ps_next ps = Some s"
  shows "links_ok slots i (commit_responder_install ps s)"
  using assms unfolding links_ok_def commit_responder_install_def sessions_wf_iff linked_iff by auto

lemma ensures_free_held: "ensures (tables_ok E {s}) (free_slot s) (\<lambda>_. tables_ok E {})"
proof (rule ensuresI)
  fix c x c' assume a: "tables_ok E {s} c" "run_state (free_slot s) c = (x, c')"
  show "tables_ok E {} c'"
  proof (cases "slot_at c s")
    case None
    with a have "c' = c" by (auto simp: free_slot_def)
    moreover have "tables_ok E {} c"
      using a(1) None unfolding tables_ok_def tables_def owners_ok_def slot_at_def by force
    ultimately show ?thesis by simp
  qed (use free_slot_held [OF a(1)] a(2) in auto)
qed

section \<open>Actions that touch none of the tables\<close>

lemma keeps_tables_routes [table_rules]: "keeps (tables_ok E X) (on_routes f d)"
  unfolding on_routes_def by (intro keep_rules keeps_tables_modify) simp_all

lemma keeps_tables_zoom:
  "(\<And>v c. c_peers (upd v c) = c_peers c \<and> c_slots (upd v c) = c_slots c \<and> c_by_key (upd v c) = c_by_key c \<and> c_indices (upd v c) = c_indices c) \<Longrightarrow>
   keeps (tables_ok E X) (zoom sel upd f)"
  by (rule keeps_zoom) (simp add: tables_ok_def)

lemma keeps_tables_queue [table_rules]:
  "keeps (tables_ok E X) alloc_resolve_id" "keeps (tables_ok E X) (try_push_resolve entry)"
  "keeps (tables_ok E X) (clear_negative q)" "keeps (tables_ok E X) (peer_is_ghosted k now)"
  "keeps (tables_ok E X) (remember_evicted_peer k now)" "keeps (tables_ok E X) (forget_reconcile k)"
  "keeps (tables_ok E X) (defer_reconcile i now)" "keeps (tables_ok E X) (push_reconcile E' p)"
  "keeps (tables_ok E X) (drop_parked w)" "keeps (tables_ok E X) (queue_peer_evicted E' k)"
  "keeps (tables_ok E X) (discard_answer E' k)" "keeps (tables_ok E X) (take_parked w)"
  "keeps (tables_ok E X) (park_pending_initiation rid src ci)" "keeps (tables_ok E X) (take_pending_initiation rid)"
  "keeps (tables_ok E X) (note_handshake_msg now)" "keeps (tables_ok E X) (equalize_unknown_identity_cost now)"
  unfolding alloc_resolve_id_def try_push_resolve_def clear_negative_def peer_is_ghosted_def remember_evicted_peer_def
    forget_reconcile_def defer_reconcile_def push_reconcile_def drop_parked_def discard_answer_def queue_peer_evicted_def
    take_parked_def park_pending_initiation_def take_pending_initiation_def note_handshake_msg_def equalize_unknown_identity_cost_def
  by (intro keep_rules table_rules keeps_tables_modify keeps_tables_zoom; simp add: Let_def)+

lemma keeps_tables_push [table_rules]: "keeps (tables_ok E X) (push_resolve entry)" "keeps (tables_ok E X) (mark_negative q now)"
  unfolding push_resolve_def mark_negative_def by (intro keep_rules table_rules keeps_tables_modify; simp)+

lemma keeps_tables_reconcile [table_rules]: "keeps (tables_ok E X) (queue_reconcile E' k now)"
  "keeps (tables_ok E X) (promote_due_reconcile now)"
  unfolding queue_reconcile_def promote_due_reconcile_def by (intro keep_rules table_rules keeps_tables_modify; simp)+

lemma keeps_kind [keep_rules]:
  "(k = KindOutbound \<Longrightarrow> keeps I m1) \<Longrightarrow> (\<And>s. k = KindInstall s \<Longrightarrow> keeps I (m2 s)) \<Longrightarrow> (k = KindNegative \<Longrightarrow> keeps I m3) \<Longrightarrow>
   (k = KindReconcile \<Longrightarrow> keeps I m4) \<Longrightarrow>
   keeps I (case k of KindOutbound \<Rightarrow> m1 | KindInstall s \<Rightarrow> m2 s | KindNegative \<Rightarrow> m3 | KindReconcile \<Rightarrow> m4)"
  by (cases k) simp_all

lemma keeps_query [keep_rules]:
  "(\<And>k. q = ByPublicKey k \<Longrightarrow> keeps I (m1 k)) \<Longrightarrow> (\<And>a. q = ByDstAddress a \<Longrightarrow> keeps I (m2 a)) \<Longrightarrow>
   keeps I (case q of ByPublicKey k \<Rightarrow> m1 k | ByDstAddress a \<Rightarrow> m2 a)"
  by (cases q) simp_all

lemma keeps_outcome [keep_rules]:
  "(\<And>i. oc = Found i \<Longrightarrow> keeps I (m1 i)) \<Longrightarrow> (oc = NotFound \<Longrightarrow> keeps I m2) \<Longrightarrow> (oc = Failed \<Longrightarrow> keeps I m3) \<Longrightarrow>
   keeps I (case oc of Found i \<Rightarrow> m1 i | NotFound \<Rightarrow> m2 | Failed \<Rightarrow> m3)"
  by (cases oc) simp_all

lemma keeps_tables_expire [table_rules]: "keeps (tables_ok E X) (expire_one_resolve E' now)"
  unfolding expire_one_resolve_def drop_pending_initiation_def by (intro keep_rules table_rules keeps_tables_modify; simp)

lemma keeps_tables_request [table_rules]:
  "keeps (tables_ok E X) (queue_peer_install k src now)" "keeps (tables_ok E X) (queue_outbound_resolution dst pkt now)"
  unfolding queue_peer_install_def queue_outbound_resolution_def Let_def
  by (intro keep_rules table_rules keeps_tables_modify keeps_tables_zoom; simp)+

lemma keeps_tables_install_request [table_rules]:
  "keeps (tables_ok E X) (request_peer_install k now)" "keeps (tables_ok E X) (request_relay_peer_install i k now)"
  unfolding request_peer_install_def request_relay_peer_install_def
  by (intro keep_rules table_rules keeps_tables_peer; simp add: peer_frame_def)+

lemma keeps_tables_offer [table_rules]: "keeps (tables_ok E X) (offer_resolves n E')"
  by (induction n) (auto intro!: keep_rules table_rules keeps_tables_modify)

lemma keeps_tables_flush [table_rules]: "keeps (tables_ok E X) (flush_sink_output E')"
  unfolding flush_sink_output_def by (intro keep_rules table_rules keeps_tables_modify; simp)

section \<open>Responding to an initiation\<close>

lemma keeps_tables_observe [table_rules]: "keeps (tables_ok E X) (observe_source pidx src now)"
proof (rule keepsI)
  fix c :: "('a, 'b) core" assume t: "tables_ok E X c"
  show "tables_ok E X (snd (run_state (observe_source pidx src now) c))"
  proof (cases "peer_at c pidx")
    case (Some p)
    let ?q = "snd (observe_direct_endpoint p src now)\<lparr>last_activity := now\<rparr>"
    have "peer_frame p ?q" by (simp add: observe_direct_endpoint_def peer_frame_def)
    then have "tables_ok E X (put_peer pidx ?q c)"
      using t Some tables_peer_frame [of X "c_peers c" "c_slots c" "c_by_key c" "c_indices c" pidx p ?q]
      by (simp add: tables_ok_def put_peer_def peer_at_def)
    then show ?thesis using Some
      by (auto simp: observe_source_def split_beta emit_def tables_ok_def)
  qed (use t in \<open>simp add: observe_source_def\<close>)
qed

lemma keeps_tables_mac2 [table_rules]:
  "keeps (tables_ok E X) (check_mac2_or_reply E' now src data mac1)" "keeps (tables_ok E X) (load_gate E' now src data)"
proof -
  show m: "keeps (tables_ok E X) (check_mac2_or_reply E' now src data mac1)" for mac1
    unfolding check_mac2_or_reply_def by (intro keep_rules table_rules keeps_tables_modify keeps_tables_zoom; simp)
  show "keeps (tables_ok E X) (load_gate E' now src data)"
    unfolding load_gate_def by (intro keep_rules table_rules m)
qed

text \<open>A responder session is installed in a free slot, or in place of the peer's unconfirmed one.\<close>

lemma responder_slot_tables:
  assumes t: "tables X peers slots keys idx" and p: "peer_in peers pidx = Some p" and s: "slot_in slots s = Some sl"
    and fit: "sl = Free \<and> ps_next (pe_sessions p) = None \<or> ps_next (pe_sessions p) = Some s" and sess: "s_peer sess = pidx"
    and ix: "(case local_index sl of Some i \<Rightarrow> index_replace idx i (s_local_index sess) s
              | None \<Rightarrow> index_insert idx (s_local_index sess) s) = (Inr u, idx')"
    and q: "pe_public_key q = pe_public_key p" "pe_sessions q = commit_responder_install (pe_sessions p) s"
  shows "tables X (peers[unat pidx := Some q]) (slots[unat s := Established sess]) keys idx'"
proof -
  note b = slot_in_bound [OF s]
  have l: "links_ok slots pidx (pe_sessions p)" using t p by (simp add: tables_def)
  have t1: "tables (insert s X) peers (slots[unat s := Established sess]) keys idx'"
  proof (cases "sl = Free")
    case True
    with tables_occupy [OF t _ _ _ p, of s "Established sess" "s_local_index sess" u idx'] s ix sess show ?thesis by simp
  next
    case False
    with fit l s obtain x where x: "sl = Established x" "s_peer x = pidx" unfolding links_ok_def by (metis option.inject)
    have "tables X peers (slots[unat s := Established sess]) keys idx'"
      by (rule tables_reindex [OF t s, of "s_local_index x" _ "s_local_index sess"]) (use x sess ix in simp_all)
    then show ?thesis by (rule tables_mono) blast
  qed
  have "s \<notin> linked (pe_sessions p) \<or> ps_next (pe_sessions p) = Some s"
    using fit linked_owner [OF l, of s] s by auto
  then have "links_ok (slots[unat s := Established sess]) pidx (pe_sessions q)"
    unfolding q using t1 p sess b by (intro links_ok_next [where x = sess]) (auto simp: tables_def)
  moreover have "linked (pe_sessions p) \<union> insert s X \<subseteq> linked (pe_sessions q) \<union> X"
    using fit by (auto simp: q linked_iff commit_responder_install_def)
  ultimately show ?thesis by (intro tables_relink [OF t1 p]) (simp_all add: q)
qed

lemma install_response_tables:
  assumes t: "tables_ok E {} c" and s: "slot_at c s = Some sl"
    and fit: "sl = Free \<or> (\<exists>p. peer_at c pidx = Some p \<and> ps_next (pe_sessions p) = Some s)" and sess: "s_peer sess = pidx"
  shows "tables_ok E {} (snd (run_state (install_response E pidx s sess mac1 msg src now) c))"
proof (cases "peer_at c pidx")
  case (Some p)
  let ?ix = "case local_index sl of Some i \<Rightarrow> on_indices (\<lambda>m. index_replace m i (s_local_index sess) s)
     | None \<Rightarrow> on_indices (\<lambda>m. index_insert m (s_local_index sess) s)"
  let ?pure = "case local_index sl of Some i \<Rightarrow> index_replace (c_indices c) i (s_local_index sess) s
     | None \<Rightarrow> index_insert (c_indices c) (s_local_index sess) s"
  let ?rest = "do { observe_source pidx src now;
     _ \<leftarrow> transmit_wire E pidx (Some src) msg now; ok () }"
  obtain ri idx' where ix: "?pure = (ri, idx')" by fastforce
  have run_ix: "run_state ?ix c = (ri, c\<lparr>c_indices := idx'\<rparr>)"
    using ix by (auto simp: on_indices_def run_simps split: option.splits)
  show ?thesis
  proof (cases "validate_responder_install (pe_sessions p) s")
    case (Inl e)
    then show ?thesis using Some t by (simp add: install_response_def)
  next
    case valid: (Inr u)
    then have next_ok: "ps_next (pe_sessions p) = None \<or> ps_next (pe_sessions p) = Some s"
      by (auto simp: validate_responder_install_def split: if_splits)
    show ?thesis
    proof (cases ri)
      case (Inl e)
      have "idx' = c_indices c"
      proof (cases "local_index sl")
        case None
        with ix Inl show ?thesis by (auto dest: index_insert_errD)
      next
        case (Some i)
        have "index_wf (c_indices c)" using t by (simp add: tables_ok_def tables_def indices_ok_def)
        from index_replace_run [OF this, of i "s_local_index sess" s "Inl e" idx'] Some ix Inl show ?thesis by simp
      qed
      then show ?thesis using Some valid s run_ix Inl t by (simp add: install_response_def run_simps)
    next
      case (Inr v)
      let ?q = "adopt_response s mac1 now p"
      let ?c1 = "c\<lparr>c_indices := idx', c_slots := (c_slots c)[unat s := Established sess],
        c_timers := timer_arm (c_timers c) (instant_add now REJECT_AFTER_TIME), c_peers := (c_peers c)[unat pidx := Some ?q]\<rparr>"
      have "tables {} ((c_peers c)[unat pidx := Some ?q]) ((c_slots c)[unat s := Established sess]) (c_by_key c) idx'"
        by (rule responder_slot_tables [of _ _ _ _ "c_indices c" _ p _ sl _ v])
          (use t Some s sess ix Inr fit next_ok in \<open>auto simp: tables_ok_def peer_at_def slot_at_def adopt_response_def\<close>)
      then have "tables_ok E {} ?c1" using t by (simp add: tables_ok_def)
      moreover have "keeps (tables_ok E {}) ?rest" by (intro keep_rules table_rules)
      ultimately have "tables_ok E {} (snd (run_state ?rest ?c1))" by (simp add: keeps_def)
      moreover have "run_state (install_response E pidx s sess mac1 msg src now) c = run_state ?rest ?c1"
        using Some valid s run_ix Inr by (simp add: install_response_def run_simps put_slot_def upd_peer_def peer_at_def put_peer_def arm_timer_def)
      ultimately show ?thesis by simp
    qed
  qed
qed (use t in \<open>simp add: install_response_def\<close>)

text \<open>The slot a response is prepared for.\<close>

definition response_slot :: "('r, 'p) env \<Rightarrow> peer_idx \<Rightarrow> slot_idx \<Rightarrow> bool \<Rightarrow> ('r, 'p) core \<Rightarrow> bool" where
  "response_slot E pidx s fresh c \<longleftrightarrow> tables_ok E {} c \<and>
     (if fresh then slot_at c s = Some Free else \<exists>p. peer_at c pidx = Some p \<and> ps_next (pe_sessions p) = Some s)"

lemma keeps_response_slot: "keeps (response_slot E pidx s fresh) (draw f)"
  by (auto simp: keeps_def draw_def run_simps response_slot_def tables_ok_def slot_at_def peer_at_def split: prod.splits)

lemma ensures_abandon: "ensures (response_slot E pidx s fresh) (abandon_response s fresh e) (\<lambda>_. tables_ok E {})"
  using keeps_tables_free_slot [of E s]
  by (auto simp: ensures_def abandon_response_def response_slot_def run_simps keeps_def split: prod.splits sum.splits)

lemma ensures_install_response:
  assumes "s_peer sess = pidx"
  shows "ensures (response_slot E pidx s fresh) (install_response E pidx s sess mac1 msg src now) (\<lambda>_. tables_ok E {})"
proof (rule ensuresI)
  fix c x c' assume r: "response_slot E pidx s fresh c" and run: "run_state (install_response E pidx s sess mac1 msg src now) c = (x, c')"
  obtain sl where sl: "slot_at c s = Some sl" "sl = Free \<or> (\<exists>p. peer_at c pidx = Some p \<and> ps_next (pe_sessions p) = Some s)"
  proof (cases fresh)
    case True
    then show ?thesis using r that by (auto simp: response_slot_def)
  next
    case False
    then obtain p where p: "tables_ok E {} c" "peer_at c pidx = Some p" "ps_next (pe_sessions p) = Some s"
      using r by (auto simp: response_slot_def)
    with links_okD [OF p(1,2)] obtain x where "slot_at c s = Some (Established x)" by (auto simp: links_ok_def slot_at_def)
    with that p show ?thesis by blast
  qed
  with install_response_tables [OF _ sl assms, of E mac1 msg src now] r run show "tables_ok E {} c'"
    by (auto simp: response_slot_def)
qed

lemma ensures_response_prepared:
  "ensures (response_slot E pidx s fresh) (modify (c_panicked_update f)) (\<lambda>_. tables_ok E {})"
  by (auto simp: ensures_def response_slot_def tables_ok_def)


lemma ensures_prepare_response:
  "ensures (response_slot E pidx s fresh) (prepare_response E pidx s fresh consumed src now) (\<lambda>_. tables_ok E {})"
  unfolding prepare_response_def
  by (intro ensures_keep_bind keeps_peek keeps_response_slot ensures_sum ensures_option ensures_prod ensures_abandon
      ensures_install_response ensures_bind [OF ensures_response_prepared])
    (simp_all add: ensures_def)

lemma keeps_tables_respond [table_rules]: "keeps (tables_ok E {}) (respond_to_initiation E pidx consumed src now)"
proof (rule keepsI)
  fix c :: "('a, 'b) core" assume t: "tables_ok E {} c"
  have prepared: "tables_ok E {} (snd (run_state (prepare_response E pidx s fresh consumed src now) c'))"
    if "response_slot E pidx s fresh c'" for s fresh and c' :: "('a, 'b) core"
    using ensures_prepare_response that unfolding ensures_def by blast
  show "tables_ok E {} (snd (run_state (respond_to_initiation E pidx consumed src now) c))"
  proof (cases "peer_at c pidx")
    case p: (Some p)
    obtain ra c1 where a: "run_state (alloc_slot now) c = (ra, c1)" by fastforce
    from alloc_slot_ok [OF t a] obtain x where x: "ra = Inr x" "tables_ok E {} c1"
      "\<And>s. x = Some s \<Longrightarrow> slot_at c1 s = Some Free" by auto
    show ?thesis
    proof (cases "ps_next (pe_sessions p)")
      case (Some s)
      then show ?thesis using p t by (simp add: respond_to_initiation_def prepared response_slot_def)
    next
      case None
      then show ?thesis using p a x by (cases x) (simp_all add: respond_to_initiation_def run_and_then prepared response_slot_def)
    qed
  qed (use t in \<open>simp add: respond_to_initiation_def\<close>)
qed

lemma keeps_tables_accept [table_rules]: "keeps (tables_ok E {}) (accept_authenticated_initiation E pidx consumed src now)"
  unfolding accept_authenticated_initiation_def
  by (intro keep_rules table_rules keeps_tables_peer) (simp_all add: peer_frame_def)

lemma keeps_tables_rx_initiation [table_rules]: "keeps (tables_ok E {}) (rx_initiation E now src data)"
  unfolding rx_initiation_def by (intro keep_rules table_rules keeps_tables_zoom) simp_all


section \<open>Completing a handshake\<close>

lemma observe_source_run:
  assumes "peer_at c i = Some p"
  shows "\<exists>q snk. run_state (observe_source i src now) c = ((), (put_peer i q c)\<lparr>c_sink := snk\<rparr>) \<and> peer_frame p q"
proof -
  let ?q = "snd (observe_direct_endpoint p src now)\<lparr>last_activity := now\<rparr>"
  have "peer_frame p ?q" by (simp add: observe_direct_endpoint_def peer_frame_def)
  then show ?thesis using assms
    by (intro exI [of _ ?q]) (cases "fst (observe_direct_endpoint p src now)";
      auto simp: observe_source_def split_beta emit_def put_peer_def intro: exI [of _ "c_sink c"])
qed

text \<open>The initiator's slot turns from a handshake into the current session in one step.\<close>

lemma tables_rotate:
  assumes t: "tables {} peers slots keys idx" and p: "peer_in peers i = Some p"
    and s: "slot_in slots s = Some (Initiating h)" "in_peer h = i" "ps_handshake (pe_sessions p) = Some s"
    and sess: "s_peer sess = i" "s_local_index sess = in_local_index h"
    and q: "pe_public_key q = pe_public_key p" "ps_current (pe_sessions q) = Some s"
      "ps_previous (pe_sessions q) = ps_current (pe_sessions p)" "ps_next (pe_sessions q) = ps_next (pe_sessions p)"
      "ps_handshake (pe_sessions q) = None" "attempt_deadline (pe_sessions q) = None"
  shows "tables (set_option (ps_previous (pe_sessions p))) (peers[unat i := Some q]) (slots[unat s := Established sess]) keys idx"
proof -
  let ?p = "upd_sessions (\<lambda>ps. unlink ps s) p"
  note b = peer_in_bound [OF p] slot_in_bound [OF s(1)]
  have l: "links_ok slots i (pe_sessions p)" using t p by (simp add: tables_def)
  have t1: "tables {s} (peers[unat i := Some ?p]) slots keys idx" using tables_unlink [OF t p] .
  have "s \<notin> linked (pe_sessions r)" if "peer_in (peers[unat i := Some ?p]) j = Some r" for j r
    using that b linked_disjoint [OF t p, of j r s] s(3)
    by (cases "j = i") (auto simp: upd_sessions_def linked_iff split: if_splits)
  with t1 have t2: "tables {s} (peers[unat i := Some ?p]) (slots[unat s := Established sess]) keys idx"
    using tables_swap_held [OF t1 s(1)] s(2) sess by simp
  have "links_ok (slots[unat s := Established sess]) i (pe_sessions q)"
    using l sess(1) b s(3) unfolding links_ok_def sessions_wf_iff q by auto
  moreover have "linked (pe_sessions ?p) \<union> {s} \<subseteq> linked (pe_sessions q) \<union> set_option (ps_previous (pe_sessions p))"
    using s(3) by (auto simp: upd_sessions_def linked_iff q)
  ultimately show ?thesis
    using tables_relink [OF t2, of i ?p q] b q(1) by (simp add: upd_sessions_def)
qed

lemma ensures_free_orphan: "ensures (tables_ok E (set_option old)) (case old of Some s \<Rightarrow> do { _ \<leftarrow> free_slot s; ret () } | None \<Rightarrow> ret ())
  (\<lambda>_. tables_ok E {})"
proof (cases old)
  case (Some s)
  with ensures_free_held [of E s] show ?thesis by (auto intro!: ensures_bind ensures_return)
qed (simp add: ensures_def)

lemma keeps_tables_flush_queue [table_rules]: "keeps (tables_ok E {}) (flush_handshake_queue n E pidx sidx now sent)"
  by (induction n arbitrary: sent) (auto intro!: keep_rules table_rules)

lemma complete_handshake_tables:
  assumes t: "tables_ok E {} c" and s: "slot_at c s = Some (Initiating h)" "in_peer h = i"
    and sess: "s_peer sess = i" "s_local_index sess = in_local_index h"
  shows "tables_ok E {} (snd (run_state (complete_handshake E i s sess src now) c))"
proof -
  have tb: "tables {} (c_peers c) (c_slots c) (c_by_key c) (c_indices c)" using t by (simp add: tables_ok_def)
  from tb s obtain p where p: "peer_at c i = Some p" "s \<in> linked (pe_sessions p)"
    unfolding tables_def owners_ok_def slot_at_def peer_at_def by (metis empty_iff owner_of.simps(2))
  with links_okD [OF t p(1)] s(1) have hs: "ps_handshake (pe_sessions p) = Some s"
    by (auto simp: links_ok_def linked_iff slot_at_def)
  note b = peer_in_bound [OF p(1) [unfolded peer_at_def]]
  let ?ps = "(pe_sessions p)\<lparr>ps_handshake := None, attempt_deadline := None, ps_previous := ps_current (pe_sessions p), ps_current := Some s\<rparr>"
  let ?q = "p\<lparr>pe_sessions := ?ps, latest_handshake := Some now\<rparr>"
  have inst: "install_initiator (pe_sessions p) s = (Inr (ps_previous (pe_sessions p)), ?ps)"
    using hs by (simp add: install_initiator_ok)
  have "peer_at (put_peer i ?q c) i = Some ?q" using b by (simp add: put_peer_def peer_at_def)
  from observe_source_run [OF this, of src now] obtain q snk where
    obs: "run_state (observe_source i src now) (put_peer i ?q c) = ((), (put_peer i q (put_peer i ?q c))\<lparr>c_sink := snk\<rparr>)"
    and fr: "peer_frame ?q q" by blast
  let ?c = "c\<lparr>c_peers := (c_peers c)[unat i := Some q], c_sink := snk,
     c_slots := (c_slots c)[unat s := Established sess], c_timers := timer_arm (c_timers c) (instant_add now REJECT_AFTER_TIME)\<rparr>"
  let ?free = "case ps_previous (pe_sessions p) of Some s \<Rightarrow> do { _ \<leftarrow> free_slot s; ret () } | None \<Rightarrow> ret ()"
  let ?rest = "do { c \<leftarrow> peek;
      sent_any \<leftarrow> flush_handshake_queue (length (c_pending c)) E i s now False;
      if sent_any then ret () else do { _ \<leftarrow> encrypt_and_send E i s [] now; ret () } }"
  have "tables (set_option (ps_previous (pe_sessions p))) ((c_peers c)[unat i := Some q])
      ((c_slots c)[unat s := Established sess]) (c_by_key c) (c_indices c)"
    by (rule tables_rotate [OF tb, of i p s h]) (use p s hs sess fr in \<open>auto simp: peer_at_def slot_at_def peer_frame_def\<close>)
  then have "tables_ok E (set_option (ps_previous (pe_sessions p))) ?c" using t by (simp add: tables_ok_def)
  moreover have "ensures (tables_ok E (set_option (ps_previous (pe_sessions p)))) (do { ?free; ?rest }) (\<lambda>_. tables_ok E {})"
    by (rule ensures_bind [OF ensures_free_orphan]) (unfold ensures_keeps, intro keep_rules table_rules)
  ultimately have "tables_ok E {} (snd (run_state (do { ?free; ?rest }) ?c))" by (simp only: ensures_def)
  moreover have "run_state (complete_handshake E i s sess src now) c = run_state (do { ?free; ?rest }) ?c"
    using p(1) inst obs by (simp add: complete_handshake_def put_slot_def arm_timer_def put_peer_def)
  ultimately show ?thesis by simp
qed

lemma ensures_complete:
  assumes "slot_at c s = Some (Initiating h)" "s_local_index x = in_local_index h"
  shows "ensures (\<lambda>c'. c' = c \<and> tables_ok E {} c') (do {
     rekey_after \<leftarrow> draw f;
     complete_handshake E (in_peer h) s (x\<lparr>s_peer := in_peer h, s_rekey_after := rekey_after\<rparr>) src now }) (\<lambda>_. tables_ok E {})"
proof (rule ensures_bind)
  show "ensures (\<lambda>c'. c' = c \<and> tables_ok E {} c') (draw f) (\<lambda>_ c'. tables_ok E {} c' \<and> slot_at c' s = Some (Initiating h))"
    using assms(1) keeps_tables_draw [of E "{}" f]
    by (auto simp: ensures_def keeps_def) (simp add: draw_def run_simps slot_at_def split: prod.splits)
  show "ensures (\<lambda>c'. tables_ok E {} c' \<and> slot_at c' s = Some (Initiating h))
      (complete_handshake E (in_peer h) s (x\<lparr>s_peer := in_peer h, s_rekey_after := ra\<rparr>) src now) (\<lambda>_. tables_ok E {})" for ra
    using assms(2) by (auto simp: ensures_def intro!: complete_handshake_tables)
qed

lemma session_new_index: "session_new w keys role li ri now = Some x \<Longrightarrow> s_local_index x = li"
  by (auto simp: session_new_def split: option.splits if_splits)

lemma ensures_slot:
  "(sl = Free \<Longrightarrow> ensures P m Q) \<Longrightarrow> (\<And>h. sl = Initiating h \<Longrightarrow> ensures P (n h) Q) \<Longrightarrow> (\<And>s. sl = Established s \<Longrightarrow> ensures P (k s) Q) \<Longrightarrow>
   ensures P (case sl of Free \<Rightarrow> m | Initiating h \<Rightarrow> n h | Established s \<Rightarrow> k s) Q"
  by (cases sl) simp_all

lemmas ensures_cases = ensures_if ensures_option ensures_sum ensures_prod ensures_slot

lemma keeps_tables_rx_response [table_rules]: "keeps (tables_ok E {}) (rx_response E now src data)"
  unfolding rx_response_def ensures_keeps [symmetric]
  by (intro ensures_keep_bind keeps_tables_mac2 ensures_peek_bind ensures_cases ensures_complete)
    (auto simp: ensures_def tables_ok_def session_new_index)

lemma keeps_tables_rx_cookie [table_rules]: "keeps (tables_ok E {}) (rx_cookie_reply E now data)"
  unfolding rx_cookie_reply_def by (intro keep_rules table_rules keeps_tables_peer) (simp_all add: peer_frame_def)


section \<open>Transport data\<close>

lemma tables_confirm:
  assumes t: "tables {} peers slots keys idx" and p: "peer_in peers i = Some p" "ps_next (pe_sessions p) = Some s"
    and q: "pe_public_key q = pe_public_key p"
      "pe_sessions q = (pe_sessions p)\<lparr>ps_next := None, ps_previous := ps_current (pe_sessions p), ps_current := Some s\<rparr>"
  shows "tables (set_option (ps_previous (pe_sessions p))) (peers[unat i := Some q]) slots keys idx"
proof -
  have l: "links_ok slots i (pe_sessions p)" using t p by (simp add: tables_def)
  then have "links_ok slots i (pe_sessions q)"
    using p(2) unfolding links_ok_def sessions_wf_iff q(2) by auto
  moreover have "linked (pe_sessions p) \<union> {} \<subseteq> linked (pe_sessions q) \<union> set_option (ps_previous (pe_sessions p))"
    using p(2) by (auto simp: linked_iff q(2))
  ultimately show ?thesis by (intro tables_relink [OF t p(1)]) (simp_all add: q(1))
qed

lemma ensures_confirm_session:
  "ensures (tables_ok E {}) (confirm_session pidx s)
     (\<lambda>r. case r of None \<Rightarrow> tables_ok E {} | Some freed \<Rightarrow> tables_ok E (set_option freed))"
proof (rule ensuresI)
  fix c :: "('a, 'b) core" and r c' assume t: "tables_ok E {} c" and run: "run_state (confirm_session pidx s) c = (r, c')"
  show "(case r of None \<Rightarrow> tables_ok E {} | Some freed \<Rightarrow> tables_ok E (set_option freed)) c'"
  proof (cases "\<exists>p. peer_at c pidx = Some p \<and> ps_next (pe_sessions p) = Some s")
    case False
    then show ?thesis using run t by (auto simp: confirm_session_def split: option.splits if_splits)
  next
    case True
    then obtain p where p: "peer_at c pidx = Some p" "ps_next (pe_sessions p) = Some s" by blast
    with links_okD [OF t p(1)] obtain x where x: "slot_at c s = Some (Established x)" by (auto simp: links_ok_def slot_at_def)
    let ?ps = "(pe_sessions p)\<lparr>ps_next := None, ps_previous := ps_current (pe_sessions p), ps_current := Some s\<rparr>"
    have cf: "confirm_responder (pe_sessions p) s = (Inr (ps_previous (pe_sessions p)), ?ps)"
      using p(2) by (simp add: confirm_responder_ok)
    let ?c = "put_peer pidx (p\<lparr>pe_sessions := ?ps\<rparr>) c"
    have "tables_ok E (set_option (ps_previous (pe_sessions p))) ?c"
      using tables_confirm [of "c_peers c" "c_slots c" "c_by_key c" "c_indices c" pidx p s "p\<lparr>pe_sessions := ?ps\<rparr>"] t p
      by (simp add: tables_ok_def put_peer_def peer_at_def)
    moreover have "slot_at ?c s = Some (Established x)" using x by (simp add: put_peer_def slot_at_def)
    ultimately have "tables_ok E (set_option (ps_previous (pe_sessions p))) (put_slot s (Established (x\<lparr>s_confirmed := True\<rparr>)) ?c)"
      by (intro keeps_tables_slot_update [of _ _ x]) simp_all
    then show ?thesis using run p cf x by (auto simp: confirm_session_def)
  qed
qed

lemma keeps_tables_note [table_rules]: "keeps (tables_ok E X) (note_received pidx n keepalive now)"
  unfolding note_received_def
  by (intro keep_rules table_rules keeps_tables_peer)
    (simp_all add: peer_frame_def received_peer_def rearm_received_def upd_sessions_def Let_def)

lemma ensures_account_received:
  "ensures (tables_ok E (set_option freed)) (account_received E pidx src n keepalive freed now) (\<lambda>_. tables_ok E {})"
  unfolding account_received_def by (intro ensures_keep_bind ensures_free_orphan table_rules)

lemma ensures_slot_write:
  assumes "slot_at c s = Some (Established x)" "s_peer y = s_peer x" "s_local_index y = s_local_index x"
  shows "ensures (\<lambda>c'. c' = c \<and> tables_ok E X c') (modify (put_slot s (Established y))) (\<lambda>_. tables_ok E X)"
  using keeps_tables_slot_update [OF assms] by (simp add: ensures_def)

lemma ensures_state: "keeps I m \<Longrightarrow> ensures (\<lambda>c'. c' = c \<and> I c') m (\<lambda>_. I)"
  by (simp add: ensures_def keeps_def)

lemma keeps_tables_rekey [table_rules]: "keeps (tables_ok E {}) (receive_rekey E pidx s sess now)"
  unfolding receive_rekey_def ensures_keeps [symmetric]
  by (intro ensures_if ensures_peek_bind ensures_bind [where R = "\<lambda>_. tables_ok E {}"] ensures_option ensures_slot
      ensures_slot_write ensures_state)
    (simp_all add: ensures_keeps keep_rules table_rules)

lemma keeps_tables_rx_relay [table_rules]: "keeps (tables_ok E {}) (rx_relay E pidx inner now)"
  unfolding rx_relay_def by (intro keep_rules table_rules keeps_tables_zoom) simp_all

lemma keeps_tables_deliver [table_rules]: "keeps (tables_ok E {}) (deliver_inner E pidx src inner now)"
  unfolding deliver_inner_def by (intro keep_rules table_rules keeps_tables_zoom) simp_all

lemma keeps_tables_rx_data [table_rules]: "keeps (tables_ok E {}) (rx_data E now src data is_relay)"
proof -
  have received: "ensures (tables_ok E {}) (do {
       confirmed \<leftarrow> confirm_session pidx s;
       case confirmed of
         None \<Rightarrow> ret ()
       | Some freed \<Rightarrow> do { account_received E pidx src n keepalive freed now; rest } }) (\<lambda>_. tables_ok E {})"
    if "keeps (tables_ok E {}) rest" for pidx s n keepalive and rest :: "('a, 'b, unit) action"
    by (intro ensures_bind [OF ensures_confirm_session] ensures_option ensures_return
        ensures_bind [where R = "\<lambda>_. tables_ok E {}"] ensures_weaken [OF ensures_account_received])
      (use that in \<open>auto simp: ensures_keeps\<close>)
  show ?thesis unfolding rx_data_def ensures_keeps [symmetric] Let_def
    by (intro ensures_peek_bind ensures_cases ensures_bind [OF ensures_slot_write] received keep_rules table_rules)
      (simp_all add: ensures_def)
qed


section \<open>Dispatch and the outbound path\<close>

lemma keeps_message [keep_rules]:
  "(m = Initiation \<Longrightarrow> keeps I a1) \<Longrightarrow> (m = Response \<Longrightarrow> keeps I a2) \<Longrightarrow> (m = CookieReplyMsg \<Longrightarrow> keeps I a3) \<Longrightarrow>
   (m = Data \<Longrightarrow> keeps I a4) \<Longrightarrow> (m = RelayData \<Longrightarrow> keeps I a5) \<Longrightarrow>
   keeps I (case m of Initiation \<Rightarrow> a1 | Response \<Rightarrow> a2 | CookieReplyMsg \<Rightarrow> a3 | Data \<Rightarrow> a4 | RelayData \<Rightarrow> a5)"
  by (cases m) simp_all

lemma keeps_tables_datagram [table_rules]: "keeps (tables_ok E {}) (datagram E now src data)"
  unfolding datagram_def by (intro keep_rules table_rules)

lemma keeps_tables_receive: "keeps (tables_ok E {}) (receive_outer E now src data)"
  unfolding receive_outer_def by (intro keep_rules table_rules)

lemma keeps_tables_outbound [table_rules]: "keeps (tables_ok E {}) (outbound E now packet)"
  unfolding outbound_def by (intro keep_rules table_rules)

lemma keeps_tables_send_inner: "keeps (tables_ok E {}) (send_inner E now packet)"
  unfolding send_inner_def by (intro keep_rules table_rules)

end
