(* ===== verification/Engine_Tables.thy ===== *)
theory Engine_Tables
  imports Core_Receive_Tables
begin

text \<open>
  Admission and eviction of peers, the resolver answers, the timers and the construction of the
  engine keep the tables consistent. Together with the sending and the receiving half this covers
  every entry point.
\<close>

section \<open>Admitting a peer\<close>

lemma links_ok_default: "links_ok slots i (sessions_default\<lparr>persistent_keepalive_due := d\<rparr>)"
  by (simp add: links_ok_def) (simp add: sessions_default_def)

lemma peer_in_vacant: "get_at peers (unat i) = Some None \<Longrightarrow> peer_in peers i = None \<and> unat i < length peers"
  by (auto simp: peer_in_def get_at_def split: if_splits)

lemma keys_ok_install:
  assumes k: "keys_ok peers keys" and v: "get_at peers (unat i) = Some None" "map_of keys (pe_public_key p) = None"
  shows "keys_ok (peers[unat i := Some p]) (keys @ [(pe_public_key p, i)])"
proof -
  note i = peer_in_vacant [OF v(1)]
  have d: "distinct (map fst keys)" and m: "\<And>k j. map_of keys k = Some j \<longleftrightarrow> (\<exists>q. peer_in peers j = Some q \<and> pe_public_key q = k)"
    using k by (simp_all add: keys_ok_def)
  have "pe_public_key p \<notin> fst ` set keys" using v(2) by (simp add: map_of_eq_None_iff)
  with d have "distinct (map fst (keys @ [(pe_public_key p, i)]))" by auto
  moreover have "map_of (keys @ [(pe_public_key p, i)]) k = (if k = pe_public_key p then Some i else map_of keys k)" for k
    using v(2) by (simp add: map_add_def split: option.splits)
  moreover have "pe_public_key q \<noteq> pe_public_key p" if "peer_in peers j = Some q" for j q
    using m v(2) that by (metis option.distinct(1))
  ultimately show ?thesis
    using i m unfolding keys_ok_def by simp
qed

lemma tables_install:
  assumes t: "tables X peers slots keys idx" and v: "get_at peers (unat i) = Some None" "map_of keys (pe_public_key p) = None"
    and p: "links_ok slots i (pe_sessions p)"
  shows "tables X (peers[unat i := Some p]) slots (keys @ [(pe_public_key p, i)]) idx"
proof -
  note i = peer_in_vacant [OF v(1)]
  have "owners_ok X (peers[unat i := Some p]) slots"
    using t i unfolding tables_def owners_ok_def by (metis option.distinct(1) peer_in_update)
  with t p i keys_ok_install [OF _ v] show ?thesis by (auto simp: tables_def)
qed

lemma keeps_tables_install_peer:
  assumes p: "pe_sessions p = sessions_default\<lparr>persistent_keepalive_due := d\<rparr>"
  shows "keeps (tables_ok E X) (install_peer E i p)"
proof (rule keepsI)
  fix c :: "('a, 'b) core" assume t: "tables_ok E X c"
  show "tables_ok E X (snd (run_state (install_peer E i p) c))"
  proof (cases "get_at (c_peers c) (unat i) = Some None \<and> find_peer c (pe_public_key p) = None \<and> length (c_by_key c) < MAX_PEERS E")
    case True
    then have "tables X ((c_peers c)[unat i := Some p]) (c_slots c) (c_by_key c @ [(pe_public_key p, i)]) (c_indices c)"
      using t links_ok_default p by (intro tables_install) (simp_all add: tables_ok_def find_peer_def)
    then show ?thesis using True t p
      by (auto simp: install_peer_def run_simps on_keys_def key_insert_def find_peer_def put_peer_def arm_timer_def tables_ok_def
          split: option.splits)
  next
    case False
    then show ?thesis using t
      by (auto simp: install_peer_def run_simps on_keys_def key_insert_def find_peer_def tables_ok_def split: option.splits)
  qed
qed

lemma peer_new_sessions: "\<exists>d. pe_sessions (peer_new k kind sh ep relay pol ka addr now) = sessions_default\<lparr>persistent_keepalive_due := d\<rparr>"
  by (auto simp: peer_new_def Let_def)

lemma keeps_tables_install_new [table_rules]:
  "keeps (tables_ok E X) (install_peer E i (peer_new k kind sh ep relay pol ka addr now))"
  using peer_new_sessions [of k kind sh ep relay pol ka addr now] keeps_tables_install_peer by blast

section \<open>Evicting a peer\<close>

lemma map_of_key_remove: "map_of (key_remove k keys) = (map_of keys)(k := None)"
  by (induction keys) (auto simp: key_remove_def fun_eq_iff)

lemma tables_remove_peer:
  assumes t: "tables {} peers slots keys idx" and p: "peer_in peers i = Some p" "linked (pe_sessions p) = {}"
  shows "tables {} (peers[unat i := None]) slots (key_remove (pe_public_key p) keys) idx"
proof -
  note b = peer_in_bound [OF p(1)]
  have k: "keys_ok peers keys" using t by (simp add: tables_def)
  have other: "pe_public_key q \<noteq> pe_public_key p" if "peer_in peers j = Some q" "j \<noteq> i" for j q
    using k that p(1) unfolding keys_ok_def by (metis option.inject)
  have "distinct (map fst (key_remove (pe_public_key p) keys))"
    using k by (simp add: keys_ok_def key_remove_def distinct_map_filter)
  then have "keys_ok (peers[unat i := None]) (key_remove (pe_public_key p) keys)"
    using k b p(1) other unfolding keys_ok_def by (auto simp: map_of_key_remove)
  moreover have "owners_ok {} (peers[unat i := None]) slots"
    using t p b unfolding tables_def owners_ok_def by (auto; metis empty_iff option.inject)
  ultimately show ?thesis using t b by (auto simp: tables_def)
qed

lemma release_slots_run:
  assumes "tables {} peers (c_slots c) keys (c_indices c)" "peer_in peers i = Some p" "linked (pe_sessions p) = set ss" "distinct ss"
  shows "\<exists>slots idx q. run_state (release_slots ss) c = (Inr (), c\<lparr>c_slots := slots, c_indices := idx\<rparr>) \<and>
    length slots = length (c_slots c) \<and> tables {} (peers[unat i := Some q]) slots keys idx \<and> linked (pe_sessions q) = {} \<and>
    pe_public_key q = pe_public_key p"
  using assms
proof (induction ss arbitrary: c peers p)
  case Nil
  moreover from this have "peers[unat i := Some p] = peers"
    using list_update_id [of peers "unat i"] by (auto simp: peer_in_nth)
  ultimately show ?case by (intro exI [of _ "c_slots c"] exI [of _ "c_indices c"] exI [of _ p]) simp
next
  case (Cons s ss)
  let ?p = "upd_sessions (\<lambda>ps. unlink ps s) p" let ?peers = "peers[unat i := Some ?p]"
  note b = peer_in_bound [OF Cons.prems(2)]
  have l: "links_ok (c_slots c) i (pe_sessions p)" using Cons.prems by (simp add: tables_def)
  obtain sl where sl: "slot_in (c_slots c) s = Some sl" "owner_of sl = Some i"
    using linked_owner [OF l, of s] Cons.prems(3) by auto
  then obtain k where k: "local_index sl = Some k" by (cases sl) auto
  have t1: "tables {s} ?peers (c_slots c) keys (c_indices c)" using tables_unlink [OF Cons.prems(1,2)] by simp
  have nl: "s \<notin> linked (pe_sessions r)" if "peer_in ?peers j = Some r" for j r
    using that b linked_disjoint [OF Cons.prems(1,2), of j r s] Cons.prems(3)
    by (cases "j = i") (auto simp: upd_sessions_def)
  have "\<exists>idx. index_remove (c_indices c) k s = (Inr (), idx) \<and>
      tables ({s} - {s}) ?peers ((c_slots c)[unat s := Free]) keys idx"
    by (rule tables_empty_slot [OF t1 sl(1) k]) (rule nl)
  then obtain idx where idx: "index_remove (c_indices c) k s = (Inr (), idx)"
    "tables {} ?peers ((c_slots c)[unat s := Free]) keys idx" by auto
  let ?c = "c\<lparr>c_indices := idx, c_slots := (c_slots c)[unat s := Free]\<rparr>"
  have "linked (pe_sessions ?p) = set ss" using Cons.prems(3,4) by (simp add: upd_sessions_def)
  with Cons.IH [of ?peers ?c ?p] idx(2) b Cons.prems(4) obtain slots idx' q where
    ih: "run_state (release_slots ss) ?c = (Inr (), ?c\<lparr>c_slots := slots, c_indices := idx'\<rparr>)"
    "length slots = length (c_slots c)" "tables {} (?peers[unat i := Some q]) slots keys idx'" "linked (pe_sessions q) = {}"
    "pe_public_key q = pe_public_key ?p" by auto
  moreover have "run_state (release_slots (s # ss)) c = run_state (release_slots ss) ?c"
    using sl(1) k idx(1) by (simp add: slot_at_def run_simps on_indices_def put_slot_def)
  ultimately show ?case
    by (intro exI [of _ slots] exI [of _ idx'] exI [of _ q]) (simp add: upd_sessions_def)
qed

lemma sessions_slots_linked:
  assumes "sessions_wf ps"
  shows "linked ps = set (List.map_filter id (sessions_slots ps))" "distinct (List.map_filter id (sessions_slots ps))"
  using assms by (auto simp: linked_def in_map_filter sessions_slots_def sessions_wf_def List.map_filter_def split: option.splits)


lemma keeps_tables_evict [table_rules]: "keeps (tables_ok E {}) (evict_peer E i)"
proof (rule keepsI)
  fix c :: "('a, 'b) core" assume t: "tables_ok E {} c"
  show "tables_ok E {} (snd (run_state (evict_peer E i) c))"
  proof (cases "peer_at c i")
    case (Some p)
    let ?ss = "List.map_filter id (sessions_slots (pe_sessions p))"
    let ?c = "c\<lparr>c_by_key := key_remove (pe_public_key p) (c_by_key c), c_peers := (c_peers c)[unat i := None]\<rparr>"
    let ?rest = "and_then (on_routes (\<lambda>rc. remove_peer rc i) (Inl InternalInvariant)) (\<lambda>_. do {
       modify (c_firewall_update (\<lambda>fw. fw_remove_peer fw i));
       drop_parked (WaitHandshake i);
       (if \<not> is_pinned p then queue_peer_evicted E (pe_public_key p) else ret ());
       ok () })"
    have tb: "tables {} (c_peers c) (c_slots c) (c_by_key c) (c_indices c)" and p: "peer_in (c_peers c) i = Some p"
      using t Some by (simp_all add: tables_ok_def peer_at_def)
    have wf: "sessions_wf (pe_sessions p)" using links_okD [OF t Some] by (simp add: links_ok_def)
    from release_slots_run [of "c_peers c" ?c "c_by_key c", OF _ p sessions_slots_linked [OF wf]] tb obtain slots idx q where
      rel: "run_state (release_slots ?ss) ?c = (Inr (), ?c\<lparr>c_slots := slots, c_indices := idx\<rparr>)"
      "length slots = length (c_slots c)" "tables {} ((c_peers c)[unat i := Some q]) slots (c_by_key c) idx"
      "linked (pe_sessions q) = {}" "pe_public_key q = pe_public_key p" by auto
    have "tables {} ((c_peers c)[unat i := None]) slots (key_remove (pe_public_key p) (c_by_key c)) idx"
      using tables_remove_peer [OF rel(3), of i q] peer_in_bound [OF p] rel(4,5) by simp
    then have "tables_ok E {} (?c\<lparr>c_slots := slots, c_indices := idx\<rparr>)" using t rel(2) by (simp add: tables_ok_def)
    moreover have "keeps (tables_ok E {}) ?rest" by (intro keep_rules table_rules keeps_tables_modify) simp_all
    ultimately have fin: "tables_ok E {} (snd (run_state ?rest (?c\<lparr>c_slots := slots, c_indices := idx\<rparr>)))" by (simp only: keeps_def)
    have "find_peer c (pe_public_key p) = Some i" "get_at (c_peers c) (unat i) = Some (Some p)"
      using tb p by (auto simp: tables_def keys_ok_def find_peer_def peer_in_def split: option.splits)
    then have "run_state (take_peer i) c = (Inr (Some p), ?c)" by (simp add: take_peer_def)
    then have "run_state (evict_peer E i) c = (if reverse_indices_ok c i ?ss
        then run_state ?rest (?c\<lparr>c_slots := slots, c_indices := idx\<rparr>) else (Inl InternalInvariant, c))"
      using Some rel(1) by (simp add: evict_peer_def run_and_then)
    then show ?thesis using fin t by simp
  qed (use t in \<open>simp add: evict_peer_def\<close>)
qed

lemma keeps_tables_evict_remember [table_rules]:
  "keeps (tables_ok E {}) (evict_peer_and_remember E i now)" "keeps (tables_ok E {}) (evict_peer_for_capacity E i now)"
  unfolding evict_peer_for_capacity_def evict_peer_and_remember_def
  by (intro keep_rules table_rules keeps_tables_zoom; simp)+

section \<open>Resolver answers\<close>

lemma keeps_tables_peer_write:
  assumes "\<And>p. peer_frame p (f p)" "keeps (tables_ok E X) m" "\<And>p. keeps (tables_ok E X) (k p)"
  shows "keeps (tables_ok E X) (do {
    c \<leftarrow> peek; case peer_at c i of None \<Rightarrow> m | Some p \<Rightarrow> do { modify (put_peer i (f p)); k p } })"
proof (rule keepsI)
  fix c :: "('a, 'b) core" assume t: "tables_ok E X c"
  have "tables_ok E X (put_peer i (f p) c)" if "peer_at c i = Some p" for p
    using t tables_peer_frame [OF _ _ assms(1)] that by (auto simp: tables_ok_def put_peer_def peer_at_def)
  with t assms(2,3) show "tables_ok E X (snd (run_state (do {
    c \<leftarrow> peek; case peer_at c i of None \<Rightarrow> m | Some p \<Rightarrow> do { modify (put_peer i (f p)); k p } }) c))"
    by (auto simp: keeps_def split: option.splits)
qed

lemma keeps_tables_replace_route [table_rules]: "keeps (tables_ok E {}) (replace_dynamic_route E i address now evict)"
proof -
  have addr: "peer_frame p (p\<lparr>pe_address := address\<rparr>)" for p by (simp add: peer_frame_def)
  show ?thesis unfolding replace_dynamic_route_def Let_def
    by (rule keeps_bind [OF keeps_peek], intro keeps_and_then keeps_tables_peer_write [OF addr])
      (intro keep_rules table_rules keeps_tables_zoom; simp)+
qed

lemma refreshed_frame: "peer_frame p (refreshed_peer info now p)"
  by (simp add: refreshed_peer_def peer_frame_def upd_sessions_def Let_def)

lemma ensures_peer_write:
  assumes "peer_at c i = Some p" "peer_frame p q"
  shows "ensures (\<lambda>c'. c' = c \<and> tables_ok E X c') (modify (put_peer i q)) (\<lambda>_. tables_ok E X)"
  using assms tables_peer_frame [of X "c_peers c" "c_slots c" "c_by_key c" "c_indices c" i p q]
  by (simp add: ensures_def tables_ok_def put_peer_def peer_at_def)

lemma keeps_lift: "(\<And>x. r = Inr x \<Longrightarrow> keeps I (k x)) \<Longrightarrow> keeps I (and_then (lift r) k)"
  by (cases r) (simp_all add: keeps_return)

lemma keeps_tables_install_dynamic:
  "dynamic_peer E c info now = Inr p \<Longrightarrow> keeps (tables_ok E X) (install_peer E i p)"
  by (auto simp: dynamic_peer_def rbind_def split: sum.splits intro: table_rules)

lemma keeps_tables_upsert [table_rules]: "keeps (tables_ok E {}) (upsert_peer_unchecked E info now admission)"
  unfolding upsert_peer_unchecked_def ensures_keeps [symmetric] Let_def
  by (intro ensures_peek_bind ensures_option ensures_state ensures_bind [OF ensures_peer_write [OF _ refreshed_frame]];
      (unfold ensures_keeps)?;
      (intro keeps_lift keep_rules table_rules keeps_tables_modify keeps_tables_install_dynamic)?;
      simp)

lemma keeps_tables_commit [table_rules]:
  "keeps (tables_ok E {}) (commit_existing_resolved_peer E i info now admission evict)"
  "keeps (tables_ok E {}) (commit_held_update E i info now)"
  unfolding commit_held_update_def commit_existing_resolved_peer_def by (intro keep_rules table_rules)+

lemma keeps_tables_held [table_rules]:
  "keeps (tables_ok E {}) (apply_held_answer E now key outcome)" "keeps (tables_ok E {}) (peer_updated E now update)"
  unfolding peer_updated_def apply_held_answer_def by (intro keep_rules table_rules)+

lemma keeps_tables_admit [table_rules]:
  "keeps (tables_ok E {}) (admit_answer E now source key info)"
  "keeps (tables_ok E {}) (admit_outbound_answer E now entry key info)"
  unfolding admit_answer_def admit_outbound_answer_def by (intro keep_rules table_rules)+

lemma keeps_tables_replay [table_rules]: "keeps (tables_ok E {}) (replay_parked n E rid now)"
  by (induction n) (auto intro!: keep_rules table_rules)

lemma keeps_tables_resolved [table_rules]:
  "keeps (tables_ok E {}) (resolved_install E now entry source outcome)"
  "keeps (tables_ok E {}) (resolved_outbound E now entry outcome)"
  unfolding resolved_install_def resolved_outbound_def by (intro keep_rules table_rules)+

lemma keeps_tables_completed: "keeps (tables_ok E {}) (resolver_event_completed E now event)"
proof -
  have "keeps (tables_ok E {}) (resolved E now response)" for response
    unfolding resolved_def by (intro keep_rules table_rules keeps_tables_modify) simp_all
  then show ?thesis
    unfolding resolver_event_completed_def by (cases event) (auto intro!: keep_rules table_rules)
qed

section \<open>Timers\<close>

lemma ensures_retransmit:
  "slot_at c s = Some (Initiating h) \<Longrightarrow>
   ensures (\<lambda>c'. c' = c \<and> tables_ok E {} c') (retransmit_initiation E (in_peer h) s now) (\<lambda>_. tables_ok E {})"
  by (auto simp: ensures_def intro!: retransmit_initiation_tables)

lemma keeps_tables_slot_timers [table_rules]: "keeps (tables_ok E {}) (slot_timers E ss now)"
proof (induction ss)
  case (Cons s ss)
  then show ?case unfolding slot_timers.simps ensures_keeps [symmetric]
    by (intro ensures_peek_bind ensures_option ensures_slot ensures_if ensures_bind [OF ensures_retransmit] ensures_state;
        (unfold ensures_keeps)?; (intro keep_rules table_rules)?; simp add: ensures_keeps)
qed (simp add: keeps_return)

lemma keeps_tables_peer_timers [table_rules]: "keeps (tables_ok E {}) (peer_timers E is now)"
proof (induction "is")
  case (Cons i "is")
  then show ?case
    by (auto simp: fire_persistent_keepalive_def peer_frame_def upd_sessions_def intro!: keep_rules table_rules keeps_tables_peer)
qed (simp add: keeps_return)

lemma keeps_tables_timeout: "keeps (tables_ok E {}) (handle_timeout E now)"
  unfolding handle_timeout_def timeout_def by (intro keep_rules table_rules keeps_tables_modify keeps_tables_zoom) simp_all


section \<open>Construction\<close>

lemma tables_empty:
  "n < 2 ^ 32 \<Longrightarrow> m < 2 ^ 32 \<Longrightarrow> tables {} (replicate n None) (replicate m Free) [] (index_new m)"
  by (auto simp: tables_def keys_ok_def indices_ok_def owners_ok_def peer_in_def slot_in_def get_at_def index_new_def index_wf_def
      slot_for_def split: option.splits)

lemma keeps_tables_pinned: "keeps (tables_ok E {}) (install_pinned E ps now)"
  by (induction E ps now rule: install_pinned.induct) (auto intro!: keep_rules table_rules)

lemma core_new_tables:
  assumes "core_new E config rng policy now = Inr c"
  shows "tables_ok E {} c"
proof -
  obtain secret rng' where s: "cookie_secret_new (e_crypto E) rng now = (secret, rng')" by fastforce
  let ?c = "core_empty E (ec_core_config config) (ec_private_key config) rng' policy secret now"
  have new: "validate_pool_parameters E = Inr ()" "run_state (install_pinned E (enumerate 0 (ec_pinned config)) now) ?c = (Inr (), c)"
    using assms s by (auto simp: core_new_def rbind_def Let_def split: sum.splits if_splits prod.splits)
  then have "MAX_PEERS E < 2 ^ 32" "MAX_SESSIONS E < 2 ^ 32"
    by (auto simp: validate_pool_parameters_def split: if_splits)
  then have "tables_ok E {} ?c" by (simp add: tables_ok_def core_empty_def Let_def tables_empty)
  then show ?thesis using keepsD [OF keeps_tables_pinned _ new(2)] by blast
qed

end
