(* ===== verification/Engine.thy ===== *)
theory Engine
  imports Engine_Tables
begin

text \<open>
  The engine as a state machine: its entry points in any order and at any times, from any accepted
  configuration, and what holds in every state it can reach.
\<close>

section \<open>Reachable states\<close>

inductive engine_reach :: "('r, 'p) env \<Rightarrow> ('r, 'p) core \<Rightarrow> bool" for E where
  New: "core_new E config rng policy now = Inr c \<Longrightarrow> engine_reach E c"
| SendInner: "engine_reach E c \<Longrightarrow> run_state (send_inner E now packet) c = (r, c') \<Longrightarrow> engine_reach E c'"
| ReceiveOuter: "engine_reach E c \<Longrightarrow> run_state (receive_outer E now source data) c = (r, c') \<Longrightarrow> engine_reach E c'"
| HandleTimeout: "engine_reach E c \<Longrightarrow> run_state (handle_timeout E now) c = (b, c') \<Longrightarrow> engine_reach E c'"
| ResolverEvent: "engine_reach E c \<Longrightarrow> run_state (resolver_event_completed E now event) c = (r, c') \<Longrightarrow> engine_reach E c'"
| SetUnixTime: "engine_reach E c \<Longrightarrow> run_state (set_unix_time secs nanos now) c = (u, c') \<Longrightarrow> engine_reach E c'"

lemma reach_tables: "engine_reach E c \<Longrightarrow> tables_ok E {} c"
proof (induction rule: engine_reach.induct)
  case (New config rng policy now c)
  then show ?case by (rule core_new_tables)
next
  case (SendInner c now packet r c')
  then show ?case using keepsD [OF keeps_tables_send_inner SendInner.IH SendInner.hyps(2)] by blast
next
  case (ReceiveOuter c now source data r c')
  then show ?case using keepsD [OF keeps_tables_receive ReceiveOuter.IH ReceiveOuter.hyps(2)] by blast
next
  case (HandleTimeout c now b c')
  then show ?case using keepsD [OF keeps_tables_timeout HandleTimeout.IH HandleTimeout.hyps(2)] by blast
next
  case (ResolverEvent c now event r c')
  then show ?case using keepsD [OF keeps_tables_completed ResolverEvent.IH ResolverEvent.hyps(2)] by blast
next
  case (SetUnixTime c secs nanos now u c')
  then show ?case by (auto simp: set_unix_time_def tables_ok_def)
qed


text \<open>A small engine without pinned peers, for the witnesses.\<close>

definition small_env :: "(u8, static_relay_policy) env" where
  "small_env = \<lparr>e_crypto = xor_crypto, e_authorize = authorize_static, e_accepts = (\<lambda>_ _. True), e_contains = (\<lambda>_ _. True),
     MAX_PEERS = 4, MAX_SESSIONS = 8, REPLAY_WORDS = 4, MAX_ROUTES = 4\<rparr>"

definition small_core :: "(u8, static_relay_policy) core" where
  "small_core = (let (secret, rng) = cookie_secret_new xor_crypto 5 1000
     in core_empty small_env config_default (replicate 32 7) rng DenyAll secret 1000)"

lemma small_core_new: "core_new small_env (config_new (replicate 32 7) []) 5 DenyAll 1000 = Inr small_core"
proof -
  have "validate_pool_parameters small_env = Inr ()"
    by (simp add: validate_pool_parameters_def is_power_of_two_def small_env_def upt_rec)
  moreover have "lazy_peer_reserve config_default = 1"
    by (simp add: config_default_def DEFAULT_LAZY_PEER_RESERVE_def)
  ultimately show ?thesis
    using defaults_fit_their_ceilings
    by (simp add: core_new_def small_core_def config_new_def rbind_def Let_def split_beta list_all_iff small_env_def)
qed

lemma small_core_reach: "engine_reach small_env small_core"
  by (rule engine_reach.New [OF small_core_new])

section \<open>The tables\<close>

text \<open>
  C1: in every reachable state of the engine the public-key index is the inverse of the peer table,
  the receiver-index map holds exactly the indices of the occupied slots, every session link of a
  peer points to a slot of the right kind that names the peer as its owner, no slot is linked twice,
  and every occupied slot is linked from its owner.
\<close>

theorem engine_tables_consistent:
  assumes "engine_reach E c"
  shows "tables_ok E {} c"
  using assms by (rule reach_tables)

theorem engine_tables_consistent_witness: "tables_ok small_env {} (snd (run_state (set_unix_time 9 0 2000) small_core))"
  by (rule engine_tables_consistent [OF engine_reach.SetUnixTime [OF small_core_reach]]) (rule prod.collapse [symmetric])

text \<open>
  C2: in every reachable state a slot can be freed and the allocator never fails internally. The slot
  it hands out is free, was not a handshake in flight, and was not the current session of a pinned
  peer unless that session had expired; no other slot changes. It gives up only when every slot is a
  handshake in flight or a pinned peer's current session.
\<close>

theorem allocation_spares_pinned_sessions:
  assumes "engine_reach E c" "run_state (alloc_slot now) c = (r, c')"
  shows "(\<exists>s sl. r = Inr (Some s) \<and> slot_at c s = Some sl \<and> slot_at c' s = Some Free \<and>
      (\<forall>q. q \<noteq> s \<longrightarrow> slot_at c' q = slot_at c q) \<and> (\<forall>h. sl \<noteq> Initiating h) \<and>
      (\<forall>i p. peer_at c i = Some p \<and> is_pinned p \<and> ps_current (pe_sessions p) = Some s \<longrightarrow> session_dead now sl))
    \<or> (r = Inr None \<and> c' = c \<and> (\<forall>s sl. slot_at c s = Some sl \<longrightarrow> (\<exists>h. sl = Initiating h) \<or> pinned_current c s))"
proof -
  note t = reach_tables [OF assms(1)]
  show ?thesis using alloc_slot_cases [OF t, of now]
  proof (elim disjE exE conjE)
    fix s sl assume a: "slot_at c s = Some sl" "evictable c now s sl"
      "run_state (alloc_slot now) c = (Inr (Some s), snd (run_state (free_slot s) c))"
    from free_slot_tables [OF t a(1)] obtain c1 where
      f: "run_state (free_slot s) c = (Inr (), c1)" "slot_at c1 s = Some Free" "\<forall>q. q \<noteq> s \<longrightarrow> slot_at c1 q = slot_at c q" by auto
    have "sl \<noteq> Free" if "peer_at c i = Some p" "ps_current (pe_sessions p) = Some s" for i p
      using links_okD [OF t that(1)] that(2) a(1) by (auto simp: links_ok_def slot_at_def)
    with a assms(2) f show ?thesis
      by (intro disjI1 exI [of _ s] exI [of _ sl]) (auto simp: evictable_def pinned_current_def session_dead_def split: slot.splits)
  qed (use assms(2) in auto)
qed

theorem allocation_spares_pinned_sessions_witness:
  "\<exists>s. fst (run_state (alloc_slot 2000) small_core) = Inr (Some s)"
proof -
  have free: "slot_at small_core 0 = Some Free"
    by (simp add: small_core_def small_env_def core_empty_def slot_at_def slot_in_def get_at_def Let_def split_beta)
  from allocation_spares_pinned_sessions [OF small_core_reach, of 2000 "fst (run_state (alloc_slot 2000) small_core)"
      "snd (run_state (alloc_slot 2000) small_core)"] free
  show ?thesis
    by (auto simp: pinned_current_def small_core_def small_env_def core_empty_def peer_at_def peer_in_def get_at_def Let_def split_beta
        split: if_splits)
qed

end
