(* ===== verification/Engine_Steps.thy ===== *)
theory Engine_Steps
  imports Engine
begin

text \<open>
  What a step of the engine may do to its timers, its output and its identity: no deadline appears
  that the timer cache does not cover, the sink only sees more calls and, outside the delivery of a
  decrypted packet, no inner packet, and the configuration and the static keys stay. The relation is
  a preorder, so it is proved method by method along the structure of the code.
\<close>

section \<open>Stepping from a known state\<close>

text \<open>\<open>steps R c m\<close>: the run of \<open>m\<close> from \<open>c\<close> ends in a state related to \<open>c\<close>.\<close>

definition steps :: "('s \<Rightarrow> 's \<Rightarrow> bool) \<Rightarrow> 's \<Rightarrow> ('s, 'a) state \<Rightarrow> bool" where
  "steps R c m \<longleftrightarrow> R c (snd (run_state m c))"

lemma io_steps: "state_io_rel R m \<longleftrightarrow> (\<forall>c. steps R c m)"
  by (simp add: state_io_rel_def steps_def)

lemma io_peek_bind: "(\<And>c. steps R c (k c)) \<Longrightarrow> state_io_rel R (State_Monad.bind peek k)"
  by (simp add: io_steps steps_def)

lemma steps_peek_bind: "steps R c (k c) \<Longrightarrow> steps R c (State_Monad.bind peek k)"
  by (simp add: steps_def)

lemma steps_if: "(b \<Longrightarrow> steps R c m) \<Longrightarrow> (\<not> b \<Longrightarrow> steps R c n) \<Longrightarrow> steps R c (if b then m else n)"
  by simp

lemma steps_option:
  "(x = None \<Longrightarrow> steps R c m) \<Longrightarrow> (\<And>y. x = Some y \<Longrightarrow> steps R c (n y)) \<Longrightarrow> steps R c (case x of None \<Rightarrow> m | Some y \<Rightarrow> n y)"
  by (cases x) simp_all

lemma steps_sum:
  "(\<And>y. x = Inl y \<Longrightarrow> steps R c (m y)) \<Longrightarrow> (\<And>y. x = Inr y \<Longrightarrow> steps R c (n y)) \<Longrightarrow>
   steps R c (case x of Inl y \<Rightarrow> m y | Inr y \<Rightarrow> n y)"
  by (cases x) simp_all

lemma steps_prod: "(\<And>a b. x = (a, b) \<Longrightarrow> steps R c (m a b)) \<Longrightarrow> steps R c (case x of (a, b) \<Rightarrow> m a b)"
  by (cases x) simp

lemma steps_let: "(\<And>y. y = x \<Longrightarrow> steps R c (m y)) \<Longrightarrow> steps R c (let y = x in m y)"
  by simp

lemma steps_slot:
  "(sl = Free \<Longrightarrow> steps R c m) \<Longrightarrow> (\<And>h. sl = Initiating h \<Longrightarrow> steps R c (n h)) \<Longrightarrow> (\<And>s. sl = Established s \<Longrightarrow> steps R c (k s)) \<Longrightarrow>
   steps R c (case sl of Free \<Rightarrow> m | Initiating h \<Rightarrow> n h | Established s \<Rightarrow> k s)"
  by (cases sl) simp_all

lemmas steps_cases = steps_if steps_option steps_sum steps_prod steps_let steps_slot

context step_relation
begin

lemma steps_io: "state_io_rel R m \<Longrightarrow> steps R c m"
  by (simp add: io_steps)

lemma steps_return: "steps R c (ret x)" "steps R c (ok y)" "steps R c (err e)"
  by (simp_all add: steps_def refl)

lemma steps_bind: "steps R c m \<Longrightarrow> (\<And>x. state_io_rel R (k x)) \<Longrightarrow> steps R c (State_Monad.bind m k)"
  by (auto simp: steps_def state_io_rel_def split: prod.splits intro: trans)

lemma steps_bind_run:
  "steps R c m \<Longrightarrow> (\<And>x c'. run_state m c = (x, c') \<Longrightarrow> steps R c' (k x)) \<Longrightarrow> steps R c (State_Monad.bind m k)"
  by (auto simp: steps_def split: prod.splits intro: trans)

lemma steps_and_then: "steps R c m \<Longrightarrow> (\<And>x. state_io_rel R (k x)) \<Longrightarrow> steps R c (and_then m k)"
  unfolding and_then_def by (rule steps_bind) (auto intro: io_return split: sum.split)

lemma steps_modify: "R c (f c) \<Longrightarrow> steps R c (modify f)"
  by (simp add: steps_def)

end

section \<open>Deadlines\<close>

definition peer_due :: "peer_entry \<Rightarrow> instant set" where
  "peer_due p = {d. Some d \<in> set (attempt_deadline (pe_sessions p) # peer_deadlines p)}"

fun slot_due :: "slot \<Rightarrow> instant set" where
  "slot_due Free = {}"
| "slot_due (Initiating h) = {in_retry_at h}"
| "slot_due (Established s) = {instant_add (s_created s) REJECT_AFTER_TIME}"

text \<open>Every deadline the engine has promised to act on.\<close>

definition deadlines :: "('r, 'p) core \<Rightarrow> instant set" where
  "deadlines c = \<Union> (peer_due ` {p. Some p \<in> set (c_peers c)}) \<union> \<Union> (slot_due ` set (c_slots c)) \<union>
     pp_deadline ` set (parked (c_pending c)) \<union> ir_deadline ` set (c_resolves c) \<union> pr_due ` set (c_reconciles c)"

definition covered :: "('r, 'p) core \<Rightarrow> instant \<Rightarrow> bool" where
  "covered c d \<longleftrightarrow> (\<exists>b. poll_at c = Some b \<and> b \<le> d)"

lemma deadlines_cong:
  "c_peers c' = c_peers c \<Longrightarrow> c_slots c' = c_slots c \<Longrightarrow> c_pending c' = c_pending c \<Longrightarrow> c_resolves c' = c_resolves c \<Longrightarrow>
   c_reconciles c' = c_reconciles c \<Longrightarrow> deadlines c' = deadlines c"
  by (simp add: deadlines_def)

lemma deadlines_put_peer: "deadlines (put_peer i p c) \<subseteq> deadlines c \<union> peer_due p"
proof -
  have "{q. Some q \<in> set ((c_peers c)[unat i := Some p])} \<subseteq> insert p {q. Some q \<in> set (c_peers c)}"
    using set_update_subset_insert [of "c_peers c" "unat i" "Some p"] by auto
  then show ?thesis by (auto simp: deadlines_def put_peer_def)
qed

lemma peer_at_due: "peer_at c i = Some p \<Longrightarrow> peer_due p \<subseteq> deadlines c"
  by (auto simp: peer_at_def peer_in_nth deadlines_def) (metis nth_mem)

lemma slot_at_due: "slot_at c s = Some sl \<Longrightarrow> slot_due sl \<subseteq> deadlines c"
  by (auto simp: slot_at_def slot_in_nth deadlines_def)

lemma deadlines_upd_peer:
  assumes "\<And>p. peer_at c i = Some p \<Longrightarrow> peer_due (f p) \<subseteq> peer_due p \<union> D"
  shows "deadlines (upd_peer i f c) \<subseteq> deadlines c \<union> D"
  using assms deadlines_put_peer peer_at_due by (fastforce simp: upd_peer_def split: option.splits)

lemma deadlines_put_slot: "deadlines (put_slot s sl c) \<subseteq> deadlines c \<union> slot_due sl"
  using set_update_subset_insert [of "c_slots c" "unat s" sl] by (auto simp: deadlines_def put_slot_def)

section \<open>The relation\<close>

fun is_inner :: "sink_call \<Rightarrow> bool" where
  "is_inner (InnerPacket k e p) = True"
| "is_inner _ = False"

definition identity :: "('r, 'p) core \<Rightarrow> core_config \<times> bytes \<times> bytes \<times> bytes \<times> bytes" where
  "identity c = (c_config c, c_s_priv c, c_s_pub c, c_mac1_key c, c_cookie_key c)"

text \<open>\<open>D\<close> are deadlines already written whose timer is armed by a later line of the same method.\<close>

definition timely :: "instant set \<Rightarrow> ('r, 'p) core \<Rightarrow> ('r, 'p) core \<Rightarrow> bool" where
  "timely D c c' \<longleftrightarrow> (\<forall>d. covered c d \<longrightarrow> covered c' d) \<and>
     (\<forall>d\<in>deadlines c'. d \<in> deadlines c \<or> d \<in> D \<or> covered c' d) \<and> identity c' = identity c"

definition quiet :: "('r, 'p) core \<Rightarrow> ('r, 'p) core \<Rightarrow> bool" where
  "quiet c c' \<longleftrightarrow> (\<exists>out. c_sink c' = c_sink c @ out \<and> (\<forall>e\<in>set out. \<not> is_inner e))"

definition progress :: "instant set \<Rightarrow> ('r, 'p) core \<Rightarrow> ('r, 'p) core \<Rightarrow> bool" where
  "progress D c c' \<longleftrightarrow> timely D c c' \<and> quiet c c'"

lemma timely_refl: "timely D c c"
  by (simp add: timely_def)

lemma timely_trans: "timely D c c' \<Longrightarrow> timely D c' c'' \<Longrightarrow> timely D c c''"
  unfolding timely_def by metis

lemma quiet_refl: "quiet c c"
  by (auto simp: quiet_def)

lemma quiet_trans: "quiet c c' \<Longrightarrow> quiet c' c'' \<Longrightarrow> quiet c c''"
  unfolding quiet_def by (metis UnE append.assoc set_append)

interpretation timely: step_relation "timely D" for D
  by unfold_locales (rule timely_refl, erule (1) timely_trans)

interpretation progress: step_relation "progress D" for D
  by unfold_locales (auto simp: progress_def timely_refl quiet_refl intro: timely_trans quiet_trans)

named_theorems step_rules \<open>methods that make progress\<close>

lemma covered_cong: "c_timers c' = c_timers c \<Longrightarrow> covered c' d = covered c d"
  by (simp add: covered_def poll_at_def)

lemma covered_arm: "covered (c\<lparr>c_timers := timer_arm (c_timers c) t\<rparr>) d \<longleftrightarrow> covered c d \<or> t \<le> d"
  by (cases "timer_get (c_timers c)") (auto simp: covered_def poll_at_def timer_arm_get min_def)

lemma progress_frame:
  assumes "deadlines c' \<subseteq> deadlines c \<union> D" "c_timers c' = c_timers c" "c_sink c' = c_sink c" "identity c' = identity c"
  shows "progress D c c'"
  using assms covered_cong [OF assms(2)] by (auto simp: progress_def timely_def quiet_def)

lemma progress_mono: "progress D c c' \<Longrightarrow> D \<subseteq> D' \<Longrightarrow> progress D' c c'"
  unfolding progress_def timely_def by blast

lemma progress_discharge: "progress D' c c' \<Longrightarrow> (\<And>d. d \<in> D' \<Longrightarrow> d \<in> D \<or> covered c' d) \<Longrightarrow> progress D c c'"
  unfolding progress_def timely_def by blast

lemma io_mono: "state_io_rel (progress D) m \<Longrightarrow> D \<subseteq> D' \<Longrightarrow> state_io_rel (progress D') m"
  by (auto simp: state_io_rel_def intro: progress_mono)

text \<open>The two kinds of write: one that touches no deadline, and one whose timer is armed afterwards.\<close>

lemma io_idle:
  "(\<And>c. c_peers (f c) = c_peers c \<and> c_slots (f c) = c_slots c \<and> c_pending (f c) = c_pending c \<and> c_resolves (f c) = c_resolves c \<and>
     c_reconciles (f c) = c_reconciles c \<and> c_timers (f c) = c_timers c \<and> c_sink (f c) = c_sink c \<and> identity (f c) = identity c) \<Longrightarrow>
   state_io_rel (progress D) (modify f)"
  by (auto simp: state_io_rel_def intro!: progress_frame subsetI) (metis deadlines_cong)

lemma io_idle_zoom:
  "(\<And>v c. c_peers (upd v c) = c_peers c \<and> c_slots (upd v c) = c_slots c \<and> c_pending (upd v c) = c_pending c \<and> c_resolves (upd v c) = c_resolves c \<and>
     c_reconciles (upd v c) = c_reconciles c \<and> c_timers (upd v c) = c_timers c \<and> c_sink (upd v c) = c_sink c \<and> identity (upd v c) = identity c) \<Longrightarrow>
   state_io_rel (progress D) (zoom sel upd f)"
  by (auto simp: state_io_rel_def run_simps Let_def split_beta intro!: progress_frame subsetI) (metis deadlines_cong)

lemma progress_arm: "progress D c (c\<lparr>c_timers := timer_arm (c_timers c) t\<rparr>)"
proof -
  have "deadlines (c\<lparr>c_timers := timer_arm (c_timers c) t\<rparr>) = deadlines c" by (rule deadlines_cong) simp_all
  then show ?thesis by (auto simp: progress_def timely_def quiet_def covered_arm identity_def)
qed

lemma progress_armed:
  assumes "progress (insert d D) c c'"
  shows "progress D c (c'\<lparr>c_timers := timer_arm (c_timers c') d\<rparr>)"
  by (rule progress_discharge [OF progress.trans [OF assms progress_arm [of _ _ d]]]) (auto simp: covered_arm)

lemma io_arm [step_rules]: "state_io_rel (progress D) (arm_timer t)"
  by (simp add: state_io_rel_def arm_timer_def progress_arm)

lemma io_armed:
  assumes "state_io_rel (progress (insert d D)) m" "\<And>x. state_io_rel (progress D) (k x)"
  shows "state_io_rel (progress D) (do { x \<leftarrow> m; arm_timer d; k x })"
proof (rule state_io_relI)
  fix r and c c' :: "('a, 'b) core"
  assume run: "run_state (do { x \<leftarrow> m; arm_timer d; k x }) c = (r, c')"
  obtain x c1 where m: "run_state m c = (x, c1)" by fastforce
  let ?c = "c1\<lparr>c_timers := timer_arm (c_timers c1) d\<rparr>"
  have "progress (insert d D) c c1" using assms(1) m by (metis state_io_rel_def snd_conv)
  then have "progress D c ?c" by (rule progress_armed)
  moreover have "progress D ?c c'" using assms(2) [of x] run m by (auto simp: state_io_rel_def arm_timer_def) (metis snd_conv)
  ultimately show "progress D c c'" by (rule progress.trans)
qed

lemma io_emit [step_rules]: "\<not> is_inner e \<Longrightarrow> state_io_rel (progress D) (emit e)"
proof -
  have "deadlines (c\<lparr>c_sink := s\<rparr>) = deadlines c" for c :: "('a, 'b) core" and s by (rule deadlines_cong) simp_all
  moreover have "covered (c\<lparr>c_sink := s\<rparr>) = covered c" for c :: "('a, 'b) core" and s by (rule ext, rule covered_cong) simp
  moreover assume "\<not> is_inner e"
  ultimately show ?thesis
    by (auto simp: state_io_rel_def emit_def progress_def timely_def quiet_def identity_def)
qed

lemma io_upd_peer:
  assumes "\<And>p. peer_due (f p) \<subseteq> peer_due p \<union> D"
  shows "state_io_rel (progress D) (modify (upd_peer i f))"
  unfolding state_io_rel_def
proof
  fix c :: "('a, 'b) core"
  have "deadlines (upd_peer i f c) \<subseteq> deadlines c \<union> D" by (rule deadlines_upd_peer) (rule assms)
  then show "progress D c (snd (run_state (modify (upd_peer i f)) c))"
    by (auto intro!: progress_frame simp: upd_peer_def put_peer_def identity_def split: option.splits)
qed

lemma steps_put_peer:
  assumes "peer_at c i = Some p" "peer_due q \<subseteq> peer_due p \<union> D"
  shows "progress D c (put_peer i q c)"
  using deadlines_put_peer [of i q c] peer_at_due [OF assms(1)] assms(2)
  by (intro progress_frame) (auto simp: put_peer_def identity_def)

lemma steps_put_slot:
  assumes "slot_due sl \<subseteq> deadlines c \<union> D"
  shows "progress D c (put_slot s sl c)"
  using deadlines_put_slot [of s sl c] assms by (intro progress_frame) (auto simp: put_slot_def identity_def)

end
