(* ===== verification/Engine_Progress.thy ===== *)
theory Engine_Progress
  imports Engine_Steps
begin

text \<open>
  Every method of the engine makes \<open>progress\<close>: what it puts on a deadline it arms, and what it
  says to the sink is no inner packet. The delivery of decrypted packets is the one exception, and
  is treated in \<open>Engine_Delivery\<close>.
\<close>

section \<open>Case distinctions and writes\<close>

lemma io_slot:
  "(sl = Free \<Longrightarrow> state_io_rel R m) \<Longrightarrow> (\<And>h. sl = Initiating h \<Longrightarrow> state_io_rel R (n h)) \<Longrightarrow> (\<And>s. sl = Established s \<Longrightarrow> state_io_rel R (k s)) \<Longrightarrow>
   state_io_rel R (case sl of Free \<Rightarrow> m | Initiating h \<Rightarrow> n h | Established s \<Rightarrow> k s)"
  by (cases sl) simp_all

lemma io_kind:
  "(k = KindOutbound \<Longrightarrow> state_io_rel R m1) \<Longrightarrow> (\<And>s. k = KindInstall s \<Longrightarrow> state_io_rel R (m2 s)) \<Longrightarrow> (k = KindNegative \<Longrightarrow> state_io_rel R m3) \<Longrightarrow>
   (k = KindReconcile \<Longrightarrow> state_io_rel R m4) \<Longrightarrow>
   state_io_rel R (case k of KindOutbound \<Rightarrow> m1 | KindInstall s \<Rightarrow> m2 s | KindNegative \<Rightarrow> m3 | KindReconcile \<Rightarrow> m4)"
  by (cases k) simp_all

lemma io_query:
  "(\<And>k. q = ByPublicKey k \<Longrightarrow> state_io_rel R (m1 k)) \<Longrightarrow> (\<And>a. q = ByDstAddress a \<Longrightarrow> state_io_rel R (m2 a)) \<Longrightarrow>
   state_io_rel R (case q of ByPublicKey k \<Rightarrow> m1 k | ByDstAddress a \<Rightarrow> m2 a)"
  by (cases q) simp_all

lemma io_outcome:
  "(\<And>i. oc = Found i \<Longrightarrow> state_io_rel R (m1 i)) \<Longrightarrow> (oc = NotFound \<Longrightarrow> state_io_rel R m2) \<Longrightarrow> (oc = Failed \<Longrightarrow> state_io_rel R m3) \<Longrightarrow>
   state_io_rel R (case oc of Found i \<Rightarrow> m1 i | NotFound \<Rightarrow> m2 | Failed \<Rightarrow> m3)"
  by (cases oc) simp_all

lemma io_message:
  "(m = Initiation \<Longrightarrow> state_io_rel R a1) \<Longrightarrow> (m = Response \<Longrightarrow> state_io_rel R a2) \<Longrightarrow> (m = CookieReplyMsg \<Longrightarrow> state_io_rel R a3) \<Longrightarrow>
   (m = Data \<Longrightarrow> state_io_rel R a4) \<Longrightarrow> (m = RelayData \<Longrightarrow> state_io_rel R a5) \<Longrightarrow>
   state_io_rel R (case m of Initiation \<Rightarrow> a1 | Response \<Rightarrow> a2 | CookieReplyMsg \<Rightarrow> a3 | Data \<Rightarrow> a4 | RelayData \<Rightarrow> a5)"
  by (cases m) simp_all

lemmas walk = progress.io_rules io_slot io_kind io_query io_outcome io_message

lemma io_armed_later:
  assumes "state_io_rel (progress (insert d D)) m1" "state_io_rel (progress (insert d D)) m2" "state_io_rel (progress D) k"
  shows "state_io_rel (progress D) (do { m1; m2; arm_timer d; k })"
proof -
  have "state_io_rel (progress (insert d D)) (do { m1; m2 })" by (intro progress.io_bind assms)
  from io_armed [OF this, of "\<lambda>_. k"] assms(3) show ?thesis by simp
qed

lemma io_armed_last:
  assumes "state_io_rel (progress (insert d D)) m"
  shows "state_io_rel (progress D) (do { m; arm_timer d })"
  using io_armed [OF assms, of "\<lambda>_. ret ()"] by (simp add: progress.io_return)

lemma io_armed_option:
  assumes "state_io_rel (progress (set_option x \<union> D)) m" "state_io_rel (progress D) k"
  shows "state_io_rel (progress D) (do { m; (case x of Some d \<Rightarrow> arm_timer d | None \<Rightarrow> ret ()); k })"
  using assms io_armed [of _ D m "\<lambda>_. k"] by (cases x) (auto intro: progress.io_bind)

lemma io_write:
  assumes "\<And>c. deadlines (f c) \<subseteq> deadlines c \<union> D" "\<And>c. c_timers (f c) = c_timers c \<and> c_sink (f c) = c_sink c \<and> identity (f c) = identity c"
  shows "state_io_rel (progress D) (modify f)"
  using assms by (auto simp: state_io_rel_def intro!: progress_frame)

lemma io_resolves:
  assumes "\<And>rs. ir_deadline ` set (g rs) \<subseteq> ir_deadline ` set rs \<union> D"
  shows "state_io_rel (progress D) (modify (c_resolves_update g))"
proof (rule io_write)
  show "deadlines (c_resolves_update g c) \<subseteq> deadlines c \<union> D" for c :: "('a, 'b) core"
    using assms [of "c_resolves c"] by (auto simp: deadlines_def)
qed (simp add: identity_def)

lemma io_reconciles:
  assumes "\<And>rs. pr_due ` set (g rs) \<subseteq> pr_due ` set rs \<union> D"
  shows "state_io_rel (progress D) (modify (c_reconciles_update g))"
proof (rule io_write)
  show "deadlines (c_reconciles_update g c) \<subseteq> deadlines c \<union> D" for c :: "('a, 'b) core"
    using assms [of "c_reconciles c"] by (auto simp: deadlines_def)
qed (simp add: identity_def)

lemma progress_pending:
  assumes "pp_deadline ` set (parked (g (c_pending c))) \<subseteq> pp_deadline ` set (parked (c_pending c)) \<union> D"
  shows "progress D c (c_pending_update g c)"
  using assms by (intro progress_frame) (auto simp: deadlines_def identity_def)

lemma io_pending:
  assumes "\<And>ps. pp_deadline ` set (parked (snd (f ps))) \<subseteq> pp_deadline ` set (parked ps) \<union> D"
  shows "state_io_rel (progress D) (zoom c_pending (\<lambda>p. c_pending_update (\<lambda>_. p)) f)"
  using assms by (auto simp: state_io_rel_def run_simps Let_def split_beta intro!: progress_pending)

lemma io_elementary [step_rules]:
  "state_io_rel (progress D) (draw f)" "state_io_rel (progress D) (on_indices g)" "state_io_rel (progress D) (on_keys h)"
  "state_io_rel (progress D) (timestamp now)"
  unfolding draw_def on_indices_def on_keys_def timestamp_def
  by (intro walk io_idle_zoom io_idle; simp add: identity_def)+

lemma io_routes [step_rules]: "state_io_rel (progress D) (on_routes f x)"
  unfolding on_routes_def by (intro walk io_idle; simp add: identity_def)

lemma io_put_free [step_rules]: "state_io_rel (progress D) (modify (put_slot s Free))"
  by (auto simp: state_io_rel_def intro!: steps_put_slot)

lemma due_unlink: "peer_due (upd_sessions (\<lambda>ps. unlink ps s) p) \<subseteq> peer_due p \<union> D"
  by (auto simp: peer_due_def peer_deadlines_def upd_sessions_def split: if_splits)

lemma io_free_slot [step_rules]: "state_io_rel (progress D) (free_slot s)"
  unfolding free_slot_def by (intro walk step_rules io_upd_peer due_unlink)

lemma io_alloc_slot [step_rules]: "state_io_rel (progress D) (alloc_slot now)"
  unfolding alloc_slot_def by (auto intro!: walk step_rules split: list.split)

section \<open>Sending\<close>

lemma io_allocate [step_rules]: "state_io_rel (progress D) (allocate_handshake_slot pidx now)"
  unfolding allocate_handshake_slot_def by (intro walk step_rules)

lemma io_install_initiation [step_rules]: "state_io_rel (progress D) (install_initiation s fresh h mac1 msg)"
proof -
  have "state_io_rel (progress (insert (in_retry_at h) D)) (modify (put_slot s (Initiating h)))"
    by (auto simp: state_io_rel_def intro!: steps_put_slot)
  then show ?thesis unfolding install_initiation_def
    by (intro progress.io_and_then progress.io_if step_rules progress.io_return io_armed_later io_upd_peer)
      (auto simp: peer_due_def peer_deadlines_def)
qed

lemma io_build [step_rules]: "state_io_rel (progress D) (build_initiation E pidx s now)"
  unfolding build_initiation_def by (intro walk step_rules)

lemma due_begin:
  "begin_handshake (pe_sessions p) s d = (r, ps) \<Longrightarrow> peer_due (p\<lparr>pe_sessions := ps\<rparr>) \<subseteq> peer_due p \<union> (if r = Inr () then {d} else {})"
  by (auto simp: begin_handshake_def Let_def peer_due_def peer_deadlines_def split: if_splits)

lemma io_commit_start [step_rules]: "state_io_rel (progress D) (commit_handshake_start pidx s now)"
proof -
  let ?d = "instant_add now REKEY_ATTEMPT_TIME"
  have "steps (progress D) c (commit_handshake_start pidx s now)" for c :: "('a, 'b) core"
  proof (cases "peer_at c pidx")
    case None
    have "steps (progress D) c (and_then (free_slot s) (\<lambda>_. err InternalInvariant :: ('a, 'b, unit) fallible))"
      by (intro progress.steps_io walk step_rules)
    then show ?thesis using None by (simp add: commit_handshake_start_def steps_def)
  next
    case (Some p)
    obtain r ps where b: "begin_handshake (pe_sessions p) s ?d = (r, ps)" by fastforce
    have put: "progress (if r = Inr () then {?d} else {}) c (put_peer pidx (p\<lparr>pe_sessions := ps\<rparr>) c)"
      by (rule steps_put_peer [OF Some due_begin [OF b]])
    show ?thesis
    proof (cases r)
      case (Inl e)
      have "progress D c (put_peer pidx (p\<lparr>pe_sessions := ps\<rparr>) c)"
        by (rule progress_discharge [OF put]) (simp add: Inl)
      moreover have "state_io_rel (progress D) (and_then (free_slot s) (\<lambda>_. err e :: ('a, 'b, unit) fallible))"
        by (intro walk step_rules)
      ultimately show ?thesis using Some b Inl
        by (auto simp: commit_handshake_start_def steps_def state_io_rel_def intro: progress.trans)
    next
      case (Inr u)
      let ?c = "put_peer pidx (p\<lparr>pe_sessions := ps\<rparr>) c"
      have "progress (insert ?d D) c ?c" by (rule progress_mono [OF put]) (simp add: Inr)
      then have "progress D c (?c\<lparr>c_timers := timer_arm (c_timers ?c) ?d\<rparr>)" by (rule progress_armed)
      then show ?thesis using Some b Inr by (simp add: commit_handshake_start_def steps_def arm_timer_def)
    qed
  qed
  then show ?thesis by (simp add: io_steps)
qed

lemma io_stage [step_rules]: "state_io_rel (progress D) (stage_initiation E pidx now)"
  unfolding stage_initiation_def by (intro walk step_rules)

lemma io_direct [step_rules]: "state_io_rel (progress D) (ensure_direct_handshake E pidx now)"
  unfolding ensure_direct_handshake_def by (intro walk step_rules) simp


section \<open>Transport\<close>

lemma due_sent: "peer_due (sent_peer n now p) \<subseteq> peer_due p \<union> set_option (map_option (instant_add now) (persistent_keepalive p))"
  by (cases "persistent_keepalive p") (auto simp: peer_due_def peer_deadlines_def sent_peer_def)

lemma due_advance: "slot_due (Established (snd (advance_session s now))) = slot_due (Established s)"
  by (simp add: advance_session_def Let_def)

lemma io_reply:
  "state_io_rel (progress D) (if b
     then do {
       jitter \<leftarrow> draw f;
       let deadline = instant_add t jitter;
       modify (upd_peer pidx (upd_sessions (reply_due_update (\<lambda>_. Some deadline))));
       arm_timer deadline }
     else ret ())"
  by (intro progress.io_if progress.io_return progress.io_bind [OF io_elementary(1)] progress.io_let io_armed_last io_upd_peer)
    (auto simp: peer_due_def peer_deadlines_def upd_sessions_def)

lemma commit_seal_progress:
  assumes s: "slot_at c s = Some (Established sess)" and p: "peer_at c pidx = Some peer"
  shows "progress D c (snd (run_state (commit_seal E pidx s peer sess n m now) c))"
proof -
  let ?o = "map_option (instant_add now) (persistent_keepalive peer)"
  let ?c1 = "put_slot s (Established (snd (advance_session sess now))) c"
  let ?c2 = "upd_peer pidx (sent_peer m now) ?c1"
  let ?reply = "if n > 0 \<and> reply_due (pe_sessions peer) = None
      then do {
        jitter \<leftarrow> draw (rekey_timeout_jitter (next_u32 (e_crypto E)));
        let deadline = instant_add (instant_add (instant_add now KEEPALIVE_TIMEOUT) REKEY_TIMEOUT) jitter;
        modify (upd_peer pidx (upd_sessions (reply_due_update (\<lambda>_. Some deadline))));
        arm_timer deadline }
      else ret ()"
  have 1: "progress (set_option ?o \<union> D) c ?c1"
    using slot_at_due [OF s] by (intro steps_put_slot) (simp only: due_advance; blast)
  have "peer_at ?c1 pidx = Some peer" using p by (simp add: put_slot_def peer_at_def)
  then have 2: "progress (set_option ?o \<union> D) ?c1 ?c2"
    using progress_mono [OF steps_put_peer [OF _ due_sent [of m now peer]], of ?c1 pidx] by (simp add: upd_peer_def)
  obtain u c3 where r: "run_state ?reply ?c2 = (u, c3)" by (cases "run_state ?reply ?c2")
  have "state_io_rel (progress (set_option ?o \<union> D)) ?reply" by (rule io_reply)
  then have "progress (set_option ?o \<union> D) ?c2 c3" by (rule state_io_relD) (rule r)
  then have "progress (set_option ?o \<union> D) c c3" by (rule progress.trans [OF progress.trans [OF 1 2]])
  moreover have "run_state (commit_seal E pidx s peer sess n m now) c =
      run_state (do { (case ?o of Some d \<Rightarrow> arm_timer d | None \<Rightarrow> ret ()); ret (fst (advance_session sess now)) }) c3"
    using r by (simp add: commit_seal_def split_beta Let_def option.case_eq_if map_option_case)
  ultimately show ?thesis
    by (cases ?o) (auto simp: arm_timer_def intro!: progress_armed)
qed

lemma io_seal [step_rules]: "state_io_rel (progress D) (seal_transport E pidx s ty n relay now)"
proof (rule state_io_relI)
  fix r and c c' :: "('a, 'b) core" assume run: "run_state (seal_transport E pidx s ty n relay now) c = (r, c')"
  have buf: "progress D c (set_buffer relay b c)" for b
    by (rule progress_frame) (auto simp: set_buffer_def identity_def deadlines_def)
  from run show "progress D c c'"
  proof (cases rule: seal_transport_cases)
    case (failed e)
    then show ?thesis using buf progress.refl by auto
  next
    case (sealed peer sess b ad m ct rekey)
    let ?c = "set_buffer relay (put_slice (buffer_of relay c) 0 (take PACKET_START (stage_header sess n (align_down16 (n + 15)) b) @ ct)) c"
    have "slot_at ?c s = Some (Established sess)" "peer_at ?c pidx = Some peer"
      using sealed(1,2) by (auto simp: set_buffer_def peer_at_def slot_at_def)
    from commit_seal_progress [OF this, of D E n "sealed_len n" now] sealed(8) buf show ?thesis
      by (metis progress.trans snd_conv)
  qed
qed

lemma io_flow [step_rules]: "state_io_rel (progress D) (note_outbound_flow pidx packet now)"
  unfolding note_outbound_flow_def by (rule io_idle) (simp add: identity_def split: option.splits)

lemma io_stage_envelope [step_rules]: "state_io_rel (progress D) (stage_envelope d inner)"
  unfolding stage_envelope_def by (intro walk io_idle; simp add: identity_def)

lemma io_relay [step_rules]:
  "state_io_rel (progress D) (relay_path E key now)" "state_io_rel (progress D) (wrap_and_seal E i s d n now)"
  unfolding relay_path_def wrap_and_seal_def by (intro walk step_rules)+

lemma io_transmit [step_rules]: "state_io_rel (progress D) (transmit_wire E pidx dst msg now)"
  unfolding transmit_wire_def by (intro walk step_rules) simp_all

lemma io_ensure [step_rules]: "state_io_rel (progress D) (ensure_handshake E pidx now)"
  unfolding ensure_handshake_def by (intro walk step_rules)

lemma io_retransmit [step_rules]: "state_io_rel (progress D) (retransmit_initiation E pidx s now)"
  unfolding retransmit_initiation_def send_initiation_def by (intro walk step_rules)

lemma io_encrypt [step_rules]:
  "state_io_rel (progress D) (encrypt_via_relay E pidx s key packet now)"
  "state_io_rel (progress D) (encrypt_and_send E pidx s packet now)"
proof -
  show via: "state_io_rel (progress D) (encrypt_via_relay E pidx s key packet now)" for key
    unfolding encrypt_via_relay_def by (intro walk step_rules io_idle; simp add: identity_def)
  show "state_io_rel (progress D) (encrypt_and_send E pidx s packet now)"
    unfolding encrypt_and_send_def by (intro walk step_rules via io_idle; simp add: identity_def)
qed

lemma parked_park: "pp_deadline ` set (parked (snd (park ps packet w d))) \<subseteq> insert d (pp_deadline ` set (parked ps))"
  by (auto simp: park_def Let_def set_parked park_entry_def dest!: set_update_subset_insert [THEN subsetD]
      split: if_splits option.splits)

lemma io_park_armed:
  assumes "state_io_rel (progress D) k"
  shows "state_io_rel (progress D) (do {
    _ \<leftarrow> zoom c_pending (\<lambda>p. c_pending_update (\<lambda>_. p)) (\<lambda>pool. park pool packet w d); arm_timer d; k })"
  using parked_park by (intro io_armed [OF io_pending assms]) blast

lemma io_send_to_peer [step_rules]: "state_io_rel (progress D) (send_to_peer E pidx packet now)"
  unfolding send_to_peer_def by (intro io_park_armed walk step_rules)


section \<open>The resolver's queues\<close>

lemma set_swap_remove: "set (swap_remove xs i) \<subseteq> set xs"
proof (cases "xs = []")
  case False
  then have "set (xs[i := last xs]) \<subseteq> set xs" by (intro set_update_subsetI) auto
  then show ?thesis by (auto simp: swap_remove_def dest: in_set_butlastD)
qed (simp add: swap_remove_def)

lemma parked_drop_if: "set (parked (drop_if P ps)) \<subseteq> set (parked ps)"
  by (auto simp: set_parked drop_if_def split: if_splits)

lemma io_drop_parked [step_rules]: "state_io_rel (progress D) (drop_parked w)"
  using parked_drop_if by (auto simp: drop_parked_def state_io_rel_def intro!: progress_pending)

lemma io_queue_idle [step_rules]:
  "state_io_rel (progress D) alloc_resolve_id" "state_io_rel (progress D) (peer_is_ghosted key now)"
  "state_io_rel (progress D) (remember_evicted_peer key now)" "state_io_rel (progress D) (queue_peer_evicted E key)"
  "state_io_rel (progress D) (discard_answer E key)" "state_io_rel (progress D) (park_pending_initiation rid src ci)"
  "state_io_rel (progress D) (take_pending_initiation rid)" "state_io_rel (progress D) (note_handshake_msg now)"
  "state_io_rel (progress D) (equalize_unknown_identity_cost now)"
  unfolding alloc_resolve_id_def peer_is_ghosted_def remember_evicted_peer_def discard_answer_def queue_peer_evicted_def
    park_pending_initiation_def take_pending_initiation_def note_handshake_msg_def equalize_unknown_identity_cost_def
  by (intro walk io_idle io_idle_zoom; simp add: identity_def Let_def)+

lemma io_try_push [step_rules]: "state_io_rel (progress D) (try_push_resolve entry)"
  unfolding try_push_resolve_def by (intro progress.io_bind [OF progress.io_peek] progress.io_if progress.io_return io_armed io_resolves) auto

lemma io_swap_resolve [step_rules]: "state_io_rel (progress D) (modify (c_resolves_update (\<lambda>rs. swap_remove rs i)))"
  by (intro io_resolves le_supI1 image_mono set_swap_remove)

lemma io_push [step_rules]: "state_io_rel (progress D) (push_resolve entry)"
  unfolding push_resolve_def by (intro walk step_rules)

lemma io_filter_resolves [step_rules]: "state_io_rel (progress D) (modify (c_resolves_update (filter P)))"
  by (intro io_resolves) auto

lemma io_negative [step_rules]:
  "state_io_rel (progress D) (mark_negative q now)" "state_io_rel (progress D) (clear_negative q)"
  unfolding mark_negative_def clear_negative_def by (intro walk step_rules)+

lemma io_install_requests [step_rules]:
  "state_io_rel (progress D) (queue_peer_install k src now)" "state_io_rel (progress D) (request_peer_install k now)"
  "state_io_rel (progress D) (request_relay_peer_install i k now)"
proof -
  show q: "state_io_rel (progress D) (queue_peer_install k src now)" for src
    unfolding queue_peer_install_def by (intro walk step_rules io_idle_zoom; simp add: identity_def)
  show "state_io_rel (progress D) (request_peer_install k now)"
    unfolding request_peer_install_def by (intro walk step_rules q)
  show "state_io_rel (progress D) (request_relay_peer_install i k now)"
    unfolding request_relay_peer_install_def
    by (intro walk step_rules q io_upd_peer) (simp add: peer_due_def peer_deadlines_def)
qed

lemma io_outbound_resolution [step_rules]: "state_io_rel (progress D) (queue_outbound_resolution dst packet now)"
proof -
  have reuse: "state_io_rel (progress D) (do {
      modify (c_resolves_update (\<lambda>rs. rs[pos := fresh]));
      _ \<leftarrow> zoom c_pending (\<lambda>p. c_pending_update (\<lambda>_. p)) (\<lambda>pool. park pool packet w (ir_deadline fresh));
      arm_timer (ir_deadline fresh); ok () })" for pos fresh w
    using parked_park
    by (intro io_armed_later io_resolves io_pending progress.io_return)
      (blast dest: set_update_subset_insert [THEN subsetD])+
  show ?thesis unfolding queue_outbound_resolution_def Let_def
    by (intro progress.io_bind [OF progress.io_peek] progress.io_option progress.io_if progress.io_return
        progress.io_bind [OF io_queue_idle(1)] progress.io_bind [OF io_push] progress.io_sum io_park_armed)
      (use reuse [of _ "\<lparr>ir_id = _, ir_query = _, ir_kind = _, ir_deadline = _, ir_emitted = _\<rparr>"] in simp_all)
qed

lemma io_push_reconcile:
  "state_io_rel (progress D) (do {
     pushed \<leftarrow> push_reconcile E \<lparr>pr_public_key = key, pr_due = due\<rparr>;
     case pushed of Inl _ \<Rightarrow> ret () | Inr _ \<Rightarrow> arm_timer due })"
proof -
  have "(do { pushed \<leftarrow> push_reconcile E \<lparr>pr_public_key = key, pr_due = due\<rparr>;
              case pushed of Inl _ \<Rightarrow> ret () | Inr _ \<Rightarrow> arm_timer due }) = (do {
      c \<leftarrow> peek;
      if length (c_reconciles c) \<ge> MAX_PEERS E then ret ()
      else do { modify (c_reconciles_update (\<lambda>xs. xs @ [\<lparr>pr_public_key = key, pr_due = due\<rparr>])); arm_timer due } })"
    by (rule state_ext) (simp add: push_reconcile_def)
  moreover have "state_io_rel (progress D) (do {
      modify (c_reconciles_update (\<lambda>xs. xs @ [\<lparr>pr_public_key = key, pr_due = due\<rparr>])); arm_timer due })"
    by (intro io_armed_last io_reconciles) auto
  ultimately show ?thesis
    by (simp only:) (intro progress.io_bind [OF progress.io_peek] progress.io_if progress.io_return)
qed

lemma due_update: "pr_due ` set (xs[i := (xs ! i)\<lparr>pr_due := d\<rparr>]) \<subseteq> pr_due ` set xs \<union> insert d D"
  by (auto dest!: set_update_subset_insert [THEN subsetD])

lemma due_update_if:
  "pr_due ` set (if i < length xs then xs[i := (xs ! i)\<lparr>pr_due := d\<rparr>] else xs) \<subseteq> pr_due ` set xs \<union> insert d D"
  using due_update [of xs i d D] by (cases "i < length xs") (simp_all only: if_True if_False, blast)

lemma io_reconcile [step_rules]:
  "state_io_rel (progress D) (queue_reconcile E key now)" "state_io_rel (progress D) (forget_reconcile key)"
  "state_io_rel (progress D) (defer_reconcile i now)"
proof -
  show "state_io_rel (progress D) (queue_reconcile E key now)"
    unfolding queue_reconcile_def Let_def
    by (intro progress.io_bind [OF progress.io_peek] progress.io_option io_armed_last io_reconciles due_update io_push_reconcile)
  show "state_io_rel (progress D) (defer_reconcile i now)"
    unfolding defer_reconcile_def Let_def
    by (intro progress.io_bind [OF progress.io_peek] io_armed_last io_reconciles due_update_if)
  show "state_io_rel (progress D) (forget_reconcile key)"
    unfolding forget_reconcile_def by (intro io_reconciles) auto
qed

lemma io_swap_reconcile [step_rules]: "state_io_rel (progress D) (modify (c_reconciles_update (\<lambda>xs. swap_remove xs i)))"
  by (intro io_reconciles le_supI1 image_mono set_swap_remove)

lemma io_promote [step_rules]: "state_io_rel (progress D) (promote_due_reconcile now)"
  unfolding promote_due_reconcile_def by (intro walk step_rules)


lemma io_expire [step_rules]: "state_io_rel (progress D) (expire_one_resolve E now)"
  unfolding expire_one_resolve_def drop_pending_initiation_def by (intro walk step_rules)

lemma io_offer [step_rules]: "state_io_rel (progress D) (offer_resolves n E)"
proof (induction n)
  case (Suc n)
  show ?case unfolding offer_resolves.simps
  proof (rule io_peek_bind, rule steps_option, goal_cases)
    case (2 c pos)
    let ?r = "c_resolves c ! pos" let ?q = "\<lparr>rq_id = ir_id ?r, rq_query = ir_query ?r\<rparr>"
    let ?e = "emit (ResolveRequested ?q (e_accepts E (c_sink c) ?q)) :: ('a, 'b, unit) action"
    have pos: "pos < length (c_resolves c)" using 2 by (auto dest: position_SomeD)
    have "progress D (c\<lparr>c_sink := snk\<rparr>) (c_resolves_update (\<lambda>rs. rs[pos := ?r\<lparr>ir_emitted := True\<rparr>]) (c\<lparr>c_sink := snk\<rparr>))" for snk
      using pos by (intro progress_frame) (auto simp: deadlines_def identity_def dest!: set_update_subset_insert [THEN subsetD])
    with Suc show ?case unfolding Let_def
      by (intro progress.steps_bind_run [of _ _ ?e] progress.steps_io [OF io_emit] progress.steps_bind [OF progress.steps_modify] steps_if
          progress.steps_return) (auto simp: emit_def)
  qed (rule progress.steps_return)
qed (simp add: progress.io_return)

lemma io_flush [step_rules]: "state_io_rel (progress D) (flush_sink_output E)"
proof -
  have "progress D c (c\<lparr>c_sink := c_sink c @ map (\<lambda>key. EventEmitted (PeerEvicted key)) ks, c_evictions := []\<rparr>)"
    for ks and c :: "('a, 'b) core"
    using covered_cong [of "c\<lparr>c_sink := c_sink c @ map (\<lambda>key. EventEmitted (PeerEvicted key)) ks, c_evictions := []\<rparr>" c]
    by (auto simp: progress_def timely_def quiet_def identity_def deadlines_def)
  then show ?thesis unfolding flush_sink_output_def
    by (intro walk step_rules progress.io_modify)
qed

end
