(* ===== verification/Engine_Delivery.thy ===== *)
theory Engine_Delivery
  imports Engine_Progress
begin

text \<open>
  The receiving half: its methods make \<open>progress\<close>, and the one that hands decrypted packets to
  the sink does so only for packets that were authenticated under a live session, are fresh, come
  from an address routed to the sending peer, and pass the peer's inbound policy.
\<close>

section \<open>Handshake messages\<close>

lemma due_same:
  "attempt_deadline (pe_sessions q) = attempt_deadline (pe_sessions p) \<Longrightarrow> keepalive_due (pe_sessions q) = keepalive_due (pe_sessions p) \<Longrightarrow>
   persistent_keepalive_due (pe_sessions q) = persistent_keepalive_due (pe_sessions p) \<Longrightarrow> reply_due (pe_sessions q) = reply_due (pe_sessions p) \<Longrightarrow>
   peer_due q \<subseteq> peer_due p \<union> D"
  by (auto simp: peer_due_def peer_deadlines_def)

lemma io_observe [step_rules]: "state_io_rel (progress D) (observe_source pidx src now)"
  unfolding observe_source_def
proof (rule io_peek_bind, rule steps_option, goal_cases)
  case (2 c p)
  let ?q = "snd (observe_direct_endpoint p src now)\<lparr>last_activity := now\<rparr>"
  have "progress D c (put_peer pidx ?q c)"
    by (rule steps_put_peer [OF 2], rule due_same) (simp_all add: observe_direct_endpoint_def)
  then show ?case
    by (auto simp: split_beta intro!: progress.steps_bind [OF progress.steps_modify] progress.steps_modify walk step_rules)
qed (rule progress.steps_return)

lemma io_take_parked [step_rules]: "state_io_rel (progress D) (take_parked w)"
proof -
  have "set (parked (snd (take_if P ps))) \<subseteq> set (parked ps)" for P ps
    by (induction P ps rule: take_if.induct) (auto simp: set_parked split: prod.splits if_splits)
  then show ?thesis unfolding take_parked_def by (intro io_pending le_supI1 image_mono)
qed

lemma io_mac2 [step_rules]:
  "state_io_rel (progress D) (check_mac2_or_reply E now src data mac1)" "state_io_rel (progress D) (load_gate E now src data)"
proof -
  show m: "state_io_rel (progress D) (check_mac2_or_reply E now src data mac1)" for mac1
    unfolding check_mac2_or_reply_def by (intro walk step_rules io_idle io_idle_zoom; simp add: identity_def)
  show "state_io_rel (progress D) (load_gate E now src data)"
    unfolding load_gate_def by (intro walk step_rules m)
qed

lemma io_put_session:
  "s_created sess = now \<Longrightarrow>
   state_io_rel (progress (insert (instant_add now REJECT_AFTER_TIME) D)) (modify (put_slot s (Established sess)))"
  by (auto simp: state_io_rel_def intro!: steps_put_slot)

lemma io_install_response:
  assumes "s_created sess = now"
  shows "state_io_rel (progress D) (install_response E pidx s sess mac1 msg src now)"
proof -
  have adopt: "peer_due (adopt_response s mac1 now p) \<subseteq> peer_due p \<union> D" for p
    by (rule due_same) (simp_all add: adopt_response_def commit_responder_install_def)
  show ?thesis unfolding install_response_def
    by (intro progress.io_bind [OF progress.io_peek] progress.io_option progress.io_and_then progress.io_return
        io_armed io_put_session [OF assms] progress.io_bind [OF io_upd_peer [OF adopt]] progress.io_bind [OF io_observe]
        progress.io_bind [OF io_transmit] io_elementary)
qed

lemma session_new_created: "session_new w keys role li ri now = Some x \<Longrightarrow> s_created x = now"
  by (auto simp: session_new_def split: option.splits if_splits)

lemma io_prepare [step_rules]: "state_io_rel (progress D) (prepare_response E pidx s fresh consumed src now)"
proof -
  have ab: "state_io_rel (progress D) (abandon_response s fresh e)" for e
    unfolding abandon_response_def by (intro walk step_rules)
  show ?thesis unfolding prepare_response_def
    by (intro walk step_rules ab io_install_response io_idle) (auto simp: identity_def dest: session_new_created)
qed

lemma io_respond [step_rules]:
  "state_io_rel (progress D) (respond_to_initiation E pidx consumed src now)"
  "state_io_rel (progress D) (accept_authenticated_initiation E pidx consumed src now)"
proof -
  show r: "state_io_rel (progress D) (respond_to_initiation E pidx consumed src now)"
    unfolding respond_to_initiation_def by (intro walk step_rules)
  show "state_io_rel (progress D) (accept_authenticated_initiation E pidx consumed src now)"
    unfolding accept_authenticated_initiation_def by (intro walk step_rules r io_upd_peer due_same) simp_all
qed

lemma io_rx_initiation [step_rules]: "state_io_rel (progress D) (rx_initiation E now src data)"
  unfolding rx_initiation_def by (intro walk step_rules io_idle_zoom) (simp add: identity_def)

lemma io_flush_queue [step_rules]: "state_io_rel (progress D) (flush_handshake_queue n E pidx s now sent)"
  by (induction n arbitrary: sent) (auto intro!: walk step_rules)

lemma due_install:
  "install_initiator (pe_sessions p) s = (Inr old, ps) \<Longrightarrow> peer_due (p\<lparr>pe_sessions := ps, latest_handshake := t\<rparr>) \<subseteq> peer_due p \<union> D"
  by (auto simp: install_initiator_ok peer_due_def peer_deadlines_def)

lemma io_complete:
  assumes "s_created sess = now"
  shows "state_io_rel (progress D) (complete_handshake E pidx s sess src now)"
  unfolding complete_handshake_def
proof (rule io_peek_bind, rule steps_option, goal_cases)
  case (1 c)
  show ?case by (intro progress.steps_io walk step_rules)
next
  case (2 c p)
  obtain r ps where i: "install_initiator (pe_sessions p) s = (r, ps)" by fastforce
  show ?case
  proof (cases r)
    case (Inr old)
    have "progress D c (put_peer pidx (p\<lparr>pe_sessions := ps, latest_handshake := Some now\<rparr>) c)"
      by (rule steps_put_peer [OF 2 due_install [of p s old ps]]) (simp add: i Inr)
    then show ?thesis unfolding i Inr sum.case prod.case
      by (intro progress.steps_bind [OF progress.steps_modify] progress.io_bind [OF io_observe] io_armed io_put_session assms;
          (assumption | intro walk step_rules))
  qed (simp add: i progress.steps_return)
qed

lemma io_rx_response [step_rules]: "state_io_rel (progress D) (rx_response E now src data)"
  unfolding rx_response_def
  by (intro walk step_rules io_complete io_idle) (auto simp: identity_def dest: session_new_created)

lemma io_rx_cookie [step_rules]: "state_io_rel (progress D) (rx_cookie_reply E now data)"
  unfolding rx_cookie_reply_def by (intro walk step_rules io_upd_peer due_same) simp_all

lemma io_rx_relay [step_rules]: "state_io_rel (progress D) (rx_relay E pidx inner now)"
  unfolding rx_relay_def by (intro walk step_rules io_idle_zoom) (simp_all add: identity_def)


section \<open>Transport data\<close>

lemma io_confirm [step_rules]: "state_io_rel (progress D) (confirm_session pidx s)"
  unfolding confirm_session_def
proof (rule io_peek_bind, intro steps_option steps_if progress.steps_return, goal_cases)
  case (1 c p)
  let ?ps = "(pe_sessions p)\<lparr>ps_next := None, ps_previous := ps_current (pe_sessions p), ps_current := Some s\<rparr>"
  let ?c = "put_peer pidx (p\<lparr>pe_sessions := ?ps\<rparr>) c"
  have cf: "confirm_responder (pe_sessions p) s = (Inr (ps_previous (pe_sessions p)), ?ps)"
    using 1(2) by (simp add: confirm_responder_ok)
  have put: "progress D c ?c" by (rule steps_put_peer [OF 1(1)], rule due_same) simp_all
  have "progress D ?c (put_slot s (Established (x\<lparr>s_confirmed := True\<rparr>)) ?c)" if "slot_at c s = Some (Established x)" for x
  proof -
    have "slot_at ?c s = Some (Established x)" using that by (simp add: put_peer_def slot_at_def)
    from slot_at_due [OF this] show ?thesis by (intro steps_put_slot) auto
  qed
  then show ?case unfolding cf prod.case sum.case
    by (intro progress.steps_bind_run progress.steps_modify put steps_option steps_slot progress.steps_return) auto
qed

lemma due_rearm:
  "peer_due (rearm_received ka now p) \<subseteq> peer_due p \<union>
     (set_option (map_option (instant_add now) (persistent_keepalive p)) \<union> (if ka then {} else {instant_add now KEEPALIVE_TIMEOUT}))"
  by (cases "persistent_keepalive p")
    (auto simp: peer_due_def peer_deadlines_def rearm_received_def upd_sessions_def Let_def)

lemma progress_armed_twice:
  "progress (insert a (insert b D)) c c' \<Longrightarrow> progress D c (c'\<lparr>c_timers := timer_arm (timer_arm (c_timers c') a) b\<rparr>)"
  using progress_armed [OF progress_armed [of a "insert b D" c c']] by simp

lemma note_received_progress:
  fixes c :: "('r, 'p) core" and pidx n ka now
  defines "persistent \<equiv> case peer_at c pidx of Some p \<Rightarrow> map_option (instant_add now) (persistent_keepalive p) | None \<Rightarrow> None"
    and "passive \<equiv> if ka then None else Some (instant_add now KEEPALIVE_TIMEOUT)"
  shows "progress (set_option persistent \<union> (set_option passive \<union> D)) c
    (upd_peer pidx (rearm_received ka now) (upd_peer pidx (received_peer n now) c))"
proof (cases "peer_at c pidx")
  case (Some p)
  let ?p = "received_peer n now p" and ?c1 = "put_peer pidx (received_peer n now p) c"
  have p: "peer_at ?c1 pidx = Some ?p" using Some peer_in_bound [of "c_peers c" pidx p] by (simp add: put_peer_def peer_at_def)
  have "progress (set_option persistent \<union> (set_option passive \<union> D)) c ?c1"
    by (rule steps_put_peer [OF Some], rule due_same) (simp_all add: received_peer_def)
  moreover have "progress (set_option persistent \<union> (set_option passive \<union> D)) ?c1 (put_peer pidx (rearm_received ka now ?p) ?c1)"
    by (rule progress_mono [OF steps_put_peer [OF p due_rearm]])
      (use Some in \<open>auto simp: received_peer_def persistent_def passive_def\<close>)
  ultimately show ?thesis using Some p by (auto simp: upd_peer_def intro: progress.trans)
qed (simp add: upd_peer_def progress.refl)

lemma io_note_received [step_rules]: "state_io_rel (progress D) (note_received pidx n ka now)"
  unfolding note_received_def
proof (rule io_peek_bind)
  fix c :: "('a, 'b) core"
  let ?c = "upd_peer pidx (rearm_received ka now) (upd_peer pidx (received_peer n now) c)"
  let ?o = "case peer_at c pidx of Some p \<Rightarrow> map_option (instant_add now) (persistent_keepalive p) | None \<Rightarrow> None"
  let ?K = "if ka then None else Some (instant_add now KEEPALIVE_TIMEOUT)"
  have "progress D c (snd (run_state (do {
      (case ?K of Some d \<Rightarrow> arm_timer d | None \<Rightarrow> ret ()); (case ?o of Some d \<Rightarrow> arm_timer d | None \<Rightarrow> ret ()) }) ?c))"
    using note_received_progress [where c = c and pidx = pidx and now = now and ka = ka and D = D and n = n]
    by (cases ?K; cases ?o) (auto simp: arm_timer_def insert_commute intro!: progress_armed progress_armed_twice)
  then show "steps (progress D) c (do {
     modify (upd_peer pidx (received_peer n now));
     modify (upd_peer pidx (rearm_received ka now));
     (if ka then ret () else arm_timer (instant_add now KEEPALIVE_TIMEOUT));
     (case peer_at c pidx of
        Some peer \<Rightarrow> (case persistent_keepalive peer of Some interval \<Rightarrow> arm_timer (instant_add now interval) | None \<Rightarrow> ret ())
      | None \<Rightarrow> ret ()) })"
    by (auto simp: steps_def arm_timer_def split: option.splits if_splits)
qed

lemma io_account [step_rules]: "state_io_rel (progress D) (account_received E pidx src n ka freed now)"
  unfolding account_received_def by (intro walk step_rules)

lemma io_slot_touch:
  assumes "\<And>x. s_created (f x) = s_created x"
  shows "state_io_rel (progress D) (do { c \<leftarrow> peek;
     case slot_at c s of Some (Established x) \<Rightarrow> modify (put_slot s (Established (f x))) | _ \<Rightarrow> ret () })"
proof (rule io_peek_bind, intro steps_option steps_slot progress.steps_return progress.steps_modify, goal_cases)
  case (1 c sl x)
  with slot_at_due [of c s sl] assms show ?case by (intro steps_put_slot) auto
qed

lemma io_rekey [step_rules]: "state_io_rel (progress D) (receive_rekey E pidx s sess now)"
proof -
  have "(do { c \<leftarrow> peek;
        (case slot_at c s of Some (Established x) \<Rightarrow> modify (put_slot s (Established (x\<lparr>s_rekey_triggered := True\<rparr>))) | _ \<Rightarrow> ret ());
        _ \<leftarrow> ensure_handshake E pidx now; ret () }) =
     (do { (do { c \<leftarrow> peek;
        case slot_at c s of Some (Established x) \<Rightarrow> modify (put_slot s (Established (x\<lparr>s_rekey_triggered := True\<rparr>))) | _ \<Rightarrow> ret () });
        _ \<leftarrow> ensure_handshake E pidx now; ret () })" by simp
  then show ?thesis unfolding receive_rekey_def
    by (simp only:) (intro progress.io_if progress.io_return progress.io_bind [OF io_slot_touch] progress.io_bind [OF io_ensure], simp)
qed


section \<open>What the methods before a delivery leave alone\<close>

text \<open>The routes, the firewall, and of every peer its key, relay and inbound policy.\<close>

definition routing_of :: "peer_entry \<Rightarrow> bytes \<times> bytes option \<times> inbound_policy" where
  "routing_of p = (pe_public_key p, pe_relay p, pe_inbound_policy p)"

definition same_routing :: "('r, 'p) core \<Rightarrow> ('r, 'p) core \<Rightarrow> bool" where
  "same_routing c c' \<longleftrightarrow> c_routes c' = c_routes c \<and> c_firewall c' = c_firewall c \<and>
     (\<forall>i. map_option routing_of (peer_at c' i) = map_option routing_of (peer_at c i))"

interpretation routing: step_relation same_routing
  by unfold_locales (auto simp: same_routing_def)

named_theorems routing_rules \<open>methods that leave the routing alone\<close>

lemma routing_frame:
  "c_peers c' = c_peers c \<Longrightarrow> c_routes c' = c_routes c \<Longrightarrow> c_firewall c' = c_firewall c \<Longrightarrow> same_routing c c'"
  by (simp add: same_routing_def peer_at_def)

lemma routing_put_peer: "peer_at c i = Some p \<Longrightarrow> routing_of q = routing_of p \<Longrightarrow> same_routing c (put_peer i q c)"
  using peer_in_bound [of "c_peers c" i p] by (auto simp: same_routing_def peer_at_def put_peer_def)

lemma routing_upd_peer: "(\<And>p. routing_of (f p) = routing_of p) \<Longrightarrow> state_io_rel same_routing (modify (upd_peer i f))"
  by (auto simp: state_io_rel_def upd_peer_def routing.refl routing_put_peer split: option.splits)

lemma routing_idle:
  "(\<And>c. c_peers (f c) = c_peers c \<and> c_routes (f c) = c_routes c \<and> c_firewall (f c) = c_firewall c) \<Longrightarrow> state_io_rel same_routing (modify f)"
  by (auto simp: state_io_rel_def intro!: routing_frame)

lemma routing_idle_zoom:
  "(\<And>v c. c_peers (upd v c) = c_peers c \<and> c_routes (upd v c) = c_routes c \<and> c_firewall (upd v c) = c_firewall c) \<Longrightarrow>
   state_io_rel same_routing (zoom sel upd f)"
  by (auto simp: state_io_rel_def run_simps Let_def split_beta intro!: routing_frame)

lemmas routing_walk = routing.io_rules io_slot

lemma routing_elementary [routing_rules]:
  "state_io_rel same_routing (draw f)" "state_io_rel same_routing (on_indices g)" "state_io_rel same_routing (timestamp now)"
  "state_io_rel same_routing (modify (put_slot s sl))" "state_io_rel same_routing (emit e)" "state_io_rel same_routing (arm_timer t)"
  unfolding draw_def on_indices_def timestamp_def emit_def arm_timer_def
  by (intro routing_walk routing_idle_zoom routing_idle; simp add: put_slot_def)+

lemma routing_slots [routing_rules]: "state_io_rel same_routing (free_slot s)" "state_io_rel same_routing (alloc_slot now)"
proof -
  show f: "state_io_rel same_routing (free_slot s)" for s
    unfolding free_slot_def by (intro routing_walk routing_rules routing_upd_peer) (simp add: routing_of_def upd_sessions_def)
  show "state_io_rel same_routing (alloc_slot now)"
    unfolding alloc_slot_def by (auto intro!: routing_walk f split: list.split)
qed

lemma routing_initiation [routing_rules]:
  "state_io_rel same_routing (allocate_handshake_slot pidx now)" "state_io_rel same_routing (build_initiation E pidx s now)"
  unfolding allocate_handshake_slot_def build_initiation_def install_initiation_def
  by (intro routing_walk routing_rules routing_upd_peer; simp add: routing_of_def)+

lemma routing_start [routing_rules]: "state_io_rel same_routing (commit_handshake_start pidx s now)"
proof -
  have tail: "state_io_rel same_routing (case r of Inl e \<Rightarrow> and_then (free_slot s) (\<lambda>_. err e)
     | Inr _ \<Rightarrow> do { arm_timer (instant_add now REKEY_ATTEMPT_TIME); ok () })" for r :: "unit result"
    by (intro routing_walk routing_rules)
  show ?thesis unfolding commit_handshake_start_def Let_def
    by (intro io_peek_bind routing.steps_bind [OF routing.steps_modify] tail)
      (auto simp: split_beta routing.refl split: option.split intro!: routing_put_peer simp: routing_of_def)
qed

lemma routing_stage [routing_rules]:
  "state_io_rel same_routing (stage_initiation E pidx now)" "state_io_rel same_routing (ensure_direct_handshake E pidx now)"
  unfolding ensure_direct_handshake_def stage_initiation_def by (intro routing_walk routing_rules)+

lemma routing_seal [routing_rules]: "state_io_rel same_routing (seal_transport E pidx s ty n relay now)"
proof -
  have "state_io_rel same_routing (commit_seal E pidx s peer sess n m now)" for peer sess m
    unfolding commit_seal_def
    by (intro routing_walk routing_rules routing_upd_peer) (simp_all add: routing_of_def sent_peer_def upd_sessions_def)
  then show ?thesis unfolding seal_transport_def
    by (intro routing_walk routing_idle) (simp_all add: set_buffer_def)
qed

lemma routing_transmit [routing_rules]:
  "state_io_rel same_routing (relay_path E key now)" "state_io_rel same_routing (transmit_wire E pidx dst msg now)"
  "state_io_rel same_routing (ensure_handshake E pidx now)"
proof -
  show p: "state_io_rel same_routing (relay_path E key now)" for key
    unfolding relay_path_def by (intro routing_walk routing_rules)
  show t: "state_io_rel same_routing (transmit_wire E pidx dst msg now)" for dst msg
    unfolding transmit_wire_def stage_envelope_def by (intro routing_walk routing_rules p routing_idle) simp_all
  show "state_io_rel same_routing (ensure_handshake E pidx now)"
    unfolding ensure_handshake_def by (intro routing_walk routing_rules t)
qed

lemma routing_receive [routing_rules]:
  "state_io_rel same_routing (observe_source pidx src now)" "state_io_rel same_routing (confirm_session pidx s)"
  "state_io_rel same_routing (account_received E pidx src n ka freed now)" "state_io_rel same_routing (receive_rekey E pidx s sess now)"
proof -
  show o: "state_io_rel same_routing (observe_source pidx src now)"
    unfolding observe_source_def
    by (intro io_peek_bind steps_option routing.steps_return steps_let)
      (auto simp: split_beta observe_direct_endpoint_def routing_of_def
        intro!: routing.steps_bind [OF routing.steps_modify] routing_put_peer routing_walk routing_rules routing.steps_modify)
  show "state_io_rel same_routing (confirm_session pidx s)"
    unfolding confirm_session_def
    by (intro io_peek_bind steps_option steps_if routing.steps_return steps_prod steps_sum)
      (auto intro!: routing.steps_bind [OF routing.steps_modify] routing_put_peer routing_walk routing_rules simp: routing_of_def)
  show "state_io_rel same_routing (account_received E pidx src n ka freed now)"
    unfolding account_received_def note_received_def
    by (intro routing_walk routing_rules o routing_upd_peer)
      (simp_all add: routing_of_def received_peer_def rearm_received_def upd_sessions_def)
  show "state_io_rel same_routing (receive_rekey E pidx s sess now)"
    unfolding receive_rekey_def by (intro routing_walk routing_rules)
qed

section \<open>What a datagram delivers\<close>

text \<open>The session a transport datagram belongs to and the plaintext it opens to there.\<close>

definition decrypts :: "('r, 'p) env \<Rightarrow> ('r, 'p) core \<Rightarrow> instant \<Rightarrow> bytes \<Rightarrow> bool \<Rightarrow> session \<Rightarrow> bytes \<Rightarrow> bool" where
  "decrypts E c now data is_relay sess inner \<longleftrightarrow> (\<exists>rb receiver sidx cb counter ciphertext n plaintext.
     get_range data (fst data_RECEIVER) (snd data_RECEIVER) = Some rb \<and> read_u32_le rb = Some receiver \<and>
     slot_for_session_index c receiver = Some sidx \<and> slot_at c sidx = Some (Established sess) \<and>
     get_range data (fst data_COUNTER) (snd data_COUNTER) = Some cb \<and> read_u64_le cb = Some counter \<and>
     counter < REJECT_AFTER_MESSAGES \<and> saturating_since now (s_created sess) < REJECT_AFTER_TIME \<and>
     get_range data PACKET_START (length data) = Some ciphertext \<and>
     aead_open (e_crypto E) (t_recv sess) counter ciphertext (if is_relay then RELAY_AEAD_AD else []) = Inr (n, plaintext) \<and>
     fst (check_and_update (s_replay sess) counter) \<and> n > 0 \<and> inner = take n plaintext)"

text \<open>The packet may be delivered as coming from the peer: cryptokey routing and the inbound policy agree.\<close>

definition admitted :: "('r, 'p) core \<Rightarrow> instant \<Rightarrow> peer_idx \<Rightarrow> socket_addr \<Rightarrow> bytes \<Rightarrow> sink_call \<Rightarrow> bool" where
  "admitted c now pidx src inner e \<longleftrightarrow> (\<exists>header peer packet.
     e = InnerPacket (pe_public_key peer) (if pe_relay peer = None then Some src else None) packet \<and>
     peer_at c pidx = Some peer \<and> parse_header inner = Some header \<and> get_range inner 0 (ih_total_len header) = Some packet \<and>
     lookup_readonly (c_routes c) (ih_src header) = Some (Some pidx) \<and>
     (pe_inbound_policy peer = EstablishedOnly \<longrightarrow> fst (allows_inbound (c_firewall c) pidx packet now)))"

definition delivers :: "(sink_call \<Rightarrow> bool) \<Rightarrow> ('r, 'p) core \<Rightarrow> ('r, 'p) core \<Rightarrow> bool" where
  "delivers P c c' \<longleftrightarrow> (\<exists>out. c_sink c' = c_sink c @ out \<and> (\<forall>e\<in>set out. is_inner e \<longrightarrow> P e))"

interpretation delivers: step_relation "delivers P" for P
proof unfold_locales
  show "delivers P c c" for c :: "('a, 'b) core" by (simp add: delivers_def)
  show "delivers P c e" if "delivers P c d" "delivers P d e" for c d e :: "('a, 'b) core"
    using that unfolding delivers_def by (metis UnE append.assoc set_append)
qed

lemma quiet_delivers: "quiet c c' \<Longrightarrow> delivers P c c'"
  unfolding quiet_def delivers_def by blast

lemma io_delivers: "state_io_rel (progress {}) m \<Longrightarrow> state_io_rel (delivers P) m"
  by (auto simp: state_io_rel_def progress_def intro: quiet_delivers)

lemma delivers_emit: "(is_inner e \<Longrightarrow> P e) \<Longrightarrow> steps (delivers P) c (emit e)"
  by (simp add: steps_def emit_def delivers_def)

lemma delivers_frame: "c_sink c' = c_sink c \<Longrightarrow> delivers P c c'"
  by (simp add: delivers_def)

lemma admitted_routing:
  assumes "same_routing c c'" "admitted c' now pidx src inner e"
  shows "admitted c now pidx src inner e"
proof -
  from assms(2) obtain header p packet where
    e: "e = InnerPacket (pe_public_key p) (if pe_relay p = None then Some src else None) packet" "peer_at c' pidx = Some p"
      "parse_header inner = Some header" "get_range inner 0 (ih_total_len header) = Some packet"
      "lookup_readonly (c_routes c') (ih_src header) = Some (Some pidx)"
      "pe_inbound_policy p = EstablishedOnly \<longrightarrow> fst (allows_inbound (c_firewall c') pidx packet now)"
    unfolding admitted_def by auto
  from assms(1) have r: "c_routes c' = c_routes c" "c_firewall c' = c_firewall c"
    "map_option routing_of (peer_at c' pidx) = map_option routing_of (peer_at c pidx)" by (auto simp: same_routing_def)
  from r(3) e(2) obtain q where q: "peer_at c pidx = Some q" "routing_of q = routing_of p" by (cases "peer_at c pidx") auto
  show ?thesis unfolding admitted_def
    by (intro exI [of _ header] exI [of _ q] exI [of _ packet]) (use e q r in \<open>auto simp: routing_of_def\<close>)
qed

lemma steps_deliver_inner: "steps (delivers (admitted c now pidx src inner)) c (deliver_inner E pidx src inner now)"
proof (cases "parse_header inner")
  case None
  then show ?thesis by (simp add: deliver_inner_def delivers.steps_return)
next
  case (Some header)
  note h = this
  show ?thesis
  proof (cases "lookup_readonly (c_routes c) (ih_src header) = Some (Some pidx)")
    case False
    then show ?thesis
      using h by (auto simp: deliver_inner_def on_routes_def steps_def delivers_def split: option.splits)
  next
    case True
    then show ?thesis using h
      by (auto simp: deliver_inner_def on_routes_def steps_def delivers_def admitted_def Let_def split_beta emit_def run_simps
          split: option.splits)
  qed
qed

lemma steps_routed:
  assumes "state_io_rel (delivers P) m" "state_io_rel same_routing m"
    and "\<And>x c'. same_routing c c' \<Longrightarrow> steps (delivers P) c' (k x)"
  shows "steps (delivers P) c (State_Monad.bind m k)"
proof (rule delivers.steps_bind_run [OF delivers.steps_io [OF assms(1)] assms(3)])
  fix x c' assume "run_state m c = (x, c')"
  then show "same_routing c c'" using assms(2) by (metis state_io_rel_def snd_conv)
qed

text \<open>The packets a transport datagram may deliver from a state.\<close>

definition authentic :: "('r, 'p) env \<Rightarrow> ('r, 'p) core \<Rightarrow> instant \<Rightarrow> socket_addr \<Rightarrow> bytes \<Rightarrow> bool \<Rightarrow> sink_call \<Rightarrow> bool" where
  "authentic E c now src data is_relay e \<longleftrightarrow> \<not> is_relay \<and>
     (\<exists>sess inner. decrypts E c now data is_relay sess inner \<and> admitted c now (s_peer sess) src inner e)"

lemma delivers_mono: "steps (delivers P) c m \<Longrightarrow> (\<And>e. P e \<Longrightarrow> Q e) \<Longrightarrow> steps (delivers Q) c m"
  unfolding steps_def delivers_def by blast

lemma rx_data_delivers:
  assumes "decrypts E c now data is_relay sess (take n plaintext) \<or> n = 0" "same_routing c d"
  shows "steps (delivers (authentic E c now src data is_relay)) d (do {
      confirmed \<leftarrow> confirm_session (s_peer sess) sidx;
      case confirmed of
        None \<Rightarrow> ret ()
      | Some freed \<Rightarrow> do {
          account_received E (s_peer sess) src (length data) (n = 0) freed now;
          receive_rekey E (s_peer sess) sidx sess now;
          if n = 0 then ret ()
          else do {
            let inner = take n plaintext;
            if is_relay then rx_relay E (s_peer sess) inner now else deliver_inner E (s_peer sess) src inner now } } })"
proof (intro steps_routed [OF io_delivers] step_rules routing_rules steps_option delivers.steps_return steps_if steps_let
    delivers.steps_io [OF io_delivers [OF io_rx_relay]], goal_cases)
  case (1 x c1 freed u1 c2 u2 c3 inner)
  then have "same_routing c c3" using assms(2) by (blast intro: routing.trans)
  with 1 assms(1) have "authentic E c now src data is_relay e" if "admitted c3 now (s_peer sess) src inner e" for e
    using admitted_routing [OF _ that] unfolding authentic_def by auto
  then show ?case by (rule delivers_mono [OF steps_deliver_inner])
qed

lemma steps_rx_data: "steps (delivers (authentic E c now src data is_relay)) c (rx_data E now src data is_relay)"
  unfolding rx_data_def
proof (intro steps_peek_bind steps_option steps_if delivers.steps_return steps_slot steps_sum steps_prod steps_let, goal_cases)
  case (1 receiver sidx counter sl sess ciphertext r n plaintext aw accepted window)
  let ?c = "put_slot sidx (Established (sess\<lparr>s_replay := window\<rparr>)) c"
  have same: "same_routing c ?c" by (rule routing_frame) (simp_all add: put_slot_def)
  show ?case 
  proof (rule delivers.steps_bind_run [OF delivers.steps_modify], goal_cases)
    case 1
    show ?case by (rule delivers_frame) (simp add: put_slot_def)
  next
    case (2 u d)
    have "decrypts E c now data is_relay sess (take n plaintext) \<or> n = 0" if accepted
      using 1 that fst_conv [of accepted window] unfolding decrypts_def by (auto split: option.splits)
    with 2 same have "d = ?c" "accepted \<Longrightarrow> decrypts E c now data is_relay sess (take n plaintext) \<or> n = 0" by auto
    then show ?case using same by (simp only: Let_def) (intro steps_if delivers.steps_return rx_data_delivers [unfolded Let_def]; blast)
  qed
qed

lemma steps_datagram:
  "steps (delivers (\<lambda>e. classify data = Some Data \<and> authentic E c now src data False e)) c (datagram E now src data)"
proof (cases "classify data")
  case None
  then show ?thesis by (simp add: datagram_def delivers.steps_return)
next
  case (Some k)
  have seq: "steps (delivers P) c (do { m; ok () })" if "steps (delivers P) c m"
    for P and m :: "('a, 'b, unit) action" and c :: "('a, 'b) core"
    using that by (rule delivers.steps_bind) (rule delivers.io_return)
  show ?thesis
  proof (cases k)
    case Initiation
    show ?thesis unfolding datagram_def Some Initiation option.case message.case
      by (rule delivers.steps_io [OF io_delivers [OF io_rx_initiation]])
  next
    case Response
    show ?thesis unfolding datagram_def Some Response option.case message.case
      by (rule seq [OF delivers.steps_io [OF io_delivers [OF io_rx_response]]])
  next
    case CookieReplyMsg
    show ?thesis unfolding datagram_def Some CookieReplyMsg option.case message.case
      by (rule seq [OF delivers.steps_io [OF io_delivers [OF io_rx_cookie]]])
  next
    case Data
    show ?thesis unfolding datagram_def Some Data option.case message.case
      by (rule seq [OF delivers_mono [OF steps_rx_data]]) simp
  next
    case RelayData
    show ?thesis unfolding datagram_def Some RelayData option.case message.case
      by (rule seq [OF delivers_mono [OF steps_rx_data]]) (simp add: authentic_def)
  qed
qed

section \<open>A packet on its way\<close>

text \<open>An engine with one established session, and a datagram that arrives on it.\<close>

definition demo_peer :: peer_entry where
  "demo_peer = (peer_new (replicate 32 9) Pinned (replicate 32 14) None None AllowAll None
     \<lparr>first_address = IpV4 0, network_length = 0\<rparr> 1000)\<lparr>pe_sessions := sessions_default\<lparr>ps_current := Some 0\<rparr>\<rparr>"

definition demo_session :: session where
  "demo_session = \<lparr>s_peer = 0, t_send = replicate 32 1, t_recv = replicate 32 2, n_send = 0, s_replay = \<lparr>rw_bitmap = [0,0,0,0], rw_top = None\<rparr>,
     s_local_index = 7, s_remote_index = 8, s_role = ResponderRole, s_created = 1000,
        s_rekey_after = REKEY_AFTER_TIME, s_confirmed = True, s_rekey_triggered = False\<rparr>"

definition demo_routes :: route_cache where
 "demo_routes = (let n = \<lparr>n_bits = 0, n_len = 0, n_children = (None, None), n_value = Some 0\<rparr> in 
    \<lparr>rc_entries = [Some \<lparr>re_cidr = \<lparr>first_address = IpV4 0, network_length = 0\<rparr>, re_peer = 0, re_pinned = True, re_last_used = 1000, re_order = 0\<rparr>],
    rc_len = 1, rc_trie = (rc_trie (routes_new 1))\<lparr>np_roots := [n, n]\<rparr>, rc_next = 1\<rparr>)"

definition demo_core where "demo_core = small_core\<lparr>c_peers := [Some demo_peer], c_slots := [Established demo_session],
  c_indices := (index_new 8)\<lparr>by_index := [(7, 0)]\<rparr>, c_routes := demo_routes\<rparr>"

definition demo_packet :: bytes where "demo_packet = [0x45, 0, 0, 21, 0, 0, 0, 0, 64, 17, 0, 0, 10, 0, 0, 1, 10, 0, 0, 2, 7]"

definition demo_datagram :: bytes where "demo_datagram = [4,0,0,0, 7,0,0,0, 0,0,0,0,0,0,0,0] @ demo_packet @ replicate 16 0"

lemma demo_route: "lookup_readonly demo_routes (IpV4 0x0a000001) = Some (Some 0)"
  by (simp add: lookup_readonly_def best_match_def trie_lookup_def lookup_loop.simps demo_routes_def routes_new_def trie_new_def
     V4_ROOT_def pool_get_def Let_def split_beta entry_at_def get_at_def child_at_def)

lemma demo_fields:
  "classify demo_datagram = Some Data" "get_range demo_datagram (fst data_RECEIVER) (snd data_RECEIVER) = Some [7, 0, 0, 0]"
  "get_range demo_datagram (fst data_COUNTER) (snd data_COUNTER) = Some (replicate 8 0)"
  "get_range demo_datagram PACKET_START (length demo_datagram) = Some (demo_packet @ replicate 16 0)"
  "length demo_datagram = 53"
  by code_simp+

lemma demo_numbers: "read_u32_le [7, 0, 0, 0] = Some 7" "read_u64_le (replicate 8 0) = Some 0"
  by code_simp+

lemma demo_header: "parse_header (demo_packet) = Some \<lparr>ih_src = IpV4 0x0a000001, ih_dst = IpV4 0x0a000002, ih_protocol = 17,
             ih_header_len = 20, ih_total_len = 21\<rparr>"
  by (simp add: demo_packet_def parse_header_def parse_v4_header_def get_at_def get_range_def from_be_bytes_def from_le_bytes_def)

lemma demo_limits: "get_range demo_datagram 16 53 = Some (demo_packet @ replicate 16 0)" "e_crypto small_env = xor_crypto" "\<not> REJECT_AFTER_TIME \<le> saturating_since 2000 1000"
   "REJECT_AFTER_MESSAGES \<noteq> 0" "length demo_packet = 21"
  using demo_fields(4,5) by (simp_all add: small_env_def REJECT_AFTER_TIME_def REJECT_AFTER_MESSAGES_def saturating_since_def sat_sub_def duration_from_secs_def sat_mul_def demo_packet_def PACKET_START_def)

lemma demo_open: "aead_open xor_crypto k 0 (demo_packet @ replicate 16 0) [] = Inr (21, demo_packet @ replicate 16 0)"
  by (simp add: aead_open_def xor_crypto_def demo_packet_def Let_def)

lemma demo_replay: "fst (check_and_update (s_replay demo_session) 0)"
  by (simp add: check_and_update_def demo_session_def Replay.set_bit_def block_index_def get_at_def Let_def split_beta)

lemma demo_tables: "slot_for_session_index demo_core 7 = Some 0" "slot_at demo_core 0 = Some (Established demo_session)" 
    "peer_at demo_core 0 = Some demo_peer" "c_routes demo_core = demo_routes"
  by (simp_all add: demo_core_def slot_for_session_index_def slot_for_def slot_at_def slot_in_def peer_at_def peer_in_def get_at_def index_new_def)

lemma demo_session: "s_created demo_session = 1000" "s_peer demo_session = 0" "s_role demo_session = ResponderRole" by (simp_all add: demo_session_def)

lemma demo_peer: "pe_public_key demo_peer = replicate 32 9" "pe_relay demo_peer = None" "pe_inbound_policy demo_peer = AllowAll" "persistent_keepalive demo_peer = None"
   "ps_next (pe_sessions demo_peer) = None"
  by (simp_all add: demo_peer_def peer_new_def Let_def sessions_default_def)

lemma demo_deliver: assumes "c_routes c = demo_routes" "peer_at c 0 = Some p" "pe_public_key p = replicate 32 9" "pe_relay p = None" "pe_inbound_policy p = AllowAll"
  shows "c_sink (snd (run_state (deliver_inner small_env 0 src demo_packet 2000) c)) = c_sink c @ [InnerPacket (replicate 32 9) (Some src) demo_packet]"
  proof -
  have "get_range demo_packet 0 21 = Some demo_packet" by (simp add: get_range_def demo_packet_def)
  with assms show ?thesis by (simp add: deliver_inner_def demo_header demo_route on_routes_def emit_def peer_at_def)
qed

definition demo_received where "demo_received = put_slot 0 (Established (demo_session\<lparr>s_replay := snd (check_and_update (s_replay demo_session) 0)\<rparr>)) demo_core"

lemma demo_received_tables: "peer_at demo_received 0 = Some demo_peer" "c_routes demo_received = demo_routes"
  by (simp_all add: demo_received_def peer_at_def put_slot_def demo_tables(3) [unfolded peer_at_def] demo_tables(4))

lemma demo_run: "\<exists>c p. run_state (rx_data small_env 2000 src demo_datagram False) demo_core = 
    run_state (deliver_inner small_env 0 src demo_packet 2000) c \<and> c_routes c = demo_routes \<and> peer_at c 0 = Some p \<and> pe_public_key p = replicate 32 9 \<and> pe_relay p = None \<and> pe_inbound_policy p = AllowAll"
proof -
  obtain f c1 where 1: "run_state (confirm_session 0 0) demo_received = (f, c1)" by fastforce
  then have f: "f = Some None" "c1 = demo_received" by (auto simp: confirm_session_def demo_received_tables demo_peer)
  obtain c2 where 2: "run_state (account_received small_env 0 src 53 False None 2000) demo_received = ((), c2)" by (metis old.unit.exhaust surj_pair)
  obtain c3 where 3: "run_state (receive_rekey small_env 0 0 demo_session 2000) c2 = ((), c3)" by (metis old.unit.exhaust surj_pair)
  have "same_routing demo_received c2" using routing_receive(3) [of small_env 0 src 53 False None 2000] 2 by (auto simp: state_io_rel_def dest: spec [of _ demo_received])
  moreover have "same_routing c2 c3" using routing_receive(4) [of small_env 0 0 demo_session 2000] 3 by (auto simp: state_io_rel_def dest: spec [of _ c2])
  ultimately have "same_routing demo_received c3" by (rule routing.trans)
  then have "c_routes c3 = demo_routes" "map_option routing_of (peer_at c3 0) = Some (routing_of demo_peer)" 
    by (auto simp: same_routing_def demo_received_tables)
  moreover have "run_state (rx_data small_env 2000 src demo_datagram False) demo_core = 
    run_state (deliver_inner small_env 0 src demo_packet 2000) c3" using 1 2 3 f
  by (simp add: rx_data_def demo_fields demo_numbers demo_tables demo_session Let_def demo_open split_beta demo_replay demo_limits demo_received_def [symmetric] 
     del: replicate.simps)
  ultimately show ?thesis by (auto simp: routing_of_def demo_peer)
qed

text \<open>
  C3: what a received datagram hands to the tunnel. An inner packet reaches the application only if
  the datagram is a transport message for the receiver index of an established session that has
  not expired, its counter is below the message limit and was not accepted before, and it opens
  under the receiving key of that session; the packet is the IP packet the plaintext starts with,
  trimmed to its own length, its source address is routed to the session's peer, that peer's
  firewall admits it if its inbound policy asks for that, and it is reported with the key of that peer, and
  with the datagram's source if the peer is not behind a relay.
\<close>

theorem delivered_packets_are_authentic:
  assumes "run_state (receive_outer E now source data) c = (r, c')"
  shows "\<exists>out. c_sink c' = c_sink c @ out \<and>
    (\<forall>key from packet. InnerPacket key from packet \<in> set out \<longrightarrow>
       classify data = Some Data \<and> length data \<le> MAX_UDP_SIZE \<and>
       (\<exists>sess inner. decrypts E c now data False sess inner \<and>
          admitted c now (s_peer sess) (unmap_socket_addr source) inner (InnerPacket key from packet)))"
proof -
  let ?P = "\<lambda>e. length data \<le> MAX_UDP_SIZE \<and> classify data = Some Data \<and> authentic E c now (unmap_socket_addr source) data False e"
  have "steps (delivers ?P) c (if length data > MAX_UDP_SIZE then err PacketTooLarge else datagram E now (unmap_socket_addr source) data)"
    by (intro steps_if delivers.steps_return delivers_mono [OF steps_datagram]) simp
  then have "steps (delivers ?P) c (receive_outer E now source data)"
    unfolding receive_outer_def Let_def
    by (rule delivers.steps_bind) (intro delivers.io_bind delivers.io_return io_delivers [OF io_flush])
  with assms show ?thesis unfolding steps_def delivers_def authentic_def by fastforce
qed

theorem delivered_packets_are_authentic_witness:
  "\<exists>sess inner. decrypts small_env demo_core 2000 demo_datagram False sess inner \<and>
     admitted demo_core 2000 (s_peer sess) (SockV4 0x01020304 51820) inner
       (InnerPacket (replicate 32 9) (Some (SockV4 0x01020304 51820)) demo_packet)"
proof -
  let ?src = "SockV4 0x01020304 51820" and ?e = "InnerPacket (replicate 32 9) (Some (SockV4 0x01020304 51820)) demo_packet"
  obtain c1 where 1: "run_state (rx_data small_env 2000 ?src demo_datagram False) demo_core = ((), c1)" "?e \<in> set (c_sink c1)"
  proof -
    from demo_run [of ?src] obtain c p where c: "run_state (rx_data small_env 2000 ?src demo_datagram False) demo_core = run_state (deliver_inner small_env 0 ?src demo_packet 2000) c"
      "c_routes c = demo_routes" "peer_at c 0 = Some p" "pe_public_key p = replicate 32 9" "pe_relay p = None" "pe_inbound_policy p = AllowAll" by blast
    obtain c1 where "run_state (deliver_inner small_env 0 ?src demo_packet 2000) c = ((), c1)" by (metis old.unit.exhaust surj_pair)
    with c(1) demo_deliver [OF c(2-6), of ?src] show ?thesis by (intro that [of c1]) simp_all
  qed
  obtain c' where 2: "run_state (flush_sink_output small_env) c1 = ((), c')" by (metis old.unit.exhaust surj_pair)
  have "quiet c1 c'" using io_flush [of "{}" small_env] 2 by (metis progress_def snd_conv state_io_rel_def)
  with 1(2) have "?e \<in> set (c_sink c')" by (auto simp: quiet_def)
  moreover have "run_state (receive_outer small_env 2000 ?src demo_datagram) demo_core = (Inr (), c')"
    using 1 2 by (simp add: receive_outer_def datagram_def demo_fields MAX_UDP_SIZE_def)
  moreover have "c_sink demo_core = []" by (simp add: demo_core_def small_core_def core_empty_def Let_def split_beta)
  ultimately show ?thesis using delivered_packets_are_authentic [of small_env 2000 ?src demo_datagram demo_core "Inr ()" c']
    by simp
qed

end
