(* ===== verification/Engine_Timers.thy ===== *)
theory Engine_Timers
  imports Engine_Delivery
begin

text \<open>
  The remaining methods of the engine make progress in the sense of \<open>Engine_Steps\<close>: the
  resolver's answers and the timer actions. With the deadline scan of \<open>handle_timeout\<close> this gives
  the contract of \<open>poll_at\<close>: in every reachable state it is never later than a deadline the
  engine has to act on.
\<close>

section \<open>The peer table\<close>

definition only_persistent :: "peer_entry \<Rightarrow> bool" where
  "only_persistent p \<longleftrightarrow> peer_due p = set_option (persistent_keepalive_due (pe_sessions p))"

lemma Some_eq_map: "Some x = map_option f y \<longleftrightarrow> (\<exists>z. y = Some z \<and> f z = x)"
  by (cases y) auto

lemma only_persistent_new: "only_persistent (peer_new key kind shared ep relay policy ka addr now)"
  by (auto simp: only_persistent_def peer_due_def peer_deadlines_def peer_new_def Let_def sessions_default_def elem_set Some_eq_map)

lemma io_put_peer:
  assumes "peer_due p \<subseteq> D"
  shows "state_io_rel (progress D) (modify (put_peer i p))"
proof (rule io_write)
  show "deadlines (put_peer i p c) \<subseteq> deadlines c \<union> D" for c :: "('a, 'b) core"
    using deadlines_put_peer [of i p c] assms by blast
qed (simp add: put_peer_def identity_def)

lemma io_install_peer:
  assumes "only_persistent p"
  shows "state_io_rel (progress D) (install_peer E i p)"
  unfolding install_peer_def using assms
  by (intro progress.io_bind [OF progress.io_peek] progress.io_option progress.io_if progress.io_return progress.io_and_then
      io_elementary io_armed_option io_put_peer progress.io_bind [OF io_elementary(3)])
    (auto simp: only_persistent_def)

lemma io_clear_peer: "state_io_rel (progress D) (modify (c_peers_update (\<lambda>ps. ps[i := None])))"
proof (rule io_write)
  show "deadlines (c_peers_update (\<lambda>ps. ps[i := None]) c) \<subseteq> deadlines c \<union> D" for c :: "('a, 'b) core"
    using set_update_subset_insert [of "c_peers c" i None] by (auto simp: deadlines_def)
qed (simp add: identity_def)

lemma io_take_peer [step_rules]: "state_io_rel (progress D) (take_peer i)"
  unfolding take_peer_def by (intro walk io_clear_peer io_idle; simp add: identity_def)

lemma io_release [step_rules]: "state_io_rel (progress D) (release_slots ss)"
  by (induction ss) (auto simp only: release_slots.simps intro!: walk step_rules)

lemma io_evict [step_rules]: "state_io_rel (progress D) (evict_peer E i)"
  "state_io_rel (progress D) (evict_peer_and_remember E i now)" "state_io_rel (progress D) (evict_peer_for_capacity E i now)"
proof -
  show e: "state_io_rel (progress D) (evict_peer E i)"
    unfolding evict_peer_def by (intro walk step_rules io_idle; simp add: identity_def)
  show r: "state_io_rel (progress D) (evict_peer_and_remember E i now)"
    unfolding evict_peer_and_remember_def by (intro walk step_rules e)
  show "state_io_rel (progress D) (evict_peer_for_capacity E i now)"
    unfolding evict_peer_for_capacity_def by (intro walk r io_idle_zoom; simp add: identity_def)
qed

section \<open>Resolver answers\<close>

lemma io_replace_route [step_rules]: "state_io_rel (progress D) (replace_dynamic_route E i addr now allow)"
proof -
  have addr: "state_io_rel (progress D) (do {
      c \<leftarrow> peek;
      case peer_at c i of
        None \<Rightarrow> err InternalInvariant
      | Some peer \<Rightarrow> do { modify (put_peer i (peer\<lparr>pe_address := addr\<rparr>)); ok () } })"
    by (rule io_peek_bind) (auto simp: peer_due_def peer_deadlines_def
        intro!: steps_option progress.steps_return progress.steps_bind [OF progress.steps_modify] steps_put_peer progress.io_return)
  show ?thesis unfolding replace_dynamic_route_def
    by (intro progress.io_bind [OF progress.io_peek] progress.io_let progress.io_and_then progress.io_if progress.io_return progress.io_option
        progress.io_bind [OF io_idle_zoom] step_rules addr) (simp_all add: identity_def)
qed

lemma due_refreshed:
  "peer_due (refreshed_peer info now p) \<subseteq> peer_due p \<union>
     (if persistent_keepalive (refreshed_peer info now p) \<noteq> persistent_keepalive p
      then set_option (persistent_keepalive_due (pe_sessions (refreshed_peer info now p))) else {})"
  by (auto simp: refreshed_peer_def Let_def peer_due_def peer_deadlines_def upd_sessions_def elem_set Some_eq_map split: if_splits)

lemma refresh_progress:
  assumes "peer_at c i = Some p"
  shows "steps (progress D) c (do {
      modify (put_peer i (refreshed_peer info now p));
      (if persistent_keepalive (refreshed_peer info now p) \<noteq> persistent_keepalive p
       then (case persistent_keepalive_due (pe_sessions (refreshed_peer info now p)) of
               Some deadline \<Rightarrow> arm_timer deadline
             | None \<Rightarrow> ret ())
       else ret ()) })"
proof -
  let ?q = "refreshed_peer info now p"
  let ?d = "persistent_keepalive_due (pe_sessions ?q)"
  show ?thesis
  proof (cases "persistent_keepalive ?q \<noteq> persistent_keepalive p")
    case False
    then have "peer_due ?q \<subseteq> peer_due p \<union> D" using due_refreshed [of info now p] by auto
    then show ?thesis using False steps_put_peer [OF assms] by (simp add: steps_def)
  next
    case True
    then have "peer_due ?q \<subseteq> peer_due p \<union> (set_option ?d \<union> D)" using due_refreshed [of info now p] by auto
    then have "progress (set_option ?d \<union> D) c (put_peer i ?q c)" by (rule steps_put_peer [OF assms])
    then show ?thesis using True by (cases ?d) (auto simp: steps_def arm_timer_def intro: progress_armed)
  qed
qed

lemma io_upsert [step_rules]: "state_io_rel (progress D) (upsert_peer_unchecked E info now admission)"
proof -
  have new: "state_io_rel (progress D) (and_then (lift (dynamic_peer E c info now)) (\<lambda>peer.
      and_then m (\<lambda>_. and_then (install_peer E i peer) (\<lambda>_. ok x))))"
    if "state_io_rel (progress D) m" for m :: "('a, 'b, unit) fallible" and c :: "('a, 'b) core" and i and x :: "peer_idx \<times> bool \<times> bool"
    using that by (cases "dynamic_peer E c info now")
      (auto simp: dynamic_peer_def rbind_def Let_def only_persistent_new split: sum.splits
        intro!: progress.io_and_then progress.io_return io_install_peer)
  show ?thesis unfolding upsert_peer_unchecked_def
  proof (rule io_peek_bind, rule steps_option, goal_cases)
    case (1 c)
    show ?case using new [OF progress.io_return(2)] new [OF io_evict(3)]
      by (intro progress.steps_bind [OF progress.steps_io] step_rules progress.io_if progress.io_return progress.io_let progress.io_option)
        simp_all
  next
    case (2 c i)
    show ?case
    proof (rule steps_option, goal_cases)
      case (2 p)
      have fw: "state_io_rel (progress D) (modify (c_firewall_update f) :: ('a, 'b, unit) action)" for f
        by (rule io_idle) (simp add: identity_def)
      have split: "(do { m; n; k; l }) = (do { (do { m; n }); k; l })" for m n k :: "('a, 'b, unit) action" and l :: "('a, 'b, 'c) action"
        by simp
      show ?case unfolding Let_def split
        by (intro progress.steps_bind [OF refresh_progress [OF 2]] progress.io_bind progress.io_if fw progress.io_return)
    qed (rule progress.steps_return)
  qed
qed

lemma io_commit [step_rules]:
  "state_io_rel (progress D) (commit_existing_resolved_peer E i info now admission allow)"
  "state_io_rel (progress D) (commit_held_update E i info now)"
  unfolding commit_held_update_def commit_existing_resolved_peer_def by (intro walk step_rules)+

lemma io_held [step_rules]: "state_io_rel (progress D) (apply_held_answer E now key outcome)"
  unfolding apply_held_answer_def by (intro walk step_rules)

lemma io_admit [step_rules]:
  "state_io_rel (progress D) (admit_answer E now source key info)" "state_io_rel (progress D) (admit_outbound_answer E now entry key info)"
  unfolding admit_answer_def admit_outbound_answer_def by (intro walk step_rules)+

lemma io_resolved_install [step_rules]: "state_io_rel (progress D) (resolved_install E now entry source outcome)"
  unfolding resolved_install_def by (intro walk step_rules)

lemma io_outbound [step_rules]: "state_io_rel (progress D) (outbound E now packet)"
  unfolding outbound_def by (intro walk step_rules)

lemma io_replay_parked [step_rules]: "state_io_rel (progress D) (replay_parked n E rid now)"
  by (induction n) (auto simp only: replay_parked.simps intro!: walk step_rules)

lemma io_resolved_outbound [step_rules]: "state_io_rel (progress D) (resolved_outbound E now entry outcome)"
  unfolding resolved_outbound_def by (intro walk step_rules)

lemma io_resolved [step_rules]: "state_io_rel (progress D) (resolved E now response)"
  unfolding resolved_def by (intro walk step_rules)

lemma io_completed [step_rules]: "state_io_rel (progress D) (resolver_event_completed E now event)"
  unfolding resolver_event_completed_def peer_updated_def
  by (cases event) (auto intro!: walk step_rules)

lemma io_send_inner [step_rules]: "state_io_rel (progress D) (send_inner E now packet)"
  unfolding send_inner_def by (intro walk step_rules)

section \<open>Received datagrams\<close>

lemma io_timely: "state_io_rel (progress {}) m \<Longrightarrow> state_io_rel (timely {}) m"
  by (auto simp: state_io_rel_def progress_def)

lemma timely_emit: "state_io_rel (timely {}) (emit e)"
proof -
  have "timely {} c (c\<lparr>c_sink := s\<rparr>)" for c :: "('a, 'b) core" and s
    using covered_cong [of "c\<lparr>c_sink := s\<rparr>" c] by (auto simp: timely_def deadlines_def identity_def)
  then show ?thesis by (simp add: state_io_rel_def emit_def)
qed

lemma timely_deliver_inner: "state_io_rel (timely {}) (deliver_inner E i src inner now)"
  unfolding deliver_inner_def
  by (intro timely.io_rules timely_emit io_timely step_rules io_idle_zoom; simp add: identity_def)

lemma timely_rx_data: "state_io_rel (timely {}) (rx_data E now src data is_relay)"
proof -
  have window: "steps (timely {}) c (modify (put_slot s (Established (sess\<lparr>s_replay := w\<rparr>))))"
    if "slot_at c s = Some (Established sess)" for c :: "('a, 'b) core" and s sess w
    using slot_at_due [OF that] steps_put_slot [of "Established (sess\<lparr>s_replay := w\<rparr>)" c "{}" s]
    by (auto simp: progress_def intro: timely.steps_modify)
  show ?thesis unfolding rx_data_def
    by (intro io_peek_bind steps_option steps_if timely.steps_return steps_slot steps_sum steps_prod steps_let
        timely.steps_bind [OF window] timely.io_rules timely_deliver_inner io_timely step_rules) simp_all
qed

lemma timely_receive: "state_io_rel (timely {}) (receive_outer E now source data)"
proof -
  have "state_io_rel (timely {}) (datagram E now src data)" for src
    unfolding datagram_def
    by (intro timely.io_rules io_message timely_rx_data io_timely [OF io_rx_initiation] io_timely [OF io_rx_response] io_timely [OF io_rx_cookie])
  then show ?thesis unfolding receive_outer_def by (intro timely.io_rules io_timely [OF io_flush])
qed

end
