(* ===== verification/Engine_Deadlines.thy ===== *)
theory Engine_Deadlines
  imports Engine_Timers
begin

text \<open>
  The contract between the engine and the loop that drives it: \<open>poll_at\<close> is never later than a
  deadline of the engine, and a timer call that reports nothing to do leaves nothing due.
\<close>

section \<open>The deadline scan\<close>

lemma fold_min_le:
  "(\<exists>b. fold (\<lambda>d at. min_deadline at d) ds a = Some b \<and> b \<le> t) \<longleftrightarrow>
     (\<exists>x. a = Some x \<and> x \<le> t) \<or> (\<exists>x. Some x \<in> set ds \<and> x \<le> t)"
proof (induction ds arbitrary: a)
  case (Cons d ds)
  show ?case unfolding fold.simps o_apply Cons.IH by (cases a; cases d) (auto simp: min_le_iff_disj)
qed simp

lemma fold_min_in:
  "fold (\<lambda>d at. min_deadline at d) ds a = Some b \<Longrightarrow> a = Some b \<or> Some b \<in> set ds"
proof (induction ds arbitrary: a)
  case (Cons d ds)
  from Cons.IH [of "min_deadline a d"] Cons.prems show ?case by (cases a; cases d) (auto simp: min_def split: if_splits)
qed simp

lemma in_parked: "next_deadline pool = Some d \<Longrightarrow> d \<in> pp_deadline ` set (parked pool)"
  by (auto simp: next_deadline_def dest: min_by_SomeD)

lemma scan_sound:
  assumes "scan_deadlines c = Some b"
  shows "b \<in> deadlines c"
proof -
  have att: "d \<in> deadlines c" if "peer_at c i = Some p" "attempt_deadline (pe_sessions p) = Some d" for i p d
    using peer_at_due [OF that(1)] that(2) by (auto simp: peer_due_def)
  have "slot_due sl \<subseteq> deadlines c" if "sl \<in> set (c_slots c)" for sl using that by (auto simp: deadlines_def)
  then have slot: "d \<in> deadlines c" if "Some d \<in> set (slot_deadlines c sl)" "sl \<in> set (c_slots c)" for d sl
    using that att by (cases sl) (fastforce simp: slot_deadlines_def split: option.splits)+
  from fold_min_in [OF assms [unfolded scan_deadlines_def Let_def]] slot in_parked [of "c_pending c" b]
  show ?thesis by (auto simp: deadlines_def peer_due_def in_map_filter)
qed

lemma peer_index:
  assumes "Some p \<in> set (c_peers c)" "length (c_peers c) < 2 ^ 32"
  shows "\<exists>i. peer_at c i = Some p"
proof -
  from assms obtain k where "k < length (c_peers c)" "c_peers c ! k = Some p" by (auto simp: in_set_conv_nth)
  with assms(2) show ?thesis
    by (intro exI [of _ "word_of_nat k"]) (simp add: peer_at_def peer_in_nth unat_of_nat take_bit_nat_eq_self)
qed

lemma scan_complete:
  assumes t: "tables_ok E {} c" "MAX_PEERS E < 2 ^ 32" and d: "d \<in> deadlines c"
  shows "\<exists>b. scan_deadlines c = Some b \<and> b \<le> d"
proof -
  have peer: "\<exists>sl\<in>set (c_slots c). Some d \<in> set (slot_deadlines c sl)"
    if "Some p \<in> set (c_peers c)" "attempt_deadline (pe_sessions p) = Some d" for p
  proof -
    from t have "length (c_peers c) < 2 ^ 32" by (simp add: tables_ok_def)
    from peer_index [OF that(1) this] obtain i where i: "peer_at c i = Some p" by blast
    from links_okD [OF t(1) i] have l: "sessions_wf (pe_sessions p)"
      "\<forall>s. ps_handshake (pe_sessions p) = Some s \<longrightarrow> (\<exists>h. slot_in (c_slots c) s = Some (Initiating h) \<and> in_peer h = i)"
      by (auto simp: links_ok_def)
    from l(1) that(2) obtain s where "ps_handshake (pe_sessions p) = Some s" by (cases "ps_handshake (pe_sessions p)") (auto simp: sessions_wf_def)
    with l(2) obtain h where "slot_in (c_slots c) s = Some (Initiating h)" "in_peer h = i" by blast
    then have "Initiating h \<in> set (c_slots c)" "in_peer h = i" by (auto simp: slot_in_nth) (metis nth_mem)
    with i that(2) show ?thesis by (intro bexI [of _ "Initiating h"]) (auto simp: slot_deadlines_def)
  qed
  have slot: "Some d \<in> set (slot_deadlines c sl)" if "d \<in> slot_due sl" for sl
    using that by (cases sl) (auto simp: slot_deadlines_def)
  have parked: "\<exists>x. next_deadline (c_pending c) = Some x \<and> x \<le> d" if "d \<in> pp_deadline ` set (parked (c_pending c))"
    using that next_deadline_due [of "c_pending c" d] by auto
  let ?list = "concat (map peer_deadlines (List.map_filter id (c_peers c))) @ concat (map (slot_deadlines c) (c_slots c)) @
    [next_deadline (c_pending c)] @ map (\<lambda>r. Some (ir_deadline r)) (c_resolves c) @ map (\<lambda>p. Some (pr_due p)) (c_reconciles c)"
  have "\<exists>x. Some x \<in> set ?list \<and> x \<le> d"
    using d unfolding deadlines_def
  proof (elim UnE)
    assume "d \<in> \<Union> (peer_due ` {p. Some p \<in> set (c_peers c)})"
    then obtain p where p: "Some p \<in> set (c_peers c)" "Some d \<in> set (attempt_deadline (pe_sessions p) # peer_deadlines p)"
      by (auto simp: peer_due_def)
    then show ?thesis
    proof (cases "attempt_deadline (pe_sessions p) = Some d")
      case True
      with peer [OF p(1)] show ?thesis by auto
    next
      case False
      with p(2) have "Some d \<in> set (peer_deadlines p)" by auto
      with p(1) have "Some d \<in> set ?list" by (auto simp: in_map_filter intro!: bexI [of _ "Some p"])
      then show ?thesis by blast
    qed
  next
    assume "d \<in> \<Union> (slot_due ` set (c_slots c))"
    with slot show ?thesis by (intro exI [of _ d]) auto
  qed (use parked in auto)
  then show ?thesis unfolding scan_deadlines_def Let_def fold_min_le by blast
qed

section \<open>The timer actions\<close>

lemma io_slot_timers [step_rules]: "state_io_rel (progress D) (slot_timers E ss now)"
  by (induction ss) (auto simp only: slot_timers.simps intro!: walk step_rules)

lemma io_clear_due:
  assumes "\<And>ps. attempt_deadline (f ps) = attempt_deadline ps"
    "\<And>ps. keepalive_due (f ps) \<in> {None, keepalive_due ps}" "\<And>ps. persistent_keepalive_due (f ps) \<in> {None, persistent_keepalive_due ps}"
    "\<And>ps. reply_due (f ps) \<in> {None, reply_due ps}"
  shows "state_io_rel (progress D) (modify (upd_peer i (upd_sessions f)))"
proof (rule io_upd_peer)
  fix p show "peer_due (upd_sessions f p) \<subseteq> peer_due p \<union> D"
    using assms(2-4) [of "pe_sessions p"] by (auto simp: peer_due_def peer_deadlines_def upd_sessions_def assms(1))
qed

lemma io_persistent [step_rules]: "state_io_rel (progress D) (fire_persistent_keepalive E i peer now)"
proof -
  have rearm: "state_io_rel (progress D) (do {
      modify (upd_peer i (upd_sessions (persistent_keepalive_due_update (\<lambda>_. Some d))));
      arm_timer d })" for d
    by (intro io_armed_last io_upd_peer) (auto simp: peer_due_def peer_deadlines_def upd_sessions_def)
  show ?thesis unfolding fire_persistent_keepalive_def
    by (intro progress.io_bind [OF io_clear_due] progress.io_bind [OF progress.io_peek] progress.io_option progress.io_bind [OF io_encrypt(2)]
        progress.io_bind [OF io_ensure] progress.io_return rearm) simp_all
qed

lemma io_peer_timers [step_rules]: "state_io_rel (progress D) (peer_timers E ps now)"
proof (induction ps)
  case (Cons i ps)
  show ?case unfolding peer_timers.simps by (intro walk step_rules io_clear_due Cons.IH) simp_all
qed (simp add: progress.io_return)

lemma io_timeout [step_rules]: "state_io_rel (progress D) (timeout E now)"
proof -
  have "pp_deadline ` set (parked (snd (expire_one now ps))) \<subseteq> pp_deadline ` set (parked ps) \<union> D" for ps
    by (induction ps) (auto simp: split_beta Let_def set_parked)
  then show ?thesis unfolding timeout_def by (intro walk step_rules io_pending)
qed

section \<open>An idle engine has nothing due\<close>

text \<open>Neither loop changes anything before it fires, and it fires on the first thing that is due.\<close>

lemma slot_timers_idle:
  assumes "run_state (slot_timers E ss now) c = (r, c')" "r \<noteq> Some True" "\<forall>s\<in>set ss. slot_at c s \<noteq> None"
  shows "r = None \<and> c' = c \<and> (\<forall>s\<in>set ss. \<forall>sl. slot_at c s = Some sl \<longrightarrow>
    \<not> session_dead now sl \<and> (\<forall>h d. sl = Initiating h \<and> Some d \<in> set (slot_deadlines c sl) \<longrightarrow> now < d))"
  using assms
proof (induction ss)
  case (Cons s ss)
  then obtain sl where "slot_at c s = Some sl" by auto
  with Cons show ?case
    by (cases sl) (auto simp: session_dead_def not_le slot_deadlines_def is_due_def split: if_splits prod.splits option.splits)
qed simp

lemma session_alive:
  assumes "\<not> session_dead now (Established sess)" "now < - 1"
  shows "now < instant_add (s_created sess) REJECT_AFTER_TIME"
proof -
  have now: "unat now < 2 ^ 64 - 1" using assms(2) by (simp add: word_less_nat_alt unat_minus_one_word)
  from assms(1) have "unat (sat_sub now (s_created sess)) < unat REJECT_AFTER_TIME"
    by (simp add: session_dead_def saturating_since_def not_le word_less_nat_alt)
  with now show ?thesis
    by (auto simp: instant_add_def word_less_nat_alt unat_sat_add unat_sat_sub min_def)
qed

lemma peer_timers_idle:
  assumes "run_state (peer_timers E ps now) c = (r, c')" "r \<noteq> Some True"
  shows "r = None \<and> c' = c \<and> (\<forall>i\<in>set ps. \<forall>p. peer_at c i = Some p \<longrightarrow> (\<forall>d. Some d \<in> set (peer_deadlines p) \<longrightarrow> now < d))"
  using assms
proof (induction ps)
  case (Cons i ps)
  then show ?case
    by (cases "peer_at c i") (auto simp: is_due_def peer_deadlines_def not_le split: if_splits option.splits prod.splits)
qed simp

lemma expire_one_idle: "expire_one now pool = (False, pool') \<Longrightarrow> pool' = pool \<and> (\<forall>p\<in>set (parked pool). now < pp_deadline p)"
  by (induction pool arbitrary: pool') (auto simp: slot_matches_def not_le split: prod.splits if_splits option.splits)

lemma expire_resolve_idle:
  assumes "run_state (expire_one_resolve E now) c = (False, c')"
  shows "c' = c \<and> (\<forall>r\<in>set (c_resolves c). now < ir_deadline r)"
  using assms unfolding expire_one_resolve_def Let_def
  by (auto simp: position_None_iff not_le split: option.splits prod.splits)

lemma promote_idle:
  assumes "run_state (promote_due_reconcile now) c = (False, c')"
  shows "c' = c \<and> (\<forall>r\<in>set (c_reconciles c). now < pr_due r)"
  using assms unfolding promote_due_reconcile_def Let_def
  by (auto simp: position_None_iff not_le split: option.splits prod.splits if_splits sum.splits)

lemma timeout_cases:
  assumes "run_state (timeout E now) c = (False, c')"
  shows "expire_one now (c_pending c) = (False, c_pending c) \<and> fst (run_state (expire_one_resolve E now) c) = False \<and>
    fst (run_state (promote_due_reconcile now) c) = False \<and>
    (\<exists>r c1. run_state (slot_timers E (map word_of_nat [0..<MAX_SESSIONS E]) now) c = (r, c1) \<and> r \<noteq> Some True \<and>
      (r = None \<longrightarrow> (\<exists>q. run_state (peer_timers E (map word_of_nat [0..<MAX_PEERS E]) now) c1 = (q, c') \<and> q \<noteq> Some True)))"
proof -
  obtain x pool where e: "expire_one now (c_pending c) = (x, pool)" by fastforce
  from assms e have x: "\<not> x" by (auto simp: timeout_def run_simps)
  with expire_one_idle e have pool: "expire_one now (c_pending c) = (False, c_pending c)" by auto
  obtain y c1 where r: "run_state (expire_one_resolve E now) c = (y, c1)" by fastforce
  with assms pool have y: "\<not> y" by (auto simp: timeout_def run_simps)
  with expire_resolve_idle [of E now c c1] r have r: "run_state (expire_one_resolve E now) c = (False, c)" by simp
  obtain z c2 where p: "run_state (promote_due_reconcile now) c = (z, c2)" by fastforce
  with assms pool r have z: "\<not> z" by (auto simp: timeout_def run_simps)
  with promote_idle [of now c c2] p have p: "run_state (promote_due_reconcile now) c = (False, c)" by simp
  from assms pool r p show ?thesis
    by (auto simp: timeout_def run_simps split: prod.splits option.splits)
qed

lemma slot_at_upt: "length (c_slots c) = n \<Longrightarrow> n < 2 ^ 32 \<Longrightarrow> s \<in> set (map word_of_nat [0..<n]) \<Longrightarrow> slot_at c s \<noteq> None"
  by (auto simp: slot_at_def slot_in_def get_at_def unat_of_nat take_bit_nat_eq_self)

lemma timeout_idle:
  assumes t: "tables_ok E {} c" and now: "now < - 1"
    and sizes: "MAX_PEERS E < 2 ^ 32" "MAX_SESSIONS E < 2 ^ 32"
    and run: "run_state (timeout E now) c = (False, c')"
  shows "c' = c \<and> (\<forall>b. scan_deadlines c = Some b \<longrightarrow> now < b)"
proof -
  from timeout_cases [OF run] obtain r c1 where
    e: "expire_one now (c_pending c) = (False, c_pending c)" "fst (run_state (expire_one_resolve E now) c) = False"
      "fst (run_state (promote_due_reconcile now) c) = False" and
    s: "run_state (slot_timers E (map word_of_nat [0..<MAX_SESSIONS E]) now) c = (r, c1)" "r \<noteq> Some True" and
    q: "r = None \<longrightarrow> (\<exists>q. run_state (peer_timers E (map word_of_nat [0..<MAX_PEERS E]) now) c1 = (q, c') \<and> q \<noteq> Some True)" by blast
  have len: "length (c_slots c) = MAX_SESSIONS E" "length (c_peers c) = MAX_PEERS E" using t by (simp_all add: tables_ok_def)
  have "\<forall>s\<in>set (map word_of_nat [0..<MAX_SESSIONS E]). slot_at c s \<noteq> None" using slot_at_upt [OF len(1) sizes(2)] by blast
  note slots = slot_timers_idle [OF s this]
  with q obtain q' where "run_state (peer_timers E (map word_of_nat [0..<MAX_PEERS E]) now) c = (q', c')" "q' \<noteq> Some True" by auto
  note peers = peer_timers_idle [OF this]
  have "now < d" if d: "Some d \<in> set (slot_deadlines c sl)" "sl \<in> set (c_slots c)" for d sl
  proof -
    from d(2) obtain k where k: "k < MAX_SESSIONS E" "slot_at c (word_of_nat k) = Some sl"
      using len(1) sizes(2) by (auto simp: in_set_conv_nth slot_at_def slot_in_nth unat_of_nat take_bit_nat_eq_self)
    with slots have "\<not> session_dead now sl" "\<forall>h d. sl = Initiating h \<and> Some d \<in> set (slot_deadlines c sl) \<longrightarrow> now < d" by auto
    with d(1) now show ?thesis by (cases sl) (auto simp: slot_deadlines_def session_alive)
  qed
  moreover have "now < d" if d: "Some d \<in> set (peer_deadlines p)" "Some p \<in> set (c_peers c)" for d p
  proof -
    from d(2) obtain k where "k < MAX_PEERS E" "peer_at c (word_of_nat k) = Some p"
      using len(2) sizes(1) by (auto simp: in_set_conv_nth peer_at_def peer_in_nth unat_of_nat take_bit_nat_eq_self)
    with peers d(1) show ?thesis by auto
  qed
  moreover have "now < d" if "next_deadline (c_pending c) = Some d" for d
    using in_parked [OF that] expire_one_idle [OF e(1)] by auto
  moreover have "\<forall>r\<in>set (c_resolves c). now < ir_deadline r" using e(2) expire_resolve_idle by (metis prod.collapse)
  moreover have "\<forall>r\<in>set (c_reconciles c). now < pr_due r" using e(3) promote_idle by (metis prod.collapse)
  ultimately have "now < b" if "scan_deadlines c = Some b" for b
    using fold_min_in [OF that [unfolded scan_deadlines_def Let_def]] by (auto simp: in_map_filter)
  with peers show ?thesis by blast
qed

section \<open>Reachable states\<close>

lemma reach_sizes: "engine_reach E c \<Longrightarrow> MAX_PEERS E < 2 ^ 32 \<and> MAX_SESSIONS E < 2 ^ 32"
  by (induction rule: engine_reach.induct)
    (auto simp: core_new_def validate_pool_parameters_def rbind_def split: if_splits sum.splits)

lemma finite_deadlines: "finite (deadlines c)"
proof -
  have "finite {p. Some p \<in> set xs}" for xs :: "peer_entry option list"
    by (rule finite_surj [of "set xs" _ the]) force+
  moreover have "finite (peer_due p)" for p
  proof -
    have "peer_due p \<subseteq> the ` set (attempt_deadline (pe_sessions p) # peer_deadlines p)"
      unfolding peer_due_def by (metis (mono_tags, lifting) image_eqI mem_Collect_eq option.sel subsetI)
    then show ?thesis using finite_subset by blast
  qed
  moreover have "finite (slot_due sl)" for sl by (cases sl) auto
  ultimately show ?thesis by (auto simp: deadlines_def)
qed

text \<open>Flushing the output touches neither the timers nor the deadlines.\<close>

definition settled :: "('r, 'p) core \<Rightarrow> ('r, 'p) core \<Rightarrow> bool" where
  "settled c c' \<longleftrightarrow> c_timers c' = c_timers c \<and> deadlines c' = deadlines c"

interpretation settled: step_relation settled
  by unfold_locales (auto simp: settled_def)

lemma deadlines_timers: "deadlines (c\<lparr>c_timers := t\<rparr>) = deadlines c"
  by (simp add: deadlines_def)

lemma settled_offer: "state_io_rel settled (offer_resolves n E)"
proof (induction n)
  case (Suc n)
  show ?case unfolding offer_resolves.simps
  proof (rule io_peek_bind, rule steps_option, goal_cases)
    case (2 c pos)
    let ?r = "c_resolves c ! pos"
    have pos: "pos < length (c_resolves c)" using 2 by (auto dest: position_SomeD)
    have "map ir_deadline ((c_resolves c)[pos := ?r\<lparr>ir_emitted := True\<rparr>]) = map ir_deadline (c_resolves c)"
      using pos by (simp add: map_update list_update_same_conv)
    then have "ir_deadline ` set ((c_resolves c)[pos := ?r\<lparr>ir_emitted := True\<rparr>]) = ir_deadline ` set (c_resolves c)"
      by (metis list.set_map)
    then have s: "settled c (c_resolves_update (\<lambda>rs. rs[pos := ?r\<lparr>ir_emitted := True\<rparr>]) (c\<lparr>c_sink := snk\<rparr>))"
      "settled c (c\<lparr>c_sink := snk\<rparr>)" for snk
      by (simp_all add: settled_def deadlines_def)
    show ?case using Suc s by (auto simp: steps_def state_io_rel_def Let_def emit_def intro: settled.trans)
  qed (rule settled.steps_return)
qed (simp add: settled.io_return)

lemma settled_flush: "state_io_rel settled (flush_sink_output E)"
  unfolding flush_sink_output_def
  by (intro settled.io_rules settled_offer settled.io_modify) (simp add: settled_def deadlines_def)

lemma io_install_pinned: "state_io_rel (progress {}) (install_pinned E ps now)"
proof (induction ps)
  case (Cons p ps)
  show ?case
  proof (cases p)
    case (Pair i q)
    show ?thesis unfolding Pair install_pinned.simps
      by (intro progress.io_bind [OF progress.io_peek] progress.io_and_then progress.io_return io_install_peer only_persistent_new io_routes Cons.IH)
  qed
qed (simp add: progress.io_return)

lemma core_new_idle:
  assumes "core_new E config rng policy now = Inr c"
  shows "\<forall>d\<in>deadlines c. covered c d"
proof -
  obtain secret rng' where s: "cookie_secret_new (e_crypto E) rng now = (secret, rng')" by fastforce
  let ?c = "core_empty E (ec_core_config config) (ec_private_key config) rng' policy secret now"
  have empty: "deadlines ?c = {}"
    by (auto simp: deadlines_def core_empty_def Let_def pool_new_def set_parked)
  obtain r c1 where run: "run_state (install_pinned E (enumerate 0 (ec_pinned config)) now) ?c = (r, c1)" by fastforce
  from assms s run have "c1 = c"
    by (auto simp: core_new_def rbind_def Let_def split: if_splits sum.splits)
  with run have "progress {} ?c c" using io_install_pinned by (metis snd_conv state_io_rel_def)
  with empty show ?thesis by (auto simp: progress_def timely_def)
qed

lemma timely_covers: "timely {} c c' \<Longrightarrow> \<forall>d\<in>deadlines c. covered c d \<Longrightarrow> \<forall>d\<in>deadlines c'. covered c' d"
  unfolding timely_def by blast

lemma io_covers:
  "state_io_rel (timely {}) m \<Longrightarrow> run_state m c = (r, c') \<Longrightarrow> \<forall>d\<in>deadlines c. covered c d \<Longrightarrow> \<forall>d\<in>deadlines c'. covered c' d"
  by (rule timely_covers) (auto dest: state_io_relD)

lemma handle_timeout_cases:
  assumes "run_state (handle_timeout E now) c = (fired, c')"
  obtains c1 c2 where "run_state (timeout E now) c = (fired, c1)" "settled c2 c'"
    "c2 = (if fired then c1\<lparr>c_timers := timer_arm (c_timers c1) now\<rparr>
           else c1\<lparr>c_timers := timer_set_exact (c_timers c1) (scan_deadlines c1)\<rparr>)"
proof -
  obtain f c1 where t: "run_state (timeout E now) c = (f, c1)" by fastforce
  let ?c2 = "if f then c1\<lparr>c_timers := timer_arm (c_timers c1) now\<rparr>
    else c1\<lparr>c_timers := timer_set_exact (c_timers c1) (scan_deadlines c1)\<rparr>"
  obtain c3 where f: "run_state (flush_sink_output E) ?c2 = ((), c3)" by (metis old.unit.exhaust surj_pair)
  then have "settled ?c2 c3" using settled_flush [of E] by (metis snd_conv state_io_rel_def)
  moreover have "f = fired" "c3 = c'" using assms t f by (auto simp: handle_timeout_def arm_timer_def split: if_splits)
  ultimately show thesis using that t by blast
qed

lemma settled_covers: "settled c c' \<Longrightarrow> \<forall>d\<in>deadlines c. covered c d \<Longrightarrow> \<forall>d\<in>deadlines c'. covered c' d"
  by (auto simp: settled_def covered_def poll_at_def)

lemma keeps_tables_actions: "keeps (tables_ok E {}) (timeout E now)"
  unfolding timeout_def by (intro keep_rules table_rules keeps_tables_zoom) simp_all

lemma handle_timeout_covers:
  assumes r: "engine_reach E c" and run: "run_state (handle_timeout E now) c = (fired, c')" and cov: "\<forall>d\<in>deadlines c. covered c d"
  shows "\<forall>d\<in>deadlines c'. covered c' d"
proof -
  from run obtain c1 c2 where t: "run_state (timeout E now) c = (fired, c1)" and s: "settled c2 c'" and
    c2: "c2 = (if fired then c1\<lparr>c_timers := timer_arm (c_timers c1) now\<rparr>
      else c1\<lparr>c_timers := timer_set_exact (c_timers c1) (scan_deadlines c1)\<rparr>)"
    by (rule handle_timeout_cases)
  have "\<forall>d\<in>deadlines c1. covered c1 d" using io_covers [OF io_timely [OF io_timeout] t] cov by blast
  moreover have "tables_ok E {} c1" using keepsD [OF keeps_tables_actions reach_tables [OF r] t] .
  then have "\<exists>b. scan_deadlines c1 = Some b \<and> b \<le> d" if "d \<in> deadlines c1" for d
    using reach_sizes [OF r] that by (intro scan_complete) auto
  moreover have "deadlines c2 = deadlines c1" by (simp add: c2 deadlines_def)
  ultimately have "\<forall>d\<in>deadlines c2. covered c2 d"
    by (auto simp: c2 covered_arm) (auto simp: covered_def poll_at_def timer_get_def timer_set_exact_def)
  then show ?thesis by (rule settled_covers [OF s])
qed

lemma reach_covers: "engine_reach E c \<Longrightarrow> \<forall>d\<in>deadlines c. covered c d"
proof (induction rule: engine_reach.induct)
  case (New config rng policy now c)
  then show ?case by (rule core_new_idle)
next
  case (SendInner c now packet r c')
  show ?case by (rule io_covers [OF io_timely [OF io_send_inner] SendInner.hyps(2) SendInner.IH])
next
  case (ReceiveOuter c now source data r c')
  show ?case by (rule io_covers [OF timely_receive ReceiveOuter.hyps(2) ReceiveOuter.IH])
next
  case (HandleTimeout c now b c')
  show ?case by (rule handle_timeout_covers [OF HandleTimeout.hyps HandleTimeout.IH])
next
  case (ResolverEvent c now event r c')
  show ?case by (rule io_covers [OF io_timely [OF io_completed] ResolverEvent.hyps(2) ResolverEvent.IH])
next
  case (SetUnixTime c secs nanos now u c')
  then have "settled c c'" by (auto simp: set_unix_time_def settled_def deadlines_def)
  then show ?case by (rule settled_covers [OF _ SetUnixTime.IH])
qed

lemma small_core_fields:
  "c_resolves small_core = []" "c_next_resolve_id small_core = 1" "c_config small_core = config_default" "c_reconciles small_core = []"
  "c_pending small_core = pool_new MAX_PENDING_PACKETS" "c_slots small_core = replicate 8 Free" "c_peers small_core = replicate 4 None"
  by (simp_all add: small_core_def small_env_def core_empty_def Let_def split_beta)

lemma resolve_due: "r \<in> set (c_resolves c) \<Longrightarrow> ir_deadline r \<in> deadlines c"
  by (simp add: deadlines_def)

lemma small_send:
  "\<lparr>ir_id = 1, ir_query = ByDstAddress (IpV4 0x0a000002), ir_kind = KindOutbound,
     ir_deadline = instant_add 2000 DEFAULT_RESOLVE_OUTBOUND_TIMEOUT, ir_emitted = False\<rparr>
   \<in> set (c_resolves (snd (run_state (outbound small_env 2000 demo_packet) small_core)))"
proof -
  have route: "route_lookup (c_routes small_core) a now = Some (None, c_routes small_core)" for a now
    by (cases a) (simp_all add: route_lookup_def best_match_def trie_lookup_def lookup_loop.simps small_core_def small_env_def core_empty_def
        Let_def split_beta routes_new_def trie_new_def pool_empty_def pool_get_def V4_ROOT_def V6_ROOT_def child_at_def get_at_def node_new_def)
  have cfg: "max_inflight_resolves config_default > 0" "resolve_outbound_timeout config_default = DEFAULT_RESOLVE_OUTBOUND_TIMEOUT"
    "MAX_INFLIGHT_RESOLVES > 0" "\<not> MAX_INNER_SIZE < 21"
    by (simp_all add: config_default_def DEFAULT_INFLIGHT_RESOLVES_def MAX_INFLIGHT_RESOLVES_def relay_limits)
  define f where "f = \<lparr>ir_id = 1, ir_query = ByDstAddress (IpV4 0x0a000002), ir_kind = KindOutbound,
     ir_deadline = instant_add 2000 DEFAULT_RESOLVE_OUTBOUND_TIMEOUT, ir_emitted = False\<rparr>"
  have push: "run_state (push_resolve f) (small_core\<lparr>c_next_resolve_id := 2\<rparr>) =
      (Inr (), small_core\<lparr>c_next_resolve_id := 2, c_resolves := [f], c_timers := timer_arm (c_timers small_core) (ir_deadline f)\<rparr>)"
    using cfg by (simp add: push_resolve_def try_push_resolve_def small_core_fields arm_timer_def)
  have "f \<in> set (c_resolves (snd (run_state (outbound small_env 2000 demo_packet) small_core)))"
    using cfg push by (simp add: outbound_def demo_header demo_limits on_routes_def route queue_outbound_resolution_def small_core_fields(1-3)
        alloc_resolve_id_def Let_def arm_timer_def run_simps split_beta flip: f_def)
  then show ?thesis by (simp add: f_def)
qed

text \<open>
  C4: \<open>poll_at\<close> is never late. In every reachable state, each deadline the engine has to act on (a
  keepalive, a reply timeout, the end of a handshake attempt or its next retransmission, the end of a session, of a
  parked packet, of a lookup in flight or the due time of a reconciliation) is at or after the time \<open>poll_at\<close>
  reports, so a driver that sleeps until then misses none.
\<close>

theorem poll_at_never_late:
  assumes "engine_reach E c" "d \<in> deadlines c"
  shows "\<exists>b. poll_at c = Some b \<and> b \<le> d"
  using reach_covers [OF assms(1)] assms(2) by (auto simp: covered_def)

theorem poll_at_never_late_witness:
  "\<exists>b. poll_at (snd (run_state (send_inner small_env 2000 demo_packet) small_core)) = Some b \<and> b \<le> instant_add 2000 DEFAULT_RESOLVE_OUTBOUND_TIMEOUT"
proof (rule poll_at_never_late)
  obtain r c1 where o: "run_state (outbound small_env 2000 demo_packet) small_core = (r, c1)" by fastforce
  obtain c2 where f: "run_state (flush_sink_output small_env) c1 = ((), c2)" by (metis old.unit.exhaust surj_pair)
  have "instant_add 2000 DEFAULT_RESOLVE_OUTBOUND_TIMEOUT \<in> deadlines c1"
    using resolve_due [OF small_send] o by simp
  moreover have "settled c1 c2" using settled_flush [of small_env] f by (metis snd_conv state_io_rel_def)
  ultimately show "instant_add 2000 DEFAULT_RESOLVE_OUTBOUND_TIMEOUT \<in> deadlines (snd (run_state (send_inner small_env 2000 demo_packet) small_core))"
    using o f by (simp add: send_inner_def settled_def)
  show "engine_reach small_env (snd (run_state (send_inner small_env 2000 demo_packet) small_core))"
    by (rule engine_reach.SendInner [OF small_core_reach]) (rule prod.collapse [symmetric])
qed

text \<open>
  C5: a timer call that reports nothing to do really leaves nothing to do. When \<open>handle_timeout\<close>
  returns false, every deadline of the engine is in the future and \<open>poll_at\<close> is exactly the
  earliest one, or none if there is none; so the driver's loop that repeats the call until it returns
  false ends with an engine that is not due again at the same time. (The last representable
  instant is excluded: deadlines saturate there.)
\<close>

theorem idle_timeout_leaves_nothing_due:
  assumes "engine_reach E c" "now < - 1" "run_state (handle_timeout E now) c = (False, c')"
  shows "(\<forall>d\<in>deadlines c'. now < d) \<and> poll_at c' = (if deadlines c' = {} then None else Some (Min (deadlines c')))"
proof -
  from assms(3) obtain c1 c2 where t: "run_state (timeout E now) c = (False, c1)" and s: "settled c2 c'" and
    c2: "c2 = c1\<lparr>c_timers := timer_set_exact (c_timers c1) (scan_deadlines c1)\<rparr>"
    by (rule handle_timeout_cases) simp
  note tables = reach_tables [OF assms(1)] and sizes = reach_sizes [OF assms(1)]
  from timeout_idle [OF tables assms(2) _ _ t] sizes have idle: "c1 = c" "\<forall>b. scan_deadlines c = Some b \<longrightarrow> now < b" by auto
  have d: "deadlines c' = deadlines c" "poll_at c' = scan_deadlines c"
    using s c2 idle(1) by (auto simp: settled_def deadlines_def poll_at_def timer_get_def timer_set_exact_def)
  have all: "\<exists>b. scan_deadlines c = Some b \<and> b \<le> d" if "d \<in> deadlines c" for d
    using scan_complete [OF tables _ that] sizes by blast
  then have "\<forall>d\<in>deadlines c. now < d" using idle(2) by (meson less_le_trans)
  moreover have "scan_deadlines c = (if deadlines c = {} then None else Some (Min (deadlines c)))"
  proof (cases "scan_deadlines c")
    case None
    with all show ?thesis by auto
  next
    case (Some b)
    with all scan_sound [OF Some] finite_deadlines show ?thesis by (auto intro!: Min_eqI [symmetric])
  qed
  ultimately show ?thesis by (simp add: d)
qed

theorem idle_timeout_leaves_nothing_due_witness:
  "poll_at (snd (run_state (handle_timeout small_env 2000) small_core)) = None"
proof -
  have e: "expire_one now (replicate n None) = (False, replicate n None)" for now n by (induction n) (simp_all add: slot_matches_def)
  have s: "run_state (slot_timers small_env ss 2000) small_core = (None, small_core)" if "set ss \<subseteq> set (map word_of_nat [0..<8])" for ss
    using that by (induction ss) (auto simp: small_core_fields slot_at_def slot_in_def get_at_def session_dead_def unat_of_nat take_bit_nat_eq_self)
  have p: "run_state (peer_timers small_env ps 2000) small_core = (None, small_core)" for ps
    by (induction ps) (auto simp: small_core_fields peer_at_def peer_in_def get_at_def)
  have "MAX_SESSIONS small_env = 8" by (simp add: small_env_def)
  moreover have "expire_one 2000 (c_pending small_core) = (False, c_pending small_core)" by (simp add: small_core_fields pool_new_def e)
  ultimately have "run_state (timeout small_env 2000) small_core = (False, small_core)"
    using s [of "map word_of_nat [0..<8]"] p
    by (simp add: timeout_def run_simps small_core_fields(1,4) expire_one_resolve_def promote_due_reconcile_def)
  moreover obtain f c' where run: "run_state (handle_timeout small_env 2000) small_core = (f, c')" by fastforce
  ultimately have "\<not> f" "deadlines c' = deadlines small_core"
    by (auto elim!: handle_timeout_cases simp: settled_def deadlines_timers)
  moreover have "deadlines small_core = {}"
    by (simp add: deadlines_def small_core_fields pool_new_def set_parked)
  ultimately show ?thesis
    using idle_timeout_leaves_nothing_due [OF small_core_reach, of 2000 c'] run by simp
qed

end
