(* ===== verification/Ws_Frame.thy ===== *)
theory Ws_Frame
  imports Prelude
begin

text \<open>
  WebSocket frames (\<open>microtun-ws/src/mask.rs\<close>, \<open>frame.rs\<close>, \<open>error.rs\<close>): masking, the
  frame header and the errors. The kinds of transport error belong to the transport and are a type
  parameter; \<open>usize_max\<close> is \<open>usize::MAX\<close> of the target.
\<close>

section \<open>Errors and roles\<close>

datatype 'k ws_error =
    WsIo 'k
  | WsEof
  | WsClosed "u16 option"
  | WsAlreadyClosed
  | WsProtocol
  | WsUnsupportedData
  | WsTooLarge
  | WsHandshake

definition CLOSE_NORMAL :: u16 where "CLOSE_NORMAL = 1000"
definition CLOSE_PROTOCOL_ERROR :: u16 where "CLOSE_PROTOCOL_ERROR = 1002"
definition CLOSE_UNSUPPORTED_DATA :: u16 where "CLOSE_UNSUPPORTED_DATA = 1003"
definition CLOSE_MESSAGE_TOO_BIG :: u16 where "CLOSE_MESSAGE_TOO_BIG = 1009"
definition CLOSE_INTERNAL_ERROR :: u16 where "CLOSE_INTERNAL_ERROR = 1011"

fun close_code :: "'k ws_error \<Rightarrow> u16" where
  "close_code WsUnsupportedData = CLOSE_UNSUPPORTED_DATA"
| "close_code WsTooLarge = CLOSE_MESSAGE_TOO_BIG"
| "close_code WsProtocol = CLOSE_PROTOCOL_ERROR"
| "close_code WsHandshake = CLOSE_PROTOCOL_ERROR"
| "close_code _ = CLOSE_INTERNAL_ERROR"

datatype ws_role = WsClient | WsServer

definition masks_output :: "ws_role \<Rightarrow> bool" where
  "masks_output r \<longleftrightarrow> r = WsClient"

definition requires_masked_input :: "ws_role \<Rightarrow> bool" where
  "requires_masked_input r \<longleftrightarrow> r = WsServer"

section \<open>Masking\<close>

text \<open>The result is the masked data and the offset to resume from.\<close>

definition mask_apply :: "bytes \<Rightarrow> usize \<Rightarrow> bytes \<Rightarrow> bytes \<times> usize" where
  "mask_apply key offset data =
     (let offset = offset AND 3
      in (map (\<lambda>(index, byte). byte XOR key ! ((offset + index) AND 3)) (enumerate 0 data),
          (offset + length data) AND 3))"

section \<open>Headers\<close>

definition MAX_CONTROL_PAYLOAD_LEN :: usize where "MAX_CONTROL_PAYLOAD_LEN = 125"
definition MAX_HEADER_LEN :: usize where "MAX_HEADER_LEN = 14"

definition OP_CONTINUATION :: u8 where "OP_CONTINUATION = 0x0"
definition OP_TEXT :: u8 where "OP_TEXT = 0x1"
definition OP_BINARY :: u8 where "OP_BINARY = 0x2"
definition OP_CLOSE :: u8 where "OP_CLOSE = 0x8"
definition OP_PING :: u8 where "OP_PING = 0x9"
definition OP_PONG :: u8 where "OP_PONG = 0xA"

definition is_control :: "u8 \<Rightarrow> bool" where
  "is_control opcode \<longleftrightarrow> opcode AND 0x8 \<noteq> 0"

record ws_prefix =
  px_fin :: bool
  px_opcode :: u8
  px_masked :: bool
  px_len7 :: u8

definition decode_prefix :: "u8 \<Rightarrow> u8 \<Rightarrow> 'k ws_error + ws_prefix" where
  "decode_prefix b0 b1 =
     (if b0 AND 0x70 \<noteq> 0 then Inl WsProtocol
      else
        let opcode = b0 AND 0x0F;
            known = (opcode \<in> {OP_CONTINUATION, OP_TEXT, OP_BINARY, OP_CLOSE, OP_PING, OP_PONG})
        in if \<not> known then Inl WsProtocol
           else Inr \<lparr>px_fin = (b0 AND 0x80 \<noteq> 0), px_opcode = opcode, px_masked = (b1 AND 0x80 \<noteq> 0), px_len7 = b1 AND 0x7F\<rparr>)"

definition extended_len_bytes :: "u8 \<Rightarrow> usize" where
  "extended_len_bytes len7 = (if len7 = 126 then 2 else if len7 = 127 then 8 else 0)"

definition decode_len :: "usize \<Rightarrow> u8 \<Rightarrow> bytes \<Rightarrow> 'k ws_error + usize" where
  "decode_len usize_max len7 extended =
     (let checked = (\<lambda>len :: u64. if unat len \<le> usize_max then Inr (unat len) else Inl WsTooLarge)
      in if len7 = 126
         then (if length extended \<noteq> 2 then Inl WsProtocol else checked (ucast (from_be_bytes extended :: u16)))
         else if len7 = 127
         then (if length extended \<noteq> 8 then Inl WsProtocol
               else let len = from_be_bytes extended
                    in if len AND 0x8000000000000000 \<noteq> 0 then Inl WsProtocol else checked len)
         else checked (ucast len7))"

definition encode_header :: "bytes \<Rightarrow> bool \<Rightarrow> u8 \<Rightarrow> usize \<Rightarrow> bytes option \<Rightarrow> bytes \<times> usize" where
  "encode_header out fin opcode len mkey =
     (let out = out[0 := if fin then 0x80 OR opcode else opcode];
          mask_bit = (if mkey \<noteq> None then 0x80 else 0x00);
          (out, cursor) =
            (if len < 126 then (out[1 := mask_bit OR word_of_nat len], 2)
             else if len \<le> 65535
             then (put_slice (out[1 := mask_bit OR 126]) 2 (to_be_bytes (word_of_nat len :: u16)), 4)
             else (put_slice (out[1 := mask_bit OR 127]) 2 (to_be_bytes (word_of_nat len :: u64)), 10))
      in case mkey of
           Some key \<Rightarrow> (put_slice out cursor key, cursor + 4)
         | None \<Rightarrow> (out, cursor))"

section \<open>Properties of masking\<close>

lemma and_3: "n AND 3 = n mod (4 :: nat)"
  using take_bit_eq_mask [of 2 n] by (simp add: take_bit_eq_mod mask_eq_exp_minus_1)

lemma mask_apply_simps:
  "snd (mask_apply key off data) = (off + length data) mod 4"
  "fst (mask_apply key off data) = map (\<lambda>i. data ! i XOR key ! ((off + i) mod 4)) [0..<length data]"
proof -
  show "snd (mask_apply key off data) = (off + length data) mod 4"
    by (simp add: mask_apply_def Let_def and_3 mod_add_left_eq)
  show "fst (mask_apply key off data) = map (\<lambda>i. data ! i XOR key ! ((off + i) mod 4)) [0..<length data]"
    by (rule nth_equalityI) (simp_all add: mask_apply_def Let_def and_3 mod_add_left_eq nth_enumerate_eq)
qed

lemma length_mask_apply [simp]: "length (fst (mask_apply key off data)) = length data"
  by (simp add: mask_apply_simps)

lemma nth_mask_apply: "i < length data \<Longrightarrow> fst (mask_apply key off data) ! i = data ! i XOR key ! ((off + i) mod 4)"
  by (simp add: mask_apply_simps)

text \<open>Masking in pieces is masking as a whole, and masking twice is the identity.\<close>

lemma mask_apply_append:
  "fst (mask_apply key off (a @ b)) = fst (mask_apply key off a) @ fst (mask_apply key (snd (mask_apply key off a)) b)"
  "snd (mask_apply key off (a @ b)) = snd (mask_apply key (snd (mask_apply key off a)) b)"
proof -
  have idx: "((off + length a) mod 4 + i - length a) mod 4 = (off + i) mod 4" if "\<not> i < length a" for i
    using that mod_add_left_eq [of "off + length a" 4 "i - length a"] by simp
  show "fst (mask_apply key off (a @ b)) = fst (mask_apply key off a) @ fst (mask_apply key (snd (mask_apply key off a)) b)"
    by (rule nth_equalityI) (auto simp: nth_mask_apply nth_append mask_apply_simps(1) idx)
  show "snd (mask_apply key off (a @ b)) = snd (mask_apply key (snd (mask_apply key off a)) b)"
    by (simp add: mask_apply_simps(1) mod_add_left_eq add.assoc)
qed

lemma mask_apply_twice: "fst (mask_apply key off (fst (mask_apply key off data))) = data"
  by (rule nth_equalityI) (simp_all add: nth_mask_apply xor.assoc)

section \<open>Properties of headers\<close>

text \<open>The header of a frame as it goes over the wire.\<close>

definition header_bytes :: "bool \<Rightarrow> u8 \<Rightarrow> usize \<Rightarrow> bytes option \<Rightarrow> bytes" where
  "header_bytes fin opcode len mkey =
     (let (out, n) = encode_header (replicate MAX_HEADER_LEN 0) fin opcode len mkey in take n out)"

definition known_opcode :: "u8 \<Rightarrow> bool" where
  "known_opcode opcode \<longleftrightarrow> opcode \<in> {OP_CONTINUATION, OP_TEXT, OP_BINARY, OP_CLOSE, OP_PING, OP_PONG}"

fun length_field :: "usize \<Rightarrow> u8 \<times> bytes" where
  "length_field len =
     (if len < 126 then (word_of_nat len, [])
      else if len \<le> 65535 then (126, to_be_bytes (word_of_nat len :: u16))
      else (127, to_be_bytes (word_of_nat len :: u64)))"

lemma header_bytes_eq:
  assumes "\<forall>key. mkey = Some key \<longrightarrow> length key = 4"
  shows "header_bytes fin opcode len mkey =
    [if fin then 0x80 OR opcode else opcode, (if mkey \<noteq> None then 0x80 else 0) OR fst (length_field len)]
      @ snd (length_field len) @ (case mkey of None \<Rightarrow> [] | Some key \<Rightarrow> key)"
proof -
  have "replicate 14 (0 :: u8) = [0, 0, 0, 0, 0, 0, 0, 0, 0, 0, 0, 0, 0, 0]" by (simp add: numeral_eq_Suc)
  then show ?thesis using assms
    by (cases mkey) (auto simp: header_bytes_def encode_header_def Let_def MAX_HEADER_LEN_def put_slice_def)
qed

lemma prefix_first:
  assumes "known_opcode opcode"
  shows "(if fin then 0x80 OR opcode else opcode) AND 0x70 = 0" "(if fin then 0x80 OR opcode else opcode) AND 0x0F = opcode"
    "(if fin then 0x80 OR opcode else opcode) AND 0x80 \<noteq> 0 \<longleftrightarrow> fin"
  using assms
  by (auto simp: known_opcode_def OP_CONTINUATION_def OP_TEXT_def OP_BINARY_def OP_CLOSE_def OP_PING_def OP_PONG_def)

lemma small_len7:
  fixes w :: u8
  assumes "unat w < 128"
  shows "((if b then 0x80 else 0) OR w) AND 0x80 \<noteq> 0 \<longleftrightarrow> b" "((if b then 0x80 else 0) OR w) AND 0x7F = w"
proof -
  have low: "w AND 0x7F = w"
  proof -
    have "w AND 0x7F = take_bit 7 w" by (simp add: take_bit_eq_mask mask_eq_exp_minus_1)
    also have "\<dots> = w" using assms by (simp add: word_unat_eq_iff unsigned_take_bit_eq take_bit_nat_eq_self)
    finally show ?thesis .
  qed
  have high: "w AND 0x80 = 0"
  proof -
    have "w AND 0x80 = (w AND 0x7F) AND 0x80" by (simp only: low)
    also have "\<dots> = 0" by (simp add: and.assoc)
    finally show ?thesis .
  qed
  show "((if b then 0x80 else 0) OR w) AND 0x80 \<noteq> 0 \<longleftrightarrow> b" using high by (simp add: bit.conj_disj_distrib2)
  show "((if b then 0x80 else 0) OR w) AND 0x7F = w" using low by (simp add: bit.conj_disj_distrib2)
qed

lemma length_field_small: "unat (fst (length_field len)) < 128"
  by (simp add: unat_of_nat take_bit_eq_mod)

lemma length_field_ext: "length (snd (length_field len)) = extended_len_bytes (fst (length_field len))"
proof (cases "len < 126")
  case True
  then have "(word_of_nat len :: u8) \<noteq> 126" "(word_of_nat len :: u8) \<noteq> 127"
    by (simp_all add: word_unat_eq_iff unat_of_nat take_bit_eq_mod)
  with True show ?thesis by (simp add: extended_len_bytes_def)
qed (simp add: extended_len_bytes_def)

lemma length_field_decode:
  assumes "len < 2 ^ 63" "len \<le> usize_max"
  shows "decode_len usize_max (fst (length_field len)) (snd (length_field len)) = Inr len"
proof -
  consider "len < 126" | "126 \<le> len" "len \<le> 65535" | "65535 < len" by linarith
  then show ?thesis
  proof cases
    case 1
    then have "(word_of_nat len :: u8) \<noteq> 126" "(word_of_nat len :: u8) \<noteq> 127" "unat (ucast (word_of_nat len :: u8) :: u64) = len"
      by (simp_all add: word_unat_eq_iff unat_of_nat take_bit_eq_mod unat_ucast_widen)
    with 1 assms show ?thesis by (simp add: decode_len_def Let_def)
  next
    case 2
    then have "unat (ucast (word_of_nat len :: u16) :: u64) = len" by (simp add: unat_of_nat take_bit_eq_mod unat_ucast_widen)
    with 2 assms show ?thesis by (simp add: decode_len_def Let_def from_to_be_bytes)
  next
    case 3
    have u: "unat (word_of_nat len :: u64) = len" using assms by (simp add: unat_of_nat take_bit_eq_mod)
    have "(word_of_nat len :: u64) AND 0x8000000000000000 = 0"
    proof -
      have "take_bit 63 (word_of_nat len :: u64) = word_of_nat len"
        using assms by (simp add: word_unat_eq_iff unsigned_take_bit_eq take_bit_nat_eq_self unat_of_nat)
      then have "(word_of_nat len :: u64) AND 0x8000000000000000 = (word_of_nat len AND 0x7FFFFFFFFFFFFFFF) AND 0x8000000000000000"
        by (simp add: take_bit_eq_mask mask_eq_exp_minus_1)
      then show ?thesis by (simp add: and.assoc)
    qed
    with 3 assms u show ?thesis by (simp add: decode_len_def Let_def from_to_be_bytes)
  qed
qed

text \<open>The receiver reads back from a header what the sender put into it.\<close>

lemma header_decodes:
  fixes fin :: bool
  assumes "known_opcode opcode" "len < 2 ^ 63" "len \<le> usize_max" "\<forall>key. mkey = Some key \<longrightarrow> length key = 4"
  defines "h \<equiv> header_bytes fin opcode len mkey"
  defines "px \<equiv> \<lparr>px_fin = fin, px_opcode = opcode, px_masked = (mkey \<noteq> None), px_len7 = fst (length_field len)\<rparr>"
  shows "decode_prefix (h ! 0) (h ! 1) = Inr px"
    and "length h = 2 + extended_len_bytes (px_len7 px) + (if px_masked px then 4 else 0)"
    and "decode_len usize_max (px_len7 px) (slice h 2 (2 + extended_len_bytes (px_len7 px))) = Inr len"
    and "mkey = Some key \<Longrightarrow> slice h (length h - 4) (length h) = key"
proof -
  note h = header_bytes_eq [OF assms(4), of fin opcode len, folded h_def]
  note l = length_field_ext [of len]
  show "decode_prefix (h ! 0) (h ! 1) = Inr px"
    unfolding h decode_prefix_def Let_def px_def
    using prefix_first [OF assms(1), of fin] small_len7 [OF length_field_small, of "mkey \<noteq> None" len] assms(1)
    by (simp add: known_opcode_def del: length_field.simps cong: if_cong)
  show len: "length h = 2 + extended_len_bytes (px_len7 px) + (if px_masked px then 4 else 0)"
    unfolding h px_def using l assms(4) by (cases mkey) (simp_all del: length_field.simps)
  show "decode_len usize_max (px_len7 px) (slice h 2 (2 + extended_len_bytes (px_len7 px))) = Inr len"
    using length_field_decode [OF assms(2,3)] l unfolding h px_def by (simp add: slice_def del: length_field.simps)
  show "slice h (length h - 4) (length h) = key" if "mkey = Some key"
    using assms(4) that unfolding h by (simp add: slice_def del: length_field.simps)
qed

end
