(* ===== verification/Ws_Connection.thy ===== *)
theory Ws_Connection
  imports Ws_Frame
begin

text \<open>
  The WebSocket connection (\<open>microtun-ws/src/connection.rs\<close>, \<open>io.rs\<close>): the sending half and the
  resumable receiver. The transport is given by what it does: the arrivals a reader will see, one per
  successful wait, and a writer that takes a number of bytes before it fails. A receive that
  waits for an arrival that has not come is \<open>Pending\<close>; dropping the future there and calling again
  later is a second call on the state it left. The stream cipher behind the masking keys is a
  parameter: \<open>fill n g\<close> draws \<open>n\<close> bytes.
\<close>

section \<open>The transport\<close>

datatype 'k arrival = Arrived bytes | ReadFailed 'k

text \<open>One \<open>read\<close> into a buffer of \<open>n\<close> bytes; \<open>Ok(0)\<close>, also for an empty buffer, is the end of the stream.\<close>

fun fill_read :: "usize \<Rightarrow> 'k arrival list \<Rightarrow> ('k ws_error + bytes) option \<times> 'k arrival list" where
  "fill_read n [] = (if n = 0 then Some (Inl WsEof) else None, [])"
| "fill_read n (ReadFailed k # rest) = (if n = 0 then (Some (Inl WsEof), ReadFailed k # rest) else (Some (Inl (WsIo k)), rest))"
| "fill_read n (Arrived bs # rest) =
     (if n = 0 then (Some (Inl WsEof), Arrived bs # rest)
      else if bs = [] then (Some (Inl WsEof), rest)
      else (Some (Inr (take n bs)), if length bs \<le> n then rest else Arrived (drop n bs) # rest))"

record 'k writer =
  w_out :: bytes
  w_room :: usize
  w_error :: 'k
  w_flush_error :: "'k option"

definition write_all :: "'k writer \<Rightarrow> bytes \<Rightarrow> ('k ws_error + unit) \<times> 'k writer" where
  "write_all w buf =
     (if length buf \<le> w_room w then (Inr (), w\<lparr>w_out := w_out w @ buf, w_room := w_room w - length buf\<rparr>)
      else (Inl (WsIo (w_error w)), w\<lparr>w_out := w_out w @ take (w_room w) buf, w_room := 0\<rparr>))"

definition flush_writer :: "'k writer \<Rightarrow> ('k ws_error + unit) \<times> 'k writer" where
  "flush_writer w = (case w_flush_error w of None \<Rightarrow> Inr () | Some k \<Rightarrow> Inl (WsIo k), w)"

section \<open>Masking keys\<close>

type_synonym 'g filler = "usize \<Rightarrow> 'g \<Rightarrow> bytes \<times> 'g"

definition masker_from_rng :: "'r filler \<Rightarrow> (bytes \<Rightarrow> 'g) \<Rightarrow> 'r \<Rightarrow> 'g \<times> 'r" where
  "masker_from_rng rng_fill from_seed rng = (let (seed, rng) = rng_fill 32 rng in (from_seed seed, rng))"

definition masker_key :: "'g filler \<Rightarrow> 'g \<Rightarrow> bytes \<times> 'g" where
  "masker_key fill g = fill 4 g"

definition masker_nonce :: "'g filler \<Rightarrow> 'g \<Rightarrow> bytes \<times> 'g" where
  "masker_nonce fill g = fill 16 g"

section \<open>The sending half\<close>

definition MASK_CHUNK_LEN :: usize where "MASK_CHUNK_LEN = 64"

record ('g, 'k) sender =
  sd_writer :: "'k writer"
  sd_role :: ws_role
  sd_mask :: "'g option"
  sd_closed :: bool

definition sender_server :: "'k writer \<Rightarrow> ('g, 'k) sender" where
  "sender_server w = \<lparr>sd_writer = w, sd_role = WsServer, sd_mask = None, sd_closed = False\<rparr>"

definition sender_client :: "'r filler \<Rightarrow> (bytes \<Rightarrow> 'g) \<Rightarrow> 'k writer \<Rightarrow> 'r \<Rightarrow> ('g, 'k) sender \<times> 'r" where
  "sender_client rng_fill from_seed w rng =
     (let (masker, rng) = masker_from_rng rng_fill from_seed rng
      in (\<lparr>sd_writer = w, sd_role = WsClient, sd_mask = Some masker, sd_closed = False\<rparr>, rng))"

text \<open>The loop over \<open>payload.chunks(MASK_CHUNK_LEN)\<close>, on the rest of the payload.\<close>

function write_masked :: "bytes \<Rightarrow> usize \<Rightarrow> bytes \<Rightarrow> 'k writer \<Rightarrow> ('k ws_error + unit) \<times> 'k writer" where
  "write_masked key offset payload w =
     (if payload = [] then (Inr (), w)
      else let (masked, offset) = mask_apply key offset (take MASK_CHUNK_LEN payload)
           in case write_all w masked of
                (Inl e, w) \<Rightarrow> (Inl e, w)
              | (Inr _, w) \<Rightarrow> write_masked key offset (drop MASK_CHUNK_LEN payload) w)"
  by pat_completeness auto
termination
  by (relation "measure (\<lambda>(key, offset, payload, w). length payload)") (auto simp: MASK_CHUNK_LEN_def)

definition send_frame :: "'g filler \<Rightarrow> u8 \<Rightarrow> bytes \<Rightarrow> ('g, 'k) sender \<Rightarrow> ('k ws_error + unit) \<times> ('g, 'k) sender" where
  "send_frame fill opcode payload s =
     (let (key, s) = (case sd_mask s of
                        None \<Rightarrow> (None, s)
                      | Some g \<Rightarrow> (let (key, g) = masker_key fill g in (Some key, s\<lparr>sd_mask := Some g\<rparr>)));
          (header, header_len) = encode_header (replicate MAX_HEADER_LEN 0) True opcode (length payload) key
      in case write_all (sd_writer s) (take header_len header) of
           (Inl e, w) \<Rightarrow> (Inl e, s\<lparr>sd_writer := w\<rparr>)
         | (Inr _, w) \<Rightarrow>
             (case (case key of None \<Rightarrow> write_all w payload | Some key \<Rightarrow> write_masked key 0 payload w) of
                (Inl e, w) \<Rightarrow> (Inl e, s\<lparr>sd_writer := w\<rparr>)
              | (Inr _, w) \<Rightarrow> (let (r, w) = flush_writer w in (r, s\<lparr>sd_writer := w\<rparr>))))"

definition send_text :: "'g filler \<Rightarrow> bytes \<Rightarrow> ('g, 'k) sender \<Rightarrow> ('k ws_error + unit) \<times> ('g, 'k) sender" where
  "send_text fill payload s = (if sd_closed s then (Inl WsAlreadyClosed, s) else send_frame fill OP_TEXT payload s)"

definition send_ping :: "'g filler \<Rightarrow> bytes \<Rightarrow> ('g, 'k) sender \<Rightarrow> ('k ws_error + unit) \<times> ('g, 'k) sender" where
  "send_ping fill payload s =
     (if length payload > MAX_CONTROL_PAYLOAD_LEN then (Inl WsTooLarge, s)
      else if sd_closed s then (Inl WsAlreadyClosed, s)
      else send_frame fill OP_PING payload s)"

definition send_close :: "'g filler \<Rightarrow> u16 \<Rightarrow> bytes \<Rightarrow> ('g, 'k) sender \<Rightarrow> ('k ws_error + unit) \<times> ('g, 'k) sender" where
  "send_close fill code reason s =
     (if sd_closed s then (Inr (), s)
      else
        let payload = put_slice (replicate MAX_CONTROL_PAYLOAD_LEN 0) 0 (to_be_bytes code);
            len = min (length reason) (MAX_CONTROL_PAYLOAD_LEN - 2);
            payload = put_slice payload 2 (take len reason);
            (result, s) = send_frame fill OP_CLOSE (take (2 + len) payload) s
        in (result, s\<lparr>sd_closed := True\<rparr>))"

definition send_pong :: "'g filler \<Rightarrow> bytes \<Rightarrow> ('g, 'k) sender \<Rightarrow> ('k ws_error + unit) \<times> ('g, 'k) sender" where
  "send_pong fill payload s = (if sd_closed s then (Inr (), s) else send_frame fill OP_PONG payload s)"

section \<open>The receiver\<close>

datatype phase =
    Header usize usize
  | Payload usize "bytes option" usize bool
  | Control u8 usize usize "bytes option"

definition phase_header :: phase where "phase_header = Header 0 2"

record ('g, 'k) connection =
  cn_reader :: "'k arrival list"
  cn_sender :: "('g, 'k) sender"
  cn_header :: bytes
  cn_control :: bytes
  cn_phase :: phase
  cn_filled :: usize
  cn_continuing :: bool

definition connection_wrap :: "'k arrival list \<Rightarrow> ('g, 'k) sender \<Rightarrow> ('g, 'k) connection" where
  "connection_wrap reader s =
     \<lparr>cn_reader = reader, cn_sender = s, cn_header = replicate MAX_HEADER_LEN 0,
      cn_control = replicate MAX_CONTROL_PAYLOAD_LEN 0, cn_phase = phase_header, cn_filled = 0, cn_continuing = False\<rparr>"

definition connection_server :: "'k arrival list \<Rightarrow> 'k writer \<Rightarrow> ('g, 'k) connection" where
  "connection_server reader w = connection_wrap reader (sender_server w)"

definition begin_frame :: "usize \<Rightarrow> ('g, 'k) connection \<Rightarrow> usize \<Rightarrow> usize \<Rightarrow> 'k ws_error + phase" where
  "begin_frame usize_max c header_len capacity =
     (case decode_prefix (cn_header c ! 0) (cn_header c ! 1) of
        Inl e \<Rightarrow> Inl e
      | Inr px \<Rightarrow>
          (let extended = extended_len_bytes (px_len7 px)
           in case decode_len usize_max (px_len7 px) (slice (cn_header c) 2 (2 + extended)) of
                Inl e \<Rightarrow> Inl e
              | Inr len \<Rightarrow>
                  if px_masked px \<noteq> requires_masked_input (sd_role (cn_sender c)) then Inl WsProtocol
                  else
                    let key = (if px_masked px then Some (slice (cn_header c) (header_len - 4) header_len) else None)
                    in if is_control (px_opcode px)
                       then (if \<not> px_fin px \<or> len > MAX_CONTROL_PAYLOAD_LEN then Inl WsProtocol
                             else Inr (Control (px_opcode px) 0 len key))
                       else if px_opcode px = OP_TEXT \<and> cn_continuing c then Inl WsProtocol
                       else if px_opcode px = OP_CONTINUATION \<and> \<not> cn_continuing c then Inl WsProtocol
                       else if px_opcode px \<noteq> OP_TEXT \<and> px_opcode px \<noteq> OP_CONTINUATION then Inl WsUnsupportedData
                       else if len > capacity - cn_filled c then Inl WsTooLarge
                       else Inr (Payload len key 0 (px_fin px))))"

text \<open>
  What a call of \<open>receive\<close> comes back with. \<open>Panicked\<close> is an out-of-range slice, which a caller can
  only provoke by resuming with a smaller buffer.
\<close>

datatype 'k outcome = Pending | Ready "'k ws_error + usize" | Panicked

text \<open>
  All the header bytes asked for are there: the first two say how long the rest of the header is, the
  whole header starts the frame.
\<close>

definition header_complete ::
  "usize \<Rightarrow> ('g, 'k) connection \<Rightarrow> usize \<Rightarrow> usize \<Rightarrow> usize \<Rightarrow> ('g, 'k) connection \<times> 'k outcome option" where
  "header_complete usize_max c have need capacity =
     (let start = (case begin_frame usize_max c need capacity of
                     Inl e \<Rightarrow> (c, Some (Ready (Inl e)))
                   | Inr phase \<Rightarrow> (c\<lparr>cn_phase := phase\<rparr>, None))
      in if need = 2
         then (case decode_prefix (cn_header c ! 0) (cn_header c ! 1) of
                 Inl e \<Rightarrow> (c, Some (Ready (Inl e)))
               | Inr px \<Rightarrow>
                   (let full = 2 + extended_len_bytes (px_len7 px) + (if px_masked px then 4 else 0)
                    in if full > 2 then (c\<lparr>cn_phase := Header have full\<rparr>, None) else start))
         else start)"

text \<open>A complete control frame.\<close>

definition control_frame :: "'g filler \<Rightarrow> u8 \<Rightarrow> usize \<Rightarrow> bytes option \<Rightarrow> ('g, 'k) connection \<Rightarrow> ('g, 'k) connection \<times> 'k outcome option" where
  "control_frame fill opcode have key c =
     (let c = (case key of
                 Some key \<Rightarrow> c\<lparr>cn_control := put_slice (cn_control c) 0 (fst (mask_apply key 0 (take have (cn_control c))))\<rparr>
               | None \<Rightarrow> c);
          c = c\<lparr>cn_phase := phase_header\<rparr>
      in if opcode = OP_PING
         then (let payload = take have (put_slice (replicate MAX_CONTROL_PAYLOAD_LEN 0) 0 (take have (cn_control c)));
                   (r, s) = send_pong fill payload (cn_sender c);
                   c = c\<lparr>cn_sender := s\<rparr>
               in case r of Inl e \<Rightarrow> (c, Some (Ready (Inl e))) | Inr _ \<Rightarrow> (c, None))
         else if opcode = OP_PONG then (c, None)
         else
           let code = (if have \<ge> 2 then Some (from_be_bytes [cn_control c ! 0, cn_control c ! 1]) else None);
               (_, s) = send_close fill (case code of Some x \<Rightarrow> x | None \<Rightarrow> CLOSE_NORMAL) [] (cn_sender c)
           in (c\<lparr>cn_sender := s\<rparr>, Some (Ready (Inl (WsClosed code)))))"

text \<open>One pass of the loop of \<open>receive\<close>; \<open>None\<close> is \<open>continue\<close>.\<close>

definition receive_step ::
  "usize \<Rightarrow> 'g filler \<Rightarrow> ('g, 'k) connection \<Rightarrow> bytes \<Rightarrow> ('g, 'k) connection \<times> bytes \<times> 'k outcome option" where
  "receive_step usize_max fill c buf =
     (case cn_phase c of
        Header have need \<Rightarrow>
          (case fill_read (need - have) (cn_reader c) of
             (None, reader) \<Rightarrow> (c\<lparr>cn_reader := reader\<rparr>, buf, Some Pending)
           | (Some (Inl e), reader) \<Rightarrow> (c\<lparr>cn_reader := reader\<rparr>, buf, Some (Ready (Inl e)))
           | (Some (Inr bs), reader) \<Rightarrow>
               (let c = c\<lparr>cn_reader := reader, cn_header := put_slice (cn_header c) have bs\<rparr>; have = have + length bs
                in if have < need then (c\<lparr>cn_phase := Header have need\<rparr>, buf, None)
                   else let (c, r) = header_complete usize_max c have need (length buf) in (c, buf, r)))
      | Payload remaining key offset fin \<Rightarrow>
          if remaining = 0
          then (let c = c\<lparr>cn_phase := phase_header\<rparr>
                in if fin
                   then (c\<lparr>cn_filled := 0, cn_continuing := False\<rparr>, buf, Some (Ready (Inr (cn_filled c))))
                   else (c\<lparr>cn_continuing := True\<rparr>, buf, None))
          else if cn_filled c + remaining > length buf then (c, buf, Some Panicked)
          else (case fill_read remaining (cn_reader c) of
                  (None, reader) \<Rightarrow> (c\<lparr>cn_reader := reader\<rparr>, buf, Some Pending)
                | (Some (Inl e), reader) \<Rightarrow> (c\<lparr>cn_reader := reader\<rparr>, buf, Some (Ready (Inl e)))
                | (Some (Inr bs), reader) \<Rightarrow>
                    (let (plain, offset) = (case key of Some key \<Rightarrow> mask_apply key offset bs | None \<Rightarrow> (bs, 0))
                     in (c\<lparr>cn_reader := reader, cn_filled := cn_filled c + length bs,
                           cn_phase := Payload (remaining - length bs) key offset fin\<rparr>,
                         put_slice buf (cn_filled c) plain, None)))
      | Control opcode have remaining key \<Rightarrow>
          if remaining > 0
          then (case fill_read remaining (cn_reader c) of
                  (None, reader) \<Rightarrow> (c\<lparr>cn_reader := reader\<rparr>, buf, Some Pending)
                | (Some (Inl e), reader) \<Rightarrow> (c\<lparr>cn_reader := reader\<rparr>, buf, Some (Ready (Inl e)))
                | (Some (Inr bs), reader) \<Rightarrow>
                    (c\<lparr>cn_reader := reader, cn_control := put_slice (cn_control c) have bs,
                       cn_phase := Control opcode (have + length bs) (remaining - length bs) key\<rparr>, buf, None))
          else (let (c, r) = control_frame fill opcode have key c in (c, buf, r)))"

text \<open>Every pass that continues reads a byte or leaves a frame behind, so the loop ends.\<close>

fun arrival_size :: "'k arrival \<Rightarrow> nat" where
  "arrival_size (Arrived bs) = Suc (length bs)"
| "arrival_size (ReadFailed k) = 1"

fun phase_rank :: "phase \<Rightarrow> nat" where
  "phase_rank (Header _ _) = 0"
| "phase_rank _ = 1"

lemma fill_read_size:
  "fill_read n xs = (Some (Inr bs), ys) \<Longrightarrow> sum_list (map arrival_size ys) < sum_list (map arrival_size xs)"
  by (cases "(n, xs)" rule: fill_read.cases) (auto split: if_splits)

lemma control_frame_frame:
  assumes "control_frame fill opcode have key c = (c', r)"
  shows "cn_reader c' = cn_reader c \<and> cn_phase c' = phase_header"
  using assms by (auto simp: control_frame_def Let_def split: option.splits prod.splits if_splits sum.splits)

lemma header_complete_frame:
  "header_complete u c have need cap = (c', r) \<Longrightarrow> cn_reader c' = cn_reader c"
  by (auto simp: header_complete_def Let_def split: sum.splits if_splits)

lemma receive_step_size:
  assumes "receive_step u fill c buf = (c', buf', None)"
  shows "sum_list (map arrival_size (cn_reader c')) < sum_list (map arrival_size (cn_reader c)) \<or>
    cn_reader c' = cn_reader c \<and> phase_rank (cn_phase c') < phase_rank (cn_phase c)"
  using assms unfolding receive_step_def
  by (auto simp: Let_def phase_header_def dest!: fill_read_size control_frame_frame header_complete_frame
      split: phase.splits prod.splits option.splits sum.splits if_splits)

function receive :: "usize \<Rightarrow> 'g filler \<Rightarrow> ('g, 'k) connection \<Rightarrow> bytes \<Rightarrow> ('g, 'k) connection \<times> bytes \<times> 'k outcome" where
  "receive usize_max fill c buf =
     (case receive_step usize_max fill c buf of
        (c, buf, None) \<Rightarrow> receive usize_max fill c buf
      | (c, buf, Some r) \<Rightarrow> (c, buf, r))"
  by pat_completeness auto
termination
proof (relation "measures [\<lambda>(u, f, c, buf). sum_list (map arrival_size (cn_reader c)), \<lambda>(u, f, c, buf). phase_rank (cn_phase c)]", goal_cases)
  case (2 usize_max fill c buf c1 rest buf1)
  then show ?case by (auto dest!: receive_step_size [OF sym])
qed simp

declare receive.simps [simp del]

definition recv_text :: "usize \<Rightarrow> 'g filler \<Rightarrow> ('g, 'k) connection \<Rightarrow> bytes \<Rightarrow> ('g, 'k) connection \<times> bytes \<times> 'k outcome" where
  "recv_text usize_max fill c buf =
     (case receive usize_max fill c buf of
        (c, buf, Ready (Inl e)) \<Rightarrow>
          (if (case e of WsEof \<Rightarrow> False | WsIo _ \<Rightarrow> False | WsClosed _ \<Rightarrow> False | WsAlreadyClosed \<Rightarrow> False | _ \<Rightarrow> True)
           then (c\<lparr>cn_sender := snd (send_close fill (close_code e) [] (cn_sender c))\<rparr>, buf, Ready (Inl e))
           else (c, buf, Ready (Inl e)))
      | r \<Rightarrow> r)"

end
