(* ===== verification/Ws_Resume.thy ===== *)
theory Ws_Resume
  imports Ws_Connection
begin

text \<open>
  The receiver does not see how the transport cuts the byte stream, nor how often a pending receive is
  dropped and taken up again: its results depend on the bytes alone.
\<close>

declare write_masked.simps [simp del]

section \<open>The shape of a connection\<close>

definition connection_wf :: "('g, 'k) connection \<Rightarrow> bool" where
  "connection_wf c \<longleftrightarrow> length (cn_header c) = MAX_HEADER_LEN \<and> length (cn_control c) = MAX_CONTROL_PAYLOAD_LEN \<and>
     (case cn_phase c of
        Header have need \<Rightarrow> have < need \<and> 2 \<le> need \<and> need \<le> MAX_HEADER_LEN
      | Payload _ _ _ _ \<Rightarrow> True
      | Control _ have remaining _ \<Rightarrow> have + remaining \<le> MAX_CONTROL_PAYLOAD_LEN)"

text \<open>How many bytes the next read asks for; zero when the next pass reads nothing.\<close>

definition want :: "('g, 'k) connection \<Rightarrow> bytes \<Rightarrow> nat" where
  "want c buf =
     (case cn_phase c of
        Header have need \<Rightarrow> need - have
      | Payload remaining _ _ _ \<Rightarrow> if cn_filled c + remaining > length buf then 0 else remaining
      | Control _ _ remaining _ \<Rightarrow> remaining)"

text \<open>A pass with the bytes it reads given.\<close>

definition absorb :: "usize \<Rightarrow> ('g, 'k) connection \<Rightarrow> bytes \<Rightarrow> bytes \<Rightarrow> ('g, 'k) connection \<times> bytes \<times> 'k outcome option" where
  "absorb u c buf bs =
     (case cn_phase c of
        Header have need \<Rightarrow>
          (let c = c\<lparr>cn_header := put_slice (cn_header c) have bs\<rparr>; have = have + length bs
           in if have < need then (c\<lparr>cn_phase := Header have need\<rparr>, buf, None)
              else let (c, r) = header_complete u c have need (length buf) in (c, buf, r))
      | Payload remaining key offset fin \<Rightarrow>
          (let (plain, offset) = (case key of Some key \<Rightarrow> mask_apply key offset bs | None \<Rightarrow> (bs, 0))
           in (c\<lparr>cn_filled := cn_filled c + length bs, cn_phase := Payload (remaining - length bs) key offset fin\<rparr>,
               put_slice buf (cn_filled c) plain, None))
      | Control opcode have remaining key \<Rightarrow>
          (c\<lparr>cn_control := put_slice (cn_control c) have bs,
             cn_phase := Control opcode (have + length bs) (remaining - length bs) key\<rparr>, buf, None))"

lemma begin_frame_cong:
  "cn_header c' = cn_header c \<Longrightarrow> cn_sender c' = cn_sender c \<Longrightarrow> cn_continuing c' = cn_continuing c \<Longrightarrow> cn_filled c' = cn_filled c \<Longrightarrow>
   begin_frame u c' = begin_frame u c"
  by (intro ext) (simp only: begin_frame_def)

lemma header_complete_reader:
  "header_complete u (c\<lparr>cn_reader := rd\<rparr>) have need cap = (let (c', r) = header_complete u c have need cap in (c'\<lparr>cn_reader := rd\<rparr>, r))"
proof -
  have "begin_frame u (c\<lparr>cn_reader := rd\<rparr>) = begin_frame u c" by (rule begin_frame_cong) simp_all
  then show ?thesis by (auto simp: header_complete_def Let_def split: sum.splits)
qed

lemma control_frame_reader:
  "control_frame fill opc have key (c\<lparr>cn_reader := rd\<rparr>) =
     (let (c', r) = control_frame fill opc have key c in (c'\<lparr>cn_reader := rd\<rparr>, r))"
  by (cases key) (auto simp: control_frame_def Let_def split: prod.splits sum.splits)

lemma step_no_read:
  assumes "connection_wf c" "want c buf = 0"
  shows "receive_step u fill (c\<lparr>cn_reader := rd\<rparr>) buf =
    (let (c', b', r) = receive_step u fill c buf in (c'\<lparr>cn_reader := rd\<rparr>, b', r))"
  using assms unfolding want_def connection_wf_def receive_step_def
  by (cases "cn_phase c") (auto simp: control_frame_reader Let_def split: if_splits prod.splits)

lemma step_read:
  assumes "want c buf > 0"
  shows "receive_step u fill (c\<lparr>cn_reader := rd\<rparr>) buf =
    (case fill_read (want c buf) rd of
       (None, rd') \<Rightarrow> (c\<lparr>cn_reader := rd'\<rparr>, buf, Some Pending)
     | (Some (Inl e), rd') \<Rightarrow> (c\<lparr>cn_reader := rd'\<rparr>, buf, Some (Ready (Inl e)))
     | (Some (Inr bs), rd') \<Rightarrow> (let (c', b', r) = absorb u c buf bs in (c'\<lparr>cn_reader := rd'\<rparr>, b', r)))"
proof (cases "cn_phase c")
  case (Header i j)
  have swap: "c\<lparr>cn_reader := rd', cn_header := h\<rparr> = c\<lparr>cn_header := h, cn_reader := rd'\<rparr>" for rd' h by simp
  have "header_complete u (c\<lparr>cn_reader := rd', cn_header := h\<rparr>) m n cap =
      (let (c', r) = header_complete u (c\<lparr>cn_header := h\<rparr>) m n cap in (c'\<lparr>cn_reader := rd'\<rparr>, r))" for rd' h m n cap
    unfolding swap using header_complete_reader [where u = u and c = "c\<lparr>cn_header := h\<rparr>" and rd = rd'] by simp
  with Header show ?thesis by (auto simp: receive_step_def want_def absorb_def Let_def split: prod.splits option.splits sum.splits)
qed (use assms in \<open>auto simp: receive_step_def want_def absorb_def Let_def split: prod.splits option.splits sum.splits if_splits\<close>)

lemma put_slice_append:
  "a + length x + length y \<le> length xs \<Longrightarrow> put_slice (put_slice xs a x) (a + length x) y = put_slice xs a (x @ y)"
  by (simp add: put_slice_def ac_simps)

lemma header_full: "extended_len_bytes l \<le> 8"
  by (simp add: extended_len_bytes_def)

lemma begin_frame_wf:
  assumes "begin_frame u c n cap = Inr ph" "length (cn_header c) = MAX_HEADER_LEN" "length (cn_control c) = MAX_CONTROL_PAYLOAD_LEN"
  shows "connection_wf (c\<lparr>cn_phase := ph\<rparr>)"
  using assms by (auto simp: begin_frame_def connection_wf_def Let_def split: sum.splits if_splits)

lemma header_complete_wf:
  assumes "header_complete u c m n cap = (c', r)" "length (cn_header c) = MAX_HEADER_LEN" "length (cn_control c) = MAX_CONTROL_PAYLOAD_LEN"
    "connection_wf c" "m = n"
  shows "connection_wf c'"
  using assms header_full [of "px_len7 x" for x]
  by (auto simp: header_complete_def Let_def split: sum.splits if_splits dest: begin_frame_wf)
    (auto simp: connection_wf_def MAX_HEADER_LEN_def header_full [THEN order_trans])

lemma control_frame_wf:
  assumes "control_frame fill opc m key c = (c', r)" "connection_wf c" "m \<le> MAX_CONTROL_PAYLOAD_LEN"
  shows "connection_wf c'"
  using assms by (auto simp: control_frame_def connection_wf_def Let_def phase_header_def put_slice_def MAX_HEADER_LEN_def
      split: option.splits prod.splits if_splits sum.splits)

lemma absorb_wf:
  assumes "connection_wf c" "length bs \<le> want c buf" "absorb u c buf bs = (c', b', r)" "bs \<noteq> []"
  shows "connection_wf c' \<and> length b' = length buf"
proof (cases "cn_phase c")
  case (Header i j)
  let ?c = "c\<lparr>cn_header := put_slice (cn_header c) i bs\<rparr>"
  have len: "length (cn_header ?c) = MAX_HEADER_LEN" "length (cn_control ?c) = MAX_CONTROL_PAYLOAD_LEN" "connection_wf ?c"
    using assms(1,2) Header by (auto simp: connection_wf_def want_def slice_simps)
  have i: "i + length bs \<le> j" "i < j" "2 \<le> j" "j \<le> MAX_HEADER_LEN" using assms(1,2) Header by (auto simp: want_def connection_wf_def)
  show ?thesis
  proof (cases "i + length bs < j")
    case True
    with assms(3) Header i len show ?thesis by (auto simp: absorb_def Let_def connection_wf_def)
  next
    case False
    then have "i + length bs = j" using i by simp
    with assms(3) Header header_complete_wf [OF _ len] show ?thesis by (auto simp: absorb_def Let_def split: prod.splits)
  qed
next
  case (Payload rem key off fin)
  have "length (put_slice buf (cn_filled c) plain) = length buf" if "length plain = length bs" for plain
    using assms(2,4) Payload that by (auto simp: want_def slice_simps split: if_splits)
  with assms Payload show ?thesis
    by (cases key) (auto simp: absorb_def connection_wf_def Let_def split_beta)
next
  case (Control opc i rem key)
  with assms show ?thesis by (auto simp: absorb_def connection_wf_def want_def slice_simps)
qed

text \<open>
  Where a malformed header is reported the phase is still the one before the last read. The error
  ends the connection, so the position inside the header is no longer of interest.
\<close>

definition settle :: "('g, 'k) connection \<times> bytes \<times> 'k outcome option \<Rightarrow> ('g, 'k) connection \<times> bytes \<times> 'k outcome option" where
  "settle x = (case x of (c, b, r) \<Rightarrow> (if r = None then c else c\<lparr>cn_phase := phase_header\<rparr>, b, r))"

lemma header_complete_phase:
  assumes "d\<lparr>cn_phase := q\<rparr> = c\<lparr>cn_phase := q\<rparr>"
  shows "settle (let (c', r) = header_complete u d m n cap in (c', b, r)) = settle (let (c', r) = header_complete u c m n cap in (c', b, r))"
proof -
  have same: "cn_header d = cn_header c" "cn_sender d = cn_sender c" "cn_continuing d = cn_continuing c" "cn_filled d = cn_filled c"
    "d\<lparr>cn_phase := p\<rparr> = c\<lparr>cn_phase := p\<rparr>" for p
    using arg_cong [OF assms, of cn_header] arg_cong [OF assms, of cn_sender] arg_cong [OF assms, of cn_continuing]
      arg_cong [OF assms, of cn_filled] arg_cong [OF assms, of "cn_phase_update (\<lambda>_. p)"] by simp_all
  then have "begin_frame u d = begin_frame u c" by (intro begin_frame_cong)
  then show ?thesis using same by (auto simp: header_complete_def settle_def Let_def split: sum.splits)
qed

text \<open>Two reads in a row that do not complete what is asked for are one read of both.\<close>

lemma absorb_append:
  assumes wf: "connection_wf c" and ne: "x \<noteq> []" "y \<noteq> []" and w: "length x + length y \<le> want c buf"
  obtains c1 b1 where "absorb u c buf x = (c1, b1, None)" "want c1 b1 = want c buf - length x" "settle (absorb u c1 b1 y) = settle (absorb u c buf (x @ y))"
    "connection_wf c1"
proof -
  obtain c1 b1 r where a: "absorb u c buf x = (c1, b1, r)" by (metis prod_cases3)
  have wf1: "connection_wf c1" using absorb_wf [OF wf _ a] w ne by simp
  have "r = None \<and> want c1 b1 = want c buf - length x \<and> settle (absorb u c1 b1 y) = settle (absorb u c buf (x @ y))"
  proof (cases "cn_phase c")
    case (Header i j)
    have i: "i + length x + length y \<le> length (cn_header c)" "i + length x < j"
      using w wf ne Header by (cases y; auto simp: want_def connection_wf_def)+
    let ?h = "put_slice (cn_header c) i (x @ y)"
    let ?d = "c\<lparr>cn_phase := Header (i + length x) j, cn_header := ?h\<rparr>"
    have "settle (let (c', r) = header_complete u ?d j j (length buf) in (c', buf, r)) =
        settle (let (c', r) = header_complete u (c\<lparr>cn_header := ?h\<rparr>) j j (length buf) in (c', buf, r))"
      by (rule header_complete_phase [where q = phase_header]) simp
    moreover have "i + (length x + length y) = j" if "\<not> i + (length x + length y) < j"
      using that w wf Header by (auto simp: want_def connection_wf_def)
    ultimately show ?thesis using a Header i
      by (auto simp: absorb_def want_def Let_def put_slice_append add.assoc)
  next
    case (Payload rem key off fin)
    have i: "cn_filled c + rem \<le> length buf" "length x + length y \<le> rem"
      using w ne Payload by (auto simp: want_def split: if_splits)
    show ?thesis
    proof (cases key)
      case None
      with a Payload i show ?thesis
        by (auto simp: absorb_def want_def put_slice_append slice_simps add.assoc split: if_splits)
    next
      case (Some k)
      have "put_slice (put_slice buf (cn_filled c) (fst (mask_apply k off x))) (cn_filled c + length x)
          (fst (mask_apply k (snd (mask_apply k off x)) y)) = put_slice buf (cn_filled c) (fst (mask_apply k off (x @ y)))"
        using put_slice_append [of "cn_filled c" "fst (mask_apply k off x)" "fst (mask_apply k (snd (mask_apply k off x)) y)" buf] i
        by (simp add: mask_apply_append)
      with a Payload i Some show ?thesis
        by (auto simp: absorb_def want_def slice_simps Let_def split_beta mask_apply_append add.assoc)
    qed
  next
    case (Control opc i rem key)
    have "i + length x + length y \<le> length (cn_control c)" using w wf Control by (auto simp: want_def connection_wf_def)
    with a Control w ne show ?thesis
      by (auto simp: absorb_def want_def put_slice_append add.assoc)
  qed
  with a wf1 show thesis by (auto intro: that)
qed

section \<open>Streams\<close>

text \<open>What a list of arrivals amounts to, and the arrivals that hand it out byte by byte.\<close>

datatype 'k token = Byte u8 | EndOfStream | Broken 'k

fun tokens :: "'k arrival list \<Rightarrow> 'k token list" where
  "tokens [] = []"
| "tokens (Arrived bs # rest) = (if bs = [] then [EndOfStream] else map Byte bs) @ tokens rest"
| "tokens (ReadFailed k # rest) = Broken k # tokens rest"

fun single :: "'k token \<Rightarrow> 'k arrival" where
  "single (Byte b) = Arrived [b]"
| "single EndOfStream = Arrived []"
| "single (Broken k) = ReadFailed k"

definition bytewise :: "'k arrival list \<Rightarrow> 'k arrival list" where
  "bytewise xs = map single (tokens xs)"

lemma bytewise_simps [simp]:
  "bytewise [] = []"
  "bytewise (Arrived bs # rest) = (if bs = [] then [Arrived []] else map (\<lambda>b. Arrived [b]) bs) @ bytewise rest"
  "bytewise (ReadFailed k # rest) = ReadFailed k # bytewise rest"
  by (simp_all add: bytewise_def)

lemma receive_continue:
  "receive_step u fill c buf = (c', b', None) \<Longrightarrow> receive u fill c buf = receive u fill c' b'"
  "receive_step u fill c buf = (c', b', Some r) \<Longrightarrow> receive u fill c buf = (c', b', r)"
  by (simp_all add: receive.simps [of u fill c])

fun final :: "('g, 'k) connection \<times> bytes \<times> 'k outcome \<Rightarrow> ('g, 'k) connection \<times> bytes \<times> 'k outcome" where
  "final (c, b, Ready (Inl e)) = (c\<lparr>cn_phase := phase_header\<rparr>, b, Ready (Inl e))"
| "final (c, b, r) = (c, b, r)"

lemma absorb_stops: "absorb u c buf bs = (c', b', Some r) \<Longrightarrow> \<exists>e. r = Ready (Inl e)"
  by (auto simp: absorb_def header_complete_def Let_def split: phase.splits if_splits prod.splits sum.splits option.splits)

lemma receive_settled:
  assumes "settle (absorb u c1 b1 y) = settle (absorb u c buf z)" "y \<noteq> []" "length y \<le> want c1 b1" "z \<noteq> []" "length z \<le> want c buf"
  shows "final (receive u fill (c1\<lparr>cn_reader := Arrived y # rest\<rparr>) b1) = final (receive u fill (c\<lparr>cn_reader := Arrived z # rest\<rparr>) buf)"
proof -
  have w: "want c1 b1 > 0" "want c buf > 0" using assms(2-5) by (cases y; cases z; auto)+
  obtain d1 e1 r1 where 1: "absorb u c1 b1 y = (d1, e1, r1)" by (metis prod_cases3)
  obtain d2 e2 r2 where 2: "absorb u c buf z = (d2, e2, r2)" by (metis prod_cases3)
  from assms(1) 1 2 have eq: "r1 = r2" "e1 = e2" "if r1 = None then d1 = d2 else d1\<lparr>cn_phase := phase_header\<rparr> = d2\<lparr>cn_phase := phase_header\<rparr>"
    by (auto simp: settle_def split: if_splits)
  have s: "receive_step u fill (c1\<lparr>cn_reader := Arrived y # rest\<rparr>) b1 = (d1\<lparr>cn_reader := rest\<rparr>, e1, r1)"
    "receive_step u fill (c\<lparr>cn_reader := Arrived z # rest\<rparr>) buf = (d2\<lparr>cn_reader := rest\<rparr>, e2, r2)"
    using w 1 2 assms(2-5) by (simp_all add: step_read)
  show ?thesis
  proof (cases r1)
    case None
    then show ?thesis
      using receive_continue(1) [OF s(1) [unfolded None]] receive_continue(1) [OF s(2) [folded eq(1), unfolded None]] eq by simp
  next
    case (Some r)
    with absorb_stops 1 obtain e where "r = Ready (Inl e)" by metis
    moreover have "d1\<lparr>cn_reader := rest, cn_phase := phase_header\<rparr> = d2\<lparr>cn_reader := rest, cn_phase := phase_header\<rparr>"
    proof -
      have swap: "d\<lparr>cn_reader := rest, cn_phase := phase_header\<rparr> = d\<lparr>cn_phase := phase_header, cn_reader := rest\<rparr>" for d :: "('a, 'b) connection"
        by simp
      show ?thesis unfolding swap using eq(3) Some by simp
    qed
    ultimately show ?thesis using receive_continue(2) [OF s(1) [unfolded Some]] receive_continue(2) [OF s(2) [folded eq(1), unfolded Some]] eq(2)
      by simp
  qed
qed

lemma receive_bytes:
  assumes "connection_wf c" "bs \<noteq> []" "length bs \<le> want c buf"
  shows "final (receive u fill (c\<lparr>cn_reader := map (\<lambda>b. Arrived [b]) bs @ rest\<rparr>) buf) =
    final (receive u fill (c\<lparr>cn_reader := Arrived bs # rest\<rparr>) buf)"
  using assms
proof (induction bs arbitrary: c buf)
  case (Cons b bs)
  show ?case
  proof (cases "bs = []")
    case False
    obtain c1 b1 where a: "absorb u c buf [b] = (c1, b1, None)" "want c1 b1 = want c buf - length [b]"
      "settle (absorb u c1 b1 bs) = settle (absorb u c buf ([b] @ bs))" "connection_wf c1"
      using absorb_append [OF Cons.prems(1), of "[b]" bs buf u] False Cons.prems(3) by auto
    have fits: "length bs \<le> want c1 b1" "want c buf > 0" using Cons.prems(3) a(2) by auto
    have "receive u fill (c\<lparr>cn_reader := map (\<lambda>b. Arrived [b]) (b # bs) @ rest\<rparr>) buf =
        receive u fill (c1\<lparr>cn_reader := map (\<lambda>b. Arrived [b]) bs @ rest\<rparr>) b1"
      by (rule receive_continue) (use fits a(1) in \<open>simp add: step_read\<close>)
    moreover have "final (receive u fill (c1\<lparr>cn_reader := map (\<lambda>b. Arrived [b]) bs @ rest\<rparr>) b1) =
        final (receive u fill (c1\<lparr>cn_reader := Arrived bs # rest\<rparr>) b1)"
      using Cons.prems a False fits by (intro Cons.IH) auto
    moreover have "final (receive u fill (c1\<lparr>cn_reader := Arrived bs # rest\<rparr>) b1) =
        final (receive u fill (c\<lparr>cn_reader := Arrived (b # bs) # rest\<rparr>) buf)"
      using a(3) fits Cons.prems(3) False by (intro receive_settled) auto
    ultimately show ?thesis by simp
  qed simp
qed simp

section \<open>Only the bytes matter\<close>

lemma fill_read_bytewise:
  assumes "n > 0" "fill_read n xs = (r, ys)" "\<And>bs. r \<noteq> Some (Inr bs)"
  shows "fill_read n (bytewise xs) = (r, bytewise ys)"
  using assms by (cases "(n, xs)" rule: fill_read.cases) (auto split: if_splits)

lemma fill_read_bytes:
  assumes "n > 0" "fill_read n xs = (Some (Inr bs), ys)"
  shows "bytewise xs = map (\<lambda>b. Arrived [b]) bs @ bytewise ys \<and> bs \<noteq> [] \<and> length bs \<le> n"
proof (cases "(n, xs)" rule: fill_read.cases)
  case (3 m cs rest)
  with assms have "bs = take n cs" "cs \<noteq> []" "ys = (if length cs \<le> n then rest else Arrived (drop n cs) # rest)"
    by (auto split: if_splits)
  moreover have "map (\<lambda>b. Arrived [b]) cs = map (\<lambda>b. Arrived [b]) (take n cs) @ map (\<lambda>b. Arrived [b]) (drop n cs)"
    by (metis append_take_drop_id map_append)
  ultimately show ?thesis using 3 assms(1) by auto
qed (use assms in auto)

lemma receive_step_wf:
  assumes "connection_wf c" "receive_step u fill c buf = (c', b', r)"
  shows "connection_wf c' \<and> length b' = length buf"
proof (cases "want c buf = 0")
  case True
  with assms show ?thesis
    by (cases "cn_phase c") (auto simp: receive_step_def want_def connection_wf_def Let_def phase_header_def MAX_HEADER_LEN_def
        dest: control_frame_wf split: if_splits prod.splits)
next
  case False
  note s = step_read [of c buf u fill "cn_reader c"]
  have wf_reader: "connection_wf (d\<lparr>cn_reader := rd\<rparr>) = connection_wf d" for d :: "('a, 'b) connection" and rd
    by (simp add: connection_wf_def)
  have "length bs \<le> want c buf \<and> bs \<noteq> []" if "fill_read (want c buf) (cn_reader c) = (Some (Inr bs), ys)" for bs ys
    using fill_read_bytes [OF _ that] False by auto
  with s assms False show ?thesis
    by (auto simp: wf_reader split: prod.splits option.splits sum.splits dest: absorb_wf)
qed

text \<open>A result with its remaining arrivals taken apart.\<close>

fun spell :: "('g, 'k) connection \<times> bytes \<times> 'k outcome \<Rightarrow> ('g, 'k) connection \<times> bytes \<times> 'k outcome" where
  "spell (c, b, r) = (c\<lparr>cn_reader := bytewise (cn_reader c)\<rparr>, b, r)"

lemma receive_bytewise:
  assumes "connection_wf c"
  shows "final (receive u fill (c\<lparr>cn_reader := bytewise (cn_reader c)\<rparr>) buf) = final (spell (receive u fill c buf))"
  using assms
proof (induction u fill c buf rule: receive.induct)
  case (1 u fill c buf)
  obtain c1 b1 s where step: "receive_step u fill c buf = (c1, b1, s)" by (metis prod_cases3)
  have wf1: "connection_wf c1" using receive_step_wf [OF "1.prems" step] by simp
  have ih: "final (receive u fill (c1\<lparr>cn_reader := bytewise (cn_reader c1)\<rparr>) b1) = final (spell (receive u fill c buf))" if "s = None"
    using "1.IH" [OF step [symmetric] _ _ wf1] receive_continue(1) [of u fill c buf c1 b1] step that by auto
  have stop: "receive u fill c buf = (c1, b1, x)" if "s = Some x" for x
    using receive_continue(2) [of u fill c buf c1 b1 x] step that by simp
  have fin: "final (receive u fill d buf) = final (spell (receive u fill c buf))"
    if "receive_step u fill d buf = (c1\<lparr>cn_reader := bytewise (cn_reader c1)\<rparr>, b1, s)" for d
    using that ih stop by (cases s) (auto dest: receive_continue)
  show ?case
  proof (cases "want c buf = 0")
    case True
    have "cn_reader c1 = cn_reader c"
      using arg_cong [OF step_no_read [OF "1.prems" True, of u fill "cn_reader c"], of "cn_reader \<circ> fst"] step by simp
    then show ?thesis
      using step_no_read [OF "1.prems" True, of u fill "bytewise (cn_reader c)"] step by (intro fin) simp
  next
    case False
    obtain q ys where f: "fill_read (want c buf) (cn_reader c) = (q, ys)" by fastforce
    note s = step_read [of c buf u fill "cn_reader c"]
    show ?thesis
    proof (cases "\<exists>bs. q = Some (Inr bs)")
      case False
      have "fill_read (want c buf) (bytewise (cn_reader c)) = (q, bytewise ys)"
        using fill_read_bytewise [OF _ f] False \<open>want c buf \<noteq> 0\<close> by blast
      then show ?thesis
        using s step f False \<open>want c buf \<noteq> 0\<close> step_read [of c buf u fill "bytewise (cn_reader c)"]
        by (intro fin) (auto split: option.splits sum.splits)
    next
      case True
      then obtain bs where q: "q = Some (Inr bs)" by blast
      note b = fill_read_bytes [OF _ f [unfolded q]]
      have "receive_step u fill (c\<lparr>cn_reader := Arrived bs # bytewise ys\<rparr>) buf = (c1\<lparr>cn_reader := bytewise (cn_reader c1)\<rparr>, b1, s)"
        using s step f q b False step_read [of c buf u fill "Arrived bs # bytewise ys"] by (auto split: prod.splits)
      from fin [OF this] show ?thesis
        using b False receive_bytes [OF "1.prems", of bs buf u fill "bytewise ys"] by simp
    qed
  qed
qed

text \<open>Arrivals with the same bytes give the same result.\<close>

lemma receive_same_bytes:
  assumes "connection_wf c" "tokens xs = tokens ys"
  shows "final (spell (receive u fill (c\<lparr>cn_reader := xs\<rparr>) buf)) = final (spell (receive u fill (c\<lparr>cn_reader := ys\<rparr>) buf))"
proof -
  have wf: "connection_wf (c\<lparr>cn_reader := zs\<rparr>)" for zs using assms(1) by (simp add: connection_wf_def)
  have "bytewise xs = bytewise ys" using assms(2) by (simp add: bytewise_def)
  with receive_bytewise [OF wf, of u fill xs buf] receive_bytewise [OF wf, of u fill ys buf] show ?thesis by simp
qed

section \<open>A pending receive can be dropped\<close>

lemma fill_read_more:
  "n > 0 \<Longrightarrow> fill_read n xs = (q, ys) \<Longrightarrow> q \<noteq> None \<Longrightarrow> fill_read n (xs @ later_on) = (q, ys @ later_on)"
  by (cases "(n, xs)" rule: fill_read.cases) auto

lemma fill_read_none: "fill_read n xs = (None, ys) \<Longrightarrow> xs = [] \<and> ys = []"
  by (cases "(n, xs)" rule: fill_read.cases) (auto split: if_splits)

lemma receive_resumes:
  assumes "connection_wf c" "receive u fill c buf = (c', b', Pending)"
  shows "receive u fill (c'\<lparr>cn_reader := later_on\<rparr>) b' = receive u fill (c\<lparr>cn_reader := cn_reader c @ later_on\<rparr>) buf"
  using assms
proof (induction u fill c buf rule: receive.induct)
  case (1 u fill c buf)
  obtain c1 b1 s where step: "receive_step u fill c buf = (c1, b1, s)" by (metis prod_cases3)
  have wf1: "connection_wf c1" using receive_step_wf [OF "1.prems"(1) step] by simp
  note now = step_read [of c buf u fill "cn_reader c"] and later = step_read [of c buf u fill "cn_reader c @ later_on"]
  have go: "receive u fill (c'\<lparr>cn_reader := later_on\<rparr>) b' = receive u fill (c1\<lparr>cn_reader := cn_reader c1 @ later_on\<rparr>) b1" if "s = None"
    using "1.IH" [OF step [symmetric] _ _ wf1] "1.prems"(2) receive_continue(1) [of u fill c buf c1 b1] step that by auto
  show ?case
  proof (cases "want c buf = 0")
    case True
    have same: "cn_reader c1 = cn_reader c"
      using arg_cong [OF step_no_read [OF "1.prems"(1) True, of u fill "cn_reader c"], of "cn_reader \<circ> fst"] step by simp
    have "s \<noteq> Some Pending" using step True "1.prems"(1)
      by (auto simp: receive_step_def want_def connection_wf_def control_frame_def Let_def split: phase.splits if_splits prod.splits sum.splits)
    then have "s = None" using "1.prems"(2) step receive_continue(2) [of u fill c buf c1 b1] by (cases s) auto
    moreover have "receive_step u fill (c\<lparr>cn_reader := cn_reader c @ later_on\<rparr>) buf = (c1\<lparr>cn_reader := cn_reader c1 @ later_on\<rparr>, b1, s)"
      using step_no_read [OF "1.prems"(1) True, of u fill "cn_reader c @ later_on"] step same by simp
    ultimately show ?thesis using go receive_continue(1) by metis
  next
    case False
    obtain q ys where f: "fill_read (want c buf) (cn_reader c) = (q, ys)" by fastforce
    show ?thesis
    proof (cases q)
      case None
      with f fill_read_none have "cn_reader c = []" "ys = []" by metis+
      moreover have "c' = c\<lparr>cn_reader := []\<rparr>" "b' = buf"
        using now step f None False "1.prems"(2) receive_continue(2) [of u fill c buf c1 b1 Pending] \<open>ys = []\<close> by auto
      ultimately show ?thesis by simp
    next
      case (Some x)
      with fill_read_more [OF _ f] False have m: "fill_read (want c buf) (cn_reader c @ later_on) = (q, ys @ later_on)" by simp
      have "s \<noteq> Some Pending" using now step f Some False by (auto split: sum.splits prod.splits dest!: absorb_stops)
      then have "s = None" using "1.prems"(2) step receive_continue(2) [of u fill c buf c1 b1] by (cases s) auto
      moreover have "receive_step u fill (c\<lparr>cn_reader := cn_reader c @ later_on\<rparr>) buf = (c1\<lparr>cn_reader := cn_reader c1 @ later_on\<rparr>, b1, s)"
        using later now step f m Some False by (auto split: sum.splits prod.splits)
      ultimately show ?thesis using go receive_continue(1) by metis
    qed
  qed
qed

end
