(* ===== verification/Ws_Roundtrip.thy ===== *)
theory Ws_Roundtrip
  imports Ws_Resume
begin

text \<open>
  Messages survive the WebSocket: what one endpoint sends as text, masked in chunks or not, the other
  receives, in order and byte for byte, however the transport cuts the stream.
\<close>

section \<open>What a sender writes\<close>

lemma write_all_ok: "write_all w buf = (Inr (), w') \<Longrightarrow> w_out w' = w_out w @ buf"
  by (auto simp: write_all_def split: if_splits)

text \<open>Masking chunk by chunk writes the whole payload masked.\<close>

lemma write_masked_ok:
  "write_masked key off payload w = (Inr (), w') \<Longrightarrow> w_out w' = w_out w @ fst (mask_apply key off payload)"
proof (induction key off payload w rule: write_masked.induct)
  case (1 key off payload w)
  show ?case
  proof (cases "payload = []")
    case True
    with "1.prems" show ?thesis by (simp add: write_masked.simps mask_apply_simps)
  next
    case False
    let ?m = "mask_apply key off (take MASK_CHUNK_LEN payload)"
    obtain r w1 where w1: "write_all w (fst ?m) = (r, w1)" by fastforce
    with "1.prems" False have r: "r = Inr ()" and rest: "write_masked key (snd ?m) (drop MASK_CHUNK_LEN payload) w1 = (Inr (), w')"
      by (cases r; simp add: write_masked.simps [of key off payload w] split_beta)+
    have "w_out w' = w_out w1 @ fst (mask_apply key (snd ?m) (drop MASK_CHUNK_LEN payload))"
      using "1.IH" [OF False refl prod.collapse w1 [symmetric] r rest] .
    with write_all_ok w1 r mask_apply_append(1) [of key off "take MASK_CHUNK_LEN payload" "drop MASK_CHUNK_LEN payload"]
    show ?thesis by auto
  qed
qed

definition frame_bytes :: "u8 \<Rightarrow> bytes option \<Rightarrow> bytes \<Rightarrow> bytes" where
  "frame_bytes opcode mkey payload =
     header_bytes True opcode (length payload) mkey @ (case mkey of None \<Rightarrow> payload | Some key \<Rightarrow> fst (mask_apply key 0 payload))"

lemma send_frame_ok:
  assumes "send_frame fill opcode payload s = (Inr (), s')" "\<And>n g. length (fst (fill n g)) = n"
  obtains mkey where "w_out (sd_writer s') = w_out (sd_writer s) @ frame_bytes opcode mkey payload"
    "mkey = None \<longleftrightarrow> sd_mask s = None" "\<forall>key. mkey = Some key \<longrightarrow> length key = 4"
    "sd_role s' = sd_role s" "sd_mask s' = None \<longleftrightarrow> sd_mask s = None" "sd_closed s' = sd_closed s"
proof (cases "sd_mask s")
  case None
  show thesis
    by (rule that [of None])
      (use assms(1) None in \<open>auto simp: send_frame_def Let_def frame_bytes_def header_bytes_def flush_writer_def
          split: prod.splits sum.splits dest!: write_all_ok\<close>)
next
  case (Some g)
  obtain key g' where k: "fill 4 g = (key, g')" by fastforce
  with assms(2) [of 4 g] have "length key = 4" by simp
  then show thesis
    by (intro that [of "Some key"])
      (use assms(1) Some k in \<open>auto simp: send_frame_def Let_def frame_bytes_def header_bytes_def flush_writer_def masker_key_def
          split: prod.splits sum.splits dest!: write_all_ok write_masked_ok\<close>)
qed

section \<open>What a receiver reads\<close>

text \<open>Between two messages.\<close>

definition at_boundary :: "('g, 'k) connection \<Rightarrow> bool" where
  "at_boundary c \<longleftrightarrow> connection_wf c \<and> cn_phase c = phase_header \<and> cn_filled c = 0 \<and> \<not> cn_continuing c"

lemma boundary_wrap: "at_boundary (connection_wrap xs s)"
  by (simp add: at_boundary_def connection_wf_def connection_wrap_def phase_header_def MAX_HEADER_LEN_def)

lemma wrap_simps [simp]: "cn_reader (connection_wrap xs s) = xs" "cn_sender (connection_wrap xs s) = s"
  by (simp_all add: connection_wrap_def)

definition piece :: "bytes \<Rightarrow> 'k arrival list" where
  "piece bs = (if bs = [] then [] else [Arrived bs])"

lemma tokens_piece [simp]: "tokens (piece bs @ xs) = map Byte bs @ tokens xs"
  by (simp add: piece_def)

lemma text_known: "known_opcode OP_TEXT" "\<not> is_control OP_TEXT" "OP_TEXT \<noteq> OP_CONTINUATION"
  by (simp_all add: known_opcode_def is_control_def OP_TEXT_def OP_CONTINUATION_def)

lemma slice_put_front: "b \<le> length x \<Longrightarrow> length x \<le> length xs \<Longrightarrow> slice (put_slice xs 0 x) a b = slice x a b"
  by (simp add: slice_def put_slice_def drop_take)

lemma nth_put_front: "i < length x \<Longrightarrow> put_slice xs 0 x ! i = x ! i"
  by (simp add: put_slice_def nth_append)

lemma text_begins:
  fixes c :: "('g, 'k) connection"
  assumes c: "at_boundary c" "requires_masked_input (sd_role (cn_sender c)) \<longleftrightarrow> mkey \<noteq> None"
    and len: "len < 2 ^ 63" "len \<le> u" "len \<le> cap" and key: "\<forall>key. mkey = Some key \<longrightarrow> length key = 4"
  defines "h \<equiv> header_bytes True OP_TEXT len mkey"
  shows "begin_frame u (c\<lparr>cn_header := put_slice (cn_header c) 0 h\<rparr>) (length h) cap = Inr (Payload len mkey 0 True)"
    and "header_complete u (c\<lparr>cn_header := put_slice (cn_header c) 0 (take 2 h)\<rparr>) 2 2 cap =
      (if length h > 2 then (c\<lparr>cn_header := put_slice (cn_header c) 0 (take 2 h), cn_phase := Header 2 (length h)\<rparr>, None)
       else (c\<lparr>cn_header := put_slice (cn_header c) 0 (take 2 h), cn_phase := Payload len mkey 0 True\<rparr>, None))"
proof -
  note d = header_decodes(1) [OF text_known(1) len(1,2) key, where fin = True and 'a = 'k, folded h_def]
    header_decodes(2) [OF text_known(1) len(1,2) key, where fin = True, folded h_def]
    header_decodes(3) [OF text_known(1) len(1,2) key, where fin = True and 'b = 'k, folded h_def]
    header_decodes(4) [OF text_known(1) len(1,2) key, where fin = True, folded h_def]
  have lens: "length h \<le> length (cn_header c)" "2 \<le> length h"
    using d(2) header_full [of "fst (length_field len)"] c(1) by (auto simp: at_boundary_def connection_wf_def MAX_HEADER_LEN_def)
  have ext: "2 + extended_len_bytes (fst (length_field len)) \<le> length h" using d(2) by simp
  have first: "put_slice (cn_header c) 0 h ! 0 = h ! 0" "put_slice (cn_header c) 0 h ! Suc 0 = h ! Suc 0"
    using lens by (auto intro!: nth_put_front)
  show b: "begin_frame u (c\<lparr>cn_header := put_slice (cn_header c) 0 h\<rparr>) (length h) cap = Inr (Payload len mkey 0 True)"
    using first d(1,3) d(4) [of "the mkey"] lens ext c len text_known
    by (cases mkey) (auto simp: begin_frame_def slice_put_front Let_def at_boundary_def simp del: length_field.simps)
  have "put_slice (cn_header c) 0 (take 2 h) ! 0 = h ! 0" "put_slice (cn_header c) 0 (take 2 h) ! Suc 0 = h ! Suc 0"
    using lens nth_put_front [of 0 "take 2 h" "cn_header c"] nth_put_front [of 1 "take 2 h" "cn_header c"] by auto
  then show "header_complete u (c\<lparr>cn_header := put_slice (cn_header c) 0 (take 2 h)\<rparr>) 2 2 cap =
      (if length h > 2 then (c\<lparr>cn_header := put_slice (cn_header c) 0 (take 2 h), cn_phase := Header 2 (length h)\<rparr>, None)
       else (c\<lparr>cn_header := put_slice (cn_header c) 0 (take 2 h), cn_phase := Payload len mkey 0 True\<rparr>, None))"
    using d(1,2) b lens by (auto simp: header_complete_def Let_def simp del: length_field.simps simp flip: numeral_2_eq_2)
qed

lemma text_received:
  fixes c :: "('g, 'k) connection"
  assumes c: "at_boundary c" "requires_masked_input (sd_role (cn_sender c)) \<longleftrightarrow> mkey \<noteq> None"
    and len: "length m < 2 ^ 63" "length m \<le> u" "length m \<le> length buf" and key: "\<forall>key. mkey = Some key \<longrightarrow> length key = 4"
  defines "h \<equiv> header_bytes True OP_TEXT (length m) mkey"
  shows "receive u fill (c\<lparr>cn_reader := piece (take 2 h) @ piece (drop 2 h) @
      piece (case mkey of None \<Rightarrow> m | Some key \<Rightarrow> fst (mask_apply key 0 m)) @ rest\<rparr>) buf =
    (c\<lparr>cn_reader := rest, cn_header := put_slice (cn_header c) 0 h\<rparr>, put_slice buf 0 m, Ready (Inr (length m)))"
proof -
  note b = text_begins [OF c len key, folded h_def]
  note d = header_decodes [OF text_known(1) len(1,2) key, where fin = True, folded h_def]
  have lens: "length h \<le> length (cn_header c)" "2 \<le> length h"
    using d(2) header_full [of "fst (length_field (length m))"] c(1) by (auto simp: at_boundary_def connection_wf_def MAX_HEADER_LEN_def)
  let ?body = "case mkey of None \<Rightarrow> m | Some key \<Rightarrow> fst (mask_apply key 0 m)"
  let ?c = "c\<lparr>cn_header := put_slice (cn_header c) 0 h, cn_phase := Payload (length m) mkey 0 True\<rparr>"
  have body: "length ?body = length m" by (cases mkey) auto
  have phase: "cn_phase c = Header 0 2" "cn_filled c = 0" "\<not> cn_continuing c" using c(1) by (simp_all add: at_boundary_def phase_header_def)
  have ne: "take 2 h \<noteq> []" "drop 2 h = [] \<longleftrightarrow> length h = 2" "length (take 2 h) = 2" "drop 2 h = [] \<Longrightarrow> take 2 h = h" using lens by auto
  let ?c2 = "c\<lparr>cn_header := put_slice (cn_header c) 0 (take 2 h), cn_phase := Header 2 (length h)\<rparr>"
  have two: "absorb u c buf (take 2 h) = (if length h > 2 then ?c2 else ?c, buf, None)"
    using b(2) ne lens phase by (simp add: absorb_def flip: numeral_2_eq_2)
  have whole: "put_slice (put_slice (cn_header c) 0 (take 2 h)) 2 (drop 2 h) = put_slice (cn_header c) 0 h"
    using put_slice_append [of 0 "take 2 h" "drop 2 h" "cn_header c"] ne(3) lens by (simp flip: numeral_2_eq_2)
  have bf: "begin_frame u (c\<lparr>cn_phase := p, cn_header := x\<rparr>) = begin_frame u (c\<lparr>cn_header := x\<rparr>)" for p x
    by (rule begin_frame_cong) simp_all
  have three: "absorb u ?c2 buf (drop 2 h) = (?c, buf, None)" if "length h > 2"
  proof -
    have "Suc (Suc (length h - 2)) = length h" using that by simp
    then show ?thesis using that b(1) whole bf by (simp add: absorb_def header_complete_def Let_def)
  qed
  have r: "receive u fill (d\<lparr>cn_reader := piece bs @ tail\<rparr>) buf = receive u fill (d'\<lparr>cn_reader := tail\<rparr>) buf'"
    if "absorb u d buf bs = (d', buf', None)" "bs \<noteq> []" "length bs \<le> want d buf" for d d' :: "('g, 'k) connection" and bs tail buf buf'
    using that by (intro receive_continue) (cases bs; simp add: step_read piece_def)
  have head: "receive u fill (c\<lparr>cn_reader := piece (take 2 h) @ piece (drop 2 h) @ tail\<rparr>) buf = receive u fill (?c\<lparr>cn_reader := tail\<rparr>) buf" for tail
  proof (cases "length h > 2")
    case True
    then show ?thesis using r [OF two] r [OF three] ne phase by (simp add: want_def)
  next
    case False
    then have "drop 2 h = []" using lens by simp
    then show ?thesis using r [OF two] ne phase False by (simp add: want_def piece_def)
  qed
  let ?d = "?c\<lparr>cn_filled := length m, cn_phase := Payload 0 mkey (if mkey = None then 0 else length m mod 4) True\<rparr>"
  have "absorb u ?c buf ?body = (?d, put_slice buf 0 m, None)" if "m \<noteq> []"
    using that phase mask_apply_twice by (cases mkey) (simp_all add: absorb_def Let_def split_beta mask_apply_simps(1))
  then have "receive u fill (?c\<lparr>cn_reader := piece ?body @ rest\<rparr>) buf = receive u fill (?d\<lparr>cn_reader := rest\<rparr>) (put_slice buf 0 m)" if "m \<noteq> []"
    using that phase body len(3) by (intro r) (auto simp: want_def)
  moreover have "receive u fill (?d\<lparr>cn_reader := rest\<rparr>) (put_slice buf 0 m) =
      (c\<lparr>cn_reader := rest, cn_header := put_slice (cn_header c) 0 h\<rparr>, put_slice buf 0 m, Ready (Inr (length m)))"
  proof -
    have "receive_step u fill (?d\<lparr>cn_reader := rest\<rparr>) (put_slice buf 0 m) =
        (c\<lparr>cn_reader := rest, cn_header := put_slice (cn_header c) 0 h\<rparr>, put_slice buf 0 m, Some (Ready (Inr (length m))))"
      using phase by (simp add: receive_step_def phase_header_def)
    then show ?thesis by (rule receive_continue)
  qed
  moreover have "receive u fill (?c\<lparr>cn_reader := rest\<rparr>) buf =
      (c\<lparr>cn_reader := rest, cn_header := put_slice (cn_header c) 0 h\<rparr>, buf, Ready (Inr 0))" if "m = []"
  proof -
    have "receive_step u fill (?c\<lparr>cn_reader := rest\<rparr>) buf =
        (c\<lparr>cn_reader := rest, cn_header := put_slice (cn_header c) 0 h\<rparr>, buf, Some (Ready (Inr 0)))"
      using phase that by (simp add: receive_step_def phase_header_def)
    then show ?thesis by (rule receive_continue)
  qed
  moreover have "piece ?body = ([] :: 'k arrival list)" if "m = []" using that by (cases mkey) (simp_all add: piece_def mask_apply_simps)
  ultimately show ?thesis using head by (cases "m = []") (simp_all add: put_slice_def)
qed

section \<open>Conversations\<close>

fun send_texts :: "'g filler \<Rightarrow> bytes list \<Rightarrow> ('g, 'k) sender \<Rightarrow> ('k ws_error + unit) \<times> ('g, 'k) sender" where
  "send_texts fill [] s = (Inr (), s)"
| "send_texts fill (m # ms) s =
     (case send_text fill m s of
        (Inl e, s) \<Rightarrow> (Inl e, s)
      | (Inr _, s) \<Rightarrow> send_texts fill ms s)"

text \<open>What a caller reads that receives a number of messages into one buffer.\<close>

fun recv_texts :: "usize \<Rightarrow> 'g filler \<Rightarrow> nat \<Rightarrow> ('g, 'k) connection \<Rightarrow> bytes \<Rightarrow> ('k ws_error + bytes) list" where
  "recv_texts u fill 0 c buf = []"
| "recv_texts u fill (Suc n) c buf =
     (case recv_text u fill c buf of
        (c, buf, Ready (Inr len)) \<Rightarrow> Inr (take len buf) # recv_texts u fill n c buf
      | (c, buf, Ready (Inl e)) \<Rightarrow> [Inl e]
      | _ \<Rightarrow> [])"

lemma single_inj: "inj single"
proof (rule injI)
  fix x y :: "'k token" assume "single x = single y"
  then show "x = y" by (cases x; cases y) auto
qed

lemma bytewise_tokens: "bytewise xs = bytewise ys \<longleftrightarrow> tokens xs = tokens ys"
  by (simp add: bytewise_def inj_map_eq_map [OF single_inj])

lemma tokens_single: "tokens (map single ts) = ts"
proof (induction ts)
  case (Cons t ts)
  then show ?case by (cases t) auto
qed simp

lemma receive_text_any:
  fixes c :: "('g, 'k) connection"
  assumes c: "at_boundary c" "requires_masked_input (sd_role (cn_sender c)) \<longleftrightarrow> mkey \<noteq> None"
    and len: "length m < 2 ^ 63" "length m \<le> u" "length m \<le> length buf" and key: "\<forall>key. mkey = Some key \<longrightarrow> length key = 4"
    and arrives: "tokens (cn_reader c) = map Byte (frame_bytes OP_TEXT mkey m) @ rest"
  obtains c' where "recv_text u fill c buf = (c', put_slice buf 0 m, Ready (Inr (length m)))" "at_boundary c'"
    "cn_sender c' = cn_sender c" "tokens (cn_reader c') = rest"
proof -
  let ?h = "header_bytes True OP_TEXT (length m) mkey" and ?body = "case mkey of None \<Rightarrow> m | Some key \<Rightarrow> fst (mask_apply key 0 m)"
  let ?xs = "piece (take 2 ?h) @ piece (drop 2 ?h) @ piece ?body @ map single rest"
  let ?d = "c\<lparr>cn_reader := map single rest, cn_header := put_slice (cn_header c) 0 ?h\<rparr>"
  have lens: "length ?h \<le> MAX_HEADER_LEN"
    using header_decodes(2) [OF text_known(1) len(1,2) key, where fin = True] header_full [of "fst (length_field (length m))"]
    by (auto simp: MAX_HEADER_LEN_def)
  have "tokens ?xs = map Byte (take 2 ?h @ drop 2 ?h) @ map Byte ?body @ rest" by (simp add: tokens_single del: append_take_drop_id)
  then have "tokens ?xs = tokens (cn_reader c)" using arrives by (simp add: frame_bytes_def)
  with c(1) have same: "final (spell (receive u fill (c\<lparr>cn_reader := ?xs\<rparr>) buf)) = final (spell (receive u fill (c\<lparr>cn_reader := cn_reader c\<rparr>) buf))"
    by (intro receive_same_bytes) (simp_all add: at_boundary_def)
  obtain c' b' r where run: "receive u fill c buf = (c', b', r)" by (metis prod_cases3)
  have "final (spell (c', b', r)) = (?d\<lparr>cn_reader := bytewise (map single rest)\<rparr>, put_slice buf 0 m, Ready (Inr (length m)))"
    using same run text_received [OF c len key, of fill "map single rest"] by simp
  then have r: "r = Ready (Inr (length m)) \<and> b' = put_slice buf 0 m \<and>
      c'\<lparr>cn_reader := bytewise (cn_reader c')\<rparr> = ?d\<lparr>cn_reader := bytewise (map single rest)\<rparr>"
    by (cases "(c', b', r)" rule: final.cases) auto
  then have eq: "c'\<lparr>cn_reader := bytewise (cn_reader c')\<rparr> = ?d\<lparr>cn_reader := bytewise (map single rest)\<rparr>" by blast
  have "cn_phase c' = cn_phase c" "cn_filled c' = cn_filled c" "cn_continuing c' = cn_continuing c" "cn_control c' = cn_control c"
    "cn_sender c' = cn_sender c" "cn_header c' = put_slice (cn_header c) 0 ?h" "bytewise (cn_reader c') = bytewise (map single rest)"
    using arg_cong [OF eq, of cn_phase] arg_cong [OF eq, of cn_filled] arg_cong [OF eq, of cn_continuing] arg_cong [OF eq, of cn_control]
      arg_cong [OF eq, of cn_sender] arg_cong [OF eq, of cn_header] arg_cong [OF eq, of cn_reader] by simp_all
  with c(1) lens have "at_boundary c'" "cn_sender c' = cn_sender c" "tokens (cn_reader c') = rest"
    by (auto simp: at_boundary_def connection_wf_def slice_simps bytewise_tokens tokens_single phase_header_def)
  with run r show thesis by (intro that) (simp_all add: recv_text_def)
qed

lemma conversation:
  fixes c :: "('h, 'k) connection"
  assumes law: "\<And>n g. length (fst (fill n g)) = n"
    and "send_texts fill ms s = (Inr (), s')" "w_out (sd_writer s') = w_out (sd_writer s) @ wire"
    and "sd_mask s = None \<longleftrightarrow> \<not> masks_output (sd_role s)"
    and "at_boundary c" "requires_masked_input (sd_role (cn_sender c)) \<longleftrightarrow> masks_output (sd_role s)"
    and "tokens (cn_reader c) = map Byte wire @ rest"
    and "\<forall>m\<in>set ms. length m < 2 ^ 63 \<and> length m \<le> u \<and> length m \<le> length buf"
  shows "recv_texts u fill' (length ms) c buf = map Inr ms"
  using assms(2-)
proof (induction ms arbitrary: s c buf wire)
  case (Cons m ms)
  obtain s1 where s1: "send_text fill m s = (Inr (), s1)" and rest: "send_texts fill ms s1 = (Inr (), s')"
    using Cons.prems(1) by (auto split: prod.splits sum.splits)
  from s1 have "send_frame fill OP_TEXT m s = (Inr (), s1)" by (auto simp: send_text_def split: if_splits)
  from send_frame_ok [OF this law] obtain mkey where k: "w_out (sd_writer s1) = w_out (sd_writer s) @ frame_bytes OP_TEXT mkey m"
    "mkey = None \<longleftrightarrow> sd_mask s = None" "\<forall>key. mkey = Some key \<longrightarrow> length key = 4" "sd_role s1 = sd_role s"
    "sd_mask s1 = None \<longleftrightarrow> sd_mask s = None" by metis
  have "\<exists>later. w_out (sd_writer s') = w_out (sd_writer s1) @ later" using rest law
  proof (induction ms arbitrary: s1)
    case (Cons x xs)
    then obtain s2 where 2: "send_text fill x s1 = (Inr (), s2)" "send_texts fill xs s2 = (Inr (), s')" by (auto split: prod.splits sum.splits)
    from 2(1) have "send_frame fill OP_TEXT x s1 = (Inr (), s2)" by (auto simp: send_text_def split: if_splits)
    from send_frame_ok [OF this law] have "\<exists>a. w_out (sd_writer s2) = w_out (sd_writer s1) @ a" by metis
    with Cons.IH [OF 2(2) law] show ?case by auto
  qed simp
  then obtain later where later: "w_out (sd_writer s') = w_out (sd_writer s1) @ later" by blast
  with Cons.prems(2) k(1) have wire: "wire = frame_bytes OP_TEXT mkey m @ later" by simp
  have "requires_masked_input (sd_role (cn_sender c)) \<longleftrightarrow> mkey \<noteq> None" using Cons.prems(3,5) k(2) by simp
  moreover have "tokens (cn_reader c) = map Byte (frame_bytes OP_TEXT mkey m) @ map Byte later @ rest"
    using Cons.prems(6) wire by simp
  ultimately obtain c' where c': "recv_text u fill' c buf = (c', put_slice buf 0 m, Ready (Inr (length m)))" "at_boundary c'"
      "cn_sender c' = cn_sender c" "tokens (cn_reader c') = map Byte later @ rest"
    using receive_text_any [OF Cons.prems(4), of mkey m u buf] k(3) Cons.prems(7) by (metis list.set_intros(1))
  have "recv_texts u fill' (length ms) c' (put_slice buf 0 m) = map Inr ms"
    using Cons.prems(3,5,7) k(4,5) c'(2-4) by (intro Cons.IH [OF rest later]) (auto simp: slice_simps)
  then show ?case using c'(1) Cons.prems(7) by (simp add: put_slice_def)
qed simp

section \<open>Properties\<close>

lemma receive_wf:
  "connection_wf c \<Longrightarrow> receive u fill c buf = (c', b', r) \<Longrightarrow> connection_wf c' \<and> length b' = length buf"
proof (induction u fill c buf rule: receive.induct)
  case (1 u fill c buf)
  obtain c1 b1 s where step: "receive_step u fill c buf = (c1, b1, s)" by (metis prod_cases3)
  note wf1 = receive_step_wf [OF "1.prems"(1) step]
  show ?case
  proof (cases s)
    case None
    with wf1 "1.prems"(2) receive_continue(1) [of u fill c buf c1 b1] step show ?thesis
      using "1.IH" [OF step [symmetric] refl None] by simp
  next
    case (Some x)
    with wf1 "1.prems"(2) receive_continue(2) [of u fill c buf c1 b1 x] step show ?thesis by simp
  qed
qed

lemma receive_same_result:
  assumes "connection_wf c" "receive u fill c buf = (c', b', r)" "tokens xs = tokens (cn_reader c)"
  shows "\<exists>c''. receive u fill (c\<lparr>cn_reader := xs\<rparr>) buf = (c'', b', r) \<and> tokens (cn_reader c'') = tokens (cn_reader c') \<and> cn_sender c'' = cn_sender c'"
proof -
  obtain c'' b'' r'' where run: "receive u fill (c\<lparr>cn_reader := xs\<rparr>) buf = (c'', b'', r'')" by (metis prod_cases3)
  have eq: "final (spell (c'', b'', r'')) = final (spell (c', b', r))"
    using receive_same_bytes [OF assms(1,3), of u fill buf] run assms(2) by simp
  have f: "\<exists>p. final (x, b, y) = (x\<lparr>cn_phase := p\<rparr>, b, y)" for x :: "('a, 'b) connection" and b y
    by (cases "(x, b, y)" rule: final.cases) (auto intro: exI [of _ "cn_phase x"])
  obtain p where p: "final (spell (c'', b'', r'')) = (c''\<lparr>cn_reader := bytewise (cn_reader c''), cn_phase := p\<rparr>, b'', r'')"
    using f by fastforce
  obtain q where q: "final (spell (c', b', r)) = (c'\<lparr>cn_reader := bytewise (cn_reader c'), cn_phase := q\<rparr>, b', r)"
    using f by fastforce
  have e: "c''\<lparr>cn_reader := bytewise (cn_reader c''), cn_phase := p\<rparr> = c'\<lparr>cn_reader := bytewise (cn_reader c'), cn_phase := q\<rparr>"
    "b'' = b'" "r'' = r" using eq unfolding p q by simp_all
  have "bytewise (cn_reader c'') = bytewise (cn_reader c')" "cn_sender c'' = cn_sender c'"
    using arg_cong [OF e(1), of cn_reader] arg_cong [OF e(1), of cn_sender] by simp_all
  with run e(2,3) show ?thesis by (simp add: bytewise_tokens)
qed

text \<open>
  C12: receiving is resumable and does not depend on how the transport cuts the stream. A receive that is
  waiting can be dropped: calling again with what arrives later, on the connection and the buffer it
  left, is the same as one receive that sees everything. And arrivals with the same bytes give
  the same outcome, the same buffer, the same answers sent, and leave the same bytes unread.
\<close>

theorem ws_receive_resumable:
  assumes "connection_wf c" "receive u fill c buf = (c', buf', r)"
  shows "connection_wf c' \<and> length buf' = length buf \<and>
    (r = Pending \<longrightarrow> (\<forall>later. receive u fill (c'\<lparr>cn_reader := later\<rparr>) buf' = receive u fill (c\<lparr>cn_reader := cn_reader c @ later\<rparr>) buf)) \<and>
    (\<forall>xs. tokens xs = tokens (cn_reader c) \<longrightarrow>
       (\<exists>c''. receive u fill (c\<lparr>cn_reader := xs\<rparr>) buf = (c'', buf', r) \<and>
          tokens (cn_reader c'') = tokens (cn_reader c') \<and> cn_sender c'' = cn_sender c'))"
  using receive_wf [OF assms] receive_resumes [OF assms(1)] receive_same_result [OF assms] assms(2) by blast

text \<open>
  C11: text messages survive the connection. If one endpoint sends a list of messages without error, client
  or server, then an endpoint of the other role that reads the bytes written, cut into arrivals
  in any way, receives exactly these messages in this order, each complete, provided its buffer
  holds the longest one. The masking generator only has to fill the buffers it is given.
\<close>

theorem ws_messages_survive:
  assumes "\<And>n g. length (fst (fill n g)) = n"
    and "send_texts fill ms s = (Inr (), s')" "w_out (sd_writer s) = []"
    and "sd_mask s = None \<longleftrightarrow> \<not> masks_output (sd_role s)" "requires_masked_input (sd_role r) \<longleftrightarrow> masks_output (sd_role s)"
    and "tokens arrivals = map Byte (w_out (sd_writer s'))"
    and "\<forall>m\<in>set ms. length m < 2 ^ 63 \<and> length m \<le> usize_max \<and> length m \<le> length buf"
  shows "recv_texts usize_max fill' (length ms) (connection_wrap arrivals r) buf = map Inr ms"
  by (rule conversation [OF assms(1,2), of "w_out (sd_writer s')" _ "[]"])
    (use assms in \<open>simp_all add: boundary_wrap\<close>)

text \<open>A client that sends two messages, and their bytes arriving in three pieces.\<close>

definition demo_fill :: "u8 filler" where "demo_fill n g = (replicate n g, g + 1)"

definition demo_writer :: "unit writer" where
  "demo_writer = \<lparr>w_out = [], w_room = 100, w_error = (), w_flush_error = None\<rparr>"

definition demo_client :: "(u8, unit) sender" where
  "demo_client = \<lparr>sd_writer = demo_writer, sd_role = WsClient, sd_mask = Some 5, sd_closed = False\<rparr>"

definition demo_wire :: bytes where
  "demo_wire = [0x81, 0x82, 5, 5, 5, 5, 109, 108, 0x81, 0x80, 6, 6, 6, 6]"

lemma demo_sends: "fst (send_texts demo_fill [[104, 105], []] demo_client) = Inr ()"
  "w_out (sd_writer (snd (send_texts demo_fill [[104, 105], []] demo_client))) = demo_wire"
  by code_simp+

theorem ws_messages_survive_witness:
  "recv_texts 65535 demo_fill 2 (connection_wrap [Arrived [0x81], Arrived [0x82, 5, 5, 5, 5, 109], Arrived [108, 0x81, 0x80, 6, 6, 6, 6]]
      (sender_server demo_writer)) [0, 0, 0] = map Inr [[104, 105], []]"
proof -
  let ?ms = "[[104, 105], []] :: bytes list"
  have "recv_texts 65535 demo_fill (length ?ms) (connection_wrap [Arrived [0x81], Arrived [0x82, 5, 5, 5, 5, 109],
      Arrived [108, 0x81, 0x80, 6, 6, 6, 6]] (sender_server demo_writer)) [0, 0, 0] = map Inr ?ms"
  proof (rule ws_messages_survive)
    show "send_texts demo_fill ?ms demo_client = (Inr (), snd (send_texts demo_fill ?ms demo_client))"
      using demo_sends(1) by (simp add: prod_eq_iff)
    show "tokens [Arrived [0x81], Arrived [0x82, 5, 5, 5, 5, 109], Arrived [108, 0x81, 0x80, 6, 6, 6, 6]] =
        map Byte (w_out (sd_writer (snd (send_texts demo_fill ?ms demo_client))))"
      unfolding demo_sends(2) by (simp add: demo_wire_def)
  qed (simp_all add: demo_fill_def demo_client_def demo_writer_def masks_output_def requires_masked_input_def sender_server_def)
  then show ?thesis by (simp add: numeral_2_eq_2)
qed

theorem ws_receive_resumable_witness:
  "snd (snd (receive 65535 demo_fill (connection_server [Arrived [0x81]] demo_writer) [0, 0, 0])) = Pending \<and>
   receive 65535 demo_fill (fst (receive 65535 demo_fill (connection_server [Arrived [0x81]] demo_writer) [0, 0, 0])\<lparr>cn_reader := [Arrived [0x82]]\<rparr>)
       [0, 0, 0] =
     receive 65535 demo_fill (connection_server [Arrived [0x81], Arrived [0x82]] demo_writer) [0, 0, 0]"
proof -
  define c :: "(u8, unit) connection" where "c = connection_server [Arrived [0x81]] demo_writer"
  have phase: "cn_phase c = Header 0 2" "cn_reader c = [Arrived [0x81]]" by (simp_all add: c_def connection_server_def connection_wrap_def phase_header_def)
  let ?d = "c\<lparr>cn_reader := [], cn_header := put_slice (cn_header c) 0 [0x81], cn_phase := Header 1 2\<rparr>"
  have "receive_step 65535 demo_fill c [0, 0, 0] = (?d, [0, 0, 0], None)" using phase by (simp add: receive_step_def Let_def)
  moreover have "receive_step 65535 demo_fill ?d [0, 0, 0] = (?d, [0, 0, 0], Some Pending)" by (simp add: receive_step_def)
  ultimately have run: "receive 65535 demo_fill c [0, 0, 0] = (?d, [0, 0, 0], Pending)" using receive_continue by metis
  have "connection_wf c" using boundary_wrap unfolding at_boundary_def c_def connection_server_def by blast
  from ws_receive_resumable [OF this run] have
    "receive 65535 demo_fill (?d\<lparr>cn_reader := [Arrived [0x82]]\<rparr>) [0, 0, 0] =
       receive 65535 demo_fill (c\<lparr>cn_reader := cn_reader c @ [Arrived [0x82]]\<rparr>) [0, 0, 0]" by blast
  moreover have "c\<lparr>cn_reader := cn_reader c @ [Arrived [0x82]]\<rparr> = connection_server [Arrived [0x81], Arrived [0x82]] demo_writer"
    by (simp add: c_def connection_server_def connection_wrap_def)
  ultimately show ?thesis using run unfolding c_def [symmetric] by simp
qed

end
