(* ===== verification/Ymodem_Line.thy ===== *)
theory Ymodem_Line
  imports Prelude
begin

text \<open>
  The shared part of the YMODEM crate (\<open>microtun-ymodem/src/lib.rs\<close>) and the line it runs over.
  A \<open>port\<close> is one end of a serial line: the reads that will complete, in order, the bytes written
  so far, and how much can still be written before a write fails. An action runs on a state that contains a
  port; it ends with an error or a result, or it is left waiting for a read (\<open>None\<close>), with
  everything it wrote before. The kind of a transport error and the CRC are parameters: the first
  belongs to the transport, the second to the \<open>crc\<close> package.
\<close>

section \<open>Constants, configuration, metadata\<close>

definition BLOCK_SIZE :: usize where "BLOCK_SIZE = 1024"
definition HEADER_BLOCK_SIZE :: usize where "HEADER_BLOCK_SIZE = 128"

definition SOH :: u8 where "SOH = 0x01"
definition STX :: u8 where "STX = 0x02"
definition EOT :: u8 where "EOT = 0x04"
definition ACK :: u8 where "ACK = 0x06"
definition NAK :: u8 where "NAK = 0x15"
definition CAN :: u8 where "CAN = 0x18"
definition CRC_REQUEST :: u8 where "CRC_REQUEST = 67"
definition PAD :: u8 where "PAD = 0x1a"

lemmas control_defs = SOH_def STX_def EOT_def ACK_def NAK_def CAN_def CRC_REQUEST_def PAD_def

record ym_config =
  start_retries :: u8
  max_retries :: u8

definition ym_config_default :: ym_config where
  "ym_config_default = \<lparr>start_retries = 60, max_retries = 16\<rparr>"

record ym_metadata =
  md_filename :: bytes
  md_file_size :: usize

record ym_transfer =
  tr_file_size :: usize

definition block_size :: "u8 \<Rightarrow> usize option" where
  "block_size control =
     (if control = SOH then Some HEADER_BLOCK_SIZE else if control = STX then Some BLOCK_SIZE else None)"

text \<open>The checksum is that of the package, an argument of what uses it.\<close>

type_synonym checksum = "bytes \<Rightarrow> u16"

section \<open>The line\<close>

datatype 'e read_event = ReadByte u8 | ReadNothing | ReadError 'e

datatype error_kind = Interrupted | TimedOut | OtherKind

record 'e port =
  p_in :: "'e read_event list"
  p_out :: bytes
  p_room :: "nat option"
  p_error :: 'e
  p_flush_error :: "'e option"

text \<open>Actions: \<open>ym_then\<close> is the question-mark operator, \<open>ym_attempt\<close> a match on the result.\<close>

type_synonym ('s, 'x, 'a) action = "'s \<Rightarrow> ('x + 'a) option \<times> 's"

definition ym_ok :: "'a \<Rightarrow> ('s, 'x, 'a) action" where "ym_ok a s = (Some (Inr a), s)"
definition ym_err :: "'x \<Rightarrow> ('s, 'x, 'a) action" where "ym_err x s = (Some (Inl x), s)"

definition ym_then :: "('s, 'x, 'a) action \<Rightarrow> ('a \<Rightarrow> ('s, 'x, 'b) action) \<Rightarrow> ('s, 'x, 'b) action" where
  "ym_then m k s =
     (case m s of
        (None, s') \<Rightarrow> (None, s')
      | (Some (Inl x), s') \<Rightarrow> (Some (Inl x), s')
      | (Some (Inr a), s') \<Rightarrow> k a s')"

definition ym_attempt :: "('s, 'x, 'a) action \<Rightarrow> ('s, 'y, 'x + 'a) action" where
  "ym_attempt m s = (case m s of (None, s') \<Rightarrow> (None, s') | (Some r, s') \<Rightarrow> (Some (Inr r), s'))"

definition ym_map_err :: "('x \<Rightarrow> 'y) \<Rightarrow> ('s, 'x, 'a) action \<Rightarrow> ('s, 'y, 'a) action" where
  "ym_map_err f m = ym_then (ym_attempt m) (\<lambda>r. case r of Inl x \<Rightarrow> ym_err (f x) | Inr a \<Rightarrow> ym_ok a)"

lemma ym_then_cong [fundef_cong]:
  assumes "m s = m' s'" "s = s'" "\<And>a t. m' s' = (Some (Inr a), t) \<Longrightarrow> k a t = k' a t"
  shows "ym_then m k s = ym_then m' k' s'"
  using assms by (auto simp: ym_then_def split: prod.splits option.splits sum.splits)

lemma ym_simps [simp]:
  "ym_then (ym_ok a) k s = k a s" "ym_then (ym_err x) k s = (Some (Inl x), s)"
  "ym_attempt (ym_ok a) s = (Some (Inr (Inr a)), s)" "ym_attempt (ym_err x) s = (Some (Inr (Inl x)), s)"
  by (simp_all add: ym_then_def ym_attempt_def ym_ok_def ym_err_def)

section \<open>Reading and writing\<close>

datatype 'e read_byte_error = RbIo 'e | RbTimeout | RbEof

fun next_event :: "('e \<Rightarrow> error_kind) \<Rightarrow> 'e read_event list \<Rightarrow> ('e read_byte_error + u8) option \<times> 'e read_event list" where
  "next_event kind [] = (None, [])"
| "next_event kind (ReadNothing # xs) = (Some (Inl RbEof), xs)"
| "next_event kind (ReadByte b # xs) = (Some (Inr b), xs)"
| "next_event kind (ReadError e # xs) =
     (if kind e = Interrupted then next_event kind xs
      else if kind e = TimedOut then (Some (Inl RbTimeout), xs)
      else (Some (Inl (RbIo e)), xs))"

definition read_byte :: "('e \<Rightarrow> error_kind) \<Rightarrow> (('e, 'z) port_scheme, 'e read_byte_error, u8) action" where
  "read_byte kind s = (let (r, xs) = next_event kind (p_in s) in (r, s\<lparr>p_in := xs\<rparr>))"

text \<open>
  \<open>write_all\<close> of the transport: what still fits is written, and if that is not everything the
  error of the transport is returned.
\<close>

definition port_write :: "bytes \<Rightarrow> (('e, 'z) port_scheme, 'e, unit) action" where
  "port_write bs s =
     (case p_room s of
        None \<Rightarrow> (Some (Inr ()), s\<lparr>p_out := p_out s @ bs\<rparr>)
      | Some n \<Rightarrow>
          (if length bs \<le> n then Some (Inr ()) else Some (Inl (p_error s)),
           s\<lparr>p_out := p_out s @ take n bs, p_room := Some (n - length bs)\<rparr>))"

definition port_flush :: "(('e, 'z) port_scheme, 'e, unit) action" where
  "port_flush s = (case p_flush_error s of None \<Rightarrow> Some (Inr ()) | Some e \<Rightarrow> Some (Inl e), s)"

text \<open>Reading only ever consumes events; a byte read or an error consumes at least one.\<close>

lemma next_event_length:
  "next_event kind xs = (r, ys) \<Longrightarrow> length ys \<le> length xs \<and> (r \<noteq> None \<longrightarrow> length ys < length xs)"
proof (induction kind xs rule: next_event.induct)
  case (4 kind e xs)
  then show ?case by (auto split: if_splits)
qed auto

lemma read_byte_length:
  "read_byte kind s = (r, s') \<Longrightarrow> length (p_in s') \<le> length (p_in s) \<and> (r \<noteq> None \<longrightarrow> length (p_in s') < length (p_in s))"
  unfolding read_byte_def by (auto dest: next_event_length split: prod.splits)

lemma port_write_in [simp]: "p_in (snd (port_write bs s)) = p_in s"
  by (simp add: port_write_def split: option.splits)

lemma port_flush_state [simp]: "snd (port_flush s) = s"
  by (simp add: port_flush_def)

end
