(* ===== verification/Ymodem_Receive.thy ===== *)
theory Ymodem_Receive
  imports Ymodem_Line
begin

text \<open>
  The YMODEM receiver (\<open>microtun-ymodem/src/receive.rs\<close>): the buffer sink, the block checks, the
  header parser, and the three loops of \<open>receive_with\<close>. The output is a parameter, a pair of
  operations on a state of its own, and so is the metadata callback. Every pass of a loop
  that continues has read a byte, so the loops end on every finite sequence of reads.
\<close>

section \<open>The buffer sink\<close>

datatype buffer_sink_error = Overflow

record buffer_sink =
  bs_output :: bytes
  bs_written :: usize

definition buffer_sink_new :: "bytes \<Rightarrow> buffer_sink" where
  "buffer_sink_new buf = \<lparr>bs_output = buf, bs_written = 0\<rparr>"

definition remaining :: "buffer_sink \<Rightarrow> usize" where
  "remaining b = length (bs_output b) - bs_written b"

definition sink_write :: "bytes \<Rightarrow> buffer_sink \<Rightarrow> (buffer_sink_error + usize) \<times> buffer_sink" where
  "sink_write bs b =
     (if bs = [] then (Inr 0, b)
      else let count = min (length bs) (remaining b)
           in if count = 0 then (Inl Overflow, b)
              else (Inr count, \<lparr>bs_output = put_slice (bs_output b) (bs_written b) (take count bs), bs_written = bs_written b + count\<rparr>))"

definition sink_flush :: "buffer_sink \<Rightarrow> (buffer_sink_error + unit) \<times> buffer_sink" where
  "sink_flush b = (Inr (), b)"

text \<open>\<open>write_all\<close>, the provided method of the write trait: it writes until nothing is left.\<close>

lemma sink_write_progress: "sink_write bs b = (Inr n, b') \<Longrightarrow> bs \<noteq> [] \<Longrightarrow> 0 < n \<and> n \<le> length bs"
  by (auto simp: sink_write_def Let_def split: if_splits)

function sink_write_all :: "bytes \<Rightarrow> buffer_sink \<Rightarrow> (buffer_sink_error + unit) \<times> buffer_sink" where
  "sink_write_all bs b =
     (if bs = [] then (Inr (), b)
      else case sink_write bs b of
             (Inl e, b') \<Rightarrow> (Inl e, b')
           | (Inr n, b') \<Rightarrow> sink_write_all (drop n bs) b')"
  by pat_completeness auto
termination
proof (relation "measure (length \<circ> fst)", goal_cases)
  case (2 bs b x b' n)
  then have "sink_write bs b = (Inr n, b')" by simp
  from sink_write_progress [OF this 2(1)] show ?case by auto
qed simp

declare sink_write_all.simps [simp del]

section \<open>Blocks and metadata\<close>

datatype ('i, 'w, 'm) ym_error =
    YmIo 'i
  | YmTimeout
  | YmEndOfStream
  | YmCancelled
  | YmProtocol
  | YmOutput 'w
  | YmMetadata 'm

definition ym_cancel :: "(('e, 'z) port_scheme, 'e, unit) action" where
  "ym_cancel = ym_then (port_write [CAN, CAN]) (\<lambda>_. port_flush)"

text \<open>The bytes of a block, stored one by one from position \<open>i\<close> of the frame buffer.\<close>

primrec read_bytes :: "('e \<Rightarrow> error_kind) \<Rightarrow> nat \<Rightarrow> nat \<Rightarrow> bytes \<Rightarrow> (('e, 'z) port_scheme, 'e read_byte_error, bytes) action" where
  "read_bytes kind 0 i frame = ym_ok frame"
| "read_bytes kind (Suc n) i frame = ym_then (read_byte kind) (\<lambda>b. read_bytes kind n (Suc i) (frame[i := b]))"

definition read_block :: "('e \<Rightarrow> error_kind) \<Rightarrow> usize \<Rightarrow> bytes \<Rightarrow> (('e, 'z) port_scheme, 'e read_byte_error, bytes) action" where
  "read_block kind sz frame = read_bytes kind (sz + 4) 0 frame"

definition valid_frame :: "checksum \<Rightarrow> bytes \<Rightarrow> usize \<Rightarrow> bool" where
  "valid_frame crc frame sz =
     (let block = frame ! 0;
          inverse = frame ! 1;
          data = slice frame 2 (2 + sz);
          received_crc = from_be_bytes [frame ! (2 + sz), frame ! (3 + sz)]
      in inverse = NOT block \<and> received_crc = crc data)"

definition is_ascii_digit :: "u8 \<Rightarrow> bool" where "is_ascii_digit b \<longleftrightarrow> 48 \<le> b \<and> b \<le> 57"

fun decimal_value :: "usize \<Rightarrow> bytes \<Rightarrow> usize \<Rightarrow> usize option" where
  "decimal_value usize_max [] value = Some value"
| "decimal_value usize_max (b # bs) value =
     (if \<not> is_ascii_digit b then None
      else if value * 10 > usize_max then None
      else if value * 10 + unat (b - 48) > usize_max then None
      else decimal_value usize_max bs (value * 10 + unat (b - 48)))"

definition decimal_usize :: "usize \<Rightarrow> bytes \<Rightarrow> usize option" where
  "decimal_usize usize_max bs = (if bs = [] then None else decimal_value usize_max bs 0)"

definition parse_metadata :: "usize \<Rightarrow> bytes \<Rightarrow> ym_metadata option" where
  "parse_metadata usize_max data =
     (case position (\<lambda>b. b = 0) data of
        None \<Rightarrow> None
      | Some name_end \<Rightarrow>
          if name_end = 0 then None
          else let filename = take name_end data;
                   rest = drop (name_end + 1) data;
                   field_end = (case position (\<lambda>b. b = 0 \<or> b = 32) rest of Some i \<Rightarrow> i | None \<Rightarrow> length rest)
               in map_option (\<lambda>n. \<lparr>md_filename = filename, md_file_size = n\<rparr>) (decimal_usize usize_max (take field_end rest)))"

definition is_empty_header :: "bytes \<Rightarrow> bool" where
  "is_empty_header data \<longleftrightarrow> get_at data 0 = Some 0"

section \<open>Control bytes\<close>

text \<open>What the receiver makes of a failed read.\<close>

fun read_failure :: "'e read_byte_error \<Rightarrow> ('e, 'w, 'm) ym_error" where
  "read_failure RbTimeout = YmTimeout"
| "read_failure RbEof = YmEndOfStream"
| "read_failure (RbIo e) = YmIo e"

text \<open>\<open>write_all\<close> of the given bytes and \<open>flush\<close>.\<close>

definition rx_write :: "bytes \<Rightarrow> (('e, 'z) port_scheme, ('e, 'w, 'm) ym_error, unit) action" where
  "rx_write bs = ym_then (ym_map_err YmIo (port_write bs)) (\<lambda>_. ym_map_err YmIo port_flush)"

fun request_crc :: "('e \<Rightarrow> error_kind) \<Rightarrow> nat \<Rightarrow> (('e, 'z) port_scheme, ('e, 'w, 'm) ym_error, u8) action" where
  "request_crc kind 0 = ym_err YmTimeout"
| "request_crc kind (Suc n) =
     ym_then (rx_write [CRC_REQUEST]) (\<lambda>_.
     ym_then (ym_attempt (read_byte kind)) (\<lambda>r.
       case r of
         Inr b \<Rightarrow> ym_ok b
       | Inl RbTimeout \<Rightarrow> request_crc kind n
       | Inl RbEof \<Rightarrow> ym_err YmEndOfStream
       | Inl (RbIo e) \<Rightarrow> ym_err (YmIo e)))"

definition first_control :: "('e \<Rightarrow> error_kind) \<Rightarrow> ym_config \<Rightarrow> (('e, 'z) port_scheme, ('e, 'w, 'm) ym_error, u8) action" where
  "first_control kind cfg = request_crc kind (unat (start_retries cfg))"

definition next_byte :: "('e \<Rightarrow> error_kind) \<Rightarrow> (('e, 'z) port_scheme, ('e, 'w, 'm) ym_error, u8) action" where
  "next_byte kind = ym_map_err read_failure (read_byte kind)"

text \<open>Giving up: the sender is told, then the error is returned.\<close>

definition cancel_with :: "('e, 'w, 'm) ym_error \<Rightarrow> (('e, 'z) port_scheme, ('e, 'w, 'm) ym_error, 'a) action" where
  "cancel_with x = ym_then (ym_map_err YmIo ym_cancel) (\<lambda>_. ym_err x)"

text \<open>Refusing a byte or a block: one more retry, counted, and a \<open>NAK\<close>.\<close>

definition refuse :: "ym_config \<Rightarrow> u8 \<Rightarrow> (('e, 'z) port_scheme, ('e, 'w, 'm) ym_error, u8) action" where
  "refuse cfg retries =
     (let retries = sat_add retries 1
      in if retries > max_retries cfg then cancel_with YmProtocol
         else ym_then (rx_write [NAK]) (\<lambda>_. ym_ok retries))"

text \<open>Acknowledging and asking for the next part: two writes and one flush.\<close>

definition ack_and_request :: "(('e, 'z) port_scheme, ('e, 'w, 'm) ym_error, unit) action" where
  "ack_and_request = ym_then (ym_map_err YmIo (port_write [ACK])) (\<lambda>_. rx_write [CRC_REQUEST])"

section \<open>The receiver\<close>

text \<open>What a call of \<open>receive_with\<close> is given, apart from the transport and the output.\<close>

record ('e, 'o, 'w, 'm) rx_env =
  rx_kind :: "'e \<Rightarrow> error_kind"
  rx_crc :: checksum
  rx_usize_max :: usize
  rx_config :: ym_config
  rx_on_metadata :: "ym_metadata \<Rightarrow> 'm + unit"
  rx_write_all :: "bytes \<Rightarrow> 'o \<Rightarrow> ('w + unit) \<times> 'o"
  rx_flush :: "'o \<Rightarrow> ('w + unit) \<times> 'o"

record ('e, 'o) rx_state = "'e port" +
  rx_out :: 'o

definition on_output :: "('o \<Rightarrow> ('w + unit) \<times> 'o) \<Rightarrow> (('e, 'o, 'z) rx_state_scheme, 'w, unit) action" where
  "on_output f s = (let (r, o') = f (rx_out s) in (Some r, s\<lparr>rx_out := o'\<rparr>))"

text \<open>An output operation whose failure cancels the transfer.\<close>

definition output_or_cancel :: "('o \<Rightarrow> ('w + unit) \<times> 'o) \<Rightarrow> (('e, 'o, 'z) rx_state_scheme, ('e, 'w, 'm) ym_error, unit) action" where
  "output_or_cancel f =
     ym_then (ym_attempt (on_output f)) (\<lambda>r. case r of Inl w \<Rightarrow> cancel_with (YmOutput w) | Inr _ \<Rightarrow> ym_ok ())"

text \<open>Consumption of reads by the actions the loops are made of.\<close>

definition consumes :: "(('e, 'z) port_scheme, 'x, 'a) action \<Rightarrow> bool" where
  "consumes m \<longleftrightarrow> (\<forall>s. length (p_in (snd (m s))) \<le> length (p_in s))"

lemma consumesD: "consumes m \<Longrightarrow> m s = (r, s') \<Longrightarrow> length (p_in s') \<le> length (p_in s)"
  by (metis consumes_def snd_conv)

lemma consumes_basic [intro, simp]:
  "consumes (ym_ok a)" "consumes (ym_err x)" "consumes (read_byte kind)" "consumes (port_write bs)" "consumes port_flush"
  by (simp_all add: consumes_def ym_ok_def ym_err_def) (metis prod.collapse read_byte_length)

lemma consumes_then [intro]:
  assumes "consumes m" "\<And>a. consumes (k a)"
  shows "consumes (ym_then m k)"
  unfolding consumes_def
proof
  fix s
  have "length (p_in (snd (m s))) \<le> length (p_in s)" using assms(1) by (simp add: consumes_def)
  moreover have "length (p_in (snd (k a t))) \<le> length (p_in t)" for a t using assms(2) by (simp add: consumes_def)
  ultimately show "length (p_in (snd (ym_then m k s))) \<le> length (p_in s)"
    by (auto simp: ym_then_def split: prod.splits option.splits sum.splits) (meson le_trans)
qed

lemma consumes_attempt [intro]: "consumes m \<Longrightarrow> consumes (ym_attempt m)"
  by (auto simp: consumes_def ym_attempt_def split: prod.splits option.splits) (metis snd_conv)+

lemma consumes_map_err [intro]: "consumes m \<Longrightarrow> consumes (ym_map_err f m)"
  unfolding ym_map_err_def by (rule consumes_then) (auto split: sum.splits)

lemma consumes_read_bytes: "consumes (read_bytes kind n i frame)"
  by (induction n arbitrary: i frame) auto

lemma consumes_output: "consumes (on_output f)"
  by (auto simp: consumes_def on_output_def split: prod.splits)

lemma consumes_line:
  "consumes (rx_write bs)" "consumes (cancel_with x)" "consumes (refuse cfg retries)" "consumes ack_and_request"
  "consumes (read_block kind sz frame)" "consumes (output_or_cancel f)" "consumes (next_byte kind)"
  unfolding rx_write_def cancel_with_def refuse_def ack_and_request_def ym_cancel_def read_block_def output_or_cancel_def next_byte_def Let_def
  by (auto intro!: consumes_then consumes_map_err consumes_attempt consumes_read_bytes consumes_output split: sum.splits)

lemma next_byte_less:
  assumes "next_byte kind s = (Some r, s')"
  shows "length (p_in s') < length (p_in s)"
  using assms read_byte_length [of kind s]
  by (auto simp: next_byte_def ym_map_err_def ym_then_def ym_attempt_def ym_ok_def ym_err_def split: prod.splits option.splits sum.splits)

text \<open>The first loop: block 0 with the metadata. It returns the file size, and the frame buffer for the next loop.\<close>

function receive_metadata ::
  "('e, 'o, 'w, 'm) rx_env \<Rightarrow> u8 \<Rightarrow> bytes \<Rightarrow> u8 \<Rightarrow> (('e, 'o) rx_state, ('e, 'w, 'm) ym_error, usize \<times> bytes) action" where
  "receive_metadata env retries frame control s =
     (if control = CAN then ym_err YmCancelled s
      else case block_size control of
        None \<Rightarrow>
          ym_then (refuse (rx_config env) retries) (\<lambda>retries.
          ym_then (next_byte (rx_kind env)) (\<lambda>control. receive_metadata env retries frame control)) s
      | Some sz \<Rightarrow>
          ym_then (ym_map_err read_failure (read_block (rx_kind env) sz frame)) (\<lambda>frame s.
            if \<not> valid_frame (rx_crc env) frame sz \<or> frame ! 0 \<noteq> 0
            then ym_then (refuse (rx_config env) retries) (\<lambda>retries.
                 ym_then (next_byte (rx_kind env)) (\<lambda>control. receive_metadata env retries frame control)) s
            else case parse_metadata (rx_usize_max env) (slice frame 2 (2 + sz)) of
                   None \<Rightarrow> cancel_with YmProtocol s
                 | Some metadata \<Rightarrow>
                     (case rx_on_metadata env metadata of
                        Inl e \<Rightarrow> cancel_with (YmMetadata e) s
                      | Inr _ \<Rightarrow> ym_then ack_and_request (\<lambda>_. ym_ok (md_file_size metadata, frame)) s)) s)"
  by pat_completeness auto
termination
  by (relation "measure (\<lambda>(env, retries, frame, control, s). length (p_in s))")
    (auto dest!: next_byte_less consumesD [OF consumes_line(3)] consumesD [OF consumes_map_err [OF consumes_line(5)]])

declare receive_metadata.simps [simp del]

text \<open>
  The second loop: data blocks. A block is written only when its checksum is right and its number is
  the expected one; the block before it is acknowledged again. The result is the new retry count,
  the next block number and the number of bytes written.
\<close>

definition accept_block ::
  "('e, 'o, 'w, 'm) rx_env \<Rightarrow> usize \<Rightarrow> bytes \<Rightarrow> usize \<Rightarrow> u8 \<Rightarrow> u8 \<Rightarrow> usize \<Rightarrow>
     (('e, 'o) rx_state, ('e, 'w, 'm) ym_error, u8 \<times> u8 \<times> usize) action" where
  "accept_block env file_size frame sz retries expected written =
     (let block = frame ! 0
      in if \<not> valid_frame (rx_crc env) frame sz
         then ym_then (refuse (rx_config env) retries) (\<lambda>retries. ym_ok (retries, expected, written))
         else if block = expected
         then (if written \<ge> file_size then cancel_with YmProtocol
               else let remaining = file_size - written; count = min remaining sz
                    in ym_then (output_or_cancel (rx_write_all env (slice frame 2 (2 + count)))) (\<lambda>_.
                       ym_then (rx_write [ACK]) (\<lambda>_. ym_ok (0, expected + 1, written + count))))
         else if block = expected - 1
         then ym_then (rx_write [ACK]) (\<lambda>_. ym_ok (retries, expected, written))
         else ym_then (refuse (rx_config env) retries) (\<lambda>retries. ym_ok (retries, expected, written)))"

text \<open>The end of the file: \<open>EOT\<close>, \<open>NAK\<close>, \<open>EOT\<close>, \<open>ACK\<close>.\<close>

definition finish_file ::
  "('e, 'o, 'w, 'm) rx_env \<Rightarrow> usize \<Rightarrow> usize \<Rightarrow> (('e, 'o) rx_state, ('e, 'w, 'm) ym_error, unit) action" where
  "finish_file env file_size written =
     (if written \<noteq> file_size then cancel_with YmProtocol
      else ym_then (output_or_cancel (rx_flush env)) (\<lambda>_.
           ym_then (rx_write [NAK]) (\<lambda>_.
           ym_then (next_byte (rx_kind env)) (\<lambda>second.
             if second \<noteq> EOT then cancel_with YmProtocol else ack_and_request))))"

lemma consumes_blocks: "consumes (accept_block env n frame sz r e w)" "consumes (finish_file env n w)"
  unfolding accept_block_def finish_file_def Let_def by (auto intro!: consumes_then consumes_line)

function receive_data ::
  "('e, 'o, 'w, 'm) rx_env \<Rightarrow> usize \<Rightarrow> u8 \<Rightarrow> u8 \<Rightarrow> usize \<Rightarrow> bytes \<Rightarrow> u8 \<Rightarrow>
     (('e, 'o) rx_state, ('e, 'w, 'm) ym_error, bytes) action" where
  "receive_data env file_size retries expected written frame control s =
     (if control = CAN then ym_err YmCancelled s
      else if control = EOT then ym_then (finish_file env file_size written) (\<lambda>_. ym_ok frame) s
      else case block_size control of
        None \<Rightarrow>
          ym_then (refuse (rx_config env) retries) (\<lambda>retries.
          ym_then (next_byte (rx_kind env)) (\<lambda>control. receive_data env file_size retries expected written frame control)) s
      | Some sz \<Rightarrow>
          ym_then (ym_map_err read_failure (read_block (rx_kind env) sz frame)) (\<lambda>frame.
          ym_then (accept_block env file_size frame sz retries expected written) (\<lambda>r s.
            case r of (retries, expected, written) \<Rightarrow>
              ym_then (next_byte (rx_kind env)) (\<lambda>control. receive_data env file_size retries expected written frame control) s)) s)"
  by pat_completeness auto
termination
  by (relation "measure (\<lambda>(env, file_size, retries, expected, written, frame, control, s). length (p_in s))")
    (auto dest!: next_byte_less consumesD [OF consumes_line(3)] consumesD [OF consumes_blocks(1)] consumesD [OF consumes_map_err [OF consumes_line(5)]])

declare receive_data.simps [simp del]

text \<open>The third loop: the empty block 0 that ends the batch.\<close>

function receive_end ::
  "('e, 'o, 'w, 'm) rx_env \<Rightarrow> u8 \<Rightarrow> bytes \<Rightarrow> u8 \<Rightarrow> (('e, 'o) rx_state, ('e, 'w, 'm) ym_error, unit) action" where
  "receive_end env retries frame control s =
     (if control = CAN then ym_err YmCancelled s
      else case block_size control of
        None \<Rightarrow>
          ym_then (refuse (rx_config env) retries) (\<lambda>retries.
          ym_then (next_byte (rx_kind env)) (\<lambda>control. receive_end env retries frame control)) s
      | Some sz \<Rightarrow>
          ym_then (ym_map_err read_failure (read_block (rx_kind env) sz frame)) (\<lambda>frame s.
            if valid_frame (rx_crc env) frame sz \<and> frame ! 0 = 0 \<and> is_empty_header (slice frame 2 (2 + sz))
            then rx_write [ACK] s
            else ym_then (refuse (rx_config env) retries) (\<lambda>retries.
                 ym_then (next_byte (rx_kind env)) (\<lambda>control. receive_end env retries frame control)) s) s)"
  by pat_completeness auto
termination
  by (relation "measure (\<lambda>(env, retries, frame, control, s). length (p_in s))")
    (auto dest!: next_byte_less consumesD [OF consumes_line(3)] consumesD [OF consumes_map_err [OF consumes_line(5)]])

declare receive_end.simps [simp del]

definition receive_with :: "('e, 'o, 'w, 'm) rx_env \<Rightarrow> (('e, 'o) rx_state, ('e, 'w, 'm) ym_error, ym_transfer) action" where
  "receive_with env =
     (let frame = replicate (BLOCK_SIZE + 4) 0
      in ym_then (first_control (rx_kind env) (rx_config env)) (\<lambda>control.
         ym_then (receive_metadata env 0 frame control) (\<lambda>(metadata, frame).
         ym_then (next_byte (rx_kind env)) (\<lambda>control.
         ym_then (receive_data env metadata 0 1 0 frame control) (\<lambda>frame.
         ym_then (next_byte (rx_kind env)) (\<lambda>control.
         ym_then (receive_end env 0 frame control) (\<lambda>_. ym_ok \<lparr>tr_file_size = metadata\<rparr>)))))))"

text \<open>\<open>receive\<close> accepts every metadata block.\<close>

definition ym_receive :: "('e, 'o, 'w, 'm) rx_env \<Rightarrow> (('e, 'o) rx_state, ('e, 'w, 'm) ym_error, ym_transfer) action" where
  "ym_receive env = receive_with (env\<lparr>rx_on_metadata := \<lambda>_. Inr ()\<rparr>)"

end
