(* ===== verification/Ymodem_Send.thy ===== *)
theory Ymodem_Send
  imports Ymodem_Receive
begin

text \<open>
  The YMODEM sender (\<open>microtun-ymodem/src/send.rs\<close>): the metadata block, the packets with their
  retransmissions, and \<open>send_with\<close>. The source of the file and the observer of the events are
  parameters with a state of their own; a source may report a wrong count, which the code checks.
\<close>

datatype send_event = SentOutput u8 | Progress usize usize

datatype ('i, 's, 'o) send_error =
    SdIo 'i
  | SdTimeout
  | SdEndOfStream
  | SdCancelled
  | SdProtocol
  | SdInvalidFilename
  | SdHeaderTooLong
  | SdUnexpectedEof
  | SdInvalidSourceRead
  | SdSource 's
  | SdObserver 'o

section \<open>The metadata block\<close>

text \<open>
  The digits of a number, the last one first into a scratch array of 20 bytes; a \<open>usize\<close> has no
  more than 20 digits, so the cursor does not run out (\<open>length_decimal_bytes\<close>).
\<close>

fun decimal_bytes :: "usize \<Rightarrow> bytes" where
  "decimal_bytes v =
     (let digit = 48 + of_nat (v mod 10); rest = v div 10
      in if rest = 0 then [digit] else decimal_bytes rest @ [digit])"

declare decimal_bytes.simps [simp del]

definition metadata_block :: "ym_metadata \<Rightarrow> (unit, unit, unit) send_error + bytes" where
  "metadata_block metadata =
     (if md_filename metadata = [] \<or> 0 \<in> set (md_filename metadata) then Inl SdInvalidFilename
      else let digits = decimal_bytes (md_file_size metadata);
               needed = length (md_filename metadata) + 1 + length digits + 1
           in if needed > HEADER_BLOCK_SIZE then Inl SdHeaderTooLong
              else let block = put_slice (replicate HEADER_BLOCK_SIZE 0) 0 (md_filename metadata);
                       size_start = length (md_filename metadata) + 1
                   in Inr (put_slice block size_start digits))"

section \<open>The sender\<close>

record ('e, 's, 'n, 'se, 'o) tx_env =
  tx_kind :: "'e \<Rightarrow> error_kind"
  tx_crc :: checksum
  tx_config :: ym_config
  tx_read :: "bytes \<Rightarrow> 's \<Rightarrow> ('se + usize) \<times> bytes \<times> 's"
  tx_notify :: "send_event \<Rightarrow> 'n \<Rightarrow> ('o + unit) \<times> 'n"

record ('e, 's, 'n) tx_state = "'e port" +
  tx_source :: 's
  tx_observer :: 'n

definition notify :: "('e, 's, 'n, 'se, 'o) tx_env \<Rightarrow> send_event \<Rightarrow> (('e, 's, 'n) tx_state, ('e, 'se, 'o) send_error, unit) action" where
  "notify env ev s =
     (let (r, n) = tx_notify env ev (tx_observer s)
      in (Some (case r of Inl x \<Rightarrow> Inl (SdObserver x) | Inr _ \<Rightarrow> Inr ()), s\<lparr>tx_observer := n\<rparr>))"

text \<open>One read of the source into a part of the block.\<close>

definition read_source :: "('e, 's, 'n, 'se, 'o) tx_env \<Rightarrow> bytes \<Rightarrow> (('e, 's, 'n) tx_state, ('e, 'se, 'o) send_error, usize \<times> bytes) action" where
  "read_source env buf s =
     (let (r, buf, src) = tx_read env buf (tx_source s)
      in (Some (case r of Inl x \<Rightarrow> Inl (SdSource x) | Inr count \<Rightarrow> Inr (count, buf)), s\<lparr>tx_source := src\<rparr>))"

definition tx_write :: "bytes \<Rightarrow> (('e, 'z) port_scheme, ('e, 'se, 'o) send_error, unit) action" where
  "tx_write bs = ym_map_err SdIo (port_write bs)"

definition tx_flush :: "(('e, 'z) port_scheme, ('e, 'se, 'o) send_error, unit) action" where
  "tx_flush = ym_map_err SdIo port_flush"

lemma read_attempt_less:
  "ym_attempt (read_byte kind) s = (Some r, s') \<Longrightarrow> length (p_in s') < length (p_in s)"
  using read_byte_length [of kind s] by (auto simp: ym_attempt_def split: prod.splits option.splits)

lemma notify_in [simp]: "p_in (snd (notify env ev s)) = p_in s"
  by (simp add: notify_def split: prod.splits)

lemma notify_inD: "notify env ev s = (r, s') \<Longrightarrow> p_in s' = p_in s"
  by (metis notify_in snd_conv)

function wait_loop :: "('e, 's, 'n, 'se, 'o) tx_env \<Rightarrow> u8 \<Rightarrow> (('e, 's, 'n) tx_state, ('e, 'se, 'o) send_error, unit) action" where
  "wait_loop env timeouts s =
     ym_then (ym_attempt (read_byte (tx_kind env))) (\<lambda>r s.
       case r of
         Inr b \<Rightarrow>
           if b = CRC_REQUEST then ym_ok () s
           else if b = CAN then ym_err SdCancelled s
           else ym_then (notify env (SentOutput b)) (\<lambda>_. wait_loop env timeouts) s
       | Inl (RbIo e) \<Rightarrow> ym_err (SdIo e) s
       | Inl RbEof \<Rightarrow> ym_err SdEndOfStream s
       | Inl RbTimeout \<Rightarrow>
           (let timeouts = sat_add timeouts 1
            in if timeouts \<ge> start_retries (tx_config env) then ym_err SdTimeout s else wait_loop env timeouts s)) s"
  by pat_completeness auto
termination
  by (relation "measure (\<lambda>(env, timeouts, s). length (p_in s))") (auto dest!: read_attempt_less notify_inD)

declare wait_loop.simps [simp del]

definition wait_for_crc_request :: "('e, 's, 'n, 'se, 'o) tx_env \<Rightarrow> (('e, 's, 'n) tx_state, ('e, 'se, 'o) send_error, unit) action" where
  "wait_for_crc_request env =
     (if start_retries (tx_config env) = 0 then ym_err SdTimeout else wait_loop env 0)"

definition write_control :: "u8 \<Rightarrow> (('e, 'z) port_scheme, ('e, 'se, 'o) send_error, unit) action" where
  "write_control b = ym_then (tx_write [b]) (\<lambda>_. tx_flush)"

text \<open>The three writes and the flush of one transmission of a packet.\<close>

definition write_packet :: "bytes \<Rightarrow> bytes \<Rightarrow> bytes \<Rightarrow> (('e, 'z) port_scheme, ('e, 'se, 'o) send_error, unit) action" where
  "write_packet prefix data crc =
     ym_then (tx_write prefix) (\<lambda>_. ym_then (tx_write data) (\<lambda>_. ym_then (tx_write crc) (\<lambda>_. tx_flush)))"

lemma consumes_tx: "consumes (tx_write bs)" "consumes tx_flush" "consumes (write_packet prefix data crc)"
  unfolding tx_write_def tx_flush_def write_packet_def by (auto intro!: consumes_then consumes_map_err)

function packet_loop ::
  "('e \<Rightarrow> error_kind) \<Rightarrow> ym_config \<Rightarrow> bytes \<Rightarrow> bytes \<Rightarrow> bytes \<Rightarrow> u8 \<Rightarrow> (('e, 'z) port_scheme, ('e, 'se, 'o) send_error, unit) action" where
  "packet_loop kind cfg prefix data crc retries s =
     ym_then (write_packet prefix data crc) (\<lambda>_.
     ym_then (ym_attempt (read_byte kind)) (\<lambda>r s.
       case r of
         Inr b \<Rightarrow>
           if b = ACK then ym_ok () s
           else if b = NAK
           then (if retries \<ge> max_retries cfg then ym_err SdProtocol s
                 else packet_loop kind cfg prefix data crc (sat_add retries 1) s)
           else if b = CAN then ym_err SdCancelled s
           else ym_err SdProtocol s
       | Inl (RbIo e) \<Rightarrow> ym_err (SdIo e) s
       | Inl RbEof \<Rightarrow> ym_err SdEndOfStream s
       | Inl RbTimeout \<Rightarrow>
           (if retries \<ge> max_retries cfg then ym_err SdTimeout s
            else packet_loop kind cfg prefix data crc (sat_add retries 1) s))) s"
  by pat_completeness auto
termination
  by (relation "measure (\<lambda>(kind, cfg, prefix, data, crc, retries, s). length (p_in s))")
    (auto dest!: read_attempt_less consumesD [OF consumes_tx(3)])

declare packet_loop.simps [simp del]

definition send_packet :: "('e, 's, 'n, 'se, 'o) tx_env \<Rightarrow> u8 \<Rightarrow> u8 \<Rightarrow> bytes \<Rightarrow> (('e, 's, 'n) tx_state, ('e, 'se, 'o) send_error, unit) action" where
  "send_packet env control block_number data =
     (let prefix = [control, block_number, NOT block_number];
          crc = to_be_bytes (tx_crc env data)
      in packet_loop (tx_kind env) (tx_config env) prefix data crc 0)"

definition expect_control :: "('e, 's, 'n, 'se, 'o) tx_env \<Rightarrow> u8 \<Rightarrow> (('e, 's, 'n) tx_state, ('e, 'se, 'o) send_error, unit) action" where
  "expect_control env expected =
     ym_then (ym_attempt (read_byte (tx_kind env))) (\<lambda>r.
       case r of
         Inr b \<Rightarrow> if b = expected then ym_ok () else if b = CAN then ym_err SdCancelled else ym_err SdProtocol
       | Inl RbTimeout \<Rightarrow> ym_err SdTimeout
       | Inl RbEof \<Rightarrow> ym_err SdEndOfStream
       | Inl (RbIo e) \<Rightarrow> ym_err (SdIo e))"

text \<open>The inner loop that fills a block from the source; each pass that continues gets at least one byte.\<close>

function fill_block :: "('e, 's, 'n, 'se, 'o) tx_env \<Rightarrow> usize \<Rightarrow> usize \<Rightarrow> bytes \<Rightarrow> (('e, 's, 'n) tx_state, ('e, 'se, 'o) send_error, bytes) action" where
  "fill_block env wanted used data s =
     (if used < wanted
      then ym_then (read_source env (slice data used wanted)) (\<lambda>r s.
             case r of (count, buf) \<Rightarrow>
               if count = 0 then ym_err SdUnexpectedEof s
               else if count > wanted - used then ym_err SdInvalidSourceRead s
               else fill_block env wanted (used + count) (put_slice data used buf) s) s
      else ym_ok data s)"
  by pat_completeness auto
termination by (relation "measure (\<lambda>(env, wanted, used, data, s). wanted - used)") auto

declare fill_block.simps [simp del]

text \<open>The data blocks; \<open>used = wanted\<close> when a block is full, so \<open>sent\<close> grows.\<close>

function send_data :: "('e, 's, 'n, 'se, 'o) tx_env \<Rightarrow> usize \<Rightarrow> usize \<Rightarrow> u8 \<Rightarrow> (('e, 's, 'n) tx_state, ('e, 'se, 'o) send_error, unit) action" where
  "send_data env file_size sent block_number s =
     (if sent < file_size
      then let wanted = min (file_size - sent) BLOCK_SIZE
           in ym_then (fill_block env wanted 0 (replicate BLOCK_SIZE PAD)) (\<lambda>data.
              ym_then (send_packet env STX block_number data) (\<lambda>_.
              ym_then (notify env (Progress (sent + wanted) file_size)) (\<lambda>_.
                send_data env file_size (sent + wanted) (block_number + 1)))) s
      else ym_ok () s)"
  by pat_completeness auto
termination
  by (relation "measure (\<lambda>(env, file_size, sent, block_number, s). file_size - sent)") (auto simp: BLOCK_SIZE_def)

declare send_data.simps [simp del]

text \<open>The metadata block fails in two ways only; every other error is unreachable.\<close>

lemma metadata_block_errors: "metadata_block m = Inl e \<Longrightarrow> e = SdInvalidFilename \<or> e = SdHeaderTooLong"
  by (auto simp: metadata_block_def Let_def split: if_splits)

definition send_with :: "('e, 's, 'n, 'se, 'o) tx_env \<Rightarrow> ym_metadata \<Rightarrow> (('e, 's, 'n) tx_state, ('e, 'se, 'o) send_error, ym_transfer) action" where
  "send_with env metadata =
     (case metadata_block metadata of
        Inl e \<Rightarrow> ym_err (if e = SdInvalidFilename then SdInvalidFilename else SdHeaderTooLong)
      | Inr header \<Rightarrow>
          let file_size = md_file_size metadata
          in ym_then (notify env (Progress 0 file_size)) (\<lambda>_.
             ym_then (wait_for_crc_request env) (\<lambda>_.
             ym_then (send_packet env SOH 0 header) (\<lambda>_.
             ym_then (wait_for_crc_request env) (\<lambda>_.
             ym_then (send_data env file_size 0 1) (\<lambda>_.
             ym_then (write_control EOT) (\<lambda>_.
             ym_then (expect_control env NAK) (\<lambda>_.
             ym_then (write_control EOT) (\<lambda>_.
             ym_then (expect_control env ACK) (\<lambda>_.
             ym_then (wait_for_crc_request env) (\<lambda>_.
             ym_then (send_packet env SOH 0 (replicate HEADER_BLOCK_SIZE 0)) (\<lambda>_.
             ym_then (notify env (Progress file_size file_size)) (\<lambda>_.
               ym_ok \<lparr>tr_file_size = file_size\<rparr>)))))))))))))"

text \<open>\<open>send\<close> observes nothing.\<close>

definition ym_send :: "('e, 's, 'n, 'se, 'o) tx_env \<Rightarrow> ym_metadata \<Rightarrow> (('e, 's, 'n) tx_state, ('e, 'se, 'o) send_error, ym_transfer) action" where
  "ym_send env = send_with (env\<lparr>tx_notify := \<lambda>_ n. (Inr (), n)\<rparr>)"

end
