(* ===== verification/Ymodem_Metadata.thy ===== *)
theory Ymodem_Metadata
  imports Ymodem_Send
begin

text \<open>
  Block 0 of a YMODEM batch: what the sender's \<open>metadata_block\<close> writes, the receiver's
  \<open>parse_metadata\<close> reads back.
\<close>

section \<open>Decimal numbers\<close>

lemma decimal_digit: "is_ascii_digit (48 + of_nat (v mod 10))" "unat (48 + of_nat (v mod 10) - 48 :: u8) = v mod 10"
proof -
  have small: "unat (of_nat (v mod 10) :: u8) = v mod 10" by (simp add: unat_of_nat)
  have "unat (48 + of_nat (v mod 10) :: u8) = 48 + v mod 10" by (subst unat_word_ariths) (simp add: small)
  then show "is_ascii_digit (48 + of_nat (v mod 10))" by (simp add: is_ascii_digit_def word_le_nat_alt)
  from small show "unat (48 + of_nat (v mod 10) - 48 :: u8) = v mod 10" by simp
qed

lemma decimal_bytes_digits: "b \<in> set (decimal_bytes v) \<Longrightarrow> is_ascii_digit b"
proof (induction v rule: decimal_bytes.induct)
  case (1 v)
  then show ?case using decimal_digit [of v]
    by (subst (asm) (2) decimal_bytes.simps) (auto simp: Let_def simp del: mod_less split: if_splits)
qed

lemma decimal_bytes_nonempty [simp]: "decimal_bytes v \<noteq> []"
  by (subst decimal_bytes.simps) (simp add: Let_def)

lemma length_decimal_bytes: "v < 10 ^ n \<Longrightarrow> 0 < n \<Longrightarrow> length (decimal_bytes v) \<le> n"
proof (induction v arbitrary: n rule: decimal_bytes.induct)
  case (1 v)
  show ?case
  proof (cases "v div 10 = 0")
    case False
    with 1(2,3) obtain m where m: "n = Suc m" "0 < m" by (cases n; cases "n - 1") auto
    then have "v div 10 < 10 ^ m" using 1(2) by (simp add: less_mult_imp_div_less mult.commute)
    with 1(1) [OF refl refl False, of m] m False show ?thesis by (subst decimal_bytes.simps) (simp add: Let_def)
  qed (use 1(3) in \<open>subst decimal_bytes.simps; simp add: Let_def\<close>)
qed

text \<open>The scratch array of 20 bytes is enough for a 64-bit number.\<close>

lemma decimal_bytes_scratch: "v < 2 ^ 64 \<Longrightarrow> length (decimal_bytes v) \<le> 20"
  by (rule length_decimal_bytes) simp_all

lemma decimal_value_append:
  "decimal_value m (xs @ ys) v = (case decimal_value m xs v of None \<Rightarrow> None | Some w \<Rightarrow> decimal_value m ys w)"
  by (induction m xs v rule: decimal_value.induct) auto

lemma decimal_value_bytes: "v \<le> m \<Longrightarrow> decimal_value m (decimal_bytes v) 0 = Some v"
proof (induction v rule: decimal_bytes.induct)
  case (1 v)
  show ?case
  proof (cases "v div 10 = 0")
    case True
    then show ?thesis using 1(2) decimal_digit [of v] by (subst decimal_bytes.simps) (simp add: Let_def)
  next
    case False
    have "decimal_value m (decimal_bytes (v div 10)) 0 = Some (v div 10)" using 1(1) [OF refl refl False] 1(2) by simp
    moreover have "v div 10 * 10 \<le> m" "v div 10 * 10 + v mod 10 = v" using 1(2) by auto
    ultimately show ?thesis using False decimal_digit [of v] 1(2)
      by (subst decimal_bytes.simps) (simp add: Let_def decimal_value_append)
  qed
qed

lemma digit_not_end: "is_ascii_digit b \<Longrightarrow> b \<noteq> 0 \<and> b \<noteq> 32"
  by (auto simp: is_ascii_digit_def)

section \<open>The round trip\<close>

lemma position_append: "(\<And>x. x \<in> set xs \<Longrightarrow> \<not> P x) \<Longrightarrow> P y \<Longrightarrow> position P (xs @ y # ys) = Some (length xs)"
  by (induction xs) auto

lemma metadata_block_bytes:
  assumes "metadata_block m = Inr block"
  shows "md_filename m \<noteq> []" "0 \<notin> set (md_filename m)"
    "\<exists>n>0. block = md_filename m @ 0 # decimal_bytes (md_file_size m) @ replicate n 0"
proof -
  let ?d = "decimal_bytes (md_file_size m)"
  show "md_filename m \<noteq> []" "0 \<notin> set (md_filename m)"
    using assms by (auto simp: metadata_block_def Let_def split: if_splits)
  have fit: "length (md_filename m) + 1 + length ?d + 1 \<le> 128"
    and block: "block = put_slice (put_slice (replicate 128 0) 0 (md_filename m)) (length (md_filename m) + 1) ?d"
    using assms by (auto simp: metadata_block_def Let_def HEADER_BLOCK_SIZE_def split: if_splits)
  from fit have "put_slice (replicate 128 0) 0 (md_filename m) = md_filename m @ 0 # replicate (127 - length (md_filename m)) 0"
    by (simp add: put_slice_def Suc_diff_le flip: replicate_Suc)
  with block fit have "block = md_filename m @ 0 # ?d @ replicate (127 - length (md_filename m) - length ?d) 0"
    by (simp add: put_slice_def)
  then show "\<exists>n>0. block = md_filename m @ 0 # ?d @ replicate n 0"
    using fit by (intro exI [of _ "127 - length (md_filename m) - length ?d"]) simp
qed

lemma length_metadata_block: "metadata_block m = Inr block \<Longrightarrow> length block = HEADER_BLOCK_SIZE"
  by (auto simp: metadata_block_def Let_def slice_simps HEADER_BLOCK_SIZE_def split: if_splits)

lemma parse_metadata_block:
  assumes "metadata_block m = Inr block" "md_file_size m \<le> usize_max"
  shows "parse_metadata usize_max block = Some m"
proof -
  let ?d = "decimal_bytes (md_file_size m)"
  from metadata_block_bytes [OF assms(1)] obtain n where n: "md_filename m \<noteq> []" "0 \<notin> set (md_filename m)" "0 < n"
    and block: "block = md_filename m @ 0 # ?d @ replicate n 0" by blast
  have name_end: "position (\<lambda>b. b = 0) block = Some (length (md_filename m))"
    unfolding block by (rule position_append) (use n in auto)
  from n obtain k where "replicate n (0 :: u8) = 0 # replicate k 0" by (cases n) auto
  then have field_end: "position (\<lambda>b. b = 0 \<or> b = 32) (?d @ replicate n 0) = Some (length ?d)"
    using position_append [of ?d "\<lambda>b. b = 0 \<or> b = 32" 0 "replicate k 0"] decimal_bytes_digits digit_not_end by metis
  have "decimal_usize usize_max ?d = Some (md_file_size m)" using decimal_value_bytes [OF assms(2)] by (simp add: decimal_usize_def)
  with name_end field_end n show ?thesis by (simp add: parse_metadata_def block)
qed

text \<open>
  C15: the metadata of a transfer survives block 0. The sender builds the block exactly for a non-empty file name without NUL
  that fits 128 bytes together with the decimal size and two terminators, and otherwise reports which of the two it is;
  the receiver parses from the block exactly the same file name and size, on any
  platform whose \<open>usize\<close> can hold the size.
\<close>

theorem ymodem_metadata_roundtrip:
  assumes "md_file_size m \<le> usize_max"
  shows "(case metadata_block m of
      Inr block \<Rightarrow> md_filename m \<noteq> [] \<and> 0 \<notin> set (md_filename m) \<and> length (md_filename m) + length (decimal_bytes (md_file_size m)) + 2 \<le> 128 \<and>
        length block = HEADER_BLOCK_SIZE \<and> parse_metadata usize_max block = Some m
    | Inl e \<Rightarrow> e = SdInvalidFilename \<and> (md_filename m = [] \<or> 0 \<in> set (md_filename m)) \<or>
        e = SdHeaderTooLong \<and> md_filename m \<noteq> [] \<and> 0 \<notin> set (md_filename m) \<and>
        length (md_filename m) + length (decimal_bytes (md_file_size m)) + 2 > 128)"
proof (cases "metadata_block m")
  case (Inl e)
  then show ?thesis by (auto simp: metadata_block_def Let_def HEADER_BLOCK_SIZE_def split: if_splits)
next
  case (Inr block)
  then have "length (md_filename m) + length (decimal_bytes (md_file_size m)) + 2 \<le> 128"
    by (auto simp: metadata_block_def Let_def HEADER_BLOCK_SIZE_def split: if_splits)
  with Inr show ?thesis using assms metadata_block_bytes(1,2) [OF Inr] parse_metadata_block [OF Inr] length_metadata_block [OF Inr] by simp
qed

theorem ymodem_metadata_roundtrip_witness:
  "\<exists>block. metadata_block \<lparr>md_filename = [97], md_file_size = 1050\<rparr> = Inr block \<and>
     parse_metadata 65535 block = Some \<lparr>md_filename = [97], md_file_size = 1050\<rparr>"
proof -
  let ?m = "\<lparr>md_filename = [97], md_file_size = 1050\<rparr>"
  have "length (decimal_bytes 1050) \<le> 20" by (rule decimal_bytes_scratch) simp
  with ymodem_metadata_roundtrip [of ?m 65535] show ?thesis by (auto split: sum.splits)
qed

end
