(* ===== verification/Ymodem_Delivery.thy ===== *)
theory Ymodem_Delivery
  imports Ymodem_Receive "HOL-Library.Sublist"
begin

text \<open>
  What the YMODEM receiver writes. The interface of an output (\<open>byte_sink\<close>) says what is
  stored after a write that succeeds or fails; the buffer sink provides it. Whatever arrives on the line,
  the bytes written are payloads of blocks that arrived with the right checksum, in the order of
  their numbers, after a metadata block that was accepted, and never more than the size announced there.
\<close>

section \<open>What arrives\<close>

fun arrived :: "'e read_event list \<Rightarrow> bytes" where
  "arrived [] = []"
| "arrived (ReadByte b # xs) = b # arrived xs"
| "arrived (_ # xs) = arrived xs"

lemma next_event_arrived:
  "next_event kind xs = (r, ys) \<Longrightarrow> arrived xs = (case r of Some (Inr b) \<Rightarrow> [b] | _ \<Rightarrow> []) @ arrived ys"
  by (induction kind xs arbitrary: r ys rule: next_event.induct) (auto split: if_splits)

lemma read_byte_arrived:
  assumes "read_byte kind s = (r, s')"
  shows "arrived (p_in s) = (case r of Some (Inr b) \<Rightarrow> [b] | _ \<Rightarrow> []) @ arrived (p_in s')"
  using assms next_event_arrived by (fastforce simp: read_byte_def split: prod.splits)

text \<open>Quiet actions consume reads and write to the line, but leave the output alone.\<close>

definition quietly :: "('e, 'o) rx_state \<Rightarrow> ('e, 'o) rx_state \<Rightarrow> bool" where
  "quietly s s' \<longleftrightarrow> rx_out s' = rx_out s \<and> suffix (arrived (p_in s')) (arrived (p_in s))"

definition quiet_action :: "(('e, 'o) rx_state, 'x, 'a) action \<Rightarrow> bool" where
  "quiet_action m \<longleftrightarrow> (\<forall>s. quietly s (snd (m s)))"

lemma quietly_refl [simp]: "quietly s s"
  by (simp add: quietly_def)

lemma quietly_trans [trans]: "quietly a b \<Longrightarrow> quietly b c \<Longrightarrow> quietly a c"
  by (auto simp: quietly_def intro: suffix_order.trans)

lemma quiet_actionD: "quiet_action m \<Longrightarrow> m s = (r, s') \<Longrightarrow> quietly s s'"
  by (metis quiet_action_def snd_conv)

lemma quiet_then [intro]:
  assumes "quiet_action m" "\<And>a. quiet_action (k a)"
  shows "quiet_action (ym_then m k)"
  unfolding quiet_action_def
proof
  fix s
  have "quietly s (snd (m s))" "\<And>a t. quietly t (snd (k a t))" using assms by (simp_all add: quiet_action_def)
  then show "quietly s (snd (ym_then m k s))"
    by (auto simp: ym_then_def split: prod.splits option.splits sum.splits intro: quietly_trans)
qed

lemma quiet_attempt [intro]: "quiet_action m \<Longrightarrow> quiet_action (ym_attempt m)"
  by (auto simp: quiet_action_def ym_attempt_def split: prod.splits option.splits) (metis snd_conv)+

lemma quiet_basic [intro, simp]: "quiet_action (ym_ok a)" "quiet_action (ym_err x)"
  by (simp_all add: quiet_action_def ym_ok_def ym_err_def)

lemma quiet_line [intro, simp]: "quiet_action (read_byte kind)" "quiet_action (port_write bs)" "quiet_action port_flush"
proof -
  show "quiet_action (read_byte kind)"
    unfolding quiet_action_def quietly_def
    by (auto simp: suffix_def read_byte_def split: prod.splits dest!: next_event_arrived)
qed (simp_all add: quiet_action_def quietly_def port_write_def split: option.splits)

lemma quiet_map_err [intro]: "quiet_action m \<Longrightarrow> quiet_action (ym_map_err f m)"
  unfolding ym_map_err_def by (rule quiet_then) (auto split: sum.splits)

lemma quiet_read_bytes: "quiet_action (read_bytes kind n i frame)"
  by (induction n arbitrary: i frame) auto

lemma quiet_parts:
  "quiet_action (rx_write bs)" "quiet_action (cancel_with x)" "quiet_action (refuse cfg retries)" "quiet_action ack_and_request"
  "quiet_action (read_block kind sz frame)" "quiet_action (next_byte kind)"
  unfolding rx_write_def cancel_with_def refuse_def ack_and_request_def ym_cancel_def read_block_def next_byte_def Let_def
  by (auto intro!: quiet_then quiet_map_err quiet_attempt quiet_read_bytes)

lemma quiet_request: "quiet_action (request_crc kind n)"
proof (induction n)
  case (Suc n)
  show ?case unfolding request_crc.simps
    by (intro quiet_then quiet_parts quiet_attempt quiet_line) (auto split: sum.splits read_byte_error.splits intro: Suc)
qed simp

text \<open>Case analysis of a sequence of two actions.\<close>

lemma ym_then_cases:
  assumes "ym_then m k s = (r, s')"
  obtains (stops) "m s = (None, s')" "r = None" | (fails) x where "m s = (Some (Inl x), s')" "r = Some (Inl x)"
    | (runs) a t where "m s = (Some (Inr a), t)" "k a t = (r, s')"
  using assms by (auto simp: ym_then_def split: prod.splits option.splits sum.splits)

lemma ym_then_assoc: "ym_then (ym_then m k) l = ym_then m (\<lambda>a. ym_then (k a) l)"
  by (rule ext) (simp add: ym_then_def split: prod.splits option.splits sum.splits)

lemma map_err_ok: "ym_map_err f m s = (Some (Inr a), s') \<longleftrightarrow> m s = (Some (Inr a), s')"
  by (auto simp: ym_map_err_def ym_then_def ym_attempt_def ym_ok_def ym_err_def split: prod.splits option.splits sum.splits)

lemma next_byte_ok: "next_byte kind s = (Some (Inr b), s') \<longleftrightarrow> read_byte kind s = (Some (Inr b), s')"
  by (simp add: next_byte_def map_err_ok)

lemma read_byte_ok: "read_byte kind s = (Some (Inr b), s') \<Longrightarrow> arrived (p_in s) = b # arrived (p_in s')"
  by (drule read_byte_arrived) simp

lemma put_slice_snoc: "i < length xs \<Longrightarrow> i + 1 + length bs \<le> length xs \<Longrightarrow> put_slice (xs[i := b]) (Suc i) bs = put_slice xs i (b # bs)"
  by (simp add: put_slice_def take_Suc_conv_app_nth)

lemma read_bytes_arrived:
  assumes "read_bytes kind n i frame s = (Some (Inr frame'), s')" "i + n \<le> length frame"
  shows "\<exists>bs. length bs = n \<and> arrived (p_in s) = bs @ arrived (p_in s') \<and> frame' = put_slice frame i bs"
  using assms
proof (induction n arbitrary: i frame s)
  case 0
  then show ?case by (simp add: ym_ok_def put_slice_def)
next
  case (Suc n)
  from Suc.prems(1) obtain b t where read: "read_byte kind s = (Some (Inr b), t)"
    and rest: "read_bytes kind n (Suc i) (frame[i := b]) t = (Some (Inr frame'), s')"
    by (auto elim!: ym_then_cases)
  from Suc.IH [OF rest] Suc.prems(2) obtain bs where
    "length bs = n" "arrived (p_in t) = bs @ arrived (p_in s')" "frame' = put_slice (frame[i := b]) (Suc i) bs" by auto
  with read_byte_arrived [OF read] Suc.prems(2) show ?case
    by (intro exI [of _ "b # bs"]) (simp add: put_slice_snoc)
qed

lemma read_block_arrived:
  assumes "ym_map_err f (read_block kind sz frame) s = (Some (Inr frame'), s')" "sz + 4 \<le> length frame"
  shows "length frame' = length frame \<and> arrived (p_in s) = take (sz + 4) frame' @ arrived (p_in s')"
proof -
  from read_bytes_arrived [of kind "sz + 4" 0 frame s frame' s'] assms obtain bs where
    "length bs = sz + 4" "arrived (p_in s) = bs @ arrived (p_in s')" "frame' = put_slice frame 0 bs"
    unfolding map_err_ok read_block_def by auto
  then show ?thesis using assms(2) by (simp add: slice_simps) (simp add: put_slice_def)
qed

lemma attempt_read:
  assumes "ym_attempt (read_byte kind) s = (Some (Inr r), t)"
  shows "arrived (p_in s) = (case r of Inr b \<Rightarrow> [b] | Inl _ \<Rightarrow> []) @ arrived (p_in t)"
  using assms read_byte_arrived [of kind s] by (auto simp: ym_attempt_def split: prod.splits option.splits)

lemma request_crc_arrived:
  fixes s :: "('e, 'o) rx_state"
  shows "request_crc kind n s = (Some (Inr c), t) \<Longrightarrow> suffix (c # arrived (p_in t)) (arrived (p_in s))"
proof (induction n arbitrary: s)
  case (Suc n)
  from Suc.prems show ?case unfolding request_crc.simps
  proof (cases rule: ym_then_cases)
    case asked: (runs a u)
    from quiet_actionD [OF quiet_parts(1) this(1)] have u: "suffix (arrived (p_in u)) (arrived (p_in s))" by (simp add: quietly_def)
    from asked(2) show ?thesis
    proof (cases rule: ym_then_cases)
      case (runs r v)
      have "suffix (c # arrived (p_in t)) (arrived (p_in u))"
        using attempt_read [OF runs(1)] runs(2) Suc.IH [of v]
        by (auto simp: ym_ok_def ym_err_def split: sum.splits read_byte_error.splits)
      then show ?thesis using u by (rule suffix_order.trans)
    qed simp_all
  qed simp_all
qed (simp add: ym_err_def)

section \<open>Blocks on the line\<close>

text \<open>
  A block as it arrives: the control byte, the number and its complement, the payload, the checksum.
  \<open>carries bs ws\<close>: the blocks \<open>ws\<close> occur in \<open>bs\<close> one after the other.
\<close>

definition good_block :: "checksum \<Rightarrow> u8 \<Rightarrow> bytes \<Rightarrow> bool" where
  "good_block crc number w \<longleftrightarrow>
     (\<exists>sz. block_size (hd w) = Some sz \<and> length w = sz + 5 \<and> w ! 1 = number \<and> valid_frame crc (tl w) sz)"

definition payload :: "bytes \<Rightarrow> bytes" where "payload w = take (length w - 5) (drop 3 w)"

fun numbered :: "checksum \<Rightarrow> u8 \<Rightarrow> bytes list \<Rightarrow> bool" where
  "numbered crc number [] = True"
| "numbered crc number (w # ws) \<longleftrightarrow> good_block crc number w \<and> numbered crc (number + 1) ws"

fun carries :: "bytes \<Rightarrow> bytes list \<Rightarrow> bool" where
  "carries bs [] = True"
| "carries bs (w # ws) \<longleftrightarrow> (\<exists>pre post. bs = pre @ w @ post \<and> carries post ws)"

lemma carries_later: "carries bs ws \<Longrightarrow> suffix bs bs' \<Longrightarrow> carries bs' ws"
  by (cases ws) (auto simp: suffix_def, metis append.assoc)

lemma carries_front: "carries bs ws \<Longrightarrow> carries (w @ bs) (w # ws)"
  by (auto intro: exI [of _ "[]"])

lemma valid_frame_take: "sz + 4 \<le> length frame \<Longrightarrow> valid_frame crc (take (sz + 4) frame) sz = valid_frame crc frame sz"
  by (simp add: valid_frame_def slice_def drop_take)

lemma frame_block:
  assumes "block_size control = Some sz" "sz + 4 \<le> length frame" "valid_frame crc frame sz" "frame ! 0 = number"
  shows "good_block crc number (control # take (sz + 4) frame)" "payload (control # take (sz + 4) frame) = slice frame 2 (2 + sz)"
  using assms by (simp_all add: good_block_def payload_def valid_frame_take slice_def drop_take)

lemma block_size_fits: "block_size control = Some sz \<Longrightarrow> 0 < sz \<and> sz + 4 \<le> BLOCK_SIZE + 4"
  by (auto simp: block_size_def BLOCK_SIZE_def HEADER_BLOCK_SIZE_def split: if_splits)

text \<open>
  \<open>delivers crc number avail budget data\<close>: \<open>data\<close> is the beginning of the payloads, cut to
  \<open>budget\<close> bytes, of good blocks numbered from \<open>number\<close> that the bytes \<open>avail\<close> carry.
\<close>

definition delivers :: "checksum \<Rightarrow> u8 \<Rightarrow> bytes \<Rightarrow> nat \<Rightarrow> bytes \<Rightarrow> bool" where
  "delivers crc number avail budget data \<longleftrightarrow>
     (\<exists>ws. numbered crc number ws \<and> carries avail ws \<and> prefix data (take budget (concat (map payload ws))))"

lemma delivers_nil [simp]: "delivers crc number avail budget []"
  unfolding delivers_def by (intro exI [of _ "[]"]) simp

lemma delivers_later: "delivers crc number avail budget data \<Longrightarrow> suffix avail avail' \<Longrightarrow> delivers crc number avail' budget data"
  unfolding delivers_def using carries_later by blast

lemma delivers_part:
  assumes "good_block crc number w" "prefix ys (take budget (payload w))"
  shows "delivers crc number (w @ avail) budget ys"
  unfolding delivers_def by (rule exI [of _ "[w]"]) (use assms in \<open>auto intro: exI [of _ "[]"]\<close>)

lemma delivers_block:
  assumes "good_block crc number w" "delivers crc (number + 1) avail (budget - min budget (length (payload w))) data"
  shows "delivers crc number (w @ avail) budget (take budget (payload w) @ data)"
proof -
  from assms(2) obtain ws where ws: "numbered crc (number + 1) ws" "carries avail ws"
    "prefix data (take (budget - min budget (length (payload w))) (concat (map payload ws)))" unfolding delivers_def by blast
  then have "prefix (take budget (payload w) @ data) (take budget (concat (map payload (w # ws))))" by (simp add: min_def split: if_splits)
  with ws assms(1) carries_front show ?thesis unfolding delivers_def by (intro exI [of _ "w # ws"]) auto
qed

section \<open>The metadata loop and the end of the batch\<close>

lemma quietly_then:
  assumes "quiet_action m" "\<And>a t. m s = (Some (Inr a), t) \<Longrightarrow> quietly t (snd (k a t))"
  shows "quietly s (snd (ym_then m k s))"
proof -
  have "quietly s (snd (m s))" using assms(1) by (simp add: quiet_action_def)
  then show ?thesis using assms(2) by (auto simp: ym_then_def split: prod.splits option.splits sum.splits intro: quietly_trans)
qed

lemmas quiet_block = quiet_map_err [OF quiet_parts(5)]

lemma quiet_receive_end: "quietly s (snd (receive_end env retries frame control s))"
proof (induction env retries frame control s rule: receive_end.induct)
  case (1 env retries frame control s)
  note junk = 1(1) and bad = 1(2)
  have ack: "quietly t (snd (rx_write [ACK] t))" for t using quiet_parts(1) by (auto simp: quiet_action_def)
  show ?case
  proof (cases "block_size control")
    case None
    then show ?thesis
      by (auto simp: receive_end.simps [of env] ym_err_def intro!: quietly_then [OF quiet_parts(3)] quietly_then [OF quiet_parts(6)] junk)
  next
    case (Some sz)
    then show ?thesis
      by (auto simp: receive_end.simps [of env] ym_err_def
          intro!: quietly_then [OF quiet_block] quietly_then [OF quiet_parts(3)] quietly_then [OF quiet_parts(6)] ack bad)
  qed
qed

text \<open>A metadata block that is accepted: it is good, numbered 0, it parses, and the callback agrees.\<close>

definition announces :: "('e, 'o, 'w, 'm) rx_env \<Rightarrow> bytes \<Rightarrow> ym_metadata \<Rightarrow> bool" where
  "announces env header m \<longleftrightarrow> good_block (rx_crc env) 0 header \<and>
     parse_metadata (rx_usize_max env) (payload header) = Some m \<and> rx_on_metadata env m = Inr ()"

definition accepted_header :: "('e, 'o, 'w, 'm) rx_env \<Rightarrow> bytes \<Rightarrow> ('x + usize \<times> bytes) option \<Rightarrow> ('e, 'o) rx_state \<Rightarrow> bool" where
  "accepted_header env avail r s' \<longleftrightarrow> (\<forall>n f. r = Some (Inr (n, f)) \<longrightarrow> length f = BLOCK_SIZE + 4 \<and>
     (\<exists>header m rest. announces env header m \<and> suffix (header @ rest) avail \<and> suffix (arrived (p_in s')) rest \<and> n = md_file_size m))"

lemma accepted_later: "accepted_header env avail r s' \<Longrightarrow> suffix avail avail' \<Longrightarrow> accepted_header env avail' r s'"
  unfolding accepted_header_def by (fastforce intro: suffix_order.trans)

definition header_post :: "('e, 'o, 'w, 'm) rx_env \<Rightarrow> bytes \<Rightarrow> ('e, 'o) rx_state \<Rightarrow> ('x + usize \<times> bytes) option \<Rightarrow> ('e, 'o) rx_state \<Rightarrow> bool" where
  "header_post env avail s r s' \<longleftrightarrow> quietly s s' \<and> accepted_header env avail r s'"

lemma header_post_stop: "quietly s s' \<Longrightarrow> (\<And>x. r \<noteq> Some (Inr x)) \<Longrightarrow> header_post env avail s r s'"
  by (simp add: header_post_def accepted_header_def)

lemma header_post_later: "header_post env avail t r s' \<Longrightarrow> quietly s t \<Longrightarrow> suffix avail avail' \<Longrightarrow> header_post env avail' s r s'"
  unfolding header_post_def using accepted_later quietly_trans by blast

lemma header_post_next:
  fixes env :: "('e, 'o, 'w, 'm) rx_env" and k :: "u8 \<Rightarrow> u8 \<Rightarrow> (('e, 'o) rx_state, ('e, 'w, 'm) ym_error, usize \<times> bytes) action"
  assumes "ym_then (refuse cfg retries) (\<lambda>retries. ym_then (next_byte kind) (k retries)) s = (r, s')"
    and "\<And>retries' t c u. refuse cfg retries s = (Some (Inr retries') :: (('e, 'w, 'm) ym_error + u8) option, t) \<Longrightarrow>
      read_byte kind t = (Some (Inr c), u) \<Longrightarrow> k retries' c u = (r, s') \<Longrightarrow> header_post env (c # arrived (p_in u)) u r s'"
  shows "header_post env (arrived (p_in s)) s r s'"
  using assms(1)
proof (cases rule: ym_then_cases)
  case refused: (runs retries' t)
  from quiet_actionD [OF quiet_parts(3) this(1)] have t: "quietly s t" .
  from refused(2) have "header_post env (arrived (p_in t)) t r s'"
  proof (cases rule: ym_then_cases)
    case (runs c u)
    note read = runs(1) [unfolded next_byte_ok]
    from header_post_later [OF assms(2) [OF refused(1) read runs(2)] quiet_actionD [OF quiet_line(1) read]]
    show ?thesis by (simp add: read_byte_ok [OF read])
  qed (auto intro!: header_post_stop dest: quiet_actionD [OF quiet_parts(6)])
  from header_post_later [OF this t] t show ?thesis by (simp add: quietly_def)
qed (auto intro!: header_post_stop dest: quiet_actionD [OF quiet_parts(3)])

lemma cancel_with_fails: "cancel_with x s \<noteq> (Some (Inr a), s')"
  by (auto elim!: ym_then_cases simp: cancel_with_def ym_err_def)

text \<open>A block 0 that is fine is parsed and offered to the callback.\<close>

lemma header_post_block:
  assumes "(case parse_metadata (rx_usize_max env) (slice frame 2 (2 + sz)) of
        None \<Rightarrow> cancel_with YmProtocol t
      | Some m \<Rightarrow> (case rx_on_metadata env m of
            Inl e \<Rightarrow> cancel_with (YmMetadata e) t
          | Inr _ \<Rightarrow> ym_then ack_and_request (\<lambda>_. ym_ok (md_file_size m, frame)) t)) = (r, s')"
    and "block_size control = Some sz" "length frame = BLOCK_SIZE + 4" "valid_frame (rx_crc env) frame sz" "frame ! 0 = 0"
  shows "header_post env (control # take (sz + 4) frame @ arrived (p_in t)) t r s'"
proof (cases "\<exists>m. parse_metadata (rx_usize_max env) (slice frame 2 (2 + sz)) = Some m \<and> rx_on_metadata env m = Inr ()")
  case True
  then obtain m where m: "parse_metadata (rx_usize_max env) (slice frame 2 (2 + sz)) = Some m" "rx_on_metadata env m = Inr ()" by blast
  note block = frame_block [OF assms(2) _ assms(4,5)]
  from m block assms(3) block_size_fits [OF assms(2)] have ann: "announces env (control # take (sz + 4) frame) m" by (simp add: announces_def)
  from assms(1) m have "ym_then ack_and_request (\<lambda>_. ym_ok (md_file_size m, frame)) t = (r, s')" by simp
  then show ?thesis
  proof (cases rule: ym_then_cases)
    case (runs u t')
    from quiet_actionD [OF quiet_parts(4) runs(1)] runs(2) have q: "quietly t s'" and r: "r = Some (Inr (md_file_size m, frame))" by (auto simp: ym_ok_def)
    let ?w = "control # take (sz + 4) frame"
    have "suffix (?w @ arrived (p_in t)) (control # take (sz + 4) frame @ arrived (p_in t))" by simp
    with ann q assms(3) show ?thesis unfolding header_post_def accepted_header_def r quietly_def by blast
  qed (auto intro!: header_post_stop dest: quiet_actionD [OF quiet_parts(4)])
next
  case False
  then have "(\<exists>x. cancel_with x t = (r, s'))" using assms(1) by (auto split: option.splits sum.splits)
  then show ?thesis using quiet_actionD [OF quiet_parts(2)] cancel_with_fails by (metis header_post_stop)
qed

lemma receive_metadata_accepts:
  assumes "receive_metadata env retries frame control s = (r, s')" "length frame = BLOCK_SIZE + 4"
  shows "header_post env (control # arrived (p_in s)) s r s'"
  using assms
proof (induction env retries frame control s rule: receive_metadata.induct)
  case (1 env retries frame control s)
  note junk = 1(1) and bad = 1(2) and run = 1(3) and len = 1(4)
  show ?case
  proof (cases "control = CAN")
    case False
    show ?thesis
    proof (cases "block_size control")
      case None
      with run False have "ym_then (refuse (rx_config env) retries) (\<lambda>retries. ym_then (next_byte (rx_kind env)) (receive_metadata env retries frame)) s = (r, s')"
        by (simp add: receive_metadata.simps [of env retries frame control])
      then have "header_post env (arrived (p_in s)) s r s'"
        by (rule header_post_next) (rule junk [OF False None _ next_byte_ok [THEN iffD2] _ len])
      then show ?thesis by (rule header_post_later) (simp_all add: suffix_Cons)
    next
      case (Some sz)
      let ?rest = "\<lambda>frame t. if \<not> valid_frame (rx_crc env) frame sz \<or> frame ! 0 \<noteq> 0
        then ym_then (refuse (rx_config env) retries) (\<lambda>retries. ym_then (next_byte (rx_kind env)) (receive_metadata env retries frame)) t
        else case parse_metadata (rx_usize_max env) (slice frame 2 (2 + sz)) of
               None \<Rightarrow> cancel_with YmProtocol t
             | Some m \<Rightarrow> (case rx_on_metadata env m of
                   Inl e \<Rightarrow> cancel_with (YmMetadata e) t
                 | Inr _ \<Rightarrow> ym_then ack_and_request (\<lambda>_. ym_ok (md_file_size m, frame)) t)"
      from run False Some have "ym_then (ym_map_err read_failure (read_block (rx_kind env) sz frame)) ?rest s = (r, s')"
        by (simp add: receive_metadata.simps [of env retries frame control])
      then show ?thesis
      proof (cases rule: ym_then_cases)
        case (runs frame' t)
        from quiet_actionD [OF quiet_block runs(1)] have t: "quietly s t" .
        from read_block_arrived [OF runs(1)] block_size_fits [OF Some] len
        have len': "length frame' = BLOCK_SIZE + 4" and avail: "arrived (p_in s) = take (sz + 4) frame' @ arrived (p_in t)" by auto
        show ?thesis
        proof (cases "valid_frame (rx_crc env) frame' sz \<and> frame' ! 0 = 0")
          case True
          have "header_post env (control # take (sz + 4) frame' @ arrived (p_in t)) t r s'"
            by (rule header_post_block [OF _ Some len']) (use True runs(2) in auto)
          from header_post_later [OF this t] show ?thesis by (simp add: avail)
        next
          case invalid: False
          with runs(2) have "ym_then (refuse (rx_config env) retries) (\<lambda>retries. ym_then (next_byte (rx_kind env)) (receive_metadata env retries frame')) t = (r, s')" by simp
          then have "header_post env (arrived (p_in t)) t r s'"
            by (rule header_post_next) (rule bad [OF False Some runs(1) _ _ next_byte_ok [THEN iffD2] _ len'], use invalid in auto)
          from header_post_later [OF this t] t show ?thesis by (simp add: quietly_def suffix_Cons)
        qed
      qed (auto intro!: header_post_stop dest: quiet_actionD [OF quiet_block])
    qed
  qed (use run in \<open>auto simp: receive_metadata.simps [of env] ym_err_def intro!: header_post_stop\<close>)
qed

section \<open>Outputs\<close>

lemma then_cancel: "ym_then (cancel_with x) k s = cancel_with x s"
  by (simp add: cancel_with_def ym_then_def ym_err_def split: prod.splits option.splits sum.splits)

lemma output_run:
  assumes "f (rx_out s) = (res, b)"
  shows "output_or_cancel f s =
    (case res of Inl w \<Rightarrow> cancel_with (YmOutput w) (s\<lparr>rx_out := b\<rparr>) | Inr _ \<Rightarrow> ym_ok () (s\<lparr>rx_out := b\<rparr>))"
  using assms by (simp add: output_or_cancel_def ym_then_def ym_attempt_def on_output_def split: sum.splits)

lemma then_output:
  assumes "f (rx_out s) = (res, b)"
  shows "ym_then (output_or_cancel f) k s =
    (case res of Inl w \<Rightarrow> cancel_with (YmOutput w) (s\<lparr>rx_out := b\<rparr>) | Inr _ \<Rightarrow> k () (s\<lparr>rx_out := b\<rparr>))"
  unfolding ym_then_def [of "output_or_cancel f"] output_run [where f = f, OF assms]
  by (simp add: ym_ok_def then_cancel [unfolded ym_then_def] split: sum.splits)

locale byte_sink =
  fixes wr :: "bytes \<Rightarrow> 'o \<Rightarrow> ('w + unit) \<times> 'o"
    and fl :: "'o \<Rightarrow> ('w + unit) \<times> 'o"
    and contents :: "'o \<Rightarrow> bytes"
    and sink_ok :: "'o \<Rightarrow> bool"
  assumes write_ok: "sink_ok b \<Longrightarrow> wr bs b = (Inr u, b') \<Longrightarrow> sink_ok b' \<and> contents b' = contents b @ bs"
    and write_err: "sink_ok b \<Longrightarrow> wr bs b = (Inl w, b') \<Longrightarrow> sink_ok b' \<and> (\<exists>ys. prefix ys bs \<and> contents b' = contents b @ ys)"
    and flush_keeps: "sink_ok b \<Longrightarrow> fl b = (r, b') \<Longrightarrow> sink_ok b' \<and> contents b' = contents b"
begin

text \<open>One block: it is refused, acknowledged again, or written; a failure leaves a part of it written.\<close>

lemma accept_block_written:
  assumes "rx_write_all env = wr" "sink_ok (rx_out s)" "accept_block env n frame sz retries expected written s = (r, s')"
  shows "sink_ok (rx_out s') \<and> suffix (arrived (p_in s')) (arrived (p_in s)) \<and>
    (case r of
       Some (Inr (retries', expected', written')) \<Rightarrow>
         expected' = expected \<and> written' = written \<and> contents (rx_out s') = contents (rx_out s) \<or>
         valid_frame (rx_crc env) frame sz \<and> frame ! 0 = expected \<and> expected' = expected + 1 \<and> written < n \<and>
           written' = written + min (n - written) sz \<and>
           contents (rx_out s') = contents (rx_out s) @ slice frame 2 (2 + min (n - written) sz)
     | _ \<Rightarrow> contents (rx_out s') = contents (rx_out s) \<or>
         valid_frame (rx_crc env) frame sz \<and> frame ! 0 = expected \<and>
           (\<exists>ys. prefix ys (slice frame 2 (2 + min (n - written) sz)) \<and> contents (rx_out s') = contents (rx_out s) @ ys))"
proof (cases "valid_frame (rx_crc env) frame sz \<and> frame ! 0 = expected \<and> written < n")
  case False
  then have "quiet_action (accept_block env n frame sz retries expected written)"
    unfolding accept_block_def Let_def by (auto intro!: quiet_then quiet_parts)
  from quiet_actionD [OF this assms(3)] have "quietly s s'" .
  moreover have "case r of Some (Inr (_, expected', written')) \<Rightarrow> expected' = expected \<and> written' = written | _ \<Rightarrow> True"
    using False assms(3) unfolding accept_block_def Let_def
    by (auto elim!: ym_then_cases simp: ym_ok_def cancel_with_def ym_err_def split: if_splits option.splits sum.splits)
  ultimately show ?thesis using assms(2) by (auto simp: quietly_def split: option.splits sum.splits prod.splits)
next
  case True
  let ?bs = "slice frame 2 (2 + min (n - written) sz)"
  obtain res b where out: "wr ?bs (rx_out s) = (res, b)" by fastforce
  have run: "accept_block env n frame sz retries expected written s =
    ym_then (output_or_cancel (wr ?bs)) (\<lambda>_. ym_then (rx_write [ACK]) (\<lambda>_. ym_ok (0, expected + 1, written + min (n - written) sz))) s"
    using True assms(1) by (simp add: accept_block_def Let_def)
  show ?thesis
  proof (cases res)
    case (Inl w)
    from write_err [OF assms(2) out [unfolded Inl]] have after: "sink_ok b" "\<exists>ys. prefix ys ?bs \<and> contents b = contents (rx_out s) @ ys" by auto
    have cancelled: "cancel_with (YmOutput w) (s\<lparr>rx_out := b\<rparr>) = (r, s')"
      using assms(3) unfolding run then_output [where f = "wr ?bs", OF out] Inl by simp
    then have "\<And>x. r \<noteq> Some (Inr x)" using cancel_with_fails by metis
    moreover from quiet_actionD [OF quiet_parts(2) cancelled] have "quietly (s\<lparr>rx_out := b\<rparr>) s'" .
    ultimately show ?thesis using after True by (auto simp: quietly_def split: option.splits sum.splits)
  next
    case (Inr u)
    from write_ok [OF assms(2) out [unfolded Inr]] have after: "sink_ok b" "contents b = contents (rx_out s) @ ?bs" by auto
    have rest: "ym_then (rx_write [ACK]) (\<lambda>_. ym_ok (0, expected + 1, written + min (n - written) sz)) (s\<lparr>rx_out := b\<rparr>) = (r, s')"
      using assms(3) unfolding run then_output [where f = "wr ?bs", OF out] Inr by simp
    have "quiet_action (ym_then (rx_write [ACK]) (\<lambda>_. ym_ok (0, expected + 1, written + min (n - written) sz)))"
      by (intro quiet_then quiet_parts quiet_basic)
    from quiet_actionD [OF this rest] have "quietly (s\<lparr>rx_out := b\<rparr>) s'" .
    moreover have "\<And>x. r = Some (Inr x) \<Longrightarrow> x = (0, expected + 1, written + min (n - written) sz)"
      using rest by (auto elim!: ym_then_cases simp: ym_ok_def)
    ultimately show ?thesis using after True by (auto simp: quietly_def split: option.splits sum.splits)
  qed
qed

lemma finish_file_written:
  assumes "rx_flush env = fl" "sink_ok (rx_out s)" "finish_file env n written s = (r, s')"
  shows "sink_ok (rx_out s') \<and> suffix (arrived (p_in s')) (arrived (p_in s)) \<and> contents (rx_out s') = contents (rx_out s) \<and>
    (\<forall>u. r = Some (Inr u) \<longrightarrow> written = n)"
proof (cases "written = n")
  case False
  then have run: "cancel_with YmProtocol s = (r, s')" using assms(3) by (simp add: finish_file_def)
  from quiet_actionD [OF quiet_parts(2) run] assms(2) run show ?thesis by (auto simp: quietly_def cancel_with_fails)
next
  case True
  let ?k = "\<lambda>_. ym_then (rx_write [NAK]) (\<lambda>_. ym_then (next_byte (rx_kind env)) (\<lambda>second. if second \<noteq> EOT then cancel_with YmProtocol else ack_and_request))"
  have quiet: "quiet_action (?k ())" by (auto intro!: quiet_then quiet_parts)
  obtain res b where out: "fl (rx_out s) = (res, b)" by fastforce
  from assms(3) True have "ym_then (output_or_cancel fl) ?k s = (r, s')" by (simp add: finish_file_def assms(1))
  then have "quietly (s\<lparr>rx_out := b\<rparr>) s'"
    unfolding then_output [where f = fl, OF out]
    by (auto split: sum.splits dest: quiet_actionD [OF quiet_parts(2)] quiet_actionD [OF quiet])
  with flush_keeps [OF assms(2) out] True show ?thesis by (auto simp: quietly_def)
qed

text \<open>
  A part of the data loop from \<open>s\<close> to \<open>s'\<close>, with the bytes \<open>avail\<close> still unused: what it added
  to the output, and that all of \<open>budget\<close> was written if it returned.
\<close>

definition wrote :: "checksum \<Rightarrow> u8 \<Rightarrow> bytes \<Rightarrow> nat \<Rightarrow> ('e, 'o) rx_state \<Rightarrow> ('x + bytes) option \<Rightarrow> ('e, 'o) rx_state \<Rightarrow> bool" where
  "wrote crc number avail budget s r s' \<longleftrightarrow> sink_ok (rx_out s') \<and> suffix (arrived (p_in s')) (arrived (p_in s)) \<and>
     (\<exists>data. contents (rx_out s') = contents (rx_out s) @ data \<and> delivers crc number avail budget data \<and>
        (\<forall>f. r = Some (Inr f) \<longrightarrow> length f = BLOCK_SIZE + 4 \<and> length data = budget))"

lemma wrote_stop: "sink_ok (rx_out s) \<Longrightarrow> quietly s s' \<Longrightarrow> (\<And>f. r \<noteq> Some (Inr f)) \<Longrightarrow> wrote crc number avail budget s r s'"
  by (auto simp: wrote_def quietly_def)

lemma wrote_quiet:
  assumes "wrote crc number avail budget t r s'" "contents (rx_out t) = contents (rx_out s)"
    "suffix (arrived (p_in t)) (arrived (p_in s))" "suffix avail avail'"
  shows "wrote crc number avail' budget s r s'"
  using assms delivers_later unfolding wrote_def by (metis suffix_order.trans)

lemma wrote_block:
  assumes "wrote crc (number + 1) avail (budget - min budget (length (payload w))) t r s'" "good_block crc number w"
    "contents (rx_out t) = contents (rx_out s) @ take budget (payload w)"
    "suffix (arrived (p_in t)) (arrived (p_in s))" "suffix avail avail'"
  shows "wrote crc number (w @ avail') budget s r s'"
proof -
  from assms(1) obtain data where data: "contents (rx_out s') = contents (rx_out t) @ data"
    "delivers crc (number + 1) avail (budget - min budget (length (payload w))) data"
    "\<forall>f. r = Some (Inr f) \<longrightarrow> length f = BLOCK_SIZE + 4 \<and> length data = budget - min budget (length (payload w))"
    and rest: "sink_ok (rx_out s')" "suffix (arrived (p_in s')) (arrived (p_in t))" unfolding wrote_def by blast
  from delivers_block [OF assms(2) delivers_later [OF data(2) assms(5)]] data(1,3) rest assms(3,4) show ?thesis
    unfolding wrote_def by (intro conjI exI [of _ "take budget (payload w) @ data"]) (auto intro: suffix_order.trans)
qed

text \<open>After a refusal or a block that was not written, the loop goes on with the next control byte.\<close>

lemma wrote_next:
  fixes t s' :: "('e, 'o) rx_state"
  assumes "ym_then (next_byte kind) k t = (r, s')" "sink_ok (rx_out t)"
    and "\<And>c u. read_byte kind t = (Some (Inr c), u) \<Longrightarrow> k c u = (r, s') \<Longrightarrow> wrote crc number (c # arrived (p_in u)) budget u r s'"
  shows "wrote crc number (arrived (p_in t)) budget t r s'"
  using assms(1)
proof (cases rule: ym_then_cases)
  case (runs c u)
  note read = runs(1) [unfolded next_byte_ok]
  from quiet_actionD [OF quiet_line(1) read] have u: "contents (rx_out u) = contents (rx_out t)" "suffix (arrived (p_in u)) (arrived (p_in t))"
    by (simp_all add: quietly_def)
  from wrote_quiet [OF assms(3) [OF read runs(2)] u, of "arrived (p_in t)"] show ?thesis by (simp add: read_byte_ok [OF read])
qed (auto intro!: wrote_stop assms(2) dest: quiet_actionD [OF quiet_parts(6)])

text \<open>
  One block of the data loop. The last assumption is about the passes that follow; the loop goes on with a
  next block number and a count of bytes written.
\<close>

lemma block_written:
  assumes "rx_write_all env = wr" "sink_ok (rx_out s)" "block_size control = Some sz" "length frame = BLOCK_SIZE + 4" "written \<le> n"
    and run: "ym_then (ym_map_err read_failure (read_block (rx_kind env) sz frame))
        (\<lambda>frame. ym_then (accept_block env n frame sz retries expected written) (\<lambda>r s. case r of (retries, expected, written) \<Rightarrow>
           ym_then (next_byte (rx_kind env)) (k frame retries expected written) s)) s = (r, s')"
    and "\<And>frame' t retries' expected' written' u c v.
      read_block (rx_kind env) sz frame s = (Some (Inr frame'), t) \<Longrightarrow>
      length frame' = BLOCK_SIZE + 4 \<Longrightarrow>
      accept_block env n frame' sz retries expected written t = (Some (Inr (retries', expected', written')), u) \<Longrightarrow>
      read_byte (rx_kind env) u = (Some (Inr c), v) \<Longrightarrow> sink_ok (rx_out v) \<Longrightarrow> written' \<le> n \<Longrightarrow>
      k frame' retries' expected' written' c v = (r, s') \<Longrightarrow>
      wrote (rx_crc env) expected' (c # arrived (p_in v)) (n - written') v r s'"
  shows "wrote (rx_crc env) expected (control # arrived (p_in s)) (n - written) s r s'"
  using run
proof (cases rule: ym_then_cases)
  case (runs frame' t)
  note fits = block_size_fits [OF assms(3)] and block = runs(1) [unfolded map_err_ok]
  define w where "w = control # take (sz + 4) frame'"
  from read_block_arrived [OF runs(1)] fits assms(4) have len': "length frame' = BLOCK_SIZE + 4"
    and avail: "control # arrived (p_in s) = w @ arrived (p_in t)" "suffix (arrived (p_in t)) (arrived (p_in s))"
    by (auto simp: w_def suffix_def)
  from quiet_actionD [OF quiet_map_err [OF quiet_parts(5)] runs(1)] have t: "rx_out t = rx_out s" by (simp add: quietly_def)
  then have okt: "sink_ok (rx_out t)" using assms(2) by simp
  have good: "good_block (rx_crc env) expected w" "take (n - written) (payload w) = slice frame' 2 (2 + min (n - written) sz)"
      "length (payload w) = sz"
    if "valid_frame (rx_crc env) frame' sz" "frame' ! 0 = expected"
    using frame_block [OF assms(3) _ that] fits len' by (auto simp: w_def slice_def min.commute slice_simps)
  from runs(2) show ?thesis
  proof (cases rule: ym_then_cases)
    case stops
    from accept_block_written [OF assms(1) okt stops(1)] show ?thesis unfolding avail(1)
      using good delivers_part stops(2) t avail(2) by (auto simp: wrote_def)
  next
    case (fails x)
    from accept_block_written [OF assms(1) okt fails(1)] show ?thesis unfolding avail(1)
      using good delivers_part fails(2) t avail(2) by (auto simp: wrote_def)
  next
    case (runs a u)
    obtain retries' expected' written' where a: "a = (retries', expected', written')" by (cases a)
    from accept_block_written [OF assms(1) okt runs(1)] have oku: "sink_ok (rx_out u)" "suffix (arrived (p_in u)) (arrived (p_in t))"
      and cases: "expected' = expected \<and> written' = written \<and> contents (rx_out u) = contents (rx_out t) \<or>
     valid_frame (rx_crc env) frame' sz \<and> frame' ! 0 = expected \<and> expected' = expected + 1 \<and> written < n \<and>
       written' = written + min (n - written) sz \<and>
       contents (rx_out u) = contents (rx_out t) @ slice frame' 2 (2 + min (n - written) sz)" by (auto simp: a)
    have "wrote (rx_crc env) expected' (arrived (p_in u)) (n - written') u r s'"
    proof (rule wrote_next [OF _ oku(1)])
      show "ym_then (next_byte (rx_kind env)) (k frame' retries' expected' written') u = (r, s')" using runs(2) by (simp add: a)
      fix c v assume read: "read_byte (rx_kind env) u = (Some (Inr c), v)" and rest: "k frame' retries' expected' written' c v = (r, s')"
      from quiet_actionD [OF quiet_line(1) read] oku have "sink_ok (rx_out v)" by (simp add: quietly_def)
      then show "wrote (rx_crc env) expected' (c # arrived (p_in v)) (n - written') v r s'"
        using assms(7) [OF block len' runs(1) [unfolded a] read] rest cases assms(5) by auto
    qed
    then have after: "wrote (rx_crc env) expected' (arrived (p_in u)) (n - written') u r s'" .
    have su: "suffix (arrived (p_in u)) (arrived (p_in s))" using oku(2) avail(2) by (rule suffix_order.trans)
    from cases show ?thesis
    proof
      assume same: "expected' = expected \<and> written' = written \<and> contents (rx_out u) = contents (rx_out t)"
      then have "suffix (arrived (p_in u)) (control # arrived (p_in s))" using su by (simp add: suffix_Cons)
      with after same t su show ?thesis by (auto elim: wrote_quiet)
    next
      assume new: "valid_frame (rx_crc env) frame' sz \<and> frame' ! 0 = expected \<and> expected' = expected + 1 \<and> written < n \<and>
         written' = written + min (n - written) sz \<and>
         contents (rx_out u) = contents (rx_out t) @ slice frame' 2 (2 + min (n - written) sz)"
      with good t have "contents (rx_out u) = contents (rx_out s) @ take (n - written) (payload w)" by simp
      moreover have "n - written' = n - written - min (n - written) (length (payload w))" using new good(3) by simp
      ultimately show ?thesis unfolding avail(1) using after new good su oku(2) by (intro wrote_block [of _ _ _ _ _ u]) auto
    qed
  qed
qed (auto intro!: wrote_stop assms(2) dest: quiet_actionD [OF quiet_map_err [OF quiet_parts(5)]])

text \<open>The data loop delivers what arrives, and returns only when everything announced has been written.\<close>

lemma receive_data_written:
  assumes "rx_write_all env = wr" "rx_flush env = fl" "sink_ok (rx_out s)" "length frame = BLOCK_SIZE + 4" "written \<le> n"
    and "receive_data env n retries expected written frame control s = (r, s')"
  shows "wrote (rx_crc env) expected (control # arrived (p_in s)) (n - written) s r s'"
  using assms
proof (induction env n retries expected written frame control s rule: receive_data.induct)
  case (1 env n retries expected written frame control s)
  note laws = 1(3,4) and ok = 1(5) and len = 1(6) and le = 1(7) and run = 1(8)
  consider "control = CAN" | (finish) "control \<noteq> CAN" "control = EOT" | (junk) "control \<noteq> CAN" "control \<noteq> EOT" "block_size control = None"
    | (block) sz where "control \<noteq> CAN" "control \<noteq> EOT" "block_size control = Some sz" by blast
  then show ?case
  proof cases
    case 1
    then show ?thesis using run ok by (auto intro!: wrote_stop simp: receive_data.simps [of env] ym_err_def)
  next
    case finish
    then have "ym_then (finish_file env n written) (\<lambda>_. ym_ok frame) s = (r, s')" using run by (simp add: receive_data.simps [of env])
    then show ?thesis
      by (cases rule: ym_then_cases) (auto dest!: finish_file_written [OF laws(2) ok] simp: wrote_def ym_ok_def len)
  next
    case junk
    let ?k = "\<lambda>retries control. receive_data env n retries expected written frame control"
    from run junk have "ym_then (refuse (rx_config env) retries) (\<lambda>retries. ym_then (next_byte (rx_kind env)) (?k retries)) s = (r, s')"
      by (simp add: receive_data.simps [of env])
    then show ?thesis
    proof (cases rule: ym_then_cases)
      case (runs retries' t)
      from quiet_actionD [OF quiet_parts(3) runs(1)] have t: "quietly s t" .
      then have "sink_ok (rx_out t)" using ok by (simp add: quietly_def)
      then have "wrote (rx_crc env) expected (arrived (p_in t)) (n - written) t r s'"
      proof (rule wrote_next [OF runs(2)])
        fix c u assume read: "read_byte (rx_kind env) t = (Some (Inr c), u)" and rest: "?k retries' c u = (r, s')"
        from quiet_actionD [OF quiet_line(1) read] t ok have "sink_ok (rx_out u)" by (simp add: quietly_def)
        with "1.IH"(1) [OF junk runs(1) next_byte_ok [THEN iffD2, OF read] laws _ len le rest] show "wrote (rx_crc env) expected (c # arrived (p_in u)) (n - written) u r s'" .
      qed
      with t show ?thesis by (auto simp: quietly_def suffix_Cons elim: wrote_quiet)
    qed (auto intro!: wrote_stop ok dest: quiet_actionD [OF quiet_parts(3)])
  next
    case block
    from run block have "ym_then (ym_map_err read_failure (read_block (rx_kind env) sz frame))
        (\<lambda>frame. ym_then (accept_block env n frame sz retries expected written) (\<lambda>r s. case r of (retries, expected, written) \<Rightarrow>
           ym_then (next_byte (rx_kind env)) (receive_data env n retries expected written frame) s)) s = (r, s')"
      by (simp add: receive_data.simps [of env n retries expected written frame control])
    then show ?thesis
      by (rule block_written [OF laws(1) ok block(3) len le])
        (rule "1.IH"(2) [OF block map_err_ok [THEN iffD2] _ refl refl next_byte_ok [THEN iffD2] laws])
  qed
qed

text \<open>Everything after the metadata block.\<close>

lemma after_metadata_written:
  assumes laws: "rx_write_all env = wr" "rx_flush env = fl" and ok: "sink_ok (rx_out s)" and len: "length frame = BLOCK_SIZE + 4"
    and run: "ym_then (next_byte (rx_kind env)) (\<lambda>control. ym_then (receive_data env n 0 1 0 frame control) (\<lambda>frame.
      ym_then (next_byte (rx_kind env)) (\<lambda>control. ym_then (receive_end env 0 frame control) (\<lambda>_. ym_ok \<lparr>tr_file_size = n\<rparr>)))) s = (r, s')"
  shows "sink_ok (rx_out s') \<and> (\<exists>data. contents (rx_out s') = contents (rx_out s) @ data \<and>
    delivers (rx_crc env) 1 (arrived (p_in s)) n data \<and> (\<forall>t. r = Some (Inr t) \<longrightarrow> tr_file_size t = n \<and> length data = n))"
proof -
  let ?m = "ym_then (next_byte (rx_kind env)) (receive_data env n 0 1 0 frame)"
  let ?k = "\<lambda>frame. ym_then (next_byte (rx_kind env)) (\<lambda>control. ym_then (receive_end env 0 frame control) (\<lambda>_. ym_ok \<lparr>tr_file_size = n\<rparr>))"
  have wrote: "wrote (rx_crc env) 1 (arrived (p_in s)) n s r1 t" if "?m s = (r1, t)" for r1 t
  proof (rule wrote_next [OF that ok])
    fix c u assume read: "read_byte (rx_kind env) s = (Some (Inr c), u)" and rest: "receive_data env n 0 1 0 frame c u = (r1, t)"
    from quiet_actionD [OF quiet_line(1) read] ok have "sink_ok (rx_out u)" by (simp add: quietly_def)
    from receive_data_written [OF laws this len _ rest] show "wrote (rx_crc env) 1 (c # arrived (p_in u)) n u r1 t" by simp
  qed
  have "quiet_action (receive_end env retries f c)" for retries f c by (simp add: quiet_action_def quiet_receive_end)
  then have quiet: "quiet_action (?k f)" for f by (intro quiet_then quiet_parts) auto
  from run have "ym_then ?m ?k s = (r, s')" by (simp add: ym_then_assoc)
  then show ?thesis
  proof (cases rule: ym_then_cases)
    case (runs f t)
    have "\<And>x. r = Some (Inr x) \<Longrightarrow> tr_file_size x = n" using runs(2) by (auto elim!: ym_then_cases simp: ym_ok_def)
    with wrote [OF runs(1)] quiet_actionD [OF quiet runs(2)] show ?thesis by (auto simp: wrote_def quietly_def)
  qed (auto dest: wrote simp: wrote_def)
qed

text \<open>The whole reception.\<close>

lemma receive_written:
  assumes laws: "rx_write_all env = wr" "rx_flush env = fl" and ok: "sink_ok (rx_out s)" and run: "receive_with env s = (r, s')"
  shows "sink_ok (rx_out s') \<and>
    ((\<forall>t. r \<noteq> Some (Inr t)) \<and> contents (rx_out s') = contents (rx_out s) \<or>
     (\<exists>header m avail data. announces env header m \<and> suffix (header @ avail) (arrived (p_in s)) \<and>
        contents (rx_out s') = contents (rx_out s) @ data \<and> delivers (rx_crc env) 1 avail (md_file_size m) data \<and>
        (\<forall>t. r = Some (Inr t) \<longrightarrow> tr_file_size t = md_file_size m \<and> length data = md_file_size m)))"
proof -
  let ?frame = "replicate (BLOCK_SIZE + 4) (0 :: u8)"
  from run show ?thesis unfolding receive_with_def Let_def
  proof (cases rule: ym_then_cases)
    case first: (runs control t)
    from quiet_actionD [OF quiet_request first(1) [unfolded first_control_def]] ok
    have t: "rx_out t = rx_out s" "sink_ok (rx_out t)" by (simp_all add: quietly_def)
    note avail = request_crc_arrived [OF first(1) [unfolded first_control_def]]
    from first(2) show ?thesis
    proof (cases rule: ym_then_cases)
      case (runs a u)
      obtain n f where a: "a = (n, f)" by (cases a)
      from receive_metadata_accepts [OF runs(1)] a obtain header m rest where q: "quietly t u" and f: "length f = BLOCK_SIZE + 4"
        and header: "announces env header m" "suffix (header @ rest) (control # arrived (p_in t))" "suffix (arrived (p_in u)) rest" "n = md_file_size m"
        by (auto simp: header_post_def accepted_header_def)
      from after_metadata_written [OF laws _ f runs(2) [unfolded a prod.case]] q t obtain data where ok': "sink_ok (rx_out s')"
        and data: "contents (rx_out s') = contents (rx_out u) @ data" "delivers (rx_crc env) 1 (arrived (p_in u)) n data"
          "\<forall>t. r = Some (Inr t) \<longrightarrow> tr_file_size t = n \<and> length data = n" by (auto simp: quietly_def)
      have "delivers (rx_crc env) 1 rest n data" "suffix (header @ rest) (arrived (p_in s))" "contents (rx_out s') = contents (rx_out s) @ data"
        using data header avail q t by (auto simp: quietly_def intro: delivers_later suffix_order.trans)
      with ok' header data(3) show ?thesis by blast
    qed (auto simp: t ok header_post_def quietly_def dest!: receive_metadata_accepts)
  qed (auto simp: ok first_control_def quietly_def dest!: quiet_actionD [OF quiet_request])
qed

end

section \<open>The buffer sink is an output\<close>

definition stored :: "buffer_sink \<Rightarrow> bytes" where "stored b = take (bs_written b) (bs_output b)"

definition in_range :: "buffer_sink \<Rightarrow> bool" where "in_range b \<longleftrightarrow> bs_written b \<le> length (bs_output b)"

lemma sink_write_stored:
  assumes "in_range b" "sink_write bs b = (Inr n, b')"
  shows "in_range b' \<and> stored b' = stored b @ take n bs \<and> n \<le> length bs \<and> length (bs_output b') = length (bs_output b)"
  using assms by (auto simp: sink_write_def Let_def in_range_def stored_def remaining_def put_slice_def slice_simps split: if_splits)

lemma sink_write_all_stored:
  assumes "in_range b" "sink_write_all bs b = (res, b')"
  shows "in_range b' \<and> length (bs_output b') = length (bs_output b) \<and>
    (\<exists>ys. prefix ys bs \<and> stored b' = stored b @ ys \<and> (res = Inr () \<longrightarrow> ys = bs))"
  using assms
proof (induction bs b rule: sink_write_all.induct)
  case (1 bs b)
  show ?case
  proof (cases "bs = []")
    case False
    obtain r b1 where out: "sink_write bs b = (r, b1)" by fastforce
    show ?thesis
    proof (cases r)
      case (Inl e)
      with out False 1(2,3) show ?thesis by (auto simp: sink_write_all.simps [of bs] sink_write_def Let_def split: if_splits)
    next
      case (Inr n)
      note w = sink_write_stored [OF 1(2) out [unfolded Inr]]
      from 1(3) out Inr False have "sink_write_all (drop n bs) b1 = (res, b')" by (simp add: sink_write_all.simps [of bs])
      from 1(1) [OF False out [symmetric] Inr _ this] w obtain ys where ys: "in_range b'" "length (bs_output b') = length (bs_output b1)"
        "prefix ys (drop n bs)" "stored b' = stored b1 @ ys" "res = Inr () \<longrightarrow> ys = drop n bs" by blast
      then have "prefix (take n bs @ ys) bs" by (metis append_take_drop_id same_prefix_prefix)
      with ys w show ?thesis by (intro conjI exI [of _ "take n bs @ ys"]) auto
    qed
  qed (use 1(2,3) in \<open>simp add: sink_write_all.simps\<close>)
qed

interpretation buffer: byte_sink sink_write_all sink_flush stored in_range
proof
  fix b b' :: buffer_sink and bs u w r
  show "in_range b \<Longrightarrow> sink_write_all bs b = (Inr u, b') \<Longrightarrow> in_range b' \<and> stored b' = stored b @ bs"
    using sink_write_all_stored [of b bs "Inr u" b'] by auto
  show "in_range b \<Longrightarrow> sink_write_all bs b = (Inl w, b') \<Longrightarrow> in_range b' \<and> (\<exists>ys. prefix ys bs \<and> stored b' = stored b @ ys)"
    using sink_write_all_stored [of b bs "Inl w" b'] by auto
  show "in_range b \<Longrightarrow> sink_flush b = (r, b') \<Longrightarrow> in_range b' \<and> stored b' = stored b"
    by (simp add: sink_flush_def)
qed

lemma sink_write_all_fits:
  assumes "in_range b" "length bs \<le> remaining b"
  shows "\<exists>b'. sink_write_all bs b = (Inr (), b')"
proof (cases "bs = []")
  case False
  with assms show ?thesis by (auto simp: sink_write_all.simps [of bs] sink_write_all.simps [of "[]"] sink_write_def Let_def min_def)
qed (simp add: sink_write_all.simps)

end
