(* ===== verification/Ymodem_Steps.thy ===== *)
theory Ymodem_Steps
  imports Ymodem_Metadata Ymodem_Delivery
begin

text \<open>
  Sender and receiver on a line that neither fails nor loses anything, one exchange at a time.
  \<open>leads P m x M y\<close> says that from a state described by \<open>x\<close> the action \<open>m\<close> goes on like some
  action of \<open>M\<close> from a state described by \<open>y\<close>: like \<open>ym_ok a\<close> when it returns, like
  \<open>ym_wait\<close> when it is left waiting, or like a later pass of the same loop.
\<close>

section \<open>Going on\<close>

definition ym_wait :: "('s, 'x, 'a) action" where "ym_wait s = (None, s)"

definition leads :: "('v \<Rightarrow> 's \<Rightarrow> bool) \<Rightarrow> ('s, 'x, 'a) action \<Rightarrow> 'v \<Rightarrow> ('s, 'x, 'a) action set \<Rightarrow> 'v \<Rightarrow> bool" where
  "leads P m x M y \<longleftrightarrow> (\<forall>s. P x s \<longrightarrow> (\<exists>m'\<in>M. \<exists>s'. P y s' \<and> m s = m' s'))"

lemma leadsI: "(\<And>s. P x s \<Longrightarrow> \<exists>m'\<in>M. \<exists>s'. P y s' \<and> m s = m' s') \<Longrightarrow> leads P m x M y"
  by (simp add: leads_def)

lemma leads_refl: "m \<in> M \<Longrightarrow> leads P m x M x"
  by (auto simp: leads_def)

lemma leads_trans: "leads P m x M y \<Longrightarrow> (\<And>m'. m' \<in> M \<Longrightarrow> leads P m' y N z) \<Longrightarrow> leads P m x N z"
  unfolding leads_def by metis

lemma leads_then:
  assumes "leads P m x (ym_ok ` A) y" "\<And>a. a \<in> A \<Longrightarrow> leads P (k a) y M z"
  shows "leads P (ym_then m k) x M z"
proof (rule leadsI)
  fix s assume "P x s"
  with assms(1) obtain a s1 where a: "a \<in> A" "P y s1" "m s = ym_ok a s1" unfolding leads_def by blast
  with assms(2) obtain m' s' where "m' \<in> M" "P z s'" "k a s1 = m' s'" unfolding leads_def by blast
  moreover have "ym_then m k s = k a s1" using a(3) by (simp add: ym_then_def ym_ok_def)
  ultimately show "\<exists>m'\<in>M. \<exists>s'. P z s' \<and> ym_then m k s = m' s'" by metis
qed

lemma leads_then1: "leads P m x {ym_ok a} y \<Longrightarrow> leads P (k a) y M z \<Longrightarrow> leads P (ym_then m k) x M z"
  using leads_then [of P m x "{a}" y k M z] by simp

lemma leads_wait:
  assumes "leads P m x {ym_wait} y"
  shows "leads P (ym_then m k) x {ym_wait} y"
  using assms by (fastforce simp: leads_def ym_then_def ym_wait_def)

lemma leads_first: "leads P m x {m'} y \<Longrightarrow> leads P (ym_then m k) x {ym_then m' k} y"
  unfolding leads_def ym_then_def by fastforce

lemma leads_then_each:
  assumes "leads P m x M y" "\<And>m'. m' \<in> M \<Longrightarrow> leads P (ym_then m' k) y N z"
  shows "leads P (ym_then m k) x N z"
proof (rule leadsI)
  fix s assume "P x s"
  with assms(1) obtain m' s1 where m': "m' \<in> M" "P y s1" "m s = m' s1" unfolding leads_def by blast
  moreover from this have "ym_then m k s = ym_then m' k s1" by (simp add: ym_then_def)
  ultimately show "\<exists>m'\<in>N. \<exists>s'. P z s' \<and> ym_then m k s = m' s'" using assms(2) unfolding leads_def by metis
qed

lemma leads_cong: "(\<And>s. P x s \<Longrightarrow> m s = m' s) \<Longrightarrow> leads P m' x M y \<Longrightarrow> leads P m x M y"
  by (auto simp: leads_def)

lemma leads_run: "(\<And>s. P x s \<Longrightarrow> m s = (Some (Inr a), f s) \<and> P y (f s)) \<Longrightarrow> leads P m x {ym_ok a} y"
  unfolding leads_def ym_ok_def by fastforce

lemma leads_stop: "(\<And>s. P x s \<Longrightarrow> m s = (None, f s) \<and> P y (f s)) \<Longrightarrow> leads P m x {ym_wait} y"
  unfolding leads_def ym_wait_def by fastforce

lemma map_err_run: "m s = (Some (Inr a), s') \<Longrightarrow> ym_map_err f m s = (Some (Inr a), s')"
  by (simp add: map_err_ok)

lemma leads_map_err: "leads P m x (ym_ok ` A) y \<Longrightarrow> leads P (ym_map_err f m) x (ym_ok ` A) y"
  unfolding ym_map_err_def
  by (rule leads_then [where A = "Inr ` A"]) (auto simp: leads_def ym_attempt_def ym_ok_def split: prod.splits, force)

section \<open>A line without faults\<close>

definition on_line :: "bytes \<Rightarrow> bytes \<Rightarrow> ('e, 'z) port_scheme \<Rightarrow> bool" where
  "on_line inp out s \<longleftrightarrow> p_room s = None \<and> p_flush_error s = None \<and> p_in s = map ReadByte inp \<and> p_out s = out"

text \<open>Packets, the blocks of a file, and their packets with consecutive numbers.\<close>

definition packet :: "checksum \<Rightarrow> u8 \<Rightarrow> u8 \<Rightarrow> bytes \<Rightarrow> bytes" where
  "packet crc control number data = [control, number, NOT number] @ data @ to_be_bytes (crc data)"

definition padded :: "bytes \<Rightarrow> bytes" where
  "padded bs = bs @ replicate (BLOCK_SIZE - length bs) PAD"

function file_blocks :: "bytes \<Rightarrow> bytes list" where
  "file_blocks file = (if file = [] then [] else padded (take BLOCK_SIZE file) # file_blocks (drop BLOCK_SIZE file))"
  by pat_completeness auto
termination by (relation "measure length") (auto simp: BLOCK_SIZE_def)

declare file_blocks.simps [simp del]

fun packets :: "checksum \<Rightarrow> u8 \<Rightarrow> bytes list \<Rightarrow> bytes list" where
  "packets crc number [] = []"
| "packets crc number (b # bs) = packet crc STX number b # packets crc (number + 1) bs"

lemma length_packets [simp]: "length (packets crc number bs) = length bs"
  by (induction crc number bs rule: packets.induct) auto

section \<open>The sender\<close>

text \<open>What a source promises: a read into a non-empty buffer returns the next bytes, at least one of them.\<close>

definition reads_file :: "(bytes \<Rightarrow> 's \<Rightarrow> ('se + usize) \<times> bytes \<times> 's) \<Rightarrow> ('s \<Rightarrow> bytes) \<Rightarrow> bool" where
  "reads_file rd pending \<longleftrightarrow> (\<forall>buf src. buf \<noteq> [] \<and> pending src \<noteq> [] \<longrightarrow>
     (\<exists>count buf' src'. rd buf src = (Inr count, buf', src') \<and> 0 < count \<and> count \<le> length buf \<and> count \<le> length (pending src) \<and>
        length buf' = length buf \<and> take count buf' = take count (pending src) \<and> pending src' = drop count (pending src)))"

definition sending :: "('s \<Rightarrow> bytes) \<Rightarrow> bytes \<times> bytes \<times> bytes \<Rightarrow> ('e, 's, 'n) tx_state \<Rightarrow> bool" where
  "sending pending x s \<longleftrightarrow> (case x of (inp, out, file) \<Rightarrow> on_line inp out s \<and> pending (tx_source s) = file)"

lemma sends_control: "leads (sending pending) (write_control b) (inp, out, file) {ym_ok ()} (inp, out @ [b], file)"
  by (rule leads_run [where f = "\<lambda>s. s\<lparr>p_out := p_out s @ [b]\<rparr>"])
    (simp add: sending_def on_line_def write_control_def tx_write_def tx_flush_def ym_map_err_def ym_then_def ym_attempt_def
      port_write_def port_flush_def ym_ok_def)

lemma sends_notify:
  assumes "\<And>ev n. fst (tx_notify env ev n) = Inr ()"
  shows "leads (sending pending) (notify env ev) (inp, out, file) {ym_ok ()} (inp, out, file)"
  by (rule leads_run [where f = "\<lambda>s. s\<lparr>tx_observer := snd (tx_notify env ev (tx_observer s))\<rparr>"])
    (use assms [of ev] in \<open>auto simp: sending_def on_line_def notify_def split: prod.splits sum.splits, metis fst_conv sum.simps(4)\<close>)

lemma sends_expect:
  "leads (sending pending) (expect_control env b) (b # inp, out, file) {ym_ok ()} (inp, out, file)"
  "leads (sending pending) (expect_control env b) ([], out, file) {ym_wait} ([], out, file)"
   apply (rule leads_run [where f = "\<lambda>s. s\<lparr>p_in := tl (p_in s)\<rparr>"])
   apply (simp add: sending_def on_line_def expect_control_def ym_then_def ym_attempt_def read_byte_def ym_ok_def)
  apply (rule leads_stop [where f = "\<lambda>s. s"])
  apply (simp add: sending_def on_line_def expect_control_def ym_then_def ym_attempt_def read_byte_def)
  done

lemma sends_wait:
  assumes "start_retries (tx_config env) \<noteq> 0"
  shows "leads (sending pending) (wait_for_crc_request env) (CRC_REQUEST # inp, out, file) {ym_ok ()} (inp, out, file)"
    and "leads (sending pending) (wait_for_crc_request env) ([], out, file) {ym_wait} ([], out, file)"
   apply (rule leads_run [where f = "\<lambda>s. s\<lparr>p_in := tl (p_in s)\<rparr>"])
  using assms apply (simp add: sending_def on_line_def wait_for_crc_request_def wait_loop.simps ym_then_def ym_attempt_def read_byte_def ym_ok_def)
  apply (rule leads_stop [where f = "\<lambda>s. s"])
  using assms apply (simp add: sending_def on_line_def wait_for_crc_request_def wait_loop.simps ym_then_def ym_attempt_def read_byte_def)
  done

lemma sends_write_packet:
  "leads (sending pending) (write_packet pre data crc) (inp, out, file) {ym_ok ()} (inp, out @ pre @ data @ crc, file)"
  by (rule leads_run [where f = "\<lambda>s. s\<lparr>p_out := p_out s @ pre @ data @ crc\<rparr>"])
    (simp add: sending_def on_line_def write_packet_def tx_write_def tx_flush_def ym_map_err_def ym_then_def ym_attempt_def
      port_write_def port_flush_def ym_ok_def)

lemma sends_packet:
  "leads (sending pending) (send_packet env control number data) (ACK # inp, out, file) {ym_ok ()} (inp, out @ packet (tx_crc env) control number data, file)"
  "leads (sending pending) (send_packet env control number data) ([], out, file) {ym_wait} ([], out @ packet (tx_crc env) control number data, file)"
proof -
  let ?p = "packet (tx_crc env) control number data"
  let ?tx = "write_packet [control, number, NOT number] data (to_be_bytes (tx_crc env data))"
  have sent: "leads (sending pending) ?tx (inp, out, file) {ym_ok ()} (inp, out @ ?p, file)" for inp
    using sends_write_packet [of pending "[control, number, NOT number]" data "to_be_bytes (tx_crc env data)"] by (simp add: packet_def)
  have unfold: "send_packet env control number data = ym_then ?tx (\<lambda>_.
     ym_then (ym_attempt (read_byte (tx_kind env))) (\<lambda>r s.
       case r of
         Inr b \<Rightarrow>
           if b = ACK then ym_ok () s
           else if b = NAK
           then (if 0 \<ge> max_retries (tx_config env) then ym_err SdProtocol s
                 else packet_loop (tx_kind env) (tx_config env) [control, number, NOT number] data (to_be_bytes (tx_crc env data)) (sat_add 0 1) s)
           else if b = CAN then ym_err SdCancelled s
           else ym_err SdProtocol s
       | Inl (RbIo e) \<Rightarrow> ym_err (SdIo e) s
       | Inl RbEof \<Rightarrow> ym_err SdEndOfStream s
       | Inl RbTimeout \<Rightarrow>
           (if 0 \<ge> max_retries (tx_config env) then ym_err SdTimeout s
            else packet_loop (tx_kind env) (tx_config env) [control, number, NOT number] data (to_be_bytes (tx_crc env data)) (sat_add 0 1) s)))"
    unfolding send_packet_def Let_def by (rule ext) (rule packet_loop.simps)
  show "leads (sending pending) (send_packet env control number data) (ACK # inp, out, file) {ym_ok ()} (inp, out @ ?p, file)"
    unfolding unfold
    by (rule leads_then1 [OF sent leads_run [where f = "\<lambda>s. s\<lparr>p_in := tl (p_in s)\<rparr>"]])
      (simp add: sending_def on_line_def ym_then_def ym_attempt_def read_byte_def ym_ok_def)
  show "leads (sending pending) (send_packet env control number data) ([], out, file) {ym_wait} ([], out @ ?p, file)"
    unfolding unfold
    by (rule leads_then1 [OF sent leads_stop [where f = "\<lambda>s. s"]])
      (simp add: sending_def on_line_def ym_then_def ym_attempt_def read_byte_def)
qed

text \<open>Filling a block from the source.\<close>

lemma fill_block_reads:
  assumes rd: "reads_file (tx_read env) pending" and "on_line inp out s" "pending (tx_source s) = rest"
    and "used \<le> wanted" "wanted \<le> length data" "wanted - used \<le> length rest"
  shows "\<exists>s'. fill_block env wanted used data s = (Some (Inr (take used data @ take (wanted - used) rest @ drop wanted data)), s') \<and>
    on_line inp out s' \<and> pending (tx_source s') = drop (wanted - used) rest"
  using assms(2-)
proof (induction "wanted - used" arbitrary: used data s rest rule: less_induct)
  case less
  show ?case
  proof (cases "used < wanted")
    case True
    let ?buf = "slice data used wanted"
    have len: "length ?buf = wanted - used" using less.prems by (simp add: slice_simps)
    then have "?buf \<noteq> []" "rest \<noteq> []" using True less.prems by auto
    then obtain count buf src where rd': "tx_read env ?buf (tx_source s) = (Inr count, buf, src)" "0 < count" "count \<le> wanted - used"
      "length buf = wanted - used" "take count buf = take count rest" "pending src = drop count rest"
      using rd less.prems(2) len unfolding reads_file_def by metis
    let ?data = "put_slice data used buf" and ?s = "s\<lparr>tx_source := src\<rparr>"
    have run: "fill_block env wanted used data s = fill_block env wanted (used + count) ?data ?s"
      using True rd' by (subst fill_block.simps) (simp add: ym_then_def read_source_def)
    have data: "take (used + count) ?data = take used data @ take count rest" "drop wanted ?data = drop wanted data"
      using less.prems rd' True by (simp_all add: put_slice_def take_append flip: rd'(5))
    have "wanted - (used + count) < wanted - used" "on_line inp out ?s" "pending (tx_source ?s) = drop count rest" "used + count \<le> wanted"
      "wanted \<le> length ?data" "wanted - (used + count) \<le> length (drop count rest)"
      using less.prems rd' True by (auto simp: on_line_def slice_simps)
    from less.hyps [OF this]
    obtain s' where "fill_block env wanted (used + count) ?data ?s =
        (Some (Inr (take (used + count) ?data @ take (wanted - (used + count)) (drop count rest) @ drop wanted ?data)), s')"
      "on_line inp out s'" "pending (tx_source s') = drop (wanted - (used + count)) (drop count rest)"
      by blast
    moreover have "take count rest @ take (wanted - (used + count)) (drop count rest) = take (wanted - used) rest"
      using rd' by (simp flip: take_add)
    moreover have "wanted - (used + count) + count = wanted - used" using rd'(3) True by simp
    ultimately show ?thesis by (auto simp: run data)
  qed (use less.prems in \<open>auto simp: fill_block.simps ym_ok_def\<close>)
qed

lemma sends_fill:
  fixes env :: "('e, 's, 'n, 'se, 'o) tx_env"
  assumes "reads_file (tx_read env) pending" "wanted \<le> BLOCK_SIZE" "wanted \<le> length rest"
  shows "leads (sending pending) (fill_block env wanted 0 (replicate BLOCK_SIZE PAD)) (inp, out, rest)
    {ym_ok (padded (take wanted rest))} (inp, out, drop wanted rest)"
proof (rule leadsI)
  fix s :: "('e, 's, 'n) tx_state"
  assume "sending pending (inp, out, rest) s"
  with fill_block_reads [OF assms(1), of inp out s rest 0 wanted "replicate BLOCK_SIZE PAD"] assms(2,3) obtain s' where
    "fill_block env wanted 0 (replicate BLOCK_SIZE PAD) s = (Some (Inr (take wanted rest @ replicate (BLOCK_SIZE - wanted) PAD)), s')"
    "on_line inp out s'" "pending (tx_source s') = drop wanted rest" by (auto simp: sending_def)
  with assms(3) show "\<exists>m'\<in>{ym_ok (padded (take wanted rest))}. \<exists>s'. sending pending (inp, out, drop wanted rest) s' \<and>
      fill_block env wanted 0 (replicate BLOCK_SIZE PAD) s = m' s'"
    by (auto simp: sending_def padded_def ym_ok_def)
qed

text \<open>One block of the data loop: sent, and once it is acknowledged the loop goes on with the next one.\<close>

lemma sends_block:
  fixes number :: u8
  assumes "reads_file (tx_read env) pending" "\<And>ev n. fst (tx_notify env ev n) = Inr ()" "rest \<noteq> []" "sent + length rest = n"
  defines "p \<equiv> packet (tx_crc env) STX number (padded (take BLOCK_SIZE rest))"
  shows "leads (sending pending) (send_data env n sent number) (ACK # inp, out, rest)
      {send_data env n (n - length (drop BLOCK_SIZE rest)) (number + 1)} (inp, out @ p, drop BLOCK_SIZE rest)"
    and "leads (sending pending) (send_data env n sent number) ([], out, rest) {ym_wait} ([], out @ p, drop BLOCK_SIZE rest)"
proof -
  let ?w = "min (length rest) BLOCK_SIZE"
  have w: "sent < n" "min (n - sent) BLOCK_SIZE = ?w" "take ?w rest = take BLOCK_SIZE rest" "drop ?w rest = drop BLOCK_SIZE rest"
    "sent + ?w = n - length (drop BLOCK_SIZE rest)"
    using assms(3,4) by (auto simp: min_def)
  have unfold: "send_data env n sent number = ym_then (fill_block env ?w 0 (replicate BLOCK_SIZE PAD)) (\<lambda>data.
      ym_then (send_packet env STX number data) (\<lambda>_. ym_then (notify env (Progress (n - length (drop BLOCK_SIZE rest)) n)) (\<lambda>_.
        send_data env n (n - length (drop BLOCK_SIZE rest)) (number + 1))))"
    by (rule ext) (subst send_data.simps, simp add: w Let_def)
  have fill: "leads (sending pending) (fill_block env ?w 0 (replicate BLOCK_SIZE PAD)) (inp, out, rest)
      {ym_ok (padded (take BLOCK_SIZE rest))} (inp, out, drop BLOCK_SIZE rest)" for inp
    using sends_fill [OF assms(1), of ?w rest] by (simp only: w min.cobounded1 min.cobounded2)
  show "leads (sending pending) (send_data env n sent number) (ACK # inp, out, rest)
      {send_data env n (n - length (drop BLOCK_SIZE rest)) (number + 1)} (inp, out @ p, drop BLOCK_SIZE rest)"
    unfolding unfold p_def
    by (intro leads_then1 [OF fill] leads_then1 [OF sends_packet(1)] leads_then1 [OF sends_notify] leads_refl assms(2)) simp
  show "leads (sending pending) (send_data env n sent number) ([], out, rest) {ym_wait} ([], out @ p, drop BLOCK_SIZE rest)"
    unfolding unfold p_def by (intro leads_then1 [OF fill] leads_wait [OF sends_packet(2)])
qed

lemma file_blocks_drop:
  "length (file_blocks (drop BLOCK_SIZE rest)) = length (file_blocks rest) - 1"
  "rest \<noteq> [] \<Longrightarrow> packets crc number (file_blocks rest) =
     packet crc STX number (padded (take BLOCK_SIZE rest)) # packets crc (number + 1) (file_blocks (drop BLOCK_SIZE rest))"
  by (simp_all add: file_blocks.simps [of rest]) (simp add: file_blocks.simps)

text \<open>The data loop after \<open>j\<close> acknowledgements.\<close>

lemma sends_blocks:
  assumes "reads_file (tx_read env) pending" "\<And>ev n. fst (tx_notify env ev n) = Inr ()"
    "sent + length rest = n" "j \<le> length (file_blocks rest)"
  shows "leads (sending pending) (send_data env n sent number) (replicate j ACK @ inp, out, rest)
      {send_data env n (n - length (drop (j * BLOCK_SIZE) rest)) (number + of_nat j)}
      (inp, out @ concat (take j (packets (tx_crc env) number (file_blocks rest))), drop (j * BLOCK_SIZE) rest)"
  using assms(3,4)
proof (induction j arbitrary: sent number out rest)
  case 0
  then have "n - length (drop (0 * BLOCK_SIZE) rest) = sent" by simp
  then show ?case by (auto intro: leads_refl)
next
  case (Suc j)
  from Suc.prems(2) have ne: "rest \<noteq> []" by (auto simp: file_blocks.simps)
  let ?rest = "drop BLOCK_SIZE rest" and ?p = "packet (tx_crc env) STX number (padded (take BLOCK_SIZE rest))"
  have "n - length ?rest + length ?rest = n" "j \<le> length (file_blocks ?rest)" using Suc.prems by (auto simp: file_blocks_drop)
  note IH = Suc.IH [OF this, of "number + 1" "out @ ?p"]
  from sends_block(1) [OF assms(1,2) ne Suc.prems(1), of number "replicate j ACK @ inp" out]
  have "leads (sending pending) (send_data env n sent number) (replicate (Suc j) ACK @ inp, out, rest)
      {send_data env n (n - length ?rest) (number + 1)} (replicate j ACK @ inp, out @ ?p, ?rest)" by simp
  from leads_trans [OF this] IH show ?case by (simp add: file_blocks_drop(2) [OF ne] add_ac)
qed

text \<open>
  The whole sender. Its writes are the metadata packet, the data packets, two \<open>EOT\<close> and the empty
  packet; \<open>sent_after i\<close> is what has been written when \<open>i\<close> answers have been read, the
  first answer being the request for the metadata.
\<close>

definition able_sender :: "('e, 's, 'n, 'se, 'o) tx_env \<Rightarrow> ('s \<Rightarrow> bytes) \<Rightarrow> ym_metadata \<Rightarrow> bytes \<Rightarrow> bool" where
  "able_sender env pending m header \<longleftrightarrow> reads_file (tx_read env) pending \<and> (\<forall>ev n. fst (tx_notify env ev n) = Inr ()) \<and>
     start_retries (tx_config env) \<noteq> 0 \<and> metadata_block m = Inr header"

definition send_tail :: "('e, 's, 'n, 'se, 'o) tx_env \<Rightarrow> ym_metadata \<Rightarrow> (('e, 's, 'n) tx_state, ('e, 'se, 'o) send_error, ym_transfer) action" where
  "send_tail env m =
     ym_then (write_control EOT) (\<lambda>_.
     ym_then (expect_control env NAK) (\<lambda>_.
     ym_then (write_control EOT) (\<lambda>_.
     ym_then (expect_control env ACK) (\<lambda>_.
     ym_then (wait_for_crc_request env) (\<lambda>_.
     ym_then (send_packet env SOH 0 (replicate HEADER_BLOCK_SIZE 0)) (\<lambda>_.
     ym_then (notify env (Progress (md_file_size m) (md_file_size m))) (\<lambda>_.
       ym_ok \<lparr>tr_file_size = md_file_size m\<rparr>)))))))"

definition end_packet :: "checksum \<Rightarrow> bytes" where "end_packet crc = packet crc SOH 0 (replicate HEADER_BLOCK_SIZE 0)"

lemma send_starts:
  assumes able: "able_sender env pending m header"
  defines "hp \<equiv> packet (tx_crc env) SOH 0 header"
  shows "leads (sending pending) (send_with env m) ([CRC_REQUEST], out, rest) {ym_wait} ([], out @ hp, rest)"
    and "leads (sending pending) (send_with env m) (CRC_REQUEST # ACK # CRC_REQUEST # inp, out, rest)
      {ym_then (send_data env (md_file_size m) 0 1) (\<lambda>_. send_tail env m)} (inp, out @ hp, rest)"
proof -
  from able have laws: "start_retries (tx_config env) \<noteq> 0" "\<And>ev n. fst (tx_notify env ev n) = Inr ()"
    and header: "metadata_block m = Inr header" by (auto simp: able_sender_def)
  note notifies = sends_notify [OF laws(2)] and waits = sends_wait [OF laws(1)]
  show "leads (sending pending) (send_with env m) ([CRC_REQUEST], out, rest) {ym_wait} ([], out @ hp, rest)"
    unfolding send_with_def header sum.case Let_def hp_def
    by (intro leads_then1 [OF notifies] leads_then1 [OF waits(1)] leads_wait [OF sends_packet(2)])
  show "leads (sending pending) (send_with env m) (CRC_REQUEST # ACK # CRC_REQUEST # inp, out, rest)
      {ym_then (send_data env (md_file_size m) 0 1) (\<lambda>_. send_tail env m)} (inp, out @ hp, rest)"
    unfolding send_with_def header sum.case Let_def hp_def send_tail_def
    by (intro leads_then1 [OF notifies] leads_then1 [OF waits(1)] leads_then1 [OF sends_packet(1)] leads_refl) simp
qed

lemma send_ends:
  assumes able: "able_sender env pending m header"
  shows "leads (sending pending) (send_tail env m) ([], out, rest) {ym_wait} ([], out @ [EOT], rest)"
    and "leads (sending pending) (send_tail env m) ([NAK], out, rest) {ym_wait} ([], out @ [EOT, EOT], rest)"
    and "leads (sending pending) (send_tail env m) ([NAK, ACK, CRC_REQUEST], out, rest) {ym_wait} ([], out @ [EOT, EOT] @ end_packet (tx_crc env), rest)"
    and "leads (sending pending) (send_tail env m) ([NAK, ACK, CRC_REQUEST, ACK], out, rest)
      {ym_ok \<lparr>tr_file_size = md_file_size m\<rparr>} ([], out @ [EOT, EOT] @ end_packet (tx_crc env), rest)"
proof -
  from able have laws: "start_retries (tx_config env) \<noteq> 0" "\<And>ev n. fst (tx_notify env ev n) = Inr ()" by (auto simp: able_sender_def)
  note steps = leads_then1 [OF sends_control] leads_then1 [OF sends_expect(1)] leads_then1 [OF sends_wait(1) [OF laws(1)]]
    leads_then1 [OF sends_packet(1)] leads_then1 [OF sends_notify [OF laws(2)]]
  have split: "out @ [EOT, EOT] = (out @ [EOT]) @ [EOT]" "out @ [EOT, EOT] @ end_packet crc = ((out @ [EOT]) @ [EOT]) @ packet crc SOH 0 (replicate HEADER_BLOCK_SIZE 0)" for crc
    by (simp_all add: end_packet_def)
  show "leads (sending pending) (send_tail env m) ([], out, rest) {ym_wait} ([], out @ [EOT], rest)"
    unfolding send_tail_def by (intro steps leads_wait [OF sends_expect(2)])
  show "leads (sending pending) (send_tail env m) ([NAK], out, rest) {ym_wait} ([], out @ [EOT, EOT], rest)"
    unfolding send_tail_def split by (intro steps leads_wait [OF sends_expect(2)])
  show "leads (sending pending) (send_tail env m) ([NAK, ACK, CRC_REQUEST], out, rest) {ym_wait} ([], out @ [EOT, EOT] @ end_packet (tx_crc env), rest)"
    unfolding send_tail_def split by (intro steps(1-3) leads_wait [OF sends_packet(2)])
  show "leads (sending pending) (send_tail env m) ([NAK, ACK, CRC_REQUEST, ACK], out, rest)
      {ym_ok \<lparr>tr_file_size = md_file_size m\<rparr>} ([], out @ [EOT, EOT] @ end_packet (tx_crc env), rest)"
    unfolding send_tail_def split by (intro steps leads_refl) simp
qed

end
