(* ===== verification/Ymodem_Answers.thy ===== *)
theory Ymodem_Answers
  imports Ymodem_Steps
begin

text \<open>
  The receiver on a line without faults, one packet at a time: each packet with the expected number is
  written to the buffer and acknowledged.
\<close>

section \<open>The receiver\<close>

text \<open>The input still to come, the answers written, and the data taken by an output with the contents described by \<open>H\<close>.\<close>

definition receiving :: "(bytes \<Rightarrow> 'o \<Rightarrow> bool) \<Rightarrow> bytes \<times> bytes \<times> bytes \<Rightarrow> ('e, 'o) rx_state \<Rightarrow> bool" where
  "receiving H x s \<longleftrightarrow> (case x of (inp, out, data) \<Rightarrow> on_line inp out s \<and> H data (rx_out s))"

lemma receives_write: "leads (receiving H) (rx_write bs) (inp, out, data) {ym_ok ()} (inp, out @ bs, data)"
  by (rule leads_run [where f = "\<lambda>s. s\<lparr>p_out := p_out s @ bs\<rparr>"])
    (simp add: receiving_def on_line_def rx_write_def ym_map_err_def ym_then_def ym_attempt_def port_write_def port_flush_def ym_ok_def)

lemma receives_ack: "leads (receiving H) ack_and_request (inp, out, data) {ym_ok ()} (inp, out @ [ACK, CRC_REQUEST], data)"
  by (rule leads_run [where f = "\<lambda>s. s\<lparr>p_out := p_out s @ [ACK, CRC_REQUEST]\<rparr>"])
    (simp add: receiving_def on_line_def ack_and_request_def rx_write_def ym_map_err_def ym_then_def ym_attempt_def port_write_def port_flush_def ym_ok_def)

lemma receives_byte:
  "leads (receiving H) (next_byte kind) (b # inp, out, data) {ym_ok b} (inp, out, data)"
  "leads (receiving H) (next_byte kind) ([], out, data) {ym_wait} ([], out, data)"
   apply (rule leads_run [where f = "\<lambda>s. s\<lparr>p_in := tl (p_in s)\<rparr>"])
   apply (simp add: receiving_def on_line_def next_byte_ok read_byte_def)
  apply (rule leads_stop [where f = "\<lambda>s. s"])
  apply (simp add: receiving_def on_line_def next_byte_def ym_map_err_def ym_then_def ym_attempt_def read_byte_def)
  done

lemma receives_first:
  assumes "start_retries cfg \<noteq> 0"
  shows "leads (receiving H) (first_control kind cfg) (b # inp, out, data) {ym_ok b} (inp, out @ [CRC_REQUEST], data)"
    and "leads (receiving H) (first_control kind cfg) ([], out, data) {ym_wait} ([], out @ [CRC_REQUEST], data)"
proof -
  from assms obtain k where "unat (start_retries cfg) = Suc k" by (metis not0_implies_Suc unat_eq_zero)
  then have unfold: "first_control kind cfg = ym_then (rx_write [CRC_REQUEST]) (\<lambda>_. ym_then (ym_attempt (read_byte kind)) (\<lambda>r.
       case r of
         Inr b \<Rightarrow> ym_ok b
       | Inl RbTimeout \<Rightarrow> request_crc kind k
       | Inl RbEof \<Rightarrow> ym_err YmEndOfStream
       | Inl (RbIo e) \<Rightarrow> ym_err (YmIo e)))" by (simp add: first_control_def)
  show "leads (receiving H) (first_control kind cfg) (b # inp, out, data) {ym_ok b} (inp, out @ [CRC_REQUEST], data)"
    unfolding unfold by (rule leads_then1 [OF receives_write leads_run [where f = "\<lambda>s. s\<lparr>p_in := tl (p_in s)\<rparr>"]])
      (simp add: receiving_def on_line_def ym_then_def ym_attempt_def read_byte_def ym_ok_def)
  show "leads (receiving H) (first_control kind cfg) ([], out, data) {ym_wait} ([], out @ [CRC_REQUEST], data)"
    unfolding unfold by (rule leads_then1 [OF receives_write leads_stop [where f = "\<lambda>s. s"]])
      (simp add: receiving_def on_line_def ym_then_def ym_attempt_def read_byte_def)
qed

lemma read_bytes_line:
  assumes "i + length bs \<le> length frame"
  shows "leads (receiving H) (read_bytes kind (length bs) i frame) (bs @ inp, out, data) {ym_ok (put_slice frame i bs)} (inp, out, data)"
  using assms
proof (induction bs arbitrary: i frame)
  case Nil
  then show ?case by (auto intro: leads_refl simp: put_slice_def)
next
  case (Cons b bs)
  have "leads (receiving H) (read_byte kind) (b # bs @ inp, out, data) {ym_ok b} (bs @ inp, out, data)"
    by (rule leads_run [where f = "\<lambda>s. s\<lparr>p_in := tl (p_in s)\<rparr>"]) (simp add: receiving_def on_line_def read_byte_def)
  moreover have "leads (receiving H) (read_bytes kind (length bs) (Suc i) (frame[i := b])) (bs @ inp, out, data)
      {ym_ok (put_slice frame i (b # bs))} (inp, out, data)"
    using Cons.IH [of "Suc i" "frame[i := b]"] Cons.prems by (simp add: put_slice_snoc)
  ultimately show ?case unfolding list.size read_bytes.simps append_Cons
    by (simp del: put_slice_def) (rule leads_then1)
qed

lemma receives_block:
  assumes "length bs = sz + 4" "sz + 4 \<le> length frame"
  shows "leads (receiving H) (ym_map_err f (read_block kind sz frame)) (bs @ inp, out, data)
    (ym_ok ` {frame'. length frame' = length frame \<and> take (sz + 4) frame' = bs}) (inp, out, data)"
proof -
  have "put_slice frame 0 bs \<in> {frame'. length frame' = length frame \<and> take (sz + 4) frame' = bs}" using assms by (simp add: put_slice_def)
  then have sub: "{ym_ok (put_slice frame 0 bs)} \<subseteq> ym_ok ` {frame'. length frame' = length frame \<and> take (sz + 4) frame' = bs}" by blast
  from read_bytes_line [of 0 bs frame H kind inp out data] assms
  have "leads (receiving H) (read_block kind sz frame) (bs @ inp, out, data) {ym_ok (put_slice frame 0 bs)} (inp, out, data)"
    by (simp add: read_block_def)
  then have "leads (receiving H) (read_block kind sz frame) (bs @ inp, out, data)
    (ym_ok ` {frame'. length frame' = length frame \<and> take (sz + 4) frame' = bs}) (inp, out, data)" using sub unfolding leads_def by blast
  then show ?thesis by (rule leads_map_err)
qed

text \<open>The frame a packet leaves behind.\<close>

lemma packet_frame:
  assumes "take (length data + 4) frame = tl (packet crc control number data)" "length data + 4 \<le> length frame"
  shows "valid_frame crc frame (length data)" "frame ! 0 = number" "slice frame 2 (2 + length data) = data"
proof -
  from assms(1) have w: "take (length data + 4) frame = number # NOT number # data @ to_be_bytes (crc data)" by (simp add: packet_def)
  have "length (to_be_bytes (crc data)) = 2" by simp
  then obtain x y where crc: "to_be_bytes (crc data) = [x, y]" by (auto simp: numeral_2_eq_2 length_Suc_conv simp del: length_to_be_bytes)
  have nth: "frame ! i = (number # NOT number # data @ to_be_bytes (crc data)) ! i" if "i < length data + 4" for i
    by (metis nth_take that w)
  show "frame ! 0 = number" using nth [of 0] by simp
  have "take (2 + length data) frame = number # NOT number # data"
    using arg_cong [OF w, of "take (2 + length data)"] by simp
  moreover have "slice frame 2 (2 + length data) = drop 2 (take (2 + length data) frame)" by (simp add: slice_def drop_take)
  ultimately show slice: "slice frame 2 (2 + length data) = data" by simp
  have "from_be_bytes [frame ! (2 + length data), frame ! (3 + length data)] = crc data"
    using nth [of "2 + length data"] nth [of "3 + length data"] from_to_be_bytes [of "crc data", simplified]
    by (simp add: crc nth_append numeral_3_eq_3)
  then show "valid_frame crc frame (length data)" using nth [of 0] nth [of 1] slice by (simp add: valid_frame_def Let_def)
qed

text \<open>The data loop from the point where it reads the next control byte.\<close>

definition data_loop ::
  "('e, 'o, 'w, 'm) rx_env \<Rightarrow> usize \<Rightarrow> u8 \<Rightarrow> u8 \<Rightarrow> usize \<Rightarrow> bytes \<Rightarrow> (('e, 'o) rx_state, ('e, 'w, 'm) ym_error, bytes) action" where
  "data_loop env n retries expected written frame = ym_then (next_byte (rx_kind env)) (receive_data env n retries expected written frame)"

definition data_loops where
  "data_loops env n expected written = {data_loop env n retries expected written frame |retries frame. length frame = BLOCK_SIZE + 4}"

lemma length_file_block: "block \<in> set (file_blocks rest) \<Longrightarrow> length block = BLOCK_SIZE"
  by (induction rest rule: file_blocks.induct) (subst (asm) (2) file_blocks.simps, auto simp: padded_def split: if_splits)

text \<open>The first and the last packet.\<close>

lemma receives_header:
  assumes "metadata_block m = Inr header" "md_file_size m \<le> rx_usize_max env" "rx_on_metadata env m = Inr ()" "length frame = BLOCK_SIZE + 4"
  shows "leads (receiving H) (receive_metadata env 0 frame SOH) (tl (packet (rx_crc env) SOH 0 header) @ inp, out, data)
    (ym_ok ` {(n, f). n = md_file_size m \<and> length f = BLOCK_SIZE + 4}) (inp, out @ [ACK, CRC_REQUEST], data)"
proof -
  let ?w = "packet (rx_crc env) SOH 0 header"
  have soh: "SOH \<noteq> CAN" "block_size SOH = Some HEADER_BLOCK_SIZE" "length (tl ?w) = HEADER_BLOCK_SIZE + 4" "HEADER_BLOCK_SIZE + 4 \<le> length frame"
    using length_metadata_block [OF assms(1)] assms(4) by (simp_all add: control_defs block_size_def packet_def HEADER_BLOCK_SIZE_def BLOCK_SIZE_def)
  have step: "leads (receiving H) (\<lambda>s. if \<not> valid_frame (rx_crc env) f HEADER_BLOCK_SIZE \<or> f ! 0 \<noteq> 0
            then ym_then (refuse (rx_config env) 0) (\<lambda>retries.
                 ym_then (next_byte (rx_kind env)) (\<lambda>control. receive_metadata env retries f control)) s
            else case parse_metadata (rx_usize_max env) (slice f 2 (2 + HEADER_BLOCK_SIZE)) of
                   None \<Rightarrow> cancel_with YmProtocol s
                 | Some metadata \<Rightarrow>
                     (case rx_on_metadata env metadata of
                        Inl e \<Rightarrow> cancel_with (YmMetadata e) s
                      | Inr _ \<Rightarrow> ym_then ack_and_request (\<lambda>_. ym_ok (md_file_size metadata, f)) s)) (inp, out, data)
      (ym_ok ` {(n, f). n = md_file_size m \<and> length f = BLOCK_SIZE + 4}) (inp, out @ [ACK, CRC_REQUEST], data)"
    if f: "length f = length frame" "take (HEADER_BLOCK_SIZE + 4) f = tl ?w" for f
  proof -
    note good = packet_frame [of header f "rx_crc env" SOH 0, unfolded length_metadata_block [OF assms(1)], OF f(2) soh(4) [folded f(1)]]
    have "leads (receiving H) (ym_then ack_and_request (\<lambda>_. ym_ok (md_file_size m, f))) (inp, out, data)
      (ym_ok ` {(n, f). n = md_file_size m \<and> length f = BLOCK_SIZE + 4}) (inp, out @ [ACK, CRC_REQUEST], data)"
      using f(1) assms(4) by (intro leads_then1 [OF receives_ack] leads_refl) auto
    then show ?thesis by (rule leads_cong [rotated]) (simp add: good(1,2) good(3) [simplified] parse_metadata_block [OF assms(1,2)] assms(3))
  qed
  have unfold: "receive_metadata env 0 frame SOH = ym_then (ym_map_err read_failure (read_block (rx_kind env) HEADER_BLOCK_SIZE frame)) (\<lambda>f s.
      if \<not> valid_frame (rx_crc env) f HEADER_BLOCK_SIZE \<or> f ! 0 \<noteq> 0
            then ym_then (refuse (rx_config env) 0) (\<lambda>retries.
                 ym_then (next_byte (rx_kind env)) (\<lambda>control. receive_metadata env retries f control)) s
            else case parse_metadata (rx_usize_max env) (slice f 2 (2 + HEADER_BLOCK_SIZE)) of
                   None \<Rightarrow> cancel_with YmProtocol s
                 | Some metadata \<Rightarrow>
                     (case rx_on_metadata env metadata of
                        Inl e \<Rightarrow> cancel_with (YmMetadata e) s
                      | Inr _ \<Rightarrow> ym_then ack_and_request (\<lambda>_. ym_ok (md_file_size metadata, f)) s))"
    by (rule ext) (subst receive_metadata.simps, simp add: soh)
  show ?thesis unfolding unfold by (rule leads_then [OF receives_block [OF soh(3,4)]]) (use step in auto)
qed

lemma receives_end:
  assumes "length frame = BLOCK_SIZE + 4"
  shows "leads (receiving H) (receive_end env 0 frame SOH) (tl (end_packet (rx_crc env)), out, data) {ym_ok ()} ([], out @ [ACK], data)"
proof -
  let ?z = "replicate HEADER_BLOCK_SIZE (0 :: u8)" and ?w = "end_packet (rx_crc env)"
  have soh: "SOH \<noteq> CAN" "block_size SOH = Some HEADER_BLOCK_SIZE" "length (tl ?w) = HEADER_BLOCK_SIZE + 4" "HEADER_BLOCK_SIZE + 4 \<le> length frame"
    using assms by (simp_all add: control_defs block_size_def packet_def HEADER_BLOCK_SIZE_def BLOCK_SIZE_def end_packet_def)
  have unfold: "receive_end env 0 frame SOH = ym_then (ym_map_err read_failure (read_block (rx_kind env) HEADER_BLOCK_SIZE frame)) (\<lambda>f s.
      if valid_frame (rx_crc env) f HEADER_BLOCK_SIZE \<and> f ! 0 = 0 \<and> is_empty_header (slice f 2 (2 + HEADER_BLOCK_SIZE))
      then rx_write [ACK] s
      else ym_then (refuse (rx_config env) 0) (\<lambda>retries. ym_then (next_byte (rx_kind env)) (\<lambda>control. receive_end env retries f control)) s)"
    by (rule ext) (subst receive_end.simps, simp add: soh)
  have step: "leads (receiving H) (\<lambda>s.
      if valid_frame (rx_crc env) f HEADER_BLOCK_SIZE \<and> f ! 0 = 0 \<and> is_empty_header (slice f 2 (2 + HEADER_BLOCK_SIZE))
      then rx_write [ACK] s
      else ym_then (refuse (rx_config env) 0) (\<lambda>retries. ym_then (next_byte (rx_kind env)) (\<lambda>control. receive_end env retries f control)) s)
      ([], out, data) {ym_ok ()} ([], out @ [ACK], data)"
    if f: "length f = length frame" "take (HEADER_BLOCK_SIZE + 4) f = tl ?w" for f
  proof -
    note good = packet_frame [of ?z f "rx_crc env" SOH 0, unfolded length_replicate, OF f(2) [unfolded end_packet_def] soh(4) [folded f(1)]]
    have "is_empty_header ?z" by (simp add: is_empty_header_def get_at_def HEADER_BLOCK_SIZE_def)
    then show ?thesis by (intro leads_cong [OF _ receives_write]) (simp add: good(1,2) good(3) [simplified])
  qed
  have "leads (receiving H) (receive_end env 0 frame SOH) (tl ?w @ [], out, data) {ym_ok ()} ([], out @ [ACK], data)"
    unfolding unfold by (rule leads_then [OF receives_block [OF soh(3,4)]]) (use step in auto)
  then show ?thesis by simp
qed

section \<open>The whole reception\<close>

definition willing_receiver ::
  "(bytes \<Rightarrow> 'o \<Rightarrow> ('w + unit) \<times> 'o) \<Rightarrow> ('o \<Rightarrow> ('w + unit) \<times> 'o) \<Rightarrow> ('e, 'o, 'w, 'm) rx_env \<Rightarrow> ym_metadata \<Rightarrow> bool" where
  "willing_receiver wr fl env m \<longleftrightarrow> rx_write_all env = wr \<and> rx_flush env = fl \<and> start_retries (rx_config env) \<noteq> 0 \<and>
     md_file_size m \<le> rx_usize_max env \<and> rx_on_metadata env m = Inr ()"

definition receive_tail :: "('e, 'o, 'w, 'm) rx_env \<Rightarrow> usize \<Rightarrow> bytes \<Rightarrow> (('e, 'o) rx_state, ('e, 'w, 'm) ym_error, ym_transfer) action" where
  "receive_tail env n frame = ym_then (next_byte (rx_kind env)) (\<lambda>control. ym_then (receive_end env 0 frame control) (\<lambda>_. ym_ok \<lparr>tr_file_size = n\<rparr>))"

lemma receive_starts:
  assumes able: "willing_receiver wr fl env m" and header: "metadata_block m = Inr header"
  shows "leads (receiving H) (receive_with env) ([], out, data) {ym_wait} ([], out @ [CRC_REQUEST], data)"
    and "leads (receiving H) (receive_with env) (packet (rx_crc env) SOH 0 header @ inp, out, data)
      {ym_then (data_loop env (md_file_size m) 0 1 0 frame) (receive_tail env (md_file_size m)) |frame. length frame = BLOCK_SIZE + 4}
      (inp, out @ [CRC_REQUEST, ACK, CRC_REQUEST], data)"
proof -
  let ?f = "replicate (BLOCK_SIZE + 4) (0 :: u8)" and ?w = "packet (rx_crc env) SOH 0 header"
  let ?M = "{ym_then (data_loop env (md_file_size m) 0 1 0 frame) (receive_tail env (md_file_size m)) |frame. length frame = BLOCK_SIZE + 4}"
  from able have laws: "start_retries (rx_config env) \<noteq> 0" "md_file_size m \<le> rx_usize_max env" "rx_on_metadata env m = Inr ()"
    by (auto simp: willing_receiver_def)
  have w: "?w @ inp = SOH # tl ?w @ inp" by (simp add: packet_def)
  show "leads (receiving H) (receive_with env) ([], out, data) {ym_wait} ([], out @ [CRC_REQUEST], data)"
    unfolding receive_with_def Let_def by (rule leads_wait [OF receives_first(2) [OF laws(1)]])
  have unfold: "receive_with env = ym_then (first_control (rx_kind env) (rx_config env)) (\<lambda>control.
      ym_then (receive_metadata env 0 ?f control) (\<lambda>(n, frame). ym_then (data_loop env n 0 1 0 frame) (receive_tail env n)))"
    unfolding receive_with_def Let_def data_loop_def receive_tail_def ym_then_assoc by (simp add: case_prod_beta)
  have out: "out @ [CRC_REQUEST, ACK, CRC_REQUEST] = (out @ [CRC_REQUEST]) @ [ACK, CRC_REQUEST]" by simp
  have "leads (receiving H) (ym_then (receive_metadata env 0 ?f SOH) (\<lambda>(n, frame). ym_then (data_loop env n 0 1 0 frame) (receive_tail env n)))
      (tl ?w @ inp, out @ [CRC_REQUEST], data) ?M (inp, (out @ [CRC_REQUEST]) @ [ACK, CRC_REQUEST], data)"
    by (rule leads_then [OF receives_header [OF header laws(2,3)]]) (auto intro!: leads_refl)
  then show "leads (receiving H) (receive_with env) (?w @ inp, out, data) ?M (inp, out @ [CRC_REQUEST, ACK, CRC_REQUEST], data)"
    unfolding unfold w out by (rule leads_then1 [OF receives_first(1) [OF laws(1)]])
qed

lemma receive_ends:
  assumes "length frame = BLOCK_SIZE + 4"
  shows "leads (receiving H) (receive_tail env n frame) ([], out, data) {ym_wait} ([], out, data)"
    and "leads (receiving H) (receive_tail env n frame) (end_packet (rx_crc env), out, data)
      {ym_ok \<lparr>tr_file_size = n\<rparr>} ([], out @ [ACK], data)"
proof -
  have w: "end_packet (rx_crc env) = SOH # tl (end_packet (rx_crc env))" by (simp add: end_packet_def packet_def)
  show "leads (receiving H) (receive_tail env n frame) ([], out, data) {ym_wait} ([], out, data)"
    unfolding receive_tail_def by (rule leads_wait [OF receives_byte(2)])
  have "leads (receiving H) (receive_tail env n frame) (SOH # tl (end_packet (rx_crc env)), out, data)
      {ym_ok \<lparr>tr_file_size = n\<rparr>} ([], out @ [ACK], data)"
    unfolding receive_tail_def
    by (intro leads_then1 [OF receives_byte(1)] leads_then1 [OF receives_end [OF assms]] leads_refl) simp
  then show "leads (receiving H) (receive_tail env n frame) (end_packet (rx_crc env), out, data)
      {ym_ok \<lparr>tr_file_size = n\<rparr>} ([], out @ [ACK], data)" using w by metis
qed

section \<open>Outputs\<close>

text \<open>
  What a transfer relies on of an output to get through: while what it has taken stays within \<open>fits\<close>, it takes
  what it is given.
\<close>

locale willing_output =
  fixes wr :: "bytes \<Rightarrow> 'o \<Rightarrow> ('w + unit) \<times> 'o"
    and fl :: "'o \<Rightarrow> ('w + unit) \<times> 'o"
    and holds :: "bytes \<Rightarrow> 'o \<Rightarrow> bool"
    and fits :: "bytes \<Rightarrow> bool"
  assumes takes: "holds data b \<Longrightarrow> fits (data @ bs) \<Longrightarrow> \<exists>b'. wr bs b = (Inr (), b') \<and> holds (data @ bs) b'"
    and flushes: "holds data b \<Longrightarrow> \<exists>b'. fl b = (Inr (), b') \<and> holds data b'"
    and fits_part: "fits (data @ bs) \<Longrightarrow> fits data"
begin

lemma receives_output:
  assumes "fits (data @ bs)"
  shows "leads (receiving holds) (output_or_cancel (wr bs)) (inp, out, data) {ym_ok ()} (inp, out, data @ bs)"
proof (rule leads_run [where f = "\<lambda>s. s\<lparr>rx_out := snd (wr bs (rx_out s))\<rparr>"])
  fix s :: "('e, 'o) rx_state"
  assume s: "receiving holds (inp, out, data) s"
  with takes [OF _ assms] obtain b where w: "wr bs (rx_out s) = (Inr (), b)" "holds (data @ bs) b" by (auto simp: receiving_def)
  then show "output_or_cancel (wr bs) s = (Some (Inr ()), s\<lparr>rx_out := snd (wr bs (rx_out s))\<rparr>) \<and>
      receiving holds (inp, out, data @ bs) (s\<lparr>rx_out := snd (wr bs (rx_out s))\<rparr>)"
    using s by (simp add: output_run [where f = "wr bs", OF w(1)] ym_ok_def receiving_def on_line_def)
qed

lemma receives_flush: "leads (receiving holds) (output_or_cancel fl) (inp, out, data) {ym_ok ()} (inp, out, data)"
proof (rule leads_run [where f = "\<lambda>s. s\<lparr>rx_out := snd (fl (rx_out s))\<rparr>"])
  fix s :: "('e, 'o) rx_state"
  assume s: "receiving holds (inp, out, data) s"
  with flushes obtain b where w: "fl (rx_out s) = (Inr (), b)" "holds data b" by (fastforce simp: receiving_def)
  then show "output_or_cancel fl s = (Some (Inr ()), s\<lparr>rx_out := snd (fl (rx_out s))\<rparr>) \<and>
      receiving holds (inp, out, data) (s\<lparr>rx_out := snd (fl (rx_out s))\<rparr>)"
    using s by (simp add: output_run [where f = fl, OF w(1)] ym_ok_def receiving_def on_line_def)
qed

lemma receives_data_block:
  assumes env: "rx_write_all env = wr" and len: "length frame = BLOCK_SIZE + 4" "length block = BLOCK_SIZE"
    and n: "written < n" "fits (data @ take (min (n - written) BLOCK_SIZE) block)"
  shows "leads (receiving holds) (data_loop env n retries expected written frame) (packet (rx_crc env) STX expected block @ inp, out, data)
    (data_loops env n (expected + 1) (written + min (n - written) BLOCK_SIZE)) (inp, out @ [ACK], data @ take (min (n - written) BLOCK_SIZE) block)"
proof -
  let ?c = "min (n - written) BLOCK_SIZE" and ?w = "packet (rx_crc env) STX expected block"
  have stx: "STX \<noteq> CAN" "STX \<noteq> EOT" "block_size STX = Some BLOCK_SIZE" "?w = STX # tl ?w" "length (tl ?w) = BLOCK_SIZE + 4"
    by (simp_all add: control_defs block_size_def packet_def len)
  have unfold: "receive_data env n retries expected written frame STX =
      ym_then (ym_map_err read_failure (read_block (rx_kind env) BLOCK_SIZE frame)) (\<lambda>frame.
      ym_then (accept_block env n frame BLOCK_SIZE retries expected written) (\<lambda>r s.
        case r of (retries, expected, written) \<Rightarrow> data_loop env n retries expected written frame s))"
    unfolding data_loop_def by (rule ext) (subst receive_data.simps, simp add: stx)
  have step: "leads (receiving holds) (ym_then (accept_block env n f BLOCK_SIZE retries expected written) (\<lambda>r s.
        case r of (retries, expected, written) \<Rightarrow> data_loop env n retries expected written f s)) (inp, out, data)
      (data_loops env n (expected + 1) (written + ?c)) (inp, out @ [ACK], data @ take ?c block)"
    if f: "length f = length frame" "take (BLOCK_SIZE + 4) f = tl ?w" for f
  proof -
    from packet_frame [of block f "rx_crc env" STX expected] f len
    have good: "valid_frame (rx_crc env) f BLOCK_SIZE" "f ! 0 = expected" "slice f 2 (2 + BLOCK_SIZE) = block" by simp_all
    have "slice f 2 (2 + ?c) = take ?c block" unfolding good(3) [symmetric] by (simp add: slice_def min.commute min.left_commute)
    with good n have accept: "accept_block env n f BLOCK_SIZE retries expected written =
      ym_then (output_or_cancel (wr (take ?c block))) (\<lambda>_. ym_then (rx_write [ACK]) (\<lambda>_. ym_ok (0, expected + 1, written + ?c)))"
      by (simp add: accept_block_def Let_def env)
    have "leads (receiving holds) (accept_block env n f BLOCK_SIZE retries expected written) (inp, out, data)
        {ym_ok (0, expected + 1, written + ?c)} (inp, out @ [ACK], data @ take ?c block)"
      unfolding accept using n len by (intro leads_then1 [OF receives_output] leads_then1 [OF receives_write] leads_refl) simp_all
    moreover have "data_loop env n 0 (expected + 1) (written + ?c) f \<in> data_loops env n (expected + 1) (written + ?c)"
      unfolding data_loops_def using f(1) len(1) by (intro CollectI exI [of _ 0] exI [of _ f]) simp
    ultimately show ?thesis by (auto intro!: leads_then1 leads_refl)
  qed
  have "leads (receiving holds) (receive_data env n retries expected written frame STX) (tl ?w @ inp, out, data)
      (data_loops env n (expected + 1) (written + ?c)) (inp, out @ [ACK], data @ take ?c block)"
    unfolding unfold by (rule leads_then [OF receives_block]) (use step stx(5) len in auto)
  moreover have "leads (receiving holds) (next_byte (rx_kind env)) (STX # tl ?w @ inp, out, data) {ym_ok STX} (tl ?w @ inp, out, data)" by (rule receives_byte)
  moreover have "?w @ inp = STX # tl ?w @ inp" using stx(4) by (metis append_Cons)
  ultimately show ?thesis unfolding data_loop_def [of env n retries] by (metis leads_then1)
qed

text \<open>The data loop after \<open>j\<close> packets.\<close>

lemma receives_blocks:
  assumes env: "rx_write_all env = wr"
    and "length frame = BLOCK_SIZE + 4" "written + length rest = n" "fits (data @ rest)" "j \<le> length (file_blocks rest)"
  shows "leads (receiving holds) (data_loop env n retries expected written frame)
      (concat (take j (packets (rx_crc env) expected (file_blocks rest))) @ inp, out, data)
      (data_loops env n (expected + of_nat j) (n - length (drop (j * BLOCK_SIZE) rest)))
      (inp, out @ replicate j ACK, data @ take (j * BLOCK_SIZE) rest)"
  using assms(2-)
proof (induction j arbitrary: retries expected written frame rest out data)
  case 0
  then have "n - length (drop (0 * BLOCK_SIZE) rest) = written" by simp
  with 0 show ?case by (auto simp: data_loops_def intro!: leads_refl)
next
  case (Suc j)
  from Suc.prems(4) have ne: "rest \<noteq> []" by (auto simp: file_blocks.simps)
  let ?b = "padded (take BLOCK_SIZE rest)" and ?rest = "drop BLOCK_SIZE rest" and ?c = "min (n - written) BLOCK_SIZE"
  let ?inp = "concat (take j (packets (rx_crc env) (expected + 1) (file_blocks ?rest))) @ inp"
  have c: "n - written = length rest" "take ?c ?b = take BLOCK_SIZE rest" "written + ?c = n - length ?rest" "written < n"
    using Suc.prems(2) ne by (auto simp: padded_def min_def)
  have first_fits: "fits (data @ take BLOCK_SIZE rest)" "fits ((data @ take BLOCK_SIZE rest) @ ?rest)"
    using Suc.prems(3) fits_part [of "data @ take BLOCK_SIZE rest" ?rest] by simp_all
  have first: "leads (receiving holds) (data_loop env n retries expected written frame)
      (concat (take (Suc j) (packets (rx_crc env) expected (file_blocks rest))) @ inp, out, data)
      (data_loops env n (expected + 1) (n - length ?rest)) (?inp, out @ [ACK], data @ take BLOCK_SIZE rest)"
    using receives_data_block [OF env Suc.prems(1) _ c(4), of ?b data retries expected ?inp out] c first_fits
    by (simp add: padded_def file_blocks_drop(2) [OF ne])
  have "leads (receiving holds) (data_loop env n r (expected + 1) (n - length ?rest) f) (?inp, out @ [ACK], data @ take BLOCK_SIZE rest)
      (data_loops env n (expected + of_nat (Suc j)) (n - length (drop (Suc j * BLOCK_SIZE) rest)))
      (inp, out @ replicate (Suc j) ACK, data @ take (Suc j * BLOCK_SIZE) rest)" if "length f = BLOCK_SIZE + 4" for r f
    using Suc.IH [OF that, of "n - length ?rest" ?rest "data @ take BLOCK_SIZE rest" r "expected + 1" "out @ [ACK]"] Suc.prems first_fits(2)
    by (simp add: file_blocks_drop(1) take_add add_ac)
  with first show ?case by (auto intro!: leads_trans [OF first] simp: data_loops_def)
qed

text \<open>The end of the file.\<close>

lemma receives_eot:
  assumes "rx_flush env = fl" "length frame = BLOCK_SIZE + 4"
  shows "leads (receiving holds) (data_loop env n retries expected written frame) ([], out, data) {ym_wait} ([], out, data)"
    and "leads (receiving holds) (data_loop env n retries expected n frame) ([EOT], out, data) {ym_wait} ([], out @ [NAK], data)"
    and "leads (receiving holds) (data_loop env n retries expected n frame) (EOT # EOT # inp, out, data)
      {ym_ok frame} (inp, out @ [NAK, ACK, CRC_REQUEST], data)"
proof -
  have eot: "EOT \<noteq> CAN" by (simp add: control_defs)
  then have unfold: "receive_data env n retries expected n frame EOT = ym_then
      (ym_then (output_or_cancel fl) (\<lambda>_. ym_then (rx_write [NAK]) (\<lambda>_. ym_then (next_byte (rx_kind env)) (\<lambda>second.
        if second \<noteq> EOT then cancel_with YmProtocol else ack_and_request)))) (\<lambda>_. ym_ok frame)"
    by (intro ext) (subst receive_data.simps, simp add: finish_file_def assms)
  have out: "out @ [NAK, ACK, CRC_REQUEST] = (out @ [NAK]) @ [ACK, CRC_REQUEST]" by simp
  show "leads (receiving holds) (data_loop env n retries expected written frame) ([], out, data) {ym_wait} ([], out, data)"
    unfolding data_loop_def by (rule leads_wait [OF receives_byte(2)])
  show "leads (receiving holds) (data_loop env n retries expected n frame) ([EOT], out, data) {ym_wait} ([], out @ [NAK], data)"
    unfolding data_loop_def
    by (rule leads_then1 [OF receives_byte(1)], unfold unfold)
      (intro leads_wait leads_then1 [OF receives_flush] leads_then1 [OF receives_write] receives_byte(2))
  show "leads (receiving holds) (data_loop env n retries expected n frame) (EOT # EOT # inp, out, data)
      {ym_ok frame} (inp, out @ [NAK, ACK, CRC_REQUEST], data)"
    unfolding data_loop_def out
    by (rule leads_then1 [OF receives_byte(1)], unfold unfold ym_then_assoc)
      (auto intro!: leads_then1 [OF receives_flush] leads_then1 [OF receives_write] leads_then1 [OF receives_byte(1)] leads_then1 [OF receives_ack] leads_refl)
qed

end

text \<open>A buffer takes what it has room for.\<close>

definition able_receiver :: "('e, buffer_sink, buffer_sink_error, 'm) rx_env \<Rightarrow> ym_metadata \<Rightarrow> bool" where
  "able_receiver env m \<longleftrightarrow> willing_receiver sink_write_all sink_flush env m"

definition buffer_holds :: "usize \<Rightarrow> bytes \<Rightarrow> buffer_sink \<Rightarrow> bool" where
  "buffer_holds capacity data b \<longleftrightarrow> in_range b \<and> stored b = data \<and> length (bs_output b) = capacity"

interpretation room: willing_output sink_write_all sink_flush "buffer_holds capacity" "\<lambda>data. length data \<le> capacity" for capacity
proof
  fix data bs :: bytes and b :: buffer_sink
  show "\<exists>b'. sink_write_all bs b = (Inr (), b') \<and> buffer_holds capacity (data @ bs) b'"
    if "buffer_holds capacity data b" "length (data @ bs) \<le> capacity"
  proof -
    from that have ok: "in_range b" and len: "length bs \<le> remaining b" by (auto simp: buffer_holds_def remaining_def stored_def in_range_def)
    from sink_write_all_fits [OF this] obtain b' where w: "sink_write_all bs b = (Inr (), b')" by blast
    from sink_write_all_stored [OF ok w] w that(1) show ?thesis by (auto simp: buffer_holds_def)
  qed
  show "buffer_holds capacity data b \<Longrightarrow> \<exists>b'. sink_flush b = (Inr (), b') \<and> buffer_holds capacity data b'"
    by (simp add: sink_flush_def)
qed simp

end
