(* ===== verification/Ymodem_Transfer.thy ===== *)
theory Ymodem_Transfer
  imports Ymodem_Answers
begin

text \<open>
  A YMODEM sender and a YMODEM receiver talking to each other. Neither can run ahead of what the other
  has written: in round \<open>i\<close> each side sees exactly the bytes the other one wrote in
  the rounds before, and writes what it can before it waits again. On a line without faults
  the file arrives, after one round for each block and four more.
\<close>

section \<open>Rounds\<close>

fun converse :: "(bytes \<Rightarrow> bytes) \<Rightarrow> (bytes \<Rightarrow> bytes) \<Rightarrow> nat \<Rightarrow> bytes \<times> bytes" where
  "converse tx rx 0 = ([], rx [])"
| "converse tx rx (Suc i) = (let up = tx (snd (converse tx rx i)) in (up, rx up))"

definition sender_writes :: "('e, 's, 'n, 'se, 'o) tx_env \<Rightarrow> ym_metadata \<Rightarrow> ('e, 's, 'n) tx_state \<Rightarrow> bytes \<Rightarrow> bytes" where
  "sender_writes env m s down = p_out (snd (send_with env m (s\<lparr>p_in := map ReadByte down\<rparr>)))"

definition receiver_writes :: "('e, 'o, 'w, 'm) rx_env \<Rightarrow> ('e, 'o) rx_state \<Rightarrow> bytes \<Rightarrow> bytes" where
  "receiver_writes env s up = p_out (snd (receive_with env (s\<lparr>p_in := map ReadByte up\<rparr>)))"

definition answers :: "nat \<Rightarrow> bytes list" where
  "answers k = [CRC_REQUEST] # [ACK, CRC_REQUEST] # replicate k [ACK] @ [[NAK], [ACK, CRC_REQUEST], [ACK]]"

definition messages :: "checksum \<Rightarrow> bytes \<Rightarrow> bytes \<Rightarrow> bytes list" where
  "messages crc header data = packet crc SOH 0 header # packets crc 1 (file_blocks data) @ [[EOT], [EOT], end_packet crc]"

section \<open>Blocks of a file\<close>

lemma file_blocks_end: "j \<le> length (file_blocks data) \<Longrightarrow> (drop (j * BLOCK_SIZE) data = []) = (j = length (file_blocks data))"
proof (induction j arbitrary: data)
  case 0
  then show ?case by (simp add: file_blocks.simps)
next
  case (Suc j)
  then have ne: "data \<noteq> []" by (auto simp: file_blocks.simps)
  then have len: "length (file_blocks data) = Suc (length (file_blocks (drop BLOCK_SIZE data)))" by (simp add: file_blocks.simps [of data])
  with Suc.IH [of "drop BLOCK_SIZE data"] Suc.prems show ?case by (simp add: add.commute)
qed

lemma nth_packets:
  "j < length (file_blocks data) \<Longrightarrow>
     packets crc number (file_blocks data) ! j = packet crc STX (number + of_nat j) (padded (take BLOCK_SIZE (drop (j * BLOCK_SIZE) data)))"
proof (induction j arbitrary: number data)
  case 0
  then have "data \<noteq> []" by (auto simp: file_blocks.simps)
  then show ?case by (simp add: file_blocks_drop)
next
  case (Suc j)
  then have "data \<noteq> []" by (auto simp: file_blocks.simps)
  moreover have "j < length (file_blocks (drop BLOCK_SIZE data))" using Suc.prems by (simp add: file_blocks_drop)
  ultimately show ?case using Suc.IH [of "drop BLOCK_SIZE data" "number + 1"] by (simp add: file_blocks_drop add_ac)
qed

lemma concat_replicate_one: "concat (replicate k [x]) = replicate k x"
  by (induction k) auto

section \<open>What each side writes in each round\<close>

lemma sends_all:
  assumes able: "able_sender env pending m header" and "md_file_size m = length data"
  shows "leads (sending pending) (ym_then (send_data env (md_file_size m) 0 1) (\<lambda>_. send_tail env m))
    (replicate (length (file_blocks data)) ACK @ inp, out, data) {send_tail env m}
    (inp, out @ concat (packets (tx_crc env) 1 (file_blocks data)), [])"
proof -
  let ?k = "length (file_blocks data)" and ?n = "md_file_size m"
  from able have laws: "reads_file (tx_read env) pending" "\<And>ev n. fst (tx_notify env ev n) = Inr ()" by (auto simp: able_sender_def)
  have "send_data env ?n ?n number = ym_ok ()" for number by (rule ext) (simp add: send_data.simps)
  with sends_blocks [OF laws, of 0 data ?n ?k 1 inp out] assms(2) file_blocks_end [of ?k data]
  have "leads (sending pending) (send_data env ?n 0 1) (replicate ?k ACK @ inp, out, data) {ym_ok ()}
      (inp, out @ concat (packets (tx_crc env) 1 (file_blocks data)), [])" by simp
  then show ?thesis by (rule leads_then1 [OF _ leads_refl]) simp
qed

lemma sends_some:
  assumes able: "able_sender env pending m header" and "md_file_size m = length data" "j < length (file_blocks data)"
  shows "\<exists>rest. leads (sending pending) (ym_then (send_data env (md_file_size m) 0 1) (\<lambda>_. send_tail env m))
    (replicate j ACK, out, data) {ym_wait} ([], out @ concat (take (Suc j) (packets (tx_crc env) 1 (file_blocks data))), rest)"
proof -
  let ?n = "md_file_size m" and ?rest = "drop (j * BLOCK_SIZE) data"
  from able have laws: "reads_file (tx_read env) pending" "\<And>ev n. fst (tx_notify env ev n) = Inr ()" by (auto simp: able_sender_def)
  from file_blocks_end [of j data] assms(3) have ne: "?rest \<noteq> []" by auto
  have "?n - length ?rest + length ?rest = ?n" using assms(2) by simp
  note last = sends_block(2) [OF laws ne this, of "1 + of_nat j"]
  from sends_blocks [OF laws, of 0 data ?n j 1 "[]" out] assms
  have "leads (sending pending) (send_data env ?n 0 1) (replicate j ACK, out, data) {send_data env ?n (?n - length ?rest) (1 + of_nat j)}
      ([], out @ concat (take j (packets (tx_crc env) 1 (file_blocks data))), ?rest)" by simp
  then have "leads (sending pending) (send_data env ?n 0 1) (replicate j ACK, out, data) {ym_wait}
      ([], (out @ concat (take j (packets (tx_crc env) 1 (file_blocks data)))) @
        packet (tx_crc env) STX (1 + of_nat j) (padded (take BLOCK_SIZE ?rest)), drop BLOCK_SIZE ?rest)"
    by (rule leads_trans) (simp only: singleton_iff, rule last)
  from leads_wait [OF this] show ?thesis using assms(3) by (auto simp: take_Suc_conv_app_nth nth_packets)
qed

lemma send_rounds:
  assumes able: "able_sender env pending m header" and "md_file_size m = length data" "k = length (file_blocks data)"
  defines "ms \<equiv> messages (tx_crc env) header data"
  shows "i \<le> k + 3 \<Longrightarrow> \<exists>rest. leads (sending pending) (send_with env m) (concat (take (Suc i) (answers k)), [], data) {ym_wait}
      ([], concat (take (Suc i) ms), rest)"
    and "leads (sending pending) (send_with env m) (concat (answers k), [], data) {ym_ok \<lparr>tr_file_size = length data\<rparr>} ([], concat ms, [])"
proof -
  let ?hp = "packet (tx_crc env) SOH 0 header" and ?ws = "packets (tx_crc env) 1 (file_blocks data)"
  note start = send_starts [OF able] and ends = send_ends [OF able, where out = "?hp @ concat ?ws"]
  have go: "leads (sending pending) (send_with env m) (CRC_REQUEST # ACK # CRC_REQUEST # replicate k ACK @ inp, [], data) M z"
    if "leads (sending pending) (send_tail env m) (inp, ?hp @ concat ?ws, []) M z" for inp M z
  proof -
    from leads_trans [OF start(2) [of "replicate k ACK @ inp" "[]" data], of "{send_tail env m}"] sends_all [OF able assms(2), of inp ?hp]
    have "leads (sending pending) (send_with env m) (CRC_REQUEST # ACK # CRC_REQUEST # replicate k ACK @ inp, [], data)
      {send_tail env m} (inp, ?hp @ concat ?ws, [])" by (simp add: assms(3))
    then show ?thesis by (rule leads_trans) (use that in simp)
  qed
  show "leads (sending pending) (send_with env m) (concat (answers k), [], data) {ym_ok \<lparr>tr_file_size = length data\<rparr>} ([], concat ms, [])"
    using go [OF ends(4)] assms(2) by (simp add: answers_def ms_def messages_def concat_replicate_one)
  assume i: "i \<le> k + 3"
  consider "i = 0" | j where "i = Suc j" "j < k" | "i = Suc k" | "i = Suc (Suc k)" | "i = Suc (Suc (Suc k))"
    using i by (cases i) (fastforce simp: le_Suc_eq le_less)+
  then show "\<exists>rest. leads (sending pending) (send_with env m) (concat (take (Suc i) (answers k)), [], data) {ym_wait} ([], concat (take (Suc i) ms), rest)"
  proof cases
    case 1
    then show ?thesis using start(1) [of "[]" data] by (auto simp: answers_def ms_def messages_def)
  next
    case (2 j)
    from sends_some [OF able assms(2), of j ?hp] 2 assms(3) obtain rest where
      "leads (sending pending) (ym_then (send_data env (md_file_size m) 0 1) (\<lambda>_. send_tail env m)) (replicate j ACK, ?hp, data) {ym_wait}
        ([], ?hp @ concat (take (Suc j) ?ws), rest)" by blast
    with leads_trans [OF start(2) [of "replicate j ACK" "[]" data]] have
      "leads (sending pending) (send_with env m) (CRC_REQUEST # ACK # CRC_REQUEST # replicate j ACK, [], data) {ym_wait}
        ([], ?hp @ concat (take (Suc j) ?ws), rest)" by simp
    with 2 assms(3) show ?thesis by (auto simp: answers_def ms_def messages_def concat_replicate_one)
  next
    case 3
    then show ?thesis using go [OF ends(1)] assms(3) by (auto simp: answers_def ms_def messages_def concat_replicate_one)
  next
    case 4
    then show ?thesis using go [OF ends(2)] assms(3) by (auto simp: answers_def ms_def messages_def concat_replicate_one)
  next
    case 5
    then show ?thesis using go [OF ends(3)] assms(3) by (auto simp: answers_def ms_def messages_def concat_replicate_one)
  qed
qed

section \<open>The transfer\<close>

lemma leads_waits: "leads P m x {ym_wait} y \<Longrightarrow> P x s \<Longrightarrow> P y (snd (m s))"
  by (auto simp: leads_def ym_wait_def)

lemma leads_returns: "leads P m x {ym_ok a} y \<Longrightarrow> P x s \<Longrightarrow> \<exists>s'. m s = (Some (Inr a), s') \<and> P y s'"
  by (auto simp: leads_def ym_ok_def)

lemma on_line_fresh: "on_line [] [] s \<Longrightarrow> on_line inp [] (s\<lparr>p_in := map ReadByte inp\<rparr>)"
  by (simp add: on_line_def)

context willing_output
begin

lemma receives_some:
  assumes able: "willing_receiver wr fl env m" and header: "metadata_block m = Inr header" and "md_file_size m = length data" "fits data"
    and "j \<le> length (file_blocks data)"
    and "\<And>r f. length f = BLOCK_SIZE + 4 \<Longrightarrow>
      leads (receiving holds) (ym_then (data_loop env (md_file_size m) r (1 + of_nat j) (md_file_size m - length (drop (j * BLOCK_SIZE) data)) f) (receive_tail env (md_file_size m)))
        (inp, [CRC_REQUEST, ACK, CRC_REQUEST] @ replicate j ACK, take (j * BLOCK_SIZE) data) M z"
  shows "leads (receiving holds) (receive_with env)
    (packet (rx_crc env) SOH 0 header @ concat (take j (packets (rx_crc env) 1 (file_blocks data))) @ inp, [], []) M z"
proof (rule leads_trans [OF receive_starts(2) [OF able header]], clarify)
  let ?n = "md_file_size m"
  fix frame :: bytes assume len: "length frame = BLOCK_SIZE + 4"
  have env: "rx_write_all env = wr" using able by (simp add: willing_receiver_def)
  from receives_blocks [OF env len, of 0 data ?n "[]" j 0 1 inp "[CRC_REQUEST, ACK, CRC_REQUEST]"] assms(3-5)
  have "leads (receiving holds) (data_loop env ?n 0 1 0 frame) (concat (take j (packets (rx_crc env) 1 (file_blocks data))) @ inp, [CRC_REQUEST, ACK, CRC_REQUEST], [])
      (data_loops env ?n (1 + of_nat j) (?n - length (drop (j * BLOCK_SIZE) data)))
      (inp, [CRC_REQUEST, ACK, CRC_REQUEST] @ replicate j ACK, take (j * BLOCK_SIZE) data)" by simp
  then have "leads (receiving holds) (ym_then (data_loop env ?n 0 1 0 frame) (receive_tail env ?n))
      (concat (take j (packets (rx_crc env) 1 (file_blocks data))) @ inp, [CRC_REQUEST, ACK, CRC_REQUEST], []) M z"
    by (rule leads_then_each) (use assms(6) in \<open>auto simp only: data_loops_def mem_Collect_eq\<close>)
  then show "leads (receiving holds) (ym_then (data_loop env ?n 0 1 0 frame) (receive_tail env ?n))
      (concat (take j (packets (rx_crc env) 1 (file_blocks data))) @ inp, [] @ [CRC_REQUEST, ACK, CRC_REQUEST], []) M z"
    by simp
qed

lemma receive_rounds:
  assumes able: "willing_receiver wr fl env m" and header: "metadata_block m = Inr header" and n: "md_file_size m = length data" "fits data"
    and k: "k = length (file_blocks data)"
  defines "ms \<equiv> messages (rx_crc env) header data"
  shows "i \<le> k + 3 \<Longrightarrow> \<exists>stored. leads (receiving holds) (receive_with env) (concat (take i ms), [], []) {ym_wait}
      ([], concat (take (Suc i) (answers k)), stored)"
    and "leads (receiving holds) (receive_with env) (concat ms, [], []) {ym_ok \<lparr>tr_file_size = length data\<rparr>} ([], concat (answers k), data)"
proof -
  let ?hp = "packet (rx_crc env) SOH 0 header" and ?ws = "packets (rx_crc env) 1 (file_blocks data)"
  have fl: "rx_flush env = fl" using able by (simp add: willing_receiver_def)
  have done_: "drop (k * BLOCK_SIZE) data = []" using file_blocks_end [of k data] k by simp
  then have all: "take (k * BLOCK_SIZE) data = data" by (metis append_Nil2 append_take_drop_id)
  have size: "md_file_size m - length (drop (k * BLOCK_SIZE) data) = md_file_size m" by (simp add: done_)
  note go = receives_some [OF able header n, of k, unfolded size all]
  note eot = receives_eot [OF fl] and tail = receive_ends
  show "leads (receiving holds) (receive_with env) (concat ms, [], []) {ym_ok \<lparr>tr_file_size = length data\<rparr>} ([], concat (answers k), data)"
  proof -
    have "leads (receiving holds) (receive_with env) (?hp @ concat (take k ?ws) @ EOT # EOT # end_packet (rx_crc env), [], [])
        {ym_ok \<lparr>tr_file_size = md_file_size m\<rparr>} ([], (([CRC_REQUEST, ACK, CRC_REQUEST] @ replicate k ACK) @ [NAK, ACK, CRC_REQUEST]) @ [ACK], data)"
      by (rule go, simp add: k) (rule leads_then1 [OF eot(3) tail(2)])
    then show ?thesis using k n(1) by (simp add: ms_def messages_def answers_def concat_replicate_one)
  qed
  assume i: "i \<le> k + 3"
  consider "i = 0" | j where "i = Suc j" "j \<le> k" | "i = Suc (Suc k)" | "i = Suc (Suc (Suc k))"
    using i by (cases i) (fastforce simp: le_Suc_eq le_less)+
  then show "\<exists>stored. leads (receiving holds) (receive_with env) (concat (take i ms), [], []) {ym_wait} ([], concat (take (Suc i) (answers k)), stored)"
  proof cases
    case 1
    then show ?thesis using receive_starts(1) [OF able header, where H = holds and out = "[]" and data = "[]"] by (auto simp: answers_def)
  next
    case (2 j)
    have "leads (receiving holds) (receive_with env) (?hp @ concat (take j ?ws) @ [], [], []) {ym_wait}
        ([], [CRC_REQUEST, ACK, CRC_REQUEST] @ replicate j ACK, take (j * BLOCK_SIZE) data)"
      by (rule receives_some [OF able header n], use 2 k in simp) (rule leads_wait [OF eot(1)])
    with 2 k show ?thesis by (auto simp: ms_def messages_def answers_def concat_replicate_one)
  next
    case 3
    have "leads (receiving holds) (receive_with env) (?hp @ concat (take k ?ws) @ [EOT], [], []) {ym_wait}
        ([], ([CRC_REQUEST, ACK, CRC_REQUEST] @ replicate k ACK) @ [NAK], data)"
      by (rule go, simp add: k) (rule leads_wait [OF eot(2)])
    with 3 k show ?thesis by (auto simp: ms_def messages_def answers_def concat_replicate_one)
  next
    case 4
    have "leads (receiving holds) (receive_with env) (?hp @ concat (take k ?ws) @ [EOT, EOT], [], []) {ym_wait}
        ([], ([CRC_REQUEST, ACK, CRC_REQUEST] @ replicate k ACK) @ [NAK, ACK, CRC_REQUEST], data)"
      by (rule go, simp add: k) (rule leads_then1 [OF eot(3) tail(1)])
    with 4 k show ?thesis by (auto simp: ms_def messages_def answers_def concat_replicate_one)
  qed
qed

lemma converse_rounds:
  assumes tx: "able_sender tx pending m header" and rx: "willing_receiver wr fl rx m" and crc: "tx_crc tx = rx_crc rx"
    and n: "md_file_size m = length data" "fits data"
    and s: "on_line [] [] s" "pending (tx_source s) = data" and r: "on_line [] [] r" "holds [] (rx_out r)"
  defines "k \<equiv> length (file_blocks data)" and "ms \<equiv> messages (rx_crc rx) header data"
  shows "i \<le> k + 4 \<Longrightarrow> converse (sender_writes tx m s) (receiver_writes rx r) i = (concat (take i ms), concat (take (Suc i) (answers k)))"
proof -
  have header: "metadata_block m = Inr header" using tx by (simp add: able_sender_def)
  note sends = send_rounds [OF tx n(1) k_def [THEN meta_eq_to_obj_eq], unfolded crc]
    and receives = receive_rounds [OF rx header n k_def [THEN meta_eq_to_obj_eq]]
  have ts: "sending pending (inp, [], data) (s\<lparr>p_in := map ReadByte inp\<rparr>)" for inp using s by (simp add: sending_def on_line_def)
  have rs: "receiving holds (inp, [], []) (r\<lparr>p_in := map ReadByte inp\<rparr>)" for inp
    using r by (simp add: receiving_def on_line_def)
  have up: "sender_writes tx m s (concat (take (Suc i) (answers k))) = concat (take (Suc i) ms)" if "i \<le> k + 3" for i
  proof -
    from sends(1) [OF that] obtain rest where "leads (sending pending) (send_with tx m) (concat (take (Suc i) (answers k)), [], data) {ym_wait}
      ([], concat (take (Suc i) ms), rest)" by (auto simp: ms_def)
    from leads_waits [where P = "sending pending", OF this ts] show ?thesis by (simp add: sender_writes_def sending_def on_line_def)
  qed
  have down: "receiver_writes rx r (concat (take i ms)) = concat (take (Suc i) (answers k))" if "i \<le> k + 3" for i
  proof -
    from receives(1) [OF that] obtain bs where "leads (receiving holds) (receive_with rx) (concat (take i ms), [], []) {ym_wait}
      ([], concat (take (Suc i) (answers k)), bs)" by (auto simp: ms_def)
    from leads_waits [where P = "receiving holds", OF this rs] show ?thesis by (simp add: receiver_writes_def receiving_def on_line_def)
  qed
  have last: "receiver_writes rx r (concat ms) = concat (answers k)"
    using leads_returns [where P = "receiving holds", OF receives(2) rs] by (auto simp: receiver_writes_def receiving_def on_line_def ms_def)
  have lens: "length ms = k + 4" "length (answers k) = k + 5" by (simp_all add: ms_def k_def messages_def answers_def)
  show "i \<le> k + 4 \<Longrightarrow> converse (sender_writes tx m s) (receiver_writes rx r) i = (concat (take i ms), concat (take (Suc i) (answers k)))"
  proof (induction i)
    case 0
    then show ?case using down [of 0] by simp
  next
    case (Suc i)
    then have "receiver_writes rx r (concat (take (Suc i) ms)) = concat (take (Suc (Suc i)) (answers k))"
      using down [of "Suc i"] last lens by (cases "Suc i = k + 4") auto
    with Suc up [of i] show ?case by (simp add: Let_def)
  qed
qed

lemma transfer_completes:
  assumes tx: "able_sender tx pending m header" and rx: "willing_receiver wr fl rx m" and crc: "tx_crc tx = rx_crc rx"
    and n: "md_file_size m = length data" "fits data"
    and s: "on_line [] [] s" "pending (tx_source s) = data" and r: "on_line [] [] r" "holds [] (rx_out r)"
    and rounds: "converse (sender_writes tx m s) (receiver_writes rx r) (length (file_blocks data) + 4) = (up, down)"
  shows "\<exists>s' r'. send_with tx m (s\<lparr>p_in := map ReadByte down\<rparr>) = (Some (Inr \<lparr>tr_file_size = length data\<rparr>), s') \<and>
    receive_with rx (r\<lparr>p_in := map ReadByte up\<rparr>) = (Some (Inr \<lparr>tr_file_size = length data\<rparr>), r') \<and>
    p_out s' = up \<and> p_out r' = down \<and> p_in s' = [] \<and> p_in r' = [] \<and> holds data (rx_out r')"
proof -
  let ?k = "length (file_blocks data)"
  have header: "metadata_block m = Inr header" using tx by (simp add: able_sender_def)
  have "length (messages (rx_crc rx) header data) = ?k + 4" "length (answers ?k) = ?k + 5" by (simp_all add: messages_def answers_def)
  with converse_rounds [OF tx rx crc n s r, of "?k + 4"] rounds
  have wire: "up = concat (messages (rx_crc rx) header data)" "down = concat (answers ?k)" by simp_all
  have "sending pending (down, [], data) (s\<lparr>p_in := map ReadByte down\<rparr>)" using s by (simp add: sending_def on_line_def)
  from leads_returns [where P = "sending pending", OF send_rounds(2) [OF tx n(1) refl, folded wire(2)] this] obtain s' where
    "send_with tx m (s\<lparr>p_in := map ReadByte down\<rparr>) = (Some (Inr \<lparr>tr_file_size = length data\<rparr>), s')" "p_out s' = up" "p_in s' = []"
    by (auto simp: sending_def on_line_def wire crc)
  moreover have "receiving holds (up, [], []) (r\<lparr>p_in := map ReadByte up\<rparr>)"
    using r by (simp add: receiving_def on_line_def)
  from leads_returns [where P = "receiving holds", OF receive_rounds(2) [OF rx header n refl, folded wire(1)] this] obtain r' where
    "receive_with rx (r\<lparr>p_in := map ReadByte up\<rparr>) = (Some (Inr \<lparr>tr_file_size = length data\<rparr>), r')" "p_out r' = down" "p_in r' = []" "holds data (rx_out r')"
    by (auto simp: receiving_def on_line_def wire)
  ultimately show ?thesis by blast
qed

end

lemma buffer_transfer:
  assumes tx: "able_sender tx pending m header" and rx: "able_receiver rx m" and crc: "tx_crc tx = rx_crc rx"
    and n: "md_file_size m = length data" "length data \<le> length buf"
    and s: "on_line [] [] s" "pending (tx_source s) = data" and r: "on_line [] [] r" "rx_out r = buffer_sink_new buf"
    and rounds: "converse (sender_writes tx m s) (receiver_writes rx r) (length (file_blocks data) + 4) = (up, down)"
  shows "\<exists>s' r'. send_with tx m (s\<lparr>p_in := map ReadByte down\<rparr>) = (Some (Inr \<lparr>tr_file_size = length data\<rparr>), s') \<and>
    receive_with rx (r\<lparr>p_in := map ReadByte up\<rparr>) = (Some (Inr \<lparr>tr_file_size = length data\<rparr>), r') \<and>
    p_out s' = up \<and> p_out r' = down \<and> p_in s' = [] \<and> p_in r' = [] \<and> stored (rx_out r') = data"
proof -
  have "buffer_holds (length buf) [] (rx_out r)" unfolding r(2) by (simp add: buffer_holds_def buffer_sink_new_def in_range_def stored_def)
  from room.transfer_completes [OF tx rx [unfolded able_receiver_def] crc n s r(1) this rounds] show ?thesis unfolding buffer_holds_def by blast
qed

text \<open>
  C13: a file arrives. On a line without faults, let a sender whose source holds a file of the announced size, and
  whose observer never fails, talk to a receiver that accepts the metadata and has room for the
  file, with the same checksum, whatever it is. Then after one round per 1024-byte block and four more both
  have returned the size of the file, neither has left a byte unread, and the bytes stored are
  exactly the file, of any length, across the wrap-around of the block numbers.
\<close>

theorem ymodem_transfer_completes:
  assumes "able_sender tx pending m header" "able_receiver rx m" "tx_crc tx = rx_crc rx"
    and "md_file_size m = length data" "length data \<le> length buf"
    and "on_line [] [] s" "pending (tx_source s) = data" "on_line [] [] r" "rx_out r = buffer_sink_new buf"
    and "converse (sender_writes tx m s) (receiver_writes rx r) (length (file_blocks data) + 4) = (up, down)"
  shows "\<exists>s' r'. send_with tx m (s\<lparr>p_in := map ReadByte down\<rparr>) = (Some (Inr \<lparr>tr_file_size = length data\<rparr>), s') \<and>
    receive_with rx (r\<lparr>p_in := map ReadByte up\<rparr>) = (Some (Inr \<lparr>tr_file_size = length data\<rparr>), r') \<and>
    p_out s' = up \<and> p_out r' = down \<and> p_in s' = [] \<and> p_in r' = [] \<and> stored (rx_out r') = data"
  using assms by (rule buffer_transfer)

text \<open>
  C14: whatever arrives on the line, however often reads and writes fail, the receiver stores only data that was
  announced and checked. If anything was stored, or the transfer succeeded, then an intact block 0 arrived
  whose metadata the callback accepted, and what is stored are the payloads of intact blocks
  with the numbers 1, 2, 3 and so on that arrived after it, in this order, cut to the announced size. If the
  transfer succeeded, the stored data has exactly that size.
\<close>

theorem ymodem_receiver_stores_checked_blocks:
  assumes "rx_write_all env = sink_write_all" "rx_flush env = sink_flush" "rx_out s = buffer_sink_new buf"
    and "receive_with env s = (r, s')"
  shows "(\<forall>t. r \<noteq> Some (Inr t)) \<and> stored (rx_out s') = [] \<or>
    (\<exists>header m avail ws. good_block (rx_crc env) 0 header \<and> suffix (header @ avail) (arrived (p_in s)) \<and>
       parse_metadata (rx_usize_max env) (payload header) = Some m \<and> rx_on_metadata env m = Inr () \<and>
       numbered (rx_crc env) 1 ws \<and> carries avail ws \<and>
       prefix (stored (rx_out s')) (take (md_file_size m) (concat (map payload ws))) \<and>
       (\<forall>t. r = Some (Inr t) \<longrightarrow> tr_file_size t = md_file_size m \<and> length (stored (rx_out s')) = md_file_size m))"
proof -
  have fresh: "in_range (rx_out s)" "stored (rx_out s) = []" using assms(3) by (simp_all add: buffer_sink_new_def in_range_def stored_def)
  from buffer.receive_written [OF assms(1,2) fresh(1) assms(4)] show ?thesis
    unfolding fresh(2) announces_def delivers_def append_Nil by blast
qed

section \<open>A small transfer\<close>

definition slice_read :: "bytes \<Rightarrow> bytes \<Rightarrow> (unit + usize) \<times> bytes \<times> bytes" where
  "slice_read buf src = (let count = min (length buf) (length src) in (Inr count, take count src @ drop count buf, drop count src))"

lemma slice_read_law: "reads_file slice_read (\<lambda>src. src)"
  by (auto simp: reads_file_def slice_read_def Let_def)

definition demo_tx :: "(unit, bytes, unit, unit, unit) tx_env" where
  "demo_tx = \<lparr>tx_kind = \<lambda>_. OtherKind, tx_crc = \<lambda>bs. of_nat (length bs), tx_config = ym_config_default,
     tx_read = slice_read, tx_notify = \<lambda>_ n. (Inr (), n)\<rparr>"

definition demo_rx :: "(unit, buffer_sink, buffer_sink_error, unit) rx_env" where
  "demo_rx = \<lparr>rx_kind = \<lambda>_. OtherKind, rx_crc = \<lambda>bs. of_nat (length bs), rx_usize_max = 65535, rx_config = ym_config_default,
     rx_on_metadata = \<lambda>_. Inr (), rx_write_all = sink_write_all, rx_flush = sink_flush\<rparr>"

definition demo_source :: "(unit, bytes, unit) tx_state" where
  "demo_source = \<lparr>p_in = [], p_out = [], p_room = None, p_error = (), p_flush_error = None, tx_source = [104, 105], tx_observer = ()\<rparr>"

definition demo_sink :: "(unit, buffer_sink) rx_state" where
  "demo_sink = \<lparr>p_in = [], p_out = [], p_room = None, p_error = (), p_flush_error = None, rx_out = buffer_sink_new [0, 0, 0]\<rparr>"

definition demo_metadata :: ym_metadata where "demo_metadata = \<lparr>md_filename = [97], md_file_size = 2\<rparr>"

definition demo_rounds :: "bytes \<times> bytes" where
  "demo_rounds = converse (sender_writes demo_tx demo_metadata demo_source) (receiver_writes demo_rx demo_sink) 5"

lemma demo_able:
  "\<exists>header. able_sender demo_tx (\<lambda>src. src) demo_metadata header" "able_receiver demo_rx demo_metadata"
  "length (file_blocks [104, 105]) = 1"
proof -
  have "length (decimal_bytes 2) \<le> 20" by (rule decimal_bytes_scratch) simp
  then have "\<exists>header. metadata_block demo_metadata = Inr header"
    by (auto simp: metadata_block_def demo_metadata_def Let_def HEADER_BLOCK_SIZE_def)
  then show "\<exists>header. able_sender demo_tx (\<lambda>src. src) demo_metadata header"
    by (auto simp: able_sender_def demo_tx_def slice_read_law ym_config_default_def)
  show "able_receiver demo_rx demo_metadata"
    by (simp add: able_receiver_def willing_receiver_def demo_rx_def demo_metadata_def ym_config_default_def)
  show "length (file_blocks [104, 105]) = 1" by (simp add: file_blocks.simps [of "[104, 105]"] file_blocks.simps [of "[]"] BLOCK_SIZE_def)
qed

lemma demo_setting:
  "tx_crc demo_tx = rx_crc demo_rx" "md_file_size demo_metadata = length [104, 105 :: u8]" "length [104, 105 :: u8] \<le> length [0, 0, 0 :: u8]"
  "on_line [] [] demo_source" "(\<lambda>src. src) (tx_source demo_source) = [104, 105]" "on_line [] [] demo_sink" "rx_out demo_sink = buffer_sink_new [0, 0, 0]"
  "converse (sender_writes demo_tx demo_metadata demo_source) (receiver_writes demo_rx demo_sink) (length (file_blocks [104, 105]) + 4) =
     (fst demo_rounds, snd demo_rounds)"
  by (simp_all add: demo_tx_def demo_rx_def demo_metadata_def demo_source_def demo_sink_def on_line_def demo_rounds_def demo_able(3) del: converse.simps)

theorem ymodem_transfer_completes_witness:
  "\<exists>s' r'. send_with demo_tx demo_metadata (demo_source\<lparr>p_in := map ReadByte (snd demo_rounds)\<rparr>) = (Some (Inr \<lparr>tr_file_size = 2\<rparr>), s') \<and>
     receive_with demo_rx (demo_sink\<lparr>p_in := map ReadByte (fst demo_rounds)\<rparr>) = (Some (Inr \<lparr>tr_file_size = 2\<rparr>), r') \<and>
     stored (rx_out r') = [104, 105]"
proof -
  from demo_able(1) obtain header where "able_sender demo_tx (\<lambda>src. src) demo_metadata header" by blast
  from ymodem_transfer_completes [OF this demo_able(2) demo_setting] show ?thesis by auto
qed

theorem ymodem_receiver_stores_checked_blocks_witness:
  "\<exists>r' header m. receive_with demo_rx (demo_sink\<lparr>p_in := map ReadByte (fst demo_rounds)\<rparr>) = (Some (Inr \<lparr>tr_file_size = 2\<rparr>), r') \<and>
     good_block (rx_crc demo_rx) 0 header \<and> parse_metadata 65535 (payload header) = Some m \<and> md_file_size m = 2"
proof -
  from demo_able(1) obtain header where "able_sender demo_tx (\<lambda>src. src) demo_metadata header" by blast
  from buffer_transfer [OF this demo_able(2) demo_setting] obtain r' where
    run: "receive_with demo_rx (demo_sink\<lparr>p_in := map ReadByte (fst demo_rounds)\<rparr>) = (Some (Inr \<lparr>tr_file_size = 2\<rparr>), r')" by auto
  have "rx_write_all demo_rx = sink_write_all" "rx_flush demo_rx = sink_flush" "rx_usize_max demo_rx = 65535"
    "rx_out (demo_sink\<lparr>p_in := map ReadByte (fst demo_rounds)\<rparr>) = buffer_sink_new [0, 0, 0]"
    by (simp_all add: demo_rx_def demo_sink_def)
  with ymodem_receiver_stores_checked_blocks [OF this(1,2,4) run] run show ?thesis by auto
qed

end
