(* ===== verification/Telnet.thy ===== *)
theory Telnet
  imports Prelude
begin

text \<open>
  The TELNET codec (\<open>microtun-telnet/src/lib.rs\<close>): the byte parser of RFC 854, the option slots with
  the six states of the Q method of RFC 1143 on either side, and subnegotiations. Bounded vectors are lists with
  their capacity: an append that does not fit leaves the vector as it is and reports failure.
\<close>

section \<open>Commands and options\<close>

definition IAC :: u8 where "IAC = 255"
definition DONT :: u8 where "DONT = 254"
definition DO :: u8 where "DO = 253"
definition WONT :: u8 where "WONT = 252"
definition WILL :: u8 where "WILL = 251"
definition SB :: u8 where "SB = 250"
definition SE :: u8 where "SE = 240"
definition NOP :: u8 where "NOP = 241"
definition BRK :: u8 where "BRK = 243"
definition IP :: u8 where "IP = 244"
definition AYT :: u8 where "AYT = 246"
definition EC :: u8 where "EC = 247"
definition EL :: u8 where "EL = 248"

lemmas command_defs = IAC_def DONT_def DO_def WONT_def WILL_def SB_def SE_def NOP_def BRK_def IP_def AYT_def EC_def EL_def

definition OPT_BINARY :: u8 where "OPT_BINARY = 0"

datatype side = Us | Him

record policy =
  support_us :: "u8 \<Rightarrow> bool"
  support_him :: "u8 \<Rightarrow> bool"

definition RejectAll :: policy where "RejectAll = \<lparr>support_us = \<lambda>_. False, support_him = \<lambda>_. False\<rparr>"

datatype telnet_event =
    TData u8
  | TInterrupt
  | TBreak
  | TAreYouThere
  | TEraseCharacter
  | TEraseLine
  | OptionEnabled side u8
  | OptionDisabled side u8
  | OptionRefused side u8
  | Subnegotiation u8

datatype rx_phase = RxData | RxIac | RxVerb u8 | RxSubnegOption | RxSubneg | RxSubnegIac

datatype qstate = QNo | QYes | WantNo | WantNoOpposite | WantYes | WantYesOpposite

record option_slot =
  os_option :: u8
  os_us :: qstate
  os_him :: qstate

definition option_slot_new :: "u8 \<Rightarrow> option_slot" where
  "option_slot_new option = \<lparr>os_option = option, os_us = QNo, os_him = QNo\<rparr>"

record telnet =
  tn_policy :: policy
  tn_rx :: rx_phase
  tn_subneg_option :: u8
  tn_subneg :: bytes
  tn_options :: "option_slot list"
  tn_sb_cap :: usize
  tn_option_cap :: usize

definition telnet_new :: "usize \<Rightarrow> usize \<Rightarrow> policy \<Rightarrow> telnet" where
  "telnet_new sb_cap option_cap policy =
     \<lparr>tn_policy = policy, tn_rx = RxData, tn_subneg_option = 0, tn_subneg = [], tn_options = [],
      tn_sb_cap = sb_cap, tn_option_cap = option_cap\<rparr>"

section \<open>Option state\<close>

definition is_pending :: "qstate \<Rightarrow> bool" where
  "is_pending q \<longleftrightarrow> q \<in> {WantYes, WantYesOpposite, WantNo, WantNoOpposite}"

definition slot_of :: "telnet \<Rightarrow> u8 \<Rightarrow> option_slot option" where
  "slot_of t option = find (\<lambda>slot. os_option slot = option) (tn_options t)"

definition us_enabled :: "telnet \<Rightarrow> u8 \<Rightarrow> bool" where
  "us_enabled t option = (case slot_of t option of Some slot \<Rightarrow> os_us slot = QYes | None \<Rightarrow> False)"

definition him_enabled :: "telnet \<Rightarrow> u8 \<Rightarrow> bool" where
  "him_enabled t option = (case slot_of t option of Some slot \<Rightarrow> os_him slot = QYes | None \<Rightarrow> False)"

definition us_pending :: "telnet \<Rightarrow> u8 \<Rightarrow> bool" where
  "us_pending t option = (case slot_of t option of Some slot \<Rightarrow> is_pending (os_us slot) | None \<Rightarrow> False)"

definition him_pending :: "telnet \<Rightarrow> u8 \<Rightarrow> bool" where
  "him_pending t option = (case slot_of t option of Some slot \<Rightarrow> is_pending (os_him slot) | None \<Rightarrow> False)"

definition binary_mode_enabled :: "telnet \<Rightarrow> bool" where
  "binary_mode_enabled t \<longleftrightarrow> us_enabled t OPT_BINARY \<and> him_enabled t OPT_BINARY"

definition binary_mode_refused :: "telnet \<Rightarrow> bool" where
  "binary_mode_refused t \<longleftrightarrow>
     \<not> us_enabled t OPT_BINARY \<and> \<not> us_pending t OPT_BINARY \<or> \<not> him_enabled t OPT_BINARY \<and> \<not> him_pending t OPT_BINARY"

definition subnegotiation :: "telnet \<Rightarrow> u8 \<times> bytes" where
  "subnegotiation t = (tn_subneg_option t, tn_subneg t)"

text \<open>The index of the slot of an option, made if there is none; a full table recycles a disabled slot, or else its last one.\<close>

definition slot_mut :: "telnet \<Rightarrow> u8 \<Rightarrow> telnet \<times> usize" where
  "slot_mut t option =
     (case position (\<lambda>slot. os_option slot = option) (tn_options t) of
        Some index \<Rightarrow> (t, index)
      | None \<Rightarrow>
          if length (tn_options t) < tn_option_cap t
          then (t\<lparr>tn_options := tn_options t @ [option_slot_new option]\<rparr>, length (tn_options t))
          else let index = (case position (\<lambda>slot. os_us slot = QNo \<and> os_him slot = QNo) (tn_options t) of
                              Some i \<Rightarrow> i
                            | None \<Rightarrow> length (tn_options t) - 1)
               in (t\<lparr>tn_options := (tn_options t)[index := option_slot_new option]\<rparr>, index))"

section \<open>Negotiation\<close>

text \<open>\<open>cap\<close> is the capacity of the vector replies are appended to.\<close>

definition push_cmd :: "usize \<Rightarrow> bytes \<Rightarrow> u8 \<Rightarrow> u8 \<Rightarrow> bool \<times> bytes" where
  "push_cmd cap out verb option =
     (if length out + 3 \<le> cap then (True, out @ [IAC, verb, option]) else (False, out))"

fun request_state :: "usize \<Rightarrow> qstate \<Rightarrow> bool \<Rightarrow> u8 \<Rightarrow> u8 \<Rightarrow> u8 \<Rightarrow> bytes \<Rightarrow> qstate \<times> bytes" where
  "request_state cap QNo True positive_verb negative_verb option out =
     (case push_cmd cap out positive_verb option of (False, out) \<Rightarrow> (QNo, out) | (True, out) \<Rightarrow> (WantYes, out))"
| "request_state cap QYes False positive_verb negative_verb option out =
     (case push_cmd cap out negative_verb option of (False, out) \<Rightarrow> (QYes, out) | (True, out) \<Rightarrow> (WantNo, out))"
| "request_state cap WantNo True positive_verb negative_verb option out = (WantNoOpposite, out)"
| "request_state cap WantNoOpposite False positive_verb negative_verb option out = (WantNo, out)"
| "request_state cap WantYes False positive_verb negative_verb option out = (WantYesOpposite, out)"
| "request_state cap WantYesOpposite True positive_verb negative_verb option out = (WantYes, out)"
| "request_state cap q enable positive_verb negative_verb option out = (q, out)"

fun receive_positive :: "usize \<Rightarrow> qstate \<Rightarrow> bool \<Rightarrow> u8 \<Rightarrow> u8 \<Rightarrow> u8 \<Rightarrow> bytes \<Rightarrow> qstate \<times> bytes" where
  "receive_positive cap QNo supported positive_verb negative_verb option out =
     (case push_cmd cap out (if supported then positive_verb else negative_verb) option of
        (False, out) \<Rightarrow> (QNo, out)
      | (True, out) \<Rightarrow> (if supported then QYes else QNo, out))"
| "receive_positive cap QYes supported positive_verb negative_verb option out = (QYes, out)"
| "receive_positive cap WantNo supported positive_verb negative_verb option out = (QNo, out)"
| "receive_positive cap WantNoOpposite supported positive_verb negative_verb option out = (QYes, out)"
| "receive_positive cap WantYes supported positive_verb negative_verb option out = (QYes, out)"
| "receive_positive cap WantYesOpposite supported positive_verb negative_verb option out =
     (case push_cmd cap out negative_verb option of (False, out) \<Rightarrow> (WantYesOpposite, out) | (True, out) \<Rightarrow> (WantNo, out))"

fun receive_negative :: "usize \<Rightarrow> qstate \<Rightarrow> u8 \<Rightarrow> u8 \<Rightarrow> u8 \<Rightarrow> bytes \<Rightarrow> qstate \<times> bytes" where
  "receive_negative cap QNo positive_verb negative_verb option out = (QNo, out)"
| "receive_negative cap QYes positive_verb negative_verb option out =
     (case push_cmd cap out negative_verb option of (False, out) \<Rightarrow> (QYes, out) | (True, out) \<Rightarrow> (QNo, out))"
| "receive_negative cap WantNo positive_verb negative_verb option out = (QNo, out)"
| "receive_negative cap WantNoOpposite positive_verb negative_verb option out =
     (case push_cmd cap out positive_verb option of (False, out) \<Rightarrow> (WantNoOpposite, out) | (True, out) \<Rightarrow> (WantYes, out))"
| "receive_negative cap WantYes positive_verb negative_verb option out = (QNo, out)"
| "receive_negative cap WantYesOpposite positive_verb negative_verb option out = (QNo, out)"

text \<open>Running one of these on the slot of an option, on our side or on the peer's.\<close>

definition on_us :: "telnet \<Rightarrow> u8 \<Rightarrow> (qstate \<Rightarrow> qstate \<times> bytes) \<Rightarrow> qstate \<times> qstate \<times> telnet \<times> bytes" where
  "on_us t option f =
     (let (t, i) = slot_mut t option; slot = tn_options t ! i; (q, out) = f (os_us slot)
      in (os_us slot, q, t\<lparr>tn_options := (tn_options t)[i := slot\<lparr>os_us := q\<rparr>]\<rparr>, out))"

definition on_him :: "telnet \<Rightarrow> u8 \<Rightarrow> (qstate \<Rightarrow> qstate \<times> bytes) \<Rightarrow> qstate \<times> qstate \<times> telnet \<times> bytes" where
  "on_him t option f =
     (let (t, i) = slot_mut t option; slot = tn_options t ! i; (q, out) = f (os_him slot)
      in (os_him slot, q, t\<lparr>tn_options := (tn_options t)[i := slot\<lparr>os_him := q\<rparr>]\<rparr>, out))"

definition request_us :: "usize \<Rightarrow> telnet \<Rightarrow> u8 \<Rightarrow> bytes \<Rightarrow> telnet \<times> bytes" where
  "request_us cap t option out = snd (snd (on_us t option (\<lambda>q. request_state cap q True WILL WONT option out)))"

definition disable_us :: "usize \<Rightarrow> telnet \<Rightarrow> u8 \<Rightarrow> bytes \<Rightarrow> telnet \<times> bytes" where
  "disable_us cap t option out = snd (snd (on_us t option (\<lambda>q. request_state cap q False WILL WONT option out)))"

definition request_him :: "usize \<Rightarrow> telnet \<Rightarrow> u8 \<Rightarrow> bytes \<Rightarrow> telnet \<times> bytes" where
  "request_him cap t option out = snd (snd (on_him t option (\<lambda>q. request_state cap q True DO DONT option out)))"

definition disable_him :: "usize \<Rightarrow> telnet \<Rightarrow> u8 \<Rightarrow> bytes \<Rightarrow> telnet \<times> bytes" where
  "disable_him cap t option out = snd (snd (on_him t option (\<lambda>q. request_state cap q False DO DONT option out)))"

definition request_binary_mode :: "usize \<Rightarrow> telnet \<Rightarrow> bytes \<Rightarrow> telnet \<times> bytes" where
  "request_binary_mode cap t out = (let (t, out) = request_us cap t OPT_BINARY out in request_him cap t OPT_BINARY out)"

definition disable_binary_mode :: "usize \<Rightarrow> telnet \<Rightarrow> bytes \<Rightarrow> telnet \<times> bytes" where
  "disable_binary_mode cap t out = (let (t, out) = disable_us cap t OPT_BINARY out in disable_him cap t OPT_BINARY out)"

definition transition_event :: "side \<Rightarrow> u8 \<Rightarrow> bool \<Rightarrow> bool \<Rightarrow> telnet_event option" where
  "transition_event side option was_enabled enabled =
     (if \<not> was_enabled \<and> enabled then Some (OptionEnabled side option)
      else if was_enabled \<and> \<not> enabled then Some (OptionDisabled side option)
      else None)"

definition refusal_event :: "side \<Rightarrow> u8 \<Rightarrow> qstate \<Rightarrow> qstate \<Rightarrow> telnet_event option" where
  "refusal_event side option before after =
     (case transition_event side option (before = QYes) (after = QYes) of
        Some e \<Rightarrow> Some e
      | None \<Rightarrow> if before = WantYes \<and> after = QNo then Some (OptionRefused side option) else None)"

definition negotiate :: "usize \<Rightarrow> telnet \<Rightarrow> u8 \<Rightarrow> u8 \<Rightarrow> bytes \<Rightarrow> telnet_event option \<times> telnet \<times> bytes" where
  "negotiate cap t verb option out =
     (if verb = DO
      then (let (before, after, t', out) = on_us t option (\<lambda>q. receive_positive cap q (support_us (tn_policy t) option) WILL WONT option out)
            in (transition_event Us option (before = QYes) (after = QYes), t', out))
      else if verb = DONT
      then (let (before, after, t', out) = on_us t option (\<lambda>q. receive_negative cap q WILL WONT option out)
            in (refusal_event Us option before after, t', out))
      else if verb = WILL
      then (let (before, after, t', out) = on_him t option (\<lambda>q. receive_positive cap q (support_him (tn_policy t) option) DO DONT option out)
            in (transition_event Him option (before = QYes) (after = QYes), t', out))
      else if verb = WONT
      then (let (before, after, t', out) = on_him t option (\<lambda>q. receive_negative cap q DO DONT option out)
            in (refusal_event Him option before after, t', out))
      else (None, t, out))"

section \<open>The byte parser\<close>

definition push_subneg :: "telnet \<Rightarrow> u8 \<Rightarrow> telnet" where
  "push_subneg t b = (if length (tn_subneg t) < tn_sb_cap t then t\<lparr>tn_subneg := tn_subneg t @ [b]\<rparr> else t)"

fun iac_event :: "u8 \<Rightarrow> telnet_event option" where
  "iac_event b =
     (if b = IAC then Some (TData IAC)
      else if b = IP then Some TInterrupt
      else if b = BRK then Some TBreak
      else if b = AYT then Some TAreYouThere
      else if b = EC then Some TEraseCharacter
      else if b = EL then Some TEraseLine
      else None)"

definition feed :: "usize \<Rightarrow> telnet \<Rightarrow> u8 \<Rightarrow> bytes \<Rightarrow> telnet_event option \<times> telnet \<times> bytes" where
  "feed cap t b reply =
     (case tn_rx t of
        RxData \<Rightarrow> if b = IAC then (None, t\<lparr>tn_rx := RxIac\<rparr>, reply) else (Some (TData b), t, reply)
      | RxIac \<Rightarrow>
          if b = DO \<or> b = DONT \<or> b = WILL \<or> b = WONT then (None, t\<lparr>tn_rx := RxVerb b\<rparr>, reply)
          else if b = SB then (None, t\<lparr>tn_rx := RxSubnegOption\<rparr>, reply)
          else (iac_event b, t\<lparr>tn_rx := RxData\<rparr>, reply)
      | RxVerb verb \<Rightarrow> negotiate cap (t\<lparr>tn_rx := RxData\<rparr>) verb b reply
      | RxSubnegOption \<Rightarrow> (None, t\<lparr>tn_subneg_option := b, tn_subneg := [], tn_rx := RxSubneg\<rparr>, reply)
      | RxSubneg \<Rightarrow> (None, if b = IAC then t\<lparr>tn_rx := RxSubnegIac\<rparr> else push_subneg t b, reply)
      | RxSubnegIac \<Rightarrow>
          if b = SE then (Some (Subnegotiation (tn_subneg_option t)), t\<lparr>tn_rx := RxData\<rparr>, reply)
          else if b = IAC then (None, (push_subneg t IAC)\<lparr>tn_rx := RxSubneg\<rparr>, reply)
          else (None, t\<lparr>tn_rx := RxData\<rparr>, reply))"

text \<open>Appending to a vector of fixed capacity does nothing when there is not enough room.\<close>

definition vec_extend :: "usize \<Rightarrow> bytes \<Rightarrow> bytes \<Rightarrow> bytes" where
  "vec_extend cap out bs = (if length out + length bs \<le> cap then out @ bs else out)"

definition push_escaped :: "usize \<Rightarrow> bytes \<Rightarrow> u8 \<Rightarrow> bytes" where
  "push_escaped cap out b = (let out = vec_extend cap out [b] in if b = IAC then vec_extend cap out [IAC] else out)"

definition push_subnegotiation :: "usize \<Rightarrow> bytes \<Rightarrow> u8 \<Rightarrow> bytes \<Rightarrow> bool \<times> bytes" where
  "push_subnegotiation cap out option payload =
     (let escaped = length (filter (\<lambda>b. b = IAC) payload);
          required = 5 + length payload + escaped
      in if cap - length out < required then (False, out)
         else (True, vec_extend cap (foldl (push_escaped cap) (vec_extend cap out [IAC, SB, option]) payload) [IAC, SE]))"

lemma push_escaped_all:
  "length out + length payload + length (filter (\<lambda>b. b = IAC) payload) \<le> cap \<Longrightarrow>
     foldl (push_escaped cap) out payload = out @ concat (map (\<lambda>b. if b = IAC then [b, IAC] else [b]) payload)"
  by (induction payload arbitrary: out) (auto simp: push_escaped_def vec_extend_def)

lemma length_escaped:
  "length (concat (map (\<lambda>b. if b = IAC then [b, IAC] else [b]) payload)) = length payload + length (filter (\<lambda>b. b = IAC) payload)"
  by (induction payload) auto

text \<open>The size computed beforehand is enough: the frame is appended whole or not at all.\<close>

lemma push_subnegotiation_whole:
  "push_subnegotiation cap out option payload =
     (if cap - length out < 5 + length payload + length (filter (\<lambda>b. b = IAC) payload) then (False, out)
      else (True, out @ [IAC, SB, option] @ concat (map (\<lambda>b. if b = IAC then [b, IAC] else [b]) payload) @ [IAC, SE]))"
proof (cases "cap - length out < 5 + length payload + length (filter (\<lambda>b. b = IAC) payload)")
  case True
  then show ?thesis by (simp add: push_subnegotiation_def)
next
  case False
  let ?escaped = "concat (map (\<lambda>b. if b = IAC then [b, IAC] else [b]) payload)"
  have opened: "vec_extend cap out [IAC, SB, option] = out @ [IAC, SB, option]"
    using False by (simp add: vec_extend_def)
  have body: "foldl (push_escaped cap) (out @ [IAC, SB, option]) payload = (out @ [IAC, SB, option]) @ ?escaped"
    by (rule push_escaped_all) (use False in simp)
  have closed: "vec_extend cap ((out @ [IAC, SB, option]) @ ?escaped) [IAC, SE] = ((out @ [IAC, SB, option]) @ ?escaped) @ [IAC, SE]"
    unfolding vec_extend_def length_append length_escaped using False by simp
  show ?thesis
    unfolding push_subnegotiation_def Let_def opened body closed using False by simp
qed

end
