(* ===== verification/Telnet_Options.thy ===== *)
theory Telnet_Options
  imports Telnet "HOL-Library.Sublist"
begin

text \<open>
  The option table of the TELNET codec: one slot per option within the capacity chosen by the
  application, and what the operations do to the state of an option, seen as a function of the option
  (\<open>q_us\<close>, \<open>q_him\<close>, disabled where there is no slot).
\<close>

definition telnet_wf :: "telnet \<Rightarrow> bool" where
  "telnet_wf t \<longleftrightarrow> distinct (map os_option (tn_options t)) \<and> length (tn_options t) \<le> tn_option_cap t \<and> 0 < tn_option_cap t \<and>
     length (tn_subneg t) \<le> tn_sb_cap t"

definition q_us :: "telnet \<Rightarrow> u8 \<Rightarrow> qstate" where
  "q_us t opt = (case slot_of t opt of Some slot \<Rightarrow> os_us slot | None \<Rightarrow> QNo)"

definition q_him :: "telnet \<Rightarrow> u8 \<Rightarrow> qstate" where
  "q_him t opt = (case slot_of t opt of Some slot \<Rightarrow> os_him slot | None \<Rightarrow> QNo)"

lemma enabled_q:
  "us_enabled t opt \<longleftrightarrow> q_us t opt = QYes" "him_enabled t opt \<longleftrightarrow> q_him t opt = QYes"
  "us_pending t opt \<longleftrightarrow> is_pending (q_us t opt)" "him_pending t opt \<longleftrightarrow> is_pending (q_him t opt)"
  by (auto simp: us_enabled_def him_enabled_def us_pending_def him_pending_def q_us_def q_him_def is_pending_def split: option.splits)

lemma find_distinct:
  "distinct (map f xs) \<Longrightarrow> find (\<lambda>x. f x = k) xs = Some x \<longleftrightarrow> x \<in> set xs \<and> f x = k"
  by (induction xs) auto

lemma find_none: "find (\<lambda>x. f x = k) xs = None \<longleftrightarrow> k \<notin> f ` set xs"
  by (induction xs) auto

text \<open>The slot that \<open>slot_mut\<close> hands out, and what happens to the others: one of them may be recycled.\<close>

lemma slot_mut_slot:
  assumes wf: "telnet_wf t" and run: "slot_mut t opt = (t', i)"
  shows "telnet_wf t' \<and> i < length (tn_options t') \<and> tn_options t' ! i = (case slot_of t opt of Some slot \<Rightarrow> slot | None \<Rightarrow> option_slot_new opt) \<and>
    os_option (tn_options t' ! i) = opt \<and> t' = t\<lparr>tn_options := tn_options t'\<rparr> \<and> set (tn_options t') \<subseteq> insert (tn_options t' ! i) (set (tn_options t))"
proof (cases "position (\<lambda>slot. os_option slot = opt) (tn_options t)")
  case (Some j)
  from position_SomeD [OF Some] have j: "j < length (tn_options t)" "os_option (tn_options t ! j) = opt" by auto
  with wf have "slot_of t opt = Some (tn_options t ! j)" by (simp add: slot_of_def telnet_wf_def find_distinct)
  with Some run wf j show ?thesis by (auto simp: slot_mut_def)
next
  case None
  then have new: "opt \<notin> os_option ` set (tn_options t)" by (auto simp: position_None_iff)
  then have none: "slot_of t opt = None" by (simp add: slot_of_def find_none)
  show ?thesis
  proof (cases "length (tn_options t) < tn_option_cap t")
    case True
    with run None have "t' = t\<lparr>tn_options := tn_options t @ [option_slot_new opt]\<rparr>" "i = length (tn_options t)" by (auto simp: slot_mut_def)
    with wf new none True show ?thesis by (auto simp: telnet_wf_def option_slot_new_def)
  next
    case False
    with wf have "0 < length (tn_options t)" by (auto simp: telnet_wf_def)
    with run None False have t': "t' = t\<lparr>tn_options := (tn_options t)[i := option_slot_new opt]\<rparr>" and i: "i < length (tn_options t)"
      by (auto simp: slot_mut_def Let_def dest: position_SomeD split: option.splits)
    have "distinct (map os_option (tn_options t'))"
      using wf new i by (auto simp: t' telnet_wf_def map_update option_slot_new_def distinct_list_update)
    moreover have "set (tn_options t') \<subseteq> insert (option_slot_new opt) (set (tn_options t))" unfolding t' by (simp add: set_update_subset_insert)
    ultimately show ?thesis using wf none i by (simp add: t' telnet_wf_def) (simp add: option_slot_new_def)
  qed
qed

text \<open>Running a negotiation function on one side of an option.\<close>

lemma find_update:
  "i < length xs \<Longrightarrow> f y = f (xs ! i) \<Longrightarrow> distinct (map f xs) \<Longrightarrow>
     find (\<lambda>x. f x = k) (xs[i := y]) = (if k = f y then Some y else find (\<lambda>x. f x = k) xs)"
proof (induction xs arbitrary: i)
  case (Cons x xs)
  show ?case
  proof (cases i)
    case (Suc j)
    with Cons.prems have "f x \<noteq> f y" by auto
    with Suc Cons show ?thesis by auto
  qed (use Cons.prems in auto)
qed simp

lemma slot_of_update:
  assumes "telnet_wf t" "i < length (tn_options t)" "os_option slot = os_option (tn_options t ! i)"
  shows "slot_of (t\<lparr>tn_options := (tn_options t)[i := slot]\<rparr>) opt = (if opt = os_option slot then Some slot else slot_of t opt)"
    and "telnet_wf (t\<lparr>tn_options := (tn_options t)[i := slot]\<rparr>)"
proof -
  have "map os_option ((tn_options t)[i := slot]) = map os_option (tn_options t)"
    using assms(2,3) by (metis list_update_id map_update nth_map)
  then show "telnet_wf (t\<lparr>tn_options := (tn_options t)[i := slot]\<rparr>)" using assms(1) by (simp add: telnet_wf_def)
  show "slot_of (t\<lparr>tn_options := (tn_options t)[i := slot]\<rparr>) opt = (if opt = os_option slot then Some slot else slot_of t opt)"
    using assms by (simp add: slot_of_def find_update telnet_wf_def)
qed

text \<open>An option that is not the one asked for keeps its slot or loses it.\<close>

lemma slot_mut_others:
  assumes wf: "telnet_wf t" and run: "slot_mut t opt = (t', i)"
  shows "slot_of t' opt = Some (case slot_of t opt of Some slot \<Rightarrow> slot | None \<Rightarrow> option_slot_new opt)"
    and "other \<noteq> opt \<Longrightarrow> slot_of t' other = slot_of t other \<or> slot_of t' other = None"
proof -
  note s = slot_mut_slot [OF wf run]
  then have "tn_options t' ! i \<in> set (tn_options t')" by (blast intro: nth_mem)
  with s show "slot_of t' opt = Some (case slot_of t opt of Some slot \<Rightarrow> slot | None \<Rightarrow> option_slot_new opt)"
    by (metis find_distinct slot_of_def telnet_wf_def)
  assume "other \<noteq> opt"
  then show "slot_of t' other = slot_of t other \<or> slot_of t' other = None"
    using s wf find_distinct [of os_option "tn_options t'" other] find_distinct [of os_option "tn_options t" other]
    unfolding slot_of_def telnet_wf_def by (metis insertE option.exhaust subsetD)
qed

definition settled :: "telnet \<Rightarrow> telnet \<Rightarrow> bool" where
  "settled t t' \<longleftrightarrow> telnet_wf t' \<and> tn_policy t' = tn_policy t"

lemma on_us_state:
  assumes wf: "telnet_wf t" and run: "on_us t opt f = (before, after, t', out)"
  shows "settled t t'" "before = q_us t opt" "f before = (after, out)" "q_us t' opt = after" "q_him t' opt = q_him t opt"
    "other \<noteq> opt \<Longrightarrow> q_us t' other \<in> {q_us t other, QNo}" "other \<noteq> opt \<Longrightarrow> q_him t' other \<in> {q_him t other, QNo}"
proof -
  obtain u i where u: "slot_mut t opt = (u, i)" by fastforce
  define slot where "slot = tn_options u ! i"
  obtain q o' where f: "f (os_us slot) = (q, o')" by fastforce
  from run u f have res: "before = os_us slot" "after = q" "out = o'" "t' = u\<lparr>tn_options := (tn_options u)[i := slot\<lparr>os_us := q\<rparr>]\<rparr>"
    by (auto simp: on_us_def slot_def Let_def split: prod.splits)
  note s = slot_mut_slot [OF wf u] and others = slot_mut_others [OF wf u]
  from s have wfu: "telnet_wf u" and i: "i < length (tn_options u)" "os_option slot = opt" by (auto simp: slot_def)
  have upd: "slot_of t' x = (if x = opt then Some (slot\<lparr>os_us := q\<rparr>) else slot_of u x)" "telnet_wf t'" for x
    using slot_of_update [OF wfu i(1), of "slot\<lparr>os_us := q\<rparr>"] i(2) by (auto simp: res slot_def)
  show "settled t t'" using upd(2) s by (auto simp: settled_def res) (metis telnet.select_convs(1) telnet.surjective telnet.update_convs(5))
  show "before = q_us t opt" "q_him t' opt = q_him t opt" using s upd(1) [of opt] by (auto simp: res q_us_def q_him_def slot_def option_slot_new_def split: option.splits)
  show "f before = (after, out)" "q_us t' opt = after" using f upd(1) [of opt] by (simp_all add: res q_us_def)
  show "other \<noteq> opt \<Longrightarrow> q_us t' other \<in> {q_us t other, QNo}" "other \<noteq> opt \<Longrightarrow> q_him t' other \<in> {q_him t other, QNo}"
    using others(2) [of other] by (auto simp: q_us_def q_him_def upd)
qed

lemma on_him_state:
  assumes wf: "telnet_wf t" and run: "on_him t opt f = (before, after, t', out)"
  shows "settled t t'" "before = q_him t opt" "f before = (after, out)" "q_him t' opt = after" "q_us t' opt = q_us t opt"
    "other \<noteq> opt \<Longrightarrow> q_him t' other \<in> {q_him t other, QNo}" "other \<noteq> opt \<Longrightarrow> q_us t' other \<in> {q_us t other, QNo}"
proof -
  obtain u i where u: "slot_mut t opt = (u, i)" by fastforce
  define slot where "slot = tn_options u ! i"
  obtain q o' where f: "f (os_him slot) = (q, o')" by fastforce
  from run u f have res: "before = os_him slot" "after = q" "out = o'" "t' = u\<lparr>tn_options := (tn_options u)[i := slot\<lparr>os_him := q\<rparr>]\<rparr>"
    by (auto simp: on_him_def slot_def Let_def split: prod.splits)
  note s = slot_mut_slot [OF wf u] and others = slot_mut_others [OF wf u]
  from s have wfu: "telnet_wf u" and i: "i < length (tn_options u)" "os_option slot = opt" by (auto simp: slot_def)
  have upd: "slot_of t' x = (if x = opt then Some (slot\<lparr>os_him := q\<rparr>) else slot_of u x)" "telnet_wf t'" for x
    using slot_of_update [OF wfu i(1), of "slot\<lparr>os_him := q\<rparr>"] i(2) by (auto simp: res slot_def)
  show "settled t t'" using upd(2) s by (auto simp: settled_def res) (metis telnet.select_convs(1) telnet.surjective telnet.update_convs(5))
  show "before = q_him t opt" "q_us t' opt = q_us t opt" using s upd(1) [of opt] by (auto simp: res q_him_def q_us_def slot_def option_slot_new_def split: option.splits)
  show "f before = (after, out)" "q_him t' opt = after" using f upd(1) [of opt] by (simp_all add: res q_him_def)
  show "other \<noteq> opt \<Longrightarrow> q_him t' other \<in> {q_him t other, QNo}" "other \<noteq> opt \<Longrightarrow> q_us t' other \<in> {q_us t other, QNo}"
    using others(2) [of other] by (auto simp: q_him_def q_us_def upd)
qed

lemma receive_capacity:
  "receive_positive cap q ok p n opt reply = (q', reply') \<Longrightarrow> length reply \<le> cap \<Longrightarrow> prefix reply reply' \<and> length reply' \<le> cap"
  "receive_negative cap q p n opt reply = (q', reply') \<Longrightarrow> length reply \<le> cap \<Longrightarrow> prefix reply reply' \<and> length reply' \<le> cap"
  by (cases q; auto simp: push_cmd_def split: if_splits)+

text \<open>The states in which the last request of the application was to enable the option, and the answer of the peer is awaited.\<close>

definition wanted :: "qstate \<Rightarrow> bool" where
  "wanted q \<longleftrightarrow> q = WantYes \<or> q = WantNoOpposite"

lemma receive_enables:
  "receive_positive cap q ok p n opt reply = (QYes, reply') \<Longrightarrow> q = QYes \<or> q = QNo \<and> ok \<or> wanted q"
  "receive_negative cap q p n opt reply = (QYes, reply') \<Longrightarrow> q = QYes"
  by (cases q; auto simp: push_cmd_def wanted_def split: if_splits)+

lemma request_wants:
  assumes "length out + 3 \<le> cap"
  shows "fst (request_state cap q True p n opt out) = QYes \<or> wanted (fst (request_state cap q True p n opt out))"
    and "fst (request_state cap q False p n opt out) \<noteq> QYes \<and> \<not> wanted (fst (request_state cap q False p n opt out))"
  using assms by (cases q; simp add: push_cmd_def wanted_def)+

lemma requests_want:
  assumes "telnet_wf t" "length out + 3 \<le> cap"
  shows "q_us (fst (request_us cap t opt out)) opt = QYes \<or> wanted (q_us (fst (request_us cap t opt out)) opt)"
    and "q_us (fst (disable_us cap t opt out)) opt \<noteq> QYes \<and> \<not> wanted (q_us (fst (disable_us cap t opt out)) opt)"
    and "q_him (fst (request_him cap t opt out)) opt = QYes \<or> wanted (q_him (fst (request_him cap t opt out)) opt)"
    and "q_him (fst (disable_him cap t opt out)) opt \<noteq> QYes \<and> \<not> wanted (q_him (fst (disable_him cap t opt out)) opt)"
proof -
  have us: "\<exists>q. q_us (fst (snd (snd (on_us t opt f)))) opt = fst (f q)" for f
    using on_us_state(3,4) [OF assms(1), of opt f] by (metis fst_conv prod.collapse)
  have him: "\<exists>q. q_him (fst (snd (snd (on_him t opt f)))) opt = fst (f q)" for f
    using on_him_state(3,4) [OF assms(1), of opt f] by (metis fst_conv prod.collapse)
  show "q_us (fst (request_us cap t opt out)) opt = QYes \<or> wanted (q_us (fst (request_us cap t opt out)) opt)"
    "q_us (fst (disable_us cap t opt out)) opt \<noteq> QYes \<and> \<not> wanted (q_us (fst (disable_us cap t opt out)) opt)"
    unfolding request_us_def disable_us_def using us request_wants [OF assms(2)] by metis+
  show "q_him (fst (request_him cap t opt out)) opt = QYes \<or> wanted (q_him (fst (request_him cap t opt out)) opt)"
    "q_him (fst (disable_him cap t opt out)) opt \<noteq> QYes \<and> \<not> wanted (q_him (fst (disable_him cap t opt out)) opt)"
    unfolding request_him_def disable_him_def using him request_wants [OF assms(2)] by metis+
qed

text \<open>What an operation may do to the options: turn off any, turn on only those it reports, for a reason.\<close>

definition justified :: "telnet \<Rightarrow> (u8 \<times> u8) option \<Rightarrow> telnet_event option \<Rightarrow> telnet \<Rightarrow> bool" where
  "justified t cmd ev t' \<longleftrightarrow> telnet_wf t' \<and> tn_policy t' = tn_policy t \<and>
     (\<forall>opt. us_enabled t' opt \<longrightarrow> us_enabled t opt \<or> cmd = Some (DO, opt) \<and>
        ev = Some (OptionEnabled Us opt) \<and> (q_us t opt = QNo \<and> support_us (tn_policy t) opt \<or> wanted (q_us t opt))) \<and>
     (\<forall>opt. him_enabled t' opt \<longrightarrow> him_enabled t opt \<or> cmd = Some (WILL, opt) \<and>
        ev = Some (OptionEnabled Him opt) \<and> (q_him t opt = QNo \<and> support_him (tn_policy t) opt \<or> wanted (q_him t opt)))"

lemma justified_us:
  assumes wf: "telnet_wf t" and run: "on_us t opt f = (before, after, t', out)"
    and "after = QYes \<Longrightarrow> before = QYes \<or> cmd = Some (DO, opt) \<and> ev = Some (OptionEnabled Us opt) \<and> (before = QNo \<and> support_us (tn_policy t) opt \<or> wanted before)"
  shows "justified t cmd ev t'"
proof -
  note r = on_us_state [OF wf run]
  have "q_us t' x = QYes \<Longrightarrow> q_us t x = QYes \<or> cmd = Some (DO, x) \<and> ev = Some (OptionEnabled Us x) \<and> (q_us t x = QNo \<and> support_us (tn_policy t) x \<or> wanted (q_us t x))" for x
    using r(2,4) r(6) [of x] assms(3) by (cases "x = opt") auto
  moreover have "q_him t' x = QYes \<Longrightarrow> q_him t x = QYes" for x using r(5) r(7) [of x] by (cases "x = opt") auto
  ultimately show ?thesis using r(1) by (auto simp: justified_def settled_def enabled_q)
qed

lemma justified_him:
  assumes wf: "telnet_wf t" and run: "on_him t opt f = (before, after, t', out)"
    and "after = QYes \<Longrightarrow> before = QYes \<or> cmd = Some (WILL, opt) \<and> ev = Some (OptionEnabled Him opt) \<and> (before = QNo \<and> support_him (tn_policy t) opt \<or> wanted before)"
  shows "justified t cmd ev t'"
proof -
  note r = on_him_state [OF wf run]
  have "q_him t' x = QYes \<Longrightarrow> q_him t x = QYes \<or> cmd = Some (WILL, x) \<and> ev = Some (OptionEnabled Him x) \<and> (q_him t x = QNo \<and> support_him (tn_policy t) x \<or> wanted (q_him t x))" for x
    using r(2,4) r(6) [of x] assms(3) by (cases "x = opt") auto
  moreover have "q_us t' x = QYes \<Longrightarrow> q_us t x = QYes" for x using r(5) r(7) [of x] by (cases "x = opt") auto
  ultimately show ?thesis using r(1) by (auto simp: justified_def settled_def enabled_q)
qed

lemma negotiate_justified:
  assumes wf: "telnet_wf t" and room: "length reply \<le> cap" and run: "negotiate cap t verb opt reply = (ev, t', reply')"
  shows "justified t (Some (verb, opt)) ev t' \<and> prefix reply reply' \<and> length reply' \<le> cap"
proof -
  have ev: "transition_event s opt (before = QYes) (after = QYes) = Some (OptionEnabled s opt)" if "after = QYes" "before \<noteq> QYes" for s before after
    using that by (simp add: transition_event_def)
  consider "verb = DO" | "verb \<noteq> DO" "verb = DONT" | "verb \<noteq> DO" "verb \<noteq> DONT" "verb = WILL" | "verb \<noteq> DO" "verb \<noteq> DONT" "verb \<noteq> WILL" "verb = WONT"
    | "verb \<notin> {DO, DONT, WILL, WONT}" by blast
  then show ?thesis
  proof cases
    case 1
    obtain before after where r: "on_us t opt (\<lambda>q. receive_positive cap q (support_us (tn_policy t) opt) WILL WONT opt reply) = (before, after, t', reply')"
      and e: "ev = transition_event Us opt (before = QYes) (after = QYes)" using 1 run by (auto simp: negotiate_def Let_def split: prod.splits)
    note f = on_us_state(3) [OF wf r]
    from justified_us [OF wf r, of "Some (verb, opt)" ev] receive_capacity(1) [OF f room] receive_enables(1) f ev 1 show ?thesis unfolding e by blast
  next
    case 2
    obtain before after where r: "on_us t opt (\<lambda>q. receive_negative cap q WILL WONT opt reply) = (before, after, t', reply')"
      using 2 run by (auto simp: negotiate_def Let_def split: prod.splits)
    note f = on_us_state(3) [OF wf r]
    from justified_us [OF wf r, of "Some (verb, opt)" ev] receive_capacity(2) [OF f room] receive_enables(2) f show ?thesis by blast
  next
    case 3
    obtain before after where r: "on_him t opt (\<lambda>q. receive_positive cap q (support_him (tn_policy t) opt) DO DONT opt reply) = (before, after, t', reply')"
      and e: "ev = transition_event Him opt (before = QYes) (after = QYes)" using 3 run by (auto simp: negotiate_def Let_def split: prod.splits)
    note f = on_him_state(3) [OF wf r]
    from justified_him [OF wf r, of "Some (verb, opt)" ev] receive_capacity(1) [OF f room] receive_enables(1) f ev 3 show ?thesis unfolding e by blast
  next
    case 4
    obtain before after where r: "on_him t opt (\<lambda>q. receive_negative cap q DO DONT opt reply) = (before, after, t', reply')"
      using 4 run by (auto simp: negotiate_def Let_def split: prod.splits)
    note f = on_him_state(3) [OF wf r]
    from justified_him [OF wf r, of "Some (verb, opt)" ev] receive_capacity(2) [OF f room] receive_enables(2) f show ?thesis by blast
  next
    case 5
    then show ?thesis using run room wf by (auto simp: negotiate_def justified_def)
  qed
qed

lemma options_cong: "tn_options t' = tn_options t \<Longrightarrow> tn_policy t' = tn_policy t \<Longrightarrow> telnet_wf t' \<Longrightarrow> justified t cmd ev t'"
  by (simp add: justified_def us_enabled_def him_enabled_def slot_of_def)

text \<open>The command that a byte completes.\<close>

definition completed :: "telnet \<Rightarrow> u8 \<Rightarrow> (u8 \<times> u8) option" where
  "completed t b = (case tn_rx t of RxVerb verb \<Rightarrow> Some (verb, b) | _ \<Rightarrow> None)"

lemma feed_justified:
  assumes wf: "telnet_wf t" and room: "length reply \<le> cap" and run: "feed cap t b reply = (ev, t', reply')"
  shows "justified t (completed t b) ev t' \<and> prefix reply reply' \<and> length reply' \<le> cap"
proof (cases "\<exists>verb. tn_rx t = RxVerb verb")
  case True
  then obtain verb where verb: "tn_rx t = RxVerb verb" by blast
  have "telnet_wf (t\<lparr>tn_rx := RxData\<rparr>)" using wf by (simp add: telnet_wf_def)
  from negotiate_justified [OF this room, of verb b ev t' reply'] run verb show ?thesis
    by (simp add: feed_def completed_def justified_def us_enabled_def him_enabled_def q_us_def q_him_def slot_of_def)
next
  case False
  then have "tn_options t' = tn_options t" "tn_policy t' = tn_policy t" "telnet_wf t'" "reply' = reply"
    using run wf by (auto simp: feed_def telnet_wf_def push_subneg_def split: rx_phase.splits if_splits)
  then show ?thesis using room by (simp add: options_cong)
qed

text \<open>
  C21: the TELNET parser keeps its bounds and never negotiates against its policy. Whatever byte it is
  fed, the option table holds one slot per option within its capacity, the subnegotiation buffer and the reply
  stay within theirs, and the reply only grows. An option that is enabled afterwards was enabled before, or the
  byte completes the peer's DO or WILL for just this option, the parser reports that it was enabled, and
  either the option was off and the policy supports it on that side, or the application wants it on and awaits the answer.
  What the application wants is what it asked for last: given room for the command, after a request
  to enable an option it is on or wanted, and after a request to disable it it is neither.
\<close>

theorem telnet_feed_respects_policy:
  assumes "telnet_wf t" "length reply \<le> cap" "feed cap t b reply = (ev, t', reply')"
  shows "telnet_wf t' \<and> prefix reply reply' \<and> length reply' \<le> cap \<and> tn_policy t' = tn_policy t \<and>
    (\<forall>opt. us_enabled t' opt \<longrightarrow> us_enabled t opt \<or> tn_rx t = RxVerb DO \<and> b = opt \<and>
       ev = Some (OptionEnabled Us opt) \<and> (q_us t opt = QNo \<and> support_us (tn_policy t) opt \<or> wanted (q_us t opt))) \<and>
    (\<forall>opt. him_enabled t' opt \<longrightarrow> him_enabled t opt \<or> tn_rx t = RxVerb WILL \<and> b = opt \<and>
       ev = Some (OptionEnabled Him opt) \<and> (q_him t opt = QNo \<and> support_him (tn_policy t) opt \<or> wanted (q_him t opt))) \<and>
    (\<forall>opt out. length out + 3 \<le> cap \<longrightarrow>
       (us_enabled (fst (request_us cap t opt out)) opt \<or> wanted (q_us (fst (request_us cap t opt out)) opt)) \<and>
       \<not> us_enabled (fst (disable_us cap t opt out)) opt \<and> \<not> wanted (q_us (fst (disable_us cap t opt out)) opt) \<and>
       (him_enabled (fst (request_him cap t opt out)) opt \<or> wanted (q_him (fst (request_him cap t opt out)) opt)) \<and>
       \<not> him_enabled (fst (disable_him cap t opt out)) opt \<and> \<not> wanted (q_him (fst (disable_him cap t opt out)) opt))"
  using feed_justified [OF assms] requests_want [OF assms(1), of _ cap]
  unfolding justified_def completed_def enabled_q by (auto split: rx_phase.splits)

theorem telnet_feed_respects_policy_witness:
  "telnet_wf (fst (snd (feed 16 ((telnet_new 64 12 RejectAll)\<lparr>tn_rx := RxVerb DO\<rparr>) 1 []))) \<and>
   \<not> us_enabled (fst (snd (feed 16 ((telnet_new 64 12 RejectAll)\<lparr>tn_rx := RxVerb DO\<rparr>) 1 []))) 1"
proof -
  let ?t = "(telnet_new 64 12 RejectAll)\<lparr>tn_rx := RxVerb DO\<rparr>"
  have wf: "telnet_wf ?t" "length ([] :: bytes) \<le> 16" by (simp_all add: telnet_wf_def telnet_new_def)
  obtain ev t' reply' where run: "feed 16 ?t 1 [] = (ev, t', reply')" by (metis prod_cases3)
  have "\<not> us_enabled ?t 1" "\<not> wanted (q_us ?t 1)" "\<not> support_us (tn_policy ?t) 1"
    by (simp_all add: us_enabled_def q_us_def slot_of_def telnet_new_def RejectAll_def wanted_def)
  with telnet_feed_respects_policy [OF wf run] show ?thesis by (auto simp: run)
qed

end
