(* ===== verification/Telnet_Negotiation.thy ===== *)
theory Telnet_Negotiation
  imports Telnet
begin

text \<open>
  Two endpoints negotiating one option in one direction with the Q method: on one side the state of the
  endpoint that would perform the option, which sends \<open>WILL\<close> and \<open>WONT\<close>, on the other side what
  its peer keeps for it, which sends \<open>DO\<close> and \<open>DONT\<close>. The commands travel in order, one queue in
  each direction, and either application may ask for a change at any time. The states are changed by the functions
  of the codec, with room for one command in the reply.
\<close>

record negotiation =
  ng_us :: qstate
  ng_him :: qstate
  ng_up :: bytes
  ng_down :: bytes

text \<open>The verb of the command a function appended to an empty reply.\<close>

fun verbs :: "bytes \<Rightarrow> bytes" where
  "verbs [] = []"
| "verbs (iac # verb # rest) = [verb]"
| "verbs [iac] = []"

definition ask_us :: "bool \<Rightarrow> u8 \<Rightarrow> negotiation \<Rightarrow> negotiation" where
  "ask_us enable opt c = (let (q, out) = request_state 3 (ng_us c) enable WILL WONT opt [] in c\<lparr>ng_us := q, ng_up := ng_up c @ verbs out\<rparr>)"

definition ask_him :: "bool \<Rightarrow> u8 \<Rightarrow> negotiation \<Rightarrow> negotiation" where
  "ask_him enable opt c = (let (q, out) = request_state 3 (ng_him c) enable DO DONT opt [] in c\<lparr>ng_him := q, ng_down := ng_down c @ verbs out\<rparr>)"

definition hear_us :: "bool \<Rightarrow> u8 \<Rightarrow> negotiation \<Rightarrow> negotiation list" where
  "hear_us supported opt c =
     (case ng_down c of
        [] \<Rightarrow> []
      | verb # rest \<Rightarrow>
          (let (q, out) = (if verb = DO then receive_positive 3 (ng_us c) supported WILL WONT opt []
                           else receive_negative 3 (ng_us c) WILL WONT opt [])
           in [c\<lparr>ng_us := q, ng_up := ng_up c @ verbs out, ng_down := rest\<rparr>]))"

definition hear_him :: "bool \<Rightarrow> u8 \<Rightarrow> negotiation \<Rightarrow> negotiation list" where
  "hear_him supported opt c =
     (case ng_up c of
        [] \<Rightarrow> []
      | verb # rest \<Rightarrow>
          (let (q, out) = (if verb = WILL then receive_positive 3 (ng_him c) supported DO DONT opt []
                           else receive_negative 3 (ng_him c) DO DONT opt [])
           in [c\<lparr>ng_him := q, ng_down := ng_down c @ verbs out, ng_up := rest\<rparr>]))"

definition deliveries :: "bool \<Rightarrow> bool \<Rightarrow> u8 \<Rightarrow> negotiation \<Rightarrow> negotiation list" where
  "deliveries us him opt c = hear_us us opt c @ hear_him him opt c"

text \<open>\<open>us\<close> and \<open>him\<close>: whether the policies of the two endpoints support the option.\<close>

inductive negotiates :: "bool \<Rightarrow> bool \<Rightarrow> u8 \<Rightarrow> negotiation \<Rightarrow> bool" for us him :: bool and opt :: u8 where
  off: "negotiates us him opt \<lparr>ng_us = QNo, ng_him = QNo, ng_up = [], ng_down = []\<rparr>"
| ask_us: "negotiates us him opt c \<Longrightarrow> negotiates us him opt (ask_us enable opt c)"
| ask_him: "negotiates us him opt c \<Longrightarrow> negotiates us him opt (ask_him enable opt c)"
| deliver: "negotiates us him opt c \<Longrightarrow> c' \<in> set (deliveries us him opt c) \<Longrightarrow> negotiates us him opt c'"

text \<open>What can be in flight between two states: at most two commands.\<close>

fun flying :: "qstate \<Rightarrow> qstate \<Rightarrow> (bytes \<times> bytes) list" where
  "flying QNo QNo = [([], [])]"
| "flying QNo WantNo = [([WONT], [])]"
| "flying QNo WantNoOpposite = [([WONT], [])]"
| "flying QNo WantYes = [([], [DO]), ([WONT], [])]"
| "flying QNo WantYesOpposite = [([], [DO]), ([WONT], [])]"
| "flying QYes QYes = [([], [])]"
| "flying QYes WantNo = [([], [DONT])]"
| "flying QYes WantNoOpposite = [([], [DONT])]"
| "flying QYes WantYes = [([WILL], [])]"
| "flying QYes WantYesOpposite = [([WILL], [])]"
| "flying WantNo QNo = [([], [DONT])]"
| "flying WantNo QYes = [([WONT], [])]"
| "flying WantNo WantNo = [([WONT], [DONT])]"
| "flying WantNo WantNoOpposite = [([WONT], [DONT])]"
| "flying WantNo WantYes = [([], [DONT, DO]), ([WILL, WONT], [])]"
| "flying WantNo WantYesOpposite = [([], [DONT, DO]), ([WILL, WONT], [])]"
| "flying WantNoOpposite QNo = [([], [DONT])]"
| "flying WantNoOpposite QYes = [([WONT], [])]"
| "flying WantNoOpposite WantNo = [([WONT], [DONT])]"
| "flying WantNoOpposite WantNoOpposite = [([WONT], [DONT])]"
| "flying WantNoOpposite WantYes = [([], [DONT, DO]), ([WILL, WONT], [])]"
| "flying WantNoOpposite WantYesOpposite = [([], [DONT, DO]), ([WILL, WONT], [])]"
| "flying WantYes QNo = [([], [DONT]), ([WILL], [])]"
| "flying WantYes QYes = [([], [DO])]"
| "flying WantYes WantNo = [([], [DO, DONT]), ([WONT, WILL], [])]"
| "flying WantYes WantNoOpposite = [([], [DO, DONT]), ([WONT, WILL], [])]"
| "flying WantYes WantYes = [([], [DONT, DO]), ([WILL], [DO]), ([WONT, WILL], [])]"
| "flying WantYes WantYesOpposite = [([], [DONT, DO]), ([WILL], [DO]), ([WONT, WILL], [])]"
| "flying WantYesOpposite QNo = [([], [DONT]), ([WILL], [])]"
| "flying WantYesOpposite QYes = [([], [DO])]"
| "flying WantYesOpposite WantNo = [([], [DO, DONT]), ([WONT, WILL], [])]"
| "flying WantYesOpposite WantNoOpposite = [([], [DO, DONT]), ([WONT, WILL], [])]"
| "flying WantYesOpposite WantYes = [([], [DONT, DO]), ([WILL], [DO]), ([WONT, WILL], [])]"
| "flying WantYesOpposite WantYesOpposite = [([], [DONT, DO]), ([WILL], [DO]), ([WONT, WILL], [])]"
| "flying _ _ = []"

definition in_step :: "negotiation \<Rightarrow> bool" where
  "in_step c \<longleftrightarrow> (ng_up c, ng_down c) \<in> set (flying (ng_us c) (ng_him c))"

lemma in_step_ask: "in_step c \<Longrightarrow> in_step (ask_us enable opt c)" "in_step c \<Longrightarrow> in_step (ask_him enable opt c)"
  by (cases "ng_us c"; cases "ng_him c"; cases enable; auto simp: in_step_def ask_us_def push_cmd_def; fail)
    (cases "ng_us c"; cases "ng_him c"; cases enable; auto simp: in_step_def ask_him_def push_cmd_def)

lemma command_verbs: "DO \<noteq> DONT" "DONT \<noteq> DO" "WILL \<noteq> WONT" "WONT \<noteq> WILL"
  by (simp_all add: command_defs)

lemma in_step_deliver: "in_step c \<Longrightarrow> c' \<in> set (deliveries us him opt c) \<Longrightarrow> in_step c'"
  by (cases "ng_us c"; cases "ng_him c"; cases us; cases him;
      auto simp: in_step_def deliveries_def hear_us_def hear_him_def push_cmd_def command_verbs)

lemma negotiates_in_step: "negotiates us him opt c \<Longrightarrow> in_step c"
  by (induction rule: negotiates.induct) (auto intro: in_step_ask in_step_deliver, simp add: in_step_def)

section \<open>Convergence\<close>

primrec ends_within :: "nat \<Rightarrow> bool \<Rightarrow> bool \<Rightarrow> u8 \<Rightarrow> negotiation \<Rightarrow> bool" where
  "ends_within 0 us him opt c = (deliveries us him opt c = [])"
| "ends_within (Suc n) us him opt c = list_all (ends_within n us him opt) (deliveries us him opt c)"

lemma in_step_ends: "in_step c \<Longrightarrow> ends_within (Suc (Suc (Suc (Suc (Suc 0))))) us him opt c"
  by (cases "ng_us c"; cases "ng_him c"; cases us; cases him;
      auto simp: in_step_def deliveries_def hear_us_def hear_him_def push_cmd_def command_verbs)

lemma ends_within_bound:
  assumes "ends_within n us him opt c" "((\<lambda>x y. y \<in> set (deliveries us him opt x)) ^^ k) c c'"
  shows "k \<le> n"
  using assms
proof (induction n arbitrary: c k)
  case 0
  then show ?case by (cases k) (auto dest!: relpowp_Suc_D2 simp del: relpowp.simps)
next
  case (Suc n)
  show ?case
  proof (cases k)
    case (Suc j)
    with Suc.prems(2) obtain d where "d \<in> set (deliveries us him opt c)" "((\<lambda>x y. y \<in> set (deliveries us him opt x)) ^^ j) d c'"
      by (metis relpowp_Suc_D2)
    with Suc.prems(1) Suc.IH show ?thesis using \<open>k = Suc j\<close> by (auto simp: list_all_iff)
  qed simp
qed

text \<open>
  C19: option negotiation ends, and in agreement. However two endpoints ask for an option on or off, at any time
  and with any policies, from every state they can reach the commands in flight are all delivered
  after at most five deliveries, whatever their order, and a command in flight can always be
  delivered: there is no negotiation loop. When nothing is in flight, neither side is waiting any more and
  both agree whether the option is enabled.
\<close>

theorem telnet_negotiation_converges:
  assumes "negotiates us him opt c"
  shows "(\<forall>k c'. ((\<lambda>x y. y \<in> set (deliveries us him opt x)) ^^ k) c c' \<longrightarrow> k \<le> 5) \<and>
    (deliveries us him opt c = [] \<longleftrightarrow> ng_up c = [] \<and> ng_down c = []) \<and>
    (ng_up c = [] \<and> ng_down c = [] \<longrightarrow> ng_us c = ng_him c \<and> \<not> is_pending (ng_us c))"
proof -
  have step: "in_step c" using assms by (rule negotiates_in_step)
  have "deliveries us him opt c = [] \<longleftrightarrow> ng_up c = [] \<and> ng_down c = []"
    by (auto simp: deliveries_def hear_us_def hear_him_def Let_def split: list.splits prod.splits)
  moreover have "ng_up c = [] \<and> ng_down c = [] \<longrightarrow> ng_us c = ng_him c \<and> \<not> is_pending (ng_us c)"
    using step by (cases "ng_us c"; cases "ng_him c") (auto simp: in_step_def is_pending_def)
  ultimately show ?thesis using ends_within_bound [OF in_step_ends [OF step]] by (auto simp: eval_nat_numeral)
qed

theorem telnet_negotiation_converges_witness:
  "\<exists>c. negotiates True True 1 c \<and> ng_us c = WantYes \<and> ng_up c = [] \<and> ng_down c = [DO] \<and>
     (\<forall>k c'. ((\<lambda>x y. y \<in> set (deliveries True True 1 x)) ^^ k) c c' \<longrightarrow> k \<le> 5)"
proof -
  let ?c = "\<lparr>ng_us = WantYes, ng_him = QYes, ng_up = [], ng_down = [DO]\<rparr>"
  have "negotiates True True 1 (ask_us True 1 \<lparr>ng_us = QNo, ng_him = QNo, ng_up = [], ng_down = []\<rparr>)" by (intro negotiates.intros)
  then have "negotiates True True 1 ?c"
    by (rule negotiates.deliver) (simp add: ask_us_def push_cmd_def deliveries_def hear_us_def hear_him_def)
  from telnet_negotiation_converges [OF this] this show ?thesis by (intro exI [of _ ?c]) simp
qed

end
