(* ===== verification/Telnet_Binary.thy ===== *)
theory Telnet_Binary
  imports Telnet Ymodem_Line
begin

text \<open>
  TELNET binary transmission (\<open>microtun-telnet/src/binary.rs\<close>): escaped writes and the adapter
  \<open>BinaryMode\<close>, over the same ports and actions as the YMODEM crate, which runs on top of it. The
  adapter is modelled with the \<open>Telnet\<close> state it owns or borrows.
\<close>

datatype 'e binary_mode_error = BmIo 'e | BmDisconnected | BmRefused | BmUnexpectedData

definition BinaryPolicy :: policy where
  "BinaryPolicy = \<lparr>support_us = \<lambda>option. option = OPT_BINARY, support_him = \<lambda>option. option = OPT_BINARY\<rparr>"

definition standalone_telnet :: telnet where "standalone_telnet = telnet_new 1 4 BinaryPolicy"

definition feed_binary :: "telnet \<Rightarrow> u8 \<Rightarrow> bytes \<Rightarrow> u8 option \<times> telnet \<times> bytes" where
  "feed_binary t b reply =
     (let (ev, t, reply) = feed 16 t b reply in (case ev of Some (TData d) \<Rightarrow> Some d | _ \<Rightarrow> None, t, reply))"

section \<open>Escaped writes\<close>

text \<open>The loop of \<open>write_data_unflushed\<close>: \<open>rest\<close> are the bytes from \<open>index\<close> on, \<open>start\<close> the first one not yet written.\<close>

fun write_runs :: "bytes \<Rightarrow> usize \<Rightarrow> usize \<Rightarrow> bytes \<Rightarrow> (('e, 'z) port_scheme, 'e, unit) action" where
  "write_runs bs start index [] = (if start < length bs then port_write (drop start bs) else ym_ok ())"
| "write_runs bs start index (b # rest) =
     (if b \<noteq> IAC then write_runs bs start (index + 1) rest
      else ym_then (if start < index then port_write (slice bs start index) else ym_ok ()) (\<lambda>_.
           ym_then (port_write [IAC, IAC]) (\<lambda>_. write_runs bs (index + 1) (index + 1) rest)))"

definition write_data_unflushed :: "bytes \<Rightarrow> (('e, 'z) port_scheme, 'e, unit) action" where
  "write_data_unflushed bs = write_runs bs 0 0 bs"

definition write_data :: "bytes \<Rightarrow> (('e, 'z) port_scheme, 'e, unit) action" where
  "write_data bs = ym_then (write_data_unflushed bs) (\<lambda>_. port_flush)"

section \<open>The adapter\<close>

record 'e binary_mode = "'e port" +
  bm_telnet :: telnet
  bm_pending :: bytes

definition PENDING_CAP :: usize where "PENDING_CAP = 64"

type_synonym ('e, 'a) binary_action = "('e binary_mode, 'e binary_mode_error, 'a) action"

definition raw_write :: "bytes \<Rightarrow> ('e, unit) binary_action" where
  "raw_write bs = ym_then (ym_map_err BmIo (port_write bs)) (\<lambda>_. ym_map_err BmIo port_flush)"

fun wire_event :: "'e read_event list \<Rightarrow> ('e binary_mode_error + u8) option \<times> 'e read_event list" where
  "wire_event [] = (None, [])"
| "wire_event (ReadNothing # xs) = (Some (Inl BmDisconnected), xs)"
| "wire_event (ReadByte b # xs) = (Some (Inr b), xs)"
| "wire_event (ReadError e # xs) = (Some (Inl (BmIo e)), xs)"

definition wire_byte :: "('e, u8) binary_action" where
  "wire_byte s = (let (r, xs) = wire_event (p_in s) in (r, s\<lparr>p_in := xs\<rparr>))"

definition feed_wire_byte :: "u8 \<Rightarrow> ('e, u8 option) binary_action" where
  "feed_wire_byte b s =
     (let (data, t, reply) = feed_binary (bm_telnet s) b []; s = s\<lparr>bm_telnet := t\<rparr>
      in ym_then (if reply \<noteq> [] then raw_write reply else ym_ok ()) (\<lambda>_. ym_ok data) s)"

definition bm_step :: "('e, u8 option) binary_action" where
  "bm_step = ym_then wire_byte feed_wire_byte"

lemma wire_byte_less: "wire_byte s = (Some r, s') \<Longrightarrow> length (p_in s') < length (p_in s)"
  by (cases "p_in s" rule: wire_event.cases) (auto simp: wire_byte_def)

lemma map_err_state: "snd (ym_map_err f m s) = snd (m s)"
  by (simp add: ym_map_err_def ym_then_def ym_attempt_def ym_ok_def ym_err_def split: prod.splits option.splits sum.splits)

lemma then_in: "p_in (snd (m s)) = p_in s \<Longrightarrow> (\<And>a t. p_in (snd (k a t)) = p_in t) \<Longrightarrow> p_in (snd (ym_then m k s)) = p_in s"
  by (auto simp: ym_then_def split: prod.splits option.splits sum.splits)

lemma raw_write_in: "p_in (snd (raw_write bs s)) = p_in s"
  unfolding raw_write_def by (intro then_in) (simp_all add: map_err_state)

lemma feed_wire_byte_in: "feed_wire_byte b s = (r, s') \<Longrightarrow> p_in s' = p_in s"
proof -
  have "p_in (snd (feed_wire_byte b s)) = p_in s"
    by (simp add: feed_wire_byte_def Let_def split: prod.splits)
      (auto intro!: trans [OF then_in] simp: raw_write_in ym_ok_def)
  then show "feed_wire_byte b s = (r, s') \<Longrightarrow> p_in s' = p_in s" by simp
qed

lemma bm_step_less:
  assumes "bm_step s = (Some (Inr d), s')"
  shows "length (p_in s') < length (p_in s)"
  using assms wire_byte_less feed_wire_byte_in unfolding bm_step_def ym_then_def
  by (fastforce split: prod.splits option.splits sum.splits)

function read_loop :: "('e, u8) binary_action" where
  "read_loop s = ym_then bm_step (\<lambda>d s. case d of Some b \<Rightarrow> ym_ok b s | None \<Rightarrow> read_loop s) s"
  by pat_completeness auto
termination by (relation "measure (\<lambda>s. length (p_in s))") (auto dest: bm_step_less)

declare read_loop.simps [simp del]

definition bm_read_byte :: "('e, u8) binary_action" where
  "bm_read_byte s =
     (case bm_pending s of
        b # rest \<Rightarrow> ym_ok b (s\<lparr>bm_pending := rest\<rparr>)
      | [] \<Rightarrow> read_loop s)"

function settle_loop :: "('e, unit) binary_action" where
  "settle_loop s =
     (if binary_mode_enabled (bm_telnet s) then ym_ok () s
      else if binary_mode_refused (bm_telnet s) then ym_err BmRefused s
      else ym_then bm_step (\<lambda>d s.
             case d of
               None \<Rightarrow> settle_loop s
             | Some b \<Rightarrow>
                 if length (bm_pending s) < PENDING_CAP then settle_loop (s\<lparr>bm_pending := bm_pending s @ [b]\<rparr>)
                 else ym_err BmUnexpectedData s) s)"
  by pat_completeness auto
termination by (relation "measure (\<lambda>s. length (p_in s))") (auto dest: bm_step_less)

declare settle_loop.simps [simp del]

definition bm_negotiate :: "('e, unit) binary_action" where
  "bm_negotiate s =
     (let (t, request) = request_binary_mode 6 (bm_telnet s) []; s = s\<lparr>bm_telnet := t\<rparr>
      in ym_then (if request \<noteq> [] then raw_write request else ym_ok ()) (\<lambda>_. settle_loop) s)"

definition bm_write_all :: "bytes \<Rightarrow> ('e, unit) binary_action" where
  "bm_write_all bs = ym_map_err BmIo (write_data bs)"

definition request_nvt_mode :: "('e, unit) binary_action" where
  "request_nvt_mode s =
     (let (t, request) = disable_binary_mode 6 (bm_telnet s) []; s = s\<lparr>bm_telnet := t\<rparr>
      in (if request = [] then ym_ok () else raw_write request) s)"

end
