(* ===== verification/Telnet_Streams.thy ===== *)
theory Telnet_Streams
  imports Telnet_Binary
begin

text \<open>Data and subnegotiations through the TELNET framing and back.\<close>

definition escape :: "bytes \<Rightarrow> bytes" where
  "escape bs = concat (map (\<lambda>b. if b = IAC then [b, IAC] else [b]) bs)"

lemma escape_simps [simp]:
  "escape [] = []" "escape (b # bs) = (if b = IAC then [IAC, IAC] else [b]) @ escape bs" "escape (xs @ ys) = escape xs @ escape ys"
  by (simp_all add: escape_def)

lemma escape_plain: "IAC \<notin> set bs \<Longrightarrow> escape bs = bs"
  by (induction bs) auto

section \<open>Writing\<close>

lemma port_write_ok: "port_write bs s = (Some (Inr ()), s') \<Longrightarrow> p_out s' = p_out s @ bs"
  by (auto simp: port_write_def split: option.splits if_splits)

lemma run_first:
  assumes "(if start < index then port_write (slice bs start index) else ym_ok ()) s = (Some (Inr ()), t)" "start \<le> index" "index \<le> length bs"
    "IAC \<notin> set (slice bs start index)"
  shows "p_out t = p_out s @ escape (slice bs start index)"
  using assms by (auto simp: escape_plain ym_ok_def slice_def dest: port_write_ok split: if_splits)

lemma write_runs_ok:
  assumes "write_runs bs start index rest s = (Some (Inr ()), s')" "start \<le> index" "rest = drop index bs" "index \<le> length bs"
    "IAC \<notin> set (slice bs start index)"
  shows "p_out s' = p_out s @ escape (drop start bs)"
  using assms
proof (induction rest arbitrary: start index s)
  case Nil
  then have "index = length bs" by simp
  with Nil.prems show ?case by (auto simp: escape_plain slice_def ym_ok_def dest: port_write_ok split: if_splits)
next
  case (Cons b rest)
  have b: "index < length bs" "b = bs ! index" "rest = drop (index + 1) bs"
    using Cons.prems(3) by (metis Cons_nth_drop_Suc drop_all leI list.distinct(1) list.inject Suc_eq_plus1)+
  have split: "drop start bs = slice bs start index @ b # drop (index + 1) bs"
    using b Cons.prems(2) by (simp add: slice_def Cons_nth_drop_Suc) (metis append_take_drop_id drop_drop le_add_diff_inverse2)
  show ?case
  proof (cases "b = IAC")
    case False
    have "slice bs start (index + 1) = slice bs start index @ [b]"
      using b Cons.prems(2) by (simp add: slice_def take_Suc_conv_app_nth Suc_diff_le)
    with Cons.IH [of start "index + 1" s] Cons.prems b False show ?thesis by auto
  next
    case True
    then obtain t u where first: "(if start < index then port_write (slice bs start index) else ym_ok ()) s = (Some (Inr ()), t)"
      and esc: "port_write [IAC, IAC] t = (Some (Inr ()), u)" and tail: "write_runs bs (index + 1) (index + 1) rest u = (Some (Inr ()), s')"
      using Cons.prems(1) by (auto simp: ym_then_def split: prod.splits option.splits sum.splits)
    have "p_out s' = p_out u @ escape (drop (index + 1) bs)"
      by (rule Cons.IH [OF tail]) (use b in \<open>auto simp: slice_def\<close>)
    with run_first [OF first Cons.prems(2)] port_write_ok [OF esc] Cons.prems(4,5) b True show ?thesis by (simp add: split)
  qed
qed

lemma write_data_ok:
  assumes "write_data bs s = (Some (Inr ()), s')"
  shows "p_out s' = p_out s @ escape bs"
proof -
  from assms obtain t where run: "write_runs bs 0 0 bs s = (Some (Inr ()), t)" and fl: "port_flush t = (Some (Inr ()), s')"
    by (auto simp: write_data_def write_data_unflushed_def ym_then_def split: prod.splits option.splits sum.splits)
  have "s' = t" using fl by (simp add: port_flush_def split: option.splits)
  with write_runs_ok [OF run] show ?thesis by (simp add: slice_def)
qed

section \<open>Reading\<close>

text \<open>Reading a number of bytes, one after the other.\<close>

primrec bm_reads :: "nat \<Rightarrow> ('e, bytes) binary_action" where
  "bm_reads 0 = ym_ok []"
| "bm_reads (Suc n) = ym_then bm_read_byte (\<lambda>b. ym_then (bm_reads n) (\<lambda>bs. ym_ok (b # bs)))"

lemma step_plain:
  assumes "tn_rx (bm_telnet s) = RxData" "p_in s = ReadByte b # xs" "b \<noteq> IAC"
  shows "bm_step s = (Some (Inr (Some b)), s\<lparr>p_in := xs\<rparr>)"
  using assms by (simp add: bm_step_def wire_byte_def feed_wire_byte_def feed_binary_def feed_def ym_then_def ym_ok_def)

lemma step_iac:
  assumes "tn_rx (bm_telnet s) = RxData" "p_in s = ReadByte IAC # xs"
  shows "bm_step s = (Some (Inr None), s\<lparr>p_in := xs, bm_telnet := (bm_telnet s)\<lparr>tn_rx := RxIac\<rparr>\<rparr>)"
  using assms by (simp add: bm_step_def wire_byte_def feed_wire_byte_def feed_binary_def feed_def ym_then_def ym_ok_def)

lemma step_escaped:
  assumes "tn_rx (bm_telnet s) = RxIac" "p_in s = ReadByte IAC # xs"
  shows "bm_step s = (Some (Inr (Some IAC)), s\<lparr>p_in := xs, bm_telnet := (bm_telnet s)\<lparr>tn_rx := RxData\<rparr>\<rparr>)"
proof -
  have "IAC \<noteq> DO" "IAC \<noteq> DONT" "IAC \<noteq> WILL" "IAC \<noteq> WONT" "IAC \<noteq> SB" by (simp_all add: command_defs)
  with assms show ?thesis by (simp add: bm_step_def wire_byte_def feed_wire_byte_def feed_binary_def feed_def ym_then_def ym_ok_def)
qed

lemma read_escaped:
  assumes "tn_rx (bm_telnet s) = RxData" "bm_pending s = []" "p_in s = map ReadByte (escape [b]) @ xs"
  shows "bm_read_byte s = (Some (Inr b), s\<lparr>p_in := xs\<rparr>)"
proof (cases "b = IAC")
  case False
  then show ?thesis using assms by (simp add: bm_read_byte_def read_loop.simps [of s] ym_then_def [of bm_step] step_plain ym_ok_def)
next
  case True
  let ?s = "s\<lparr>p_in := ReadByte IAC # xs, bm_telnet := (bm_telnet s)\<lparr>tn_rx := RxIac\<rparr>\<rparr>"
  have "bm_step s = (Some (Inr None), ?s)" using True assms by (simp add: step_iac)
  moreover have "bm_step ?s = (Some (Inr (Some IAC)), s\<lparr>p_in := xs\<rparr>)" using assms(1) by (simp add: step_escaped)
  ultimately show ?thesis using True assms(2)
    by (simp add: bm_read_byte_def read_loop.simps [of s] read_loop.simps [of ?s] ym_then_def ym_ok_def)
qed

lemma bm_reads_escaped:
  assumes "tn_rx (bm_telnet s) = RxData" "bm_pending s = []" "p_in s = map ReadByte (escape bs) @ xs"
  shows "bm_reads (length bs) s = (Some (Inr bs), s\<lparr>p_in := xs\<rparr>)"
  using assms
proof (induction bs arbitrary: s)
  case (Cons b bs)
  let ?s = "s\<lparr>p_in := map ReadByte (escape bs) @ xs\<rparr>"
  have "bm_read_byte s = (Some (Inr b), ?s)" using Cons.prems by (intro read_escaped) auto
  moreover have "bm_reads (length bs) ?s = (Some (Inr bs), s\<lparr>p_in := xs\<rparr>)" using Cons.IH [of ?s] Cons.prems by simp
  ultimately show ?case by (simp add: ym_then_def ym_ok_def)
qed (simp add: ym_ok_def)

section \<open>Subnegotiations\<close>

text \<open>Feeding a sequence of bytes and collecting the events.\<close>

fun feed_all :: "usize \<Rightarrow> telnet \<Rightarrow> bytes \<Rightarrow> bytes \<Rightarrow> telnet_event list \<times> telnet \<times> bytes" where
  "feed_all cap t [] reply = ([], t, reply)"
| "feed_all cap t (b # bs) reply =
     (let (ev, t, reply) = feed cap t b reply; (evs, t, reply) = feed_all cap t bs reply
      in ((case ev of Some e \<Rightarrow> [e] | None \<Rightarrow> []) @ evs, t, reply))"

lemma feed_body:
  assumes "tn_rx t = RxSubneg" "length (tn_subneg t) + length body \<le> tn_sb_cap t"
  shows "feed_all cap t (escape body @ rest) reply = feed_all cap (t\<lparr>tn_subneg := tn_subneg t @ body\<rparr>) rest reply"
  using assms
proof (induction body arbitrary: t)
  case (Cons b body)
  have se: "IAC \<noteq> SE" by (simp add: command_defs)
  let ?t = "t\<lparr>tn_subneg := tn_subneg t @ [b]\<rparr>"
  have same: "t\<lparr>tn_subneg := x, tn_rx := RxSubneg\<rparr> = t\<lparr>tn_subneg := x\<rparr>" for x using Cons.prems(1) by simp
  have "feed_all cap t ((if b = IAC then [IAC, IAC] else [b]) @ escape body @ rest) reply = feed_all cap ?t (escape body @ rest) reply"
    using Cons.prems se by (auto simp: feed_def push_subneg_def same split: prod.splits)
  with Cons.IH [of ?t] Cons.prems show ?case by simp
qed simp

lemma feed_subnegotiation:
  assumes "tn_rx t = RxData" "length body \<le> tn_sb_cap t"
  shows "feed_all cap t ([IAC, SB, opt] @ escape body @ [IAC, SE]) reply =
    ([Subnegotiation opt], t\<lparr>tn_subneg_option := opt, tn_subneg := body\<rparr>, reply)"
proof -
  let ?t = "t\<lparr>tn_subneg_option := opt, tn_subneg := [], tn_rx := RxSubneg\<rparr>"
  have cmds: "SB \<noteq> DO" "SB \<noteq> DONT" "SB \<noteq> WILL" "SB \<noteq> WONT" by (simp_all add: command_defs)
  have "feed_all cap t ([IAC, SB, opt] @ escape body @ [IAC, SE]) reply = feed_all cap ?t (escape body @ [IAC, SE]) reply"
    using assms(1) cmds by (simp add: feed_def Let_def split: prod.splits)
  also have "\<dots> = feed_all cap (?t\<lparr>tn_subneg := body\<rparr>) [IAC, SE] reply" using feed_body [of ?t body cap "[IAC, SE]" reply] assms(2) by simp
  also have "\<dots> = ([Subnegotiation opt], t\<lparr>tn_subneg_option := opt, tn_subneg := body\<rparr>, reply)" using assms(1) by (simp add: feed_def)
  finally show ?thesis .
qed

text \<open>
  C20: nothing is lost in the framing. What one end writes as data without error is read back byte for byte by the
  adapter at the other end, including the bytes that look like commands, with no byte left over, no
  answer sent and the negotiation state as it was. A subnegotiation that was built for an
  empty buffer is reported as one event, with exactly its option and body, if the body fits the
  receiver's buffer.
\<close>

theorem telnet_payloads_survive:
  assumes "write_data bs w = (Some (Inr ()), w')" "p_out w = []"
    and "tn_rx (bm_telnet s) = RxData" "bm_pending s = []" "p_in s = map ReadByte (p_out w')"
    and "push_subnegotiation room [] opt body = (True, frame)" "length body \<le> tn_sb_cap (bm_telnet s)"
  shows "bm_reads (length bs) s = (Some (Inr bs), s\<lparr>p_in := []\<rparr>) \<and>
    feed_all cap (bm_telnet s) frame reply = ([Subnegotiation opt], (bm_telnet s)\<lparr>tn_subneg_option := opt, tn_subneg := body\<rparr>, reply)"
proof
  show "bm_reads (length bs) s = (Some (Inr bs), s\<lparr>p_in := []\<rparr>)"
    using bm_reads_escaped [of s bs "[]"] write_data_ok [OF assms(1)] assms(2-5) by simp
  have "frame = [IAC, SB, opt] @ escape body @ [IAC, SE]" using assms(6) by (simp add: push_subnegotiation_whole escape_def split: if_splits)
  then show "feed_all cap (bm_telnet s) frame reply = ([Subnegotiation opt], (bm_telnet s)\<lparr>tn_subneg_option := opt, tn_subneg := body\<rparr>, reply)"
    using feed_subnegotiation [OF assms(3,7)] by simp
qed

definition demo_line :: "unit port" where
  "demo_line = \<lparr>p_in = [], p_out = [], p_room = Some 8, p_error = (), p_flush_error = None\<rparr>"

definition demo_binary :: "unit binary_mode" where
  "demo_binary = \<lparr>p_in = map ReadByte [7, IAC, IAC, 8], p_out = [], p_room = None, p_error = (), p_flush_error = None,
     bm_telnet = standalone_telnet, bm_pending = []\<rparr>"

theorem telnet_payloads_survive_witness:
  "bm_reads 3 demo_binary = (Some (Inr [7, IAC, 8]), demo_binary\<lparr>p_in := []\<rparr>)"
proof -
  let ?w = "demo_line\<lparr>p_out := [7, IAC, IAC, 8], p_room := Some 4\<rparr>"
  have sent: "write_data [7, IAC, 8] demo_line = (Some (Inr ()), ?w)"
    by (simp add: write_data_def write_data_unflushed_def ym_then_def port_write_def port_flush_def demo_line_def slice_def IAC_def)
  have "push_subnegotiation 9 [] 44 [IAC] = (True, [IAC, SB, 44, IAC, IAC, IAC, SE])" by (simp add: push_subnegotiation_whole)
  from telnet_payloads_survive [OF sent _ _ _ _ this, of demo_binary 0 "[]"]
  have "bm_reads (length [7, IAC, 8]) demo_binary = (Some (Inr [7, IAC, 8]), demo_binary\<lparr>p_in := []\<rparr>)"
    by (simp add: demo_line_def demo_binary_def standalone_telnet_def telnet_new_def)
  then show ?thesis by (simp add: numeral_3_eq_3)
qed

end
