(* ===== verification/Mcuboot.thy ===== *)
theory Mcuboot
  imports Prelude
begin

text \<open>
  The streaming validator of signed firmware images (\<open>microtun-mcuboot/src/lib.rs\<close>): the image
  header, the TLV areas, \<open>StreamingVerifier\<close> with its \<open>feed\<close> and \<open>finish\<close>, and the read-back check
  of the written slot. SHA-256 and Ed25519 are parameters; a hasher is the
  bytes it was updated with. The payload sink and the flash are operations on a state
  of their own. A loop of the source whose progress rests on the state it is called in may
  not return, which is the value \<open>None\<close>.
\<close>

section \<open>Constants and data\<close>

definition IMAGE_MAGIC :: u32 where "IMAGE_MAGIC = 0x96f3b83d"
definition IMAGE_HEADER_SIZE :: usize where "IMAGE_HEADER_SIZE = 32"
definition MAX_PROTECTED_TLV_SIZE :: usize where "MAX_PROTECTED_TLV_SIZE = 64"
definition READ_BACK_CHUNK :: usize where "READ_BACK_CHUNK = 256"
definition TLV_INFO_MAGIC :: u16 where "TLV_INFO_MAGIC = 0x6907"
definition TLV_PROTECTED_INFO_MAGIC :: u16 where "TLV_PROTECTED_INFO_MAGIC = 0x6908"
definition TLV_KEYHASH :: u16 where "TLV_KEYHASH = 0x01"
definition TLV_SHA256 :: u16 where "TLV_SHA256 = 0x10"
definition TLV_ED25519 :: u16 where "TLV_ED25519 = 0x24"
definition TLV_SIG_PURE :: u16 where "TLV_SIG_PURE = 0x25"
definition TLV_UUID_VID :: u16 where "TLV_UUID_VID = 0x74"
definition TLV_UUID_CID :: u16 where "TLV_UUID_CID = 0x75"

lemmas tlv_types = TLV_KEYHASH_def TLV_SHA256_def TLV_ED25519_def TLV_SIG_PURE_def TLV_UUID_VID_def TLV_UUID_CID_def

definition ED25519_SPKI_PREFIX :: bytes where
  "ED25519_SPKI_PREFIX = [0x30, 0x2a, 0x30, 0x05, 0x06, 0x03, 0x2b, 0x65, 0x70, 0x03, 0x21, 0x00]"

record image_version =
  iv_major :: u8
  iv_minor :: u8
  iv_revision :: u16
  iv_build :: u32

text \<open>Rust compares tuples lexicographically.\<close>

definition semver_is_older_than :: "image_version \<Rightarrow> image_version \<Rightarrow> bool" where
  "semver_is_older_than v w \<longleftrightarrow> (iv_major v, iv_minor v, iv_revision v) < (iv_major w, iv_minor w, iv_revision w)"

record image_header =
  ih_load_address :: u32
  ih_header_size :: u16
  ih_protected_tlv_size :: u16
  ih_image_size :: u32
  ih_flags :: u32
  ih_version :: image_version

datatype image_error =
    InvalidPublicKey | InvalidMagic | UnsupportedHeaderSize | UnsupportedLoadAddress | UnsupportedImageFlags
  | EmptyImage | ImageTooLarge | InvalidProtectedTlvSize | InvalidTlvInfoMagic | InvalidTlvAreaSize
  | TruncatedTlv | DuplicateTlv | InvalidTlvLength | MissingSha256 | MissingKeyHash | MissingSignature
  | MissingVid | MissingCid | VersionTooLow | ProtectedTlvAreaTooLarge | UnsupportedReadGranularity
  | WrongVid | WrongCid | UnsupportedPureSignature | HashMismatch | KeyHashMismatch | SignatureInvalid
  | IncompleteImage | InvalidPadding | StoredImageInvalid

datatype 'e feed_error = FeImage image_error | FeSink 'e

datatype 'e stored_image_error = SiImage image_error | SiRead 'e

definition le_u16 :: "bytes \<Rightarrow> u16" where "le_u16 bs = from_le_bytes [bs ! 0, bs ! 1]"

definition le_u32 :: "bytes \<Rightarrow> u32" where "le_u32 bs = from_le_bytes [bs ! 0, bs ! 1, bs ! 2, bs ! 3]"

definition parse_image_header :: "bytes \<Rightarrow> image_error + image_header" where
  "parse_image_header bs =
     (if le_u32 (slice bs 0 4) \<noteq> IMAGE_MAGIC then Inl InvalidMagic
      else let header = \<lparr>ih_load_address = le_u32 (slice bs 4 8), ih_header_size = le_u16 (slice bs 8 10),
                 ih_protected_tlv_size = le_u16 (slice bs 10 12), ih_image_size = le_u32 (slice bs 12 16),
                 ih_flags = le_u32 (slice bs 16 20),
                 ih_version = \<lparr>iv_major = bs ! 20, iv_minor = bs ! 21, iv_revision = le_u16 (slice bs 22 24),
                   iv_build = le_u32 (slice bs 24 28)\<rparr>\<rparr>
           in if unat (ih_header_size header) \<noteq> IMAGE_HEADER_SIZE then Inl UnsupportedHeaderSize
              else if ih_load_address header \<noteq> 0 then Inl UnsupportedLoadAddress
              else if ih_flags header \<noteq> 0 then Inl UnsupportedImageFlags
              else if ih_image_size header = 0 then Inl EmptyImage
              else if ih_protected_tlv_size header \<noteq> 0 \<and> ih_protected_tlv_size header < 4 then Inl InvalidProtectedTlvSize
              else Inr header)"

record image_identity =
  ii_vid :: bytes
  ii_cid :: bytes

text \<open>UUIDs come from the uuid package: \<open>new_v5\<close> and the DNS namespace are parameters.\<close>

definition identity_from_imgtool_names :: "(bytes \<Rightarrow> bytes \<Rightarrow> bytes) \<Rightarrow> bytes \<Rightarrow> bytes \<Rightarrow> bytes \<Rightarrow> image_identity" where
  "identity_from_imgtool_names new_v5 dns vid cid =
     (let vid = new_v5 dns vid; cid = new_v5 vid cid in \<lparr>ii_vid = vid, ii_cid = cid\<rparr>)"

record image_policy =
  expected_vid :: "bytes option"
  expected_cid :: bytes
  max_image_size :: u32
  min_version :: image_version

definition from_raw_ids :: "bytes \<Rightarrow> bytes \<Rightarrow> u32 \<Rightarrow> image_version \<Rightarrow> image_policy" where
  "from_raw_ids vid cid max_size min_ver =
     \<lparr>expected_vid = Some vid, expected_cid = cid, max_image_size = max_size, min_version = min_ver\<rparr>"

definition from_raw_cid :: "bytes \<Rightarrow> u32 \<Rightarrow> image_version \<Rightarrow> image_policy" where
  "from_raw_cid cid max_size min_ver =
     \<lparr>expected_vid = None, expected_cid = cid, max_image_size = max_size, min_version = min_ver\<rparr>"

definition policy_from_imgtool_names ::
  "(bytes \<Rightarrow> bytes \<Rightarrow> bytes) \<Rightarrow> bytes \<Rightarrow> bytes \<Rightarrow> bytes \<Rightarrow> u32 \<Rightarrow> image_version \<Rightarrow> image_policy" where
  "policy_from_imgtool_names new_v5 dns vid cid max_size min_ver =
     (let identity = identity_from_imgtool_names new_v5 dns vid cid
      in \<lparr>expected_vid = Some (ii_vid identity), expected_cid = ii_cid identity, max_image_size = max_size, min_version = min_ver\<rparr>)"

record verified_image =
  vi_header :: image_header
  vi_digest :: bytes
  vi_vid :: "bytes option"
  vi_cid :: bytes
  vi_container_size :: u32
  vi_header_bytes :: bytes
  vi_protected_tlv :: bytes
  vi_protected_tlv_size :: u16

definition protected_tlv :: "verified_image \<Rightarrow> bytes" where
  "protected_tlv img = take (unat (vi_protected_tlv_size img)) (vi_protected_tlv img)"

text \<open>The operations of the sha2 and ed25519-dalek packages.\<close>

record image_crypto =
  sha256 :: "bytes \<Rightarrow> bytes"
  key_valid :: "bytes \<Rightarrow> bool"
  verify_strict :: "bytes \<Rightarrow> bytes \<Rightarrow> bytes \<Rightarrow> bool"

section \<open>TLV areas\<close>

datatype tlv_area_kind = Protected | Regular

record found_tlvs =
  ft_key_hash :: "bytes option"
  ft_sha256 :: "bytes option"
  ft_signature :: "bytes option"
  ft_vid :: "bytes option"
  ft_cid :: "bytes option"
  ft_pure_signature :: bool

definition found_default :: found_tlvs where
  "found_default = \<lparr>ft_key_hash = None, ft_sha256 = None, ft_signature = None, ft_vid = None, ft_cid = None, ft_pure_signature = False\<rparr>"

definition set_once_array :: "nat \<Rightarrow> bytes option \<Rightarrow> bytes \<Rightarrow> image_error + bytes option" where
  "set_once_array n slot v =
     (if length v \<noteq> n then Inl InvalidTlvLength
      else if slot \<noteq> None then Inl DuplicateTlv
      else Inr (Some v))"

record tlv_area =
  ta_kind :: tlv_area_kind
  ta_expected_magic :: u16
  ta_expected_total :: "usize option"
  ta_total :: "usize option"
  ta_consumed :: usize
  ta_info :: bytes
  ta_info_fill :: usize
  ta_entry_header :: bytes
  ta_entry_header_fill :: usize
  ta_entry_type :: u16
  ta_entry_len :: usize
  ta_entry_fill :: usize
  ta_entry_value :: bytes
  ta_entry_collect :: bool

definition tlv_area_new :: "tlv_area_kind \<Rightarrow> u16 \<Rightarrow> usize option \<Rightarrow> tlv_area" where
  "tlv_area_new k magic expected =
     \<lparr>ta_kind = k, ta_expected_magic = magic, ta_expected_total = expected, ta_total = None, ta_consumed = 0,
      ta_info = replicate 4 0, ta_info_fill = 0, ta_entry_header = replicate 4 0, ta_entry_header_fill = 0,
      ta_entry_type = 0, ta_entry_len = 0, ta_entry_fill = 0, ta_entry_value = replicate 64 0, ta_entry_collect = False\<rparr>"

definition area_complete :: "tlv_area \<Rightarrow> bool" where
  "area_complete a \<longleftrightarrow> ta_total a = Some (ta_consumed a)"

text \<open>What \<open>finish_entry\<close> stores of an entry: the branches of its match.\<close>

definition store_entry :: "tlv_area_kind \<Rightarrow> u16 \<Rightarrow> bytes \<Rightarrow> found_tlvs \<Rightarrow> image_error + found_tlvs" where
  "store_entry k t v f =
     (if t = TLV_KEYHASH \<and> k = Regular then map_sum id (\<lambda>x. f\<lparr>ft_key_hash := x\<rparr>) (set_once_array 32 (ft_key_hash f) v)
      else if t = TLV_SHA256 \<and> k = Regular then map_sum id (\<lambda>x. f\<lparr>ft_sha256 := x\<rparr>) (set_once_array 32 (ft_sha256 f) v)
      else if t = TLV_ED25519 \<and> k = Regular then map_sum id (\<lambda>x. f\<lparr>ft_signature := x\<rparr>) (set_once_array 64 (ft_signature f) v)
      else if t = TLV_SIG_PURE \<and> k = Regular then Inr (f\<lparr>ft_pure_signature := True\<rparr>)
      else if t = TLV_UUID_VID \<and> k = Protected then map_sum id (\<lambda>x. f\<lparr>ft_vid := x\<rparr>) (set_once_array 16 (ft_vid f) v)
      else if t = TLV_UUID_CID \<and> k = Protected then map_sum id (\<lambda>x. f\<lparr>ft_cid := x\<rparr>) (set_once_array 16 (ft_cid f) v)
      else Inr f)"

definition finish_entry :: "tlv_area \<Rightarrow> found_tlvs \<Rightarrow> (image_error + unit) \<times> tlv_area \<times> found_tlvs" where
  "finish_entry a found =
     (let v = take (min (ta_entry_len a) (length (ta_entry_value a))) (ta_entry_value a)
      in case store_entry (ta_kind a) (ta_entry_type a) v found of
           Inl e \<Rightarrow> (Inl e, a, found)
         | Inr found \<Rightarrow>
             (Inr (), a\<lparr>ta_entry_header_fill := 0, ta_entry_type := 0, ta_entry_len := 0, ta_entry_fill := 0,
                ta_entry_collect := False, ta_entry_value := replicate (length (ta_entry_value a)) 0\<rparr>, found))"

text \<open>
  The three parts of a pass of the loop of \<open>TlvArea::feed\<close>; each returns the number of bytes it
  has consumed of the input that is left.
\<close>

definition feed_info :: "tlv_area \<Rightarrow> bytes \<Rightarrow> (image_error + usize) \<times> tlv_area" where
  "feed_info a input =
     (let n = min (4 - ta_info_fill a) (length input);
          a = a\<lparr>ta_info := put_slice (ta_info a) (ta_info_fill a) (take n input),
                ta_info_fill := ta_info_fill a + n, ta_consumed := ta_consumed a + n\<rparr>
      in if ta_info_fill a = 4
         then let magic = le_u16 (slice (ta_info a) 0 2); area_total = unat (le_u16 (slice (ta_info a) 2 4))
              in if magic \<noteq> ta_expected_magic a then (Inl InvalidTlvInfoMagic, a)
                 else if area_total < 4 then (Inl InvalidTlvAreaSize, a)
                 else if (case ta_expected_total a of None \<Rightarrow> False | Some expected \<Rightarrow> area_total \<noteq> expected) then (Inl InvalidTlvAreaSize, a)
                 else (Inr n, a\<lparr>ta_total := Some area_total\<rparr>)
         else (Inr n, a))"

definition collected_types :: "u16 list" where
  "collected_types = [TLV_KEYHASH, TLV_SHA256, TLV_ED25519, TLV_SIG_PURE, TLV_UUID_VID, TLV_UUID_CID]"

definition feed_entry_header :: "usize \<Rightarrow> tlv_area \<Rightarrow> found_tlvs \<Rightarrow> bytes \<Rightarrow> (image_error + usize) \<times> tlv_area \<times> found_tlvs" where
  "feed_entry_header area_total a found input =
     (if area_total - ta_consumed a < 4 - ta_entry_header_fill a then (Inl TruncatedTlv, a, found)
      else let n = min (4 - ta_entry_header_fill a) (length input);
               a = a\<lparr>ta_entry_header := put_slice (ta_entry_header a) (ta_entry_header_fill a) (take n input),
                     ta_entry_header_fill := ta_entry_header_fill a + n, ta_consumed := ta_consumed a + n\<rparr>
           in if ta_entry_header_fill a = 4
              then let t = le_u16 (slice (ta_entry_header a) 0 2);
                       a = a\<lparr>ta_entry_type := t, ta_entry_len := unat (le_u16 (slice (ta_entry_header a) 2 4)),
                             ta_entry_fill := 0, ta_entry_collect := t \<in> set collected_types\<rparr>
                   in if ta_entry_len a > area_total - ta_consumed a then (Inl TruncatedTlv, a, found)
                      else if ta_entry_collect a \<and> ta_entry_len a > length (ta_entry_value a) then (Inl InvalidTlvLength, a, found)
                      else if ta_entry_len a = 0
                      then (case finish_entry a found of (Inl e, a, found) \<Rightarrow> (Inl e, a, found) | (Inr _, a, found) \<Rightarrow> (Inr n, a, found))
                      else (Inr n, a, found)
              else (Inr n, a, found))"

definition feed_entry_value :: "tlv_area \<Rightarrow> found_tlvs \<Rightarrow> bytes \<Rightarrow> (image_error + usize) \<times> tlv_area \<times> found_tlvs" where
  "feed_entry_value a found input =
     (let n = min (ta_entry_len a - ta_entry_fill a) (length input);
          a = a\<lparr>ta_entry_value := (if ta_entry_collect a then put_slice (ta_entry_value a) (ta_entry_fill a) (take n input) else ta_entry_value a),
                ta_entry_fill := ta_entry_fill a + n, ta_consumed := ta_consumed a + n\<rparr>
      in if ta_entry_fill a = ta_entry_len a
         then (case finish_entry a found of (Inl e, a, found) \<Rightarrow> (Inl e, a, found) | (Inr _, a, found) \<Rightarrow> (Inr n, a, found))
         else (Inr n, a, found))"

text \<open>The check for a consumed area inside the loop repeats the negated loop condition, so it has no branch here.\<close>

definition tlv_step :: "tlv_area \<Rightarrow> found_tlvs \<Rightarrow> bytes \<Rightarrow> (image_error + usize) \<times> tlv_area \<times> found_tlvs" where
  "tlv_step a found input =
     (if ta_info_fill a < 4 then (case feed_info a input of (r, a) \<Rightarrow> (r, a, found))
      else case ta_total a of
             None \<Rightarrow> (Inl InvalidTlvAreaSize, a, found)
           | Some area_total \<Rightarrow>
               if ta_entry_header_fill a < 4 then feed_entry_header area_total a found input
               else feed_entry_value a found input)"

partial_function (option) tlv_loop ::
  "tlv_area \<Rightarrow> found_tlvs \<Rightarrow> bytes \<Rightarrow> usize \<Rightarrow> ((image_error + usize) \<times> tlv_area \<times> found_tlvs) option" where
  "tlv_loop a found input offset =
     (if offset < length input \<and> \<not> area_complete a
      then case tlv_step a found (drop offset input) of
             (Inl e, a, found) \<Rightarrow> Some (Inl e, a, found)
           | (Inr n, a, found) \<Rightarrow> tlv_loop a found input (offset + n)
      else Some (Inr offset, a, found))"

definition tlv_feed :: "tlv_area \<Rightarrow> found_tlvs \<Rightarrow> bytes \<Rightarrow> ((image_error + usize) \<times> tlv_area \<times> found_tlvs) option" where
  "tlv_feed a found input = tlv_loop a found input 0"

section \<open>The streaming verifier\<close>

record streaming_verifier =
  sv_public_key :: bytes
  sv_expected_key_hash :: bytes
  sv_policy :: image_policy
  sv_header_bytes :: bytes
  sv_header_fill :: usize
  sv_header :: "image_header option"
  sv_payload_offset :: u32
  sv_protected :: "tlv_area option"
  sv_regular :: tlv_area
  sv_found :: found_tlvs
  sv_hasher :: bytes
  sv_protected_bytes :: bytes
  sv_protected_fill :: usize
  sv_container_position :: u32
  sv_complete :: bool

definition verifier_new :: "image_crypto \<Rightarrow> bytes \<Rightarrow> image_policy \<Rightarrow> image_error + streaming_verifier" where
  "verifier_new C key policy =
     (if \<not> key_valid C key then Inl InvalidPublicKey
      else Inr \<lparr>sv_public_key = key, sv_expected_key_hash = sha256 C (ED25519_SPKI_PREFIX @ key), sv_policy = policy,
             sv_header_bytes = replicate IMAGE_HEADER_SIZE 0, sv_header_fill = 0, sv_header = None, sv_payload_offset = 0,
             sv_protected = None, sv_regular = tlv_area_new Regular TLV_INFO_MAGIC None, sv_found = found_default,
             sv_hasher = [], sv_protected_bytes = replicate MAX_PROTECTED_TLV_SIZE 0, sv_protected_fill = 0,
             sv_container_position = 0, sv_complete = False\<rparr>)"

definition container_size :: "streaming_verifier \<Rightarrow> u32 option" where
  "container_size v = (if sv_complete v then Some (sv_container_position v) else None)"

definition feed_header :: "streaming_verifier \<Rightarrow> bytes \<Rightarrow> (image_error + bytes) \<times> streaming_verifier" where
  "feed_header v input =
     (let n = min (IMAGE_HEADER_SIZE - sv_header_fill v) (length input);
          v = v\<lparr>sv_header_bytes := put_slice (sv_header_bytes v) (sv_header_fill v) (take n input),
                sv_hasher := sv_hasher v @ take n input, sv_header_fill := sv_header_fill v + n,
                sv_container_position := sat_add (sv_container_position v) (word_of_nat n)\<rparr>
      in if sv_header_fill v = IMAGE_HEADER_SIZE
         then case parse_image_header (sv_header_bytes v) of
                Inl e \<Rightarrow> (Inl e, v)
              | Inr header \<Rightarrow>
                  if ih_image_size header > max_image_size (sv_policy v) then (Inl ImageTooLarge, v)
                  else if unat (ih_protected_tlv_size header) > MAX_PROTECTED_TLV_SIZE then (Inl ProtectedTlvAreaTooLarge, v)
                  else (Inr (drop n input),
                        v\<lparr>sv_protected := (if ih_protected_tlv_size header \<noteq> 0
                             then Some (tlv_area_new Protected TLV_PROTECTED_INFO_MAGIC (Some (unat (ih_protected_tlv_size header))))
                             else None),
                           sv_header := Some header\<rparr>)
         else (Inr (drop n input), v))"

definition feed_payload ::
  "('s \<Rightarrow> u32 \<Rightarrow> bytes \<Rightarrow> ('e + unit) \<times> 's) \<Rightarrow> image_header \<Rightarrow> streaming_verifier \<Rightarrow> bytes \<Rightarrow> 's \<Rightarrow>
    ('e feed_error + bytes) \<times> streaming_verifier \<times> 's" where
  "feed_payload wr header v input s =
     (let n = min (unat (ih_image_size header - sv_payload_offset v)) (length input)
      in case wr s (sv_payload_offset v) (take n input) of
           (Inl e, s) \<Rightarrow> (Inl (FeSink e), v, s)
         | (Inr _, s) \<Rightarrow>
             (Inr (drop n input),
              v\<lparr>sv_hasher := sv_hasher v @ take n input, sv_payload_offset := sv_payload_offset v + word_of_nat n,
                sv_container_position := sat_add (sv_container_position v) (word_of_nat n)\<rparr>, s))"

definition feed_protected :: "image_header \<Rightarrow> tlv_area \<Rightarrow> streaming_verifier \<Rightarrow> bytes \<Rightarrow> ((image_error + bytes) \<times> streaming_verifier) option" where
  "feed_protected header area v input =
     (let n = min (unat (ih_protected_tlv_size header) - ta_consumed area) (length input);
          v = v\<lparr>sv_hasher := sv_hasher v @ take n input,
                sv_protected_bytes := put_slice (sv_protected_bytes v) (sv_protected_fill v) (take n input),
                sv_protected_fill := sv_protected_fill v + n\<rparr>
      in case tlv_feed area (sv_found v) (take n input) of
           None \<Rightarrow> None
         | Some (Inl e, area, found) \<Rightarrow> Some (Inl e, v\<lparr>sv_protected := Some area, sv_found := found\<rparr>)
         | Some (Inr _, area, found) \<Rightarrow>
             Some (Inr (drop n input),
                   v\<lparr>sv_protected := Some area, sv_found := found,
                     sv_container_position := sat_add (sv_container_position v) (word_of_nat n)\<rparr>))"

definition feed_regular :: "streaming_verifier \<Rightarrow> bytes \<Rightarrow> ((image_error + bytes) \<times> streaming_verifier) option" where
  "feed_regular v input =
     (case tlv_feed (sv_regular v) (sv_found v) input of
        None \<Rightarrow> None
      | Some (Inl e, area, found) \<Rightarrow> Some (Inl e, v\<lparr>sv_regular := area, sv_found := found\<rparr>)
      | Some (Inr consumed, area, found) \<Rightarrow>
          let v = v\<lparr>sv_regular := area, sv_found := found\<rparr>
          in if consumed = 0 then Some (Inl InvalidTlvAreaSize, v)
             else Some (Inr (drop consumed input),
                        v\<lparr>sv_container_position := sat_add (sv_container_position v) (word_of_nat consumed),
                          sv_complete := (if area_complete area then True else sv_complete v)\<rparr>))"

text \<open>One pass of the loop of \<open>StreamingVerifier::feed\<close>, while the image is not complete; it returns the input that is left.\<close>

definition image_part :: "((image_error + bytes) \<times> streaming_verifier) option \<Rightarrow> 's \<Rightarrow> (('e feed_error + bytes) \<times> streaming_verifier \<times> 's) option" where
  "image_part x s = map_option (\<lambda>(r, v). (map_sum FeImage id r, v, s)) x"

definition feed_step ::
  "('s \<Rightarrow> u32 \<Rightarrow> bytes \<Rightarrow> ('e + unit) \<times> 's) \<Rightarrow> streaming_verifier \<Rightarrow> bytes \<Rightarrow> 's \<Rightarrow>
    (('e feed_error + bytes) \<times> streaming_verifier \<times> 's) option" where
  "feed_step wr v input s =
     (if sv_header_fill v < IMAGE_HEADER_SIZE then image_part (Some (feed_header v input)) s
      else case sv_header v of
             None \<Rightarrow> Some (Inl (FeImage IncompleteImage), v, s)
           | Some header \<Rightarrow>
               if sv_payload_offset v < ih_image_size header then Some (feed_payload wr header v input s)
               else case sv_protected v of
                      None \<Rightarrow> image_part (feed_regular v input) s
                    | Some area \<Rightarrow>
                        if \<not> area_complete area then image_part (feed_protected header area v input) s
                        else image_part (feed_regular v input) s)"

partial_function (option) verifier_feed ::
  "('s \<Rightarrow> u32 \<Rightarrow> bytes \<Rightarrow> ('e + unit) \<times> 's) \<Rightarrow> streaming_verifier \<Rightarrow> bytes \<Rightarrow> 's \<Rightarrow>
    (('e feed_error + unit) \<times> streaming_verifier \<times> 's) option" where
  "verifier_feed wr v input s =
     (if input = [] then Some (Inr (), v, s)
      else if sv_complete v
      then Some (if list_ex (\<lambda>b. b \<noteq> 0x1a) input then Inl (FeImage InvalidPadding) else Inr (), v, s)
      else case feed_step wr v input s of
             None \<Rightarrow> None
           | Some (Inl e, v, s) \<Rightarrow> Some (Inl e, v, s)
           | Some (Inr rest, v, s) \<Rightarrow> verifier_feed wr v rest s)"

text \<open>The identity part of the policy: vendor and component.\<close>

definition check_identity :: "image_policy \<Rightarrow> found_tlvs \<Rightarrow> image_error + bytes" where
  "check_identity policy found =
     (case (case expected_vid policy of
              None \<Rightarrow> None
            | Some expected \<Rightarrow>
                (case ft_vid found of None \<Rightarrow> Some MissingVid | Some vid \<Rightarrow> if vid \<noteq> expected then Some WrongVid else None)) of
        Some e \<Rightarrow> Inl e
      | None \<Rightarrow>
          (case ft_cid found of
             None \<Rightarrow> Inl MissingCid
           | Some cid \<Rightarrow> if cid \<noteq> expected_cid policy then Inl WrongCid else Inr cid))"

definition finish :: "image_crypto \<Rightarrow> streaming_verifier \<Rightarrow> image_error + verified_image" where
  "finish C v =
     (if \<not> sv_complete v then Inl IncompleteImage
      else if ft_pure_signature (sv_found v) then Inl UnsupportedPureSignature
      else case sv_header v of None \<Rightarrow> Inl IncompleteImage | Some header \<Rightarrow>
        (case ft_sha256 (sv_found v) of None \<Rightarrow> Inl MissingSha256 | Some expected_digest \<Rightarrow>
        (case ft_key_hash (sv_found v) of None \<Rightarrow> Inl MissingKeyHash | Some key_hash \<Rightarrow>
        (case ft_signature (sv_found v) of None \<Rightarrow> Inl MissingSignature | Some signature \<Rightarrow>
          if key_hash \<noteq> sv_expected_key_hash v then Inl KeyHashMismatch
          else let digest = sha256 C (sv_hasher v)
               in if digest \<noteq> expected_digest then Inl HashMismatch
                  else if \<not> verify_strict C (sv_public_key v) digest signature then Inl SignatureInvalid
                  else (case check_identity (sv_policy v) (sv_found v) of
                          Inl e \<Rightarrow> Inl e
                        | Inr cid \<Rightarrow>
                            if semver_is_older_than (ih_version header) (min_version (sv_policy v)) then Inl VersionTooLow
                            else Inr \<lparr>vi_header = header, vi_digest = digest, vi_vid = ft_vid (sv_found v), vi_cid = cid,
                                   vi_container_size = sv_container_position v, vi_header_bytes = sv_header_bytes v,
                                   vi_protected_tlv = sv_protected_bytes v, vi_protected_tlv_size = ih_protected_tlv_size header\<rparr>)))))"

section \<open>Reading back the slot\<close>

text \<open>\<open>rd s offset n\<close> is the flash read of \<open>n\<close> bytes; it fills the buffer or fails.\<close>

partial_function (option) read_back ::
  "('s \<Rightarrow> u32 \<Rightarrow> usize \<Rightarrow> ('e + bytes) \<times> 's) \<Rightarrow> usize \<Rightarrow> usize \<Rightarrow> u32 \<Rightarrow> u32 \<Rightarrow> bytes \<Rightarrow> 's \<Rightarrow>
    (('e + bytes) \<times> 's) option" where
  "read_back rd read_size chunk image_size offset hasher s =
     (if offset < image_size
      then let n = min (unat (image_size - offset)) chunk;
               read_len = (n + read_size - 1) div read_size * read_size
           in case rd s offset read_len of
                (Inl e, s) \<Rightarrow> Some (Inl e, s)
              | (Inr buffer, s) \<Rightarrow> read_back rd read_size chunk image_size (offset + word_of_nat n) (hasher @ take n buffer) s
      else Some (Inr hasher, s))"

definition verify_stored_image ::
  "image_crypto \<Rightarrow> usize \<Rightarrow> ('s \<Rightarrow> u32 \<Rightarrow> usize \<Rightarrow> ('e + bytes) \<times> 's) \<Rightarrow> verified_image \<Rightarrow> 's \<Rightarrow>
    (('e stored_image_error + unit) \<times> 's) option" where
  "verify_stored_image C READ_SIZE rd img s =
     (let read_size = max READ_SIZE 1
      in if read_size > READ_BACK_CHUNK then Some (Inl (SiImage UnsupportedReadGranularity), s)
         else let chunk = READ_BACK_CHUNK div read_size * read_size
              in case read_back rd read_size chunk (ih_image_size (vi_header img)) 0 (vi_header_bytes img) s of
                   None \<Rightarrow> None
                 | Some (Inl e, s) \<Rightarrow> Some (Inl (SiRead e), s)
                 | Some (Inr hasher, s) \<Rightarrow>
                     let digest = sha256 C (hasher @ protected_tlv img)
                     in Some (if digest \<noteq> vi_digest img then Inl (SiImage StoredImageInvalid) else Inr (), s))"

end
