(* ===== verification/Mcuboot_Areas.thy ===== *)
theory Mcuboot_Areas
  imports Mcuboot "HOL-Library.Sublist"
begin

text \<open>
  What the streaming TLV parser of \<open>Mcuboot\<close> computes: after any sequence of chunks the state of
  an area stands for the bytes it has consumed, which are an info header, whole entries whose
  values have been stored, and the beginning of one more entry. Every pass of its loop
  consumes input, so it returns.
\<close>

section \<open>The format of an area\<close>

definition encode_tlv :: "u16 \<times> bytes \<Rightarrow> bytes" where
  "encode_tlv e = to_le_bytes (fst e) @ to_le_bytes (word_of_nat (length (snd e)) :: u16) @ snd e"

definition area_info :: "u16 \<Rightarrow> usize \<Rightarrow> bytes" where
  "area_info magic n = to_le_bytes magic @ to_le_bytes (word_of_nat n :: u16)"

definition tlv_bytes :: "u16 \<Rightarrow> (u16 \<times> bytes) list \<Rightarrow> bytes" where
  "tlv_bytes magic es = (let body = concat (map encode_tlv es) in area_info magic (4 + length body) @ body)"

fun store_all :: "tlv_area_kind \<Rightarrow> (u16 \<times> bytes) list \<Rightarrow> found_tlvs \<Rightarrow> image_error + found_tlvs" where
  "store_all k [] f = Inr f"
| "store_all k (e # es) f = (case store_entry k (fst e) (snd e) f of Inl x \<Rightarrow> Inl x | Inr f \<Rightarrow> store_all k es f)"

text \<open>Values are shorter than 65536 bytes, and those that are looked at are at most 64 bytes.\<close>

definition entry_ok :: "u16 \<times> bytes \<Rightarrow> bool" where
  "entry_ok e \<longleftrightarrow> length (snd e) < 65536 \<and> (fst e \<in> set collected_types \<longrightarrow> length (snd e) \<le> 64)"

lemma store_all_snoc: "store_all k es f = Inr g \<Longrightarrow> store_all k (es @ [e]) f = store_entry k (fst e) (snd e) g"
  by (induction es arbitrary: f) (auto split: sum.splits)

lemma store_uncollected: "t \<notin> set collected_types \<Longrightarrow> store_entry k t v f = Inr f"
  by (simp add: store_entry_def collected_types_def)

lemma le_u16_bytes:
  assumes "length bs = 2" shows "to_le_bytes (le_u16 bs) = bs"
proof -
  from assms obtain x y where "bs = [x, y]" by (auto simp: numeral_2_eq_2 length_Suc_conv)
  then show ?thesis using to_from_le_bytes [of bs, where 'a = 16] by (simp add: le_u16_def)
qed

lemma le_u16_halves:
  assumes "length bs = 4" shows "to_le_bytes (le_u16 (slice bs 0 2)) @ to_le_bytes (le_u16 (slice bs 2 4)) = bs"
proof -
  have "to_le_bytes (le_u16 (slice bs 0 2)) = take 2 bs" "to_le_bytes (le_u16 (slice bs 2 4)) = drop 2 bs"
    using assms by (simp_all add: le_u16_bytes slice_def)
  then show ?thesis by simp
qed

lemma take_put: "i \<le> length xs \<Longrightarrow> take (i + length ys) (put_slice xs i ys) = take i xs @ ys"
  by (simp add: put_slice_def)

section \<open>The state of an area\<close>

text \<open>The bytes of the entry that has begun.\<close>

definition begun :: "tlv_area \<Rightarrow> usize \<Rightarrow> bytes \<Rightarrow> bool" where
  "begun a n part \<longleftrightarrow>
     (if ta_entry_header_fill a < 4
      then part = take (ta_entry_header_fill a) (ta_entry_header a) \<and> (part \<noteq> [] \<longrightarrow> 4 - length part \<le> n - ta_consumed a)
      else ta_entry_header_fill a = 4 \<and> ta_entry_type a = le_u16 (slice (ta_entry_header a) 0 2) \<and>
           ta_entry_len a = unat (le_u16 (slice (ta_entry_header a) 2 4)) \<and> ta_entry_fill a < ta_entry_len a \<and>
           ta_entry_len a - ta_entry_fill a \<le> n - ta_consumed a \<and>
           ta_entry_collect a = (ta_entry_type a \<in> set collected_types) \<and>
           (\<exists>v. part = ta_entry_header a @ v \<and> length v = ta_entry_fill a \<and>
             (ta_entry_collect a \<longrightarrow> ta_entry_len a \<le> 64 \<and> take (ta_entry_fill a) (ta_entry_value a) = v)))"

definition area_wf :: "tlv_area \<Rightarrow> bool" where
  "area_wf a \<longleftrightarrow> length (ta_info a) = 4 \<and> length (ta_entry_header a) = 4 \<and> length (ta_entry_value a) = 64 \<and>
     ta_entry_header_fill a \<le> 4"

definition in_entries :: "found_tlvs \<Rightarrow> tlv_area \<Rightarrow> found_tlvs \<Rightarrow> usize \<Rightarrow> bytes \<Rightarrow> bool" where
  "in_entries f0 a f n h \<longleftrightarrow> ta_consumed a = 4 + length h \<and> ta_total a = Some n \<and> ta_consumed a \<le> n \<and>
     (\<exists>es part. h = concat (map encode_tlv es) @ part \<and> store_all (ta_kind a) es f0 = Inr f \<and> list_all entry_ok es \<and> begun a n part)"

definition area_at :: "found_tlvs \<Rightarrow> tlv_area \<Rightarrow> found_tlvs \<Rightarrow> bytes \<Rightarrow> bool" where
  "area_at f0 a f h \<longleftrightarrow> area_wf a \<and>
     (if ta_info_fill a < 4
      then h = take (ta_info_fill a) (ta_info a) \<and> ta_consumed a = ta_info_fill a \<and> ta_total a = None \<and> ta_entry_header_fill a = 0 \<and> f = f0
      else ta_info_fill a = 4 \<and> (\<exists>n body. h = area_info (ta_expected_magic a) n @ body \<and> 4 \<le> n \<and> n < 65536 \<and>
             (\<forall>m. ta_expected_total a = Some m \<longrightarrow> n = m) \<and> in_entries f0 a f n body))"

lemma area_at_new: "area_at f (tlv_area_new k magic expected) f []"
  by (simp add: area_at_def area_wf_def tlv_area_new_def)

definition same_area :: "tlv_area \<Rightarrow> tlv_area \<Rightarrow> bool" where
  "same_area a b \<longleftrightarrow> ta_kind b = ta_kind a \<and> ta_expected_magic b = ta_expected_magic a \<and> ta_expected_total b = ta_expected_total a"

section \<open>One pass of the loop\<close>

lemma feed_info_at:
  assumes at: "area_at f0 a f h" and i: "ta_info_fill a < 4" and input: "input \<noteq> []" and run: "feed_info a input = (Inr n, a')"
  shows "area_at f0 a' f (h @ take n input) \<and> 0 < n \<and> n \<le> length input \<and> same_area a a'"
proof -
  let ?n = "min (4 - ta_info_fill a) (length input)"
  let ?a = "a\<lparr>ta_info := put_slice (ta_info a) (ta_info_fill a) (take ?n input), ta_info_fill := ta_info_fill a + ?n, ta_consumed := ta_consumed a + ?n\<rparr>"
  have wf: "length (ta_info a) = 4" using at by (simp add: area_at_def area_wf_def)
  have n: "0 < ?n" "?n \<le> length input" "ta_info_fill a + ?n \<le> 4" using i input by auto
  have h: "take (ta_info_fill ?a) (ta_info ?a) = h @ take ?n input" "length (ta_info ?a) = 4"
    using at i n wf take_put [of "ta_info_fill a" "ta_info a" "take ?n input"] by (simp_all add: area_at_def slice_simps)
  have eqs: "ta_consumed a = ta_info_fill a" "ta_total a = None" "ta_entry_header_fill a = 0" "f = f0" "area_wf ?a"
    using at i h(2) by (auto simp: area_at_def area_wf_def)
  show ?thesis
  proof (cases "ta_info_fill ?a = 4")
    case False
    then have "ta_info_fill ?a < 4" using n(3) by simp
    moreover have "n = ?n" "a' = ?a" using run False by (auto simp: feed_info_def Let_def)
    ultimately show ?thesis using eqs h n by (simp add: area_at_def same_area_def)
  next
    case True
    let ?t = "unat (le_u16 (slice (ta_info ?a) 2 4))"
    have good: "le_u16 (slice (ta_info ?a) 0 2) = ta_expected_magic a" "4 \<le> ?t" "\<forall>m. ta_expected_total a = Some m \<longrightarrow> ?t = m"
      and out: "n = ?n" "a' = ?a\<lparr>ta_total := Some ?t\<rparr>"
      using run True by (auto simp: feed_info_def Let_def not_less split: if_splits option.splits)
    have "area_info (ta_expected_magic a) ?t = ta_info ?a"
      using le_u16_halves [OF h(2)] good(1) by (simp add: area_info_def)
    moreover have "ta_info ?a = h @ take ?n input" using h True by simp
    moreover have "?t < 65536" using unsigned_less [of "le_u16 (slice (ta_info ?a) 2 4)", where 'a = nat] by simp
    moreover have "in_entries f0 a' f ?t []"
      using eqs True good(2) unfolding out in_entries_def by (auto simp: begun_def intro!: exI [of _ "[]"])
    ultimately have "\<exists>m body. h @ take ?n input = area_info (ta_expected_magic a) m @ body \<and> 4 \<le> m \<and> m < 65536 \<and>
        (\<forall>k. ta_expected_total a = Some k \<longrightarrow> m = k) \<and> in_entries f0 a' f m body"
      using good by (metis append_Nil2)
    moreover have "ta_info_fill a' = 4" "same_area a a'" "area_wf a'" using True eqs(5) by (simp_all add: out(2) same_area_def area_wf_def)
    ultimately show ?thesis using n(1,2) unfolding out(1) area_at_def same_area_def by simp
  qed
qed

text \<open>The end of an entry: its value has been stored and a new entry can begin.\<close>

lemma finish_entry_at:
  assumes "finish_entry a f = (Inr u, a', f')" "store_all (ta_kind a) es f0 = Inr f" "list_all entry_ok es"
    and "area_wf a" "ta_consumed a \<le> n" "ta_consumed a = 4 + length (concat (map encode_tlv es)) + length (encode_tlv e)" "ta_total a = Some n"
    and "entry_ok e" "ta_entry_type a = fst e" "ta_entry_len a = length (snd e)" "fst e \<in> set collected_types \<Longrightarrow> take (length (snd e)) (ta_entry_value a) = snd e"
  shows "in_entries f0 a' f' n (concat (map encode_tlv (es @ [e]))) \<and> area_wf a' \<and> same_area a a' \<and> ta_info_fill a' = ta_info_fill a \<and> ta_entry_header_fill a' = 0"
proof -
  let ?v = "take (min (ta_entry_len a) (length (ta_entry_value a))) (ta_entry_value a)"
  have stored: "store_entry (ta_kind a) (fst e) ?v f = Inr f'"
    and a': "a' = a\<lparr>ta_entry_header_fill := 0, ta_entry_type := 0, ta_entry_len := 0, ta_entry_fill := 0,
                ta_entry_collect := False, ta_entry_value := replicate (length (ta_entry_value a)) 0\<rparr>"
    using assms(1,9) by (auto simp: finish_entry_def Let_def split: sum.splits)
  have "store_entry (ta_kind a) (fst e) (snd e) f = Inr f'"
  proof (cases "fst e \<in> set collected_types")
    case True
    then have "?v = snd e" using assms(4,8,10,11) by (simp add: entry_ok_def area_wf_def)
    with stored show ?thesis by simp
  qed (use stored in \<open>simp add: store_uncollected\<close>)
  then have "store_all (ta_kind a) (es @ [e]) f0 = Inr f'" using store_all_snoc [OF assms(2), of e] by simp
  then show ?thesis
    using assms unfolding a' in_entries_def area_wf_def same_area_def
    by (auto simp: begun_def intro!: exI [of _ "es @ [e]"] exI [of _ "[] :: bytes"])
qed

text \<open>What a pass inside the entries keeps.\<close>

definition moves_on :: "found_tlvs \<Rightarrow> tlv_area \<Rightarrow> usize \<Rightarrow> bytes \<Rightarrow> tlv_area \<Rightarrow> found_tlvs \<Rightarrow> bool" where
  "moves_on f0 a n h a' f' \<longleftrightarrow> in_entries f0 a' f' n h \<and> area_wf a' \<and> same_area a a' \<and> ta_info_fill a' = ta_info_fill a"

lemma in_entriesI:
  assumes "ta_consumed a = 4 + length h" "ta_total a = Some n" "ta_consumed a \<le> n" "h = concat (map encode_tlv es) @ part"
    and "store_all (ta_kind a) es f0 = Inr f" "list_all entry_ok es" "begun a n part"
  shows "in_entries f0 a f n h"
  using assms unfolding in_entries_def by blast

lemma header_entry:
  assumes "length hb = 4" "length v = unat (le_u16 (slice hb 2 4))"
  shows "encode_tlv (le_u16 (slice hb 0 2), v) = hb @ v"
  using assms le_u16_halves [OF assms(1)] by (simp add: encode_tlv_def flip: append_assoc)

lemma feed_entry_header_at:
  assumes at: "in_entries f0 a f n h" "area_wf a" and fill: "ta_entry_header_fill a < 4" and input: "input \<noteq> []"
    and run: "feed_entry_header n a f input = (Inr k, a', f')"
  shows "moves_on f0 a n (h @ take k input) a' f' \<and> 0 < k \<and> k \<le> length input"
proof -
  define m where "m = min (4 - ta_entry_header_fill a) (length input)"
  let ?a = "a\<lparr>ta_entry_header := put_slice (ta_entry_header a) (ta_entry_header_fill a) (take m input),
              ta_entry_header_fill := ta_entry_header_fill a + m, ta_consumed := ta_consumed a + m\<rparr>"
  have pos: "ta_consumed a = 4 + length h" "ta_total a = Some n" "ta_consumed a \<le> n" and wf: "area_wf a" "length (ta_entry_header a) = 4"
    using at by (simp_all add: in_entries_def area_wf_def)
  from at(1) obtain es part where part: "h = concat (map encode_tlv es) @ part" "store_all (ta_kind a) es f0 = Inr f" "list_all entry_ok es"
    and begun: "begun a n part" unfolding in_entries_def by blast
  from begun fill have part4: "part = take (ta_entry_header_fill a) (ta_entry_header a)" by (simp add: begun_def)
  have k: "0 < m" "m \<le> length input" "ta_entry_header_fill a + m \<le> 4" using fill input by (auto simp: m_def)
  have room: "4 - ta_entry_header_fill a \<le> n - ta_consumed a" using run by (auto simp: feed_entry_header_def not_less split: if_splits)
  have hb: "take (ta_entry_header_fill ?a) (ta_entry_header ?a) = part @ take m input" "length (ta_entry_header ?a) = 4"
    using k wf take_put [of "ta_entry_header_fill a" "ta_entry_header a" "take m input"] part4 by (simp_all add: slice_simps)
  have here: "ta_consumed ?a = 4 + length (h @ take m input)" "ta_consumed ?a \<le> n" "area_wf ?a"
    using pos room k wf hb(2) by (auto simp: area_wf_def)
  show ?thesis
  proof (cases "ta_entry_header_fill ?a = 4")
    case False
    then have "ta_entry_header_fill ?a < 4" using k(3) by simp
    moreover have out: "k = m" "a' = ?a" "f' = f" using run False room by (auto simp: feed_entry_header_def Let_def not_less m_def)
    moreover have "length (part @ take m input) = ta_entry_header_fill ?a" using part4 wf(2) fill k(2) by simp
    moreover have "4 - ta_entry_header_fill ?a \<le> n - ta_consumed ?a" using room k(3) pos(3) by simp
    ultimately have "begun a' n (part @ take m input)" using hb(1) unfolding begun_def out by simp
    moreover have "h @ take m input = concat (map encode_tlv es) @ part @ take m input" using part(1) by simp
    ultimately have "in_entries f0 a' f' n (h @ take k input)"
      using part(2,3) pos(2) here(1,2) by (intro in_entriesI [where es = es]) (simp_all add: out)
    then show ?thesis using k here(3) unfolding moves_on_def out by (simp add: same_area_def)
  next
    case True
    let ?hb = "ta_entry_header ?a" and ?h = "h @ take m input"
    let ?t = "le_u16 (slice ?hb 0 2)" and ?l = "unat (le_u16 (slice ?hb 2 4))"
    let ?b = "?a\<lparr>ta_entry_type := ?t, ta_entry_len := ?l, ta_entry_fill := 0, ta_entry_collect := ?t \<in> set collected_types\<rparr>"
    have whole: "?hb = part @ take m input" "?h = concat (map encode_tlv es) @ ?hb" using hb True part(1) by simp_all
    have fits: "?l \<le> n - ta_consumed ?a" "?t \<in> set collected_types \<Longrightarrow> ?l \<le> 64"
      using run True room wf(1) by (auto simp: feed_entry_header_def Let_def area_wf_def not_less simp flip: m_def split: if_splits)
    have b: "area_wf ?b" "same_area a ?b" "ta_info_fill ?b = ta_info_fill a" "ta_consumed ?b = 4 + length ?h" "ta_total ?b = Some n" "ta_consumed ?b \<le> n"
      using here pos(2) by (simp_all add: area_wf_def same_area_def)
    show ?thesis
    proof (cases "?l = 0")
      case False
      then have out: "k = m" "a' = ?b" "f' = f"
        using run True room fits wf(1) by (auto simp: feed_entry_header_def Let_def area_wf_def not_less simp flip: m_def split: if_splits)
      have "begun ?b n (?hb @ [])" using True False fits by (simp add: begun_def)
      then have "in_entries f0 ?b f n ?h"
        using b part(2,3) whole(2) by (intro in_entriesI [where es = es and part = ?hb]) simp_all
      then show ?thesis using k(1,2) b unfolding moves_on_def out by simp
    next
      case zero: True
      obtain u where fin: "finish_entry ?b f = (Inr u, a', f')" and out: "k = m"
        using run True zero room fits wf(1) by (auto simp: feed_entry_header_def Let_def area_wf_def not_less simp flip: m_def split: if_splits prod.splits sum.splits)
      have enc: "encode_tlv (?t, []) = ?hb" using header_entry [OF hb(2), of "[]"] zero by simp
      have "in_entries f0 a' f' n (concat (map encode_tlv (es @ [(?t, [])]))) \<and> area_wf a' \<and> same_area ?b a' \<and>
          ta_info_fill a' = ta_info_fill ?b \<and> ta_entry_header_fill a' = 0"
        using fin part(2,3) b zero whole(2) enc by (intro finish_entry_at) (simp_all add: entry_ok_def)
      then show ?thesis using k(1,2) b(2) whole(2) enc unfolding moves_on_def out by (auto simp: same_area_def)
    qed
  qed
qed

lemma feed_entry_value_at:
  assumes at: "in_entries f0 a f n h" "area_wf a" and fill: "\<not> ta_entry_header_fill a < 4" and input: "input \<noteq> []"
    and run: "feed_entry_value a f input = (Inr k, a', f')"
  shows "moves_on f0 a n (h @ take k input) a' f' \<and> 0 < k \<and> k \<le> length input"
proof -
  define m where "m = min (ta_entry_len a - ta_entry_fill a) (length input)"
  let ?a = "a\<lparr>ta_entry_value := (if ta_entry_collect a then put_slice (ta_entry_value a) (ta_entry_fill a) (take m input) else ta_entry_value a),
              ta_entry_fill := ta_entry_fill a + m, ta_consumed := ta_consumed a + m\<rparr>"
  let ?hb = "ta_entry_header a"
  have pos: "ta_consumed a = 4 + length h" "ta_total a = Some n" "ta_consumed a \<le> n" and wf: "area_wf a" "length ?hb = 4" "length (ta_entry_value a) = 64"
    using at by (simp_all add: in_entries_def area_wf_def)
  from at(1) obtain es part where part: "h = concat (map encode_tlv es) @ part" "store_all (ta_kind a) es f0 = Inr f" "list_all entry_ok es"
    and begun: "begun a n part" unfolding in_entries_def by blast
  from begun fill obtain v where v: "part = ?hb @ v" "length v = ta_entry_fill a"
      "ta_entry_collect a \<Longrightarrow> ta_entry_len a \<le> 64 \<and> take (ta_entry_fill a) (ta_entry_value a) = v"
    and entry: "ta_entry_header_fill a = 4" "ta_entry_type a = le_u16 (slice ?hb 0 2)" "ta_entry_len a = unat (le_u16 (slice ?hb 2 4))"
      "ta_entry_fill a < ta_entry_len a" "ta_entry_len a - ta_entry_fill a \<le> n - ta_consumed a" "ta_entry_collect a = (ta_entry_type a \<in> set collected_types)"
    unfolding begun_def by auto
  have m: "0 < m" "m \<le> length input" "ta_entry_fill a + m \<le> ta_entry_len a" using entry(4) input by (auto simp: m_def)
  let ?v = "v @ take m input" and ?h = "h @ take m input"
  have collected: "take (ta_entry_fill a + m) (ta_entry_value ?a) = ?v" if "ta_entry_collect a"
    using that v m wf(3) take_put [of "ta_entry_fill a" "ta_entry_value a" "take m input"] by simp
  have b: "area_wf ?a" "same_area a ?a" "ta_info_fill ?a = ta_info_fill a" "ta_consumed ?a = 4 + length ?h" "ta_total ?a = Some n" "ta_consumed ?a \<le> n"
    using pos entry(5) m wf v(3) by (auto simp: area_wf_def same_area_def slice_simps)
  have whole: "?h = concat (map encode_tlv es) @ ?hb @ ?v" "length ?v = ta_entry_fill a + m" using part(1) v m by simp_all
  show ?thesis
  proof (cases "ta_entry_fill a + m = ta_entry_len a")
    case False
    then have out: "k = m" "a' = ?a" "f' = f" using run by (auto simp: feed_entry_value_def Let_def simp flip: m_def)
    have "begun ?a n (?hb @ ?v)" using entry False m v collected whole(2) pos(3) by (auto simp: begun_def)
    then have "in_entries f0 ?a f n ?h"
      using b part(2,3) whole(1) by (intro in_entriesI [where es = es and part = "?hb @ ?v"]) simp_all
    then show ?thesis using m(1,2) b unfolding moves_on_def out by simp
  next
    case True
    let ?e = "(ta_entry_type a, ?v)"
    obtain u where fin: "finish_entry ?a f = (Inr u, a', f')" and out: "k = m"
      using run True by (auto simp: feed_entry_value_def Let_def simp flip: m_def split: prod.splits sum.splits)
    have enc: "encode_tlv ?e = ?hb @ ?v" using header_entry [OF wf(2), of ?v] True whole(2) entry(2,3) by simp
    have ok: "entry_ok ?e"
      using v(3) entry(3,6) True whole(2) unsigned_less [of "le_u16 (slice ?hb 2 4)", where 'a = nat] by (auto simp: entry_ok_def)
    have "in_entries f0 a' f' n (concat (map encode_tlv (es @ [?e]))) \<and> area_wf a' \<and> same_area ?a a' \<and>
        ta_info_fill a' = ta_info_fill ?a \<and> ta_entry_header_fill a' = 0"
    proof (rule finish_entry_at [OF fin _ part(3) b(1) b(6) _ b(5) ok])
      show "ta_consumed ?a = 4 + length (concat (map encode_tlv es)) + length (encode_tlv ?e)"
        unfolding b(4) whole(1) enc by (simp only: length_append add.assoc)
      show "fst ?e \<in> set collected_types \<Longrightarrow> take (length (snd ?e)) (ta_entry_value ?a) = snd ?e"
        using collected entry(6) whole(2) by simp
    qed (use part(2) True whole(2) in simp_all)
    then show ?thesis using m(1,2) b(2) whole(1) enc unfolding moves_on_def out by (auto simp: same_area_def)
  qed
qed

section \<open>The loop\<close>

lemma tlv_step_at:
  assumes at: "area_at f0 a f h" and input: "input \<noteq> []" "\<not> area_complete a" and run: "tlv_step a f input = (Inr k, a', f')"
  shows "area_at f0 a' f' (h @ take k input) \<and> 0 < k \<and> k \<le> length input \<and> same_area a a'"
proof (cases "ta_info_fill a < 4")
  case True
  then obtain r where "feed_info a input = (Inr k, a')" "f' = f" using run by (auto simp: tlv_step_def split: prod.splits)
  with feed_info_at [OF at True input(1)] show ?thesis by simp
next
  case False
  with at obtain n body where h: "h = area_info (ta_expected_magic a) n @ body" "4 \<le> n" "n < 65536" "\<forall>m. ta_expected_total a = Some m \<longrightarrow> n = m"
    and inside: "in_entries f0 a f n body" and wf: "area_wf a" "ta_info_fill a = 4" by (auto simp: area_at_def)
  have "ta_total a = Some n" using inside by (simp add: in_entries_def)
  with run False have "if ta_entry_header_fill a < 4 then feed_entry_header n a f input = (Inr k, a', f') else feed_entry_value a f input = (Inr k, a', f')"
    by (auto simp: tlv_step_def)
  with feed_entry_header_at [OF inside wf(1) _ input(1)] feed_entry_value_at [OF inside wf(1) _ input(1)]
  have "moves_on f0 a n (body @ take k input) a' f'" "0 < k" "k \<le> length input" by (auto split: if_splits)
  then show ?thesis using h wf unfolding moves_on_def area_at_def same_area_def
    by (auto intro!: exI [of _ n] exI [of _ "body @ take k input"])
qed

lemma area_consumed: "area_at f0 a f h \<Longrightarrow> ta_consumed a = length h"
  by (auto simp: area_at_def area_wf_def in_entries_def area_info_def split: if_splits)

text \<open>A complete area ends with a whole entry.\<close>

lemma area_whole:
  assumes "area_at f0 a f h" "area_complete a"
  shows "\<exists>es. h = tlv_bytes (ta_expected_magic a) es \<and> list_all entry_ok es \<and> store_all (ta_kind a) es f0 = Inr f \<and>
    length h < 65536 \<and> (\<forall>m. ta_expected_total a = Some m \<longrightarrow> length h = m)"
proof -
  from assms have "\<not> ta_info_fill a < 4" by (auto simp: area_at_def area_complete_def)
  with assms(1) obtain n body where h: "h = area_info (ta_expected_magic a) n @ body" "n < 65536" "\<forall>m. ta_expected_total a = Some m \<longrightarrow> n = m"
    and inside: "in_entries f0 a f n body" and wf: "area_wf a" unfolding area_at_def by auto
  from inside obtain es part where es: "body = concat (map encode_tlv es) @ part" "store_all (ta_kind a) es f0 = Inr f" "list_all entry_ok es"
    and begun: "begun a n part" and pos: "ta_consumed a = 4 + length body" "ta_total a = Some n" unfolding in_entries_def by auto
  have n: "n = 4 + length body" using assms(2) pos by (simp add: area_complete_def)
  have "part = []"
  proof (rule ccontr)
    assume "part \<noteq> []"
    then show False using begun pos(1) n wf by (auto simp: begun_def area_wf_def split: if_splits)
  qed
  then have "h = tlv_bytes (ta_expected_magic a) es" "length h = n" using h(1) es(1) n by (simp_all add: tlv_bytes_def Let_def area_info_def)
  with es(2,3) h(2,3) show ?thesis by metis
qed

lemma area_unfinished:
  assumes "area_at f0 a f h" "\<not> area_complete a" "ta_expected_total a = Some m" "4 \<le> m"
  shows "length h < m"
  using assms area_consumed [OF assms(1)] by (auto simp: area_at_def area_complete_def area_wf_def in_entries_def split: if_splits)

lemma area_fits: "area_at f0 a f h \<Longrightarrow> ta_expected_total a = Some m \<Longrightarrow> 4 \<le> m \<Longrightarrow> length h \<le> m"
  using area_consumed [of f0 a f h] by (auto simp: area_at_def area_wf_def in_entries_def split: if_splits)

lemma area_bound: "area_at f0 a f h \<Longrightarrow> length h < 65536"
  using area_consumed [of f0 a f h] by (auto simp: area_at_def area_wf_def in_entries_def split: if_splits)

text \<open>The loop returns, and unless it fails it has consumed the input up to the end of the area.\<close>

definition consumed_to :: "found_tlvs \<Rightarrow> tlv_area \<Rightarrow> bytes \<Rightarrow> bytes \<Rightarrow> usize \<Rightarrow> (image_error + usize) \<times> tlv_area \<times> found_tlvs \<Rightarrow> bool" where
  "consumed_to f0 a h input i r \<longleftrightarrow>
     (case r of (Inl _, _, _) \<Rightarrow> True
      | (Inr k, a', f') \<Rightarrow> i \<le> k \<and> k \<le> length input \<and> area_at f0 a' f' (h @ slice input i k) \<and> same_area a a' \<and>
          (k < length input \<longrightarrow> area_complete a') \<and> (i < length input \<and> \<not> area_complete a \<longrightarrow> i < k))"

lemma tlv_loop_at:
  assumes "area_at f0 a f h" "i \<le> length input"
  shows "\<exists>r. tlv_loop a f input i = Some r \<and> consumed_to f0 a h input i r"
  using assms
proof (induction "length input - i" arbitrary: a f h i rule: less_induct)
  case less
  show ?case
  proof (cases "i < length input \<and> \<not> area_complete a")
    case False
    with less.prems show ?thesis
      by (subst tlv_loop.simps) (auto simp: consumed_to_def same_area_def slice_def)
  next
    case True
    obtain x a' f' where run: "tlv_step a f (drop i input) = (x, a', f')" by (cases "tlv_step a f (drop i input)")
    show ?thesis
    proof (cases x)
      case (Inl e)
      with True run show ?thesis by (subst tlv_loop.simps) (simp add: consumed_to_def)
    next
      case (Inr k)
      from tlv_step_at [OF less.prems(1) _ _ run [unfolded Inr]] True
      have k: "area_at f0 a' f' (h @ take k (drop i input))" "0 < k" "i + k \<le> length input" "same_area a a'" by auto
      have "length input - (i + k) < length input - i" using k(2,3) by linarith
      from less.hyps [OF this k(1) k(3)] obtain r where r: "tlv_loop a' f' input (i + k) = Some r"
        "consumed_to f0 a' (h @ take k (drop i input)) input (i + k) r" by auto
      have "slice input i j = take k (drop i input) @ slice input (i + k) j" if "i + k \<le> j" for j
        using that take_add [of k "j - (i + k)" "drop i input"] by (simp add: slice_def add.commute)
      with r k(2,4) True have "consumed_to f0 a h input i r"
        by (auto simp: consumed_to_def same_area_def split: prod.splits sum.splits)
      with r(1) True run Inr show ?thesis by (subst tlv_loop.simps) simp
    qed
  qed
qed

lemma tlv_feed_at:
  assumes "area_at f0 a f h"
  shows "\<exists>x a' f'. tlv_feed a f input = Some (x, a', f') \<and>
    (\<forall>k. x = Inr k \<longrightarrow> k \<le> length input \<and> area_at f0 a' f' (h @ take k input) \<and> same_area a a' \<and>
         (k < length input \<longrightarrow> area_complete a') \<and> (input \<noteq> [] \<and> \<not> area_complete a \<longrightarrow> 0 < k))"
proof -
  from tlv_loop_at [OF assms, of 0 input] obtain x a' f' where "tlv_loop a f input 0 = Some (x, a', f')" "consumed_to f0 a h input 0 (x, a', f')"
    by auto
  then show ?thesis by (cases x) (simp_all add: tlv_feed_def consumed_to_def slice_def)
qed

end
