(* ===== verification/Mcuboot_Images.thy ===== *)
theory Mcuboot_Images
  imports Mcuboot_Areas
begin

text \<open>
  What the streaming verifier of \<open>Mcuboot\<close> promises of a container, however it is cut into chunks: feeding always
  returns, the sink is written the payload in order, and \<open>finish\<close> accepts only a container signed
  under the given key that satisfies the policy. Reading back the slot hashes exactly the
  stored payload.
\<close>

section \<open>Writes of the sink\<close>

type_synonym ('s, 'e) payload_sink = "'s \<Rightarrow> u32 \<Rightarrow> bytes \<Rightarrow> ('e + unit) \<times> 's"

fun writes :: "('s, 'e) payload_sink \<Rightarrow> (u32 \<times> bytes) list \<Rightarrow> 's \<Rightarrow> 's option" where
  "writes wr [] s = Some s"
| "writes wr (w # ws) s = (case wr s (fst w) (snd w) of (Inl e, s) \<Rightarrow> None | (Inr _, s) \<Rightarrow> writes wr ws s)"

fun at_offsets :: "nat \<Rightarrow> (u32 \<times> bytes) list \<Rightarrow> bool" where
  "at_offsets n [] = True"
| "at_offsets n (w # ws) = (unat (fst w) = n \<and> at_offsets (n + length (snd w)) ws)"

lemma writes_snoc: "writes wr ws s = Some t \<Longrightarrow> wr t o' bs = (Inr u, t') \<Longrightarrow> writes wr (ws @ [(o', bs)]) s = Some t'"
  by (induction ws arbitrary: s) (auto split: prod.splits sum.splits)

lemma at_offsets_snoc: "at_offsets n (ws @ [w]) \<longleftrightarrow> at_offsets n ws \<and> unat (fst w) = n + length (concat (map snd ws))"
  by (induction ws arbitrary: n) (auto simp: add.assoc)

text \<open>The bytes \<open>payload\<close> went to the sink, from offset 0 on.\<close>

definition written :: "('s, 'e) payload_sink \<Rightarrow> 's \<Rightarrow> bytes \<Rightarrow> 's \<Rightarrow> bool" where
  "written wr s0 payload s \<longleftrightarrow> (\<exists>ws. writes wr ws s0 = Some s \<and> at_offsets 0 ws \<and> concat (map snd ws) = payload)"

lemma written_more:
  assumes "written wr s0 pl s" "wr s i bs = (Inr u, s')" "unat i = length pl"
  shows "written wr s0 (pl @ bs) s'"
proof -
  from assms(1) obtain ws where ws: "writes wr ws s0 = Some s" "at_offsets 0 ws" "concat (map snd ws) = pl" by (auto simp: written_def)
  then have "writes wr (ws @ [(i, bs)]) s0 = Some s'" "at_offsets 0 (ws @ [(i, bs)])" "concat (map snd (ws @ [(i, bs)])) = pl @ bs"
    using writes_snoc [OF ws(1) assms(2)] assms(3) by (simp_all add: at_offsets_snoc)
  then show ?thesis unfolding written_def by blast
qed

section \<open>The state of a verifier\<close>

definition settings_ok :: "image_crypto \<Rightarrow> bytes \<Rightarrow> image_policy \<Rightarrow> streaming_verifier \<Rightarrow> bool" where
  "settings_ok C key policy v \<longleftrightarrow> sv_public_key v = key \<and> sv_policy v = policy \<and>
     sv_expected_key_hash v = sha256 C (ED25519_SPKI_PREFIX @ key) \<and> length (sv_header_bytes v) = 32 \<and>
     length (sv_protected_bytes v) = 64 \<and> ta_kind (sv_regular v) = Regular \<and> ta_expected_magic (sv_regular v) = TLV_INFO_MAGIC \<and>
     ta_expected_total (sv_regular v) = None"

definition before_header :: "streaming_verifier \<Rightarrow> bytes \<Rightarrow> bool" where
  "before_header v h \<longleftrightarrow> sv_header_fill v < 32 \<and> h = take (sv_header_fill v) (sv_header_bytes v) \<and> sv_hasher v = h \<and>
     sv_payload_offset v = 0 \<and> sv_found v = found_default \<and> area_at found_default (sv_regular v) found_default [] \<and>
     sv_protected_fill v = 0 \<and> \<not> sv_complete v"

text \<open>The protected area, with the bytes \<open>pr\<close> of it and what they have stored.\<close>

definition protected_at :: "image_header \<Rightarrow> tlv_area option \<Rightarrow> found_tlvs \<Rightarrow> bytes \<Rightarrow> bool" where
  "protected_at header area f pr \<longleftrightarrow>
     (case area of
        None \<Rightarrow> ih_protected_tlv_size header = 0 \<and> pr = [] \<and> f = found_default
      | Some a \<Rightarrow> 4 \<le> unat (ih_protected_tlv_size header) \<and> area_at found_default a f pr \<and> ta_kind a = Protected \<and>
          ta_expected_magic a = TLV_PROTECTED_INFO_MAGIC \<and> ta_expected_total a = Some (unat (ih_protected_tlv_size header)))"

definition area_done :: "tlv_area option \<Rightarrow> bool" where
  "area_done area \<longleftrightarrow> (case area of None \<Rightarrow> True | Some a \<Rightarrow> area_complete a)"

definition header_ok :: "image_policy \<Rightarrow> bytes \<Rightarrow> image_header \<Rightarrow> bool" where
  "header_ok policy hb header \<longleftrightarrow> length hb = 32 \<and> parse_image_header hb = Inr header \<and>
     ih_image_size header \<le> max_image_size policy \<and> unat (ih_protected_tlv_size header) \<le> 64"

text \<open>After the header: the payload so far, the protected and the regular area so far.\<close>

definition after_header ::
  "('s, 'e) payload_sink \<Rightarrow> 's \<Rightarrow> streaming_verifier \<Rightarrow> 's \<Rightarrow> image_header \<Rightarrow> bytes \<Rightarrow> bytes \<Rightarrow> bytes \<Rightarrow> found_tlvs \<Rightarrow> bool" where
  "after_header wr s0 v s header pl pr rg f \<longleftrightarrow>
     sv_header_fill v = 32 \<and> sv_header v = Some header \<and> header_ok (sv_policy v) (sv_header_bytes v) header \<and>
     sv_hasher v = sv_header_bytes v @ pl @ pr \<and>
     unat (sv_payload_offset v) = length pl \<and> length pl \<le> unat (ih_image_size header) \<and>
     (length pl < unat (ih_image_size header) \<longrightarrow> pr = [] \<and> rg = []) \<and> written wr s0 pl s \<and>
     protected_at header (sv_protected v) f pr \<and> (\<not> area_done (sv_protected v) \<longrightarrow> rg = []) \<and>
     sv_protected_fill v = length pr \<and> take (length pr) (sv_protected_bytes v) = pr \<and>
     area_at f (sv_regular v) (sv_found v) rg \<and> sv_complete v = area_complete (sv_regular v)"

definition image_at ::
  "image_crypto \<Rightarrow> bytes \<Rightarrow> image_policy \<Rightarrow> ('s, 'e) payload_sink \<Rightarrow> 's \<Rightarrow> streaming_verifier \<Rightarrow> 's \<Rightarrow> bytes \<Rightarrow> bool" where
  "image_at C key policy wr s0 v s h \<longleftrightarrow> settings_ok C key policy v \<and>
     unat (sv_container_position v) = min (length h) (2 ^ 32 - 1) \<and>
     (before_header v h \<and> s = s0 \<or>
      (\<exists>header pl pr rg f. after_header wr s0 v s header pl pr rg f \<and> h = sv_header_bytes v @ pl @ pr @ rg))"

lemma image_at_new:
  assumes "verifier_new C key policy = Inr v"
  shows "image_at C key policy wr s0 v s0 []"
  using assms area_at_new
  by (auto simp: verifier_new_def image_at_def settings_ok_def before_header_def IMAGE_HEADER_SIZE_def MAX_PROTECTED_TLV_SIZE_def tlv_area_new_def
      split: if_splits)

lemma area_untouched: "area_at f0 a f [] \<Longrightarrow> f = f0 \<and> area_at g a g []"
  by (auto simp: area_at_def area_wf_def area_info_def dest!: arg_cong [where f = length] split: if_splits)

lemma area_untouched_open: "area_at f0 a f [] \<Longrightarrow> \<not> area_complete a"
  by (auto simp: area_at_def area_wf_def area_info_def area_complete_def dest!: arg_cong [where f = length] split: if_splits)

lemma position_advances:
  fixes p :: u32
  assumes "unat p = min x (2 ^ 32 - 1)" "n < 2 ^ 32"
  shows "unat (sat_add p (word_of_nat n)) = min (x + n) (2 ^ 32 - 1)"
proof -
  have "unat (word_of_nat n :: u32) = n mod 2 ^ 32" by (simp add: unat_of_nat)
  then show ?thesis using assms by (simp add: sat_simps)
qed

section \<open>One pass of the loop\<close>

definition goes_on ::
  "image_crypto \<Rightarrow> bytes \<Rightarrow> image_policy \<Rightarrow> ('s, 'e) payload_sink \<Rightarrow> 's \<Rightarrow> bytes \<Rightarrow> bytes \<Rightarrow> bytes \<Rightarrow> streaming_verifier \<Rightarrow> 's \<Rightarrow> bool" where
  "goes_on C key policy wr s0 h input rest v s \<longleftrightarrow>
     (\<exists>k. 0 < k \<and> k \<le> length input \<and> rest = drop k input \<and> image_at C key policy wr s0 v s (h @ take k input))"

lemma parsed_tlv_size: "parse_image_header bs = Inr header \<Longrightarrow> ih_protected_tlv_size header \<noteq> 0 \<Longrightarrow> 4 \<le> unat (ih_protected_tlv_size header)"
  by (auto simp: parse_image_header_def Let_def word_less_nat_alt split: if_splits)

lemma feed_header_at:
  assumes ok: "settings_ok C key policy v" and pos: "unat (sv_container_position v) = min (length h) (2 ^ 32 - 1)"
    and before: "before_header v h" and input: "input \<noteq> []" and run: "feed_header v input = (Inr rest, v')"
  shows "goes_on C key policy wr s0 h input rest v' s0"
proof -
  define m where "m = min (32 - sv_header_fill v) (length input)"
  let ?v = "v\<lparr>sv_header_bytes := put_slice (sv_header_bytes v) (sv_header_fill v) (take m input),
              sv_hasher := sv_hasher v @ take m input, sv_header_fill := sv_header_fill v + m,
              sv_container_position := sat_add (sv_container_position v) (word_of_nat m)\<rparr>"
  have fill: "sv_header_fill v < 32" and hash: "sv_hasher v = h" and len: "length (sv_header_bytes v) = 32" "length (sv_protected_bytes v) = 64"
    using before ok by (simp_all add: before_header_def settings_ok_def)
  have m: "0 < m" "m \<le> length input" "sv_header_fill v + m \<le> 32" using fill input by (auto simp: m_def)
  have hb: "take (sv_header_fill ?v) (sv_header_bytes ?v) = h @ take m input" "length (sv_header_bytes ?v) = 32"
    using before m len take_put [of "sv_header_fill v" "sv_header_bytes v" "take m input"] by (simp_all add: before_header_def slice_simps)
  have pos': "unat (sv_container_position ?v) = min (length (h @ take m input)) (2 ^ 32 - 1)"
    using position_advances [OF pos, of m] m by simp
  show ?thesis
  proof (cases "sv_header_fill v + m = 32")
    case False
    then have out: "v' = ?v" "rest = drop m input" using run by (auto simp: feed_header_def Let_def IMAGE_HEADER_SIZE_def simp flip: m_def)
    have "before_header ?v (h @ take m input)" using before hb(1) hash m False by (auto simp: before_header_def)
    moreover have "settings_ok C key policy ?v" using ok hb(2) by (simp add: settings_ok_def)
    ultimately show ?thesis using pos' m unfolding goes_on_def image_at_def out by blast
  next
    case True
    then obtain header where parsed: "parse_image_header (sv_header_bytes ?v) = Inr header"
        "ih_image_size header \<le> max_image_size policy" "unat (ih_protected_tlv_size header) \<le> 64"
      and out: "rest = drop m input" "v' = ?v\<lparr>sv_protected := (if ih_protected_tlv_size header \<noteq> 0
           then Some (tlv_area_new Protected TLV_PROTECTED_INFO_MAGIC (Some (unat (ih_protected_tlv_size header)))) else None), sv_header := Some header\<rparr>"
      using run ok by (auto simp: feed_header_def Let_def IMAGE_HEADER_SIZE_def MAX_PROTECTED_TLV_SIZE_def settings_ok_def not_less
          simp flip: m_def split: sum.splits if_splits)
    have h: "h @ take m input = sv_header_bytes v' @ [] @ [] @ []" using hb True out(2) by simp
    have "protected_at header (sv_protected v') found_default []"
      using parsed_tlv_size [OF parsed(1)] area_at_new unfolding out(2) by (auto simp: protected_at_def tlv_area_new_def)
    moreover have "written wr s0 [] s0" by (auto simp: written_def intro!: exI [of _ "[]"])
    moreover have "\<not> area_complete (sv_regular v)" using before area_untouched_open by (auto simp: before_header_def)
    moreover have "header_ok (sv_policy v') (sv_header_bytes v') header" using parsed ok hb(2) by (simp add: header_ok_def settings_ok_def out(2))
    moreover have "sv_header_fill v' = 32" "sv_header v' = Some header" "sv_hasher v' = sv_header_bytes v' @ [] @ []" "sv_payload_offset v' = 0"
        "sv_protected_fill v' = 0" "sv_regular v' = sv_regular v" "sv_found v' = found_default" "\<not> sv_complete v'"
        "area_at found_default (sv_regular v) found_default []"
      using before hash h True unfolding out(2) before_header_def by simp_all
    ultimately have "after_header wr s0 v' s0 header [] [] [] found_default" unfolding after_header_def by simp
    moreover have "settings_ok C key policy v'" "unat (sv_container_position v') = min (length (h @ take m input)) (2 ^ 32 - 1)"
      using ok hb(2) pos' unfolding out(2) by (simp_all add: settings_ok_def)
    ultimately have "image_at C key policy wr s0 v' s0 (h @ take m input)" using h unfolding image_at_def by blast
    then show ?thesis using m out(1) unfolding goes_on_def by blast
  qed
qed

text \<open>The later parts: the header is there and the input goes to one of three places.\<close>

definition open_image ::
  "image_crypto \<Rightarrow> bytes \<Rightarrow> image_policy \<Rightarrow> ('s, 'e) payload_sink \<Rightarrow> 's \<Rightarrow> streaming_verifier \<Rightarrow> 's \<Rightarrow> bytes \<Rightarrow>
    image_header \<Rightarrow> bytes \<Rightarrow> bytes \<Rightarrow> bytes \<Rightarrow> found_tlvs \<Rightarrow> bool" where
  "open_image C key policy wr s0 v s h header pl pr rg f \<longleftrightarrow> settings_ok C key policy v \<and>
     unat (sv_container_position v) = min (length h) (2 ^ 32 - 1) \<and>
     after_header wr s0 v s header pl pr rg f \<and> h = sv_header_bytes v @ pl @ pr @ rg"

lemma open_image_at: "open_image C key policy wr s0 v s h header pl pr rg f \<Longrightarrow> image_at C key policy wr s0 v s h"
  unfolding open_image_def image_at_def by blast

lemma goes_onI:
  "open_image C key policy wr s0 v s (h @ take k input) header pl pr rg f \<Longrightarrow> 0 < k \<Longrightarrow> k \<le> length input \<Longrightarrow>
    goes_on C key policy wr s0 h input (drop k input) v s"
  unfolding goes_on_def by (intro exI [of _ k] conjI refl open_image_at)

lemma feed_payload_at:
  assumes at: "open_image C key policy wr s0 v s h header pl pr rg f" and room: "sv_payload_offset v < ih_image_size header"
    and input: "input \<noteq> []" and run: "feed_payload wr header v input s = (Inr rest, v', s')"
  shows "goes_on C key policy wr s0 h input rest v' s'"
proof -
  define m where "m = min (unat (ih_image_size header - sv_payload_offset v)) (length input)"
  have off: "unat (sv_payload_offset v) = length pl" and less: "length pl < unat (ih_image_size header)" and empty: "pr = []" "rg = []"
    and len: "length (sv_header_bytes v) = 32"
    using at room by (auto simp: open_image_def after_header_def word_less_nat_alt header_ok_def)
  have "unat (ih_image_size header - sv_payload_offset v) = unat (ih_image_size header) - length pl"
    using room off by (simp add: unat_sub)
  then have m: "0 < m" "m \<le> length input" "length pl + m \<le> unat (ih_image_size header)" using less input by (auto simp: m_def)
  have small: "length pl + m < 2 ^ 32" using m(3) unsigned_less [of "ih_image_size header", where 'a = nat] by simp
  have next_off: "unat (sv_payload_offset v + word_of_nat m) = length pl + m"
    using small off by (simp add: unat_word_ariths unat_of_nat)
  let ?v = "v\<lparr>sv_hasher := sv_hasher v @ take m input, sv_payload_offset := sv_payload_offset v + word_of_nat m,
              sv_container_position := sat_add (sv_container_position v) (word_of_nat m)\<rparr>"
  obtain u where wr: "wr s (sv_payload_offset v) (take m input) = (Inr u, s')" and out: "rest = drop m input" "v' = ?v"
    using run by (auto simp: feed_payload_def Let_def simp flip: m_def split: prod.splits sum.splits)
  have "written wr s0 (pl @ take m input) s'"
    using at wr off by (intro written_more) (auto simp: open_image_def after_header_def)
  then have "after_header wr s0 v' s' header (pl @ take m input) [] [] f"
    using at empty m next_off unfolding out(2) open_image_def after_header_def by simp
  moreover have "unat (sv_container_position v') = min (length (h @ take m input)) (2 ^ 32 - 1)"
    using at position_advances [of "sv_container_position v" "length h" m] small m(2) unfolding out(2) by (simp add: open_image_def)
  ultimately have "open_image C key policy wr s0 v' s' (h @ take m input) header (pl @ take m input) [] [] f"
    using at empty unfolding open_image_def out(2) settings_ok_def by simp
  from goes_onI [OF this m(1,2)] show ?thesis by (simp only: out(1))
qed

lemma feed_regular_at:
  assumes at: "open_image C key policy wr s0 v s h header pl pr rg f" and ready: "\<not> sv_payload_offset v < ih_image_size header"
    "area_done (sv_protected v)" "\<not> sv_complete v" and input: "input \<noteq> []"
  shows "\<exists>r v'. feed_regular v input = Some (r, v') \<and> (\<forall>rest. r = Inr rest \<longrightarrow> goes_on C key policy wr s0 h input rest v' s)"
proof -
  have area: "area_at f (sv_regular v) (sv_found v) rg" "\<not> area_complete (sv_regular v)"
    using at ready(3) by (auto simp: open_image_def after_header_def)
  from tlv_feed_at [OF area(1), of input] obtain x a' f' where run: "tlv_feed (sv_regular v) (sv_found v) input = Some (x, a', f')"
    and fed: "\<And>k. x = Inr k \<Longrightarrow> k \<le> length input \<and> area_at f a' f' (rg @ take k input) \<and> same_area (sv_regular v) a' \<and> 0 < k"
    using area(2) input by blast
  show ?thesis
  proof (cases x)
    case (Inl e)
    then show ?thesis using run by (simp add: feed_regular_def)
  next
    case (Inr k)
    from fed [OF this] have k: "0 < k" "k \<le> length input" "area_at f a' f' (rg @ take k input)" "same_area (sv_regular v) a'" by auto
    let ?v = "v\<lparr>sv_regular := a', sv_found := f', sv_container_position := sat_add (sv_container_position v) (word_of_nat k),
              sv_complete := area_complete a'\<rparr>"
    have out: "feed_regular v input = Some (Inr (drop k input), ?v)"
      using run Inr k(1) ready(3) by (simp add: feed_regular_def Let_def)
    have "k < 2 ^ 32" using area_bound [OF k(3)] k(2) by simp
    with at position_advances [of "sv_container_position v" "length h" k] k(2)
    have "unat (sv_container_position ?v) = min (length (h @ take k input)) (2 ^ 32 - 1)" by (simp add: open_image_def)
    moreover have "after_header wr s0 ?v s header pl pr (rg @ take k input) f"
      using at ready k(3) unfolding open_image_def after_header_def by (simp add: word_less_nat_alt)
    moreover have "settings_ok C key policy ?v" using at k(4) by (simp add: open_image_def settings_ok_def same_area_def)
    ultimately have "open_image C key policy wr s0 ?v s (h @ take k input) header pl pr (rg @ take k input) f"
      using at unfolding open_image_def by simp
    from goes_onI [OF this k(1,2)] show ?thesis using out by blast
  qed
qed

lemma feed_protected_at:
  assumes at: "open_image C key policy wr s0 v s h header pl pr rg f" and ready: "\<not> sv_payload_offset v < ih_image_size header"
    "sv_protected v = Some a" "\<not> area_complete a" and input: "input \<noteq> []"
  shows "\<exists>r v'. feed_protected header a v input = Some (r, v') \<and> (\<forall>rest. r = Inr rest \<longrightarrow> goes_on C key policy wr s0 h input rest v' s)"
proof -
  let ?n = "unat (ih_protected_tlv_size header)"
  define m where "m = min (?n - ta_consumed a) (length input)"
  have after: "after_header wr s0 v s header pl pr rg f" and h: "h = sv_header_bytes v @ pl @ pr @ rg" using at by (simp_all add: open_image_def)
  have area: "4 \<le> ?n" "?n \<le> 64" "area_at found_default a f pr" "ta_kind a = Protected" "ta_expected_magic a = TLV_PROTECTED_INFO_MAGIC" "ta_expected_total a = Some ?n"
    and rg: "rg = []" and reg: "area_at f (sv_regular v) (sv_found v) []"
    using after ready(2,3) by (auto simp: after_header_def protected_at_def area_done_def header_ok_def)
  have found: "sv_found v = f" using area_untouched [OF reg] by simp
  have m: "0 < m" "m \<le> length input" "length pr + m \<le> ?n"
    using area_unfinished [OF area(3) ready(3) area(6,1)] area_consumed [OF area(3)] input by (auto simp: m_def)
  let ?v = "v\<lparr>sv_hasher := sv_hasher v @ take m input, sv_protected_bytes := put_slice (sv_protected_bytes v) (sv_protected_fill v) (take m input),
              sv_protected_fill := sv_protected_fill v + m\<rparr>"
  from tlv_feed_at [OF area(3), of "take m input"] obtain x a' f' where run: "tlv_feed a f (take m input) = Some (x, a', f')"
    and fed: "\<And>k. x = Inr k \<Longrightarrow> k \<le> m \<and> area_at found_default a' f' (pr @ take k (take m input)) \<and> same_area a a' \<and> (k < m \<longrightarrow> area_complete a')"
    using m(2) by auto
  show ?thesis
  proof (cases x)
    case (Inl e)
    then show ?thesis using run found by (simp add: feed_protected_def Let_def flip: m_def)
  next
    case (Inr k)
    have "k = m"
    proof (rule ccontr)
      assume "k \<noteq> m"
      with fed [OF Inr] have k: "k < m" "area_at found_default a' f' (pr @ take k input)" "area_complete a'" "ta_expected_total a' = Some ?n"
        using area(6) by (auto simp: same_area_def min_def)
      from area_whole [OF k(2,3)] k(4) have "length (pr @ take k input) = ?n" by blast
      then show False using k(1) m by simp
    qed
    with fed [OF Inr] have a': "area_at found_default a' f' (pr @ take m input)" "same_area a a'" by simp_all
    let ?w = "?v\<lparr>sv_protected := Some a', sv_found := f', sv_container_position := sat_add (sv_container_position v) (word_of_nat m)\<rparr>"
    have out: "feed_protected header a v input = Some (Inr (drop m input), ?w)"
      using run Inr found by (simp add: feed_protected_def Let_def flip: m_def)
    have prot: "length (sv_protected_bytes v) = 64" "sv_protected_fill v = length pr" "take (length pr) (sv_protected_bytes v) = pr"
      using at by (simp_all add: open_image_def settings_ok_def after_header_def)
    have kept: "take (length pr + m) (sv_protected_bytes ?w) = pr @ take m input" "length (sv_protected_bytes ?w) = 64"
      using take_put [of "length pr" "sv_protected_bytes v" "take m input"] prot m area(2) by (simp_all add: slice_simps)
    have "unat (sv_container_position ?w) = min (length (h @ take m input)) (2 ^ 32 - 1)"
      using at position_advances [of "sv_container_position v" "length h" m] m area(2) by (simp add: open_image_def)
    moreover have "protected_at header (sv_protected ?w) f' (pr @ take m input)"
      using area a' by (simp add: protected_at_def same_area_def)
    moreover have "area_at f' (sv_regular ?w) (sv_found ?w) []" using area_untouched [OF reg] by simp
    ultimately have "open_image C key policy wr s0 ?w s (h @ take m input) header pl (pr @ take m input) [] f'"
      using at kept prot(2) ready(1) rg m(2) unfolding open_image_def after_header_def settings_ok_def by (clarsimp simp: word_less_nat_alt)
    from goes_onI [OF this m(1,2)] show ?thesis using out by blast
  qed
qed

lemma feed_step_at:
  assumes at: "image_at C key policy wr s0 v s h" and more: "\<not> sv_complete v" "input \<noteq> []"
  shows "\<exists>r v' s'. feed_step wr v input s = Some (r, v', s') \<and> (\<forall>rest. r = Inr rest \<longrightarrow> goes_on C key policy wr s0 h input rest v' s')"
proof (cases "sv_header_fill v < 32")
  case True
  with at have "settings_ok C key policy v" "unat (sv_container_position v) = min (length h) (2 ^ 32 - 1)" "before_header v h" "s = s0"
    by (auto simp: image_at_def after_header_def)
  from feed_header_at [where wr = wr and ?s0.0 = s0, OF this(1-3) more(2)] True this(4) show ?thesis
    by (cases "feed_header v input") (auto simp: feed_step_def image_part_def IMAGE_HEADER_SIZE_def map_sum_def split: sum.splits)
next
  case False
  with at obtain header pl pr rg f where open_im: "open_image C key policy wr s0 v s h header pl pr rg f"
    by (auto simp: image_at_def before_header_def open_image_def)
  then have header: "sv_header v = Some header" by (simp add: open_image_def after_header_def)
  consider (payload) "sv_payload_offset v < ih_image_size header"
    | (protected) a where "\<not> sv_payload_offset v < ih_image_size header" "sv_protected v = Some a" "\<not> area_complete a"
    | (regular) "\<not> sv_payload_offset v < ih_image_size header" "area_done (sv_protected v)"
    by (cases "sv_protected v") (auto simp: area_done_def)
  then show ?thesis
  proof cases
    case payload
    with feed_payload_at [OF open_im payload more(2)] False header show ?thesis
      by (cases "feed_payload wr header v input s") (auto simp: feed_step_def IMAGE_HEADER_SIZE_def)
  next
    case protected
    from feed_protected_at [OF open_im this more(2)] obtain r v' where
      "feed_protected header a v input = Some (r, v')" "\<forall>rest. r = Inr rest \<longrightarrow> goes_on C key policy wr s0 h input rest v' s" by blast
    with protected False header show ?thesis
      by (auto simp: feed_step_def image_part_def IMAGE_HEADER_SIZE_def map_sum_def split: sum.splits)
  next
    case regular
    from feed_regular_at [OF open_im this more] obtain r v' where
      "feed_regular v input = Some (r, v')" "\<forall>rest. r = Inr rest \<longrightarrow> goes_on C key policy wr s0 h input rest v' s" by blast
    with regular False header show ?thesis
      by (auto simp: feed_step_def image_part_def IMAGE_HEADER_SIZE_def map_sum_def area_done_def split: sum.splits option.splits)
  qed
qed

section \<open>Feeding and finishing\<close>

text \<open>What has been fed: the bytes \<open>h\<close> of the container, and padding once it is complete.\<close>

definition fed :: "image_crypto \<Rightarrow> bytes \<Rightarrow> image_policy \<Rightarrow> ('s, 'e) payload_sink \<Rightarrow> 's \<Rightarrow> streaming_verifier \<Rightarrow> 's \<Rightarrow> bytes \<Rightarrow> bool" where
  "fed C key policy wr s0 v s input \<longleftrightarrow>
     (\<exists>h padding. input = h @ padding \<and> image_at C key policy wr s0 v s h \<and> (padding \<noteq> [] \<longrightarrow> sv_complete v) \<and> (\<forall>b\<in>set padding. b = 0x1a))"

lemma fedI: "image_at C key policy wr s0 v s h \<Longrightarrow> padding = [] \<or> sv_complete v \<Longrightarrow> \<forall>b\<in>set padding. b = 0x1a \<Longrightarrow> fed C key policy wr s0 v s (h @ padding)"
  unfolding fed_def by blast

lemma verifier_feed_at:
  assumes "image_at C key policy wr s0 v s h"
  shows "\<exists>r v' s'. verifier_feed wr v input s = Some (r, v', s') \<and> (r = Inr () \<longrightarrow> fed C key policy wr s0 v' s' (h @ input))"
  using assms
proof (induction "length input" arbitrary: v s h input rule: less_induct)
  case less
  consider "input = []" | "input \<noteq> []" "sv_complete v" | "input \<noteq> []" "\<not> sv_complete v" by blast
  then show ?case
  proof cases
    case 1
    then show ?thesis using less.prems fedI [OF less.prems, of "[]"] by (subst verifier_feed.simps) simp
  next
    case 2
    then show ?thesis using fedI [OF less.prems, of input]
      by (subst verifier_feed.simps) (auto simp: list_ex_iff)
  next
    case 3
    from feed_step_at [OF less.prems 3(2,1)] obtain r v' s' where run: "feed_step wr v input s = Some (r, v', s')"
      and on: "\<And>rest. r = Inr rest \<Longrightarrow> goes_on C key policy wr s0 h input rest v' s'" by blast
    show ?thesis
    proof (cases r)
      case (Inl e)
      then show ?thesis using 3 run by (subst verifier_feed.simps) simp
    next
      case (Inr rest)
      from on [OF this] obtain k where k: "0 < k" "k \<le> length input" "rest = drop k input" "image_at C key policy wr s0 v' s' (h @ take k input)"
        unfolding goes_on_def by blast
      then have "length rest < length input" by simp
      from less.hyps [OF this k(4)] k(3) have "\<exists>r v'' s''. verifier_feed wr v' rest s' = Some (r, v'', s'') \<and>
          (r = Inr () \<longrightarrow> fed C key policy wr s0 v'' s'' (h @ input))" by simp
      moreover have "verifier_feed wr v input s = verifier_feed wr v' rest s'"
        using 3 run Inr by (subst verifier_feed.simps) simp
      ultimately show ?thesis by simp
    qed
  qed
qed

text \<open>A sequence of chunks, each of them given to \<open>feed\<close>, until one fails.\<close>

fun feed_all :: "('s, 'e) payload_sink \<Rightarrow> streaming_verifier \<Rightarrow> bytes list \<Rightarrow> 's \<Rightarrow> (('e feed_error + unit) \<times> streaming_verifier \<times> 's) option" where
  "feed_all wr v [] s = Some (Inr (), v, s)"
| "feed_all wr v (c # cs) s =
     (case verifier_feed wr v c s of
        None \<Rightarrow> None
      | Some (Inl e, v, s) \<Rightarrow> Some (Inl e, v, s)
      | Some (Inr _, v, s) \<Rightarrow> feed_all wr v cs s)"

lemma fed_more:
  assumes "fed C key policy wr s0 v s h"
  shows "\<exists>r v' s'. verifier_feed wr v c s = Some (r, v', s') \<and> (r = Inr () \<longrightarrow> fed C key policy wr s0 v' s' (h @ c))"
proof -
  from assms obtain g padding where h: "h = g @ padding" "image_at C key policy wr s0 v s g" "padding \<noteq> [] \<longrightarrow> sv_complete v" "\<forall>b\<in>set padding. b = 0x1a"
    unfolding fed_def by blast
  show ?thesis
  proof (cases "padding = []")
    case True
    with verifier_feed_at [OF h(2), of c] h(1) show ?thesis by simp
  next
    case False
    then have "verifier_feed wr v c s = Some (if c \<noteq> [] \<and> list_ex (\<lambda>b. b \<noteq> 0x1a) c then Inl (FeImage InvalidPadding) else Inr (), v, s)"
      using h(3) by (subst verifier_feed.simps) auto
    moreover have "fed C key policy wr s0 v s (h @ c)" if "\<not> list_ex (\<lambda>b. b \<noteq> 0x1a) c"
      unfolding fed_def using h False that
      by (intro exI [of _ g] exI [of _ "padding @ c"]) (auto simp: list_ex_iff)
    ultimately show ?thesis by (auto simp: list_ex_iff)
  qed
qed

lemma feed_all_at:
  assumes "fed C key policy wr s0 v s h"
  shows "\<exists>r v' s'. feed_all wr v cs s = Some (r, v', s') \<and> (r = Inr () \<longrightarrow> fed C key policy wr s0 v' s' (h @ concat cs))"
  using assms
proof (induction cs arbitrary: v s h)
  case (Cons c cs)
  from fed_more [OF Cons.prems, of c] obtain r v' s' where run: "verifier_feed wr v c s = Some (r, v', s')"
    and on: "r = Inr () \<Longrightarrow> fed C key policy wr s0 v' s' (h @ c)" by blast
  show ?case
  proof (cases r)
    case (Inr u)
    with Cons.IH [OF on] run show ?thesis by simp
  qed (use run in simp)
qed simp

end
