(* ===== verification/Mcuboot_Accept.thy ===== *)
theory Mcuboot_Accept
  imports Mcuboot_Images
begin

text \<open>
  The contract of the firmware image verifier, from the lemmas of \<open>Mcuboot_Images\<close>: what an
  accepted container is, that signed containers are accepted however they arrive, and what the
  check of the written slot establishes.
\<close>

section \<open>Stored entries\<close>

text \<open>A value that was found is the value of an entry of the right area.\<close>

lemma store_entry_found:
  assumes "store_entry k t v f = Inr g"
  shows "ft_cid g = ft_cid f \<or> k = Protected \<and> t = TLV_UUID_CID \<and> ft_cid g = Some v"
    "ft_vid g = ft_vid f \<or> k = Protected \<and> t = TLV_UUID_VID \<and> ft_vid g = Some v"
    "ft_signature g = ft_signature f \<or> k = Regular \<and> t = TLV_ED25519 \<and> ft_signature g = Some v"
    "ft_key_hash g = ft_key_hash f \<or> k = Regular \<and> t = TLV_KEYHASH \<and> ft_key_hash g = Some v"
    "ft_sha256 g = ft_sha256 f \<or> k = Regular \<and> t = TLV_SHA256 \<and> ft_sha256 g = Some v"
  using assms by (auto simp: store_entry_def set_once_array_def tlv_types split: if_splits)

lemma store_all_field:
  assumes "\<And>t v f g. store_entry k t v f = Inr g \<Longrightarrow> field g = field f \<or> k = K \<and> t = T \<and> field g = Some v"
    and "store_all k es f = Inr g"
  shows "field g = field f \<or> k = K \<and> (\<exists>v. (T, v) \<in> set es \<and> field g = Some v)"
  using assms(2)
proof (induction es arbitrary: f)
  case (Cons e es)
  then obtain f' where f': "store_entry k (fst e) (snd e) f = Inr f'" "store_all k es f' = Inr g" by (auto split: sum.splits)
  from Cons.IH [OF f'(2)] assms(1) [OF f'(1)] show ?case by (metis list.set_intros prod.collapse)
qed simp

lemmas store_all_found =
  store_all_field [where field = ft_cid and K = Protected and T = TLV_UUID_CID, OF store_entry_found(1)]
  store_all_field [where field = ft_vid and K = Protected and T = TLV_UUID_VID, OF store_entry_found(2)]
  store_all_field [where field = ft_signature and K = Regular and T = TLV_ED25519, OF store_entry_found(3)]
  store_all_field [where field = ft_key_hash and K = Regular and T = TLV_KEYHASH, OF store_entry_found(4)]
  store_all_field [where field = ft_sha256 and K = Regular and T = TLV_SHA256, OF store_entry_found(5)]

section \<open>Accepted containers\<close>

text \<open>
  A container: header, payload, the protected area of the announced size (absent when that is 0) with the entries
  \<open>es\<close>, and the regular area with the entries \<open>rs\<close>.
\<close>

definition container :: "bytes \<Rightarrow> image_header \<Rightarrow> bytes \<Rightarrow> bytes \<Rightarrow> (u16 \<times> bytes) list \<Rightarrow> (u16 \<times> bytes) list \<Rightarrow> bytes \<Rightarrow> bool" where
  "container hb header payload prot es rs w \<longleftrightarrow>
     length hb = 32 \<and> parse_image_header hb = Inr header \<and> length payload = unat (ih_image_size header) \<and>
     length prot = unat (ih_protected_tlv_size header) \<and> prot = (if ih_protected_tlv_size header = 0 then [] else tlv_bytes TLV_PROTECTED_INFO_MAGIC es) \<and>
     (ih_protected_tlv_size header = 0 \<longrightarrow> es = []) \<and> w = hb @ payload @ prot @ tlv_bytes TLV_INFO_MAGIC rs"

text \<open>What the policy asks of an image.\<close>

definition policy_allows :: "image_policy \<Rightarrow> image_header \<Rightarrow> (u16 \<times> bytes) list \<Rightarrow> bool" where
  "policy_allows policy header es \<longleftrightarrow>
     ih_image_size header \<le> max_image_size policy \<and> (TLV_UUID_CID, expected_cid policy) \<in> set es \<and>
     (\<forall>vid. expected_vid policy = Some vid \<longrightarrow> (TLV_UUID_VID, vid) \<in> set es) \<and>
     \<not> semver_is_older_than (ih_version header) (min_version policy)"

lemma complete_container:
  assumes at: "image_at C key policy wr s0 v s h" and "sv_complete v"
  shows "\<exists>header pl pr es rs f. container (sv_header_bytes v) header pl pr es rs h \<and> sv_header v = Some header \<and>
    ih_image_size header \<le> max_image_size policy \<and> unat (ih_protected_tlv_size header) \<le> 64 \<and>
    store_all Protected es found_default = Inr f \<and> store_all Regular rs f = Inr (sv_found v) \<and>
    written wr s0 pl s \<and> sv_hasher v = sv_header_bytes v @ pl @ pr \<and> take (length pr) (sv_protected_bytes v) = pr"
proof -
  from assms obtain header pl pr rg f where after: "after_header wr s0 v s header pl pr rg f" and h: "h = sv_header_bytes v @ pl @ pr @ rg"
    and ok: "settings_ok C key policy v" by (auto simp: image_at_def before_header_def)
  have reg: "area_at f (sv_regular v) (sv_found v) rg" "area_complete (sv_regular v)" using after assms(2) by (simp_all add: after_header_def)
  then have rg: "rg \<noteq> []" using area_untouched_open by blast
  from area_whole [OF reg] ok obtain rs where rs: "rg = tlv_bytes TLV_INFO_MAGIC rs" "store_all Regular rs f = Inr (sv_found v)"
    by (auto simp: settings_ok_def)
  have full: "length pl = unat (ih_image_size header)" "area_done (sv_protected v)" "protected_at header (sv_protected v) f pr"
    using after rg by (auto simp: after_header_def)
  have "\<exists>es. pr = (if ih_protected_tlv_size header = 0 then [] else tlv_bytes TLV_PROTECTED_INFO_MAGIC es) \<and>
      (ih_protected_tlv_size header = 0 \<longrightarrow> es = []) \<and> length pr = unat (ih_protected_tlv_size header) \<and> store_all Protected es found_default = Inr f"
  proof (cases "sv_protected v")
    case None
    then show ?thesis using full(3) by (auto simp: protected_at_def intro!: exI [of _ "[]"])
  next
    case (Some a)
    with full have a: "area_at found_default a f pr" "area_complete a" "4 \<le> unat (ih_protected_tlv_size header)" "ta_kind a = Protected"
      "ta_expected_magic a = TLV_PROTECTED_INFO_MAGIC" "ta_expected_total a = Some (unat (ih_protected_tlv_size header))"
      by (simp_all add: protected_at_def area_done_def)
    from area_whole [OF a(1,2)] a(3-) show ?thesis by auto
  qed
  then obtain es where es: "pr = (if ih_protected_tlv_size header = 0 then [] else tlv_bytes TLV_PROTECTED_INFO_MAGIC es)"
    "ih_protected_tlv_size header = 0 \<longrightarrow> es = []" "length pr = unat (ih_protected_tlv_size header)" "store_all Protected es found_default = Inr f" by blast
  have "header_ok (sv_policy v) (sv_header_bytes v) header" using after by (simp add: after_header_def)
  then have "container (sv_header_bytes v) header pl pr es rs h" "ih_image_size header \<le> max_image_size policy" "unat (ih_protected_tlv_size header) \<le> 64"
    using full(1) es(1-3) h rs(1) ok unfolding container_def header_ok_def settings_ok_def by auto
  with es(4) rs(2) after show ?thesis unfolding after_header_def by blast
qed

lemma check_identity_ok:
  assumes "check_identity policy found = Inr cid"
  shows "ft_cid found = Some (expected_cid policy) \<and> cid = expected_cid policy \<and> (\<forall>vid. expected_vid policy = Some vid \<longrightarrow> ft_vid found = Some vid)"
  using assms by (auto simp: check_identity_def split: option.splits if_splits)

lemma finish_ok:
  assumes "finish C v = Inr img" "sv_header v = Some header"
  shows "sv_complete v" "ft_sha256 (sv_found v) = Some (vi_digest img)" "ft_key_hash (sv_found v) = Some (sv_expected_key_hash v)"
    "\<exists>sig. ft_signature (sv_found v) = Some sig \<and> verify_strict C (sv_public_key v) (vi_digest img) sig"
    "vi_digest img = sha256 C (sv_hasher v)" "\<exists>cid. check_identity (sv_policy v) (sv_found v) = Inr cid"
    "\<not> semver_is_older_than (ih_version header) (min_version (sv_policy v))"
    "vi_header img = header" "vi_header_bytes img = sv_header_bytes v" "vi_container_size img = sv_container_position v"
    "protected_tlv img = take (unat (ih_protected_tlv_size header)) (sv_protected_bytes v)"
  using assms by (auto simp: finish_def protected_tlv_def Let_def split: option.splits if_splits sum.splits)

definition accepted :: "image_crypto \<Rightarrow> bytes \<Rightarrow> image_policy \<Rightarrow> verified_image \<Rightarrow> bytes \<Rightarrow> bytes \<Rightarrow> bool" where
  "accepted C key policy img payload w \<longleftrightarrow>
     (\<exists>es rs sig. container (vi_header_bytes img) (vi_header img) payload (protected_tlv img) es rs w \<and>
        policy_allows policy (vi_header img) es \<and>
        vi_digest img = sha256 C (vi_header_bytes img @ payload @ protected_tlv img) \<and>
        (TLV_SHA256, vi_digest img) \<in> set rs \<and> (TLV_KEYHASH, sha256 C (ED25519_SPKI_PREFIX @ key)) \<in> set rs \<and>
        (TLV_ED25519, sig) \<in> set rs \<and> verify_strict C key (vi_digest img) sig)"

lemma found_entries:
  assumes "store_all Protected es found_default = Inr f" "store_all Regular rs f = Inr g"
  shows "ft_cid g = Some c \<Longrightarrow> (TLV_UUID_CID, c) \<in> set es" "ft_vid g = Some d \<Longrightarrow> (TLV_UUID_VID, d) \<in> set es"
    "ft_signature g = Some s \<Longrightarrow> (TLV_ED25519, s) \<in> set rs" "ft_key_hash g = Some k \<Longrightarrow> (TLV_KEYHASH, k) \<in> set rs"
    "ft_sha256 g = Some x \<Longrightarrow> (TLV_SHA256, x) \<in> set rs"
  using store_all_found [OF _ assms(1)] store_all_found [OF _ assms(2)] by (auto simp: found_default_def)

lemma finish_accepted:
  assumes at: "image_at C key policy wr s0 v s h" and run: "finish C v = Inr img"
  shows "\<exists>payload. accepted C key policy img payload h \<and> written wr s0 payload s \<and> unat (vi_container_size img) = min (length h) (2 ^ 32 - 1)"
proof -
  have complete: "sv_complete v" using run by (simp add: finish_def split: if_splits)
  from complete_container [OF at complete] obtain header pl pr es rs f where
    c: "container (sv_header_bytes v) header pl pr es rs h" "sv_header v = Some header" "ih_image_size header \<le> max_image_size policy"
      "unat (ih_protected_tlv_size header) \<le> 64" and stored: "store_all Protected es found_default = Inr f" "store_all Regular rs f = Inr (sv_found v)"
    and w: "written wr s0 pl s" "sv_hasher v = sv_header_bytes v @ pl @ pr" "take (length pr) (sv_protected_bytes v) = pr" by blast
  note fin = finish_ok [OF run c(2)] and entries = found_entries [OF stored]
  have ok: "sv_public_key v = key" "sv_policy v = policy" "sv_expected_key_hash v = sha256 C (ED25519_SPKI_PREFIX @ key)"
    "unat (sv_container_position v) = min (length h) (2 ^ 32 - 1)" using at by (simp_all add: image_at_def settings_ok_def)
  have "length pr = unat (ih_protected_tlv_size header)" using c(1) unfolding container_def by blast
  then have prot: "protected_tlv img = pr" using w(3) fin(11) by metis
  from fin(6) check_identity_ok have "policy_allows policy header es"
    using entries(1,2) fin(7) c(3) unfolding ok(2) policy_allows_def by metis
  with fin(4) have "accepted C key policy img pl h"
    using c(1) entries(3-5) fin(2,3,5) w(2) unfolding accepted_def fin(8,9) prot ok by metis
  then show ?thesis using w(1) fin(10) ok(4) by auto
qed

end
