(* ===== verification/Mcuboot_Complete.thy ===== *)
theory Mcuboot_Complete
  imports Mcuboot_Accept
begin

text \<open>
  The other half of the verifier's contract: bytes that agree with a well-formed container are
  never refused. Agreement is stated without reference to how the bytes were cut:
  \<open>h @ input @ x = w @ y\<close>.
\<close>

section \<open>The encoding determines the entries\<close>

lemma le_bytes_inj: "to_le_bytes v = to_le_bytes w \<Longrightarrow> v = w" for v w :: u16
  by (drule arg_cong [where f = "from_le_bytes :: bytes \<Rightarrow> u16"]) (simp add: from_to_le_bytes)

lemma le_bytes_split: "to_le_bytes v @ x = to_le_bytes w @ y \<longleftrightarrow> v = w \<and> x = y" for v w :: u16
  using le_bytes_inj [of v w] append_eq_append_conv [of "to_le_bytes v" "to_le_bytes w" x y] by auto

lemma of_nat_u16_inj: "m < 65536 \<Longrightarrow> n < 65536 \<Longrightarrow> (word_of_nat m :: u16) = word_of_nat n \<longleftrightarrow> m = n"
  by (auto dest!: arg_cong [where f = unat] simp: unat_of_nat)

lemma encode_tlv_front:
  assumes "encode_tlv e @ x = encode_tlv d @ y" "entry_ok e" "entry_ok d"
  shows "e = d \<and> x = y"
  using assms by (auto simp: encode_tlv_def le_bytes_split entry_ok_def of_nat_u16_inj prod_eq_iff)

lemma encode_tlvs_front:
  assumes "concat (map encode_tlv es) @ p = concat (map encode_tlv ds) @ y" "list_all entry_ok es" "list_all entry_ok ds"
    and "length (concat (map encode_tlv es)) < length (concat (map encode_tlv ds)) \<or> y = []"
  shows "\<exists>r. ds = es @ r \<and> p = concat (map encode_tlv r) @ y"
  using assms
proof (induction es arbitrary: ds)
  case (Cons e es)
  show ?case
  proof (cases ds)
    case Nil
    then show ?thesis using Cons.prems(1,4) by (auto simp: encode_tlv_def dest!: arg_cong [where f = length])
  next
    case (Cons d ds')
    with Cons.prems encode_tlv_front [of e _ d] have "e = d"
        "concat (map encode_tlv es) @ p = concat (map encode_tlv ds') @ y" by auto
    moreover have "length (concat (map encode_tlv es)) < length (concat (map encode_tlv ds')) \<or> y = []"
      using Cons.prems(4) Cons \<open>e = d\<close> by auto
    ultimately show ?thesis using Cons.IH [of ds'] Cons.prems(2,3) Cons by auto
  qed
qed simp

section \<open>Areas\<close>

text \<open>An area that can be stored, and input that agrees with it after \<open>h\<close>.\<close>

definition storable :: "found_tlvs \<Rightarrow> tlv_area \<Rightarrow> (u16 \<times> bytes) list \<Rightarrow> bool" where
  "storable f0 a es \<longleftrightarrow> list_all entry_ok es \<and> (\<exists>g. store_all (ta_kind a) es f0 = Inr g) \<and> length (tlv_bytes (ta_expected_magic a) es) < 65536 \<and>
     (\<forall>m. ta_expected_total a = Some m \<longrightarrow> m = length (tlv_bytes (ta_expected_magic a) es))"

lemma store_all_append: "store_all k (es @ ds) f = (case store_all k es f of Inl x \<Rightarrow> Inl x | Inr g \<Rightarrow> store_all k ds g)"
  by (induction es arbitrary: f) (auto split: sum.splits)

lemma le_u16_encoded [simp]: "length hb = 2 \<Longrightarrow> to_le_bytes v = hb \<Longrightarrow> le_u16 hb = v"
  using le_u16_bytes le_bytes_inj by metis

lemma halves_of: "bs = to_le_bytes v @ to_le_bytes w @ r \<Longrightarrow> le_u16 (slice bs 0 2) = v \<and> le_u16 (slice bs 2 4) = w" for v w :: u16
  by (simp add: slice_def)

lemma length_tlv_bytes: "length (tlv_bytes magic es) = 4 + length (concat (map encode_tlv es))"
  by (simp add: tlv_bytes_def Let_def area_info_def)

lemma feed_info_follows:
  assumes at: "area_at f0 a f h" and i: "ta_info_fill a < 4" and es: "storable f0 a es"
    and agree: "h @ input @ x = tlv_bytes (ta_expected_magic a) es @ y"
  shows "\<exists>k a'. feed_info a input = (Inr k, a')"
proof -
  define m where "m = min (4 - ta_info_fill a) (length input)"
  let ?info = "put_slice (ta_info a) (ta_info_fill a) (take m input)" and ?n = "length (tlv_bytes (ta_expected_magic a) es)"
  have wf: "length (ta_info a) = 4" "h = take (ta_info_fill a) (ta_info a)" using at i by (simp_all add: area_at_def area_wf_def)
  show ?thesis
  proof (cases "ta_info_fill a + m = 4")
    case True
    have "m \<le> length input" by (simp add: m_def)
    then have "?info = h @ take m input" "length ?info = 4"
      using True wf take_put [of "ta_info_fill a" "ta_info a" "take m input"] i by (simp_all add: slice_simps)
    moreover have "4 - ta_info_fill a = m" using True by simp
    then have "take 4 (h @ input @ x) = h @ take m input" using wf i \<open>m \<le> length input\<close> by simp
    moreover have "take 4 (tlv_bytes (ta_expected_magic a) es @ y) = area_info (ta_expected_magic a) ?n"
      by (simp add: tlv_bytes_def Let_def area_info_def)
    ultimately have "?info = to_le_bytes (ta_expected_magic a) @ to_le_bytes (word_of_nat ?n :: u16) @ []" using agree by (simp add: area_info_def)
    from halves_of [OF this] have "le_u16 (slice ?info 0 2) = ta_expected_magic a" "le_u16 (slice ?info 2 4) = word_of_nat ?n" by simp_all
    moreover have "unat (word_of_nat ?n :: u16) = ?n" using es by (simp add: storable_def unat_of_nat)
    ultimately show ?thesis using True es length_tlv_bytes [of "ta_expected_magic a" es]
      by (auto simp: feed_info_def Let_def storable_def simp flip: m_def split: option.splits)
  qed (auto simp: feed_info_def Let_def simp flip: m_def)
qed

text \<open>The entry the area is in the middle of, when it is not complete.\<close>

lemma entry_ahead:
  assumes inside: "in_entries f0 a f n body" "\<not> area_complete a" and es: "storable f0 a es" "n = length (tlv_bytes (ta_expected_magic a) es)"
    and agree: "body @ input @ x = concat (map encode_tlv es) @ y"
  shows "\<exists>part e rest. begun a n part \<and> part @ input @ x = encode_tlv e @ rest \<and> entry_ok e \<and>
    length (encode_tlv e) \<le> length part + (n - ta_consumed a) \<and> (\<exists>g. store_entry (ta_kind a) (fst e) (snd e) f = Inr g)"
proof -
  from inside(1) obtain es' part where part: "body = concat (map encode_tlv es') @ part" "store_all (ta_kind a) es' f0 = Inr f" "list_all entry_ok es'"
    and begun: "begun a n part" and pos: "ta_consumed a = 4 + length body" "ta_consumed a \<le> n" "ta_total a = Some n" unfolding in_entries_def by blast
  have n: "n = 4 + length (concat (map encode_tlv es))" using es(2) length_tlv_bytes by simp
  have "4 + length body < n" using inside(2) pos by (auto simp: area_complete_def)
  then have "length (concat (map encode_tlv es')) < length (concat (map encode_tlv es)) \<or> y = []" using part(1) n by simp
  moreover have "concat (map encode_tlv es') @ part @ input @ x = concat (map encode_tlv es) @ y" using agree part(1) by simp
  ultimately obtain r where r: "es = es' @ r" "part @ input @ x = concat (map encode_tlv r) @ y"
    using encode_tlvs_front part(3) es(1) unfolding storable_def by blast
  then have "r \<noteq> []" using part(1) n \<open>4 + length body < n\<close> by auto
  then obtain e r' where e: "r = e # r'" by (cases r) auto
  have "\<exists>g. store_entry (ta_kind a) (fst e) (snd e) f = Inr g" using es(1) part(2) unfolding storable_def r(1) e by (auto simp: store_all_append split: sum.splits)
  moreover have "length (encode_tlv e) \<le> length part + (n - ta_consumed a)" using n pos(1) part(1) unfolding r(1) e by simp
  moreover have "entry_ok e" using es(1) by (simp add: storable_def r(1) e)
  moreover have "part @ input @ x = encode_tlv e @ concat (map encode_tlv r') @ y" using r(2) e by simp
  ultimately show ?thesis using begun by blast
qed

lemma finish_entry_follows:
  assumes "area_wf a" "entry_ok e" "ta_entry_type a = fst e" "ta_entry_len a = length (snd e)"
    and "fst e \<in> set collected_types \<Longrightarrow> take (length (snd e)) (ta_entry_value a) = snd e" "store_entry (ta_kind a) (fst e) (snd e) f = Inr g"
  shows "\<exists>a' f'. finish_entry a f = (Inr (), a', f')"
proof -
  let ?v = "take (min (ta_entry_len a) (length (ta_entry_value a))) (ta_entry_value a)"
  have "store_entry (ta_kind a) (fst e) ?v f = Inr g"
  proof (cases "fst e \<in> set collected_types")
    case True
    then have "?v = snd e" using assms(1-5) by (simp add: entry_ok_def area_wf_def)
    then show ?thesis using assms(6) by simp
  qed (use assms(6) in \<open>simp add: store_uncollected\<close>)
  then show ?thesis using assms(3) by (simp add: finish_entry_def Let_def)
qed

lemma feed_entry_header_follows:
  assumes wf: "area_wf a" and begun: "begun a n part" and fill: "ta_entry_header_fill a < 4"
    and e: "part @ input @ x = encode_tlv e @ rest" "entry_ok e" "length (encode_tlv e) \<le> length part + (n - ta_consumed a)"
      "store_entry (ta_kind a) (fst e) (snd e) f = Inr g"
  shows "\<exists>k a' f'. feed_entry_header n a f input = (Inr k, a', f')"
proof -
  define m where "m = min (4 - ta_entry_header_fill a) (length input)"
  let ?hb = "put_slice (ta_entry_header a) (ta_entry_header_fill a) (take m input)"
  have part: "part = take (ta_entry_header_fill a) (ta_entry_header a)" "length part = ta_entry_header_fill a"
    using begun fill wf by (simp_all add: begun_def area_wf_def)
  have enc: "length (encode_tlv e) = 4 + length (snd e)" by (simp add: encode_tlv_def)
  have room: "\<not> n - ta_consumed a < 4 - ta_entry_header_fill a" using e(3) enc part(2) by simp
  show ?thesis
  proof (cases "ta_entry_header_fill a + m = 4")
    case False
    then show ?thesis using room by (simp add: feed_entry_header_def Let_def flip: m_def)
  next
    case True
    have m: "m \<le> length input" "4 - ta_entry_header_fill a = m" using True by (simp_all add: m_def)
    have "?hb = part @ take m input" "length ?hb = 4"
      using True wf take_put [of "ta_entry_header_fill a" "ta_entry_header a" "take m input"] part m fill by (simp_all add: slice_simps area_wf_def)
    moreover have "take 4 (part @ input @ x) = part @ take m input" using part(2) m fill by simp
    moreover have "take 4 (encode_tlv e @ rest) = to_le_bytes (fst e) @ to_le_bytes (word_of_nat (length (snd e)) :: u16) @ []"
      by (simp add: encode_tlv_def)
    ultimately have "?hb = to_le_bytes (fst e) @ to_le_bytes (word_of_nat (length (snd e)) :: u16) @ []" using e(1) by simp
    from halves_of [OF this] have t: "le_u16 (slice ?hb 0 2) = fst e" "unat (le_u16 (slice ?hb 2 4)) = length (snd e)"
      using e(2) by (simp_all add: entry_ok_def unat_of_nat)
    let ?b = "a\<lparr>ta_entry_header := ?hb, ta_entry_header_fill := 4, ta_consumed := ta_consumed a + m, ta_entry_type := fst e,
              ta_entry_len := length (snd e), ta_entry_fill := 0, ta_entry_collect := fst e \<in> set collected_types\<rparr>"
    have fits: "\<not> n - (ta_consumed a + m) < length (snd e)" "\<not> (fst e \<in> set collected_types \<and> length (ta_entry_value a) < length (snd e))"
      using e(2,3) enc part(2) True wf by (auto simp: entry_ok_def area_wf_def)
    have "\<exists>a' f'. finish_entry ?b f = (Inr (), a', f')" if "length (snd e) = 0"
      using that e(2,4) wf \<open>length ?hb = 4\<close> by (intro finish_entry_follows [where e = e and g = g]) (simp_all add: area_wf_def)
    then show ?thesis using room True t fits by (auto simp: feed_entry_header_def Let_def simp flip: m_def)
  qed
qed

lemma feed_entry_value_follows:
  assumes wf: "area_wf a" and begun: "begun a n part" and fill: "\<not> ta_entry_header_fill a < 4"
    and e: "part @ input @ x = encode_tlv e @ rest" "entry_ok e" "store_entry (ta_kind a) (fst e) (snd e) f = Inr g"
  shows "\<exists>k a' f'. feed_entry_value a f input = (Inr k, a', f')"
proof -
  define m where "m = min (ta_entry_len a - ta_entry_fill a) (length input)"
  let ?val = "if ta_entry_collect a then put_slice (ta_entry_value a) (ta_entry_fill a) (take m input) else ta_entry_value a"
  let ?a = "a\<lparr>ta_entry_value := ?val, ta_entry_fill := ta_entry_fill a + m, ta_consumed := ta_consumed a + m\<rparr>"
  from begun fill obtain v where v: "part = ta_entry_header a @ v" "length v = ta_entry_fill a" "ta_entry_fill a < ta_entry_len a"
      "ta_entry_collect a \<Longrightarrow> ta_entry_len a \<le> 64 \<and> take (ta_entry_fill a) (ta_entry_value a) = v"
    and t: "ta_entry_type a = le_u16 (slice (ta_entry_header a) 0 2)" "ta_entry_len a = unat (le_u16 (slice (ta_entry_header a) 2 4))"
      "ta_entry_collect a = (ta_entry_type a \<in> set collected_types)" unfolding begun_def by auto
  have len: "length (ta_entry_header a) = 4" "length (ta_entry_value a) = 64" using wf by (simp_all add: area_wf_def)
  have split: "ta_entry_header a = to_le_bytes (fst e) @ to_le_bytes (word_of_nat (length (snd e)) :: u16) @ []" "v @ input @ x = snd e @ rest"
    using e(1) v(1) len(1) append_eq_append_conv [of "ta_entry_header a" "to_le_bytes (fst e) @ to_le_bytes (word_of_nat (length (snd e)) :: u16)"]
    by (auto simp: encode_tlv_def)
  from halves_of [OF split(1)] have e': "ta_entry_type a = fst e" "ta_entry_len a = length (snd e)"
    using e(2) t by (simp_all add: entry_ok_def unat_of_nat)
  show ?thesis
  proof (cases "ta_entry_fill a + m = ta_entry_len a")
    case False
    then show ?thesis by (simp add: feed_entry_value_def Let_def flip: m_def)
  next
    case True
    have m: "m \<le> length input" by (simp add: m_def)
    have whole: "snd e = v @ take m input"
    proof -
      have "snd e = take (length (snd e)) (v @ input @ x)" unfolding split(2) by simp
      also have "\<dots> = v @ take m input" using True e'(2) v(2) m by (simp flip: True e'(2))
      finally show ?thesis .
    qed
    have val: "take (length (snd e)) ?val = snd e" if "fst e \<in> set collected_types"
      using that t(3) e' v(2,4) True m len(2) whole take_put [of "ta_entry_fill a" "ta_entry_value a" "take m input"] by simp
    have "length ?val = 64" using len(2) v(2,4) True m by (auto simp: slice_simps)
    then have "\<exists>a' f'. finish_entry ?a f = (Inr (), a', f')"
      using e(2,3) e' wf val by (intro finish_entry_follows [where e = e and g = g]) (simp_all add: area_wf_def)
    then show ?thesis using True by (auto simp: feed_entry_value_def Let_def simp flip: m_def)
  qed
qed

lemma area_agrees:
  assumes "area_at f0 a f h" "\<not> ta_info_fill a < 4" "storable f0 a es" "h @ z = tlv_bytes (ta_expected_magic a) es @ y"
  shows "\<exists>body. h = area_info (ta_expected_magic a) (length (tlv_bytes (ta_expected_magic a) es)) @ body \<and>
    in_entries f0 a f (length (tlv_bytes (ta_expected_magic a) es)) body \<and> body @ z = concat (map encode_tlv es) @ y"
proof -
  let ?n = "length (tlv_bytes (ta_expected_magic a) es)"
  from assms(1,2) obtain n body where h: "h = area_info (ta_expected_magic a) n @ body" "n < 65536"
    and inside: "in_entries f0 a f n body" unfolding area_at_def by auto
  have "area_info (ta_expected_magic a) n @ body @ z = area_info (ta_expected_magic a) ?n @ concat (map encode_tlv es) @ y"
    using assms(4) h(1) by (simp add: tlv_bytes_def Let_def area_info_def)
  moreover have "?n < 65536" using assms(3) by (simp add: storable_def)
  ultimately have "n = ?n" "body @ z = concat (map encode_tlv es) @ y"
    using h(2) by (simp_all add: area_info_def le_bytes_split of_nat_u16_inj)
  with h(1) inside show ?thesis by blast
qed

lemma area_shorter:
  assumes "area_at f0 a f h" "\<not> area_complete a" "storable f0 a es" "h @ z = tlv_bytes (ta_expected_magic a) es @ y"
  shows "length h < length (tlv_bytes (ta_expected_magic a) es)"
proof (cases "ta_info_fill a < 4")
  case True
  then show ?thesis using assms(1) by (simp add: area_at_def length_tlv_bytes)
next
  case False
  from area_agrees [OF assms(1) False assms(3,4)] assms(2) area_consumed [OF assms(1)] show ?thesis
    by (auto simp: in_entries_def area_complete_def)
qed

lemma tlv_step_follows:
  assumes at: "area_at f0 a f h" "\<not> area_complete a" and es: "storable f0 a es"
    and agree: "h @ input @ x = tlv_bytes (ta_expected_magic a) es @ y"
  shows "\<exists>k a' f'. tlv_step a f input = (Inr k, a', f')"
proof (cases "ta_info_fill a < 4")
  case True
  with feed_info_follows [OF at(1) True es agree] show ?thesis by (auto simp: tlv_step_def)
next
  case False
  let ?n = "length (tlv_bytes (ta_expected_magic a) es)"
  from area_agrees [OF at(1) False es agree] obtain body where inside: "in_entries f0 a f ?n body"
    and rest: "body @ input @ x = concat (map encode_tlv es) @ y" by blast
  have wf: "area_wf a" using at(1) by (simp add: area_at_def)
  have tot: "ta_total a = Some ?n" using inside by (simp add: in_entries_def)
  from entry_ahead [OF inside at(2) es refl rest] obtain part e r g where e: "begun a ?n part" "part @ input @ x = encode_tlv e @ r" "entry_ok e"
    "length (encode_tlv e) \<le> length part + (?n - ta_consumed a)" "store_entry (ta_kind a) (fst e) (snd e) f = Inr g" by blast
  show ?thesis
  proof (cases "ta_entry_header_fill a < 4")
    case True
    from feed_entry_header_follows [OF wf e(1) True e(2-5)] True False tot show ?thesis by (simp add: tlv_step_def)
  next
    case fill: False
    from feed_entry_value_follows [OF wf e(1) fill e(2,3,5)] fill False tot show ?thesis by (simp add: tlv_step_def)
  qed
qed

lemma storable_same: "storable f0 a es \<Longrightarrow> same_area a b \<Longrightarrow> storable f0 b es"
  by (simp add: storable_def same_area_def)

lemma tlv_loop_follows:
  assumes "area_at f0 a f h" "storable f0 a es" "i \<le> length input" "h @ drop i input @ x = tlv_bytes (ta_expected_magic a) es @ y"
  shows "\<exists>k a' f'. tlv_loop a f input i = Some (Inr k, a', f')"
  using assms
proof (induction "length input - i" arbitrary: a f h i rule: less_induct)
  case less
  show ?case
  proof (cases "i < length input \<and> \<not> area_complete a")
    case False
    then show ?thesis by (subst tlv_loop.simps) auto
  next
    case True
    then obtain k a' f' where run: "tlv_step a f (drop i input) = (Inr k, a', f')"
      using tlv_step_follows [OF less.prems(1) _ less.prems(2,4)] by blast
    from tlv_step_at [OF less.prems(1) _ _ run] True
    have k: "area_at f0 a' f' (h @ take k (drop i input))" "0 < k" "i + k \<le> length input" "same_area a a'" by auto
    have "drop i input = take k (drop i input) @ drop (i + k) input" by (metis append_take_drop_id drop_drop add.commute)
    then have "(h @ take k (drop i input)) @ drop (i + k) input @ x = tlv_bytes (ta_expected_magic a') es @ y"
      using less.prems(4) k(4) unfolding same_area_def by (metis append_assoc)
    moreover have "length input - (i + k) < length input - i" using k(2,3) by linarith
    ultimately obtain j a'' f'' where "tlv_loop a' f' input (i + k) = Some (Inr j, a'', f'')"
      using less.hyps [OF _ k(1) storable_same [OF less.prems(2) k(4)] k(3)] by blast
    then show ?thesis using True run by (subst tlv_loop.simps) simp
  qed
qed

lemma tlv_feed_follows:
  assumes "area_at f0 a f h" "storable f0 a es" "h @ input @ x = tlv_bytes (ta_expected_magic a) es @ y"
  shows "\<exists>k a' f'. tlv_feed a f input = Some (Inr k, a', f')"
  using tlv_loop_follows [OF assms(1,2), of 0 input] assms(3) by (simp add: tlv_feed_def)

section \<open>Containers\<close>

text \<open>A container the verifier can take: the entries can be stored, and the sizes are within the limits.\<close>

definition loadable :: "image_policy \<Rightarrow> bytes \<Rightarrow> image_header \<Rightarrow> bytes \<Rightarrow> bytes \<Rightarrow> (u16 \<times> bytes) list \<Rightarrow> (u16 \<times> bytes) list \<Rightarrow> found_tlvs \<Rightarrow> bytes \<Rightarrow> bool" where
  "loadable policy hb header payload prot es rs g w \<longleftrightarrow> container hb header payload prot es rs w \<and>
     ih_image_size header \<le> max_image_size policy \<and> unat (ih_protected_tlv_size header) \<le> 64 \<and>
     list_all entry_ok es \<and> list_all entry_ok rs \<and> length (tlv_bytes TLV_INFO_MAGIC rs) < 65536 \<and>
     (\<exists>f. store_all Protected es found_default = Inr f \<and> store_all Regular rs f = Inr g)"

definition sink_takes :: "('s, 'e) payload_sink \<Rightarrow> bool" where
  "sink_takes wr \<longleftrightarrow> (\<forall>s i bs. \<exists>s'. wr s i bs = (Inr (), s'))"

lemma feed_header_follows:
  assumes ok: "settings_ok C key policy v" and before: "before_header v h"
    and load: "loadable policy hb header payload prot es rs g w" and agree: "h @ input @ x = w @ y"
  shows "\<exists>rest v'. feed_header v input = (Inr rest, v')"
proof -
  define m where "m = min (32 - sv_header_fill v) (length input)"
  let ?hb = "put_slice (sv_header_bytes v) (sv_header_fill v) (take m input)"
  have fill: "sv_header_fill v < 32" "h = take (sv_header_fill v) (sv_header_bytes v)" "length (sv_header_bytes v) = 32" "sv_policy v = policy"
    using before ok by (simp_all add: before_header_def settings_ok_def)
  have hb: "length hb = 32" "parse_image_header hb = Inr header" "w = hb @ payload @ prot @ tlv_bytes TLV_INFO_MAGIC rs"
    "ih_image_size header \<le> max_image_size policy" "unat (ih_protected_tlv_size header) \<le> 64"
    using load unfolding loadable_def container_def by blast+
  show ?thesis
  proof (cases "sv_header_fill v + m = 32")
    case False
    then show ?thesis by (simp add: feed_header_def Let_def IMAGE_HEADER_SIZE_def flip: m_def)
  next
    case True
    have m: "m \<le> length input" "32 - sv_header_fill v = m" using True by (simp_all add: m_def)
    have "?hb = h @ take m input"
      using True fill m take_put [of "sv_header_fill v" "sv_header_bytes v" "take m input"] by (simp add: slice_simps)
    also have "\<dots> = take 32 (h @ input @ x)" using fill m by simp
    also have "\<dots> = hb" using agree hb(1,3) by simp
    finally have "parse_image_header ?hb = Inr header" using hb(2) by simp
    then show ?thesis using True fill(4) hb(4,5)
      by (simp add: feed_header_def Let_def IMAGE_HEADER_SIZE_def MAX_PROTECTED_TLV_SIZE_def not_less [symmetric] flip: m_def)
  qed
qed

lemma tlv_bytes_front:
  assumes "tlv_bytes magic es @ x = tlv_bytes magic ds @ y" "list_all entry_ok es" "list_all entry_ok ds"
    and "length (tlv_bytes magic es) < 65536" "length (tlv_bytes magic ds) < 65536"
  shows "es = ds \<and> x = y"
proof -
  let ?e = "concat (map encode_tlv es)" and ?d = "concat (map encode_tlv ds)"
  have "area_info magic (4 + length ?e) @ ?e @ x = area_info magic (4 + length ?d) @ ?d @ y" using assms(1) by (simp add: tlv_bytes_def Let_def)
  moreover have "4 + length ?e < 65536" "4 + length ?d < 65536" using assms(4,5) by (simp_all add: length_tlv_bytes)
  ultimately have "length ?e = length ?d" "?e @ x = ?d @ y" by (auto simp: area_info_def le_bytes_split of_nat_u16_inj)
  then have eq: "?e = ?d" "x = y" by simp_all
  from encode_tlvs_front [of es "[]" ds "[]"] eq(1) assms(2,3) obtain r where r: "ds = es @ r" "[] = concat (map encode_tlv r) @ []" by auto
  then have "r = []" by (cases r) (auto simp: encode_tlv_def dest: arg_cong [where f = length])
  with r(1) eq(2) show ?thesis by simp
qed

text \<open>An image in progress whose bytes agree with a container.\<close>

lemma parts_agree:
  assumes at: "open_image C key policy wr s0 v s h header' pl pr rg f" and load: "loadable policy hb header payload prot es rs g w"
    and agree: "h @ input @ x = w @ y"
  shows "header' = header" "sv_header_bytes v = hb"
    "\<not> sv_payload_offset v < ih_image_size header \<Longrightarrow> pl = payload \<and> pr @ rg @ input @ x = prot @ tlv_bytes TLV_INFO_MAGIC rs @ y"
    "\<not> sv_payload_offset v < ih_image_size header \<Longrightarrow> area_done (sv_protected v) \<Longrightarrow>
      pr = prot \<and> rg @ input @ x = tlv_bytes TLV_INFO_MAGIC rs @ y \<and> store_all Protected es found_default = Inr f"
proof -
  have c: "length hb = 32" "parse_image_header hb = Inr header" "length payload = unat (ih_image_size header)" "length prot = unat (ih_protected_tlv_size header)"
      "prot = (if ih_protected_tlv_size header = 0 then [] else tlv_bytes TLV_PROTECTED_INFO_MAGIC es)" "ih_protected_tlv_size header = 0 \<longrightarrow> es = []"
      "w = hb @ payload @ prot @ tlv_bytes TLV_INFO_MAGIC rs" "list_all entry_ok es" "unat (ih_protected_tlv_size header) \<le> 64"
    using load unfolding loadable_def container_def by blast+
  have o: "header_ok policy (sv_header_bytes v) header'" "h = sv_header_bytes v @ pl @ pr @ rg" "unat (sv_payload_offset v) = length pl"
    "length pl \<le> unat (ih_image_size header')" "protected_at header' (sv_protected v) f pr"
    using at unfolding open_image_def after_header_def settings_ok_def by auto
  have "sv_header_bytes v @ (pl @ pr @ rg @ input @ x) = hb @ (payload @ prot @ tlv_bytes TLV_INFO_MAGIC rs @ y)" using agree o(2) c(7) by simp
  moreover have "length (sv_header_bytes v) = length hb" using o(1) c(1) by (simp add: header_ok_def)
  ultimately have hb: "sv_header_bytes v = hb" and rest: "pl @ pr @ rg @ input @ x = payload @ prot @ tlv_bytes TLV_INFO_MAGIC rs @ y" by simp_all
  show hdr: "header' = header" using o(1) c(2) unfolding hb header_ok_def by simp
  show "sv_header_bytes v = hb" by (rule hb)
  show full: "pl = payload \<and> pr @ rg @ input @ x = prot @ tlv_bytes TLV_INFO_MAGIC rs @ y" if "\<not> sv_payload_offset v < ih_image_size header"
    using that rest o(3,4) c(3) hdr by (simp add: word_less_nat_alt)
  show "pr = prot \<and> rg @ input @ x = tlv_bytes TLV_INFO_MAGIC rs @ y \<and> store_all Protected es found_default = Inr f"
    if "\<not> sv_payload_offset v < ih_image_size header" "area_done (sv_protected v)"
  proof (cases "sv_protected v")
    case None
    then show ?thesis using o(5) hdr full [OF that(1)] c(5,6) by (simp add: protected_at_def)
  next
    case (Some a)
    with o(5) that(2) hdr have a: "area_at found_default a f pr" "area_complete a" "4 \<le> unat (ih_protected_tlv_size header)" "ta_kind a = Protected"
      "ta_expected_magic a = TLV_PROTECTED_INFO_MAGIC" "ta_expected_total a = Some (unat (ih_protected_tlv_size header))"
      by (simp_all add: protected_at_def area_done_def)
    from area_whole [OF a(1,2)] a(4-6) obtain es' where es': "pr = tlv_bytes TLV_PROTECTED_INFO_MAGIC es'" "list_all entry_ok es'"
      "store_all Protected es' found_default = Inr f" "length pr = unat (ih_protected_tlv_size header)" by auto
    have prot: "pr = prot" "rg @ input @ x = tlv_bytes TLV_INFO_MAGIC rs @ y" using full [OF that(1)] es'(4) c(4) by simp_all
    have "prot = tlv_bytes TLV_PROTECTED_INFO_MAGIC es" using c(5) a(3) by auto
    then have "es' = es" using tlv_bytes_front [of TLV_PROTECTED_INFO_MAGIC es' "[]" es "[]"] es'(1,2,4) prot(1) c(8,9) by simp
    with es'(3) prot show ?thesis by simp
  qed
qed

lemma feed_protected_follows:
  assumes at: "open_image C key policy wr s0 v s h header' pl pr rg f" and load: "loadable policy hb header payload prot es rs g w"
    and agree: "h @ input @ x = w @ y" and ready: "\<not> sv_payload_offset v < ih_image_size header" "sv_protected v = Some a" "\<not> area_complete a"
  shows "\<exists>rest v'. feed_protected header a v input = Some (Inr rest, v')"
proof -
  note agree' = parts_agree [OF at load agree]
  let ?m = "min (unat (ih_protected_tlv_size header) - ta_consumed a) (length input)"
  have a: "4 \<le> unat (ih_protected_tlv_size header)" "area_at found_default a f pr" "ta_kind a = Protected"
      "ta_expected_magic a = TLV_PROTECTED_INFO_MAGIC" "ta_expected_total a = Some (unat (ih_protected_tlv_size header))"
    and rg: "rg = []" and found: "area_at f (sv_regular v) (sv_found v) rg"
    using at ready(2,3) agree'(1) unfolding open_image_def after_header_def protected_at_def area_done_def by auto
  have found: "sv_found v = f" using area_untouched found rg by blast
  have c: "length prot = unat (ih_protected_tlv_size header)" "prot = tlv_bytes TLV_PROTECTED_INFO_MAGIC es" "list_all entry_ok es"
      "unat (ih_protected_tlv_size header) \<le> 64" "\<exists>f. store_all Protected es found_default = Inr f"
    using load a(1) unfolding loadable_def container_def by auto
  have "storable found_default a es" using a c unfolding storable_def by auto
  moreover have "pr @ take ?m input @ (drop ?m input @ x) = tlv_bytes (ta_expected_magic a) es @ (tlv_bytes TLV_INFO_MAGIC rs @ y)"
    using agree'(3) [OF ready(1)] rg c(2) a(4) by (simp del: append_assoc add: append_assoc [symmetric])
  ultimately obtain k a' f' where "tlv_feed a f (take ?m input) = Some (Inr k, a', f')"
    using tlv_feed_follows [OF a(2)] by blast
  then show ?thesis using found by (simp add: feed_protected_def Let_def)
qed

lemma feed_regular_follows:
  assumes at: "open_image C key policy wr s0 v s h header' pl pr rg f" and load: "loadable policy hb header payload prot es rs g w"
    and agree: "h @ input @ x = w @ y" and ready: "\<not> sv_payload_offset v < ih_image_size header" "area_done (sv_protected v)" "\<not> sv_complete v" "input \<noteq> []"
  shows "\<exists>rest v'. feed_regular v input = Some (Inr rest, v')"
proof -
  note agree' = parts_agree [OF at load agree]
  let ?a = "sv_regular v"
  have a: "area_at f ?a (sv_found v) rg" "ta_kind ?a = Regular" "ta_expected_magic ?a = TLV_INFO_MAGIC" "ta_expected_total ?a = None" "\<not> area_complete ?a"
    using at ready(3) unfolding open_image_def after_header_def settings_ok_def by auto
  from load agree'(4) [OF ready(1,2)] have "storable f ?a rs" using a unfolding loadable_def storable_def by auto
  moreover have "rg @ input @ x = tlv_bytes (ta_expected_magic ?a) rs @ y" using agree'(4) [OF ready(1,2)] a(3) by simp
  ultimately obtain k a' f' where run: "tlv_feed ?a (sv_found v) input = Some (Inr k, a', f')" using tlv_feed_follows [OF a(1)] by blast
  with tlv_feed_at [OF a(1), of input] a(5) ready(4) have "0 < k" by auto
  with run show ?thesis by (simp add: feed_regular_def Let_def)
qed

lemma feed_step_follows:
  assumes at: "image_at C key policy wr s0 v s h" and more: "\<not> sv_complete v" "input \<noteq> []" and sink: "sink_takes wr"
    and load: "loadable policy hb header payload prot es rs g w" and agree: "h @ input @ x = w @ y"
  shows "\<exists>rest v' s'. feed_step wr v input s = Some (Inr rest, v', s')"
proof (cases "sv_header_fill v < 32")
  case True
  with at have "settings_ok C key policy v" "before_header v h" by (auto simp: image_at_def after_header_def)
  from feed_header_follows [OF this load agree] True show ?thesis by (auto simp: feed_step_def image_part_def IMAGE_HEADER_SIZE_def)
next
  case False
  with at obtain header' pl pr rg f where im: "open_image C key policy wr s0 v s h header' pl pr rg f"
    by (auto simp: image_at_def before_header_def open_image_def)
  note agree' = parts_agree [OF im load agree]
  have hdr: "sv_header v = Some header" using im agree'(1) by (simp add: open_image_def after_header_def)
  consider (payload) "sv_payload_offset v < ih_image_size header"
    | (protected) a where "\<not> sv_payload_offset v < ih_image_size header" "sv_protected v = Some a" "\<not> area_complete a"
    | (regular) "\<not> sv_payload_offset v < ih_image_size header" "area_done (sv_protected v)"
    by (cases "sv_protected v") (auto simp: area_done_def)
  then show ?thesis
  proof cases
    case payload
    obtain s' where "wr s (sv_payload_offset v) (take (min (unat (ih_image_size header - sv_payload_offset v)) (length input)) input) = (Inr (), s')"
      using sink unfolding sink_takes_def by blast
    then show ?thesis using payload False hdr by (simp add: feed_step_def feed_payload_def Let_def IMAGE_HEADER_SIZE_def)
  next
    case protected
    from feed_protected_follows [OF im load agree this] protected False hdr show ?thesis
      by (auto simp: feed_step_def image_part_def IMAGE_HEADER_SIZE_def)
  next
    case regular
    from feed_regular_follows [OF im load agree this more] regular False hdr show ?thesis
      by (auto simp: feed_step_def image_part_def IMAGE_HEADER_SIZE_def area_done_def split: option.splits)
  qed
qed

text \<open>While the image is not complete, less than the container has been consumed.\<close>

lemma incomplete_shorter:
  assumes at: "image_at C key policy wr s0 v s h" "\<not> sv_complete v"
    and load: "loadable policy hb header payload prot es rs g w" and agree: "h @ x = w @ y"
  shows "length h < length w"
proof (rule ccontr)
  assume "\<not> length h < length w"
  then have long: "length w \<le> length h" by simp
  have w: "w = hb @ payload @ prot @ tlv_bytes TLV_INFO_MAGIC rs" "length hb = 32" using load by (simp_all add: loadable_def container_def)
  with long have "\<not> before_header v h" by (auto simp: before_header_def)
  with at obtain header' pl pr rg f where im: "open_image C key policy wr s0 v s h header' pl pr rg f"
    by (auto simp: image_at_def open_image_def)
  have agree1: "h @ [] @ x = w @ y" using agree by simp
  note agree' = parts_agree [OF im load agree1]
  have h: "h = sv_header_bytes v @ pl @ pr @ rg" using im by (simp add: open_image_def)
  have im': "after_header wr s0 v s header pl pr rg f" "settings_ok C key policy v" using im agree'(1) by (simp_all add: open_image_def)
  have c: "length payload = unat (ih_image_size header)" "length prot = unat (ih_protected_tlv_size header)"
    using load unfolding loadable_def container_def by blast+
  consider (payload) "sv_payload_offset v < ih_image_size header"
    | (protected) a where "\<not> sv_payload_offset v < ih_image_size header" "sv_protected v = Some a" "\<not> area_complete a"
    | (regular) "\<not> sv_payload_offset v < ih_image_size header" "area_done (sv_protected v)"
    by (cases "sv_protected v") (auto simp: area_done_def)
  then show False
  proof cases
    case payload
    then have "pr = []" "rg = []" "length pl < length payload" using im'(1) c(1) by (auto simp: after_header_def word_less_nat_alt)
    then show False using long h w agree'(2) by simp
  next
    case protected
    then have "rg = []" "area_at found_default a f pr" "ta_expected_total a = Some (length prot)" "4 \<le> length prot"
      using im'(1) c(2) by (auto simp: after_header_def protected_at_def area_done_def)
    with area_unfinished protected(3) have "length pr < length prot" by blast
    then show False using long h w agree'(2,3) protected(1) \<open>rg = []\<close> by (simp add: length_tlv_bytes)
  next
    case regular
    have a: "area_at f (sv_regular v) (sv_found v) rg" "\<not> area_complete (sv_regular v)" "ta_expected_magic (sv_regular v) = TLV_INFO_MAGIC"
      using im' at(2) by (simp_all add: after_header_def settings_ok_def)
    have "storable f (sv_regular v) rs" using load agree'(4) [OF regular] im'(2) unfolding loadable_def storable_def settings_ok_def by auto
    moreover have "rg @ x = tlv_bytes (ta_expected_magic (sv_regular v)) rs @ y" using agree'(4) [OF regular] a(3) by simp
    ultimately have "length rg < length (tlv_bytes TLV_INFO_MAGIC rs)" using area_shorter [OF a(1,2)] a(3) by metis
    then show False using long h w agree'(2) agree'(3) [OF regular(1)] agree'(4) [OF regular] by simp
  qed
qed

section \<open>Feeding a container\<close>

lemma complete_whole:
  assumes at: "image_at C key policy wr s0 v s h" "sv_complete v" and load: "loadable policy hb header payload prot es rs g w" and agree: "h @ z = w @ y"
  shows "z = y" "h = w" "sv_found v = g" "sv_header v = Some header" "sv_header_bytes v = hb" "sv_hasher v = hb @ payload @ prot"
    "written wr s0 payload s" "take (length prot) (sv_protected_bytes v) = prot" "settings_ok C key policy v"
proof -
  from at obtain header' pl pr rg f where im: "open_image C key policy wr s0 v s h header' pl pr rg f"
    by (auto simp: image_at_def before_header_def open_image_def)
  have agree1: "h @ [] @ z = w @ y" using agree by simp
  note agree' = parts_agree [OF im load agree1]
  have im': "after_header wr s0 v s header pl pr rg f" "settings_ok C key policy v" "h = sv_header_bytes v @ pl @ pr @ rg"
    using im agree'(1) by (simp_all add: open_image_def)
  have reg: "area_at f (sv_regular v) (sv_found v) rg" "area_complete (sv_regular v)" using im'(1) at(2) by (simp_all add: after_header_def)
  then have "rg \<noteq> []" using area_untouched_open by blast
  then have full: "\<not> sv_payload_offset v < ih_image_size header" "area_done (sv_protected v)" using im'(1) by (auto simp: after_header_def word_less_nat_alt)
  from area_whole [OF reg] im'(2) obtain rs' where rs': "rg = tlv_bytes TLV_INFO_MAGIC rs'" "list_all entry_ok rs'" "store_all Regular rs' f = Inr (sv_found v)"
    "length rg < 65536" by (auto simp: settings_ok_def)
  have l: "list_all entry_ok rs" "length (tlv_bytes TLV_INFO_MAGIC rs) < 65536" "\<exists>f. store_all Protected es found_default = Inr f \<and> store_all Regular rs f = Inr g"
      "w = hb @ payload @ prot @ tlv_bytes TLV_INFO_MAGIC rs"
    using load unfolding loadable_def container_def by blast+
  have "tlv_bytes TLV_INFO_MAGIC rs' @ z = tlv_bytes TLV_INFO_MAGIC rs @ y" using agree'(4) [OF full] rs'(1) by simp
  from tlv_bytes_front [OF this rs'(2) l(1) _ l(2)] rs'(1,4) have rs: "rs' = rs" "z = y" by simp_all
  show "z = y" by (rule rs(2))
  show "h = w" using agree rs(2) by simp
  show "sv_found v = g" using l(3) agree'(4) [OF full] rs'(3) rs(1) by auto
  show "sv_header_bytes v = hb" by (rule agree'(2))
  show "sv_header v = Some header" "sv_hasher v = hb @ payload @ prot" "written wr s0 payload s" "take (length prot) (sv_protected_bytes v) = prot" "settings_ok C key policy v"
    using im'(1,2) agree'(2) agree'(3) [OF full(1)] agree'(4) [OF full] by (auto simp: after_header_def)
qed

lemma verifier_feed_follows:
  assumes "image_at C key policy wr s0 v s h" "h @ input @ x = w @ y"
    and sink: "sink_takes wr" and load: "loadable policy hb header payload prot es rs g w" and pad: "\<forall>b\<in>set y. b = 0x1a"
  shows "\<exists>v' s'. verifier_feed wr v input s = Some (Inr (), v', s')"
  using assms(1,2)
proof (induction "length input" arbitrary: v s h input rule: less_induct)
  case less
  consider "input = []" | "input \<noteq> []" "sv_complete v" | "input \<noteq> []" "\<not> sv_complete v" by blast
  then show ?case
  proof cases
    case 2
    from complete_whole(1) [OF less.prems(1) 2(2) load less.prems(2)] pad have "\<forall>b\<in>set input. b = 0x1a" by auto
    then show ?thesis using 2 by (subst verifier_feed.simps) (auto simp: list_ex_iff)
  next
    case 3
    from feed_step_follows [OF less.prems(1) 3(2,1) sink load less.prems(2)] obtain rest v' s' where
      run: "feed_step wr v input s = Some (Inr rest, v', s')" by blast
    with feed_step_at [OF less.prems(1) 3(2,1)] have "goes_on C key policy wr s0 h input rest v' s'" by auto
    then obtain k where k: "0 < k" "k \<le> length input" "rest = drop k input" "image_at C key policy wr s0 v' s' (h @ take k input)"
      unfolding goes_on_def by blast
    have "length rest < length input" using k by simp
    moreover have "(h @ take k input) @ rest @ x = w @ y" using less.prems(2) k(3) by (metis append.assoc append_take_drop_id)
    ultimately show ?thesis using less.hyps [OF _ k(4)] run 3 by (subst verifier_feed.simps) simp
  qed (subst verifier_feed.simps, simp)
qed

lemma fed_follows:
  assumes "fed C key policy wr s0 v s h" "h @ input @ x = w @ y"
    and sink: "sink_takes wr" and load: "loadable policy hb header payload prot es rs g w" and pad: "\<forall>b\<in>set y. b = 0x1a"
  shows "\<exists>v' s'. verifier_feed wr v input s = Some (Inr (), v', s')"
proof -
  from assms(1) obtain c padding where h: "h = c @ padding" "image_at C key policy wr s0 v s c" "padding \<noteq> [] \<longrightarrow> sv_complete v" unfolding fed_def by blast
  show ?thesis
  proof (cases "padding = []")
    case True
    then show ?thesis using verifier_feed_follows [OF h(2) _ sink load pad] h(1) assms(2) by auto
  next
    case False
    then have full: "sv_complete v" using h(3) by blast
    have "c @ (padding @ input @ x) = w @ y" using assms(2) h(1) by simp
    from complete_whole(1) [OF h(2) full load this] pad have "\<forall>b\<in>set input. b = 0x1a" by auto
    then show ?thesis using full by (subst verifier_feed.simps) (auto simp: list_ex_iff)
  qed
qed

lemma feed_all_follows:
  assumes "fed C key policy wr s0 v s h" "h @ concat cs = w @ y"
    and sink: "sink_takes wr" and load: "loadable policy hb header payload prot es rs g w" and pad: "\<forall>b\<in>set y. b = 0x1a"
  shows "\<exists>v' s'. feed_all wr v cs s = Some (Inr (), v', s') \<and> fed C key policy wr s0 v' s' (w @ y)"
  using assms(1,2)
proof (induction cs arbitrary: v s h)
  case (Cons c cs)
  from fed_follows [OF Cons.prems(1) _ sink load pad, of c "concat cs"] Cons.prems(2) obtain v' s' where
    run: "verifier_feed wr v c s = Some (Inr (), v', s')" by auto
  with fed_more [OF Cons.prems(1), of c] have "fed C key policy wr s0 v' s' (h @ c)" by auto
  from Cons.IH [OF this] Cons.prems(2) run show ?case by simp
qed simp

end
