(* ===== verification/Mcuboot_Firmware.thy ===== *)
theory Mcuboot_Firmware
  imports Mcuboot_Complete
begin

text \<open>
  The properties of the firmware verifier (\<open>microtun-mcuboot/src/lib.rs\<close>): what it accepts, that it
  accepts what is signed, and what the read-back check of the slot says.
\<close>

section \<open>Reading back\<close>

definition round_up :: "nat \<Rightarrow> nat \<Rightarrow> nat" where "round_up n r = (n + r - 1) div r * r"

lemma chunk_size:
  assumes "0 < r" "r \<le> 256"
  shows "0 < READ_BACK_CHUNK div r * r" "r dvd READ_BACK_CHUNK div r * r"
proof -
  have "0 < READ_BACK_CHUNK div r" using assms by (simp add: READ_BACK_CHUNK_def div_greater_zero_iff)
  then show "0 < READ_BACK_CHUNK div r * r" using assms(1) by simp
qed simp

lemma rest_size: "off < img_size \<Longrightarrow> unat (img_size - off) = unat img_size - unat off" for off img_size :: u32
  by (simp add: unat_sub)

lemma next_offset:
  fixes off img_size :: u32
  assumes "off < img_size" "n \<le> unat (img_size - off)"
  shows "unat (off + word_of_nat n) = unat off + n" "unat off + n \<le> unat img_size"
proof -
  have "unat (img_size - off) = unat img_size - unat off" "unat off < unat img_size" using assms(1) by (simp_all add: rest_size word_less_nat_alt [symmetric])
  then show le: "unat off + n \<le> unat img_size" using assms(2) by simp
  then have "unat off + n < 2 ^ 32" using unsigned_less [of img_size, where 'a = nat] by simp
  then show "unat (off + word_of_nat n) = unat off + n" by (simp add: unat_word_ariths unat_of_nat)
qed

lemma read_back_returns:
  assumes "0 < chunk"
  shows "\<exists>r. read_back rd read_size chunk img_size off hasher s = Some r"
proof (induction "unat img_size - unat off" arbitrary: off hasher s rule: less_induct)
  case less
  show ?case
  proof (cases "off < img_size")
    case False
    then show ?thesis by (subst read_back.simps) simp
  next
    case True
    let ?n = "min (unat (img_size - off)) chunk"
    have pos: "0 < ?n" using True assms rest_size [OF True] by (simp add: word_less_nat_alt)
    have "unat img_size - unat (off + word_of_nat ?n) < unat img_size - unat off"
      unfolding next_offset(1) [OF True min.cobounded1] using pos True [unfolded word_less_nat_alt] by linarith
    from less.hyps [OF this] True show ?thesis by (subst read_back.simps) (auto simp: Let_def split: prod.splits sum.splits)
  qed
qed

text \<open>A flash whose slot holds \<open>slot\<close>.\<close>

definition slot_reads :: "('s \<Rightarrow> u32 \<Rightarrow> usize \<Rightarrow> ('e + bytes) \<times> 's) \<Rightarrow> bytes \<Rightarrow> bool" where
  "slot_reads rd slot \<longleftrightarrow> (\<forall>s off n. unat off + n \<le> length slot \<longrightarrow> rd s off n = (Inr (slice slot (unat off) (unat off + n)), s))"

lemma round_up_ge: "0 < r \<Longrightarrow> n \<le> round_up n r"
  unfolding round_up_def using div_mult_mod_eq [of "n + r - 1" r] mod_less_divisor [of r "n + r - 1"] by linarith

lemma round_up_rest:
  assumes "r dvd k" "k \<le> n" "0 < r"
  shows "k + round_up (n - k) r = round_up n r"
proof -
  from assms(1) obtain q where q: "k = q * r" by (auto simp: dvd_def mult.commute)
  have "n + r - 1 = q * r + (n - k + r - 1)" using assms(2,3) q by simp
  then have "(n + r - 1) div r = q + (n - k + r - 1) div r" using assms(3) by (simp only: div_mult_self3)
  then show ?thesis by (simp add: round_up_def q algebra_simps)
qed

lemma round_up_mult: "r dvd n \<Longrightarrow> 0 < r \<Longrightarrow> round_up n r = n"
  using round_up_rest [of r n n] by (simp add: round_up_def)

lemma read_back_slot:
  assumes reads: "slot_reads rd slot" and r: "0 < r" "0 < chunk" "r dvd chunk" and room: "round_up (unat img_size) r \<le> length slot"
    and "r dvd unat off \<or> unat off = unat img_size" "unat off \<le> unat img_size"
  shows "read_back rd r chunk img_size off hasher s = Some (Inr (hasher @ slice slot (unat off) (unat img_size)), s)"
  using assms(6,7)
proof (induction "unat img_size - unat off" arbitrary: off hasher rule: less_induct)
  case less
  show ?case
  proof (cases "off < img_size")
    case False
    then have "unat off = unat img_size" using less.prems by (simp add: word_less_nat_alt)
    then show ?thesis using False by (subst read_back.simps) (simp add: slice_def)
  next
    case True
    let ?n = "min (unat (img_size - off)) chunk"
    have off: "r dvd unat off" "unat off < unat img_size" "unat (img_size - off) = unat img_size - unat off"
      using True less.prems rest_size [OF True] by (auto simp: word_less_nat_alt)
    have n: "0 < ?n" "?n \<le> unat (img_size - off)" using off r(2) by auto
    note next_off = next_offset [OF True n(2)]
    have step: "r dvd unat off + ?n \<or> unat off + ?n = unat img_size" using off r(3) next_off(2) by (auto simp: min_def)
    have "unat off + round_up ?n r \<le> round_up (unat img_size) r"
    proof (cases "?n = chunk")
      case True
      then have "round_up ?n r = ?n" using round_up_mult [OF r(3,1)] by metis
      then show ?thesis using next_off(2) round_up_ge [OF r(1), of "unat img_size"] by linarith
    next
      case False
      then have "?n = unat img_size - unat off" using off(3) by (simp add: min_def split: if_splits)
      then show ?thesis using round_up_rest [OF off(1) _ r(1), of "unat img_size"] off(2) by simp
    qed
    then have read: "rd s off (round_up ?n r) = (Inr (slice slot (unat off) (unat off + round_up ?n r)), s)"
      using reads room by (simp add: slot_reads_def)
    have taken: "take ?n (slice slot (unat off) (unat off + round_up ?n r)) = slice slot (unat off) (unat off + ?n)"
      using round_up_ge [OF r(1), of ?n] by (simp add: slice_def min_def)
    have joined: "slice slot (unat off) (unat off + ?n) @ slice slot (unat off + ?n) (unat img_size) = slice slot (unat off) (unat img_size)"
      using next_off(2) take_add [of ?n "unat img_size - (unat off + ?n)" "drop (unat off) slot"] by (simp add: slice_def add.commute)
    have "unat img_size - (unat off + ?n) < unat img_size - unat off" using n(1) off(2) by linarith
    have "read_back rd r chunk img_size (off + word_of_nat ?n) (hasher @ slice slot (unat off) (unat off + ?n)) s =
        Some (Inr ((hasher @ slice slot (unat off) (unat off + ?n)) @ slice slot (unat off + ?n) (unat img_size)), s)"
      using less.hyps [of "off + word_of_nat ?n"] step next_off \<open>unat img_size - (unat off + ?n) < unat img_size - unat off\<close> by simp
    then show ?thesis using True read taken joined
      by (subst read_back.simps) (simp add: Let_def round_up_def)
  qed
qed

lemma verify_stored_returns: "\<exists>r. verify_stored_image C READ_SIZE rd img s = Some r"
proof (cases "max READ_SIZE 1 \<le> READ_BACK_CHUNK")
  case True
  have "0 < READ_BACK_CHUNK div max READ_SIZE 1 * max READ_SIZE 1" using chunk_size(1) [of "max READ_SIZE 1"] True by (simp add: READ_BACK_CHUNK_def)
  then obtain x t where "read_back rd (max READ_SIZE 1) (READ_BACK_CHUNK div max READ_SIZE 1 * max READ_SIZE 1)
      (ih_image_size (vi_header img)) 0 (vi_header_bytes img) s = Some (x, t)"
    using read_back_returns by (metis prod.collapse)
  then show ?thesis using True by (cases x) (simp_all add: verify_stored_image_def Let_def)
qed (auto simp: verify_stored_image_def Let_def not_le)

lemma verify_stored_slot:
  assumes "slot_reads rd slot" "max READ_SIZE 1 \<le> 256" "round_up (unat (ih_image_size (vi_header img))) (max READ_SIZE 1) \<le> length slot"
  shows "verify_stored_image C READ_SIZE rd img s =
    Some (if sha256 C (vi_header_bytes img @ take (unat (ih_image_size (vi_header img))) slot @ protected_tlv img) = vi_digest img
          then Inr () else Inl (SiImage StoredImageInvalid), s)"
proof -
  let ?r = "max READ_SIZE 1"
  have r: "0 < ?r" by simp
  from read_back_slot [OF assms(1) r chunk_size [OF r assms(2)] assms(3), of 0]
  have "read_back rd ?r (READ_BACK_CHUNK div ?r * ?r) (ih_image_size (vi_header img)) 0 (vi_header_bytes img) s =
      Some (Inr (vi_header_bytes img @ take (unat (ih_image_size (vi_header img))) slot), s)" by (simp add: slice_def)
  then show ?thesis using assms(2) by (simp add: verify_stored_image_def Let_def READ_BACK_CHUNK_def)
qed

section \<open>Signed containers\<close>

text \<open>
  A container signed under \<open>key\<close> for the policy: its areas can be stored, giving \<open>g\<close>, and what they store is the digest
  of header, payload and protected area, the hash of the key, a valid signature of the digest and the expected identity.
\<close>

definition signed_container ::
  "image_crypto \<Rightarrow> bytes \<Rightarrow> image_policy \<Rightarrow> bytes \<Rightarrow> image_header \<Rightarrow> bytes \<Rightarrow> bytes \<Rightarrow> (u16 \<times> bytes) list \<Rightarrow> (u16 \<times> bytes) list \<Rightarrow> found_tlvs \<Rightarrow> bytes \<Rightarrow> bool" where
  "signed_container C key policy hb header payload prot es rs g w \<longleftrightarrow>
     loadable policy hb header payload prot es rs g w \<and> \<not> ft_pure_signature g \<and>
     ft_sha256 g = Some (sha256 C (hb @ payload @ prot)) \<and> ft_key_hash g = Some (sha256 C (ED25519_SPKI_PREFIX @ key)) \<and>
     (\<exists>sig. ft_signature g = Some sig \<and> verify_strict C key (sha256 C (hb @ payload @ prot)) sig) \<and>
     ft_cid g = Some (expected_cid policy) \<and> (\<forall>vid. expected_vid policy = Some vid \<longrightarrow> ft_vid g = Some vid) \<and>
     \<not> semver_is_older_than (ih_version header) (min_version policy)"

lemma finish_signed:
  assumes "signed_container C key policy hb header payload prot es rs g w" "sv_complete v" "sv_found v = g" "sv_header v = Some header"
    "sv_header_bytes v = hb" "sv_hasher v = hb @ payload @ prot" "take (length prot) (sv_protected_bytes v) = prot" "settings_ok C key policy v"
  shows "\<exists>img. finish C v = Inr img \<and> vi_header img = header \<and> vi_header_bytes img = hb \<and> protected_tlv img = prot \<and> vi_digest img = sha256 C (hb @ payload @ prot)"
proof -
  have "length prot = unat (ih_protected_tlv_size header)" using assms(1) unfolding signed_container_def loadable_def container_def by blast
  moreover have "check_identity policy g = Inr (expected_cid policy)"
    using assms(1) by (auto simp: signed_container_def check_identity_def split: option.splits)
  ultimately show ?thesis
    using assms unfolding signed_container_def settings_ok_def by (auto simp: finish_def Let_def protected_tlv_def)
qed

lemma fed_signed:
  assumes "fed C key policy wr s0 v s (w @ y)" "signed_container C key policy hb header payload prot es rs g w"
  shows "\<exists>img. finish C v = Inr img \<and> vi_header img = header \<and> vi_header_bytes img = hb \<and> protected_tlv img = prot \<and>
    vi_digest img = sha256 C (hb @ payload @ prot) \<and> written wr s0 payload s"
proof -
  have load: "loadable policy hb header payload prot es rs g w" using assms(2) by (simp add: signed_container_def)
  from assms(1) obtain h padding where h: "w @ y = h @ padding" "image_at C key policy wr s0 v s h" "padding \<noteq> [] \<longrightarrow> sv_complete v" unfolding fed_def by blast
  have full: "sv_complete v"
  proof (rule ccontr)
    assume open_im: "\<not> sv_complete v"
    with h(3) have "padding = []" by blast
    with incomplete_shorter [OF h(2) open_im load h(1) [symmetric]] h(1) show False by (auto dest: arg_cong [where f = length])
  qed
  note whole = complete_whole [OF h(2) full load h(1) [symmetric]]
  from finish_signed [OF assms(2) full whole(3-6,8,9)] whole(7) show ?thesis by blast
qed

section \<open>Properties\<close>

text \<open>
  C16: the verifier never hangs and accepts only what is signed. For every key and policy, every sequence of chunks and
  every sink, feeding returns. If no chunk was refused and \<open>finish\<close> accepts, then the bytes fed are a container
  followed by padding of 0x1a; the digest of header, payload and protected area is the digest listed in the
  container, and a signature listed there verifies it under the given key; the header passed its checks, the image
  is within the size limit, its component and vendor identity stand in the signed protected area and are the
  expected ones, its version is not older than the minimum; and exactly the payload went to the
  sink, in order, from offset 0.
\<close>

theorem firmware_accepted_only_if_signed:
  assumes "verifier_new C key policy = Inr v0"
  shows "\<exists>r v s. feed_all wr v0 chunks s0 = Some (r, v, s) \<and>
    (\<forall>img. r = Inr () \<longrightarrow> finish C v = Inr img \<longrightarrow>
       (\<exists>payload w padding. concat chunks = w @ padding \<and> (\<forall>b\<in>set padding. b = 0x1a) \<and> accepted C key policy img payload w \<and>
          written wr s0 payload s \<and> unat (vi_container_size img) = min (length w) (2 ^ 32 - 1)))"
proof -
  have "fed C key policy wr s0 v0 s0 []" using fedI [OF image_at_new [OF assms], of "[]"] by simp
  from feed_all_at [OF this, of chunks] obtain r v s where run: "feed_all wr v0 chunks s0 = Some (r, v, s)"
    and done': "r = Inr () \<Longrightarrow> fed C key policy wr s0 v s (concat chunks)" by auto
  have "\<exists>payload w padding. concat chunks = w @ padding \<and> (\<forall>b\<in>set padding. b = 0x1a) \<and> accepted C key policy img payload w \<and>
      written wr s0 payload s \<and> unat (vi_container_size img) = min (length w) (2 ^ 32 - 1)"
    if "r = Inr ()" "finish C v = Inr img" for img
  proof -
    from done' [OF that(1)] obtain h padding where h: "concat chunks = h @ padding" "image_at C key policy wr s0 v s h" "\<forall>b\<in>set padding. b = 0x1a"
      unfolding fed_def by blast
    from finish_accepted [OF h(2) that(2)] h(1,3) show ?thesis by blast
  qed
  with run show ?thesis by blast
qed

text \<open>
  C22: signed firmware is accepted. A container signed under the key, with an identity and a version the policy
  allows, is accepted however it is cut into chunks, with or without padding behind it, when the
  sink takes the writes; the verified image holds its header, its protected area and its digest, and the sink its payload.
\<close>

theorem signed_firmware_accepted:
  assumes "verifier_new C key policy = Inr v0" "signed_container C key policy hb header payload prot es rs g w"
    and "sink_takes wr" "concat chunks = w @ padding" "\<forall>b\<in>set padding. b = 0x1a"
  shows "\<exists>v s img. feed_all wr v0 chunks s0 = Some (Inr (), v, s) \<and> finish C v = Inr img \<and> written wr s0 payload s \<and>
    vi_header img = header \<and> vi_header_bytes img = hb \<and> protected_tlv img = prot \<and> vi_digest img = sha256 C (hb @ payload @ prot)"
proof -
  have load: "loadable policy hb header payload prot es rs g w" using assms(2) by (simp add: signed_container_def)
  have "fed C key policy wr s0 v0 s0 []" using fedI [OF image_at_new [OF assms(1)], of "[]"] by simp
  from feed_all_follows [OF this _ assms(3) load assms(5), of chunks] assms(4) obtain v s where
    run: "feed_all wr v0 chunks s0 = Some (Inr (), v, s)" "fed C key policy wr s0 v s (w @ padding)" by auto
  from fed_signed [OF run(2) assms(2)] run(1) show ?thesis by blast
qed

text \<open>
  C23: the check of the written slot is exact. It returns for every flash. If the flash reads what the slot holds,
  can be read in units of at most 256 bytes, and the slot has room for whole units, then for an accepted image
  the check succeeds exactly if the first bytes of the slot, as many as the payload has, hash
  between the retained header and protected area to the same digest as the payload that was signed.
\<close>

theorem stored_firmware_check_exact:
  assumes "accepted C key policy img payload w"
  shows "(\<exists>r. verify_stored_image C READ_SIZE rd img s = Some r) \<and>
    (slot_reads rd slot \<and> max READ_SIZE 1 \<le> 256 \<and> round_up (length payload) (max READ_SIZE 1) \<le> length slot \<longrightarrow>
       verify_stored_image C READ_SIZE rd img s =
         Some (if sha256 C (vi_header_bytes img @ take (length payload) slot @ protected_tlv img) =
                 sha256 C (vi_header_bytes img @ payload @ protected_tlv img)
               then Inr () else Inl (SiImage StoredImageInvalid), s))"
proof -
  have "length payload = unat (ih_image_size (vi_header img))" "vi_digest img = sha256 C (vi_header_bytes img @ payload @ protected_tlv img)"
    using assms unfolding accepted_def container_def by blast+
  then show ?thesis using verify_stored_returns [of C READ_SIZE rd img s] verify_stored_slot [of rd slot READ_SIZE img C s] by simp
qed

section \<open>An example\<close>

text \<open>A four-byte firmware signed under a key of zeros, with a digest and a signature scheme made up for the example.\<close>

definition demo_image_crypto :: image_crypto where
  "demo_image_crypto = \<lparr>sha256 = (\<lambda>bs. take 32 (rev bs @ replicate 32 0)), key_valid = (\<lambda>k. length k = 32), verify_strict = (\<lambda>k d s. s = d @ k)\<rparr>"

definition demo_image_key :: bytes where "demo_image_key = replicate 32 0"

definition demo_image_policy :: image_policy where
  "demo_image_policy = from_raw_cid (replicate 16 0x42) 1024 \<lparr>iv_major = 1, iv_minor = 2, iv_revision = 3, iv_build = 9\<rparr>"

definition demo_image_header :: bytes where
  "demo_image_header = [0x3d, 0xb8, 0xf3, 0x96, 0, 0, 0, 0, 32, 0, 24, 0, 4, 0, 0, 0, 0, 0, 0, 0, 1, 2, 3, 0, 4, 0, 0, 0, 0, 0, 0, 0]"

definition demo_payload :: bytes where "demo_payload = [0xe9, 1, 2, 3]"

definition demo_protected :: "(u16 \<times> bytes) list" where "demo_protected = [(TLV_UUID_CID, replicate 16 0x42)]"

definition demo_digest :: bytes where
  "demo_digest = sha256 demo_image_crypto (demo_image_header @ demo_payload @ tlv_bytes TLV_PROTECTED_INFO_MAGIC demo_protected)"

definition demo_regular :: "(u16 \<times> bytes) list" where
  "demo_regular = [(TLV_SHA256, demo_digest), (TLV_KEYHASH, sha256 demo_image_crypto (ED25519_SPKI_PREFIX @ demo_image_key)),
     (TLV_ED25519, demo_digest @ demo_image_key)]"

definition demo_container :: bytes where
  "demo_container = demo_image_header @ demo_payload @ tlv_bytes TLV_PROTECTED_INFO_MAGIC demo_protected @ tlv_bytes TLV_INFO_MAGIC demo_regular"

text \<open>A sink that appends.\<close>

definition append_sink :: "(bytes, unit) payload_sink" where
  "append_sink s off bs = (Inr (), s @ bs)"

definition demo_parsed :: image_header where
  "demo_parsed = \<lparr>ih_load_address = 0, ih_header_size = 32, ih_protected_tlv_size = 24, ih_image_size = 4, ih_flags = 0,
     ih_version = \<lparr>iv_major = 1, iv_minor = 2, iv_revision = 3, iv_build = 4\<rparr>\<rparr>"

definition demo_found :: found_tlvs where
  "demo_found = \<lparr>ft_key_hash = Some (sha256 demo_image_crypto (ED25519_SPKI_PREFIX @ demo_image_key)), ft_sha256 = Some demo_digest,
     ft_signature = Some (demo_digest @ demo_image_key), ft_vid = None, ft_cid = Some (replicate 16 0x42), ft_pure_signature = False\<rparr>"

lemma demo_parse: "parse_image_header demo_image_header = Inr demo_parsed"
  by (simp add: parse_image_header_def demo_image_header_def demo_parsed_def Let_def slice_def le_u32_def le_u16_def from_le_bytes_def
      IMAGE_MAGIC_def IMAGE_HEADER_SIZE_def word_less_nat_alt)

lemma demo_lengths: "length demo_digest = 32" "length (sha256 demo_image_crypto x) = 32" "length demo_image_key = 32" "length demo_image_header = 32"
  "length (tlv_bytes TLV_PROTECTED_INFO_MAGIC demo_protected) = 24" "length demo_payload = 4"
  by (simp_all add: demo_digest_def demo_image_crypto_def demo_image_key_def demo_image_header_def length_tlv_bytes demo_protected_def encode_tlv_def demo_payload_def)

lemma demo_signed:
  "signed_container demo_image_crypto demo_image_key demo_image_policy demo_image_header demo_parsed demo_payload
     (tlv_bytes TLV_PROTECTED_INFO_MAGIC demo_protected) demo_protected demo_regular demo_found demo_container"
proof -
  have "store_all Protected demo_protected found_default = Inr (found_default\<lparr>ft_cid := Some (replicate 16 0x42)\<rparr>)"
    by (simp add: demo_protected_def store_entry_def tlv_types set_once_array_def found_default_def)
  moreover have "store_all Regular demo_regular (found_default\<lparr>ft_cid := Some (replicate 16 0x42)\<rparr>) = Inr demo_found"
    by (simp add: demo_regular_def store_entry_def tlv_types set_once_array_def found_default_def demo_lengths demo_found_def)
  moreover have "list_all entry_ok demo_protected" "list_all entry_ok demo_regular"
    by (simp_all add: demo_protected_def demo_regular_def entry_ok_def demo_lengths)
  moreover have "container demo_image_header demo_parsed demo_payload (tlv_bytes TLV_PROTECTED_INFO_MAGIC demo_protected) demo_protected demo_regular demo_container"
    by (simp add: container_def demo_parse demo_lengths demo_container_def) (simp add: demo_parsed_def)
  moreover have "length (tlv_bytes TLV_INFO_MAGIC demo_regular) < 65536"
    by (simp add: length_tlv_bytes demo_regular_def encode_tlv_def demo_lengths)
  ultimately have "loadable demo_image_policy demo_image_header demo_parsed demo_payload (tlv_bytes TLV_PROTECTED_INFO_MAGIC demo_protected)
      demo_protected demo_regular demo_found demo_container"
    unfolding loadable_def by (simp add: demo_image_policy_def demo_parsed_def from_raw_cid_def)
  then show ?thesis
    by (simp add: signed_container_def demo_found_def demo_digest_def demo_image_crypto_def demo_image_policy_def from_raw_cid_def demo_parsed_def
        semver_is_older_than_def)
qed

lemma demo_verifier: "\<exists>v0. verifier_new demo_image_crypto demo_image_key demo_image_policy = Inr v0"
  by (simp add: verifier_new_def demo_image_crypto_def demo_image_key_def)

lemma append_sink_takes: "sink_takes append_sink"
  by (simp add: sink_takes_def append_sink_def)

theorem signed_firmware_accepted_witness:
  "\<exists>v0 v s img. verifier_new demo_image_crypto demo_image_key demo_image_policy = Inr v0 \<and>
     feed_all append_sink v0 [take 7 demo_container, drop 7 demo_container, [0x1a, 0x1a]] [] = Some (Inr (), v, s) \<and>
     finish demo_image_crypto v = Inr img \<and> vi_header img = demo_parsed"
proof -
  obtain v0 where v0: "verifier_new demo_image_crypto demo_image_key demo_image_policy = Inr v0" using demo_verifier by blast
  from signed_firmware_accepted [OF v0 demo_signed append_sink_takes,
      where chunks = "[take 7 demo_container, drop 7 demo_container, [0x1a, 0x1a]]" and padding = "[0x1a, 0x1a]" and ?s0.0 = "[]"]
  show ?thesis using v0 by auto
qed

lemma demo_accepts:
  "\<exists>v0 v s img. verifier_new demo_image_crypto demo_image_key demo_image_policy = Inr v0 \<and>
     feed_all append_sink v0 [demo_container] [] = Some (Inr (), v, s) \<and> finish demo_image_crypto v = Inr img"
proof -
  obtain v0 where v0: "verifier_new demo_image_crypto demo_image_key demo_image_policy = Inr v0" using demo_verifier by blast
  have "fed demo_image_crypto demo_image_key demo_image_policy append_sink [] v0 [] []" using fedI [OF image_at_new [OF v0], of "[]"] by simp
  moreover have "loadable demo_image_policy demo_image_header demo_parsed demo_payload (tlv_bytes TLV_PROTECTED_INFO_MAGIC demo_protected)
      demo_protected demo_regular demo_found demo_container" using demo_signed by (simp add: signed_container_def)
  from feed_all_follows [OF calculation _ append_sink_takes this, of "[demo_container]" "[]"]
  obtain v s where run: "feed_all append_sink v0 [demo_container] [] = Some (Inr (), v, s)"
      "fed demo_image_crypto demo_image_key demo_image_policy append_sink [] v s (demo_container @ [])" by (auto simp del: feed_all.simps)
  from fed_signed [OF run(2) demo_signed] run(1) v0 show ?thesis by blast
qed

theorem firmware_accepted_only_if_signed_witness:
  "\<exists>v0 v s img payload w. verifier_new demo_image_crypto demo_image_key demo_image_policy = Inr v0 \<and>
     feed_all append_sink v0 [demo_container] [] = Some (Inr (), v, s) \<and> finish demo_image_crypto v = Inr img \<and>
     accepted demo_image_crypto demo_image_key demo_image_policy img payload w \<and> written append_sink [] payload s"
proof -
  obtain v0 v s img where run: "verifier_new demo_image_crypto demo_image_key demo_image_policy = Inr v0"
    "feed_all append_sink v0 [demo_container] [] = Some (Inr (), v, s)" "finish demo_image_crypto v = Inr img" using demo_accepts by blast
  from firmware_accepted_only_if_signed [OF run(1), of append_sink "[demo_container]" "[]"] run(2,3)
  obtain payload w where "accepted demo_image_crypto demo_image_key demo_image_policy img payload w" "written append_sink [] payload s"
    by (auto simp del: feed_all.simps)
  with run show ?thesis by blast
qed

definition demo_verified :: verified_image where
  "demo_verified = \<lparr>vi_header = demo_parsed, vi_digest = demo_digest, vi_vid = None, vi_cid = replicate 16 0x42, vi_container_size = 204,
     vi_header_bytes = demo_image_header, vi_protected_tlv = tlv_bytes TLV_PROTECTED_INFO_MAGIC demo_protected @ replicate 40 0, vi_protected_tlv_size = 24\<rparr>"

lemma demo_accepted: "accepted demo_image_crypto demo_image_key demo_image_policy demo_verified demo_payload demo_container"
proof -
  have prot: "protected_tlv demo_verified = tlv_bytes TLV_PROTECTED_INFO_MAGIC demo_protected"
    by (simp add: protected_tlv_def demo_verified_def demo_lengths)
  have "policy_allows demo_image_policy demo_parsed demo_protected"
    by (simp add: policy_allows_def demo_image_policy_def from_raw_cid_def demo_parsed_def demo_protected_def semver_is_older_than_def)
  moreover have "verify_strict demo_image_crypto demo_image_key demo_digest (demo_digest @ demo_image_key)" by (simp add: demo_image_crypto_def)
  moreover have "container demo_image_header demo_parsed demo_payload (protected_tlv demo_verified) demo_protected demo_regular demo_container"
    using demo_signed unfolding prot signed_container_def loadable_def by blast
  moreover have "demo_digest = sha256 demo_image_crypto (demo_image_header @ demo_payload @ protected_tlv demo_verified)"
    unfolding prot by (rule demo_digest_def)
  moreover have "(TLV_SHA256, demo_digest) \<in> set demo_regular" "(TLV_ED25519, demo_digest @ demo_image_key) \<in> set demo_regular"
    "(TLV_KEYHASH, sha256 demo_image_crypto (ED25519_SPKI_PREFIX @ demo_image_key)) \<in> set demo_regular" by (simp_all add: demo_regular_def)
  moreover have "vi_header demo_verified = demo_parsed" "vi_header_bytes demo_verified = demo_image_header" "vi_digest demo_verified = demo_digest"
    by (simp_all add: demo_verified_def)
  ultimately show ?thesis unfolding accepted_def by metis
qed

definition demo_slot :: "unit \<Rightarrow> u32 \<Rightarrow> usize \<Rightarrow> (unit + bytes) \<times> unit" where
  "demo_slot s off n = (Inr (slice demo_payload (unat off) (unat off + n)), s)"

theorem stored_firmware_check_exact_witness:
  "accepted demo_image_crypto demo_image_key demo_image_policy demo_verified demo_payload demo_container \<and>
     verify_stored_image demo_image_crypto 4 demo_slot demo_verified () = Some (Inr (), ())"
  using stored_firmware_check_exact [OF demo_accepted, of 4 demo_slot "()" demo_payload] demo_accepted
  by (simp add: slot_reads_def demo_slot_def demo_lengths round_up_def)

end
