(* ===== verification/Firmware_Upload.thy ===== *)
theory Firmware_Upload
  imports Ymodem_Transfer Mcuboot_Firmware
begin

text \<open>
  A firmware image uploaded by YMODEM (\<open>firmware/common/src/firmware.rs\<close>): the output of the receiver is
  \<open>VerifiedSink\<close>, which feeds every block to the image verifier. The TELNET transport below it, with its timeouts, is the
  line of the YMODEM theories. The field \<open>vs_fed\<close> is not in the code: it is the
  history of what the verifier has taken.
\<close>

section \<open>The output and the upload\<close>

type_synonym transfer_error = string

definition IO_ERROR :: transfer_error where "IO_ERROR = ''TELNET connection ended''"
definition TIMEOUT_ERROR :: transfer_error where "TIMEOUT_ERROR = ''YMODEM transfer timed out''"
definition CANCELLED_ERROR :: transfer_error where "CANCELLED_ERROR = ''YMODEM transfer cancelled''"
definition PROTOCOL_ERROR :: transfer_error where "PROTOCOL_ERROR = ''invalid YMODEM-1K/CRC transfer''"

datatype 'e image_transfer_error = ItTransfer transfer_error | ItImage image_error | ItSink 'e

fun ymodem_error :: "('i, 'w, 'm) ym_error \<Rightarrow> transfer_error" where
  "ymodem_error (YmIo _) = IO_ERROR"
| "ymodem_error YmEndOfStream = IO_ERROR"
| "ymodem_error YmTimeout = TIMEOUT_ERROR"
| "ymodem_error YmCancelled = CANCELLED_ERROR"
| "ymodem_error YmProtocol = PROTOCOL_ERROR"
| "ymodem_error (YmOutput _) = PROTOCOL_ERROR"
| "ymodem_error (YmMetadata _) = PROTOCOL_ERROR"

record ('s, 'e) verified_sink =
  vs_verifier :: streaming_verifier
  vs_sink :: 's
  vs_error :: "'e feed_error option"
  vs_fed :: bytes

definition verified_sink_new :: "streaming_verifier \<Rightarrow> 's \<Rightarrow> ('s, 'e) verified_sink" where
  "verified_sink_new v s = \<lparr>vs_verifier = v, vs_sink = s, vs_error = None, vs_fed = []\<rparr>"

text \<open>A \<open>feed\<close> that does not return would be the first case; \<open>feed_returns\<close> below excludes it.\<close>

definition verified_write ::
  "('s, 'e) payload_sink \<Rightarrow> bytes \<Rightarrow> ('s, 'e) verified_sink \<Rightarrow> (error_kind + usize) \<times> ('s, 'e) verified_sink" where
  "verified_write wr bs b =
     (case verifier_feed wr (vs_verifier b) bs (vs_sink b) of
        None \<Rightarrow> (Inl OtherKind, b)
      | Some (Inr _, v, s) \<Rightarrow> (Inr (length bs), b\<lparr>vs_verifier := v, vs_sink := s, vs_fed := vs_fed b @ bs\<rparr>)
      | Some (Inl e, v, s) \<Rightarrow> (Inl OtherKind, b\<lparr>vs_verifier := v, vs_sink := s, vs_error := Some e\<rparr>))"

text \<open>
  \<open>write_all\<close>, the method that the \<open>Write\<close> trait of \<open>embedded-io-async\<close> provides on top of \<open>write\<close>: it writes until nothing is left.
  \<open>verified_write\<close> takes all of what it is given, so one write is enough.
\<close>

definition verified_write_all ::
  "('s, 'e) payload_sink \<Rightarrow> bytes \<Rightarrow> ('s, 'e) verified_sink \<Rightarrow> (error_kind + unit) \<times> ('s, 'e) verified_sink" where
  "verified_write_all wr bs b =
     (if bs = [] then (Inr (), b)
      else case verified_write wr bs b of (Inl e, b) \<Rightarrow> (Inl e, b) | (Inr _, b) \<Rightarrow> (Inr (), b))"

definition verified_flush :: "('s, 'e) verified_sink \<Rightarrow> (error_kind + unit) \<times> ('s, 'e) verified_sink" where
  "verified_flush b = (Inr (), b)"

text \<open>
  \<open>receive_signed_image\<close> from the point where the transport has started: it makes its own output from the verifier and the slot, and receives
  with the default configuration.
\<close>

type_synonym ('i, 's, 'e) upload_env = "('i, ('s, 'e) verified_sink, error_kind, unit) rx_env"
type_synonym ('i, 's, 'e) upload_state = "('i, ('s, 'e) verified_sink) rx_state"

definition signed_image_env :: "('s, 'e) payload_sink \<Rightarrow> ('i, 's, 'e) upload_env \<Rightarrow> ('i, 's, 'e) upload_env" where
  "signed_image_env wr env = env\<lparr>rx_config := ym_config_default, rx_write_all := verified_write_all wr, rx_flush := verified_flush\<rparr>"

definition receive_signed_image ::
  "('s, 'e) payload_sink \<Rightarrow> ('i, 's, 'e) upload_env \<Rightarrow> streaming_verifier \<Rightarrow> 's \<Rightarrow>
     (('i, 's, 'e) upload_state, 'e image_transfer_error, unit) action" where
  "receive_signed_image wr env verifier sink s =
     (case ym_receive (signed_image_env wr env) (s\<lparr>rx_out := verified_sink_new verifier sink\<rparr>) of
        (None, s) \<Rightarrow> (None, s)
      | (Some result, s) \<Rightarrow>
          let output_error = vs_error (rx_out s); s = s\<lparr>rx_out := (rx_out s)\<lparr>vs_error := None\<rparr>\<rparr>
          in (Some (case output_error of
                      Some (FeImage e) \<Rightarrow> Inl (ItImage e)
                    | Some (FeSink e) \<Rightarrow> Inl (ItSink e)
                    | None \<Rightarrow> map_sum (\<lambda>x. ItTransfer (ymodem_error x)) (\<lambda>_. ()) result), s))"

text \<open>What the device writes to the line while \<open>up\<close> is all that has arrived.\<close>

definition device_writes :: "('s, 'e) payload_sink \<Rightarrow> ('i, 's, 'e) upload_env \<Rightarrow> streaming_verifier \<Rightarrow> 's \<Rightarrow> ('i, 's, 'e) upload_state \<Rightarrow> bytes \<Rightarrow> bytes" where
  "device_writes wr env verifier sink s up = p_out (snd (receive_signed_image wr env verifier sink (s\<lparr>p_in := map ReadByte up\<rparr>)))"

section \<open>The output as a byte sink\<close>

definition upload_ok :: "image_crypto \<Rightarrow> bytes \<Rightarrow> image_policy \<Rightarrow> ('s, 'e) payload_sink \<Rightarrow> 's \<Rightarrow> ('s, 'e) verified_sink \<Rightarrow> bool" where
  "upload_ok C key policy wr s0 b \<longleftrightarrow> (vs_error b = None \<longrightarrow> fed C key policy wr s0 (vs_verifier b) (vs_sink b) (vs_fed b))"

lemma feed_returns:
  assumes "upload_ok C key policy wr s0 b" "vs_error b = None"
  shows "verifier_feed wr (vs_verifier b) bs (vs_sink b) \<noteq> None"
  using fed_more assms unfolding upload_ok_def by (metis option.discI)

lemma verified_write_ok:
  assumes "upload_ok C key policy wr s0 b" "verified_write_all wr bs b = (r, b')"
  shows "upload_ok C key policy wr s0 b' \<and> vs_fed b' = vs_fed b @ (if r = Inr () then bs else [])"
proof (cases "bs = []")
  case False
  obtain x v s where run: "verifier_feed wr (vs_verifier b) bs (vs_sink b) = Some (x, v, s) \<or> verifier_feed wr (vs_verifier b) bs (vs_sink b) = None"
    by (metis option.exhaust prod.collapse)
  have on: "fed C key policy wr s0 v s (vs_fed b @ bs)"
    if "vs_error b = None" "verifier_feed wr (vs_verifier b) bs (vs_sink b) = Some (Inr u, v, s)" for u v s
    using fed_more [of C key policy wr s0 "vs_verifier b" "vs_sink b" "vs_fed b" bs] assms(1) that by (auto simp: upload_ok_def)
  from run show ?thesis
  proof
    assume "verifier_feed wr (vs_verifier b) bs (vs_sink b) = Some (x, v, s)"
    with assms False on show ?thesis by (cases x) (auto simp: verified_write_all_def verified_write_def upload_ok_def)
  next
    assume "verifier_feed wr (vs_verifier b) bs (vs_sink b) = None"
    with assms False show ?thesis by (auto simp: verified_write_all_def verified_write_def)
  qed
qed (use assms in \<open>auto simp: verified_write_all_def\<close>)

interpretation upload: byte_sink "verified_write_all wr" verified_flush vs_fed "upload_ok C key policy wr s0" for C key policy wr s0
proof
  fix b b' :: "('a, 'b) verified_sink" and bs u w r
  show "upload_ok C key policy wr s0 b \<Longrightarrow> verified_write_all wr bs b = (Inr u, b') \<Longrightarrow>
      upload_ok C key policy wr s0 b' \<and> vs_fed b' = vs_fed b @ bs"
    using verified_write_ok [of C key policy wr s0 b bs "Inr u" b'] by auto
  show "upload_ok C key policy wr s0 b \<Longrightarrow> verified_write_all wr bs b = (Inl w, b') \<Longrightarrow>
      upload_ok C key policy wr s0 b' \<and> (\<exists>ys. prefix ys bs \<and> vs_fed b' = vs_fed b @ ys)"
    using verified_write_ok [of C key policy wr s0 b bs "Inl w" b'] by auto
  show "upload_ok C key policy wr s0 b \<Longrightarrow> verified_flush b = (r, b') \<Longrightarrow> upload_ok C key policy wr s0 b' \<and> vs_fed b' = vs_fed b"
    by (simp add: verified_flush_def)
qed

section \<open>The output as a willing output\<close>

text \<open>What the verifier has taken without an error, and what it will take: the beginning of a container with padding.\<close>

definition loaded :: "image_crypto \<Rightarrow> bytes \<Rightarrow> image_policy \<Rightarrow> ('s, 'e) payload_sink \<Rightarrow> 's \<Rightarrow> bytes \<Rightarrow> ('s, 'e) verified_sink \<Rightarrow> bool" where
  "loaded C key policy wr s0 data b \<longleftrightarrow> vs_error b = None \<and> fed C key policy wr s0 (vs_verifier b) (vs_sink b) data"

definition loads :: "image_policy \<Rightarrow> ('s, 'e) payload_sink \<Rightarrow> bytes \<Rightarrow> bool" where
  "loads policy wr data \<longleftrightarrow> sink_takes wr \<and>
     (\<exists>hb header pl prot es rs g w x y. loadable policy hb header pl prot es rs g w \<and> (\<forall>b\<in>set y. b = 0x1a) \<and> data @ x = w @ y)"

interpretation loader: willing_output "verified_write_all wr" verified_flush "loaded C key policy wr s0" "loads policy wr" for C key policy wr s0
proof
  fix data bs and b :: "('a, 'b) verified_sink"
  assume holds: "loaded C key policy wr s0 data b"
  show "\<exists>b'. verified_flush b = (Inr (), b') \<and> loaded C key policy wr s0 data b'" using holds by (simp add: verified_flush_def)
  assume "loads policy wr (data @ bs)"
  then obtain hb header pl prot es rs g w x y where w: "sink_takes wr" "loadable policy hb header pl prot es rs g w" "\<forall>b\<in>set y. b = 0x1a"
    "data @ bs @ x = w @ y" unfolding loads_def by auto
  from holds have state: "vs_error b = None" "fed C key policy wr s0 (vs_verifier b) (vs_sink b) data" by (simp_all add: loaded_def)
  from fed_follows [OF state(2) w(4,1,2,3)] obtain v s where run: "verifier_feed wr (vs_verifier b) bs (vs_sink b) = Some (Inr (), v, s)" by blast
  with fed_more [OF state(2), of bs] have "fed C key policy wr s0 v s (data @ bs)" by auto
  with run state(1) show "\<exists>b'. verified_write_all wr bs b = (Inr (), b') \<and> loaded C key policy wr s0 (data @ bs) b'"
    using holds by (cases "bs = []") (auto simp: verified_write_all_def verified_write_def loaded_def)
next
  show "loads policy wr data" if "loads policy wr (data @ bs)" for data bs
    using that unfolding loads_def by (metis append.assoc)
qed

section \<open>Properties\<close>

abbreviation silent :: "('i, 's, 'e) upload_env \<Rightarrow> ('i, 's, 'e) upload_env" where
  "silent env \<equiv> env\<lparr>rx_on_metadata := \<lambda>_. Inr ()\<rparr>"

lemma fed_nothing:
  assumes "verifier_new C key policy = Inr v0"
  shows "fed C key policy wr s0 v0 s0 []"
  using fedI [OF image_at_new [OF assms], of "[]"] by simp

lemma received_image:
  assumes "receive_signed_image wr env v0 s0 s = (Some (Inr ()), s')"
  shows "\<exists>t s1. receive_with (silent (signed_image_env wr env)) (s\<lparr>rx_out := verified_sink_new v0 s0\<rparr>) = (Some (Inr t), s1) \<and> vs_error (rx_out s1) = None \<and>
    vs_verifier (rx_out s') = vs_verifier (rx_out s1) \<and> vs_sink (rx_out s') = vs_sink (rx_out s1)"
proof -
  obtain r s1 where run: "ym_receive (signed_image_env wr env) (s\<lparr>rx_out := verified_sink_new v0 s0\<rparr>) = (r, s1)" by fastforce
  with assms obtain x where x: "r = Some x" by (cases r) (simp_all add: receive_signed_image_def)
  with assms run show ?thesis unfolding ym_receive_def
    by (cases x) (auto simp: receive_signed_image_def ym_receive_def Let_def split: option.splits feed_error.splits)
qed

lemma output_before_input: "s\<lparr>p_in := i, rx_out := b\<rparr> = s\<lparr>rx_out := b, p_in := i\<rparr>" for s :: "('e, 'o) rx_state"
  by (cases s) simp

lemma device_writes_receiver:
  "device_writes wr env v0 s0 s = receiver_writes (silent (signed_image_env wr env)) (s\<lparr>rx_out := verified_sink_new v0 s0\<rparr>)"
  by (rule ext) (simp add: device_writes_def receiver_writes_def receive_signed_image_def ym_receive_def output_before_input Let_def split: prod.split option.split)

lemma upload_completes:
  assumes "verifier_new C key policy = Inr v0" "signed_container C key policy hb header pl prot es rs g w" "sink_takes wr" "\<forall>b\<in>set padding. b = 0x1a"
    and "able_sender tx pending m meta" "tx_crc tx = rx_crc env" "md_file_size m = length (w @ padding)" "md_file_size m \<le> rx_usize_max env"
    and "on_line [] [] s" "pending (tx_source s) = w @ padding" "on_line [] [] r"
    and "converse (sender_writes tx m s) (device_writes wr env v0 s0 r) (length (file_blocks (w @ padding)) + 4) = (up, down)"
  shows "\<exists>s' r' img. send_with tx m (s\<lparr>p_in := map ReadByte down\<rparr>) = (Some (Inr \<lparr>tr_file_size = length (w @ padding)\<rparr>), s') \<and>
    receive_signed_image wr env v0 s0 (r\<lparr>p_in := map ReadByte up\<rparr>) = (Some (Inr ()), r') \<and> finish C (vs_verifier (rx_out r')) = Inr img \<and>
    vi_header_bytes img = hb \<and> protected_tlv img = prot \<and> written wr s0 pl (vs_sink (rx_out r'))"
proof -
  let ?env = "silent (signed_image_env wr env)" and ?r = "r\<lparr>rx_out := verified_sink_new v0 s0\<rparr>"
  have load: "loadable policy hb header pl prot es rs g w" using assms(2) by (simp add: signed_container_def)
  then have fits: "loads policy wr (w @ padding)" using assms(3,4) unfolding loads_def by (metis append_Nil2)
  have rx: "willing_receiver (verified_write_all wr) verified_flush ?env m" "tx_crc tx = rx_crc ?env"
    using assms(6,8) by (simp_all add: willing_receiver_def signed_image_env_def ym_config_default_def)
  have r: "on_line [] [] ?r" "loaded C key policy wr s0 [] (rx_out ?r)"
    using assms(11) fed_nothing [OF assms(1)] by (simp_all add: on_line_def loaded_def verified_sink_new_def)
  from loader.transfer_completes [OF assms(5) rx assms(7) fits assms(9,10) r assms(12) [unfolded device_writes_receiver]] obtain s' r1 where
    run: "send_with tx m (s\<lparr>p_in := map ReadByte down\<rparr>) = (Some (Inr \<lparr>tr_file_size = length (w @ padding)\<rparr>), s')"
      "receive_with ?env (?r\<lparr>p_in := map ReadByte up\<rparr>) = (Some (Inr \<lparr>tr_file_size = length (w @ padding)\<rparr>), r1)"
      "loaded C key policy wr s0 (w @ padding) (rx_out r1)" by blast
  then have image: "receive_signed_image wr env v0 s0 (r\<lparr>p_in := map ReadByte up\<rparr>) = (Some (Inr ()), r1\<lparr>rx_out := (rx_out r1)\<lparr>vs_error := None\<rparr>\<rparr>)"
    by (simp add: receive_signed_image_def ym_receive_def output_before_input loaded_def)
  from run(3) have "fed C key policy wr s0 (vs_verifier (rx_out r1)) (vs_sink (rx_out r1)) (w @ padding)" by (simp add: loaded_def)
  from fed_signed [OF this assms(2)] run(1) image show ?thesis by fastforce
qed

text \<open>
  C17: an upload yields only signed firmware. Whatever arrives on the line, if the reception reports success and the
  verifier then accepts, the file was announced by an intact metadata block; the payloads of the intact blocks numbered
  1, 2, 3 and so on that arrived after it, cut to the announced size, are a container followed by padding, which
  is signed under the device's key and allowed by its policy; and exactly its payload was written to the slot.
\<close>

theorem uploaded_firmware_is_signed:
  assumes "verifier_new C key policy = Inr v0" "receive_signed_image wr env v0 s0 s = (Some (Inr ()), s')" "finish C (vs_verifier (rx_out s')) = Inr img"
  shows "\<exists>header m avail ws pl w padding. good_block (rx_crc env) 0 header \<and> suffix (header @ avail) (arrived (p_in s)) \<and>
    parse_metadata (rx_usize_max env) (payload header) = Some m \<and> numbered (rx_crc env) 1 ws \<and> carries avail ws \<and>
    take (md_file_size m) (concat (map payload ws)) = w @ padding \<and> (\<forall>b\<in>set padding. b = 0x1a) \<and>
    accepted C key policy img pl w \<and> written wr s0 pl (vs_sink (rx_out s'))"
proof -
  let ?env = "silent (signed_image_env wr env)" and ?s = "s\<lparr>rx_out := verified_sink_new v0 s0\<rparr>"
  from received_image [OF assms(2)] obtain t s1 where run: "receive_with ?env ?s = (Some (Inr t), s1)" "vs_error (rx_out s1) = None"
    "vs_verifier (rx_out s') = vs_verifier (rx_out s1)" "vs_sink (rx_out s') = vs_sink (rx_out s1)" by blast
  have start: "upload_ok C key policy wr s0 (rx_out ?s)" "vs_fed (rx_out ?s) = []"
    using fed_nothing [OF assms(1)] by (simp_all add: upload_ok_def verified_sink_new_def)
  have env: "rx_write_all ?env = verified_write_all wr" "rx_flush ?env = verified_flush" "rx_crc ?env = rx_crc env" "rx_usize_max ?env = rx_usize_max env"
    by (simp_all add: signed_image_env_def)
  from upload.receive_written [OF env(1,2) start(1) run(1)] start(2)
  obtain header m avail data where got: "upload_ok C key policy wr s0 (rx_out s1)" "announces ?env header m" "suffix (header @ avail) (arrived (p_in s))"
    "vs_fed (rx_out s1) = data" "delivers (rx_crc env) 1 avail (md_file_size m) data" "length data = md_file_size m" by (auto simp: env)
  from got(5) obtain ws where ws: "numbered (rx_crc env) 1 ws" "carries avail ws" "prefix data (take (md_file_size m) (concat (map payload ws)))"
    unfolding delivers_def by blast
  have whole: "take (md_file_size m) (concat (map payload ws)) = data"
    using ws(3) got(6) by (metis append_eq_conv_conj length_take min.cobounded2 prefix_def take_all)
  from got(1,4) run(2) have "fed C key policy wr s0 (vs_verifier (rx_out s1)) (vs_sink (rx_out s1)) data" by (simp add: upload_ok_def)
  then obtain h padding where h: "data = h @ padding" "image_at C key policy wr s0 (vs_verifier (rx_out s1)) (vs_sink (rx_out s1)) h" "\<forall>b\<in>set padding. b = 0x1a"
    unfolding fed_def by blast
  from finish_accepted [OF h(2) assms(3) [unfolded run(3)]] obtain pl where "accepted C key policy img pl h" "written wr s0 pl (vs_sink (rx_out s'))"
    unfolding run(4) by blast
  moreover have "good_block (rx_crc env) 0 header" "parse_metadata (rx_usize_max env) (payload header) = Some m"
    using got(2) env(3,4) by (simp_all add: announces_def)
  ultimately show ?thesis using h(3) got(3) ws(1,2) whole [unfolded h(1)] by blast
qed

text \<open>
  C18: an upload of signed firmware gets through. On a line without faults, let a sender whose source holds a container that is
  signed under the device's key and allowed by its policy, with or without padding, talk to a device whose slot takes the
  writes. Then after one round per block and four more both are done, the device reports success and accepts the
  image, and the slot holds its payload.
\<close>

theorem firmware_upload_completes:
  assumes "verifier_new C key policy = Inr v0" "signed_container C key policy hb header pl prot es rs g w" "sink_takes wr" "\<forall>b\<in>set padding. b = 0x1a"
    and "able_sender tx pending m meta" "tx_crc tx = rx_crc env" "md_file_size m = length (w @ padding)" "md_file_size m \<le> rx_usize_max env"
    and "on_line [] [] s" "pending (tx_source s) = w @ padding" "on_line [] [] r"
    and "converse (sender_writes tx m s) (device_writes wr env v0 s0 r) (length (file_blocks (w @ padding)) + 4) = (up, down)"
  shows "\<exists>s' r' img. send_with tx m (s\<lparr>p_in := map ReadByte down\<rparr>) = (Some (Inr \<lparr>tr_file_size = length (w @ padding)\<rparr>), s') \<and>
    receive_signed_image wr env v0 s0 (r\<lparr>p_in := map ReadByte up\<rparr>) = (Some (Inr ()), r') \<and> finish C (vs_verifier (rx_out r')) = Inr img \<and>
    vi_header_bytes img = hb \<and> protected_tlv img = prot \<and> written wr s0 pl (vs_sink (rx_out r'))"
  using assms by (rule upload_completes)

section \<open>Witnesses\<close>

definition demo_upload_rx :: "(unit, bytes, unit) upload_env" where
  "demo_upload_rx = \<lparr>rx_kind = \<lambda>_. OtherKind, rx_crc = \<lambda>bs. of_nat (length bs), rx_usize_max = 65535, rx_config = ym_config_default,
     rx_on_metadata = \<lambda>_. Inr (), rx_write_all = verified_write_all append_sink, rx_flush = verified_flush\<rparr>"

definition demo_host :: "(unit, bytes, unit) tx_state" where
  "demo_host = demo_source\<lparr>tx_source := demo_container\<rparr>"

definition demo_device :: "streaming_verifier \<Rightarrow> (unit, bytes, unit) upload_state" where
  "demo_device v0 = \<lparr>p_in = [], p_out = [], p_room = None, p_error = (), p_flush_error = None, rx_out = verified_sink_new v0 []\<rparr>"

definition demo_announced :: ym_metadata where "demo_announced = \<lparr>md_filename = [97], md_file_size = 204\<rparr>"

definition demo_upload :: "streaming_verifier \<Rightarrow> bytes \<times> bytes" where
  "demo_upload v0 = converse (sender_writes demo_tx demo_announced demo_host) (device_writes append_sink demo_upload_rx v0 [] (demo_device v0))
     (length (file_blocks (demo_container @ [])) + 4)"

lemma demo_container_length: "length demo_container = 204"
  by (simp add: demo_container_def demo_lengths length_tlv_bytes demo_regular_def demo_protected_def encode_tlv_def)

lemma demo_announces: "\<exists>meta. able_sender demo_tx (\<lambda>src. src) demo_announced meta"
proof -
  have "length (decimal_bytes 204) \<le> 20" by (rule decimal_bytes_scratch) simp
  then have "\<exists>meta. metadata_block demo_announced = Inr meta"
    by (auto simp: metadata_block_def demo_announced_def Let_def HEADER_BLOCK_SIZE_def)
  then show ?thesis by (auto simp: able_sender_def demo_tx_def slice_read_law ym_config_default_def)
qed

lemma demo_upload_setting:
  "\<forall>b\<in>set []. b = 0x1a" "tx_crc demo_tx = rx_crc demo_upload_rx" "md_file_size demo_announced = length (demo_container @ [])"
  "md_file_size demo_announced \<le> rx_usize_max demo_upload_rx" "on_line [] [] demo_host" "(\<lambda>src. src) (tx_source demo_host) = demo_container @ []"
  "on_line [] [] (demo_device v0)"
  "converse (sender_writes demo_tx demo_announced demo_host) (device_writes append_sink demo_upload_rx v0 [] (demo_device v0))
     (length (file_blocks (demo_container @ [])) + 4) = (fst (demo_upload v0), snd (demo_upload v0))"
  by (simp_all add: demo_tx_def demo_upload_rx_def demo_announced_def demo_container_length demo_host_def demo_source_def demo_device_def on_line_def
      demo_upload_def del: converse.simps)

theorem firmware_upload_completes_witness:
  "\<exists>v0 s' r' img. verifier_new demo_image_crypto demo_image_key demo_image_policy = Inr v0 \<and>
     send_with demo_tx demo_announced (demo_host\<lparr>p_in := map ReadByte (snd (demo_upload v0))\<rparr>) = (Some (Inr \<lparr>tr_file_size = 204\<rparr>), s') \<and>
     receive_signed_image append_sink demo_upload_rx v0 [] ((demo_device v0)\<lparr>p_in := map ReadByte (fst (demo_upload v0))\<rparr>) = (Some (Inr ()), r') \<and>
     finish demo_image_crypto (vs_verifier (rx_out r')) = Inr img \<and> vi_header_bytes img = demo_image_header"
proof -
  obtain v0 where v0: "verifier_new demo_image_crypto demo_image_key demo_image_policy = Inr v0" using demo_verifier by blast
  from demo_announces obtain meta where tx: "able_sender demo_tx (\<lambda>src. src) demo_announced meta" by blast
  from firmware_upload_completes [OF v0 demo_signed append_sink_takes demo_upload_setting(1) tx demo_upload_setting(2-)] v0
  show ?thesis by (auto simp: demo_container_length)
qed

theorem uploaded_firmware_is_signed_witness:
  "\<exists>v0 s' img pl w. verifier_new demo_image_crypto demo_image_key demo_image_policy = Inr v0 \<and>
     receive_signed_image append_sink demo_upload_rx v0 [] ((demo_device v0)\<lparr>p_in := map ReadByte (fst (demo_upload v0))\<rparr>) = (Some (Inr ()), s') \<and>
     accepted demo_image_crypto demo_image_key demo_image_policy img pl w \<and> written append_sink [] pl (vs_sink (rx_out s'))"
proof -
  obtain v0 where v0: "verifier_new demo_image_crypto demo_image_key demo_image_policy = Inr v0" using demo_verifier by blast
  from demo_announces obtain meta where tx: "able_sender demo_tx (\<lambda>src. src) demo_announced meta" by blast
  from upload_completes [OF v0 demo_signed append_sink_takes demo_upload_setting(1) tx demo_upload_setting(2-)] obtain s' img where
    run: "receive_signed_image append_sink demo_upload_rx v0 [] ((demo_device v0)\<lparr>p_in := map ReadByte (fst (demo_upload v0))\<rparr>) = (Some (Inr ()), s')"
      "finish demo_image_crypto (vs_verifier (rx_out s')) = Inr img" by blast
  from uploaded_firmware_is_signed [OF v0 run] run(1) v0 show ?thesis by blast
qed

end
