(* ===== verification/Cli_Lexer.thy ===== *)
theory Cli_Lexer
  imports Prelude "HOL-Library.Monad_Syntax"
begin

text \<open>
  The lexer of the shell (\<open>microtun-cli/src/lexer.rs\<close>, the errors of \<open>error.rs\<close>). It removes
  quotes and escapes in place: it reads and writes the same buffer, and the tokens are ranges of it. An index
  out of range is the value \<open>None\<close>. The lexer is shown to agree with a tokenizer on lists.
\<close>

section \<open>Errors and tokens\<close>

datatype parse_error_kind = EmptyInput | TooManyTokens | LineTooLong | InvalidUtf8 | UnterminatedQuote | TrailingEscape | UnknownCommand | UnknownOption
  | UnexpectedArgument | MissingArgument | MissingValue | InvalidValue | TooManyValues

record parse_error =
  pe_kind :: parse_error_kind
  pe_argument :: "string option"
  pe_expected :: "string option"

definition parse_error_new :: "parse_error_kind \<Rightarrow> parse_error" where
  "parse_error_new k = \<lparr>pe_kind = k, pe_argument = None, pe_expected = None\<rparr>"

definition MAX_TOKENS :: usize where "MAX_TOKENS = 32"

record lex_token =
  tk_start :: u16
  tk_end :: u16

record lexed =
  lx_bytes :: bytes
  lx_tokens :: "lex_token list"

text \<open>The bytes that are well-formed UTF-8, as \<open>core::str::from_utf8\<close> decides it.\<close>

definition is_continuation :: "u8 \<Rightarrow> bool" where
  "is_continuation b \<longleftrightarrow> b AND 0xc0 = 0x80"

definition in_bytes :: "u8 \<Rightarrow> u8 \<Rightarrow> u8 \<Rightarrow> bool" where
  "in_bytes lo hi b \<longleftrightarrow> lo \<le> b \<and> b \<le> hi"

definition second_ok :: "u8 \<Rightarrow> u8 \<Rightarrow> bool" where
  "second_ok a b \<longleftrightarrow>
     (if a = 0xe0 then in_bytes 0xa0 0xbf b else if a = 0xed then in_bytes 0x80 0x9f b
      else if a = 0xf0 then in_bytes 0x90 0xbf b else if a = 0xf4 then in_bytes 0x80 0x8f b else in_bytes 0x80 0xbf b)"

fun valid_utf8 :: "bytes \<Rightarrow> bool" where
  "valid_utf8 [] = True"
| "valid_utf8 (a # xs) =
     (if a < 0x80 then valid_utf8 xs
      else if in_bytes 0xc2 0xdf a then (case xs of b # ys \<Rightarrow> second_ok a b \<and> valid_utf8 ys | _ \<Rightarrow> False)
      else if in_bytes 0xe0 0xef a then (case xs of b # c # ys \<Rightarrow> second_ok a b \<and> in_bytes 0x80 0xbf c \<and> valid_utf8 ys | _ \<Rightarrow> False)
      else if in_bytes 0xf0 0xf4 a then
        (case xs of b # c # d # ys \<Rightarrow> second_ok a b \<and> in_bytes 0x80 0xbf c \<and> in_bytes 0x80 0xbf d \<and> valid_utf8 ys | _ \<Rightarrow> False)
      else False)"

text \<open>Indexing, and assignment to an index.\<close>

definition byte_at :: "bytes \<Rightarrow> usize \<Rightarrow> u8 option" where
  "byte_at xs i = (if i < length xs then Some (xs ! i) else None)"

definition put_byte :: "bytes \<Rightarrow> usize \<Rightarrow> u8 \<Rightarrow> bytes option" where
  "put_byte xs i b = (if i < length xs then Some (xs[i := b]) else None)"

definition arg :: "lexed \<Rightarrow> usize \<Rightarrow> (parse_error + bytes) option" where
  "arg lx index =
     (if index < length (lx_tokens lx) then
        let t = lx_tokens lx ! index; from = unat (tk_start t); until = unat (tk_end t) in
        if from \<le> until \<and> until \<le> length (lx_bytes lx) then
          let text = slice (lx_bytes lx) from until
          in Some (if valid_utf8 text then Inr text else Inl (parse_error_new InvalidUtf8))
        else None
      else Some (Inl (parse_error_new UnexpectedArgument)))"

section \<open>The lexer\<close>

definition is_space :: "u8 \<Rightarrow> bool" where
  "is_space b \<longleftrightarrow> b \<in> set [0x20, 0x09, 0x0d, 0x0a]"

definition is_quote :: "u8 \<Rightarrow> bool" where
  "is_quote b \<longleftrightarrow> b \<in> set [0x27, 0x22]"

record lex_state =
  ls_buffer :: bytes
  ls_read :: usize
  ls_write :: usize

definition advance :: "lex_state \<Rightarrow> lex_state" where
  "advance s = s\<lparr>ls_read := ls_read s + 1\<rparr>"

definition keep_byte :: "u8 \<Rightarrow> lex_state \<Rightarrow> lex_state option" where
  "keep_byte b s = do {
     buf \<leftarrow> put_byte (ls_buffer s) (ls_write s) b;
     Some (s\<lparr>ls_buffer := buf, ls_write := ls_write s + 1, ls_read := ls_read s + 1\<rparr>) }"

definition keep_escaped :: "usize \<Rightarrow> lex_state \<Rightarrow> ((parse_error + unit) \<times> lex_state) option" where
  "keep_escaped len s =
     (let s = advance s in
      if ls_read s = len then Some (Inl (parse_error_new TrailingEscape), s)
      else do {
        b \<leftarrow> byte_at (ls_buffer s) (ls_read s);
        s \<leftarrow> keep_byte b s;
        Some (Inr (), s) })"

function skip_spaces :: "usize \<Rightarrow> lex_state \<Rightarrow> lex_state option" where
  "skip_spaces len s =
     (if ls_read s < len then do {
        b \<leftarrow> byte_at (ls_buffer s) (ls_read s);
        if is_space b then skip_spaces len (advance s) else Some s }
      else Some s)"
  by pat_completeness auto
termination by (relation "measure (\<lambda>(len, s). len - ls_read s)") (auto simp: advance_def)

lemma keep_byte_read: "keep_byte b s = Some s' \<Longrightarrow> ls_read s' = Suc (ls_read s)"
  by (auto simp: keep_byte_def split: Option.bind_splits)

lemma keep_escaped_read: "keep_escaped len s = Some (Inr u, s') \<Longrightarrow> ls_read s' = Suc (Suc (ls_read s))"
  by (auto simp: keep_escaped_def advance_def Let_def dest: keep_byte_read split: Option.bind_splits if_splits)

function lex_word :: "usize \<Rightarrow> u8 option \<Rightarrow> lex_state \<Rightarrow> ((parse_error + u8 option) \<times> lex_state) option" where
  "lex_word len quote s =
     (if ls_read s < len then do {
        b \<leftarrow> byte_at (ls_buffer s) (ls_read s);
        if quote = Some b then lex_word len None (advance s)
        else if b = 0x5c then do {
          r \<leftarrow> keep_escaped len s;
          case r of (Inl e, s) \<Rightarrow> Some (Inl e, s) | (Inr _, s) \<Rightarrow> lex_word len quote s }
        else if quote = None \<and> is_quote b then lex_word len (Some b) (advance s)
        else if quote = None \<and> is_space b then Some (Inr quote, s)
        else do { s \<leftarrow> keep_byte b s; lex_word len quote s } }
      else Some (Inr quote, s))"
  by pat_completeness auto
termination
  by (relation "measure (\<lambda>(len, q, s). len - ls_read s)") (auto simp: advance_def dest: keep_byte_read keep_escaped_read)

declare skip_spaces.simps [simp del] lex_word.simps [simp del]

lemma skip_spaces_read: "skip_spaces len s = Some s' \<Longrightarrow> ls_read s \<le> ls_read s' \<and> ls_buffer s' = ls_buffer s \<and> ls_write s' = ls_write s \<and>
    (ls_read s' < len \<longrightarrow> \<not> is_space (ls_buffer s' ! ls_read s'))"
proof (induction len s rule: skip_spaces.induct)
  case (1 len s)
  show ?case using "1.prems" "1.IH" unfolding skip_spaces.simps [of len s]
    by (fastforce simp: byte_at_def advance_def split: if_splits)
qed

lemma keep_escaped_stops: "keep_escaped len s = Some (Inl e, s') \<Longrightarrow> ls_read s' = Suc (ls_read s)"
  by (auto simp: keep_escaped_def advance_def Let_def split: if_splits Option.bind_splits)

lemmas lex_reads = keep_byte_read keep_escaped_read keep_escaped_stops

lemma lex_word_read: "lex_word len q s = Some (r, s') \<Longrightarrow> ls_read s \<le> ls_read s'"
proof (induction "len - ls_read s" arbitrary: q s rule: less_induct)
  case less
  show ?case
  proof (cases "ls_read s < len")
    case True
    have ih: "ls_read s \<le> ls_read s'" if "lex_word len q' t = Some (r, s')" "ls_read t = Suc (ls_read s) \<or> ls_read t = Suc (Suc (ls_read s))" for q' t
      using less.hyps [of t] that True by fastforce
    show ?thesis using less.prems True unfolding lex_word.simps [of len q s]
      by (auto split: if_splits Option.bind_splits sum.splits intro: ih dest!: lex_reads simp: advance_def)
  qed (use less.prems in \<open>simp add: lex_word.simps [of len q s]\<close>)
qed

lemma lex_word_moves:
  assumes "lex_word len None s = Some (r, s')" "ls_read s < len" "\<not> is_space (ls_buffer s ! ls_read s)"
  shows "ls_read s < ls_read s'"
  using assms unfolding lex_word.simps [of len None s]
  by (auto split: if_splits Option.bind_splits sum.splits dest!: lex_word_read lex_reads simp: advance_def byte_at_def)

function lex_words :: "usize \<Rightarrow> lex_token list \<Rightarrow> lex_state \<Rightarrow> ((parse_error + lex_token list) \<times> lex_state) option" where
  "lex_words len tokens s =
     (if ls_read s < len then do {
        s \<leftarrow> skip_spaces len s;
        if ls_read s = len then Some (Inr tokens, s)
        else do {
          r \<leftarrow> lex_word len None s;
          case r of
            (Inl e, t) \<Rightarrow> Some (Inl e, t)
          | (Inr (Some _), t) \<Rightarrow> Some (Inl (parse_error_new UnterminatedQuote), t)
          | (Inr None, t) \<Rightarrow>
              if length tokens < MAX_TOKENS then do {
                u \<leftarrow> skip_spaces len t;
                lex_words len (tokens @ [\<lparr>tk_start = of_nat (ls_write s), tk_end = of_nat (ls_write t)\<rparr>]) u }
              else Some (Inl (parse_error_new TooManyTokens), t) } }
      else Some (Inr tokens, s))"
  by pat_completeness auto
termination
proof (relation "measure (\<lambda>(len, ts, s). len - ls_read s)")
  fix len tokens s s' r x y t u
  assume "ls_read s < len" "skip_spaces len s = Some s'" "ls_read s' \<noteq> len" "lex_word len None s' = Some r" "(x, t) = r" "x = Inr y" "y = None"
    "skip_spaces len t = Some u"
  with skip_spaces_read [of len s s'] skip_spaces_read [of len t u] lex_word_read [of len None s' x t] lex_word_moves [of len s' x t]
  show "((len, tokens @ [\<lparr>tk_start = of_nat (ls_write s'), tk_end = of_nat (ls_write t)\<rparr>], u), len, tokens, s) \<in> measure (\<lambda>(len, ts, s). len - ls_read s)"
    by (cases "ls_read s' < len") auto
qed simp

declare lex_words.simps [simp del]

definition lex_line :: "bytes \<Rightarrow> usize \<Rightarrow> ((parse_error + lexed) \<times> bytes) option" where
  "lex_line buffer len =
     (if length buffer < len \<or> 0xffff < len then Some (Inl (parse_error_new LineTooLong), buffer)
      else do {
        (r, s) \<leftarrow> lex_words len [] \<lparr>ls_buffer = buffer, ls_read = 0, ls_write = 0\<rparr>;
        Some (map_sum id (\<lambda>tokens. \<lparr>lx_bytes = take (ls_write s) (ls_buffer s), lx_tokens = tokens\<rparr>) r, ls_buffer s) })"

section \<open>A tokenizer on lists\<close>

text \<open>One word: its bytes without quotes and escapes, and what follows it.\<close>

fun word_of :: "u8 option \<Rightarrow> bytes \<Rightarrow> parse_error_kind + bytes \<times> bytes" where
  "word_of q [] = (if q = None then Inr ([], []) else Inl UnterminatedQuote)"
| "word_of q (b # xs) =
     (if q = Some b then word_of None xs
      else if b = 0x5c then (case xs of [] \<Rightarrow> Inl TrailingEscape | c # ys \<Rightarrow> map_sum id (apfst ((#) c)) (word_of q ys))
      else if q = None \<and> is_quote b then word_of (Some b) xs
      else if q = None \<and> is_space b then Inr ([], b # xs)
      else map_sum id (apfst ((#) b)) (word_of q xs))"

text \<open>The words of a line, at most \<open>room\<close> of them.\<close>

fun words_of :: "nat \<Rightarrow> bytes \<Rightarrow> parse_error_kind + bytes list" where
  "words_of room xs =
     (case dropWhile is_space xs of
        [] \<Rightarrow> Inr []
      | y # ys \<Rightarrow>
          (case word_of None (y # ys) of
             Inl e \<Rightarrow> Inl e
           | Inr (w, rest) \<Rightarrow> (case room of 0 \<Rightarrow> Inl TooManyTokens | Suc n \<Rightarrow> map_sum id ((#) w) (words_of n rest))))"

declare words_of.simps [simp del]

section \<open>The lexer implements the tokenizer\<close>

text \<open>The buffer while the lexer runs: \<open>out\<close> has been kept, \<open>xs\<close> is still to be read, and behind the line nothing changes.\<close>

definition lexing :: "usize \<Rightarrow> bytes \<Rightarrow> bytes \<Rightarrow> bytes \<Rightarrow> lex_state \<Rightarrow> bool" where
  "lexing len after out xs s \<longleftrightarrow> ls_write s \<le> ls_read s \<and> ls_read s \<le> len \<and> len \<le> length (ls_buffer s) \<and>
     take (ls_write s) (ls_buffer s) = out \<and> drop (ls_read s) (take len (ls_buffer s)) = xs \<and> drop len (ls_buffer s) = after"

lemma lexing_next:
  assumes "lexing len after out (b # xs) s"
  shows "ls_read s < len" "byte_at (ls_buffer s) (ls_read s) = Some b" "lexing len after out xs (advance s)"
proof -
  from assms have *: "drop (ls_read s) (take len (ls_buffer s)) = b # xs" "len \<le> length (ls_buffer s)" "ls_read s \<le> len" by (simp_all add: lexing_def)
  then show lt: "ls_read s < len" by (cases "ls_read s = len") auto
  from * lt have "take len (ls_buffer s) ! ls_read s = b" by (metis hd_drop_conv_nth length_take list.sel(1) min.absorb2)
  with * lt show "byte_at (ls_buffer s) (ls_read s) = Some b" by (simp add: byte_at_def)
  from *(1) have "drop (Suc (ls_read s)) (take len (ls_buffer s)) = xs" by (metis drop_Suc list.sel(3) tl_drop)
  with assms lt show "lexing len after out xs (advance s)" by (simp add: lexing_def advance_def)
qed

lemma lexing_end: "lexing len after out [] s \<Longrightarrow> ls_read s = len"
  by (auto simp: lexing_def)

lemma lexing_keep:
  assumes "lexing len after out (b # xs) s"
  shows "\<exists>s'. keep_byte c s = Some s' \<and> lexing len after (out @ [c]) xs s'"
proof -
  note step = lexing_next [OF assms]
  have w: "ls_write s \<le> ls_read s" "len \<le> length (ls_buffer s)" using assms by (simp_all add: lexing_def)
  have "drop (Suc (ls_read s)) (take len ((ls_buffer s)[ls_write s := c])) = drop (Suc (ls_read s)) (take len (ls_buffer s))"
    using w by (simp add: take_update_swap)
  moreover have "take (Suc (ls_write s)) ((ls_buffer s)[ls_write s := c]) = take (ls_write s) (ls_buffer s) @ [c]"
    using w step(1) by (simp add: take_Suc_conv_app_nth)
  ultimately show ?thesis using assms step w by (simp add: keep_byte_def put_byte_def lexing_def advance_def)
qed

lemma lexing_escaped:
  assumes "lexing len after out (b # xs) s"
  shows "xs = [] \<Longrightarrow> \<exists>s'. keep_escaped len s = Some (Inl (parse_error_new TrailingEscape), s') \<and> lexing len after out [] s'"
    and "xs = c # ys \<Longrightarrow> \<exists>s'. keep_escaped len s = Some (Inr (), s') \<and> lexing len after (out @ [c]) ys s'"
proof -
  note on = lexing_next(3) [OF assms]
  show "\<exists>s'. keep_escaped len s = Some (Inl (parse_error_new TrailingEscape), s') \<and> lexing len after out [] s'"
    if "xs = []"
    using lexing_end [of len after out "advance s"] on that by (auto simp: keep_escaped_def Let_def)
  show "\<exists>s'. keep_escaped len s = Some (Inr (), s') \<and> lexing len after (out @ [c]) ys s'" if "xs = c # ys"
    using lexing_next(1,2) [OF on [unfolded that]] lexing_keep [OF on [unfolded that], of c] by (auto simp: keep_escaped_def Let_def)
qed

lemma skip_spaces_lexing:
  "lexing len after out xs s \<Longrightarrow> \<exists>s'. skip_spaces len s = Some s' \<and> lexing len after out (dropWhile is_space xs) s'"
proof (induction xs arbitrary: s)
  case Nil
  then show ?case using lexing_end [OF Nil] by (simp add: skip_spaces.simps [of len s])
next
  case (Cons b xs)
  from Cons.IH [OF lexing_next(3) [OF Cons.prems]] lexing_next(1,2) [OF Cons.prems] Cons.prems
  show ?case by (auto simp: skip_spaces.simps [of len s])
qed

lemma lex_word_lexing:
  assumes "lexing len after out xs s"
  shows "\<exists>r s' out' xs'. lex_word len q s = Some (r, s') \<and> lexing len after out' xs' s' \<and>
    (case word_of q xs of
       Inr (w, rest) \<Rightarrow> r = Inr None \<and> out' = out @ w \<and> xs' = rest
     | Inl e \<Rightarrow> r = Inl (parse_error_new e) \<or> e = UnterminatedQuote \<and> (\<exists>p. r = Inr (Some p)))"
  using assms
proof (induction q xs arbitrary: out s rule: word_of.induct)
  case (1 q)
  have "lex_word len q s = Some (Inr q, s)" using lexing_end [OF 1] by (simp add: lex_word.simps [of len q s])
  with 1 show ?case by (cases q) auto
next
  case (2 q b xs)
  note step = lexing_next [OF "2.prems"]
  consider "q = Some b" | "q \<noteq> Some b" "b = 0x5c" | "q \<noteq> Some b" "b \<noteq> 0x5c" "q = None \<and> is_quote b"
    | "q \<noteq> Some b" "b \<noteq> 0x5c" "q = None \<and> is_space b" "\<not> is_quote b" | "q \<noteq> Some b" "b \<noteq> 0x5c" "\<not> (q = None \<and> is_quote b)" "\<not> (q = None \<and> is_space b)"
    by blast
  then show ?case
  proof cases
    case 1
    have "lex_word len q s = lex_word len None (advance s)" using 1 step(1,2) by (subst lex_word.simps) simp
    with "2.IH"(1) [OF 1 step(3)] 1 show ?thesis by simp
  next
    case 2
    show ?thesis
    proof (cases xs)
      case Nil
      from lexing_escaped(1) [OF "2.prems" Nil] obtain s' where s': "keep_escaped len s = Some (Inl (parse_error_new TrailingEscape), s')" "lexing len after out [] s'" by blast
      with 2 step(1,2) have "lex_word len q s = Some (Inl (parse_error_new TrailingEscape), s')" by (subst lex_word.simps) simp
      with s'(2) 2 Nil show ?thesis by auto
    next
      case (Cons c ys)
      from lexing_escaped(2) [OF "2.prems" Cons] obtain s' where s': "keep_escaped len s = Some (Inr (), s')" "lexing len after (out @ [c]) ys s'" by blast
      have "lex_word len q s = lex_word len q s'" using 2 step(1,2) s'(1) by (subst lex_word.simps) simp
      with "2.IH"(2) [OF 2 Cons s'(2)] 2 Cons show ?thesis by (cases "word_of q ys") auto
    qed
  next
    case 3
    have "lex_word len q s = lex_word len (Some b) (advance s)" using 3 step(1,2) by (subst lex_word.simps) simp
    with "2.IH"(3) [OF 3 step(3)] 3 show ?thesis by simp
  next
    case 4
    have "lex_word len q s = Some (Inr None, s)" using 4 step(1,2) by (subst lex_word.simps) simp
    with 4 "2.prems" show ?thesis by auto
  next
    case 5
    from lexing_keep [OF "2.prems", of b] obtain s' where s': "keep_byte b s = Some s'" "lexing len after (out @ [b]) xs s'" by blast
    have "lex_word len q s = lex_word len q s'" using 5 step(1,2) s'(1) by (subst lex_word.simps) auto
    with "2.IH"(4) [OF 5 s'(2)] 5 show ?thesis by (cases "word_of q xs") auto
  qed
qed

text \<open>What the tokens stand for.\<close>

definition tokens_at :: "bytes \<Rightarrow> lex_token list \<Rightarrow> bytes list \<Rightarrow> bool" where
  "tokens_at out ts ws \<longleftrightarrow> list_all2 (\<lambda>t w. unat (tk_start t) \<le> unat (tk_end t) \<and> unat (tk_end t) \<le> length out \<and>
     slice out (unat (tk_start t)) (unat (tk_end t)) = w) ts ws"

lemma tokens_at_append: "tokens_at out ts ws \<Longrightarrow> tokens_at (out @ x) ts ws"
  unfolding tokens_at_def by (erule list_all2_mono) (auto simp: slice_def)

lemma tokens_at_snoc:
  assumes "tokens_at out ts ws" "length out = i" "length out + length w = j" "j < 2 ^ 16"
  shows "tokens_at (out @ w) (ts @ [\<lparr>tk_start = of_nat i, tk_end = of_nat j\<rparr>]) (ws @ [w])"
proof -
  have "unat (of_nat i :: u16) = i" "unat (of_nat j :: u16) = j" using assms(2-4) by (simp_all add: unsigned_of_nat take_bit_nat_eq_self)
  moreover have "slice (out @ w) i j = w" using assms(2,3) by (auto simp: slice_def)
  ultimately show ?thesis
    using tokens_at_append [OF assms(1), of w] assms(2,3) unfolding tokens_at_def by (auto intro!: list_all2_appendI)
qed

lemma words_of_turn:
  shows "dropWhile is_space xs = [] \<Longrightarrow> words_of room xs = Inr []"
    and "dropWhile is_space xs = y # ys \<Longrightarrow> word_of None (y # ys) = Inl e \<Longrightarrow> words_of room xs = Inl e"
    and "dropWhile is_space xs = y # ys \<Longrightarrow> word_of None (y # ys) = Inr (w, rest) \<Longrightarrow> words_of 0 xs = Inl TooManyTokens"
    and "dropWhile is_space xs = y # ys \<Longrightarrow> word_of None (y # ys) = Inr (w, rest) \<Longrightarrow> words_of (Suc room) xs = map_sum id ((#) w) (words_of room rest)"
  by (subst words_of.simps, simp del: word_of.simps dropWhile_eq_Nil_conv)+

lemma words_of_skip: "words_of room (dropWhile is_space xs) = words_of room xs"
  by (simp add: words_of.simps [of room xs] words_of.simps [of room "dropWhile is_space xs"])

lemma lexing_write: "lexing len after out xs s \<Longrightarrow> ls_write s = length out"
  by (auto simp: lexing_def)

text \<open>One turn of the loop over words.\<close>

lemma lex_words_turn:
  assumes s: "lexing len after out xs s" and ts: "length ts + room = MAX_TOKENS"
  shows "dropWhile is_space xs = [] \<Longrightarrow> \<exists>s'. lex_words len ts s = Some (Inr ts, s') \<and> lexing len after out [] s'"
    and "dropWhile is_space xs = y # ys \<Longrightarrow> word_of None (y # ys) = Inl e \<Longrightarrow>
      \<exists>s' out' xs'. lex_words len ts s = Some (Inl (parse_error_new e), s') \<and> lexing len after out' xs' s'"
    and "dropWhile is_space xs = y # ys \<Longrightarrow> word_of None (y # ys) = Inr (w, rest) \<Longrightarrow> room = 0 \<Longrightarrow>
      \<exists>s' out' xs'. lex_words len ts s = Some (Inl (parse_error_new TooManyTokens), s') \<and> lexing len after out' xs' s'"
    and "dropWhile is_space xs = y # ys \<Longrightarrow> word_of None (y # ys) = Inr (w, rest) \<Longrightarrow> room = Suc n \<Longrightarrow>
      \<exists>u. lex_words len ts s = lex_words len (ts @ [\<lparr>tk_start = of_nat (length out), tk_end = of_nat (length (out @ w))\<rparr>]) u \<and>
        lexing len after (out @ w) (dropWhile is_space rest) u"
proof -
  from skip_spaces_lexing [OF s] obtain t where t: "skip_spaces len s = Some t" "lexing len after out (dropWhile is_space xs) t" by blast
  show "\<exists>s'. lex_words len ts s = Some (Inr ts, s') \<and> lexing len after out [] s'" if none: "dropWhile is_space xs = []"
  proof (cases "ls_read s < len")
    case True
    with t none lexing_end show ?thesis by (auto simp: lex_words.simps [of len ts s])
  next
    case False
    with s have "xs = []" using lexing_next(1) by (cases xs) auto
    with s False show ?thesis by (auto simp: lex_words.simps [of len ts s])
  qed
  assume some: "dropWhile is_space xs = y # ys"
  then obtain b bs where "xs = b # bs" by (cases xs) auto
  with s have lt: "ls_read s < len" using lexing_next(1) by blast
  have t_lt: "ls_read t \<noteq> len" using lexing_next(1) [OF t(2) [unfolded some]] by simp
  note turn = lex_words.simps [of len ts s] and word = lex_word_lexing [OF t(2) [unfolded some], of None]
  show "\<exists>s' out' xs'. lex_words len ts s = Some (Inl (parse_error_new e), s') \<and> lexing len after out' xs' s'" if "word_of None (y # ys) = Inl e"
    using word that lt t_lt t(1) by (auto simp: turn simp del: word_of.simps; blast)
  assume "word_of None (y # ys) = Inr (w, rest)"
  with word obtain v where v: "lex_word len None t = Some (Inr None, v)" "lexing len after (out @ w) rest v" by (auto simp del: word_of.simps)
  show "\<exists>s' out' xs'. lex_words len ts s = Some (Inl (parse_error_new TooManyTokens), s') \<and> lexing len after out' xs' s'" if "room = 0"
    using v lt t_lt t(1) ts that by (auto simp: turn)
  from skip_spaces_lexing [OF v(2)] obtain u where u: "skip_spaces len v = Some u" "lexing len after (out @ w) (dropWhile is_space rest) u" by blast
  show "\<exists>u. lex_words len ts s = lex_words len (ts @ [\<lparr>tk_start = of_nat (length out), tk_end = of_nat (length (out @ w))\<rparr>]) u \<and>
      lexing len after (out @ w) (dropWhile is_space rest) u" if "room = Suc n"
    using v(1) lt t_lt t(1) ts that u lexing_write [OF v(2)] lexing_write [OF t(2)] by (intro exI [of _ u]) (simp add: turn)
qed

lemma lex_words_lexing:
  assumes "lexing len after out xs s" "len < 2 ^ 16" "tokens_at out ts ws" "length ts + room = MAX_TOKENS"
  shows "\<exists>r s' out' xs'. lex_words len ts s = Some (r, s') \<and> lexing len after out' xs' s' \<and>
    (case words_of room xs of
       Inl e \<Rightarrow> r = Inl (parse_error_new e)
     | Inr vs \<Rightarrow> \<exists>us. r = Inr us \<and> out' = out @ concat vs \<and> tokens_at out' us (ws @ vs))"
  using assms(1,3,4)
proof (induction room arbitrary: out xs s ts ws)
  case (Suc room)
  note turn = lex_words_turn [OF Suc.prems(1,3)]
  show ?case
  proof (cases "dropWhile is_space xs")
    case Nil
    with turn(1) [OF Nil] Suc.prems(2) words_of_turn(1) [OF Nil] show ?thesis by auto
  next
    case (Cons y ys)
    show ?thesis
    proof (cases "word_of None (y # ys)")
      case (Inl e)
      with turn(2) [OF Cons Inl] words_of_turn(2) [OF Cons Inl] show ?thesis by auto
    next
      case (Inr p)
      obtain w rest where p: "word_of None (y # ys) = Inr (w, rest)" using Inr by (cases p) simp
      from turn(4) [OF Cons p refl] obtain u where
        u: "lex_words len ts s = lex_words len (ts @ [\<lparr>tk_start = of_nat (length out), tk_end = of_nat (length (out @ w))\<rparr>]) u"
          "lexing len after (out @ w) (dropWhile is_space rest) u" by blast
      have "length (out @ w) < 2 ^ 16" using lexing_write [OF u(2)] u(2) assms(2) by (simp add: lexing_def)
      with tokens_at_snoc [OF Suc.prems(2) refl, of w "length (out @ w)"]
      have "tokens_at (out @ w) (ts @ [\<lparr>tk_start = of_nat (length out), tk_end = of_nat (length (out @ w))\<rparr>]) (ws @ [w])" by simp
      from Suc.IH [OF u(2) this] Suc.prems(3) u(1) words_of_turn(4) [OF Cons p] show ?thesis by (cases "words_of room rest") (auto simp: words_of_skip)
    qed
  qed
next
  case 0
  note turn = lex_words_turn [OF 0(1,3)]
  show ?case
  proof (cases "dropWhile is_space xs")
    case Nil
    with turn(1) [OF Nil] 0(2) words_of_turn(1) [OF Nil] show ?thesis by auto
  next
    case (Cons y ys)
    with turn(2,3) [OF Cons] words_of_turn(2,3) [OF Cons] show ?thesis
      by (cases "word_of None (y # ys)") (fastforce simp del: word_of.simps)+
  qed
qed

lemma tokens_at_arg:
  assumes "tokens_at out ts ws"
  shows "arg \<lparr>lx_bytes = out, lx_tokens = ts\<rparr> i =
    Some (if i < length ws then if valid_utf8 (ws ! i) then Inr (ws ! i) else Inl (parse_error_new InvalidUtf8) else Inl (parse_error_new UnexpectedArgument))"
  using assms by (auto simp: tokens_at_def arg_def Let_def list_all2_conv_all_nth)

section \<open>Properties\<close>

text \<open>
  C38: the lexer of the shell, which works in place, is equivalent to the tokenizer on lists. It returns for every buffer, without an
  index out of range, changes nothing behind the line, reports exactly the errors of the tokenizer,
  and its arguments are the words, in order, if they are UTF-8.
\<close>

theorem lexer_matches_tokenizer:
  "\<exists>r buffer'. lex_line buffer len = Some (r, buffer') \<and> length buffer' = length buffer \<and> drop len buffer' = drop len buffer \<and>
     (case if length buffer < len \<or> 0xffff < len then Inl LineTooLong else words_of MAX_TOKENS (take len buffer) of
        Inl e \<Rightarrow> r = Inl (parse_error_new e)
      | Inr ws \<Rightarrow> \<exists>lx. r = Inr lx \<and> length (lx_tokens lx) = length ws \<and> lx_bytes lx = concat ws \<and>
          (\<forall>i. arg lx i = Some (if i < length ws then if valid_utf8 (ws ! i) then Inr (ws ! i) else Inl (parse_error_new InvalidUtf8)
                                else Inl (parse_error_new UnexpectedArgument))))"
proof (cases "length buffer < len \<or> 0xffff < len")
  case False
  then have start: "lexing len (drop len buffer) [] (take len buffer) \<lparr>ls_buffer = buffer, ls_read = 0, ls_write = 0\<rparr>" "len < 2 ^ 16"
    by (simp_all add: lexing_def)
  have "tokens_at [] [] []" "length ([] :: lex_token list) + MAX_TOKENS = MAX_TOKENS" by (simp_all add: tokens_at_def)
  from lex_words_lexing [OF start this, unfolded append_Nil] obtain r s out xs where
    run: "lex_words len [] \<lparr>ls_buffer = buffer, ls_read = 0, ls_write = 0\<rparr> = Some (r, s)" "lexing len (drop len buffer) out xs s"
      "case words_of MAX_TOKENS (take len buffer) of Inl e \<Rightarrow> r = Inl (parse_error_new e)
       | Inr ws \<Rightarrow> \<exists>us. r = Inr us \<and> out = concat ws \<and> tokens_at out us ws" by blast
  have kept: "drop len (ls_buffer s) = drop len buffer" "take (ls_write s) (ls_buffer s) = out" "len \<le> length (ls_buffer s)"
    using run(2) by (simp_all add: lexing_def)
  then have same: "length (ls_buffer s) = length buffer" using False by (metis add_diff_inverse_nat length_drop not_less)
  show ?thesis
  proof (cases "words_of MAX_TOKENS (take len buffer)")
    case (Inl e)
    with run kept same False show ?thesis by (simp add: lex_line_def)
  next
    case (Inr ws)
    with run(3) obtain us where us: "r = Inr us" "out = concat ws" "tokens_at out us ws" by auto
    have "length us = length ws" using us(3) by (auto simp: tokens_at_def dest: list_all2_lengthD)
    with tokens_at_arg [OF us(3)] Inr run(1) kept same False us(1,2) show ?thesis by (simp add: lex_line_def)
  qed
qed (simp add: lex_line_def)

end
