(* ===== verification/Spec2Isabelle.thy ===== *)
theory Spec2Isabelle
  imports Prelude Clock Constants Replay Ip_Packet Messages Relay_Envelope Rate_Limit
    Session_Index Session_State Pending_Pool Route_Cache Flow_Parser Firewall Crypto_Suite
    Noise_Handshake Cookie_Macs Timestamps Peer_State Core_Config Engine_Monad Core_State Core_Tables
    Core_Transport Core_Transport_Tables Transport_Limits Resolver_Queue Core_Receive Resolver_Answers Core_Timers
    Core_Receive_Tables Engine_Tables Engine Engine_Steps Engine_Progress Engine_Delivery
    Engine_Timers Engine_Deadlines Ws_Frame Ws_Connection Ws_Resume Ws_Roundtrip
    Ymodem_Line Ymodem_Receive Ymodem_Send Ymodem_Metadata Ymodem_Delivery Ymodem_Steps Ymodem_Answers
    Ymodem_Transfer Telnet Telnet_Options Telnet_Negotiation Telnet_Binary Telnet_Streams
    Mcuboot Mcuboot_Areas Mcuboot_Images Mcuboot_Accept Mcuboot_Complete Mcuboot_Firmware Firmware_Upload Cli_Lexer
begin

text \<open>
  A verification development for microtun, a VPN for microcontrollers that speaks a Noise-based
  tunnel protocol without a heap, with the services its devices carry.

  \<^bold>\<open>The program.\<close> \<open>microtun-core\<close> is the protocol engine: a state machine \<open>Core\<close>
  without input or output of its own, whose methods are called by a driver with packets, datagrams, resolver answers and the
  time, and which calls back a sink. It keeps peers, session slots, a receiver-index map, routes in a prefix
  trie, a firewall, rate limiters, parked packets and the bookkeeping of a peer resolver, and runs
  the handshake and the cookie layer over them. \<open>microtun-ws\<close> is the WebSocket that carries the peer
  directory, \<open>microtun-telnet\<close> the codec of the device shell, \<open>microtun-ymodem\<close> the file transfer that runs in
  TELNET binary mode, and \<open>microtun-mcuboot\<close> the verifier of the signed firmware images that arrive by it.

  \<^bold>\<open>Theories and sources.\<close> Names of definitions are those of the code where possible; each theory
  opens with what it holds.

  \<^item> \<open>Prelude\<close>: integer types, saturating arithmetic, slices, byte order, iterator searches.
  \<^item> \<open>Clock\<close>, \<open>Constants\<close>, \<open>Core_Config\<close>: \<open>time.rs\<close>, \<open>constants.rs\<close>, \<open>config.rs\<close> of \<open>microtun-core/src\<close>, as are the next ones.
  \<^item> \<open>Replay\<close>: \<open>replay.rs\<close>, the ring bitmap, refined to an ideal filter (locale \<open>replay_filter\<close>).
  \<^item> \<open>Ip_Packet\<close>, \<open>Messages\<close>, \<open>Relay_Envelope\<close>: \<open>ip.rs\<close>, \<open>messages.rs\<close>, \<open>relay.rs\<close>.
  \<^item> \<open>Rate_Limit\<close>: \<open>rate.rs\<close>; the locale \<open>budget\<close> is interpreted on all three limiters.
  \<^item> \<open>Session_Index\<close>, \<open>Session_State\<close>, \<open>Pending_Pool\<close>, \<open>Peer_State\<close>, \<open>Timestamps\<close>: \<open>session_index.rs\<close>, \<open>session.rs\<close>,
    \<open>pending.rs\<close>, \<open>peer.rs\<close>, and the wall clock of \<open>lib.rs\<close>.
  \<^item> \<open>Node_Pool\<close>, \<open>Prefix_Trie\<close>, \<open>Trie_Refinement\<close>, \<open>Trie_Removal\<close>, \<open>Lpm_Table\<close>, \<open>Route_Cache\<close>: \<open>prefix_trie.rs\<close> and \<open>routing.rs\<close>. The trie works on
    \<open>node_store\<close>, the cache on \<open>lpm_table\<close>, a longest-prefix map.
  \<^item> \<open>Flow_Parser\<close>, \<open>Firewall\<close>: \<open>firewall.rs\<close>.
  \<^item> \<open>Crypto_Suite\<close>, \<open>Noise_Handshake\<close>, \<open>Cookie_Macs\<close>: \<open>crypto.rs\<close>, \<open>noise.rs\<close>, \<open>cookie.rs\<close>.
  \<^item> \<open>Core_State\<close>, \<open>Core_Transport\<close>, \<open>Core_Receive\<close>, \<open>Resolver_Queue\<close>, \<open>Resolver_Answers\<close>, \<open>Core_Timers\<close>: the
    methods of \<open>Core\<close> in \<open>lib.rs\<close> and \<open>resolver.rs\<close>, actions of a state monad (\<open>Engine_Monad\<close>).
  \<^item> \<open>Core_Tables\<close>, \<open>Core_Transport_Tables\<close>, \<open>Core_Receive_Tables\<close>, \<open>Engine_Tables\<close>, \<open>Engine\<close>: the table invariant of the engine, method by method, and
    the engine as a transition system over its entry points.
  \<^item> \<open>Transport_Limits\<close>: what the sending path refuses as too large, what a relay opens of a wrapped datagram, and the life of a
    session that sends.
  \<^item> \<open>Engine_Steps\<close>, \<open>Engine_Progress\<close>, \<open>Engine_Delivery\<close>, \<open>Engine_Timers\<close>, \<open>Engine_Deadlines\<close>: what a method may do to deadlines and to the
    sink, as preorders on states (locale \<open>step_relation\<close>), and the contracts of delivery and of \<open>poll_at\<close>.
  \<^item> \<open>Ws_Frame\<close>, \<open>Ws_Connection\<close>, \<open>Ws_Resume\<close>, \<open>Ws_Roundtrip\<close>: \<open>frame.rs\<close>, \<open>mask.rs\<close>, \<open>error.rs\<close>, \<open>connection.rs\<close> and \<open>io.rs\<close> of \<open>microtun-ws/src\<close>.
  \<^item> \<open>Ymodem_Line\<close>, \<open>Ymodem_Receive\<close>, \<open>Ymodem_Send\<close>, \<open>Ymodem_Metadata\<close>, \<open>Ymodem_Delivery\<close>, \<open>Ymodem_Steps\<close>, \<open>Ymodem_Answers\<close>, \<open>Ymodem_Transfer\<close>:
    \<open>microtun-ymodem/src\<close>; the locale \<open>byte_sink\<close> is what the receiver relies on of its output, \<open>willing_output\<close> what a
    completed transfer needs of it.
  \<^item> \<open>Telnet\<close>, \<open>Telnet_Options\<close>, \<open>Telnet_Negotiation\<close>, \<open>Telnet_Binary\<close>, \<open>Telnet_Streams\<close>: \<open>lib.rs\<close> and \<open>binary.rs\<close> of \<open>microtun-telnet/src\<close>.
  \<^item> \<open>Mcuboot\<close>, \<open>Mcuboot_Areas\<close>, \<open>Mcuboot_Images\<close>, \<open>Mcuboot_Accept\<close>, \<open>Mcuboot_Complete\<close>, \<open>Mcuboot_Firmware\<close>: \<open>microtun-mcuboot/src/lib.rs\<close>.
  \<^item> \<open>Firmware_Upload\<close>: the image upload of \<open>firmware/common/src/firmware.rs\<close>, which composes the YMODEM receiver with the image
    verifier; its output is an interpretation of both locales.
  \<^item> \<open>Cli_Lexer\<close>: the lexer of the shell, \<open>lexer.rs\<close> of \<open>microtun-cli/src\<close> with the parse errors of \<open>error.rs\<close>, against a tokenizer on lists.

  \<^bold>\<open>What is shown.\<close>

  \<^item> Engine: its four tables are consistent in every reachable state (\<open>engine_tables_consistent\<close>); slot
    allocation spares handshakes in flight and live sessions of pinned peers; an inner packet is handed out only if it is authentic,
    fresh, routed to its sender and admitted (\<open>delivered_packets_are_authentic\<close>); \<open>poll_at\<close> is never
    late, and an idle \<open>handle_timeout\<close> leaves nothing due.
  \<^item> Data structures: the trie, the route cache and the replay window refine their abstract
    specifications on every sequence of operations; session links, the index map and the parking pool keep theirs.
  \<^item> Protocol: the two ends of a handshake agree; a cookie challenge can be answered, and a cookie serves only the
    address it was made for and only while its secret is kept; timestamps strictly increase; a session that reached its
    message limit has asked for a rekey, and its rekey deadline lies 60 to 70 seconds before its age limit; the relay parser accepts exactly
    what the writer produces; packets are refused as too large exactly when their datagram would not fit.
  \<^item> Firewall and limits: inbound packets pass only on flows opened from inside that never lapsed, and answers pass for exactly the lifetime of
    the flow; quotas hold, peers are isolated from each other, and
    no limiter grants more than its burst and rate.
  \<^item> Services: WebSocket messages survive any cutting of the stream, and a receive can be dropped and resumed; a YMODEM transfer completes on a
    line without faults, and on any line only checked blocks are stored; TELNET negotiation terminates and
    respects the policy, and payloads survive the framing; firmware is accepted exactly if it is signed and allowed, and the
    check of the written slot is exact; an upload over any line yields only signed firmware
    (\<open>uploaded_firmware_is_signed\<close>), and over a line without faults a signed image gets through; the in-place lexer of the
    shell never goes out of range and finds exactly the words of the line (\<open>lexer_matches_tokenizer\<close>).

  \<^bold>\<open>Conventions.\<close> Machine integers are words of their width with wrapping or saturation as in the
  code; \<open>usize\<close> is \<open>nat\<close>, and \<open>usize::MAX\<close> an argument where the code compares with it. A \<open>Result\<close> is a sum with the error on
  the left; state changes made before an error stay. A panic of the trie is
  the value \<open>None\<close>, shown not to occur; the one panic of the engine, a replay window without words, is a flag of its state,
  and \<open>Core::new\<close> refuses that size. The calls on the engine's sink are
  a trace in the state. Transports are lists of the reads that will complete and writers with
  bounded room, so a loop that reads ends by consuming reads, and waiting for more is a result of its own. Where the
  progress of a loop rests on an invariant it is a partial function, and the theorems say that it returns. The search for a free
  resolve identifier has the size of the table as fuel, which is enough (\<open>next_free_id_fresh\<close>). The build is the
  allocation-free one, with its table sizes; futures are run to completion. Parameters with stated laws or none: the primitives of the crypto
  packages, random numbers, the CRC, containment of the \<open>cidr\<close> package, the relay policy, the application's policies,
  sinks, sources and callbacks.

  \<^bold>\<open>Not modelled.\<close> The drivers of the engine and the tasks of the devices (\<open>microtun-std\<close>, \<open>microtun-embassy\<close>, \<open>firmware\<close>) and
  the host program (\<open>microtun\<close>): input and output through tokio, embassy, libfuse and the hardware, under timeouts of the runtime. The
  text formats over third-party parsers: the WebSocket upgrade, keys in base64, TOML configurations, the JSON of \<open>microtun-api\<close>, CIDR strings. The shell
  library \<open>microtun-cli\<close> above its lexer and its macros, the TELNET client, server and serial sessions above the codec, and the helpers of
  \<open>microtun-net-util\<close>. Zeroing of secrets, formatting and logging have no counterpart in the model.
\<close>

end
